(* ===== verification/Prelude.thy ===== *)
theory Prelude
  imports Main "HOL-Library.Word" "HOL-Library.Monad_Syntax"
begin

text \<open>
  Shared ground of the development: the C integer types, the library's status codes
  (\<open>src/src/xdef.h\<close>), raw memory blocks and the C library's allocator.

  Conventions used by every component:
  \<^item> \<open>size_t\<close> values are natural numbers; every C addition or multiplication on them that may
    wrap goes through \<open>sz\<close> (\<open>mod 2 ^ 64\<close>), and every \<open>(int)\<close> cast of a size goes through
    \<open>to_int\<close> (reduction to 32 bits, two's complement).
  \<^item> A memory block is a list of cells. A read or write outside the block, or through a NULL
    pointer, is undefined behaviour in C: the operation returns \<^term>\<open>None\<close>. A theorem that an
    operation returns \<open>Some\<close> is therefore a memory-safety statement.
  \<^item> \<open>malloc\<close> and \<open>realloc\<close> are the C library's: an allocator is a function that gives, for a
    requested size, either \<open>None\<close> (the NULL of a failed allocation) or a block of that many bytes
    with arbitrary content. \<open>malloc_spec\<close> states the one fact used about it.
  \<^item> A receiver pointer that the C function checks against NULL before doing anything is
    rendered by \<open>on_ptr\<close>; the model of the operation is the body after that guard.
\<close>

unbundle bit_operations_syntax

type_synonym byte = "8 word"
type_synonym u16 = "16 word"
type_synonym u32 = "32 word"
type_synonym u64 = "64 word"

section \<open>Status codes and casts\<close>

abbreviation XSTDNON :: int where "XSTDNON \<equiv> 0"
abbreviation XSTDERR :: int where "XSTDERR \<equiv> -1"
abbreviation XSTDINV :: int where "XSTDINV \<equiv> -2"
abbreviation XSTDEXC :: int where "XSTDEXC \<equiv> -3"
abbreviation XSTDOK :: int where "XSTDOK \<equiv> 1"

text \<open>Arithmetic modulo the range of \<open>size_t\<close> on a 64-bit platform.\<close>

definition sz :: "nat \<Rightarrow> nat" where
  "sz n = n mod 2 ^ 64"

lemma sz_small [simp]: "n < 2 ^ 64 \<Longrightarrow> sz n = n"
  by (simp add: sz_def)

lemma sz_less [simp]: "sz n < 2 ^ 64"
  by (simp add: sz_def)

lemma sz_sub: "k \<le> n \<Longrightarrow> n < 2 ^ 64 \<Longrightarrow> sz (n + 2 ^ 64 - k) = n - k"
proof -
  assume a: "k \<le> n" "n < 2 ^ 64"
  then have "n + 2 ^ 64 - k = n - k + 2 ^ 64" by simp
  then show ?thesis using a by (simp only: sz_def mod_add_self2) simp
qed

text \<open>The cast of a \<open>size_t\<close> to a 32-bit \<open>int\<close>.\<close>

definition to_int :: "nat \<Rightarrow> int" where
  "to_int n = (let m = n mod 2 ^ 32 in if m < 2 ^ 31 then int m else int m - 2 ^ 32)"

lemma to_int_small [simp]: "n < 2 ^ 31 \<Longrightarrow> to_int n = int n"
  by (simp add: to_int_def)

lemma to_int_0 [simp]: "to_int 0 = 0"
  by (simp add: to_int_def)

lemma to_int_range: "- (2 ^ 31) \<le> to_int n \<and> to_int n < 2 ^ 31"
proof -
  have "n mod 4294967296 < 4294967296" by simp
  then show ?thesis by (auto simp: to_int_def Let_def)
qed

lemma to_int_pos: "0 < to_int n \<Longrightarrow> 0 < n"
  by (cases n) (auto simp: to_int_def)

text \<open>A NULL check on the receiver that returns \<open>r\<close> before the body runs.\<close>

definition on_ptr :: "'r \<Rightarrow> ('s \<Rightarrow> 's \<times> 'r) \<Rightarrow> 's option \<Rightarrow> 's option \<times> 'r" where
  "on_ptr r f p = (case p of None \<Rightarrow> (None, r) | Some s \<Rightarrow> (let (s', x) = f s in (Some s', x)))"

section \<open>Raw memory blocks\<close>

named_theorems cmem \<open>reads and writes of memory blocks\<close>

definition peek :: "'a list \<Rightarrow> nat \<Rightarrow> 'a option" where
  "peek d i = (if i < length d then Some (d ! i) else None)"

definition poke :: "'a list \<Rightarrow> nat \<Rightarrow> 'a \<Rightarrow> 'a list option" where
  "poke d i v = (if i < length d then Some (d[i := v]) else None)"

definition mread :: "'a list \<Rightarrow> nat \<Rightarrow> nat \<Rightarrow> 'a list option" where
  "mread d off n = (if off + n \<le> length d then Some (take n (drop off d)) else None)"

definition memcpy :: "'a list \<Rightarrow> nat \<Rightarrow> 'a list \<Rightarrow> 'a list option" where
  "memcpy d off s =
     (if off + length s \<le> length d then Some (take off d @ s @ drop (off + length s) d) else None)"

definition memmove :: "'a list \<Rightarrow> nat \<Rightarrow> nat \<Rightarrow> nat \<Rightarrow> 'a list option" where
  "memmove d dst src n = Option.bind (mread d src n) (memcpy d dst)"

lemma peek_Some [cmem]: "i < length d \<Longrightarrow> peek d i = Some (d ! i)"
  by (simp add: peek_def)

lemma poke_Some [cmem]: "i < length d \<Longrightarrow> poke d i v = Some (d[i := v])"
  by (simp add: poke_def)

lemma mread_Some [cmem]: "off + n \<le> length d \<Longrightarrow> mread d off n = Some (take n (drop off d))"
  by (simp add: mread_def)

lemma memcpy_Some [cmem]:
  "off + length s \<le> length d \<Longrightarrow> memcpy d off s = Some (take off d @ s @ drop (off + length s) d)"
  by (simp add: memcpy_def)

lemma memmove_Some [cmem]:
  "src + n \<le> length d \<Longrightarrow> dst + n \<le> length d \<Longrightarrow>
   memmove d dst src n = Some (take dst d @ take n (drop src d) @ drop (dst + n) d)"
  by (simp add: memmove_def mread_def memcpy_def min_absorb2)

lemma take_snoc_update [simp]: "n < length d \<Longrightarrow> take n (d[n := v]) = take n d"
  by simp

section \<open>The C library's allocator\<close>

type_synonym malloc = "nat \<Rightarrow> byte list option"

definition malloc_spec :: "malloc \<Rightarrow> bool" where
  "malloc_spec m \<longleftrightarrow> (\<forall>n b. m n = Some b \<longrightarrow> length b = n)"

text \<open>
  \<open>realloc\<close> keeps the common prefix of the old block; whatever lies beyond it is fresh. When it
  fails the old block is still there, so a failure is \<open>None\<close> and the caller keeps its block.
\<close>

definition c_realloc :: "malloc \<Rightarrow> byte list \<Rightarrow> nat \<Rightarrow> byte list option" where
  "c_realloc m d n = map_option (\<lambda>f. take n d @ drop (length d) f) (m n)"

lemma malloc_length: "malloc_spec m \<Longrightarrow> m n = Some b \<Longrightarrow> length b = n"
  by (simp add: malloc_spec_def)

lemma c_realloc_length: "malloc_spec m \<Longrightarrow> c_realloc m d n = Some b \<Longrightarrow> length b = n"
  by (auto simp: c_realloc_def malloc_spec_def)

lemma c_realloc_prefix:
  "malloc_spec m \<Longrightarrow> c_realloc m d n = Some b \<Longrightarrow> k \<le> n \<Longrightarrow> k \<le> length d \<Longrightarrow> take k b = take k d"
  by (auto simp: c_realloc_def malloc_spec_def)

text \<open>A concrete allocator that never fails and hands out zeroed blocks, for the witnesses.\<close>

definition zero_malloc :: malloc where
  "zero_malloc n = Some (replicate n 0)"

lemma zero_malloc_spec [simp]: "malloc_spec zero_malloc"
  by (simp add: malloc_spec_def zero_malloc_def)

section \<open>Blocks of pointers\<close>

text \<open>
  An allocator for tables of pointers: for a number of bytes, the cells of the block (eight bytes
  each), with arbitrary content. \<open>fill_null\<close> is the loop that NULLs the cells from \<open>i\<close> up to \<open>n\<close>;
  \<open>shift_left\<close> is the loop that closes the gap of a removed cell \<open>i\<close> among \<open>n\<close> used ones.
\<close>

type_synonym 'a pmalloc = "nat \<Rightarrow> 'a option list option"

definition pmalloc_spec :: "'a pmalloc \<Rightarrow> bool" where
  "pmalloc_spec m \<longleftrightarrow> (\<forall>n b. m n = Some b \<longrightarrow> length b = n div 8)"

definition null_pmalloc :: "'a pmalloc" where
  "null_pmalloc n = Some (replicate (n div 8) None)"

lemma null_pmalloc_spec [simp]: "pmalloc_spec null_pmalloc"
  by (simp add: pmalloc_spec_def null_pmalloc_def)

definition p_realloc :: "'a pmalloc \<Rightarrow> 'a option list \<Rightarrow> nat \<Rightarrow> 'a option list option" where
  "p_realloc m d n = map_option (\<lambda>f. take (n div 8) d @ drop (length d) f) (m n)"

lemma p_realloc_length: "pmalloc_spec m \<Longrightarrow> p_realloc m d n = Some b \<Longrightarrow> length b = n div 8"
  by (auto simp: p_realloc_def pmalloc_spec_def)

lemma p_realloc_prefix:
  "pmalloc_spec m \<Longrightarrow> p_realloc m d n = Some b \<Longrightarrow> k \<le> n div 8 \<Longrightarrow> k \<le> length d \<Longrightarrow> take k b = take k d"
  by (auto simp: p_realloc_def pmalloc_spec_def)

function fill_null :: "'a option list \<Rightarrow> nat \<Rightarrow> nat \<Rightarrow> 'a option list option" where
  "fill_null d i n = (if i < n then do { d' \<leftarrow> poke d i None; fill_null d' (Suc i) n } else Some d)"
  by pat_completeness auto
termination by (relation "measure (\<lambda>(d, i, n). n - i)") auto

declare fill_null.simps [simp del]

lemma fill_null_Some [cmem]:
  "i \<le> n \<Longrightarrow> n \<le> length d \<Longrightarrow> fill_null d i n = Some (take i d @ replicate (n - i) None @ drop n d)"
proof (induction d i n rule: fill_null.induct)
  case (1 d i n)
  show ?case
  proof (cases "i < n")
    case True
    have "fill_null (d[i := None]) (Suc i) n =
      Some (take (Suc i) (d[i := None]) @ replicate (n - Suc i) None @ drop n (d[i := None]))"
      using 1 True by (intro "1.IH") (auto simp: poke_def)
    moreover have "take (Suc i) (d[i := None]) = take i d @ [None]"
      using True 1 by (simp add: take_Suc_conv_app_nth)
    moreover have "n - i = Suc (n - Suc i)" using True by simp
    ultimately show ?thesis
      using True 1 by (subst fill_null.simps) (simp add: poke_def)
  next
    case False
    with 1 show ?thesis by (subst fill_null.simps) simp
  qed
qed

function shift_left :: "'a list \<Rightarrow> nat \<Rightarrow> nat \<Rightarrow> 'a list option" where
  "shift_left d i n =
     (if Suc i < n then do { v \<leftarrow> peek d (Suc i); d' \<leftarrow> poke d i v; shift_left d' (Suc i) n } else Some d)"
  by pat_completeness auto
termination by (relation "measure (\<lambda>(d, i, n). n - i)") auto

declare shift_left.simps [simp del]

lemma shift_left_Some:
  "i < n \<Longrightarrow> n \<le> length d \<Longrightarrow>
   \<exists>v. shift_left d i n = Some (take i d @ take (n - Suc i) (drop (Suc i) d) @ v # drop n d)"
proof (induction d i n rule: shift_left.induct)
  case (1 d i n)
  show ?case
  proof (cases "Suc i < n")
    case True
    let ?d = "d[i := d ! Suc i]"
    have "\<exists>v. shift_left ?d (Suc i) n = Some (take (Suc i) ?d @ take (n - Suc (Suc i)) (drop (Suc (Suc i)) ?d) @ v # drop n ?d)"
      using 1 True by (intro "1.IH") (auto simp: poke_def peek_def)
    moreover have "take (Suc i) ?d = take i d @ [d ! Suc i]"
      using True 1 by (simp add: take_Suc_conv_app_nth)
    moreover have "take (n - Suc i) (drop (Suc i) d) = d ! Suc i # take (n - Suc (Suc i)) (drop (Suc (Suc i)) d)"
      using True 1 by (simp add: Cons_nth_drop_Suc [symmetric] Suc_diff_Suc [symmetric])
    ultimately show ?thesis
      using True 1 by (subst shift_left.simps) (simp add: poke_def peek_def)
  next
    case False
    then have "n = Suc i" using 1 by simp
    with 1 have "d = take i d @ take (n - Suc i) (drop (Suc i) d) @ d ! i # drop n d"
      by (simp add: id_take_nth_drop)
    with \<open>n = Suc i\<close> show ?thesis by (subst shift_left.simps) auto
  qed
qed

text \<open>
  Removing a cell is closing the gap and writing NULL to the last used cell; the cell written is
  the one before \<open>n\<close>, modulo the range of \<open>size_t\<close> when \<open>n\<close> is 0.
\<close>

definition remove_cell :: "'a option list \<Rightarrow> nat \<Rightarrow> nat \<Rightarrow> 'a option list option" where
  "remove_cell d i n = do { d1 \<leftarrow> shift_left d i n; poke d1 (sz (n + 2 ^ 64 - 1)) None }"

lemma sz_pred: "0 < n \<Longrightarrow> n < 2 ^ 64 \<Longrightarrow> sz (n + 2 ^ 64 - 1) = n - 1"
proof -
  assume "0 < n" "n < 2 ^ 64"
  then have "n + 2 ^ 64 - 1 = n - 1 + 2 ^ 64" "n - 1 < 2 ^ 64" by auto
  then show ?thesis by (simp only: sz_def mod_add_self2) simp
qed

lemma remove_cell_Some [cmem]:
  assumes "i < n" "n \<le> length d" "n < 2 ^ 64"
  shows "remove_cell d i n = Some (take i d @ take (n - Suc i) (drop (Suc i) d) @ None # drop n d)"
proof -
  obtain v where v: "shift_left d i n = Some (take i d @ take (n - Suc i) (drop (Suc i) d) @ v # drop n d)"
    using shift_left_Some [OF assms(1,2)] by blast
  have "length (take i d @ take (n - Suc i) (drop (Suc i) d)) = n - 1" using assms by simp
  then have "(take i d @ take (n - Suc i) (drop (Suc i) d) @ v # drop n d)[n - 1 := None] =
      take i d @ take (n - Suc i) (drop (Suc i) d) @ None # drop n d"
    by (metis append.assoc list_update_length)
  with v show ?thesis using assms sz_pred [of n] by (simp add: remove_cell_def poke_def)
qed

section \<open>Single-precision ratios\<close>

text \<open>
  \<open>(float)n\<close> for an unsigned integer rounds to 24 significant bits, ties to even. The growable
  containers compare \<open>(float)nUsed / (float)nSize < 0.25\<close>. For two floats \<open>a\<close>, \<open>b\<close> with 24-bit
  significands the rounded quotient is below the float 0.25 exactly when \<open>4 * a < b\<close>.
\<close>

fun bit_len :: "nat \<Rightarrow> nat" where
  "bit_len n = (if n = 0 then 0 else Suc (bit_len (n div 2)))"

declare bit_len.simps [simp del]

lemma bit_len_bounds: "0 < n \<Longrightarrow> 2 ^ (bit_len n - 1) \<le> n \<and> n < 2 ^ bit_len n"
proof (induction n rule: bit_len.induct)
  case (1 n)
  show ?case
  proof (cases "n div 2 = 0")
    case True
    with 1 have "n = 1" by auto
    then show ?thesis by (simp add: bit_len.simps)
  next
    case False
    then have pos: "0 < bit_len (n div 2)" by (simp add: bit_len.simps)
    from False 1 have ih: "2 ^ (bit_len (n div 2) - 1) \<le> n div 2" "n div 2 < 2 ^ bit_len (n div 2)"
      by auto
    have eq: "bit_len n = Suc (bit_len (n div 2))"
      using 1 by (subst bit_len.simps) simp
    have "2 ^ bit_len (n div 2) = 2 * (2::nat) ^ (bit_len (n div 2) - 1)"
      using pos by (simp add: power_eq_if)
    then have "2 ^ bit_len (n div 2) \<le> 2 * (n div 2)" using ih by linarith
    then have "2 ^ bit_len (n div 2) \<le> n" by linarith
    moreover have "n < 2 * 2 ^ bit_len (n div 2)" using ih by linarith
    ultimately show ?thesis by (simp add: eq)
  qed
qed

definition f32_of :: "nat \<Rightarrow> nat" where
  "f32_of n =
     (if n < 2 ^ 24 then n
      else let k = bit_len n - 24; q = n div 2 ^ k; r = n mod 2 ^ k; h = 2 ^ (k - 1);
               q' = (if r < h then q else if h < r then Suc q else if even q then q else Suc q)
           in q' * 2 ^ k)"

definition below_quarter :: "nat \<Rightarrow> nat \<Rightarrow> bool" where
  "below_quarter u s \<longleftrightarrow> 4 * f32_of u < f32_of s"

lemma f32_of_small [simp]: "n < 2 ^ 24 \<Longrightarrow> f32_of n = n"
  by (simp add: f32_of_def)

lemma f32_of_bounds: "15 * n \<le> 16 * f32_of n \<and> 16 * f32_of n \<le> 17 * n"
proof (cases "n < 2 ^ 24")
  case True
  then show ?thesis by simp
next
  case False
  define k where "k = bit_len n - 24"
  from False have "0 < n" by simp
  note b = bit_len_bounds [OF this]
  have "24 < bit_len n"
  proof (rule ccontr)
    assume "\<not> 24 < bit_len n"
    then have "(2::nat) ^ bit_len n \<le> 2 ^ 24" by (intro power_increasing) auto
    with b False show False by linarith
  qed
  then have "bit_len n - 1 = 23 + k" by (simp add: k_def)
  then have "2 ^ (bit_len n - 1) = 2 ^ 23 * (2::nat) ^ k"
    by (simp add: power_add)
  with b have small: "2 ^ 23 * 2 ^ k \<le> n" by simp
  define q where "q = n div 2 ^ k"
  have n_eq: "n = q * 2 ^ k + n mod 2 ^ k"
    unfolding q_def by (rule div_mult_mod_eq [symmetric])
  have r: "n mod 2 ^ k < 2 ^ k" by simp
  have "f32_of n = q * 2 ^ k \<or> f32_of n = Suc q * 2 ^ k"
    using False by (auto simp: f32_of_def Let_def k_def q_def)
  then have "f32_of n \<le> n + 2 ^ k \<and> n \<le> f32_of n + 2 ^ k"
    using n_eq r by (elim disjE; simp only: mult_Suc; linarith)
  moreover have "16 * 2 ^ k \<le> n" using small by simp
  ultimately show ?thesis by linarith
qed

lemma below_quarter_half: "below_quarter u s \<Longrightarrow> u \<le> s div 2"
  using f32_of_bounds [of u] f32_of_bounds [of s] by (auto simp: below_quarter_def)

lemma below_quarter_strict: "below_quarter u s \<Longrightarrow> 0 < u \<Longrightarrow> u < s div 2"
  using f32_of_bounds [of u] f32_of_bounds [of s] by (auto simp: below_quarter_def)

end
