(* ===== verification/Buf.thy ===== *)
theory Buf
  imports Prelude "HOL-Library.Sublist"
begin

text \<open>
  The dynamic byte buffer \<open>XByteBuffer_*\<close> of \<open>src/src/data/buf.c\<close>: the structure
  \<open>xbyte_buffer_t\<close>, every operation on it, the representation invariant \<open>bb_wf\<close>, the abstract
  content \<open>bb_content\<close> (the first \<open>nUsed\<close> bytes) and the functional behaviour of each operation
  on it. The locale \<open>byte_sink\<close> states what a client that appends relies on; the byte buffer
  interprets it.

  A buffer owns its block when \<open>nSize\<close> is positive and borrows it when \<open>nSize\<close> is zero but
  \<open>pData\<close> is not NULL (\<open>XByteBuffer_SetData\<close>, \<open>XByteBuffer_Set\<close>). The block may be longer than
  \<open>nSize\<close> (\<open>XByteBuffer_OwnData\<close> is told the size by its caller).
\<close>

record xbyte_buffer =
  bb_pData :: "byte list option"
  bb_nSize :: nat
  bb_nUsed :: nat
  bb_nAlloc :: nat
  bb_nFast :: nat
  bb_nStatus :: int

section \<open>Operations\<close>

definition XByteData_Dup :: "malloc \<Rightarrow> byte list option \<Rightarrow> byte list option option" where
  "XByteData_Dup m src =
     (case src of None \<Rightarrow> Some None
      | Some s \<Rightarrow>
          (if s = [] then Some None
           else case m (sz (length s + 1)) of None \<Rightarrow> Some None
             | Some d \<Rightarrow> do { d1 \<leftarrow> memcpy d 0 s; d2 \<leftarrow> poke d1 (length s) 0; Some (Some d2) }))"

definition XByteBuffer_Clear :: "xbyte_buffer \<Rightarrow> xbyte_buffer" where
  "XByteBuffer_Clear b = b\<lparr>bb_nStatus := 0, bb_nSize := 0, bb_nUsed := 0, bb_pData := None\<rparr>"

definition XByteBuffer_Resize :: "malloc \<Rightarrow> xbyte_buffer \<Rightarrow> nat \<Rightarrow> (xbyte_buffer \<times> int) option" where
  "XByteBuffer_Resize m b n =
     (if n = 0 then Some (XByteBuffer_Clear b, XSTDNON)
      else case bb_pData b of
        None \<Rightarrow>
          (case m n of
             None \<Rightarrow> Some (b\<lparr>bb_nStatus := XSTDERR\<rparr>, XSTDERR)
           | Some blk \<Rightarrow> Some (b\<lparr>bb_pData := Some blk, bb_nSize := n, bb_nUsed := 0\<rparr>, to_int n))
      | Some d \<Rightarrow>
          if bb_nSize b = 0 then
            (if n \<le> bb_nUsed b then Some (b, to_int (bb_nUsed b))
             else Some (b\<lparr>bb_nStatus := XSTDERR\<rparr>, XSTDERR))
          else
            case c_realloc m d n of
              None \<Rightarrow> Some (b\<lparr>bb_nStatus := XSTDERR\<rparr>, XSTDERR)
            | Some d1 \<Rightarrow>
                let u = (if n \<le> bb_nUsed b then n - 1 else bb_nUsed b) in do {
                  d2 \<leftarrow> (if u < n then poke d1 u 0 else Some d1);
                  Some (b\<lparr>bb_pData := Some d2, bb_nUsed := u, bb_nSize := n\<rparr>, to_int n)
                })"

definition XByteBuffer_Terminate :: "xbyte_buffer \<Rightarrow> nat \<Rightarrow> (xbyte_buffer \<times> int) option" where
  "XByteBuffer_Terminate b nPosit =
     (case bb_pData b of
        None \<Rightarrow> Some (b, XSTDERR)
      | Some d \<Rightarrow>
          if bb_nUsed b = 0 then Some (b, XSTDERR)
          else let p = min (bb_nUsed b) nPosit in do {
            d1 \<leftarrow> poke d p 0;
            Some (b\<lparr>bb_pData := Some d1, bb_nUsed := p\<rparr>, XSTDOK)
          })"

definition XByteBuffer_Reserve :: "malloc \<Rightarrow> xbyte_buffer \<Rightarrow> nat \<Rightarrow> (xbyte_buffer \<times> int) option" where
  "XByteBuffer_Reserve m b n =
     (if bb_nStatus b < 0 then Some (b, bb_nStatus b)
      else let nn = sz (bb_nUsed b + n) in
        if nn \<le> bb_nSize b then Some (b, to_int (bb_nSize b))
        else XByteBuffer_Resize m b (if bb_nFast b \<noteq> 0 then sz (nn * 2) else nn))"

text \<open>
  \<open>XByteBuffer_Init\<close> writes every field, so it does not depend on what the structure held.
\<close>

definition XByteBuffer_Init :: "malloc \<Rightarrow> nat \<Rightarrow> nat \<Rightarrow> (xbyte_buffer \<times> int) option" where
  "XByteBuffer_Init m nSize nFastAlloc =
     XByteBuffer_Reserve m
       \<lparr>bb_pData = None, bb_nSize = 0, bb_nUsed = 0, bb_nAlloc = 0, bb_nFast = nFastAlloc mod 2 ^ 16,
        bb_nStatus = XSTDOK\<rparr> nSize"

definition XByteBuffer_New :: "bool \<Rightarrow> malloc \<Rightarrow> nat \<Rightarrow> nat \<Rightarrow> xbyte_buffer option option" where
  "XByteBuffer_New ok m nSize nFastAlloc =
     (if \<not> ok then Some None
      else do {
        (b, r) \<leftarrow> XByteBuffer_Init m nSize nFastAlloc;
        Some (if r < 0 then None else Some (b\<lparr>bb_nAlloc := 1\<rparr>))
      })"

text \<open>\<open>XByteBuffer_Free\<close> on a non-NULL handle: the new value of \<open>*pBuffer\<close>.\<close>

definition XByteBuffer_Free :: "xbyte_buffer \<Rightarrow> xbyte_buffer option" where
  "XByteBuffer_Free b =
     (let c = XByteBuffer_Clear b in if bb_nAlloc c \<noteq> 0 then None else Some c)"

definition XByteBuffer_Reset :: "xbyte_buffer \<Rightarrow> xbyte_buffer option" where
  "XByteBuffer_Reset b = do {
     b1 \<leftarrow> (case bb_pData b of
              Some d \<Rightarrow> do { d1 \<leftarrow> poke d 0 0; Some (b\<lparr>bb_pData := Some d1\<rparr>) }
            | None \<Rightarrow> Some (b\<lparr>bb_nSize := 0\<rparr>));
     Some (b1\<lparr>bb_nStatus := 0, bb_nUsed := 0\<rparr>)
   }"

definition XByteBuffer_SetData :: "xbyte_buffer \<Rightarrow> byte list option \<Rightarrow> nat \<Rightarrow> xbyte_buffer \<times> int" where
  "XByteBuffer_SetData b p n =
     (b\<lparr>bb_nStatus := XSTDOK, bb_nSize := 0, bb_nUsed := n, bb_pData := p\<rparr>, to_int n)"

definition XByteBuffer_Set :: "xbyte_buffer \<Rightarrow> xbyte_buffer \<Rightarrow> xbyte_buffer \<times> int" where
  "XByteBuffer_Set b src =
     (b\<lparr>bb_nStatus := XSTDOK, bb_nSize := 0, bb_nUsed := bb_nUsed src, bb_pData := bb_pData src\<rparr>,
      to_int (bb_nUsed src))"

definition XByteBuffer_OwnData :: "xbyte_buffer \<Rightarrow> byte list option \<Rightarrow> nat \<Rightarrow> xbyte_buffer \<times> int" where
  "XByteBuffer_OwnData b p n =
     (let (b1, _) = XByteBuffer_SetData (XByteBuffer_Clear b) p n in (b1\<lparr>bb_nSize := n\<rparr>, to_int n))"

definition XByteBuffer_Own ::
  "xbyte_buffer \<Rightarrow> xbyte_buffer \<Rightarrow> (xbyte_buffer \<times> xbyte_buffer) \<times> int" where
  "XByteBuffer_Own b src =
     (let (b1, _) = XByteBuffer_Set (XByteBuffer_Clear b) src; b2 = b1\<lparr>bb_nSize := bb_nSize src\<rparr>
      in ((b2, src\<lparr>bb_pData := None, bb_nSize := 0, bb_nUsed := 0\<rparr>), to_int (bb_nSize b2)))"

definition XByteBuffer_Add :: "malloc \<Rightarrow> xbyte_buffer \<Rightarrow> byte list option \<Rightarrow> (xbyte_buffer \<times> int) option" where
  "XByteBuffer_Add m b src =
     (case src of
        None \<Rightarrow> Some (b, XSTDNON)
      | Some s \<Rightarrow>
          if s = [] then Some (b, XSTDNON)
          else do {
            (b1, r) \<leftarrow> XByteBuffer_Reserve m b (sz (length s + 1));
            if r \<le> 0 then Some (b1, XSTDERR)
            else do {
              d \<leftarrow> bb_pData b1;
              d1 \<leftarrow> memcpy d (bb_nUsed b1) s;
              let u = sz (bb_nUsed b1 + length s);
              d2 \<leftarrow> poke d1 u 0;
              Some (b1\<lparr>bb_pData := Some d2, bb_nUsed := u\<rparr>, to_int u)
            }
          })"

text \<open>
  \<open>XByteBuffer_ReadStdin\<close>: the chunks \<open>fread\<close> delivers, each with the allocator's behaviour
  during its append. The test \<open>!XByteBuffer_Add(..)\<close> fires on a zero result only.
\<close>

fun XByteBuffer_ReadStdin ::
  "(malloc \<times> byte list) list \<Rightarrow> xbyte_buffer \<Rightarrow> (xbyte_buffer \<times> int) option" where
  "XByteBuffer_ReadStdin [] b = Some (b, to_int (bb_nUsed b))"
| "XByteBuffer_ReadStdin ((m, s) # cs) b =
     (if s = [] then Some (b, to_int (bb_nUsed b))
      else do {
        (b1, r) \<leftarrow> XByteBuffer_Add m b (Some s);
        if r = 0 then Some (b1, XSTDERR) else XByteBuffer_ReadStdin cs b1
      })"

definition XByteBuffer_AddByte :: "malloc \<Rightarrow> xbyte_buffer \<Rightarrow> byte \<Rightarrow> (xbyte_buffer \<times> int) option" where
  "XByteBuffer_AddByte m b v = do {
     (b1, r) \<leftarrow> XByteBuffer_Reserve m b 2;
     if r \<le> 0 then Some (b1, XSTDERR)
     else do {
       d \<leftarrow> bb_pData b1;
       d1 \<leftarrow> poke d (bb_nUsed b1) v;
       let u = sz (bb_nUsed b1 + 1);
       d2 \<leftarrow> poke d1 u 0;
       Some (b1\<lparr>bb_pData := Some d2, bb_nUsed := u\<rparr>, to_int u)
     }
   }"

definition XByteBuffer_GetByte :: "xbyte_buffer \<Rightarrow> nat \<Rightarrow> byte option" where
  "XByteBuffer_GetByte b i =
     (if bb_nUsed b \<le> i then Some 0 else do { d \<leftarrow> bb_pData b; peek d i })"

definition XByteBuffer_NullTerm :: "malloc \<Rightarrow> xbyte_buffer \<Rightarrow> (xbyte_buffer \<times> int) option" where
  "XByteBuffer_NullTerm m b = do {
     (b1, r) \<leftarrow> XByteBuffer_Reserve m b 1;
     if r \<le> 0 then Some (b1, XSTDERR)
     else do {
       d \<leftarrow> bb_pData b1;
       d1 \<leftarrow> poke d (bb_nUsed b1) 0;
       Some (b1\<lparr>bb_pData := Some d1\<rparr>, to_int (bb_nUsed b1))
     }
   }"

definition XByteBuffer_AddBuff :: "malloc \<Rightarrow> xbyte_buffer \<Rightarrow> xbyte_buffer \<Rightarrow> (xbyte_buffer \<times> int) option" where
  "XByteBuffer_AddBuff m b src =
     (case bb_pData src of
        None \<Rightarrow> Some (b, XSTDERR)
      | Some d \<Rightarrow>
          if bb_nUsed src = 0 then Some (b, XSTDERR)
          else do {
            s \<leftarrow> mread d 0 (bb_nUsed src);
            (b1, _) \<leftarrow> XByteBuffer_Add m b (Some s);
            Some (b1, bb_nStatus b1)
          })"

text \<open>\<open>pData\<close> of an insert in the middle is dereferenced even when \<open>nSize\<close> is zero bytes long.\<close>

definition XByteBuffer_Insert ::
  "malloc \<Rightarrow> xbyte_buffer \<Rightarrow> nat \<Rightarrow> byte list option \<Rightarrow> (xbyte_buffer \<times> int) option" where
  "XByteBuffer_Insert m b nPosit src =
     (if bb_nUsed b \<le> nPosit then XByteBuffer_Add m b src
      else do {
        s \<leftarrow> src;
        (b1, r) \<leftarrow> XByteBuffer_Reserve m b (sz (length s + 1));
        if r \<le> 0 then Some (b1, XSTDERR)
        else do {
          d \<leftarrow> bb_pData b1;
          d1 \<leftarrow> memmove d (nPosit + length s) nPosit (bb_nUsed b1 - nPosit);
          d2 \<leftarrow> memcpy d1 nPosit s;
          let u = sz (bb_nUsed b1 + length s);
          d3 \<leftarrow> poke d2 u 0;
          Some (b1\<lparr>bb_pData := Some d3, bb_nUsed := u\<rparr>, to_int u)
        }
      })"

definition XByteBuffer_Remove :: "xbyte_buffer \<Rightarrow> nat \<Rightarrow> nat \<Rightarrow> (xbyte_buffer \<times> int) option" where
  "XByteBuffer_Remove b nPosit n =
     (if n = 0 \<or> bb_nUsed b \<le> nPosit then Some (b, 0)
      else let k = (if bb_nUsed b < sz (nPosit + n) then bb_nUsed b - nPosit else n);
               off = sz (nPosit + k) in
        if bb_nUsed b \<le> off then Some (b\<lparr>bb_nUsed := nPosit\<rparr>, to_int nPosit)
        else do {
          d \<leftarrow> bb_pData b;
          d1 \<leftarrow> memmove d nPosit off (bb_nUsed b - off);
          let u = (if bb_nUsed b < k then 0 else bb_nUsed b - k);
          d2 \<leftarrow> poke d1 u 0;
          Some (b\<lparr>bb_pData := Some d2, bb_nUsed := u\<rparr>, to_int k)
        })"

definition XByteBuffer_Delete :: "malloc \<Rightarrow> xbyte_buffer \<Rightarrow> nat \<Rightarrow> nat \<Rightarrow> (xbyte_buffer \<times> int) option" where
  "XByteBuffer_Delete m b nPosit n = do {
     (b1, _) \<leftarrow> XByteBuffer_Remove b nPosit n;
     (b2, _) \<leftarrow> XByteBuffer_Resize m b1 (sz (bb_nUsed b1 + 1));
     d \<leftarrow> bb_pData b2;
     d1 \<leftarrow> poke d (bb_nUsed b2) 0;
     Some (b2\<lparr>bb_pData := Some d1\<rparr>, bb_nStatus b2)
   }"

definition XByteBuffer_Advance :: "malloc \<Rightarrow> xbyte_buffer \<Rightarrow> nat \<Rightarrow> (xbyte_buffer \<times> int) option" where
  "XByteBuffer_Advance m b n = do {
     (b1, _) \<leftarrow> XByteBuffer_Delete m b 0 n;
     Some (b1, to_int (bb_nUsed b1))
   }"

definition XByteBuffer_HasData :: "xbyte_buffer option \<Rightarrow> bool" where
  "XByteBuffer_HasData p =
     (case p of None \<Rightarrow> False | Some b \<Rightarrow> bb_pData b \<noteq> None \<and> bb_nUsed b \<noteq> 0)"


section \<open>Invariant and abstract content\<close>

definition bb_wf :: "xbyte_buffer \<Rightarrow> bool" where
  "bb_wf b \<longleftrightarrow>
     (case bb_pData b of
        None \<Rightarrow> bb_nSize b = 0 \<and> bb_nUsed b = 0
      | Some d \<Rightarrow> bb_nSize b \<le> length d \<and> bb_nUsed b \<le> length d \<and>
                  (0 < bb_nSize b \<longrightarrow> bb_nUsed b \<le> bb_nSize b) \<and> length d < 2 ^ 63)"

text \<open>The buffer owns its block, or has none.\<close>

definition bb_owned :: "xbyte_buffer \<Rightarrow> bool" where
  "bb_owned b \<longleftrightarrow> bb_wf b \<and> (bb_pData b = None \<or> 0 < bb_nSize b)"

definition bb_content :: "xbyte_buffer \<Rightarrow> byte list" where
  "bb_content b = (case bb_pData b of None \<Rightarrow> [] | Some d \<Rightarrow> take (bb_nUsed b) d)"

lemma bb_content_length: "bb_wf b \<Longrightarrow> length (bb_content b) = bb_nUsed b"
  by (auto simp: bb_wf_def bb_content_def split: option.splits)

lemma bb_content_Some: "bb_pData b = Some d \<Longrightarrow> bb_content b = take (bb_nUsed b) d"
  by (simp add: bb_content_def)

lemma bb_owned_wf: "bb_owned b \<Longrightarrow> bb_wf b"
  by (simp add: bb_owned_def)

lemma bb_ownedI:
  "bb_pData b = Some d \<Longrightarrow> 0 < bb_nSize b \<Longrightarrow> bb_nSize b \<le> length d \<Longrightarrow>
   bb_nUsed b \<le> bb_nSize b \<Longrightarrow> length d < 2 ^ 63 \<Longrightarrow> bb_owned b"
  by (simp add: bb_owned_def bb_wf_def)

lemma bb_ownedE:
  assumes "bb_owned b"
  obtains "bb_pData b = None" "bb_nSize b = 0" "bb_nUsed b = 0" "bb_content b = []"
  | d where "bb_pData b = Some d" "0 < bb_nSize b" "bb_nSize b \<le> length d"
      "bb_nUsed b \<le> bb_nSize b" "length d < 2 ^ 63" "bb_content b = take (bb_nUsed b) d"
  using assms by (cases "bb_pData b") (auto simp: bb_owned_def bb_wf_def bb_content_def)

lemma Clear_owned [simp]: "bb_owned (XByteBuffer_Clear b)"
  and Clear_content [simp]: "bb_content (XByteBuffer_Clear b) = []"
  by (auto simp: bb_owned_def bb_wf_def bb_content_def XByteBuffer_Clear_def)

section \<open>Growing and shrinking the block\<close>

text \<open>
  \<open>Resize\<close> of an owned buffer either fails, leaving block and content alone, or installs a block
  of exactly \<open>n\<close> bytes that still starts with the content (cut to \<open>n - 1\<close> bytes).
\<close>

lemma Resize_cases:
  assumes m: "malloc_spec m" and b: "bb_owned b" and n: "0 < n"
  obtains
    (fail) "XByteBuffer_Resize m b n = Some (b\<lparr>bb_nStatus := XSTDERR\<rparr>, XSTDERR)"
  | (ok) d where
      "XByteBuffer_Resize m b n =
         Some (b\<lparr>bb_pData := Some d, bb_nUsed := min (bb_nUsed b) (n - 1), bb_nSize := n\<rparr>, to_int n)"
      "length d = n" "take (min (bb_nUsed b) (n - 1)) d = take (n - 1) (bb_content b)"
      "bb_pData b \<noteq> None \<longrightarrow> d ! min (bb_nUsed b) (n - 1) = 0"
proof (rule bb_ownedE [OF b])
  assume none: "bb_pData b = None" "bb_nSize b = 0" "bb_nUsed b = 0" "bb_content b = []"
  show ?thesis
  proof (cases "m n")
    case None
    with none n show ?thesis by (intro fail) (simp add: XByteBuffer_Resize_def)
  next
    case (Some blk)
    with none n m show ?thesis
      by (intro ok [of blk]) (auto simp: XByteBuffer_Resize_def malloc_length)
  qed
next
  fix d
  assume some: "bb_pData b = Some d" "0 < bb_nSize b" "bb_nSize b \<le> length d"
    "bb_nUsed b \<le> bb_nSize b" "length d < 2 ^ 63" "bb_content b = take (bb_nUsed b) d"
  show ?thesis
  proof (cases "c_realloc m d n")
    case None
    with some n show ?thesis by (intro fail) (simp add: XByteBuffer_Resize_def)
  next
    case (Some d1)
    let ?u = "min (bb_nUsed b) (n - 1)"
    have len: "length d1 = n" using m Some by (rule c_realloc_length)
    have u: "?u < n" "(if n \<le> bb_nUsed b then n - 1 else bb_nUsed b) = ?u" using n by auto
    have pre: "take ?u d1 = take ?u d"
      using m Some by (rule c_realloc_prefix) (use some n in auto)
    have "XByteBuffer_Resize m b n =
        Some (b\<lparr>bb_pData := Some (d1[?u := 0]), bb_nUsed := ?u, bb_nSize := n\<rparr>, to_int n)"
      unfolding XByteBuffer_Resize_def using some n len Some u
      by (simp add: Let_def poke_def del: min_less_iff_conj)
    moreover have "take ?u (d1[?u := 0]) = take (n - 1) (bb_content b)"
      using len u pre some by (simp add: min.commute)
    ultimately show ?thesis
      by (intro ok [of "d1[?u := 0]"]) (use len u in \<open>auto simp del: min_less_iff_conj\<close>)
  qed
qed

text \<open>
  \<open>Reserve\<close> of an owned buffer either fails, or leaves a block with room for \<open>n\<close> more bytes that
  starts with the unchanged content.
\<close>

lemma Reserve_cases:
  assumes m: "malloc_spec m" and b: "bb_owned b" and n: "0 < n" "bb_nUsed b + n < 2 ^ 62"
  obtains
    (fail) s where "XByteBuffer_Reserve m b n = Some (b\<lparr>bb_nStatus := s\<rparr>, s)" "s < 0"
  | (ok) d k where
      "XByteBuffer_Reserve m b n = Some (b\<lparr>bb_pData := Some d, bb_nSize := k\<rparr>, to_int k)"
      "bb_nUsed b + n \<le> k" "k \<le> length d" "length d < 2 ^ 63" "take (bb_nUsed b) d = bb_content b"
proof (cases "bb_nStatus b < 0")
  case True
  then show ?thesis by (intro fail [of "bb_nStatus b"]) (simp_all add: XByteBuffer_Reserve_def)
next
  case False
  let ?nn = "bb_nUsed b + n"
  have nn: "sz ?nn = ?nn" using n by simp
  show ?thesis
  proof (cases "?nn \<le> bb_nSize b")
    case True
    then have "0 < bb_nSize b" using n by simp
    with b obtain d where d: "bb_pData b = Some d" "bb_nSize b \<le> length d" "length d < 2 ^ 63"
      by (auto elim: bb_ownedE)
    have "XByteBuffer_Reserve m b n = Some (b\<lparr>bb_pData := Some d, bb_nSize := bb_nSize b\<rparr>, to_int (bb_nSize b))"
      using False True nn d by (simp add: XByteBuffer_Reserve_def Let_def)
    then show ?thesis using True d by (intro ok [where d = d and k = "bb_nSize b"]) (auto simp: bb_content_Some)
  next
    case nofit: False
    let ?k = "if bb_nFast b \<noteq> 0 then sz (?nn * 2) else ?nn"
    have k: "?nn \<le> ?k" "?k < 2 ^ 63" using n by auto
    have res: "XByteBuffer_Reserve m b n = XByteBuffer_Resize m b ?k"
      using False nofit by (simp add: XByteBuffer_Reserve_def nn Let_def)
    have pos: "0 < ?k" and min: "min (bb_nUsed b) (?k - 1) = bb_nUsed b" using k n by auto
    from m b pos show ?thesis
    proof (cases rule: Resize_cases)
      case fail
      show ?thesis by (rule that(1) [of XSTDERR], unfold res, rule fail, simp)
    next
      case (ok d)
      have "length (bb_content b) \<le> ?k - 1"
        using bb_content_length [OF bb_owned_wf [OF b]] k n by simp
      then have "take (bb_nUsed b) d = bb_content b" using ok(3) unfolding min by simp
      moreover have "XByteBuffer_Reserve m b n = Some (b\<lparr>bb_pData := Some d, bb_nSize := ?k\<rparr>, to_int ?k)"
        unfolding res ok(1) min by simp
      ultimately show ?thesis
        using k ok(2) by (intro that(2) [where d = d and k = ?k]) simp_all
    qed
  qed
qed


section \<open>Appending, inserting, removing\<close>

text \<open>
  The outcome of an operation that edits the content: it is defined (no access outside the
  block), the buffer stays owned and well formed, and either it reports an error and the content
  is what it was, or the content is the edited one and ends in a NUL byte inside the block.
\<close>

definition bb_edit :: "xbyte_buffer \<Rightarrow> byte list \<Rightarrow> (xbyte_buffer \<times> int) option \<Rightarrow> bool" where
  "bb_edit b c res \<longleftrightarrow>
     (\<exists>b' r. res = Some (b', r) \<and> bb_owned b' \<and>
        (r = XSTDERR \<and> bb_content b' = bb_content b \<or>
         r = to_int (length c) \<and> bb_content b' = c \<and> bb_nStatus b' = bb_nStatus b \<and>
         (\<exists>d. bb_pData b' = Some d \<and> length c < length d \<and> d ! length c = 0)))"


lemma bb_edit_err: "bb_owned b' \<Longrightarrow> bb_content b' = bb_content b \<Longrightarrow> bb_edit b c (Some (b', XSTDERR))"
  by (simp add: bb_edit_def)

lemma bb_edit_ok:
  "bb_content b' = c \<Longrightarrow> bb_owned b' \<Longrightarrow> bb_nStatus b' = bb_nStatus b \<Longrightarrow> bb_pData b' = Some d \<Longrightarrow>
   length c < length d \<Longrightarrow> d ! length c = 0 \<Longrightarrow> bb_edit b c (Some (b', to_int (length c)))"
  by (simp add: bb_edit_def)

lemma owned_status: "bb_owned b \<Longrightarrow> bb_owned (b\<lparr>bb_nStatus := s\<rparr>)"
  and content_status [simp]: "bb_content (b\<lparr>bb_nStatus := s\<rparr>) = bb_content b"
  by (auto simp: bb_owned_def bb_wf_def bb_content_def split: option.splits)

text \<open>
  The common tail of the editing operations: after a successful \<open>Reserve\<close> the block is
  overwritten by one that starts with the new content \<open>c\<close>, and a NUL is stored behind it.
\<close>

lemma bb_finish:
  assumes "k \<le> length d" "length d < 2 ^ 63" "length c < k" "length d1 = length d" "take (length c) d1 = c"
  shows "bb_edit b c
     (do { d2 \<leftarrow> poke d1 (length c) 0;
           Some (b\<lparr>bb_nSize := k, bb_pData := Some d2, bb_nUsed := length c\<rparr>, to_int (length c)) })"
  using assms
  by (auto simp: poke_def bb_content_def intro!: bb_edit_ok bb_ownedI)

lemma Add_edit:
  assumes m: "malloc_spec m" and b: "bb_owned b" and n: "bb_nUsed b + length s + 1 < 2 ^ 62" and s: "s \<noteq> []"
  shows "bb_edit b (bb_content b @ s) (XByteBuffer_Add m b (Some s))"
proof -
  have len: "length (bb_content b) = bb_nUsed b" by (rule bb_content_length [OF bb_owned_wf [OF b]])
  have l: "0 < length s + 1" "bb_nUsed b + (length s + 1) < 2 ^ 62" using n by auto
  from m b l show ?thesis
  proof (cases rule: Reserve_cases)
    case (fail st)
    with n s show ?thesis
      by (simp add: XByteBuffer_Add_def bb_edit_err owned_status b)
  next
    case (ok d k)
    show ?thesis
    proof (cases "to_int k \<le> 0")
      case True
      have "bb_owned (b\<lparr>bb_pData := Some d, bb_nSize := k\<rparr>)"
        by (rule bb_ownedI) (use ok in auto)
      moreover have "bb_content (b\<lparr>bb_pData := Some d, bb_nSize := k\<rparr>) = bb_content b"
        using ok by (simp add: bb_content_def)
      ultimately show ?thesis
        using ok n s True by (simp add: XByteBuffer_Add_def bb_edit_err)
    next
      case False
      define d1 where "d1 = take (bb_nUsed b) d @ s @ drop (bb_nUsed b + length s) d"
      have cpy: "memcpy d (bb_nUsed b) s = Some d1"
        unfolding d1_def using ok by (intro memcpy_Some) auto
      have "XByteBuffer_Add m b (Some s) =
        do { d2 \<leftarrow> poke d1 (length (bb_content b @ s)) 0;
             Some (b\<lparr>bb_nSize := k, bb_pData := Some d2, bb_nUsed := length (bb_content b @ s)\<rparr>,
                   to_int (length (bb_content b @ s))) }"
        using ok n s False by (simp add: XByteBuffer_Add_def cpy len Let_def)
      moreover have "length d1 = length d" "take (length (bb_content b @ s)) d1 = bb_content b @ s"
        using ok len by (auto simp: d1_def)
      ultimately show ?thesis using ok len
        by (simp only:) (rule bb_finish, auto)
    qed
  qed
qed


text \<open>Appending one byte is appending a one-byte block.\<close>

lemma AddByte_is_Add: "XByteBuffer_AddByte m b v = XByteBuffer_Add m b (Some [v])"
proof -
  have "sz (Suc (Suc 0)) = Suc (Suc 0)" by simp
  moreover have "poke d i x = memcpy d i [x]" for d :: "byte list" and i x
    by (simp add: poke_def memcpy_def upd_conv_take_nth_drop)
  ultimately show ?thesis
    by (cases "XByteBuffer_Reserve m b (Suc (Suc 0))")
      (auto simp: XByteBuffer_AddByte_def XByteBuffer_Add_def Let_def numeral_2_eq_2)
qed

lemma Insert_edit:
  assumes m: "malloc_spec m" and b: "bb_owned b" and n: "bb_nUsed b + length s + 1 < 2 ^ 62"
    and s: "s \<noteq> []"
  shows "bb_edit b (take p (bb_content b) @ s @ drop p (bb_content b)) (XByteBuffer_Insert m b p (Some s))"
proof (cases "bb_nUsed b \<le> p")
  case True
  have "length (bb_content b) \<le> p" using True bb_content_length [OF bb_owned_wf [OF b]] by simp
  with True show ?thesis using Add_edit [OF m b n s] by (simp add: XByteBuffer_Insert_def)
next
  case mid: False
  have len: "length (bb_content b) = bb_nUsed b" by (rule bb_content_length [OF bb_owned_wf [OF b]])
  have l: "0 < length s + 1" "bb_nUsed b + (length s + 1) < 2 ^ 62" using n by auto
  let ?c = "take p (bb_content b) @ s @ drop p (bb_content b)"
  have lc: "length ?c = bb_nUsed b + length s" using mid len by simp
  from m b l show ?thesis
  proof (cases rule: Reserve_cases)
    case (fail st)
    with n mid show ?thesis by (simp add: XByteBuffer_Insert_def bb_edit_err owned_status b)
  next
    case (ok d k)
    show ?thesis
    proof (cases "to_int k \<le> 0")
      case True
      have "bb_owned (b\<lparr>bb_pData := Some d, bb_nSize := k\<rparr>)"
        by (rule bb_ownedI) (use ok in auto)
      moreover have "bb_content (b\<lparr>bb_pData := Some d, bb_nSize := k\<rparr>) = bb_content b"
        using ok by (simp add: bb_content_def)
      ultimately show ?thesis
        using ok n mid True by (simp add: XByteBuffer_Insert_def bb_edit_err)
    next
      case False
      define d1 where "d1 = take (p + length s) d @ take (bb_nUsed b - p) (drop p d) @ drop (bb_nUsed b + length s) d"
      define d2 where "d2 = take p d1 @ s @ drop (p + length s) d1"
      have mv: "memmove d (p + length s) p (bb_nUsed b - p) = Some d1"
        using ok mid by (subst memmove_Some) (auto simp: d1_def ac_simps)
      have ld1: "length d1 = length d" using ok mid by (auto simp: d1_def)
      have cpy: "memcpy d1 p s = Some d2"
        unfolding d2_def using ok mid ld1 by (intro memcpy_Some) auto
      have c: "take (length ?c) d2 = ?c"
      proof -
        have "take p d1 = take p (bb_content b)"
          using ok mid by (simp add: d1_def flip: ok(5))
        moreover have "take (bb_nUsed b - p) (drop (p + length s) d1) = drop p (bb_content b)"
          using ok mid by (simp add: d1_def drop_take flip: ok(5))
        ultimately show ?thesis using mid len lc ok ld1 by (simp add: d2_def)
      qed
      have eq: "XByteBuffer_Insert m b p (Some s) =
        do { d2 \<leftarrow> poke d2 (length ?c) 0;
             Some (b\<lparr>bb_nSize := k, bb_pData := Some d2, bb_nUsed := length ?c\<rparr>, to_int (length ?c)) }"
        unfolding lc using ok n mid False by (simp add: XByteBuffer_Insert_def mv cpy Let_def)
      have "length d2 = length d" using ok mid ld1 by (simp add: d2_def)
      then show ?thesis unfolding eq by (intro bb_finish [where d = d]) (use ok lc c in auto)
    qed
  qed
qed

text \<open>
  \<open>Remove\<close> never touches memory outside the content, for owned and for borrowed blocks. Its
  result is the number of removed bytes only when something is left behind the removed range.
\<close>

definition remove_result :: "xbyte_buffer \<Rightarrow> nat \<Rightarrow> nat \<Rightarrow> int" where
  "remove_result b p n =
     (if n = 0 \<or> bb_nUsed b \<le> p then 0 else if bb_nUsed b \<le> p + n then to_int p else to_int n)"

lemma Remove_spec:
  assumes wf: "bb_wf b" and n: "p + n < 2 ^ 64"
  obtains b' where "XByteBuffer_Remove b p n = Some (b', remove_result b p n)" "bb_wf b'"
    "bb_content b' = take p (bb_content b) @ drop (p + n) (bb_content b)"
    "bb_nSize b' = bb_nSize b" "bb_nStatus b' = bb_nStatus b"
    "map_option length (bb_pData b') = map_option length (bb_pData b)"
    "bb_nUsed b' = length (take p (bb_content b) @ drop (p + n) (bb_content b))"
proof -
  have len: "length (bb_content b) = bb_nUsed b" by (rule bb_content_length [OF wf])
  consider (nothing) "n = 0 \<or> bb_nUsed b \<le> p" | (tail) "n \<noteq> 0" "p < bb_nUsed b" "bb_nUsed b \<le> p + n"
    | (mid) "n \<noteq> 0" "p + n < bb_nUsed b"
    by linarith
  then show ?thesis
  proof cases
    case nothing
    then show ?thesis
      using wf len by (intro that [of b]) (auto simp: XByteBuffer_Remove_def remove_result_def)
  next
    case tail
    have "p < 2 ^ 64" using n by simp
    moreover from tail have "p + (bb_nUsed b - p) = bb_nUsed b" by simp
    moreover from tail wf obtain d where d: "bb_pData b = Some d" "bb_nUsed b \<le> length d" "length d < 2 ^ 63"
      by (auto simp: bb_wf_def split: option.splits)
    moreover have "p + n = bb_nUsed b \<Longrightarrow> n = bb_nUsed b - p" by simp
    ultimately have "XByteBuffer_Remove b p n = Some (b\<lparr>bb_nUsed := p\<rparr>, remove_result b p n)"
      using tail n by (auto simp: XByteBuffer_Remove_def remove_result_def Let_def)
    moreover have "bb_wf (b\<lparr>bb_nUsed := p\<rparr>)" using wf tail d by (auto simp: bb_wf_def)
    moreover have "bb_content (b\<lparr>bb_nUsed := p\<rparr>) = take p (bb_content b)"
      using tail d by (simp add: bb_content_def)
    ultimately show ?thesis using tail len by (intro that [of "b\<lparr>bb_nUsed := p\<rparr>"]) auto
  next
    case mid
    from mid wf obtain d where d: "bb_pData b = Some d" "bb_nUsed b \<le> length d" "length d < 2 ^ 63"
      "bb_nSize b \<le> length d" "0 < bb_nSize b \<longrightarrow> bb_nUsed b \<le> bb_nSize b"
      by (auto simp: bb_wf_def split: option.splits)
    define u where "u = bb_nUsed b - n"
    define d1 where "d1 = take p d @ take (bb_nUsed b - (p + n)) (drop (p + n) d) @ drop u d"
    have mv: "memmove d p (p + n) (bb_nUsed b - (p + n)) = Some d1"
      using d mid by (subst memmove_Some) (auto simp: d1_def u_def)
    have ld1: "length d1 = length d" using d mid by (auto simp: d1_def u_def)
    have u: "u < length d" "u < bb_nUsed b" using d mid by (auto simp: u_def)
    let ?b = "b\<lparr>bb_pData := Some (d1[u := 0]), bb_nUsed := u\<rparr>"
    have eq: "XByteBuffer_Remove b p n = Some (?b, remove_result b p n)"
      using mid n d u by (auto simp: XByteBuffer_Remove_def remove_result_def Let_def mv poke_def ld1 u_def)
    have "bb_content ?b = take u d1" by (simp add: bb_content_def)
    also have "\<dots> = take p d @ take (bb_nUsed b - (p + n)) (drop (p + n) d)"
      using mid d by (simp add: d1_def u_def add.commute [of n p])
    also have "\<dots> = take p (bb_content b) @ drop (p + n) (bb_content b)"
      unfolding bb_content_Some [OF d(1)] drop_take take_take using mid by (simp add: min_absorb1)
    finally have c: "bb_content ?b = take p (bb_content b) @ drop (p + n) (bb_content b)" .
    have wf': "bb_wf ?b" using d mid by (auto simp: bb_wf_def ld1 u_def)
    show ?thesis
      by (rule that [OF eq wf' c]) (use d mid len in \<open>auto simp: ld1 u_def\<close>)
  qed
qed


text \<open>
  \<open>Delete\<close> and \<open>Advance\<close> on an owned buffer with a spare byte behind the content: defined and
  content-correct whether or not the shrinking \<open>realloc\<close> succeeds.
\<close>

definition bb_spare :: "xbyte_buffer \<Rightarrow> bool" where
  "bb_spare b \<longleftrightarrow> bb_owned b \<and> (\<exists>d. bb_pData b = Some d \<and> bb_nUsed b < length d)"

lemma Delete_spec:
  assumes m: "malloc_spec m" and b: "bb_spare b" and n: "p + n < 2 ^ 64"
  obtains b' where "XByteBuffer_Delete m b p n = Some (b', bb_nStatus b')" "bb_spare b'"
    "bb_content b' = take p (bb_content b) @ drop (p + n) (bb_content b)"
proof -
  from b obtain d where d: "bb_pData b = Some d" "bb_nUsed b < length d" "length d < 2 ^ 63"
    and ow: "bb_owned b" "0 < bb_nSize b" "bb_nSize b \<le> length d"
    by (auto simp: bb_spare_def bb_owned_def bb_wf_def)
  from bb_owned_wf [OF ow(1)] n obtain b1 where b1:
    "XByteBuffer_Remove b p n = Some (b1, remove_result b p n)" "bb_wf b1"
    "bb_content b1 = take p (bb_content b) @ drop (p + n) (bb_content b)"
    "bb_nSize b1 = bb_nSize b" "map_option length (bb_pData b1) = map_option length (bb_pData b)"
    "bb_nUsed b1 = length (take p (bb_content b) @ drop (p + n) (bb_content b))"
    by (rule Remove_spec)
  have le: "bb_nUsed b1 \<le> bb_nUsed b"
    using b1(6) bb_content_length [OF bb_owned_wf [OF ow(1)]] by simp
  from b1(5) d obtain d1 where d1: "bb_pData b1 = Some d1" "length d1 = length d"
    by (cases "bb_pData b1") auto
  have ow1: "bb_owned b1" using b1 d1 ow by (simp add: bb_owned_def)
  have sz: "sz (Suc (bb_nUsed b1)) = Suc (bb_nUsed b1)" using le d by simp
  have pos: "0 < bb_nUsed b1 + 1" by simp
  from m ow1 pos show ?thesis
  proof (cases rule: Resize_cases)
    case fail
    let ?b = "b1\<lparr>bb_pData := Some (d1[bb_nUsed b1 := 0]), bb_nStatus := XSTDERR\<rparr>"
    have "XByteBuffer_Delete m b p n = Some (?b, bb_nStatus ?b)"
      using b1(1) fail d1 d le by (simp add: XByteBuffer_Delete_def sz poke_def)
    moreover have "bb_spare ?b"
      using ow1 d1 d le by (auto simp: bb_spare_def bb_owned_def bb_wf_def)
    moreover have "bb_content ?b = bb_content b1" using d1 by (simp add: bb_content_def)
    ultimately show ?thesis by (intro that [of ?b]) (simp_all only: b1(3))
  next
    case (ok d2)
    let ?b = "b1\<lparr>bb_pData := Some (d2[bb_nUsed b1 := 0]), bb_nUsed := bb_nUsed b1, bb_nSize := bb_nUsed b1 + 1\<rparr>"
    have "XByteBuffer_Delete m b p n = Some (?b, bb_nStatus ?b)"
      using b1(1) ok by (simp add: XByteBuffer_Delete_def sz poke_def)
    moreover have "bb_spare ?b"
      using ok d le by (auto simp: bb_spare_def bb_owned_def bb_wf_def)
    moreover have "bb_content ?b = bb_content b1"
      using ok bb_content_length [OF b1(2)] by (simp add: bb_content_def)
    ultimately show ?thesis by (intro that [of ?b]) (simp_all only: b1(3))
  qed
qed

text \<open>A borrowed block is never written by the growing operations: they fail and say so.\<close>

lemma Add_borrowed:
  assumes "bb_pData b = Some d" "bb_nSize b = 0" "0 \<le> bb_nStatus b" "s \<noteq> []"
    "bb_nUsed b + length s + 1 < 2 ^ 62"
  shows "XByteBuffer_Add m b (Some s) = Some (b\<lparr>bb_nStatus := XSTDERR\<rparr>, XSTDERR)"
proof -
  have "XByteBuffer_Reserve m b (sz (length s + 1)) = Some (b\<lparr>bb_nStatus := XSTDERR\<rparr>, XSTDERR)"
    using assms by (auto simp: XByteBuffer_Reserve_def XByteBuffer_Resize_def Let_def)
  then show ?thesis using assms by (simp add: XByteBuffer_Add_def)
qed

section \<open>The contract of an appending client\<close>

text \<open>
  What a client that feeds bytes piece by piece relies on: every append is defined, keeps the
  sink usable, and either takes the whole piece or reports an error and takes nothing.
\<close>

locale byte_sink =
  fixes append :: "malloc \<Rightarrow> 's \<Rightarrow> byte list \<Rightarrow> ('s \<times> int) option"
    and content :: "'s \<Rightarrow> byte list"
    and usable :: "'s \<Rightarrow> bool"
  assumes append_step:
    "malloc_spec m \<Longrightarrow> usable s \<Longrightarrow> d \<noteq> [] \<Longrightarrow> length (content s) + length d + 1 < 2 ^ 62 \<Longrightarrow>
     \<exists>s' r. append m s d = Some (s', r) \<and> usable s' \<and>
       (r = XSTDERR \<and> content s' = content s \<or>
        r = to_int (length (content s @ d)) \<and> content s' = content s @ d)"
begin

fun feed :: "(malloc \<times> byte list) list \<Rightarrow> 's \<Rightarrow> 's option" where
  "feed [] s = Some s"
| "feed ((m, d) # cs) s = Option.bind (append m s d) (\<lambda>(s', _). feed cs s')"

text \<open>The pieces that arrive are a subsequence of the pieces sent: nothing is split or reordered.\<close>

lemma feed_subseq:
  assumes "usable s" "\<forall>(m, d) \<in> set cs. malloc_spec m \<and> d \<noteq> []"
    "length (content s) + sum_list (map (length \<circ> snd) cs) + 1 < 2 ^ 62"
  shows "\<exists>s' ds. feed cs s = Some s' \<and> usable s' \<and> subseq ds (map snd cs) \<and>
     content s' = content s @ concat ds"
  using assms
proof (induction cs arbitrary: s)
  case Nil
  then show ?case by (intro exI [of _ s] exI [of _ "[]"]) simp
next
  case (Cons a cs)
  obtain m d where a: "a = (m, d)" by (cases a)
  have "malloc_spec m" "d \<noteq> []" "length (content s) + length d + 1 < 2 ^ 62"
    using Cons.prems a by auto
  from append_step [OF this(1) Cons.prems(1) this(2,3)] obtain s1 r where s1:
    "append m s d = Some (s1, r)" "usable s1" "content s1 = content s \<or> content s1 = content s @ d"
    by blast
  have "length (content s1) \<le> length (content s) + length d" using s1(3) by auto
  then have "length (content s1) + sum_list (map (length \<circ> snd) cs) + 1 < 2 ^ 62"
    using Cons.prems(3) a by (simp add: comp_def)
  with Cons.IH [OF s1(2)] Cons.prems(2) obtain s' ds where ih:
    "feed cs s1 = Some s'" "usable s'" "subseq ds (map snd cs)" "content s' = content s1 @ concat ds"
    by (auto simp: comp_def)
  show ?case
  proof (cases "content s1 = content s")
    case True
    with ih s1 a show ?thesis by (intro exI [of _ s'] exI [of _ ds]) auto
  next
    case False
    with ih s1 a show ?thesis by (intro exI [of _ s'] exI [of _ "d # ds"]) auto
  qed
qed

end

interpretation bb: byte_sink "\<lambda>m b s. XByteBuffer_Add m b (Some s)" bb_content bb_owned
proof unfold_locales
  fix m and b :: xbyte_buffer and d :: "byte list"
  assume "malloc_spec m" "bb_owned b" "d \<noteq> []" "length (bb_content b) + length d + 1 < 2 ^ 62"
  then show "\<exists>b' r. XByteBuffer_Add m b (Some d) = Some (b', r) \<and> bb_owned b' \<and>
      (r = XSTDERR \<and> bb_content b' = bb_content b \<or>
       r = to_int (length (bb_content b @ d)) \<and> bb_content b' = bb_content b @ d)"
    using Add_edit [of m b d] by (auto simp: bb_content_length [OF bb_owned_wf] bb_edit_def)
qed


section \<open>Properties\<close>

text \<open>
  C11: Inserting a non-empty block at any position of an owned byte buffer (appending, past the
  end) is memory safe for every behaviour of the allocator. It either reports an error and leaves
  the content as it was, or the content is the old one with the block spliced in at that position,
  the result is the new length and a NUL byte follows the content inside the allocated block.
\<close>

theorem bytebuffer_insert:
  assumes "malloc_spec m" and "bb_owned b" and "s \<noteq> []" and "bb_nUsed b + length s + 1 < 2 ^ 62"
  shows "\<exists>b' r. XByteBuffer_Insert m b p (Some s) = Some (b', r) \<and> bb_owned b' \<and>
     (r = XSTDERR \<and> bb_content b' = bb_content b \<or>
      r = to_int (length (bb_content b')) \<and>
      bb_content b' = take p (bb_content b) @ s @ drop p (bb_content b) \<and>
      (\<exists>d. bb_pData b' = Some d \<and> length (bb_content b') < length d \<and> d ! length (bb_content b') = 0))"
  using Insert_edit [OF assms(1,2,4,3), of p] unfolding bb_edit_def by auto

definition bb_example :: "byte list \<Rightarrow> xbyte_buffer" where
  "bb_example s = \<lparr>bb_pData = Some (s @ [0]), bb_nSize = length s + 1, bb_nUsed = length s, bb_nAlloc = 0,
     bb_nFast = 0, bb_nStatus = XSTDOK\<rparr>"

lemma bb_example_owned: "length s < 2 ^ 62 \<Longrightarrow> bb_owned (bb_example s)"
  and bb_example_content [simp]: "bb_content (bb_example s) = s"
  and bb_example_used [simp]: "bb_nUsed (bb_example s) = length s"
  by (simp_all add: bb_example_def bb_owned_def bb_wf_def bb_content_def)

theorem bytebuffer_insert_witness:
  "\<exists>b' r. XByteBuffer_Insert zero_malloc (bb_example [1, 4]) 1 (Some [2, 3]) = Some (b', r) \<and> bb_owned b'"
proof -
  have "bb_owned (bb_example [1, 4])" by (rule bb_example_owned) simp
  from bytebuffer_insert [OF zero_malloc_spec this, of "[2, 3]" 1] show ?thesis by auto
qed

text \<open>
  Deleting \<open>n\<close> bytes at a position of an owned byte buffer that has its spare NUL cell is
  memory safe and removes exactly that range from the content, whether or not the shrinking
  \<open>realloc\<close> succeeds; the spare cell is still there afterwards.
\<close>

theorem bytebuffer_delete:
  assumes "malloc_spec m" and "bb_spare b" and "p + n < 2 ^ 64"
  shows "\<exists>b'. XByteBuffer_Delete m b p n = Some (b', bb_nStatus b') \<and> bb_spare b' \<and>
     bb_content b' = take p (bb_content b) @ drop (p + n) (bb_content b)"
  by (rule Delete_spec [OF assms]) blast

theorem bytebuffer_delete_witness:
  "\<exists>b'. XByteBuffer_Delete zero_malloc (bb_example [1, 2, 3, 4]) 1 2 = Some (b', bb_nStatus b') \<and>
     bb_content b' = [1, 4]"
proof -
  have "bb_spare (bb_example [1, 2, 3, 4])"
    using bb_example_owned [of "[1, 2, 3, 4]"] by (simp add: bb_spare_def bb_example_def)
  from bytebuffer_delete [OF zero_malloc_spec this, of 1 2] show ?thesis by auto
qed

text \<open>
  The same call on a cleared buffer dereferences NULL when the allocator fails.
\<close>

lemma delete_cleared_null: "XByteBuffer_Delete (\<lambda>_. None) (XByteBuffer_Clear b) 0 n = None"
  by (simp add: XByteBuffer_Delete_def XByteBuffer_Remove_def XByteBuffer_Resize_def XByteBuffer_Clear_def)

lemma Add_result_nonzero:
  assumes "malloc_spec m" "bb_owned b" "s \<noteq> []" "bb_nUsed b + length s + 1 < 2 ^ 31"
  shows "\<exists>b' r. XByteBuffer_Add m b (Some s) = Some (b', r) \<and> r \<noteq> 0"
proof -
  obtain x xs where "s = x # xs" using assms(3) by (cases s) auto
  then show ?thesis
    using Add_edit [OF assms(1,2) _ assms(3)] assms(4) bb_content_length [OF bb_owned_wf [OF assms(2)]]
    by (auto simp: bb_edit_def)
qed

lemma ReadStdin_is_feed:
  assumes "bb_owned b" "\<forall>(m, d) \<in> set cs. malloc_spec m \<and> d \<noteq> []"
    "bb_nUsed b + sum_list (map (length \<circ> snd) cs) + 1 < 2 ^ 31"
  shows "XByteBuffer_ReadStdin cs b = map_option (\<lambda>b'. (b', to_int (bb_nUsed b'))) (bb.feed cs b)"
  using assms
proof (induction cs arbitrary: b)
  case Nil
  then show ?case by simp
next
  case (Cons a cs)
  obtain m d where a: "a = (m, d)" by (cases a)
  have md: "malloc_spec m" "d \<noteq> []" "bb_nUsed b + length d + 1 < 2 ^ 31"
    using Cons.prems a by auto
  from Add_result_nonzero [OF md(1) Cons.prems(1) md(2,3)] obtain b1 r where
    add: "XByteBuffer_Add m b (Some d) = Some (b1, r)" "r \<noteq> 0" by blast
  have "bb_nUsed b + length d + 1 < 2 ^ 62" using md(3) by simp
  from Add_edit [OF md(1) Cons.prems(1) this md(2)] add
  have b1: "bb_owned b1" "length (bb_content b1) \<le> length (bb_content b) + length d"
    by (auto simp: bb_edit_def)
  have "bb_nUsed b1 + sum_list (map (length \<circ> snd) cs) + 1 < 2 ^ 31"
    using Cons.prems(3) a b1 bb_content_length [OF bb_owned_wf [OF Cons.prems(1)]]
      bb_content_length [OF bb_owned_wf [OF b1(1)]] by (simp add: comp_def)
  then have "XByteBuffer_ReadStdin cs b1 = map_option (\<lambda>b'. (b', to_int (bb_nUsed b'))) (bb.feed cs b1)"
    using b1(1) Cons.prems(2) by (intro Cons.IH) (auto simp: comp_def)
  then show ?case using a md add by simp
qed

lemma subseq_sum_length: "subseq xs ys \<Longrightarrow> sum_list (map length xs) \<le> sum_list (map length ys)"
  by (induction rule: list_emb.induct) auto

text \<open>
  Reading standard input into a byte buffer is memory safe and delivers the pieces in order,
  each whole or not at all; but the result is always the final length, never the error code, even
  when pieces were dropped because the allocator failed.
\<close>

theorem read_stdin_drops_silently:
  assumes "bb_owned b" and "\<forall>(m, d) \<in> set cs. malloc_spec m \<and> d \<noteq> []"
    and "bb_nUsed b + sum_list (map (length \<circ> snd) cs) + 1 < 2 ^ 31"
  shows "\<exists>b' ds. XByteBuffer_ReadStdin cs b = Some (b', int (length (bb_content b'))) \<and> bb_owned b' \<and>
     subseq ds (map snd cs) \<and> bb_content b' = bb_content b @ concat ds"
proof -
  have "length (bb_content b) + sum_list (map (length \<circ> snd) cs) + 1 < 2 ^ 62"
    using assms(3) bb_content_length [OF bb_owned_wf [OF assms(1)]] by simp
  from bb.feed_subseq [OF assms(1,2) this] obtain b' ds where f:
    "bb.feed cs b = Some b'" "bb_owned b'" "subseq ds (map snd cs)" "bb_content b' = bb_content b @ concat ds"
    by blast
  have "sum_list (map length ds) \<le> sum_list (map (length \<circ> snd) cs)"
    using subseq_sum_length [OF f(3)] by (simp add: comp_def)
  then have "bb_nUsed b' < 2 ^ 31"
    using f(2,4) assms(1,3) bb_content_length [OF bb_owned_wf [OF f(2)]]
      bb_content_length [OF bb_owned_wf [OF assms(1)]] by (simp add: length_concat)
  with f show ?thesis
    using ReadStdin_is_feed [OF assms] bb_content_length [OF bb_owned_wf [OF f(2)]] by auto
qed

theorem read_stdin_drops_silently_witness:
  "\<exists>b'. XByteBuffer_ReadStdin [(zero_malloc, [7]), (\<lambda>_. None, [8, 9])] (XByteBuffer_Clear (bb_example [])) = Some (b', int (length (bb_content b')))"
proof -
  have "malloc_spec (\<lambda>_. None)" by (simp add: malloc_spec_def)
  then have "\<forall>(m, d) \<in> set [(zero_malloc, [7]), (\<lambda>_. None, [8, 9])]. malloc_spec m \<and> d \<noteq> []" by simp
  from read_stdin_drops_silently [OF Clear_owned this, of "bb_example []"] show ?thesis
    by (auto simp: XByteBuffer_Clear_def)
qed

end
