(* ===== verification/DataBuf.thy ===== *)
theory DataBuf
  imports Prelude
begin

text \<open>
  The pointer buffer \<open>XDataBuffer_*\<close> of \<open>src/src/data/buf.c\<close>. The table of pointers is a block of
  cells, \<open>None\<close> being the NULL pointer. \<open>db_wf\<close> is the representation invariant, \<open>db_items\<close> the
  sequence of stored pointers. The user's \<open>clearCb\<close> is a flag, and the calls it receives are
  returned as a log.
\<close>

record 'a xdata_buffer =
  db_clearCb :: bool
  db_pData :: "'a option list option"
  db_nSize :: nat
  db_nUsed :: nat
  db_nStatus :: int
  db_nFixed :: bool

section \<open>Operations\<close>

text \<open>The loop counter of \<open>Init\<close> and \<open>Clear\<close> is a 32-bit integer: beyond its range they do not end.\<close>

definition XDataBuffer_Init ::
  "'a pmalloc \<Rightarrow> 'a xdata_buffer \<Rightarrow> nat \<Rightarrow> bool \<Rightarrow> ('a xdata_buffer \<times> int) option" where
  "XDataBuffer_Init m b nSize nFixed =
     (case m (sz (nSize * 8)) of
        None \<Rightarrow> Some (b\<lparr>db_pData := None, db_nSize := 0\<rparr>, XSTDERR)
      | Some d \<Rightarrow>
          if 2 ^ 32 \<le> nSize then None
          else do { d' \<leftarrow> fill_null d 0 nSize;
                    Some (b\<lparr>db_clearCb := False, db_pData := Some d', db_nSize := nSize, db_nUsed := 0,
                            db_nStatus := 0, db_nFixed := nFixed\<rparr>, to_int nSize) })"

definition XDataBuffer_Realloc ::
  "'a pmalloc \<Rightarrow> 'a xdata_buffer \<Rightarrow> ('a xdata_buffer \<times> int) option" where
  "XDataBuffer_Realloc m b =
     (if db_nFixed b then Some (b, to_int (db_nSize b))
      else
        let grow = (db_nUsed b = db_nSize b);
            shrink = (0 < db_nUsed b \<and> below_quarter (db_nUsed b) (db_nSize b));
            nSize = (if grow then sz (db_nSize b * 2) else db_nSize b div 2)
        in if \<not> grow \<and> \<not> shrink then Some (b, to_int (db_nSize b))
           else do {
             d \<leftarrow> db_pData b;
             (case p_realloc m d (sz (8 * nSize)) of
                None \<Rightarrow> Some (b, XSTDERR)
              | Some d1 \<Rightarrow> do {
                  d2 \<leftarrow> (if db_nUsed b < nSize then fill_null d1 (db_nUsed b) nSize else Some d1);
                  Some (b\<lparr>db_pData := Some d2, db_nSize := nSize\<rparr>, to_int nSize) }) })"

text \<open>The second component is the sequence of pointers handed to \<open>clearCb\<close>, NULL ones included.\<close>

definition XDataBuffer_Clear :: "'a xdata_buffer \<Rightarrow> ('a xdata_buffer \<times> 'a option list) option" where
  "XDataBuffer_Clear b =
     (if 2 ^ 32 \<le> db_nSize b then None
      else if db_nSize b = 0 then Some (b\<lparr>db_nUsed := 0\<rparr>, [])
      else do {
        d \<leftarrow> db_pData b;
        seen \<leftarrow> mread d 0 (db_nSize b);
        d' \<leftarrow> fill_null d 0 (db_nSize b);
        Some (b\<lparr>db_pData := Some d', db_nUsed := 0\<rparr>, if db_clearCb b then seen else []) })"

definition XDataBuffer_Destroy :: "'a xdata_buffer \<Rightarrow> ('a xdata_buffer \<times> 'a option list) option" where
  "XDataBuffer_Destroy b = do { (b', cleared) \<leftarrow> XDataBuffer_Clear b; Some (b'\<lparr>db_pData := None\<rparr>, cleared) }"

definition XDataBuffer_Add ::
  "'a pmalloc \<Rightarrow> 'a xdata_buffer \<Rightarrow> 'a option \<Rightarrow> ('a xdata_buffer \<times> int) option" where
  "XDataBuffer_Add m b p =
     (if db_nSize b \<le> db_nUsed b then Some (b, XSTDERR)
      else do {
        d \<leftarrow> db_pData b;
        d' \<leftarrow> poke d (db_nUsed b) p;
        (b', st) \<leftarrow> XDataBuffer_Realloc m (b\<lparr>db_pData := Some d', db_nUsed := db_nUsed b + 1\<rparr>);
        Some (b', if 0 < st then to_int (db_nUsed b') - 1 else -2) })"

definition XDataBuffer_Set ::
  "'a xdata_buffer \<Rightarrow> nat \<Rightarrow> 'a option \<Rightarrow> ('a xdata_buffer \<times> 'a option) option" where
  "XDataBuffer_Set b nIndex p =
     (if nIndex < db_nSize b \<or> 0 < nIndex
      then do {
        d \<leftarrow> db_pData b;
        old \<leftarrow> peek d nIndex;
        d' \<leftarrow> poke d nIndex p;
        Some (b\<lparr>db_pData := Some d', db_nUsed := sz (db_nUsed b + (if old = None then 1 else 0))\<rparr>, old) }
      else Some (b, None))"

definition XDataBuffer_Get :: "'a xdata_buffer \<Rightarrow> nat \<Rightarrow> 'a option option" where
  "XDataBuffer_Get b nIndex =
     (if db_nUsed b \<le> nIndex \<or> nIndex = 0 then Some None
      else do { d \<leftarrow> db_pData b; peek d nIndex })"

definition XDataBuffer_Pop ::
  "'a pmalloc \<Rightarrow> 'a xdata_buffer \<Rightarrow> nat \<Rightarrow> ('a xdata_buffer \<times> 'a option) option" where
  "XDataBuffer_Pop m b nIndex = do {
     r \<leftarrow> XDataBuffer_Get b nIndex;
     (case r of None \<Rightarrow> Some (b, None)
      | Some x \<Rightarrow> do {
          d \<leftarrow> db_pData b;
          d' \<leftarrow> remove_cell d nIndex (db_nUsed b);
          (b', _) \<leftarrow> XDataBuffer_Realloc m (b\<lparr>db_pData := Some d', db_nUsed := db_nUsed b - 1\<rparr>);
          Some (b', Some x) }) }"

section \<open>Invariant and content\<close>

text \<open>The table has as many cells as recorded, at most as many are used, and the rest are NULL.\<close>

definition db_wf :: "'a xdata_buffer \<Rightarrow> bool" where
  "db_wf b \<longleftrightarrow>
     (case db_pData b of None \<Rightarrow> False
      | Some d \<Rightarrow> length d = db_nSize b \<and> db_nUsed b \<le> db_nSize b \<and>
                  drop (db_nUsed b) d = replicate (db_nSize b - db_nUsed b) None) \<and>
     0 < db_nSize b \<and> db_nSize b < 2 ^ 30"

definition db_items :: "'a xdata_buffer \<Rightarrow> 'a option list" where
  "db_items b = (case db_pData b of None \<Rightarrow> [] | Some d \<Rightarrow> take (db_nUsed b) d)"

lemma db_wfE:
  assumes "db_wf b"
  obtains d where "db_pData b = Some (db_items b @ replicate (db_nSize b - db_nUsed b) None)"
    "length (db_items b) = db_nUsed b" "db_nUsed b \<le> db_nSize b" "0 < db_nSize b" "db_nSize b < 2 ^ 30"
proof -
  from assms obtain d where d: "db_pData b = Some d" "length d = db_nSize b" "db_nUsed b \<le> db_nSize b"
    "drop (db_nUsed b) d = replicate (db_nSize b - db_nUsed b) None"
    by (auto simp: db_wf_def split: option.splits)
  then have "d = db_items b @ replicate (db_nSize b - db_nUsed b) None"
    using append_take_drop_id [of "db_nUsed b" d] by (simp add: db_items_def)
  with d assms show ?thesis
    by (intro that) (auto simp: db_items_def db_wf_def)
qed

lemma db_wfI:
  assumes "db_pData b = Some (xs @ replicate (db_nSize b - db_nUsed b) None)" "length xs = db_nUsed b"
    "db_nUsed b \<le> db_nSize b" "0 < db_nSize b" "db_nSize b < 2 ^ 30"
  shows "db_wf b" "db_items b = xs"
  using assms by (auto simp: db_wf_def db_items_def)

lemma Init_wf:
  assumes "pmalloc_spec m" "0 < n" "n < 2 ^ 30"
  obtains (ok) b' where "XDataBuffer_Init m b n fx = Some (b', int n)" "db_wf b'" "db_items b' = []"
      "db_nSize b' = n" "db_nFixed b' = fx"
  | (nomem) b' where "XDataBuffer_Init m b n fx = Some (b', XSTDERR)" "m (8 * n) = None"
proof (cases "m (8 * n)")
  case None
  with assms show ?thesis
    using nomem by (simp add: XDataBuffer_Init_def mult.commute)
next
  case (Some d)
  then have "length d = n" using assms by (auto simp: pmalloc_spec_def)
  then have "fill_null d 0 n = Some (replicate n None)"
    using fill_null_Some [of 0 n d] by simp
  with Some assms show ?thesis
    by (intro ok) (auto simp: XDataBuffer_Init_def mult.commute db_wf_def db_items_def)
qed

text \<open>
  Resizing keeps the stored pointers; afterwards a growable buffer has room unless the allocator
  refused.
\<close>

lemma Realloc_spec:
  assumes m: "pmalloc_spec m" and d: "db_pData b = Some (xs @ replicate (db_nSize b - db_nUsed b) None)"
    and l: "length xs = db_nUsed b" and u: "db_nUsed b \<le> db_nSize b"
    and s: "0 < db_nSize b" "db_nSize b < 2 ^ 29"
  shows "\<exists>b' st. XDataBuffer_Realloc m b = Some (b', st) \<and> db_wf b' \<and> db_items b' = xs \<and>
    db_nFixed b' = db_nFixed b \<and> db_nUsed b' = db_nUsed b \<and> db_nSize b' \<le> 2 * db_nSize b \<and>
    (0 < st \<longrightarrow> db_nFixed b \<or> db_nUsed b' < db_nSize b') \<and>
    (st \<le> 0 \<longrightarrow> \<not> db_nFixed b \<and> (\<exists>k. m k = None))"
proof -
  let ?n = "if db_nUsed b = db_nSize b then db_nSize b * 2 else db_nSize b div 2"
  note same = db_wfI [OF d l u s(1)]
  show ?thesis
  proof (cases "db_nFixed b \<or> (db_nUsed b \<noteq> db_nSize b \<and> \<not> (0 < db_nUsed b \<and> below_quarter (db_nUsed b) (db_nSize b)))")
    case True
    then show ?thesis
      using same s u by (auto simp: XDataBuffer_Realloc_def)
  next
    case False
    then have use: "0 < db_nUsed b" "db_nUsed b < ?n" "?n \<le> 2 * db_nSize b"
      using s below_quarter_strict [of "db_nUsed b" "db_nSize b"] by auto
    then have n: "?n < 2 ^ 30" "0 < ?n" using s by auto
    show ?thesis
    proof (cases "p_realloc m (xs @ replicate (db_nSize b - db_nUsed b) None) (8 * ?n)")
      case None
      then have "\<exists>k. m k = None" by (auto simp: p_realloc_def)
      with None False same d n s show ?thesis
        by (cases "db_nUsed b = db_nSize b") (auto simp: XDataBuffer_Realloc_def)
    next
      case (Some d1)
      then have len: "length d1 = ?n" using p_realloc_length [OF m] by fastforce
      have pre: "take (db_nUsed b) d1 = xs"
        using p_realloc_prefix [OF m Some, of "db_nUsed b"] use l by (simp add: less_imp_le)
      have "fill_null d1 (db_nUsed b) ?n = Some (xs @ replicate (?n - db_nUsed b) None)"
        using fill_null_Some [of "db_nUsed b" ?n d1] use len pre by simp
      then have ev: "XDataBuffer_Realloc m b =
          Some (b\<lparr>db_pData := Some (xs @ replicate (?n - db_nUsed b) None), db_nSize := ?n\<rparr>, int ?n)"
        using False Some d n s use by (cases "db_nUsed b = db_nSize b") (auto simp: XDataBuffer_Realloc_def Let_def)
      let ?b = "b\<lparr>db_pData := Some (xs @ replicate (?n - db_nUsed b) None), db_nSize := ?n\<rparr>"
      have "db_wf ?b \<and> db_items ?b = xs"
        using db_wfI [of ?b xs] use n l by auto
      with ev use n show ?thesis by (intro exI [of _ ?b] exI [of _ "int ?n"]) auto
    qed
  qed
qed


lemma Add_cases:
  assumes m: "pmalloc_spec m" and w: "db_wf b" and s: "db_nSize b < 2 ^ 29"
  obtains (full) "db_nUsed b = db_nSize b" "XDataBuffer_Add m b p = Some (b, XSTDERR)"
  | (stored) b' r where "db_nUsed b < db_nSize b" "XDataBuffer_Add m b p = Some (b', r)" "db_wf b'"
      "db_items b' = db_items b @ [p]" "db_nFixed b' = db_nFixed b" "db_nSize b' \<le> 2 * db_nSize b"
      "r = int (db_nUsed b) \<and> (db_nFixed b \<or> db_nUsed b' < db_nSize b') \<or>
       r = -2 \<and> \<not> db_nFixed b \<and> (\<exists>k. m k = None)"
proof -
  from w obtain d where d: "db_pData b = Some (db_items b @ replicate (db_nSize b - db_nUsed b) None)"
    and l: "length (db_items b) = db_nUsed b" and u: "db_nUsed b \<le> db_nSize b" "0 < db_nSize b"
    by (rule db_wfE)
  show ?thesis
  proof (cases "db_nUsed b = db_nSize b")
    case True
    then show ?thesis by (intro full) (auto simp: XDataBuffer_Add_def)
  next
    case False
    then obtain k where k: "db_nSize b - db_nUsed b = Suc k" using u by (metis Suc_diff_Suc le_neq_implies_less)
    let ?xs = "db_items b @ [p]"
    let ?b = "b\<lparr>db_pData := Some (?xs @ replicate k None), db_nUsed := db_nUsed b + 1\<rparr>"
    have cell: "poke (db_items b @ replicate (Suc k) None) (db_nUsed b) p = Some (?xs @ replicate k None)"
      using l by (simp add: poke_def list_update_append)
    obtain b' st where r: "XDataBuffer_Realloc m ?b = Some (b', st)" "db_wf b'" "db_items b' = ?xs"
      "db_nFixed b' = db_nFixed b" "db_nUsed b' = db_nUsed b + 1" "db_nSize b' \<le> 2 * db_nSize b"
      "0 < st \<longrightarrow> db_nFixed b \<or> db_nUsed b' < db_nSize b'"
      "st \<le> 0 \<longrightarrow> \<not> db_nFixed b \<and> (\<exists>k. m k = None)"
    proof -
      have P: "db_pData ?b = Some (?xs @ replicate (db_nSize ?b - db_nUsed ?b) None)" using k by simp
      have Q: "length ?xs = db_nUsed ?b" "db_nUsed ?b \<le> db_nSize ?b" "0 < db_nSize ?b" "db_nSize ?b < 2 ^ 29"
        using k l s u by auto
      from Realloc_spec [OF m P Q] show ?thesis by (auto intro: that)
    qed
    have "XDataBuffer_Add m b p = Some (b', if 0 < st then int (db_nUsed b) else -2)"
      using False u d k cell r s by (simp add: XDataBuffer_Add_def)
    with False u r show ?thesis
      by (intro stored [of b' "if 0 < st then int (db_nUsed b) else -2"]) auto
  qed
qed

lemma Get_spec:
  assumes "db_wf b"
  shows "XDataBuffer_Get b i = Some (if 0 < i \<and> i < db_nUsed b then db_items b ! i else None)"
  using assms by (rule db_wfE) (auto simp: XDataBuffer_Get_def peek_def nth_append)

lemma Pop_spec:
  assumes m: "pmalloc_spec m" and w: "db_wf b" and s: "db_nSize b < 2 ^ 29"
    and i: "0 < i" "i < db_nUsed b" "db_items b ! i = Some x"
  shows "\<exists>b'. XDataBuffer_Pop m b i = Some (b', Some x) \<and> db_wf b' \<and>
    db_items b' = take i (db_items b) @ drop (Suc i) (db_items b)"
proof -
  from w obtain d where d: "db_pData b = Some (db_items b @ replicate (db_nSize b - db_nUsed b) None)"
    and l: "length (db_items b) = db_nUsed b" and u: "db_nUsed b \<le> db_nSize b" "0 < db_nSize b"
    by (rule db_wfE)
  let ?xs = "take i (db_items b) @ drop (Suc i) (db_items b)"
  let ?b = "b\<lparr>db_pData := Some (?xs @ None # replicate (db_nSize b - db_nUsed b) None), db_nUsed := db_nUsed b - 1\<rparr>"
  have gap: "remove_cell (db_items b @ replicate (db_nSize b - db_nUsed b) None) i (db_nUsed b) =
      Some (?xs @ None # replicate (db_nSize b - db_nUsed b) None)"
    using remove_cell_Some [of i "db_nUsed b" "db_items b @ replicate (db_nSize b - db_nUsed b) None"] i l u s
    by simp
  have "None # replicate (db_nSize b - db_nUsed b) None = replicate (db_nSize b - (db_nUsed b - 1)) (None :: 'a option)"
    using i u by (simp flip: replicate_Suc add: Suc_diff_le)
  then have P: "db_pData ?b = Some (?xs @ replicate (db_nSize ?b - db_nUsed ?b) None)" by simp
  have Q: "length ?xs = db_nUsed ?b" "db_nUsed ?b \<le> db_nSize ?b" "0 < db_nSize ?b" "db_nSize ?b < 2 ^ 29"
    using l i u s by auto
  from Realloc_spec [OF m P Q] obtain b' st
    where r: "XDataBuffer_Realloc m ?b = Some (b', st)" "db_wf b'" "db_items b' = ?xs" by blast
  have g: "XDataBuffer_Get b i = Some (Some x)" using Get_spec [OF w] i by simp
  have "XDataBuffer_Pop m b i = Some (b', Some x)"
    using d gap r(1) by (simp add: XDataBuffer_Pop_def g)
  with r show ?thesis by blast
qed

lemma Set_spec:
  assumes w: "db_wf b" and i: "i < db_nUsed b" "db_items b ! i = Some y"
  shows "\<exists>b'. XDataBuffer_Set b i p = Some (b', Some y) \<and> db_wf b' \<and> db_items b' = (db_items b)[i := p]"
proof -
  from w obtain d where d: "db_pData b = Some (db_items b @ replicate (db_nSize b - db_nUsed b) None)"
    and l: "length (db_items b) = db_nUsed b" and u: "db_nUsed b \<le> db_nSize b" "0 < db_nSize b" "db_nSize b < 2 ^ 30"
    by (rule db_wfE)
  let ?b = "b\<lparr>db_pData := Some ((db_items b)[i := p] @ replicate (db_nSize b - db_nUsed b) None)\<rparr>"
  have "XDataBuffer_Set b i p = Some (?b, Some y)"
    using d i l u by (simp add: XDataBuffer_Set_def peek_def poke_def nth_append list_update_append1)
  moreover have "db_wf ?b \<and> db_items ?b = (db_items b)[i := p]"
    using db_wfI [of ?b "(db_items b)[i := p]"] l u by auto
  ultimately show ?thesis by blast
qed

text \<open>The bounds test of \<open>Set\<close> accepts every positive index: beyond the table it reads out of bounds.\<close>

lemma Set_out_of_bounds:
  assumes "db_wf b" "db_nSize b \<le> i"
  shows "XDataBuffer_Set b i p = None"
  using assms(1) by (rule db_wfE) (use assms(2) in \<open>auto simp: XDataBuffer_Set_def peek_def\<close>)

section \<open>Properties\<close>

definition db_example :: "'a option list \<Rightarrow> nat \<Rightarrow> 'a xdata_buffer" where
  "db_example xs n = \<lparr>db_clearCb = False, db_pData = Some (xs @ replicate (n - length xs) None), db_nSize = n,
     db_nUsed = length xs, db_nStatus = 0, db_nFixed = False\<rparr>"

lemma db_example_wf: "length xs \<le> n \<Longrightarrow> 0 < n \<Longrightarrow> n < 2 ^ 30 \<Longrightarrow> db_wf (db_example xs n)"
  by (simp add: db_wf_def db_example_def)

text \<open>
  Adding a pointer to a pointer buffer is memory safe and keeps the representation invariant:
  a full buffer refuses with XSTDERR unchanged; otherwise the pointer is appended and the result is
  its index, or -2 when the table could not grow, in which case the pointer is stored all the same.
\<close>

theorem databuf_add:
  assumes "pmalloc_spec m" and "db_wf b" and "db_nSize b < 2 ^ 29"
  shows "(db_nUsed b = db_nSize b \<and> XDataBuffer_Add m b p = Some (b, XSTDERR)) \<or>
    (\<exists>b' r. XDataBuffer_Add m b p = Some (b', r) \<and> db_wf b' \<and> db_items b' = db_items b @ [p] \<and>
       (r = int (db_nUsed b) \<and> (db_nFixed b \<or> db_nUsed b' < db_nSize b') \<or>
        r = -2 \<and> \<not> db_nFixed b \<and> (\<exists>k. m k = None)))"
  by (rule Add_cases [OF assms, of p]) blast+

theorem databuf_add_witness:
  "\<exists>b' r. XDataBuffer_Add null_pmalloc (db_example [Some True] 2) (Some False) = Some (b', r) \<and>
     db_items b' = [Some True, Some False]"
proof -
  have "db_wf (db_example [Some True] 2)" by (rule db_example_wf) auto
  from databuf_add [OF null_pmalloc_spec this, of "Some False"] show ?thesis
    by (auto simp: db_example_def db_items_def)
qed

text \<open>
  Popping a pointer at a position other than 0 of a pointer buffer is memory safe, returns that
  pointer and removes exactly it, keeping the order of the others, whether or not the table then
  shrinks; position 0 is refused and nothing changes.
\<close>

theorem databuf_pop:
  assumes "pmalloc_spec m" and "db_wf b" and "db_nSize b < 2 ^ 29"
    and "i < db_nUsed b" and "db_items b ! i = Some x"
  shows "\<exists>b'. XDataBuffer_Pop m b i = Some (b', if i = 0 then None else Some x) \<and> db_wf b' \<and>
    db_items b' = (if i = 0 then db_items b else take i (db_items b) @ drop (Suc i) (db_items b))"
proof (cases "i = 0")
  case True
  then show ?thesis using assms(2) by (simp add: XDataBuffer_Pop_def XDataBuffer_Get_def)
next
  case False
  with Pop_spec [OF assms(1-3) _ assms(4,5)] show ?thesis by auto
qed

theorem databuf_pop_witness:
  "\<exists>b'. XDataBuffer_Pop null_pmalloc (db_example [Some (1::nat), Some 2, Some 3] 4) 1 = Some (b', Some 2) \<and>
     db_items b' = [Some (1::nat), Some 3]"
proof -
  let ?b = "db_example [Some (1::nat), Some 2, Some 3] 4"
  have "db_wf ?b" by (rule db_example_wf) auto
  from databuf_pop [OF null_pmalloc_spec this, of 1 2] show ?thesis
    by (auto simp: db_example_def db_items_def)
qed

end
