(* ===== verification/RingBuf.thy ===== *)
theory RingBuf
  imports Buf
begin

text \<open>
  The ring of byte buffers \<open>XRingBuffer_*\<close> of \<open>src/src/data/buf.c\<close>, a client of the byte buffer
  through the locale \<open>byte_sink\<close>. \<open>rb_wf\<close> is the representation invariant, \<open>rb_queue\<close> the queue of
  byte strings a ring stands for, front first.
\<close>

record xring_buffer =
  rb_pData :: "xbyte_buffer option list option"
  rb_nUsed :: nat
  rb_nSize :: nat
  rb_nFront :: nat
  rb_nBack :: nat

section \<open>Operations\<close>




definition XRingBuffer_Reset :: "xring_buffer \<Rightarrow> xring_buffer option" where
  "XRingBuffer_Reset b =
     (if rb_nSize b = 0 then Some (b\<lparr>rb_nUsed := 0, rb_nFront := 0, rb_nBack := 0\<rparr>)
      else do { d \<leftarrow> rb_pData b; d' \<leftarrow> fill_null d 0 (rb_nSize b);
                Some (b\<lparr>rb_pData := Some d', rb_nUsed := 0, rb_nFront := 0, rb_nBack := 0\<rparr>) })"

definition XRingBuffer_Destroy :: "xring_buffer \<Rightarrow> xring_buffer option" where
  "XRingBuffer_Destroy b = do { b' \<leftarrow> XRingBuffer_Reset b; Some (b'\<lparr>rb_pData := None, rb_nSize := 0\<rparr>) }"

definition XRingBuffer_Update :: "xring_buffer \<Rightarrow> bool \<Rightarrow> xring_buffer" where
  "XRingBuffer_Update b nAdd =
     (let back = (if nAdd then sz (rb_nBack b + 1) else rb_nBack b);
          front = (if nAdd then rb_nFront b else sz (rb_nFront b + 1));
          front = (if rb_nSize b \<le> front then 0 else front);
          back = (if rb_nSize b \<le> back then 0 else back)
      in b\<lparr>rb_nUsed := (if front < back then back - front else sz (rb_nSize b + 2 ^ 64 - (front - back))),
           rb_nFront := front, rb_nBack := back\<rparr>)"

definition XRingBuffer_Advance :: "xring_buffer \<Rightarrow> xring_buffer option" where
  "XRingBuffer_Advance b =
     (if rb_nUsed b = 0 \<or> rb_nSize b = 0 then Some b
      else do {
        d \<leftarrow> rb_pData b;
        slot \<leftarrow> peek d (rb_nFront b);
        d' \<leftarrow> (case slot of None \<Rightarrow> Some d
                 | Some s \<Rightarrow> poke d (rb_nFront b) (Some (XByteBuffer_Clear s)));
        Some (XRingBuffer_Update (b\<lparr>rb_pData := Some d'\<rparr>) False) })"

text \<open>
  A NULL slot gets a freshly allocated structure, whose fields are whatever the allocator left
  there (\<open>junk\<close>, \<open>None\<close> when the allocation fails), and which is never stored in the table.
\<close>

definition XRingBuffer_AddData ::
  "malloc \<Rightarrow> xbyte_buffer option \<Rightarrow> xring_buffer \<Rightarrow> byte list option \<Rightarrow> (xring_buffer \<times> int) option" where
  "XRingBuffer_AddData m junk b src =
     (if rb_nSize b \<le> rb_nUsed b then Some (b, 0)
      else do {
        d \<leftarrow> rb_pData b;
        slot \<leftarrow> peek d (rb_nBack b);
        (case slot of
           None \<Rightarrow>
             (case junk of
                None \<Rightarrow> Some (b, 0)
              | Some j \<Rightarrow> do {
                  (_, st) \<leftarrow> XByteBuffer_Add m j src;
                  Some (if 0 < st then XRingBuffer_Update b True else b, st) })
         | Some s \<Rightarrow> do {
             (s', st) \<leftarrow> XByteBuffer_Add m s src;
             d' \<leftarrow> poke d (rb_nBack b) (Some s');
             let b' = b\<lparr>rb_pData := Some d'\<rparr>;
             Some (if 0 < st then XRingBuffer_Update b' True else b', st) }) })"

definition XRingBuffer_AddDataAdv ::
  "malloc \<Rightarrow> xbyte_buffer option \<Rightarrow> xring_buffer \<Rightarrow> byte list option \<Rightarrow> (xring_buffer \<times> int) option" where
  "XRingBuffer_AddDataAdv m junk b src = do {
     b' \<leftarrow> (if rb_nSize b \<le> rb_nUsed b then XRingBuffer_Advance b else Some b);
     XRingBuffer_AddData m junk b' src }"

text \<open>The front slot's data pointer and size, when there is one.\<close>

definition XRingBuffer_GetData :: "xring_buffer \<Rightarrow> ((byte list option \<times> nat) option \<times> int) option" where
  "XRingBuffer_GetData b =
     (if rb_nSize b \<le> rb_nUsed b then Some (None, 0)
      else do {
        d \<leftarrow> rb_pData b;
        slot \<leftarrow> peek d (rb_nFront b);
        Some (case slot of None \<Rightarrow> (None, 0) | Some s \<Rightarrow> (Some (bb_pData s, bb_nSize s), 1)) })"

text \<open>\<open>Pop\<close> also returns the bytes it copied to the caller's block of at least \<open>nSize\<close> bytes.\<close>

definition XRingBuffer_Pop :: "xring_buffer \<Rightarrow> nat \<Rightarrow> (xring_buffer \<times> byte list \<times> int) option" where
  "XRingBuffer_Pop b nSize =
     (if rb_nSize b \<le> rb_nUsed b then Some (b, [], 0)
      else do {
        d \<leftarrow> rb_pData b;
        slot \<leftarrow> peek d (rb_nFront b);
        (case slot of
           None \<Rightarrow> Some (XRingBuffer_Update b False, [], 0)
         | Some s \<Rightarrow> do {
             let n = (if bb_nSize s < nSize then bb_nSize s else nSize);
             out \<leftarrow> (if n = 0 then Some [] else do { c \<leftarrow> bb_pData s; mread c 0 n });
             d' \<leftarrow> poke d (rb_nFront b) (Some (XByteBuffer_Clear s));
             Some (XRingBuffer_Update (b\<lparr>rb_pData := Some d'\<rparr>) False, out, to_int n) }) })"

section \<open>Invariant and queue\<close>

text \<open>
  Every slot holds an owned buffer; the back index is the front index advanced by the number of
  used slots; the slots outside the used range are empty.
\<close>

definition rb_slot :: "xring_buffer \<Rightarrow> nat \<Rightarrow> nat" where
  "rb_slot b k = (rb_nFront b + k) mod rb_nSize b"

definition rb_wf :: "xring_buffer \<Rightarrow> bool" where
  "rb_wf b \<longleftrightarrow> 0 < rb_nSize b \<and> rb_nSize b < 2 ^ 31 \<and> rb_nFront b < rb_nSize b \<and>
     rb_nUsed b \<le> rb_nSize b \<and> rb_nBack b = rb_slot b (rb_nUsed b) \<and>
     (case rb_pData b of None \<Rightarrow> False
      | Some d \<Rightarrow> length d = rb_nSize b \<and>
          list_all (\<lambda>v. case v of None \<Rightarrow> False | Some s \<Rightarrow> bb_owned s) d \<and>
          (\<forall>k. rb_nUsed b \<le> k \<longrightarrow> k < rb_nSize b \<longrightarrow> bb_content (the (d ! rb_slot b k)) = []))"

definition rb_queue :: "xring_buffer \<Rightarrow> byte list list" where
  "rb_queue b =
     (case rb_pData b of None \<Rightarrow> []
      | Some d \<Rightarrow> map (\<lambda>k. bb_content (the (d ! rb_slot b k))) [0..<rb_nUsed b])"

lemma rb_wfE:
  assumes "rb_wf b"
  obtains ss where "rb_pData b = Some (map Some ss)" "length ss = rb_nSize b" "0 < rb_nSize b"
    "rb_nSize b < 2 ^ 31" "rb_nFront b < rb_nSize b" "rb_nUsed b \<le> rb_nSize b"
    "rb_nBack b = rb_slot b (rb_nUsed b)" "\<forall>s \<in> set ss. bb_owned s"
    "\<forall>k. rb_nUsed b \<le> k \<longrightarrow> k < rb_nSize b \<longrightarrow> bb_content (ss ! rb_slot b k) = []"
    "rb_queue b = map (\<lambda>k. bb_content (ss ! rb_slot b k)) [0..<rb_nUsed b]"
proof -
  from assms obtain d where d: "rb_pData b = Some d" "length d = rb_nSize b"
    "list_all (\<lambda>v. case v of None \<Rightarrow> False | Some s \<Rightarrow> bb_owned s) d"
    by (auto simp: rb_wf_def split: option.splits)
  then have "list_all (\<lambda>v. v \<noteq> None) d" by (auto simp: list_all_iff split: option.splits)
  then have e: "d = map Some (map the d)" by (simp add: list_all_iff map_idI)
  have o: "\<forall>s \<in> set (map the d). bb_owned s"
    using d(3) by (auto simp: list_all_iff split: option.splits)
  have n: "0 < rb_nSize b" using assms by (simp add: rb_wf_def)
  show ?thesis
    using assms d e o n
    by (intro that [of "map the d"]) (auto simp: rb_wf_def rb_queue_def rb_slot_def)
qed

lemma rb_wfI:
  assumes "rb_pData b = Some (map Some ss)" "length ss = rb_nSize b" "0 < rb_nSize b"
    "rb_nSize b < 2 ^ 31" "rb_nFront b < rb_nSize b" "rb_nUsed b \<le> rb_nSize b"
    "rb_nBack b = rb_slot b (rb_nUsed b)" "\<forall>s \<in> set ss. bb_owned s"
    "\<forall>k. rb_nUsed b \<le> k \<longrightarrow> k < rb_nSize b \<longrightarrow> bb_content (ss ! rb_slot b k) = []"
  shows "rb_wf b" "rb_queue b = map (\<lambda>k. bb_content (ss ! rb_slot b k)) [0..<rb_nUsed b]"
  using assms by (auto simp: rb_wf_def rb_queue_def rb_slot_def list_all_iff)

lemma rb_slot_less [simp]: "0 < rb_nSize b \<Longrightarrow> rb_slot b k < rb_nSize b"
  by (simp add: rb_slot_def)

lemma rb_slot_0 [simp]: "rb_nFront b < rb_nSize b \<Longrightarrow> rb_slot b 0 = rb_nFront b"
  by (simp add: rb_slot_def)

lemma mod_add_inj: "k < (n::nat) \<Longrightarrow> j < n \<Longrightarrow> (f + k) mod n = (f + j) mod n \<Longrightarrow> k = j"
proof (induction k j rule: linorder_wlog)
  case (le a b)
  then have "n dvd (f + b) - (f + a)"
    by (metis mod_eq_dvd_iff_nat add_le_cancel_left)
  with le show ?case by (auto dest: dvd_imp_le)
next
  case (sym a b)
  then show ?case by metis
qed

lemma rb_slot_inj: "k < rb_nSize b \<Longrightarrow> j < rb_nSize b \<Longrightarrow> rb_slot b k = rb_slot b j \<longleftrightarrow> k = j"
  by (auto simp: rb_slot_def dest: mod_add_inj)

lemma mod_wrap: "f < n \<Longrightarrow> k \<le> n \<Longrightarrow> (f + k) mod n = (if f + k < n then f + k else f + k - (n::nat))"
  by (simp add: mod_if)

lemma Update_eq:
  assumes "rb_nSize b < 2 ^ 31" "rb_nFront b < rb_nSize b" "rb_nBack b < rb_nSize b"
  shows "XRingBuffer_Update b a =
    (let k = (if a then rb_nBack b + 1 else rb_nBack b); f = (if a then rb_nFront b else rb_nFront b + 1);
         f' = (if rb_nSize b \<le> f then 0 else f); k' = (if rb_nSize b \<le> k then 0 else k)
     in b\<lparr>rb_nUsed := (if f' < k' then k' - f' else rb_nSize b - (f' - k')), rb_nFront := f', rb_nBack := k'\<rparr>)"
  unfolding XRingBuffer_Update_def Let_def using assms by (subst sz_sub) auto

lemma rb_slot_wrap: "rb_slot b (Suc (rb_nSize b)) = rb_slot b 1"
  using mod_add_self2 [of "Suc (rb_nFront b)" "rb_nSize b"] by (simp add: rb_slot_def)


lemma Update_remove:
  assumes "rb_nFront b < rb_nSize b" "0 < rb_nUsed b" "rb_nUsed b \<le> rb_nSize b" "rb_nSize b < 2 ^ 31"
    "rb_nBack b = rb_slot b (rb_nUsed b)"
  shows "XRingBuffer_Update b False =
    b\<lparr>rb_nUsed := (if rb_nUsed b = 1 then rb_nSize b else rb_nUsed b - 1),
      rb_nFront := rb_slot b 1, rb_nBack := rb_nBack b\<rparr>"
proof -
  have bk: "rb_nBack b = (if rb_nFront b + rb_nUsed b < rb_nSize b then rb_nFront b + rb_nUsed b
      else rb_nFront b + rb_nUsed b - rb_nSize b)"
    using assms by (simp add: rb_slot_def mod_wrap)
  have nxt: "rb_slot b 1 = (if rb_nFront b + 1 < rb_nSize b then rb_nFront b + 1
      else rb_nFront b + 1 - rb_nSize b)"
    using assms mod_wrap [of "rb_nFront b" "rb_nSize b" 1] by (simp add: rb_slot_def)
  show ?thesis
    using assms(1-4) bk nxt by (subst Update_eq) (auto simp: Let_def simp del: rb_slot_less)
qed

text \<open>
  Dropping the front slot: the queue loses its head, except that dropping the last element leaves
  the ring full of empty slots.
\<close>

lemma drop_front:
  assumes w: "rb_wf b" and u: "0 < rb_nUsed b"
    and d: "rb_pData b = Some (map Some ss)" and s: "XByteBuffer_Clear s0 = c"
  defines "b' \<equiv> XRingBuffer_Update (b\<lparr>rb_pData := Some (map Some (ss[rb_nFront b := c]))\<rparr>) False"
  shows "rb_wf b'" and "rb_nSize b' = rb_nSize b"
    and "rb_queue b' = (if rb_nUsed b = 1 then replicate (rb_nSize b) [] else tl (rb_queue b))"
proof -
  from w have i: "length ss = rb_nSize b" "0 < rb_nSize b" "rb_nSize b < 2 ^ 31" "rb_nFront b < rb_nSize b"
    "rb_nUsed b \<le> rb_nSize b" "rb_nBack b = rb_slot b (rb_nUsed b)" "\<forall>s \<in> set ss. bb_owned s"
    and emp: "\<And>k. rb_nUsed b \<le> k \<Longrightarrow> k < rb_nSize b \<Longrightarrow> bb_content (ss ! rb_slot b k) = []"
    and q: "rb_queue b = map (\<lambda>k. bb_content (ss ! rb_slot b k)) [0..<rb_nUsed b]"
    using d by (auto elim!: rb_wfE simp: inj_map_eq_map)
  let ?ss = "ss[rb_nFront b := c]"
  let ?u = "if rb_nUsed b = 1 then rb_nSize b else rb_nUsed b - 1"
  have b': "b' = b\<lparr>rb_pData := Some (map Some ?ss), rb_nUsed := ?u, rb_nFront := rb_slot b 1, rb_nBack := rb_nBack b\<rparr>"
    unfolding b'_def using i u by (subst Update_remove) (auto simp: rb_slot_def)
  have sl: "rb_slot b' k = rb_slot b (Suc k)" for k
    using i by (simp add: b' rb_slot_def mod_simps)
  have bk: "rb_nBack b' = rb_slot b' (rb_nUsed b')"
    using i u rb_slot_wrap [of b] unfolding sl by (auto simp: b')
  have ct: "bb_content (?ss ! rb_slot b (Suc k)) = (if Suc k = rb_nSize b then [] else bb_content (ss ! rb_slot b (Suc k)))"
    if "k < rb_nSize b" for k
  proof (cases "Suc k = rb_nSize b")
    case True
    then have "rb_slot b (Suc k) = rb_nFront b" using i by (simp add: rb_slot_def)
    then show ?thesis using True i s [symmetric] by simp
  next
    case False
    then have "rb_slot b (Suc k) \<noteq> rb_slot b 0" using that i by (subst rb_slot_inj) auto
    then show ?thesis using False i by simp
  qed
  have own: "\<forall>s \<in> set ?ss. bb_owned s"
    using i(7) s [symmetric] by (auto dest!: set_update_subset_insert [THEN subsetD])
  have emp': "bb_content (?ss ! rb_slot b' k) = []" if "rb_nUsed b' \<le> k" "k < rb_nSize b'" for k
    using that emp [of "Suc k"] ct [of k] unfolding sl by (auto simp: b' split: if_splits)
  show "rb_nSize b' = rb_nSize b" by (simp add: b')
  have prem: "rb_pData b' = Some (map Some ?ss)" "length ?ss = rb_nSize b'" "0 < rb_nSize b'" "rb_nSize b' < 2 ^ 31"
    "rb_nFront b' < rb_nSize b'" "rb_nUsed b' \<le> rb_nSize b'"
    using i by (auto simp: b')
  note r = rb_wfI [OF prem bk own]
  show "rb_wf b'" using r(1) emp' by blast
  have q': "rb_queue b' = map (\<lambda>k. bb_content (?ss ! rb_slot b (Suc k))) [0..<?u]"
    using r(2) emp' by (simp add: sl) (simp add: b')
  show "rb_queue b' = (if rb_nUsed b = 1 then replicate (rb_nSize b) [] else tl (rb_queue b))"
  proof (cases "rb_nUsed b = 1")
    case True
    then have "bb_content (?ss ! rb_slot b (Suc k)) = []" if "k < rb_nSize b" for k
      using ct [OF that] emp [of "Suc k"] that by auto
    then have "map (\<lambda>k. bb_content (?ss ! rb_slot b (Suc k))) [0..<rb_nSize b] = map (\<lambda>_. []) [0..<rb_nSize b]"
      by (intro map_cong) auto
    with True show ?thesis by (simp add: q' map_replicate_const)
  next
    case False
    have "tl (rb_queue b) = map (\<lambda>k. bb_content (ss ! rb_slot b (Suc k))) [0..<rb_nUsed b - 1]"
      using u by (intro nth_equalityI) (auto simp: q nth_tl)
    moreover have "bb_content (?ss ! rb_slot b (Suc k)) = bb_content (ss ! rb_slot b (Suc k))"
      if "k < rb_nUsed b - 1" for k
      using ct [of k] that i by auto
    ultimately show ?thesis using False by (auto simp: q' intro!: map_cong)
  qed
qed

lemma ring_Pop_spec:
  assumes w: "rb_wf b" and u: "0 < rb_nUsed b" "rb_nUsed b < rb_nSize b"
  shows "\<exists>b' s out. XRingBuffer_Pop b n = Some (b', out, to_int (length out)) \<and> rb_wf b' \<and>
     rb_nSize b' = rb_nSize b \<and> bb_owned s \<and> bb_content s = hd (rb_queue b) \<and>
     (\<exists>d. rb_pData b = Some d \<and> peek d (rb_nFront b) = Some (Some s)) \<and>
     XRingBuffer_GetData b = Some (Some (bb_pData s, bb_nSize s), 1) \<and>
     length out = min n (bb_nSize s) \<and> out = take (min n (bb_nSize s)) (case bb_pData s of None \<Rightarrow> [] | Some d \<Rightarrow> d) \<and>
     rb_queue b' = (if rb_nUsed b = 1 then replicate (rb_nSize b) [] else tl (rb_queue b))"
proof -
  from w obtain ss where d: "rb_pData b = Some (map Some ss)" and l: "length ss = rb_nSize b" "rb_nFront b < rb_nSize b"
    and o: "\<forall>s \<in> set ss. bb_owned s"
    and q: "rb_queue b = map (\<lambda>k. bb_content (ss ! rb_slot b k)) [0..<rb_nUsed b]"
    by (rule rb_wfE)
  let ?s = "ss ! rb_nFront b"
  have own: "bb_owned ?s" using o l by simp
  have hd: "bb_content ?s = hd (rb_queue b)" using u l by (simp add: q hd_map)
  let ?n = "if bb_nSize ?s < n then bb_nSize ?s else n"
  obtain out where out: "(if ?n = 0 then Some [] else do { c \<leftarrow> bb_pData ?s; mread c 0 ?n }) = Some out"
    "length out = ?n" "out = take ?n (case bb_pData ?s of None \<Rightarrow> [] | Some d \<Rightarrow> d)"
    using own by (cases rule: bb_ownedE) (cases "n = 0"; auto simp: mread_def)+
  have get: "XRingBuffer_GetData b = Some (Some (bb_pData ?s, bb_nSize ?s), 1)"
    using d l u by (simp add: XRingBuffer_GetData_def peek_def)
  define c where "c = XByteBuffer_Clear ?s"
  define b' where "b' = XRingBuffer_Update (b\<lparr>rb_pData := Some (map Some (ss[rb_nFront b := c]))\<rparr>) False"
  note dr = drop_front [OF w u(1) d c_def [symmetric], folded b'_def]
  have "XRingBuffer_Pop b n = Some (b', out, to_int (length out))"
    using d l u out(1,2) unfolding b'_def c_def
    by (simp add: XRingBuffer_Pop_def peek_def poke_def map_update Let_def)
  moreover have "peek (map Some ss) (rb_nFront b) = Some (Some ?s)" using l by (simp add: peek_def)
  moreover have "?n = min n (bb_nSize ?s)" by simp
  ultimately show ?thesis using own hd out(2,3) dr d get
    by (intro exI [of _ b'] exI [of _ ?s] exI [of _ out]) (simp del: split_paired_Ex)
qed




text \<open>A ring whose used count has reached its size refuses; neither reading nor popping reaches it.\<close>

lemma full_refuses:
  assumes "rb_nUsed b = rb_nSize b"
  shows "XRingBuffer_AddData m junk b s = Some (b, 0)" "XRingBuffer_GetData b = Some (None, 0)"
    "XRingBuffer_Pop b n = Some (b, [], 0)"
  using assms by (simp_all add: XRingBuffer_AddData_def XRingBuffer_GetData_def XRingBuffer_Pop_def)

lemma Advance_spec:
  assumes w: "rb_wf b" and u: "0 < rb_nUsed b"
  shows "\<exists>b'. XRingBuffer_Advance b = Some b' \<and> rb_wf b' \<and> rb_nSize b' = rb_nSize b \<and>
     rb_queue b' = (if rb_nUsed b = 1 then replicate (rb_nSize b) [] else tl (rb_queue b))"
proof -
  from w obtain ss where d: "rb_pData b = Some (map Some ss)" and l: "length ss = rb_nSize b" "rb_nFront b < rb_nSize b"
    by (rule rb_wfE)
  define c where "c = XByteBuffer_Clear (ss ! rb_nFront b)"
  define b' where "b' = XRingBuffer_Update (b\<lparr>rb_pData := Some (map Some (ss[rb_nFront b := c]))\<rparr>) False"
  note dr = drop_front [OF w u d c_def [symmetric], folded b'_def]
  have "XRingBuffer_Advance b = Some b'"
    using d l u unfolding b'_def c_def
    by (simp add: XRingBuffer_Advance_def peek_def poke_def map_update Let_def)
  with dr show ?thesis by blast
qed

definition rb_empty_slot :: xbyte_buffer where
  "rb_empty_slot = \<lparr>bb_pData = None, bb_nSize = 0, bb_nUsed = 0, bb_nAlloc = 0, bb_nFast = 0, bb_nStatus = XSTDOK\<rparr>"

lemma empty_slot: "bb_owned rb_empty_slot" "bb_content rb_empty_slot = []"
  by (auto simp: rb_empty_slot_def bb_owned_def bb_wf_def bb_content_def)



section \<open>Properties\<close>



text \<open>
  C13: Popping from a ring that is neither empty nor full copies the bytes of the block in the front slot up
  to the smaller of the room offered and the slot's capacity, and drops the front string. The capacity is
  not the content: the bytes returned start with the front string, cut to the room offered, and go on with whatever the
  block holds behind it; \<open>XRingBuffer_GetData\<close> gives the same block and the same capacity. Popping the last
  string leaves a ring that counts as full of empty strings, which from then on refuses to be added to, read or popped.
\<close>

theorem ring_pop:
  assumes "rb_wf b" and "0 < rb_nUsed b" and "rb_nUsed b < rb_nSize b"
  shows "\<exists>b' d s out. rb_pData b = Some d \<and> peek d (rb_nFront b) = Some (Some s) \<and> bb_content s = hd (rb_queue b) \<and>
     XRingBuffer_GetData b = Some (Some (bb_pData s, bb_nSize s), 1) \<and>
     XRingBuffer_Pop b n = Some (b', out, to_int (min n (bb_nSize s))) \<and> rb_wf b' \<and>
     length out = min n (bb_nSize s) \<and> out = take (min n (bb_nSize s)) (case bb_pData s of None \<Rightarrow> [] | Some d \<Rightarrow> d) \<and>
     take (length (hd (rb_queue b))) out = take n (hd (rb_queue b)) \<and>
     (if rb_nUsed b = 1
      then rb_queue b' = replicate (rb_nSize b) [] \<and>
           (\<forall>m junk x k. XRingBuffer_AddData m junk b' x = Some (b', 0) \<and>
                XRingBuffer_GetData b' = Some (None, 0) \<and> XRingBuffer_Pop b' k = Some (b', [], 0))
      else rb_queue b' = tl (rb_queue b))"
proof -
  obtain b' s out where b': "XRingBuffer_Pop b n = Some (b', out, to_int (length out))" "rb_wf b'"
    "rb_nSize b' = rb_nSize b" "bb_owned s" "bb_content s = hd (rb_queue b)"
    "\<exists>d. rb_pData b = Some d \<and> peek d (rb_nFront b) = Some (Some s)"
    "XRingBuffer_GetData b = Some (Some (bb_pData s, bb_nSize s), 1)" "length out = min n (bb_nSize s)"
    "out = take (min n (bb_nSize s)) (case bb_pData s of None \<Rightarrow> [] | Some d \<Rightarrow> d)"
    "rb_queue b' = (if rb_nUsed b = 1 then replicate (rb_nSize b) [] else tl (rb_queue b))"
    using ring_Pop_spec [OF assms, of n] by blast
  from b'(2) have "length (rb_queue b') = rb_nUsed b'" by (rule rb_wfE) simp
  then have "rb_nUsed b = 1 \<longrightarrow> rb_nUsed b' = rb_nSize b'" using b'(3,10) by auto
  then have full: "rb_nUsed b = 1 \<longrightarrow> (\<forall>m junk x k. XRingBuffer_AddData m junk b' x = Some (b', 0) \<and>
      XRingBuffer_GetData b' = Some (None, 0) \<and> XRingBuffer_Pop b' k = Some (b', [], 0))"
    using full_refuses by blast
  have str: "take (length (bb_content s)) out = take n (bb_content s)"
    using b'(4) by (cases rule: bb_ownedE) (auto simp: b'(9) bb_content_def min.commute min.left_commute)
  from b'(6) obtain d where d: "rb_pData b = Some d" "peek d (rb_nFront b) = Some (Some s)" by blast
  show ?thesis
    by (rule exI [of _ b'], rule exI [of _ d], rule exI [of _ s], rule exI [of _ out])
      (use b' d full str in \<open>simp add: b'(8)\<close>)
qed

definition rb_example :: xring_buffer where
  "rb_example = \<lparr>rb_pData = Some [Some (bb_example [5, 6]), Some rb_empty_slot], rb_nUsed = 1, rb_nSize = 2,
     rb_nFront = 0, rb_nBack = 1\<rparr>"

theorem ring_pop_witness:
  "\<exists>b'. XRingBuffer_Pop rb_example 3 = Some (b', [5, 6, 0], 3) \<and>
     XRingBuffer_AddData zero_malloc None b' (Some [1]) = Some (b', 0)"
proof -
  have "rb_wf rb_example"
    using bb_example_owned [of "[5, 6]"] empty_slot
    by (simp add: rb_wf_def rb_example_def rb_slot_def)
  moreover have "peek [Some (bb_example [5, 6]), Some rb_empty_slot] 0 = Some (Some (bb_example [5, 6]))" by (simp add: peek_def)
  moreover have "to_int 3 = 3" by (simp add: to_int_small)
  ultimately show ?thesis using ring_pop [of rb_example 3] by (auto simp: rb_example_def bb_example_def min_def)
qed

end
