(* ===== verification/Pool.thy ===== *)
theory Pool
  imports Prelude
begin

text \<open>
  The memory pool of \<open>src/src/sys/pool.c\<close>: a chain of chunks with bump allocation. A pointer is an
  address; a chunk has the address of its block and the block's bytes. A chain is the list of its
  chunks, the root first, with the root's tail hint as a position in the chain.

  \<open>po_inv\<close> is the representation invariant and \<open>po_used\<close> the set of addresses handed out. The
  locale \<open>block_allocator\<close> states what a client of an allocator relies on.
\<close>

record xpool =
  po_pData :: "byte list option"
  po_base :: nat
  po_nUsed :: nat
  po_nSize :: nat
  po_bAlloc :: bool

record xpool_chain =
  pc_chunks :: "xpool list"
  pc_pTail :: "nat option"

text \<open>The C allocator's answer for a block of a given size: its address and its bytes.\<close>

type_synonym heap = "nat \<Rightarrow> (nat \<times> byte list) option"

section \<open>Operations\<close>

abbreviation XPOOL_DEFAULT_SIZE :: nat where "XPOOL_DEFAULT_SIZE \<equiv> 4096"

definition XPOOL_ALIGN :: "nat \<Rightarrow> nat" where
  "XPOOL_ALIGN n = unat ((of_nat n + (8 - 1) :: u64) AND NOT (8 - 1))"

definition XPool_AlignSize :: "nat \<Rightarrow> nat" where
  "XPool_AlignSize n = (let a = XPOOL_ALIGN n in if a < n then 0 else a)"

definition XPool_HasSpace :: "xpool \<Rightarrow> nat \<Rightarrow> bool" where
  "XPool_HasSpace p n \<longleftrightarrow> po_pData p \<noteq> None \<and> n \<le> sz (po_nSize p + 2 ^ 64 - po_nUsed p)"

fun XPool_FindSpace :: "xpool list \<Rightarrow> nat \<Rightarrow> nat option" where
  "XPool_FindSpace [] n = None"
| "XPool_FindSpace (p # ps) n =
     (if XPool_HasSpace p n then Some 0 else map_option Suc (XPool_FindSpace ps n))"

fun XPool_FindOwner :: "xpool list \<Rightarrow> nat \<Rightarrow> nat option" where
  "XPool_FindOwner [] a = None"
| "XPool_FindOwner (p # ps) a =
     (if po_pData p \<noteq> None \<and> po_base p \<le> a \<and> a < po_base p + po_nSize p
      then Some 0 else map_option Suc (XPool_FindOwner ps a))"

text \<open>Following \<open>pNext\<close> from position \<open>i\<close> of a chain of \<open>n\<close> chunks.\<close>

function chase :: "nat \<Rightarrow> nat \<Rightarrow> nat" where
  "chase n i = (if Suc i < n then chase n (Suc i) else i)"
  by pat_completeness auto
termination by (relation "measure (\<lambda>(n, i). n - i)") auto

declare chase.simps [simp del]

definition XPool_GetTail :: "xpool_chain \<Rightarrow> xpool_chain \<times> nat" where
  "XPool_GetTail c =
     (let t = chase (length (pc_chunks c)) (case pc_pTail c of Some i \<Rightarrow> i | None \<Rightarrow> 0)
      in (c\<lparr>pc_pTail := Some t\<rparr>, t))"

text \<open>\<open>None\<close> is the error result; the structure is then left as it was.\<close>

definition XPool_Init :: "heap \<Rightarrow> nat \<Rightarrow> xpool option" where
  "XPool_Init m nSize =
     (let n = XPool_AlignSize (if nSize \<noteq> 0 then nSize else XPOOL_DEFAULT_SIZE)
      in if n = 0 then None
         else case m n of None \<Rightarrow> None
              | Some (a, d) \<Rightarrow>
                  Some \<lparr>po_pData = Some d, po_base = a, po_nUsed = 0, po_nSize = n, po_bAlloc = False\<rparr>)"

definition XPool_Create :: "bool \<Rightarrow> heap \<Rightarrow> nat \<Rightarrow> xpool option" where
  "XPool_Create ok m nSize =
     (if \<not> ok then None else map_option (\<lambda>p. p\<lparr>po_bAlloc := True\<rparr>) (XPool_Init m nSize))"

definition pool_new :: "xpool \<Rightarrow> xpool_chain" where
  "pool_new p = \<lparr>pc_chunks = [p], pc_pTail = Some 0\<rparr>"

text \<open>
  \<open>Destroy\<close> frees every block, and every structure that was allocated; the result is the chunks
  whose structure remains and the addresses passed to \<open>free\<close> as blocks.
\<close>

definition XPool_Destroy :: "xpool_chain \<Rightarrow> xpool list \<times> nat list" where
  "XPool_Destroy c =
     (map (\<lambda>p. p\<lparr>po_pData := None, po_nUsed := 0, po_nSize := 0\<rparr>) (filter (\<lambda>p. \<not> po_bAlloc p) (pc_chunks c)),
      map po_base (filter (\<lambda>p. po_pData p \<noteq> None) (pc_chunks c)))"

definition XPool_Reset :: "xpool_chain \<Rightarrow> xpool_chain" where
  "XPool_Reset c = c\<lparr>pc_chunks := map (\<lambda>p. p\<lparr>po_nUsed := 0\<rparr>) (pc_chunks c)\<rparr>"

definition XPool_Alloc :: "bool \<Rightarrow> heap \<Rightarrow> xpool_chain \<Rightarrow> nat \<Rightarrow> xpool_chain \<times> nat option" where
  "XPool_Alloc ok m c nSize =
     (if nSize = 0 then (c, None)
      else let n = XPool_AlignSize nSize
        in if n = 0 then (c, None)
           else let (c, t) = XPool_GetTail c; ps = pc_chunks c;
                    cur = (if XPool_HasSpace (ps ! t) n then Some t else XPool_FindSpace ps n)
             in case cur of
                  Some i \<Rightarrow>
                    (c\<lparr>pc_chunks := ps[i := (ps ! i)\<lparr>po_nUsed := sz (po_nUsed (ps ! i) + n)\<rparr>]\<rparr>,
                     Some (po_base (ps ! i) + po_nUsed (ps ! i)))
                | None \<Rightarrow>
                    (case XPool_Create ok m (max n (po_nSize (ps ! t))) of
                       None \<Rightarrow> (c, None)
                     | Some p \<Rightarrow>
                         (c\<lparr>pc_chunks := ps @ [p\<lparr>po_nUsed := sz (po_nUsed p + n)\<rparr>], pc_pTail := Some (length ps)\<rparr>,
                          Some (po_base p + po_nUsed p))))"

definition XPool_Free :: "xpool_chain \<Rightarrow> nat \<Rightarrow> nat \<Rightarrow> xpool_chain" where
  "XPool_Free c a nSize =
     (if a = 0 \<or> nSize = 0 then c
      else let n = XPool_AlignSize nSize; ps = pc_chunks c
        in if n = 0 then c
           else case XPool_FindOwner ps a of
                  None \<Rightarrow> c
                | Some i \<Rightarrow>
                    let p = ps ! i
                    in if a = po_base p \<and> po_nUsed p \<le> n then c\<lparr>pc_chunks := ps[i := p\<lparr>po_nUsed := 0\<rparr>]\<rparr>
                       else if po_base p + po_nUsed p = a + n
                       then c\<lparr>pc_chunks := ps[i := p\<lparr>po_nUsed := sz (po_nUsed p + 2 ^ 64 - n)\<rparr>]\<rparr>
                       else c)"

text \<open>Reading and writing bytes at an address of the chain; other memory is not modelled.\<close>

definition pool_read :: "xpool_chain \<Rightarrow> nat \<Rightarrow> nat \<Rightarrow> byte list option" where
  "pool_read c a n = do {
     i \<leftarrow> XPool_FindOwner (pc_chunks c) a;
     d \<leftarrow> po_pData (pc_chunks c ! i);
     mread d (a - po_base (pc_chunks c ! i)) n }"

definition pool_write :: "xpool_chain \<Rightarrow> nat \<Rightarrow> byte list \<Rightarrow> xpool_chain option" where
  "pool_write c a s = do {
     i \<leftarrow> XPool_FindOwner (pc_chunks c) a;
     d \<leftarrow> po_pData (pc_chunks c ! i);
     d' \<leftarrow> memcpy d (a - po_base (pc_chunks c ! i)) s;
     Some (c\<lparr>pc_chunks := (pc_chunks c)[i := (pc_chunks c ! i)\<lparr>po_pData := Some d'\<rparr>]\<rparr>) }"

definition XPool_Realloc ::
  "bool \<Rightarrow> heap \<Rightarrow> xpool_chain \<Rightarrow> nat \<Rightarrow> nat \<Rightarrow> nat \<Rightarrow> (xpool_chain \<times> nat option) option" where
  "XPool_Realloc ok m c a nDataSize nNewSize =
     (if nNewSize = 0 then Some (c, None)
      else if a = 0 \<or> nDataSize = 0 then Some (XPool_Alloc ok m c nNewSize)
      else let old = XPool_AlignSize nDataSize; new = XPool_AlignSize nNewSize; ps = pc_chunks c
        in if old = 0 \<or> new = 0 then Some (c, None)
           else let move = do {
                      let (c1, r) = XPool_Alloc ok m c nNewSize;
                      (case r of
                         None \<Rightarrow> Some (c1, None)
                       | Some b \<Rightarrow> do {
                           s \<leftarrow> pool_read c1 a (min nDataSize nNewSize);
                           c2 \<leftarrow> pool_write c1 b s;
                           Some (XPool_Free c2 a nDataSize, Some b) }) }
             in case XPool_FindOwner ps a of
                  None \<Rightarrow> move
                | Some i \<Rightarrow>
                    let p = ps ! i
                    in if a + old = po_base p + po_nUsed p \<and>
                          (new \<le> old \<or> new - old \<le> sz (po_nSize p + 2 ^ 64 - po_nUsed p))
                       then Some (c\<lparr>pc_chunks := ps[i := p\<lparr>po_nUsed := sz (sz (po_nUsed p + 2 ^ 64 - old) + new)\<rparr>]\<rparr>, Some a)
                       else move)"

text \<open>Without a pool the C allocator answers; its heap is not part of the chain's state.\<close>

definition xalloc :: "bool \<Rightarrow> heap \<Rightarrow> xpool_chain option \<Rightarrow> nat \<Rightarrow> xpool_chain option \<times> nat option" where
  "xalloc ok m pc n =
     (if n = 0 then (pc, None)
      else case pc of None \<Rightarrow> (None, map_option fst (m n))
           | Some c \<Rightarrow> (let (c', r) = XPool_Alloc ok m c n in (Some c', r)))"

definition xfreen :: "xpool_chain option \<Rightarrow> nat \<Rightarrow> nat \<Rightarrow> xpool_chain option" where
  "xfreen pc a n = (if a = 0 \<or> n = 0 then pc else map_option (\<lambda>c. XPool_Free c a n) pc)"

definition XPool_GetSize :: "xpool_chain \<Rightarrow> nat" where
  "XPool_GetSize c = foldl (\<lambda>s p. sz (s + po_nSize p)) 0 (pc_chunks c)"

definition XPool_GetUsed :: "xpool_chain \<Rightarrow> nat" where
  "XPool_GetUsed c = foldl (\<lambda>s p. sz (s + po_nUsed p)) 0 (pc_chunks c)"

section \<open>Rounding\<close>

lemma and_not_7: "unat ((w :: u64) AND NOT 7) = 8 * (unat w div 8)"
proof -
  have "w AND NOT 7 = push_bit 3 (drop_bit 3 w)"
  proof (rule bit_eqI)
    fix n assume "possible_bit TYPE(u64) n"
    then have n: "n < 64" by simp
    have m: "(7::u64) = mask 3" by (simp add: mask_eq_exp_minus_1)
    show "bit (w AND NOT 7) n = bit (push_bit 3 (drop_bit 3 w)) n"
      unfolding m using n by (auto simp: bit_simps)
  qed
  moreover have lt: "unat w < 2 ^ 64"
  proof -
    have "unat w < 2 ^ LENGTH(64)" by (rule unsigned_less)
    then show ?thesis by simp
  qed
  then have "take_bit 64 (unat w) = unat w" by (rule take_bit_nat_eq_self)
  ultimately have "unat (w AND NOT 7) = take_bit 64 (push_bit 3 (drop_bit 3 (unat w)))"
    by (simp add: unsigned_push_bit_eq unsigned_drop_bit_eq)
  also have "\<dots> = push_bit 3 (drop_bit 3 (unat w))"
  proof -
    from lt have "push_bit 3 (drop_bit 3 (unat w)) < 2 ^ 64" by (simp add: push_bit_eq_mult drop_bit_eq_div)
    then show ?thesis by (simp add: take_bit_nat_eq_self)
  qed
  finally show ?thesis by (simp add: push_bit_eq_mult drop_bit_eq_div)
qed

lemma XPOOL_ALIGN_eq: "XPOOL_ALIGN n = 8 * (((n + 7) mod 2 ^ 64) div 8)"
proof -
  have "unat (of_nat n + (8 - 1) :: u64) = (n + 7) mod 2 ^ 64"
    using unat_of_nat [of "n + 7", where 'a = 64] by simp
  then show ?thesis using and_not_7 [of "of_nat n + 7"] by (simp add: XPOOL_ALIGN_def)
qed

lemma AlignSize_eq:
  assumes "n < 2 ^ 64"
  shows "XPool_AlignSize n = (if n + 7 < 2 ^ 64 then 8 * ((n + 7) div 8) else 0)"
proof (cases "n + 7 < 2 ^ 64")
  case True
  then show ?thesis by (simp add: XPool_AlignSize_def XPOOL_ALIGN_eq Let_def) 
next
  case False
  then have "(n + 7) mod 2 ^ 64 = n + 7 - 2 ^ 64" using assms by (simp add: mod_if)
  with False assms show ?thesis by (simp add: XPool_AlignSize_def XPOOL_ALIGN_eq Let_def) 
qed
lemma AlignSize_pos:
  assumes "n < 2 ^ 64" "0 < XPool_AlignSize n"
  shows "n \<le> XPool_AlignSize n" "XPool_AlignSize n < n + 8" "8 dvd XPool_AlignSize n" "XPool_AlignSize n < 2 ^ 64" "0 < n"
  using assms by (auto simp: AlignSize_eq split: if_splits)

lemma AlignSize_idem: "n < 2 ^ 64 \<Longrightarrow> 8 dvd n \<Longrightarrow> XPool_AlignSize n = n"
  by (auto simp: AlignSize_eq)

section \<open>Invariant\<close>

text \<open>
  A chunk's counters fit its block, everything is a multiple of the alignment, and the blocks of
  different chunks do not overlap. \<open>heap_ok\<close> is the C allocator's contract towards a chain: a new
  block is aligned, has the requested length and lies apart from the blocks it already handed out.
\<close>

definition po_ok :: "xpool \<Rightarrow> bool" where
  "po_ok p \<longleftrightarrow> (case po_pData p of None \<Rightarrow> False | Some d \<Rightarrow> length d = po_nSize p) \<and>
     po_nUsed p \<le> po_nSize p \<and> 0 < po_base p \<and> po_base p + po_nSize p < 2 ^ 64 \<and>
     8 dvd po_base p \<and> 8 dvd po_nSize p \<and> 8 dvd po_nUsed p"

definition apart :: "nat \<Rightarrow> nat \<Rightarrow> nat \<Rightarrow> nat \<Rightarrow> bool" where
  "apart a n b k \<longleftrightarrow> a + n \<le> b \<or> b + k \<le> a"

definition po_apart :: "xpool \<Rightarrow> xpool \<Rightarrow> bool" where
  "po_apart p q \<longleftrightarrow> apart (po_base p) (po_nSize p) (po_base q) (po_nSize q)"

definition po_inv :: "xpool_chain \<Rightarrow> bool" where
  "po_inv c \<longleftrightarrow> pc_chunks c \<noteq> [] \<and>
     (case pc_pTail c of None \<Rightarrow> True | Some i \<Rightarrow> i < length (pc_chunks c)) \<and>
     (\<forall>p \<in> set (pc_chunks c). po_ok p) \<and>
     (\<forall>i < length (pc_chunks c). \<forall>j < length (pc_chunks c). i \<noteq> j \<longrightarrow> po_apart (pc_chunks c ! i) (pc_chunks c ! j))"

definition heap_ok :: "xpool list \<Rightarrow> heap \<Rightarrow> bool" where
  "heap_ok ps m \<longleftrightarrow> (\<forall>n a d. m n = Some (a, d) \<longrightarrow>
     length d = n \<and> 0 < a \<and> 8 dvd a \<and> a + n < 2 ^ 64 \<and>
     (\<forall>p \<in> set ps. apart a n (po_base p) (po_nSize p)))"

text \<open>
  The blocks a client holds, with the sizes it asked for: each lies in the used part of a chunk,
  aligned and rounded up, and no two overlap.
\<close>

definition in_chunk :: "xpool \<Rightarrow> nat \<Rightarrow> nat \<Rightarrow> bool" where
  "in_chunk p a n \<longleftrightarrow> po_base p \<le> a \<and> a + XPool_AlignSize n \<le> po_base p + po_nUsed p"

definition po_live :: "xpool_chain \<Rightarrow> (nat \<times> nat) set \<Rightarrow> bool" where
  "po_live c L \<longleftrightarrow>
     (\<forall>(a, n) \<in> L. n < 2 ^ 64 \<and> 0 < XPool_AlignSize n \<and> 8 dvd a \<and> (\<exists>p \<in> set (pc_chunks c). in_chunk p a n)) \<and>
     (\<forall>(a, n) \<in> L. \<forall>(b, k) \<in> L. (a, n) \<noteq> (b, k) \<longrightarrow> apart a (XPool_AlignSize n) b (XPool_AlignSize k))"

lemma po_invD:
  assumes "po_inv c" "i < length (pc_chunks c)"
  shows "po_ok (pc_chunks c ! i)"
    "\<And>j. j < length (pc_chunks c) \<Longrightarrow> i \<noteq> j \<Longrightarrow> po_apart (pc_chunks c ! i) (pc_chunks c ! j)"
  using assms by (auto simp: po_inv_def)

lemma po_inv_tail: "po_inv c \<Longrightarrow> t < length (pc_chunks c) \<Longrightarrow> po_inv (c\<lparr>pc_pTail := Some t\<rparr>)"
  by (auto simp: po_inv_def)

lemma po_live_tail [simp]: "po_live (c\<lparr>pc_pTail := t\<rparr>) L = po_live c L"
  by (simp add: po_live_def)

text \<open>Changing the used count of one chunk.\<close>

lemma po_inv_used:
  assumes "po_inv c" "i < length (pc_chunks c)" "u \<le> po_nSize (pc_chunks c ! i)" "8 dvd u"
  shows "po_inv (c\<lparr>pc_chunks := (pc_chunks c)[i := (pc_chunks c ! i)\<lparr>po_nUsed := u\<rparr>]\<rparr>)"
proof -
  have "po_ok ((pc_chunks c ! i)\<lparr>po_nUsed := u\<rparr>)"
    using po_invD(1) [OF assms(1,2)] assms(3,4) by (simp add: po_ok_def split: option.splits)
  then have "\<forall>p \<in> set ((pc_chunks c)[i := (pc_chunks c ! i)\<lparr>po_nUsed := u\<rparr>]). po_ok p"
    using assms(1) by (auto simp: po_inv_def dest!: set_update_subset_insert [THEN subsetD])
  then show ?thesis
    using assms(1,2) by (auto simp: po_inv_def po_apart_def nth_list_update split: option.splits)
qed

lemma po_live_used:
  assumes i: "i < length (pc_chunks c)"
    and loc: "\<And>a n. (a, n) \<in> L' \<Longrightarrow> n < 2 ^ 64 \<and> 0 < XPool_AlignSize n \<and> 8 dvd a \<and>
      ((\<exists>j < length (pc_chunks c). j \<noteq> i \<and> in_chunk (pc_chunks c ! j) a n) \<or>
       po_base (pc_chunks c ! i) \<le> a \<and> a + XPool_AlignSize n \<le> po_base (pc_chunks c ! i) + u)"
    and sep: "\<And>a n b k. (a, n) \<in> L' \<Longrightarrow> (b, k) \<in> L' \<Longrightarrow> (a, n) \<noteq> (b, k) \<Longrightarrow>
      apart a (XPool_AlignSize n) b (XPool_AlignSize k)"
  shows "po_live (c\<lparr>pc_chunks := (pc_chunks c)[i := (pc_chunks c ! i)\<lparr>po_nUsed := u\<rparr>]\<rparr>) L'"
proof -
  let ?p = "(pc_chunks c ! i)\<lparr>po_nUsed := u\<rparr>"
  have "\<exists>p \<in> set ((pc_chunks c)[i := ?p]). in_chunk p a n" if "(a, n) \<in> L'" for a n
  proof -
    from loc [OF that] consider j where "j < length (pc_chunks c)" "j \<noteq> i" "in_chunk (pc_chunks c ! j) a n"
      | "in_chunk ?p a n" by (auto simp: in_chunk_def)
    then show ?thesis
    proof cases
      case 1
      then show ?thesis by (metis length_list_update nth_list_update_neq nth_mem)
    next
      case 2
      then show ?thesis using i set_update_memI by fast
    qed
  qed
  then show ?thesis using loc sep by (fastforce simp: po_live_def)
qed

text \<open>A live block sits in one chunk; blocks of different chunks are apart.\<close>

lemma po_liveD:
  assumes "po_live c L" "(a, n) \<in> L"
  obtains j where "j < length (pc_chunks c)" "in_chunk (pc_chunks c ! j) a n" "n < 2 ^ 64"
    "0 < XPool_AlignSize n" "8 dvd a"
  using assms by (fastforce simp: po_live_def in_set_conv_nth)

lemma other_chunk_apart:
  assumes c: "po_inv c" and i: "i < length (pc_chunks c)" and j: "j < length (pc_chunks c)" "j \<noteq> i"
    and b: "in_chunk (pc_chunks c ! j) b k"
    and a: "po_base (pc_chunks c ! i) \<le> a" "a + x \<le> po_base (pc_chunks c ! i) + po_nSize (pc_chunks c ! i)"
  shows "apart a x b (XPool_AlignSize k)"
  using po_invD(2) [OF c i j(1)] j(2) po_invD(1) [OF c j(1)] a b
  by (auto simp: po_apart_def apart_def in_chunk_def po_ok_def)

section \<open>Allocation\<close>

lemma HasSpace_ok: "po_ok p \<Longrightarrow> XPool_HasSpace p n \<longleftrightarrow> po_nUsed p + n \<le> po_nSize p"
proof -
  assume p: "po_ok p"
  have "sz (po_nSize p + 2 ^ 64 - po_nUsed p) = po_nSize p - po_nUsed p"
    using p by (intro sz_sub) (auto simp: po_ok_def)
  then show ?thesis using p by (auto simp: XPool_HasSpace_def po_ok_def split: option.splits)
qed

lemma FindSpace_Some: "XPool_FindSpace ps n = Some i \<Longrightarrow> i < length ps \<and> XPool_HasSpace (ps ! i) n"
  by (induction ps arbitrary: i) (auto split: if_splits)

lemma FindOwner_Some:
  "XPool_FindOwner ps a = Some i \<Longrightarrow>
   i < length ps \<and> po_pData (ps ! i) \<noteq> None \<and> po_base (ps ! i) \<le> a \<and> a < po_base (ps ! i) + po_nSize (ps ! i)"
  by (induction ps arbitrary: i) (auto split: if_splits)

lemma FindOwner_None:
  "XPool_FindOwner ps a = None \<Longrightarrow> p \<in> set ps \<Longrightarrow> po_pData p \<noteq> None \<Longrightarrow> \<not> (po_base p \<le> a \<and> a < po_base p + po_nSize p)"
  by (induction ps) (auto split: if_splits)

lemma chase_last: "i < n \<Longrightarrow> chase n i = n - 1"
  by (induction n i rule: chase.induct) (subst chase.simps, auto)

lemma GetTail_inv:
  assumes "po_inv c" "XPool_GetTail c = (c1, t)"
  shows "t < length (pc_chunks c)" "c1 = c\<lparr>pc_pTail := Some t\<rparr>" "po_inv c1"
proof -
  have "0 < length (pc_chunks c)" using assms(1) by (simp add: po_inv_def)
  then show t: "t < length (pc_chunks c)" and c1: "c1 = c\<lparr>pc_pTail := Some t\<rparr>"
    using assms by (auto simp: XPool_GetTail_def Let_def po_inv_def chase_last split: option.splits)
  show "po_inv c1" unfolding c1 by (rule po_inv_tail [OF assms(1) t])
qed

lemma Create_ok:
  assumes "XPool_Create ok m n = Some p" "heap_ok ps m" "n < 2 ^ 64"
  shows "po_ok p" "po_nUsed p = 0" "n \<le> po_nSize p" "\<forall>q \<in> set ps. po_apart p q"
proof -
  obtain a d where k: "0 < XPool_AlignSize (if n \<noteq> 0 then n else XPOOL_DEFAULT_SIZE)"
    "m (XPool_AlignSize (if n \<noteq> 0 then n else XPOOL_DEFAULT_SIZE)) = Some (a, d)"
    "p = \<lparr>po_pData = Some d, po_base = a, po_nUsed = 0,
      po_nSize = XPool_AlignSize (if n \<noteq> 0 then n else XPOOL_DEFAULT_SIZE), po_bAlloc = True\<rparr>"
    using assms(1) by (auto simp: XPool_Create_def XPool_Init_def Let_def split: if_splits option.splits)
  moreover have "(if n \<noteq> 0 then n else XPOOL_DEFAULT_SIZE) < 2 ^ 64" using assms(3) by simp
  note al = AlignSize_pos [OF this k(1)]
  moreover have h: "length d = XPool_AlignSize (if n \<noteq> 0 then n else XPOOL_DEFAULT_SIZE) \<and> 0 < a \<and> 8 dvd a \<and>
     a + XPool_AlignSize (if n \<noteq> 0 then n else XPOOL_DEFAULT_SIZE) < 2 ^ 64 \<and>
     (\<forall>q \<in> set ps. apart a (XPool_AlignSize (if n \<noteq> 0 then n else XPOOL_DEFAULT_SIZE)) (po_base q) (po_nSize q))"
    using assms(2) k(2) by (auto simp: heap_ok_def)
  ultimately show "po_ok p" "po_nUsed p = 0" "n \<le> po_nSize p" "\<forall>q \<in> set ps. po_apart p q"
    by (auto simp: po_ok_def po_apart_def split: if_splits)
qed

lemma po_inv_append:
  assumes "po_inv c" "po_ok p" "\<forall>q \<in> set (pc_chunks c). po_apart p q"
  shows "po_inv (c\<lparr>pc_chunks := pc_chunks c @ [p], pc_pTail := Some (length (pc_chunks c))\<rparr>)"
  using assms
  by (auto simp: po_inv_def nth_append less_Suc_eq po_apart_def apart_def dest!: bspec [OF _ nth_mem])

lemma Alloc_cases:
  assumes c: "po_inv c" and n: "n < 2 ^ 64" and m: "heap_ok (pc_chunks c) m"
  obtains (none) c' where "XPool_Alloc ok m c n = (c', None)" "pc_chunks c' = pc_chunks c" "po_inv c'"
  | (some) c0 i where "0 < XPool_AlignSize n" "po_inv c0" "i < length (pc_chunks c0)"
      "pc_chunks c0 = pc_chunks c \<or> (\<exists>p. pc_chunks c0 = pc_chunks c @ [p])"
      "po_nUsed (pc_chunks c0 ! i) + XPool_AlignSize n \<le> po_nSize (pc_chunks c0 ! i)"
      "XPool_Alloc ok m c n =
        (c0\<lparr>pc_chunks := (pc_chunks c0)[i := (pc_chunks c0 ! i)\<lparr>po_nUsed := po_nUsed (pc_chunks c0 ! i) + XPool_AlignSize n\<rparr>]\<rparr>,
         Some (po_base (pc_chunks c0 ! i) + po_nUsed (pc_chunks c0 ! i)))"
proof -
  obtain c1 t where gt: "XPool_GetTail c = (c1, t)" by (cases "XPool_GetTail c")
  note tl = GetTail_inv [OF c gt]
  let ?n = "XPool_AlignSize n"
  have ch: "pc_chunks c1 = pc_chunks c" by (simp add: tl(2))
  show ?thesis
  proof (cases "n = 0 \<or> ?n = 0")
    case True
    then show ?thesis using c by (intro none [of c]) (auto simp: XPool_Alloc_def Let_def)
  next
    case False
    define cur where "cur = (if XPool_HasSpace (pc_chunks c ! t) ?n then Some t else XPool_FindSpace (pc_chunks c) ?n)"
    have ev: "XPool_Alloc ok m c n =
       (case cur of
          Some i \<Rightarrow>
            (c1\<lparr>pc_chunks := (pc_chunks c)[i := (pc_chunks c ! i)\<lparr>po_nUsed := sz (po_nUsed (pc_chunks c ! i) + ?n)\<rparr>]\<rparr>,
             Some (po_base (pc_chunks c ! i) + po_nUsed (pc_chunks c ! i)))
        | None \<Rightarrow>
            (case XPool_Create ok m (max ?n (po_nSize (pc_chunks c ! t))) of
               None \<Rightarrow> (c1, None)
             | Some p \<Rightarrow>
                 (c1\<lparr>pc_chunks := pc_chunks c @ [p\<lparr>po_nUsed := sz (po_nUsed p + ?n)\<rparr>], pc_pTail := Some (length (pc_chunks c))\<rparr>,
                  Some (po_base p + po_nUsed p))))"
      using False by (simp add: XPool_Alloc_def Let_def gt ch [symmetric] cur_def cong: option.case_cong)
    show ?thesis
    proof (cases cur)
      case (Some i)
      then have i: "i < length (pc_chunks c)" "XPool_HasSpace (pc_chunks c ! i) ?n"
        using tl(1) FindSpace_Some [of "pc_chunks c" ?n i] by (auto simp: cur_def split: if_splits)
      have fit: "po_nUsed (pc_chunks c ! i) + ?n \<le> po_nSize (pc_chunks c ! i)"
        using i HasSpace_ok po_invD(1) [OF c i(1)] by blast
      moreover have "po_nSize (pc_chunks c ! i) < 2 ^ 64" using po_invD(1) [OF c i(1)] by (simp add: po_ok_def)
      ultimately show ?thesis
        using False Some i tl(3) ch by (intro some [of c1 i]) (auto simp: ev)
    next
      case none_: None
      show ?thesis
      proof (cases "XPool_Create ok m (max ?n (po_nSize (pc_chunks c ! t)))")
        case None
        then show ?thesis
          using none_ tl(3) ch by (intro none [of c1]) (auto simp: ev)
      next
        case (Some p)
        have lt: "max ?n (po_nSize (pc_chunks c ! t)) < 2 ^ 64"
          using po_invD(1) [OF c tl(1)] AlignSize_pos(4) [OF n] False by (auto simp: po_ok_def)
        note p = Create_ok [OF Some m lt]
        let ?c0 = "c1\<lparr>pc_chunks := pc_chunks c1 @ [p], pc_pTail := Some (length (pc_chunks c1))\<rparr>"
        have "po_inv ?c0" using po_inv_append [OF tl(3), of p] p ch by simp
        moreover have "?n \<le> po_nSize p" "?n < 2 ^ 64" using p(3) lt by auto
        ultimately show ?thesis
          using False none_ ch Some p
          by (intro some [of ?c0 "length (pc_chunks c)"]) (auto simp: ev)
      qed
    qed
  qed
qed

text \<open>An allocated block is apart from every live one, and all blocks are live afterwards.\<close>

lemma po_live_mono:
  "po_live c L \<Longrightarrow> set (pc_chunks c) \<subseteq> set (pc_chunks c') \<Longrightarrow> po_live c' L"
  by (fastforce simp: po_live_def)

lemma bump_live:
  assumes c: "po_inv c" and i: "i < length (pc_chunks c)" and n: "n < 2 ^ 64" "0 < XPool_AlignSize n"
    and fit: "po_nUsed (pc_chunks c ! i) + XPool_AlignSize n \<le> po_nSize (pc_chunks c ! i)"
    and L: "po_live c L"
  defines "c' \<equiv> c\<lparr>pc_chunks := (pc_chunks c)[i := (pc_chunks c ! i)\<lparr>po_nUsed := po_nUsed (pc_chunks c ! i) + XPool_AlignSize n\<rparr>]\<rparr>"
    and "a \<equiv> po_base (pc_chunks c ! i) + po_nUsed (pc_chunks c ! i)"
  shows "po_inv c'" "po_live c' (insert (a, n) L)"
    "\<forall>(b, k) \<in> L. apart a (XPool_AlignSize n) b (XPool_AlignSize k)"
proof -
  note ok = po_invD(1) [OF c i]
  have al: "8 dvd po_nUsed (pc_chunks c ! i) + XPool_AlignSize n"
    using ok AlignSize_pos(3) [OF n] by (auto simp: po_ok_def)
  show "po_inv c'" unfolding c'_def by (rule po_inv_used [OF c i fit al])
  show ap: "\<forall>(b, k) \<in> L. apart a (XPool_AlignSize n) b (XPool_AlignSize k)"
  proof clarify
    fix b k assume "(b, k) \<in> L"
    with L obtain j where j: "j < length (pc_chunks c)" "in_chunk (pc_chunks c ! j) b k" by (rule po_liveD)
    show "apart a (XPool_AlignSize n) b (XPool_AlignSize k)"
    proof (cases "j = i")
      case True
      then show ?thesis using j by (auto simp: in_chunk_def apart_def a_def)
    next
      case False
      with fit show ?thesis by (intro other_chunk_apart [OF c i j(1) _ j(2)]) (auto simp: a_def)
    qed
  qed
  have loc: "k < 2 ^ 64 \<and> 0 < XPool_AlignSize k \<and> 8 dvd b \<and>
      ((\<exists>j < length (pc_chunks c). j \<noteq> i \<and> in_chunk (pc_chunks c ! j) b k) \<or>
       po_base (pc_chunks c ! i) \<le> b \<and> b + XPool_AlignSize k \<le>
         po_base (pc_chunks c ! i) + (po_nUsed (pc_chunks c ! i) + XPool_AlignSize n))"
    if bk: "(b, k) \<in> insert (a, n) L" for b k
  proof (cases "(b, k) = (a, n)")
    case True
    then show ?thesis using n ok by (auto simp: a_def po_ok_def)
  next
    case False
    with bk have "(b, k) \<in> L" by blast
    with L obtain j where "j < length (pc_chunks c)" "in_chunk (pc_chunks c ! j) b k" "k < 2 ^ 64"
      "0 < XPool_AlignSize k" "8 dvd b" by (rule po_liveD)
    then show ?thesis by (cases "j = i") (auto simp: in_chunk_def)
  qed
  show "po_live c' (insert (a, n) L)"
    unfolding c'_def
  proof (rule po_live_used [OF i loc])
    fix b k b' k' assume "(b, k) \<in> insert (a, n) L" "(b', k') \<in> insert (a, n) L" "(b, k) \<noteq> (b', k')"
    then show "apart b (XPool_AlignSize k) b' (XPool_AlignSize k')"
      using ap L by (auto simp: po_live_def apart_def)
  qed
qed

lemma Alloc_live:
  assumes c: "po_inv c" and n: "n < 2 ^ 64" and m: "heap_ok (pc_chunks c) m" and L: "po_live c L"
    and a: "XPool_Alloc ok m c n = (c', r)"
  shows "po_inv c'"
    "case r of None \<Rightarrow> po_live c' L
     | Some a \<Rightarrow> po_live c' (insert (a, n) L) \<and> (\<forall>(b, k) \<in> L. apart a (XPool_AlignSize n) b (XPool_AlignSize k))"
proof -
  have "po_inv c' \<and> (case r of None \<Rightarrow> po_live c' L
     | Some a \<Rightarrow> po_live c' (insert (a, n) L) \<and> (\<forall>(b, k) \<in> L. apart a (XPool_AlignSize n) b (XPool_AlignSize k)))"
    using c n m
  proof (cases rule: Alloc_cases [where ok = ok])
    case (none d)
    then show ?thesis using a L by (auto simp: po_live_def)
  next
    case (some c0 i)
    have "po_live c0 L" using some(4) by (intro po_live_mono [OF L]) auto
    from bump_live [OF some(2,3) n some(1,5) this] some(6) a show ?thesis by auto
  qed
  then show "po_inv c'"
    "case r of None \<Rightarrow> po_live c' L
     | Some a \<Rightarrow> po_live c' (insert (a, n) L) \<and> (\<forall>(b, k) \<in> L. apart a (XPool_AlignSize n) b (XPool_AlignSize k))"
    by auto
qed

section \<open>Release\<close>

text \<open>The owner of a live block is the chunk it lies in.\<close>

lemma FindOwner_live:
  assumes c: "po_inv c" and j: "j < length (pc_chunks c)" "in_chunk (pc_chunks c ! j) a n" and n: "0 < XPool_AlignSize n"
  shows "XPool_FindOwner (pc_chunks c) a = Some j"
proof -
  have inj: "po_base (pc_chunks c ! j) \<le> a" "a < po_base (pc_chunks c ! j) + po_nSize (pc_chunks c ! j)"
    using j n po_invD(1) [OF c j(1)] by (auto simp: in_chunk_def po_ok_def)
  have nn: "po_pData (pc_chunks c ! j) \<noteq> None" using po_invD(1) [OF c j(1)] by (auto simp: po_ok_def split: option.splits)
  have "XPool_FindOwner (pc_chunks c) a \<noteq> None"
    using FindOwner_None [of "pc_chunks c" a "pc_chunks c ! j"] j(1) inj nn by auto
  then obtain i where i: "XPool_FindOwner (pc_chunks c) a = Some i" by auto
  note o = FindOwner_Some [OF i]
  have "i = j"
    using po_invD(2) [OF c j(1), of i] o inj by (auto simp: po_apart_def apart_def)
  with i show ?thesis by simp
qed

lemma po_live_iff:
  "po_live c L \<longleftrightarrow>
     (\<forall>x \<in> L. snd x < 2 ^ 64 \<and> 0 < XPool_AlignSize (snd x) \<and> 8 dvd fst x \<and> (\<exists>p \<in> set (pc_chunks c). in_chunk p (fst x) (snd x))) \<and>
     pairwise (\<lambda>x y. apart (fst x) (XPool_AlignSize (snd x)) (fst y) (XPool_AlignSize (snd y))) L"
  by (simp add: po_live_def pairwise_def case_prod_beta prod_eq_iff)

lemma po_live_subset: "po_live c L \<Longrightarrow> L' \<subseteq> L \<Longrightarrow> po_live c L'"
  unfolding po_live_iff by (meson pairwise_subset subset_iff)

lemma shrink_live:
  assumes c: "po_inv c" and i: "i < length (pc_chunks c)" and L: "po_live c L"
    and u: "\<And>b k. (b, k) \<in> L \<Longrightarrow> in_chunk (pc_chunks c ! i) b k \<Longrightarrow>
      b + XPool_AlignSize k \<le> po_base (pc_chunks c ! i) + u"
  shows "po_live (c\<lparr>pc_chunks := (pc_chunks c)[i := (pc_chunks c ! i)\<lparr>po_nUsed := u\<rparr>]\<rparr>) L"
proof (rule po_live_used [OF i])
  fix b k assume bk: "(b, k) \<in> L"
  with L obtain j where "j < length (pc_chunks c)" "in_chunk (pc_chunks c ! j) b k" "k < 2 ^ 64"
    "0 < XPool_AlignSize k" "8 dvd b" by (rule po_liveD)
  with u [OF bk] show "k < 2 ^ 64 \<and> 0 < XPool_AlignSize k \<and> 8 dvd b \<and>
      ((\<exists>j < length (pc_chunks c). j \<noteq> i \<and> in_chunk (pc_chunks c ! j) b k) \<or>
       po_base (pc_chunks c ! i) \<le> b \<and> b + XPool_AlignSize k \<le> po_base (pc_chunks c ! i) + u)"
    by (cases "j = i") (auto simp: in_chunk_def)
next
  fix a n b k assume "(a, n) \<in> L" "(b, k) \<in> L" "(a, n) \<noteq> (b, k)"
  then show "apart a (XPool_AlignSize n) b (XPool_AlignSize k)" using L by (auto simp: po_live_def)
qed

lemma Free_live:
  assumes c: "po_inv c" and L: "po_live c L" and an: "(a, n) \<in> L"
  shows "po_inv (XPool_Free c a n)" "po_live (XPool_Free c a n) (L - {(a, n)})"
proof -
  from L an obtain i where i: "i < length (pc_chunks c)" "in_chunk (pc_chunks c ! i) a n" "n < 2 ^ 64"
    "0 < XPool_AlignSize n" "8 dvd a" by (rule po_liveD)
  let ?p = "pc_chunks c ! i" and ?n = "XPool_AlignSize n"
  note ok = po_invD(1) [OF c i(1)]
  note own = FindOwner_live [OF c i(1,2,4)]
  note al = AlignSize_pos [OF i(3,4)]
  have L': "po_live c (L - {(a, n)})" by (rule po_live_subset [OF L]) blast
  have sep: "apart a ?n b (XPool_AlignSize k)" if "(b, k) \<in> L - {(a, n)}" for b k
    using L an that by (auto simp: po_live_def)
  have pos: "0 < XPool_AlignSize k" if "(b, k) \<in> L - {(a, n)}" for b k
    using L that by (auto simp: po_live_def)
  have a0: "a \<noteq> 0" "n \<noteq> 0" using i(2) ok al(5) by (auto simp: in_chunk_def po_ok_def)
  define u where "u = (if a = po_base ?p \<and> po_nUsed ?p \<le> ?n then 0
      else if po_base ?p + po_nUsed ?p = a + ?n then po_nUsed ?p - ?n else po_nUsed ?p)"
  have le: "?n \<le> po_nUsed ?p" using i(2) by (auto simp: in_chunk_def)
  have "sz (po_nUsed ?p + 2 ^ 64 - ?n) = po_nUsed ?p - ?n"
    using le ok by (intro sz_sub) (auto simp: po_ok_def)
  then have ev: "XPool_Free c a n = c\<lparr>pc_chunks := (pc_chunks c)[i := ?p\<lparr>po_nUsed := u\<rparr>]\<rparr>"
    using own a0 i(4) by (auto simp: XPool_Free_def Let_def u_def)
  have "8 dvd u" using ok al(3) le by (auto simp: u_def po_ok_def)
  moreover have "u \<le> po_nSize ?p" using ok by (auto simp: u_def po_ok_def)
  ultimately show "po_inv (XPool_Free c a n)" unfolding ev by (intro po_inv_used [OF c i(1)])
  show "po_live (XPool_Free c a n) (L - {(a, n)})"
    unfolding ev
  proof (rule shrink_live [OF c i(1) L'])
    fix b k assume bk: "(b, k) \<in> L - {(a, n)}" "in_chunk ?p b k"
    from sep [OF bk(1)] pos [OF bk(1)] bk(2) i(2) le show "b + XPool_AlignSize k \<le> po_base ?p + u"
      by (auto simp: u_def in_chunk_def apart_def)
  qed
qed

lemma Reset_live: "po_inv c \<Longrightarrow> po_inv (XPool_Reset c) \<and> po_live (XPool_Reset c) {}"
  by (auto simp: po_inv_def po_live_def XPool_Reset_def po_ok_def po_apart_def split: option.splits)

section \<open>Memory\<close>

text \<open>
  Reading inside a live block is defined. A write inside one is read back, and leaves every
  block apart from it as it was.
\<close>

lemma read_chunk:
  assumes c: "po_inv c" and j: "j < length (pc_chunks c)" "in_chunk (pc_chunks c ! j) a n" and n: "0 < XPool_AlignSize n"
    and l: "l \<le> XPool_AlignSize n" and d: "po_pData (pc_chunks c ! j) = Some d"
  shows "pool_read c a l = Some (take l (drop (a - po_base (pc_chunks c ! j)) d))"
proof -
  have "length d = po_nSize (pc_chunks c ! j)" using po_invD(1) [OF c j(1)] d by (simp add: po_ok_def)
  moreover have "a - po_base (pc_chunks c ! j) + l \<le> po_nSize (pc_chunks c ! j)"
    using j(2) l po_invD(1) [OF c j(1)] by (auto simp: in_chunk_def po_ok_def)
  ultimately show ?thesis
    using FindOwner_live [OF c j n] d by (simp add: pool_read_def mread_def)
qed

lemma chunk_data:
  assumes "po_inv c" "j < length (pc_chunks c)"
  obtains d where "po_pData (pc_chunks c ! j) = Some d" "length d = po_nSize (pc_chunks c ! j)"
  using po_invD(1) [OF assms] by (auto simp: po_ok_def split: option.splits)

lemma write_chunk:
  assumes c: "po_inv c" and j: "j < length (pc_chunks c)" "in_chunk (pc_chunks c ! j) a n" and n: "0 < XPool_AlignSize n"
    and s: "length s \<le> XPool_AlignSize n" and d: "po_pData (pc_chunks c ! j) = Some d"
  defines "off \<equiv> a - po_base (pc_chunks c ! j)"
  shows "pool_write c a s = Some (c\<lparr>pc_chunks := (pc_chunks c)[j := (pc_chunks c ! j)
     \<lparr>po_pData := Some (take off d @ s @ drop (off + length s) d)\<rparr>]\<rparr>)" "off + length s \<le> length d"
proof -
  have "length d = po_nSize (pc_chunks c ! j)" using po_invD(1) [OF c j(1)] d by (simp add: po_ok_def)
  then show le: "off + length s \<le> length d"
    using j(2) s po_invD(1) [OF c j(1)] by (auto simp: in_chunk_def po_ok_def off_def)
  then show "pool_write c a s = Some (c\<lparr>pc_chunks := (pc_chunks c)[j := (pc_chunks c ! j)
     \<lparr>po_pData := Some (take off d @ s @ drop (off + length s) d)\<rparr>]\<rparr>)"
    using FindOwner_live [OF c j n] d by (simp add: pool_write_def memcpy_def off_def)
qed

lemma slice_other:
  assumes "off + length s \<le> length d" "q + l \<le> off \<or> off + length s \<le> q"
  shows "take l (drop q (take off d @ s @ drop (off + length s) d)) = take l (drop q d)"
proof (rule nth_equalityI)
  show "length (take l (drop q (take off d @ s @ drop (off + length s) d))) = length (take l (drop q d))"
    using assms by auto
  fix i assume "i < length (take l (drop q (take off d @ s @ drop (off + length s) d)))"
  then show "take l (drop q (take off d @ s @ drop (off + length s) d)) ! i = take l (drop q d) ! i"
    using assms by (auto simp: nth_append)
qed

lemma write_live:
  assumes c: "po_inv c" and L: "po_live c L" and an: "(a, n) \<in> L" and s: "length s \<le> XPool_AlignSize n"
  shows "\<exists>c'. pool_write c a s = Some c' \<and> po_inv c' \<and> po_live c' L \<and> pool_read c' a (length s) = Some s \<and>
    (\<forall>(b, k) \<in> L. (b, k) \<noteq> (a, n) \<longrightarrow> (\<forall>l \<le> XPool_AlignSize k. pool_read c' b l = pool_read c b l))"
proof -
  from L an obtain j where j: "j < length (pc_chunks c)" "in_chunk (pc_chunks c ! j) a n" "n < 2 ^ 64"
    "0 < XPool_AlignSize n" "8 dvd a" by (rule po_liveD)
  obtain d where d: "po_pData (pc_chunks c ! j) = Some d" "length d = po_nSize (pc_chunks c ! j)"
    by (rule chunk_data [OF c j(1)])
  define off where "off = a - po_base (pc_chunks c ! j)"
  define d' where "d' = take off d @ s @ drop (off + length s) d"
  define c' where "c' = c\<lparr>pc_chunks := (pc_chunks c)[j := (pc_chunks c ! j)\<lparr>po_pData := Some d'\<rparr>]\<rparr>"
  note w = write_chunk [OF c j(1,2,4) s d(1), folded off_def, folded d'_def, folded c'_def]
  have len: "length d' = length d" using w(2) by (simp add: d'_def)
  have "po_ok ((pc_chunks c ! j)\<lparr>po_pData := Some d'\<rparr>)"
    using po_invD(1) [OF c j(1)] len d by (simp add: po_ok_def)
  then have inv: "po_inv c'"
    using c j(1) by (auto simp: c'_def po_inv_def po_apart_def nth_list_update split: option.splits
        dest!: set_update_subset_insert [THEN subsetD])
  have nth: "pc_chunks c' ! i = (if i = j then (pc_chunks c ! j)\<lparr>po_pData := Some d'\<rparr> else pc_chunks c ! i)"
    and length: "length (pc_chunks c') = length (pc_chunks c)" for i
    using j(1) by (auto simp: c'_def nth_list_update)
  have inch: "in_chunk (pc_chunks c' ! i) b k = in_chunk (pc_chunks c ! i) b k" for i b k
    by (simp add: nth in_chunk_def)
  have live: "po_live c' L"
  proof -
    have "\<exists>p \<in> set (pc_chunks c'). in_chunk p b k" if "(b, k) \<in> L" for b k
    proof -
      from L that obtain i where "i < length (pc_chunks c)" "in_chunk (pc_chunks c ! i) b k" by (rule po_liveD)
      then show ?thesis using inch [of i] length by (metis nth_mem)
    qed
    then show ?thesis using L by (auto simp: po_live_def)
  qed
  have self: "pool_read c' a (length s) = Some s"
    using read_chunk [OF inv _ _ j(4) s, where j = j and d = d'] j(1,2) inch [of j] length w(2)
    by (simp add: nth d'_def off_def)
  have "pool_read c' b l = pool_read c b l" if bk: "(b, k) \<in> L" "(b, k) \<noteq> (a, n)" "l \<le> XPool_AlignSize k" for b k l
  proof -
    from L bk(1) obtain i where i: "i < length (pc_chunks c)" "in_chunk (pc_chunks c ! i) b k" "k < 2 ^ 64"
      "0 < XPool_AlignSize k" by (rule po_liveD)
    obtain e where e: "po_pData (pc_chunks c ! i) = Some e" by (rule chunk_data [OF c i(1)])
    have old: "pool_read c b l = Some (take l (drop (b - po_base (pc_chunks c ! i)) e))"
      by (rule read_chunk [OF c i(1,2,4) bk(3) e])
    show ?thesis
    proof (cases "i = j")
      case False
      then show ?thesis
        using read_chunk [OF inv _ _ i(4) bk(3), where j = i and d = e] i inch [of i] length old e by (simp add: nth)
    next
      case True
      have ap: "apart a (XPool_AlignSize n) b (XPool_AlignSize k)" using L an bk by (auto simp: po_live_def)
      then have "(b - po_base (pc_chunks c ! i)) + l \<le> off \<or> off + length s \<le> b - po_base (pc_chunks c ! i)"
        using True i(2) j(2) s bk(3) by (auto simp: apart_def in_chunk_def off_def)
      from slice_other [OF w(2) this, folded d'_def]
      have "take l (drop (b - po_base (pc_chunks c ! i)) d') = take l (drop (b - po_base (pc_chunks c ! i)) e)"
        using e d True by simp
      then show ?thesis
        using read_chunk [OF inv _ _ i(4) bk(3), where j = i and d = d'] True i inch [of i] length old by (simp add: nth)
    qed
  qed
  then show ?thesis using w(1) inv live self by auto
qed

text \<open>Changing a used count or appending a chunk moves no byte.\<close>

lemma FindOwner_used:
  "XPool_FindOwner (ps[i := (ps ! i)\<lparr>po_nUsed := u\<rparr>]) a = XPool_FindOwner ps a"
  by (induction ps arbitrary: i) (auto split: nat.splits)

lemma read_used:
  "i < length (pc_chunks c) \<Longrightarrow>
   pool_read (c\<lparr>pc_chunks := (pc_chunks c)[i := (pc_chunks c ! i)\<lparr>po_nUsed := u\<rparr>]\<rparr>) a l = pool_read c a l"
  by (cases "XPool_FindOwner (pc_chunks c) a") (auto simp: pool_read_def FindOwner_used nth_list_update)

lemma Free_read: "pool_read (XPool_Free c a n) b l = pool_read c b l"
  using FindOwner_Some [of "pc_chunks c" a]
  by (auto simp: XPool_Free_def Let_def read_used split: option.splits)

lemma FindOwner_append: "XPool_FindOwner ps a = Some i \<Longrightarrow> XPool_FindOwner (ps @ qs) a = Some i"
  by (induction ps arbitrary: i) (auto split: if_splits)

lemma Alloc_read:
  assumes c: "po_inv c" and n: "n < 2 ^ 64" and m: "heap_ok (pc_chunks c) m" and L: "po_live c L"
    and al: "XPool_Alloc ok m c n = (c', r)" and b: "(b, k) \<in> L"
  shows "pool_read c' b l = pool_read c b l"
  using c n m
proof (cases rule: Alloc_cases [where ok = ok])
  case (none d)
  then show ?thesis using al by (simp add: pool_read_def)
next
  case (some c0 i)
  from L b obtain j where j: "j < length (pc_chunks c)" "in_chunk (pc_chunks c ! j) b k" "0 < XPool_AlignSize k"
    by (rule po_liveD)
  note own = FindOwner_live [OF c j]
  have "pool_read c0 b l = pool_read c b l"
    using some(4) own FindOwner_append [OF own] j(1) by (auto simp: pool_read_def nth_append)
  then show ?thesis using some(3,6) al read_used by auto
qed

text \<open>Resizing the last block of a chunk in place.\<close>

lemma resize_last:
  assumes c: "po_inv c" and L: "po_live c L" and an: "(a, n) \<in> L" and i: "i < length (pc_chunks c)"
    and inc: "in_chunk (pc_chunks c ! i) a n" "8 dvd a" and k: "k < 2 ^ 64" "0 < XPool_AlignSize k"
    and last: "a + XPool_AlignSize n = po_base (pc_chunks c ! i) + po_nUsed (pc_chunks c ! i)"
    and u: "a + XPool_AlignSize k = po_base (pc_chunks c ! i) + u" "u \<le> po_nSize (pc_chunks c ! i)"
  shows "po_live (c\<lparr>pc_chunks := (pc_chunks c)[i := (pc_chunks c ! i)\<lparr>po_nUsed := u\<rparr>]\<rparr>) (insert (a, k) (L - {(a, n)}))"
proof -
  let ?p = "pc_chunks c ! i" and ?n = "XPool_AlignSize n" and ?k = "XPool_AlignSize k"
  have oth: "l < 2 ^ 64 \<and> 0 < XPool_AlignSize l \<and> 8 dvd b \<and> apart a ?k b (XPool_AlignSize l) \<and>
     ((\<exists>j < length (pc_chunks c). j \<noteq> i \<and> in_chunk (pc_chunks c ! j) b l) \<or>
      po_base ?p \<le> b \<and> b + XPool_AlignSize l \<le> po_base ?p + u)" if bl: "(b, l) \<in> L - {(a, n)}" for b l
  proof -
    have ap: "apart a ?n b (XPool_AlignSize l)" using L an bl by (auto simp: po_live_def)
    from bl have "(b, l) \<in> L" by blast
    with L obtain j where j: "j < length (pc_chunks c)" "in_chunk (pc_chunks c ! j) b l" "l < 2 ^ 64"
      "0 < XPool_AlignSize l" "8 dvd b" by (rule po_liveD)
    show ?thesis
    proof (cases "j = i")
      case True
      then show ?thesis using ap j last u by (auto simp: apart_def in_chunk_def)
    next
      case False
      have "apart a ?k b (XPool_AlignSize l)"
        using inc u by (intro other_chunk_apart [OF c i j(1) False j(2)]) (auto simp: in_chunk_def)
      then show ?thesis using j False by blast
    qed
  qed
  show ?thesis
  proof (rule po_live_used [OF i])
    fix b l assume "(b, l) \<in> insert (a, k) (L - {(a, n)})"
    then show "l < 2 ^ 64 \<and> 0 < XPool_AlignSize l \<and> 8 dvd b \<and>
      ((\<exists>j < length (pc_chunks c). j \<noteq> i \<and> in_chunk (pc_chunks c ! j) b l) \<or>
       po_base ?p \<le> b \<and> b + XPool_AlignSize l \<le> po_base ?p + u)"
      using oth [of b l] k inc u by (auto simp: in_chunk_def)
  next
    fix b l b' l' assume "(b, l) \<in> insert (a, k) (L - {(a, n)})" "(b', l') \<in> insert (a, k) (L - {(a, n)})" "(b, l) \<noteq> (b', l')"
    then show "apart b (XPool_AlignSize l) b' (XPool_AlignSize l')"
      using oth [of b l] oth [of b' l'] L by (auto simp: po_live_def apart_def)
  qed
qed

text \<open>Moving a live block to a freshly allocated one: copy, then free the old one.\<close>

lemma move_block:
  assumes c: "po_inv c" and L: "po_live c L" and an: "(a, n) \<in> L" and k: "k < 2 ^ 64" "0 < XPool_AlignSize k"
    and m: "heap_ok (pc_chunks c) m" and al: "XPool_Alloc ok m c k = (c1, Some b)"
  shows "\<exists>s c2. pool_read c1 a (min n k) = Some s \<and> pool_write c1 b s = Some c2 \<and>
    po_inv (XPool_Free c2 a n) \<and> po_live (XPool_Free c2 a n) (insert (b, k) (L - {(a, n)})) \<and>
    (\<forall>(d, l) \<in> L. pool_read (XPool_Free c2 a n) d l = pool_read c d l) \<and>
    pool_read (XPool_Free c2 a n) b (min n k) = pool_read c a (min n k)"
proof -
  from L an obtain i where i: "i < length (pc_chunks c)" "in_chunk (pc_chunks c ! i) a n" "n < 2 ^ 64"
    "0 < XPool_AlignSize n" by (rule po_liveD)
  note A = Alloc_live [OF c k(1) m L al]
  note R = Alloc_read [OF c k(1) m L al]
  have L1: "po_live c1 (insert (b, k) L)" and ap: "\<forall>(d, l) \<in> L. apart b (XPool_AlignSize k) d (XPool_AlignSize l)"
    using A(2) by auto
  have ne: "(b, k) \<notin> L" using ap k by (auto simp: apart_def)
  obtain d where d: "po_pData (pc_chunks c ! i) = Some d" "length d = po_nSize (pc_chunks c ! i)"
    by (rule chunk_data [OF c i(1)])
  have mn: "min n k \<le> XPool_AlignSize n" using AlignSize_pos(1) [OF i(3,4)] by simp
  note rd = read_chunk [OF c i(1,2,4) mn d(1)]
  define s where "s = take (min n k) (drop (a - po_base (pc_chunks c ! i)) d)"
  have s: "pool_read c1 a (min n k) = Some s" using rd R [OF an] by (simp add: s_def)
  have ls: "length s = min n k"
    using d(2) i(2) po_invD(1) [OF c i(1)] mn by (auto simp: s_def in_chunk_def po_ok_def)
  have "length s \<le> XPool_AlignSize k" using ls AlignSize_pos(1) [OF k] by simp
  from write_live [OF A(1) L1 insertI1 this] obtain c2 where w:
    "pool_write c1 b s = Some c2" "po_inv c2" "po_live c2 (insert (b, k) L)" "pool_read c2 b (length s) = Some s"
    "\<forall>(e, l) \<in> insert (b, k) L. (e, l) \<noteq> (b, k) \<longrightarrow> (\<forall>x \<le> XPool_AlignSize l. pool_read c2 e x = pool_read c1 e x)"
    by blast
  have "insert (b, k) L - {(a, n)} = insert (b, k) (L - {(a, n)})" using ne an by auto
  with Free_live [OF w(2,3), of a n] an have fr: "po_inv (XPool_Free c2 a n)"
    "po_live (XPool_Free c2 a n) (insert (b, k) (L - {(a, n)}))" by auto
  have "pool_read (XPool_Free c2 a n) e l = pool_read c e l" if "(e, l) \<in> L" for e l
  proof -
    have "0 < XPool_AlignSize l" "l < 2 ^ 64" using L that by (auto simp: po_live_def)
    from AlignSize_pos(1) [OF this(2,1)] have "l \<le> XPool_AlignSize l" .
    with w(5) that ne have "pool_read c2 e l = pool_read c1 e l" by fastforce
    then show ?thesis using R [OF that] by (simp add: Free_read)
  qed
  moreover have "pool_read (XPool_Free c2 a n) b (min n k) = pool_read c a (min n k)"
    using w(4) ls rd by (simp add: Free_read s_def)
  ultimately show ?thesis using s w(1) fr by blast
qed

lemma Realloc_live:
  assumes c: "po_inv c" and L: "po_live c L" and an: "(a, n) \<in> L" and k: "k < 2 ^ 64"
    and m: "heap_ok (pc_chunks c) m"
  shows "\<exists>c' r. XPool_Realloc ok m c a n k = Some (c', r) \<and> po_inv c' \<and>
    (\<forall>(b, l) \<in> L. (b, l) \<noteq> (a, n) \<longrightarrow> pool_read c' b l = pool_read c b l) \<and>
    (case r of None \<Rightarrow> po_live c' L
     | Some b \<Rightarrow> po_live c' (insert (b, k) (L - {(a, n)})) \<and> pool_read c' b (min n k) = pool_read c a (min n k))"
proof -
  from L an obtain i where i: "i < length (pc_chunks c)" "in_chunk (pc_chunks c ! i) a n" "n < 2 ^ 64"
    "0 < XPool_AlignSize n" "8 dvd a" by (rule po_liveD)
  let ?p = "pc_chunks c ! i" and ?n = "XPool_AlignSize n" and ?k = "XPool_AlignSize k"
  note ok = po_invD(1) [OF c i(1)]
  note own = FindOwner_live [OF c i(1,2,4)]
  have a0: "a \<noteq> 0" "n \<noteq> 0" using i(2) ok AlignSize_pos(5) [OF i(3,4)] by (auto simp: in_chunk_def po_ok_def)
  consider "k = 0 \<or> ?k = 0" | "0 < k" "0 < ?k" by blast
  then show ?thesis
  proof cases
    case 1
    then show ?thesis using c L a0 by (auto simp: XPool_Realloc_def Let_def)
  next
    case 2
    have le: "?n \<le> po_nUsed ?p" using i(2) by (auto simp: in_chunk_def)
    have sub: "sz (po_nSize ?p + 2 ^ 64 - po_nUsed ?p) = po_nSize ?p - po_nUsed ?p"
      "sz (po_nUsed ?p + 2 ^ 64 - ?n) = po_nUsed ?p - ?n"
      by (rule sz_sub; use le ok in \<open>simp add: po_ok_def\<close>)+
    define inplace where "inplace \<longleftrightarrow> a + ?n = po_base ?p + po_nUsed ?p \<and> (?k \<le> ?n \<or> ?k - ?n \<le> po_nSize ?p - po_nUsed ?p)"
    show ?thesis
    proof (cases inplace)
      case True
      define u where "u = po_nUsed ?p - ?n + ?k"
      have u: "u \<le> po_nSize ?p" "8 dvd u" "u < 2 ^ 64" "a + ?k = po_base ?p + u"
        using True le ok AlignSize_pos(3) [OF i(3,4)] AlignSize_pos(3) [OF k 2(2)]
        by (auto simp: inplace_def u_def po_ok_def)
      have "XPool_Realloc ok m c a n k = Some (c\<lparr>pc_chunks := (pc_chunks c)[i := ?p\<lparr>po_nUsed := u\<rparr>]\<rparr>, Some a)"
        using True 2 a0 own i(4) sub u(3) by (simp add: XPool_Realloc_def Let_def inplace_def u_def)
      moreover have "a + ?n = po_base ?p + po_nUsed ?p" using True by (simp add: inplace_def)
      note resize_last [OF c L an i(1,2,5) k 2(2) this u(4,1)] po_inv_used [OF c i(1) u(1,2)]
      ultimately show ?thesis using read_used [OF i(1)] by auto
    next
      case False
      obtain c1 r where al: "XPool_Alloc ok m c k = (c1, r)" by (cases "XPool_Alloc ok m c k")
      have ev: "XPool_Realloc ok m c a n k =
         (case r of None \<Rightarrow> Some (c1, None)
          | Some b \<Rightarrow> do { s \<leftarrow> pool_read c1 a (min n k); c2 \<leftarrow> pool_write c1 b s; Some (XPool_Free c2 a n, Some b) })"
        using False 2 a0 own i(4) sub al by (cases r) (auto simp: XPool_Realloc_def Let_def inplace_def)
      show ?thesis
      proof (cases r)
        case None
        then show ?thesis
          using ev Alloc_live [OF c k m L al] Alloc_read [OF c k m L al] by (auto simp: case_prod_beta)
      next
        case (Some b)
        from move_block [OF c L an k 2(2) m al [unfolded Some]] ev Some show ?thesis by auto
      qed
    qed
  qed
qed

text \<open>When a request fails: nothing moves, and either its size is bad or no chunk has room and a new chunk was refused.\<close>

definition refused :: "bool \<Rightarrow> heap \<Rightarrow> xpool_chain \<Rightarrow> nat \<Rightarrow> bool" where
  "refused ok m c k \<longleftrightarrow> k = 0 \<or> XPool_AlignSize k = 0 \<or>
     (\<forall>p \<in> set (pc_chunks c). \<not> XPool_HasSpace p (XPool_AlignSize k)) \<and> (\<not> ok \<or> (\<exists>s \<ge> k. m s = None))"

lemma FindSpace_None: "XPool_FindSpace ps n = None \<Longrightarrow> p \<in> set ps \<Longrightarrow> \<not> XPool_HasSpace p n"
  by (induction ps) (auto split: if_splits)

lemma Alloc_fails:
  assumes c: "po_inv c" and n: "n < 2 ^ 64" and al: "XPool_Alloc ok m c n = (c', None)"
  shows "pc_chunks c' = pc_chunks c \<and> refused ok m c n"
proof (cases "n = 0 \<or> XPool_AlignSize n = 0")
  case True
  then have "XPool_Alloc ok m c n = (c, None)" by (auto simp: XPool_Alloc_def)
  with al True show ?thesis by (auto simp: refused_def)
next
  case False
  obtain c1 t where gt: "XPool_GetTail c = (c1, t)" by (cases "XPool_GetTail c")
  note tl = GetTail_inv [OF c gt]
  let ?n = "XPool_AlignSize n" and ?t = "pc_chunks c ! t"
  have ch: "pc_chunks c1 = pc_chunks c" by (simp add: tl(2))
  have *: "\<not> XPool_HasSpace (pc_chunks c1 ! t) ?n \<and> XPool_FindSpace (pc_chunks c1) ?n = None \<and> c' = c1 \<and>
      XPool_Create ok m (max ?n (po_nSize (pc_chunks c1 ! t))) = None"
    using al False by (auto simp: XPool_Alloc_def Let_def gt split: option.splits if_splits)
  then have "XPool_FindSpace (pc_chunks c) ?n = None" "c' = c1" and new: "XPool_Create ok m (max ?n (po_nSize ?t)) = None"
    by (simp_all add: ch)
  moreover have "\<forall>p \<in> set (pc_chunks c). \<not> XPool_HasSpace p ?n" using FindSpace_None calculation(1) by blast
  moreover have "\<not> ok \<or> (\<exists>s \<ge> n. m s = None)"
  proof -
    note ok = po_invD(1) [OF c tl(1)]
    have "0 < ?n" using False by simp
    then have "n \<le> ?n" "8 dvd ?n" "?n < 2 ^ 64" "0 < n" using AlignSize_pos [OF n] by blast+
    moreover from this have "XPool_AlignSize (max ?n (po_nSize ?t)) = max ?n (po_nSize ?t)"
      using ok by (intro AlignSize_idem) (auto simp: po_ok_def max_def)
    ultimately have "ok \<longrightarrow> m (max ?n (po_nSize ?t)) = None" "n \<le> max ?n (po_nSize ?t)"
      using new by (auto simp: XPool_Create_def XPool_Init_def Let_def split: option.splits if_splits)
    then show ?thesis by blast
  qed
  ultimately show ?thesis using ch by (simp add: refused_def)
qed

lemma Realloc_fails:
  assumes c: "po_inv c" and k: "k < 2 ^ 64" and a: "a \<noteq> 0" "n \<noteq> 0" "XPool_AlignSize n \<noteq> 0" and r: "XPool_Realloc ok m c a n k = Some (c', None)"
  shows "pc_chunks c' = pc_chunks c \<and> refused ok m c k"
proof (cases "k = 0 \<or> XPool_AlignSize k = 0")
  case True
  then have "XPool_Realloc ok m c a n k = Some (c, None)" using a by (auto simp: XPool_Realloc_def Let_def)
  with r True show ?thesis by (auto simp: refused_def)
next
  case False
  obtain c1 x where al: "XPool_Alloc ok m c k = (c1, x)" by (cases "XPool_Alloc ok m c k")
  with r False a have "x = None" "c' = c1"
    by (auto simp: XPool_Realloc_def Let_def split: option.splits if_splits bind_splits)
  with Alloc_fails [OF c k] al show ?thesis by blast
qed

section \<open>Histories\<close>

text \<open>
  What clients do to a pool: allocate, reallocate and free blocks they hold, and reset the pool.
  The C allocator behaves as it likes within its contract at every step.
\<close>

inductive pool_step :: "xpool_chain \<times> (nat \<times> nat) set \<Rightarrow> xpool_chain \<times> (nat \<times> nat) set \<Rightarrow> bool" where
  alloc: "n < 2 ^ 64 \<Longrightarrow> heap_ok (pc_chunks c) m \<Longrightarrow> XPool_Alloc ok m c n = (c', Some a) \<Longrightarrow>
    pool_step (c, L) (c', insert (a, n) L)"
| alloc_fail: "n < 2 ^ 64 \<Longrightarrow> heap_ok (pc_chunks c) m \<Longrightarrow> XPool_Alloc ok m c n = (c', None) \<Longrightarrow>
    pool_step (c, L) (c', L)"
| realloc: "k < 2 ^ 64 \<Longrightarrow> heap_ok (pc_chunks c) m \<Longrightarrow> (a, n) \<in> L \<Longrightarrow>
    XPool_Realloc ok m c a n k = Some (c', Some b) \<Longrightarrow> pool_step (c, L) (c', insert (b, k) (L - {(a, n)}))"
| realloc_fail: "k < 2 ^ 64 \<Longrightarrow> heap_ok (pc_chunks c) m \<Longrightarrow> (a, n) \<in> L \<Longrightarrow>
    XPool_Realloc ok m c a n k = Some (c', None) \<Longrightarrow> pool_step (c, L) (c', L)"
| free: "(a, n) \<in> L \<Longrightarrow> pool_step (c, L) (XPool_Free c a n, L - {(a, n)})"
| reset: "pool_step (c, L) (XPool_Reset c, {})"

inductive pool_reach :: "xpool_chain \<times> (nat \<times> nat) set \<Rightarrow> bool" where
  start: "n < 2 ^ 64 \<Longrightarrow> heap_ok [] m \<Longrightarrow> XPool_Create ok m n = Some p \<Longrightarrow> pool_reach (pool_new p, {})"
| step: "pool_reach s \<Longrightarrow> pool_step s s' \<Longrightarrow> pool_reach s'"

lemma pool_step_live:
  "pool_step s s' \<Longrightarrow> po_inv (fst s) \<and> po_live (fst s) (snd s) \<Longrightarrow> po_inv (fst s') \<and> po_live (fst s') (snd s')"
proof (induction rule: pool_step.induct)
  case (alloc n c m ok c' a L)
  then show ?case using Alloc_live [of c n m L ok c' "Some a"] by simp
next
  case (alloc_fail n c m ok c' L)
  then show ?case using Alloc_live [of c n m L ok c' None] by simp
next
  case (realloc k c m a n L ok c' b)
  then show ?case using Realloc_live [of c L a n k m ok] by auto
next
  case (realloc_fail k c m a n L ok c')
  then show ?case using Realloc_live [of c L a n k m ok] by auto
next
  case (free a n L c)
  then show ?case using Free_live [of c L a n] by simp
next
  case (reset c L)
  then show ?case using Reset_live [of c] by simp
qed

lemma pool_reach_live: "pool_reach s \<Longrightarrow> po_inv (fst s) \<and> po_live (fst s) (snd s)"
proof (induction rule: pool_reach.induct)
  case (start n m ok p)
  note p = Create_ok [OF start(3,2,1)]
  then show ?case by (simp add: pool_new_def po_inv_def po_live_def)
next
  case (step s s')
  then show ?case using pool_step_live by blast
qed

section \<open>The contract of an allocator\<close>

text \<open>
  What a client of an allocator relies on: \<open>holds s L\<close> says that \<open>L\<close> is the set of blocks handed
  out in state \<open>s\<close>; an allocation adds a block apart from all of them or changes nothing; a
  release gives one back.
\<close>

locale block_allocator =
  fixes alloc :: "'e \<Rightarrow> 's \<Rightarrow> nat \<Rightarrow> 's \<times> nat option"
    and release :: "'s \<Rightarrow> nat \<Rightarrow> nat \<Rightarrow> 's"
    and holds :: "'s \<Rightarrow> (nat \<times> nat) set \<Rightarrow> bool"
    and env :: "'e \<Rightarrow> 's \<Rightarrow> bool"
  assumes alloc_Some: "holds s L \<Longrightarrow> env e s \<Longrightarrow> n < 2 ^ 64 \<Longrightarrow> alloc e s n = (s', Some a) \<Longrightarrow>
      holds s' (insert (a, n) L) \<and> (\<forall>(b, k) \<in> L. apart a n b k) \<and> (a, n) \<notin> L"
    and alloc_None: "holds s L \<Longrightarrow> env e s \<Longrightarrow> n < 2 ^ 64 \<Longrightarrow> alloc e s n = (s', None) \<Longrightarrow> holds s' L"
    and release_held: "holds s L \<Longrightarrow> (a, n) \<in> L \<Longrightarrow> holds (release s a n) (L - {(a, n)})"
begin

text \<open>
  The way the containers create an entry: a header, then a payload; when the payload cannot be
  had, the header is given back. Either both blocks are held or none is.
\<close>

definition pair_alloc :: "'e \<Rightarrow> 'e \<Rightarrow> 's \<Rightarrow> nat \<Rightarrow> nat \<Rightarrow> 's \<times> (nat \<times> nat) option" where
  "pair_alloc e e' s h n =
     (case alloc e s h of (s1, None) \<Rightarrow> (s1, None)
      | (s1, Some a) \<Rightarrow>
          (case alloc e' s1 n of (s2, None) \<Rightarrow> (release s2 a h, None)
           | (s2, Some b) \<Rightarrow> (s2, Some (a, b))))"

lemma pair_alloc:
  assumes "holds s L" "env e s" "\<And>s'. env e' s'" "h < 2 ^ 64" "n < 2 ^ 64"
  shows "case pair_alloc e e' s h n of
      (s', None) \<Rightarrow> holds s' L
    | (s', Some (a, b)) \<Rightarrow> holds s' (insert (b, n) (insert (a, h) L)) \<and> apart b n a h"
proof (cases "alloc e s h")
  case (Pair s1 r)
  show ?thesis
  proof (cases r)
    case None
    then show ?thesis using assms Pair alloc_None by (auto simp: pair_alloc_def)
  next
    case (Some a)
    with Pair have a1: "alloc e s h = (s1, Some a)" by simp
    note h = alloc_Some [OF assms(1,2,4) a1]
    then have h1: "holds s1 (insert (a, h) L)" "(a, h) \<notin> L" by auto
    show ?thesis
    proof (cases "alloc e' s1 n")
      case (Pair s2 q)
      show ?thesis
      proof (cases q)
        case None
        with Pair have a2: "alloc e' s1 n = (s2, None)" by simp
        have "holds s2 (insert (a, h) L)" by (rule alloc_None [OF h1(1) assms(3,5) a2])
        from release_held [OF this insertI1] have "holds (release s2 a h) L" using h1(2) by simp
        then show ?thesis by (simp add: pair_alloc_def a1 a2)
      next
        case (Some b)
        with Pair have a2: "alloc e' s1 n = (s2, Some b)" by simp
        note alloc_Some [OF h1(1) assms(3,5) a2]
        then show ?thesis by (simp add: pair_alloc_def a1 a2)
      qed
    qed
  qed
qed

end

interpretation pl: block_allocator "\<lambda>e. XPool_Alloc (fst e) (snd e)" XPool_Free
  "\<lambda>c L. po_inv c \<and> po_live c L" "\<lambda>e c. heap_ok (pc_chunks c) (snd e)"
proof unfold_locales
  fix c :: xpool_chain and L :: "(nat \<times> nat) set" and e :: "bool \<times> heap" and n c' a
  assume h: "po_inv c \<and> po_live c L" "heap_ok (pc_chunks c) (snd e)" "n < 2 ^ 64"
    and al: "XPool_Alloc (fst e) (snd e) c n = (c', Some a)"
  note A = Alloc_live [OF _ h(3,2) _ al, of L]
  have inv: "po_inv c'" and live: "po_live c' (insert (a, n) L)"
    and ap: "\<forall>(b, k) \<in> L. apart a (XPool_AlignSize n) b (XPool_AlignSize k)"
    using A h(1) by auto
  have n: "0 < XPool_AlignSize n" using live by (auto simp: po_live_def)
  have le: "n \<le> XPool_AlignSize n" by (rule AlignSize_pos(1) [OF h(3) n])
  have "apart a n b k" if "(b, k) \<in> L" for b k
  proof -
    have "k < 2 ^ 64" "0 < XPool_AlignSize k" using h(1) that by (auto simp: po_live_def)
    from AlignSize_pos(1) [OF this] le ap that show ?thesis by (fastforce simp: apart_def)
  qed
  moreover have "(a, n) \<notin> L" using ap n by (auto simp: apart_def)
  ultimately show "(po_inv c' \<and> po_live c' (insert (a, n) L)) \<and> (\<forall>(b, k) \<in> L. apart a n b k) \<and> (a, n) \<notin> L"
    using inv live by auto
next
  fix c :: xpool_chain and L :: "(nat \<times> nat) set" and e :: "bool \<times> heap" and n c'
  assume "po_inv c \<and> po_live c L" "heap_ok (pc_chunks c) (snd e)" "n < 2 ^ 64"
    "XPool_Alloc (fst e) (snd e) c n = (c', None)"
  then show "po_inv c' \<and> po_live c' L"
    using Alloc_live [of c n "snd e" L "fst e" c' None] by simp
next
  fix c :: xpool_chain and L :: "(nat \<times> nat) set" and a n
  assume "po_inv c \<and> po_live c L" "(a, n) \<in> L"
  then show "po_inv (XPool_Free c a n) \<and> po_live (XPool_Free c a n) (L - {(a, n)})"
    using Free_live by blast
qed

section \<open>Properties\<close>

text \<open>
  C14: In every history of allocations, reallocations, releases and resets of a pool, whatever the C
  allocator does within its contract, the blocks a client holds are aligned to eight bytes, readable
  as a whole, and pairwise disjoint; the chunks of the chain never overlap.
\<close>

theorem pool_history:
  assumes "pool_reach (c, L)"
  shows "po_inv c \<and> (\<forall>(a, n) \<in> L. 8 dvd a \<and> pool_read c a n \<noteq> None) \<and>
    (\<forall>(a, n) \<in> L. \<forall>(b, k) \<in> L. (a, n) \<noteq> (b, k) \<longrightarrow> apart a n b k)"
proof -
  have inv: "po_inv c" and live: "po_live c L" using pool_reach_live [OF assms] by auto
  have "8 dvd a \<and> pool_read c a n \<noteq> None" if an: "(a, n) \<in> L" for a n
  proof -
    from live an obtain j where j: "j < length (pc_chunks c)" "in_chunk (pc_chunks c ! j) a n" "n < 2 ^ 64"
      "0 < XPool_AlignSize n" "8 dvd a" by (rule po_liveD)
    obtain d where d: "po_pData (pc_chunks c ! j) = Some d" by (rule chunk_data [OF inv j(1)])
    show ?thesis using read_chunk [OF inv j(1,2,4) AlignSize_pos(1) [OF j(3,4)] d] j(5) by simp
  qed
  moreover have "apart a n b k" if "(a, n) \<in> L" "(b, k) \<in> L" "(a, n) \<noteq> (b, k)" for a n b k
  proof -
    have "apart a (XPool_AlignSize n) b (XPool_AlignSize k)" "n \<le> XPool_AlignSize n" "k \<le> XPool_AlignSize k"
      using live that by (auto simp: po_live_def intro!: AlignSize_pos(1))
    then show ?thesis by (auto simp: apart_def)
  qed
  ultimately show ?thesis using inv by blast
qed

definition pool_example :: xpool_chain where
  "pool_example = pool_new \<lparr>po_pData = Some (replicate 64 0), po_base = 64, po_nUsed = 0, po_nSize = 64, po_bAlloc = True\<rparr>"

lemma pool_example_reach: "pool_reach (pool_example, {})"
proof -
  define m :: heap where "m n = (if n < 4096 then Some (64, replicate n 0) else None)" for n
  have "heap_ok [] m" by (auto simp: heap_ok_def m_def split: if_splits)
  moreover have "XPool_Create True m 64 = Some \<lparr>po_pData = Some (replicate 64 0), po_base = 64, po_nUsed = 0, po_nSize = 64, po_bAlloc = True\<rparr>"
    by (simp add: XPool_Create_def XPool_Init_def AlignSize_eq m_def)
  ultimately show ?thesis unfolding pool_example_def by (intro pool_reach.start) auto
qed

lemma pool_example_alloc:
  "\<exists>c. pool_reach (c, {(72, 20), (64, 5)}) \<and> c = pool_example\<lparr>pc_chunks := [hd (pc_chunks pool_example)\<lparr>po_nUsed := 32\<rparr>]\<rparr>"
proof -
  define c1 where "c1 = pool_example\<lparr>pc_chunks := [hd (pc_chunks pool_example)\<lparr>po_nUsed := 8\<rparr>]\<rparr>"
  define c2 where "c2 = pool_example\<lparr>pc_chunks := [hd (pc_chunks pool_example)\<lparr>po_nUsed := 32\<rparr>]\<rparr>"
  have a1: "XPool_Alloc True (\<lambda>_. None) pool_example 5 = (c1, Some 64)"
    by (simp add: XPool_Alloc_def AlignSize_eq XPool_GetTail_def chase.simps pool_example_def pool_new_def
        XPool_HasSpace_def c1_def sz_def Let_def)
  have a2: "XPool_Alloc True (\<lambda>_. None) c1 20 = (c2, Some 72)"
    by (simp add: XPool_Alloc_def AlignSize_eq XPool_GetTail_def chase.simps pool_example_def pool_new_def
        XPool_HasSpace_def c1_def c2_def sz_def Let_def)
  have h: "heap_ok ps (\<lambda>_. None)" for ps by (simp add: heap_ok_def)
  have "pool_reach (c1, {(64, 5)})"
    by (rule pool_reach.step [OF pool_example_reach pool_step.alloc [OF _ h a1]]) simp
  then have "pool_reach (c2, {(72, 20), (64, 5)})"
    by (rule pool_reach.step [OF _ pool_step.alloc [OF _ h a2]]) simp
  then show ?thesis by (auto simp: c2_def)
qed

theorem pool_history_witness:
  "\<exists>c. pool_reach (c, {(72, 20), (64, 5)}) \<and> pool_read c 72 20 \<noteq> None"
proof -
  obtain c where c: "pool_reach (c, {(72, 20), (64, 5)})" using pool_example_alloc by blast
  from pool_history [OF c] c show ?thesis by auto
qed

text \<open>
  C15: Reallocating a held block of a reachable pool is memory safe. If it succeeds, the new block
  holds the old one's bytes up to the smaller of the two sizes, and every other held block keeps its
  bytes. If it fails, all held blocks keep theirs, the one it was asked about too; and it fails only when
  the new size is 0 or within 8 bytes of \<open>2 ^ 64\<close>, or when no chunk has room for it and the memory for a new
  chunk is refused.
\<close>

theorem pool_realloc:
  assumes "pool_reach (c, L)" and "(a, n) \<in> L" and "k < 2 ^ 64" and "heap_ok (pc_chunks c) m"
  shows "\<exists>c' r. XPool_Realloc ok m c a n k = Some (c', r) \<and>
    (\<forall>(b, l) \<in> L. (b, l) \<noteq> (a, n) \<longrightarrow> pool_read c' b l = pool_read c b l) \<and>
    (case r of
       None \<Rightarrow> pool_reach (c', L) \<and> (\<forall>(b, l) \<in> L. pool_read c' b l = pool_read c b l) \<and>
         (k = 0 \<or> XPool_AlignSize k = 0 \<or>
          (\<forall>p \<in> set (pc_chunks c). \<not> XPool_HasSpace p (XPool_AlignSize k)) \<and> (\<not> ok \<or> (\<exists>s \<ge> k. m s = None)))
     | Some b \<Rightarrow> pool_reach (c', insert (b, k) (L - {(a, n)})) \<and> pool_read c' b (min n k) = pool_read c a (min n k))"
proof -
  have inv: "po_inv c" and live: "po_live c L" using pool_reach_live [OF assms(1)] by auto
  from Realloc_live [OF inv live assms(2-4), of ok] obtain c' r where r: "XPool_Realloc ok m c a n k = Some (c', r)"
    "\<forall>(b, l) \<in> L. (b, l) \<noteq> (a, n) \<longrightarrow> pool_read c' b l = pool_read c b l"
    "case r of None \<Rightarrow> True | Some b \<Rightarrow> pool_read c' b (min n k) = pool_read c a (min n k)"
    by (auto split: option.splits)
  have reach: "case r of None \<Rightarrow> pool_reach (c', L) | Some b \<Rightarrow> pool_reach (c', insert (b, k) (L - {(a, n)}))"
    using assms r(1) pool_reach.step [OF assms(1)] pool_step.realloc pool_step.realloc_fail
    by (cases r) auto
  from live assms(2) obtain i where i: "i < length (pc_chunks c)" "in_chunk (pc_chunks c ! i) a n" "n < 2 ^ 64"
    "0 < XPool_AlignSize n" "8 dvd a" by (rule po_liveD)
  have nz: "a \<noteq> 0" "n \<noteq> 0" "XPool_AlignSize n \<noteq> 0"
    using i(2) po_invD(1) [OF inv i(1)] AlignSize_pos(5) [OF i(3,4)] i(4) by (auto simp: in_chunk_def po_ok_def)
  have fail: "pc_chunks c' = pc_chunks c \<and> refused ok m c k" if "r = None"
    using Realloc_fails [OF inv assms(3) nz] r(1) that by blast
  show ?thesis
  proof (cases r)
    case None
    with fail have "pool_read c' b l = pool_read c b l" for b l by (simp add: pool_read_def)
    with None r(1) reach fail show ?thesis by (intro exI [of _ c'] exI [of _ r]) (auto simp: refused_def)
  next
    case (Some b)
    with r reach show ?thesis by (intro exI [of _ c'] exI [of _ r]) auto
  qed
qed

theorem pool_realloc_witness:
  "\<exists>c c' r. pool_reach (c, {(72, 20), (64, 5)}) \<and> XPool_Realloc True (\<lambda>_. None) c 64 5 30 = Some (c', r) \<and>
     pool_read c' 72 20 = pool_read c 72 20"
proof -
  obtain c where c: "pool_reach (c, {(72, 20), (64, 5)})" using pool_example_alloc by blast
  have "heap_ok (pc_chunks c) (\<lambda>_. None)" by (simp add: heap_ok_def)
  from pool_realloc [OF c _ _ this, of 64 5 30 True] c show ?thesis by fastforce
qed

end
