(* ===== verification/XArray.thy ===== *)
theory XArray
  imports Prelude
begin

text \<open>
  The growable array of \<open>src/src/data/array.c\<close>: its structure, every operation on it, the
  representation invariant \<open>ar_wf\<close> and the sequence of entries \<open>ar_items\<close> it stands for. An entry
  pointer is \<^term>\<open>None\<close> when NULL. Memory comes from the C allocator or a pool; whether each
  \<open>xalloc\<close> succeeds is an argument. Entries released through \<open>XArray_ClearData\<close> are appended to
  the ghost field \<open>ar_freed\<close>.
\<close>

datatype xarray_status = XARRAY_STATUS_OK | XARRAY_STATUS_EMPTY | XARRAY_STATUS_NO_MEMORY

record 'd xarray_data =
  ad_pData :: "'d option"
  ad_nSize :: nat
  ad_nKey :: u32

record 'd xarray =
  ar_pData :: "'d xarray_data option list option"
  ar_clearCb :: bool
  ar_eStatus :: xarray_status
  ar_nHasPool :: bool
  ar_nFixed :: bool
  ar_nAlloc :: bool
  ar_nSize :: nat
  ar_nUsed :: nat
  ar_freed :: "'d xarray_data list"

abbreviation XARRAY_FAILURE :: int where "XARRAY_FAILURE \<equiv> -1"
abbreviation XARRAY_INITIAL_SIZE :: nat where "XARRAY_INITIAL_SIZE \<equiv> 8"

section \<open>Operations\<close>

text \<open>\<open>ok1\<close>: the entry can be allocated; \<open>ok2\<close>: the copy of the payload can.\<close>

definition XArray_NewData :: "bool \<Rightarrow> bool \<Rightarrow> 'd option \<Rightarrow> nat \<Rightarrow> u32 \<Rightarrow> 'd xarray_data option" where
  "XArray_NewData ok1 ok2 p nSize nKey =
     (if \<not> ok1 then None
      else if p \<noteq> None \<and> 0 < nSize
      then (if ok2 then Some \<lparr>ad_pData = p, ad_nSize = nSize, ad_nKey = nKey\<rparr> else None)
      else Some \<lparr>ad_pData = p, ad_nSize = 0, ad_nKey = nKey\<rparr>)"

definition XArray_ClearData :: "'d xarray \<Rightarrow> 'd xarray_data option \<Rightarrow> 'd xarray" where
  "XArray_ClearData a e = (case e of None \<Rightarrow> a | Some x \<Rightarrow> a\<lparr>ar_freed := ar_freed a @ [x]\<rparr>)"

text \<open>The Boolean result says whether the returned pointer is non-NULL.\<close>

definition XArray_Init :: "'d xarray_data pmalloc \<Rightarrow> 'd xarray \<Rightarrow> nat \<Rightarrow> bool \<Rightarrow> ('d xarray \<times> bool) option" where
  "XArray_Init m a nSize nFixed =
     (let a = a\<lparr>ar_pData := None, ar_clearCb := False, ar_eStatus := XARRAY_STATUS_EMPTY, ar_nHasPool := False,
                ar_nFixed := nFixed, ar_nAlloc := False, ar_nSize := nSize, ar_nUsed := 0\<rparr>
      in if nSize = 0 then Some (a, False)
         else case m (sz (nSize * 8)) of
                None \<Rightarrow> Some (a, False)
              | Some d \<Rightarrow> do { d' \<leftarrow> fill_null d 0 nSize; Some (a\<lparr>ar_pData := Some d'\<rparr>, True) })"

definition XArray_InitPool ::
  "bool \<Rightarrow> 'd xarray_data pmalloc \<Rightarrow> 'd xarray \<Rightarrow> nat \<Rightarrow> bool \<Rightarrow> ('d xarray \<times> bool) option" where
  "XArray_InitPool pool_ok m a nSize nFixed =
     (if \<not> pool_ok then Some (a, False)
      else do {
        (a', r) \<leftarrow> XArray_Init m a nSize nFixed;
        Some (if nSize \<noteq> 0 \<and> \<not> r then (a', False) else (a'\<lparr>ar_nHasPool := True\<rparr>, r)) })"

definition XArray_New ::
  "bool \<Rightarrow> 'd xarray_data pmalloc \<Rightarrow> 'd xarray \<Rightarrow> nat \<Rightarrow> bool \<Rightarrow> 'd xarray option option" where
  "XArray_New ok m junk nSize nFixed =
     (if \<not> ok then Some None
      else do {
        (a, r) \<leftarrow> XArray_Init m junk nSize nFixed;
        Some (if \<not> r \<and> nSize \<noteq> 0 then None else Some (a\<lparr>ar_nAlloc := True\<rparr>)) })"

text \<open>With \<open>nSize = 0\<close> a failed \<open>XArray_New\<close> is not noticed and NULL is dereferenced.\<close>

definition XArray_NewPool ::
  "bool \<Rightarrow> bool \<Rightarrow> 'd xarray_data pmalloc \<Rightarrow> 'd xarray \<Rightarrow> nat \<Rightarrow> bool \<Rightarrow> 'd xarray option option" where
  "XArray_NewPool pool_ok ok m junk nSize nFixed =
     (if \<not> pool_ok then Some None
      else do {
        r \<leftarrow> XArray_New ok m junk nSize nFixed;
        (case r of
           None \<Rightarrow> if nSize \<noteq> 0 then Some None else None
         | Some a \<Rightarrow> Some (Some (a\<lparr>ar_nHasPool := True\<rparr>))) })"

function clear_cells :: "'d xarray \<Rightarrow> nat \<Rightarrow> 'd xarray option" where
  "clear_cells a i =
     (if i < ar_nSize a
      then do {
        d \<leftarrow> ar_pData a;
        e \<leftarrow> peek d i;
        d' \<leftarrow> poke d i None;
        clear_cells ((XArray_ClearData a e)\<lparr>ar_pData := Some d'\<rparr>) (Suc i) }
      else Some a)"
  by pat_completeness auto
termination
  by (relation "measure (\<lambda>(a, i). ar_nSize a - i)") (auto simp: XArray_ClearData_def split: option.splits)

declare clear_cells.simps [simp del]

definition XArray_Clear :: "'d xarray \<Rightarrow> 'd xarray option" where
  "XArray_Clear a = do {
     a \<leftarrow> (case ar_pData a of None \<Rightarrow> Some a | Some _ \<Rightarrow> clear_cells a 0);
     Some (a\<lparr>ar_eStatus := XARRAY_STATUS_EMPTY, ar_nUsed := 0\<rparr>) }"

definition XArray_Destroy :: "'d xarray \<Rightarrow> 'd xarray option" where
  "XArray_Destroy a = do {
     a \<leftarrow> XArray_Clear a;
     Some (a\<lparr>ar_pData := None, ar_nHasPool := False, ar_nFixed := False, ar_nAlloc := False, ar_nSize := 0\<rparr>) }"

definition XArray_Contains :: "'d xarray \<Rightarrow> nat \<Rightarrow> bool option" where
  "XArray_Contains a i =
     (if ar_nSize a \<le> i then Some False
      else do { d \<leftarrow> ar_pData a; e \<leftarrow> peek d i; Some (e \<noteq> None) })"

definition XArray_Realloc :: "'d xarray_data pmalloc \<Rightarrow> 'd xarray \<Rightarrow> ('d xarray \<times> nat) option" where
  "XArray_Realloc m a =
     (if ar_nFixed a then Some (a, ar_nSize a)
      else let used = ar_nUsed a;
               nSize = (if used \<noteq> 0 \<and> used = ar_nSize a then sz (ar_nSize a * 2)
                        else if used \<noteq> 0 \<and> below_quarter used (ar_nSize a) then ar_nSize a div 2 else 0)
        in if nSize = 0 then Some (a, ar_nSize a)
           else case m (sz (8 * nSize)) of
                  None \<Rightarrow> Some (a\<lparr>ar_eStatus := XARRAY_STATUS_NO_MEMORY\<rparr>, 0)
                | Some d \<Rightarrow> do {
                    d1 \<leftarrow> (case ar_pData a of
                             Some old \<Rightarrow> if used < nSize then do { s \<leftarrow> mread old 0 used; memcpy d 0 s } else Some d
                           | None \<Rightarrow> Some d);
                    d2 \<leftarrow> (if used < nSize then fill_null d1 used nSize else Some d1);
                    Some (a\<lparr>ar_pData := Some d2, ar_nSize := nSize\<rparr>, nSize) })"

definition XArray_CheckSpace :: "'d xarray_data pmalloc \<Rightarrow> 'd xarray \<Rightarrow> ('d xarray \<times> bool) option" where
  "XArray_CheckSpace m a =
     (case ar_pData a of
        None \<Rightarrow> do {
          (a', _) \<leftarrow> XArray_Init m a XARRAY_INITIAL_SIZE False;
          let a' = a'\<lparr>ar_clearCb := ar_clearCb a, ar_nHasPool := ar_nHasPool a, ar_nAlloc := ar_nAlloc a\<rparr>;
          Some (a', ar_pData a' \<noteq> None) }
      | Some _ \<Rightarrow>
          if ar_nSize a \<le> ar_nUsed a
          then do {
            (a', n) \<leftarrow> XArray_Realloc m a;
            Some (a', \<not> (n = 0 \<or> ar_nSize a' \<le> ar_nUsed a') \<and> ar_pData a' \<noteq> None) }
          else Some (a, True))"

definition XArray_Add :: "'d xarray_data pmalloc \<Rightarrow> 'd xarray \<Rightarrow> 'd xarray_data option \<Rightarrow> ('d xarray \<times> int) option" where
  "XArray_Add m a e = do {
     (a, ok) \<leftarrow> XArray_CheckSpace m a;
     if \<not> ok then Some (XArray_ClearData a e, XARRAY_FAILURE)
     else do {
       d \<leftarrow> ar_pData a;
       d' \<leftarrow> poke d (ar_nUsed a) e;
       let a = a\<lparr>ar_pData := Some d', ar_nUsed := sz (ar_nUsed a + 1)\<rparr>;
       Some (a, to_int (ar_nUsed a) - 1) } }"

text \<open>The three ways of adding data differ in how the entry is made.\<close>

definition add_entry ::
  "'d xarray_data pmalloc \<Rightarrow> 'd xarray \<Rightarrow> 'd xarray_data option \<Rightarrow> ('d xarray \<times> int) option" where
  "add_entry m a e =
     (case e of None \<Rightarrow> Some (a\<lparr>ar_eStatus := XARRAY_STATUS_NO_MEMORY\<rparr>, XARRAY_FAILURE)
      | Some x \<Rightarrow> XArray_Add m a (Some x))"

definition XArray_AddData ::
  "bool \<Rightarrow> bool \<Rightarrow> 'd xarray_data pmalloc \<Rightarrow> 'd xarray \<Rightarrow> 'd option \<Rightarrow> nat \<Rightarrow> ('d xarray \<times> int) option" where
  "XArray_AddData ok1 ok2 m a p nSize = add_entry m a (XArray_NewData ok1 ok2 p nSize 0)"

definition XArray_PushData ::
  "bool \<Rightarrow> 'd xarray_data pmalloc \<Rightarrow> 'd xarray \<Rightarrow> 'd option \<Rightarrow> nat \<Rightarrow> ('d xarray \<times> int) option" where
  "XArray_PushData ok1 m a p nSize =
     add_entry m a (map_option (\<lambda>e. e\<lparr>ad_nSize := nSize\<rparr>) (XArray_NewData ok1 False p 0 0))"

definition XArray_AddDataKey ::
  "bool \<Rightarrow> bool \<Rightarrow> 'd xarray_data pmalloc \<Rightarrow> 'd xarray \<Rightarrow> 'd option \<Rightarrow> nat \<Rightarrow> u32 \<Rightarrow> ('d xarray \<times> int) option" where
  "XArray_AddDataKey ok1 ok2 m a p nSize nKey = add_entry m a (XArray_NewData ok1 ok2 p nSize nKey)"

definition XArray_Get :: "'d xarray \<Rightarrow> nat \<Rightarrow> 'd xarray_data option option" where
  "XArray_Get a i = (if ar_nSize a \<le> i then Some None else do { d \<leftarrow> ar_pData a; peek d i })"

definition XArray_GetData :: "'d xarray \<Rightarrow> nat \<Rightarrow> 'd option option" where
  "XArray_GetData a i =
     do { e \<leftarrow> XArray_Get a i; Some (case e of None \<Rightarrow> None | Some x \<Rightarrow> ad_pData x) }"

definition XArray_GetDataOr :: "'d xarray \<Rightarrow> nat \<Rightarrow> 'd option \<Rightarrow> 'd option option" where
  "XArray_GetDataOr a i p =
     do { e \<leftarrow> XArray_Get a i; Some (case e of None \<Rightarrow> p | Some x \<Rightarrow> ad_pData x) }"

definition XArray_GetSize :: "'d xarray \<Rightarrow> nat \<Rightarrow> nat option" where
  "XArray_GetSize a i =
     do { e \<leftarrow> XArray_Get a i; Some (case e of None \<Rightarrow> 0 | Some x \<Rightarrow> ad_nSize x) }"

definition XArray_GetKey :: "'d xarray \<Rightarrow> nat \<Rightarrow> u32 option" where
  "XArray_GetKey a i =
     do { e \<leftarrow> XArray_Get a i; Some (case e of None \<Rightarrow> 0 | Some x \<Rightarrow> ad_nKey x) }"

text \<open>The common tail of \<open>Remove\<close> and \<open>Delete\<close>.\<close>

definition close_gap :: "'d xarray_data pmalloc \<Rightarrow> 'd xarray \<Rightarrow> nat \<Rightarrow> 'd xarray option" where
  "close_gap m a i = do {
     d \<leftarrow> ar_pData a;
     d' \<leftarrow> remove_cell d i (ar_nUsed a);
     (a', _) \<leftarrow> XArray_Realloc m (a\<lparr>ar_pData := Some d', ar_nUsed := sz (ar_nUsed a + 2 ^ 64 - 1)\<rparr>);
     Some a' }"

definition XArray_Remove ::
  "'d xarray_data pmalloc \<Rightarrow> 'd xarray \<Rightarrow> nat \<Rightarrow> ('d xarray \<times> 'd xarray_data option) option" where
  "XArray_Remove m a i = do {
     e \<leftarrow> XArray_Get a i;
     if e = None then Some (a, None) else do { a' \<leftarrow> close_gap m a i; Some (a', e) } }"

definition XArray_Delete :: "'d xarray_data pmalloc \<Rightarrow> 'd xarray \<Rightarrow> nat \<Rightarrow> 'd xarray option" where
  "XArray_Delete m a i = do { e \<leftarrow> XArray_Get a i; close_gap m (XArray_ClearData a e) i }"

definition XArray_Set ::
  "'d xarray \<Rightarrow> nat \<Rightarrow> 'd xarray_data option \<Rightarrow> ('d xarray \<times> 'd xarray_data option) option" where
  "XArray_Set a i e =
     (if i < ar_nSize a
      then do { d \<leftarrow> ar_pData a; old \<leftarrow> peek d i; d' \<leftarrow> poke d i e; Some (a\<lparr>ar_pData := Some d'\<rparr>, old) }
      else Some (a, None))"

definition XArray_SetData ::
  "bool \<Rightarrow> bool \<Rightarrow> 'd xarray \<Rightarrow> nat \<Rightarrow> 'd option \<Rightarrow> nat \<Rightarrow> ('d xarray \<times> 'd xarray_data option) option" where
  "XArray_SetData ok1 ok2 a i p nSize =
     (case XArray_NewData ok1 ok2 p nSize 0 of
        None \<Rightarrow> Some (a\<lparr>ar_eStatus := XARRAY_STATUS_NO_MEMORY\<rparr>, None)
      | Some e \<Rightarrow> XArray_Set a i (Some e))"

text \<open>The loop of \<open>Insert\<close> that pushes each entry one place to the right.\<close>

function push_right :: "'d xarray \<Rightarrow> nat \<Rightarrow> 'd xarray_data option \<Rightarrow> ('d xarray \<times> 'd xarray_data option) option" where
  "push_right a i old =
     (if i < ar_nUsed a
      then do { (a', old') \<leftarrow> XArray_Set a i old; push_right a' (Suc i) old' }
      else Some (a, old))"
  by pat_completeness auto
termination
  by (relation "measure (\<lambda>(a, i, _). ar_nUsed a - i)")
     (auto simp: XArray_Set_def split: if_splits option.splits bind_splits)

declare push_right.simps [simp del]

definition XArray_Insert ::
  "'d xarray_data pmalloc \<Rightarrow> 'd xarray_data pmalloc \<Rightarrow> 'd xarray \<Rightarrow> nat \<Rightarrow> 'd xarray_data option \<Rightarrow>
   ('d xarray \<times> 'd xarray_data option) option" where
  "XArray_Insert m m' a i e = do {
     (a, ok) \<leftarrow> XArray_CheckSpace m a;
     if \<not> ok then Some (a, None)
     else do {
       (a, old) \<leftarrow> XArray_Set a i e;
       if old = None then Some (a, None)
       else do {
         (a, old) \<leftarrow> push_right a (i + 1) old;
         (a, _) \<leftarrow> XArray_Add m' a old;
         d \<leftarrow> ar_pData a;
         r \<leftarrow> peek d (i + 1);
         Some (a, r) } } }"

definition XArray_InsertData ::
  "bool \<Rightarrow> bool \<Rightarrow> 'd xarray_data pmalloc \<Rightarrow> 'd xarray_data pmalloc \<Rightarrow> 'd xarray_data pmalloc \<Rightarrow> 'd xarray \<Rightarrow>
   nat \<Rightarrow> 'd option \<Rightarrow> nat \<Rightarrow> ('d xarray \<times> 'd xarray_data option) option" where
  "XArray_InsertData ok1 ok2 m0 m m' a i p nSize = do {
     (a, ok) \<leftarrow> XArray_CheckSpace m0 a;
     if \<not> ok then Some (a, None)
     else case XArray_NewData ok1 ok2 p nSize 0 of
            None \<Rightarrow> Some (a\<lparr>ar_eStatus := XARRAY_STATUS_NO_MEMORY\<rparr>, None)
          | Some e \<Rightarrow> XArray_Insert m m' a i (Some e) }"

definition XArray_Swap :: "'d xarray \<Rightarrow> nat \<Rightarrow> nat \<Rightarrow> 'd xarray option" where
  "XArray_Swap a i j =
     (if ar_nUsed a \<le> i \<or> ar_nUsed a \<le> j then Some a
      else do {
        d \<leftarrow> ar_pData a; x \<leftarrow> peek d i; y \<leftarrow> peek d j;
        d \<leftarrow> poke d i y; d \<leftarrow> poke d j x;
        Some (a\<lparr>ar_pData := Some d\<rparr>) })"

definition XArray_Used :: "'d xarray option \<Rightarrow> nat" where
  "XArray_Used p = (case p of None \<Rightarrow> 0 | Some a \<Rightarrow> ar_nUsed a)"

definition XArray_Size :: "'d xarray option \<Rightarrow> nat" where
  "XArray_Size p = (case p of None \<Rightarrow> 0 | Some a \<Rightarrow> ar_nSize a)"

section \<open>Representation\<close>

text \<open>
  \<open>ar_rep a xs\<close>: the array holds the entries \<open>xs\<close>; the table has as many cells as recorded, and the
  cells beyond the used ones are NULL. An array without a table holds nothing, whatever size it
  records (a failed \<open>XArray_Init\<close> leaves the size of the table it did not get).
\<close>

definition ar_rep :: "'d xarray \<Rightarrow> 'd xarray_data option list \<Rightarrow> bool" where
  "ar_rep a xs \<longleftrightarrow> length xs = ar_nUsed a \<and> ar_nSize a < 2 ^ 29 \<and>
     (case ar_pData a of None \<Rightarrow> xs = []
      | Some d \<Rightarrow> ar_nUsed a \<le> ar_nSize a \<and> d = xs @ replicate (ar_nSize a - ar_nUsed a) None)"

lemma ar_rep_table:
  "ar_pData a = Some d \<Longrightarrow> ar_rep a xs \<longleftrightarrow>
     length xs = ar_nUsed a \<and> ar_nSize a < 2 ^ 29 \<and> ar_nUsed a \<le> ar_nSize a \<and>
     d = xs @ replicate (ar_nSize a - ar_nUsed a) None"
  by (simp add: ar_rep_def)

lemma ar_repI:
  "ar_pData a = Some (xs @ replicate (ar_nSize a - ar_nUsed a) None) \<Longrightarrow> length xs = ar_nUsed a \<Longrightarrow>
   ar_nUsed a \<le> ar_nSize a \<Longrightarrow> ar_nSize a < 2 ^ 29 \<Longrightarrow> ar_rep a xs"
  by (simp add: ar_rep_def)

lemma ar_rep_status [simp]: "ar_rep (a\<lparr>ar_eStatus := s\<rparr>) xs = ar_rep a xs"
  "ar_rep (a\<lparr>ar_freed := f\<rparr>) xs = ar_rep a xs" "ar_rep (a\<lparr>ar_clearCb := b\<rparr>) xs = ar_rep a xs"
  "ar_rep (a\<lparr>ar_nHasPool := b\<rparr>) xs = ar_rep a xs" "ar_rep (a\<lparr>ar_nAlloc := b\<rparr>) xs = ar_rep a xs"
  by (simp_all add: ar_rep_def split: option.split)

lemma Init_rep:
  assumes "pmalloc_spec m" "n < 2 ^ 29"
  obtains a' where "XArray_Init m a n fx = Some (a', n \<noteq> 0)" "ar_rep a' []" "ar_nSize a' = n"
      "n \<noteq> 0 \<longrightarrow> ar_pData a' \<noteq> None" "ar_nUsed a' = 0" "ar_nFixed a' = fx" "ar_freed a' = ar_freed a"
  | a' where "XArray_Init m a n fx = Some (a', False)" "ar_rep a' []" "ar_nSize a' = n"
      "ar_pData a' = None" "m (8 * n) = None" "n \<noteq> 0" "ar_nUsed a' = 0" "ar_freed a' = ar_freed a"
proof (cases "n = 0")
  case True
  then have "XArray_Init m a n fx = Some (a\<lparr>ar_pData := None, ar_clearCb := False, ar_eStatus := XARRAY_STATUS_EMPTY,
      ar_nHasPool := False, ar_nFixed := fx, ar_nAlloc := False, ar_nSize := n, ar_nUsed := 0\<rparr>, n \<noteq> 0)"
    by (simp add: XArray_Init_def Let_def)
  then show ?thesis by (rule that(1)) (use True in \<open>auto simp: ar_rep_def\<close>)
next
  case False
  show ?thesis
  proof (cases "m (8 * n)")
    case None
    with False assms have "XArray_Init m a n fx = Some (a\<lparr>ar_pData := None, ar_clearCb := False,
        ar_eStatus := XARRAY_STATUS_EMPTY, ar_nHasPool := False, ar_nFixed := fx, ar_nAlloc := False,
        ar_nSize := n, ar_nUsed := 0\<rparr>, False)"
      by (simp add: XArray_Init_def Let_def mult.commute)
    then show ?thesis by (rule that(2)) (use None False assms in \<open>auto simp: ar_rep_def\<close>)
  next
    case (Some d)
    then have "length d = n" using assms by (auto simp: pmalloc_spec_def)
    then have "fill_null d 0 n = Some (replicate n None)" using fill_null_Some [of 0 n d] by simp
    with Some False assms have "XArray_Init m a n fx = Some (a\<lparr>ar_pData := None, ar_clearCb := False,
        ar_eStatus := XARRAY_STATUS_EMPTY, ar_nHasPool := False, ar_nFixed := fx, ar_nAlloc := False,
        ar_nSize := n, ar_nUsed := 0, ar_pData := Some (replicate n None)\<rparr>, n \<noteq> 0)"
      by (simp add: XArray_Init_def Let_def mult.commute)
    then show ?thesis by (rule that(1)) (use False assms in \<open>auto simp: ar_rep_def\<close>)
  qed
qed

lemma Realloc_rep:
  assumes m: "pmalloc_spec m" and a: "ar_rep a xs" "ar_pData a = Some d" and s: "ar_nSize a < 2 ^ 28"
  shows "\<exists>a' n. XArray_Realloc m a = Some (a', n) \<and> ar_rep a' xs \<and> ar_pData a' \<noteq> None \<and>
    ar_nUsed a' = ar_nUsed a \<and> ar_freed a' = ar_freed a \<and> ar_nFixed a' = ar_nFixed a \<and>
    ar_nSize a' \<le> 2 * ar_nSize a \<and>
    (n \<noteq> 0 \<longrightarrow> \<not> ar_nFixed a \<longrightarrow> 0 < ar_nUsed a \<longrightarrow> ar_nUsed a < ar_nSize a') \<and>
    (n = 0 \<longrightarrow> ar_nSize a = 0 \<or> (\<exists>k. m k = None))"
proof -
  let ?u = "ar_nUsed a" and ?s = "ar_nSize a"
  define N where "N = (if ?u \<noteq> 0 \<and> ?u = ?s then sz (?s * 2) else if ?u \<noteq> 0 \<and> below_quarter ?u ?s then ?s div 2 else 0)"
  from a have r: "length xs = ?u" "?u \<le> ?s" "ar_pData a = Some (xs @ replicate (?s - ?u) None)"
    by (auto simp: ar_rep_def)
  have use: "N \<noteq> 0 \<longrightarrow> ?u < N" "N < 2 ^ 29" "N \<le> 2 * ?s" "N = 0 \<longrightarrow> 0 < ?u \<longrightarrow> ?u < ?s"
    using r(2) below_quarter_strict [of ?u ?s] s by (auto simp: N_def split: if_splits)
  show ?thesis
  proof (cases "ar_nFixed a \<or> N = 0")
    case True
    then have "XArray_Realloc m a = Some (a, ?s)"
      unfolding XArray_Realloc_def Let_def N_def [symmetric] by auto
    with True a use(4) show ?thesis by auto
  next
    case False
    show ?thesis
    proof (cases "m (8 * N)")
      case None
      have "XArray_Realloc m a = Some (a\<lparr>ar_eStatus := XARRAY_STATUS_NO_MEMORY\<rparr>, 0)"
        unfolding XArray_Realloc_def Let_def N_def [symmetric] using False None use(2) by simp
      with a None r show ?thesis by auto
    next
      case (Some d0)
      then have len: "length d0 = N" using m by (auto simp: pmalloc_spec_def)
      have rd: "mread (xs @ replicate (?s - ?u) None) 0 ?u = Some xs" using r by (simp add: mread_def)
      have cp: "memcpy d0 0 xs = Some (xs @ drop ?u d0)" using r use len False by (simp add: memcpy_def)
      have fl: "fill_null (xs @ drop ?u d0) ?u N = Some (xs @ replicate (N - ?u) None)"
        using fill_null_Some [of ?u N "xs @ drop ?u d0"] r use len False by simp
      have ev: "XArray_Realloc m a = Some (a\<lparr>ar_pData := Some (xs @ replicate (N - ?u) None), ar_nSize := N\<rparr>, N)"
        unfolding XArray_Realloc_def Let_def N_def [symmetric] using False Some use(1,2) r(3) by (simp add: rd cp fl)
      have "ar_rep (a\<lparr>ar_pData := Some (xs @ replicate (N - ?u) None), ar_nSize := N\<rparr>) xs"
        using r use False by (intro ar_repI) auto
      with ev use False show ?thesis by auto
    qed
  qed
qed

text \<open>Making room: on success there is a free cell.\<close>

lemma CheckSpace_rep:
  assumes m: "pmalloc_spec m" and a: "ar_rep a xs" and s: "ar_nSize a < 2 ^ 28"
  obtains (room) a' d where "XArray_CheckSpace m a = Some (a', True)" "ar_rep a' xs" "ar_pData a' = Some d"
      "ar_nUsed a' < ar_nSize a'" "ar_freed a' = ar_freed a" "ar_nSize a' \<le> max 8 (2 * ar_nSize a)"
  | (full) a' where "XArray_CheckSpace m a = Some (a', False)" "ar_rep a' xs" "ar_freed a' = ar_freed a"
      "(\<exists>k. m k = None) \<or> ar_nFixed a \<and> ar_nUsed a = ar_nSize a \<or> ar_nSize a = 0"
      "ar_pData a = None \<longrightarrow> ar_pData a' = None \<and> ar_nSize a' = 8"
proof (cases "ar_pData a")
  case None
  then have xs: "xs = []" using a by (simp add: ar_rep_def)
  show ?thesis
  proof (rule Init_rep [OF m, of XARRAY_INITIAL_SIZE a False])
    show "XARRAY_INITIAL_SIZE < 2 ^ 29" by simp
  next
    fix a' assume i: "XArray_Init m a XARRAY_INITIAL_SIZE False = Some (a', XARRAY_INITIAL_SIZE \<noteq> 0)" "ar_rep a' []"
      "ar_nSize a' = XARRAY_INITIAL_SIZE" "XARRAY_INITIAL_SIZE \<noteq> 0 \<longrightarrow> ar_pData a' \<noteq> None" "ar_nUsed a' = 0" "ar_freed a' = ar_freed a"
    let ?a = "a'\<lparr>ar_clearCb := ar_clearCb a, ar_nHasPool := ar_nHasPool a, ar_nAlloc := ar_nAlloc a\<rparr>"
    obtain d where d: "ar_pData a' = Some d" using i(4) by auto
    have "XArray_CheckSpace m a = Some (?a, True)" using None i(1) d by (simp add: XArray_CheckSpace_def)
    then show ?thesis by (rule room) (use i d xs in auto)
  next
    fix a' assume i: "XArray_Init m a XARRAY_INITIAL_SIZE False = Some (a', False)" "ar_rep a' []"
      "ar_nSize a' = XARRAY_INITIAL_SIZE" "ar_pData a' = None" "m (8 * XARRAY_INITIAL_SIZE) = None" "ar_freed a' = ar_freed a"
    let ?a = "a'\<lparr>ar_clearCb := ar_clearCb a, ar_nHasPool := ar_nHasPool a, ar_nAlloc := ar_nAlloc a\<rparr>"
    have "XArray_CheckSpace m a = Some (?a, False)" using None i(1,4) by (simp add: XArray_CheckSpace_def)
    then show ?thesis by (rule full) (use i xs in auto)
  qed
next
  case (Some d)
  then have r: "length xs = ar_nUsed a" "ar_nUsed a \<le> ar_nSize a" using a by (auto simp: ar_rep_def)
  show ?thesis
  proof (cases "ar_nUsed a < ar_nSize a")
    case True
    then have "XArray_CheckSpace m a = Some (a, True)" using Some by (simp add: XArray_CheckSpace_def)
    then show ?thesis by (rule room) (use a Some True in auto)
  next
    case False
    with r have u: "ar_nUsed a = ar_nSize a" by simp
    from Realloc_rep [OF m a Some s] obtain a' n where ra: "XArray_Realloc m a = Some (a', n)" "ar_rep a' xs"
      "ar_pData a' \<noteq> None" "ar_nUsed a' = ar_nUsed a" "ar_freed a' = ar_freed a" "ar_nFixed a' = ar_nFixed a"
      "ar_nSize a' \<le> 2 * ar_nSize a"
      "n \<noteq> 0 \<longrightarrow> \<not> ar_nFixed a \<longrightarrow> 0 < ar_nUsed a \<longrightarrow> ar_nUsed a < ar_nSize a'"
      "n = 0 \<longrightarrow> ar_nSize a = 0 \<or> (\<exists>k. m k = None)" by (elim exE conjE) (rule that; assumption)
    have ev: "XArray_CheckSpace m a = Some (a', \<not> (n = 0 \<or> ar_nSize a' \<le> ar_nUsed a'))"
      using Some False ra(1,3) by (simp add: XArray_CheckSpace_def)
    show ?thesis
    proof (cases "n = 0 \<or> ar_nSize a' \<le> ar_nUsed a'")
      case True
      with ev have "XArray_CheckSpace m a = Some (a', False)" by simp
      then show ?thesis by (rule full) (use ra True u Some in auto)
    next
      case False
      with ev have "XArray_CheckSpace m a = Some (a', True)" by simp
      then show ?thesis using ra False by (elim room [of a' "the (ar_pData a')"]) auto
    qed
  qed
qed

lemma Add_room:
  assumes a: "ar_rep a xs" "ar_pData a \<noteq> None" and u: "ar_nUsed a < ar_nSize a"
  shows "\<exists>a'. XArray_Add m a e = Some (a', int (length xs)) \<and> ar_rep a' (xs @ [e]) \<and> ar_pData a' \<noteq> None \<and>
    ar_freed a' = ar_freed a \<and> ar_nSize a' = ar_nSize a"
proof -
  obtain d where d: "ar_pData a = Some d" using a(2) by auto
  with a(1) have r: "length xs = ar_nUsed a" "d = xs @ replicate (ar_nSize a - ar_nUsed a) None" "ar_nSize a < 2 ^ 29"
    by (auto simp: ar_rep_def)
  obtain k where k: "ar_nSize a - ar_nUsed a = Suc k" using u by (metis Suc_diff_Suc)
  let ?a = "a\<lparr>ar_pData := Some ((xs @ [e]) @ replicate k None), ar_nUsed := ar_nUsed a + 1\<rparr>"
  have cell: "poke d (ar_nUsed a) e = Some ((xs @ [e]) @ replicate k None)"
    unfolding r(2) k using r(1) by (simp add: poke_def list_update_append)
  have "XArray_Add m a e = Some (?a, int (length xs))"
    using d u r(1,3) cell by (simp add: XArray_Add_def XArray_CheckSpace_def)
  moreover have "ar_rep ?a (xs @ [e])" using k r u by (intro ar_repI) auto
  ultimately show ?thesis by (intro exI [of _ ?a]) auto
qed

lemma Add_rep:
  assumes m: "pmalloc_spec m" and a: "ar_rep a xs" and s: "ar_nSize a < 2 ^ 28"
  obtains (stored) a' where "XArray_Add m a e = Some (a', int (length xs))" "ar_rep a' (xs @ [e])"
      "ar_pData a' \<noteq> None" "ar_freed a' = ar_freed a" "ar_nSize a' \<le> max 8 (2 * ar_nSize a)"
  | (full) a' where "XArray_Add m a e = Some (a', XARRAY_FAILURE)" "ar_rep a' xs"
      "ar_freed a' = ar_freed a @ (case e of None \<Rightarrow> [] | Some x \<Rightarrow> [x])"
      "(\<exists>k. m k = None) \<or> ar_nFixed a \<and> ar_nUsed a = ar_nSize a \<or> ar_nSize a = 0"
      "ar_pData a = None \<longrightarrow> ar_pData a' = None \<and> ar_nSize a' = 8"
proof -
  from m a s show ?thesis
  proof (cases rule: CheckSpace_rep)
    case (room a' d)
    from Add_room [OF room(2) _ room(4), of m e] room(3) obtain b where b: "XArray_Add m a' e = Some (b, int (length xs))"
      "ar_rep b (xs @ [e])" "ar_pData b \<noteq> None" "ar_freed b = ar_freed a'" "ar_nSize b = ar_nSize a'" by auto
    have "XArray_CheckSpace m a' = Some (a', True)" using room(3,4) by (simp add: XArray_CheckSpace_def)
    with b(1) room(1) have "XArray_Add m a e = Some (b, int (length xs))" by (simp add: XArray_Add_def)
    then show ?thesis by (rule stored) (use room b in auto)
  next
    case (full a')
    have "XArray_Add m a e = Some (XArray_ClearData a' e, XARRAY_FAILURE)" using full(1) by (simp add: XArray_Add_def)
    then show ?thesis
      by (rule that(2)) (use full in \<open>auto simp: XArray_ClearData_def split: option.splits\<close>)
  qed
qed

lemma Get_rep:
  assumes "ar_rep a xs" "ar_pData a \<noteq> None"
  shows "XArray_Get a i = Some (if i < length xs then xs ! i else None)"
  using assms by (auto simp: ar_rep_def XArray_Get_def peek_def nth_append)

lemma close_gap_rep:
  assumes m: "pmalloc_spec m" and a: "ar_rep a xs" "ar_pData a = Some d" and s: "ar_nSize a < 2 ^ 28" and u: "xs \<noteq> []"
  shows "\<exists>a'. close_gap m a i = Some a' \<and> ar_freed a' = ar_freed a \<and>
    ar_rep a' (if i < length xs then take i xs @ drop (Suc i) xs else butlast xs)"
proof -
  let ?n = "length xs"
  let ?ys = "if i < ?n then take i xs @ drop (Suc i) xs else butlast xs"
  from a have r: "?n = ar_nUsed a" "?n \<le> ar_nSize a" "d = xs @ replicate (ar_nSize a - ?n) None"
    by (auto simp: ar_rep_def)
  have n: "0 < ?n" using u by simp
  then have lt: "?n - 1 < ?n" "?n - 1 < ar_nSize a" using r(2) by linarith+
  have ly: "length ?ys = ?n - 1" using n by auto
  have rc: "remove_cell d i ?n = Some (?ys @ replicate (ar_nSize a - (?n - 1)) None)"
  proof -
    have k: "replicate (ar_nSize a - (?n - 1)) None = None # replicate (ar_nSize a - ?n) (None :: 'a xarray_data option)"
    proof -
      have "ar_nSize a - (?n - 1) = Suc (ar_nSize a - ?n)" using n r(2) by linarith
      then show ?thesis by simp
    qed
    show ?thesis
    proof (cases "i < ?n")
      case True
      then show ?thesis using remove_cell_Some [of i ?n d] r s by (simp add: k Suc_diff_le)
    next
      case False
      then have "shift_left d i ?n = Some d" by (subst shift_left.simps) simp
      moreover have "sz (?n + 2 ^ 64 - 1) = ?n - 1" using n r s by (intro sz_pred) auto
      moreover have "xs[?n - 1 := None] = butlast xs @ [None]"
        using u by (induction xs rule: rev_induct) auto
      ultimately show ?thesis
        using False lt k r(2) by (auto simp: remove_cell_def poke_def r(3) list_update_append1)
    qed
  qed
  let ?a = "a\<lparr>ar_pData := Some (?ys @ replicate (ar_nSize a - (?n - 1)) None), ar_nUsed := ?n - 1\<rparr>"
  have ra: "ar_rep ?a ?ys" using ly r s by (intro ar_repI) auto
  have "sz (?n + 2 ^ 64 - 1) = ?n - 1" using n r s by (intro sz_pred) auto
  then have ev: "close_gap m a i = do { (a', _) \<leftarrow> XArray_Realloc m ?a; Some a' }"
    using a(2) rc by (simp add: close_gap_def r(1) [symmetric])
  from Realloc_rep [OF m ra, of "?ys @ replicate (ar_nSize a - (?n - 1)) None"] s obtain a' k where
    "XArray_Realloc m ?a = Some (a', k)" "ar_rep a' ?ys" "ar_freed a' = ar_freed a" by auto
  then show ?thesis using ev by auto
qed

lemma Set_rep:
  assumes "ar_rep a xs" "i < length xs"
  shows "XArray_Set a i e =
      Some (a\<lparr>ar_pData := Some (xs[i := e] @ replicate (ar_nSize a - ar_nUsed a) None)\<rparr>, xs ! i)"
    and "ar_rep (a\<lparr>ar_pData := Some (xs[i := e] @ replicate (ar_nSize a - ar_nUsed a) None)\<rparr>) (xs[i := e])"
proof -
  obtain d where d: "ar_pData a = Some d" using assms by (cases "ar_pData a") (auto simp: ar_rep_def)
  with assms(1) have r: "length xs = ar_nUsed a" "ar_nUsed a \<le> ar_nSize a" "ar_nSize a < 2 ^ 29"
    "d = xs @ replicate (ar_nSize a - ar_nUsed a) None" by (auto simp: ar_rep_def)
  show "XArray_Set a i e =
      Some (a\<lparr>ar_pData := Some (xs[i := e] @ replicate (ar_nSize a - ar_nUsed a) None)\<rparr>, xs ! i)"
    using d r assms(2) by (simp add: XArray_Set_def peek_def poke_def nth_append list_update_append1)
  show "ar_rep (a\<lparr>ar_pData := Some (xs[i := e] @ replicate (ar_nSize a - ar_nUsed a) None)\<rparr>) (xs[i := e])"
    using r by (intro ar_repI) auto
qed

lemma push_right_rep:
  "ar_rep a xs \<Longrightarrow> ar_pData a \<noteq> None \<Longrightarrow> i \<le> length xs \<Longrightarrow>
   \<exists>a'. push_right a i old = Some (a', last (old # drop i xs)) \<and> ar_rep a' (take i xs @ butlast (old # drop i xs)) \<and>
     ar_pData a' \<noteq> None \<and> ar_freed a' = ar_freed a \<and> ar_nUsed a' = ar_nUsed a \<and> ar_nSize a' = ar_nSize a"
proof (induction "length xs - i" arbitrary: a xs i old)
  case 0
  then have "i = length xs" "length xs = ar_nUsed a" by (auto simp: ar_rep_def)
  with 0 show ?case by (subst push_right.simps) auto
next
  case (Suc k)
  then have i: "i < length xs" "length xs = ar_nUsed a" by (auto simp: ar_rep_def)
  let ?a = "a\<lparr>ar_pData := Some (xs[i := old] @ replicate (ar_nSize a - ar_nUsed a) None)\<rparr>"
  note st = Set_rep [OF Suc.prems(1) i(1), of old]
  have "\<exists>a'. push_right ?a (Suc i) (xs ! i) = Some (a', last (xs ! i # drop (Suc i) (xs[i := old]))) \<and>
     ar_rep a' (take (Suc i) (xs[i := old]) @ butlast (xs ! i # drop (Suc i) (xs[i := old]))) \<and>
     ar_pData a' \<noteq> None \<and> ar_freed a' = ar_freed ?a \<and> ar_nUsed a' = ar_nUsed ?a \<and> ar_nSize a' = ar_nSize ?a"
    using Suc.hyps(2) st(2) i by (intro Suc.hyps(1)) auto
  moreover have "xs ! i # drop (Suc i) xs = drop i xs" using i by (simp add: Cons_nth_drop_Suc)
  moreover have "take (Suc i) (xs[i := old]) = take i xs @ [old]" using i by (simp add: take_Suc_conv_app_nth)
  moreover have "drop i xs \<noteq> []" using i by simp
  ultimately show ?case
    using st(1) i by (subst push_right.simps) auto
qed

lemma Insert_rep:
  assumes m: "pmalloc_spec m" and a: "ar_rep a xs" and s: "ar_nSize a < 2 ^ 28"
    and i: "i < length xs" "xs ! i \<noteq> None"
  obtains (inserted) a' where "XArray_Insert m m' a i e = Some (a', xs ! i)" "ar_rep a' (take i xs @ e # drop i xs)"
      "ar_freed a' = ar_freed a"
  | (full) a' where "XArray_Insert m m' a i e = Some (a', None)" "ar_rep a' xs" "ar_freed a' = ar_freed a"
      "(\<exists>k. m k = None) \<or> ar_nFixed a \<and> ar_nUsed a = ar_nSize a"
proof -
  have n0: "ar_nSize a \<noteq> 0" using a i by (cases "ar_pData a") (auto simp: ar_rep_def)
  from m a s show ?thesis
  proof (cases rule: CheckSpace_rep)
    case (room a1 d)
    let ?a2 = "a1\<lparr>ar_pData := Some (xs[i := e] @ replicate (ar_nSize a1 - ar_nUsed a1) None)\<rparr>"
    note st = Set_rep [OF room(2) i(1), of e]
    obtain y where y: "xs ! i = Some y" using i(2) by auto
    have dr: "drop i xs = xs ! i # drop (Suc i) xs" using i by (simp add: Cons_nth_drop_Suc)
    let ?ys = "take (Suc i) (xs[i := e]) @ butlast (xs ! i # drop (Suc i) xs)"
    from push_right_rep [OF st(2), of "Suc i" "xs ! i"] i obtain a3 where
      p: "push_right ?a2 (Suc i) (xs ! i) = Some (a3, last (drop i xs))" "ar_rep a3 ?ys" "ar_pData a3 \<noteq> None"
      "ar_freed a3 = ar_freed a1" "ar_nUsed a3 = ar_nUsed a1" "ar_nSize a3 = ar_nSize a1"
      by (auto simp: dr)
    have u3: "ar_nUsed a3 < ar_nSize a3" using p room(4) by simp
    have "butlast (drop i xs) @ [last (drop i xs)] = drop i xs" using i by (intro append_butlast_last_id) simp
    then have zs: "?ys @ [last (drop i xs)] = take i xs @ e # drop i xs"
      unfolding dr [symmetric] append.assoc using i by (simp add: take_Suc_conv_app_nth)
    from Add_room [OF p(2,3) u3, of m' "last (drop i xs)"] obtain a4 where
      q: "XArray_Add m' a3 (last (drop i xs)) = Some (a4, int (length ?ys))"
      "ar_rep a4 (?ys @ [last (drop i xs)])" "ar_pData a4 \<noteq> None" "ar_freed a4 = ar_freed a3" by blast
    have g: "XArray_Get a4 (i + 1) = Some (xs ! i)"
      using Get_rep [OF q(2,3), of "i + 1"] i unfolding zs by (cases xs) (auto simp: nth_append dr)
    obtain d4 where d4: "ar_pData a4 = Some d4" using q(3) by auto
    have pk: "peek d4 (i + 1) = Some (xs ! i)"
      using g d4 y by (auto simp: XArray_Get_def split: if_splits)
    have "XArray_Insert m m' a i e = Some (a4, xs ! i)"
      using room(1) st(1) y p(1) q(1) d4 pk by (simp add: XArray_Insert_def)
    then show ?thesis by (rule inserted [OF _ q(2) [unfolded zs]]) (use q(4) p(4) room(5) in simp)
  next
    case (full a')
    then have "XArray_Insert m m' a i e = Some (a', None)" by (simp add: XArray_Insert_def)
    then show ?thesis by (rule that(2)) (use full n0 in auto)
  qed
qed

text \<open>
  A failed first growth leaves an array that records eight cells it does not have: reading any of
  them dereferences NULL.
\<close>

lemma failed_growth_reads_null:
  assumes "ar_pData a = None" "m 64 = None" "i < 8"
  shows "\<exists>a'. XArray_Add m a e = Some (a', XARRAY_FAILURE) \<and> XArray_Get a' i = None"
  using assms
  by (auto simp: XArray_Add_def XArray_CheckSpace_def XArray_Init_def XArray_Get_def XArray_ClearData_def
      split: option.splits)

lemma Remove_rep:
  assumes m: "pmalloc_spec m" and a: "ar_rep a xs" and s: "ar_nSize a < 2 ^ 28" and i: "i < length xs" "xs ! i = Some e"
  shows "\<exists>a'. XArray_Remove m a i = Some (a', Some e) \<and> ar_rep a' (take i xs @ drop (Suc i) xs) \<and> ar_freed a' = ar_freed a"
proof -
  obtain d where d: "ar_pData a = Some d" using a i by (cases "ar_pData a") (auto simp: ar_rep_def)
  have "xs \<noteq> []" using i by auto
  from close_gap_rep [OF m a d s this, of i] Get_rep [OF a, of i] d i show ?thesis
    by (auto simp: XArray_Remove_def)
qed

lemma Delete_rep:
  assumes m: "pmalloc_spec m" and a: "ar_rep a xs" and s: "ar_nSize a < 2 ^ 28" and u: "xs \<noteq> []"
  shows "\<exists>a'. XArray_Delete m a i = Some a' \<and>
    ar_rep a' (if i < length xs then take i xs @ drop (Suc i) xs else butlast xs) \<and>
    ar_freed a' = ar_freed a @ (if i < length xs then (case xs ! i of None \<Rightarrow> [] | Some e \<Rightarrow> [e]) else [])"
proof -
  obtain d where d: "ar_pData a = Some d" using a u by (cases "ar_pData a") (auto simp: ar_rep_def)
  let ?e = "if i < length xs then xs ! i else None"
  let ?a = "XArray_ClearData a ?e"
  have a': "ar_rep ?a xs" "ar_pData ?a = Some d" "ar_nSize ?a = ar_nSize a"
    using a d by (auto simp: XArray_ClearData_def split: option.splits)
  have "ar_nSize ?a < 2 ^ 28" using a'(3) s by simp
  from close_gap_rep [OF m a'(1,2) this u, of i] Get_rep [OF a, of i] d show ?thesis
    by (auto simp: XArray_Delete_def XArray_ClearData_def split: option.splits)
qed

section \<open>Properties\<close>

text \<open>
  Adding an entry to an array is memory safe. It is appended and its index returned, keeping
  all earlier entries; or nothing is stored, XARRAY_FAILURE is returned and the entry is released,
  which only happens when memory is short, or the array is fixed and full, or has size 0.
\<close>

theorem array_add:
  assumes "pmalloc_spec m" and "ar_rep a xs" and "ar_nSize a < 2 ^ 28"
  shows "\<exists>a' r. XArray_Add m a (Some e) = Some (a', r) \<and>
    (r = int (length xs) \<and> ar_rep a' (xs @ [Some e]) \<and> ar_freed a' = ar_freed a \<or>
     r = XARRAY_FAILURE \<and> ar_rep a' xs \<and> ar_freed a' = ar_freed a @ [e] \<and>
     ((\<exists>k. m k = None) \<or> ar_nFixed a \<and> ar_nUsed a = ar_nSize a \<or> ar_nSize a = 0))"
  using assms
proof (cases rule: Add_rep [where e = "Some e"])
  case (stored a')
  then show ?thesis by blast
next
  case (full a')
  then show ?thesis by auto
qed

definition ar_example :: "u32 list \<Rightarrow> nat \<Rightarrow> nat xarray" where
  "ar_example ks n = \<lparr>ar_pData = Some (map (\<lambda>k. Some \<lparr>ad_pData = None, ad_nSize = 0, ad_nKey = k\<rparr>) ks @
       replicate (n - length ks) None),
     ar_clearCb = False, ar_eStatus = XARRAY_STATUS_EMPTY, ar_nHasPool = False, ar_nFixed = False, ar_nAlloc = False,
     ar_nSize = n, ar_nUsed = length ks, ar_freed = []\<rparr>"

lemma ar_example_rep:
  "length ks \<le> n \<Longrightarrow> n < 2 ^ 28 \<Longrightarrow>
   ar_rep (ar_example ks n) (map (\<lambda>k. Some \<lparr>ad_pData = None, ad_nSize = 0, ad_nKey = k\<rparr>) ks) \<and>
   ar_nSize (ar_example ks n) < 2 ^ 28"
  by (auto simp: ar_rep_def ar_example_def)

theorem array_add_witness:
  "\<exists>a' r. XArray_Add null_pmalloc (ar_example [1, 2] 2) (Some \<lparr>ad_pData = Some 7, ad_nSize = 0, ad_nKey = 3\<rparr>) =
     Some (a', r)"
  using array_add [OF null_pmalloc_spec conjunct1 [OF ar_example_rep] conjunct2 [OF ar_example_rep], of "[1, 2]" 2]
  by fastforce

text \<open>
  Inserting an entry at an index in use is memory safe: either every entry from that index on
  moves one place up, in order, and the result is the entry that was there; or there is no room and
  the array is unchanged.
\<close>

theorem array_insert:
  assumes "pmalloc_spec m" and "ar_rep a xs" and "ar_nSize a < 2 ^ 28" and "i < length xs" and "xs ! i \<noteq> None"
  shows "\<exists>a' r. XArray_Insert m m' a i e = Some (a', r) \<and> ar_freed a' = ar_freed a \<and>
    (r = xs ! i \<and> ar_rep a' (take i xs @ e # drop i xs) \<or>
     r = None \<and> ar_rep a' xs \<and> ((\<exists>k. m k = None) \<or> ar_nFixed a \<and> ar_nUsed a = ar_nSize a))"
  using assms
proof (cases rule: Insert_rep [where m' = m' and e = e])
  case (inserted a')
  then show ?thesis by blast
next
  case (full a')
  then show ?thesis by blast
qed

theorem array_insert_witness:
  "\<exists>a'. XArray_Insert null_pmalloc null_pmalloc (ar_example [1, 2] 2) 0 None =
     Some (a', Some \<lparr>ad_pData = None, ad_nSize = 0, ad_nKey = 1\<rparr>)"
  using array_insert [OF null_pmalloc_spec conjunct1 [OF ar_example_rep] conjunct2 [OF ar_example_rep],
    of "[1, 2]" 2 0 null_pmalloc None]
  by (auto simp: null_pmalloc_def ar_example_def)

text \<open>
  C16: On a non-empty array, removing at an index in use gives that entry back and closes the gap;
  deleting releases the entry and closes the gap; but deleting at an index that is not in use drops
  the last entry of the array, without releasing it.
\<close>

theorem array_remove_delete:
  assumes "pmalloc_spec m" and "ar_rep a xs" and "ar_nSize a < 2 ^ 28" and "xs \<noteq> []" and "\<forall>x \<in> set xs. x \<noteq> None"
  shows "(i < length xs \<longrightarrow>
      (\<exists>a'. XArray_Remove m a i = Some (a', xs ! i) \<and> ar_rep a' (take i xs @ drop (Suc i) xs) \<and> ar_freed a' = ar_freed a) \<and>
      (\<exists>a'. XArray_Delete m a i = Some a' \<and> ar_rep a' (take i xs @ drop (Suc i) xs) \<and> ar_freed a' = ar_freed a @ [the (xs ! i)])) \<and>
    (length xs \<le> i \<longrightarrow>
      (\<exists>a'. XArray_Delete m a i = Some a' \<and> ar_rep a' (butlast xs) \<and> ar_freed a' = ar_freed a))"
proof -
  have e: "xs ! i = Some (the (xs ! i))" if "i < length xs" using assms(5) that by (auto simp: in_set_conv_nth)
  show ?thesis
  proof (intro conjI impI)
    assume i: "i < length xs"
    show "\<exists>a'. XArray_Remove m a i = Some (a', xs ! i) \<and> ar_rep a' (take i xs @ drop (Suc i) xs) \<and> ar_freed a' = ar_freed a"
      using Remove_rep [OF assms(1-3) i e [OF i]] e [OF i] by simp
    show "\<exists>a'. XArray_Delete m a i = Some a' \<and> ar_rep a' (take i xs @ drop (Suc i) xs) \<and> ar_freed a' = ar_freed a @ [the (xs ! i)]"
      using Delete_rep [OF assms(1-4), of i] i e [OF i] by (auto split: option.splits)
  next
    assume "length xs \<le> i"
    then show "\<exists>a'. XArray_Delete m a i = Some a' \<and> ar_rep a' (butlast xs) \<and> ar_freed a' = ar_freed a"
      using Delete_rep [OF assms(1-4), of i] by auto
  qed
qed

theorem array_remove_delete_witness:
  "\<exists>a'. XArray_Delete null_pmalloc (ar_example [1, 2] 4) 7 = Some a' \<and> ar_freed a' = [] \<and> ar_nUsed a' = 1"
proof -
  have "\<exists>a'. XArray_Delete null_pmalloc (ar_example [1, 2] 4) 7 = Some a' \<and>
      ar_rep a' [Some \<lparr>ad_pData = None, ad_nSize = 0, ad_nKey = 1\<rparr>] \<and> ar_freed a' = []"
    using array_remove_delete [OF null_pmalloc_spec conjunct1 [OF ar_example_rep] conjunct2 [OF ar_example_rep],
      of "[1, 2]" 4 7] by (simp add: ar_example_def)
  then show ?thesis by (auto simp: ar_rep_def)
qed

end
