(* ===== verification/ArraySort.thy ===== *)
theory ArraySort
  imports XArray "HOL-Library.Multiset"
begin

text \<open>
  Sorting and searching of \<open>src/src/data/array.c\<close>. The routines work on the cells of the table; a
  comparator is an argument, \<^term>\<open>None\<close> when it dereferences NULL or overflows a signed
  subtraction. Loops that a bad comparator can keep running for ever are partial functions: not
  returning is \<^term>\<open>None\<close>, as undefined behaviour is.

  The locale \<open>comparator\<close> states what the sorts rely on. Under it the quicksort returns, stays in
  bounds, and sorts; it is interpreted on the two comparators of the library, for values below
  \<open>2 ^ 31\<close>. The searches are shown to find a key exactly when it is there.
\<close>

type_synonym 'e compare = "'e option \<Rightarrow> 'e option \<Rightarrow> int option"

section \<open>Comparators\<close>

text \<open>\<open>(int)x - (int)y\<close>, undefined when the difference is not an \<open>int\<close>.\<close>

definition int_sub :: "int \<Rightarrow> int \<Rightarrow> int option" where
  "int_sub x y = (if - (2 ^ 31) \<le> x - y \<and> x - y < 2 ^ 31 then Some (x - y) else None)"

definition XArray_CompareSize :: "'d xarray_data compare" where
  "XArray_CompareSize p q = do { x \<leftarrow> p; y \<leftarrow> q; int_sub (to_int (ad_nSize x)) (to_int (ad_nSize y)) }"

definition XArray_CompareKey :: "'d xarray_data compare" where
  "XArray_CompareKey p q = do { x \<leftarrow> p; y \<leftarrow> q; int_sub (to_int (unat (ad_nKey x))) (to_int (unat (ad_nKey y))) }"

section \<open>Sorting\<close>

definition ipeek :: "'a list \<Rightarrow> int \<Rightarrow> 'a option" where
  "ipeek d i = (if 0 \<le> i then peek d (nat i) else None)"

lemma ipeek_Some: "ipeek d i = Some x \<Longrightarrow> 0 \<le> i \<and> nat i < length d \<and> x = d ! nat i"
  by (auto simp: ipeek_def peek_def split: if_splits)

function (sequential) scan_up :: "'e compare \<Rightarrow> 'e option list \<Rightarrow> int \<Rightarrow> int \<Rightarrow> int option" where
  "scan_up cmp d p s =
     (case ipeek d s of None \<Rightarrow> None
      | Some x \<Rightarrow> do { y \<leftarrow> ipeek d p; c \<leftarrow> cmp x y; if c < 0 then scan_up cmp d p (s + 1) else Some s })"
  by pat_completeness auto
termination by (relation "measure (\<lambda>(_, d, _, s). nat (int (length d) - s))") (auto dest!: ipeek_Some)

function (sequential) scan_down :: "'e compare \<Rightarrow> 'e option list \<Rightarrow> int \<Rightarrow> int \<Rightarrow> int option" where
  "scan_down cmp d p f =
     (case ipeek d f of None \<Rightarrow> None
      | Some x \<Rightarrow> do { y \<leftarrow> ipeek d p; c \<leftarrow> cmp x y; if 0 < c then scan_down cmp d p (f - 1) else Some f })"
  by pat_completeness auto
termination by (relation "measure (\<lambda>(_, d, _, f). nat (f + 1))") (auto dest!: ipeek_Some)

declare scan_up.simps [simp del] scan_down.simps [simp del]

text \<open>\<open>XArray_Swap\<close> on the cells, \<open>u\<close> of them in use.\<close>

definition swap_cells :: "nat \<Rightarrow> 'a list \<Rightarrow> nat \<Rightarrow> nat \<Rightarrow> 'a list option" where
  "swap_cells u d i j =
     (if u \<le> i \<or> u \<le> j then Some d
      else do { x \<leftarrow> peek d i; y \<leftarrow> peek d j; d \<leftarrow> poke d i y; poke d j x })"

lemma Swap_cells:
  "ar_pData a = Some d \<Longrightarrow>
   XArray_Swap a i j = map_option (\<lambda>d'. a\<lparr>ar_pData := Some d'\<rparr>) (swap_cells (ar_nUsed a) d i j)"
  by (auto simp: XArray_Swap_def swap_cells_def split: bind_splits)

partial_function (option) part_loop ::
  "'e compare \<Rightarrow> nat \<Rightarrow> int \<Rightarrow> 'e option list \<Rightarrow> int \<Rightarrow> int \<Rightarrow> ('e option list \<times> int) option" where
  "part_loop cmp u p d s f = do {
     s \<leftarrow> scan_up cmp d p s;
     f \<leftarrow> scan_down cmp d p f;
     x \<leftarrow> ipeek d s;
     y \<leftarrow> ipeek d f;
     c \<leftarrow> cmp x y;
     let f = (if c = 0 then f - 1 else f);
     if f \<le> s then Some (d, s)
     else do { d \<leftarrow> swap_cells u d (nat s) (nat f); part_loop cmp u p d s f } }"

definition XArray_Partitioning ::
  "'e compare \<Rightarrow> nat \<Rightarrow> 'e option list \<Rightarrow> int \<Rightarrow> int \<Rightarrow> ('e option list \<times> int) option" where
  "XArray_Partitioning cmp u d nStart nFinish = part_loop cmp u nStart d nStart nFinish"

partial_function (option) XArray_QuickSort ::
  "'e compare \<Rightarrow> nat \<Rightarrow> 'e option list \<Rightarrow> int \<Rightarrow> int \<Rightarrow> 'e option list option" where
  "XArray_QuickSort cmp u d nStart nFinish =
     (if nStart < nFinish
      then do {
        (d, q) \<leftarrow> XArray_Partitioning cmp u d nStart nFinish;
        d \<leftarrow> XArray_QuickSort cmp u d nStart q;
        XArray_QuickSort cmp u d (q + 1) nFinish }
      else Some d)"

definition XArray_Sort :: "'d xarray_data compare \<Rightarrow> 'd xarray \<Rightarrow> 'd xarray option" where
  "XArray_Sort cmp a =
     (if ar_nUsed a = 0 then Some a
      else do {
        d \<leftarrow> ar_pData a;
        d' \<leftarrow> XArray_QuickSort cmp (ar_nUsed a) d 0 (to_int (ar_nUsed a) - 1);
        Some (a\<lparr>ar_pData := Some d'\<rparr>) })"

definition XArray_SortBy :: "'d xarray \<Rightarrow> int \<Rightarrow> 'd xarray option" where
  "XArray_SortBy a nSortBy =
     (if nSortBy = 1 then XArray_Sort XArray_CompareSize a
      else if nSortBy = 0 then XArray_Sort XArray_CompareKey a
      else Some a)"

function bubble_inner :: "'e compare \<Rightarrow> 'e option list \<Rightarrow> nat \<Rightarrow> nat \<Rightarrow> 'e option list option" where
  "bubble_inner cmp d j n =
     (if j < n
      then do {
        x \<leftarrow> peek d j; y \<leftarrow> peek d (j + 1); c \<leftarrow> cmp x y;
        d' \<leftarrow> (if c \<noteq> 0 then do { d1 \<leftarrow> poke d j y; poke d1 (j + 1) x } else Some d);
        bubble_inner cmp d' (j + 1) n }
      else Some d)"
  by pat_completeness auto
termination by (relation "measure (\<lambda>(_, _, j, n). n - j)") auto

function bubble_outer :: "'e compare \<Rightarrow> nat \<Rightarrow> 'e option list \<Rightarrow> nat \<Rightarrow> 'e option list option" where
  "bubble_outer cmp u d i =
     (if i < u - 1 then do { d' \<leftarrow> bubble_inner cmp d 0 (u - i - 1); bubble_outer cmp u d' (i + 1) } else Some d)"
  by pat_completeness auto
termination by (relation "measure (\<lambda>(_, u, _, i). u - i)") auto

declare bubble_inner.simps [simp del] bubble_outer.simps [simp del]

definition XArray_BubbleSort :: "'d xarray_data compare \<Rightarrow> 'd xarray \<Rightarrow> 'd xarray option" where
  "XArray_BubbleSort cmp a =
     (if ar_nUsed a = 0 then Some a
      else do {
        d \<leftarrow> ar_pData a;
        d' \<leftarrow> bubble_outer cmp (ar_nUsed a) d 0;
        Some (a\<lparr>ar_pData := Some d'\<rparr>) })"

section \<open>Searching\<close>

text \<open>The key of the entry in cell \<open>i\<close>; a NULL entry is dereferenced.\<close>

definition key_at :: "'d xarray_data option list \<Rightarrow> int \<Rightarrow> u32 option" where
  "key_at d i = do { e \<leftarrow> ipeek d i; x \<leftarrow> e; Some (ad_nKey x) }"

function linear_loop :: "'d xarray_data option list \<Rightarrow> u32 \<Rightarrow> nat \<Rightarrow> nat \<Rightarrow> int option" where
  "linear_loop d k i n =
     (if i < n then do { x \<leftarrow> key_at d (int i); if k = x then Some (to_int i) else linear_loop d k (i + 1) n }
      else Some XARRAY_FAILURE)"
  by pat_completeness auto
termination by (relation "measure (\<lambda>(_, _, i, n). n - i)") auto

definition XArray_LinearSearch :: "'d xarray \<Rightarrow> u32 \<Rightarrow> int option" where
  "XArray_LinearSearch a k =
     (if ar_nUsed a = 0 then Some XARRAY_FAILURE else do { d \<leftarrow> ar_pData a; linear_loop d k 0 (ar_nUsed a) })"

text \<open>The loop has no bound of its own: it stops at the terminator placed in the last cell.\<close>

function (sequential) sentinel_loop :: "'d xarray_data option list \<Rightarrow> u32 \<Rightarrow> int \<Rightarrow> int option" where
  "sentinel_loop d k i =
     (case key_at d i of None \<Rightarrow> None | Some x \<Rightarrow> if k = x then Some i else sentinel_loop d k (i + 1))"
  by pat_completeness auto
termination
  by (relation "measure (\<lambda>(d, _, i). nat (int (length d) - i))")
     (auto simp: key_at_def split: bind_splits dest!: ipeek_Some)

definition XArray_SentinelSearch :: "'d xarray \<Rightarrow> u32 \<Rightarrow> ('d xarray \<times> int) option" where
  "XArray_SentinelSearch a k =
     (if ar_nUsed a = 0 then Some (a, XARRAY_FAILURE)
      else do {
        d \<leftarrow> ar_pData a;
        let nLast = to_int (ar_nUsed a) - 1;
        pLast \<leftarrow> ipeek d nLast;
        x \<leftarrow> key_at d nLast;
        if x = k then Some (a, nLast)
        else do {
          d1 \<leftarrow> poke d (nat nLast) (Some \<lparr>ad_pData = None, ad_nSize = 0, ad_nKey = k\<rparr>);
          i \<leftarrow> sentinel_loop d1 k 0;
          d2 \<leftarrow> poke d1 (nat nLast) pLast;
          Some (a\<lparr>ar_pData := Some d2\<rparr>, if i < nLast then i else -1) } })"

function double_loop :: "'d xarray_data option list \<Rightarrow> u32 \<Rightarrow> int \<Rightarrow> int \<Rightarrow> int option" where
  "double_loop d k f b =
     (if f \<le> b
      then do { x \<leftarrow> key_at d f; if k = x then Some f
                else do { y \<leftarrow> key_at d b; if k = y then Some b else double_loop d k (f + 1) (b - 1) } }
      else Some XARRAY_FAILURE)"
  by pat_completeness auto
termination by (relation "measure (\<lambda>(_, _, f, b). nat (b - f + 1))") auto

definition XArray_DoubleSearch :: "'d xarray \<Rightarrow> u32 \<Rightarrow> int option" where
  "XArray_DoubleSearch a k =
     (if ar_nUsed a = 0 then Some XARRAY_FAILURE
      else do { d \<leftarrow> ar_pData a; double_loop d k 0 (to_int (ar_nUsed a) - 1) })"

function binary_loop :: "'d xarray_data option list \<Rightarrow> u32 \<Rightarrow> int \<Rightarrow> int \<Rightarrow> int option" where
  "binary_loop d k l r =
     (if l \<le> r
      then (let m = l + (r - l) div 2 in
            do { x \<leftarrow> key_at d m;
                 if x < k then binary_loop d k (m + 1) r
                 else if x = k then Some m
                 else binary_loop d k l (m - 1) })
      else Some XARRAY_FAILURE)"
  by pat_completeness auto
termination by (relation "measure (\<lambda>(_, _, l, r). nat (r - l + 1))") auto

declare linear_loop.simps [simp del] sentinel_loop.simps [simp del] double_loop.simps [simp del] binary_loop.simps [simp del]

definition XArray_BinarySearch :: "'d xarray \<Rightarrow> u32 \<Rightarrow> int option" where
  "XArray_BinarySearch a k =
     (if ar_nUsed a = 0 then Some XARRAY_FAILURE
      else do {
        d \<leftarrow> ar_pData a;
        x \<leftarrow> key_at d 0;
        if x = k then Some 0 else binary_loop d k 0 (to_int (ar_nUsed a) - 1) })"

section \<open>What the sorts rely on\<close>

text \<open>A table whose used cells hold the entries \<open>xs\<close>.\<close>

abbreviation cells :: "'e list \<Rightarrow> 'e option list \<Rightarrow> 'e option list" where
  "cells xs rest \<equiv> map Some xs @ rest"

definition sw :: "'a list \<Rightarrow> nat \<Rightarrow> nat \<Rightarrow> 'a list" where
  "sw xs i j = xs[i := xs ! j, j := xs ! i]"

lemma ipeek_cells: "i < length xs \<Longrightarrow> ipeek (cells xs rest) (int i) = Some (Some (xs ! i))"
  by (simp add: ipeek_def peek_def nth_append)

lemma swap_cells_eq:
  "i < length xs \<Longrightarrow> j < length xs \<Longrightarrow> swap_cells (length xs) (cells xs rest) i j = Some (cells (sw xs i j) rest)"
  by (simp add: swap_cells_def peek_def poke_def nth_append sw_def list_update_append1 map_update)

lemma sw_mset [simp]: "i < length xs \<Longrightarrow> j < length xs \<Longrightarrow> mset (sw xs i j) = mset xs"
  unfolding sw_def by (rule mset_swap)

lemma sw_set [simp]: "i < length xs \<Longrightarrow> j < length xs \<Longrightarrow> set (sw xs i j) = set xs"
  by (metis sw_mset mset_eq_setD)

lemma sw_length [simp]: "length (sw xs i j) = length xs"
  by (simp add: sw_def)

lemma sw_nth:
  "i < length xs \<Longrightarrow> j < length xs \<Longrightarrow> k < length xs \<Longrightarrow>
   sw xs i j ! k = (if k = j then xs ! i else if k = i then xs ! j else xs ! k)"
  by (auto simp: sw_def nth_list_update)

lemma sw_invol: "i < length xs \<Longrightarrow> j < length xs \<Longrightarrow> sw (sw xs i j) i j = xs"
  by (rule nth_equalityI) (auto simp: sw_nth)

text \<open>Rearranging a list only between two positions rearranges that segment.\<close>

lemma segment_perm:
  assumes m: "mset ys = mset xs" and out: "\<And>j. j < length xs \<Longrightarrow> j < a \<or> e < j \<Longrightarrow> ys ! j = xs ! j"
    and j: "a \<le> j" "j \<le> e" "e < length xs"
  shows "\<exists>k. a \<le> k \<and> k \<le> e \<and> ys ! j = xs ! k"
proof -
  have l: "length ys = length xs" using m by (metis size_mset)
  define mid where "mid zs = take (Suc e - a) (drop a zs)" for zs :: "'a list"
  have split: "zs = take a zs @ mid zs @ drop (Suc e) zs" for zs :: "'a list"
    using j by (simp add: mid_def) (metis append.assoc append_take_drop_id le_SucI le_trans ordered_cancel_comm_monoid_diff_class.add_diff_inverse take_add)
  have "take a ys = take a xs" using out j l by (intro nth_equalityI) auto
  moreover have "drop (Suc e) ys = drop (Suc e) xs" using out j l by (intro nth_equalityI) auto
  moreover have "mset ys = mset (take a ys) + mset (mid ys) + mset (drop (Suc e) ys)"
    "mset xs = mset (take a xs) + mset (mid xs) + mset (drop (Suc e) xs)"
    by (metis split mset_append add.assoc)+
  ultimately have "mset (mid ys) = mset (mid xs)" using m by simp
  then have s: "set (mid ys) = set (mid xs)" by (rule mset_eq_setD)
  have "mid ys ! (j - a) = ys ! j" "j - a < length (mid ys)" using j l by (auto simp: mid_def)
  then have "ys ! j \<in> set (mid xs)" using s by (metis nth_mem)
  then obtain k where "k < length (mid xs)" "mid xs ! k = ys ! j" by (auto simp: in_set_conv_nth)
  then show ?thesis using j by (intro exI [of _ "a + k"]) (auto simp: mid_def)
qed

locale comparator =
  fixes cmp :: "'e compare" and S :: "'e set" and c :: "'e \<Rightarrow> 'e \<Rightarrow> int"
  assumes val: "x \<in> S \<Longrightarrow> y \<in> S \<Longrightarrow> cmp (Some x) (Some y) = Some (c x y)"
    and refl: "x \<in> S \<Longrightarrow> c x x = 0"
    and anti: "x \<in> S \<Longrightarrow> y \<in> S \<Longrightarrow> c x y < 0 \<longleftrightarrow> 0 < c y x"
    and trans: "x \<in> S \<Longrightarrow> y \<in> S \<Longrightarrow> z \<in> S \<Longrightarrow> c x y \<le> 0 \<Longrightarrow> c y z \<le> 0 \<Longrightarrow> c x z \<le> 0"
begin

lemma total: "x \<in> S \<Longrightarrow> y \<in> S \<Longrightarrow> \<not> c x y \<le> 0 \<Longrightarrow> c y x < 0"
  using anti [of y x] by simp

lemma zero_sym: "x \<in> S \<Longrightarrow> y \<in> S \<Longrightarrow> c x y = 0 \<Longrightarrow> c y x = 0"
  using anti [of x y] anti [of y x] by linarith

lemma scan_up_self:
  "set xs \<subseteq> S \<Longrightarrow> p < length xs \<Longrightarrow> scan_up cmp (cells xs rest) (int p) (int p) = Some (int p)"
  by (subst scan_up.simps) (use nth_mem in \<open>auto simp: ipeek_cells val refl subset_iff\<close>)

lemma scan_down_skip:
  "set xs \<subseteq> S \<Longrightarrow> p < f \<Longrightarrow> f < length xs \<Longrightarrow> 0 < c (xs ! f) (xs ! p) \<Longrightarrow>
   scan_down cmp (cells xs rest) (int p) (int f) = scan_down cmp (cells xs rest) (int p) (int (f - 1))"
  by (subst scan_down.simps) (auto simp: ipeek_cells val subset_iff of_nat_diff)

lemma scan_down_stop:
  "set xs \<subseteq> S \<Longrightarrow> p \<le> f \<Longrightarrow> f < length xs \<Longrightarrow> c (xs ! f) (xs ! p) \<le> 0 \<Longrightarrow>
   scan_down cmp (cells xs rest) (int p) (int f) = Some (int f)"
  by (subst scan_down.simps) (auto simp: ipeek_cells val subset_iff)

lemma scan_down_spec:
  assumes S: "set xs \<subseteq> S" and p: "p \<le> f" "f < length xs"
  shows "\<exists>g. scan_down cmp (cells xs rest) (int p) (int f) = Some (int g) \<and> p \<le> g \<and> g \<le> f \<and>
    c (xs ! g) (xs ! p) \<le> 0 \<and> (\<forall>j. g < j \<longrightarrow> j \<le> f \<longrightarrow> c (xs ! p) (xs ! j) \<le> 0)"
  using p
proof (induction "f - p" arbitrary: f)
  case 0
  then have "f = p" by simp
  moreover have "c (xs ! p) (xs ! p) = 0" using 0 S by (intro refl) auto
  ultimately show ?case using scan_down_stop [OF S, of p f] 0 by auto
next
  case (Suc n)
  show ?case
  proof (cases "c (xs ! f) (xs ! p) \<le> 0")
    case True
    then show ?thesis using scan_down_stop [OF S Suc.prems True] Suc.prems by (intro exI [of _ f]) auto
  next
    case False
    have pf: "p < f" using Suc.hyps(2) by simp
    have mem: "xs ! f \<in> S" "xs ! p \<in> S" using S Suc.prems pf by auto
    have "n = f - 1 - p" "p \<le> f - 1" "f - 1 < length xs" using Suc.hyps(2) Suc.prems by auto
    from Suc.hyps(1) [OF this] obtain g where
      g: "scan_down cmp (cells xs rest) (int p) (int (f - 1)) = Some (int g)" "p \<le> g" "g \<le> f - 1"
      "c (xs ! g) (xs ! p) \<le> 0" "\<forall>j. g < j \<longrightarrow> j \<le> f - 1 \<longrightarrow> c (xs ! p) (xs ! j) \<le> 0" by blast
    have "c (xs ! p) (xs ! f) \<le> 0" using False total [OF mem] by simp
    then have "\<forall>j. g < j \<longrightarrow> j \<le> f \<longrightarrow> c (xs ! p) (xs ! j) \<le> 0"
      using g(5) by (metis Suc_pred' le_SucE pf gr_implies_not_zero not_gr_zero)
    moreover have "scan_down cmp (cells xs rest) (int p) (int f) = Some (int g)"
      using scan_down_skip [OF S pf Suc.prems(2)] False g(1) by simp
    ultimately show ?thesis using g by (intro exI [of _ g]) auto
  qed
qed

text \<open>
  One round of the partitioning loop on \<open>xs\<close> with pivot position \<open>p\<close> and upper index \<open>f\<close>: the
  scan from above stops at \<open>g\<close>; an equal entry is stepped over.
\<close>

lemma part_round:
  assumes S: "set xs \<subseteq> S" and p: "p < length xs" and g: "p \<le> g" "g < length xs"
    and sd: "scan_down cmp (cells xs rest) (int p) (int f) = Some (int g)"
  shows "part_loop cmp (length xs) (int p) (cells xs rest) (int p) (int f) =
    (let h = (if c (xs ! p) (xs ! g) = 0 then int g - 1 else int g)
     in if h \<le> int p then Some (cells xs rest, int p)
        else part_loop cmp (length xs) (int p) (cells (sw xs p (nat h)) rest) (int p) h)"
proof -
  have "xs ! p \<in> S" "xs ! g \<in> S" using S p g by auto
  then have v: "cmp (Some (xs ! p)) (Some (xs ! g)) = Some (c (xs ! p) (xs ! g))" by (rule val)
  have "swap_cells (length xs) (cells xs rest) (nat (int p)) (nat h) = Some (cells (sw xs p (nat h)) rest)"
    if "int p < h" "h \<le> int g" for h
    using swap_cells_eq [of p xs "nat h"] that p g by simp
  then show ?thesis
    by (subst part_loop.simps)
       (simp add: scan_up_self [OF S p] sd ipeek_cells [OF p] ipeek_cells [OF g(2)] v Let_def)
qed

lemma part_loop_min:
  assumes "set xs \<subseteq> S" "p \<le> f" "f \<le> e" "e < length xs" "\<forall>j. f < j \<longrightarrow> j \<le> e \<longrightarrow> c (xs ! p) (xs ! j) \<le> 0"
  shows "\<exists>ys. part_loop cmp (length xs) (int p) (cells xs rest) (int p) (int f) = Some (cells ys rest, int p) \<and>
    mset ys = mset xs \<and> (\<forall>j. p < j \<longrightarrow> j \<le> e \<longrightarrow> c (ys ! p) (ys ! j) \<le> 0) \<and>
    (\<forall>j < length xs. j < p \<or> e < j \<longrightarrow> ys ! j = xs ! j)"
  using assms
proof (induction f arbitrary: xs rule: less_induct)
  case (less f)
  note S = less.prems(1) and good = less.prems(5)
  have p: "p < length xs" and f: "f < length xs" using less.prems by auto
  from scan_down_spec [OF S less.prems(2) f] obtain g where
    g: "scan_down cmp (cells xs rest) (int p) (int f) = Some (int g)" "p \<le> g" "g \<le> f" "c (xs ! g) (xs ! p) \<le> 0"
    "\<forall>j. g < j \<longrightarrow> j \<le> f \<longrightarrow> c (xs ! p) (xs ! j) \<le> 0" by blast
  have gl: "g < length xs" using g f by simp
  have mem: "xs ! p \<in> S" "xs ! g \<in> S" using S p gl by auto
  have above: "c (xs ! p) (xs ! j) \<le> 0" if "g < j" "j \<le> e" for j
    using that g(5) good by (cases "j \<le> f") auto
  note round = part_round [OF S p g(2) gl g(1)]
  show ?case
  proof (cases "c (xs ! p) (xs ! g) = 0")
    case True
    have above_eq: "c (xs ! p) (xs ! j) \<le> 0" if "g \<le> j" "j \<le> e" for j
      using that above [of j] True by (cases "j = g") auto
    show ?thesis
    proof (cases "g \<le> p + 1")
      case stop: True
      then have "part_loop cmp (length xs) (int p) (cells xs rest) (int p) (int f) = Some (cells xs rest, int p)"
        using round True by simp
      moreover have "\<forall>j. p < j \<longrightarrow> j \<le> e \<longrightarrow> c (xs ! p) (xs ! j) \<le> 0" using above_eq stop by auto
      ultimately show ?thesis by blast
    next
      case False
      define h where "h = g - 1"
      have h: "p < h" "h < g" "h < f" "h < length xs" "int g - 1 = int h" using False g gl by (auto simp: h_def)
      have ev: "part_loop cmp (length xs) (int p) (cells xs rest) (int p) (int f) =
          part_loop cmp (length xs) (int p) (cells (sw xs p h) rest) (int p) (int h)"
        using round True h by simp
      have memh: "xs ! h \<in> S" using S h by auto
      show ?thesis
      proof (cases "c (xs ! h) (xs ! p) \<le> 0")
        case True
        have "\<forall>j. h < j \<longrightarrow> j \<le> e \<longrightarrow> c (sw xs p h ! p) (sw xs p h ! j) \<le> 0"
        proof (intro allI impI)
          fix j assume j: "h < j" "j \<le> e"
          then have jl: "j < length xs" using less.prems by simp
          then have "xs ! j \<in> S" using S by auto
          moreover have "c (xs ! p) (xs ! j) \<le> 0" using above_eq [of j] j h by (simp add: h_def)
          ultimately have "c (xs ! h) (xs ! j) \<le> 0" using True trans [OF memh mem(1)] by blast
          then show "c (sw xs p h ! p) (sw xs p h ! j) \<le> 0" using j jl p h by (simp add: sw_nth)
        qed
        with less.IH [OF h(3), of "sw xs p h"] S p h less.prems obtain ys where
          "part_loop cmp (length xs) (int p) (cells (sw xs p h) rest) (int p) (int h) = Some (cells ys rest, int p)"
          "mset ys = mset xs" "\<forall>j. p < j \<longrightarrow> j \<le> e \<longrightarrow> c (ys ! p) (ys ! j) \<le> 0"
          "\<forall>j < length xs. j < p \<or> e < j \<longrightarrow> ys ! j = sw xs p h ! j" by auto
        then show ?thesis using ev p h less.prems g by (intro exI [of _ ys]) (auto simp: sw_nth)
      next
        case False
        have Sw: "set (sw xs p h) \<subseteq> S" using S p h by simp
        have neg: "c (xs ! p) (xs ! h) < 0" using False total [OF memh mem(1)] by simp
        have "scan_down cmp (cells (sw xs p h) rest) (int p) (int h) = Some (int h)"
          using scan_down_stop [OF Sw, of p h] p h neg by (simp add: sw_nth)
        from part_round [OF Sw _ _ _ this] p h False
        have ev2: "part_loop cmp (length xs) (int p) (cells (sw xs p h) rest) (int p) (int h) =
            part_loop cmp (length xs) (int p) (cells xs rest) (int p) (int h)"
          by (simp add: sw_nth sw_invol)
        have "\<forall>j. h < j \<longrightarrow> j \<le> e \<longrightarrow> c (xs ! p) (xs ! j) \<le> 0" using above_eq by (auto simp: h_def)
        with less.IH [OF h(3) S] h less.prems show ?thesis by (simp add: ev ev2)
      qed
    qed
  next
    case False
    have neg: "c (xs ! g) (xs ! p) < 0" using g(4) False zero_sym [OF mem(2,1)] by linarith
    have gp: "p < g" using g(2) neg refl [OF mem(1)] by (cases "g = p") auto
    have Sw: "set (sw xs p g) \<subseteq> S" using S p gl by simp
    have ev: "part_loop cmp (length xs) (int p) (cells xs rest) (int p) (int f) =
        part_loop cmp (length xs) (int p) (cells (sw xs p g) rest) (int p) (int g)"
      using round False gp by simp
    have "scan_down cmp (cells (sw xs p g) rest) (int p) (int g) = scan_down cmp (cells (sw xs p g) rest) (int p) (int (g - 1))"
      using scan_down_skip [OF Sw gp] gl p gp neg anti [OF mem(2,1)] by (simp add: sw_nth)
    then have ev2: "part_loop cmp (length xs) (int p) (cells (sw xs p g) rest) (int p) (int g) =
        part_loop cmp (length xs) (int p) (cells (sw xs p g) rest) (int p) (int (g - 1))"
      by (subst (1 2) part_loop.simps) simp
    have "\<forall>j. g - 1 < j \<longrightarrow> j \<le> e \<longrightarrow> c (sw xs p g ! p) (sw xs p g ! j) \<le> 0"
    proof (intro allI impI)
      fix j assume j: "g - 1 < j" "j \<le> e"
      then have jl: "j < length xs" using less.prems by simp
      then have memj: "xs ! j \<in> S" using S by auto
      have "c (xs ! g) (xs ! j) \<le> 0" if "g < j"
        using above [OF that j(2)] g(4) trans [OF mem(2,1) memj] by blast
      then show "c (sw xs p g ! p) (sw xs p g ! j) \<le> 0" using j jl p gl gp g(4) by (auto simp: sw_nth)
    qed
    moreover have "g - 1 < f" "p \<le> g - 1" "g - 1 \<le> e" using gp g less.prems by auto
    ultimately obtain ys where
      "part_loop cmp (length xs) (int p) (cells (sw xs p g) rest) (int p) (int (g - 1)) = Some (cells ys rest, int p)"
      "mset ys = mset xs" "\<forall>j. p < j \<longrightarrow> j \<le> e \<longrightarrow> c (ys ! p) (ys ! j) \<le> 0"
      "\<forall>j < length xs. j < p \<or> e < j \<longrightarrow> ys ! j = sw xs p g ! j"
      using less.IH [of "g - 1" "sw xs p g"] Sw p gl less.prems by auto
    then show ?thesis using ev ev2 p gl gp g less.prems by (intro exI [of _ ys]) (auto simp: sw_nth)
  qed
qed

lemma Partitioning_min:
  assumes "set xs \<subseteq> S" "p \<le> e" "e < length xs"
  shows "\<exists>ys. XArray_Partitioning cmp (length xs) (cells xs rest) (int p) (int e) = Some (cells ys rest, int p) \<and>
    mset ys = mset xs \<and> (\<forall>j. p < j \<longrightarrow> j \<le> e \<longrightarrow> c (ys ! p) (ys ! j) \<le> 0) \<and>
    (\<forall>j < length xs. j < p \<or> e < j \<longrightarrow> ys ! j = xs ! j)"
  unfolding XArray_Partitioning_def by (rule part_loop_min [OF assms(1,2) order_refl assms(3)]) auto

text \<open>Every partitioning puts a least entry first, so the recursion on the left part is trivial.\<close>

lemma QuickSort_sorts:
  assumes "set xs \<subseteq> S" "p \<le> e" "e < length xs"
  shows "\<exists>ys. XArray_QuickSort cmp (length xs) (cells xs rest) (int p) (int e) = Some (cells ys rest) \<and>
    mset ys = mset xs \<and> (\<forall>i j. p \<le> i \<longrightarrow> i < j \<longrightarrow> j \<le> e \<longrightarrow> c (ys ! i) (ys ! j) \<le> 0) \<and>
    (\<forall>j < length xs. j < p \<or> e < j \<longrightarrow> ys ! j = xs ! j)"
  using assms
proof (induction "e - p" arbitrary: xs p)
  case 0
  then show ?case by (subst XArray_QuickSort.simps) auto
next
  case (Suc n)
  then have pe: "p < e" by simp
  from Partitioning_min [OF Suc.prems] obtain ys where
    y: "XArray_Partitioning cmp (length xs) (cells xs rest) (int p) (int e) = Some (cells ys rest, int p)"
    "mset ys = mset xs" "\<forall>j. p < j \<longrightarrow> j \<le> e \<longrightarrow> c (ys ! p) (ys ! j) \<le> 0"
    "\<forall>j < length xs. j < p \<or> e < j \<longrightarrow> ys ! j = xs ! j" by blast
  have ly: "length ys = length xs" using y(2) by (metis size_mset)
  have sy: "set ys \<subseteq> S" using y(2) Suc.prems(1) by (metis mset_eq_setD)
  have left: "XArray_QuickSort cmp (length xs) (cells ys rest) (int p) (int p) = Some (cells ys rest)"
    by (subst XArray_QuickSort.simps) simp
  have "n = e - Suc p" "Suc p \<le> e" "e < length ys" using Suc.hyps(2) Suc.prems pe ly by auto
  from Suc.hyps(1) [OF this(1) sy this(2,3)] obtain zs where
    z: "XArray_QuickSort cmp (length xs) (cells ys rest) (int (Suc p)) (int e) = Some (cells zs rest)"
    "mset zs = mset ys" "\<forall>i j. Suc p \<le> i \<longrightarrow> i < j \<longrightarrow> j \<le> e \<longrightarrow> c (zs ! i) (zs ! j) \<le> 0"
    "\<forall>j < length xs. j < Suc p \<or> e < j \<longrightarrow> zs ! j = ys ! j" unfolding ly by blast
  have ev: "XArray_QuickSort cmp (length xs) (cells xs rest) (int p) (int e) = Some (cells zs rest)"
    using pe y(1) left z(1) by (subst XArray_QuickSort.simps) (simp add: add.commute)
  have "c (zs ! i) (zs ! j) \<le> 0" if ij: "p \<le> i" "i < j" "j \<le> e" for i j
  proof (cases "i = p")
    case True
    from segment_perm [OF z(2), of "Suc p" e j] z(4) ij Suc.prems True ly obtain k where
      "Suc p \<le> k" "k \<le> e" "zs ! j = ys ! k" by auto
    then show ?thesis using True y(3) z(4) Suc.prems by auto
  next
    case False
    then show ?thesis using z(3) ij by auto
  qed
  then show ?case using ev y z by (intro exI [of _ zs]) auto
qed

lemma sort_correct:
  assumes "set xs \<subseteq> S" "xs \<noteq> []"
  shows "\<exists>ys. XArray_QuickSort cmp (length xs) (cells xs rest) 0 (int (length xs) - 1) = Some (cells ys rest) \<and>
    mset ys = mset xs \<and> sorted_wrt (\<lambda>x y. c x y \<le> 0) ys"
proof -
  have l: "0 < length xs" using assms(2) by simp
  then have "(0::nat) \<le> length xs - 1" "length xs - 1 < length xs" "int (length xs - 1) = int (length xs) - 1" by linarith+
  from QuickSort_sorts [OF assms(1) this(1,2), of rest] this(3) obtain ys where
    y: "XArray_QuickSort cmp (length xs) (cells xs rest) 0 (int (length xs) - 1) = Some (cells ys rest)"
    "mset ys = mset xs" "\<forall>i j. 0 \<le> i \<longrightarrow> i < j \<longrightarrow> j \<le> length xs - 1 \<longrightarrow> c (ys ! i) (ys ! j) \<le> 0" by auto
  have "length ys = length xs" using y(2) by (metis size_mset)
  then have "sorted_wrt (\<lambda>x y. c x y \<le> 0) ys" using y(3) by (auto simp: sorted_wrt_iff_nth_less)
  with y show ?thesis by blast
qed

end

lemma key_diff:
  assumes "unat (x :: u32) < 2147483648" "unat (y :: u32) < 2147483648"
  shows "- 2147483648 \<le> uint x - uint y" "uint x - uint y < 2147483648"
proof -
  have "int (unat x) < int 2147483648" "int (unat y) < int 2147483648"
    using assms by (simp_all only: of_nat_less_iff)
  then have "uint x < 2147483648" "uint y < 2147483648" by simp_all
  moreover have "0 \<le> uint x" "0 \<le> uint y" by (rule unsigned_greater_eq)+
  ultimately show "- 2147483648 \<le> uint x - uint y" "uint x - uint y < 2147483648" by linarith+
qed

interpretation by_key: comparator XArray_CompareKey "{x. unat (ad_nKey x) < 2 ^ 31}"
  "\<lambda>x y. int (unat (ad_nKey x)) - int (unat (ad_nKey y))"
  by unfold_locales (auto simp: XArray_CompareKey_def int_sub_def key_diff)

interpretation by_size: comparator XArray_CompareSize "{x. ad_nSize x < 2 ^ 31}"
  "\<lambda>x y. int (ad_nSize x) - int (ad_nSize y)"
  by unfold_locales (auto simp: XArray_CompareSize_def int_sub_def)

section \<open>The searches\<close>

text \<open>\<open>found xs k r\<close>: the result \<open>r\<close> is an index with key \<open>k\<close>, or \<open>-1\<close> when there is none.\<close>

definition found :: "'d xarray_data list \<Rightarrow> u32 \<Rightarrow> int \<Rightarrow> bool" where
  "found xs k r \<longleftrightarrow> (r = XARRAY_FAILURE \<and> (\<forall>x \<in> set xs. ad_nKey x \<noteq> k)) \<or>
     (\<exists>j < length xs. r = int j \<and> ad_nKey (xs ! j) = k)"

lemma foundI: "j < length xs \<Longrightarrow> ad_nKey (xs ! j) = k \<Longrightarrow> found xs k (int j)"
  by (auto simp: found_def)

lemma not_foundI: "(\<And>j. j < length xs \<Longrightarrow> ad_nKey (xs ! j) \<noteq> k) \<Longrightarrow> found xs k XARRAY_FAILURE"
  unfolding found_def by (metis in_set_conv_nth)

lemma key_at_cells [simp]: "j < length xs \<Longrightarrow> key_at (cells xs rest) (int j) = Some (ad_nKey (xs ! j))"
  by (simp add: key_at_def ipeek_cells)

lemma linear_loop_found:
  "length xs < 2 ^ 31 \<Longrightarrow> i \<le> length xs \<Longrightarrow> \<forall>j < i. ad_nKey (xs ! j) \<noteq> k \<Longrightarrow>
   \<exists>r. linear_loop (cells xs rest) k i (length xs) = Some r \<and> found xs k r"
proof (induction "length xs - i" arbitrary: i)
  case 0
  then show ?case by (subst linear_loop.simps) (auto intro: not_foundI)
next
  case (Suc n)
  then have i: "i < length xs" by simp
  show ?case
  proof (cases "k = ad_nKey (xs ! i)")
    case True
    then show ?thesis using i Suc.prems(1) by (subst linear_loop.simps) (auto intro: foundI)
  next
    case False
    then have "\<exists>r. linear_loop (cells xs rest) k (i + 1) (length xs) = Some r \<and> found xs k r"
      using Suc.hyps(2) Suc.prems i by (intro Suc.hyps(1)) (auto simp: less_Suc_eq)
    then show ?thesis using i False by (subst linear_loop.simps) simp
  qed
qed

lemma sentinel_loop_first:
  assumes "n < length d" "key_at d (int n) = Some k" "i \<le> n" "\<And>j. j < n \<Longrightarrow> \<exists>x. key_at d (int j) = Some x"
  shows "\<exists>m. i \<le> m \<and> m \<le> n \<and> sentinel_loop d k (int i) = Some (int m) \<and> key_at d (int m) = Some k \<and>
    (\<forall>j. i \<le> j \<longrightarrow> j < m \<longrightarrow> key_at d (int j) \<noteq> Some k)"
  using assms(3)
proof (induction "n - i" arbitrary: i)
  case 0
  then have "i = n" by simp
  then show ?case using assms(2) by (subst sentinel_loop.simps) auto
next
  case (Suc l)
  then have i: "i < n" by simp
  obtain x where x: "key_at d (int i) = Some x" using assms(4) [OF i] by blast
  show ?case
  proof (cases "x = k")
    case True
    then show ?thesis using x i by (subst sentinel_loop.simps) auto
  next
    case False
    have "l = n - Suc i" "Suc i \<le> n" using Suc.hyps(2) i by auto
    from Suc.hyps(1) [OF this] obtain m where m: "Suc i \<le> m" "m \<le> n" "sentinel_loop d k (int (Suc i)) = Some (int m)"
      "key_at d (int m) = Some k" "\<forall>j. Suc i \<le> j \<longrightarrow> j < m \<longrightarrow> key_at d (int j) \<noteq> Some k" by blast
    have "key_at d (int j) \<noteq> Some k" if "i \<le> j" "j < m" for j
      using that m(5) x False by (cases "j = i") auto
    moreover have "sentinel_loop d k (int i) = Some (int m)"
      using m(3) x False by (subst sentinel_loop.simps) (simp add: add.commute)
    ultimately show ?thesis using m by (intro exI [of _ m]) auto
  qed
qed

lemma double_loop_found:
  "0 \<le> f \<Longrightarrow> b < int (length xs) \<Longrightarrow> \<forall>j < length xs. int j < f \<or> b < int j \<longrightarrow> ad_nKey (xs ! j) \<noteq> k \<Longrightarrow>
   \<exists>r. double_loop (cells xs rest) k f b = Some r \<and> found xs k r"
proof (induction "nat (b - f + 1)" arbitrary: f b rule: less_induct)
  case less
  show ?case
  proof (cases "f \<le> b")
    case False
    then have "\<And>j. j < length xs \<Longrightarrow> ad_nKey (xs ! j) \<noteq> k" using less.prems(3) by force
    then show ?thesis using False by (subst double_loop.simps) (auto intro: not_foundI)
  next
    case True
    define i j where "i = nat f" and "j = nat b"
    have ij: "f = int i" "b = int j" "i \<le> j" "j < length xs" using True less.prems by (auto simp: i_def j_def)
    have il: "i < length xs" using ij by simp
    have ev: "double_loop (cells xs rest) k f b =
       (if k = ad_nKey (xs ! i) then Some f else if k = ad_nKey (xs ! j) then Some b
        else double_loop (cells xs rest) k (f + 1) (b - 1))"
      using True ij il by (subst double_loop.simps) simp
    show ?thesis
    proof (cases "ad_nKey (xs ! i) = k \<or> ad_nKey (xs ! j) = k")
      case True
      then show ?thesis using foundI [of i xs k] foundI [of j xs k] ij il unfolding ev by auto
    next
      case False
      have "\<forall>m < length xs. int m < f + 1 \<or> b - 1 < int m \<longrightarrow> ad_nKey (xs ! m) \<noteq> k"
      proof (intro allI impI)
        fix m assume m: "m < length xs" "int m < f + 1 \<or> b - 1 < int m"
        then have "m = i \<or> m = j \<or> int m < f \<or> b < int m" using ij by linarith
        then show "ad_nKey (xs ! m) \<noteq> k" using False less.prems(3) m(1) by blast
      qed
      then have "\<exists>r. double_loop (cells xs rest) k (f + 1) (b - 1) = Some r \<and> found xs k r"
        using less.prems \<open>f \<le> b\<close> by (intro less.hyps) auto
      then show ?thesis using False unfolding ev by auto
    qed
  qed
qed

lemma binary_loop_found:
  assumes "sorted (map ad_nKey xs)"
  shows "0 \<le> l \<Longrightarrow> r < int (length xs) \<Longrightarrow> \<forall>j < length xs. int j < l \<longrightarrow> ad_nKey (xs ! j) < k \<Longrightarrow>
    \<forall>j < length xs. r < int j \<longrightarrow> k < ad_nKey (xs ! j) \<Longrightarrow>
    \<exists>m. binary_loop (cells xs rest) k l r = Some m \<and> found xs k m"
proof (induction "nat (r - l + 1)" arbitrary: l r rule: less_induct)
  case less
  show ?case
  proof (cases "l \<le> r")
    case False
    have "ad_nKey (xs ! j) \<noteq> k" if "j < length xs" for j
    proof (cases "int j < l")
      case True
      then show ?thesis using less.prems(3) that by blast
    next
      case False
      then have "r < int j" using \<open>\<not> l \<le> r\<close> by simp
      then show ?thesis using less.prems(4) that by blast
    qed
    then show ?thesis using False by (subst binary_loop.simps) (auto intro: not_foundI)
  next
    case True
    define m where "m = l + (r - l) div 2"
    have m: "l \<le> m" "m \<le> r" using True by (auto simp: m_def)
    define i where "i = nat m"
    have i: "m = int i" "i < length xs" using m less.prems by (auto simp: i_def)
    have mono: "ad_nKey (xs ! a) \<le> ad_nKey (xs ! b)" if "a \<le> b" "b < length xs" for a b
      using assms that by (auto simp: sorted_iff_nth_mono)
    have ev: "binary_loop (cells xs rest) k l r =
       (if ad_nKey (xs ! i) < k then binary_loop (cells xs rest) k (m + 1) r
        else if ad_nKey (xs ! i) = k then Some m else binary_loop (cells xs rest) k l (m - 1))"
      using True i by (subst binary_loop.simps) (simp add: m_def [symmetric] Let_def)
    consider "ad_nKey (xs ! i) < k" | "ad_nKey (xs ! i) = k" | "k < ad_nKey (xs ! i)" by (rule linorder_cases)
    then show ?thesis
    proof cases
      case 1
      have "\<forall>j < length xs. int j < m + 1 \<longrightarrow> ad_nKey (xs ! j) < k"
        using 1 mono [OF _ i(2)] i(1) by (auto intro: le_less_trans)
      then have "\<exists>r'. binary_loop (cells xs rest) k (m + 1) r = Some r' \<and> found xs k r'"
        using less.prems m by (intro less.hyps) auto
      then show ?thesis using ev 1 by simp
    next
      case 2
      then show ?thesis using ev i foundI by auto
    next
      case 3
      have "\<forall>j < length xs. m - 1 < int j \<longrightarrow> k < ad_nKey (xs ! j)"
        using 3 mono [of i] i(1) by (auto intro: less_le_trans)
      then have "\<exists>r'. binary_loop (cells xs rest) k l (m - 1) = Some r' \<and> found xs k r'"
        using less.prems m by (intro less.hyps) auto
      moreover have "\<not> ad_nKey (xs ! i) < k" "ad_nKey (xs ! i) \<noteq> k" using 3 by auto
      ultimately show ?thesis using ev by simp
    qed
  qed
qed

lemma ar_store_same: "ar_pData a = Some d \<Longrightarrow> a\<lparr>ar_pData := Some d\<rparr> = a"
  by (cases a) simp

text \<open>The sentinel search puts the last entry back before it returns.\<close>

lemma sentinel_search_found:
  assumes "ar_rep a (map Some xs)" "xs \<noteq> []"
  shows "\<exists>r. XArray_SentinelSearch a k = Some (a, r) \<and> found xs k r"
proof -
  define n where "n = length xs - 1"
  obtain rest where d: "ar_pData a = Some (cells xs rest)" and u: "ar_nUsed a = length xs" "length xs < 2 ^ 29"
    using assms by (auto simp: ar_rep_def split: option.splits)
  have n: "n < length xs" "length xs = Suc n" using assms(2) by (auto simp: n_def)
  let ?t = "\<lparr>ad_pData = None, ad_nSize = 0, ad_nKey = k\<rparr>"
  let ?d = "cells (xs[n := ?t]) rest"
  have last: "ipeek (cells xs rest) (int n) = Some (Some (xs ! n))" by (rule ipeek_cells [OF n(1)])
  have put: "poke (cells xs rest) n (Some ?t) = Some ?d"
    using n by (simp add: poke_def list_update_append1 map_update)
  have back_: "poke ?d n (Some (xs ! n)) = Some (cells xs rest)"
    using n by (simp add: poke_def list_update_append1 flip: map_update)
  show ?thesis
  proof (cases "ad_nKey (xs ! n) = k")
    case True
    then show ?thesis
      using d u last n foundI [OF n(1) True]
      by (intro exI [of _ "int n"]) (simp add: XArray_SentinelSearch_def)
  next
    case False
    have key: "key_at ?d (int j) = Some (if j = n then k else ad_nKey (xs ! j))" if "j \<le> n" for j
      using key_at_cells [of j "xs[n := ?t]" rest] that n by (auto simp: nth_list_update)
    obtain m where m: "m \<le> n" "sentinel_loop ?d k 0 = Some (int m)" "key_at ?d (int m) = Some k"
      "\<forall>j. 0 \<le> j \<longrightarrow> j < m \<longrightarrow> key_at ?d (int j) \<noteq> Some k"
      using sentinel_loop_first [of n ?d k 0] n key by auto
    have ev: "XArray_SentinelSearch a k = Some (a, if m < n then int m else XARRAY_FAILURE)"
      using d u last n False put back_ m(2) ar_store_same [OF d] by (simp add: XArray_SentinelSearch_def)
    have "found xs k (if m < n then int m else XARRAY_FAILURE)"
    proof (cases "m < n")
      case True
      then show ?thesis using foundI [of m xs k] key [of m] m(3) n by simp
    next
      case f: False
      have "ad_nKey (xs ! j) \<noteq> k" if "j < length xs" for j
        using that f False m(1,4) key [of j] n by (cases "j = n") auto
      then show ?thesis using f by (auto intro: not_foundI)
    qed
    then show ?thesis using ev by blast
  qed
qed

section \<open>Bubble sort\<close>

text \<open>
  Bubble sort swaps whenever the comparator's answer is not zero. \<open>bool_comparator\<close> is what it
  needs: an answer of zero exactly when the pair is in order.
\<close>

locale bool_comparator =
  fixes cmp :: "'e compare" and S :: "'e set" and R :: "'e \<Rightarrow> 'e \<Rightarrow> bool"
  assumes answer: "x \<in> S \<Longrightarrow> y \<in> S \<Longrightarrow> \<exists>z. cmp (Some x) (Some y) = Some z \<and> (z = 0 \<longleftrightarrow> R x y)"
    and rel_total: "x \<in> S \<Longrightarrow> y \<in> S \<Longrightarrow> R x y \<or> R y x"
    and rel_trans: "x \<in> S \<Longrightarrow> y \<in> S \<Longrightarrow> z \<in> S \<Longrightarrow> R x y \<Longrightarrow> R y z \<Longrightarrow> R x z"
begin

lemma inner_round:
  assumes "set xs \<subseteq> S" "j < n" "n < length xs"
  shows "bubble_inner cmp (cells xs rest) j n =
    bubble_inner cmp (cells (if R (xs ! j) (xs ! Suc j) then xs else sw xs j (Suc j)) rest) (Suc j) n"
proof -
  have "xs ! j \<in> S" "xs ! Suc j \<in> S" using assms by auto
  then obtain z where "cmp (Some (xs ! j)) (Some (xs ! Suc j)) = Some z" "z = 0 \<longleftrightarrow> R (xs ! j) (xs ! Suc j)"
    using answer by blast
  then show ?thesis
    using assms by (subst bubble_inner.simps)
      (simp add: peek_def poke_def nth_append list_update_append1 map_update sw_def)
qed

text \<open>A pass from \<open>j\<close> carries a greatest entry to position \<open>n\<close>.\<close>

lemma inner_max:
  assumes "set xs \<subseteq> S" "j \<le> n" "n < length xs" "\<forall>i < j. R (xs ! i) (xs ! j)"
  shows "\<exists>ys. bubble_inner cmp (cells xs rest) j n = Some (cells ys rest) \<and> mset ys = mset xs \<and>
    (\<forall>i < n. R (ys ! i) (ys ! n)) \<and> (\<forall>i. n < i \<longrightarrow> i < length xs \<longrightarrow> ys ! i = xs ! i)"
  using assms
proof (induction "n - j" arbitrary: j xs)
  case 0
  then show ?case by (subst bubble_inner.simps) auto
next
  case (Suc k)
  then have j: "j < n" by simp
  let ?xs = "if R (xs ! j) (xs ! Suc j) then xs else sw xs j (Suc j)"
  have mem: "xs ! i \<in> S" if "i < length xs" for i using Suc.prems(1) that by auto
  have jl: "j < length xs" "Suc j < length xs" using j Suc.prems by auto
  have "\<forall>i < Suc j. R (?xs ! i) (?xs ! Suc j)"
  proof (cases "R (xs ! j) (xs ! Suc j)")
    case True
    have "R (xs ! i) (xs ! Suc j)" if "i < Suc j" for i
    proof (cases "i = j")
      case False
      then have "R (xs ! i) (xs ! j)" using that Suc.prems(4) by simp
      moreover have "xs ! i \<in> S" "xs ! j \<in> S" "xs ! Suc j \<in> S" using mem that jl by auto
      ultimately show ?thesis using True rel_trans by blast
    qed (use True in simp)
    then show ?thesis using True by simp
  next
    case False
    then have "R (xs ! Suc j) (xs ! j)" using rel_total mem jl by blast
    then show ?thesis using False Suc.prems(4) jl by (auto simp: sw_nth less_Suc_eq)
  qed
  moreover have "set ?xs \<subseteq> S" "n < length ?xs" using Suc.prems jl by auto
  moreover have "k = n - Suc j" "Suc j \<le> n" using Suc.hyps(2) j by auto
  ultimately obtain ys where y: "bubble_inner cmp (cells ?xs rest) (Suc j) n = Some (cells ys rest)" "mset ys = mset ?xs"
    "\<forall>i < n. R (ys ! i) (ys ! n)" "\<forall>i. n < i \<longrightarrow> i < length ?xs \<longrightarrow> ys ! i = ?xs ! i"
    using Suc.hyps(1) [of "Suc j" ?xs] by blast
  have "mset ?xs = mset xs" using jl by simp
  moreover have "?xs ! i = xs ! i" if "n < i" "i < length xs" for i using that j jl by (simp add: sw_nth)
  ultimately show ?case
    using y inner_round [OF Suc.prems(1) j Suc.prems(3)] by (intro exI [of _ ys]) auto
qed

lemma outer_sorts:
  assumes "set xs \<subseteq> S" "xs \<noteq> []" "i \<le> length xs - 1"
    "\<forall>a b. a < b \<longrightarrow> b < length xs \<longrightarrow> length xs - i \<le> b \<longrightarrow> R (xs ! a) (xs ! b)"
  shows "\<exists>ys. bubble_outer cmp (length xs) (cells xs rest) i = Some (cells ys rest) \<and> mset ys = mset xs \<and> sorted_wrt R ys"
  using assms
proof (induction "length xs - 1 - i" arbitrary: i xs)
  case 0
  then have "i = length xs - 1" by simp
  with 0 have "sorted_wrt R xs" by (auto simp: sorted_wrt_iff_nth_less)
  then show ?case using 0 by (subst bubble_outer.simps) auto
next
  case (Suc k)
  let ?n = "length xs - i - 1"
  have i: "i < length xs - 1" using Suc.hyps(2) by simp
  then have n: "0 \<le> ?n" "?n < length xs" by auto
  from inner_max [OF Suc.prems(1) n, of rest] obtain ys where
    y: "bubble_inner cmp (cells xs rest) 0 ?n = Some (cells ys rest)" "mset ys = mset xs"
    "\<forall>j < ?n. R (ys ! j) (ys ! ?n)" "\<forall>j. ?n < j \<longrightarrow> j < length xs \<longrightarrow> ys ! j = xs ! j" by auto
  have ly: "length ys = length xs" using y(2) by (metis size_mset)
  have sy: "set ys \<subseteq> S" using y(2) Suc.prems(1) by (metis mset_eq_setD)
  have "R (ys ! a) (ys ! b)" if ab: "a < b" "b < length ys" "length ys - Suc i \<le> b" for a b
  proof (cases "b = ?n")
    case True
    then show ?thesis using y(3) ab by simp
  next
    case False
    then have b: "?n < b" "length xs - i \<le> b" using ab ly by auto
    show ?thesis
    proof (cases "?n < a")
      case True
      then show ?thesis using Suc.prems(4) y(4) ab b ly by simp
    next
      case False
      then have "\<exists>l. 0 \<le> l \<and> l \<le> ?n \<and> ys ! a = xs ! l"
        using y(4) n by (intro segment_perm [OF y(2)]) auto
      then obtain l where "l \<le> ?n" "ys ! a = xs ! l" by blast
      then show ?thesis using Suc.prems(4) y(4) ab b ly by auto
    qed
  qed
  moreover have "k = length ys - 1 - Suc i" "ys \<noteq> []" "Suc i \<le> length ys - 1" using Suc.hyps(2) Suc.prems ly i by auto
  ultimately obtain zs where "bubble_outer cmp (length ys) (cells ys rest) (Suc i) = Some (cells zs rest)"
    "mset zs = mset ys" "sorted_wrt R zs" using Suc.hyps(1) [of ys "Suc i"] sy by blast
  then show ?case using y(1,2) i ly by (subst bubble_outer.simps) auto
qed

end

text \<open>The comparator ``greater than'' on keys is one.\<close>

definition key_greater :: "'d xarray_data compare" where
  "key_greater p q = do { x \<leftarrow> p; y \<leftarrow> q; Some (if ad_nKey y < ad_nKey x then 1 else 0) }"

interpretation greater: bool_comparator key_greater UNIV "\<lambda>x y. ad_nKey x \<le> ad_nKey y"
  by unfold_locales (auto simp: key_greater_def)

section \<open>Properties\<close>

lemma rep_cells:
  assumes "ar_rep a (map Some xs)" "xs \<noteq> []"
  shows "ar_pData a = Some (cells xs (replicate (ar_nSize a - ar_nUsed a) None))" "ar_nUsed a = length xs"
    "length xs < 2 ^ 29"
  using assms by (auto simp: ar_rep_def split: option.splits)

lemma rep_store:
  assumes "ar_rep a (map Some xs)" "xs \<noteq> []" "length ys = length xs"
  shows "ar_rep (a\<lparr>ar_pData := Some (cells ys (replicate (ar_nSize a - ar_nUsed a) None))\<rparr>) (map Some ys)"
  using assms by (auto simp: ar_rep_def split: option.splits)

lemma sort_array:
  assumes "comparator cmp S c" and "ar_rep a (map Some xs)" and "set xs \<subseteq> S"
  shows "\<exists>a' ys. XArray_Sort cmp a = Some a' \<and> ar_rep a' (map Some ys) \<and> mset ys = mset xs \<and>
    sorted_wrt (\<lambda>x y. c x y \<le> 0) ys"
proof (cases "xs = []")
  case True
  then show ?thesis using assms(2) by (intro exI [of _ a] exI [of _ "[]"]) (simp add: XArray_Sort_def ar_rep_def)
next
  case False
  note r = rep_cells [OF assms(2) False]
  from comparator.sort_correct [OF assms(1,3) False] obtain ys where
    y: "XArray_QuickSort cmp (length xs) (cells xs (replicate (ar_nSize a - ar_nUsed a) None)) 0 (int (length xs) - 1) =
      Some (cells ys (replicate (ar_nSize a - ar_nUsed a) None))" "mset ys = mset xs" "sorted_wrt (\<lambda>x y. c x y \<le> 0) ys"
    by blast
  have "length ys = length xs" using y(2) by (metis size_mset)
  from rep_store [OF assms(2) False this] show ?thesis
    using y r False by (auto simp: XArray_Sort_def)
qed

lemma binary_search_found:
  assumes "ar_rep a (map Some xs)" "sorted (map ad_nKey xs)"
  shows "\<exists>r. XArray_BinarySearch a k = Some r \<and> found xs k r"
proof (cases "xs = []")
  case True
  then have "ar_nUsed a = 0" using assms(1) by (simp add: ar_rep_def)
  then show ?thesis using True by (auto simp: XArray_BinarySearch_def found_def)
next
  case False
  define rest where "rest = replicate (ar_nSize a - ar_nUsed a) (None :: 'a xarray_data option)"
  note r = rep_cells [OF assms(1) False, folded rest_def]
  have l: "0 < length xs" using False by simp
  have z: "key_at (cells xs rest) 0 = Some (ad_nKey (xs ! 0))" using key_at_cells [OF l, of rest] by simp
  show ?thesis
    using binary_loop_found [OF assms(2), of 0 "int (length xs) - 1" k rest] r False z foundI [OF l, of k]
    by (auto simp: XArray_BinarySearch_def)
qed

lemma big_keys_missed:
  "\<exists>a'. XArray_SortBy (ar_example [0xFFFFFFFF, 1] 2) 0 = Some a' \<and>
      XArray_BinarySearch a' 1 = Some XARRAY_FAILURE \<and> XArray_LinearSearch a' 1 = Some 1"
proof -
  let ?c = "\<lambda>k. Some \<lparr>ad_pData = None :: nat option, ad_nSize = 0, ad_nKey = k\<rparr>"
  have pt: "XArray_Partitioning XArray_CompareKey (Suc (Suc 0)) [?c 0xFFFFFFFF, ?c 1] 0 1 = Some ([?c 0xFFFFFFFF, ?c 1], 0)"
    unfolding XArray_Partitioning_def
    by (subst part_loop.simps)
       (simp add: scan_up.simps scan_down.simps ipeek_def peek_def XArray_CompareKey_def int_sub_def to_int_def)
  have "XArray_QuickSort XArray_CompareKey (Suc (Suc 0)) [?c 0xFFFFFFFF, ?c 1] 0 1 = Some [?c 0xFFFFFFFF, ?c 1]"
    by (subst XArray_QuickSort.simps) (simp add: pt XArray_QuickSort.simps)
  then have "XArray_SortBy (ar_example [0xFFFFFFFF, 1] 2) 0 = Some (ar_example [0xFFFFFFFF, 1] 2)"
    by (simp add: XArray_SortBy_def XArray_Sort_def ar_example_def)
  then show ?thesis
    by (simp add: XArray_BinarySearch_def XArray_LinearSearch_def ar_example_def binary_loop.simps linear_loop.simps
        key_at_def ipeek_def peek_def)
qed

text \<open>
  C17: Sorting an array of non-NULL entries with any comparator that is a total preorder on them
  returns (the recursion and its loops end), stays inside the table, and leaves a permutation of the
  entries in ascending order.
\<close>

theorem array_sort:
  assumes "comparator cmp S c" and "ar_rep a (map Some xs)" and "set xs \<subseteq> S"
  shows "\<exists>a' ys. XArray_Sort cmp a = Some a' \<and> ar_rep a' (map Some ys) \<and> mset ys = mset xs \<and>
    sorted_wrt (\<lambda>x y. c x y \<le> 0) ys"
  by (rule sort_array [OF assms])

theorem array_sort_witness:
  "\<exists>a' ys. XArray_Sort XArray_CompareKey (ar_example [5, 3, 9] 4) = Some a' \<and> ar_rep a' (map Some ys) \<and>
     mset ys = {#\<lparr>ad_pData = None, ad_nSize = 0, ad_nKey = 5\<rparr>, \<lparr>ad_pData = None, ad_nSize = 0, ad_nKey = 3\<rparr>,
       \<lparr>ad_pData = None, ad_nSize = 0, ad_nKey = 9\<rparr>#}"
  using array_sort [OF by_key.comparator_axioms,
      of "ar_example [5, 3, 9] 4" "map (\<lambda>k. \<lparr>ad_pData = None, ad_nSize = 0, ad_nKey = k\<rparr>) [5, 3, 9]"]
    ar_example_rep [of "[5, 3, 9]" 4]
  by auto

text \<open>
  C18: On an array of non-NULL entries the linear and the two-ended search return an index holding
  the key, or -1 exactly when no entry has it; so does the sentinel search, which leaves the array as
  it was; so does the binary search when the keys are in ascending unsigned order.
\<close>

theorem array_search:
  assumes "ar_rep a (map Some xs)"
  shows "(\<exists>r. XArray_LinearSearch a k = Some r \<and> found xs k r) \<and>
    (\<exists>r. XArray_DoubleSearch a k = Some r \<and> found xs k r) \<and>
    (\<exists>r. XArray_SentinelSearch a k = Some (a, r) \<and> found xs k r) \<and>
    (sorted (map ad_nKey xs) \<longrightarrow> (\<exists>r. XArray_BinarySearch a k = Some r \<and> found xs k r))"
proof (cases "xs = []")
  case True
  then have "ar_nUsed a = 0" using assms by (simp add: ar_rep_def)
  then show ?thesis
    using True by (auto simp: XArray_LinearSearch_def XArray_DoubleSearch_def XArray_SentinelSearch_def
        XArray_BinarySearch_def found_def)
next
  case False
  define rest where "rest = replicate (ar_nSize a - ar_nUsed a) (None :: 'a xarray_data option)"
  note r = rep_cells [OF assms False, folded rest_def]
  have lin: "\<exists>r. XArray_LinearSearch a k = Some r \<and> found xs k r"
    using linear_loop_found [of xs 0 k rest] r False by (simp add: XArray_LinearSearch_def)
  have dbl: "\<exists>r. XArray_DoubleSearch a k = Some r \<and> found xs k r"
    using double_loop_found [of 0 "int (length xs) - 1" xs k rest] r False by (simp add: XArray_DoubleSearch_def)
  have "\<exists>r. XArray_SentinelSearch a k = Some (a, r) \<and> found xs k r"
    using sentinel_search_found [OF assms False] by blast
  with lin dbl show ?thesis using binary_search_found [OF assms] by blast
qed

theorem array_search_witness:
  "\<exists>r s. XArray_BinarySearch (ar_example [3, 5, 9] 4) 5 = Some r \<and> XArray_SentinelSearch (ar_example [3, 5, 9] 4) 5 =
     Some (ar_example [3, 5, 9] 4, s)"
proof -
  have "ar_rep (ar_example [3, 5, 9] 4) (map Some (map (\<lambda>k. \<lparr>ad_pData = None, ad_nSize = 0, ad_nKey = k\<rparr>) [3, 5, 9]))"
    using ar_example_rep [of "[3, 5, 9]" 4] by simp
  from array_search [OF this, of 5] show ?thesis by (simp add: comp_def) blast
qed

text \<open>
  Sorting an array by key and then searching it by bisection finds every key below \<open>2 ^ 31\<close>;
  but with larger keys, which the comparator reads as negative numbers and the search as large ones,
  a key that is there can be missed.
\<close>

theorem sort_then_bisect:
  "(\<forall>a xs k. ar_rep a (map Some xs) \<longrightarrow> (\<forall>x \<in> set xs. unat (ad_nKey x) < 2 ^ 31) \<longrightarrow>
      (\<exists>a' r ys. XArray_SortBy a 0 = Some a' \<and> mset ys = mset xs \<and> ar_rep a' (map Some ys) \<and>
         XArray_BinarySearch a' k = Some r \<and> found ys k r)) \<and>
   (\<exists>a'. XArray_SortBy (ar_example [0xFFFFFFFF, 1] 2) 0 = Some a' \<and>
      XArray_BinarySearch a' 1 = Some XARRAY_FAILURE \<and> XArray_LinearSearch a' 1 = Some 1)"
proof (intro conjI allI impI)
  fix a :: "'a xarray" and xs k
  assume a: "ar_rep a (map Some xs)" "\<forall>x \<in> set xs. unat (ad_nKey x) < 2 ^ 31"
  from sort_array [OF by_key.comparator_axioms a(1)] a(2) obtain a' ys where
    s: "XArray_Sort XArray_CompareKey a = Some a'" "ar_rep a' (map Some ys)" "mset ys = mset xs"
    "sorted_wrt (\<lambda>x y. int (unat (ad_nKey x)) - int (unat (ad_nKey y)) \<le> 0) ys" by fastforce
  have "sorted_wrt (\<lambda>x y. ad_nKey x \<le> ad_nKey y) ys"
    using s(4) by (rule sorted_wrt_mono_rel [rotated]) (simp add: word_le_def)
  then have "sorted (map ad_nKey ys)" by (simp add: sorted_map)
  from binary_search_found [OF s(2) this, of k] s
  show "\<exists>a' r ys. XArray_SortBy a 0 = Some a' \<and> mset ys = mset xs \<and> ar_rep a' (map Some ys) \<and>
     XArray_BinarySearch a' k = Some r \<and> found ys k r" by (auto simp: XArray_SortBy_def)
next
  show "\<exists>a'. XArray_SortBy (ar_example [0xFFFFFFFF, 1] 2) 0 = Some a' \<and>
      XArray_BinarySearch a' 1 = Some XARRAY_FAILURE \<and> XArray_LinearSearch a' 1 = Some 1"
    using big_keys_missed by blast
qed

theorem sort_then_bisect_witness:
  "\<exists>a' r ys. XArray_SortBy (ar_example [5, 3] 4) 0 = Some a' \<and> ar_rep a' (map Some ys) \<and>
     XArray_BinarySearch a' 3 = Some r \<and> found ys 3 r"
proof -
  have "ar_rep (ar_example [5, 3] 4) (map Some (map (\<lambda>k. \<lparr>ad_pData = None, ad_nSize = 0, ad_nKey = k\<rparr>) [5, 3]))"
    using ar_example_rep [of "[5, 3]" 4] by simp
  then show ?thesis using sort_then_bisect by fastforce
qed

text \<open>
  Bubble sort returns and sorts when the comparator answers zero exactly for pairs in order;
  with a three-way comparator, such as the library's own on keys, it swaps pairs in order too and can
  leave a sorted array unsorted.
\<close>

theorem bubble_sort:
  "(\<forall>cmp S R a xs. bool_comparator cmp S R \<longrightarrow> ar_rep a (map Some xs) \<longrightarrow> set xs \<subseteq> S \<longrightarrow>
      (\<exists>a' ys. XArray_BubbleSort cmp a = Some a' \<and> ar_rep a' (map Some ys) \<and> mset ys = mset xs \<and> sorted_wrt R ys)) \<and>
   (\<exists>a'. XArray_BubbleSort XArray_CompareKey (ar_example [1, 2] 2) = Some a' \<and> XArray_GetKey a' 0 = Some 2 \<and>
      XArray_GetKey a' 1 = Some 1)"
proof (intro conjI allI impI)
  fix cmp :: "'a xarray_data compare" and S R a xs
  assume b: "bool_comparator cmp S R" and a: "ar_rep a (map Some xs)" and S: "set xs \<subseteq> S"
  show "\<exists>a' ys. XArray_BubbleSort cmp a = Some a' \<and> ar_rep a' (map Some ys) \<and> mset ys = mset xs \<and> sorted_wrt R ys"
  proof (cases "xs = []")
    case True
    then show ?thesis using a by (intro exI [of _ a] exI [of _ "[]"]) (simp add: XArray_BubbleSort_def ar_rep_def)
  next
    case False
    note r = rep_cells [OF a False]
    from bool_comparator.outer_sorts [OF b S False, of 0] obtain ys where
      y: "bubble_outer cmp (length xs) (cells xs (replicate (ar_nSize a - ar_nUsed a) None)) 0 =
        Some (cells ys (replicate (ar_nSize a - ar_nUsed a) None))" "mset ys = mset xs" "sorted_wrt R ys" by fastforce
    have "length ys = length xs" using y(2) by (metis size_mset)
    from rep_store [OF a False this] show ?thesis using y r False by (auto simp: XArray_BubbleSort_def)
  qed
next
  show "\<exists>a'. XArray_BubbleSort XArray_CompareKey (ar_example [1, 2] 2) = Some a' \<and> XArray_GetKey a' 0 = Some 2 \<and>
      XArray_GetKey a' 1 = Some 1"
    by (simp add: XArray_BubbleSort_def ar_example_def bubble_outer.simps bubble_inner.simps peek_def poke_def
        XArray_CompareKey_def int_sub_def XArray_GetKey_def XArray_Get_def)
qed

theorem bubble_sort_witness:
  "\<exists>a' ys. XArray_BubbleSort key_greater (ar_example [9, 2] 2) = Some a' \<and> ar_rep a' (map Some ys) \<and>
     sorted_wrt (\<lambda>x y. ad_nKey x \<le> ad_nKey y) ys"
proof -
  have "ar_rep (ar_example [9, 2] 2) (map Some (map (\<lambda>k. \<lparr>ad_pData = None, ad_nSize = 0, ad_nKey = k\<rparr>) [9, 2]))"
    using ar_example_rep [of "[9, 2]" 2] by simp
  then show ?thesis using bubble_sort greater.bool_comparator_axioms by blast
qed

end
