(* ===== verification/Dict.thy ===== *)
theory Dict
  imports Prelude
begin

text \<open>
  The interface of a mutable dictionary whose insertions may be refused for want of memory. The locale \<open>dict\<close>
  fixes the operations with what a provider promises of each on the abstract map it stands for: an insertion stores
  its pair or leaves the content alone, and \<open>says a st b\<close> is what its status tells about that, where \<open>a\<close> is
  the behaviour of the allocator during the call. \<open>ready s n\<close> says that \<open>s\<close> is well formed and can take
  \<open>n\<close> more insertions. The client lemma runs any sequence of insertions and removals. \<open>XMap\<close> interprets it.
\<close>

datatype ('a, 'k, 'v) dict_op = Put 'a 'k 'v | Remove 'k

text \<open>The effect of a sequence of operations on a finite map; an insertion counts when it is \<open>kept\<close>.\<close>

fun dict_effect :: "('k \<rightharpoonup> 'v) \<Rightarrow> ('a, 'k, 'v) dict_op list \<Rightarrow> bool list \<Rightarrow> ('k \<rightharpoonup> 'v)" where
  "dict_effect f [] kept = f"
| "dict_effect f (Put a k v # ops) kept = dict_effect (if hd kept then f(k \<mapsto> v) else f) ops (tl kept)"
| "dict_effect f (Remove k # ops) kept = dict_effect (f(k := None)) ops (tl kept)"

text \<open>Running the operations, with their statuses; a bad memory access ends the run.\<close>

fun dict_run ::
  "('a \<Rightarrow> 's \<Rightarrow> 'k \<Rightarrow> 'v \<Rightarrow> ('s \<times> int) option) \<Rightarrow> ('s \<Rightarrow> 'k \<Rightarrow> ('s \<times> int) option) \<Rightarrow> 's \<Rightarrow> ('a, 'k, 'v) dict_op list \<Rightarrow>
   ('s \<times> int list) option" where
  "dict_run put rm s [] = Some (s, [])"
| "dict_run put rm s (Put a k v # ops) =
     do { (s', st) \<leftarrow> put a s k v; (s', sts) \<leftarrow> dict_run put rm s' ops; Some (s', st # sts) }"
| "dict_run put rm s (Remove k # ops) =
     do { (s', st) \<leftarrow> rm s k; (s', sts) \<leftarrow> dict_run put rm s' ops; Some (s', st # sts) }"

text \<open>What the statuses say of the insertions.\<close>

definition dict_told :: "('a \<Rightarrow> int \<Rightarrow> bool \<Rightarrow> bool) \<Rightarrow> ('a, 'k, 'v) dict_op list \<Rightarrow> int list \<Rightarrow> bool list \<Rightarrow> bool" where
  "dict_told says ops sts kept \<longleftrightarrow> length sts = length ops \<and> length kept = length ops \<and>
     (\<forall>i < length ops. \<forall>a k v. ops ! i = Put a k v \<longrightarrow> says a (sts ! i) (kept ! i))"

lemma dict_told_Nil: "dict_told says [] [] []"
  by (simp add: dict_told_def)

lemma dict_told_Cons:
  "dict_told says ops sts kept \<Longrightarrow> (\<And>a k v. op = Put a k v \<Longrightarrow> says a st b) \<Longrightarrow> dict_told says (op # ops) (st # sts) (b # kept)"
  by (auto simp: dict_told_def nth_Cons split: nat.split)

locale dict =
  fixes ready :: "'s \<Rightarrow> nat \<Rightarrow> bool" and content :: "'s \<Rightarrow> 'k \<rightharpoonup> 'v" and says :: "'a \<Rightarrow> int \<Rightarrow> bool \<Rightarrow> bool"
    and put :: "'a \<Rightarrow> 's \<Rightarrow> 'k \<Rightarrow> 'v \<Rightarrow> ('s \<times> int) option" and rm :: "'s \<Rightarrow> 'k \<Rightarrow> ('s \<times> int) option"
    and get :: "'s \<Rightarrow> 'k \<Rightarrow> 'r option" and answer :: "'v option \<Rightarrow> 'r"
  assumes put_law: "ready s (Suc n) \<Longrightarrow> \<exists>s' st b. put a s k v = Some (s', st) \<and> says a st b \<and> ready s' n \<and>
      content s' = (if b then (content s)(k \<mapsto> v) else content s)"
    and rm_law: "ready s n \<Longrightarrow> \<exists>s' st. rm s k = Some (s', st) \<and> ready s' n \<and> content s' = (content s)(k := None)"
    and get_law: "ready s n \<Longrightarrow> get s k = Some (answer (content s k))"
    and ready_mono: "ready s (Suc n) \<Longrightarrow> ready s n"
begin

lemma run_law:
  "ready s (length ops) \<Longrightarrow> \<exists>s' sts kept. dict_run put rm s ops = Some (s', sts) \<and> dict_told says ops sts kept \<and> ready s' 0 \<and>
    content s' = dict_effect (content s) ops kept"
proof (induction ops arbitrary: s)
  case Nil
  then show ?case using dict_told_Nil by fastforce
next
  case (Cons op ops)
  show ?case
  proof (cases op)
    case (Put a k v)
    from Cons.prems put_law [of s "length ops" a k v] obtain s1 st b where p: "put a s k v = Some (s1, st)" "says a st b"
      "ready s1 (length ops)" "content s1 = (if b then (content s)(k \<mapsto> v) else content s)" by auto
    from Cons.IH [OF p(3)] obtain s' sts kept where r: "dict_run put rm s1 ops = Some (s', sts)" "dict_told says ops sts kept" "ready s' 0"
      "content s' = dict_effect (content s1) ops kept" by blast
    have "dict_told says (op # ops) (st # sts) (b # kept)" by (rule dict_told_Cons [OF r(2)]) (use Put p(2) in simp)
    then show ?thesis using Put p r by (intro exI [of _ s'] exI [of _ "st # sts"] exI [of _ "b # kept"]) simp
  next
    case (Remove k)
    from Cons.prems ready_mono [of s "length ops"] rm_law [of s "length ops" k] obtain s1 st where p: "rm s k = Some (s1, st)"
      "ready s1 (length ops)" "content s1 = (content s)(k := None)" by auto
    from Cons.IH [OF p(2)] obtain s' sts kept where r: "dict_run put rm s1 ops = Some (s', sts)" "dict_told says ops sts kept" "ready s' 0"
      "content s' = dict_effect (content s1) ops kept" by blast
    have "dict_told says (op # ops) (st # sts) (True # kept)" by (rule dict_told_Cons [OF r(2)]) (use Remove in simp)
    then show ?thesis using Remove p r by (intro exI [of _ s'] exI [of _ "st # sts"] exI [of _ "True # kept"]) simp
  qed
qed

lemma history:
  assumes "ready s (length ops)"
  shows "\<exists>s' sts kept. dict_run put rm s ops = Some (s', sts) \<and> dict_told says ops sts kept \<and>
    (\<forall>k. get s' k = Some (answer (dict_effect (content s) ops kept k)))"
proof -
  from run_law [OF assms] obtain s' sts kept where r: "dict_run put rm s ops = Some (s', sts)" "dict_told says ops sts kept" "ready s' 0"
    "content s' = dict_effect (content s) ops kept" by blast
  from get_law [OF r(3)] r(4) have "\<forall>k. get s' k = Some (answer (dict_effect (content s) ops kept k))" by simp
  with r(1,2) show ?thesis by blast
qed

end

end
