(* ===== verification/XMap.thy ===== *)
theory XMap
  imports Dict
begin

text \<open>
  The string-keyed hash map of \<open>src/src/data/map.c\<close>: open addressing with linear probing and
  tombstones. A key is its bytes up to the terminating NUL; a NULL key or map is refused by every
  operation before it does anything, and is not represented. Whether an \<open>xalloc\<close> succeeds is an
  argument. The pairs handed to \<open>clearCb\<close> are appended to the ghost field \<open>mp_cleared\<close>.

  \<open>mp_wf\<close> is the representation invariant and \<open>mp_map\<close> the finite map a table stands for. The locale
  \<open>dict\<close> states what a client of a dictionary relies on; the map interprets it.
\<close>

datatype xmap_pair_status = XMAP_PAIR_UNUSED | XMAP_PAIR_USED | XMAP_PAIR_DELETED

record 'v xmap_pair =
  mp_eStatus :: xmap_pair_status
  mp_pKey :: "byte list option"
  mp_pData :: "'v option"

record 'v xmap =
  mp_pPairs :: "'v xmap_pair list option"
  mp_clearCb :: bool
  mp_nTableSize :: nat
  mp_nDeleted :: nat
  mp_nCount :: nat
  mp_bAllowUpdate :: bool
  mp_bAlloc :: bool
  mp_cleared :: "'v xmap_pair list"

abbreviation XMAP_EEXIST :: int where "XMAP_EEXIST \<equiv> -7"
abbreviation XMAP_EINIT :: int where "XMAP_EINIT \<equiv> -6"
abbreviation XMAP_MISSING :: int where "XMAP_MISSING \<equiv> -5"
abbreviation XMAP_OINV :: int where "XMAP_OINV \<equiv> -4"
abbreviation XMAP_FULL :: int where "XMAP_FULL \<equiv> -3"
abbreviation XMAP_OMEM :: int where "XMAP_OMEM \<equiv> -2"
abbreviation XMAP_OK :: int where "XMAP_OK \<equiv> 1"

section \<open>Operations\<close>

definition empty_pair :: "'v xmap_pair" where
  "empty_pair = \<lparr>mp_eStatus = XMAP_PAIR_UNUSED, mp_pKey = None, mp_pData = None\<rparr>"

text \<open>Allocating a table and initialising every pair.\<close>

definition XMap_Alloc :: "bool \<Rightarrow> 'v xmap \<Rightarrow> nat \<Rightarrow> 'v xmap \<times> int" where
  "XMap_Alloc ok m nSize =
     (if nSize = 0 then (m, XMAP_OK)
      else if ok then (m\<lparr>mp_pPairs := Some (replicate nSize empty_pair)\<rparr>, XMAP_OK)
      else (m\<lparr>mp_pPairs := None\<rparr>, XMAP_OMEM))"

definition XMap_Init :: "bool \<Rightarrow> 'v xmap \<Rightarrow> nat \<Rightarrow> 'v xmap \<times> int" where
  "XMap_Init ok m nSize =
     XMap_Alloc ok (m\<lparr>mp_pPairs := None, mp_clearCb := False, mp_nTableSize := nSize, mp_nDeleted := 0,
                      mp_nCount := 0, mp_bAllowUpdate := True, mp_bAlloc := False\<rparr>) nSize"

definition XMap_New :: "bool \<Rightarrow> bool \<Rightarrow> 'v xmap \<Rightarrow> nat \<Rightarrow> 'v xmap option" where
  "XMap_New ok1 ok2 junk nSize =
     (if \<not> ok1 then None
      else let (m, st) = XMap_Init ok2 junk nSize in if st < 0 then None else Some (m\<lparr>mp_bAlloc := True\<rparr>))"

text \<open>The structure after \<open>XMap_Free\<close>, \<open>None\<close> when it was allocated and is gone.\<close>

definition XMap_Free :: "'v xmap \<Rightarrow> 'v xmap option" where
  "XMap_Free m =
     (if mp_bAlloc m then None
      else Some (m\<lparr>mp_pPairs := None, mp_clearCb := False, mp_nTableSize := 0, mp_nDeleted := 0, mp_nCount := 0\<rparr>))"

fun iterate_pairs :: "('v xmap_pair \<Rightarrow> 'c \<Rightarrow> int \<times> 'c) \<Rightarrow> 'c \<Rightarrow> 'v xmap_pair list \<Rightarrow> int \<times> 'c" where
  "iterate_pairs f x [] = (XMAP_OK, x)"
| "iterate_pairs f x (p # ps) =
     (if mp_eStatus p = XMAP_PAIR_USED
      then (let (st, x') = f p x in if st \<noteq> XMAP_OK then (st, x') else iterate_pairs f x' ps)
      else iterate_pairs f x ps)"

text \<open>The iterator threads its context; it is given each used pair and does not change it.\<close>

definition XMap_Iterate :: "'v xmap \<Rightarrow> ('v xmap_pair \<Rightarrow> 'c \<Rightarrow> int \<times> 'c) \<Rightarrow> 'c \<Rightarrow> (int \<times> 'c) option" where
  "XMap_Iterate m f x =
     (case mp_pPairs m of
        None \<Rightarrow> Some (XMAP_EINIT, x)
      | Some d \<Rightarrow>
          if mp_nCount m = 0 then Some (0, x)
          else do { ps \<leftarrow> mread d 0 (mp_nTableSize m); Some (iterate_pairs f x ps) })"

fun reset_pairs :: "'v xmap_pair list \<Rightarrow> 'v xmap_pair list \<times> 'v xmap_pair list" where
  "reset_pairs [] = ([], [])"
| "reset_pairs (p # ps) =
     (let (qs, cleared) = reset_pairs ps
      in case mp_eStatus p of
           XMAP_PAIR_USED \<Rightarrow> (empty_pair # qs, p # cleared)
         | XMAP_PAIR_DELETED \<Rightarrow> (p\<lparr>mp_eStatus := XMAP_PAIR_UNUSED\<rparr> # qs, cleared)
         | XMAP_PAIR_UNUSED \<Rightarrow> (p # qs, cleared))"

definition XMap_Reset :: "'v xmap \<Rightarrow> 'v xmap option" where
  "XMap_Reset m =
     (case mp_pPairs m of
        None \<Rightarrow> Some m
      | Some d \<Rightarrow> do {
          ps \<leftarrow> mread d 0 (mp_nTableSize m);
          let (qs, cleared) = reset_pairs ps;
          Some (m\<lparr>mp_pPairs := Some (qs @ drop (mp_nTableSize m) d), mp_nDeleted := 0, mp_nCount := 0,
                  mp_cleared := mp_cleared m @ (if mp_clearCb m then cleared else [])\<rparr>) })"

definition XMap_Destroy :: "'v xmap \<Rightarrow> 'v xmap option option" where
  "XMap_Destroy m = do { m' \<leftarrow> XMap_Reset m; Some (XMap_Free m') }"

definition fnv32 :: "byte list \<Rightarrow> u32" where
  "fnv32 s = foldl (\<lambda>h c. (h XOR ucast c) * 16777619) 2166136261 s"

definition XMap_HashFNV :: "'v xmap \<Rightarrow> byte list \<Rightarrow> int" where
  "XMap_HashFNV m s =
     (if mp_nTableSize m = 0 then XMAP_EINIT else to_int (unat (fnv32 s) mod mp_nTableSize m))"

definition XMap_Hash :: "'v xmap \<Rightarrow> byte list \<Rightarrow> int" where
  "XMap_Hash m s = XMap_HashFNV m s"

definition xstrcmp :: "byte list option \<Rightarrow> byte list option \<Rightarrow> bool" where
  "xstrcmp p q = (case (p, q) of (Some x, Some y) \<Rightarrow> x = y | _ \<Rightarrow> False)"

definition ppeek :: "'a list \<Rightarrow> int \<Rightarrow> 'a option" where
  "ppeek d i = (if 0 \<le> i then peek d (nat i) else None)"

text \<open>
  The probing loop of \<open>XMap_GetHash\<close>. The remainder is by \<open>(int)nTableSize\<close>; \<open>i\<close> counts the probes, \<open>avail\<close> is the first
  tombstone seen.
\<close>

function gethash_loop :: "'v xmap_pair list \<Rightarrow> byte list \<Rightarrow> nat \<Rightarrow> nat \<Rightarrow> int \<Rightarrow> int \<Rightarrow> int option" where
  "gethash_loop d k n i nIndex avail =
     (if i < n
      then do {
        p \<leftarrow> ppeek d nIndex;
        (case mp_eStatus p of
           XMAP_PAIR_UNUSED \<Rightarrow> Some (if 0 \<le> avail then avail else nIndex)
         | XMAP_PAIR_DELETED \<Rightarrow>
             gethash_loop d k n (Suc i) ((nIndex + 1) mod \<bar>to_int n\<bar>) (if avail < 0 then nIndex else avail)
         | XMAP_PAIR_USED \<Rightarrow>
             if xstrcmp (mp_pKey p) (Some k) then Some nIndex
             else gethash_loop d k n (Suc i) ((nIndex + 1) mod \<bar>to_int n\<bar>) avail) }
      else Some (if 0 \<le> avail then avail else XMAP_FULL))"
  by pat_completeness auto
termination by (relation "measure (\<lambda>(_, _, n, i, _, _). n - i)") auto

declare gethash_loop.simps [simp del]

definition XMap_GetHash :: "'v xmap \<Rightarrow> byte list \<Rightarrow> int option" where
  "XMap_GetHash m k =
     (if mp_nTableSize m = 0 then Some XMAP_EINIT
      else case mp_pPairs m of
             None \<Rightarrow> Some XMAP_EINIT
           | Some d \<Rightarrow>
               if mp_nTableSize m < mp_nCount m then Some XMAP_OINV
               else let nIndex = XMap_Hash m k
                    in if nIndex < 0 then Some nIndex
                       else gethash_loop d k (mp_nTableSize m) 0 nIndex (-1))"

text \<open>
  Storing a pair at index \<open>h\<close>, with the counters of \<open>XMap_PutRaw\<close> and \<open>XMap_Put\<close>: a tombstone that is
  reused is no longer counted as deleted; a slot that was not used counts as one more.
\<close>

definition count_slot :: "'v xmap \<Rightarrow> xmap_pair_status \<Rightarrow> 'v xmap" where
  "count_slot m st =
     m\<lparr>mp_nDeleted := (if st = XMAP_PAIR_DELETED \<and> 0 < mp_nDeleted m then mp_nDeleted m - 1 else mp_nDeleted m),
       mp_nCount := (if st \<noteq> XMAP_PAIR_USED then (mp_nCount m + 1) mod 2 ^ 32 else mp_nCount m)\<rparr>"

definition store_pair :: "'v xmap \<Rightarrow> int \<Rightarrow> 'v xmap_pair \<Rightarrow> 'v xmap option" where
  "store_pair m h p =
     do { d \<leftarrow> mp_pPairs m; d' \<leftarrow> poke d (nat h) p; Some (m\<lparr>mp_pPairs := Some d'\<rparr>) }"

definition XMap_PutRaw :: "'v xmap \<Rightarrow> byte list \<Rightarrow> 'v option \<Rightarrow> ('v xmap \<times> int) option" where
  "XMap_PutRaw m k v = do {
     h \<leftarrow> XMap_GetHash m k;
     if h < 0 then Some (m, h)
     else do {
       d \<leftarrow> mp_pPairs m;
       p \<leftarrow> ppeek d h;
       m' \<leftarrow> store_pair (count_slot m (mp_eStatus p)) h
               \<lparr>mp_eStatus = XMAP_PAIR_USED, mp_pKey = Some k, mp_pData = v\<rparr>;
       Some (m', XMAP_OK) } }"

text \<open>
  Putting every used pair of an old table into the map, in order, stopping at the first failure. A
  used pair without a key is refused by \<open>XMap_GetHash\<close>.
\<close>

fun refill :: "'v xmap \<Rightarrow> 'v xmap_pair list \<Rightarrow> ('v xmap \<times> int) option" where
  "refill m [] = Some (m, XMAP_OK)"
| "refill m (p # ps) =
     (if mp_eStatus p \<noteq> XMAP_PAIR_USED then refill m ps
      else case mp_pKey p of
             None \<Rightarrow> Some (m, XMAP_OINV)
           | Some k \<Rightarrow> do {
               (m', st) \<leftarrow> XMap_PutRaw m k (mp_pData p);
               if st \<noteq> XMAP_OK then Some (m', st) else refill m' ps })"

definition XMap_Realloc :: "(nat \<Rightarrow> bool) \<Rightarrow> 'v xmap \<Rightarrow> ('v xmap \<times> int) option" where
  "XMap_Realloc ok m =
     (if \<not> mp_nTableSize m < (2 ^ 32 - 1) div 2 then Some (m, XMAP_OINV)
      else let nNewSize = (if mp_nTableSize m \<noteq> 0 then mp_nTableSize m * 2 else 64)
        in if \<not> ok nNewSize then Some (m, XMAP_OMEM)
           else let m1 = m\<lparr>mp_pPairs := Some (replicate nNewSize empty_pair), mp_nTableSize := nNewSize,
                           mp_nDeleted := 0, mp_nCount := 0\<rparr>
             in case mp_pPairs m of
                  None \<Rightarrow> Some (m1, XMAP_OK)
                | Some old \<Rightarrow> do {
                    ps \<leftarrow> mread old 0 (mp_nTableSize m);
                    (m2, st) \<leftarrow> refill m1 ps;
                    Some (if st \<noteq> XMAP_OK then m else m2, st) })"

definition XMap_Rehash :: "bool \<Rightarrow> 'v xmap \<Rightarrow> ('v xmap \<times> int) option" where
  "XMap_Rehash ok m =
     (case mp_pPairs m of
        None \<Rightarrow> Some (m, XMAP_EINIT)
      | Some old \<Rightarrow>
          if mp_nTableSize m = 0 then Some (m, XMAP_EINIT)
          else if \<not> ok then Some (m, XMAP_OMEM)
          else do {
            ps \<leftarrow> mread old 0 (mp_nTableSize m);
            (m2, st) \<leftarrow> refill (m\<lparr>mp_pPairs := Some (replicate (mp_nTableSize m) empty_pair),
                                  mp_nDeleted := 0, mp_nCount := 0\<rparr>) ps;
            Some (if st \<noteq> XMAP_OK
                  then (m\<lparr>mp_nDeleted := length (filter (\<lambda>p. mp_eStatus p = XMAP_PAIR_DELETED) ps),
                          mp_nCount := length (filter (\<lambda>p. mp_eStatus p = XMAP_PAIR_USED) ps)\<rparr>, st)
                  else (m2, XMAP_OK)) })"

text \<open>The loop of \<open>XMap_Put\<close> that grows a full table until the key finds a slot.\<close>

partial_function (option) grow_loop :: "(nat \<Rightarrow> bool) \<Rightarrow> 'v xmap \<Rightarrow> byte list \<Rightarrow> int \<Rightarrow> ('v xmap \<times> int) option" where
  "grow_loop ok m k h =
     (if h = XMAP_FULL
      then do {
        (m', st) \<leftarrow> XMap_Realloc ok m;
        if st < 0 then Some (m', st)
        else do { h' \<leftarrow> XMap_GetHash m' k; grow_loop ok m' k h' } }
      else Some (m, h))"

text \<open>
  \<open>ok n\<close>: a table of \<open>n\<close> pairs can be allocated when growing; \<open>ok'\<close>: the table for a rehash can.
\<close>

definition XMap_Put :: "(nat \<Rightarrow> bool) \<Rightarrow> bool \<Rightarrow> 'v xmap \<Rightarrow> byte list \<Rightarrow> 'v option \<Rightarrow> ('v xmap \<times> int) option" where
  "XMap_Put ok ok' m k v = do {
     (m, st) \<leftarrow> (if mp_nTableSize m = 0 \<or> mp_pPairs m = None \<or> mp_nTableSize m * 7 \<le> mp_nCount m * 10
                 then XMap_Realloc ok m else Some (m, XMAP_OK));
     if st < 0 then Some (m, st)
     else do {
       h \<leftarrow> XMap_GetHash m k;
       (m, h) \<leftarrow> grow_loop ok m k h;
       if h < 0 then Some (m, h)
       else do {
         d \<leftarrow> mp_pPairs m;
         p \<leftarrow> ppeek d h;
         let m1 = count_slot m (mp_eStatus p);
         if mp_eStatus p = XMAP_PAIR_USED \<and> \<not> mp_bAllowUpdate m then Some (m1, XMAP_EEXIST)
         else do {
           m2 \<leftarrow> store_pair m1 h \<lparr>mp_eStatus = XMAP_PAIR_USED, mp_pKey = Some k, mp_pData = v\<rparr>;
           if mp_nTableSize m2 div 4 < mp_nDeleted m2
           then do { (m3, st) \<leftarrow> XMap_Rehash ok' m2; Some (m3, if st < 0 then st else XMAP_OK) }
           else Some (m2, XMAP_OK) } } } }"

definition XMap_PutPair :: "(nat \<Rightarrow> bool) \<Rightarrow> bool \<Rightarrow> 'v xmap \<Rightarrow> 'v xmap_pair \<Rightarrow> ('v xmap \<times> int) option" where
  "XMap_PutPair ok ok' m p =
     (case mp_pKey p of None \<Rightarrow> Some (m, XMAP_OINV) | Some k \<Rightarrow> XMap_Put ok ok' m k (mp_pData p))"

definition XMap_Update :: "'v xmap \<Rightarrow> int \<Rightarrow> 'v option \<Rightarrow> ('v xmap \<times> int) option" where
  "XMap_Update m h v =
     (if h < 0 then Some (m, XMAP_OINV)
      else if int (mp_nTableSize m) \<le> h then Some (m, XMAP_MISSING)
      else do {
        d \<leftarrow> mp_pPairs m;
        p \<leftarrow> ppeek d h;
        m' \<leftarrow> store_pair (count_slot m (mp_eStatus p)) h (p\<lparr>mp_pData := v, mp_eStatus := XMAP_PAIR_USED\<rparr>);
        Some (m', XMAP_OK) })"

text \<open>
  The probing loop shared by \<open>XMap_GetPair\<close>, \<open>XMap_GetIndex\<close> and \<open>XMap_Remove\<close>: the index of the used
  pair with the key, if it comes before an unused one.
\<close>

function lookup_loop :: "'v xmap_pair list \<Rightarrow> byte list \<Rightarrow> nat \<Rightarrow> nat \<Rightarrow> int \<Rightarrow> int option option" where
  "lookup_loop d k n i nIndex =
     (if i < n
      then do {
        p \<leftarrow> ppeek d nIndex;
        if mp_eStatus p = XMAP_PAIR_UNUSED then Some None
        else if mp_eStatus p = XMAP_PAIR_USED \<and> xstrcmp (mp_pKey p) (Some k) then Some (Some nIndex)
        else lookup_loop d k n (Suc i) ((nIndex + 1) mod \<bar>to_int n\<bar>) }
      else Some None)"
  by pat_completeness auto
termination by (relation "measure (\<lambda>(_, _, n, i, _). n - i)") auto

declare lookup_loop.simps [simp del]

definition XMap_GetPair :: "'v xmap \<Rightarrow> byte list \<Rightarrow> 'v xmap_pair option option" where
  "XMap_GetPair m k =
     (case mp_pPairs m of
        None \<Rightarrow> Some None
      | Some d \<Rightarrow>
          let nIndex = XMap_Hash m k
          in if nIndex < 0 then Some None
             else do {
               r \<leftarrow> lookup_loop d k (mp_nTableSize m) 0 nIndex;
               (case r of None \<Rightarrow> Some None | Some i \<Rightarrow> map_option Some (ppeek d i)) })"

text \<open>\<open>i0\<close> is what \<open>*pIndex\<close> held before the call; without a table it is left alone.\<close>

definition XMap_GetIndex :: "'v xmap \<Rightarrow> byte list \<Rightarrow> int \<Rightarrow> ('v option \<times> int) option" where
  "XMap_GetIndex m k i0 =
     (case mp_pPairs m of
        None \<Rightarrow> Some (None, i0)
      | Some d \<Rightarrow>
          let nIndex = XMap_Hash m k
          in if nIndex < 0 then Some (None, nIndex)
             else do {
               r \<leftarrow> lookup_loop d k (mp_nTableSize m) 0 nIndex;
               (case r of None \<Rightarrow> Some (None, -1)
                | Some i \<Rightarrow> do { p \<leftarrow> ppeek d i; Some (mp_pData p, i) }) })"

definition XMap_Get :: "'v xmap \<Rightarrow> byte list \<Rightarrow> 'v option option" where
  "XMap_Get m k = map_option fst (XMap_GetIndex m k 0)"

definition XMap_Remove :: "'v xmap \<Rightarrow> byte list \<Rightarrow> ('v xmap \<times> int) option" where
  "XMap_Remove m k =
     (case mp_pPairs m of
        None \<Rightarrow> Some (m, XMAP_EINIT)
      | Some d \<Rightarrow>
          let nIndex = XMap_Hash m k
          in if nIndex < 0 then Some (m, nIndex)
             else do {
               r \<leftarrow> lookup_loop d k (mp_nTableSize m) 0 nIndex;
               (case r of
                  None \<Rightarrow> Some (m, XMAP_MISSING)
                | Some i \<Rightarrow> do {
                    p \<leftarrow> ppeek d i;
                    m' \<leftarrow> store_pair m i \<lparr>mp_eStatus = XMAP_PAIR_DELETED, mp_pKey = None, mp_pData = None\<rparr>;
                    Some (m'\<lparr>mp_nDeleted := mp_nDeleted m' + 1, mp_nCount := mp_nCount m' - 1,
                             mp_cleared := mp_cleared m' @ (if mp_clearCb m' then [p] else [])\<rparr>, XMAP_OK) }) })"

definition XMap_UsedSize :: "'v xmap \<Rightarrow> int" where
  "XMap_UsedSize m = to_int (mp_nCount m)"

section \<open>Probe sequences\<close>

text \<open>The slot of the \<open>t\<close>-th probe from home slot \<open>h\<close> in a table of \<open>n\<close>.\<close>

definition pos :: "nat \<Rightarrow> nat \<Rightarrow> nat \<Rightarrow> nat" where
  "pos h n t = (h + t) mod n"

lemma pos_less [simp]: "0 < n \<Longrightarrow> pos h n t < n"
  by (simp add: pos_def)

lemma pos_0 [simp]: "h < n \<Longrightarrow> pos h n 0 = h"
  by (simp add: pos_def)

lemma pos_step: "0 < n \<Longrightarrow> n < 2 ^ 31 \<Longrightarrow> (int (pos h n t) + 1) mod \<bar>to_int n\<bar> = int (pos h n (Suc t))"
  by (simp add: pos_def zmod_int mod_simps ac_simps)

lemma pos_onto: "h < n \<Longrightarrow> j < n \<Longrightarrow> \<exists>t < n. pos h n t = j"
  by (rule exI [of _ "if h \<le> j then j - h else n - h + j"]) (auto simp: pos_def mod_if)

abbreviation unused :: "'v xmap_pair list \<Rightarrow> nat \<Rightarrow> bool" where
  "unused d j \<equiv> mp_eStatus (d ! j) = XMAP_PAIR_UNUSED"

definition holds_key :: "'v xmap_pair list \<Rightarrow> nat \<Rightarrow> byte list \<Rightarrow> bool" where
  "holds_key d j k \<longleftrightarrow> mp_eStatus (d ! j) = XMAP_PAIR_USED \<and> mp_pKey (d ! j) = Some k"

lemma xstrcmp_Some [simp]: "xstrcmp p (Some k) \<longleftrightarrow> p = Some k"
  by (auto simp: xstrcmp_def split: option.splits)

lemma ppeek_pos [simp]: "length d = n \<Longrightarrow> 0 < n \<Longrightarrow> ppeek d (int (pos h n t)) = Some (d ! pos h n t)"
  by (simp add: ppeek_def peek_def)

lemma lookup_loop_spec:
  assumes "length d = n" "0 < n" "n < 2 ^ 31" "i \<le> n"
  shows "\<exists>r. lookup_loop d k n i (int (pos h n i)) = Some r \<and>
    (case r of
       Some x \<Rightarrow> \<exists>t. i \<le> t \<and> t < n \<and> x = int (pos h n t) \<and> holds_key d (pos h n t) k
     | None \<Rightarrow> \<forall>t. i \<le> t \<longrightarrow> t < n \<longrightarrow> holds_key d (pos h n t) k \<longrightarrow> (\<exists>s. i \<le> s \<and> s < t \<and> unused d (pos h n s)))"
  using assms(4)
proof (induction "n - i" arbitrary: i)
  case 0
  then show ?case by (subst lookup_loop.simps) auto
next
  case (Suc l)
  then have i: "i < n" by simp
  let ?p = "d ! pos h n i"
  have ev: "lookup_loop d k n i (int (pos h n i)) =
     (if mp_eStatus ?p = XMAP_PAIR_UNUSED then Some None
      else if holds_key d (pos h n i) k then Some (Some (int (pos h n i)))
      else lookup_loop d k n (Suc i) (int (pos h n (Suc i))))"
    using i assms(1-3) pos_step [OF assms(2,3), of h i] by (subst lookup_loop.simps) (simp add: holds_key_def)
  show ?case
  proof (cases "mp_eStatus ?p = XMAP_PAIR_UNUSED \<or> holds_key d (pos h n i) k")
    case True
    have "\<exists>s. i \<le> s \<and> s < t \<and> unused d (pos h n s)"
      if "mp_eStatus ?p = XMAP_PAIR_UNUSED" "i \<le> t" "holds_key d (pos h n t) k" for t
      using that by (intro exI [of _ i]) (auto simp: holds_key_def le_less)
    then show ?thesis using True i unfolding ev by auto
  next
    case False
    have "l = n - Suc i" "Suc i \<le> n" using Suc.hyps(2) i by auto
    from Suc.hyps(1) [OF this] obtain r where r: "lookup_loop d k n (Suc i) (int (pos h n (Suc i))) = Some r"
      "case r of
         Some x \<Rightarrow> \<exists>t. Suc i \<le> t \<and> t < n \<and> x = int (pos h n t) \<and> holds_key d (pos h n t) k
       | None \<Rightarrow> \<forall>t. Suc i \<le> t \<longrightarrow> t < n \<longrightarrow> holds_key d (pos h n t) k \<longrightarrow> (\<exists>s. Suc i \<le> s \<and> s < t \<and> unused d (pos h n s))"
      by blast
    have "\<exists>s. i \<le> s \<and> s < t \<and> unused d (pos h n s)"
      if "r = None" "i \<le> t" "t < n" "holds_key d (pos h n t) k" for t
    proof -
      have "Suc i \<le> t" using that False by (cases "t = i") auto
      with that r(2) obtain s where "Suc i \<le> s" "s < t" "unused d (pos h n s)" by auto
      then show ?thesis by (auto intro: Suc_leD)
    qed
    then show ?thesis using r False unfolding ev by (cases r) (auto dest: Suc_leD)
  qed
qed

text \<open>
  The outcome of looking for a place: the slot of the key; or a free slot all of whose predecessors
  are occupied or tombstones; or none, when every slot is used.
\<close>

definition place :: "'v xmap_pair list \<Rightarrow> byte list \<Rightarrow> nat \<Rightarrow> nat \<Rightarrow> nat \<Rightarrow> int \<Rightarrow> bool" where
  "place d k h n i r \<longleftrightarrow>
     (\<exists>t. i \<le> t \<and> t < n \<and> r = int (pos h n t) \<and> holds_key d (pos h n t) k) \<or>
     (\<forall>t. i \<le> t \<longrightarrow> t < n \<longrightarrow> holds_key d (pos h n t) k \<longrightarrow> (\<exists>s. i \<le> s \<and> s < t \<and> unused d (pos h n s))) \<and>
     ((\<exists>t < n. r = int (pos h n t) \<and> mp_eStatus (d ! pos h n t) \<noteq> XMAP_PAIR_USED \<and> (\<forall>s < t. \<not> unused d (pos h n s))) \<or>
      r = XMAP_FULL \<and> (\<forall>t. i \<le> t \<longrightarrow> t < n \<longrightarrow> mp_eStatus (d ! pos h n t) = XMAP_PAIR_USED))"

lemma place_step:
  assumes p: "place d k h n (Suc i) r" and nk: "\<not> holds_key d (pos h n i) k"
    and f: "r = XMAP_FULL \<Longrightarrow> mp_eStatus (d ! pos h n i) = XMAP_PAIR_USED"
  shows "place d k h n i r"
proof -
  consider t where "Suc i \<le> t" "t < n" "r = int (pos h n t)" "holds_key d (pos h n t) k"
    | "\<forall>t. Suc i \<le> t \<longrightarrow> t < n \<longrightarrow> holds_key d (pos h n t) k \<longrightarrow> (\<exists>s. Suc i \<le> s \<and> s < t \<and> unused d (pos h n s))"
      "(\<exists>t < n. r = int (pos h n t) \<and> mp_eStatus (d ! pos h n t) \<noteq> XMAP_PAIR_USED \<and> (\<forall>s < t. \<not> unused d (pos h n s))) \<or>
       r = XMAP_FULL \<and> (\<forall>t. Suc i \<le> t \<longrightarrow> t < n \<longrightarrow> mp_eStatus (d ! pos h n t) = XMAP_PAIR_USED)"
    using p unfolding place_def by blast
  then show ?thesis
  proof cases
    case 1
    then show ?thesis unfolding place_def by (auto dest: Suc_leD)
  next
    case 2
    have "\<exists>s. i \<le> s \<and> s < t \<and> unused d (pos h n s)" if "i \<le> t" "t < n" "holds_key d (pos h n t) k" for t
    proof -
      have "Suc i \<le> t" using that nk by (cases "t = i") auto
      with 2(1) that obtain s where "Suc i \<le> s" "s < t" "unused d (pos h n s)" by auto
      then show ?thesis by (auto intro: Suc_leD)
    qed
    moreover have "mp_eStatus (d ! pos h n t) = XMAP_PAIR_USED"
      if "r = XMAP_FULL" "\<forall>t. Suc i \<le> t \<longrightarrow> t < n \<longrightarrow> mp_eStatus (d ! pos h n t) = XMAP_PAIR_USED" "i \<le> t" "t < n" for t
      using that f by (cases "t = i") auto
    ultimately show ?thesis using 2(2) unfolding place_def by blast
  qed
qed

lemma gethash_loop_spec:
  assumes "length d = n" "0 < n" "n < 2 ^ 31" "i \<le> n" "\<forall>s < i. \<not> unused d (pos h n s)"
    and "avail = -1 \<or> (\<exists>s < i. avail = int (pos h n s) \<and> mp_eStatus (d ! pos h n s) \<noteq> XMAP_PAIR_USED)"
  shows "\<exists>r. gethash_loop d k n i (int (pos h n i)) avail = Some r \<and> place d k h n i r \<and>
    (0 \<le> avail \<longrightarrow> r \<noteq> XMAP_FULL)"
  using assms(4-6)
proof (induction "n - i" arbitrary: i avail)
  case 0
  then have i: "i = n" by simp
  from 0(4) show ?case
  proof
    assume "avail = -1"
    then show ?thesis by (subst gethash_loop.simps) (simp add: i place_def)
  next
    assume "\<exists>s < i. avail = int (pos h n s) \<and> mp_eStatus (d ! pos h n s) \<noteq> XMAP_PAIR_USED"
    then obtain s where s: "s < n" "avail = int (pos h n s)" "mp_eStatus (d ! pos h n s) \<noteq> XMAP_PAIR_USED"
      using i by auto
    have "\<forall>u < s. \<not> unused d (pos h n u)" using 0(3) s(1) i by auto
    then have "place d k h n i avail" unfolding place_def using s i by auto
    then show ?thesis using s(2) by (subst gethash_loop.simps) (simp add: i)
  qed
next
  case (Suc l)
  then have i: "i < n" by simp
  let ?p = "d ! pos h n i"
  have step: "(int (pos h n i) + 1) mod \<bar>to_int n\<bar> = int (pos h n (Suc i))" by (rule pos_step [OF assms(2,3)])
  have pk: "ppeek d (int (pos h n i)) = Some ?p" using assms by simp
  have "l = n - Suc i" "Suc i \<le> n" using Suc.hyps(2) i by auto
  note IH = Suc.hyps(1) [OF this]
  show ?case
  proof (cases "mp_eStatus ?p")
    case XMAP_PAIR_UNUSED
    have none: "\<forall>t. i \<le> t \<longrightarrow> t < n \<longrightarrow> holds_key d (pos h n t) k \<longrightarrow> (\<exists>s. i \<le> s \<and> s < t \<and> unused d (pos h n s))"
      using XMAP_PAIR_UNUSED by (metis holds_key_def le_neq_implies_less order_refl xmap_pair_status.distinct(1))
    have "gethash_loop d k n i (int (pos h n i)) avail = Some (if 0 \<le> avail then avail else int (pos h n i))"
      using i pk XMAP_PAIR_UNUSED by (subst gethash_loop.simps) simp
    moreover have "place d k h n i (if 0 \<le> avail then avail else int (pos h n i))"
      using none Suc.prems(2,3) i XMAP_PAIR_UNUSED unfolding place_def by (auto intro: less_trans)
    ultimately show ?thesis by auto
  next
    case XMAP_PAIR_DELETED
    let ?a = "if avail < 0 then int (pos h n i) else avail"
    have "gethash_loop d k n i (int (pos h n i)) avail = gethash_loop d k n (Suc i) (int (pos h n (Suc i))) ?a"
      using i pk XMAP_PAIR_DELETED step by (subst gethash_loop.simps) simp
    moreover have "\<forall>s < Suc i. \<not> unused d (pos h n s)"
      using Suc.prems(2) XMAP_PAIR_DELETED by (auto simp: less_Suc_eq)
    moreover have "?a = -1 \<or> (\<exists>s < Suc i. ?a = int (pos h n s) \<and> mp_eStatus (d ! pos h n s) \<noteq> XMAP_PAIR_USED)"
      using Suc.prems(3) XMAP_PAIR_DELETED by (auto simp: less_Suc_eq)
    ultimately obtain r where r: "gethash_loop d k n i (int (pos h n i)) avail = Some r" "place d k h n (Suc i) r"
      "0 \<le> ?a \<longrightarrow> r \<noteq> XMAP_FULL" using IH [of ?a] by auto
    have nk: "\<not> holds_key d (pos h n i) k" using XMAP_PAIR_DELETED by (simp add: holds_key_def)
    have "r \<noteq> XMAP_FULL" using r(3) by (auto split: if_splits)
    then have "place d k h n i r" using place_step [OF r(2) nk] by blast
    then show ?thesis using r by auto
  next
    case XMAP_PAIR_USED
    show ?thesis
    proof (cases "holds_key d (pos h n i) k")
      case True
      then have "gethash_loop d k n i (int (pos h n i)) avail = Some (int (pos h n i))"
        using i pk XMAP_PAIR_USED by (subst gethash_loop.simps) (simp add: holds_key_def)
      moreover have "place d k h n i (int (pos h n i))" using True i unfolding place_def by auto
      ultimately show ?thesis by auto
    next
      case nk: False
      have "gethash_loop d k n i (int (pos h n i)) avail = gethash_loop d k n (Suc i) (int (pos h n (Suc i))) avail"
        using i pk XMAP_PAIR_USED step nk by (subst gethash_loop.simps) (simp add: holds_key_def)
      moreover have "\<forall>s < Suc i. \<not> unused d (pos h n s)"
        using Suc.prems(2) XMAP_PAIR_USED by (auto simp: less_Suc_eq)
      moreover have "avail = -1 \<or> (\<exists>s < Suc i. avail = int (pos h n s) \<and> mp_eStatus (d ! pos h n s) \<noteq> XMAP_PAIR_USED)"
        using Suc.prems(3) by (auto simp: less_Suc_eq)
      ultimately obtain r where r: "gethash_loop d k n i (int (pos h n i)) avail = Some r" "place d k h n (Suc i) r"
        "0 \<le> avail \<longrightarrow> r \<noteq> XMAP_FULL" using IH [of avail] by auto
      have "place d k h n i r" using place_step [OF r(2) nk] XMAP_PAIR_USED by blast
      then show ?thesis using r by auto
    qed
  qed
qed

section \<open>Invariant and abstract map\<close>

definition upair :: "'v xmap_pair \<Rightarrow> (byte list \<times> 'v option) list" where
  "upair p = (if mp_eStatus p = XMAP_PAIR_USED then [(the (mp_pKey p), mp_pData p)] else [])"

definition used_pairs :: "'v xmap_pair list \<Rightarrow> (byte list \<times> 'v option) list" where
  "used_pairs d = concat (map upair d)"

definition deleted_pairs :: "'v xmap_pair list \<Rightarrow> nat" where
  "deleted_pairs d = length (filter (\<lambda>p. mp_eStatus p = XMAP_PAIR_DELETED) d)"

definition home :: "nat \<Rightarrow> byte list \<Rightarrow> nat" where
  "home n k = unat (fnv32 k) mod n"

text \<open>A slot that a probe for its key reaches: no unused slot comes before it.\<close>

definition reachable :: "'v xmap_pair list \<Rightarrow> nat \<Rightarrow> nat \<Rightarrow> nat \<Rightarrow> bool" where
  "reachable d h n j \<longleftrightarrow> (\<exists>t < n. j = pos h n t \<and> (\<forall>s < t. \<not> unused d (pos h n s)))"

definition tbl_ok :: "'v xmap_pair list \<Rightarrow> nat \<Rightarrow> bool" where
  "tbl_ok d n \<longleftrightarrow> length d = n \<and> 0 < n \<and> n < 2 ^ 31 \<and> distinct (map fst (used_pairs d)) \<and>
     (\<forall>j < n. mp_eStatus (d ! j) = XMAP_PAIR_USED \<longrightarrow>
        (case mp_pKey (d ! j) of None \<Rightarrow> False | Some k \<Rightarrow> reachable d (home n k) n j))"

definition mp_wf :: "'v xmap \<Rightarrow> bool" where
  "mp_wf m \<longleftrightarrow>
     (case mp_pPairs m of
        None \<Rightarrow> mp_nCount m = 0 \<and> mp_nDeleted m = 0
      | Some d \<Rightarrow> tbl_ok d (mp_nTableSize m) \<and> mp_nCount m = length (used_pairs d) \<and> mp_nDeleted m = deleted_pairs d)"

definition mp_map :: "'v xmap \<Rightarrow> byte list \<rightharpoonup> 'v option" where
  "mp_map m = (case mp_pPairs m of None \<Rightarrow> Map.empty | Some d \<Rightarrow> map_of (used_pairs d))"

lemma used_pairs_split:
  "j < length d \<Longrightarrow> used_pairs d = used_pairs (take j d) @ upair (d ! j) @ used_pairs (drop (Suc j) d)"
  by (subst id_take_nth_drop) (auto simp: used_pairs_def)

lemma used_pairs_update:
  "j < length d \<Longrightarrow> used_pairs (d[j := p]) = used_pairs (take j d) @ upair p @ used_pairs (drop (Suc j) d)"
  by (subst used_pairs_split [of j]) auto

lemma used_pairs_length: "length (used_pairs d) \<le> length d"
  by (induction d) (auto simp: used_pairs_def upair_def)

lemma used_pairs_full: "length (used_pairs d) = length d \<longleftrightarrow> (\<forall>p \<in> set d. mp_eStatus p = XMAP_PAIR_USED)"
proof (induction d)
  case (Cons p d)
  then show ?case using used_pairs_length [of d] by (auto simp: used_pairs_def upair_def)
qed (simp add: used_pairs_def)

lemma deleted_split:
  "j < length d \<Longrightarrow> deleted_pairs d = deleted_pairs (take j d) + deleted_pairs [d ! j] + deleted_pairs (drop (Suc j) d)"
  by (subst id_take_nth_drop) (auto simp: deleted_pairs_def)

lemma deleted_update:
  "j < length d \<Longrightarrow> deleted_pairs (d[j := p]) = deleted_pairs (take j d) + deleted_pairs [p] + deleted_pairs (drop (Suc j) d)"
  by (subst deleted_split [of j]) auto

lemma holds_mem: "j < length d \<Longrightarrow> holds_key d j k \<Longrightarrow> (k, mp_pData (d ! j)) \<in> set (used_pairs d)"
  by (subst used_pairs_split) (auto simp: upair_def holds_key_def)

lemma tbl_okD:
  assumes "tbl_ok d n"
  shows "length d = n" "0 < n" "n < 2 ^ 31" "distinct (map fst (used_pairs d))"
    "\<And>j. j < n \<Longrightarrow> mp_eStatus (d ! j) = XMAP_PAIR_USED \<Longrightarrow> \<exists>k. holds_key d j k \<and> reachable d (home n k) n j"
proof -
  show "length d = n" "0 < n" "n < 2 ^ 31" "distinct (map fst (used_pairs d))" using assms by (auto simp: tbl_ok_def)
  fix j assume "j < n" "mp_eStatus (d ! j) = XMAP_PAIR_USED"
  moreover from this assms have "case mp_pKey (d ! j) of None \<Rightarrow> False | Some k \<Rightarrow> reachable d (home n k) n j"
    by (simp add: tbl_ok_def)
  ultimately show "\<exists>k. holds_key d j k \<and> reachable d (home n k) n j"
    by (cases "mp_pKey (d ! j)") (auto simp: holds_key_def)
qed

lemma tbl_okI:
  assumes "length d = n" "0 < n" "n < 2 ^ 31" "distinct (map fst (used_pairs d))"
    "\<And>j. j < n \<Longrightarrow> mp_eStatus (d ! j) = XMAP_PAIR_USED \<Longrightarrow> \<exists>k. holds_key d j k \<and> reachable d (home n k) n j"
  shows "tbl_ok d n"
  unfolding tbl_ok_def using assms(1-4) assms(5) by (fastforce simp: holds_key_def)

lemma mem_holds:
  assumes "tbl_ok d n" "(k, v) \<in> set (used_pairs d)"
  shows "\<exists>j < n. holds_key d j k \<and> mp_pData (d ! j) = v"
proof -
  from assms(2) obtain p where p: "p \<in> set d" "(k, v) \<in> set (upair p)" by (auto simp: used_pairs_def)
  then obtain j where j: "j < length d" "d ! j = p" by (auto simp: in_set_conv_nth)
  with p have u: "mp_eStatus (d ! j) = XMAP_PAIR_USED" "the (mp_pKey (d ! j)) = k" "mp_pData (d ! j) = v"
    by (auto simp: upair_def split: if_splits)
  with tbl_okD(5) [OF assms(1) _ u(1)] j tbl_okD(1) [OF assms(1)] show ?thesis
    by (auto simp: holds_key_def)
qed

lemma holds_unique:
  assumes "tbl_ok d n" "holds_key d i k" "holds_key d j k" "i < n" "j < n"
  shows "i = j"
proof -
  have "\<not> i < j" if "holds_key d i k" "holds_key d j k" "i < n" "j < n" for i j
  proof
    assume ij: "i < j"
    have l: "length d = n" by (rule tbl_okD(1) [OF assms(1)])
    have "drop (Suc i) d ! (j - Suc i) = d ! j" "j - Suc i < length (drop (Suc i) d)" using ij that l by auto
    then have "(k, mp_pData (d ! j)) \<in> set (used_pairs (drop (Suc i) d))"
      using that(2) holds_mem [of "j - Suc i" "drop (Suc i) d" k] by (simp add: holds_key_def)
    then have "k \<in> fst ` set (used_pairs (drop (Suc i) d))" by (rule image_eqI [rotated]) simp
    moreover have "distinct (map fst (used_pairs (take i d) @ upair (d ! i) @ used_pairs (drop (Suc i) d)))"
      using tbl_okD(4) [OF assms(1)] used_pairs_split [of i d] that l by simp
    moreover have "upair (d ! i) = [(k, mp_pData (d ! i))]" using that(1) by (simp add: upair_def holds_key_def)
    ultimately show False by simp
  qed
  then show ?thesis using assms by (metis linorder_less_linear)
qed

lemma map_holds:
  assumes "tbl_ok d n"
  shows "map_of (used_pairs d) k = Some v \<longleftrightarrow> (\<exists>j < n. holds_key d j k \<and> mp_pData (d ! j) = v)"
proof
  assume "map_of (used_pairs d) k = Some v"
  then show "\<exists>j < n. holds_key d j k \<and> mp_pData (d ! j) = v" using mem_holds [OF assms] map_of_SomeD by metis
next
  assume "\<exists>j < n. holds_key d j k \<and> mp_pData (d ! j) = v"
  then obtain j where "j < length d" "holds_key d j k" "mp_pData (d ! j) = v" using tbl_okD(1) [OF assms] by auto
  then show "map_of (used_pairs d) k = Some v"
    using holds_mem [of j d k] map_of_is_SomeI [OF tbl_okD(4) [OF assms]] by auto
qed

lemma map_absent: "tbl_ok d n \<Longrightarrow> map_of (used_pairs d) k = None \<longleftrightarrow> (\<forall>j < n. \<not> holds_key d j k)"
  using map_holds [of d n k] by (metis not_None_eq)

text \<open>A used slot with the key is on the key's probe sequence with no unused slot before it.\<close>

lemma holds_reachable:
  assumes "tbl_ok d n" "holds_key d j k" "j < n"
  shows "\<exists>t < n. j = pos (home n k) n t \<and> (\<forall>s < t. \<not> unused d (pos (home n k) n s))"
proof -
  from tbl_okD(5) [OF assms(1,3)] assms(2) show ?thesis by (auto simp: holds_key_def reachable_def)
qed

lemma home_less: "0 < n \<Longrightarrow> home n k < n"
  by (simp add: home_def)

lemma lookup_spec:
  assumes ok: "tbl_ok d n"
  obtains (found) j where "lookup_loop d k n 0 (int (home n k)) = Some (Some (int j))" "j < n" "holds_key d j k"
      "map_of (used_pairs d) k = Some (mp_pData (d ! j))"
  | (missing) "lookup_loop d k n 0 (int (home n k)) = Some None" "map_of (used_pairs d) k = None"
proof -
  let ?h = "home n k"
  note T = tbl_okD [OF ok]
  have p0: "int (pos ?h n 0) = int ?h" using home_less [OF T(2)] by simp
  from lookup_loop_spec [OF T(1-3), of 0 k ?h] obtain r where
    r: "lookup_loop d k n 0 (int ?h) = Some r"
    "case r of Some x \<Rightarrow> \<exists>t. 0 \<le> t \<and> t < n \<and> x = int (pos ?h n t) \<and> holds_key d (pos ?h n t) k
     | None \<Rightarrow> \<forall>t. 0 \<le> t \<longrightarrow> t < n \<longrightarrow> holds_key d (pos ?h n t) k \<longrightarrow> (\<exists>s. 0 \<le> s \<and> s < t \<and> unused d (pos ?h n s))"
    unfolding p0 by blast
  show ?thesis
  proof (cases r)
    case None
    have "\<not> holds_key d j k" if "j < n" for j
      using holds_reachable [OF ok _ that, of k] r(2) None by auto
    then have "map_of (used_pairs d) k = None" using map_absent [OF ok, of k] by blast
    then show ?thesis using missing r(1) None by simp
  next
    case (Some x)
    with r(2) obtain t where t: "t < n" "x = int (pos ?h n t)" "holds_key d (pos ?h n t) k" by auto
    then have "map_of (used_pairs d) k = Some (mp_pData (d ! pos ?h n t))"
      using map_holds [OF ok] pos_less [OF T(2)] by blast
    then show ?thesis using found r(1) Some t pos_less [OF T(2)] by blast
  qed
qed

lemma gethash_spec:
  assumes ok: "tbl_ok d n"
  obtains (found) j where "gethash_loop d k n 0 (int (home n k)) (-1) = Some (int j)" "j < n" "holds_key d j k"
  | (free) j where "gethash_loop d k n 0 (int (home n k)) (-1) = Some (int j)" "j < n"
      "mp_eStatus (d ! j) \<noteq> XMAP_PAIR_USED" "reachable d (home n k) n j" "map_of (used_pairs d) k = None"
  | (full) "gethash_loop d k n 0 (int (home n k)) (-1) = Some XMAP_FULL" "length (used_pairs d) = n"
      "map_of (used_pairs d) k = None"
proof -
  let ?h = "home n k"
  note T = tbl_okD [OF ok]
  have h: "?h < n" by (rule home_less [OF T(2)])
  have p0: "int (pos ?h n 0) = int ?h" using h by simp
  from gethash_loop_spec [OF T(1-3), of 0 ?h "-1" k] obtain r where
    r: "gethash_loop d k n 0 (int ?h) (-1) = Some r" "place d k ?h n 0 r" unfolding p0 by auto
  show ?thesis
  proof (cases "\<exists>t. t < n \<and> r = int (pos ?h n t) \<and> holds_key d (pos ?h n t) k")
    case True
    then show ?thesis using found r(1) pos_less [OF T(2)] by blast
  next
    case False
    with r(2) have none: "\<forall>t. t < n \<longrightarrow> holds_key d (pos ?h n t) k \<longrightarrow> (\<exists>s. s < t \<and> unused d (pos ?h n s))"
      and rest: "(\<exists>t < n. r = int (pos ?h n t) \<and> mp_eStatus (d ! pos ?h n t) \<noteq> XMAP_PAIR_USED \<and> (\<forall>s < t. \<not> unused d (pos ?h n s))) \<or>
        r = XMAP_FULL \<and> (\<forall>t. t < n \<longrightarrow> mp_eStatus (d ! pos ?h n t) = XMAP_PAIR_USED)"
      unfolding place_def by auto
    have "\<not> holds_key d j k" if "j < n" for j
      using holds_reachable [OF ok _ that, of k] none by auto
    then have absent: "map_of (used_pairs d) k = None" using map_absent [OF ok, of k] by blast
    from rest show ?thesis
    proof
      assume "\<exists>t < n. r = int (pos ?h n t) \<and> mp_eStatus (d ! pos ?h n t) \<noteq> XMAP_PAIR_USED \<and> (\<forall>s < t. \<not> unused d (pos ?h n s))"
      then obtain t where "t < n" "r = int (pos ?h n t)" "mp_eStatus (d ! pos ?h n t) \<noteq> XMAP_PAIR_USED"
        "reachable d ?h n (pos ?h n t)" by (auto simp: reachable_def)
      then show ?thesis using free r(1) absent pos_less [OF T(2)] by blast
    next
      assume f: "r = XMAP_FULL \<and> (\<forall>t. t < n \<longrightarrow> mp_eStatus (d ! pos ?h n t) = XMAP_PAIR_USED)"
      have "mp_eStatus p = XMAP_PAIR_USED" if "p \<in> set d" for p
        using that f pos_onto [OF h] T(1) by (metis in_set_conv_nth)
      then have "length (used_pairs d) = n" using used_pairs_full T(1) by metis
      then show ?thesis using full r(1) f absent by blast
    qed
  qed
qed

section \<open>Changing one slot\<close>

lemma reachable_mono:
  assumes "reachable d h n j" "\<And>i. i < n \<Longrightarrow> unused d' i \<Longrightarrow> unused d i" "0 < n"
  shows "reachable d' h n j"
proof -
  from assms(1) obtain t where t: "t < n" "j = pos h n t" "\<forall>s < t. \<not> unused d (pos h n s)" by (auto simp: reachable_def)
  have "\<not> unused d' (pos h n s)" if "s < t" for s using assms(2) [of "pos h n s"] t(3) that assms(3) by auto
  with t show ?thesis by (auto simp: reachable_def)
qed

lemma deleted_pos: "j < length d \<Longrightarrow> mp_eStatus (d ! j) = XMAP_PAIR_DELETED \<Longrightarrow> 0 < deleted_pairs d"
  by (subst deleted_split [of j]) (auto simp: deleted_pairs_def)

text \<open>Storing a pair under a key, in the key's own slot or in a free one its probe reaches.\<close>

lemma store_tbl:
  fixes v :: "'v option" and d :: "'v xmap_pair list"
  assumes ok: "tbl_ok d n" and j: "j < n"
    and slot: "holds_key d j k \<or> mp_eStatus (d ! j) \<noteq> XMAP_PAIR_USED \<and> reachable d (home n k) n j \<and> map_of (used_pairs d) k = None"
  defines "d' \<equiv> d[j := \<lparr>mp_eStatus = XMAP_PAIR_USED, mp_pKey = Some k, mp_pData = v\<rparr>]"
  shows "tbl_ok d' n" "map_of (used_pairs d') = (map_of (used_pairs d))(k \<mapsto> v)"
    "length (used_pairs d') = (if holds_key d j k then length (used_pairs d) else Suc (length (used_pairs d)))"
    "deleted_pairs d' = (if mp_eStatus (d ! j) = XMAP_PAIR_DELETED then deleted_pairs d - 1 else deleted_pairs d)"
proof -
  note T = tbl_okD [OF ok]
  let ?A = "used_pairs (take j d)" and ?B = "used_pairs (drop (Suc j) d)"
  have jl: "j < length d" using j T(1) by simp
  have up: "used_pairs d' = ?A @ [(k, v)] @ ?B" unfolding d'_def by (simp add: used_pairs_update [OF jl] upair_def)
  have old: "used_pairs d = ?A @ upair (d ! j) @ ?B" by (rule used_pairs_split [OF jl])
  have dist: "distinct (map fst (?A @ upair (d ! j) @ ?B))" using T(4) unfolding old [symmetric] .
  have up_h: "upair (d ! j) = [(k, mp_pData (d ! j))]" if "holds_key d j k" using that by (simp add: holds_key_def upair_def)
  have up_f: "upair (d ! j) = []" if "\<not> holds_key d j k" using that slot by (simp add: upair_def)
  have absent: "k \<notin> fst ` set ?A \<and> k \<notin> fst ` set ?B"
  proof (cases "holds_key d j k")
    case True
    then show ?thesis using dist up_h [OF True] by auto
  next
    case False
    then have "k \<notin> fst ` set (used_pairs d)" using slot by (simp add: map_of_eq_None_iff)
    then show ?thesis unfolding old by auto
  qed
  have dist': "distinct (map fst (used_pairs d'))"
    unfolding up using dist absent by (cases "holds_key d j k") (auto simp: up_h up_f)
  have nA: "map_of ?A k = None" "map_of ?B k = None" using absent by (auto simp: map_of_eq_None_iff)
  show "map_of (used_pairs d') = (map_of (used_pairs d))(k \<mapsto> v)"
  proof
    fix x show "map_of (used_pairs d') x = ((map_of (used_pairs d))(k \<mapsto> v)) x"
      unfolding up old using nA up_h up_f
      by (cases "holds_key d j k") (auto simp: map_of_append map_add_def split: option.splits)
  qed
  show "length (used_pairs d') = (if holds_key d j k then length (used_pairs d) else Suc (length (used_pairs d)))"
    unfolding up old using up_h up_f by simp
  have un: "unused d i" if "unused d' i" "i < n" for i
    using that jl T(1) by (cases "i = j") (auto simp: d'_def)
  show "tbl_ok d' n"
  proof (rule tbl_okI)
    fix i assume i: "i < n" "mp_eStatus (d' ! i) = XMAP_PAIR_USED"
    show "\<exists>k. holds_key d' i k \<and> reachable d' (home n k) n i"
    proof (cases "i = j")
      case True
      have "reachable d (home n k) n j"
        using slot holds_reachable [OF ok _ j, of k] by (auto simp: reachable_def)
      then have "reachable d' (home n k) n j" by (rule reachable_mono) (use un T(2) in auto)
      then show ?thesis using True jl by (auto simp: d'_def holds_key_def)
    next
      case False
      then have "d' ! i = d ! i" by (simp add: d'_def)
      with T(5) [OF i(1)] i(2) obtain k' where "holds_key d' i k'" "reachable d (home n k') n i"
        by (auto simp: holds_key_def)
      moreover from this(2) have "reachable d' (home n k') n i" by (rule reachable_mono) (use un T(2) in auto)
      ultimately show ?thesis by blast
    qed
  qed (use T dist' in \<open>auto simp: d'_def\<close>)
  show "deleted_pairs d' = (if mp_eStatus (d ! j) = XMAP_PAIR_DELETED then deleted_pairs d - 1 else deleted_pairs d)"
    unfolding d'_def deleted_update [OF jl] by (subst (1 2) deleted_split [OF jl]) (simp add: deleted_pairs_def)
qed

text \<open>Turning the slot of a key into a tombstone.\<close>

lemma tombstone_tbl:
  assumes ok: "tbl_ok d n" and j: "j < n" "holds_key d j k"
  defines "d' \<equiv> d[j := \<lparr>mp_eStatus = XMAP_PAIR_DELETED, mp_pKey = None, mp_pData = None\<rparr>]"
  shows "tbl_ok d' n" "map_of (used_pairs d') = (map_of (used_pairs d))(k := None)"
    "length (used_pairs d) = Suc (length (used_pairs d'))" "deleted_pairs d' = Suc (deleted_pairs d)"
proof -
  note T = tbl_okD [OF ok]
  let ?A = "used_pairs (take j d)" and ?B = "used_pairs (drop (Suc j) d)"
  have jl: "j < length d" using j T(1) by simp
  have up: "used_pairs d' = ?A @ ?B" unfolding d'_def by (simp add: used_pairs_update [OF jl] upair_def)
  have old: "used_pairs d = ?A @ [(k, mp_pData (d ! j))] @ ?B"
    using used_pairs_split [OF jl] j(2) by (simp add: holds_key_def upair_def)
  have dist: "distinct (map fst (?A @ [(k, mp_pData (d ! j))] @ ?B))" using T(4) unfolding old [symmetric] .
  then have nA: "map_of ?A k = None" "map_of ?B k = None" by (auto simp: map_of_eq_None_iff)
  show "map_of (used_pairs d') = (map_of (used_pairs d))(k := None)"
  proof
    fix x show "map_of (used_pairs d') x = ((map_of (used_pairs d))(k := None)) x"
      unfolding up old using nA by (auto simp: map_of_append map_add_def split: option.splits)
  qed
  show "length (used_pairs d) = Suc (length (used_pairs d'))" unfolding up old by simp
  have un: "unused d i" if "unused d' i" "i < n" for i
    using that jl T(1) by (cases "i = j") (auto simp: d'_def)
  show "tbl_ok d' n"
  proof (rule tbl_okI)
    fix i assume i: "i < n" "mp_eStatus (d' ! i) = XMAP_PAIR_USED"
    then have ij: "d' ! i = d ! i" using jl by (cases "i = j") (auto simp: d'_def)
    with T(5) [OF i(1)] i(2) obtain k' where "holds_key d' i k'" "reachable d (home n k') n i"
      by (auto simp: holds_key_def)
    moreover from this(2) have "reachable d' (home n k') n i" by (rule reachable_mono) (use un T(2) in auto)
    ultimately show "\<exists>k. holds_key d' i k \<and> reachable d' (home n k) n i" by blast
  qed (use T dist up in \<open>auto simp: d'_def\<close>)
  show "deleted_pairs d' = Suc (deleted_pairs d)"
    unfolding d'_def deleted_update [OF jl] using j(2)
    by (subst deleted_split [OF jl]) (simp add: deleted_pairs_def holds_key_def)
qed

lemma used_replicate [simp]: "used_pairs (replicate n empty_pair) = []"
  by (induction n) (auto simp: used_pairs_def upair_def empty_pair_def)

lemma deleted_replicate [simp]: "deleted_pairs (replicate n empty_pair) = 0"
  by (induction n) (auto simp: deleted_pairs_def empty_pair_def)

lemma empty_tbl: "0 < n \<Longrightarrow> n < 2 ^ 31 \<Longrightarrow> tbl_ok (replicate n empty_pair) n"
  by (rule tbl_okI) (simp_all, simp add: empty_pair_def)

lemma Hash_home: "0 < mp_nTableSize m \<Longrightarrow> mp_nTableSize m < 2 ^ 31 \<Longrightarrow> XMap_Hash m k = int (home (mp_nTableSize m) k)"
  unfolding XMap_Hash_def XMap_HashFNV_def home_def
  using mod_less_divisor [of "mp_nTableSize m" "unat (fnv32 k)"] by (simp del: mod_less_divisor)

lemma GetHash_eq:
  assumes "mp_pPairs m = Some d" "tbl_ok d (mp_nTableSize m)" "mp_nCount m = length (used_pairs d)"
  shows "XMap_GetHash m k = gethash_loop d k (mp_nTableSize m) 0 (int (home (mp_nTableSize m) k)) (-1)"
proof -
  have "length (used_pairs d) \<le> mp_nTableSize m" using used_pairs_length [of d] tbl_okD(1) [OF assms(2)] by simp
  then show ?thesis
    using assms tbl_okD(2,3) [OF assms(2)] by (simp add: XMap_GetHash_def Hash_home)
qed

lemma wf_table:
  assumes "mp_wf m" "mp_pPairs m = Some d"
  shows "tbl_ok d (mp_nTableSize m)" "mp_nCount m = length (used_pairs d)" "mp_nDeleted m = deleted_pairs d"
    "mp_map m = map_of (used_pairs d)"
  using assms by (auto simp: mp_wf_def mp_map_def)

lemma wfI:
  "mp_pPairs m = Some d \<Longrightarrow> tbl_ok d (mp_nTableSize m) \<Longrightarrow> mp_nCount m = length (used_pairs d) \<Longrightarrow>
   mp_nDeleted m = deleted_pairs d \<Longrightarrow> mp_wf m"
  by (simp add: mp_wf_def)

text \<open>Storing at the place \<open>XMap_GetHash\<close> found, counters included.\<close>

lemma store_step:
  assumes w: "mp_wf m" and d: "mp_pPairs m = Some d" and j: "j < mp_nTableSize m"
    and slot: "holds_key d j k \<or> mp_eStatus (d ! j) \<noteq> XMAP_PAIR_USED \<and> reachable d (home (mp_nTableSize m) k) (mp_nTableSize m) j \<and>
      map_of (used_pairs d) k = None"
  shows "\<exists>m'. store_pair (count_slot m (mp_eStatus (d ! j))) (int j) \<lparr>mp_eStatus = XMAP_PAIR_USED, mp_pKey = Some k, mp_pData = v\<rparr> = Some m' \<and>
    mp_wf m' \<and> mp_map m' = (mp_map m)(k \<mapsto> v) \<and> mp_nTableSize m' = mp_nTableSize m \<and> mp_pPairs m' \<noteq> None \<and>
    mp_cleared m' = mp_cleared m \<and> mp_clearCb m' = mp_clearCb m \<and> mp_bAllowUpdate m' = mp_bAllowUpdate m"
proof -
  note W = wf_table [OF w d]
  note T = tbl_okD [OF W(1)]
  note S = store_tbl [OF W(1) j slot, where v = v]
  let ?d = "d[j := \<lparr>mp_eStatus = XMAP_PAIR_USED, mp_pKey = Some k, mp_pData = v\<rparr>]"
  let ?m = "(count_slot m (mp_eStatus (d ! j)))\<lparr>mp_pPairs := Some ?d\<rparr>"
  have le: "length (used_pairs ?d) < 2 ^ 31"
    using used_pairs_length [of ?d] T(1,3) by simp
  have hk: "holds_key d j k \<longleftrightarrow> mp_eStatus (d ! j) = XMAP_PAIR_USED" using slot by (auto simp: holds_key_def)
  have "store_pair (count_slot m (mp_eStatus (d ! j))) (int j) \<lparr>mp_eStatus = XMAP_PAIR_USED, mp_pKey = Some k, mp_pData = v\<rparr> = Some ?m"
    using d j T(1) by (simp add: store_pair_def count_slot_def poke_def)
  moreover have "mp_wf ?m"
    using S W(2,3) le hk deleted_pos [of j d] j T(1) by (intro wfI [of _ ?d]) (auto simp: count_slot_def split: if_splits)
  moreover have "mp_map ?m = (mp_map m)(k \<mapsto> v)" using S(2) W(4) by (simp add: mp_map_def)
  ultimately show ?thesis by (intro exI [of _ ?m]) (simp add: count_slot_def)
qed

section \<open>The operations on the abstract map\<close>

lemma wf_count: "mp_wf m \<Longrightarrow> mp_nCount m = card (dom (mp_map m))"
proof (cases "mp_pPairs m")
  case None
  then show "mp_wf m \<Longrightarrow> ?thesis" by (simp add: mp_wf_def mp_map_def)
next
  case (Some d)
  assume w: "mp_wf m"
  note W = wf_table [OF w Some]
  have "card (dom (mp_map m)) = card (set (map fst (used_pairs d)))" by (simp add: W(4) dom_map_of_conv_image_fst)
  also have "\<dots> = length (used_pairs d)" using distinct_card [OF tbl_okD(4) [OF W(1)]] by simp
  finally show ?thesis using W(2) by simp
qed

lemma wf_dom_finite: "finite (dom (mp_map m))"
  by (auto simp: mp_map_def finite_dom_map_of split: option.splits)

text \<open>Finding the place for a key in a table with room.\<close>

lemma GetHash_room:
  assumes w: "mp_wf m" and d: "mp_pPairs m = Some d" and room: "mp_nCount m < mp_nTableSize m"
  obtains j where "XMap_GetHash m k = Some (int j)" "j < mp_nTableSize m"
    "holds_key d j k \<or> mp_eStatus (d ! j) \<noteq> XMAP_PAIR_USED \<and> reachable d (home (mp_nTableSize m) k) (mp_nTableSize m) j \<and>
      map_of (used_pairs d) k = None"
    "mp_eStatus (d ! j) = XMAP_PAIR_USED \<longleftrightarrow> k \<in> dom (mp_map m)" "ppeek d (int j) = Some (d ! j)"
proof -
  note W = wf_table [OF w d]
  note G = GetHash_eq [OF d W(1,2), of k]
  have pk: "ppeek d (int j) = Some (d ! j)" if "j < mp_nTableSize m" for j
    using that tbl_okD(1) [OF W(1)] by (simp add: ppeek_def peek_def)
  show ?thesis
  proof (rule gethash_spec [OF W(1), of k])
    fix j assume h: "gethash_loop d k (mp_nTableSize m) 0 (int (home (mp_nTableSize m) k)) (-1) = Some (int j)"
      "j < mp_nTableSize m" "holds_key d j k"
    then have "k \<in> dom (mp_map m)" using map_holds [OF W(1), of k] by (auto simp: W(4))
    then show ?thesis using that [of j] h G pk by (auto simp: holds_key_def)
  next
    fix j assume h: "gethash_loop d k (mp_nTableSize m) 0 (int (home (mp_nTableSize m) k)) (-1) = Some (int j)"
      "j < mp_nTableSize m" "mp_eStatus (d ! j) \<noteq> XMAP_PAIR_USED" "reachable d (home (mp_nTableSize m) k) (mp_nTableSize m) j"
      "map_of (used_pairs d) k = None"
    then have "k \<notin> dom (mp_map m)" by (simp add: W(4) domIff)
    then show ?thesis using that [of j] h G pk by auto
  next
    assume "length (used_pairs d) = mp_nTableSize m"
    then show ?thesis using room W(2) by simp
  qed
qed

lemma PutRaw_spec:
  assumes w: "mp_wf m" and d: "mp_pPairs m \<noteq> None" and room: "mp_nCount m < mp_nTableSize m"
  shows "\<exists>m'. XMap_PutRaw m k v = Some (m', XMAP_OK) \<and> mp_wf m' \<and> mp_map m' = (mp_map m)(k \<mapsto> v) \<and>
    mp_nTableSize m' = mp_nTableSize m \<and> mp_pPairs m' \<noteq> None \<and> mp_cleared m' = mp_cleared m \<and>
    mp_clearCb m' = mp_clearCb m \<and> mp_bAllowUpdate m' = mp_bAllowUpdate m"
proof -
  obtain d where d: "mp_pPairs m = Some d" using assms(2) by auto
  from w d room show ?thesis
  proof (rule GetHash_room [of m d k])
    fix j assume j: "XMap_GetHash m k = Some (int j)" "j < mp_nTableSize m"
      "holds_key d j k \<or> mp_eStatus (d ! j) \<noteq> XMAP_PAIR_USED \<and> reachable d (home (mp_nTableSize m) k) (mp_nTableSize m) j \<and>
        map_of (used_pairs d) k = None" "ppeek d (int j) = Some (d ! j)"
    from store_step [OF w d j(2,3), of v] j(1,4) d show ?thesis by (auto simp: XMap_PutRaw_def)
  qed
qed

lemma refill_spec:
  assumes "mp_wf m" "mp_pPairs m \<noteq> None" "\<forall>p \<in> set ps. mp_eStatus p = XMAP_PAIR_USED \<longrightarrow> mp_pKey p \<noteq> None"
    "distinct (map fst (used_pairs ps))" "fst ` set (used_pairs ps) \<inter> dom (mp_map m) = {}"
    "mp_nCount m + length (used_pairs ps) \<le> mp_nTableSize m"
  shows "\<exists>m'. refill m ps = Some (m', XMAP_OK) \<and> mp_wf m' \<and> mp_map m' = mp_map m ++ map_of (used_pairs ps) \<and>
    mp_nTableSize m' = mp_nTableSize m \<and> mp_pPairs m' \<noteq> None \<and> mp_cleared m' = mp_cleared m \<and>
    mp_clearCb m' = mp_clearCb m \<and> mp_bAllowUpdate m' = mp_bAllowUpdate m"
  using assms
proof (induction ps arbitrary: m)
  case Nil
  then show ?case by (simp add: used_pairs_def)
next
  case (Cons p ps)
  show ?case
  proof (cases "mp_eStatus p = XMAP_PAIR_USED")
    case False
    then have "used_pairs (p # ps) = used_pairs ps" by (simp add: used_pairs_def upair_def)
    with Cons False show ?thesis by simp
  next
    case True
    then obtain k where k: "mp_pKey p = Some k" using Cons.prems(3) by auto
    have up: "used_pairs (p # ps) = (k, mp_pData p) # used_pairs ps"
      using True k by (simp add: used_pairs_def upair_def)
    have "mp_nCount m < mp_nTableSize m" using Cons.prems(6) up by simp
    from PutRaw_spec [OF Cons.prems(1,2) this, of k "mp_pData p"] obtain m1 where
      m1: "XMap_PutRaw m k (mp_pData p) = Some (m1, XMAP_OK)" "mp_wf m1" "mp_map m1 = (mp_map m)(k \<mapsto> mp_pData p)"
      "mp_nTableSize m1 = mp_nTableSize m" "mp_pPairs m1 \<noteq> None" "mp_cleared m1 = mp_cleared m"
      "mp_clearCb m1 = mp_clearCb m" "mp_bAllowUpdate m1 = mp_bAllowUpdate m" by blast
    have nk: "k \<notin> dom (mp_map m)" using Cons.prems(5) up by auto
    have "mp_nCount m1 = Suc (mp_nCount m)"
      using nk wf_dom_finite [of m] unfolding wf_count [OF m1(2)] wf_count [OF Cons.prems(1)] m1(3) by simp
    then have room: "mp_nCount m1 + length (used_pairs ps) \<le> mp_nTableSize m1" using Cons.prems(6) up m1(4) by simp
    have dj: "fst ` set (used_pairs ps) \<inter> dom (mp_map m1) = {}" using Cons.prems(4,5) up unfolding m1(3) by auto
    have dist: "distinct (map fst (used_pairs ps))" using Cons.prems(4) up by simp
    have keys: "\<forall>p \<in> set ps. mp_eStatus p = XMAP_PAIR_USED \<longrightarrow> mp_pKey p \<noteq> None" using Cons.prems(3) by simp
    from Cons.IH [OF m1(2,5) keys dist dj room]
    have "\<exists>m'. refill m1 ps = Some (m', XMAP_OK) \<and> mp_wf m' \<and> mp_map m' = mp_map m1 ++ map_of (used_pairs ps) \<and>
      mp_nTableSize m' = mp_nTableSize m1 \<and> mp_pPairs m' \<noteq> None \<and> mp_cleared m' = mp_cleared m1 \<and>
      mp_clearCb m' = mp_clearCb m1 \<and> mp_bAllowUpdate m' = mp_bAllowUpdate m1" .
    moreover have "mp_map m1 ++ map_of (used_pairs ps) = mp_map m ++ map_of (used_pairs (p # ps))"
      using Cons.prems(4) unfolding m1(3) up by (simp add: map_add_upd_left dom_map_of_conv_image_fst)
    ultimately show ?thesis using True k m1 by auto
  qed
qed

text \<open>Moving all pairs into a fresh table of at least the same size.\<close>

lemma refill_fresh:
  assumes w: "mp_wf m" and d: "mp_pPairs m = Some d" and n: "mp_nTableSize m \<le> n" "n < 2 ^ 31"
  shows "\<exists>m'. refill (m\<lparr>mp_pPairs := Some (replicate n empty_pair), mp_nTableSize := n, mp_nDeleted := 0, mp_nCount := 0\<rparr>) d =
      Some (m', XMAP_OK) \<and> mp_wf m' \<and> mp_map m' = mp_map m \<and> mp_nTableSize m' = n \<and> mp_pPairs m' \<noteq> None \<and>
      mp_cleared m' = mp_cleared m \<and> mp_clearCb m' = mp_clearCb m \<and> mp_bAllowUpdate m' = mp_bAllowUpdate m"
proof -
  note W = wf_table [OF w d]
  note T = tbl_okD [OF W(1)]
  let ?m = "m\<lparr>mp_pPairs := Some (replicate n empty_pair), mp_nTableSize := n, mp_nDeleted := 0, mp_nCount := 0\<rparr>"
  have "mp_wf ?m" using empty_tbl [of n] n T(2) by (intro wfI [of _ "replicate n empty_pair"]) auto
  moreover have e: "mp_map ?m = Map.empty" by (simp add: mp_map_def)
  moreover have "\<forall>p \<in> set d. mp_eStatus p = XMAP_PAIR_USED \<longrightarrow> mp_pKey p \<noteq> None"
    using T(1,5) by (fastforce simp: in_set_conv_nth holds_key_def)
  moreover have "length (used_pairs d) \<le> n" using used_pairs_length [of d] T(1) n by simp
  ultimately obtain m' where "refill ?m d = Some (m', XMAP_OK)" "mp_wf m'" "mp_map m' = Map.empty ++ map_of (used_pairs d)"
    "mp_nTableSize m' = n" "mp_pPairs m' \<noteq> None" "mp_cleared m' = mp_cleared m" "mp_clearCb m' = mp_clearCb m"
    "mp_bAllowUpdate m' = mp_bAllowUpdate m"
    using refill_spec [of ?m d] T(4) by auto
  then show ?thesis using W(4) by auto
qed

lemma Realloc_map:
  assumes w: "mp_wf m" and n: "mp_nTableSize m < 2 ^ 30"
  defines "n' \<equiv> if mp_nTableSize m \<noteq> 0 then mp_nTableSize m * 2 else 64"
  shows "\<exists>m'. XMap_Realloc ok m = Some (m', if ok n' then XMAP_OK else XMAP_OMEM) \<and> mp_wf m' \<and> mp_map m' = mp_map m \<and>
    (ok n' \<longrightarrow> mp_nTableSize m' = n' \<and> mp_pPairs m' \<noteq> None) \<and> (\<not> ok n' \<longrightarrow> m' = m) \<and>
    mp_cleared m' = mp_cleared m \<and> mp_clearCb m' = mp_clearCb m \<and> mp_bAllowUpdate m' = mp_bAllowUpdate m"
proof (cases "ok n'")
  case False
  then show ?thesis using w n by (auto simp: XMap_Realloc_def n'_def Let_def)
next
  case True
  have n': "mp_nTableSize m \<le> n'" "n' < 2 ^ 31" "0 < n'" using n by (auto simp: n'_def)
  show ?thesis
  proof (cases "mp_pPairs m")
    case None
    let ?m = "m\<lparr>mp_pPairs := Some (replicate n' empty_pair), mp_nTableSize := n', mp_nDeleted := 0, mp_nCount := 0\<rparr>"
    have "mp_wf ?m" using empty_tbl [of n'] n' by (intro wfI [of _ "replicate n' empty_pair"]) auto
    moreover have "mp_map ?m = mp_map m" using None by (simp add: mp_map_def)
    moreover have "XMap_Realloc ok m = Some (?m, XMAP_OK)"
      using None n True unfolding n'_def by (auto simp: XMap_Realloc_def Let_def)
    ultimately show ?thesis using True by auto
  next
    case (Some d)
    note T = tbl_okD [OF wf_table(1) [OF w Some]]
    from refill_fresh [OF w Some n'(1,2)] obtain m' where
      m': "refill (m\<lparr>mp_pPairs := Some (replicate n' empty_pair), mp_nTableSize := n', mp_nDeleted := 0, mp_nCount := 0\<rparr>) d = Some (m', XMAP_OK)"
      "mp_wf m'" "mp_map m' = mp_map m" "mp_nTableSize m' = n'" "mp_pPairs m' \<noteq> None"
      "mp_cleared m' = mp_cleared m" "mp_clearCb m' = mp_clearCb m" "mp_bAllowUpdate m' = mp_bAllowUpdate m" by blast
    have "mread d 0 (mp_nTableSize m) = Some d" using T(1) by (simp add: mread_def)
    then have "XMap_Realloc ok m = Some (m', XMAP_OK)"
      using Some n True m'(1) unfolding n'_def by (auto simp: XMap_Realloc_def Let_def)
    with m' True show ?thesis by auto
  qed
qed

lemma Rehash_map:
  assumes w: "mp_wf m" and d: "mp_pPairs m \<noteq> None"
  shows "\<exists>m'. XMap_Rehash ok m = Some (m', if ok then XMAP_OK else XMAP_OMEM) \<and> mp_wf m' \<and> mp_map m' = mp_map m \<and>
    mp_nTableSize m' = mp_nTableSize m \<and> mp_pPairs m' \<noteq> None \<and> mp_cleared m' = mp_cleared m \<and> mp_clearCb m' = mp_clearCb m \<and>
    mp_bAllowUpdate m' = mp_bAllowUpdate m"
proof -
  obtain d where d: "mp_pPairs m = Some d" using assms(2) by auto
  note T = tbl_okD [OF wf_table(1) [OF w d]]
  have md: "mread d 0 (mp_nTableSize m) = Some d" using T(1) by (simp add: mread_def)
  show ?thesis
  proof (cases ok)
    case False
    then show ?thesis using w d T(2) by (simp add: XMap_Rehash_def)
  next
    case True
    from refill_fresh [OF w d order_refl T(3)] obtain m' where
      m': "refill (m\<lparr>mp_pPairs := Some (replicate (mp_nTableSize m) empty_pair), mp_nDeleted := 0, mp_nCount := 0\<rparr>) d = Some (m', XMAP_OK)"
      "mp_wf m'" "mp_map m' = mp_map m" "mp_nTableSize m' = mp_nTableSize m" "mp_pPairs m' \<noteq> None"
      "mp_cleared m' = mp_cleared m" "mp_clearCb m' = mp_clearCb m" "mp_bAllowUpdate m' = mp_bAllowUpdate m" by auto
    then show ?thesis using True d T(2) md by (simp add: XMap_Rehash_def)
  qed
qed

text \<open>A map without tombstones gets none by an insertion.\<close>

lemma store_no_tombstone: "store_pair (count_slot m st) h p = Some m' \<Longrightarrow> mp_nDeleted m = 0 \<Longrightarrow> mp_nDeleted m' = 0"
  by (auto simp: store_pair_def count_slot_def split: bind_splits)

lemma PutRaw_no_tombstone: "XMap_PutRaw m k v = Some (m', st) \<Longrightarrow> mp_nDeleted m = 0 \<Longrightarrow> mp_nDeleted m' = 0"
  by (auto simp: XMap_PutRaw_def split: bind_splits if_splits dest: store_no_tombstone)

lemma refill_no_tombstone: "refill m ps = Some (m', st) \<Longrightarrow> mp_nDeleted m = 0 \<Longrightarrow> mp_nDeleted m' = 0"
proof (induction ps arbitrary: m)
  case (Cons p ps)
  show ?case
  proof (cases "mp_eStatus p = XMAP_PAIR_USED \<and> mp_pKey p \<noteq> None")
    case True
    then obtain k where k: "mp_pKey p = Some k" by auto
    with True Cons.prems(1) obtain m1 st1 where m1: "XMap_PutRaw m k (mp_pData p) = Some (m1, st1)"
      "if st1 \<noteq> XMAP_OK then m' = m1 else refill m1 ps = Some (m', st)" by (auto split: bind_splits if_splits)
    with PutRaw_no_tombstone [OF m1(1) Cons.prems(2)] Cons.IH [of m1] show ?thesis by (simp split: if_splits)
  next
    case False
    with Cons.prems Cons.IH [of m] show ?thesis by (auto split: if_splits)
  qed
qed simp

lemma Realloc_clean: "XMap_Realloc ok m = Some (m', XMAP_OK) \<Longrightarrow> mp_nDeleted m' = 0"
  by (auto simp: XMap_Realloc_def Let_def split: bind_splits if_splits option.splits prod.splits dest!: refill_no_tombstone)

lemma Rehash_clean: "XMap_Rehash ok m = Some (m', XMAP_OK) \<Longrightarrow> mp_nDeleted m' = 0"
  by (auto simp: XMap_Rehash_def split: bind_splits if_splits option.splits prod.splits dest!: refill_no_tombstone)

text \<open>
  The tail of \<open>XMap_Put\<close>, once the table has room: the key's slot is found without growing, and the
  pair is stored or an existing key is refused; the outcome of a rehash only decides the status.
\<close>

lemma put_placed:
  assumes w: "mp_wf m" and d: "mp_pPairs m = Some d" and room: "mp_nCount m < mp_nTableSize m"
  obtains j m' where "XMap_GetHash m k = Some (int j)" "ppeek d (int j) = Some (d ! j)" "j < mp_nTableSize m"
    "mp_eStatus (d ! j) = XMAP_PAIR_USED \<longleftrightarrow> k \<in> dom (mp_map m)"
    "store_pair (count_slot m (mp_eStatus (d ! j))) (int j) \<lparr>mp_eStatus = XMAP_PAIR_USED, mp_pKey = Some k, mp_pData = v\<rparr> = Some m'"
    "mp_wf m'" "mp_map m' = (mp_map m)(k \<mapsto> v)" "mp_nTableSize m' = mp_nTableSize m" "mp_pPairs m' \<noteq> None"
    "mp_cleared m' = mp_cleared m" "mp_clearCb m' = mp_clearCb m" "mp_bAllowUpdate m' = mp_bAllowUpdate m"
proof -
  from w d room show ?thesis
  proof (rule GetHash_room [of m d k])
    fix j assume j: "XMap_GetHash m k = Some (int j)" "j < mp_nTableSize m"
      "holds_key d j k \<or> mp_eStatus (d ! j) \<noteq> XMAP_PAIR_USED \<and> reachable d (home (mp_nTableSize m) k) (mp_nTableSize m) j \<and>
        map_of (used_pairs d) k = None" "mp_eStatus (d ! j) = XMAP_PAIR_USED \<longleftrightarrow> k \<in> dom (mp_map m)"
      "ppeek d (int j) = Some (d ! j)"
    from store_step [OF w d j(2,3), of v] obtain m' where
      "store_pair (count_slot m (mp_eStatus (d ! j))) (int j) \<lparr>mp_eStatus = XMAP_PAIR_USED, mp_pKey = Some k, mp_pData = v\<rparr> = Some m'"
      "mp_wf m'" "mp_map m' = (mp_map m)(k \<mapsto> v)" "mp_nTableSize m' = mp_nTableSize m" "mp_pPairs m' \<noteq> None"
      "mp_cleared m' = mp_cleared m" "mp_clearCb m' = mp_clearCb m" "mp_bAllowUpdate m' = mp_bAllowUpdate m" by blast
    then show ?thesis using that [of j m'] j by blast
  qed
qed

lemma grow_loop_done: "h \<noteq> XMAP_FULL \<Longrightarrow> grow_loop ok m k h = Some (m, h)"
  by (subst grow_loop.simps) simp

definition put_tail :: "bool \<Rightarrow> 'v xmap \<Rightarrow> byte list \<Rightarrow> 'v option \<Rightarrow> int \<Rightarrow> ('v xmap \<times> int) option" where
  "put_tail ok' m k v h =
     (if h < 0 then Some (m, h)
      else do {
        d \<leftarrow> mp_pPairs m;
        p \<leftarrow> ppeek d h;
        let m1 = count_slot m (mp_eStatus p);
        if mp_eStatus p = XMAP_PAIR_USED \<and> \<not> mp_bAllowUpdate m then Some (m1, XMAP_EEXIST)
        else do {
          m2 \<leftarrow> store_pair m1 h \<lparr>mp_eStatus = XMAP_PAIR_USED, mp_pKey = Some k, mp_pData = v\<rparr>;
          if mp_nTableSize m2 div 4 < mp_nDeleted m2
          then do { (m3, st) \<leftarrow> XMap_Rehash ok' m2; Some (m3, if st < 0 then st else XMAP_OK) }
          else Some (m2, XMAP_OK) } })"

lemma Put_tail:
  "XMap_Put ok ok' m k v = do {
     (m, st) \<leftarrow> (if mp_nTableSize m = 0 \<or> mp_pPairs m = None \<or> mp_nTableSize m * 7 \<le> mp_nCount m * 10
                 then XMap_Realloc ok m else Some (m, XMAP_OK));
     if st < 0 then Some (m, st)
     else do { h \<leftarrow> XMap_GetHash m k; (m, h) \<leftarrow> grow_loop ok m k h; put_tail ok' m k v h } }"
  unfolding XMap_Put_def put_tail_def by (rule refl)

text \<open>What \<open>XMap_Put\<close> does to the map and reports, apart from failing to grow.\<close>

definition put_outcome :: "bool \<Rightarrow> 'v xmap \<Rightarrow> byte list \<Rightarrow> 'v option \<Rightarrow> 'v xmap \<Rightarrow> int \<Rightarrow> bool" where
  "put_outcome ok' m k v m' st \<longleftrightarrow>
     mp_wf m' \<and> mp_cleared m' = mp_cleared m \<and> mp_clearCb m' = mp_clearCb m \<and> mp_bAllowUpdate m' = mp_bAllowUpdate m \<and>
     (if k \<in> dom (mp_map m) \<and> \<not> mp_bAllowUpdate m then st = XMAP_EEXIST \<and> mp_map m' = mp_map m
      else mp_map m' = (mp_map m)(k \<mapsto> v) \<and> (st = XMAP_OK \<or> st = XMAP_OMEM \<and> \<not> ok'))"

lemma put_tail_spec:
  assumes w: "mp_wf m" and d: "mp_pPairs m \<noteq> None" and room: "mp_nCount m < mp_nTableSize m"
  shows "\<exists>h m' st. XMap_GetHash m k = Some h \<and> grow_loop ok m k h = Some (m, h) \<and> put_tail ok' m k v h = Some (m', st) \<and>
    put_outcome ok' m k v m' st \<and> mp_nTableSize m' = mp_nTableSize m \<and> mp_pPairs m' \<noteq> None"
proof -
  obtain d where d: "mp_pPairs m = Some d" using assms(2) by auto
  obtain j m' where j: "XMap_GetHash m k = Some (int j)" "ppeek d (int j) = Some (d ! j)"
    "mp_eStatus (d ! j) = XMAP_PAIR_USED \<longleftrightarrow> k \<in> dom (mp_map m)"
    and m': "store_pair (count_slot m (mp_eStatus (d ! j))) (int j) \<lparr>mp_eStatus = XMAP_PAIR_USED, mp_pKey = Some k, mp_pData = v\<rparr> = Some m'"
    "mp_wf m'" "mp_map m' = (mp_map m)(k \<mapsto> v)" "mp_pPairs m' \<noteq> None" "mp_nTableSize m' = mp_nTableSize m"
    "mp_cleared m' = mp_cleared m" "mp_clearCb m' = mp_clearCb m" "mp_bAllowUpdate m' = mp_bAllowUpdate m"
    by (rule put_placed [OF w d room, of k v]) blast
  have "\<exists>m' st. put_tail ok' m k v (int j) = Some (m', st) \<and> put_outcome ok' m k v m' st \<and>
    mp_nTableSize m' = mp_nTableSize m \<and> mp_pPairs m' \<noteq> None"
  proof (cases "k \<in> dom (mp_map m) \<and> \<not> mp_bAllowUpdate m")
    case True
    then have "count_slot m (mp_eStatus (d ! j)) = m" using j(3) by (simp add: count_slot_def)
    then show ?thesis using True d j w by (simp add: put_tail_def put_outcome_def)
  next
    case False
    then have nu: "\<not> (mp_eStatus (d ! j) = XMAP_PAIR_USED \<and> \<not> mp_bAllowUpdate m)" using j(3) by blast
    show ?thesis
    proof (cases "mp_nTableSize m' div 4 < mp_nDeleted m'")
      case True
      from Rehash_map [OF m'(2,4), of ok'] obtain m3 where
        m3: "XMap_Rehash ok' m' = Some (m3, if ok' then XMAP_OK else XMAP_OMEM)" "mp_wf m3" "mp_map m3 = mp_map m'"
        "mp_nTableSize m3 = mp_nTableSize m'" "mp_pPairs m3 \<noteq> None"
        "mp_cleared m3 = mp_cleared m'" "mp_clearCb m3 = mp_clearCb m'" "mp_bAllowUpdate m3 = mp_bAllowUpdate m'" by blast
      have "put_tail ok' m k v (int j) = Some (m3, if ok' then XMAP_OK else XMAP_OMEM)"
        using True nu d j m'(1) m3(1) by (simp add: put_tail_def Let_def)
      moreover have "put_outcome ok' m k v m3 (if ok' then XMAP_OK else XMAP_OMEM)"
        using False m3 m' by (simp add: put_outcome_def)
      ultimately show ?thesis using m3(4,5) m'(5) by metis
    next
      case no: False
      have "put_tail ok' m k v (int j) = Some (m', XMAP_OK)"
        using no nu d j m'(1) by (simp add: put_tail_def Let_def)
      moreover have "put_outcome ok' m k v m' XMAP_OK" using False m' by (simp add: put_outcome_def)
      ultimately show ?thesis using m'(4,5) by blast
    qed
  qed
  then show ?thesis using j(1) grow_loop_done [of "int j" ok m k] by auto
qed

definition grown :: "'v xmap \<Rightarrow> nat" where
  "grown m = (if mp_nTableSize m \<noteq> 0 then mp_nTableSize m * 2 else 64)"

definition crowded :: "'v xmap \<Rightarrow> bool" where
  "crowded m \<longleftrightarrow> mp_nTableSize m = 0 \<or> mp_pPairs m = None \<or> mp_nTableSize m * 7 \<le> mp_nCount m * 10"

lemma Put_spec:
  assumes w: "mp_wf m" and n: "mp_nTableSize m < 2 ^ 30"
  shows "\<exists>m' st. XMap_Put ok ok' m k v = Some (m', st) \<and>
    (if crowded m \<and> \<not> ok (grown m) then st = XMAP_OMEM \<and> m' = m
     else put_outcome ok' m k v m' st \<and> mp_pPairs m' \<noteq> None \<and>
       mp_nTableSize m' = (if crowded m then grown m else mp_nTableSize m))"
proof (cases "crowded m")
  case False
  then have d: "mp_pPairs m \<noteq> None" "mp_nCount m < mp_nTableSize m" by (auto simp: crowded_def)
  from put_tail_spec [OF w d, of k ok ok' v] False show ?thesis by (auto simp: Put_tail crowded_def)
next
  case True
  obtain m1 where m1: "XMap_Realloc ok m = Some (m1, if ok (grown m) then XMAP_OK else XMAP_OMEM)" "mp_wf m1" "mp_map m1 = mp_map m"
    "ok (grown m) \<longrightarrow> mp_nTableSize m1 = grown m \<and> mp_pPairs m1 \<noteq> None" "\<not> ok (grown m) \<longrightarrow> m1 = m"
    "mp_cleared m1 = mp_cleared m" "mp_clearCb m1 = mp_clearCb m" "mp_bAllowUpdate m1 = mp_bAllowUpdate m"
    using Realloc_map [OF w n, of ok] unfolding grown_def by blast
  have put: "XMap_Put ok ok' m k v = do { (m, st) \<leftarrow> XMap_Realloc ok m; if st < 0 then Some (m, st)
      else do { h \<leftarrow> XMap_GetHash m k; (m, h) \<leftarrow> grow_loop ok m k h; put_tail ok' m k v h } }"
    unfolding Put_tail using True by (simp add: crowded_def)
  show ?thesis
  proof (cases "ok (grown m)")
    case no: False
    then show ?thesis using True m1 by (simp add: put)
  next
    case yes: True
    have "mp_nCount m1 = mp_nCount m" using wf_count [OF m1(2)] wf_count [OF w] m1(3) by simp
    moreover have "mp_nCount m < grown m"
    proof (cases "mp_pPairs m")
      case None
      then show ?thesis using w by (simp add: mp_wf_def grown_def)
    next
      case (Some d)
      note T = tbl_okD [OF wf_table(1) [OF w Some]]
      show ?thesis using wf_table(2) [OF w Some] used_pairs_length [of d] T(1,2) by (simp add: grown_def)
    qed
    ultimately have room: "mp_nCount m1 < mp_nTableSize m1" using m1(4) yes by simp
    have p1: "mp_pPairs m1 \<noteq> None" "mp_nTableSize m1 = grown m" using m1(4) yes by auto
    from put_tail_spec [OF m1(2) p1(1) room, of k ok ok' v] obtain h m' st where h:
      "XMap_GetHash m1 k = Some h" "grow_loop ok m1 k h = Some (m1, h)" "put_tail ok' m1 k v h = Some (m', st)"
      "put_outcome ok' m1 k v m' st" "mp_nTableSize m' = grown m" "mp_pPairs m' \<noteq> None" unfolding p1(2) by blast
    have "put_outcome ok' m k v m' st" using h(4) m1 by (simp add: put_outcome_def)
    moreover have "XMap_Put ok ok' m k v = Some (m', st)" using yes m1(1) h(1-3) by (simp add: put)
    ultimately show ?thesis using yes True h(5,6) by simp
  qed
qed

lemma map_Get_spec:
  assumes w: "mp_wf m"
  shows "XMap_GetPair m k = Some (map_option (\<lambda>v. \<lparr>mp_eStatus = XMAP_PAIR_USED, mp_pKey = Some k, mp_pData = v\<rparr>) (mp_map m k))"
    "XMap_Get m k = Some (case mp_map m k of None \<Rightarrow> None | Some v \<Rightarrow> v)"
proof -
  have "XMap_GetPair m k = Some (map_option (\<lambda>v. \<lparr>mp_eStatus = XMAP_PAIR_USED, mp_pKey = Some k, mp_pData = v\<rparr>) (mp_map m k)) \<and>
    XMap_Get m k = Some (case mp_map m k of None \<Rightarrow> None | Some v \<Rightarrow> v)"
  proof (cases "mp_pPairs m")
    case None
    then show ?thesis by (simp add: XMap_GetPair_def XMap_Get_def XMap_GetIndex_def mp_map_def)
  next
    case (Some d)
    note W = wf_table [OF w Some]
    note T = tbl_okD [OF W(1)]
    note H = Hash_home [OF T(2,3), of k]
    from W(1) show ?thesis
    proof (cases rule: lookup_spec [of d "mp_nTableSize m" k])
      case (found j)
      then have "ppeek d (int j) = Some (d ! j)" using T(1) by (simp add: ppeek_def peek_def)
      moreover have "d ! j = \<lparr>mp_eStatus = XMAP_PAIR_USED, mp_pKey = Some k, mp_pData = mp_pData (d ! j)\<rparr>"
        using found(3) by (simp add: holds_key_def xmap_pair.equality)
      ultimately show ?thesis using found Some H W(4) by (simp add: XMap_GetPair_def XMap_Get_def XMap_GetIndex_def Let_def)
    next
      case missing
      then show ?thesis using Some H W(4) by (simp add: XMap_GetPair_def XMap_Get_def XMap_GetIndex_def Let_def)
    qed
  qed
  then show "XMap_GetPair m k = Some (map_option (\<lambda>v. \<lparr>mp_eStatus = XMAP_PAIR_USED, mp_pKey = Some k, mp_pData = v\<rparr>) (mp_map m k))"
    "XMap_Get m k = Some (case mp_map m k of None \<Rightarrow> None | Some v \<Rightarrow> v)" by blast+
qed

lemma map_Remove_spec:
  assumes w: "mp_wf m"
  shows "\<exists>m'. XMap_Remove m k = Some (m', if mp_pPairs m = None then XMAP_EINIT
      else if k \<in> dom (mp_map m) then XMAP_OK else XMAP_MISSING) \<and>
    mp_wf m' \<and> mp_map m' = (mp_map m)(k := None) \<and> mp_nTableSize m' = mp_nTableSize m \<and>
    (mp_pPairs m' = None \<longleftrightarrow> mp_pPairs m = None) \<and> mp_bAllowUpdate m' = mp_bAllowUpdate m \<and> mp_clearCb m' = mp_clearCb m \<and>
    mp_cleared m' = mp_cleared m @ (case mp_map m k of
      Some v \<Rightarrow> if mp_clearCb m then [\<lparr>mp_eStatus = XMAP_PAIR_USED, mp_pKey = Some k, mp_pData = v\<rparr>] else []
    | None \<Rightarrow> [])"
proof (cases "mp_pPairs m")
  case None
  then show ?thesis using w by (simp add: XMap_Remove_def mp_map_def)
next
  case (Some d)
  note W = wf_table [OF w Some]
  note T = tbl_okD [OF W(1)]
  note H = Hash_home [OF T(2,3), of k]
  from W(1) show ?thesis
  proof (cases rule: lookup_spec [of d "mp_nTableSize m" k])
    case (found j)
    note S = tombstone_tbl [OF W(1) found(2,3)]
    let ?d = "d[j := \<lparr>mp_eStatus = XMAP_PAIR_DELETED, mp_pKey = None, mp_pData = None\<rparr>]"
    let ?m = "m\<lparr>mp_pPairs := Some ?d, mp_nDeleted := mp_nDeleted m + 1, mp_nCount := mp_nCount m - 1,
      mp_cleared := mp_cleared m @ (if mp_clearCb m then [d ! j] else [])\<rparr>"
    have pk: "ppeek d (int j) = Some (d ! j)" using found(2) T(1) by (simp add: ppeek_def peek_def)
    have dj: "d ! j = \<lparr>mp_eStatus = XMAP_PAIR_USED, mp_pKey = Some k, mp_pData = mp_pData (d ! j)\<rparr>"
      using found(3) by (simp add: holds_key_def xmap_pair.equality)
    have "XMap_Remove m k = Some (?m, XMAP_OK)"
      using found(1,2) Some H T(1) by (simp add: XMap_Remove_def pk store_pair_def poke_def)
    moreover have "mp_wf ?m" using S W(2,3) by (intro wfI [of _ ?d]) auto
    moreover have "mp_map ?m = (mp_map m)(k := None)" using S(2) W(4) by (simp add: mp_map_def)
    moreover have "k \<in> dom (mp_map m)" "mp_map m k = Some (mp_pData (d ! j))" using found(4) W(4) by auto
    ultimately show ?thesis using Some dj by (intro exI [of _ ?m]) simp
  next
    case missing
    then have "(mp_map m)(k := None) = mp_map m" "k \<notin> dom (mp_map m)" using W(4) by auto
    moreover have "XMap_Remove m k = Some (m, XMAP_MISSING)" using missing Some H by (simp add: XMap_Remove_def)
    ultimately show ?thesis using w Some missing W(4) by simp
  qed
qed

text \<open>\<open>XMap_Reset\<close> hands every used pair to \<open>clearCb\<close> in table order and leaves an all-unused table.\<close>

lemma reset_pairs_spec:
  "reset_pairs ps = (qs, c) \<Longrightarrow> length qs = length ps \<and> used_pairs qs = [] \<and> deleted_pairs qs = 0 \<and>
     c = filter (\<lambda>p. mp_eStatus p = XMAP_PAIR_USED) ps \<and> (\<forall>q \<in> set qs. mp_eStatus q = XMAP_PAIR_UNUSED)"
proof (induction ps arbitrary: qs c)
  case (Cons p ps)
  obtain qs' c' where r: "reset_pairs ps = (qs', c')" by (cases "reset_pairs ps")
  from Cons.IH [OF r] Cons.prems r show ?case
    by (cases "mp_eStatus p") (auto simp: used_pairs_def upair_def deleted_pairs_def empty_pair_def)
qed (auto simp: used_pairs_def deleted_pairs_def)

lemma Reset_spec:
  assumes w: "mp_wf m"
  shows "\<exists>m'. XMap_Reset m = Some m' \<and> mp_wf m' \<and> mp_map m' = Map.empty \<and> mp_nCount m' = 0 \<and> mp_nTableSize m' = mp_nTableSize m \<and>
    mp_cleared m' = mp_cleared m @ (case mp_pPairs m of None \<Rightarrow> []
      | Some d \<Rightarrow> if mp_clearCb m then filter (\<lambda>p. mp_eStatus p = XMAP_PAIR_USED) d else [])"
proof (cases "mp_pPairs m")
  case None
  then show ?thesis using w by (simp add: XMap_Reset_def mp_map_def mp_wf_def)
next
  case (Some d)
  note W = wf_table [OF w Some]
  note T = tbl_okD [OF W(1)]
  obtain qs c where r: "reset_pairs d = (qs, c)" by (cases "reset_pairs d")
  note R = reset_pairs_spec [OF r]
  let ?m = "m\<lparr>mp_pPairs := Some qs, mp_nDeleted := 0, mp_nCount := 0, mp_cleared := mp_cleared m @ (if mp_clearCb m then c else [])\<rparr>"
  have "tbl_ok qs (mp_nTableSize m)" using R T by (intro tbl_okI) auto
  then have "mp_wf ?m" using R by (intro wfI [of _ qs]) auto
  moreover have "XMap_Reset m = Some ?m" using Some r T(1) by (simp add: XMap_Reset_def mread_def)
  ultimately show ?thesis using R Some by (simp add: mp_map_def)
qed

lemma Init_spec:
  assumes "n < 2 ^ 31"
  shows "mp_wf (fst (XMap_Init ok junk n))" "mp_map (fst (XMap_Init ok junk n)) = Map.empty"
    "mp_nTableSize (fst (XMap_Init ok junk n)) = n" "mp_bAllowUpdate (fst (XMap_Init ok junk n))"
  using empty_tbl [of n] assms by (auto simp: XMap_Init_def XMap_Alloc_def mp_wf_def mp_map_def)

lemma iterate_continue:
  "iterate_pairs (\<lambda>p x. (XMAP_OK, f p x)) x ps = (XMAP_OK, fold f (filter (\<lambda>p. mp_eStatus p = XMAP_PAIR_USED) ps) x)"
  by (induction ps arbitrary: x) auto

lemma used_pairs_filter:
  "used_pairs d = map (\<lambda>p. (the (mp_pKey p), mp_pData p)) (filter (\<lambda>p. mp_eStatus p = XMAP_PAIR_USED) d)"
  by (induction d) (auto simp: used_pairs_def upair_def)

section \<open>When the table is rehashed\<close>

text \<open>
  Whether the tombstones that remain after storing under \<open>k\<close> are more than a quarter of the table: the place
  found for the key may be one of them.
\<close>

definition pressure :: "'v xmap \<Rightarrow> byte list \<Rightarrow> bool" where
  "pressure m k \<longleftrightarrow> (\<exists>d h p. mp_pPairs m = Some d \<and> XMap_GetHash m k = Some h \<and> ppeek d h = Some p \<and>
     mp_nTableSize m div 4 < mp_nDeleted m - (if mp_eStatus p = XMAP_PAIR_DELETED then 1 else 0))"

lemma put_tail_no_tombstone:
  assumes "mp_nDeleted m = 0"
  shows "put_tail ok' m k v h = put_tail True m k v h" "put_tail True m k v h = Some (m', st) \<Longrightarrow> mp_nDeleted m' = 0"
proof -
  have n: "\<not> mp_nTableSize m2 div 4 < mp_nDeleted m2" if "store_pair (count_slot m s) i p = Some m2" for m2 s i p
    using store_no_tombstone [OF that assms] by simp
  show "put_tail ok' m k v h = put_tail True m k v h"
    unfolding put_tail_def Let_def by (intro if_cong Option.bind_cong refl) (auto dest: n)
  assume "put_tail True m k v h = Some (m', st)"
  then have "m' = m \<or> (\<exists>s. m' = count_slot m s) \<or> (\<exists>s i p. store_pair (count_slot m s) i p = Some m') \<or>
      (\<exists>s i p m2. store_pair (count_slot m s) i p = Some m2 \<and> mp_nTableSize m2 div 4 < mp_nDeleted m2)"
    unfolding put_tail_def Let_def by (simp split: if_splits bind_splits prod.splits) blast+
  then show "mp_nDeleted m' = 0"
  proof (elim disjE exE conjE)
    fix s i p assume "store_pair (count_slot m s) i p = Some m'"
    from store_no_tombstone [OF this assms] show ?thesis .
  next
    fix s i p m2 assume "store_pair (count_slot m s) i p = Some m2" "mp_nTableSize m2 div 4 < mp_nDeleted m2"
    with n show ?thesis by blast
  qed (use assms in \<open>simp_all add: count_slot_def\<close>)
qed

lemma put_tail_status:
  assumes w: "mp_wf m" and d: "mp_pPairs m \<noteq> None" and room: "mp_nCount m < mp_nTableSize m"
    and new: "\<not> (k \<in> dom (mp_map m) \<and> \<not> mp_bAllowUpdate m)" and h: "XMap_GetHash m k = Some h" "put_tail ok' m k v h = Some (m', st)"
  shows "st = (if pressure m k \<and> \<not> ok' then XMAP_OMEM else XMAP_OK) \<and> (pressure m k \<and> ok' \<longrightarrow> mp_nDeleted m' = 0)"
proof -
  obtain d where d: "mp_pPairs m = Some d" using assms(2) by auto
  obtain j m2 where j: "XMap_GetHash m k = Some (int j)" "ppeek d (int j) = Some (d ! j)"
    "mp_eStatus (d ! j) = XMAP_PAIR_USED \<longleftrightarrow> k \<in> dom (mp_map m)"
    and m2: "store_pair (count_slot m (mp_eStatus (d ! j))) (int j) \<lparr>mp_eStatus = XMAP_PAIR_USED, mp_pKey = Some k, mp_pData = v\<rparr> = Some m2"
    "mp_wf m2" "mp_pPairs m2 \<noteq> None" "mp_nTableSize m2 = mp_nTableSize m"
    by (rule put_placed [OF w d room, of k v]) blast
  have "mp_nDeleted m2 = mp_nDeleted m - (if mp_eStatus (d ! j) = XMAP_PAIR_DELETED then 1 else 0)"
    using m2(1) by (auto simp: store_pair_def count_slot_def split: bind_splits)
  then have due: "pressure m k \<longleftrightarrow> mp_nTableSize m2 div 4 < mp_nDeleted m2" using d j(1,2) m2(4) by (simp add: pressure_def)
  have nu: "\<not> (mp_eStatus (d ! j) = XMAP_PAIR_USED \<and> \<not> mp_bAllowUpdate m)" using j(3) new by blast
  have ev: "put_tail ok' m k v h = (if mp_nTableSize m2 div 4 < mp_nDeleted m2
      then do { (m3, st) \<leftarrow> XMap_Rehash ok' m2; Some (m3, if st < 0 then st else XMAP_OK) } else Some (m2, XMAP_OK))"
    using h(1) j(1,2) d m2(1) unfolding put_tail_def Let_def by (simp add: nu [simplified] if_not_P [OF nu])
  from Rehash_map [OF m2(2,3), of ok'] obtain m3 where m3: "XMap_Rehash ok' m2 = Some (m3, if ok' then XMAP_OK else XMAP_OMEM)" by blast
  show ?thesis using ev h(2) due m3 Rehash_clean [of ok' m2 m3] by (auto split: if_splits)
qed

lemma Put_status:
  assumes w: "mp_wf m" and n: "mp_nTableSize m < 2 ^ 30" and p: "XMap_Put ok ok' m k v = Some (m', st)"
    and room: "\<not> (crowded m \<and> \<not> ok (grown m))" and new: "\<not> (k \<in> dom (mp_map m) \<and> \<not> mp_bAllowUpdate m)"
  shows "st = (if \<not> crowded m \<and> pressure m k \<and> \<not> ok' then XMAP_OMEM else XMAP_OK) \<and>
    (crowded m \<or> pressure m k \<and> ok' \<longrightarrow> mp_nDeleted m' = 0)"
proof (cases "crowded m")
  case False
  then have d: "mp_pPairs m \<noteq> None" "mp_nCount m < mp_nTableSize m" by (auto simp: crowded_def)
  from put_tail_spec [OF w d, of k ok ok' v] obtain h m1 st1 where h: "XMap_GetHash m k = Some h" "grow_loop ok m k h = Some (m, h)"
    "put_tail ok' m k v h = Some (m1, st1)" by blast
  then have "XMap_Put ok ok' m k v = Some (m1, st1)" using False by (auto simp: Put_tail crowded_def)
  with p put_tail_status [OF w d new h(1,3)] False show ?thesis by simp
next
  case True
  with room have ok: "ok (grown m)" by blast
  obtain m1 where m1: "XMap_Realloc ok m = Some (m1, XMAP_OK)" "mp_wf m1" "mp_map m1 = mp_map m"
    "mp_nTableSize m1 = grown m" "mp_pPairs m1 \<noteq> None" "mp_bAllowUpdate m1 = mp_bAllowUpdate m"
    using Realloc_map [OF w n, of ok] ok unfolding grown_def by auto
  note z = Realloc_clean [OF m1(1)]
  have "mp_nCount m1 < mp_nTableSize m1"
  proof (cases "mp_pPairs m")
    case None
    then have "mp_nCount m = 0" using w by (simp add: mp_wf_def)
    then show ?thesis using wf_count [OF m1(2)] wf_count [OF w] m1(3,4) by (simp add: grown_def)
  next
    case (Some d)
    note T = tbl_okD [OF wf_table(1) [OF w Some]]
    show ?thesis using wf_count [OF m1(2)] wf_count [OF w] m1(3,4) wf_table(2) [OF w Some] used_pairs_length [of d] T(1,2)
      by (simp add: grown_def)
  qed
  from put_tail_spec [OF m1(2,5) this, of k ok ok' v] obtain h m2 st2 where h: "XMap_GetHash m1 k = Some h" "grow_loop ok m1 k h = Some (m1, h)"
    "put_tail ok' m1 k v h = Some (m2, st2)" by blast
  have "XMap_Put ok ok' m k v = Some (m2, st2)" using True m1(1) h by (simp add: Put_tail crowded_def)
  moreover have "put_tail True m1 k v h = Some (m2, st2)" using put_tail_no_tombstone(1) [OF z, of ok' k v h] h(3) by simp
  moreover have "\<not> pressure m1 k" using z by (simp add: pressure_def)
  ultimately show ?thesis
    using p True put_tail_no_tombstone(2) [OF z, of k v h m2 st2] put_tail_status [OF m1(2,5) \<open>mp_nCount m1 < mp_nTableSize m1\<close> _ h(1,3)] new m1(3,6)
    by simp
qed

section \<open>The map as a dictionary\<close>

text \<open>
  \<open>mp_ready m n\<close>: \<open>n\<close> more keys keep the table below \<open>2 ^ 30\<close> slots, since it only doubles when at
  least seven tenths of it are used.
\<close>

definition mp_ready :: "'v xmap \<Rightarrow> nat \<Rightarrow> bool" where
  "mp_ready m n \<longleftrightarrow> mp_wf m \<and> mp_bAllowUpdate m \<and> (mp_nCount m + n) * 10 < 2 ^ 29 * 7 \<and>
     mp_nTableSize m < (if mp_pPairs m = None then 2 ^ 29 else 2 ^ 30)"

lemma count_put: "finite (dom f) \<Longrightarrow> card (dom (f(k \<mapsto> v))) \<le> Suc (card (dom f))"
  by (simp add: card_insert_if)

lemma count_remove: "finite (dom f) \<Longrightarrow> card (dom (f(k := None))) \<le> card (dom f)"
  by (simp add: card_Diff1_le)

text \<open>
  What the status of an insertion says, when \<open>fst a\<close> and \<open>snd a\<close> answer the requests for a larger table and for
  a rehash: only an insertion that needed a larger table and did not get it is lost.
\<close>

definition put_says :: "(nat \<Rightarrow> bool) \<times> bool \<Rightarrow> int \<Rightarrow> bool \<Rightarrow> bool" where
  "put_says a st b \<longleftrightarrow> (if b then st = XMAP_OK \<or> st = XMAP_OMEM \<and> \<not> snd a else st = XMAP_OMEM \<and> (\<exists>n. \<not> fst a n))"

lemma ready_put:
  assumes r: "mp_ready m (Suc n)"
  shows "\<exists>m' st b. XMap_Put (fst a) (snd a) m k v = Some (m', st) \<and> put_says a st b \<and> mp_ready m' n \<and>
    mp_map m' = (if b then (mp_map m)(k \<mapsto> v) else mp_map m)"
proof -
  have w: "mp_wf m" and n: "mp_nTableSize m < 2 ^ 30" and au: "mp_bAllowUpdate m"
    using r by (auto simp: mp_ready_def split: if_splits)
  from Put_spec [OF w n, of "fst a" "snd a" k v] obtain m' st where p: "XMap_Put (fst a) (snd a) m k v = Some (m', st)"
    "if crowded m \<and> \<not> fst a (grown m) then st = XMAP_OMEM \<and> m' = m
     else put_outcome (snd a) m k v m' st \<and> mp_pPairs m' \<noteq> None \<and> mp_nTableSize m' = (if crowded m then grown m else mp_nTableSize m)" by blast
  show ?thesis
  proof (cases "crowded m \<and> \<not> fst a (grown m)")
    case True
    moreover have "mp_ready m n" using r by (simp add: mp_ready_def)
    ultimately show ?thesis using p by (intro exI [of _ m'] exI [of _ st] exI [of _ False]) (auto simp: put_says_def)
  next
    case False
    with p(2) have o: "put_outcome (snd a) m k v m' st" "mp_pPairs m' \<noteq> None"
      "mp_nTableSize m' = (if crowded m then grown m else mp_nTableSize m)" by simp_all
    have m': "mp_wf m'" "mp_map m' = (mp_map m)(k \<mapsto> v)" "put_says a st True" "mp_bAllowUpdate m'"
      using o(1) au by (auto simp: put_outcome_def put_says_def)
    have "mp_nCount m' \<le> Suc (mp_nCount m)"
      using count_put [OF wf_dom_finite, of m k v] unfolding wf_count [OF m'(1)] wf_count [OF w] m'(2) .
    moreover have "mp_nTableSize m' < 2 ^ 30"
      using o(3) r unfolding mp_ready_def crowded_def grown_def by (auto split: if_splits)
    ultimately have "mp_ready m' n" using r m' o(2) by (auto simp: mp_ready_def)
    with p(1) m' show ?thesis by (intro exI [of _ m'] exI [of _ st] exI [of _ True]) simp
  qed
qed

lemma ready_remove:
  assumes r: "mp_ready m n"
  shows "\<exists>m' st. XMap_Remove m k = Some (m', st) \<and> mp_ready m' n \<and> mp_map m' = (mp_map m)(k := None)"
proof -
  have w: "mp_wf m" using r by (simp add: mp_ready_def)
  from map_Remove_spec [OF w, of k] obtain m' st where
    p: "XMap_Remove m k = Some (m', st)" "mp_wf m'" "mp_map m' = (mp_map m)(k := None)" "mp_nTableSize m' = mp_nTableSize m"
    "mp_pPairs m' = None \<longleftrightarrow> mp_pPairs m = None" "mp_bAllowUpdate m' = mp_bAllowUpdate m"
    by (elim exE conjE) (rule that; assumption)
  have "mp_nCount m' \<le> mp_nCount m"
    using count_remove [OF wf_dom_finite, of m k] unfolding wf_count [OF p(2)] wf_count [OF w] p(3) .
  then have "mp_ready m' n" using r p by (auto simp: mp_ready_def)
  with p show ?thesis by auto
qed

interpretation mp: dict mp_ready mp_map put_says "\<lambda>a. XMap_Put (fst a) (snd a)" XMap_Remove XMap_Get "\<lambda>v. case v of None \<Rightarrow> None | Some v \<Rightarrow> v"
  by (unfold_locales; (erule ready_put | erule ready_remove | simp add: map_Get_spec mp_ready_def))

section \<open>Properties\<close>

text \<open>
  C19: \<open>XMap_Put\<close>. On a well-formed map below \<open>2 ^ 30\<close> slots it returns, stays in bounds and keeps the
  map well formed. When the table must grow (no table, or seven tenths used) and cannot, the map is
  unchanged and the status is \<open>XMAP_OMEM\<close>. Otherwise an existing key of a map that forbids updates is
  refused with \<open>XMAP_EEXIST\<close> and nothing changes; any other pair is stored, all other keys keep their
  values, and no pair is cleared. A table that did not grow is rehashed when the tombstones left are more than a quarter of it:
  no tombstone remains then, or, when the table for that cannot be allocated, the status is \<open>XMAP_OMEM\<close>
  although the pair has been stored. In all other cases the status of a stored pair is \<open>XMAP_OK\<close>.
\<close>

theorem map_put:
  assumes "mp_wf m" "mp_nTableSize m < 2 ^ 30"
  shows "\<exists>m' st. XMap_Put ok ok' m k v = Some (m', st) \<and> mp_wf m' \<and> mp_cleared m' = mp_cleared m \<and>
    (if crowded m \<and> \<not> ok (grown m) then st = XMAP_OMEM \<and> m' = m
     else if k \<in> dom (mp_map m) \<and> \<not> mp_bAllowUpdate m then st = XMAP_EEXIST \<and> mp_map m' = mp_map m
     else mp_map m' = (mp_map m)(k \<mapsto> v) \<and> mp_nTableSize m' = (if crowded m then grown m else mp_nTableSize m) \<and>
       st = (if \<not> crowded m \<and> pressure m k \<and> \<not> ok' then XMAP_OMEM else XMAP_OK) \<and>
       (crowded m \<or> pressure m k \<and> ok' \<longrightarrow> mp_nDeleted m' = 0))"
proof -
  from Put_spec [OF assms, of ok ok' k v] obtain m' st where p: "XMap_Put ok ok' m k v = Some (m', st)"
    "if crowded m \<and> \<not> ok (grown m) then st = XMAP_OMEM \<and> m' = m
     else put_outcome ok' m k v m' st \<and> mp_pPairs m' \<noteq> None \<and> mp_nTableSize m' = (if crowded m then grown m else mp_nTableSize m)" by blast
  note S = Put_status [OF assms p(1)]
  show ?thesis
    by (intro exI [of _ m'] exI [of _ st] conjI p(1))
      (use p(2) S assms(1) in \<open>simp_all add: put_outcome_def split: if_splits\<close>)
qed

definition mp_new :: "nat xmap" where
  "mp_new = fst (XMap_Init True \<lparr>mp_pPairs = None, mp_clearCb = False, mp_nTableSize = 0, mp_nDeleted = 0, mp_nCount = 0,
     mp_bAllowUpdate = False, mp_bAlloc = False, mp_cleared = []\<rparr> 2)"

lemma mp_new_wf: "mp_wf mp_new" "mp_nTableSize mp_new = 2" "mp_map mp_new = Map.empty" "mp_bAllowUpdate mp_new"
  unfolding mp_new_def by (simp_all add: Init_spec)

theorem map_put_witness:
  "\<exists>m'. XMap_Put (\<lambda>_. True) True mp_new [97] (Some 1) = Some (m', XMAP_OK) \<and> mp_map m' [97] = Some (Some 1)"
  using map_put [OF mp_new_wf(1), of "\<lambda>_. True" True "[97]" "Some 1"] by (auto simp: mp_new_wf)

text \<open>
  C20: the lookups and \<open>XMap_Remove\<close>. On a well-formed map, whatever collisions and tombstones its
  table has, \<open>XMap_Get\<close> returns exactly the value stored for the key or NULL, \<open>XMap_GetPair\<close> the
  pair or NULL, and \<open>XMap_UsedSize\<close> the number of keys. \<open>XMap_Remove\<close> removes exactly its key, hands exactly that pair to
  \<open>clearCb\<close>, keeps the map well formed, and reports \<open>XMAP_MISSING\<close> for a key that is not there.
\<close>

theorem map_get_remove:
  assumes "mp_wf m"
  shows "XMap_Get m k = Some (case mp_map m k of None \<Rightarrow> None | Some v \<Rightarrow> v) \<and>
    XMap_GetPair m k = Some (map_option (\<lambda>v. \<lparr>mp_eStatus = XMAP_PAIR_USED, mp_pKey = Some k, mp_pData = v\<rparr>) (mp_map m k)) \<and>
    XMap_UsedSize m = int (card (dom (mp_map m))) \<and>
    (\<exists>m'. XMap_Remove m k = Some (m', if mp_pPairs m = None then XMAP_EINIT
        else if k \<in> dom (mp_map m) then XMAP_OK else XMAP_MISSING) \<and>
      mp_wf m' \<and> mp_map m' = (mp_map m)(k := None) \<and>
      mp_cleared m' = mp_cleared m @ (case mp_map m k of
        Some v \<Rightarrow> if mp_clearCb m then [\<lparr>mp_eStatus = XMAP_PAIR_USED, mp_pKey = Some k, mp_pData = v\<rparr>] else []
      | None \<Rightarrow> []))"
proof -
  have "mp_nCount m < 2 ^ 31"
  proof (cases "mp_pPairs m")
    case None
    then show ?thesis using assms by (simp add: mp_wf_def)
  next
    case (Some d)
    note W = wf_table [OF assms Some]
    show ?thesis using W(2) used_pairs_length [of d] tbl_okD(1,3) [OF W(1)] by simp
  qed
  then have "XMap_UsedSize m = int (card (dom (mp_map m)))" using wf_count [OF assms] by (simp add: XMap_UsedSize_def)
  moreover obtain m' where "XMap_Remove m k = Some (m', if mp_pPairs m = None then XMAP_EINIT
      else if k \<in> dom (mp_map m) then XMAP_OK else XMAP_MISSING)" "mp_wf m'" "mp_map m' = (mp_map m)(k := None)"
    "mp_cleared m' = mp_cleared m @ (case mp_map m k of
        Some v \<Rightarrow> if mp_clearCb m then [\<lparr>mp_eStatus = XMAP_PAIR_USED, mp_pKey = Some k, mp_pData = v\<rparr>] else []
      | None \<Rightarrow> [])" using map_Remove_spec [OF assms, of k] by blast
  ultimately show ?thesis using map_Get_spec [OF assms, of k] by blast
qed

theorem map_get_remove_witness: "XMap_Get mp_new [97] = Some None \<and> XMap_UsedSize mp_new = 0"
  using map_get_remove [OF mp_new_wf(1), of "[97]"] by (simp add: mp_new_wf)

text \<open>
  C21: a history of the map. Starting from \<open>XMap_Init\<close> with fewer than \<open>2 ^ 29\<close> slots, whether or not
  its table could be allocated, every sequence of fewer than 375 million insertions and removals, with every answer of the
  allocator during each insertion, returns. \<open>XMap_Get\<close> then answers every key as the finite map built by the same
  sequence does, less the insertions that were refused: growth, rehashing, collisions and reused tombstones are never visible. An
  insertion is refused only with the status \<open>XMAP_OMEM\<close> and when a request for a larger table was; one that is kept has the
  status \<open>XMAP_OK\<close>, or \<open>XMAP_OMEM\<close> when the request for a rehash was refused. Where nothing is refused, all are kept.
\<close>

theorem map_history:
  assumes "n < 2 ^ 29" "length ops < 375000000"
  shows "\<exists>m' sts kept. dict_run (\<lambda>a. XMap_Put (fst a) (snd a)) XMap_Remove (fst (XMap_Init ok junk n)) ops = Some (m', sts) \<and>
    length sts = length ops \<and> length kept = length ops \<and>
    (\<forall>i < length ops. \<forall>okg okr k v. ops ! i = Put (okg, okr) k v \<longrightarrow>
       (if kept ! i then sts ! i = XMAP_OK \<or> sts ! i = XMAP_OMEM \<and> \<not> okr else sts ! i = XMAP_OMEM \<and> (\<exists>s. \<not> okg s))) \<and>
    (\<forall>k. XMap_Get m' k = Some (case dict_effect Map.empty ops kept k of None \<Rightarrow> None | Some v \<Rightarrow> v))"
proof -
  have n: "n < 2 ^ 31" using assms(1) by simp
  note I = Init_spec [OF n, of ok junk]
  have "mp_nCount (fst (XMap_Init ok junk n)) = 0" using wf_count [OF I(1)] I(2) by simp
  then have "mp_ready (fst (XMap_Init ok junk n)) (length ops)" using I assms by (simp add: mp_ready_def)
  from mp.history [OF this] obtain m' sts kept where
    r: "dict_run (\<lambda>a. XMap_Put (fst a) (snd a)) XMap_Remove (fst (XMap_Init ok junk n)) ops = Some (m', sts)" "dict_told put_says ops sts kept"
    "\<forall>k. XMap_Get m' k = Some (case dict_effect Map.empty ops kept k of None \<Rightarrow> None | Some v \<Rightarrow> v)" unfolding I(2) by blast
  from r(2) have t: "length sts = length ops" "length kept = length ops"
    "\<forall>i < length ops. \<forall>a k v. ops ! i = Put a k v \<longrightarrow> put_says a (sts ! i) (kept ! i)" by (simp_all add: dict_told_def)
  have "\<forall>i < length ops. \<forall>okg okr k v. ops ! i = Put (okg, okr) k v \<longrightarrow>
       (if kept ! i then sts ! i = XMAP_OK \<or> sts ! i = XMAP_OMEM \<and> \<not> okr else sts ! i = XMAP_OMEM \<and> (\<exists>s. \<not> okg s))"
  proof (intro allI impI)
    fix i okg okr k v assume "i < length ops" "ops ! i = Put (okg, okr) k v"
    with t(3) have "put_says (okg, okr) (sts ! i) (kept ! i)" by blast
    then show "if kept ! i then sts ! i = XMAP_OK \<or> sts ! i = XMAP_OMEM \<and> \<not> okr else sts ! i = XMAP_OMEM \<and> (\<exists>s. \<not> okg s)"
      unfolding put_says_def fst_conv snd_conv .
  qed
  with r(1,3) t(1,2) show ?thesis by blast
qed

text \<open>The second insertion may find a table that must grow and cannot.\<close>

definition map_ops :: "((nat \<Rightarrow> bool) \<times> bool, byte list, nat option) dict_op list" where
  "map_ops = [Put (\<lambda>_. True, True) [97] (Some 1), Put (\<lambda>_. False, True) [98] (Some 2), Remove [97]]"

theorem map_history_witness:
  "\<exists>m' sts kept. dict_run (\<lambda>a. XMap_Put (fst a) (snd a)) XMap_Remove mp_new map_ops = Some (m', sts) \<and>
     XMap_Get m' [97] = Some None \<and> (if kept then sts ! 1 = XMAP_OK else sts ! 1 = XMAP_OMEM)"
proof -
  have "length map_ops < 375000000" "2 < (2 :: nat) ^ 29" by (simp_all add: map_ops_def)
  from map_history [OF this(2,1), of True] obtain m' sts kept where h:
    "dict_run (\<lambda>a. XMap_Put (fst a) (snd a)) XMap_Remove mp_new map_ops = Some (m', sts)"
    "\<forall>i < length map_ops. \<forall>okg okr k v. map_ops ! i = Put (okg, okr) k v \<longrightarrow>
       (if kept ! i then sts ! i = XMAP_OK \<or> sts ! i = XMAP_OMEM \<and> \<not> okr else sts ! i = XMAP_OMEM \<and> (\<exists>s. \<not> okg s))"
    "\<forall>k. XMap_Get m' k = Some (case dict_effect Map.empty map_ops kept k of None \<Rightarrow> None | Some v \<Rightarrow> v)"
    unfolding mp_new_def by blast
  have "map_ops ! 1 = Put (\<lambda>_. False, True) [98] (Some 2)" "1 < length map_ops" by (simp_all add: map_ops_def)
  with h(2) have "if kept ! 1 then sts ! 1 = XMAP_OK \<or> sts ! 1 = XMAP_OMEM \<and> \<not> True else sts ! 1 = XMAP_OMEM \<and> (\<exists>s :: nat. \<not> False)" by blast
  then have "if kept ! 1 then sts ! 1 = XMAP_OK else sts ! 1 = XMAP_OMEM" by (simp split: if_splits)
  moreover have "dict_effect Map.empty map_ops kept [97] = None" by (simp add: map_ops_def)
  then have "XMap_Get m' [97] = Some None" using h(3) by simp
  ultimately show ?thesis using h(1) by blast
qed

text \<open>
  C22: \<open>XMap_Iterate\<close> and \<open>XMap_Reset\<close>. An iterator that always continues is applied once to each pair of
  the map, with its key and value, in table order; \<open>XMap_Reset\<close> hands exactly those pairs to \<open>clearCb\<close>
  and leaves an empty, well-formed map of the same size.
\<close>

theorem map_iterate_reset:
  assumes "mp_wf m"
  shows "\<exists>ps m'. (\<forall>f x. \<exists>st. XMap_Iterate m (\<lambda>p x. (XMAP_OK, f p x)) (x :: 'c) = Some (st, fold f ps x)) \<and>
    distinct (map mp_pKey ps) \<and> map_of (map (\<lambda>p. (the (mp_pKey p), mp_pData p)) ps) = mp_map m \<and>
    XMap_Reset m = Some m' \<and> mp_wf m' \<and> mp_map m' = Map.empty \<and> mp_nTableSize m' = mp_nTableSize m \<and>
    mp_cleared m' = mp_cleared m @ (if mp_clearCb m then ps else [])"
proof (cases "mp_pPairs m")
  case None
  then show ?thesis using Reset_spec [OF assms] by (auto simp: XMap_Iterate_def mp_map_def intro!: exI [of _ "[]"])
next
  case (Some d)
  note W = wf_table [OF assms Some]
  note T = tbl_okD [OF W(1)]
  let ?ps = "filter (\<lambda>p. mp_eStatus p = XMAP_PAIR_USED) d"
  have up: "used_pairs d = map (\<lambda>p. (the (mp_pKey p), mp_pData p)) ?ps" by (rule used_pairs_filter)
  have "\<exists>st. XMap_Iterate m (\<lambda>p x. (XMAP_OK, f p x)) x = Some (st, fold f ?ps x)" for f and x :: 'c
  proof (cases "mp_nCount m = 0")
    case True
    then have "length ?ps = 0" unfolding W(2) up length_map .
    then have "?ps = []" by (simp only: length_0_conv)
    then show ?thesis using True Some by (simp add: XMap_Iterate_def)
  next
    case False
    then show ?thesis using Some T(1) by (simp add: XMap_Iterate_def mread_def iterate_continue)
  qed
  moreover have "distinct (map mp_pKey ?ps)"
  proof -
    have "distinct (map the (map mp_pKey ?ps))" using T(4) unfolding up by (simp add: comp_def)
    then show ?thesis by (rule distinct_map [THEN iffD1, THEN conjunct1])
  qed
  moreover obtain m' where "XMap_Reset m = Some m'" "mp_wf m'" "mp_map m' = Map.empty" "mp_nTableSize m' = mp_nTableSize m"
    "mp_cleared m' = mp_cleared m @ (if mp_clearCb m then ?ps else [])" using Reset_spec [OF assms] Some by auto
  ultimately show ?thesis using up W(4) by (intro exI [of _ ?ps] exI [of _ m']) simp
qed

theorem map_iterate_reset_witness:
  "\<exists>st. XMap_Iterate mp_new (\<lambda>p x. (XMAP_OK, Suc x)) 0 = Some (st, 0)"
proof -
  obtain ps where "\<forall>f x. \<exists>st. XMap_Iterate mp_new (\<lambda>p x. (XMAP_OK, f p x)) (x :: nat) = Some (st, fold f ps x)"
    "map_of (map (\<lambda>p. (the (mp_pKey p), mp_pData p)) ps) = mp_map mp_new"
    using map_iterate_reset [OF mp_new_wf(1)] by (elim exE conjE) (rule that; assumption)
  then show ?thesis by (auto simp: mp_new_wf)
qed

lemma refill_append: "refill m xs = Some (m1, XMAP_OK) \<Longrightarrow> refill m (xs @ ys) = refill m1 ys"
proof (induction xs arbitrary: m)
  case (Cons p xs)
  show ?case
  proof (cases "mp_eStatus p = XMAP_PAIR_USED")
    case False
    then show ?thesis using Cons by simp
  next
    case True
    then obtain k where k: "mp_pKey p = Some k" using Cons.prems by (cases "mp_pKey p") auto
    with True Cons.prems obtain m2 where m2: "XMap_PutRaw m k (mp_pData p) = Some (m2, XMAP_OK)" "refill m2 xs = Some (m1, XMAP_OK)"
      by (cases "XMap_PutRaw m k (mp_pData p)") (auto split: if_splits)
    then show ?thesis using Cons.IH [OF m2(2)] True k by simp
  qed
qed simp

text \<open>
  \<open>XMap_Update\<close> on a slot that holds no pair. It reports success and counts one more pair, but the
  pair it makes has no key: it does not show up under any key, and from then on the table cannot grow;
  \<open>XMap_Realloc\<close> gives up with \<open>XMAP_OINV\<close> at that pair and leaves the map as it was,
  however much memory there is.
\<close>

theorem map_update_unused:
  assumes w: "mp_wf m" and d: "mp_pPairs m = Some d" and j: "j < mp_nTableSize m" and un: "mp_eStatus (d ! j) \<noteq> XMAP_PAIR_USED"
    and nk: "mp_pKey (d ! j) = None" and n: "mp_nTableSize m < 2 ^ 30"
  shows "\<exists>m'. XMap_Update m (int j) v = Some (m', XMAP_OK) \<and> mp_nCount m' = mp_nCount m + 1 \<and>
    (\<forall>ok. ok (2 * mp_nTableSize m) \<longrightarrow> XMap_Realloc ok m' = Some (m', XMAP_OINV))"
proof -
  note W = wf_table [OF w d]
  note T = tbl_okD [OF W(1)]
  have jl: "j < length d" using j T(1) by simp
  let ?q = "(d ! j)\<lparr>mp_pData := v, mp_eStatus := XMAP_PAIR_USED\<rparr>"
  let ?d = "d[j := ?q]"
  let ?m = "(count_slot m (mp_eStatus (d ! j)))\<lparr>mp_pPairs := Some ?d\<rparr>"
  let ?n = "2 * mp_nTableSize m"
  have "XMap_Update m (int j) v = Some (?m, XMAP_OK)"
    using d j T(1) by (simp add: XMap_Update_def ppeek_def peek_def store_pair_def count_slot_def poke_def)
  moreover have "mp_nCount m \<le> mp_nTableSize m" using W(2) used_pairs_length [of d] T(1) by simp
  then have "mp_nCount ?m = mp_nCount m + 1" using un T(3) by (simp add: count_slot_def)
  moreover have "XMap_Realloc ok ?m = Some (?m, XMAP_OINV)" if ok: "ok ?n" for ok
  proof -
    let ?f = "?m\<lparr>mp_pPairs := Some (replicate ?n empty_pair), mp_nTableSize := ?n, mp_nDeleted := 0, mp_nCount := 0\<rparr>"
    have wf: "mp_wf ?f" using empty_tbl [of ?n] n T(2) by (intro wfI [of _ "replicate ?n empty_pair"]) auto
    have e: "mp_map ?f = Map.empty" by (simp add: mp_map_def)
    have keys: "\<forall>p \<in> set (take j d). mp_eStatus p = XMAP_PAIR_USED \<longrightarrow> mp_pKey p \<noteq> None"
    proof (intro ballI impI)
      fix p assume "p \<in> set (take j d)" "mp_eStatus p = XMAP_PAIR_USED"
      then obtain i where "i < mp_nTableSize m" "p = d ! i" "mp_eStatus (d ! i) = XMAP_PAIR_USED"
        using T(1) by (auto dest!: in_set_takeD simp: in_set_conv_nth)
      with T(5) [of i] show "mp_pKey p \<noteq> None" by (auto simp: holds_key_def)
    qed
    have dist: "distinct (map fst (used_pairs (take j d)))"
      using T(4) unfolding used_pairs_split [OF jl] by simp
    have room: "mp_nCount ?f + length (used_pairs (take j d)) \<le> mp_nTableSize ?f"
      using used_pairs_length [of "take j d"] j by simp
    from refill_spec [OF wf _ keys dist _ room] obtain m1 where m1: "refill ?f (take j d) = Some (m1, XMAP_OK)" unfolding e by auto
    have "?d = take j d @ ?q # drop (Suc j) d" using jl by (rule upd_conv_take_nth_drop)
    then have "refill ?f ?d = refill m1 (?q # drop (Suc j) d)" using refill_append [OF m1] by simp
    also have "\<dots> = Some (m1, XMAP_OINV)" using nk by simp
    finally have "refill ?f ?d = Some (m1, XMAP_OINV)" .
    moreover have "mread ?d 0 (mp_nTableSize m) = Some ?d" using T(1) by (simp add: mread_def)
    ultimately show ?thesis using ok n T(2) by (simp add: XMap_Realloc_def Let_def mult.commute count_slot_def)
  qed
  ultimately show ?thesis by blast
qed

theorem map_update_unused_witness:
  "\<exists>m'. XMap_Update mp_new 0 (Some 7) = Some (m', XMAP_OK) \<and> XMap_Realloc (\<lambda>_. True) m' = Some (m', XMAP_OINV)"
proof -
  have "mp_pPairs mp_new = Some (replicate 2 empty_pair)" by (simp add: mp_new_def XMap_Init_def XMap_Alloc_def)
  from map_update_unused [OF mp_new_wf(1) this, of 0 "Some 7"] show ?thesis by (auto simp: mp_new_wf empty_pair_def)
qed

section \<open>Maps from which nothing is removed\<close>

text \<open>
  Without tombstones \<open>XMap_Put\<close> never rehashes, so it makes no request for memory but to grow, and what it
  stores it reports as stored.
\<close>

lemma Realloc_no_tombstone: "XMap_Realloc ok m = Some (m', st) \<Longrightarrow> mp_nDeleted m = 0 \<Longrightarrow> mp_nDeleted m' = 0"
  by (auto simp: XMap_Realloc_def Let_def split: bind_splits if_splits option.splits prod.splits dest!: refill_no_tombstone)

lemma grow_no_tombstone: "grow_loop ok m k h = Some (m', h') \<Longrightarrow> mp_nDeleted m = 0 \<Longrightarrow> mp_nDeleted m' = 0"
proof -
  assume g: "grow_loop ok m k h = Some (m', h')" and z: "mp_nDeleted m = 0"
  have "mp_nDeleted m = 0 \<longrightarrow> mp_nDeleted (fst (m', h')) = 0"
  proof (rule grow_loop.raw_induct [where P = "\<lambda>ok m k h r. mp_nDeleted m = 0 \<longrightarrow> mp_nDeleted (fst r) = 0", OF _ g])
    fix f :: "(nat \<Rightarrow> bool) \<Rightarrow> 'a xmap \<Rightarrow> byte list \<Rightarrow> int \<Rightarrow> ('a xmap \<times> int) option" and ok m k h r
    assume ih: "\<And>ok m k h y. f ok m k h = Some y \<Longrightarrow> mp_nDeleted m = 0 \<longrightarrow> mp_nDeleted (fst y) = 0"
      and r: "(if h = XMAP_FULL then do { (m', st) \<leftarrow> XMap_Realloc ok m; if st < 0 then Some (m', st)
        else do { h' \<leftarrow> XMap_GetHash m' k; f ok m' k h' } } else Some (m, h)) = Some r"
    show "mp_nDeleted m = 0 \<longrightarrow> mp_nDeleted (fst r) = 0"
      using r Realloc_no_tombstone [of ok m] ih by (auto split: if_splits bind_splits prod.splits)
  qed
  with z show ?thesis by simp
qed

lemma Put_no_tombstone:
  assumes w: "mp_wf m" and n: "mp_nTableSize m < 2 ^ 30" and z: "mp_nDeleted m = 0"
  shows "\<exists>m' st. XMap_Put ok ok' m k v = Some (m', st) \<and> mp_nDeleted m' = 0 \<and>
    (if crowded m \<and> \<not> ok (grown m) then st = XMAP_OMEM \<and> m' = m
     else put_outcome True m k v m' st \<and> mp_pPairs m' \<noteq> None \<and>
       mp_nTableSize m' = (if crowded m then grown m else mp_nTableSize m))"
proof -
  have R: "mp_nDeleted m1 = 0" if "(if mp_nTableSize m = 0 \<or> mp_pPairs m = None \<or> mp_nTableSize m * 7 \<le> mp_nCount m * 10
                 then XMap_Realloc ok m else Some (m, XMAP_OK)) = Some (m1, st)" for m1 st
    using that z Realloc_no_tombstone [of ok m] by (auto split: if_splits)
  have eq: "XMap_Put ok ok' m k v = XMap_Put ok True m k v"
    unfolding Put_tail
    by (intro Option.bind_cong refl) (auto intro!: Option.bind_cong split: prod.splits dest!: R grow_no_tombstone simp: put_tail_no_tombstone(1) [of _ ok'])
  from Put_spec [OF w n, of ok True k v] obtain m' st where p: "XMap_Put ok True m k v = Some (m', st)"
    "if crowded m \<and> \<not> ok (grown m) then st = XMAP_OMEM \<and> m' = m
     else put_outcome True m k v m' st \<and> mp_pPairs m' \<noteq> None \<and> mp_nTableSize m' = (if crowded m then grown m else mp_nTableSize m)" by blast
  have "mp_nDeleted m' = 0"
  proof -
    obtain m1 s1 where m1: "(if mp_nTableSize m = 0 \<or> mp_pPairs m = None \<or> mp_nTableSize m * 7 \<le> mp_nCount m * 10
        then XMap_Realloc ok m else Some (m, XMAP_OK)) = Some (m1, s1)"
      "(if s1 < 0 then Some (m1, s1)
        else do { h \<leftarrow> XMap_GetHash m1 k; (m2, h) \<leftarrow> grow_loop ok m1 k h; put_tail True m2 k v h }) = Some (m', st)"
      using p(1) unfolding Put_tail by (fastforce split: bind_splits)
    note z1 = R [OF m1(1)]
    show ?thesis
    proof (cases "s1 < 0")
      case True
      with m1(2) z1 show ?thesis by simp
    next
      case False
      with m1(2) obtain h m2 h2 where g: "grow_loop ok m1 k h = Some (m2, h2)" "put_tail True m2 k v h2 = Some (m', st)"
        by (auto split: bind_splits)
      show ?thesis by (rule put_tail_no_tombstone(2) [OF grow_no_tombstone [OF g(1) z1] g(2)])
    qed
  qed
  then show ?thesis using eq p by auto
qed

end
