(* ===== verification/Bytes.thy ===== *)
theory Bytes
  imports Prelude
begin

text \<open>
  Numbers as byte strings, shared by the network and digest components: network byte order
  (\<open>htons\<close>, \<open>htobe64\<close> followed by \<open>memcpy\<close>), the little-endian image of a \<open>uint32_t\<close> that the code
  reaches through a \<open>uint8_t*\<close>, and XOR with a repeated key.
\<close>

lemma byte_nat: "unat (a :: byte) < 256"
  using unsigned_less [of a] by simp

section \<open>Network byte order\<close>

fun be_bytes :: "nat \<Rightarrow> nat \<Rightarrow> byte list" where
  "be_bytes 0 n = []"
| "be_bytes (Suc k) n = be_bytes k (n div 256) @ [of_nat n]"

fun of_be :: "nat \<Rightarrow> byte list \<Rightarrow> nat" where
  "of_be a [] = a"
| "of_be a (b # bs) = of_be (a * 256 + unat b) bs"

lemma be_bytes_length [simp]: "length (be_bytes k n) = k"
  by (induction k arbitrary: n) auto

lemma of_be_append: "of_be a (xs @ [b]) = of_be a xs * 256 + unat b"
  by (induction xs arbitrary: a) auto

lemma of_be_bytes: "of_be 0 (be_bytes k n) = n mod 256 ^ k"
proof (induction k arbitrary: n)
  case (Suc k)
  have "of_be 0 (be_bytes (Suc k) n) = (n div 256) mod 256 ^ k * 256 + n mod 256"
    by (simp add: of_be_append Suc.IH unat_of_nat)
  also have "\<dots> = n mod 256 ^ Suc k" by (simp add: mod_mult2_eq mult.commute)
  finally show ?case .
qed simp

lemma of_be_less: "of_be a xs < (a + 1) * 256 ^ length xs"
proof (induction xs arbitrary: a)
  case (Cons b xs)
  have "of_be (a * 256 + unat b) xs < (a * 256 + unat b + 1) * 256 ^ length xs" by (rule Cons.IH)
  also have "\<dots> \<le> ((a + 1) * 256) * 256 ^ length xs" by (rule mult_le_mono1) (use byte_nat [of b] in simp)
  finally show ?case by (simp add: algebra_simps)
qed simp

section \<open>The bytes of a \<open>uint32_t\<close> in memory\<close>

definition le_bytes :: "u32 \<Rightarrow> byte list" where
  "le_bytes k = [ucast k, ucast (drop_bit 8 k), ucast (drop_bit 16 k), ucast (drop_bit 24 k)]"

definition of_le :: "byte list \<Rightarrow> u32" where
  "of_le bs = ucast (bs ! 0) OR push_bit 8 (ucast (bs ! 1)) OR push_bit 16 (ucast (bs ! 2)) OR push_bit 24 (ucast (bs ! 3))"

lemma le_bytes_length [simp]: "length (le_bytes k) = 4"
  by (simp add: le_bytes_def)

lemma byte_bit_high: "8 \<le> n \<Longrightarrow> \<not> bit (x :: byte) n"
  using bit_imp_le_length [of x n] by auto

lemma le_bytes_of_le:
  assumes "length bs = 4"
  shows "le_bytes (of_le bs) = bs"
proof -
  obtain a b c d where bs: "bs = [a, b, c, d]"
    using assms by (auto simp: length_Suc_conv eval_nat_numeral)
  show ?thesis unfolding bs le_bytes_def of_le_def
    by (auto simp: bit_simps byte_bit_high intro!: bit_word_eqI)
qed

section \<open>XOR with a repeated key\<close>

fun xor_key :: "byte list \<Rightarrow> nat \<Rightarrow> byte list \<Rightarrow> byte list" where
  "xor_key key i [] = []"
| "xor_key key i (x # xs) = (x XOR key ! (i mod 4)) # xor_key key (Suc i) xs"

lemma xor_key_length [simp]: "length (xor_key key i xs) = length xs"
  by (induction xs arbitrary: i) auto

lemma xor_key_twice [simp]: "xor_key key i (xor_key key i xs) = xs"
  by (induction xs arbitrary: i) (auto simp: xor.assoc)

end
