(* ===== verification/Base64.thy ===== *)
theory Base64
  imports Bytes
begin

text \<open>
  The Base64 codec of \<open>src/src/crypt/base64.c\<close>, in its standard and URL-safe alphabets. The input is a
  memory block read up to \<open>*pLength\<close>; the output block is written cell by cell. A result
  \<open>Some None\<close> is a returned NULL, \<^term>\<open>None\<close> a bad memory access. NULL pointers and a zero length are
  refused first. \<open>ok\<close> says whether the \<open>calloc\<close> of the output succeeds.

  \<open>sextets\<close> and \<open>unsextets\<close> are the regrouping of octets into six-bit values that RFC 4648 defines;
  the codec is proved to be that regrouping through the alphabet tables, and decoding to undo encoding.
\<close>

section \<open>Tables\<close>

definition g_base64DecTable :: "byte list" where
  "g_base64DecTable =
     replicate 43 0x00 @ [0x3e, 0x00, 0x00, 0x00, 0x3f,
     0x34, 0x35, 0x36, 0x37, 0x38, 0x39, 0x3a, 0x3b, 0x3c, 0x3d] @ replicate 7 0x00 @
     [0x00, 0x01, 0x02, 0x03, 0x04, 0x05, 0x06, 0x07, 0x08, 0x09, 0x0a, 0x0b, 0x0c, 0x0d,
     0x0e, 0x0f, 0x10, 0x11, 0x12, 0x13, 0x14, 0x15, 0x16, 0x17, 0x18, 0x19] @ replicate 6 0x00 @
     [0x1a, 0x1b, 0x1c, 0x1d, 0x1e, 0x1f, 0x20, 0x21, 0x22, 0x23, 0x24, 0x25, 0x26, 0x27,
     0x28, 0x29, 0x2a, 0x2b, 0x2c, 0x2d, 0x2e, 0x2f, 0x30, 0x31, 0x32, 0x33] @ replicate 133 0x00"

text \<open>The letters and digits the two alphabets share, then their last two characters.\<close>

definition alphanumerics :: "byte list" where
  "alphanumerics =
     [65, 66, 67, 68, 69, 70, 71, 72, 73, 74, 75, 76, 77, 78, 79, 80, 81, 82, 83, 84, 85, 86, 87, 88, 89, 90,
      97, 98, 99, 100, 101, 102, 103, 104, 105, 106, 107, 108, 109, 110, 111, 112, 113, 114, 115, 116, 117, 118,
      119, 120, 121, 122, 48, 49, 50, 51, 52, 53, 54, 55, 56, 57]"

definition g_base64EncTable :: "byte list" where
  "g_base64EncTable = alphanumerics @ [43, 47]"

definition g_base64UrlEncTable :: "byte list" where
  "g_base64UrlEncTable = alphanumerics @ [45, 95]"

abbreviation pad_char :: byte where "pad_char \<equiv> 61"

definition XBase64_DecodeValue :: "byte \<Rightarrow> int" where
  "XBase64_DecodeValue c =
     (if 65 \<le> c \<and> c \<le> 90 \<or> 97 \<le> c \<and> c \<le> 122 \<or> 48 \<le> c \<and> c \<le> 57 \<or> c = 43 \<or> c = 47
      then uint (g_base64DecTable ! unat c) else -1)"

section \<open>Encoding\<close>

definition octet :: "byte list \<Rightarrow> nat \<Rightarrow> nat \<Rightarrow> u32 option" where
  "octet inp n i = (if i < n then map_option ucast (peek inp i) else Some 0)"

text \<open>\<open>i\<close> moves past the octets that were there; four characters are written for each group.\<close>

function enc_loop :: "byte list \<Rightarrow> byte list \<Rightarrow> nat \<Rightarrow> nat \<Rightarrow> nat \<Rightarrow> byte list \<Rightarrow> byte list option" where
  "enc_loop tab inp n i j out =
     (if i < n
      then do {
        a \<leftarrow> octet inp n i;
        b \<leftarrow> octet inp n (i + 1);
        c \<leftarrow> octet inp n (i + 2);
        let t = push_bit 16 a + push_bit 8 b + c;
        out \<leftarrow> poke out j (tab ! unat (drop_bit 18 t AND 0x3F));
        out \<leftarrow> poke out (j + 1) (tab ! unat (drop_bit 12 t AND 0x3F));
        out \<leftarrow> poke out (j + 2) (tab ! unat (drop_bit 6 t AND 0x3F));
        out \<leftarrow> poke out (j + 3) (tab ! unat (t AND 0x3F));
        enc_loop tab inp n (min (i + 3) n) (j + 4) out }
      else Some out)"
  by pat_completeness auto
termination by (relation "measure (\<lambda>(_, _, n, i, _, _). n - i)") auto

declare enc_loop.simps [simp del]

definition nModTable :: "nat list" where
  "nModTable = [0, 2, 1]"

text \<open>Writing \<open>v\<close> over the last \<open>p\<close> of \<open>n\<close> characters, the last one first.\<close>

fun pad_loop :: "byte list \<Rightarrow> nat \<Rightarrow> nat \<Rightarrow> byte \<Rightarrow> byte list option" where
  "pad_loop out n 0 v = Some out"
| "pad_loop out n (Suc p) v = do { out \<leftarrow> poke out (n - 1) v; pad_loop out (n - 1) p v }"

text \<open>Stepping back from \<open>k\<close> while the character is NUL; below the block the read is out of bounds.\<close>

fun trim_loop :: "byte list \<Rightarrow> nat \<Rightarrow> nat option" where
  "trim_loop out k = do {
     c \<leftarrow> peek out k;
     if c = 0 then (if k = 0 then None else trim_loop out (k - 1)) else Some k }"

declare trim_loop.simps [simp del]

definition XBase64_Encrypt :: "bool \<Rightarrow> byte list \<Rightarrow> nat \<Rightarrow> (byte list \<times> nat) option option" where
  "XBase64_Encrypt ok inp n =
     (let m = sz (sz (n + 2) div 3 * 4)
      in if n = 0 \<or> \<not> ok then Some None
         else do {
           out \<leftarrow> enc_loop g_base64EncTable inp n 0 0 (replicate (m + 1) 0);
           out \<leftarrow> pad_loop out m (nModTable ! (n mod 3)) pad_char;
           k \<leftarrow> trim_loop out m;
           let len = (if out ! m = 0 then k + 1 else k);
           out \<leftarrow> poke out len 0;
           Some (Some (out, len)) })"

definition XBase64_UrlEncrypt :: "bool \<Rightarrow> byte list \<Rightarrow> nat \<Rightarrow> (byte list \<times> nat) option option" where
  "XBase64_UrlEncrypt ok inp n =
     (let m = sz (sz (n + 2) div 3 * 4)
      in if n = 0 \<or> \<not> ok then Some None
         else do {
           out \<leftarrow> enc_loop g_base64UrlEncTable inp n 0 0 (replicate (m + 1) 0);
           out \<leftarrow> pad_loop out m (nModTable ! (n mod 3)) 0;
           k \<leftarrow> trim_loop out m;
           Some (Some (out, k + 1)) })"

section \<open>Decoding\<close>

text \<open>The number of \<open>=\<close> characters that end the input.\<close>

function count_pad :: "byte list \<Rightarrow> nat \<Rightarrow> nat \<Rightarrow> nat option" where
  "count_pad inp n e =
     (if e < n then do { c \<leftarrow> peek inp (n - 1 - e); if c = pad_char then count_pad inp n (Suc e) else Some e }
      else Some e)"
  by pat_completeness auto
termination by (relation "measure (\<lambda>(_, n, e). n - e)") auto

declare count_pad.simps [simp del]

function check_chars :: "byte list \<Rightarrow> nat \<Rightarrow> nat \<Rightarrow> bool option" where
  "check_chars inp n i =
     (if i < n
      then do { c \<leftarrow> peek inp i; if c = pad_char \<or> XBase64_DecodeValue c < 0 then Some False else check_chars inp n (Suc i) }
      else Some True)"
  by pat_completeness auto
termination by (relation "measure (\<lambda>(_, n, i). n - i)") auto

declare check_chars.simps [simp del]

text \<open>The sextet at an index; \<open>Some None\<close> when the character has no value.\<close>

definition sextet :: "byte list \<Rightarrow> nat \<Rightarrow> nat \<Rightarrow> u32 option option" where
  "sextet inp n i =
     (if n \<le> i then Some (Some 0)
      else do {
        c \<leftarrow> peek inp i;
        if c = pad_char then Some (Some 0)
        else if XBase64_DecodeValue c < 0 then Some None
        else Some (Some (word_of_int (XBase64_DecodeValue c))) })"

text \<open>Writing one decoded octet while there is room for it.\<close>

definition out_octet :: "byte list \<Rightarrow> nat \<Rightarrow> nat \<Rightarrow> byte \<Rightarrow> (byte list \<times> nat) option" where
  "out_octet out j m v = (if j < m then do { out \<leftarrow> poke out j v; Some (out, j + 1) } else Some (out, j))"

function dec_loop :: "byte list \<Rightarrow> nat \<Rightarrow> nat \<Rightarrow> nat \<Rightarrow> nat \<Rightarrow> nat \<Rightarrow> byte list \<Rightarrow> (byte list \<times> nat) option option" where
  "dec_loop inp n p m i j out =
     (if i < p
      then do {
        s0 \<leftarrow> sextet inp n i;
        (case s0 of None \<Rightarrow> Some None | Some s0 \<Rightarrow> do {
        s1 \<leftarrow> sextet inp n (i + 1);
        (case s1 of None \<Rightarrow> Some None | Some s1 \<Rightarrow> do {
        s2 \<leftarrow> sextet inp n (i + 2);
        (case s2 of None \<Rightarrow> Some None | Some s2 \<Rightarrow> do {
        s3 \<leftarrow> sextet inp n (i + 3);
        (case s3 of None \<Rightarrow> Some None | Some s3 \<Rightarrow> do {
          let t = push_bit 18 s0 + push_bit 12 s1 + push_bit 6 s2 + s3;
          (out, j) \<leftarrow> out_octet out j m (ucast (drop_bit 16 t AND 0xFF));
          (out, j) \<leftarrow> out_octet out j m (ucast (drop_bit 8 t AND 0xFF));
          (out, j) \<leftarrow> out_octet out j m (ucast (t AND 0xFF));
          dec_loop inp n p m (i + 4) j out }) }) }) }) }
      else Some (Some (out, j)))"
  by pat_completeness auto
termination by (relation "measure (\<lambda>(_, _, p, _, i, _, _). p - i)") auto

declare dec_loop.simps [simp del]

definition XBase64_Decrypt :: "bool \<Rightarrow> byte list \<Rightarrow> nat \<Rightarrow> (byte list \<times> nat) option option" where
  "XBase64_Decrypt ok inp n =
     (if n = 0 then Some None
      else do {
        e \<leftarrow> count_pad inp n 0;
        if 2 < e then Some None
        else if 0 < e \<and> n mod 4 \<noteq> 0 then Some None
        else do {
          good \<leftarrow> check_chars inp (n - e) 0;
          let r = n mod 4;
          let ip = (if e = 0 \<and> r \<noteq> 0 then 4 - r else 0);
          let pl = sz (n + ip);
          let ol = sz (pl div 4 * 3);
          let np = e + ip;
          if \<not> good then Some None
          else if r = 1 then Some None
          else if ol < np then Some None
          else if \<not> ok then Some None
          else do {
            let m = ol - np;
            res \<leftarrow> dec_loop inp n pl m 0 0 (replicate (m + 1) 0);
            (case res of
               None \<Rightarrow> Some None
             | Some (out, j) \<Rightarrow>
                 if j \<noteq> m then Some None
                 else do { out \<leftarrow> poke out m 0; Some (Some (out, m)) }) } } })"

fun url_to_std :: "byte \<Rightarrow> byte" where
  "url_to_std c = (if c = 45 then 43 else if c = 95 then 47 else c)"

definition XBase64_UrlDecrypt :: "bool \<Rightarrow> bool \<Rightarrow> byte list \<Rightarrow> nat \<Rightarrow> (byte list \<times> nat) option option" where
  "XBase64_UrlDecrypt ok1 ok2 inp n =
     (if n = 0 \<or> \<not> ok1 then Some None
      else do { s \<leftarrow> mread inp 0 n; XBase64_Decrypt ok2 (List.map url_to_std s @ [0]) n })"

section \<open>Regrouping\<close>

fun sextets :: "byte list \<Rightarrow> nat list" where
  "sextets [] = []"
| "sextets [a] = [unat a div 4, unat a mod 4 * 16]"
| "sextets [a, b] = [unat a div 4, unat a mod 4 * 16 + unat b div 16, unat b mod 16 * 4]"
| "sextets (a # b # c # xs) =
     unat a div 4 # (unat a mod 4 * 16 + unat b div 16) # (unat b mod 16 * 4 + unat c div 64) # (unat c mod 64) # sextets xs"

fun unsextets :: "nat list \<Rightarrow> byte list" where
  "unsextets (s0 # s1 # s2 # s3 # xs) =
     of_nat (s0 * 4 + s1 div 16) # of_nat (s1 mod 16 * 16 + s2 div 4) # of_nat (s2 mod 4 * 64 + s3) # unsextets xs"
| "unsextets [s0, s1, s2] = [of_nat (s0 * 4 + s1 div 16), of_nat (s1 mod 16 * 16 + s2 div 4)]"
| "unsextets [s0, s1] = [of_nat (s0 * 4 + s1 div 16)]"
| "unsextets _ = []"

definition npad :: "nat \<Rightarrow> nat" where
  "npad n = nModTable ! (n mod 3)"

definition groups :: "nat \<Rightarrow> nat" where
  "groups n = (n + 2) div 3"

lemma sextets_less: "s \<in> set (sextets xs) \<Longrightarrow> s < 64"
proof (induction xs rule: sextets.induct)
  case (2 a) then show ?case using byte_nat [of a] by auto
next
  case (3 a b) then show ?case using byte_nat [of a] byte_nat [of b] by auto
next
  case (4 a b c xs) then show ?case using byte_nat [of a] byte_nat [of b] byte_nat [of c] by auto
qed simp

lemma npad_simps [simp]: "npad 0 = 0" "npad (Suc 0) = 2" "npad (Suc (Suc 0)) = 1" "npad (Suc (Suc (Suc n))) = npad n"
proof -
  have "Suc (Suc (Suc n)) mod 3 = n mod 3" by presburger
  then show "npad (Suc (Suc (Suc n))) = npad n" by (simp add: npad_def)
qed (simp_all add: npad_def nModTable_def)

lemma groups_simps [simp]: "groups 0 = 0" "groups (Suc 0) = 1" "groups (Suc (Suc 0)) = 1" "groups (Suc (Suc (Suc n))) = Suc (groups n)"
  by (simp_all add: groups_def)

lemma sextets_length: "length (sextets xs) + npad (length xs) = 4 * groups (length xs)"
  by (induction xs rule: sextets.induct) auto

text \<open>Taking a group of octets apart and putting sextets together, on the machine words.\<close>

lemma triple_nat:
  "unat (push_bit 16 (ucast (a :: byte)) + push_bit 8 (ucast (b :: byte)) + ucast (c :: byte) :: u32) =
   unat a * 65536 + unat b * 256 + unat c"
proof -
  have "push_bit 16 (ucast a) + push_bit 8 (ucast b) + ucast c = (word_of_nat (unat a * 65536 + unat b * 256 + unat c) :: u32)"
    by (simp add: push_bit_eq_mult of_nat_unat)
  moreover have "unat a * 65536 + unat b * 256 + unat c < 2 ^ LENGTH(32)"
    using byte_nat [of a] byte_nat [of b] byte_nat [of c] by simp
  ultimately show ?thesis by (simp only: unat_of_nat mod_less)
qed

lemma take_drop_nat: "unat (take_bit l (drop_bit k (t :: u32))) = unat t div 2 ^ k mod 2 ^ l"
proof -
  have "unat t < 2 ^ LENGTH(32)" by (rule unsigned_less)
  then show ?thesis unfolding unsigned_take_bit_eq unsigned_drop_bit_eq by (simp add: take_bit_eq_mod drop_bit_eq_div)
qed

lemma shift_mask: "unat (drop_bit k (t :: u32) AND 0x3F) = unat t div 2 ^ k mod 64"
proof -
  have m: "(0x3F :: u32) = mask 6" by (simp add: mask_eq_exp_minus_1)
  show ?thesis unfolding m take_bit_eq_mask [symmetric] take_drop_nat by simp
qed

lemma shift_mask0: "unat ((t :: u32) AND 0x3F) = unat t mod 64"
  using shift_mask [of 0 t] by simp

lemma shift_mask8: "ucast (drop_bit k (t :: u32) AND 0xFF) = (of_nat (unat t div 2 ^ k) :: byte)"
proof -
  have m: "(0xFF :: u32) = mask 8" by (simp add: mask_eq_exp_minus_1)
  have "(ucast (take_bit 8 (drop_bit k t)) :: byte) = word_of_nat (unat t div 2 ^ k mod 2 ^ 8)"
    unfolding take_drop_nat [symmetric] by (simp add: of_nat_unat)
  also have "\<dots> = word_of_nat (unat t div 2 ^ k)" by (simp add: word_of_nat_eq_iff take_bit_eq_mod)
  finally show ?thesis unfolding m take_bit_eq_mask [symmetric] .
qed

lemma group_split:
  assumes "a < 4" "b < 16" "c < (64 :: nat)" "p < 64" "q < 16" "r < 4"
  shows "((4 * p + a) * 65536 + (16 * q + b) * 256 + (64 * r + c)) div 262144 mod 64 = p"
    "((4 * p + a) * 65536 + (16 * q + b) * 256 + (64 * r + c)) div 4096 mod 64 = a * 16 + q"
    "((4 * p + a) * 65536 + (16 * q + b) * 256 + (64 * r + c)) div 64 mod 64 = b * 4 + r"
    "((4 * p + a) * 65536 + (16 * q + b) * 256 + (64 * r + c)) mod 64 = c"
proof -
  let ?x = "(4 * p + a) * 65536 + (16 * q + b) * 256 + (64 * r + c)"
  have d: "x div n = k" if "x = k * n + y" "y < n" for x n k y :: nat using that by simp
  have m: "x mod n = y" if "x = k * n + y" "y < n" for x n k y :: nat using that by simp
  have lo: "b * 256 + r * 64 + c < 4096" "r * 64 + c < 256" "a * 65536 + q * 4096 + b * 256 + r * 64 + c < 262144" "b * 4 + r < 64" "a * 16 + q < 64"
    using assms by linarith+
  have 1: "?x div 262144 = p" by (rule d [of _ _ _ "a * 65536 + q * 4096 + b * 256 + r * 64 + c"]) (use lo in simp_all)
  have 2: "?x div 4096 = p * 64 + (a * 16 + q)" by (rule d [of _ _ _ "b * 256 + r * 64 + c"]) (use lo in simp_all)
  have 3: "?x div 64 = (p * 64 + a * 16 + q) * 64 + (b * 4 + r)" by (rule d [of _ _ _ c]) (use assms(3) in simp_all)
  show "?x div 262144 mod 64 = p" unfolding 1 using assms(4) by simp
  show "?x div 4096 mod 64 = a * 16 + q" unfolding 2 by (rule m [OF refl lo(5)])
  show "?x div 64 mod 64 = b * 4 + r" unfolding 3 by (rule m [OF refl lo(4)])
  show "?x mod 64 = c" by (rule m [of _ "p * 4096 + a * 1024 + q * 64 + b * 4 + r"]) (use assms(3) in simp_all)
qed

lemma group_arith:
  assumes "A < 256" "B < 256" "C < (256 :: nat)"
  shows "(A * 65536 + B * 256 + C) div 262144 mod 64 = A div 4"
    "(A * 65536 + B * 256 + C) div 4096 mod 64 = A mod 4 * 16 + B div 16"
    "(A * 65536 + B * 256 + C) div 64 mod 64 = B mod 16 * 4 + C div 64"
    "(A * 65536 + B * 256 + C) mod 64 = C mod 64"
proof -
  have lt: "A mod 4 < 4" "B mod 16 < 16" "C mod 64 < 64" "A div 4 < 64" "B div 16 < 16" "C div 64 < 4" using assms by auto
  note S = group_split [OF lt, unfolded mult_div_mod_eq]
  show "(A * 65536 + B * 256 + C) div 262144 mod 64 = A div 4" by (rule S(1))
  show "(A * 65536 + B * 256 + C) div 4096 mod 64 = A mod 4 * 16 + B div 16" by (rule S(2))
  show "(A * 65536 + B * 256 + C) div 64 mod 64 = B mod 16 * 4 + C div 64" by (rule S(3))
  show "(A * 65536 + B * 256 + C) mod 64 = C mod 64" by (rule S(4))
qed

lemma triple_sextets:
  fixes a b c :: byte and t :: u32
  assumes t_def: "t = push_bit 16 (ucast a) + push_bit 8 (ucast b) + ucast c"
  shows "unat (drop_bit 18 t AND 0x3F) = unat a div 4" "unat (drop_bit 12 t AND 0x3F) = unat a mod 4 * 16 + unat b div 16"
    "unat (drop_bit 6 t AND 0x3F) = unat b mod 16 * 4 + unat c div 64" "unat (t AND 0x3F) = unat c mod 64"
proof -
  note G = group_arith [OF byte_nat byte_nat byte_nat, of a b c]
  have p: "2 ^ 18 = (262144 :: nat)" "2 ^ 12 = (4096 :: nat)" "2 ^ 6 = (64 :: nat)" by simp_all
  show "unat (drop_bit 18 t AND 0x3F) = unat a div 4" unfolding shift_mask t_def triple_nat p by (rule G(1))
  show "unat (drop_bit 12 t AND 0x3F) = unat a mod 4 * 16 + unat b div 16" unfolding shift_mask t_def triple_nat p by (rule G(2))
  show "unat (drop_bit 6 t AND 0x3F) = unat b mod 16 * 4 + unat c div 64" unfolding shift_mask t_def triple_nat p by (rule G(3))
  show "unat (t AND 0x3F) = unat c mod 64" unfolding shift_mask0 t_def triple_nat by (rule G(4))
qed

section \<open>The encoding loops\<close>

lemma octet_drop:
  "drop i (take n inp) = ys \<Longrightarrow> n \<le> length inp \<Longrightarrow> i \<le> n \<Longrightarrow>
   octet inp n (i + k) = Some (if k < length ys then ucast (ys ! k) else 0)"
  by (auto simp: octet_def peek_def)

lemma poke_app: "poke (zs @ x # ys) (length zs) v = Some (zs @ v # ys)"
  by (simp add: poke_def)

lemma peek_app: "peek (zs @ x # ys) (length zs) = Some x"
  by (simp add: peek_def)

lemma four_pokes:
  "do { out \<leftarrow> poke (xs @ replicate (4 + r) x) (length xs) c0; out \<leftarrow> poke out (length xs + 1) c1;
        out \<leftarrow> poke out (length xs + 2) c2; out \<leftarrow> poke out (length xs + 3) c3; f out } =
   f (xs @ [c0, c1, c2, c3] @ replicate r x)"
  by (simp add: poke_def list_update_append eval_nat_numeral)

text \<open>One group, with octets that are not there read as zero.\<close>

lemma enc_step:
  fixes a b c :: byte
  assumes "i < n" "octet inp n i = Some (ucast a)" "octet inp n (i + 1) = Some (ucast b)" "octet inp n (i + 2) = Some (ucast c)"
  shows "enc_loop tab inp n i (length xs) (xs @ replicate (4 + r) 0) =
    enc_loop tab inp n (min (i + 3) n) (length xs + 4)
      (xs @ map ((!) tab) [unat a div 4, unat a mod 4 * 16 + unat b div 16, unat b mod 16 * 4 + unat c div 64, unat c mod 64] @
       replicate r 0)"
proof -
  let ?t = "push_bit 16 (ucast a) + push_bit 8 (ucast b) + ucast c :: u32"
  have "enc_loop tab inp n i (length xs) (xs @ replicate (4 + r) 0) =
    do { out \<leftarrow> poke (xs @ replicate (4 + r) 0) (length xs) (tab ! unat (drop_bit 18 ?t AND 0x3F));
         out \<leftarrow> poke out (length xs + 1) (tab ! unat (drop_bit 12 ?t AND 0x3F));
         out \<leftarrow> poke out (length xs + 2) (tab ! unat (drop_bit 6 ?t AND 0x3F));
         out \<leftarrow> poke out (length xs + 3) (tab ! unat (?t AND 0x3F));
         enc_loop tab inp n (min (i + 3) n) (length xs + 4) out }"
    by (subst enc_loop.simps) (simp only: assms if_True Let_def bind.bind_lunit)
  then show ?thesis unfolding four_pokes triple_sextets [OF refl] by simp
qed

lemma enc_loop_spec:
  "drop i (take n inp) = ys \<Longrightarrow> n \<le> length inp \<Longrightarrow> i \<le> n \<Longrightarrow>
   enc_loop tab inp n i (length xs) (xs @ replicate (4 * groups (length ys) + r) 0) =
   Some (xs @ map ((!) tab) (sextets ys @ replicate (npad (length ys)) 0) @ replicate r 0)"
proof (induction ys arbitrary: i xs rule: sextets.induct)
  case 1
  then show ?case by (subst enc_loop.simps) auto
next
  case (2 a)
  note o = octet_drop [OF 2]
  have "n - i = 1" using arg_cong [OF 2(1), of length] 2(2) by simp
  then have i: "i < n" "min (i + 3) n = n" by auto
  have "octet inp n i = Some (ucast a)" "octet inp n (i + 1) = Some (ucast (0 :: byte))" "octet inp n (i + 2) = Some (ucast (0 :: byte))"
    using o [of 0] o [of 1] o [of 2] by simp_all
  from enc_step [OF i(1) this, of tab xs r] show ?case unfolding i(2)
    by (subst (asm) (2) enc_loop.simps) (simp add: numeral_2_eq_2)
next
  case (3 a b)
  note o = octet_drop [OF 3]
  have "n - i = 2" using arg_cong [OF 3(1), of length] 3(2) by simp
  then have i: "i < n" "min (i + 3) n = n" by auto
  have "octet inp n i = Some (ucast a)" "octet inp n (i + 1) = Some (ucast b)" "octet inp n (i + 2) = Some (ucast (0 :: byte))"
    using o [of 0] o [of 1] o [of 2] by simp_all
  from enc_step [OF i(1) this, of tab xs r] show ?case unfolding i(2)
    by (subst (asm) (2) enc_loop.simps) simp
next
  case (4 a b c ys)
  note o = octet_drop [OF 4(2-4)]
  have "n - i = length ys + 3" using arg_cong [OF 4(2), of length] 4(3) by simp
  then have i: "i < n" "min (i + 3) n = i + 3" "i + 3 \<le> n" by auto
  have "drop (i + 3) (take n inp) = ys" using arg_cong [OF 4(2), of "drop 3"] by (simp add: add.commute)
  note IH = 4(1) [OF this 4(3) i(3)]
  have "octet inp n i = Some (ucast a)" "octet inp n (i + 1) = Some (ucast b)" "octet inp n (i + 2) = Some (ucast c)"
    using o [of 0] o [of 1] o [of 2] by simp_all
  note S = enc_step [OF i(1) this, of tab xs "4 * groups (length ys) + r"]
  let ?g = "map ((!) tab) [unat a div 4, unat a mod 4 * 16 + unat b div 16, unat b mod 16 * 4 + unat c div 64, unat c mod 64]"
  have l: "length xs + 4 = length (xs @ ?g)" by simp
  have "enc_loop tab inp n i (length xs) (xs @ replicate (4 + (4 * groups (length ys) + r)) 0) =
    enc_loop tab inp n (i + 3) (length (xs @ ?g)) ((xs @ ?g) @ replicate (4 * groups (length ys) + r) 0)"
    unfolding S i(2) l append_assoc ..
  also have "\<dots> = Some ((xs @ ?g) @ map ((!) tab) (sextets ys @ replicate (npad (length ys)) 0) @ replicate r 0)" by (rule IH)
  finally show ?case by (simp add: add.assoc)
qed

lemma pad_loop_spec:
  "pad_loop (xs @ replicate p x @ ys) (length xs + p) p v = Some (xs @ replicate p v @ ys)"
proof (induction p arbitrary: ys)
  case (Suc p)
  have "poke (xs @ replicate (Suc p) x @ ys) (length xs + p) v = Some (xs @ replicate p x @ (v # ys))"
    using poke_app [of "xs @ replicate p x" x ys v] by (simp add: replicate_app_Cons_same)
  moreover have "replicate p v @ v # ys = replicate (Suc p) v @ ys" by (simp add: replicate_app_Cons_same)
  ultimately show ?case using Suc.IH [of "v # ys"] by simp
qed simp

lemma trim_loop_spec: "c \<noteq> 0 \<Longrightarrow> trim_loop (xs @ c # replicate q 0 @ ys) (length xs + q) = Some (length xs)"
proof (induction q arbitrary: ys)
  case 0
  then show ?case by (subst trim_loop.simps) (simp add: peek_app)
next
  case (Suc q)
  have "peek (xs @ c # replicate (Suc q) 0 @ ys) (length xs + Suc q) = Some 0"
    using peek_app [of "xs @ c # replicate q 0" 0 ys] by (simp add: replicate_app_Cons_same)
  then show ?case using Suc.IH [OF Suc.prems, of "0 # ys"]
    by (subst trim_loop.simps) (simp add: replicate_app_Cons_same)
qed

section \<open>Encoding\<close>

definition b64_text :: "byte list \<Rightarrow> byte list \<Rightarrow> byte list" where
  "b64_text tab xs = map ((!) tab) (sextets xs)"

lemma npad_le: "npad n \<le> 2"
proof -
  have "n mod 3 < 3" by simp
  then consider "n mod 3 = 0" | "n mod 3 = 1" | "n mod 3 = 2" by linarith
  then show ?thesis by cases (simp_all add: npad_def nModTable_def)
qed

lemma sextets_nonempty: "xs \<noteq> [] \<Longrightarrow> \<exists>ss s. sextets xs = ss @ [s] \<and> s < 64"
proof -
  assume "xs \<noteq> []"
  then have "sextets xs \<noteq> []" by (cases xs rule: sextets.cases) auto
  then have "sextets xs = butlast (sextets xs) @ [last (sextets xs)]" "last (sextets xs) \<in> set (sextets xs)" by simp_all
  then show ?thesis using sextets_less by blast
qed

lemma tables_char:
  assumes "s < 64"
  shows "XBase64_DecodeValue (g_base64EncTable ! s) = int s" "g_base64EncTable ! s \<noteq> 0" "g_base64UrlEncTable ! s \<noteq> 0"
    "url_to_std (g_base64UrlEncTable ! s) = g_base64EncTable ! s" "g_base64UrlEncTable ! s \<noteq> pad_char"
proof -
  have "list_all (\<lambda>s. XBase64_DecodeValue (g_base64EncTable ! s) = int s \<and> g_base64EncTable ! s \<noteq> 0 \<and>
      g_base64UrlEncTable ! s \<noteq> 0 \<and> url_to_std (g_base64UrlEncTable ! s) = g_base64EncTable ! s \<and>
      g_base64UrlEncTable ! s \<noteq> pad_char) [0..<64]" by code_simp
  then show "XBase64_DecodeValue (g_base64EncTable ! s) = int s" "g_base64EncTable ! s \<noteq> 0" "g_base64UrlEncTable ! s \<noteq> 0"
    "url_to_std (g_base64UrlEncTable ! s) = g_base64EncTable ! s" "g_base64UrlEncTable ! s \<noteq> pad_char"
    using assms by (simp_all add: list_all_iff)
qed

lemma enc_buffer:
  assumes "0 < n" "n \<le> length inp" "n < 2 ^ 62"
  shows "sz (sz (n + 2) div 3 * 4) = 4 * groups n" "4 * groups n = length (b64_text tab (take n inp)) + npad n" "0 < groups n"
    "enc_loop tab inp n 0 0 (replicate (4 * groups n + 1) 0) =
     Some (b64_text tab (take n inp) @ replicate (npad n) (tab ! 0) @ [0])"
proof -
  show "sz (sz (n + 2) div 3 * 4) = 4 * groups n" using assms(3) by (simp add: groups_def)
  show "4 * groups n = length (b64_text tab (take n inp)) + npad n"
    using sextets_length [of "take n inp"] assms(2) by (simp add: b64_text_def min_absorb2)
  show "0 < groups n" using assms(1) by (simp add: groups_def)
  show "enc_loop tab inp n 0 0 (replicate (4 * groups n + 1) 0) =
     Some (b64_text tab (take n inp) @ replicate (npad n) (tab ! 0) @ [0])"
    using enc_loop_spec [of 0 n inp "take n inp" tab "[]" 1] assms by (simp add: b64_text_def min_absorb2)
qed

lemma encrypt_spec:
  assumes "0 < n" "n \<le> length inp" "n < 2 ^ 62"
  shows "XBase64_Encrypt True inp n =
    Some (Some (b64_text g_base64EncTable (take n inp) @ replicate (npad n) pad_char @ [0], 4 * groups n))"
proof -
  let ?t = "b64_text g_base64EncTable (take n inp)"
  note E = enc_buffer(1) [OF assms] enc_buffer(2) [OF assms, of g_base64EncTable] enc_buffer(3) [OF assms]
    enc_buffer(4) [OF assms, of g_base64EncTable]
  have pad: "pad_loop (?t @ replicate (npad n) (g_base64EncTable ! 0) @ [0]) (4 * groups n) (nModTable ! (n mod 3)) pad_char =
    Some (?t @ replicate (npad n) pad_char @ [0])"
    unfolding npad_def [symmetric] E(2) by (rule pad_loop_spec)
  obtain u c where u: "?t @ replicate (npad n) pad_char = u @ [c]" "c \<noteq> 0"
  proof (cases "npad n")
    case 0
    have "take n inp \<noteq> []" using assms by auto
    from sextets_nonempty [OF this] obtain ss s where "sextets (take n inp) = ss @ [s]" "s < 64" by blast
    then show ?thesis using that [of "map ((!) g_base64EncTable) ss" "g_base64EncTable ! s"] 0 tables_char(2)
      by (simp add: b64_text_def)
  next
    case (Suc p)
    have "replicate (Suc p) pad_char = replicate p pad_char @ [pad_char]" by (simp add: replicate_append_same)
    then show ?thesis using that [of "?t @ replicate p pad_char" pad_char] Suc by (simp del: replicate_Suc)
  qed
  have len: "4 * groups n = length (u @ [c])" using E(2) arg_cong [OF u(1), of length] by simp
  have buf: "?t @ replicate (npad n) pad_char @ [0] = u @ c # replicate 1 0 @ []" using u(1) by (metis append_assoc append_Cons append_Nil One_nat_def replicate_0 replicate_Suc)
  have trim: "trim_loop (?t @ replicate (npad n) pad_char @ [0]) (4 * groups n) = Some (length u)"
    unfolding buf len using trim_loop_spec [OF u(2), of u 1 "[]"] by simp
  have nul: "(?t @ replicate (npad n) pad_char @ [0]) ! (4 * groups n) = 0" unfolding buf len by (simp add: nth_append)
  have last: "poke (?t @ replicate (npad n) pad_char @ [0]) (4 * groups n) 0 = Some (?t @ replicate (npad n) pad_char @ [0])"
    unfolding buf len using poke_app [of "u @ [c]" 0 "[]" 0] by simp
  have l1: "length u + 1 = 4 * groups n" using len by simp
  show ?thesis
    using assms(1) by (simp only: XBase64_Encrypt_def E(1,4) Let_def pad trim nul l1 bind.bind_lunit if_True) (simp add: last)
qed

lemma urlencrypt_spec:
  assumes "0 < n" "n \<le> length inp" "n < 2 ^ 62"
  shows "XBase64_UrlEncrypt True inp n =
    Some (Some (b64_text g_base64UrlEncTable (take n inp) @ replicate (npad n + 1) 0, length (sextets (take n inp))))"
proof -
  let ?t = "b64_text g_base64UrlEncTable (take n inp)"
  note E = enc_buffer(1) [OF assms] enc_buffer(2) [OF assms, of g_base64UrlEncTable] enc_buffer(3) [OF assms]
    enc_buffer(4) [OF assms, of g_base64UrlEncTable]
  have pad: "pad_loop (?t @ replicate (npad n) (g_base64UrlEncTable ! 0) @ [0]) (4 * groups n) (nModTable ! (n mod 3)) 0 =
    Some (?t @ replicate (npad n) 0 @ [0])"
    unfolding npad_def [symmetric] E(2) by (rule pad_loop_spec)
  have "take n inp \<noteq> []" using assms by auto
  from sextets_nonempty [OF this] obtain ss s where ss: "sextets (take n inp) = ss @ [s]" "s < 64" by blast
  let ?u = "map ((!) g_base64UrlEncTable) ss"
  have t: "?t = ?u @ [g_base64UrlEncTable ! s]" using ss by (simp add: b64_text_def)
  have buf: "?t @ replicate (npad n) 0 @ [0] = ?u @ g_base64UrlEncTable ! s # replicate (npad n + 1) 0 @ []"
    unfolding t by (simp add: replicate_append_same)
  have len: "4 * groups n = length ?u + (npad n + 1)" using E(2) t by simp
  have trim: "trim_loop (?t @ replicate (npad n) 0 @ [0]) (4 * groups n) = Some (length ?u)"
    unfolding buf len by (rule trim_loop_spec [OF tables_char(3) [OF ss(2)]])
  have l1: "length ?u + 1 = length (sextets (take n inp))" using ss(1) by simp
  have r: "replicate (npad n) 0 @ [0] = replicate (npad n + 1) 0" by (simp add: replicate_append_same)
  show ?thesis
    using assms(1) by (simp only: XBase64_UrlEncrypt_def E(1,4) Let_def pad trim l1 bind.bind_lunit if_True) (simp add: r)
qed

section \<open>Decoding\<close>

text \<open>The value of a character that the decoder accepts; the input as the decoder splits it.\<close>

definition char_value :: "byte \<Rightarrow> nat" where
  "char_value c = nat (XBase64_DecodeValue c)"

definition b64_pads :: "byte list \<Rightarrow> nat" where
  "b64_pads s = length (takeWhile (\<lambda>c. c = pad_char) (rev s))"

definition b64_body :: "byte list \<Rightarrow> byte list" where
  "b64_body s = take (length s - b64_pads s) s"

definition b64_accepts :: "byte list \<Rightarrow> bool" where
  "b64_accepts s \<longleftrightarrow> b64_pads s \<le> 2 \<and> (0 < b64_pads s \<longrightarrow> length s mod 4 = 0) \<and> length s mod 4 \<noteq> 1 \<and>
     (\<forall>c \<in> set (b64_body s). 0 \<le> XBase64_DecodeValue c)"

lemma table_range: "uint (g_base64DecTable ! i) < 64" if "i < 256"
proof -
  have "list_all (\<lambda>b. uint b < 64) g_base64DecTable" "length g_base64DecTable = 256" by code_simp+
  then show ?thesis using that by (simp add: list_all_length)
qed

lemma DecodeValue_less: "XBase64_DecodeValue c < 64"
  using table_range [OF byte_nat, of c] by (simp add: XBase64_DecodeValue_def)

lemma DecodeValue_pad: "XBase64_DecodeValue pad_char = -1"
  by (simp add: XBase64_DecodeValue_def)

lemma char_value_less: "char_value c < 64"
  using DecodeValue_less [of c] by (simp add: char_value_def)

lemma count_pad_spec:
  "n \<le> length inp \<Longrightarrow> e \<le> n \<Longrightarrow>
   count_pad inp n e = Some (e + length (takeWhile (\<lambda>c. c = pad_char) (drop e (rev (take n inp)))))"
proof (induction "n - e" arbitrary: e)
  case 0
  then show ?case by (subst count_pad.simps) simp
next
  case (Suc l)
  then have e: "e < n" "l = n - Suc e" by auto
  have hd: "drop e (rev (take n inp)) = inp ! (n - 1 - e) # drop (Suc e) (rev (take n inp))"
    using e Suc.prems by (subst Cons_nth_drop_Suc [symmetric]) (auto simp: rev_nth min_absorb2)
  show ?case using Suc.hyps(1) [OF e(2)] e(1) Suc.prems
    by (subst count_pad.simps) (simp add: peek_def hd)
qed

lemma check_chars_spec:
  "n \<le> length inp \<Longrightarrow> i \<le> n \<Longrightarrow> check_chars inp n i = Some (\<forall>c \<in> set (drop i (take n inp)). 0 \<le> XBase64_DecodeValue c)"
proof (induction "n - i" arbitrary: i)
  case 0
  then show ?case by (subst check_chars.simps) simp
next
  case (Suc l)
  then have i: "i < n" "l = n - Suc i" by auto
  have hd: "drop i (take n inp) = inp ! i # drop (Suc i) (take n inp)"
    using i Suc.prems by (subst Cons_nth_drop_Suc [symmetric]) auto
  have p: "\<not> 0 \<le> XBase64_DecodeValue (inp ! i)" if "inp ! i = pad_char" using that DecodeValue_pad by simp
  show ?case using Suc.hyps(1) [OF i(2)] i(1) Suc.prems p
    by (subst check_chars.simps) (auto simp: peek_def hd)
qed

text \<open>The output while it is being written: the decoded octets so far, cut off at \<open>m\<close>.\<close>

definition dec_state :: "nat \<Rightarrow> byte list \<Rightarrow> byte list \<times> nat" where
  "dec_state m xs = (take m xs @ replicate (m + 1 - min m (length xs)) 0, min m (length xs))"

lemma out_octet_state: "out_octet (fst (dec_state m xs)) (snd (dec_state m xs)) m v = Some (dec_state m (xs @ [v]))"
proof (cases "length xs < m")
  case True
  then have "replicate (m + 1 - length xs) 0 = 0 # replicate (m + 1 - Suc (length xs)) (0 :: byte)"
    by (simp add: Suc_diff_le less_imp_le_nat flip: replicate_Suc)
  then show ?thesis using True poke_app [of xs 0 "replicate (m + 1 - Suc (length xs)) 0" v]
    by (simp add: out_octet_def dec_state_def min_def) arith
next
  case False
  then show ?thesis by (simp add: out_octet_def dec_state_def min_def)
qed

lemma dec_group_nat:
  assumes "s0 < 64" "s1 < 64" "s2 < 64" "s3 < (64 :: nat)"
  shows "unat (push_bit 18 (of_nat s0) + push_bit 12 (of_nat s1) + push_bit 6 (of_nat s2) + of_nat s3 :: u32) =
    s0 * 262144 + s1 * 4096 + s2 * 64 + s3"
proof -
  have "push_bit 18 (of_nat s0) + push_bit 12 (of_nat s1) + push_bit 6 (of_nat s2) + of_nat s3 =
    (word_of_nat (s0 * 262144 + s1 * 4096 + s2 * 64 + s3) :: u32)" by (simp add: push_bit_eq_mult)
  moreover have "s0 * 262144 + s1 * 4096 + s2 * 64 + s3 < 2 ^ LENGTH(32)" using assms by simp
  ultimately show ?thesis by (simp only: unat_of_nat mod_less)
qed

lemma dec_group:
  fixes t :: u32
  assumes "s0 < 64" "s1 < 64" "s2 < 64" "s3 < (64 :: nat)"
    and t: "t = push_bit 18 (of_nat s0) + push_bit 12 (of_nat s1) + push_bit 6 (of_nat s2) + of_nat s3"
  shows "(ucast (drop_bit 16 t AND 0xFF) :: byte) = of_nat (s0 * 4 + s1 div 16)"
    "(ucast (drop_bit 8 t AND 0xFF) :: byte) = of_nat (s1 mod 16 * 16 + s2 div 4)"
    "(ucast (t AND 0xFF) :: byte) = of_nat (s2 mod 4 * 64 + s3)"
proof -
  let ?n = "s0 * 262144 + s1 * 4096 + s2 * 64 + s3"
  have n: "unat t = ?n" unfolding t by (rule dec_group_nat [OF assms(1-4)])
  have s1: "s1 = s1 div 16 * 16 + s1 mod 16" "s1 mod 16 < 16" and s2: "s2 = s2 div 4 * 4 + s2 mod 4" "s2 mod 4 < 4" by simp_all
  obtain a b where ab: "s1 = a * 16 + b" "b < 16" using s1 by blast
  obtain c d where cd: "s2 = c * 4 + d" "d < 4" using s2 by blast
  have m: "(word_of_nat (k * 256 + y) :: byte) = word_of_nat y" for k y
    by (simp only: word_of_nat_eq_iff take_bit_eq_mod) simp
  have q: "x div n = k" if "x = k * n + y" "y < n" for x n k y :: nat using that by simp
  have 1: "?n div 2 ^ 16 = s0 * 4 + a" by (rule q [of _ _ _ "b * 4096 + s2 * 64 + s3"]) (use assms ab in simp_all)
  have 2: "?n div 2 ^ 8 = (s0 * 4 + a) * 256 + (b * 16 + c)" by (rule q [of _ _ _ "d * 64 + s3"]) (use assms ab cd in simp_all)
  have 3: "?n = ((s0 * 4 + a) * 256 + (b * 16 + c)) * 256 + (d * 64 + s3)" using ab cd by simp
  show "(ucast (drop_bit 16 t AND 0xFF) :: byte) = of_nat (s0 * 4 + s1 div 16)" unfolding shift_mask8 n 1 using ab by simp
  show "(ucast (drop_bit 8 t AND 0xFF) :: byte) = of_nat (s1 mod 16 * 16 + s2 div 4)" unfolding shift_mask8 n 2 m using ab cd by simp
  show "(ucast (t AND 0xFF) :: byte) = of_nat (s2 mod 4 * 64 + s3)"
    using shift_mask8 [of 0 t] unfolding n 3 by (simp only: drop_bit_0 id_apply power_0 div_by_1 m) (use cd in simp)
qed

text \<open>The sextets the loop reads: the values of the body, then zeros.\<close>

definition sextets_read :: "byte list \<Rightarrow> nat \<Rightarrow> nat list" where
  "sextets_read s p = map char_value (b64_body s) @ replicate (p - length (b64_body s)) 0"

lemma body_length: "length (b64_body s) = length s - b64_pads s"
  by (simp add: b64_body_def)

lemma pads_le: "b64_pads s \<le> length s"
  using length_takeWhile_le [of _ "rev s"] by (simp add: b64_pads_def)

lemma pads_are: "length s - b64_pads s \<le> i \<Longrightarrow> i < length s \<Longrightarrow> s ! i = pad_char"
proof -
  assume i: "length s - b64_pads s \<le> i" "i < length s"
  then have j: "length s - Suc i < b64_pads s" by simp
  then have "takeWhile (\<lambda>c. c = pad_char) (rev s) ! (length s - Suc i) = rev s ! (length s - Suc i)"
    by (simp add: b64_pads_def takeWhile_nth)
  moreover have "takeWhile (\<lambda>c. c = pad_char) (rev s) ! (length s - Suc i) \<in> set (takeWhile (\<lambda>c. c = pad_char) (rev s))"
    using j by (simp add: b64_pads_def)
  ultimately have "rev s ! (length s - Suc i) = pad_char" using set_takeWhileD by metis
  then show ?thesis using i by (simp add: rev_nth)
qed

lemma sextet_read:
  assumes "n \<le> length inp" "b64_accepts (take n inp)" "i < p" "n \<le> p"
  shows "sextet inp n i = Some (Some (of_nat (sextets_read (take n inp) p ! i)))"
proof -
  let ?s = "take n inp"
  have l: "length ?s = n" using assms(1) by simp
  consider "i < length (b64_body ?s)" | "length (b64_body ?s) \<le> i" "i < n" | "n \<le> i" by linarith
  then show ?thesis
  proof cases
    case 1
    then have "inp ! i \<in> set (b64_body ?s)" "i < n" by (auto simp: b64_body_def in_set_conv_nth l)
    then have v: "0 \<le> XBase64_DecodeValue (inp ! i)" using assms(2) by (simp add: b64_accepts_def)
    moreover have "inp ! i \<noteq> pad_char" using v DecodeValue_pad by auto
    moreover have "sextets_read ?s p ! i = char_value (inp ! i)"
      using 1 by (simp add: sextets_read_def nth_append b64_body_def)
    ultimately show ?thesis using \<open>i < n\<close> assms(1) by (simp add: sextet_def peek_def char_value_def)
  next
    case 2
    have "inp ! i = pad_char" using pads_are [of ?s i] 2 assms(1) by (simp add: body_length l)
    moreover have "sextets_read ?s p ! i = 0" using 2 assms(3) by (simp add: sextets_read_def nth_append)
    ultimately show ?thesis using 2 assms(1) by (simp add: sextet_def peek_def)
  next
    case 3
    then have "length (b64_body ?s) \<le> i" using body_length [of ?s] l by simp
    then have "sextets_read ?s p ! i = 0" using assms(3) by (simp add: sextets_read_def nth_append)
    then show ?thesis using 3 by (simp add: sextet_def)
  qed
qed

lemma dec_loop_spec:
  assumes "n \<le> length inp" "b64_accepts (take n inp)" "n \<le> p" "\<forall>x \<in> set ss. x < 64"
  shows "drop i (sextets_read (take n inp) p) = ss \<Longrightarrow> i \<le> p \<Longrightarrow> length (sextets_read (take n inp) p) = p \<Longrightarrow> length ss mod 4 = 0 \<Longrightarrow>
    dec_loop inp n p m i (snd (dec_state m xs)) (fst (dec_state m xs)) = Some (Some (dec_state m (xs @ unsextets ss)))"
  using assms(4)
proof (induction ss arbitrary: i xs rule: unsextets.induct)
  case (1 s0 s1 s2 s3 ss)
  let ?S = "sextets_read (take n inp) p"
  have pi: "p - i = length ss + 4" using arg_cong [OF "1.prems"(1), of length] "1.prems"(3) by simp
  then have i: "i < p" "i + 4 \<le> p" by auto
  have rd: "sextet inp n (i + k) = Some (Some (of_nat ((s0 # s1 # s2 # s3 # ss) ! k)))" if "k < 4" for k
    using sextet_read [OF assms(1,2), of "i + k" p] that pi assms(3) "1.prems"(1)
    by (metis add_less_cancel_left i(2) "1.prems"(2,3) nth_drop order_less_le_trans)
  have s: "sextet inp n i = Some (Some (of_nat s0))" "sextet inp n (i + 1) = Some (Some (of_nat s1))"
    "sextet inp n (i + 2) = Some (Some (of_nat s2))" "sextet inp n (i + 3) = Some (Some (of_nat s3))"
    using rd [of 0] rd [of 1] rd [of 2] rd [of 3] by (simp_all add: eval_nat_numeral)
  have lt: "s0 < 64" "s1 < 64" "s2 < 64" "s3 < 64" "\<forall>x \<in> set ss. x < 64" using "1.prems"(5) by auto
  note g = dec_group [OF lt(1-4) refl]
  have d: "drop (i + 4) ?S = ss" using arg_cong [OF "1.prems"(1), of "drop 4"] by (simp add: add.commute)
  have m4: "length ss mod 4 = 0" using "1.prems"(4) by simp
  let ?g = "[of_nat (s0 * 4 + s1 div 16), of_nat (s1 mod 16 * 16 + s2 div 4), of_nat (s2 mod 4 * 64 + s3)]"
  have "dec_loop inp n p m i (snd (dec_state m xs)) (fst (dec_state m xs)) =
    dec_loop inp n p m (i + 4) (snd (dec_state m (xs @ ?g))) (fst (dec_state m (xs @ ?g)))"
    by (subst dec_loop.simps) (use i(1) in \<open>simp add: s g Let_def out_octet_state case_prod_beta del: One_nat_def of_nat_add of_nat_mult add_2_eq_Suc'\<close>)
  also have "\<dots> = Some (Some (dec_state m ((xs @ ?g) @ unsextets ss)))"
    by (rule "1.IH" [OF d i(2) "1.prems"(3) m4 lt(5)])
  finally show ?case by simp
next
  case "4_1"
  then have "i = p" by simp
  then show ?case by (subst dec_loop.simps) simp
qed auto

lemma unsextets_length: "length ss mod 4 = 0 \<Longrightarrow> length (unsextets ss) = 3 * (length ss div 4)"
  by (induction ss rule: unsextets.induct) auto

lemma unsextets_trim:
  "(length vs + np) mod 4 = 0 \<Longrightarrow> np \<le> 2 \<Longrightarrow>
   take (3 * ((length vs + np) div 4) - np) (unsextets (vs @ replicate np 0)) = unsextets vs"
proof (induction vs rule: unsextets.induct)
  case (1 s0 s1 s2 s3 xs)
  then have m: "(length xs + np) mod 4 = 0" by simp
  have d: "(length (s0 # s1 # s2 # s3 # xs) + np) div 4 = Suc ((length xs + np) div 4)" by simp
  have "np \<le> 3 * ((length xs + np) div 4)"
  proof (cases "np = 0")
    case False
    then have "4 \<le> length xs + np" using m by (cases "length xs + np < 4") auto
    then have "1 \<le> (length xs + np) div 4" by (simp add: div_greater_zero_iff)
    then show ?thesis using 1(3) by linarith
  qed simp
  then have "3 * Suc ((length xs + np) div 4) - np = Suc (Suc (Suc (3 * ((length xs + np) div 4) - np)))" by simp
  then show ?case using 1(1) [OF m 1(3)] unfolding d by simp
next
  case (2 s0 s1 s2)
  from 2(2) have "np = 0 \<or> np = 1 \<or> np = 2" by linarith
  with 2(1) show ?case by auto
next
  case (3 s0 s1)
  from 3(2) have "np = 0 \<or> np = 1 \<or> np = 2" by linarith
  with 3(1) have "np = 2" by (elim disjE) simp_all
  then show ?case by (simp add: numeral_2_eq_2)
next
  case "4_1"
  from "4_1"(2) have "np = 0 \<or> np = 1 \<or> np = 2" by linarith
  with "4_1"(1) show ?case by auto
next
  case "4_2"
  from "4_2"(2) have "np = 0 \<or> np = 1 \<or> np = 2" by linarith
  with "4_2"(1) show ?case by auto
qed

lemma decrypt_spec:
  assumes "0 < n" "n \<le> length inp" "n < 2 ^ 62"
  shows "XBase64_Decrypt True inp n =
    Some (if b64_accepts (take n inp)
          then let out = unsextets (map char_value (b64_body (take n inp))) in Some (out @ [0], length out)
          else None)"
proof -
  let ?s = "take n inp"
  have l: "length ?s = n" using assms(2) by simp
  define e where "e = b64_pads ?s"
  define ip where "ip = (if e = 0 \<and> n mod 4 \<noteq> 0 then 4 - n mod 4 else 0)"
  have en: "e \<le> n" using pads_le [of ?s] l by (simp add: e_def)
  have cp: "count_pad inp n 0 = Some e" using count_pad_spec [of n inp 0] assms(2) by (simp add: e_def b64_pads_def)
  have body: "take (n - e) inp = b64_body ?s" using l by (simp add: b64_body_def e_def min_def)
  have cc: "check_chars inp (n - e) 0 = Some (\<forall>c \<in> set (b64_body ?s). 0 \<le> XBase64_DecodeValue c)"
    using check_chars_spec [of "n - e" inp 0] assms(2) body by simp
  have szs: "sz (n + ip) = n + ip" "sz ((n + ip) div 4 * 3) = (n + ip) div 4 * 3"
    using assms(3) by (auto simp: ip_def intro!: sz_small)
  show ?thesis
  proof (cases "b64_accepts ?s")
    case False
    then have "2 < e \<or> 0 < e \<and> n mod 4 \<noteq> 0 \<or> \<not> (\<forall>c \<in> set (b64_body ?s). 0 \<le> XBase64_DecodeValue c) \<or> n mod 4 = 1"
      unfolding b64_accepts_def e_def [symmetric] l by auto
    then show ?thesis using False assms(1) by (auto simp: XBase64_Decrypt_def cp cc Let_def)
  next
    case True
    then have acc: "e \<le> 2" "e = 0 \<or> n mod 4 = 0" "n mod 4 \<noteq> 1" "\<forall>c \<in> set (b64_body ?s). 0 \<le> XBase64_DecodeValue c"
      unfolding b64_accepts_def e_def [symmetric] l by auto
    have p4: "(n + ip) mod 4 = 0" using acc(2) unfolding ip_def by (auto split: if_splits) presburger
    have np2: "e + ip \<le> 2" using acc(1-3) unfolding ip_def by auto
    have "4 \<le> n + ip" using p4 assms(1) by (cases "n + ip < 4") auto
    then have ge: "e + ip \<le> (n + ip) div 4 * 3" using np2 div_le_mono [of 4 "n + ip" 4] by simp
    let ?m = "(n + ip) div 4 * 3 - (e + ip)"
    let ?S = "sextets_read ?s (n + ip)"
    let ?out = "unsextets (map char_value (b64_body ?s))"
    have bl: "length (b64_body ?s) = n - e" using body_length [of ?s] l by (simp add: e_def)
    have S: "?S = map char_value (b64_body ?s) @ replicate (e + ip) 0" using en by (simp add: sextets_read_def bl)
    have Sl: "length ?S = n + ip" using en by (simp add: S bl)
    have lt: "\<forall>x \<in> set ?S. x < 64" unfolding S using char_value_less by auto
    have ds: "dec_state ?m [] = (replicate (?m + 1) 0, 0)" by (simp add: dec_state_def)
    have S4: "length ?S mod 4 = 0" unfolding Sl by (rule p4)
    have "dec_loop inp n (n + ip) ?m 0 (snd (dec_state ?m [])) (fst (dec_state ?m [])) = Some (Some (dec_state ?m ([] @ unsextets ?S)))"
      by (rule dec_loop_spec [OF assms(2) True le_add1 lt drop_0 le0 Sl S4])
    then have "dec_loop inp n (n + ip) ?m 0 0 (replicate (?m + 1) 0) = Some (Some (dec_state ?m (unsextets ?S)))"
      unfolding ds fst_conv snd_conv append_Nil .
    moreover have len: "length (unsextets ?S) = (n + ip) div 4 * 3" using unsextets_length [of ?S] p4 by (simp add: Sl)
    have tk: "take ?m (unsextets ?S) = ?out"
      using unsextets_trim [of "map char_value (b64_body ?s)" "e + ip"] p4 np2 en
      unfolding S by (simp add: bl mult.commute)
    have "length (take ?m (unsextets ?S)) = ?m" unfolding length_take len by simp
    then have ol: "length ?out = ?m" unfolding tk .
    have "dec_state ?m (unsextets ?S) = (?out @ [0], ?m)" using tk len by (simp add: dec_state_def min_absorb1)
    ultimately have dl: "dec_loop inp n (n + ip) ?m 0 0 (replicate (?m + 1) 0) = Some (Some (?out @ [0], ?m))" by (simp only:)
    have pk: "poke (?out @ [0]) ?m 0 = Some (?out @ [0])" using poke_app [of ?out 0 "[]" 0] by (simp add: ol)
    have ipd: "(if e = 0 \<and> n mod 4 \<noteq> 0 then 4 - n mod 4 else 0) = ip" by (simp add: ip_def)
    have guards: "(n = 0) = False" "(2 < e) = False" "(0 < e \<and> n mod 4 \<noteq> 0) = False" "(n mod 4 = 1) = False"
      "((n + ip) div 4 * 3 < e + ip) = False" "(\<forall>c \<in> set (b64_body ?s). 0 \<le> XBase64_DecodeValue c) = True"
      using assms(1) acc ge by auto
    have "XBase64_Decrypt True inp n = Some (Some (?out @ [0], ?m))"
      unfolding XBase64_Decrypt_def cp cc Let_def ipd szs guards if_True if_False bind.bind_lunit not_True_eq_False dl option.case
        prod.case pk by simp
    then show ?thesis using True ol by (simp add: Let_def)
  qed
qed

section \<open>Properties\<close>

lemma byte_eqI: "x = unat b \<Longrightarrow> (word_of_nat x :: byte) = b"
  by simp

lemma unsextets_sextets: "unsextets (sextets xs) = xs"
proof (induction xs rule: sextets.induct)
  case (2 a)
  have "unat a div 4 * 4 + unat a mod 4 * 16 div 16 = unat a" by simp
  from byte_eqI [OF this] show ?case by (simp del: of_nat_add of_nat_mult)
next
  case (3 a b)
  have "unat b div 16 < 16" using byte_nat [of b] by simp
  then have "unat a div 4 * 4 + (unat a mod 4 * 16 + unat b div 16) div 16 = unat a"
    "(unat a mod 4 * 16 + unat b div 16) mod 16 * 16 + unat b mod 16 * 4 div 4 = unat b" by simp_all
  from this [THEN byte_eqI] show ?case by (simp del: of_nat_add of_nat_mult)
next
  case (4 a b c xs)
  have "unat b div 16 < 16" "unat c div 64 < 4" using byte_nat [of b] byte_nat [of c] by simp_all
  then have "unat a div 4 * 4 + (unat a mod 4 * 16 + unat b div 16) div 16 = unat a"
    "(unat a mod 4 * 16 + unat b div 16) mod 16 * 16 + (unat b mod 16 * 4 + unat c div 64) div 4 = unat b"
    "(unat b mod 16 * 4 + unat c div 64) mod 4 * 64 + unat c mod 64 = unat c" by simp_all
  from this [THEN byte_eqI] 4 show ?case by (simp del: of_nat_add of_nat_mult)
qed simp

lemma split_pads:
  assumes "pad_char \<notin> set t"
  shows "b64_pads (t @ replicate p pad_char) = p" "b64_body (t @ replicate p pad_char) = t"
proof -
  have "takeWhile (\<lambda>c. c = pad_char) (rev t) = []" using assms by (cases t rule: rev_cases) auto
  then show "b64_pads (t @ replicate p pad_char) = p" by (simp add: b64_pads_def takeWhile_append)
  then show "b64_body (t @ replicate p pad_char) = t" by (simp add: b64_body_def)
qed

lemma text_values:
  "map char_value (b64_text g_base64EncTable xs) = sextets xs"
  "c \<in> set (b64_text g_base64EncTable xs) \<Longrightarrow> 0 \<le> XBase64_DecodeValue c"
  "pad_char \<notin> set (b64_text g_base64EncTable xs)"
  "map url_to_std (b64_text g_base64UrlEncTable xs) = b64_text g_base64EncTable xs"
proof -
  note t = tables_char [OF sextets_less]
  show "map char_value (b64_text g_base64EncTable xs) = sextets xs"
    unfolding b64_text_def map_map by (rule map_idI) (simp add: t(1) char_value_def)
  show d: "0 \<le> XBase64_DecodeValue c" if "c \<in> set (b64_text g_base64EncTable xs)" for c
    using that t(1) by (auto simp: b64_text_def)
  show "pad_char \<notin> set (b64_text g_base64EncTable xs)" using d [of pad_char] DecodeValue_pad by auto
  show "map url_to_std (b64_text g_base64UrlEncTable xs) = b64_text g_base64EncTable xs"
    unfolding b64_text_def map_map by (rule map_cong [OF refl]) (simp add: t(4) del: url_to_std.simps)
qed

lemma accepts_text:
  assumes "xs \<noteq> []" "p = npad (length xs) \<or> p = 0"
  shows "b64_accepts (b64_text g_base64EncTable xs @ replicate p pad_char)"
proof -
  note S = split_pads [OF text_values(3), of xs p]
  have l: "length (b64_text g_base64EncTable xs) + npad (length xs) = 4 * groups (length xs)"
    using sextets_length [of xs] by (simp add: b64_text_def)
  have "p \<le> 2" "0 < p \<longrightarrow> (length (b64_text g_base64EncTable xs) + p) mod 4 = 0"
    using assms(2) l npad_le [of "length xs"] by auto
  moreover have "(length (b64_text g_base64EncTable xs) + p) mod 4 \<noteq> 1" using assms(2) l npad_le [of "length xs"] by auto presburger+
  ultimately show ?thesis using text_values(2) unfolding b64_accepts_def S by simp
qed

text \<open>
  C23: the encoders. For every input of at least one byte (below \<open>2 ^ 62\<close>) they stay in bounds and
  write exactly the RFC 4648 text: the octets regrouped into six-bit values, each looked up in the
  alphabet. The standard encoder ends it with the \<open>=\<close> characters that make the length a multiple of four
  and reports that length; the URL-safe one reports the length without padding. Both end it with NUL. An empty
  input or a failed allocation gives NULL.
\<close>

theorem base64_encode:
  assumes "0 < n" "n \<le> length inp" "n < 2 ^ 62"
  shows "XBase64_Encrypt True inp n =
      Some (Some (b64_text g_base64EncTable (take n inp) @ replicate (npad n) pad_char @ [0], 4 * groups n)) \<and>
    XBase64_UrlEncrypt True inp n =
      Some (Some (b64_text g_base64UrlEncTable (take n inp) @ replicate (npad n + 1) 0, length (sextets (take n inp)))) \<and>
    XBase64_Encrypt False inp n = Some None \<and> XBase64_UrlEncrypt False inp n = Some None \<and>
    XBase64_Encrypt True inp 0 = Some None \<and> XBase64_UrlEncrypt True inp 0 = Some None"
  using encrypt_spec [OF assms] urlencrypt_spec [OF assms] by (simp add: XBase64_Encrypt_def XBase64_UrlEncrypt_def)

theorem base64_encode_witness:
  "XBase64_Encrypt True [77, 97] 2 = Some (Some ([84, 87, 69, 61, 0], 4))"
proof -
  have "take 2 [77, 97] = [77, 97 :: byte]" "groups 2 = 1"
    "b64_text g_base64EncTable [77, 97] @ replicate (npad 2) pad_char @ [0] = [84, 87, 69, 61, 0]" by code_simp+
  then show ?thesis using base64_encode [of 2 "[77, 97]"] by simp
qed

text \<open>
  C24: the decoder on arbitrary input. It stays in bounds and returns non-NULL exactly for the texts it
  should accept: at most two trailing \<open>=\<close>, and then a length divisible by four; no character outside
  the alphabet before them; no lone character left over. The result is then exactly the six-bit values of the
  characters regrouped into octets, followed by NUL, with their number as the length.
\<close>

theorem base64_decode:
  assumes "0 < n" "n \<le> length inp" "n < 2 ^ 62"
  shows "XBase64_Decrypt True inp n =
    Some (if b64_accepts (take n inp)
          then let out = unsextets (map char_value (b64_body (take n inp))) in Some (out @ [0], length out)
          else None)"
  by (rule decrypt_spec [OF assms])

theorem base64_decode_witness:
  "XBase64_Decrypt True [84, 87, 69] 3 = Some (Some ([77, 97, 0], 2)) \<and> XBase64_Decrypt True [61] 1 = Some None"
proof -
  have "take 3 [84, 87, 69] = [84, 87, 69 :: byte]" "take 1 [61] = [61 :: byte]" "b64_accepts [84, 87, 69]"
    "unsextets (map char_value (b64_body [84, 87, 69])) = [77, 97]" "\<not> b64_accepts [61]" by code_simp+
  then show ?thesis using base64_decode [of 3 "[84, 87, 69]"] base64_decode [of 1 "[61]"] by simp
qed

text \<open>
  C25: the round trips. Decoding what either encoder returned gives back the input, its length and a
  closing NUL, for every non-empty input.
\<close>

theorem base64_roundtrip:
  assumes "0 < n" "n \<le> length inp" "n < 2 ^ 60"
  shows "(\<exists>out len. XBase64_Encrypt True inp n = Some (Some (out, len)) \<and>
      XBase64_Decrypt True out len = Some (Some (take n inp @ [0], n))) \<and>
    (\<exists>out len. XBase64_UrlEncrypt True inp n = Some (Some (out, len)) \<and>
      XBase64_UrlDecrypt True True out len = Some (Some (take n inp @ [0], n)))"
proof -
  let ?s = "take n inp"
  have n62: "n < 2 ^ 62" using assms(3) by simp
  have s: "?s \<noteq> []" "length ?s = n" using assms by auto
  let ?t = "b64_text g_base64EncTable ?s" and ?u = "b64_text g_base64UrlEncTable ?s"
  have g: "0 < groups n" "4 * groups n < 2 ^ 62" using assms(1,3) by (auto simp: groups_def)
  have l: "length ?t + npad n = 4 * groups n" "length ?t = length (sextets ?s)" "length ?u = length (sextets ?s)"
    using sextets_length [of ?s] s(2) by (simp_all add: b64_text_def)
  have std: "XBase64_Decrypt True (?t @ replicate p pad_char @ [0]) (length ?t + p) = Some (Some (?s @ [0], n))"
    if p: "p = npad n \<or> p = 0" for p
  proof -
    let ?e = "?t @ replicate p pad_char"
    have t: "take (length ?t + p) (?t @ replicate p pad_char @ [0]) = ?e" by simp
    have "0 < length ?t + p" "length ?t + p < 2 ^ 62" using p l(1) g npad_le [of n] by auto
    from decrypt_spec [OF this(1) _ this(2), of "?t @ replicate p pad_char @ [0]"] accepts_text [OF s(1), of p] p
    show ?thesis unfolding t split_pads(2) [OF text_values(3)] text_values(1) unsextets_sextets using s(2) by (simp add: Let_def)
  qed
  have "XBase64_UrlDecrypt True True (?u @ replicate (npad n + 1) 0) (length (sextets ?s)) =
    XBase64_Decrypt True (?t @ replicate 0 pad_char @ [0]) (length ?t + 0)"
  proof -
    have "mread (?u @ replicate (npad n + 1) 0) 0 (length (sextets ?s)) = Some ?u" using l(3) by (simp add: mread_def)
    moreover have "length (sextets ?s) \<noteq> 0" using l(1) g npad_le [of n] l(2) by auto
    ultimately show ?thesis using l(2)
      by (simp add: XBase64_UrlDecrypt_def text_values(4) del: url_to_std.simps)
  qed
  then show ?thesis
    using encrypt_spec [OF assms(1,2) n62] urlencrypt_spec [OF assms(1,2) n62] std [of 0] std [of "npad n"] l(1) by auto
qed

theorem base64_roundtrip_witness:
  "\<exists>out len. XBase64_UrlEncrypt True [255, 254] 2 = Some (Some (out, len)) \<and>
     XBase64_UrlDecrypt True True out len = Some (Some ([255, 254, 0], 2))"
  using base64_roundtrip [of 2 "[255, 254]"] by simp

end
