(* ===== verification/Ws.thy ===== *)
theory Ws
  imports Bytes Buf
begin

text \<open>
  WebSocket frames, \<open>src/src/net/ws.c\<close>: building, masking, parsing and taking apart frames held in a
  byte buffer (\<open>Buf\<close>). \<^term>\<open>None\<close> is a bad memory access. The four results of \<open>rand\<close> behind a
  masking key are arguments. A size is a \<open>size_t\<close>; the length fields are in network byte order.

  \<open>ws_wire\<close> is the frame layout of RFC 6455. Building a frame is proved to produce it, parsing to
  recognise exactly it, whatever follows it in the buffer, and to stay in bounds on any input.
\<close>

datatype xws_status = XWS_ERR_NONE | XWS_ERR_ALLOC | XWS_ERR_SIZE | XWS_INVALID_ARGS | XWS_INVALID_TYPE
  | XWS_INVALID_REQUEST | XWS_INVALID_RESPONSE | XWS_INVALID_SEC_KEY | XWS_MISSING_SEC_KEY | XWS_MISSING_PAYLOAD
  | XWS_FRAME_TOOBIG | XWS_FRAME_PARSED | XWS_FRAME_INVALID | XWS_FRAME_COMPLETE | XWS_FRAME_INCOMPLETE

datatype xws_frame_type = XWS_CONTINUATION | XWS_TEXT | XWS_BINARY | XWS_RESERVED1 | XWS_RESERVED2 | XWS_RESERVED3
  | XWS_RESERVED4 | XWS_RESERVED5 | XWS_CLOSE | XWS_PING | XWS_PONG | XWS_RESERVED6 | XWS_RESERVED7 | XWS_RESERVED8
  | XWS_RESERVED9 | XWS_RESERVED10 | XWS_INVALID

record xws_frame =
  ws_eType :: xws_frame_type
  ws_buffer :: xbyte_buffer
  ws_nPayloadLength :: nat
  ws_nHeaderSize :: nat
  ws_nMaskKey :: u32
  ws_nOpCode :: byte
  ws_bComplete :: bool
  ws_bAlloc :: bool
  ws_bMask :: bool
  ws_bFin :: bool

section \<open>Types, opcodes and messages\<close>

text \<open>The table lists each enumerator with its own numeric value, so the two columns agree.\<close>

definition g_wsFrameCodes :: "(xws_frame_type \<times> byte) list" where
  "g_wsFrameCodes =
     [(XWS_CONTINUATION, 0x0), (XWS_TEXT, 0x1), (XWS_BINARY, 0x2), (XWS_RESERVED1, 0x3), (XWS_RESERVED2, 0x4),
      (XWS_RESERVED3, 0x5), (XWS_RESERVED4, 0x6), (XWS_RESERVED5, 0x7), (XWS_CLOSE, 0x8), (XWS_PING, 0x9),
      (XWS_PONG, 0xA), (XWS_RESERVED6, 0xB), (XWS_RESERVED7, 0xC), (XWS_RESERVED8, 0xD), (XWS_RESERVED9, 0xE),
      (XWS_RESERVED10, 0xF)]"

definition XWS_FrameType :: "byte \<Rightarrow> xws_frame_type" where
  "XWS_FrameType op = (case find (\<lambda>c. snd c = op) g_wsFrameCodes of Some c \<Rightarrow> fst c | None \<Rightarrow> XWS_INVALID)"

definition XWS_OpCode :: "xws_frame_type \<Rightarrow> byte" where
  "XWS_OpCode t = (case find (\<lambda>c. fst c = t) g_wsFrameCodes of Some c \<Rightarrow> snd c | None \<Rightarrow> 0)"

fun XWebSock_GetStatusStr :: "xws_status \<Rightarrow> string" where
  "XWebSock_GetStatusStr XWS_FRAME_COMPLETE = ''Successfully parsed web socket frame header and payload''"
| "XWebSock_GetStatusStr XWS_FRAME_PARSED = ''Successfully parsed web socket frame header''"
| "XWebSock_GetStatusStr XWS_MISSING_SEC_KEY = ''Missing web socket sec key in upgrade request''"
| "XWebSock_GetStatusStr XWS_INVALID_SEC_KEY = ''Invalid web socket sec key in upgrade response''"
| "XWebSock_GetStatusStr XWS_MISSING_PAYLOAD = ''Missing payload in received web socket frame''"
| "XWebSock_GetStatusStr XWS_ERR_ALLOC = ''Failed to allocate memory for web socket frame''"
| "XWebSock_GetStatusStr XWS_ERR_SIZE = ''Failed web socket frame size calculation''"
| "XWebSock_GetStatusStr XWS_FRAME_TOOBIG = ''Receiving web socket frame bigger than limit''"
| "XWebSock_GetStatusStr XWS_FRAME_INCOMPLETE = ''Invalid or incomplete web socket frame''"
| "XWebSock_GetStatusStr XWS_FRAME_INVALID = ''Invalid or unsupported web socket frame''"
| "XWebSock_GetStatusStr XWS_INVALID_REQUEST = ''Received invalid HTTP upgrade request''"
| "XWebSock_GetStatusStr XWS_INVALID_RESPONSE = ''Received invalid HTTP upgrade response''"
| "XWebSock_GetStatusStr XWS_INVALID_TYPE = ''Invalid or uninitialized frame type''"
| "XWebSock_GetStatusStr XWS_INVALID_ARGS = ''Invalid or uninitialized arguments''"
| "XWebSock_GetStatusStr XWS_ERR_NONE = ''Unknown status''"

fun XWS_FrameTypeStr :: "xws_frame_type \<Rightarrow> string" where
  "XWS_FrameTypeStr XWS_TEXT = ''text''"
| "XWS_FrameTypeStr XWS_BINARY = ''binary''"
| "XWS_FrameTypeStr XWS_CLOSE = ''close''"
| "XWS_FrameTypeStr XWS_PING = ''ping''"
| "XWS_FrameTypeStr XWS_PONG = ''pong''"
| "XWS_FrameTypeStr XWS_INVALID = ''dummy''"
| "XWS_FrameTypeStr XWS_CONTINUATION = ''continuation''"
| "XWS_FrameTypeStr XWS_RESERVED1 = ''reserved1''"
| "XWS_FrameTypeStr XWS_RESERVED2 = ''reserved2''"
| "XWS_FrameTypeStr XWS_RESERVED3 = ''reserved3''"
| "XWS_FrameTypeStr XWS_RESERVED4 = ''reserved4''"
| "XWS_FrameTypeStr XWS_RESERVED5 = ''reserved5''"
| "XWS_FrameTypeStr XWS_RESERVED6 = ''reserved6''"
| "XWS_FrameTypeStr XWS_RESERVED7 = ''reserved7''"
| "XWS_FrameTypeStr XWS_RESERVED8 = ''reserved8''"
| "XWS_FrameTypeStr XWS_RESERVED9 = ''reserved9''"
| "XWS_FrameTypeStr XWS_RESERVED10 = ''reserved10''"

section \<open>Building frames\<close>

text \<open>The masking key from the next four results of \<open>rand\<close>.\<close>

type_synonym rands = "u32 \<times> u32 \<times> u32 \<times> u32"

fun XWS_GenerateMaskKey :: "rands \<Rightarrow> u32" where
  "XWS_GenerateMaskKey (r0, r1, r2, r3) =
     (let k = push_bit 24 (r0 AND 0xFF) OR push_bit 16 (r1 AND 0xFF) OR push_bit 8 (r2 AND 0xFF) OR (r3 AND 0xFF)
      in if k \<noteq> 0 then k else 0xA5A5A5A5)"

text \<open>The frame block, if it could be allocated, and \<open>*pFrameSize\<close>.\<close>

definition XWS_CreateFrame ::
  "malloc \<Rightarrow> byte list option \<Rightarrow> nat \<Rightarrow> byte \<Rightarrow> bool \<Rightarrow> (byte list option \<times> nat) option" where
  "XWS_CreateFrame m pPayload nLength nOpCode bFin =
     (let nStartByte = push_bit 7 (if bFin then 1 else 0) OR nOpCode;
          nLengthByte = (if nLength \<le> 125 then nLength else if nLength \<le> 65535 then 126 else 127);
          nHeaderSize = (if nLength \<le> 125 then 2 else if nLength \<le> 65535 then 4 else 10);
          nFrameSize = sz (nHeaderSize + nLength)
      in case m (sz (nFrameSize + 1)) of
           None \<Rightarrow> Some (None, 0)
         | Some d \<Rightarrow> do {
             d \<leftarrow> poke d 0 nStartByte;
             d \<leftarrow> poke d 1 (of_nat nLengthByte);
             d \<leftarrow> (if nLengthByte = 126 then memcpy d 2 (be_bytes 2 nLength)
                  else if nLengthByte = 127 then memcpy d 2 (be_bytes 8 nLength) else Some d);
             d \<leftarrow> (case pPayload of
                    Some p \<Rightarrow> (if nLength \<noteq> 0 then do { s \<leftarrow> mread p 0 nLength; memcpy d nHeaderSize s } else Some d)
                  | None \<Rightarrow> Some d);
             d \<leftarrow> poke d nFrameSize 0;
             Some (Some d, nFrameSize) })"

definition XWebFrame_Init :: "malloc \<Rightarrow> xws_frame option" where
  "XWebFrame_Init m = do {
     (b, _) \<leftarrow> XByteBuffer_Init m 0 0;
     Some \<lparr>ws_eType = XWS_INVALID, ws_buffer = b, ws_nPayloadLength = 0, ws_nHeaderSize = 0, ws_nMaskKey = 0,
           ws_nOpCode = 0, ws_bComplete = False, ws_bAlloc = False, ws_bMask = False, ws_bFin = False\<rparr> }"

definition XWebFrame_Clear :: "xws_frame \<Rightarrow> xws_frame" where
  "XWebFrame_Clear f = f\<lparr>ws_buffer := XByteBuffer_Clear (ws_buffer f)\<rparr>"

text \<open>\<open>XWebFrame_Reset\<close> clears the buffer and then overwrites the whole frame.\<close>

definition XWebFrame_Reset :: "malloc \<Rightarrow> xws_frame \<Rightarrow> xws_frame option" where
  "XWebFrame_Reset m f = (let _ = XWebFrame_Clear f in XWebFrame_Init m)"

definition XWebFrame_Free :: "xws_frame \<Rightarrow> xws_frame option" where
  "XWebFrame_Free f = (if ws_bAlloc f then None else Some (XWebFrame_Clear f))"

text \<open>\<open>d[off + j] ^= key[j % 4]\<close> for \<open>j\<close> from \<open>i\<close> up to \<open>n\<close>.\<close>

function mask_loop :: "byte list \<Rightarrow> nat \<Rightarrow> byte list \<Rightarrow> nat \<Rightarrow> nat \<Rightarrow> byte list option" where
  "mask_loop d off key i n =
     (if i < n
      then do { x \<leftarrow> peek d (off + i); k \<leftarrow> peek key (i mod 4); d \<leftarrow> poke d (off + i) (x XOR k); mask_loop d off key (Suc i) n }
      else Some d)"
  by pat_completeness auto
termination by (relation "measure (\<lambda>(_, _, _, i, n). n - i)") auto

declare mask_loop.simps [simp del]

definition XWebFrame_Mask :: "malloc \<Rightarrow> rands \<Rightarrow> xws_frame \<Rightarrow> (xws_frame \<times> xws_status) option" where
  "XWebFrame_Mask m rs f =
     (case bb_pData (ws_buffer f) of
        None \<Rightarrow> Some (f, XWS_INVALID_ARGS)
      | Some d \<Rightarrow>
          if ws_nHeaderSize f < 2 then Some (f, XWS_ERR_SIZE)
          else if bb_nUsed (ws_buffer f) < ws_nHeaderSize f then Some (f, XWS_FRAME_INCOMPLETE)
          else do {
            b1 \<leftarrow> peek d 1;
            if ws_bMask f \<or> b1 AND 0x80 \<noteq> 0 then Some (f, XWS_ERR_NONE)
            else do {
              let f = f\<lparr>ws_nMaskKey := XWS_GenerateMaskKey rs\<rparr>;
              let key = le_bytes (ws_nMaskKey f);
              (b, r) \<leftarrow> XByteBuffer_Insert m (ws_buffer f) (ws_nHeaderSize f) (Some key);
              if r \<le> 0 then Some (f\<lparr>ws_buffer := b\<rparr>, XWS_ERR_ALLOC)
              else do {
                d \<leftarrow> bb_pData b;
                x \<leftarrow> peek d 1;
                d \<leftarrow> poke d 1 (x OR 0x80);
                let h = sz (ws_nHeaderSize f + 4);
                let f = f\<lparr>ws_buffer := b\<lparr>bb_pData := Some d\<rparr>, ws_nHeaderSize := h, ws_bMask := True\<rparr>;
                if sz (bb_nUsed b + 2 ^ 64 - h) < ws_nPayloadLength f then Some (f, XWS_FRAME_INCOMPLETE)
                else do {
                  d \<leftarrow> mask_loop d h key 0 (ws_nPayloadLength f);
                  Some (f\<lparr>ws_buffer := b\<lparr>bb_pData := Some d\<rparr>\<rparr>, XWS_ERR_NONE) } } } })"

definition XWebFrame_Create ::
  "malloc \<Rightarrow> rands \<Rightarrow> byte list option \<Rightarrow> nat \<Rightarrow> xws_frame_type \<Rightarrow> bool \<Rightarrow> bool \<Rightarrow> xws_frame \<Rightarrow> (xws_frame \<times> xws_status) option" where
  "XWebFrame_Create m rs pPayload nLength eType bMask bFin f =
     (if pPayload = None \<and> nLength \<noteq> 0 then Some (f, XWS_INVALID_ARGS)
      else if eType = XWS_INVALID then Some (f, XWS_INVALID_TYPE)
      else do {
        f \<leftarrow> XWebFrame_Init m;
        let f = f\<lparr>ws_eType := eType, ws_bFin := bFin, ws_nOpCode := XWS_OpCode eType\<rparr>;
        (blk, nFrameSize) \<leftarrow> XWS_CreateFrame m pPayload nLength (ws_nOpCode f) (ws_bFin f);
        (case blk of
           None \<Rightarrow> Some (f, XWS_ERR_ALLOC)
         | Some d \<Rightarrow>
             if nFrameSize \<le> nLength then Some (f, XWS_ERR_SIZE)
             else let (b, _) = XByteBuffer_OwnData (ws_buffer f) (Some d) nFrameSize;
                      f = f\<lparr>ws_buffer := b, ws_nHeaderSize := nFrameSize - nLength, ws_nPayloadLength := nLength\<rparr>
                  in if bMask then XWebFrame_Mask m rs f else Some (f, XWS_ERR_NONE)) })"

text \<open>\<open>ok\<close>: the frame structure itself can be allocated. A resized buffer of a failed call is leaked.\<close>

definition XWebFrame_Alloc :: "bool \<Rightarrow> malloc \<Rightarrow> xws_frame_type \<Rightarrow> nat \<Rightarrow> xws_frame option option" where
  "XWebFrame_Alloc ok m eType nBuffSize =
     (if \<not> ok then Some None
      else do {
        f \<leftarrow> XWebFrame_Init m;
        let f = f\<lparr>ws_bAlloc := True, ws_eType := eType\<rparr>;
        if nBuffSize = 0 then Some (Some f)
        else do {
          (b, r) \<leftarrow> XByteBuffer_Resize m (ws_buffer f) nBuffSize;
          Some (if r > 0 then Some (f\<lparr>ws_buffer := b\<rparr>) else None) } })"

definition XWebFrame_New ::
  "bool \<Rightarrow> malloc \<Rightarrow> rands \<Rightarrow> byte list option \<Rightarrow> nat \<Rightarrow> xws_frame_type \<Rightarrow> bool \<Rightarrow> bool \<Rightarrow> xws_frame option option" where
  "XWebFrame_New ok m rs pPayload nLength eType bMask bFin = do {
     p \<leftarrow> XWebFrame_Alloc ok m eType 0;
     (case p of
        None \<Rightarrow> Some None
      | Some f \<Rightarrow> do {
          (f, st) \<leftarrow> XWebFrame_Create m rs pPayload nLength eType bMask bFin f;
          Some (if st = XWS_ERR_NONE then Some (f\<lparr>ws_bAlloc := True\<rparr>) else None) }) }"

section \<open>Reading frames\<close>

definition XWebFrame_CheckPayload :: "xws_frame \<Rightarrow> xws_frame \<times> bool" where
  "XWebFrame_CheckPayload f =
     (if bb_pData (ws_buffer f) = None \<or> bb_nUsed (ws_buffer f) = 0 \<or> ws_nPayloadLength f = 0 \<or> ws_nHeaderSize f = 0
      then (f, False)
      else if bb_nUsed (ws_buffer f) \<le> ws_nHeaderSize f then (f, False)
      else (if ws_nPayloadLength f \<le> bb_nUsed (ws_buffer f) - ws_nHeaderSize f then f\<lparr>ws_bComplete := True\<rparr> else f, True))"

text \<open>The payload pointer, as an offset into the buffer's block.\<close>

definition XWebFrame_GetPayload :: "xws_frame \<Rightarrow> xws_frame \<times> nat option" where
  "XWebFrame_GetPayload f = (let (f, ok) = XWebFrame_CheckPayload f in (f, if ok then Some (ws_nHeaderSize f) else None))"

definition XWebFrame_GetFrameLength :: "xws_frame \<Rightarrow> xws_frame \<times> nat" where
  "XWebFrame_GetFrameLength f =
     (if bb_pData (ws_buffer f) = None \<or> bb_nUsed (ws_buffer f) = 0 \<or> ws_nHeaderSize f = 0 then (f, 0)
      else let nFrameSize = sz (ws_nHeaderSize f + ws_nPayloadLength f)
        in if nFrameSize < ws_nHeaderSize f then (f, 0)
           else if bb_nUsed (ws_buffer f) < nFrameSize then (f, bb_nUsed (ws_buffer f))
           else (f\<lparr>ws_bComplete := True\<rparr>, nFrameSize))"

definition XWebFrame_GetExtraLength :: "xws_frame \<Rightarrow> xws_frame \<times> nat" where
  "XWebFrame_GetExtraLength f =
     (let (f, n) = XWebFrame_GetFrameLength f
      in (f, if n = 0 \<or> \<not> ws_bComplete f then 0 else if bb_nUsed (ws_buffer f) \<le> n then 0 else bb_nUsed (ws_buffer f) - n))"

definition XWebFrame_GetPayloadLength :: "xws_frame \<Rightarrow> xws_frame \<times> nat" where
  "XWebFrame_GetPayloadLength f =
     (let (f, ok) = XWebFrame_CheckPayload f
      in if \<not> ok then (f, 0)
         else let (f, nExtra) = XWebFrame_GetExtraLength f
           in (f, sz (sz (bb_nUsed (ws_buffer f) + 2 ^ 64 - ws_nHeaderSize f) + 2 ^ 64 - nExtra)))"

definition XWebFrame_CutExtraData :: "xws_frame \<Rightarrow> (xws_frame \<times> int) option" where
  "XWebFrame_CutExtraData f =
     (let (f, nExtra) = XWebFrame_GetExtraLength f
      in if nExtra = 0 then Some (f, XSTDNON)
         else do {
           (b, r) \<leftarrow> XByteBuffer_Terminate (ws_buffer f) (sz (ws_nHeaderSize f + ws_nPayloadLength f));
           Some (f\<lparr>ws_buffer := b\<rparr>, r) })"

definition XWebFrame_GetExtraData ::
  "malloc \<Rightarrow> xws_frame \<Rightarrow> xbyte_buffer \<Rightarrow> bool \<Rightarrow> (xws_frame \<times> xbyte_buffer \<times> int) option" where
  "XWebFrame_GetExtraData m f b bAppend =
     (let (f, nExtra) = XWebFrame_GetExtraLength f
      in if nExtra = 0 then Some (f, b, XSTDNON)
         else do {
           (b, _) \<leftarrow> (if bAppend then Some (b, 0) else XByteBuffer_Init m 0 0);
           d \<leftarrow> bb_pData (ws_buffer f);
           s \<leftarrow> mread d (sz (ws_nHeaderSize f + ws_nPayloadLength f)) nExtra;
           (b, r) \<leftarrow> XByteBuffer_Add m b (Some s);
           Some (f, b, r) })"

definition XWebFrame_Unmask :: "xws_frame \<Rightarrow> (xws_frame \<times> xws_status) option" where
  "XWebFrame_Unmask f =
     (if \<not> ws_bMask f then Some (f, XWS_ERR_NONE)
      else case bb_pData (ws_buffer f) of
             None \<Rightarrow> Some (f, XWS_INVALID_ARGS)
           | Some d \<Rightarrow>
               if bb_nUsed (ws_buffer f) < ws_nHeaderSize f then Some (f, XWS_FRAME_INCOMPLETE)
               else if ws_nPayloadLength f = 0 then Some (f\<lparr>ws_bMask := False\<rparr>, XWS_ERR_NONE)
               else if bb_nUsed (ws_buffer f) - ws_nHeaderSize f < ws_nPayloadLength f then Some (f, XWS_FRAME_INCOMPLETE)
               else do {
                 d \<leftarrow> mask_loop d (ws_nHeaderSize f) (le_bytes (ws_nMaskKey f)) 0 (ws_nPayloadLength f);
                 Some (f\<lparr>ws_buffer := (ws_buffer f)\<lparr>bb_pData := Some d\<rparr>, ws_bMask := False\<rparr>, XWS_ERR_NONE) })"

text \<open>
  The length field: either the status of an early return, or the frame with payload length and header
  size set. The test against \<open>SIZE_MAX - XWS_MAX_HEADER_SIZE\<close> follows the one of the sign bit.
\<close>

definition parse_length :: "byte list \<Rightarrow> nat \<Rightarrow> byte \<Rightarrow> xws_frame \<Rightarrow> (xws_status + xws_frame) option" where
  "parse_length d nSize nLengthByte f =
     (if nLengthByte \<le> 125 then Some (Inr (f\<lparr>ws_nPayloadLength := unat nLengthByte, ws_nHeaderSize := 2\<rparr>))
      else if nLengthByte = 126 then
        (if nSize < 4 then Some (Inl XWS_FRAME_INCOMPLETE)
         else do { s \<leftarrow> mread d 2 2; Some (Inr (f\<lparr>ws_nPayloadLength := of_be 0 s, ws_nHeaderSize := 4\<rparr>)) })
      else if nSize < 10 then Some (Inl XWS_FRAME_INCOMPLETE)
      else do {
        s \<leftarrow> mread d 2 8;
        let nLength64 = (of_nat (of_be 0 s) :: u64);
        if nLength64 AND 0x8000000000000000 \<noteq> 0 then Some (Inl XWS_FRAME_INVALID)
        else if \<not> unat nLength64 \<le> 2 ^ 64 - 1 - 14 then Some (Inl XWS_FRAME_TOOBIG)
        else Some (Inr (f\<lparr>ws_nPayloadLength := unat nLength64, ws_nHeaderSize := 10\<rparr>)) })"

text \<open>The masking key, then the unmasking of a complete frame.\<close>

definition parse_mask :: "byte list \<Rightarrow> nat \<Rightarrow> xws_frame \<Rightarrow> (xws_frame \<times> xws_status) option" where
  "parse_mask d nSize f =
     (if ws_bMask f \<and> nSize < sz (ws_nHeaderSize f + 4) then Some (f, XWS_FRAME_INCOMPLETE)
      else do {
        f \<leftarrow> (if ws_bMask f
              then do { s \<leftarrow> mread d (ws_nHeaderSize f) 4;
                        Some (f\<lparr>ws_nMaskKey := of_le s, ws_nHeaderSize := sz (ws_nHeaderSize f + 4)\<rparr>) }
              else Some f);
        let (f, nFrameLength) = XWebFrame_GetFrameLength f;
        if nFrameLength \<noteq> 0 \<and> ws_bComplete f
        then do { (f, _) \<leftarrow> XWebFrame_Unmask f; Some (f, XWS_FRAME_COMPLETE) }
        else Some (f, XWS_FRAME_INCOMPLETE) })"

definition XWebFrame_Parse :: "xws_frame \<Rightarrow> (xws_frame \<times> xws_status) option" where
  "XWebFrame_Parse f =
     (let f = f\<lparr>ws_bComplete := False\<rparr>; nSize = bb_nUsed (ws_buffer f)
      in case bb_pData (ws_buffer f) of
           None \<Rightarrow> Some (f, XWS_FRAME_INCOMPLETE)
         | Some d \<Rightarrow>
             if nSize < 2 then Some (f, XWS_FRAME_INCOMPLETE)
             else do {
               nStartByte \<leftarrow> peek d 0;
               nNextByte \<leftarrow> peek d 1;
               let f = f\<lparr>ws_bFin := drop_bit 7 (nStartByte AND 0x80) \<noteq> 0, ws_bMask := drop_bit 7 (nNextByte AND 0x80) \<noteq> 0,
                         ws_nOpCode := nStartByte AND 0x0F\<rparr>;
               let f = f\<lparr>ws_eType := XWS_FrameType (ws_nOpCode f)\<rparr>;
               if ws_eType f = XWS_INVALID then Some (f, XWS_INVALID_TYPE)
               else do {
                 r \<leftarrow> parse_length d nSize (nNextByte AND 0x7F) f;
                 (case r of Inl st \<Rightarrow> Some (f, st) | Inr f \<Rightarrow> parse_mask d nSize f) } })"

definition XWebFrame_AppendData :: "malloc \<Rightarrow> xws_frame \<Rightarrow> byte list option \<Rightarrow> (xws_frame \<times> xws_status) option" where
  "XWebFrame_AppendData m f src =
     (case src of
        None \<Rightarrow> Some (f, XWS_INVALID_ARGS)
      | Some s \<Rightarrow>
          if s = [] then Some (f, XWS_INVALID_ARGS)
          else do {
            (b, r) \<leftarrow> XByteBuffer_Add m (ws_buffer f) (Some s);
            Some (f\<lparr>ws_buffer := b\<rparr>, if r > 0 then XWS_ERR_NONE else XWS_ERR_ALLOC) })"

definition XWebFrame_TryParse :: "malloc \<Rightarrow> xws_frame \<Rightarrow> byte list option \<Rightarrow> (xws_frame \<times> xws_status) option" where
  "XWebFrame_TryParse m f src = do {
     (f, st) \<leftarrow> XWebFrame_AppendData m f src;
     if st = XWS_ERR_NONE then XWebFrame_Parse f else Some (f, st) }"

definition XWebFrame_ParseData :: "malloc \<Rightarrow> byte list option \<Rightarrow> (xws_frame \<times> xws_status) option" where
  "XWebFrame_ParseData m src = do { f \<leftarrow> XWebFrame_Init m; XWebFrame_TryParse m f src }"

text \<open>
  \<open>XWebFrame_ParseBuff\<close> borrows the block of the given buffer, so unmasking shows in that buffer as
  well: both are returned.
\<close>

definition XWebFrame_ParseBuff :: "malloc \<Rightarrow> xbyte_buffer \<Rightarrow> (xws_frame \<times> xbyte_buffer \<times> xws_status) option" where
  "XWebFrame_ParseBuff m b = do {
     f \<leftarrow> XWebFrame_Init m;
     let (wb, _) = XByteBuffer_Set (ws_buffer f) b;
     (f, st) \<leftarrow> XWebFrame_Parse (f\<lparr>ws_buffer := wb\<rparr>);
     Some (f, b\<lparr>bb_pData := bb_pData (ws_buffer f)\<rparr>, st) }"

section \<open>The frame layout\<close>

text \<open>
  RFC 6455: a byte of FIN bit and opcode; the mask bit and the length in seven bits, or 126 and two bytes, or
  127 and eight; the masking key, if any; the payload, XORed with the key if there is one.
\<close>

definition ws_len :: "nat \<Rightarrow> byte list" where
  "ws_len n = (if n \<le> 125 then [of_nat n] else if n \<le> 65535 then 126 # be_bytes 2 n else 127 # be_bytes 8 n)"

definition ws_start :: "bool \<Rightarrow> byte \<Rightarrow> byte" where
  "ws_start fin op = push_bit 7 (if fin then 1 else 0) OR op"

definition ws_header :: "bool \<Rightarrow> byte \<Rightarrow> bool \<Rightarrow> nat \<Rightarrow> byte list" where
  "ws_header fin op masked n = ws_start fin op # (if masked then hd (ws_len n) OR 0x80 else hd (ws_len n)) # tl (ws_len n)"

fun ws_wire :: "bool \<Rightarrow> byte \<Rightarrow> u32 option \<Rightarrow> byte list \<Rightarrow> byte list" where
  "ws_wire fin op None p = ws_header fin op False (length p) @ p"
| "ws_wire fin op (Some k) p = ws_header fin op True (length p) @ le_bytes k @ xor_key (le_bytes k) 0 p"

definition ws_hsize :: "nat \<Rightarrow> nat" where
  "ws_hsize n = (if n \<le> 125 then 2 else if n \<le> 65535 then 4 else 10)"

lemma ws_header_length [simp]: "length (ws_header fin op masked n) = ws_hsize n"
  by (simp add: ws_header_def ws_len_def ws_hsize_def)

lemma ws_hsize_bounds: "2 \<le> ws_hsize n" "ws_hsize n \<le> 10"
  by (auto simp: ws_hsize_def)

lemma ws_header_01: "ws_header fin op masked n ! 0 = ws_start fin op"
  "ws_header fin op masked n ! Suc 0 = (if masked then hd (ws_len n) OR 0x80 else hd (ws_len n))"
  by (simp_all add: ws_header_def)

lemma ws_header_masked: "(ws_header fin op False n)[1 := ws_header fin op False n ! 1 OR 0x80] = ws_header fin op True n"
  by (simp add: ws_header_def)

section \<open>Building a frame\<close>

lemma memcpy_app: "length s = length ys \<Longrightarrow> memcpy (xs @ ys @ zs) (length xs) s = Some (xs @ s @ zs)"
  by (simp add: memcpy_def)

lemma CreateFrame_spec:
  assumes m: "malloc_spec m" and n: "nLength < 2 ^ 62" and p: "nLength \<le> length p"
  obtains "XWS_CreateFrame m (Some p) nLength op fin = Some (None, 0)"
    "m (ws_hsize nLength + nLength + 1) = None"
  | d where "XWS_CreateFrame m (Some p) nLength op fin = Some (Some d, ws_hsize nLength + nLength)"
    "d = ws_header fin op False nLength @ take nLength p @ [0]"
proof -
  let ?h = "ws_hsize nLength"
  have szs: "sz (?h + nLength) = ?h + nLength" "sz (?h + nLength + 1) = ?h + nLength + 1"
    using n ws_hsize_bounds [of nLength] by auto
  have hs: "(if nLength \<le> 125 then 2 else if nLength \<le> 65535 then 4 else 10) = ?h" by (simp add: ws_hsize_def)
  show ?thesis
  proof (cases "m (?h + nLength + 1)")
    case None
    then have "XWS_CreateFrame m (Some p) nLength op fin = Some (None, 0)"
      unfolding XWS_CreateFrame_def Let_def hs szs by simp
    then show ?thesis using None that(1) by blast
  next
    case (Some blk)
    let ?b1 = "(if nLength \<le> 125 then nLength else if nLength \<le> 65535 then 126 else 127) :: nat"
    have len: "length blk = ?h + nLength + 1" using m Some by (simp add: malloc_spec_def)
    define rest where "rest = drop 2 blk"
    have lr: "length rest + 2 = ?h + nLength + 1" using len ws_hsize_bounds [of nLength] by (simp add: rest_def)
    obtain x y where blk: "blk = x # y # rest"
      using len ws_hsize_bounds [of nLength] unfolding rest_def
      by (cases blk; cases "tl blk") auto
    have two: "do { d \<leftarrow> poke blk 0 (ws_start fin op); d \<leftarrow> poke d 1 v; f d } = f ([ws_start fin op, v] @ rest)" for v and f :: "byte list \<Rightarrow> 'z option"
      unfolding blk by (simp add: poke_def)
    define ext where "ext = tl (ws_len nLength)"
    have le: "length ext + 2 = ?h" by (simp add: ext_def ws_len_def ws_hsize_def)
    have hd: "hd (ws_len nLength) = of_nat ?b1" by (simp add: ws_len_def)
    have hdr: "[ws_start fin op, of_nat ?b1] @ ext = ws_header fin op False nLength" by (simp add: ws_header_def hd ext_def)
    have mid: "(if ?b1 = 126 then memcpy ([ws_start fin op, of_nat ?b1] @ rest) 2 (be_bytes 2 nLength)
                else if ?b1 = 127 then memcpy ([ws_start fin op, of_nat ?b1] @ rest) 2 (be_bytes 8 nLength)
                else Some ([ws_start fin op, of_nat ?b1] @ rest)) = Some (ws_header fin op False nLength @ drop (length ext) rest)"
      using lr unfolding hdr [symmetric] ext_def ws_len_def ws_hsize_def by (auto simp: memcpy_def numeral_2_eq_2 split: if_splits)
    define r2 where "r2 = drop (length ext) rest"
    have lr2: "length r2 = nLength + 1" using lr le by (simp add: r2_def)
    have pay: "(if nLength \<noteq> 0 then do { s \<leftarrow> mread p 0 nLength; memcpy (ws_header fin op False nLength @ r2) ?h s }
       else Some (ws_header fin op False nLength @ r2)) = Some (ws_header fin op False nLength @ take nLength p @ drop nLength r2)"
      using p lr2 memcpy_app [of "take nLength p" "take nLength r2" "ws_header fin op False nLength" "drop nLength r2"]
      by (auto simp: mread_def)
    obtain z where z: "drop nLength r2 = [z]" using lr2 by (cases "drop nLength r2") (auto simp: length_Suc_conv dest: arg_cong [of _ _ length])
    have lst: "poke (ws_header fin op False nLength @ take nLength p @ [z]) (?h + nLength) 0 =
      Some (ws_header fin op False nLength @ take nLength p @ [0])"
      using p by (simp add: poke_def list_update_append)
    have "XWS_CreateFrame m (Some p) nLength op fin =
      Some (Some (ws_header fin op False nLength @ take nLength p @ [0]), ?h + nLength)"
      unfolding XWS_CreateFrame_def Let_def hs szs Some option.case ws_start_def [symmetric] two mid bind.bind_lunit
        r2_def [symmetric] pay z lst ..
    then show ?thesis using that(2) by blast
  qed
qed

lemma mask_loop_spec:
  "off + n \<le> length d \<Longrightarrow> i \<le> n \<Longrightarrow> length key = 4 \<Longrightarrow>
   mask_loop d off key i n = Some (take (off + i) d @ xor_key key i (take (n - i) (drop (off + i) d)) @ drop (off + n) d)"
proof (induction "n - i" arbitrary: d i)
  case 0
  then show ?case by (subst mask_loop.simps) simp
next
  case (Suc l)
  then have i: "i < n" "l = n - Suc i" by auto
  let ?d = "d[off + i := d ! (off + i) XOR key ! (i mod 4)]"
  have IH: "mask_loop ?d off key (Suc i) n =
    Some (take (off + Suc i) ?d @ xor_key key (Suc i) (take (n - Suc i) (drop (off + Suc i) ?d)) @ drop (off + n) ?d)"
    using Suc.hyps(1) [OF i(2)] Suc.prems i(1) by simp
  have dr: "drop (off + i) d = d ! (off + i) # drop (off + Suc i) d"
    using Suc.prems(1) i(1) by (simp add: Cons_nth_drop_Suc)
  have tk: "take (n - i) (drop (off + i) d) = d ! (off + i) # take (n - Suc i) (drop (off + Suc i) d)"
  proof -
    have "n - i = Suc (n - Suc i)" using i(1) by simp
    then show ?thesis unfolding dr by simp
  qed
  have t: "take (off + Suc i) ?d = take (off + i) d @ [d ! (off + i) XOR key ! (i mod 4)]"
    using Suc.prems(1) i(1) by (simp add: take_Suc_conv_app_nth)
  have "mask_loop d off key i n = mask_loop ?d off key (Suc i) n"
    by (subst mask_loop.simps) (use Suc.prems i in \<open>simp add: peek_def poke_def\<close>)
  then show ?case unfolding IH tk t using i(1) by simp
qed

lemma mask_loop_app:
  "length A = off \<Longrightarrow> length p = n \<Longrightarrow> length key = 4 \<Longrightarrow>
   mask_loop (A @ p @ B) off key 0 n = Some (A @ xor_key key 0 p @ B)"
  using mask_loop_spec [of off n "A @ p @ B" 0 key] by simp

lemma owned_data:
  "bb_owned b \<Longrightarrow> bb_pData b = Some d \<Longrightarrow> length d2 = length d \<Longrightarrow> bb_owned (b\<lparr>bb_pData := Some d2\<rparr>)"
  by (auto simp: bb_owned_def bb_wf_def)

lemma wf_data:
  "bb_wf b \<Longrightarrow> bb_pData b = Some d \<Longrightarrow> length d2 = length d \<Longrightarrow> bb_wf (b\<lparr>bb_pData := Some d2\<rparr>)"
  by (auto simp: bb_wf_def)

text \<open>A buffer with content has a block that starts with it.\<close>

lemma content_block:
  assumes "bb_wf b" "bb_content b \<noteq> []"
  obtains d where "bb_pData b = Some d" "d = bb_content b @ drop (bb_nUsed b) d" "bb_nUsed b = length (bb_content b)"
proof -
  obtain d where d: "bb_pData b = Some d" using assms(2) by (cases "bb_pData b") (auto simp: bb_content_def)
  then have "d = bb_content b @ drop (bb_nUsed b) d" by (simp add: bb_content_def)
  then show ?thesis using d bb_content_length [OF assms(1)] that by metis
qed

text \<open>\<open>ws_holds f A p B\<close>: the buffer of \<open>f\<close> is header \<open>A\<close> (key included), payload bytes \<open>p\<close>, and \<open>B\<close> behind them.\<close>

definition ws_holds :: "xws_frame \<Rightarrow> byte list \<Rightarrow> byte list \<Rightarrow> byte list \<Rightarrow> bool" where
  "ws_holds f A p B \<longleftrightarrow> bb_wf (ws_buffer f) \<and> bb_content (ws_buffer f) = A @ p @ B \<and>
     length A = ws_nHeaderSize f \<and> length p = ws_nPayloadLength f \<and> 2 \<le> length A"

lemma holds_block:
  assumes "ws_holds f A p B"
  obtains d R where "bb_pData (ws_buffer f) = Some (A @ p @ B @ R)" "bb_nUsed (ws_buffer f) = length A + length p + length B"
proof -
  have w: "bb_wf (ws_buffer f)" "bb_content (ws_buffer f) = A @ p @ B" "2 \<le> length A" using assms by (auto simp: ws_holds_def)
  then have "bb_content (ws_buffer f) \<noteq> []" by auto
  from content_block [OF w(1) this] obtain d where
    "bb_pData (ws_buffer f) = Some d" "d = bb_content (ws_buffer f) @ drop (bb_nUsed (ws_buffer f)) d"
    "bb_nUsed (ws_buffer f) = length (bb_content (ws_buffer f))" by blast
  then show ?thesis using that [of "drop (bb_nUsed (ws_buffer f)) d"] w(2) by simp
qed

lemma Mask_spec:
  assumes m: "malloc_spec m" and own: "bb_owned (ws_buffer f)" and h: "ws_holds f A p B" and nm: "\<not> ws_bMask f"
    and bit: "A ! 1 AND 0x80 = 0" and n: "length A + length p + length B + 4 < 2 ^ 31"
    and k_def: "k = XWS_GenerateMaskKey rs"
  shows "\<exists>f' st. XWebFrame_Mask m rs f = Some (f', st) \<and> bb_owned (ws_buffer f') \<and> ws_eType f' = ws_eType f \<and> ws_bFin f' = ws_bFin f \<and>
    ws_nPayloadLength f' = ws_nPayloadLength f \<and>
    (st = XWS_ERR_ALLOC \<and> bb_content (ws_buffer f') = A @ p @ B \<or>
     st = XWS_ERR_NONE \<and> ws_holds f' (A[1 := A ! 1 OR 0x80] @ le_bytes k) (xor_key (le_bytes k) 0 p) B \<and>
     ws_bMask f' \<and> ws_nMaskKey f' = k)"
proof -
  let ?b = "ws_buffer f" and ?key = "le_bytes k"
  have H: "length A = ws_nHeaderSize f" "length p = ws_nPayloadLength f" "2 \<le> length A" "bb_content ?b = A @ p @ B"
    using h unfolding ws_holds_def by blast+
  obtain R where blk: "bb_pData ?b = Some (A @ p @ B @ R)" "bb_nUsed ?b = length A + length p + length B"
    by (rule holds_block [OF h])
  have key: "?key \<noteq> []" by (simp add: le_bytes_def)
  have sz4: "sz (ws_nHeaderSize f + 4) = ws_nHeaderSize f + 4" using n H(1) by simp
  have "bb_nUsed ?b + length ?key + 1 < 2 ^ 62" using n blk(2) by simp
  from Insert_edit [OF m own this key, of "ws_nHeaderSize f"] obtain b' r where
    ins: "XByteBuffer_Insert m ?b (ws_nHeaderSize f) (Some ?key) = Some (b', r)" "bb_owned b'"
    and out: "r = XSTDERR \<and> bb_content b' = bb_content ?b \<or>
      r = to_int (length (A @ ?key @ p @ B)) \<and> bb_content b' = A @ ?key @ p @ B"
    unfolding bb_edit_def H(4) H(1) [symmetric] by auto
  have pk0: "peek (A @ p @ B @ R) 1 = Some (A ! 1)" using H(3) by (simp add: peek_def nth_append)
  have guards: "\<not> ws_nHeaderSize f < 2" "\<not> bb_nUsed ?b < ws_nHeaderSize f" using H blk(2) by auto
  note ev = XWebFrame_Mask_def blk(1) nm bit ins(1) pk0 [unfolded One_nat_def] guards k_def [symmetric] sz4 Let_def
  show ?thesis
  proof (cases "r \<le> 0")
    case True
    have "bb_content b' = A @ p @ B"
    proof (rule ccontr)
      assume "bb_content b' \<noteq> A @ p @ B"
      then have "r = to_int (length (A @ ?key @ p @ B))" using out H(4) by auto
      then have "r = int (length (A @ ?key @ p @ B))" using n by simp
      then show False using True H(3) by simp
    qed
    then show ?thesis using True ins(2) bit by (simp add: ev)
  next
    case False
    then have r: "bb_content b' = A @ ?key @ p @ B" using out by auto
    have w: "bb_wf b'" using ins(2) by (rule bb_owned_wf)
    obtain d where d: "bb_pData b' = Some d" "d = (A @ ?key @ p @ B) @ drop (bb_nUsed b') d" "bb_nUsed b' = length (A @ ?key @ p @ B)"
      using content_block [OF w] r key by auto
    let ?R = "drop (bb_nUsed b') d"
    let ?A = "A[1 := A ! 1 OR 0x80]"
    have pk: "peek d 1 = Some (A ! 1)" "poke d 1 (A ! 1 OR 0x80) = Some (?A @ ?key @ p @ B @ ?R)"
      using H(3) by (subst d(2), simp add: peek_def poke_def nth_append list_update_append)+
    have l: "length (?A @ ?key) = ws_nHeaderSize f + 4" using H(1) by simp
    have ml: "mask_loop (?A @ ?key @ p @ B @ ?R) (ws_nHeaderSize f + 4) ?key 0 (ws_nPayloadLength f) =
      Some (?A @ ?key @ xor_key ?key 0 p @ B @ ?R)"
      using mask_loop_app [OF l H(2), of ?key "B @ ?R"] by simp
    have ge: "\<not> sz (bb_nUsed b' + 2 ^ 64 - (ws_nHeaderSize f + 4)) < ws_nPayloadLength f"
      using sz_sub [of "ws_nHeaderSize f + 4" "bb_nUsed b'"] d(3) H n by simp
    let ?d = "?A @ ?key @ xor_key ?key 0 p @ B @ ?R"
    let ?f = "f\<lparr>ws_nMaskKey := k, ws_buffer := b'\<lparr>bb_pData := Some ?d\<rparr>, ws_nHeaderSize := ws_nHeaderSize f + 4, ws_bMask := True\<rparr>"
    have res: "XWebFrame_Mask m rs f = Some (?f, XWS_ERR_NONE)"
      using False bit ge by (simp add: ev d(1) pk [unfolded One_nat_def] ml [unfolded One_nat_def])
    have ld: "length ?d = length d" by (subst (2) d(2)) simp
    have "bb_content (b'\<lparr>bb_pData := Some ?d\<rparr>) = ?A @ ?key @ xor_key ?key 0 p @ B"
      using d(3) by (simp add: bb_content_def)
    then have "ws_holds ?f (?A @ ?key) (xor_key ?key 0 p) B"
      using wf_data [OF w d(1) ld] H by (simp add: ws_holds_def)
    then show ?thesis using res owned_data [OF ins(2) d(1) ld] by (intro exI [of _ ?f] exI [of _ XWS_ERR_NONE]) simp
  qed
qed

section \<open>Bits of the first two bytes\<close>

lemma msb_byte: "x AND 0x80 = 0 \<longleftrightarrow> \<not> bit (x :: byte) 7" "drop_bit 7 (x AND 0x80) \<noteq> 0 \<longleftrightarrow> bit x 7"
proof -
  have e: "(0x80 :: byte) = 2 ^ 7" by simp
  show 1: "x AND 0x80 = 0 \<longleftrightarrow> \<not> bit x 7" unfolding e by (rule and_exp_eq_0_iff_not_bit)
  have "drop_bit 7 (x AND 2 ^ 7) = of_bool (bit x 7)"
    by (rule bit_word_eqI) (auto simp: bit_simps)
  then show "drop_bit 7 (x AND 0x80) \<noteq> 0 \<longleftrightarrow> bit x 7" unfolding e by simp
qed

lemma low7: "(x :: byte) AND 0x7F = take_bit 7 x"
proof -
  have "(0x7F :: byte) = mask 7" by (simp add: mask_eq_exp_minus_1)
  then show ?thesis by (simp add: take_bit_eq_mask)
qed

lemma low4: "(x :: byte) AND 0x0F = take_bit 4 x"
proof -
  have "(0x0F :: byte) = mask 4" by (simp add: mask_eq_exp_minus_1)
  then show ?thesis by (simp add: take_bit_eq_mask)
qed

lemma with_msb: "bit (x OR 0x80 :: byte) 7" "take_bit 7 (x OR 0x80 :: byte) = take_bit 7 x"
proof -
  have e: "(0x80 :: byte) = 2 ^ 7" by simp
  show "bit (x OR 0x80) 7" unfolding e by (simp add: bit_simps)
  show "take_bit 7 (x OR 0x80) = take_bit 7 x" unfolding e by (rule bit_word_eqI) (auto simp: bit_simps)
qed

lemma small_byte:
  assumes "n < 2 ^ k" "k \<le> 8"
  shows "take_bit k (of_nat n :: byte) = of_nat n"
proof -
  have "take_bit k (of_nat n :: byte) = of_nat (take_bit k n)" by (simp add: take_bit_of_nat)
  also have "take_bit k n = n" using assms(1) by (rule take_bit_nat_eq_self)
  finally show ?thesis .
qed

lemma small_byte_bit:
  assumes "n < 2 ^ 7"
  shows "\<not> bit (of_nat n :: byte) 7"
proof -
  have "(of_nat n :: byte) = take_bit 7 (of_nat n)" using small_byte [OF assms] by simp
  then have "bit (of_nat n :: byte) 7 = bit (take_bit 7 (of_nat n :: byte)) 7" by (rule arg_cong)
  then show ?thesis by (simp add: bit_take_bit_iff)
qed

definition ws_len7 :: "nat \<Rightarrow> nat" where
  "ws_len7 n = (if n \<le> 125 then n else if n \<le> 65535 then 126 else 127)"

lemma hd_ws_len: "hd (ws_len n) = of_nat (ws_len7 n)" "ws_len7 n < 2 ^ 7"
  by (auto simp: ws_len_def ws_len7_def)

lemma header_len7: "ws_header fin op masked n ! Suc 0 AND 0x7F = of_nat (ws_len7 n)"
  and header_mask_bit: "bit (ws_header fin op masked n ! Suc 0) 7 \<longleftrightarrow> masked"
  using small_byte [OF hd_ws_len(2)] small_byte_bit [OF hd_ws_len(2)]
  by (auto simp: ws_header_01 hd_ws_len(1) low7 with_msb)

lemma start_bits:
  assumes "op < 16"
  shows "bit (ws_start fin op) 7 \<longleftrightarrow> fin" "ws_start fin op AND 0x0F = op"
proof -
  have "unat op < 2 ^ 4" using assms by (simp add: word_less_nat_alt)
  from small_byte [OF this] have op: "take_bit 4 op = op" by simp
  have "bit (push_bit 7 (if fin then 1 else 0) OR take_bit 4 op) 7 \<longleftrightarrow> fin" by (simp add: bit_simps)
  then show "bit (ws_start fin op) 7 \<longleftrightarrow> fin" unfolding ws_start_def op .
  have "take_bit 4 (push_bit 7 (if fin then 1 else 0) OR op) = take_bit 4 op"
    by (rule bit_word_eqI) (auto simp: bit_simps)
  then show "ws_start fin op AND 0x0F = op" unfolding ws_start_def low4 op .
qed

section \<open>Parsing any input\<close>

lemma type_of_opcode: "t \<noteq> XWS_INVALID \<Longrightarrow> XWS_FrameType (XWS_OpCode t) = t \<and> XWS_OpCode t < 16"
  by (cases t) (simp_all add: XWS_FrameType_def XWS_OpCode_def g_wsFrameCodes_def)

lemma FrameType_valid: "XWS_FrameType (x AND 0x0F) \<noteq> XWS_INVALID"
proof -
  have "list_all (\<lambda>n. XWS_FrameType (of_nat n) \<noteq> XWS_INVALID) [0..<16]" by code_simp
  then have a: "XWS_FrameType (of_nat n) \<noteq> XWS_INVALID" if "n < 16" for n using that by (simp add: list_all_iff)
  have "unat (take_bit 4 x) < 16" unfolding unsigned_take_bit_eq by (simp add: take_bit_eq_mod)
  from a [OF this] show ?thesis by (simp add: low4)
qed

definition ws_parsed :: "xws_frame \<Rightarrow> byte \<Rightarrow> byte \<Rightarrow> xws_frame" where
  "ws_parsed f b0 b1 = f\<lparr>ws_bComplete := False, ws_bFin := bit b0 7, ws_bMask := bit b1 7, ws_nOpCode := b0 AND 0x0F,
     ws_eType := XWS_FrameType (b0 AND 0x0F)\<rparr>"

lemma Parse_start:
  assumes "bb_wf (ws_buffer f)" "bb_pData (ws_buffer f) = Some d" "2 \<le> bb_nUsed (ws_buffer f)"
  shows "XWebFrame_Parse f = do {
    r \<leftarrow> parse_length d (bb_nUsed (ws_buffer f)) (d ! Suc 0 AND 0x7F) (ws_parsed f (d ! 0) (d ! Suc 0));
    (case r of Inl st \<Rightarrow> Some (ws_parsed f (d ! 0) (d ! Suc 0), st) | Inr g \<Rightarrow> parse_mask d (bb_nUsed (ws_buffer f)) g) }"
proof -
  have "2 \<le> length d" using assms by (auto simp: bb_wf_def)
  then have "peek d 0 = Some (d ! 0)" "peek d (Suc 0) = Some (d ! Suc 0)" by (auto simp: peek_def)
  then show ?thesis using assms(2,3) FrameType_valid [of "d ! 0"]
    unfolding XWebFrame_Parse_def msb_byte(2) ws_parsed_def by (simp add: Let_def)
qed

lemma u64_sign:
  assumes "w AND 0x8000000000000000 = (0 :: u64)"
  shows "unat w < 2 ^ 63"
proof -
  have e: "(0x8000000000000000 :: u64) = 2 ^ 63" by simp
  have nb: "\<not> bit w 63" using assms unfolding e by (simp only: and_exp_eq_0_iff_not_bit not_False_eq_True)
  have "take_bit 63 w = w"
  proof (rule bit_word_eqI)
    fix n assume "n < LENGTH(64)"
    then show "bit (take_bit 63 w) n = bit w n" using nb by (cases "n = 63") (auto simp: bit_take_bit_iff)
  qed
  then have "unat w = unat (take_bit 63 w)" by simp
  also have "\<dots> < 2 ^ 63" unfolding unsigned_take_bit_eq by (simp add: take_bit_eq_mod)
  finally show ?thesis .
qed

lemma parse_length_any:
  assumes "nSize \<le> length d" "2 \<le> nSize"
  obtains st where "parse_length d nSize l f = Some (Inl st)" "st = XWS_FRAME_INCOMPLETE \<or> st = XWS_FRAME_INVALID"
  | h n where "parse_length d nSize l f = Some (Inr (f\<lparr>ws_nPayloadLength := n, ws_nHeaderSize := h\<rparr>))"
    "2 \<le> h" "h \<le> 10" "h \<le> nSize" "n < 2 ^ 63"
proof -
  have b: "unat l < 2 ^ 63" using byte_nat [of l] by simp
  consider "l \<le> 125" | "\<not> l \<le> 125" "l = 126" | "\<not> l \<le> 125" "l \<noteq> 126" by blast
  then show ?thesis
  proof cases
    case 1
    then show ?thesis using that(2) [of 2 "unat l"] assms b by (simp add: parse_length_def)
  next
    case 2
    have "of_be 0 (take 2 (drop 2 d)) < 2 ^ 63" if "4 \<le> nSize"
      using of_be_less [of 0 "take 2 (drop 2 d)"] that assms(1) by simp
    then show ?thesis using 2 that assms by (cases "nSize < 4") (auto simp: parse_length_def mread_def)
  next
    case 3
    show ?thesis
    proof (cases "nSize < 10")
      case True
      then show ?thesis using 3 that(1) by (simp add: parse_length_def)
    next
      case False
      let ?w = "of_nat (of_be 0 (take 8 (drop 2 d))) :: u64"
      have md: "mread d 2 8 = Some (take 8 (drop 2 d))" using False assms(1) by (simp add: mread_def)
      show ?thesis
      proof (cases "?w AND 0x8000000000000000 = 0")
        case no: False
        then have "parse_length d nSize l f = Some (Inl XWS_FRAME_INVALID)"
          using 3 False md unfolding parse_length_def by (simp add: Let_def)
        then show ?thesis using that(1) by blast
      next
        case True
        from u64_sign [OF this] have lt: "unat ?w < 2 ^ 63" .
        have "x < 2 ^ 63 \<Longrightarrow> x \<le> 2 ^ 64 - 1 - 14" for x :: nat by simp
        then have "unat ?w \<le> 2 ^ 64 - 1 - 14" using lt by blast
        then have "parse_length d nSize l f = Some (Inr (f\<lparr>ws_nPayloadLength := unat ?w, ws_nHeaderSize := 10\<rparr>))"
          using 3 False md True unfolding parse_length_def by (simp add: Let_def)
        then show ?thesis using that(2) lt False by simp
      qed
    qed
  qed
qed

text \<open>The key found behind the header, and the frame once it has been read.\<close>

definition with_key :: "xws_frame \<Rightarrow> byte list \<Rightarrow> xws_frame" where
  "with_key f d =
     (if ws_bMask f then f\<lparr>ws_nMaskKey := of_le (take 4 (drop (ws_nHeaderSize f) d)), ws_nHeaderSize := ws_nHeaderSize f + 4\<rparr> else f)"

definition unmasked :: "xws_frame \<Rightarrow> byte list \<Rightarrow> byte list" where
  "unmasked g d =
     (if ws_bMask g
      then take (ws_nHeaderSize g) d @
        xor_key (le_bytes (ws_nMaskKey g)) 0 (take (ws_nPayloadLength g) (drop (ws_nHeaderSize g) d)) @
        drop (ws_nHeaderSize g + ws_nPayloadLength g) d
      else d)"

lemma parse_mask_eq:
  assumes w: "bb_wf (ws_buffer f)" and d: "bb_pData (ws_buffer f) = Some d"
    and h: "2 \<le> ws_nHeaderSize f" "ws_nHeaderSize f \<le> 10" "ws_nHeaderSize f \<le> bb_nUsed (ws_buffer f)"
    and n: "ws_nPayloadLength f < 2 ^ 63" and c: "\<not> ws_bComplete f"
  shows "parse_mask d (bb_nUsed (ws_buffer f)) f = Some
    (if ws_bMask f \<and> bb_nUsed (ws_buffer f) < ws_nHeaderSize f + 4 then (f, XWS_FRAME_INCOMPLETE)
     else let g = with_key f d
       in if bb_nUsed (ws_buffer f) < ws_nHeaderSize g + ws_nPayloadLength g then (g, XWS_FRAME_INCOMPLETE)
          else (g\<lparr>ws_buffer := (ws_buffer f)\<lparr>bb_pData := Some (unmasked g d)\<rparr>, ws_bMask := False, ws_bComplete := True\<rparr>,
                XWS_FRAME_COMPLETE))"
proof (cases "ws_bMask f \<and> bb_nUsed (ws_buffer f) < ws_nHeaderSize f + 4")
  case True
  then show ?thesis using h by (simp add: parse_mask_def)
next
  case False
  define g where "g = with_key f d"
  let ?u = "bb_nUsed (ws_buffer f)"
  have u: "?u \<le> length d" using w d by (simp add: bb_wf_def)
  have g: "ws_buffer g = ws_buffer f" "ws_nPayloadLength g = ws_nPayloadLength f" "ws_bMask g = ws_bMask f"
    "2 \<le> ws_nHeaderSize g" "ws_nHeaderSize g \<le> 14" "ws_nHeaderSize g \<le> ?u" "ws_bComplete g = ws_bComplete f"
    using h False by (auto simp: g_def with_key_def)
  have sz1: "sz (ws_nHeaderSize f + 4) = ws_nHeaderSize f + 4" using h(2) by simp
  have sz2: "sz (ws_nHeaderSize g + ws_nPayloadLength g) = ws_nHeaderSize g + ws_nPayloadLength g" using g(2,5) n by simp
  have key: "(if ws_bMask f
       then do { s \<leftarrow> mread d (ws_nHeaderSize f) 4;
                 Some (f\<lparr>ws_nMaskKey := of_le s, ws_nHeaderSize := sz (ws_nHeaderSize f + 4)\<rparr>) }
       else Some f) = Some g"
    using False u by (cases "ws_bMask f") (simp_all add: g_def with_key_def mread_def sz1)
  have start: "parse_mask d ?u f = (let (g, nFrameLength) = XWebFrame_GetFrameLength g
      in if nFrameLength \<noteq> 0 \<and> ws_bComplete g
        then do { (f, _) \<leftarrow> XWebFrame_Unmask g; Some (f, XWS_FRAME_COMPLETE) }
        else Some (g, XWS_FRAME_INCOMPLETE))"
    unfolding parse_mask_def key unfolding sz1 if_not_P [OF False] by simp
  have gd: "bb_pData (ws_buffer g) = Some d" "0 < ?u" using d g(1) h by auto
  show ?thesis
  proof (cases "?u < ws_nHeaderSize g + ws_nPayloadLength g")
    case True
    then have "XWebFrame_GetFrameLength g = (g, ?u)" using g gd sz2 by (simp add: XWebFrame_GetFrameLength_def Let_def)
    then show ?thesis unfolding start if_not_P [OF False] using True c g(7) by (simp add: g_def [symmetric] Let_def)
  next
    case no: False
    have fl: "XWebFrame_GetFrameLength g = (g\<lparr>ws_bComplete := True\<rparr>, ws_nHeaderSize g + ws_nPayloadLength g)"
      using no g gd sz2 by (simp add: XWebFrame_GetFrameLength_def Let_def)
    have um: "\<exists>st. XWebFrame_Unmask (g\<lparr>ws_bComplete := True\<rparr>) =
      Some (g\<lparr>ws_buffer := (ws_buffer f)\<lparr>bb_pData := Some (unmasked g d)\<rparr>, ws_bMask := False, ws_bComplete := True\<rparr>, st)"
    proof (cases "ws_bMask g")
      case False
      have "g\<lparr>ws_buffer := (ws_buffer f)\<lparr>bb_pData := Some d\<rparr>, ws_bMask := False, ws_bComplete := True\<rparr> = g\<lparr>ws_bComplete := True\<rparr>"
        using False g(1) gd(1) by (cases g; cases "ws_buffer g") simp
      then show ?thesis using False by (simp add: XWebFrame_Unmask_def unmasked_def)
    next
      case True
      show ?thesis
      proof (cases "ws_nPayloadLength g = 0")
        case z: True
        have "unmasked g d = d" using z by (simp add: unmasked_def)
        then have "g\<lparr>ws_buffer := (ws_buffer f)\<lparr>bb_pData := Some (unmasked g d)\<rparr>, ws_bMask := False, ws_bComplete := True\<rparr> =
          g\<lparr>ws_bComplete := True, ws_bMask := False\<rparr>"
          using g(1) gd(1) by (cases g; cases "ws_buffer g") simp
        then show ?thesis using True z g gd by (simp add: XWebFrame_Unmask_def)
      next
        case nz: False
        have "mask_loop d (ws_nHeaderSize g) (le_bytes (ws_nMaskKey g)) 0 (ws_nPayloadLength g) = Some (unmasked g d)"
          using mask_loop_spec [of "ws_nHeaderSize g" "ws_nPayloadLength g" d 0] no u True by (simp add: unmasked_def)
        moreover have "\<not> ?u - ws_nHeaderSize g < ws_nPayloadLength g" using no by simp
        ultimately show ?thesis using True nz g gd by (simp add: XWebFrame_Unmask_def)
      qed
    qed
    then show ?thesis unfolding start fl if_not_P [OF False] using no g(4) by (auto simp: g_def [symmetric] Let_def)
  qed
qed

section \<open>Parsing frames\<close>

lemma sub_eq:
  assumes "take m d = take m W" "j + k \<le> m"
  shows "take k (drop j d) = take k (drop j W)"
proof -
  have "take k (drop j (take m x)) = take k (drop j x)" for x :: "'a list"
    using assms(2) by (simp add: drop_take min_def)
  then show ?thesis using assms(1) by metis
qed

lemma len7_cases:
  "(of_nat (ws_len7 n) :: byte) \<le> 125 \<longleftrightarrow> n \<le> 125" "(of_nat (ws_len7 n) :: byte) = 126 \<longleftrightarrow> 125 < n \<and> n \<le> 65535"
proof -
  have u: "unat (of_nat (ws_len7 n) :: byte) = ws_len7 n"
    using hd_ws_len(2) [of n] by (simp add: unat_of_nat)
  show "(of_nat (ws_len7 n) :: byte) \<le> 125 \<longleftrightarrow> n \<le> 125" unfolding word_le_nat_alt u by (simp add: ws_len7_def)
  have "(x :: byte) = 126 \<longleftrightarrow> unat x = 126" for x
  proof
    assume "unat x = 126"
    moreover have "x = of_nat (unat x)" by simp
    ultimately show "x = 126" by (simp only: of_nat_numeral)
  qed simp
  then have "(of_nat (ws_len7 n) :: byte) = 126 \<longleftrightarrow> ws_len7 n = 126" using u by metis
  then show "(of_nat (ws_len7 n) :: byte) = 126 \<longleftrightarrow> 125 < n \<and> n \<le> 65535" by (auto simp: ws_len7_def)
qed

lemma parse_length_wire:
  assumes u: "u \<le> length d" "2 \<le> u" and eq: "take u d = take u (ws_header fin op masked n @ Y)" and n: "n < 2 ^ 63"
  shows "parse_length d u (of_nat (ws_len7 n)) f =
    Some (if u < ws_hsize n then Inl XWS_FRAME_INCOMPLETE else Inr (f\<lparr>ws_nPayloadLength := n, ws_nHeaderSize := ws_hsize n\<rparr>))"
proof -
  consider "n \<le> 125" | "125 < n" "n \<le> 65535" | "65535 < n" by linarith
  then show ?thesis
  proof cases
    case 1
    have "unat (of_nat (ws_len7 n) :: byte) = n" using 1 by (simp add: ws_len7_def unat_of_nat)
    then show ?thesis using 1 u len7_cases [of n] by (simp add: parse_length_def ws_hsize_def)
  next
    case 2
    have "take 2 (drop 2 d) = be_bytes 2 n" if "4 \<le> u"
      using sub_eq [OF eq, of 2 2] that 2 by (simp add: ws_header_def ws_len_def)
    then show ?thesis using 2 u len7_cases [of n] of_be_bytes [of 2 n]
      by (auto simp: parse_length_def ws_hsize_def mread_def)
  next
    case 3
    show ?thesis
    proof (cases "u < 10")
      case True
      then show ?thesis using 3 len7_cases [of n] by (simp add: parse_length_def ws_hsize_def)
    next
      case False
      have "take 8 (drop 2 d) = be_bytes 8 n" using sub_eq [OF eq, of 2 8] False 3 by (simp add: ws_header_def ws_len_def)
      then have md: "mread d 2 8 = Some (be_bytes 8 n)" using False u by (simp add: mread_def)
      have be: "of_be 0 (be_bytes 8 n) = n" unfolding of_be_bytes using n by simp
      have un: "unat (of_nat n :: u64) = n" using n by (simp add: unat_of_nat)
      have "\<not> bit (of_nat n :: u64) 63"
      proof -
        have "(of_nat n :: u64) = take_bit 63 (of_nat n)" using n by (simp add: take_bit_of_nat take_bit_nat_eq_self)
        then have "bit (of_nat n :: u64) 63 = bit (take_bit 63 (of_nat n :: u64)) 63" by (rule arg_cong)
        then show ?thesis by (simp add: bit_take_bit_iff)
      qed
      moreover have e: "(0x8000000000000000 :: u64) = 2 ^ 63" by simp
      ultimately have "(of_nat n :: u64) AND 0x8000000000000000 = 0" unfolding e by (simp only: and_exp_eq_0_iff_not_bit not_False_eq_True)
      moreover have "n \<le> 2 ^ 64 - 1 - 14" using n by simp
      ultimately show ?thesis using 3 False len7_cases [of n] unfolding parse_length_def ws_hsize_def
        by (simp add: md be un Let_def)
    qed
  qed
qed

text \<open>The part of a frame before its payload: the header and the key.\<close>

definition ws_prefix :: "bool \<Rightarrow> byte \<Rightarrow> u32 option \<Rightarrow> nat \<Rightarrow> byte list" where
  "ws_prefix fin op key n = (case key of None \<Rightarrow> ws_header fin op False n | Some k \<Rightarrow> ws_header fin op True n @ le_bytes k)"

definition ws_body :: "u32 option \<Rightarrow> byte list \<Rightarrow> byte list" where
  "ws_body key p = (case key of None \<Rightarrow> p | Some k \<Rightarrow> xor_key (le_bytes k) 0 p)"

lemma ws_wire_split: "ws_wire fin op key p = ws_prefix fin op key (length p) @ ws_body key p"
  by (cases key) (simp_all add: ws_prefix_def ws_body_def)

lemma ws_body_length [simp]: "length (ws_body key p) = length p"
  by (simp add: ws_body_def split: option.splits)

lemma ws_prefix_length: "length (ws_prefix fin op key n) = ws_hsize n + (if key = None then 0 else 4)"
  by (simp add: ws_prefix_def split: option.splits)

lemma ws_prefix_header: "\<exists>Y. ws_prefix fin op key n = ws_header fin op (key \<noteq> None) n @ Y"
  by (simp add: ws_prefix_def split: option.splits)

lemma Parse_wire:
  assumes w: "bb_wf (ws_buffer f)" and c: "bb_content (ws_buffer f) = take u (ws_wire fin op key p @ ex)"
    and u: "u \<le> length (ws_wire fin op key p @ ex)" and op: "op < 16" and n: "length p < 2 ^ 63"
  shows "u < length (ws_wire fin op key p) \<Longrightarrow>
      \<exists>f'. XWebFrame_Parse f = Some (f', XWS_FRAME_INCOMPLETE) \<and> ws_buffer f' = ws_buffer f"
    "u = length (ws_wire fin op key p @ ex) \<Longrightarrow>
      \<exists>f'. XWebFrame_Parse f = Some (f', XWS_FRAME_COMPLETE) \<and> ws_holds f' (ws_prefix fin op key (length p)) p ex \<and>
        ws_bFin f' = fin \<and> ws_nOpCode f' = op \<and> ws_eType f' = XWS_FrameType op \<and> ws_bComplete f' \<and> \<not> ws_bMask f' \<and>
        (bb_owned (ws_buffer f) \<longrightarrow> bb_owned (ws_buffer f'))"
proof -
  let ?b = "ws_buffer f" and ?n = "length p" and ?W = "ws_wire fin op key p @ ex"
  let ?P = "ws_prefix fin op key ?n"
  have nu: "bb_nUsed ?b = u" using bb_content_length [OF w] c u by simp
  have short: "\<exists>f'. XWebFrame_Parse f = Some (f', XWS_FRAME_INCOMPLETE) \<and> ws_buffer f' = ws_buffer f" if "u < 2"
    using that nu by (cases "bb_pData ?b") (simp_all add: XWebFrame_Parse_def Let_def)
  have main: "\<exists>f'. (if u < length (ws_wire fin op key p)
        then XWebFrame_Parse f = Some (f', XWS_FRAME_INCOMPLETE) \<and> ws_buffer f' = ws_buffer f
        else XWebFrame_Parse f = Some (f', XWS_FRAME_COMPLETE) \<and>
          (u = length ?W \<longrightarrow> ws_holds f' ?P p ex) \<and>
          ws_bFin f' = fin \<and> ws_nOpCode f' = op \<and> ws_eType f' = XWS_FrameType op \<and> ws_bComplete f' \<and> \<not> ws_bMask f' \<and>
          (bb_owned (ws_buffer f) \<longrightarrow> bb_owned (ws_buffer f')))" if u2: "2 \<le> u"
  proof -
    have "bb_content ?b \<noteq> []" using c u2 u by auto
    then obtain d where d: "bb_pData ?b = Some d" by (cases "bb_pData ?b") (auto simp: bb_content_def)
    have ul: "u \<le> length d" using w d nu by (simp add: bb_wf_def)
    have eq: "take u d = take u ?W" using c d nu by (simp add: bb_content_def)
    obtain Y where Y: "?P = ws_header fin op (key \<noteq> None) ?n @ Y" using ws_prefix_header by blast
    have eqh: "take u d = take u (ws_header fin op (key \<noteq> None) ?n @ (Y @ ws_body key p @ ex))"
      using eq unfolding ws_wire_split Y by simp
    have d01: "d ! 0 = ws_start fin op" "d ! Suc 0 = ws_header fin op (key \<noteq> None) ?n ! Suc 0"
    proof -
      have "take u d ! 0 = d ! 0" "take u d ! Suc 0 = d ! Suc 0" using u2 by simp_all
      moreover have "take u (ws_header fin op (key \<noteq> None) ?n @ (Y @ ws_body key p @ ex)) ! i = ws_header fin op (key \<noteq> None) ?n ! i"
        if "i < 2" for i using that u2 ws_hsize_bounds(1) [of ?n] by (simp add: nth_append)
      ultimately show "d ! 0 = ws_start fin op" "d ! Suc 0 = ws_header fin op (key \<noteq> None) ?n ! Suc 0"
        unfolding eqh by (simp_all add: ws_header_01)
    qed
    define g0 where "g0 = ws_parsed f (d ! 0) (d ! Suc 0)"
    have g0: "ws_bMask g0 \<longleftrightarrow> key \<noteq> None" "ws_bFin g0 = fin" "ws_nOpCode g0 = op" "ws_eType g0 = XWS_FrameType op"
      "\<not> ws_bComplete g0" "ws_buffer g0 = ?b"
      using start_bits [OF op] header_mask_bit by (simp_all add: g0_def ws_parsed_def d01)
    have l7: "d ! Suc 0 AND 0x7F = of_nat (ws_len7 ?n)" unfolding d01(2) by (rule header_len7)
    have start: "XWebFrame_Parse f = do {
        r \<leftarrow> parse_length d u (of_nat (ws_len7 ?n)) g0; (case r of Inl st \<Rightarrow> Some (g0, st) | Inr g \<Rightarrow> parse_mask d u g) }"
      using Parse_start [OF w d] u2 unfolding nu g0_def [symmetric] l7 by simp
    note pl = parse_length_wire [OF ul u2 eqh n, of g0]
    show ?thesis
    proof (cases "u < ws_hsize ?n")
      case True
      then have "u < length (ws_wire fin op key p)" by (simp add: ws_wire_split ws_prefix_length)
      then show ?thesis using True start g0(6) by (simp add: pl)
    next
      case False
      define g1 where "g1 = g0\<lparr>ws_nPayloadLength := ?n, ws_nHeaderSize := ws_hsize ?n\<rparr>"
      have st1: "XWebFrame_Parse f = parse_mask d u g1" using False start by (simp add: pl g1_def)
      have g1: "bb_wf (ws_buffer g1)" "bb_pData (ws_buffer g1) = Some d" "2 \<le> ws_nHeaderSize g1" "ws_nHeaderSize g1 \<le> 10"
        "ws_nHeaderSize g1 \<le> bb_nUsed (ws_buffer g1)" "ws_nPayloadLength g1 < 2 ^ 63" "\<not> ws_bComplete g1"
        using w d nu False n g0 ws_hsize_bounds [of ?n] by (simp_all add: g1_def)
      note pm = parse_mask_eq [OF g1]
      have g1s: "ws_buffer g1 = ?b" "ws_nHeaderSize g1 = ws_hsize ?n" "ws_nPayloadLength g1 = ?n" "ws_bMask g1 \<longleftrightarrow> key \<noteq> None"
        using g0 by (simp_all add: g1_def)
      have lw: "length (ws_wire fin op key p) = length ?P + ?n" by (simp add: ws_wire_split)
      define g where "g = with_key g1 d"
      have hg: "ws_nHeaderSize g = length ?P" "ws_nPayloadLength g = ?n" "ws_buffer g = ?b" "ws_bMask g \<longleftrightarrow> key \<noteq> None"
        "ws_bFin g = fin" "ws_nOpCode g = op" "ws_eType g = XWS_FrameType op"
        using g1s g0 by (auto simp: g_def with_key_def ws_prefix_length g1_def)
      show ?thesis
      proof (cases "u < length (ws_wire fin op key p)")
        case True
        then show ?thesis unfolding st1 using pm hg lw by (auto simp: g1s nu Let_def g_def [symmetric])
      next
        case ge: False
        have nk: "\<not> (ws_bMask g1 \<and> u < ws_nHeaderSize g1 + 4)" using ge lw by (auto simp: g1s ws_prefix_length)
        let ?g = "g\<lparr>ws_buffer := ?b\<lparr>bb_pData := Some (unmasked g d)\<rparr>, ws_bMask := False, ws_bComplete := True\<rparr>"
        have res: "XWebFrame_Parse f = Some (?g, XWS_FRAME_COMPLETE)"
          unfolding st1 using pm nk ge lw hg by (simp add: g1s(1) nu Let_def g_def [symmetric])
        have ln: "length (unmasked g d) = length d" using ge lw hg ul by (auto simp: unmasked_def)
        have "ws_holds ?g ?P p ex" if full: "u = length ?W"
        proof -
          have d: "d = ?P @ ws_body key p @ ex @ drop u d"
            using eq full append_take_drop_id [of u d] unfolding ws_wire_split by simp
          have "unmasked g d = ?P @ p @ ex @ drop u d"
          proof (cases key)
            case None
            then show ?thesis using d hg by (simp add: unmasked_def ws_body_def)
          next
            case (Some k)
            have "take (length ?P) d = ?P" by (subst d) simp
            moreover have "take ?n (drop (length ?P) d) = ws_body key p" by (subst d) simp
            moreover have "drop (length ?P + ?n) d = ex @ drop u d" by (subst d) simp
            moreover have "xor_key (le_bytes (ws_nMaskKey g)) 0 (ws_body key p) = p"
            proof -
              have "take 4 (drop (ws_hsize ?n) d) = le_bytes k" by (subst d) (simp add: Some ws_prefix_def)
              then have "ws_nMaskKey g = of_le (le_bytes k)" using g1s Some by (simp add: g_def with_key_def)
              then have "le_bytes (ws_nMaskKey g) = le_bytes k" by (simp add: le_bytes_of_le)
              then show ?thesis using Some by (simp add: ws_body_def)
            qed
            ultimately show ?thesis using hg Some by (simp add: unmasked_def)
          qed
          moreover have "bb_wf (?b\<lparr>bb_pData := Some (unmasked g d)\<rparr>)" by (rule wf_data [OF w \<open>bb_pData ?b = Some d\<close> ln])
          ultimately show ?thesis using hg full lw nu ws_hsize_bounds(1) [of ?n]
            by (simp add: ws_holds_def bb_content_def ws_prefix_length)
        qed
        then show ?thesis using ge res hg owned_data [OF _ d ln] by (intro exI [of _ ?g]) simp
      qed
    qed
  qed
  show "u < length (ws_wire fin op key p) \<Longrightarrow> \<exists>f'. XWebFrame_Parse f = Some (f', XWS_FRAME_INCOMPLETE) \<and> ws_buffer f' = ws_buffer f"
    using short main by (cases "u < 2") auto
  show "u = length ?W \<Longrightarrow>
      \<exists>f'. XWebFrame_Parse f = Some (f', XWS_FRAME_COMPLETE) \<and> ws_holds f' ?P p ex \<and>
        ws_bFin f' = fin \<and> ws_nOpCode f' = op \<and> ws_eType f' = XWS_FrameType op \<and> ws_bComplete f' \<and> \<not> ws_bMask f' \<and>
        (bb_owned (ws_buffer f) \<longrightarrow> bb_owned (ws_buffer f'))"
    using main ws_hsize_bounds(1) [of ?n] by (auto simp: ws_wire_split ws_prefix_length split: if_splits)
qed

section \<open>Frames that have been read\<close>

lemma holds_used: "ws_holds f A p B \<Longrightarrow> bb_nUsed (ws_buffer f) = length A + length p + length B \<and> bb_nUsed (ws_buffer f) < 2 ^ 63"
proof -
  assume h: "ws_holds f A p B"
  then obtain d where "bb_pData (ws_buffer f) = Some d" by (rule holds_block)
  moreover have "bb_wf (ws_buffer f)" using h by (simp add: ws_holds_def)
  ultimately have "bb_nUsed (ws_buffer f) < 2 ^ 63" by (auto simp: bb_wf_def)
  moreover have "bb_nUsed (ws_buffer f) = length A + length p + length B" using h by (rule holds_block)
  ultimately show ?thesis by blast
qed

lemma accessors:
  assumes h: "ws_holds f A p B"
  shows "XWebFrame_GetFrameLength f = (f\<lparr>ws_bComplete := True\<rparr>, length A + length p)"
    "XWebFrame_GetExtraLength f = (f\<lparr>ws_bComplete := True\<rparr>, length B)"
    "snd (XWebFrame_GetPayloadLength f) = length p"
    "snd (XWebFrame_GetPayload f) = (if p = [] then None else Some (length A))"
    "take (length p) (drop (length A) (bb_content (ws_buffer f))) = p"
proof -
  obtain R where R: "bb_pData (ws_buffer f) = Some (A @ p @ B @ R)" using h by (rule holds_block)
  note u = holds_used [OF h]
  have H: "ws_nHeaderSize f = length A" "ws_nPayloadLength f = length p" "2 \<le> length A" "bb_content (ws_buffer f) = A @ p @ B"
    using h by (simp_all add: ws_holds_def)
  have s: "sz (length A + length p) = length A + length p" using u by simp
  show fl: "XWebFrame_GetFrameLength f = (f\<lparr>ws_bComplete := True\<rparr>, length A + length p)"
  proof -
    have "0 < length A" using H(3) by linarith
    then show ?thesis using R H u s
      by (auto simp: XWebFrame_GetFrameLength_def Let_def)
  qed
  show el: "XWebFrame_GetExtraLength f = (f\<lparr>ws_bComplete := True\<rparr>, length B)"
    using fl H u by (auto simp: XWebFrame_GetExtraLength_def)
  show "take (length p) (drop (length A) (bb_content (ws_buffer f))) = p" by (simp add: H)
  have cp: "XWebFrame_CheckPayload f = (if p = [] then (f, False) else (f\<lparr>ws_bComplete := True\<rparr>, True))"
  proof -
    have "0 < length A" using H(3) by linarith
    then show ?thesis using R H u by (auto simp: XWebFrame_CheckPayload_def)
  qed
  then show "snd (XWebFrame_GetPayload f) = (if p = [] then None else Some (length A))"
    using H by (simp add: XWebFrame_GetPayload_def Let_def)
  have "ws_holds (f\<lparr>ws_bComplete := True\<rparr>) A p B" using h by (simp add: ws_holds_def)
  then have el': "XWebFrame_GetExtraLength (f\<lparr>ws_bComplete := True\<rparr>) = (f\<lparr>ws_bComplete := True\<rparr>, length B)"
    using el R H u fl by (auto simp: XWebFrame_GetExtraLength_def XWebFrame_GetFrameLength_def Let_def)
  have "sz (sz (bb_nUsed (ws_buffer f) + 2 ^ 64 - length A) + 2 ^ 64 - length B) = length p"
    using sz_sub [of "length A" "bb_nUsed (ws_buffer f)"] sz_sub [of "length B" "length p + length B"] u by simp
  then show "snd (XWebFrame_GetPayloadLength f) = length p"
    using H by (simp add: XWebFrame_GetPayloadLength_def cp el')
qed

definition ws_empty :: xws_frame where
  "ws_empty = \<lparr>ws_eType = XWS_INVALID,
     ws_buffer = \<lparr>bb_pData = None, bb_nSize = 0, bb_nUsed = 0, bb_nAlloc = 0, bb_nFast = 0, bb_nStatus = XSTDOK\<rparr>,
     ws_nPayloadLength = 0, ws_nHeaderSize = 0, ws_nMaskKey = 0, ws_nOpCode = 0, ws_bComplete = False, ws_bAlloc = False,
     ws_bMask = False, ws_bFin = False\<rparr>"

lemma Init_empty: "XWebFrame_Init m = Some ws_empty"
  by (simp add: XWebFrame_Init_def XByteBuffer_Init_def XByteBuffer_Reserve_def ws_empty_def Let_def)

lemma empty_owned: "bb_owned (ws_buffer ws_empty)" "bb_content (ws_buffer ws_empty) = []" "bb_nUsed (ws_buffer ws_empty) = 0"
  by (simp_all add: ws_empty_def bb_owned_def bb_wf_def bb_content_def)

lemma Create_spec:
  assumes m: "malloc_spec m" and n: "nLength \<le> length p" "nLength + 32 < 2 ^ 31" and t: "t \<noteq> XWS_INVALID"
  defines "key \<equiv> (\<lambda>rs bMask. if bMask then Some (XWS_GenerateMaskKey rs) else None)"
  shows "\<exists>f st. XWebFrame_Create m rs (Some p) nLength t bMask fin f0 = Some (f, st) \<and>
    (st = XWS_ERR_ALLOC \<or> st = XWS_ERR_NONE \<and> bb_owned (ws_buffer f) \<and>
       bb_content (ws_buffer f) = ws_wire fin (XWS_OpCode t) (key rs bMask) (take nLength p) \<and>
       ws_holds f (ws_prefix fin (XWS_OpCode t) (key rs bMask) nLength) (ws_body (key rs bMask) (take nLength p)) [])"
proof -
  have n62: "nLength < 2 ^ 62" using n(2) by simp
  let ?op = "XWS_OpCode t" and ?h = "ws_hsize nLength" and ?p = "take nLength p"
  have lp: "length ?p = nLength" using n(1) by simp
  from m n62 n(1) show ?thesis
  proof (cases rule: CreateFrame_spec [of m nLength p ?op fin])
    case 1
    then show ?thesis using t by (simp add: XWebFrame_Create_def Init_empty Let_def)
  next
    case (2 d)
    let ?H = "ws_header fin ?op False nLength"
    let ?b = "fst (XByteBuffer_OwnData (ws_buffer ws_empty) (Some d) (?h + nLength))"
    let ?f = "ws_empty\<lparr>ws_eType := t, ws_bFin := fin, ws_nOpCode := ?op, ws_buffer := ?b, ws_nHeaderSize := ?h, ws_nPayloadLength := nLength\<rparr>"
    have b: "bb_pData ?b = Some d" "bb_nSize ?b = ?h + nLength" "bb_nUsed ?b = ?h + nLength"
      by (simp_all add: XByteBuffer_OwnData_def XByteBuffer_SetData_def)
    have ld: "length d = ?h + nLength + 1" using 2(2) lp by simp
    have own: "bb_owned ?b" using b ld n62 ws_hsize_bounds [of nLength] by (intro bb_ownedI [of _ d]) auto
    have ct: "bb_content ?b = ?H @ ?p" using b lp by (simp add: bb_content_def 2(2))
    have holds: "ws_holds ?f ?H ?p []"
      using ct lp bb_owned_wf [OF own] ws_hsize_bounds [of nLength] by (simp add: ws_holds_def)
    have cr: "XWebFrame_Create m rs (Some p) nLength t bMask fin f0 =
      (if bMask then XWebFrame_Mask m rs ?f else Some (?f, XWS_ERR_NONE))"
      using t 2(1) ws_hsize_bounds [of nLength]
      by (simp add: XWebFrame_Create_def Init_empty Let_def case_prod_beta)
    show ?thesis
    proof (cases bMask)
      case False
      then show ?thesis unfolding cr using own ct holds lp by (simp add: key_def ws_prefix_def ws_body_def)
    next
      case True
      let ?k = "XWS_GenerateMaskKey rs"
      have bit: "?H ! 1 AND 0x80 = 0" using header_mask_bit [of fin ?op False nLength] by (simp add: msb_byte(1))
      have lt: "length ?H + length ?p + length ([] :: byte list) + 4 < 2 ^ 31" using lp n(2) ws_hsize_bounds [of nLength] by simp
      have nm: "\<not> ws_bMask ?f" "bb_owned (ws_buffer ?f)" using own by (simp_all add: ws_empty_def)
      from Mask_spec [OF m nm(2) holds nm(1) bit lt refl, of rs] obtain f st where
        f: "XWebFrame_Mask m rs ?f = Some (f, st)" "bb_owned (ws_buffer f)"
        "st = XWS_ERR_ALLOC \<or> st = XWS_ERR_NONE \<and> ws_holds f (?H[1 := ?H ! 1 OR 0x80] @ le_bytes ?k) (xor_key (le_bytes ?k) 0 ?p) []"
        by blast
      moreover have "ws_prefix fin ?op (Some ?k) nLength = ?H[1 := ?H ! 1 OR 0x80] @ le_bytes ?k"
        unfolding ws_header_masked by (simp add: ws_prefix_def)
      moreover have "bb_content (ws_buffer f) = ws_wire fin ?op (Some ?k) ?p"
        if "ws_holds f (ws_prefix fin ?op (Some ?k) nLength) (ws_body (Some ?k) ?p) []"
        using that lp by (simp add: ws_holds_def ws_wire_split del: ws_wire.simps)
      ultimately show ?thesis unfolding cr using True by (auto simp: key_def ws_body_def)
    qed
  qed
qed

text \<open>Appending and parsing.\<close>

lemma Append_spec:
  assumes m: "malloc_spec m" and b: "bb_owned (ws_buffer f)" and s: "s \<noteq> []"
    and n: "bb_nUsed (ws_buffer f) + length s < 2 ^ 31"
  shows "\<exists>f' st. XWebFrame_AppendData m f (Some s) = Some (f', st) \<and> bb_owned (ws_buffer f') \<and>
    (st = XWS_ERR_ALLOC \<and> bb_content (ws_buffer f') = bb_content (ws_buffer f) \<or>
     st = XWS_ERR_NONE \<and> bb_content (ws_buffer f') = bb_content (ws_buffer f) @ s)"
proof -
  have l: "length (bb_content (ws_buffer f)) = bb_nUsed (ws_buffer f)" by (rule bb_content_length [OF bb_owned_wf [OF b]])
  have "bb_nUsed (ws_buffer f) + length s + 1 < 2 ^ 62" using n by simp
  from Add_edit [OF m b this s] obtain b' r where
    r: "XByteBuffer_Add m (ws_buffer f) (Some s) = Some (b', r)" "bb_owned b'"
    "r = XSTDERR \<and> bb_content b' = bb_content (ws_buffer f) \<or>
     r = to_int (length (bb_content (ws_buffer f) @ s)) \<and> bb_content b' = bb_content (ws_buffer f) @ s"
    unfolding bb_edit_def by blast
  obtain c s' where cs: "s = c # s'" using s by (cases s) auto
  have "to_int (length (bb_content (ws_buffer f) @ s)) > 0" using n l by (simp add: cs)
  then show ?thesis using r s by (auto simp: XWebFrame_AppendData_def)
qed

section \<open>Properties\<close>

lemma Parse_any:
  assumes w: "bb_wf (ws_buffer f)"
  shows "\<exists>f' st. XWebFrame_Parse f = Some (f', st) \<and> bb_wf (ws_buffer f') \<and>
    (st = XWS_FRAME_INCOMPLETE \<or> st = XWS_FRAME_INVALID \<or> st = XWS_FRAME_COMPLETE) \<and>
    (st \<noteq> XWS_FRAME_COMPLETE \<longrightarrow> ws_buffer f' = ws_buffer f) \<and>
    (st = XWS_FRAME_COMPLETE \<longrightarrow> ws_bComplete f' \<and> \<not> ws_bMask f' \<and> 2 \<le> ws_nHeaderSize f' \<and> ws_nHeaderSize f' \<le> 14 \<and>
       (let c = bb_content (ws_buffer f); h = ws_nHeaderSize f'; n = ws_nPayloadLength f' in
        h + n \<le> length c \<and> take h (bb_content (ws_buffer f')) = take h c \<and>
        drop (h + n) (bb_content (ws_buffer f')) = drop (h + n) c \<and>
        take n (drop h (bb_content (ws_buffer f'))) =
          (if bit (c ! 1) 7 then xor_key (take 4 (drop (h - 4) c)) 0 (take n (drop h c)) else take n (drop h c))))"
proof (cases "bb_pData (ws_buffer f) = None \<or> bb_nUsed (ws_buffer f) < 2")
  case True
  then have "XWebFrame_Parse f = Some (f\<lparr>ws_bComplete := False\<rparr>, XWS_FRAME_INCOMPLETE)"
    by (cases "bb_pData (ws_buffer f)") (simp_all add: XWebFrame_Parse_def Let_def)
  then show ?thesis using w by simp
next
  case False
  let ?b = "ws_buffer f"
  let ?u = "bb_nUsed ?b"
  obtain d where d: "bb_pData ?b = Some d" using False by auto
  have u: "2 \<le> ?u" "?u \<le> length d" using False w d by (auto simp: bb_wf_def)
  let ?g0 = "ws_parsed f (d ! 0) (d ! Suc 0)"
  have g0: "ws_buffer ?g0 = ?b" "\<not> ws_bComplete ?g0" "ws_bMask ?g0 \<longleftrightarrow> bit (d ! Suc 0) 7" by (simp_all add: ws_parsed_def)
  note start = Parse_start [OF w d u(1)]
  from u(2,1) show ?thesis
  proof (cases rule: parse_length_any [of ?u d "d ! Suc 0 AND 0x7F" ?g0])
    case (1 st)
    then show ?thesis using start w g0 by auto
  next
    case (2 h n)
    define g1 where "g1 = ?g0\<lparr>ws_nPayloadLength := n, ws_nHeaderSize := h\<rparr>"
    have st1: "XWebFrame_Parse f = parse_mask d ?u g1" using start 2(1) by (simp add: g1_def)
    have g1: "ws_buffer g1 = ?b" "ws_bMask g1 \<longleftrightarrow> bit (d ! Suc 0) 7" "ws_nPayloadLength g1 = n" "ws_nHeaderSize g1 = h" "\<not> ws_bComplete g1"
      using g0 by (simp_all add: g1_def)
    note pm = parse_mask_eq [of g1 d, unfolded g1(1,3,4), OF w d 2(2-5) g1(5)]
    define g where "g = with_key g1 d"
    have g: "ws_buffer g = ?b" "ws_nPayloadLength g = n" "2 \<le> ws_nHeaderSize g" "ws_nHeaderSize g \<le> 14"
      "ws_nHeaderSize g = h + (if ws_bMask g1 then 4 else 0)" "ws_bMask g = ws_bMask g1"
      "ws_bMask g1 \<Longrightarrow> ws_nMaskKey g = of_le (take 4 (drop h d))"
      using 2 g1 by (simp_all add: g_def with_key_def)
    show ?thesis
    proof (cases "ws_bMask g1 \<and> ?u < h + 4 \<or> ?u < ws_nHeaderSize g + n")
      case True
      then show ?thesis unfolding st1 pm using w g g1 by (auto simp: Let_def g_def [symmetric])
    next
      case no: False
      let ?g = "g\<lparr>ws_buffer := ?b\<lparr>bb_pData := Some (unmasked g d)\<rparr>, ws_bMask := False, ws_bComplete := True\<rparr>"
      let ?h = "ws_nHeaderSize g"
      have res: "XWebFrame_Parse f = Some (?g, XWS_FRAME_COMPLETE)"
        unfolding st1 pm using no g by (simp add: Let_def g_def [symmetric])
      have hn: "?h + n \<le> ?u" using no by simp
      have c: "bb_content ?b = take ?u d" using d by (simp add: bb_content_def)
      have c': "bb_content (ws_buffer ?g) = take ?u (unmasked g d)" by (simp add: bb_content_def)
      have k: "le_bytes (ws_nMaskKey g) = take 4 (drop (?h - 4) (take ?u d))" if "ws_bMask g1"
      proof -
        have "4 \<le> ?u - h" using that no by linarith
        then have "take 4 (drop (?h - 4) (take ?u d)) = take 4 (drop h d)" using g(5) that by (simp add: drop_take min_absorb1)
        moreover have "4 \<le> length d - h" using that no u(2) by linarith
        then have "length (take 4 (drop h d)) = 4" by simp
        ultimately show ?thesis using le_bytes_of_le g(7) [OF that] by simp
      qed
      have c1: "bit (bb_content ?b ! 1) 7 \<longleftrightarrow> ws_bMask g1" using g1(2) u by (simp add: c)
      have ln: "length (unmasked g d) = length d" using hn u g by (auto simp: unmasked_def)
      have split: "take ?u (unmasked g d) = take ?h d @ (if ws_bMask g1 then xor_key (le_bytes (ws_nMaskKey g)) 0 (take n (drop ?h d))
          else take n (drop ?h d)) @ take (?u - (?h + n)) (drop (?h + n) d)"
      proof -
        have ds: "d = take ?h d @ take n (drop ?h d) @ drop (?h + n) d"
          by (metis append_take_drop_id drop_drop add.commute)
        have "unmasked g d = take ?h d @ (if ws_bMask g1 then xor_key (le_bytes (ws_nMaskKey g)) 0 (take n (drop ?h d))
          else take n (drop ?h d)) @ drop (?h + n) d"
        proof (cases "ws_bMask g1")
          case True
          then show ?thesis using g(2,6) by (simp add: unmasked_def)
        next
          case False
          then have "unmasked g d = d" using g(6) by (simp add: unmasked_def)
          then show ?thesis unfolding if_not_P [OF False] using ds by (rule trans)
        qed
        then show ?thesis using hn u by simp
      qed
      have "take n (drop ?h (take ?u d)) = take n (drop ?h d)" "take ?h (take ?u d) = take ?h d"
        "drop (?h + n) (take ?u d) = take (?u - (?h + n)) (drop (?h + n) d)" using hn by (simp_all add: drop_take min_def)
      then have "take ?h (bb_content (ws_buffer ?g)) = take ?h (bb_content ?b)"
        "drop (?h + n) (bb_content (ws_buffer ?g)) = drop (?h + n) (bb_content ?b)"
        "take n (drop ?h (bb_content (ws_buffer ?g))) = (if bit (bb_content ?b ! 1) 7
          then xor_key (take 4 (drop (?h - 4) (bb_content ?b))) 0 (take n (drop ?h (bb_content ?b))) else take n (drop ?h (bb_content ?b)))"
        unfolding c' split c1 unfolding c using hn u k by simp_all
      moreover have "bb_wf (?b\<lparr>bb_pData := Some (unmasked g d)\<rparr>)" by (rule wf_data [OF w d ln])
      moreover have "length (bb_content ?b) = ?u" using u by (simp add: c)
      ultimately show ?thesis using res g hn by (intro exI [of _ ?g] exI [of _ XWS_FRAME_COMPLETE]) (simp add: Let_def)
    qed
  qed
qed

text \<open>
  C26: Parsing whatever arrived. For every frame whose buffer is well formed and every content of that buffer,
  \<open>XWebFrame_Parse\<close> returns and stays inside the block. Unless it reports a complete frame the buffer is
  unchanged. When it does, the header is 2 to 14 bytes, header and payload lie inside the received bytes,
  the payload has been XORed with the four key bytes before it exactly when the mask bit is set, and every byte outside
  the payload is as received.
\<close>

theorem ws_parse_safe:
  assumes "bb_wf (ws_buffer f)"
  shows "\<exists>f' st. XWebFrame_Parse f = Some (f', st) \<and> bb_wf (ws_buffer f') \<and>
    (st = XWS_FRAME_INCOMPLETE \<or> st = XWS_FRAME_INVALID \<or> st = XWS_FRAME_COMPLETE) \<and>
    (st \<noteq> XWS_FRAME_COMPLETE \<longrightarrow> ws_buffer f' = ws_buffer f) \<and>
    (st = XWS_FRAME_COMPLETE \<longrightarrow> ws_bComplete f' \<and> \<not> ws_bMask f' \<and> 2 \<le> ws_nHeaderSize f' \<and> ws_nHeaderSize f' \<le> 14 \<and>
       (let c = bb_content (ws_buffer f); h = ws_nHeaderSize f'; n = ws_nPayloadLength f' in
        h + n \<le> length c \<and> take h (bb_content (ws_buffer f')) = take h c \<and>
        drop (h + n) (bb_content (ws_buffer f')) = drop (h + n) c \<and>
        take n (drop h (bb_content (ws_buffer f'))) =
          (if bit (c ! 1) 7 then xor_key (take 4 (drop (h - 4) c)) 0 (take n (drop h c)) else take n (drop h c))))"
  by (rule Parse_any [OF assms])

theorem ws_parse_safe_witness:
  "\<exists>f' st. XWebFrame_Parse (ws_empty\<lparr>ws_buffer := bb_example [0x81, 0x7F]\<rparr>) = Some (f', st) \<and> bb_wf (ws_buffer f')"
proof -
  have "bb_wf (ws_buffer (ws_empty\<lparr>ws_buffer := bb_example [0x81, 0x7F]\<rparr>))"
    using bb_owned_wf [OF bb_example_owned [of "[0x81, 0x7F]"]] by simp
  from ws_parse_safe [OF this] show ?thesis by blast
qed

text \<open>
  C27: Round trip. \<open>XWebFrame_Create\<close> of a payload below 2 GiB either fails to allocate or builds exactly the
  RFC 6455 frame, masked with the generated key when asked to. \<open>XWebFrame_ParseData\<close> of those bytes, with any other
  bytes behind them, then fails to allocate or reports a complete frame with the same type, FIN bit and payload, and
  the number of extra bytes.
\<close>

theorem ws_roundtrip:
  assumes m: "malloc_spec m" "malloc_spec m2" and t: "t \<noteq> XWS_INVALID" and n: "length p + length ex + 32 < 2 ^ 31"
  shows "\<exists>f st. XWebFrame_Create m rs (Some p) (length p) t bMask fin f0 = Some (f, st) \<and>
    (st = XWS_ERR_ALLOC \<or> st = XWS_ERR_NONE \<and>
      bb_content (ws_buffer f) = ws_wire fin (XWS_OpCode t) (if bMask then Some (XWS_GenerateMaskKey rs) else None) p \<and>
      (\<exists>g st2. XWebFrame_ParseData m2 (Some (bb_content (ws_buffer f) @ ex)) = Some (g, st2) \<and>
        (st2 = XWS_ERR_ALLOC \<or> st2 = XWS_FRAME_COMPLETE \<and> ws_eType g = t \<and> ws_bFin g = fin \<and>
           ws_nPayloadLength g = length p \<and> take (length p) (drop (ws_nHeaderSize g) (bb_content (ws_buffer g))) = p \<and>
           snd (XWebFrame_GetPayload g) = (if p = [] then None else Some (ws_nHeaderSize g)) \<and>
           snd (XWebFrame_GetPayloadLength g) = length p \<and> snd (XWebFrame_GetExtraLength g) = length ex)))"
proof -
  let ?key = "if bMask then Some (XWS_GenerateMaskKey rs) else None"
  let ?w = "ws_wire fin (XWS_OpCode t) ?key p"
  have n32: "length p + 32 < 2 ^ 31" using n by simp
  note t' = type_of_opcode [OF t]
  obtain f st where f: "XWebFrame_Create m rs (Some p) (length p) t bMask fin f0 = Some (f, st)"
    "st = XWS_ERR_ALLOC \<or> st = XWS_ERR_NONE \<and> bb_content (ws_buffer f) = ?w"
    using Create_spec [OF m(1) order_refl n32 t, of rs bMask fin f0] by auto
  have lw: "length ?w = ws_hsize (length p) + (if bMask then 4 else 0) + length p"
    unfolding ws_wire_split by (simp add: ws_prefix_length)
  have "0 < length (?w @ ex)" unfolding length_append lw using ws_hsize_bounds(1) [of "length p"] by linarith
  then have ne: "?w @ ex \<noteq> []" by (rule length_greater_0_conv [THEN iffD1])
  have ln: "bb_nUsed (ws_buffer ws_empty) + length (?w @ ex) < 2 ^ 31"
    using n lw ws_hsize_bounds(2) [of "length p"] empty_owned(3) by auto
  obtain h st1 where h: "XWebFrame_AppendData m2 ws_empty (Some (?w @ ex)) = Some (h, st1)" "bb_owned (ws_buffer h)"
    "st1 = XWS_ERR_ALLOC \<or> st1 = XWS_ERR_NONE \<and> bb_content (ws_buffer h) = ?w @ ex"
    using Append_spec [OF m(2) empty_owned(1) ne ln] unfolding empty_owned(2) by auto
  have "\<exists>g st2. XWebFrame_ParseData m2 (Some (?w @ ex)) = Some (g, st2) \<and>
        (st2 = XWS_ERR_ALLOC \<or> st2 = XWS_FRAME_COMPLETE \<and> ws_eType g = t \<and> ws_bFin g = fin \<and>
           ws_nPayloadLength g = length p \<and> take (length p) (drop (ws_nHeaderSize g) (bb_content (ws_buffer g))) = p \<and>
           snd (XWebFrame_GetPayload g) = (if p = [] then None else Some (ws_nHeaderSize g)) \<and>
           snd (XWebFrame_GetPayloadLength g) = length p \<and> snd (XWebFrame_GetExtraLength g) = length ex)"
  proof (cases "st1 = XWS_ERR_NONE")
    case False
    then show ?thesis using h by (auto simp: XWebFrame_ParseData_def XWebFrame_TryParse_def Init_empty)
  next
    case True
    then have "bb_content (ws_buffer h) = take (length (?w @ ex)) (?w @ ex)" using h(3) by auto
    moreover have "length p < 2 ^ 63" using n by simp
    ultimately obtain g where g: "XWebFrame_Parse h = Some (g, XWS_FRAME_COMPLETE)"
      "ws_holds g (ws_prefix fin (XWS_OpCode t) ?key (length p)) p ex" "ws_bFin g = fin" "ws_eType g = t"
      using Parse_wire(2) [OF bb_owned_wf [OF h(2)] _ order_refl conjunct2 [OF t'] _ refl, of fin ?key p ex] t' by auto
    have hg: "length (ws_prefix fin (XWS_OpCode t) ?key (length p)) = ws_nHeaderSize g" "ws_nPayloadLength g = length p"
      using g(2) unfolding ws_holds_def by argo+
    have pd: "XWebFrame_ParseData m2 (Some (?w @ ex)) = Some (g, XWS_FRAME_COMPLETE)"
      using True h(1) g(1) by (simp add: XWebFrame_ParseData_def XWebFrame_TryParse_def Init_empty)
    have el: "snd (XWebFrame_GetExtraLength g) = length ex" unfolding accessors(2) [OF g(2)] by simp
    show ?thesis
      by (rule exI [of _ g], rule exI [of _ XWS_FRAME_COMPLETE],
          intro conjI pd disjI2 refl g(3,4) hg(2) el accessors(5) [OF g(2), unfolded hg(1)]
            accessors(4) [OF g(2), unfolded hg(1)] accessors(3) [OF g(2)])
  qed
  then show ?thesis using f by auto
qed

theorem ws_roundtrip_witness:
  "\<exists>f st. XWebFrame_Create zero_malloc (1, 2, 3, 4) (Some [104, 105]) 2 XWS_TEXT True True ws_empty = Some (f, st) \<and>
    (st = XWS_ERR_ALLOC \<or> bb_content (ws_buffer f) = [0x81, 0x82, 4, 3, 2, 1, 108, 106])"
proof -
  have "ws_wire True (XWS_OpCode XWS_TEXT) (Some (XWS_GenerateMaskKey (1, 2, 3, 4))) [104, 105] = [0x81, 0x82, 4, 3, 2, 1, 108, 106]"
    by code_simp
  note w = this
  have l: "length [104, 105 :: byte] = 2" by simp
  have "length [104, 105 :: byte] + length ([] :: byte list) + 32 < 2 ^ 31" by simp
  from ws_roundtrip [OF zero_malloc_spec zero_malloc_spec _ this, of XWS_TEXT "(1, 2, 3, 4)" True True ws_empty]
  show ?thesis unfolding l if_True w by blast
qed

text \<open>Feeding received pieces to one frame until it is complete or memory runs out.\<close>

fun ws_feed :: "malloc \<Rightarrow> xws_frame \<Rightarrow> byte list list \<Rightarrow> (xws_frame \<times> xws_status list) option" where
  "ws_feed m f [] = Some (f, [])"
| "ws_feed m f (s # ss) = do {
     (f, st) \<leftarrow> XWebFrame_TryParse m f (Some s);
     if st = XWS_ERR_ALLOC then Some (f, [st]) else do { (f, sts) \<leftarrow> ws_feed m f ss; Some (f, st # sts) } }"

lemma feed_pieces:
  assumes m: "malloc_spec m" and op: "op < 16" and n: "length (ws_wire fin op key p) < 2 ^ 31" and b: "bb_owned (ws_buffer f)"
    and ne: "\<forall>s \<in> set ss. s \<noteq> []" "ss \<noteq> []" and w: "bb_content (ws_buffer f) @ concat ss = ws_wire fin op key p"
  shows "\<exists>f' sts. ws_feed m f ss = Some (f', sts) \<and> (XWS_ERR_ALLOC \<in> set sts \<or>
    sts = replicate (length ss - 1) XWS_FRAME_INCOMPLETE @ [XWS_FRAME_COMPLETE] \<and>
    ws_holds f' (ws_prefix fin op key (length p)) p [] \<and> ws_bFin f' = fin \<and> ws_eType f' = XWS_FrameType op)"
  using b ne w
proof (induction ss arbitrary: f)
  case Nil
  then show ?case by simp
next
  case (Cons s ss)
  let ?w = "ws_wire fin op key p"
  have p63: "length p < 2 ^ 63" using n unfolding ws_wire_split by simp
  have lu: "bb_nUsed (ws_buffer f) + length s < 2 ^ 31"
    using n arg_cong [OF Cons.prems(4), of length] bb_content_length [OF bb_owned_wf [OF Cons.prems(1)]] by simp
  have sn: "s \<noteq> []" using Cons.prems(2) by simp
  obtain h st where h: "XWebFrame_AppendData m f (Some s) = Some (h, st)" "bb_owned (ws_buffer h)"
    "st = XWS_ERR_ALLOC \<or> st = XWS_ERR_NONE \<and> bb_content (ws_buffer h) = bb_content (ws_buffer f) @ s"
    using Append_spec [OF m Cons.prems(1) sn lu] by blast
  show ?case
  proof (cases "st = XWS_ERR_NONE")
    case False
    then have "ws_feed m f (s # ss) = Some (h, [XWS_ERR_ALLOC])" using h by (auto simp: XWebFrame_TryParse_def)
    then show ?thesis by simp
  next
    case True
    then have c: "bb_content (ws_buffer h) @ concat ss = ?w" using h(3) Cons.prems(4) by auto
    let ?u = "length (bb_content (ws_buffer h))"
    have u: "?u + length (concat ss) = length ?w" using arg_cong [OF c, of length] by simp
    have cu: "bb_content (ws_buffer h) = take ?u (?w @ [])" using c by (metis append_Nil2 append_eq_conv_conj)
    have ul: "?u \<le> length (?w @ [])" using u by simp
    note P = Parse_wire [OF bb_owned_wf [OF h(2)] cu ul op p63]
    show ?thesis
    proof (cases ss)
      case Nil
      then have "?u = length (?w @ [])" using u by simp
      from P(2) [OF this] obtain g where "XWebFrame_Parse h = Some (g, XWS_FRAME_COMPLETE)"
        "ws_holds g (ws_prefix fin op key (length p)) p []" "ws_bFin g = fin" "ws_eType g = XWS_FrameType op" by blast
      then show ?thesis using Nil True h(1) by (simp add: XWebFrame_TryParse_def)
    next
      case (Cons s2 ss2)
      then have "0 < length (concat ss)" using Cons.prems(2) by simp
      then have "?u < length ?w" using u by linarith
      from P(1) [OF this] obtain g where g: "XWebFrame_Parse h = Some (g, XWS_FRAME_INCOMPLETE)" "ws_buffer g = ws_buffer h"
        by blast
      have "bb_owned (ws_buffer g)" "\<forall>s \<in> set ss. s \<noteq> []" "ss \<noteq> []" "bb_content (ws_buffer g) @ concat ss = ?w"
        using g(2) h(2) Cons Cons.prems(2) c by simp_all
      from Cons.IH [OF this] obtain f' sts where f': "ws_feed m g ss = Some (f', sts)"
        "XWS_ERR_ALLOC \<in> set sts \<or> sts = replicate (length ss - 1) XWS_FRAME_INCOMPLETE @ [XWS_FRAME_COMPLETE] \<and>
          ws_holds f' (ws_prefix fin op key (length p)) p [] \<and> ws_bFin f' = fin \<and> ws_eType f' = XWS_FrameType op" by blast
      have "ws_feed m f (s # ss) = Some (f', XWS_FRAME_INCOMPLETE # sts)"
        using True h(1) g(1) f'(1) by (simp add: XWebFrame_TryParse_def)
      then show ?thesis using f'(2) Cons by auto
    qed
  qed
qed

text \<open>
  C28: Frames arrive in pieces. However the bytes of one frame are cut into non-empty pieces, feeding them to
  \<open>XWebFrame_TryParse\<close> one after the other reports an incomplete frame for every piece but the last and a
  complete one with the right type, FIN bit and payload on the last, unless an append fails to allocate.
\<close>

theorem ws_pieces:
  assumes "malloc_spec m" "op < 16" "length (concat ss) < 2 ^ 31" "\<forall>s \<in> set ss. s \<noteq> []" "concat ss = ws_wire fin op key p"
  shows "\<exists>f' sts. ws_feed m ws_empty ss = Some (f', sts) \<and> (XWS_ERR_ALLOC \<in> set sts \<or>
    sts = replicate (length ss - 1) XWS_FRAME_INCOMPLETE @ [XWS_FRAME_COMPLETE] \<and>
    ws_eType f' = XWS_FrameType op \<and> ws_bFin f' = fin \<and> ws_nPayloadLength f' = length p \<and>
    take (length p) (drop (ws_nHeaderSize f') (bb_content (ws_buffer f'))) = p)"
proof -
  have "ws_wire fin op key p \<noteq> []"
    unfolding ws_wire_split using ws_prefix_length [of fin op key "length p"] ws_hsize_bounds(1) [of "length p"] by auto
  then have "ss \<noteq> []" using assms(5) by auto
  moreover have "bb_content (ws_buffer ws_empty) @ concat ss = ws_wire fin op key p" using assms(5) empty_owned(2) by simp
  moreover have "length (ws_wire fin op key p) < 2 ^ 31" using assms(3,5) by simp
  ultimately obtain f' sts where "ws_feed m ws_empty ss = Some (f', sts)" "XWS_ERR_ALLOC \<in> set sts \<or>
    sts = replicate (length ss - 1) XWS_FRAME_INCOMPLETE @ [XWS_FRAME_COMPLETE] \<and>
    ws_holds f' (ws_prefix fin op key (length p)) p [] \<and> ws_bFin f' = fin \<and> ws_eType f' = XWS_FrameType op"
    using feed_pieces [OF assms(1,2) _ empty_owned(1) assms(4), of fin key p] by blast
  then show ?thesis using accessors(5) [of f' "ws_prefix fin op key (length p)" p "[]"] by (auto simp: ws_holds_def)
qed

theorem ws_pieces_witness:
  "\<exists>f' sts. ws_feed zero_malloc ws_empty [[0x81], [0x02, 104], [105]] = Some (f', sts) \<and>
    (XWS_ERR_ALLOC \<in> set sts \<or> sts = [XWS_FRAME_INCOMPLETE, XWS_FRAME_INCOMPLETE, XWS_FRAME_COMPLETE])"
proof -
  let ?ss = "[[0x81], [0x02, 104], [105 :: byte]]"
  have w: "concat ?ss = ws_wire True 1 None [104, 105]" by code_simp
  have l: "replicate (length ?ss - 1) XWS_FRAME_INCOMPLETE @ [XWS_FRAME_COMPLETE] =
    [XWS_FRAME_INCOMPLETE, XWS_FRAME_INCOMPLETE, XWS_FRAME_COMPLETE]" by (simp add: eval_nat_numeral)
  have "length (concat ?ss) < 2 ^ 31" "\<forall>s \<in> set ?ss. s \<noteq> []" by simp_all
  from ws_pieces [OF zero_malloc_spec _ this w] show ?thesis unfolding l by auto
qed

text \<open>
  Parsing a masked frame twice. The parser removes the mask from the payload but leaves the mask bit in the
  buffer, so a second \<open>XWebFrame_Parse\<close> of the same, already complete frame reports success again and XORs the payload
  with the key once more; and \<open>XWebFrame_Mask\<close> on the unmasked frame reports success without masking it.
\<close>

theorem ws_parse_again:
  assumes "bb_wf (ws_buffer f)" "bb_content (ws_buffer f) = ws_wire fin op (Some k) p" "op < 16" "length p < 2 ^ 63"
  shows "\<exists>f1 f2. XWebFrame_Parse f = Some (f1, XWS_FRAME_COMPLETE) \<and> XWebFrame_Parse f1 = Some (f2, XWS_FRAME_COMPLETE) \<and>
    take (length p) (drop (ws_nHeaderSize f1) (bb_content (ws_buffer f1))) = p \<and>
    take (length p) (drop (ws_nHeaderSize f2) (bb_content (ws_buffer f2))) = xor_key (le_bytes k) 0 p \<and>
    (\<forall>m rs. XWebFrame_Mask m rs f1 = Some (f1, XWS_ERR_NONE))"
proof -
  let ?P = "ws_prefix fin op (Some k) (length p)" and ?q = "xor_key (le_bytes k) 0 p"
  have c: "bb_content (ws_buffer f) = take (length (ws_wire fin op (Some k) p @ [])) (ws_wire fin op (Some k) p @ [])"
    using assms(2) by simp
  from Parse_wire(2) [OF assms(1) c order_refl assms(3,4) refl] obtain f1 where
    f1: "XWebFrame_Parse f = Some (f1, XWS_FRAME_COMPLETE)" "ws_holds f1 ?P p []" "\<not> ws_bMask f1" by blast
  have w1: "bb_wf (ws_buffer f1)" using f1(2) by (simp add: ws_holds_def)
  have c1: "bb_content (ws_buffer f1) = take (length (ws_wire fin op (Some k) ?q @ [])) (ws_wire fin op (Some k) ?q @ [])"
    using f1(2) by (simp add: ws_holds_def ws_prefix_def)
  have lq: "length ?q < 2 ^ 63" using assms(4) by simp
  from Parse_wire(2) [OF w1 c1 order_refl assms(3) lq refl] obtain f2 where
    f2: "XWebFrame_Parse f1 = Some (f2, XWS_FRAME_COMPLETE)" "ws_holds f2 (ws_prefix fin op (Some k) (length ?q)) ?q []" by blast
  have mask: "XWebFrame_Mask m rs f1 = Some (f1, XWS_ERR_NONE)" for m rs
  proof -
    obtain R where R: "bb_pData (ws_buffer f1) = Some (?P @ p @ [] @ R)" using f1(2) by (rule holds_block)
    have h: "ws_nHeaderSize f1 = length ?P" using f1(2) unfolding ws_holds_def by argo
    have "bb_nUsed (ws_buffer f1) = length ?P + length p" using holds_used [OF f1(2)] by simp
    moreover have "2 \<le> length ?P" using ws_prefix_length [of fin op "Some k" "length p"] by simp
    moreover have "peek (?P @ p @ [] @ R) 1 = Some (ws_header fin op True (length p) ! Suc 0)"
      using ws_hsize_bounds(1) [of "length p"] by (simp add: peek_def ws_prefix_def nth_append)
    moreover have "ws_header fin op True (length p) ! Suc 0 AND 0x80 \<noteq> 0" using header_mask_bit by (simp add: msb_byte(1))
    ultimately show ?thesis using R h unfolding XWebFrame_Mask_def by simp
  qed
  have lq2: "length ?q = length p" by simp
  show ?thesis using f1 f2 mask accessors(5) [OF f1(2)] accessors(5) [OF f2(2), unfolded lq2] by (auto simp: ws_holds_def)
qed

theorem ws_parse_again_witness:
  "\<exists>f1 f2. XWebFrame_Parse (ws_empty\<lparr>ws_buffer := bb_example [0x81, 0x81, 1, 0, 0, 0, 0x61]\<rparr>) = Some (f1, XWS_FRAME_COMPLETE) \<and>
     XWebFrame_Parse f1 = Some (f2, XWS_FRAME_COMPLETE) \<and>
     take 1 (drop (ws_nHeaderSize f1) (bb_content (ws_buffer f1))) = [0x60]"
proof -
  let ?f = "ws_empty\<lparr>ws_buffer := bb_example [0x81, 0x81, 1, 0, 0, 0, 0x61]\<rparr>"
  have "bb_wf (ws_buffer ?f)" using bb_owned_wf [OF bb_example_owned [of "[0x81, 0x81, 1, 0, 0, 0, 0x61]"]] by simp
  moreover have "[0x81, 0x81, 1, 0, 0, 0, 0x61] = ws_wire True 1 (Some 1) [0x60]" by code_simp
  then have "bb_content (ws_buffer ?f) = ws_wire True 1 (Some 1) [0x60]" by (simp del: ws_wire.simps)
  ultimately show ?thesis using ws_parse_again [of ?f True 1 1 "[0x60]"] by auto
qed

end
