(* ===== verification/MdHash.thy ===== *)
theory MdHash
  imports Bytes
begin

text \<open>
  What the three digests of \<open>src/src/crypt\<close> share: the cut of a message into 64-byte blocks, the padding of Merkle and
  Damgard, words from bytes in both byte orders, the message schedule kept in a window of sixteen words, the hexadecimal
  text of a digest, and the interface of a streaming digest (locale \<open>md_stream\<close>).
\<close>

section \<open>Blocks\<close>

function chunks :: "nat \<Rightarrow> 'a list \<Rightarrow> 'a list list" where
  "chunks n xs = (if n = 0 \<or> length xs < n then [] else take n xs # chunks n (drop n xs))"
  by pat_completeness auto
termination by (relation "measure (\<lambda>(_, xs). length xs)") auto

declare chunks.simps [simp del]

lemma chunks_short [simp]: "length xs < n \<Longrightarrow> chunks n xs = []"
  by (simp add: chunks.simps)

lemma chunks_cons: "length x = n \<Longrightarrow> 0 < n \<Longrightarrow> chunks n (x @ ys) = x # chunks n ys"
  by (subst chunks.simps) auto

lemma chunks_append: "n dvd length xs \<Longrightarrow> 0 < n \<Longrightarrow> chunks n (xs @ ys) = chunks n xs @ chunks n ys"
proof (induction n xs rule: chunks.induct)
  case (1 n xs)
  show ?case
  proof (cases "length xs < n")
    case True
    with 1 have "xs = []" using dvd_imp_le by fastforce
    then show ?thesis using 1 by simp
  next
    case False
    have "n dvd length (drop n xs)" using 1 False by (simp add: dvd_diff_nat)
    then have "chunks n (drop n xs @ ys) = chunks n (drop n xs) @ chunks n ys" using 1 False by simp
    moreover have "chunks n (xs @ ys) = take n xs # chunks n (drop n xs @ ys)"
      using chunks_cons [of "take n xs" n "drop n xs @ ys"] False 1 by (metis append.assoc append_take_drop_id length_take min_absorb2 not_less)
    moreover have "chunks n xs = take n xs # chunks n (drop n xs)"
      using False 1 by (subst chunks.simps) simp
    ultimately show ?thesis by simp
  qed
qed

text \<open>After message \<open>m\<close> the chaining value is \<open>h\<close> and the bytes \<open>r\<close> wait for a full block.\<close>

definition md_split :: "('h \<Rightarrow> byte list \<Rightarrow> 'h) \<Rightarrow> 'h \<Rightarrow> byte list \<Rightarrow> 'h \<Rightarrow> byte list \<Rightarrow> bool" where
  "md_split f h0 m h r \<longleftrightarrow> (\<exists>a. m = a @ r \<and> 64 dvd length a \<and> length r < 64 \<and> h = foldl f h0 (chunks 64 a))"

lemma md_split_init: "md_split f h0 [] h0 []"
  by (simp add: md_split_def)

lemma md_split_part: "md_split f h0 m h r \<Longrightarrow> length r + length p < 64 \<Longrightarrow> md_split f h0 (m @ p) h (r @ p)"
  by (auto simp: md_split_def)

lemma md_split_full:
  assumes "md_split f h0 m h r" "length r + length p = 64"
  shows "md_split f h0 (m @ p) (f h (r @ p)) []"
proof -
  obtain a where a: "m = a @ r" "64 dvd length a" "h = foldl f h0 (chunks 64 a)"
    using assms(1) by (auto simp: md_split_def)
  have "chunks 64 (a @ r @ p) = chunks 64 a @ [r @ p]"
    using chunks_append [of 64 a "r @ p"] chunks_cons [of "r @ p" 64 "[]"] a(2) assms(2) by simp
  moreover have "64 dvd length (a @ r @ p)" using a(2) assms(2) by simp
  ultimately show ?thesis unfolding md_split_def using a by (intro exI [of _ "a @ r @ p"]) simp
qed

lemma md_split_length: "md_split f h0 m h r \<Longrightarrow> length m mod 64 = length r"
  by (auto simp: md_split_def mod_eq_0_iff_dvd elim!: dvdE)

lemma md_split_result: "md_split f h0 m h [] \<Longrightarrow> foldl f h0 (chunks 64 m) = h"
  by (auto simp: md_split_def)

section \<open>Padding\<close>

text \<open>The byte 0x80, zeros up to 56 modulo 64, and the number of bits in eight bytes, written by \<open>enc\<close>.\<close>

definition md_zeros :: "nat \<Rightarrow> nat" where
  "md_zeros n = (if n mod 64 < 56 then 55 - n mod 64 else 119 - n mod 64)"

definition md_pad :: "(nat \<Rightarrow> byte list) \<Rightarrow> byte list \<Rightarrow> byte list" where
  "md_pad enc xs = (xs @ 0x80 # replicate (md_zeros (length xs)) 0) @ enc (8 * length xs)"

lemma md_zeros_pad: "(n + Suc (md_zeros n)) mod 64 = 56"
proof -
  define q r where "q = n div 64" and "r = n mod 64"
  have n: "n = 64 * q + r" "r < 64" by (simp_all add: q_def r_def)
  have "n + Suc (md_zeros n) = 64 * q + (r + Suc (md_zeros n))" using n by simp
  also have "\<dots> mod 64 = (r + Suc (md_zeros n)) mod 64" by (rule mod_mult_self4)
  also have "\<dots> = 56" using n(2) by (auto simp: md_zeros_def r_def [symmetric])
  finally show ?thesis .
qed

section \<open>Words and bytes\<close>

definition bswap32 :: "u32 \<Rightarrow> u32" where
  "bswap32 x = of_le (rev (le_bytes x))"

definition be_words :: "byte list \<Rightarrow> u32 list" where
  "be_words b = map (\<lambda>i. of_nat (of_be 0 (take 4 (drop (4 * i) b)))) [0..<16]"

definition block_words :: "byte list \<Rightarrow> u32 list" where
  "block_words b = map (\<lambda>i. of_le (take 4 (drop (4 * i) b))) [0..<16]"

lemma list4: "length xs = 4 \<Longrightarrow> \<exists>a b c d. xs = [a, b, c, d]"
  by (auto simp: length_Suc_conv eval_nat_numeral)

lemma of_le_of_be: "length bs = 4 \<Longrightarrow> of_le bs = of_nat (of_be 0 (rev bs))"
proof -
  assume "length bs = 4"
  then obtain a b c d where bs: "bs = [a, b, c, d]" using list4 by blast
  have *: "of_le [a, b, c, d] = ucast a + (push_bit 8 (ucast b) + (push_bit 16 (ucast c) + push_bit 24 (ucast d)))"
    unfolding of_le_def
    by (subst disjunctive_add_eq_or, rule bit_word_eqI, auto simp: bit_simps byte_bit_high)+ 
  show ?thesis unfolding bs *
    by (simp add: push_bit_eq_mult algebra_simps)
qed

lemma rotl32: "0 < c \<Longrightarrow> c < 32 \<Longrightarrow> push_bit c x OR drop_bit (32 - c) x = word_rotl c (x :: u32)"
proof (rule bit_word_eqI)
  fix i assume a: "0 < c" "c < 32" "i < LENGTH(32)"
  have rot: "bit (word_rotl c x) i = bit x ((i + (32 - c)) mod 32)" using a by (simp add: bit_word_rotl_iff)
  have shift: "bit (push_bit c x OR drop_bit (32 - c) x) i = (c \<le> i \<and> bit x (i - c) \<or> bit x (32 - c + i))"
    using a by (simp add: bit_simps)
  show "bit (push_bit c x OR drop_bit (32 - c) x) i = bit (word_rotl c x) i"
  proof (cases "i < c")
    case True
    then have "(i + (32 - c)) mod 32 = 32 - c + i" using a by simp
    then show ?thesis using True unfolding rot shift by simp
  next
    case False
    then have "(i + (32 - c)) mod 32 = i - c" using a by (simp add: mod_if)
    moreover have "\<not> bit x (32 - c + i)" using False a by (auto dest: bit_imp_le_length)
    ultimately show ?thesis using False unfolding rot shift by simp
  qed
qed

lemma le_bytes_bswap: "le_bytes (bswap32 x) = rev (le_bytes x)"
  by (simp add: bswap32_def le_bytes_of_le)

lemma bswap_of_le: "length bs = 4 \<Longrightarrow> bswap32 (of_le bs) = of_nat (of_be 0 bs)"
  using of_le_of_be [of "rev bs"] by (simp add: bswap32_def le_bytes_of_le)

lemma rev_le_bytes: "rev (le_bytes x) = be_bytes 4 (unat x)"
proof -
  have part: "ucast (drop_bit k x) = (of_nat (unat x div 2 ^ k) :: byte)" for k
  proof -
    have "unat (drop_bit k x) = unat x div 2 ^ k" unfolding unat_drop_bit_eq by (rule drop_bit_eq_div)
    moreover have "ucast (drop_bit k x) = (of_nat (unat (drop_bit k x)) :: byte)" by (simp only: of_nat_unat)
    ultimately show ?thesis by (simp only:)
  qed
  have low: "ucast x = (of_nat (unat x) :: byte)" by (simp only: of_nat_unat)
  have be: "be_bytes 4 n = [of_nat (n div 256 div 256 div 256), of_nat (n div 256 div 256), of_nat (n div 256), of_nat n]" for n
  proof -
    have "be_bytes (Suc (Suc (Suc (Suc 0)))) n = [of_nat (n div 256 div 256 div 256), of_nat (n div 256 div 256), of_nat (n div 256), of_nat n]"
      by (simp only: be_bytes.simps append.simps)
    moreover have "Suc (Suc (Suc (Suc 0))) = 4" by simp
    ultimately show ?thesis by (simp only:)
  qed
  show ?thesis unfolding le_bytes_def be part low by (simp add: div_mult2_eq [symmetric])
qed

lemma of_le_le_bytes [simp]: "of_le (le_bytes w) = w"
proof -
  have "unat w < 256 ^ 4" using unsigned_less [of w] by simp
  then have "of_be 0 (rev (le_bytes w)) = unat w" by (simp add: rev_le_bytes of_be_bytes del: power_numeral)
  then show ?thesis using of_le_of_be [of "le_bytes w"] by simp
qed

lemma bswap32_twice [simp]: "bswap32 (bswap32 w) = w"
  by (simp add: bswap32_def le_bytes_of_le)

lemma be_bytes_add: "be_bytes (j + k) n = be_bytes j (n div 256 ^ k) @ be_bytes k n"
  by (induction k arbitrary: n) (simp_all add: div_mult2_eq)

lemma be_bytes_mod: "be_bytes k (n mod 256 ^ k) = be_bytes k n"
proof (induction k arbitrary: n)
  case (Suc k)
  have "(n mod 256 ^ Suc k) div 256 = n div 256 mod 256 ^ k"
    by (simp add: mod_mult2_eq)
  moreover have "(of_nat (n mod 256 ^ Suc k) :: byte) = of_nat n"
    by (simp add: word_of_nat_eq_iff take_bit_eq_mod mod_mod_cancel)
  ultimately show ?case using Suc by simp
qed simp

lemma be_words_swap: "length b = 64 \<Longrightarrow> map bswap32 (block_words b) = be_words b"
  by (simp add: block_words_def be_words_def bswap_of_le)

lemma block_words_length [simp]: "length (block_words b) = 16"
  by (simp add: block_words_def)

lemma be_words_length [simp]: "length (be_words b) = 16"
  by (simp add: be_words_def)

section \<open>The schedule in a window of sixteen words\<close>

definition window :: "(nat \<Rightarrow> 'a) \<Rightarrow> nat \<Rightarrow> 'a list \<Rightarrow> bool" where
  "window W i w \<longleftrightarrow> length w = 16 \<and> (\<forall>t. t < max i 16 \<and> max i 16 \<le> t + 16 \<longrightarrow> w ! (t mod 16) = W t)"

lemma window_init: "length w = 16 \<Longrightarrow> (\<And>t. t < 16 \<Longrightarrow> w ! t = W t) \<Longrightarrow> window W 0 w"
  by (simp add: window_def)

lemma window_low: "window W i w \<Longrightarrow> i < 16 \<Longrightarrow> window W (Suc i) w \<and> w ! (i mod 16) = W i"
  by (auto simp: window_def max_def)

lemma window_back: "window W i w \<Longrightarrow> 16 \<le> i \<Longrightarrow> 0 < d \<Longrightarrow> d \<le> 16 \<Longrightarrow> w ! ((i + (16 - d)) mod 16) = W (i - d)"
proof -
  assume a: "window W i w" "16 \<le> i" "0 < d" "d \<le> 16"
  then have "(i + (16 - d)) mod 16 = (i - d + 16) mod 16" by simp
  moreover have "w ! ((i - d) mod 16) = W (i - d)" using a by (auto simp: window_def)
  ultimately show ?thesis by simp
qed

lemma window_step: "window W i w \<Longrightarrow> 16 \<le> i \<Longrightarrow> window W (Suc i) (w[i mod 16 := W i])"
proof -
  assume a: "window W i w" "16 \<le> i"
  have "w[i mod 16 := W i] ! (t mod 16) = W t" if t: "t < Suc i" "Suc i \<le> t + 16" for t
  proof (cases "t = i")
    case False
    have "t mod 16 \<noteq> i mod 16"
    proof
      assume "t mod 16 = i mod 16"
      then have "(i - t) mod 16 = 0" using t by (metis mod_eq_dvd_iff_nat less_Suc_eq_le dvd_imp_mod_0)
      then show False using t False by auto
    qed
    then show ?thesis using a t False by (auto simp: window_def)
  qed (use a in \<open>simp add: window_def\<close>)
  then show ?thesis using a by (simp add: window_def)
qed

section \<open>Hexadecimal text\<close>

text \<open>The two lower-case hexadecimal digits of a byte, as \<open>%02x\<close> prints them.\<close>

definition hex_digit :: "nat \<Rightarrow> byte" where
  "hex_digit n = of_nat (if n < 10 then 48 + n else 87 + n)"

definition hex2 :: "byte \<Rightarrow> byte list" where
  "hex2 b = [hex_digit (unat b div 16), hex_digit (unat b mod 16)]"

section \<open>The interface of a streaming digest\<close>

text \<open>Feeding the pieces one after the other and finishing.\<close>

fun md_run :: "('s \<Rightarrow> byte list \<Rightarrow> 's option) \<Rightarrow> ('s \<Rightarrow> ('s \<times> byte list) option) \<Rightarrow> 's \<Rightarrow> byte list list \<Rightarrow> byte list option" where
  "md_run update final s [] = map_option snd (final s)"
| "md_run update final s (d # ds) = do { s' \<leftarrow> update s d; md_run update final s' ds }"

text \<open>\<open>absorbed s m\<close> says that \<open>s\<close> stands for the message \<open>m\<close>; \<open>fits d\<close> bounds a piece.\<close>

locale md_stream =
  fixes absorbed :: "'s \<Rightarrow> byte list \<Rightarrow> bool" and fits :: "byte list \<Rightarrow> bool" and start :: 's
    and update :: "'s \<Rightarrow> byte list \<Rightarrow> 's option" and final :: "'s \<Rightarrow> ('s \<times> byte list) option"
    and digest :: "byte list \<Rightarrow> byte list"
  assumes start_law: "absorbed start []"
    and update_law: "absorbed s m \<Longrightarrow> fits d \<Longrightarrow> \<exists>s'. update s d = Some s' \<and> absorbed s' (m @ d)"
    and final_law: "absorbed s m \<Longrightarrow> \<exists>s'. final s = Some (s', digest m)"
begin

lemma run_law: "absorbed s m \<Longrightarrow> (\<forall>d\<in>set ds. fits d) \<Longrightarrow> md_run update final s ds = Some (digest (m @ concat ds))"
proof (induction ds arbitrary: s m)
  case Nil
  then show ?case using final_law by fastforce
next
  case (Cons d ds)
  then obtain s' where "update s d = Some s'" "absorbed s' (m @ d)" using update_law by (meson list.set_intros(1))
  with Cons show ?case by simp
qed

lemma pieces: "(\<forall>d\<in>set ds. fits d) \<Longrightarrow> md_run update final start ds = Some (digest (concat ds))"
  using run_law [OF start_law] by simp

end

end
