(* ===== verification/Sha256.thy ===== *)
theory Sha256
  imports MdHash
begin

text \<open>
  SHA-256, \<open>src/src/crypt/sha256.c\<close>. The unions of the structure are modelled by their bytes (\<open>block\<close>) and words
  (\<open>hBytes\<close>) on a little-endian host: \<open>htobe32\<close> and \<open>be32toh\<close> swap bytes, and a word stored in the union is its
  \<open>le_bytes\<close>. The message schedule runs in place in the sixteen words of the block.

  The reference (\<open>sha256_spec\<close>) is FIPS 180-4: padding, the 64-word schedule by its recursion, and the compression of
  each 64-byte block. The streaming code is proved to compute it for every cut of the message into pieces.
\<close>

section \<open>The code\<close>

record xsha256 =
  s2_hBytes :: "u32 list"
  s2_block :: "byte list"
  s2_nTotalSize :: nat
  s2_nSize :: nat

definition XSHA_ROR32 :: "u32 \<Rightarrow> nat \<Rightarrow> u32" where
  "XSHA_ROR32 x n = drop_bit n x OR push_bit (32 - n) x"

definition XSHA_CH :: "u32 \<Rightarrow> u32 \<Rightarrow> u32 \<Rightarrow> u32" where
  "XSHA_CH x y z = (x AND y) OR (NOT x AND z)"

definition XSHA_MAJ :: "u32 \<Rightarrow> u32 \<Rightarrow> u32 \<Rightarrow> u32" where
  "XSHA_MAJ x y z = (x AND y) OR (x AND z) OR (y AND z)"

definition XSHA_SIGMA1 :: "u32 \<Rightarrow> u32" where
  "XSHA_SIGMA1 x = XSHA_ROR32 x 2 XOR XSHA_ROR32 x 13 XOR XSHA_ROR32 x 22"

definition XSHA_SIGMA2 :: "u32 \<Rightarrow> u32" where
  "XSHA_SIGMA2 x = XSHA_ROR32 x 6 XOR XSHA_ROR32 x 11 XOR XSHA_ROR32 x 25"

definition XSHA_SIGMA3 :: "u32 \<Rightarrow> u32" where
  "XSHA_SIGMA3 x = XSHA_ROR32 x 7 XOR XSHA_ROR32 x 18 XOR drop_bit 3 x"

definition XSHA_SIGMA4 :: "u32 \<Rightarrow> u32" where
  "XSHA_SIGMA4 x = XSHA_ROR32 x 17 XOR XSHA_ROR32 x 19 XOR drop_bit 10 x"

definition XSHA256P :: "byte list" where
  "XSHA256P = 0x80 # replicate 63 0x00"

definition XSHA256K :: "u32 list" where
  "XSHA256K =
     [0x428A2F98, 0x71374491, 0xB5C0FBCF, 0xE9B5DBA5, 0x3956C25B, 0x59F111F1, 0x923F82A4, 0xAB1C5ED5,
      0xD807AA98, 0x12835B01, 0x243185BE, 0x550C7DC3, 0x72BE5D74, 0x80DEB1FE, 0x9BDC06A7, 0xC19BF174,
      0xE49B69C1, 0xEFBE4786, 0x0FC19DC6, 0x240CA1CC, 0x2DE92C6F, 0x4A7484AA, 0x5CB0A9DC, 0x76F988DA,
      0x983E5152, 0xA831C66D, 0xB00327C8, 0xBF597FC7, 0xC6E00BF3, 0xD5A79147, 0x06CA6351, 0x14292967,
      0x27B70A85, 0x2E1B2138, 0x4D2C6DFC, 0x53380D13, 0x650A7354, 0x766A0ABB, 0x81C2C92E, 0x92722C85,
      0xA2BFE8A1, 0xA81A664B, 0xC24B8B70, 0xC76C51A3, 0xD192E819, 0xD6990624, 0xF40E3585, 0x106AA070,
      0x19A4C116, 0x1E376C08, 0x2748774C, 0x34B0BCB5, 0x391C0CB3, 0x4ED8AA4A, 0x5B9CCA4F, 0x682E6FF3,
      0x748F82EE, 0x78A5636F, 0x84C87814, 0x8CC70208, 0x90BEFFFA, 0xA4506CEB, 0xBEF9A3F7, 0xC67178F2]"

definition sha_H0 :: "u32 list" where
  "sha_H0 = [0x6A09E667, 0xBB67AE85, 0x3C6EF372, 0xA54FF53A, 0x510E527F, 0x9B05688C, 0x1F83D9AB, 0x5BE0CD19]"

definition XSHA256_Init :: xsha256 where
  "XSHA256_Init = \<lparr>s2_hBytes = sha_H0, s2_block = replicate 64 0, s2_nTotalSize = 0, s2_nSize = 0\<rparr>"

text \<open>The working registers after a round with schedule word \<open>x\<close> and constant \<open>k\<close>.\<close>

definition sha_step :: "u32 \<Rightarrow> u32 \<Rightarrow> u32 list \<Rightarrow> u32 list" where
  "sha_step k x r =
     (let t1 = r ! 7 + XSHA_SIGMA2 (r ! 4) + XSHA_CH (r ! 4) (r ! 5) (r ! 6) + k + x;
          t2 = XSHA_SIGMA1 (r ! 0) + XSHA_MAJ (r ! 0) (r ! 1) (r ! 2)
      in [t1 + t2, r ! 0, r ! 1, r ! 2, r ! 3 + t1, r ! 4, r ! 5, r ! 6])"

text \<open>Round \<open>i\<close> of \<open>XSHA256_ProcessBlock\<close>, on the sixteen words \<open>w\<close> and the registers \<open>r\<close>.\<close>

definition sha_round :: "nat \<Rightarrow> u32 list \<times> u32 list \<Rightarrow> u32 list \<times> u32 list" where
  "sha_round i = (\<lambda>(w, r).
     let w = (if 16 \<le> i
              then w[i mod 16 := w ! (i mod 16) + (XSHA_SIGMA4 (w ! ((i + 14) mod 16)) + w ! ((i + 9) mod 16) +
                                                   XSHA_SIGMA3 (w ! ((i + 1) mod 16)))]
              else w)
     in (w, sha_step (XSHA256K ! i) (w ! (i mod 16)) r))"

definition XSHA256_ProcessBlock :: "xsha256 \<Rightarrow> xsha256" where
  "XSHA256_ProcessBlock s =
     (let (w, r) = fold sha_round [0..<64] (map bswap32 (block_words (s2_block s)), s2_hBytes s)
      in s\<lparr>s2_hBytes := map2 (+) (s2_hBytes s) r, s2_block := concat (map le_bytes w)\<rparr>)"

partial_function (option) XSHA256_Update :: "xsha256 \<Rightarrow> byte list \<Rightarrow> xsha256 option" where
  "XSHA256_Update s data =
     (if data = [] then Some s
      else let nPart = min (length data) (sz (64 + 2 ^ 64 - s2_nSize s)) in do {
        b \<leftarrow> memcpy (s2_block s) (s2_nSize s) (take nPart data);
        let s = s\<lparr>s2_block := b, s2_nTotalSize := sz (s2_nTotalSize s + nPart), s2_nSize := sz (s2_nSize s + nPart)\<rparr>;
        let s = (if s2_nSize s = 64 then (XSHA256_ProcessBlock s)\<lparr>s2_nSize := 0\<rparr> else s);
        XSHA256_Update s (drop nPart data) })"

declare XSHA256_Update.simps [code]

text \<open>The state and the digest bytes after finishing; \<open>wBytes[14]\<close> and \<open>wBytes[15]\<close> are the last eight bytes.\<close>

definition XSHA256_Final :: "xsha256 \<Rightarrow> (xsha256 \<times> byte list) option" where
  "XSHA256_Final s =
     (let nPaddingSize = (if s2_nSize s < 56 then 56 - s2_nSize s else sz (120 + 2 ^ 64 - s2_nSize s));
          nTotalBits = of_nat (s2_nTotalSize s) * 8 :: u64
      in do {
        pad \<leftarrow> mread XSHA256P 0 nPaddingSize;
        s \<leftarrow> XSHA256_Update s pad;
        b \<leftarrow> memcpy (s2_block s) 56 (le_bytes (bswap32 (ucast (drop_bit 32 nTotalBits))));
        b \<leftarrow> memcpy b 60 (le_bytes (bswap32 (ucast nTotalBits)));
        let s = XSHA256_ProcessBlock (s\<lparr>s2_block := b\<rparr>);
        let s = s\<lparr>s2_hBytes := map bswap32 (s2_hBytes s)\<rparr>;
        Some (s, concat (map le_bytes (s2_hBytes s))) })"

text \<open>The state is as before: the words are swapped, copied out and swapped back.\<close>

definition XSHA256_FinalRaw :: "xsha256 \<Rightarrow> xsha256 \<times> byte list" where
  "XSHA256_FinalRaw s =
     (let h = map bswap32 (s2_hBytes s) in (s\<lparr>s2_hBytes := map bswap32 h\<rparr>, concat (map le_bytes h)))"

text \<open>\<open>nSize\<close> is the capacity of the output; the digest is written to its first bytes.\<close>

definition XSHA256_Compute :: "nat \<Rightarrow> byte list \<Rightarrow> (int \<times> byte list) option" where
  "XSHA256_Compute nSize data =
     (if nSize < 32 then Some (XSTDERR, [])
      else do {
        s \<leftarrow> XSHA256_Update XSHA256_Init data;
        (_, digest) \<leftarrow> XSHA256_Final s;
        Some (XSTDOK, digest) })"

definition XSHA256_ComputeSum :: "nat \<Rightarrow> byte list \<Rightarrow> (int \<times> byte list) option" where
  "XSHA256_ComputeSum nSize data =
     (if nSize < 65 then Some (XSTDERR, [])
      else do {
        (_, digest) \<leftarrow> XSHA256_Compute nSize data;
        Some (XSTDOK, concat (map hex2 digest) @ [0]) })"

definition XSHA256_Sum :: "bool \<Rightarrow> byte list \<Rightarrow> byte list option option" where
  "XSHA256_Sum ok data = (if \<not> ok then Some None else do { (_, h) \<leftarrow> XSHA256_ComputeSum 65 data; Some (Some h) })"

definition XSHA256_Encrypt :: "bool \<Rightarrow> byte list \<Rightarrow> byte list option option" where
  "XSHA256_Encrypt ok data =
     (if \<not> ok then Some None else do { (_, h) \<leftarrow> XSHA256_Compute 33 data; Some (Some (h @ [0])) })"

section \<open>The reference\<close>

text \<open>FIPS 180-4: the functions of section 4.1.2 with the library's rotation, the schedule of 6.2.2 by its recursion.\<close>

definition fips_ch :: "u32 \<Rightarrow> u32 \<Rightarrow> u32 \<Rightarrow> u32" where
  "fips_ch x y z = (x AND y) XOR (NOT x AND z)"

definition fips_maj :: "u32 \<Rightarrow> u32 \<Rightarrow> u32 \<Rightarrow> u32" where
  "fips_maj x y z = (x AND y) XOR (x AND z) XOR (y AND z)"

definition fips_rot :: "nat \<Rightarrow> nat \<Rightarrow> nat \<Rightarrow> u32 \<Rightarrow> u32" where
  "fips_rot i j k x = word_rotr i x XOR word_rotr j x XOR word_rotr k x"

definition fips_mix :: "nat \<Rightarrow> nat \<Rightarrow> nat \<Rightarrow> u32 \<Rightarrow> u32" where
  "fips_mix i j k x = word_rotr i x XOR word_rotr j x XOR drop_bit k x"

fun sha_W :: "u32 list \<Rightarrow> nat \<Rightarrow> u32" where
  "sha_W m t =
     (if t < 16 then m ! t
      else fips_mix 17 19 10 (sha_W m (t - 2)) + sha_W m (t - 7) + fips_mix 7 18 3 (sha_W m (t - 15)) + sha_W m (t - 16))"

declare sha_W.simps [simp del]

fun fips_round :: "u32 \<Rightarrow> u32 list \<Rightarrow> u32 list" where
  "fips_round kw [a, b, c, d, e, f, g, h] =
     (let t1 = h + fips_rot 6 11 25 e + fips_ch e f g + kw; t2 = fips_rot 2 13 22 a + fips_maj a b c
      in [t1 + t2, a, b, c, d + t1, e, f, g])"
| "fips_round kw r = r"

definition sha_compress :: "u32 list \<Rightarrow> byte list \<Rightarrow> u32 list" where
  "sha_compress h b = map2 (+) h (fold (\<lambda>t. fips_round (XSHA256K ! t + sha_W (be_words b) t)) [0..<64] h)"

definition sha256_spec :: "byte list \<Rightarrow> byte list" where
  "sha256_spec xs =
     concat (map (\<lambda>w. be_bytes 4 (unat w)) (foldl sha_compress sha_H0 (chunks 64 (md_pad (be_bytes 8) xs))))"

text \<open>
  Section 4.2.2: the constants are the first 32 bits of the fractional parts of the cube roots of the first 64 primes, the
  initial values those of the square roots of the first 8.
\<close>

definition primes :: "int list" where
  "primes = filter (\<lambda>n. \<forall>d\<in>set [2..17]. d dvd n \<longrightarrow> d = n) [2..311]"

definition root_frac :: "nat \<Rightarrow> int \<Rightarrow> u32 \<Rightarrow> bool" where
  "root_frac r p k \<longleftrightarrow>
     (let c = sum_list (map (\<lambda>c. of_bool (c ^ r \<le> p)) [1..6]); u = c * 0x100000000 + uint k
      in u ^ r \<le> p * 0x100000000 ^ r \<and> p * 0x100000000 ^ r < (u + 1) ^ r)"

section \<open>Constants and functions\<close>

lemma ror32: "0 < n \<Longrightarrow> n < 32 \<Longrightarrow> XSHA_ROR32 x n = word_rotr n x"
proof (rule bit_word_eqI)
  fix i assume a: "0 < n" "n < 32" "i < LENGTH(32)"
  show "bit (XSHA_ROR32 x n) i = bit (word_rotr n x) i"
  proof (cases "i + n < 32")
    case True
    then have "\<not> 32 - n \<le> i" by simp
    then show ?thesis using a True by (simp add: XSHA_ROR32_def bit_simps bit_word_rotr_iff add.commute)
  next
    case False
    then have "(i + n) mod 32 = i + n - 32" using a by (simp add: mod_if)
    moreover have "\<not> bit x (n + i)" using False by (auto dest: bit_imp_le_length)
    moreover have "32 - n \<le> i" using False by simp
    ultimately show ?thesis using a False by (simp add: XSHA_ROR32_def bit_simps bit_word_rotr_iff)
  qed
qed

lemma sha_functions:
  "XSHA_CH x y z = fips_ch x y z" "XSHA_MAJ x y z = fips_maj x y z"
  "XSHA_SIGMA1 x = fips_rot 2 13 22 x" "XSHA_SIGMA2 x = fips_rot 6 11 25 x"
  "XSHA_SIGMA3 x = fips_mix 7 18 3 x" "XSHA_SIGMA4 x = fips_mix 17 19 10 x"
  by (auto simp: XSHA_CH_def fips_ch_def XSHA_MAJ_def fips_maj_def bit_simps intro!: bit_word_eqI)
    (simp_all add: XSHA_SIGMA1_def XSHA_SIGMA2_def XSHA_SIGMA3_def XSHA_SIGMA4_def fips_rot_def fips_mix_def ror32)

lemma list8: "length xs = 8 \<Longrightarrow> \<exists>a b c d e f g h. xs = [a, b, c, d, e, f, g, h]"
  by (auto simp: length_Suc_conv eval_nat_numeral)

lemma sha_step: "length r = 8 \<Longrightarrow> sha_step k x r = fips_round (k + x) r \<and> length (sha_step k x r) = 8"
  by (drule list8) (auto simp: sha_step_def sha_functions add.assoc)

section \<open>The block function\<close>

lemma sha_W_rec:
  "16 \<le> t \<Longrightarrow> sha_W m t = fips_mix 17 19 10 (sha_W m (t - 2)) + sha_W m (t - 7) + fips_mix 7 18 3 (sha_W m (t - 15)) + sha_W m (t - 16)"
  by (subst sha_W.simps) simp

lemma sha_round:
  assumes "window (sha_W m) i w" "length r = 8"
  shows "\<exists>w'. sha_round i (w, r) = (w', fips_round (XSHA256K ! i + sha_W m i) r) \<and> window (sha_W m) (Suc i) w'"
proof (cases "16 \<le> i")
  case True
  note bk = window_back [OF assms(1) True]
  have "w ! (i mod 16) + (XSHA_SIGMA4 (w ! ((i + 14) mod 16)) + w ! ((i + 9) mod 16) + XSHA_SIGMA3 (w ! ((i + 1) mod 16))) = sha_W m i"
    using bk [of 2] bk [of 7] bk [of 15] bk [of 16] sha_W_rec [OF True, of m]
    by (simp add: sha_functions add_ac)
  moreover have "length w = 16" using assms(1) by (simp add: window_def)
  ultimately show ?thesis
    using True window_step [OF assms(1) True] assms(2) by (simp add: sha_round_def sha_step)
next
  case False
  then show ?thesis using window_low [OF assms(1)] assms(2) by (simp add: sha_round_def sha_step)
qed

lemma fips_round_length: "length r = 8 \<Longrightarrow> length (fips_round kw r) = 8"
  by (drule list8) (auto simp: Let_def)

lemma sha_rounds:
  assumes "window (sha_W m) 0 w" "length r = 8"
  shows "\<exists>w'. fold sha_round [0..<n] (w, r) = (w', fold (\<lambda>t. fips_round (XSHA256K ! t + sha_W m t)) [0..<n] r) \<and>
    window (sha_W m) n w' \<and> length (fold (\<lambda>t. fips_round (XSHA256K ! t + sha_W m t)) [0..<n] r) = 8"
proof (induction n)
  case (Suc n)
  then show ?case using sha_round [of m n] fips_round_length by fastforce
qed (use assms in simp)

lemma length_concat_le: "length (concat (map le_bytes w)) = 4 * length w"
  by (induction w) auto

lemma process_block:
  assumes "length (s2_hBytes s) = 8" "length (s2_block s) = 64"
  shows "\<exists>b. XSHA256_ProcessBlock s = s\<lparr>s2_hBytes := sha_compress (s2_hBytes s) (s2_block s), s2_block := b\<rparr> \<and> length b = 64 \<and>
    length (sha_compress (s2_hBytes s) (s2_block s)) = 8"
proof -
  have "window (sha_W (be_words (s2_block s))) 0 (be_words (s2_block s))"
    by (rule window_init) (simp_all add: sha_W.simps)
  from sha_rounds [OF this assms(1), of 64] show ?thesis
    using assms by (auto simp: XSHA256_ProcessBlock_def be_words_swap sha_compress_def length_concat_le window_def)
qed

section \<open>Streaming\<close>

definition sha_pending :: "xsha256 \<Rightarrow> byte list \<Rightarrow> byte list \<Rightarrow> bool" where
  "sha_pending s m r \<longleftrightarrow>
     md_split sha_compress sha_H0 m (s2_hBytes s) r \<and> length (s2_hBytes s) = 8 \<and> length (s2_block s) = 64 \<and>
     take (length r) (s2_block s) = r \<and> s2_nSize s = length r \<and> s2_nTotalSize s = sz (length m)"

lemma sha_pending_init: "sha_pending XSHA256_Init [] []"
  by (simp add: sha_pending_def XSHA256_Init_def md_split_init sha_H0_def)

lemma sz_add: "sz (sz m + n) = sz (m + n)"
  by (simp add: sz_def mod_add_left_eq)

text \<open>One turn of the loop: \<open>p\<close> goes to the block, which is processed when full.\<close>

definition sha_turn :: "xsha256 \<Rightarrow> byte list \<Rightarrow> xsha256 option" where
  "sha_turn s p = do {
     b \<leftarrow> memcpy (s2_block s) (s2_nSize s) p;
     let s = s\<lparr>s2_block := b, s2_nTotalSize := sz (s2_nTotalSize s + length p), s2_nSize := sz (s2_nSize s + length p)\<rparr>;
     Some (if s2_nSize s = 64 then (XSHA256_ProcessBlock s)\<lparr>s2_nSize := 0\<rparr> else s) }"

lemma sha_part:
  assumes "sha_pending s m r" "length r + length p \<le> 64"
  shows "\<exists>s' r'. sha_turn s p = Some s' \<and> sha_pending s' (m @ p) r' \<and>
      length r' = (if length r + length p = 64 then 0 else length r + length p)"
proof -
  note st = assms(1) [unfolded sha_pending_def]
  define b where "b = take (length r) (s2_block s) @ p @ drop (length r + length p) (s2_block s)"
  define s1 where "s1 = s\<lparr>s2_block := b, s2_nTotalSize := sz (s2_nTotalSize s + length p), s2_nSize := length r + length p\<rparr>"
  have "sz (s2_nSize s + length p) = length r + length p" using st assms(2) by simp
  then have turn: "sha_turn s p = Some (if length r + length p = 64 then (XSHA256_ProcessBlock s1)\<lparr>s2_nSize := 0\<rparr> else s1)"
    using st assms(2) by (simp add: sha_turn_def memcpy_def b_def s1_def)
  have b: "length b = 64" "take (length r + length p) b = r @ p" using st assms(2) by (auto simp: b_def)
  have tot: "sz (s2_nTotalSize s + length p) = sz (length (m @ p))" using st by (simp add: sz_add)
  show ?thesis
  proof (cases "length r + length p = 64")
    case True
    then have "b = r @ p" using b by simp
    moreover obtain b' where "XSHA256_ProcessBlock s1 = s1\<lparr>s2_hBytes := sha_compress (s2_hBytes s) b, s2_block := b'\<rparr>" "length b' = 64"
      "length (sha_compress (s2_hBytes s) b) = 8"
      using process_block [of s1] st b(1) by (auto simp: s1_def)
    moreover note md_split_full [OF st [THEN conjunct1] True]
    ultimately have "sha_pending ((XSHA256_ProcessBlock s1)\<lparr>s2_nSize := 0\<rparr>) (m @ p) []"
      using tot st by (simp add: sha_pending_def s1_def)
    then show ?thesis using True turn by fastforce
  next
    case False
    then have "md_split sha_compress sha_H0 (m @ p) (s2_hBytes s) (r @ p)"
      using md_split_part [OF st [THEN conjunct1]] assms(2) by simp
    then have "sha_pending s1 (m @ p) (r @ p)" using tot st b by (simp add: sha_pending_def s1_def)
    then show ?thesis using False turn by fastforce
  qed
qed

lemma update_turn:
  assumes "d \<noteq> []" "s2_nSize s < 64"
  shows "XSHA256_Update s d =
    (let n = min (length d) (64 - s2_nSize s) in do { s' \<leftarrow> sha_turn s (take n d); XSHA256_Update s' (drop n d) })"
proof -
  have "sz (64 + 2 ^ 64 - s2_nSize s) = 64 - s2_nSize s" using assms sz_sub [of "s2_nSize s" 64] by simp
  then show ?thesis using assms(1)
    by (subst XSHA256_Update.simps) (cases "memcpy (s2_block s) (s2_nSize s) (take (min (length d) (64 - s2_nSize s)) d)", auto simp: sha_turn_def Let_def)
qed

lemma sha_update:
  "sha_pending s m r \<Longrightarrow> \<exists>s' r'. XSHA256_Update s d = Some s' \<and> sha_pending s' (m @ d) r'"
proof (induction d arbitrary: s m r rule: length_induct)
  case (1 d)
  show ?case
  proof (cases "d = []")
    case True
    then show ?thesis using "1.prems" by (subst XSHA256_Update.simps) auto
  next
    case False
    define n where "n = min (length d) (64 - length r)"
    have r: "length r < 64" "s2_nSize s = length r" using "1.prems" by (auto simp: sha_pending_def md_split_def)
    obtain s' r' where s': "sha_turn s (take n d) = Some s'" "sha_pending s' (m @ take n d) r'"
      using sha_part [OF "1.prems", of "take n d"] r n_def by fastforce
    have "XSHA256_Update s d = XSHA256_Update s' (drop n d)"
      using update_turn [OF False] r s'(1) by (simp add: n_def)
    moreover have "length (drop n d) < length d" using False r by (simp add: n_def)
    ultimately show ?thesis using "1.IH" [rule_format, OF _ s'(2), of "drop n d"] by simp
  qed
qed

lemma md_pad_bytes:
  assumes "length m mod 64 = r"
  shows "mread XSHA256P 0 (if r < 56 then 56 - r else sz (120 + 2 ^ 64 - r)) = Some (0x80 # replicate (md_zeros (length m)) 0)"
    and "(length m + Suc (md_zeros (length m))) mod 64 = 56"
proof -
  have r: "r < 64" using assms by auto
  then have "sz (120 + 2 ^ 64 - r) = 120 - r" using sz_sub [of r 120] by simp
  then have "(if r < 56 then 56 - r else sz (120 + 2 ^ 64 - r)) = Suc (md_zeros (length m))"
    using assms r unfolding md_zeros_def by (simp only: assms) auto
  moreover have "md_zeros (length m) \<le> 63" using assms r by (auto simp: md_zeros_def)
  ultimately show "mread XSHA256P 0 (if r < 56 then 56 - r else sz (120 + 2 ^ 64 - r)) = Some (0x80 # replicate (md_zeros (length m)) 0)"
    by (simp add: mread_def XSHA256P_def min_def)
  show "(length m + Suc (md_zeros (length m))) mod 64 = 56" by (rule md_zeros_pad)
qed

lemma sha_constants:
  "list_all2 (root_frac 3) primes XSHA256K" "list_all2 (root_frac 2) (take 8 primes) sha_H0"
  by code_simp+

lemma sha_final:
  assumes "sha_pending s m r"
  shows "\<exists>s'. XSHA256_Final s = Some (s', sha256_spec m)"
proof -
  let ?pad = "0x80 # replicate (md_zeros (length m)) 0"
  note st = assms [unfolded sha_pending_def]
  have r: "length m mod 64 = length r" by (rule md_split_length [OF st [THEN conjunct1]])
  have nS: "s2_nSize s = length r" using st by simp
  note pad = md_pad_bytes [OF r, folded nS]
  obtain s1 r1 where s1: "XSHA256_Update s ?pad = Some s1" "sha_pending s1 (m @ ?pad) r1"
    using sha_update [OF assms, of ?pad] by blast
  note st1 = s1(2) [unfolded sha_pending_def]
  have r1: "length r1 = 56" using md_split_length [OF st1 [THEN conjunct1]] pad(2) by simp
  define T :: u64 where "T = of_nat (s2_nTotalSize s) * 8"
  have T: "unat T = (8 * length m) mod 2 ^ 64"
  proof -
    have "unat T = (8 * (length m mod 2 ^ 64)) mod 2 ^ 64"
      using st by (simp add: T_def sz_def unat_word_ariths unat_of_nat mult.commute)
    then show ?thesis by (simp only: mod_mult_right_eq)
  qed
  have hi: "le_bytes (bswap32 (ucast (drop_bit 32 T))) = be_bytes 4 (unat T div 256 ^ 4)"
  proof -
    have "unat T < 2 ^ 64" using unsigned_less [of T] by simp
    then have "unat T div 2 ^ 32 < 2 ^ 32" by (simp add: less_mult_imp_div_less)
    moreover have "unat (drop_bit 32 T) = unat T div 2 ^ 32" unfolding unat_drop_bit_eq by (rule drop_bit_eq_div)
    moreover have "unat (ucast (drop_bit 32 T) :: u32) = unat (drop_bit 32 T) mod 2 ^ 32"
      unfolding unsigned_ucast_eq by (simp add: take_bit_eq_mod)
    ultimately have "unat (ucast (drop_bit 32 T) :: u32) = unat T div 2 ^ 32" by simp
    then show ?thesis by (simp add: le_bytes_bswap rev_le_bytes)
  qed
  have lo: "le_bytes (bswap32 (ucast T)) = be_bytes 4 (unat T)"
    using be_bytes_mod [of 4 "unat T"]
    by (simp add: le_bytes_bswap rev_le_bytes unsigned_ucast_eq take_bit_eq_mod)
  have enc: "be_bytes 4 (unat T div 256 ^ 4) @ be_bytes 4 (unat T) = be_bytes 8 (8 * length m)"
    using be_bytes_add [of 4 4 "unat T"] be_bytes_mod [of 8 "8 * length m"] T by simp
  define b where "b = r1 @ be_bytes 8 (8 * length m)"
  have b: "length b = 64" using r1 by (simp add: b_def)
  have w14: "memcpy (s2_block s1) 56 (be_bytes 4 (unat T div 256 ^ 4)) =
      Some (r1 @ be_bytes 4 (unat T div 256 ^ 4) @ drop 60 (s2_block s1))"
    using st1 r1 by (simp add: memcpy_def)
  have w15: "memcpy (r1 @ be_bytes 4 (unat T div 256 ^ 4) @ drop 60 (s2_block s1)) 60 (be_bytes 4 (unat T)) = Some b"
    using st1 r1 enc by (simp add: memcpy_def b_def)
  obtain b' where pb: "XSHA256_ProcessBlock (s1\<lparr>s2_block := b\<rparr>) =
      s1\<lparr>s2_hBytes := sha_compress (s2_hBytes s1) b, s2_block := b'\<rparr>"
    using process_block [of "s1\<lparr>s2_block := b\<rparr>"] st1 b by auto
  have "foldl sha_compress sha_H0 (chunks 64 (md_pad (be_bytes 8) m)) = sha_compress (s2_hBytes s1) b"
    using md_split_result [OF md_split_full [OF st1 [THEN conjunct1], of "be_bytes 8 (8 * length m)"]] r1
    by (simp add: md_pad_def b_def)
  then have "sha256_spec m = concat (map le_bytes (map bswap32 (sha_compress (s2_hBytes s1) b)))"
    by (simp add: sha256_spec_def le_bytes_bswap rev_le_bytes comp_def)
  then show ?thesis
    using s1(1) w14 w15 pb
    by (simp add: XSHA256_Final_def Let_def T_def [symmetric] hi lo pad(1) split del: if_split)
qed

section \<open>Results\<close>

interpretation sha256: md_stream "\<lambda>s m. \<exists>r. sha_pending s m r" "\<lambda>_. True" XSHA256_Init XSHA256_Update XSHA256_Final sha256_spec
proof unfold_locales
  show "\<exists>r. sha_pending XSHA256_Init [] r" using sha_pending_init by blast
  fix s m d assume "\<exists>r. sha_pending s m r"
  then show "\<exists>s'. XSHA256_Update s d = Some s' \<and> (\<exists>r. sha_pending s' (m @ d) r)" using sha_update by blast
next
  fix s m assume "\<exists>r. sha_pending s m r"
  then show "\<exists>s'. XSHA256_Final s = Some (s', sha256_spec m)" using sha_final by blast
qed

lemma sha_compute: "XSHA256_Compute n d = Some (if n < 32 then (XSTDERR, []) else (XSTDOK, sha256_spec d))"
proof -
  obtain s r where s: "XSHA256_Update XSHA256_Init d = Some s" "sha_pending s d r"
    using sha_update [OF sha_pending_init, of d] by auto
  moreover obtain s' where "XSHA256_Final s = Some (s', sha256_spec d)" using sha_final [OF s(2)] by blast
  ultimately show ?thesis by (simp add: XSHA256_Compute_def)
qed

lemma sha256_spec_length: "length (sha256_spec d) = 32"
proof -
  obtain s r where s: "XSHA256_Update XSHA256_Init (md_pad (be_bytes 8) d) = Some s" "sha_pending s (md_pad (be_bytes 8) d) r"
    using sha_update [OF sha_pending_init, of "md_pad (be_bytes 8) d"] by auto
  then have *: "md_split sha_compress sha_H0 (md_pad (be_bytes 8) d) (s2_hBytes s) r" "length (s2_hBytes s) = 8"
    by (auto simp: sha_pending_def)
  have gen: "a mod 64 = 56 \<Longrightarrow> (a + 8) mod 64 = 0" for a :: nat by presburger
  have "length (md_pad (be_bytes 8) d) = length d + Suc (md_zeros (length d)) + 8" by (simp add: md_pad_def)
  then have "length (md_pad (be_bytes 8) d) mod 64 = (length d + Suc (md_zeros (length d)) + 8) mod 64" by (simp only:)
  also have "\<dots> = 0" by (rule gen) (rule md_pad_bytes(2) [OF refl])
  finally have "r = []" using md_split_length [OF *(1)] by simp
  then have "foldl sha_compress sha_H0 (chunks 64 (md_pad (be_bytes 8) d)) = s2_hBytes s"
    using md_split_result [OF *(1) [unfolded \<open>r = []\<close>]] by simp
  moreover have "length (concat (map (\<lambda>w. be_bytes 4 (unat w)) h)) = 4 * length h" for h :: "u32 list"
    by (induction h) auto
  ultimately show ?thesis using *(2) by (simp add: sha256_spec_def)
qed

text \<open>
  C29: however a message is cut into pieces, feeding them to \<open>XSHA256_Update\<close> from \<open>XSHA256_Init\<close> and finishing with
  \<open>XSHA256_Final\<close> stays in bounds, returns, and gives the SHA-256 digest of FIPS 180-4 of the whole message; the code's
  tables are the constants of the standard, the fractional parts of the roots of the first primes.
\<close>

theorem sha256_stream:
  "md_run XSHA256_Update XSHA256_Final XSHA256_Init ds = Some (sha256_spec (concat ds)) \<and>
   list_all2 (root_frac 3) primes XSHA256K \<and> list_all2 (root_frac 2) (take 8 primes) sha_H0"
  using sha256.pieces [of ds] sha_constants by blast

text \<open>
  \<open>XSHA256_Compute\<close> refuses an output of less than 32 bytes and otherwise gives the digest; \<open>XSHA256_ComputeSum\<close>
  refuses one of less than 65 and gives 64 lower-case hexadecimal digits and a NUL; \<open>XSHA256_Sum\<close> and \<open>XSHA256_Encrypt\<close>
  give the same in a fresh block, or NULL; \<open>XSHA256_FinalRaw\<close> gives the chaining value and leaves the state alone.
\<close>

theorem sha256_oneshot:
  "XSHA256_Compute n d = Some (if n < 32 then (XSTDERR, []) else (XSTDOK, sha256_spec d)) \<and>
   XSHA256_ComputeSum n d = Some (if n < 65 then (XSTDERR, []) else (XSTDOK, concat (map hex2 (sha256_spec d)) @ [0])) \<and>
   length (sha256_spec d) = 32 \<and>
   XSHA256_Sum ok d = Some (if ok then Some (concat (map hex2 (sha256_spec d)) @ [0]) else None) \<and>
   XSHA256_Encrypt ok d = Some (if ok then Some (sha256_spec d @ [0]) else None) \<and>
   XSHA256_FinalRaw s = (s, concat (map (\<lambda>w. be_bytes 4 (unat w)) (s2_hBytes s)))"
proof -
  have raw: "XSHA256_FinalRaw s = (s, concat (map (\<lambda>w. be_bytes 4 (unat w)) (s2_hBytes s)))"
    by (simp add: XSHA256_FinalRaw_def Let_def comp_def le_bytes_bswap rev_le_bytes)
  show ?thesis
    by (simp add: sha_compute XSHA256_ComputeSum_def XSHA256_Sum_def XSHA256_Encrypt_def sha256_spec_length raw)
qed

end
