(* ===== verification/Sine.thy ===== *)
theory Sine
  imports Complex_Main "HOL-Library.Word"
begin

text \<open>
  Sine at the whole numbers, to enough digits for the table of MD5 (\<open>src/src/crypt/md5.c\<close>): enclosures of \<open>sin 1\<close> and
  \<open>cos 1\<close> from Taylor's theorem, the next sine from the last two by the addition theorem in integers of 96 binary places, and
  the comparison of a list of integers with the integer parts of \<open>2 ^ 32 * \<bar>sin n\<bar>\<close>. No definition here models code.
\<close>

section \<open>Sine and cosine of one radian\<close>

text \<open>
  The Taylor polynomials of sine and cosine at 1, over a common denominator: \<open>taylor c n\<close> is \<open>n!\<close> times the sum of the
  \<open>c m / m!\<close> for \<open>m \<le> n\<close>.
\<close>

fun taylor :: "(nat \<Rightarrow> int) \<Rightarrow> nat \<Rightarrow> int" where
  "taylor c 0 = c 0"
| "taylor c (Suc n) = int (Suc n) * taylor c n + c (Suc n)"

lemma taylor: "(\<Sum>m<Suc n. of_int (c m) / fact m) = (of_int (taylor c n) / fact n :: real)"
proof (induction n)
  case (Suc n)
  have "(\<Sum>m<Suc (Suc n). of_int (c m) / fact m) = of_int (taylor c n) / fact n + (of_int (c (Suc n)) / fact (Suc n) :: real)"
    using Suc by simp
  also have "of_int (taylor c n) / fact n = (real (Suc n) * of_int (taylor c n) / fact (Suc n) :: real)" by (simp del: of_nat_Suc)
  also have "\<dots> + of_int (c (Suc n)) / fact (Suc n) = of_int (taylor c (Suc n)) / fact (Suc n)"
    by (simp add: add_divide_distrib del: of_nat_Suc)
  finally show ?case .
qed simp

definition sin_c :: "nat \<Rightarrow> int" where "sin_c m = (if even m then 0 else (- 1) ^ ((m - 1) div 2))"
definition cos_c :: "nat \<Rightarrow> int" where "cos_c m = (if even m then (- 1) ^ (m div 2) else 0)"

lemma taylor_numeral: "taylor c (numeral k) = numeral k * taylor c (pred_numeral k) + c (numeral k)"
  using taylor.simps(2) [of c "pred_numeral k"] by (simp only: numeral_eq_Suc [symmetric] of_nat_numeral)

text \<open>Fixed-point numbers: \<open>near e x s\<close> says that \<open>s\<close> is \<open>x\<close> in units of \<open>1 / fix_one\<close>, up to an error of \<open>e\<close> units.\<close>

definition fix_one :: int where "fix_one = 2 ^ 96"
definition fix_ulp :: int where "fix_ulp = 2 ^ 64"

lemma fix_one: "0 < fix_one" "fix_one = fix_ulp * 2 ^ 32" "0 < fix_ulp"
  by (simp_all add: fix_one_def fix_ulp_def)

definition near :: "int \<Rightarrow> real \<Rightarrow> int \<Rightarrow> bool" where
  "near e x s \<longleftrightarrow> \<bar>of_int fix_one * x - of_int s\<bar> \<le> of_int e"

lemma abs_mult_pos_le: "0 < a \<Longrightarrow> \<bar>a * x\<bar> \<le> a * b \<longleftrightarrow> \<bar>x\<bar> \<le> b" for a x b :: real
  by (simp add: abs_mult)

lemma near_taylor:
  assumes x: "\<bar>x - (\<Sum>m<30. of_int (c m) / fact m)\<bar> \<le> 1 / fact 30"
    and t: "\<bar>30 * taylor c 29 * fix_one - s * fact 30\<bar> + fix_one \<le> fact 30"
  shows "near 1 x s"
proof -
  define p F where "p = 30 * taylor c 29" and "F = (fact 30 :: int)"
  have F: "(0 :: real) < of_int F" "(fact 30 :: real) = of_int F" by (simp_all add: F_def)
  have f: "(fact 30 :: real) = 30 * fact 29" by (simp add: fact_numeral)
  have "(\<Sum>m<30. of_int (c m) / fact m) = (of_int p / of_int F :: real)" using taylor [of c 29] f by (simp add: p_def F(2) [symmetric])
  then have "\<bar>x - of_int p / of_int F\<bar> \<le> 1 / of_int F" using x by (simp add: F(2))
  moreover have "of_int F * (x - of_int p / of_int F) = of_int F * x - of_int p" using F(1) by (simp add: right_diff_distrib)
  ultimately have "\<bar>of_int F * x - of_int p\<bar> \<le> 1" using abs_mult_pos_le [OF F(1), of "x - of_int p / of_int F" "1 / of_int F"] F(1) by simp
  then have "\<bar>of_int fix_one * (of_int F * x - of_int p)\<bar> \<le> of_int fix_one * 1" using fix_one(1) by (subst abs_mult_pos_le) simp_all
  moreover have "of_int (\<bar>p * fix_one - s * F\<bar> + fix_one) \<le> (of_int F :: real)" using t unfolding p_def F_def of_int_le_iff .
  then have "\<bar>of_int p * of_int fix_one - of_int s * of_int F\<bar> + of_int fix_one \<le> (of_int F :: real)" by simp
  moreover have "of_int F * (of_int fix_one * x - of_int s) =
      of_int fix_one * (of_int F * x - of_int p) + (of_int p * of_int fix_one - of_int s * of_int F)" by (simp add: algebra_simps)
  ultimately have "\<bar>of_int F * (of_int fix_one * x - of_int s)\<bar> \<le> of_int F * 1" by linarith
  then show ?thesis unfolding abs_mult_pos_le [OF F(1)] by (simp add: near_def)
qed

definition sine1 :: int where "sine1 = 66668199935398081914718513417"
definition cosine1 :: int where "cosine1 = 42807158896152731596418870679"

lemma near_sine1: "near 1 (sin 1) sine1"
proof (rule near_taylor)
  have c: "sin_coeff m = of_int (sin_c m) / (fact m :: real)" for m by (simp add: sin_coeff_def sin_c_def)
  show "\<bar>sin 1 - (\<Sum>m<30. of_int (sin_c m) / fact m)\<bar> \<le> 1 / (fact 30 :: real)"
    using Maclaurin_sin_bound [of 1 30] by (simp add: c inverse_eq_divide)
  show "\<bar>30 * taylor sin_c 29 * fix_one - sine1 * fact 30\<bar> + fix_one \<le> fact 30"
    by (simp add: taylor_numeral sin_c_def sine1_def fix_one_def fact_numeral)
qed

lemma near_cosine1: "near 1 (cos 1) cosine1"
proof (rule near_taylor)
  have c: "cos_coeff m = of_int (cos_c m) / (fact m :: real)" for m by (simp add: cos_coeff_def cos_c_def)
  obtain t where "cos 1 = (\<Sum>m<30. cos_coeff m * 1 ^ m) + cos (t + 1 / 2 * real 30 * pi) / fact 30 * (1 :: real) ^ 30"
    using Maclaurin_cos_expansion [of 1 30] by blast
  then have "cos 1 - (\<Sum>m<30. of_int (cos_c m) / fact m) = cos (t + 1 / 2 * real 30 * pi) / fact 30" by (simp add: c)
  then show "\<bar>cos 1 - (\<Sum>m<30. of_int (cos_c m) / fact m)\<bar> \<le> 1 / (fact 30 :: real)"
    using divide_right_mono [OF abs_cos_le_one, of "fact 30"] by (simp add: abs_divide)
  show "\<bar>30 * taylor cos_c 29 * fix_one - cosine1 * fact 30\<bar> + fix_one \<le> fact 30"
    by (simp add: taylor_numeral cos_c_def cosine1_def fix_one_def fact_numeral)
qed

section \<open>From one sine to the next\<close>

text \<open>One more radian: \<open>sin (x + 1) = sin x * (2 * cos 1) - sin (x - 1)\<close>.\<close>

definition next_sine :: "int \<Rightarrow> int \<Rightarrow> int" where
  "next_sine r s = drop_bit 96 (s * (2 * cosine1)) - r"

definition next_error :: "int \<Rightarrow> int \<Rightarrow> int" where
  "next_error d e = d + 9 * e div 8 + 4"

lemma sin_next: "sin (x + 1) = sin x * (2 * cos 1) - sin (x - 1 :: real)"
  by (simp add: sin_add sin_diff)

lemma near_drop: "\<bar>of_int fix_one * (of_int fix_one * x) - of_int a\<bar> \<le> of_int fix_one * of_int e \<Longrightarrow> near (e + 1) x (drop_bit 96 a)"
proof -
  assume a: "\<bar>of_int fix_one * (of_int fix_one * x) - of_int a\<bar> \<le> of_int fix_one * of_int e"
  define S where "S = fix_one"
  have S: "(0 :: real) < of_int S" "0 < S" using fix_one(1) by (simp_all add: S_def)
  have "S * (a div S) \<le> a" "a \<le> S * (a div S) + S"
    using mult_div_mod_eq [of S a] pos_mod_bound [OF S(2), of a] pos_mod_sign [OF S(2), of a] by linarith+
  then have "(of_int (S * (a div S)) :: real) \<le> of_int a" "(of_int a :: real) \<le> of_int (S * (a div S) + S)"
    unfolding of_int_le_iff .
  then have b: "of_int S * of_int (a div S) \<le> (of_int a :: real)" "of_int a \<le> of_int S * of_int (a div S) + (of_int S :: real)"
    by simp_all
  have "of_int S * (of_int S * x - of_int (a div S)) = of_int S * (of_int S * x) - of_int S * of_int (a div S)"
    "(of_int S * (of_int e + 1) :: real) = of_int S * of_int e + of_int S" by (simp_all add: algebra_simps)
  then have "\<bar>of_int S * (of_int S * x - of_int (a div S))\<bar> \<le> of_int S * (of_int e + 1)"
    using a b unfolding S_def by linarith
  then show ?thesis unfolding abs_mult_pos_le [OF S(1)] by (simp add: near_def S_def drop_bit_eq_div fix_one_def)
qed

lemma near_product: "near e x s \<Longrightarrow> near 2 y r \<Longrightarrow> \<bar>x\<bar> \<le> 1 \<Longrightarrow> 8 * \<bar>r\<bar> \<le> 9 * fix_one \<Longrightarrow>
    \<bar>of_int fix_one * (of_int fix_one * (x * y)) - of_int (s * r)\<bar> \<le> of_int fix_one * of_int (9 * e div 8 + 3)"
proof -
  assume a: "near e x s" "near 2 y r" "\<bar>x\<bar> \<le> 1" "8 * \<bar>r\<bar> \<le> 9 * fix_one"
  define S :: real where "S = of_int fix_one"
  have S: "0 < S" using fix_one(1) by (simp add: S_def)
  have r: "\<bar>of_int r\<bar> \<le> S * (9 / 8)" using a(4) unfolding S_def by linarith
  have e: "0 \<le> (of_int e :: real)" using a(1) unfolding near_def by linarith
  have "S * (S * (x * y)) - of_int (s * r) = (S * x) * (S * y - of_int r) + (S * x - of_int s) * of_int r"
    by (simp add: algebra_simps)
  moreover have "\<bar>(S * x) * (S * y - of_int r)\<bar> \<le> S * 2"
  proof -
    have "\<bar>S * x\<bar> \<le> S" using a(3) S abs_mult_pos_le [OF S, of x 1] by simp
    moreover have "\<bar>S * y - of_int r\<bar> \<le> 2" using a(2) by (simp add: near_def S_def)
    ultimately show ?thesis unfolding abs_mult using S by (intro mult_mono) auto
  qed
  moreover have "\<bar>(S * x - of_int s) * of_int r\<bar> \<le> S * (of_int e * (9 / 8))"
  proof -
    have "\<bar>S * x - of_int s\<bar> \<le> of_int e" using a(1) by (simp add: near_def S_def)
    then have "\<bar>S * x - of_int s\<bar> * \<bar>of_int r\<bar> \<le> of_int e * (S * (9 / 8))" using r e by (intro mult_mono) auto
    then show ?thesis unfolding abs_mult by (simp add: mult_ac)
  qed
  ultimately have "\<bar>S * (S * (x * y)) - of_int (s * r)\<bar> \<le> S * 2 + S * (of_int e * (9 / 8))" by linarith
  also have "\<dots> = S * (2 + of_int e * (9 / 8))" by (simp add: algebra_simps)
  also have "\<dots> \<le> S * of_int (9 * e div 8 + 3)"
  proof (rule mult_left_mono)
    have "9 * e \<le> 8 * (9 * e div 8) + 8" by presburger
    then show "2 + of_int e * (9 / 8) \<le> (of_int (9 * e div 8 + 3) :: real)" by linarith
  qed (use S in simp)
  finally show ?thesis by (simp add: S_def)
qed

lemma near_next:
  assumes "near d (sin (x - 1)) r" "near e (sin x) s"
  shows "near (next_error d e) (sin (x + 1)) (next_sine r s)"
proof -
  have t: "near 2 (2 * cos 1) (2 * cosine1)" using near_cosine1 by (simp add: near_def)
  have b: "8 * \<bar>2 * cosine1\<bar> \<le> 9 * fix_one" by (simp add: cosine1_def fix_one_def)
  have "near (9 * e div 8 + 3 + 1) (sin x * (2 * cos 1)) (drop_bit 96 (s * (2 * cosine1)))"
    by (rule near_drop [OF near_product [OF assms(2) t abs_sin_le_one b]])
  then show ?thesis using assms(1)
    unfolding near_def sin_next next_sine_def next_error_def right_diff_distrib of_int_diff of_int_add by linarith
qed

text \<open>The integer parts of \<open>2 ^ 32 * \<bar>sin n\<bar>\<close>, checked against the enclosures.\<close>

fun sines :: "int \<Rightarrow> int \<Rightarrow> int \<Rightarrow> int \<Rightarrow> int list \<Rightarrow> bool" where
  "sines d e r s [] = True"
| "sines d e r s (t # ts) \<longleftrightarrow>
     fix_ulp * t \<le> \<bar>s\<bar> - e \<and> \<bar>s\<bar> + e < fix_ulp * (t + 1) \<and> sines e (next_error d e) s (next_sine r s) ts"

lemma sines_floor: "near e (sin x) s \<Longrightarrow> fix_ulp * t \<le> \<bar>s\<bar> - e \<Longrightarrow> \<bar>s\<bar> + e < fix_ulp * (t + 1) \<Longrightarrow>
    \<lfloor>2 ^ 32 * \<bar>sin x\<bar>\<rfloor> = t"
proof -
  assume a: "near e (sin x) s" "fix_ulp * t \<le> \<bar>s\<bar> - e" "\<bar>s\<bar> + e < fix_ulp * (t + 1)"
  define V :: real where "V = of_int fix_ulp"
  have V: "0 < V" "of_int fix_one = V * 2 ^ 32" using fix_one by (simp_all add: V_def)
  define y where "y = 2 ^ 32 * \<bar>sin x\<bar>"
  have "of_int (fix_ulp * t) \<le> (of_int (\<bar>s\<bar> - e) :: real)" "of_int (\<bar>s\<bar> + e) < (of_int (fix_ulp * (t + 1)) :: real)"
    using a(2,3) unfolding of_int_le_iff of_int_less_iff .
  then have b: "V * of_int t \<le> \<bar>of_int s\<bar> - (of_int e :: real)" "\<bar>of_int s\<bar> + of_int e < V * (of_int t + 1)"
    by (simp_all only: of_int_mult of_int_diff of_int_add of_int_abs of_int_1 V_def)
  have "\<bar>V * 2 ^ 32 * sin x\<bar> \<le> \<bar>of_int s\<bar> + of_int e" "\<bar>of_int s\<bar> \<le> \<bar>V * 2 ^ 32 * sin x\<bar> + of_int e"
    using a(1) unfolding near_def V(2) by linarith+
  moreover have "\<bar>V * 2 ^ 32 * sin x\<bar> = V * y" using V(1) by (simp add: y_def abs_mult)
  ultimately have "V * of_int t \<le> V * y" "V * y < V * (of_int t + 1)" using b by linarith+
  then have "of_int t \<le> y" "y < of_int t + 1" using V(1) by simp_all
  then show ?thesis unfolding y_def by (intro floor_unique) simp_all
qed

lemma sines: "near d (sin (x - 1)) r \<Longrightarrow> near e (sin x) s \<Longrightarrow> sines d e r s ts \<Longrightarrow> k < length ts \<Longrightarrow>
    \<lfloor>2 ^ 32 * \<bar>sin (x + real k)\<bar>\<rfloor> = ts ! k"
proof (induction ts arbitrary: d e x r s k)
  case (Cons t ts)
  show ?case
  proof (cases k)
    case 0
    then show ?thesis using sines_floor [OF Cons.prems(2)] Cons.prems(3) by simp
  next
    case (Suc i)
    have "near e (sin (x + 1 - 1)) s" using Cons.prems(2) by simp
    from Cons.IH [OF this near_next [OF Cons.prems(1,2)], of i] show ?thesis using Cons.prems(3,4) Suc by (simp add: add_ac)
  qed
qed simp

end
