(* ===== verification/Md5.thy ===== *)
theory Md5
  imports MdHash Sine
begin

text \<open>
  MD5, \<open>src/src/crypt/md5.c\<close>. \<open>XMD5_Compute\<close> copies the whole message into one zeroed block, pads it there and runs over
  the block with an \<open>int\<close> offset, whose overflow is undefined and gives \<open>None\<close>. The length field is 32 bits wide. The
  digest of RFC 1321 (\<open>md5_spec\<close>) is the reference, with its table defined by the sine and none of the code's constants; \<open>out\<close> is the memory the digest is written to, with its content before.
\<close>

section \<open>The code\<close>

definition g_intRadians :: "u32 list" where
  "g_intRadians =
     [0xd76aa478, 0xe8c7b756, 0x242070db, 0xc1bdceee,
      0xf57c0faf, 0x4787c62a, 0xa8304613, 0xfd469501,
      0x698098d8, 0x8b44f7af, 0xffff5bb1, 0x895cd7be,
      0x6b901122, 0xfd987193, 0xa679438e, 0x49b40821,
      0xf61e2562, 0xc040b340, 0x265e5a51, 0xe9b6c7aa,
      0xd62f105d, 0x02441453, 0xd8a1e681, 0xe7d3fbc8,
      0x21e1cde6, 0xc33707d6, 0xf4d50d87, 0x455a14ed,
      0xa9e3e905, 0xfcefa3f8, 0x676f02d9, 0x8d2a4c8a,
      0xfffa3942, 0x8771f681, 0x6d9d6122, 0xfde5380c,
      0xa4beea44, 0x4bdecfa9, 0xf6bb4b60, 0xbebfbc70,
      0x289b7ec6, 0xeaa127fa, 0xd4ef3085, 0x04881d05,
      0xd9d4d039, 0xe6db99e5, 0x1fa27cf8, 0xc4ac5665,
      0xf4292244, 0x432aff97, 0xab9423a7, 0xfc93a039,
      0x655b59c3, 0x8f0ccc92, 0xffeff47d, 0x85845dd1,
      0x6fa87e4f, 0xfe2ce6e0, 0xa3014314, 0x4e0811a1,
      0xf7537e82, 0xbd3af235, 0x2ad7d2bb, 0xeb86d391]"

definition g_radians :: "nat list" where
  "g_radians =
     [7, 12, 17, 22, 7, 12, 17, 22, 7, 12, 17, 22, 7, 12, 17, 22,
      5,  9, 14, 20, 5,  9, 14, 20, 5,  9, 14, 20, 5,  9, 14, 20,
      4, 11, 16, 23, 4, 11, 16, 23, 4, 11, 16, 23, 4, 11, 16, 23,
      6, 10, 15, 21, 6, 10, 15, 21, 6, 10, 15, 21, 6, 10, 15, 21]"

definition XMD5_LEFTROTATE :: "u32 \<Rightarrow> nat \<Rightarrow> u32" where
  "XMD5_LEFTROTATE x c = push_bit c x OR drop_bit (32 - c) x"

type_synonym md5_regs = "u32 \<times> u32 \<times> u32 \<times> u32"

definition md5_init :: md5_regs where
  "md5_init = (0x67452301, 0xefcdab89, 0x98badcfe, 0x10325476)"

text \<open>The loop that brings the number of bits to 448 modulo 512.\<close>

function pad_bits :: "nat \<Rightarrow> nat" where
  "pad_bits n = (if n mod 512 \<noteq> 448 then pad_bits (sz (n + 1)) else n)"
  by pat_completeness auto

lemma sz_Suc_mod512: "sz (n + 1) mod 512 = (if n mod 512 = 511 then 0 else Suc (n mod 512))"
proof -
  have "sz (n + 1) mod 512 = Suc n mod 512" by (simp add: sz_def mod_mod_cancel)
  then show ?thesis by (simp add: mod_Suc)
qed

definition pad_gap :: "nat \<Rightarrow> nat" where
  "pad_gap n = (if n mod 512 \<le> 448 then 448 - n mod 512 else 960 - n mod 512)"

lemma pad_gap_sz: "n mod 512 \<noteq> 448 \<Longrightarrow> pad_gap n = Suc (pad_gap (sz (n + 1)))"
proof -
  have gen: "(if r \<le> 448 then 448 - r else 960 - r) =
      Suc (if (if r = 511 then 0 else Suc r) \<le> 448 then 448 - (if r = 511 then 0 else Suc r) else 960 - (if r = 511 then 0 else Suc r))"
    if "r < 512" "r \<noteq> 448" for r :: nat
    using that by (cases "r = 511") auto
  assume "n mod 512 \<noteq> 448"
  then show ?thesis unfolding pad_gap_def sz_Suc_mod512 by (intro gen) simp_all
qed

termination pad_bits
  by (relation "measure pad_gap") (auto dest: pad_gap_sz)

declare pad_bits.simps [simp del]

definition md5_round :: "u32 list \<Rightarrow> nat \<Rightarrow> md5_regs \<Rightarrow> md5_regs" where
  "md5_round w i = (\<lambda>(a, b, c, d).
     let (f, g) =
       (if i < 16 then ((b AND c) OR (NOT b AND d), i)
        else if i < 32 then ((d AND b) OR (NOT d AND c), (5 * i + 1) mod 16)
        else if i < 48 then (b XOR c XOR d, (3 * i + 5) mod 16)
        else (c XOR (b OR NOT d), (7 * i) mod 16));
         nX = a + f + g_intRadians ! i + w ! g
     in (d, b + XMD5_LEFTROTATE nX (g_radians ! i), b, c))"

definition md5_block :: "md5_regs \<Rightarrow> byte list \<Rightarrow> md5_regs" where
  "md5_block h blk = (case (h, fold (md5_round (block_words blk)) [0..<64] h) of
     ((h0, h1, h2, h3), (a, b, c, d)) \<Rightarrow> (h0 + a, h1 + b, h2 + c, h3 + d))"

text \<open>The loop over the blocks; \<open>nOffset\<close> is an \<open>int\<close>.\<close>

function md5_loop :: "byte list \<Rightarrow> nat \<Rightarrow> nat \<Rightarrow> md5_regs \<Rightarrow> md5_regs option" where
  "md5_loop msg nNewLen nOffset h =
     (if nOffset < nNewLen then do {
        blk \<leftarrow> mread msg nOffset 64;
        if nOffset + 64 < 2 ^ 31 then md5_loop msg nNewLen (nOffset + 64) (md5_block h blk) else None }
      else Some h)"
  by pat_completeness auto
termination by (relation "measure (\<lambda>(_, n, i, _). n - i)") auto

declare md5_loop.simps [simp del]

definition md5_bytes :: "md5_regs \<Rightarrow> byte list" where
  "md5_bytes = (\<lambda>(a, b, c, d). le_bytes a @ le_bytes b @ le_bytes c @ le_bytes d)"

definition XMD5_Compute :: "malloc \<Rightarrow> byte list \<Rightarrow> nat \<Rightarrow> byte list \<Rightarrow> (int \<times> byte list) option" where
  "XMD5_Compute m out nSize data =
     (if nSize < 16 then Some (XSTDINV, out)
      else let nNewLen = pad_bits (sz (length data * 8 + 1)) div 8 in
        (case m (sz (nNewLen + 64)) of None \<Rightarrow> Some (XSTDERR, out)
         | Some _ \<Rightarrow> do {
             msg \<leftarrow> memcpy (replicate (sz (nNewLen + 64)) 0) 0 data;
             msg \<leftarrow> poke msg (length data) 128;
             msg \<leftarrow> memcpy msg nNewLen (le_bytes (8 * of_nat (length data)));
             h \<leftarrow> md5_loop msg nNewLen 0 md5_init;
             out \<leftarrow> memcpy out 0 (md5_bytes h);
             Some (XSTDOK, out) }))"

text \<open>\<open>junk\<close> is what the uninitialised digest on the stack holds.\<close>

definition XMD5_Sum :: "malloc \<Rightarrow> malloc \<Rightarrow> byte list \<Rightarrow> byte list \<Rightarrow> byte list option option" where
  "XMD5_Sum m c junk data =
     (case m 33 of None \<Rightarrow> Some None
      | Some _ \<Rightarrow> do { (_, digest) \<leftarrow> XMD5_Compute c junk 16 data; Some (Some (concat (map hex2 (take 16 digest)) @ [0])) })"

definition XMD5_Encrypt :: "malloc \<Rightarrow> malloc \<Rightarrow> byte list \<Rightarrow> byte list option option" where
  "XMD5_Encrypt m c data =
     (case m 17 of None \<Rightarrow> Some None
      | Some blk \<Rightarrow> do { (_, out) \<leftarrow> XMD5_Compute c blk 17 data; out \<leftarrow> poke out 16 0; Some (Some out) })"

section \<open>The reference\<close>

text \<open>
  RFC 1321, section 3: the auxiliary functions, the table made from the sine, one operation, the words of a block (low-order
  byte first), a block, the initial registers, the padded message and the output.
\<close>

definition rfc_F :: "nat \<Rightarrow> u32 \<Rightarrow> u32 \<Rightarrow> u32 \<Rightarrow> u32" where
  "rfc_F j x y z =
     (if j = 0 then (x AND y) OR (NOT x AND z) else if j = 1 then (x AND z) OR (y AND NOT z)
      else if j = 2 then x XOR y XOR z else y XOR (x OR NOT z))"

definition rfc_k :: "nat \<Rightarrow> nat" where
  "rfc_k i = (if i < 16 then i else if i < 32 then (1 + 5 * (i - 16)) mod 16
     else if i < 48 then (5 + 3 * (i - 32)) mod 16 else (7 * (i - 48)) mod 16)"

definition rfc_s :: "nat \<Rightarrow> nat" where
  "rfc_s i = [[7, 12, 17, 22], [5, 9, 14, 20], [4, 11, 16, 23], [6, 10, 15, 21]] ! (i div 16) ! (i mod 4)"

definition rfc_T :: "nat \<Rightarrow> u32" where
  "rfc_T i = of_int \<lfloor>2 ^ 32 * \<bar>sin (real i)\<bar>\<rfloor>"

definition rfc_op :: "u32 list \<Rightarrow> nat \<Rightarrow> md5_regs \<Rightarrow> md5_regs" where
  "rfc_op X i = (\<lambda>(a, b, c, d).
     (d, b + word_rotl (rfc_s i) (a + rfc_F (i div 16) b c d + X ! rfc_k i + rfc_T (i + 1)), b, c))"

definition rfc_word :: "byte list \<Rightarrow> u32" where
  "rfc_word bs = of_nat (of_be 0 (rev bs))"

definition rfc_block :: "md5_regs \<Rightarrow> byte list \<Rightarrow> md5_regs" where
  "rfc_block h blk = (case (h, fold (rfc_op (map (\<lambda>j. rfc_word (take 4 (drop (4 * j) blk))) [0..<16])) [0..<64] h) of
     ((h0, h1, h2, h3), (a, b, c, d)) \<Rightarrow> (h0 + a, h1 + b, h2 + c, h3 + d))"

definition rfc_init :: md5_regs where
  "rfc_init = (rfc_word [0x01, 0x23, 0x45, 0x67], rfc_word [0x89, 0xab, 0xcd, 0xef],
     rfc_word [0xfe, 0xdc, 0xba, 0x98], rfc_word [0x76, 0x54, 0x32, 0x10])"

definition rfc_output :: "md5_regs \<Rightarrow> byte list" where
  "rfc_output = (\<lambda>(a, b, c, d). concat (map (\<lambda>w. rev (be_bytes 4 (unat w))) [a, b, c, d]))"

definition md5_with :: "(nat \<Rightarrow> byte list) \<Rightarrow> byte list \<Rightarrow> byte list" where
  "md5_with enc xs = rfc_output (foldl rfc_block rfc_init (chunks 64 (md_pad enc xs)))"

definition md5_spec :: "byte list \<Rightarrow> byte list" where
  "md5_spec = md5_with (\<lambda>n. rev (be_bytes 8 n))"

text \<open>The length field of the code: four bytes of the number of bits, then zeros.\<close>

definition enc32 :: "nat \<Rightarrow> byte list" where
  "enc32 n = rev (be_bytes 4 n) @ replicate 4 0"

section \<open>Rounds and blocks\<close>

lemma leftrotate: "0 < c \<Longrightarrow> c < 32 \<Longrightarrow> XMD5_LEFTROTATE x c = word_rotl c x"
  by (simp add: XMD5_LEFTROTATE_def rotl32)

lemma md5_tables:
  "\<forall>i\<in>set [0..<64]. g_radians ! i = rfc_s i \<and> 0 < rfc_s i \<and> rfc_s i < 32 \<and>
     (if i < 16 then i else if i < 32 then (5 * i + 1) mod 16 else if i < 48 then (3 * i + 5) mod 16 else (7 * i) mod 16) = rfc_k i"
  by code_simp

lemma table_sines: "sines 0 1 0 sine1 (map uint g_intRadians)"
  by code_simp

lemma intRadians: "i < 64 \<Longrightarrow> g_intRadians ! i = rfc_T (i + 1)"
proof -
  assume i: "i < 64"
  have l: "length g_intRadians = 64" by (simp add: g_intRadians_def)
  have "near 0 (sin (1 - 1)) 0" by (simp add: near_def)
  from sines [OF this near_sine1 table_sines, of i] i l
  have "\<lfloor>2 ^ 32 * \<bar>sin (1 + real i)\<bar>\<rfloor> = uint (g_intRadians ! i)" by simp
  then show ?thesis by (simp add: rfc_T_def add.commute)
qed

lemma init_regs: "md5_init = rfc_init"
  by (simp add: md5_init_def rfc_init_def rfc_word_def)

lemma md5_output: "md5_bytes h = rfc_output h"
proof -
  have "le_bytes w = rev (be_bytes 4 (unat w))" for w by (simp flip: rev_le_bytes)
  then show ?thesis by (cases h) (simp add: md5_bytes_def rfc_output_def)
qed

lemma md5_words: "length b = 64 \<Longrightarrow> block_words b = map (\<lambda>j. rfc_word (take 4 (drop (4 * j) b))) [0..<16]"
  by (simp add: block_words_def rfc_word_def of_le_of_be)

lemma md5_round: "i < 64 \<Longrightarrow> md5_round w i = rfc_op w i"
proof -
  assume i: "i < 64"
  then have t: "g_radians ! i = rfc_s i" "0 < rfc_s i" "rfc_s i < 32"
    "(if i < 16 then i else if i < 32 then (5 * i + 1) mod 16 else if i < 48 then (3 * i + 5) mod 16 else (7 * i) mod 16) = rfc_k i"
    using md5_tables by auto
  note T = intRadians [OF i]
  have j: "i div 16 = (if i < 16 then 0 else if i < 32 then 1 else if i < 48 then 2 else 3)" using i by auto
  show ?thesis
  proof
    fix r :: md5_regs
    obtain a b c d where r: "r = (a, b, c, d)" by (cases r)
    show "md5_round w i r = rfc_op w i r"
      using t(4) unfolding r md5_round_def rfc_op_def rfc_F_def j T t(1) leftrotate [OF t(2,3)]
      by (auto simp: Let_def and.commute add_ac split: if_splits)
  qed
qed

lemma md5_block: "length blk = 64 \<Longrightarrow> md5_block h blk = rfc_block h blk"
proof -
  assume "length blk = 64"
  moreover   have "fold (md5_round w) [0..<64] h = fold (rfc_op w) [0..<64] h" for w
    by (rule fold_cong) (auto simp: md5_round)
  ultimately show ?thesis by (simp add: md5_block_def rfc_block_def md5_words)
qed

lemma md5_loop:
  assumes "msg = a @ b @ c" "64 dvd length b" "n \<le> length a + length b" "length a + length b < n + 64" "length a + length b < 2 ^ 31"
  shows "md5_loop msg n (length a) h = Some (foldl rfc_block h (chunks 64 b))"
  using assms
proof (induction "length b div 64" arbitrary: a b h)
  case 0
  then have "b = []" by auto
  with 0 show ?case by (subst md5_loop.simps) simp
next
  case (Suc k)
  then have b: "64 \<le> length b" by (auto elim!: dvdE)
  have "length (take 64 b) = 64" using b by simp
  then have ch: "chunks 64 b = take 64 b # chunks 64 (drop 64 b)"
    using chunks_cons [of "take 64 b" 64 "drop 64 b"] by simp
  have "md5_loop msg n (length (a @ take 64 b)) (rfc_block h (take 64 b)) =
      Some (foldl rfc_block (rfc_block h (take 64 b)) (chunks 64 (drop 64 b)))"
    using Suc.prems Suc.hyps(2) b
    by (intro Suc.hyps(1)) (auto simp: dvd_diff_nat)
  moreover have "mread msg (length a) 64 = Some (take 64 b)" using Suc.prems b by (simp add: mread_def)
  ultimately show ?case using Suc.prems b ch
    by (subst md5_loop.simps) (simp add: md5_block)
qed

section \<open>Padding in place\<close>

lemma pad_bits: "n + pad_gap n < 2 ^ 64 \<Longrightarrow> pad_bits n = n + pad_gap n"
proof (induction "pad_gap n" arbitrary: n)
  case 0
  have "n mod 512 < 512" by simp
  with 0 have "n mod 512 = 448" by (auto simp: pad_gap_def split: if_splits)
  with 0 show ?case by (subst pad_bits.simps) simp
next
  case (Suc k)
  then have ne: "n mod 512 \<noteq> 448" by (auto simp: pad_gap_def)
  have gap: "pad_gap n = Suc (pad_gap (sz (n + 1)))" by (rule pad_gap_sz [OF ne])
  then have sz: "sz (n + 1) = n + 1" using Suc.prems by simp
  have "pad_bits (n + 1) = n + 1 + pad_gap (n + 1)"
    using gap Suc.hyps(2) Suc.prems unfolding sz by (intro Suc.hyps(1)) simp_all
  moreover have "pad_bits n = pad_bits (n + 1)" using ne sz by (subst pad_bits.simps) simp
  ultimately show ?case using gap unfolding sz by linarith
qed

lemma pad_length:
  assumes "n < 2 ^ 32"
  shows "pad_bits (sz (n * 8 + 1)) div 8 = n + Suc (md_zeros n)" "(n + Suc (md_zeros n)) mod 64 = 56"
proof -
  define q r where "q = n div 64" and "r = n mod 64"
  have n: "n = 64 * q + r" "r < 64" by (simp_all add: q_def r_def)
  have z: "md_zeros n = (if r < 56 then 55 - r else 119 - r)" by (simp add: md_zeros_def r_def)
  have "(n * 8 + 1) mod 512 = 8 * r + 1"
  proof -
    have "n * 8 + 1 = 512 * q + (8 * r + 1)" using n by simp
    also have "\<dots> mod 512 = (8 * r + 1) mod 512" by (rule mod_mult_self4)
    finally show ?thesis using n(2) by simp
  qed
  then have "n * 8 + 1 + pad_gap (n * 8 + 1) = 8 * (n + Suc (md_zeros n))"
    using n(2) z by (auto simp: pad_gap_def)
  moreover have "n * 8 + 1 + pad_gap (n * 8 + 1) < 2 ^ 64" using assms by (auto simp: pad_gap_def)
  ultimately have "pad_bits (n * 8 + 1) = 8 * (n + Suc (md_zeros n))" using pad_bits by simp
  then show "pad_bits (sz (n * 8 + 1)) div 8 = n + Suc (md_zeros n)" using assms by simp
  show "(n + Suc (md_zeros n)) mod 64 = 56" by (rule md_zeros_pad)
qed

section \<open>The one-shot digest\<close>

lemma le_word_bits: "le_bytes (8 * of_nat n) @ replicate 4 0 = enc32 (8 * n)"
proof -
  have "unat (8 * of_nat n :: u32) = 8 * n mod 256 ^ 4"
    using unat_of_nat [of "8 * n", where 'a = 32] by simp
  then have "rev (le_bytes (8 * of_nat n)) = be_bytes 4 (8 * n)"
    using be_bytes_mod [of 4 "8 * n"] by (simp add: rev_le_bytes del: power_numeral)
  then show ?thesis by (simp add: enc32_def rev_swap)
qed

lemma enc32_small: "n < 2 ^ 32 \<Longrightarrow> enc32 n = rev (be_bytes 8 n)"
proof -
  assume "n < 2 ^ 32"
  then have "n div 256 ^ 4 = 0" by simp
  moreover have "be_bytes k 0 = replicate k 0" for k by (induction k) (auto simp: replicate_append_same)
  ultimately show ?thesis using be_bytes_add [of 4 4 n] by (simp add: enc32_def)
qed

lemma md5_bytes_length [simp]: "length (md5_bytes h) = 16"
  by (cases h) (simp add: md5_bytes_def)

lemma rfc_output_length [simp]: "length (rfc_output h) = 16"
  by (simp flip: md5_output)

lemma memcpy_mid: "length a = n \<Longrightarrow> length b = length s \<Longrightarrow> memcpy (a @ b @ c) n s = Some (a @ s @ c)"
  by (simp add: memcpy_def)

lemma compute:
  assumes "length data + 136 < 2 ^ 31" "16 \<le> length out"
  shows "XMD5_Compute m out nSize data = Some
    (if nSize < 16 then (XSTDINV, out) else if m (length data + Suc (md_zeros (length data)) + 64) = None then (XSTDERR, out)
     else (XSTDOK, md5_with enc32 data @ drop 16 out))"
proof -
  define n where "n = length data"
  define L where "L = n + Suc (md_zeros n)"
  have n: "n < 2 ^ 32" using assms by (simp add: n_def)
  note pad = pad_length [OF n, folded L_def]
  have z: "md_zeros n \<le> 63" by (auto simp: md_zeros_def)
  have sz: "sz (L + 64) = L + 64" using n z by (simp add: L_def)
  have m1: "memcpy (replicate (L + 64) 0) 0 data = Some (data @ replicate (md_zeros n + 65) 0)"
    by (simp add: memcpy_def L_def n_def)
  have m2: "poke (data @ replicate (md_zeros n + 65) 0) n 128 = Some (data @ 128 # replicate (md_zeros n + 64) 0)"
  proof -
    have "replicate (md_zeros n + 65) (0::byte) = 0 # replicate (md_zeros n + 64) 0"
      by (simp flip: replicate_Suc)
    then show ?thesis by (simp only:) (simp add: poke_def n_def list_update_append)
  qed
  have "replicate (md_zeros n + 64) (0::byte) = replicate (md_zeros n) 0 @ replicate 4 0 @ replicate 60 0"
    by (simp flip: replicate_add)
  then have "memcpy (data @ 128 # replicate (md_zeros n + 64) 0) L (le_bytes (8 * of_nat n)) =
      Some ((data @ 128 # replicate (md_zeros n) 0) @ le_bytes (8 * of_nat n) @ replicate 60 0)"
    using memcpy_mid [of "data @ 128 # replicate (md_zeros n) 0" L "replicate 4 0" "le_bytes (8 * of_nat n)" "replicate 60 0"]
    by (simp add: L_def n_def)
  also have "replicate 60 (0::byte) = replicate 4 0 @ replicate 56 0" by (simp flip: replicate_add)
  finally have m3: "memcpy (data @ 128 # replicate (md_zeros n + 64) 0) L (le_bytes (8 * of_nat n)) = Some (md_pad enc32 data @ replicate 56 0)"
    using le_word_bits [of n] by (simp add: md_pad_def n_def [symmetric])
  have len: "length (md_pad enc32 data) = L + 8" by (simp add: md_pad_def L_def n_def enc32_def)
  have "64 dvd L + 8" using pad(2) by presburger
  then have loop: "md5_loop (md_pad enc32 data @ replicate 56 0) L 0 md5_init =
      Some (foldl rfc_block rfc_init (chunks 64 (md_pad enc32 data)))"
    using md5_loop [of "md_pad enc32 data @ replicate 56 0" "[]" "md_pad enc32 data" "replicate 56 0" L md5_init] len assms z
    by (simp add: L_def n_def init_regs)
  have out: "memcpy out 0 (md5_bytes h) = Some (md5_bytes h @ drop 16 out)" for h
    using assms(2) by (simp add: memcpy_def)
  show ?thesis
    unfolding XMD5_Compute_def Let_def n_def [symmetric] pad(1) sz L_def [symmetric]
    by (simp add: m1 m2 m3 loop out md5_with_def md5_output [symmetric] split: option.split)
qed

text \<open>
  C30: for a message of less than 2 GB, the empty one included, \<open>XMD5_Compute\<close> refuses an output of less than 16 bytes, reports a failed allocation
  without writing, and otherwise stays in bounds and writes 16 bytes: the digest of RFC 1321 (its table the integer parts of
  \<open>2 ^ 32 * \<bar>sin i\<bar>\<close>) when the message has less than 512 MB, and above that the digest of the message padded with its length in bits modulo \<open>2 ^ 32\<close>.
\<close>

theorem md5_compute:
  assumes "length data + 136 < 2 ^ 31" "16 \<le> length out"
  shows "XMD5_Compute m out nSize data = Some
      (if nSize < 16 then (XSTDINV, out) else if m (length data + Suc (md_zeros (length data)) + 64) = None then (XSTDERR, out)
       else (XSTDOK, md5_with enc32 data @ drop 16 out)) \<and>
    (length data < 2 ^ 29 \<longrightarrow> md5_with enc32 data = md5_spec data)"
  using compute [OF assms] by (simp add: md5_spec_def md5_with_def md_pad_def enc32_small)

lemma md5_compute_witness:
  "XMD5_Compute zero_malloc (replicate 17 7) 17 [97, 98, 99] = Some (XSTDOK, md5_spec [97, 98, 99] @ [7])"
  using md5_compute [of "[97, 98, 99]" "replicate 17 7" zero_malloc 17] by (simp add: zero_malloc_def)

text \<open>
  \<open>XMD5_Sum\<close> and \<open>XMD5_Encrypt\<close> ignore the status of \<open>XMD5_Compute\<close>: when its allocation fails they still return a
  block as for a digest, and it holds whatever the memory held before (the stack for \<open>XMD5_Sum\<close>, the fresh block for
  \<open>XMD5_Encrypt\<close>), which the caller cannot tell from a digest.
\<close>

theorem md5_sum_junk:
  assumes "length data < 2 ^ 29" "length junk = 16" "malloc_spec m" "m 17 = Some blk" "m 33 = Some b33"
  shows "XMD5_Sum m c junk data = Some (Some (concat (map hex2
      (if c (length data + Suc (md_zeros (length data)) + 64) = None then junk else md5_spec data)) @ [0])) \<and>
    XMD5_Encrypt m c data = Some (Some
      ((if c (length data + Suc (md_zeros (length data)) + 64) = None then take 16 blk else md5_spec data) @ [0]))"
proof
  have spec: "md5_with enc32 data = md5_spec data" "length (md5_spec data) = 16"
    using assms(1) by (simp_all add: md5_spec_def md5_with_def md_pad_def enc32_small)
  have d: "length data + 136 < 2 ^ 31" using assms(1) by simp
  show "XMD5_Sum m c junk data = Some (Some (concat (map hex2
      (if c (length data + Suc (md_zeros (length data)) + 64) = None then junk else md5_spec data)) @ [0]))"
    using compute [OF d, of junk c 16] assms by (simp add: XMD5_Sum_def spec)
  have "length blk = 17" using assms malloc_length by blast
  then obtain x where x: "drop 16 blk = [x]" using length_Suc_conv [of "drop 16 blk" 0] by auto
  define t where "t = take 16 blk"
  have blk: "blk = t @ [x]" "length t = 16" using x append_take_drop_id [of 16 blk] \<open>length blk = 17\<close> by (auto simp: t_def)
  show "XMD5_Encrypt m c data = Some (Some
      ((if c (length data + Suc (md_zeros (length data)) + 64) = None then take 16 blk else md5_spec data) @ [0]))"
    using compute [OF d, of blk c 17] assms spec blk(2)
    by (simp add: XMD5_Encrypt_def poke_def blk(1) list_update_append)
qed

lemma md5_sum_junk_witness:
  "XMD5_Sum zero_malloc (\<lambda>_. None) (replicate 16 7) [97] = Some (Some (concat (map hex2 (replicate 16 7)) @ [0])) \<and>
   XMD5_Encrypt zero_malloc (\<lambda>_. None) [97] = Some (Some (replicate 16 0 @ [0]))"
  using md5_sum_junk [of "[97]" "replicate 16 7" zero_malloc "replicate 17 0" "replicate 33 0" "\<lambda>_. None"]
  by (simp add: zero_malloc_def)

end
