(* ===== verification/Hmac.thy ===== *)
theory Hmac
  imports Sha256 Md5 Base64
begin

text \<open>
  Keyed digests, \<open>src/src/crypt/hmac.c\<close>, on the models of SHA-256, MD5 and Base64. The reference is RFC 2104
  (\<open>rfc2104\<close>). Where a function ignores the status of the one it calls, the uninitialised memory that it then reads is an
  argument \<open>junk\<close>.
\<close>

section \<open>The code\<close>

text \<open>The zeroed pad block with the key copied in, then XORed with a constant.\<close>

definition xor_pad :: "byte \<Rightarrow> byte list \<Rightarrow> byte list" where
  "xor_pad c = map (\<lambda>b. b XOR c)"

definition XHMAC_SHA256 :: "byte list \<Rightarrow> nat \<Rightarrow> byte list \<Rightarrow> byte list \<Rightarrow> (int \<times> byte list) option" where
  "XHMAC_SHA256 out nSize data pKey =
     (if \<not> (32 \<le> nSize \<and> data \<noteq> [] \<and> pKey \<noteq> []) then Some (XSTDINV, out)
      else do {
        (kIpad, kOpad) \<leftarrow>
          (if 64 < length pKey
           then do {
             (_, key) \<leftarrow> XSHA256_Compute 32 pKey;
             k \<leftarrow> mread pKey 0 32;
             i \<leftarrow> memcpy (replicate 64 0) 0 k;
             j \<leftarrow> memcpy (replicate 64 0) 0 k;
             Some (i, j) }
           else do {
             i \<leftarrow> memcpy (replicate 64 0) 0 pKey;
             j \<leftarrow> memcpy (replicate 64 0) 0 pKey;
             Some (i, j) });
        let kIpad = xor_pad 0x36 kIpad;
        let kOpad = xor_pad 0x5c kOpad;
        sha \<leftarrow> XSHA256_Update XSHA256_Init kIpad;
        sha \<leftarrow> XSHA256_Update sha data;
        (_, digest) \<leftarrow> XSHA256_Final sha;
        sha \<leftarrow> XSHA256_Update XSHA256_Init kOpad;
        sha \<leftarrow> XSHA256_Update sha digest;
        (_, digest) \<leftarrow> XSHA256_Final sha;
        out \<leftarrow> memcpy out 0 digest;
        Some (XSTDOK, out) })"

definition XHMAC_SHA256_HEX :: "byte list \<Rightarrow> nat \<Rightarrow> byte list \<Rightarrow> byte list \<Rightarrow> (int \<times> byte list) option" where
  "XHMAC_SHA256_HEX junk nSize data pKey =
     (if nSize < 65 then Some (XSTDERR, [])
      else do {
        (_, hash) \<leftarrow> XHMAC_SHA256 junk 32 data pKey;
        Some (XSTDOK, concat (map hex2 (take 32 hash)) @ [0]) })"

definition XHMAC_SHA256_B64 :: "bool \<Rightarrow> byte list \<Rightarrow> byte list \<Rightarrow> byte list \<Rightarrow> (byte list \<times> nat) option option" where
  "XHMAC_SHA256_B64 ok junk data pKey = do {
     (_, hash) \<leftarrow> XHMAC_SHA256 junk 32 data pKey;
     XBase64_UrlEncrypt ok hash 32 }"

definition XHMAC_SHA256_NEW :: "bool \<Rightarrow> byte list \<Rightarrow> byte list \<Rightarrow> byte list \<Rightarrow> byte list option option" where
  "XHMAC_SHA256_NEW ok junk data pKey =
     (if \<not> ok then Some None else do { (_, text) \<leftarrow> XHMAC_SHA256_HEX junk 65 data pKey; Some (Some text) })"

text \<open>\<open>m\<close> is \<open>malloc\<close>, \<open>c\<close> the allocations inside \<open>XMD5_Compute\<close>; \<open>None\<close> for the text says that nothing is written.\<close>

definition XHMAC_MD5 ::
  "malloc \<Rightarrow> malloc \<Rightarrow> byte list \<Rightarrow> nat \<Rightarrow> byte list \<Rightarrow> byte list \<Rightarrow> (int \<times> byte list option) option" where
  "XHMAC_MD5 m c junk nSize data pKey =
     (if \<not> (33 \<le> nSize \<and> data \<noteq> [] \<and> pKey \<noteq> []) then Some (XSTDINV, None)
      else do {
        (kIpad, kOpad) \<leftarrow>
          (if 64 < length pKey
           then do {
             (_, key) \<leftarrow> XMD5_Compute c (replicate 16 0) 16 pKey;
             k \<leftarrow> mread pKey 0 16;
             i \<leftarrow> memcpy (replicate 64 0) 0 k;
             j \<leftarrow> memcpy (replicate 64 0) 0 k;
             Some (i, j) }
           else do {
             i \<leftarrow> memcpy (replicate 64 0) 0 pKey;
             j \<leftarrow> memcpy (replicate 64 0) 0 pKey;
             Some (i, j) });
        let kIpad = xor_pad 0x36 kIpad;
        let kOpad = xor_pad 0x5c kOpad;
        let nBufLen = sz (64 + length data);
        (case m nBufLen of None \<Rightarrow> Some (XSTDERR, None)
         | Some pPadBuf \<Rightarrow> do {
             b \<leftarrow> memcpy pPadBuf 0 kIpad;
             b \<leftarrow> memcpy b 64 data;
             (_, digest) \<leftarrow> XMD5_Compute c junk 16 (take nBufLen b);
             (case m 80 of None \<Rightarrow> Some (XSTDERR, None)
              | Some pPadBuf \<Rightarrow> do {
                  b \<leftarrow> memcpy pPadBuf 0 kOpad;
                  b \<leftarrow> memcpy b 64 digest;
                  (_, hash) \<leftarrow> XMD5_Compute c (replicate 16 0) 16 (take 80 b);
                  Some (XSTDOK, Some (concat (map hex2 hash) @ [0])) }) }) })"

definition XHMAC_MD5_NEW :: "bool \<Rightarrow> malloc \<Rightarrow> malloc \<Rightarrow> byte list \<Rightarrow> byte list \<Rightarrow> byte list \<Rightarrow> byte list option option option" where
  "XHMAC_MD5_NEW ok m c junk data pKey =
     (if \<not> ok then Some None else do { (_, text) \<leftarrow> XHMAC_MD5 m c junk 33 data pKey; Some (Some text) })"

section \<open>The reference\<close>

text \<open>RFC 2104 for a digest \<open>H\<close> with blocks of 64 bytes: a longer key is replaced by its digest.\<close>

definition hmac_with :: "(byte list \<Rightarrow> byte list) \<Rightarrow> byte list \<Rightarrow> byte list \<Rightarrow> byte list" where
  "hmac_with H k text =
     (let K = k @ replicate (64 - length k) 0
      in H (map (\<lambda>b. b XOR 0x5c) K @ H (map (\<lambda>b. b XOR 0x36) K @ text)))"

definition rfc2104 :: "(byte list \<Rightarrow> byte list) \<Rightarrow> byte list \<Rightarrow> byte list \<Rightarrow> byte list" where
  "rfc2104 H k text = hmac_with H (if 64 < length k then H k else k) text"

section \<open>Results\<close>

lemma sha_two:
  "\<exists>s1 s2 s3. XSHA256_Update XSHA256_Init a = Some s1 \<and> XSHA256_Update s1 b = Some s2 \<and> XSHA256_Final s2 = Some (s3, sha256_spec (a @ b))"
proof -
  obtain s1 where s1: "XSHA256_Update XSHA256_Init a = Some s1" "\<exists>r. sha_pending s1 ([] @ a) r"
    using sha256.update_law [OF sha256.start_law] by blast
  obtain s2 where s2: "XSHA256_Update s1 b = Some s2" "\<exists>r. sha_pending s2 (([] @ a) @ b) r"
    using sha256.update_law [OF s1(2)] by blast
  obtain s3 where "XSHA256_Final s2 = Some (s3, sha256_spec (([] @ a) @ b))"
    using sha256.final_law [OF s2(2)] by blast
  with s1(1) s2(1) show ?thesis by auto
qed

lemma key_block: "length k \<le> 64 \<Longrightarrow> memcpy (replicate 64 0) 0 k = Some (k @ replicate (64 - length k) 0)"
  by (simp add: memcpy_def)

lemma hmac_sha:
  assumes "32 \<le> length out"
  shows "XHMAC_SHA256 out nSize data pKey = Some
    (if nSize < 32 \<or> data = [] \<or> pKey = [] then (XSTDINV, out)
     else (XSTDOK, hmac_with sha256_spec (if 64 < length pKey then take 32 pKey else pKey) data @ drop 32 out))"
proof (cases "nSize < 32 \<or> data = [] \<or> pKey = []")
  case True
  then show ?thesis by (auto simp: XHMAC_SHA256_def)
next
  case False
  define k where "k = (if 64 < length pKey then take 32 pKey else pKey)"
  define K where "K = k @ replicate (64 - length k) 0"
  have keys: "(if 64 < length pKey
           then do {
             (_, key) \<leftarrow> XSHA256_Compute 32 pKey;
             k \<leftarrow> mread pKey 0 32;
             i \<leftarrow> memcpy (replicate 64 0) 0 k;
             j \<leftarrow> memcpy (replicate 64 0) 0 k;
             Some (i, j) }
           else do {
             i \<leftarrow> memcpy (replicate 64 0) 0 pKey;
             j \<leftarrow> memcpy (replicate 64 0) 0 pKey;
             Some (i, j) }) = Some (K, K)"
    by (simp add: K_def k_def sha_compute key_block mread_def)
  obtain s1 s2 s3 where s: "XSHA256_Update XSHA256_Init (xor_pad 0x36 K) = Some s1" "XSHA256_Update s1 data = Some s2"
    "XSHA256_Final s2 = Some (s3, sha256_spec (xor_pad 0x36 K @ data))" using sha_two by metis
  obtain t1 t2 t3 where t: "XSHA256_Update XSHA256_Init (xor_pad 0x5c K) = Some t1"
    "XSHA256_Update t1 (sha256_spec (xor_pad 0x36 K @ data)) = Some t2"
    "XSHA256_Final t2 = Some (t3, sha256_spec (xor_pad 0x5c K @ sha256_spec (xor_pad 0x36 K @ data)))"
    using sha_two by metis
  have res: "hmac_with sha256_spec k data = sha256_spec (xor_pad 0x5c K @ sha256_spec (xor_pad 0x36 K @ data))"
    by (simp add: hmac_with_def K_def Let_def xor_pad_def)
  have "memcpy out 0 (hmac_with sha256_spec k data) = Some (hmac_with sha256_spec k data @ drop 32 out)"
    using assms by (simp add: memcpy_def res sha256_spec_length)
  then show ?thesis using False unfolding XHMAC_SHA256_def keys k_def [symmetric]
    by (simp add: Let_def s t res)
qed

text \<open>
  C31: for non-empty data and key and an output of at least 32 bytes, \<open>XHMAC_SHA256\<close> returns, stays in bounds and writes
  the HMAC-SHA-256 of RFC 2104 whenever the key has at most 64 bytes. A longer key is not replaced by its digest, as the
  comment in the code and the RFC say, but by its first 32 bytes: the result is the code of that short key, so bytes of the
  key after the 32nd do not matter.
\<close>

theorem hmac_sha256:
  assumes "32 \<le> length out" "data \<noteq> []" "pKey \<noteq> []"
  shows "XHMAC_SHA256 out nSize data pKey = Some
      (if nSize < 32 then (XSTDINV, out)
       else (XSTDOK, rfc2104 sha256_spec (if length pKey \<le> 64 then pKey else take 32 pKey) data @ drop 32 out))"
  using hmac_sha [OF assms(1), of nSize data pKey] assms by (simp add: rfc2104_def split: if_splits)

lemma hmac_sha256_witness:
  "XHMAC_SHA256 (replicate 33 7) 33 [97] (replicate 100 1 @ [2]) =
    Some (XSTDOK, rfc2104 sha256_spec (replicate 32 1) [97] @ [7]) \<and>
   XHMAC_SHA256 (replicate 33 7) 33 [97] (replicate 100 1 @ [3]) =
    Some (XSTDOK, rfc2104 sha256_spec (replicate 32 1) [97] @ [7])"
  using hmac_sha256 [of "replicate 33 7" "[97]" "replicate 100 1 @ [2]" 33]
    hmac_sha256 [of "replicate 33 7" "[97]" "replicate 100 1 @ [3]" 33] by simp

text \<open>The 32 bytes that the wrappers print: the code, or the uninitialised stack.\<close>

definition hmac_or_junk :: "byte list \<Rightarrow> byte list \<Rightarrow> byte list \<Rightarrow> byte list" where
  "hmac_or_junk junk data pKey =
     (if data = [] \<or> pKey = [] then junk else hmac_with sha256_spec (if 64 < length pKey then take 32 pKey else pKey) data)"

lemma hmac_or_junk: "length junk = 32 \<Longrightarrow> \<exists>st. XHMAC_SHA256 junk 32 data pKey = Some (st, hmac_or_junk junk data pKey)"
  using hmac_sha [of junk 32 data pKey] by (auto simp: hmac_or_junk_def)

lemma hmac_or_junk_length: "length junk = 32 \<Longrightarrow> length (hmac_or_junk junk data pKey) = 32"
  by (simp add: hmac_or_junk_def hmac_with_def Let_def sha256_spec_length)

text \<open>
  the wrappers of \<open>XHMAC_SHA256\<close> drop its status. For empty data or an empty key \<open>XHMAC_SHA256_HEX\<close> reports success
  and prints 32 bytes of uninitialised stack, \<open>XHMAC_SHA256_NEW\<close> and \<open>XHMAC_SHA256_B64\<close> return them as a text; for all other
  data and keys they give the code in hexadecimal with a NUL, and in URL-safe Base64 (43 characters).
\<close>

theorem hmac_sha256_text:
  assumes "length junk = 32"
  shows "XHMAC_SHA256_HEX junk nSize data pKey = Some
      (if nSize < 65 then (XSTDERR, []) else (XSTDOK, concat (map hex2 (hmac_or_junk junk data pKey)) @ [0])) \<and>
    XHMAC_SHA256_NEW ok junk data pKey =
      Some (if ok then Some (concat (map hex2 (hmac_or_junk junk data pKey)) @ [0]) else None) \<and>
    XHMAC_SHA256_B64 ok junk data pKey =
      Some (if ok then Some (b64_text g_base64UrlEncTable (hmac_or_junk junk data pKey) @ replicate 2 0,
                             length (sextets (hmac_or_junk junk data pKey))) else None)"
proof -
  obtain st where st: "XHMAC_SHA256 junk 32 data pKey = Some (st, hmac_or_junk junk data pKey)"
    using hmac_or_junk [OF assms] by blast
  note len = hmac_or_junk_length [OF assms, of data pKey]
  have hex: "XHMAC_SHA256_HEX junk n data pKey = Some
      (if n < 65 then (XSTDERR, []) else (XSTDOK, concat (map hex2 (hmac_or_junk junk data pKey)) @ [0]))" for n
    by (simp add: XHMAC_SHA256_HEX_def st len)
  have two: "npad 32 + 1 = 2" by code_simp
  have "XBase64_UrlEncrypt True (hmac_or_junk junk data pKey) 32 =
      Some (Some (b64_text g_base64UrlEncTable (hmac_or_junk junk data pKey) @ replicate 2 0,
                  length (sextets (hmac_or_junk junk data pKey))))"
    using urlencrypt_spec [of 32 "hmac_or_junk junk data pKey"] len unfolding two by simp
  moreover have "XBase64_UrlEncrypt False (hmac_or_junk junk data pKey) 32 = Some None" by (simp add: XBase64_UrlEncrypt_def)
  ultimately have "XBase64_UrlEncrypt ok (hmac_or_junk junk data pKey) 32 =
      Some (if ok then Some (b64_text g_base64UrlEncTable (hmac_or_junk junk data pKey) @ replicate 2 0,
                             length (sextets (hmac_or_junk junk data pKey))) else None)"
    by (cases ok) simp_all
  then show ?thesis by (simp add: hex XHMAC_SHA256_NEW_def XHMAC_SHA256_B64_def st)
qed

lemma hmac_sha256_text_witness:
  "XHMAC_SHA256_HEX (replicate 32 0) 65 [] [1] = Some (XSTDOK, concat (map hex2 (replicate 32 0)) @ [0])"
  using hmac_sha256_text [of "replicate 32 0" 65 "[]" "[1]" True] by (simp add: hmac_or_junk_def)

section \<open>HMAC-MD5\<close>

lemma md5_alloc: "\<forall>n. c n \<noteq> None \<Longrightarrow> length data < 2 ^ 29 \<Longrightarrow> 16 \<le> length out \<Longrightarrow>
  XMD5_Compute c out 16 data = Some (XSTDOK, md5_spec data @ drop 16 out)"
  using compute [of data out c 16] by (simp add: md5_spec_def md5_with_def md_pad_def enc32_small)

lemma md5_spec_length: "length (md5_spec d) = 16"
  by (simp add: md5_spec_def md5_with_def)

lemma pad_buffer: "length b = 64 + length t \<Longrightarrow> length K = 64 \<Longrightarrow>
    memcpy b 0 K = Some (K @ drop 64 b) \<and> memcpy (K @ drop 64 b) 64 t = Some (K @ t)"
  by (simp add: memcpy_def)

lemma hmac_md5_run:
  assumes "malloc_spec m" "\<forall>n. m n \<noteq> None" "\<forall>n. c n \<noteq> None" "length junk = 16" "length data + 64 < 2 ^ 29"
    "length pKey < 2 ^ 29" "33 \<le> nSize" "data \<noteq> []" "pKey \<noteq> []"
  shows "XHMAC_MD5 m c junk nSize data pKey =
    Some (XSTDOK, Some (concat (map hex2 (hmac_with md5_spec (if 64 < length pKey then take 16 pKey else pKey) data)) @ [0]))"
proof -
  define k where "k = (if 64 < length pKey then take 16 pKey else pKey)"
  define K where "K = k @ replicate (64 - length k) 0"
  have K: "length K = 64" by (simp add: K_def k_def)
  have keys: "(if 64 < length pKey
           then do {
             (_, key) \<leftarrow> XMD5_Compute c (replicate 16 0) 16 pKey;
             k \<leftarrow> mread pKey 0 16;
             i \<leftarrow> memcpy (replicate 64 0) 0 k;
             j \<leftarrow> memcpy (replicate 64 0) 0 k;
             Some (i, j) }
           else do {
             i \<leftarrow> memcpy (replicate 64 0) 0 pKey;
             j \<leftarrow> memcpy (replicate 64 0) 0 pKey;
             Some (i, j) }) = Some (K, K)"
    using md5_alloc [OF assms(3,6), of "replicate 16 0"] by (simp add: K_def k_def key_block mread_def)
  obtain b1 where b1: "m (64 + length data) = Some b1" "length b1 = 64 + length data"
    using assms(1,2) by (metis malloc_length not_None_eq)
  obtain b2 where b2: "m 80 = Some b2" "length b2 = 80"
    using assms(1,2) by (metis malloc_length not_None_eq)
  have x: "length (xor_pad a K) = 64" for a using K by (simp add: xor_pad_def)
  define d where "d = md5_spec (xor_pad 0x36 K @ data)"
  have inner: "XMD5_Compute c junk 16 (xor_pad 0x36 K @ data) = Some (XSTDOK, d)"
    using md5_alloc [OF assms(3), of "xor_pad 0x36 K @ data" junk] assms(4,5) x by (simp add: d_def)
  have outer: "XMD5_Compute c (replicate 16 0) 16 (xor_pad 0x5c K @ d) = Some (XSTDOK, md5_spec (xor_pad 0x5c K @ d))"
    using md5_alloc [OF assms(3), of "xor_pad 0x5c K @ d" "replicate 16 0"] x by (simp add: d_def md5_spec_length)
  have res: "hmac_with md5_spec k data = md5_spec (xor_pad 0x5c K @ d)"
    by (simp add: hmac_with_def K_def Let_def xor_pad_def d_def)
  have "length b2 = 64 + length d" using b2 by (simp add: d_def md5_spec_length)
  note p2 = pad_buffer [OF this x] and p1 = pad_buffer [OF b1(2) x]
  have "sz (64 + length data) = 64 + length data" using assms(5) by simp
  moreover have "take 80 (xor_pad 0x5c K @ d) = xor_pad 0x5c K @ d" using x by (simp add: d_def md5_spec_length)
  ultimately show ?thesis using assms(7-9) unfolding XHMAC_MD5_def keys k_def [symmetric]
    by (simp add: Let_def b1 b2 p1 p2 inner outer res x)
qed

text \<open>
  With working allocators \<open>XHMAC_MD5\<close> and \<open>XHMAC_MD5_NEW\<close> give the HMAC-MD5 of RFC 2104 in hexadecimal whenever the key
  has at most 64 bytes; a longer key is cut to its first 16 bytes instead of being replaced by its digest.
\<close>

theorem hmac_md5:
  assumes "malloc_spec m" "\<forall>n. m n \<noteq> None" "\<forall>n. c n \<noteq> None" "length junk = 16" "length data + 64 < 2 ^ 29"
    "length pKey < 2 ^ 29" "33 \<le> nSize" "data \<noteq> []" "pKey \<noteq> []"
  shows "XHMAC_MD5 m c junk nSize data pKey =
      Some (XSTDOK, Some (concat (map hex2 (rfc2104 md5_spec (if length pKey \<le> 64 then pKey else take 16 pKey) data)) @ [0])) \<and>
    XHMAC_MD5_NEW True m c junk data pKey =
      Some (Some (Some (concat (map hex2 (rfc2104 md5_spec (if length pKey \<le> 64 then pKey else take 16 pKey) data)) @ [0])))"
  using hmac_md5_run [OF assms] hmac_md5_run [OF assms(1-6), of 33] assms(8,9)
  by (simp add: rfc2104_def XHMAC_MD5_NEW_def split: if_splits)

lemma hmac_md5_witness:
  "XHMAC_MD5 zero_malloc zero_malloc (replicate 16 7) 33 [97] [1, 2] =
    Some (XSTDOK, Some (concat (map hex2 (rfc2104 md5_spec [1, 2] [97])) @ [0]))"
  using hmac_md5 [of zero_malloc zero_malloc "replicate 16 7" "[97]" "[1, 2]" 33] by (simp add: zero_malloc_def)

end
