(* ===== verification/Sha1.thy ===== *)
theory Sha1
  imports MdHash
begin

text \<open>
  SHA-1, \<open>src/src/crypt/sha1.c\<close>, on a little-endian host. The lengths and offsets of \<open>XSHA1_Update\<close> are \<open>uint32_t\<close>, kept
  at their width; the rounds name the five registers in turn, here by their position in the list of registers. The
  reference is FIPS 180-4 (\<open>sha1_spec\<close>), and the streaming interface is the one of SHA-256.
\<close>

section \<open>The code\<close>

record xsha1_ctx =
  s1_state :: "u32 list"
  s1_count0 :: u32
  s1_count1 :: u32
  s1_buffer :: "byte list"

definition XSHA1_ROL :: "u32 \<Rightarrow> nat \<Rightarrow> u32" where
  "XSHA1_ROL v b = push_bit b v OR drop_bit (32 - b) v"

text \<open>\<open>XSHA1_BLK0\<close> and \<open>XSHA1_BLK\<close>: the words of the block after the assignment in them.\<close>

definition XSHA1_BLK0 :: "u32 list \<Rightarrow> nat \<Rightarrow> u32 list" where
  "XSHA1_BLK0 w i = w[i := (XSHA1_ROL (w ! i) 24 AND 0xFF00FF00) OR (XSHA1_ROL (w ! i) 8 AND 0x00FF00FF)]"

definition XSHA1_BLK :: "u32 list \<Rightarrow> nat \<Rightarrow> u32 list" where
  "XSHA1_BLK w i = w[i mod 16 := XSHA1_ROL (w ! (i mod 16) XOR w ! ((i + 2) mod 16) XOR w ! ((i + 8) mod 16) XOR w ! ((i + 13) mod 16)) 1]"

definition XSHA_R01 :: "u32 \<Rightarrow> u32 \<Rightarrow> u32 \<Rightarrow> u32" where
  "XSHA_R01 w x y = (w AND (x XOR y)) XOR y"

definition XSHA_R24 :: "u32 \<Rightarrow> u32 \<Rightarrow> u32 \<Rightarrow> u32" where
  "XSHA_R24 w x y = w XOR x XOR y"

definition XSHA_R3I :: "u32 \<Rightarrow> u32 \<Rightarrow> u32 \<Rightarrow> u32" where
  "XSHA_R3I w x y = ((w OR x) AND y) OR (w AND x)"

text \<open>
  Operation \<open>i\<close>: \<open>XSHA1_R0\<close> to \<open>XSHA1_R4\<close>, on the block \<open>w\<close> and the registers \<open>a\<close> to \<open>e\<close>. The arguments move one register
  back with each operation, so the first one of operation \<open>i\<close> is register \<open>-i mod 5\<close>.
\<close>

definition sha1_op :: "nat \<Rightarrow> u32 list \<times> u32 list \<Rightarrow> u32 list \<times> u32 list" where
  "sha1_op i = (\<lambda>(w, r).
     let v = (5 - i mod 5) mod 5; wi = (v + 1) mod 5; x = (v + 2) mod 5; y = (v + 3) mod 5; z = (v + 4) mod 5;
         w = (if i < 16 then XSHA1_BLK0 w i else XSHA1_BLK w i);
         f = (if i < 20 then XSHA_R01 else if i < 40 then XSHA_R24 else if i < 60 then XSHA_R3I else XSHA_R24);
         k = (if i < 20 then 0x5A827999 else if i < 40 then 0x6ED9EBA1 else if i < 60 then 0x8F1BBCDC else 0xCA62C1D6);
         r = r[z := r ! z + (f (r ! wi) (r ! x) (r ! y) + w ! (i mod 16) + k + XSHA1_ROL (r ! v) 5)]
     in (w, r[wi := XSHA1_ROL (r ! wi) 30]))"

definition XSHA1_Transform :: "u32 list \<Rightarrow> byte list \<Rightarrow> u32 list" where
  "XSHA1_Transform state buf = map2 (+) state (snd (fold sha1_op [0..<80] (block_words buf, state)))"

definition sha1_H0 :: "u32 list" where
  "sha1_H0 = [0x67452301, 0xEFCDAB89, 0x98BADCFE, 0x10325476, 0xC3D2E1F0]"

text \<open>The buffer is not initialised; \<open>junk\<close> is its content.\<close>

definition XSHA1_Init :: "byte list \<Rightarrow> xsha1_ctx" where
  "XSHA1_Init junk = \<lparr>s1_state = sha1_H0, s1_count0 = 0, s1_count1 = 0, s1_buffer = junk\<rparr>"

text \<open>The loop over whole blocks of the input, from offset \<open>i\<close>; it gives the state and the offset it stops at.\<close>

partial_function (option) sha1_blocks :: "byte list \<Rightarrow> u32 \<Rightarrow> u32 \<Rightarrow> u32 list \<Rightarrow> (u32 list \<times> u32) option" where
  "sha1_blocks data n i st =
     (if i + 63 < n
      then do { blk \<leftarrow> mread data (unat i) 64; sha1_blocks data n (i + 64) (XSHA1_Transform st blk) }
      else Some (st, i))"

definition XSHA1_Update :: "xsha1_ctx \<Rightarrow> byte list \<Rightarrow> u32 \<Rightarrow> xsha1_ctx option" where
  "XSHA1_Update ctx data nLength =
     (if nLength = 0 then Some ctx
      else let j = s1_count0 ctx;
               c0 = j + push_bit 3 nLength;
               c1 = (if c0 < j then s1_count1 ctx + 1 else s1_count1 ctx) + drop_bit 29 nLength;
               ctx = ctx\<lparr>s1_count0 := c0, s1_count1 := c1\<rparr>;
               j = drop_bit 3 j AND 63
        in do {
          (ctx, i, j) \<leftarrow>
            (if 63 < j + nLength
             then let i = 64 - j in do {
               part \<leftarrow> mread data 0 (unat i);
               b \<leftarrow> memcpy (s1_buffer ctx) (unat j) part;
               (st, i) \<leftarrow> sha1_blocks data nLength i (XSHA1_Transform (s1_state ctx) b);
               Some (ctx\<lparr>s1_state := st, s1_buffer := b\<rparr>, i, 0) }
             else Some (ctx, 0, j));
          part \<leftarrow> mread data (unat i) (unat (nLength - i));
          b \<leftarrow> memcpy (s1_buffer ctx) (unat j) part;
          Some (ctx\<lparr>s1_buffer := b\<rparr>) })"

partial_function (option) sha1_zeros :: "xsha1_ctx \<Rightarrow> xsha1_ctx option" where
  "sha1_zeros ctx =
     (if s1_count0 ctx AND 504 \<noteq> 448 then do { ctx \<leftarrow> XSHA1_Update ctx [0] 1; sha1_zeros ctx } else Some ctx)"

declare sha1_blocks.simps [code] sha1_zeros.simps [code]

text \<open>The bytes of a word from the highest, as the two loops of \<open>XSHA1_Final\<close> shift them out.\<close>

definition shift_out :: "u32 list \<Rightarrow> nat \<Rightarrow> byte list" where
  "shift_out ws n = map (\<lambda>i. ucast (drop_bit ((3 - i mod 4) * 8) (ws ! (i div 4)) AND 255)) [0..<n]"

definition XSHA1_Final :: "xsha1_ctx \<Rightarrow> (xsha1_ctx \<times> byte list) option" where
  "XSHA1_Final ctx =
     (let finalCount = shift_out [s1_count1 ctx, s1_count0 ctx] 8
      in do {
        ctx \<leftarrow> XSHA1_Update ctx [0x80, 0] 1;
        ctx \<leftarrow> sha1_zeros ctx;
        ctx \<leftarrow> XSHA1_Update ctx finalCount 8;
        Some (ctx, shift_out (s1_state ctx) 20) })"

definition XSHA1_Compute :: "byte list \<Rightarrow> nat \<Rightarrow> byte list \<Rightarrow> (int \<times> byte list) option" where
  "XSHA1_Compute junk nSize data =
     (if nSize < 20 then Some (XSTDINV, [])
      else do {
        ctx \<leftarrow> XSHA1_Update (XSHA1_Init junk) data (of_nat (length data));
        (_, digest) \<leftarrow> XSHA1_Final ctx;
        Some (XSTDOK, digest) })"

definition XSHA1_ComputeSum :: "byte list \<Rightarrow> nat \<Rightarrow> byte list \<Rightarrow> (int \<times> byte list) option" where
  "XSHA1_ComputeSum junk nSize data =
     (if nSize < 41 then Some (XSTDINV, [])
      else do { (_, digest) \<leftarrow> XSHA1_Compute junk nSize data; Some (XSTDOK, concat (map hex2 digest) @ [0]) })"

definition XSHA1_Sum :: "bool \<Rightarrow> byte list \<Rightarrow> byte list \<Rightarrow> byte list option option" where
  "XSHA1_Sum ok junk data = (if \<not> ok then Some None else do { (_, h) \<leftarrow> XSHA1_ComputeSum junk 41 data; Some (Some h) })"

definition XSHA1_Encrypt :: "bool \<Rightarrow> byte list \<Rightarrow> byte list \<Rightarrow> byte list option option" where
  "XSHA1_Encrypt ok junk data = (if \<not> ok then Some None else do { (_, h) \<leftarrow> XSHA1_Compute junk 21 data; Some (Some (h @ [0])) })"

section \<open>The reference\<close>

definition fips1_f :: "nat \<Rightarrow> u32 \<Rightarrow> u32 \<Rightarrow> u32 \<Rightarrow> u32" where
  "fips1_f t x y z =
     (if t < 20 then (x AND y) XOR (NOT x AND z) else if t < 40 then x XOR y XOR z
      else if t < 60 then (x AND y) XOR (x AND z) XOR (y AND z) else x XOR y XOR z)"

definition fips1_K :: "nat \<Rightarrow> u32" where
  "fips1_K t = [0x5A827999, 0x6ED9EBA1, 0x8F1BBCDC, 0xCA62C1D6] ! (t div 20)"

fun sha1_W :: "u32 list \<Rightarrow> nat \<Rightarrow> u32" where
  "sha1_W m t = (if t < 16 then m ! t else word_rotl 1 (sha1_W m (t - 3) XOR sha1_W m (t - 8) XOR sha1_W m (t - 14) XOR sha1_W m (t - 16)))"

declare sha1_W.simps [simp del]

fun fips1_round :: "nat \<Rightarrow> u32 \<Rightarrow> u32 list \<Rightarrow> u32 list" where
  "fips1_round t wt [a, b, c, d, e] = [word_rotl 5 a + fips1_f t b c d + e + fips1_K t + wt, a, word_rotl 30 b, c, d]"
| "fips1_round t wt r = r"

definition sha1_compress :: "u32 list \<Rightarrow> byte list \<Rightarrow> u32 list" where
  "sha1_compress h b = map2 (+) h (fold (\<lambda>t. fips1_round t (sha1_W (be_words b) t)) [0..<80] h)"

definition fips1_H0 :: "u32 list" where
  "fips1_H0 = [0x67452301, 0xEFCDAB89, 0x98BADCFE, 0x10325476, 0xC3D2E1F0]"

definition sha1_spec :: "byte list \<Rightarrow> byte list" where
  "sha1_spec xs =
     concat (map (\<lambda>w. be_bytes 4 (unat w)) (foldl sha1_compress fips1_H0 (chunks 64 (md_pad (be_bytes 8) xs))))"

section \<open>The block function\<close>

lemma initial_hash: "sha1_H0 = fips1_H0" "length fips1_H0 = 5"
  by (simp_all add: sha1_H0_def fips1_H0_def)

lemma sha1_rol: "0 < c \<Longrightarrow> c < 32 \<Longrightarrow> XSHA1_ROL x c = word_rotl c x"
  by (simp add: XSHA1_ROL_def rotl32)

lemma sha1_functions:
  "XSHA_R01 x y z = (x AND y) XOR (NOT x AND z)" "XSHA_R3I x y z = (x AND y) XOR (x AND z) XOR (y AND z)"
  by (auto simp: XSHA_R01_def XSHA_R3I_def bit_simps intro!: bit_word_eqI)

lemma masks:
  "\<forall>i\<in>set [0..<32]. bit (0xFF00FF00 :: u32) i = odd (i div 8) \<and> bit (0x00FF00FF :: u32) i = even (i div 8) \<and>
     (if odd (i div 8) then (i + 8) mod 32 else (i + 24) mod 32) = 8 * (3 - i div 8) + i mod 8"
  by code_simp

lemma bit_bswap32: "i < 32 \<Longrightarrow> bit (bswap32 w) i = bit w (8 * (3 - i div 8) + i mod 8)"
proof -
  assume i: "i < 32"
  define q m where "q = i div 8" and "m = i mod 8"
  have im: "i = 8 * q + m" "m < 8" "q < 4" using i by (auto simp: q_def m_def)
  then consider "q = 0" | "q = 1" | "q = 2" | "q = 3" by linarith
  then show ?thesis
    unfolding q_def [symmetric] m_def [symmetric] using im
    by cases (auto simp: bswap32_def of_le_def le_bytes_def bit_simps)
qed

lemma blk0_bswap: "(XSHA1_ROL w 24 AND 0xFF00FF00) OR (XSHA1_ROL w 8 AND 0x00FF00FF) = bswap32 w"
proof (rule bit_word_eqI)
  fix i assume "i < LENGTH(32)"
  then have i: "i < 32" by simp
  have m: "bit (0xFF00FF00 :: u32) i = odd (i div 8)" "bit (0x00FF00FF :: u32) i = even (i div 8)"
    using bspec [OF masks, of i] i by simp_all
  have rot: "bit (word_rotl 24 w) i = bit w ((i + 8) mod 32)" "bit (word_rotl 8 w) i = bit w ((i + 24) mod 32)"
    using i by (simp_all add: bit_word_rotl_iff)
  have idx: "(if odd (i div 8) then (i + 8) mod 32 else (i + 24) mod 32) = 8 * (3 - i div 8) + i mod 8"
    using bspec [OF masks, of i] i by simp
  have "bit ((XSHA1_ROL w 24 AND 0xFF00FF00) OR (XSHA1_ROL w 8 AND 0x00FF00FF)) i =
      (if odd (i div 8) then bit (word_rotl 24 w) i else bit (word_rotl 8 w) i)"
    using m sha1_rol [of 24 w] sha1_rol [of 8 w] by (simp only: bit_or_iff bit_and_iff) simp
  also have "\<dots> = bit w (8 * (3 - i div 8) + i mod 8)" using idx rot by (auto split: if_splits)
  finally show "bit ((XSHA1_ROL w 24 AND 0xFF00FF00) OR (XSHA1_ROL w 8 AND 0x00FF00FF)) i = bit (bswap32 w) i"
    using bit_bswap32 [OF i] by simp
qed

text \<open>Before operation \<open>i\<close>: words below \<open>i\<close> hold the schedule, the others of the first sixteen the block.\<close>

definition sha1_sched :: "byte list \<Rightarrow> nat \<Rightarrow> u32 list \<Rightarrow> bool" where
  "sha1_sched b i w \<longleftrightarrow>
     (if i < 16 then length w = 16 \<and> (\<forall>t<16. w ! t = (if t < i then sha1_W (be_words b) t else block_words b ! t))
      else window (sha1_W (be_words b)) i w)"

lemma sha1_sched_step:
  assumes "sha1_sched b i w" "length b = 64"
  defines "w' \<equiv> if i < 16 then XSHA1_BLK0 w i else XSHA1_BLK w i"
  shows "sha1_sched b (Suc i) w' \<and> w' ! (i mod 16) = sha1_W (be_words b) i"
proof (cases "i < 16")
  case True
  have "sha1_W (be_words b) i = be_words b ! i" using True by (simp add: sha1_W.simps)
  also have "\<dots> = bswap32 (block_words b ! i)"
    using True be_words_swap [OF assms(2)] by (metis block_words_length nth_map)
  finally have W: "bswap32 (block_words b ! i) = sha1_W (be_words b) i" by simp
  have w': "w' = w[i := sha1_W (be_words b) i]" "length w = 16"
    using True assms(1) W by (auto simp: w'_def sha1_sched_def XSHA1_BLK0_def blk0_bswap)
  have val: "w' ! t = (if t < Suc i then sha1_W (be_words b) t else block_words b ! t)" if "t < 16" for t
    using True assms(1) w' that by (auto simp: sha1_sched_def nth_list_update)
  have "sha1_sched b (Suc i) w'"
  proof (cases "Suc i < 16")
    case True
    then show ?thesis using val w' by (simp add: sha1_sched_def)
  next
    case False
    then have "Suc i = 16" using \<open>i < 16\<close> by simp
    then show ?thesis using val w' by (auto simp: sha1_sched_def window_def)
  qed
  then show ?thesis using val [of i] True by simp
next
  case False
  then have win: "window (sha1_W (be_words b)) i w" "16 \<le> i" using assms(1) by (auto simp: sha1_sched_def)
  note bk = window_back [OF win]
  have "sha1_W (be_words b) i =
      word_rotl 1 (sha1_W (be_words b) (i - 3) XOR sha1_W (be_words b) (i - 8) XOR sha1_W (be_words b) (i - 14) XOR sha1_W (be_words b) (i - 16))"
    using False by (subst sha1_W.simps) simp
  also have "\<dots> = XSHA1_ROL (w ! (i mod 16) XOR w ! ((i + 2) mod 16) XOR w ! ((i + 8) mod 16) XOR w ! ((i + 13) mod 16)) 1"
    using bk [of 3] bk [of 8] bk [of 14] bk [of 16] by (simp add: sha1_rol xor.assoc xor.commute xor.left_commute)
  finally have "w' = w[i mod 16 := sha1_W (be_words b) i]" using False by (simp add: w'_def XSHA1_BLK_def)
  moreover have "length w = 16" using win by (simp add: window_def)
  ultimately show ?thesis using window_step [OF win] win by (auto simp: sha1_sched_def)
qed

lemma list5: "length xs = 5 \<Longrightarrow> \<exists>a b c d e. xs = [a, b, c, d, e]"
  by (auto simp: length_Suc_conv eval_nat_numeral)

lemma fips1_round_length: "length r = 5 \<Longrightarrow> length (fips1_round t w r) = 5"
  by (drule list5) auto

lemma rotate5:
  "rotate 0 [a, b, c, d, e] = [a, b, c, d, e]" "rotate 1 [a, b, c, d, e] = [b, c, d, e, a]"
  "rotate 2 [a, b, c, d, e] = [c, d, e, a, b]" "rotate 3 [a, b, c, d, e] = [d, e, a, b, c]"
  "rotate 4 [a, b, c, d, e] = [e, a, b, c, d]" "rotate 5 [a, b, c, d, e] = [a, b, c, d, e]"
  by (simp_all add: eval_nat_numeral)

text \<open>The registers of the code are those of the reference, turned by one place with each operation.\<close>

lemma sha1_op:
  assumes "sha1_sched b i w" "length b = 64" "length r = 5" "i < 80"
  shows "\<exists>w'. sha1_op i (w, rotate i r) = (w', rotate (Suc i) (fips1_round i (sha1_W (be_words b) i) r)) \<and> sha1_sched b (Suc i) w'"
proof -
  obtain a b' c d e where r: "r = [a, b', c, d, e]" using list5 [OF assms(3)] by blast
  define w' where "w' = (if i < 16 then XSHA1_BLK0 w i else XSHA1_BLK w i)"
  have w': "sha1_sched b (Suc i) w'" "w' ! (i mod 16) = sha1_W (be_words b) i"
    using sha1_sched_step [OF assms(1,2)] by (simp_all add: w'_def)
  have f: "(if i < 20 then XSHA_R01 else if i < 40 then XSHA_R24 else if i < 60 then XSHA_R3I else XSHA_R24) x y z = fips1_f i x y z" for x y z
    by (simp add: fips1_f_def sha1_functions XSHA_R24_def)
  have "i div 20 = (if i < 20 then 0 else if i < 40 then 1 else if i < 60 then 2 else 3)" using assms(4) by auto
  then have k: "(if i < 20 then 0x5A827999 else if i < 40 then 0x6ED9EBA1 else if i < 60 then 0x8F1BBCDC else 0xCA62C1D6) = fips1_K i"
    by (simp add: fips1_K_def)
  have turn: "rotate i r = rotate (i mod 5) r" "\<And>q. length q = 5 \<Longrightarrow> rotate (Suc i) q = rotate (i mod 5 + 1) q"
    using r rotate_conv_mod [of i r] by (simp, metis Suc_eq_plus1 mod_Suc_eq rotate_conv_mod)
  have "i mod 5 < 5" by simp
  then consider "i mod 5 = 0" | "i mod 5 = 1" | "i mod 5 = 2" | "i mod 5 = 3" | "i mod 5 = 4" by linarith
  then have "sha1_op i (w, rotate i r) = (w', rotate (Suc i) (fips1_round i (sha1_W (be_words b) i) r))"
    unfolding sha1_op_def Let_def prod.case w'_def [symmetric] f k turn(1) turn(2) [OF fips1_round_length [OF assms(3)]] w'(2)
    unfolding r
    by cases (simp_all add: rotate5 sha1_rol add_ac)
  then show ?thesis using w'(1) by blast
qed

lemma sha1_ops:
  assumes "length b = 64" "length r = 5" "n \<le> 80"
  shows "\<exists>w. fold sha1_op [0..<n] (block_words b, r) = (w, rotate n (fold (\<lambda>t. fips1_round t (sha1_W (be_words b) t)) [0..<n] r)) \<and>
    sha1_sched b n w \<and> length (fold (\<lambda>t. fips1_round t (sha1_W (be_words b) t)) [0..<n] r) = 5"
  using assms(3)
proof (induction n)
  case 0
  then show ?case using assms by (simp add: sha1_sched_def)
next
  case (Suc n)
  define q where "q = fold (\<lambda>t. fips1_round t (sha1_W (be_words b) t)) [0..<n] r"
  obtain w where w: "fold sha1_op [0..<n] (block_words b, r) = (w, rotate n q)" "sha1_sched b n w" "length q = 5"
    using Suc by (auto simp: q_def)
  obtain w' where "sha1_op n (w, rotate n q) = (w', rotate (Suc n) (fips1_round n (sha1_W (be_words b) n) q))" "sha1_sched b (Suc n) w'"
    using sha1_op [OF w(2) assms(1) w(3)] Suc.prems by auto
  then show ?case using w fips1_round_length [OF w(3)] by (simp add: q_def [symmetric])
qed

lemma transform:
  assumes "length st = 5" "length b = 64"
  shows "XSHA1_Transform st b = sha1_compress st b" "length (sha1_compress st b) = 5"
proof -
  have "rotate 80 q = q" if "length q = 5" for q :: "u32 list"
    using rotate_conv_mod [of 80 q] that by simp
  then show "XSHA1_Transform st b = sha1_compress st b" "length (sha1_compress st b) = 5"
    using sha1_ops [OF assms(2,1), of 80] assms(1) by (auto simp: XSHA1_Transform_def sha1_compress_def)
qed

section \<open>Counting bits\<close>

definition sha1_bits :: "xsha1_ctx \<Rightarrow> nat" where
  "sha1_bits ctx = unat (s1_count1 ctx) * 2 ^ 32 + unat (s1_count0 ctx)"

lemma two_digits: "b < B \<Longrightarrow> (a mod B) * B + b = (a * B + b) mod (B * B)" for a b B :: nat
  by (simp add: mod_mult2_eq mult.commute add.commute)

lemma count_add:
  fixes c0 c1 n :: u32
  defines "d0 \<equiv> c0 + push_bit 3 n"
  defines "d1 \<equiv> (if d0 < c0 then c1 + 1 else c1) + drop_bit 29 n"
  shows "unat d1 * 2 ^ 32 + unat d0 = (unat c1 * 2 ^ 32 + unat c0 + 8 * unat n) mod 2 ^ 64"
proof -
  let ?B = "2 ^ 32 :: nat"
  define lo hi where "lo = 8 * unat n mod ?B" and "hi = 8 * unat n div ?B"
  have n8: "8 * unat n = hi * ?B + lo" unfolding lo_def hi_def by (rule div_mult_mod_eq [symmetric])
  have push: "unat (push_bit 3 n) = lo"
    by (simp add: lo_def push_bit_eq_mult unat_word_ariths mult.commute)
  have drp: "unat (drop_bit 29 n) = hi"
  proof -
    have "unat (drop_bit 29 n) = drop_bit 29 (unat n)" by (rule unat_drop_bit_eq)
    also have "\<dots> = unat n div 2 ^ 29" by (rule drop_bit_eq_div)
    also have "\<dots> = hi" using div_mult2_eq [of "8 * unat n" 8 "2 ^ 29"] by (simp add: hi_def)
    finally show ?thesis .
  qed
  have c0: "unat c0 < ?B" and lo: "lo < ?B" using unsigned_less [of c0] by (simp_all add: lo_def)
  have d0: "unat d0 = (unat c0 + lo) mod ?B" by (simp add: d0_def unat_word_ariths push)
  define carry where "carry = (unat c0 + lo) div ?B"
  have carry: "(d0 < c0) = (carry = 1)" "carry \<le> 1"
    using c0 lo d0 by (auto simp: carry_def word_less_nat_alt mod_if div_if)
  have d1: "unat d1 = (unat c1 + carry + hi) mod ?B"
  proof -
    have "(if d0 < c0 then c1 + 1 else c1) = c1 + of_nat carry"
      using carry by (cases carry) auto
    then have "d1 = of_nat (unat c1 + carry + unat (drop_bit 29 n))"
      by (simp only: d1_def of_nat_add of_nat_unat ucast_id)
    then have "d1 = of_nat (unat c1 + carry + hi)" unfolding drp .
    then show ?thesis by (simp only: unat_of_nat) simp
  qed
  have "unat d1 * ?B + unat d0 = ((unat c1 + carry + hi) * ?B + unat d0) mod (?B * ?B)"
    unfolding d1 by (rule two_digits) (simp add: d0)
  also have "(unat c1 + carry + hi) * ?B + unat d0 = unat c1 * ?B + unat c0 + 8 * unat n"
  proof -
    have "carry * ?B + unat d0 = unat c0 + lo" unfolding carry_def d0 by (rule div_mult_mod_eq)
    then show ?thesis using n8 by (simp add: algebra_simps)
  qed
  finally show ?thesis by simp
qed

lemma and63: "unat (x AND 63 :: u32) = unat x mod 64"
proof -
  have eq: "x AND 63 = take_bit 6 x" by (simp add: take_bit_eq_mask mask_eq_exp_minus_1)
  show ?thesis unfolding eq unsigned_take_bit_eq by (simp add: take_bit_eq_mod)
qed

lemma bits_pending:
  assumes "sha1_bits ctx = 8 * k mod 2 ^ 64"
  shows "unat (drop_bit 3 (s1_count0 ctx) AND 63) = k mod 64"
proof -
  have "unat (s1_count0 ctx) < 2 ^ 32" using unsigned_less [of "s1_count0 ctx"] by simp
  then have "unat (s1_count0 ctx) = sha1_bits ctx mod 2 ^ 32" by (simp add: sha1_bits_def)
  also have "\<dots> = 8 * k mod 2 ^ 32" unfolding assms by (simp add: mod_mod_cancel)
  finally have "unat (s1_count0 ctx) = 8 * k mod (8 * 2 ^ 29)" by simp
  then have "unat (s1_count0 ctx) = 8 * (k mod 2 ^ 29)" by (simp only: mult_mod_right)
  then have "unat (drop_bit 3 (s1_count0 ctx)) = k mod 2 ^ 29" unfolding unat_drop_bit_eq by (simp add: drop_bit_eq_div)
  then show ?thesis by (simp only: and63) (simp add: mod_mod_cancel)
qed

section \<open>Streaming\<close>

definition sha1_at :: "xsha1_ctx \<Rightarrow> byte list \<Rightarrow> byte list \<Rightarrow> bool" where
  "sha1_at ctx m r \<longleftrightarrow>
     md_split sha1_compress fips1_H0 m (s1_state ctx) r \<and> length (s1_state ctx) = 5 \<and> length (s1_buffer ctx) = 64 \<and>
     take (length r) (s1_buffer ctx) = r \<and> sha1_bits ctx = 8 * length m mod 2 ^ 64"

lemma sha1_at_init: "length junk = 64 \<Longrightarrow> sha1_at (XSHA1_Init junk) [] []"
  by (simp add: sha1_at_def XSHA1_Init_def md_split_init initial_hash sha1_bits_def)

lemma sha1_blocks:
  assumes "md_split sha1_compress fips1_H0 (m @ take (unat i) data) st []" "length st = 5"
    "unat i \<le> unat n" "unat n \<le> length data" "64 dvd unat i + j" "j + unat n < 2 ^ 32" "j < 64"
  shows "\<exists>st' i'. sha1_blocks data n i st = Some (st', i') \<and> length st' = 5 \<and> unat i' \<le> unat n \<and> unat n < unat i' + 64 \<and>
    md_split sha1_compress fips1_H0 (m @ take (unat i') data) st' []"
  using assms
proof (induction "unat n - unat i" arbitrary: i st rule: less_induct)
  case less
  obtain q where q: "unat i + j = 64 * q" using less.prems(5) by (rule dvdE)
  moreover have "unat i + j < 2 ^ 32" using less.prems by simp
  ultimately have small: "unat i + j + 63 < 2 ^ 32" by simp
  then have i63: "unat (i + 63) = unat i + 63" by (simp add: unat_word_ariths)
  show ?case
  proof (cases "i + 63 < n")
    case False
    then have "unat n < unat i + 64" using i63 by (simp add: word_less_nat_alt)
    then show ?thesis using False less.prems by (subst sha1_blocks.simps) auto
  next
    case True
    then have more: "unat i + 64 \<le> unat n" using i63 by (simp add: word_less_nat_alt)
    then have i64: "unat (i + 64) = unat i + 64" using less.prems by (simp add: unat_word_ariths)
    define blk where "blk = take 64 (drop (unat i) data)"
    have blk: "mread data (unat i) 64 = Some blk" "length blk = 64" using more less.prems by (auto simp: mread_def blk_def)
    have "take (unat (i + 64)) data = take (unat i) data @ blk"
      unfolding i64 blk_def by (rule take_add)
    then have "md_split sha1_compress fips1_H0 (m @ take (unat (i + 64)) data) (XSHA1_Transform st blk) []"
      using md_split_full [OF less.prems(1), of blk] blk(2) transform(1) [OF less.prems(2) blk(2)] by simp
    moreover have "length (XSHA1_Transform st blk) = 5" using transform [OF less.prems(2) blk(2)] by simp
    moreover have "64 dvd unat (i + 64) + j"
      unfolding i64 using dvd_add [OF less.prems(5) dvd_refl] by (simp only: add_ac)
    moreover have "unat n - unat (i + 64) < unat n - unat i" "unat (i + 64) \<le> unat n" using more i64 by auto
    ultimately obtain st' i' where "sha1_blocks data n (i + 64) (XSHA1_Transform st blk) = Some (st', i')" "length st' = 5"
      "unat i' \<le> unat n" "unat n < unat i' + 64" "md_split sha1_compress fips1_H0 (m @ take (unat i') data) st' []"
      using less.hyps [of "i + 64" "XSHA1_Transform st blk"] less.prems(4,6,7) by blast
    then show ?thesis using True blk(1) by (subst sha1_blocks.simps) simp
  qed
qed

lemma unat_sub: "b \<le> a \<Longrightarrow> unat (a - b) = unat a - unat b" for a b :: u32
  by (simp add: unat_sub_if_size word_le_nat_alt)

lemma sha1_update:
  assumes "sha1_at ctx m r" "unat n \<le> length data" "length r + unat n < 2 ^ 32"
  shows "\<exists>ctx' r'. XSHA1_Update ctx data n = Some ctx' \<and> sha1_at ctx' (m @ take (unat n) data) r'"
proof (cases "n = 0")
  case True
  then show ?thesis using assms(1) by (auto simp: XSHA1_Update_def)
next
  case False
  note st = assms(1) [unfolded sha1_at_def]
  note split = st [THEN conjunct1]
  define c0 c1 where "c0 = s1_count0 ctx + push_bit 3 n"
    and "c1 = (if c0 < s1_count0 ctx then s1_count1 ctx + 1 else s1_count1 ctx) + drop_bit 29 n"
  define ctx1 where "ctx1 = ctx\<lparr>s1_count0 := c0, s1_count1 := c1\<rparr>"
  define j where "j = drop_bit 3 (s1_count0 ctx) AND 63"
  have bits: "sha1_bits ctx1 = 8 * length (m @ take (unat n) data) mod 2 ^ 64"
  proof -
    have "sha1_bits ctx1 = (sha1_bits ctx + 8 * unat n) mod 2 ^ 64"
      using count_add [where ?c0.0 = "s1_count0 ctx" and ?c1.0 = "s1_count1 ctx" and n = n] by (simp add: sha1_bits_def ctx1_def c0_def c1_def)
    also have "\<dots> = (8 * length m mod 2 ^ 64 + 8 * unat n) mod 2 ^ 64" using st by simp
    also have "\<dots> = (8 * length m + 8 * unat n) mod 2 ^ 64" by (rule mod_add_left_eq)
    finally show ?thesis using assms(2) by (simp add: min_absorb2)
  qed
  have r: "length r < 64" using split by (auto simp: md_split_def)
  have j: "unat j = length r"
    using bits_pending [of ctx "length m"] st md_split_length [OF split] by (simp add: j_def)
  have jn: "unat (j + n) = length r + unat n" using j assms(3) by (simp add: unat_word_ariths)
  show ?thesis
  proof (cases "63 < j + n")
    case True
    then have big: "64 \<le> length r + unat n" using jn by (simp add: word_less_nat_alt)
    have i: "unat (64 - j) = 64 - length r" using unat_sub [of j 64] r j by (simp add: word_le_nat_alt)
    define b where "b = r @ take (64 - length r) data"
    have len: "length (take (64 - length r) data) = 64 - length r" using big assms(2) by simp
    have b: "length b = 64" using len r by (simp add: b_def)
    have rd: "mread data 0 (unat (64 - j)) = Some (take (64 - length r) data)" unfolding i using big assms(2) by (simp add: mread_def)
    have cp: "memcpy (s1_buffer ctx) (unat j) (take (64 - length r) data) = Some b"
      using st len r by (simp add: memcpy_def j b_def)
    have full: "md_split sha1_compress fips1_H0 (m @ take (unat (64 - j)) data) (XSHA1_Transform (s1_state ctx) b) []"
      using md_split_full [OF split, of "take (64 - length r) data"] len r transform(1) [of "s1_state ctx" b] st b
      unfolding i b_def by simp
    have l5: "length (XSHA1_Transform (s1_state ctx) b) = 5" using transform [of "s1_state ctx" b] st b by simp
    have "64 - length r \<le> unat n" using big by linarith
    then obtain st' i' where run: "sha1_blocks data n (64 - j) (XSHA1_Transform (s1_state ctx) b) = Some (st', i')" "length st' = 5"
      "unat i' \<le> unat n" "unat n < unat i' + 64" "md_split sha1_compress fips1_H0 (m @ take (unat i') data) st' []"
      using sha1_blocks [OF full l5, where n = n and j = "length r"] i big assms(2,3) r by auto
    define p where "p = take (unat n - unat i') (drop (unat i') data)"
    have diff: "unat (n - i') = unat n - unat i'" using unat_sub [of i' n] run(3) by (simp add: word_le_nat_alt)
    have p: "mread data (unat i') (unat (n - i')) = Some p" "length p < 64"
      unfolding diff p_def using run(3,4) assms(2) by (auto simp: mread_def)
    have "take (unat n) data = take (unat i') data @ p" unfolding p_def using take_add [of "unat i'" "unat n - unat i'" data] run(3) by simp
    then have sp: "md_split sha1_compress fips1_H0 (m @ take (unat n) data) st' p" using md_split_part [OF run(5), of p] p(2) by simp
    have cp2: "memcpy b 0 p = Some (p @ drop (length p) b)" using p(2) b by (simp add: memcpy_def)
    have "XSHA1_Update ctx data n = Some (ctx1\<lparr>s1_state := st', s1_buffer := p @ drop (length p) b\<rparr>)"
      using False True unfolding XSHA1_Update_def Let_def c0_def [symmetric] c1_def [symmetric] ctx1_def [symmetric] j_def [symmetric]
      by (simp add: rd cp run(1) p(1) cp2) (simp add: ctx1_def cp rd run(1) p(1) cp2)
    moreover have "sha1_at (ctx1\<lparr>s1_state := st', s1_buffer := p @ drop (length p) b\<rparr>) (m @ take (unat n) data) p"
      using sp run(2) bits b p(2) by (simp add: sha1_at_def sha1_bits_def)
    ultimately show ?thesis by blast
  next
    case small: False
    then have le: "length r + unat n < 64" using jn by (simp add: word_less_nat_alt not_less)
    define b where "b = r @ take (unat n) data @ drop (length r + unat n) (s1_buffer ctx)"
    have cp: "memcpy (s1_buffer ctx) (unat j) (take (unat n) data) = Some b"
      using st le assms(2) by (simp add: memcpy_def j b_def min_absorb2)
    have rd: "mread data 0 (unat n) = Some (take (unat n) data)" using assms(2) by (simp add: mread_def)
    have len: "length (take (unat n) data) = unat n" using assms(2) by simp
    have b: "length b = 64" "take (length r + unat n) b = r @ take (unat n) data" using st le len by (auto simp: b_def)
    have "XSHA1_Update ctx data n = Some (ctx1\<lparr>s1_buffer := b\<rparr>)"
      using False small unfolding XSHA1_Update_def Let_def c0_def [symmetric] c1_def [symmetric] ctx1_def [symmetric] j_def [symmetric]
      by (simp add: rd cp) (simp add: ctx1_def rd cp)
    moreover have "sha1_at (ctx1\<lparr>s1_buffer := b\<rparr>) (m @ take (unat n) data) (r @ take (unat n) data)"
      using md_split_part [OF split, of "take (unat n) data"] le len st b bits by (simp add: sha1_at_def ctx1_def sha1_bits_def)
    ultimately show ?thesis by blast
  qed
qed

lemma and504: "(x AND 504 = 448) \<longleftrightarrow> unat (drop_bit 3 x AND 63) = 56" for x :: u32
proof -
  define y where "y = drop_bit 3 x AND 63"
  have "unat y < 64" unfolding y_def and63 by simp
  have "\<forall>i\<in>set [0..<32]. bit (504 :: u32) i = (3 \<le> i \<and> bit (63 :: u32) (i - 3))" by code_simp
  then have 504: "bit (504 :: u32) i = (3 \<le> i \<and> bit (63 :: u32) (i - 3))" if "i < 32" for i using that by simp
  have "x AND 504 = push_bit 3 y"
  proof (rule bit_word_eqI)
    fix i assume "i < LENGTH(32)"
    then have i: "i < 32" by simp
    show "bit (x AND 504) i = bit (push_bit 3 y) i"
      using 504 [OF i] i unfolding y_def bit_and_iff bit_push_bit_iff bit_drop_bit_eq by auto
  qed
  moreover have "unat (push_bit 3 y) = 8 * unat y"
    using \<open>unat y < 64\<close> by (simp add: push_bit_eq_mult unat_word_ariths mult.commute)
  moreover have "unat (448 :: u32) = 448" by simp
  ultimately have "(x AND 504 = 448) \<longleftrightarrow> 8 * unat y = 448" by (metis word_unat_eq_iff)
  then show ?thesis by (simp add: y_def)
qed

lemma sha1_zeros:
  assumes "sha1_at ctx m r"
  shows "\<exists>ctx' r'. sha1_zeros ctx = Some ctx' \<and>
    sha1_at ctx' (m @ replicate (if length m mod 64 \<le> 56 then 56 - length m mod 64 else 120 - length m mod 64) 0) r'"
  using assms
proof (induction "if length m mod 64 \<le> 56 then 56 - length m mod 64 else 120 - length m mod 64" arbitrary: ctx m r)
  case 0
  have "length m mod 64 < 64" by simp
  with 0 have m: "length m mod 64 = 56" by (auto split: if_splits)
  moreover have "unat (drop_bit 3 (s1_count0 ctx) AND 63) = length m mod 64"
    using bits_pending 0 by (simp add: sha1_at_def)
  ultimately have "s1_count0 ctx AND 504 = 448" by (simp add: and504)
  then show ?case using 0 m by (subst sha1_zeros.simps) auto
next
  case (Suc k)
  then have "length m mod 64 \<noteq> 56" by auto
  moreover have "unat (drop_bit 3 (s1_count0 ctx) AND 63) = length m mod 64"
    using bits_pending Suc by (simp add: sha1_at_def)
  ultimately have go: "s1_count0 ctx AND 504 \<noteq> 448" by (simp add: and504)
  have "length r < 64" using Suc.prems by (auto simp: sha1_at_def md_split_def)
  then obtain ctx1 r1 where step: "XSHA1_Update ctx [0] 1 = Some ctx1" "sha1_at ctx1 (m @ [0]) r1"
    using sha1_update [OF Suc.prems, of 1 "[0]"] by auto
  have gap: "(if length (m @ [0]) mod 64 \<le> 56 then 56 - length (m @ [0]) mod 64 else 120 - length (m @ [0]) mod 64) = k"
    using Suc.hyps(2) by (auto simp: mod_Suc split: if_splits)
  obtain ctx' r' where "sha1_zeros ctx1 = Some ctx'" "sha1_at ctx' ((m @ [0]) @ replicate k 0) r'"
    using Suc.hyps(1) [OF _ step(2)] unfolding gap by blast
  then show ?case using go step(1) unfolding Suc.hyps(2) [symmetric] by (subst sha1_zeros.simps) auto
qed

lemma shift_out_word: "[ucast (drop_bit 24 w AND 255), ucast (drop_bit 16 w AND 255), ucast (drop_bit 8 w AND 255), ucast (w AND 255)] =
    be_bytes 4 (unat w)" for w :: u32
proof -
  have low: "ucast (x AND 255) = (ucast x :: byte)" for x :: u32
  proof -
    have "x AND 255 = take_bit 8 x" by (simp add: take_bit_eq_mask mask_eq_exp_minus_1)
    then show ?thesis by (auto simp: bit_simps intro!: bit_word_eqI)
  qed
  show ?thesis unfolding low rev_le_bytes [symmetric] le_bytes_def by simp
qed

lemma shift_out_two: "shift_out [a, b] 8 = be_bytes 4 (unat a) @ be_bytes 4 (unat b)"
proof -
  have "[0..<8] = [0, 1, 2, 3, 4, 5, 6, 7 :: nat]" by code_simp
  then show ?thesis unfolding shift_out_word [symmetric] by (simp add: shift_out_def)
qed

lemma shift_out_five: "length ws = 5 \<Longrightarrow> shift_out ws 20 = concat (map (\<lambda>w. be_bytes 4 (unat w)) ws)"
proof -
  assume "length ws = 5"
  then obtain a b c d e where ws: "ws = [a, b, c, d, e]" using list5 by blast
  have "[0..<20] = [0, 1, 2, 3, 4, 5, 6, 7, 8, 9, 10, 11, 12, 13, 14, 15, 16, 17, 18, 19 :: nat]" by code_simp
  then show ?thesis unfolding ws list.map concat.simps shift_out_word [symmetric] by (simp add: shift_out_def)
qed

lemma sha1_final:
  assumes "sha1_at ctx m r"
  shows "\<exists>ctx'. XSHA1_Final ctx = Some (ctx', sha1_spec m)"
proof -
  have r: "length r < 64" using assms by (auto simp: sha1_at_def md_split_def)
  have fc: "shift_out [s1_count1 ctx, s1_count0 ctx] 8 = be_bytes 8 (8 * length m)"
  proof -
    have "unat (s1_count0 ctx) < 2 ^ 32" using unsigned_less [of "s1_count0 ctx"] by simp
    then have d: "sha1_bits ctx div 2 ^ 32 = unat (s1_count1 ctx)" "sha1_bits ctx mod 2 ^ 32 = unat (s1_count0 ctx)"
      by (simp_all add: sha1_bits_def)
    have "be_bytes 8 (sha1_bits ctx) = be_bytes 4 (unat (s1_count1 ctx)) @ be_bytes 4 (unat (s1_count0 ctx))"
      using be_bytes_add [of 4 4 "sha1_bits ctx"] be_bytes_mod [of 4 "sha1_bits ctx"] d by simp
    moreover have "be_bytes 8 (sha1_bits ctx) = be_bytes 8 (8 * length m)"
      using assms be_bytes_mod [of 8 "8 * length m"] by (simp add: sha1_at_def)
    ultimately show ?thesis by (simp add: shift_out_two)
  qed
  obtain c1 r1 where s1: "XSHA1_Update ctx [0x80, 0] 1 = Some c1" "sha1_at c1 (m @ [0x80]) r1"
    using sha1_update [OF assms, of 1 "[0x80, 0]"] r by auto
  have z: "(if length (m @ [0x80]) mod 64 \<le> 56 then 56 - length (m @ [0x80]) mod 64 else 120 - length (m @ [0x80]) mod 64) = md_zeros (length m)"
    by (auto simp: md_zeros_def mod_Suc)
  define p where "p = m @ 0x80 # replicate (md_zeros (length m)) 0"
  obtain c2 r2 where s2: "sha1_zeros c1 = Some c2" "sha1_at c2 p r2"
    using sha1_zeros [OF s1(2)] unfolding z by (auto simp: p_def)
  have r2: "length r2 < 64" using s2(2) by (auto simp: sha1_at_def md_split_def)
  obtain c3 r3 where s3: "XSHA1_Update c2 (be_bytes 8 (8 * length m)) 8 = Some c3" "sha1_at c3 (p @ be_bytes 8 (8 * length m)) r3"
    using sha1_update [OF s2(2), of 8 "be_bytes 8 (8 * length m)"] r2 by auto
  have "(length m + Suc (md_zeros (length m))) mod 64 = 56"
    by (rule md_zeros_pad)
  then have gen: "(length m + Suc (md_zeros (length m)) + 8) mod 64 = 0"
    by (simp only: mod_add_eq [symmetric, of "length m + Suc (md_zeros (length m))" 8]) simp
  have pad: "p @ be_bytes 8 (8 * length m) = md_pad (be_bytes 8) m" by (simp add: p_def md_pad_def)
  have "length (p @ be_bytes 8 (8 * length m)) = length m + Suc (md_zeros (length m)) + 8" by (simp add: p_def)
  then have "length (p @ be_bytes 8 (8 * length m)) mod 64 = 0" using gen by (simp only:)
  moreover have sp: "md_split sha1_compress fips1_H0 (p @ be_bytes 8 (8 * length m)) (s1_state c3) r3" using s3(2) by (simp add: sha1_at_def)
  ultimately have "length r3 = 0" using md_split_length [OF sp] by (simp only:)
  then have "md_split sha1_compress fips1_H0 (md_pad (be_bytes 8) m) (s1_state c3) []" using sp pad by simp
  then have "foldl sha1_compress fips1_H0 (chunks 64 (md_pad (be_bytes 8) m)) = s1_state c3" by (rule md_split_result)
  moreover have "length (s1_state c3) = 5" using s3(2) by (simp add: sha1_at_def)
  ultimately have "shift_out (s1_state c3) 20 = sha1_spec m" by (simp add: sha1_spec_def shift_out_five)
  then show ?thesis using s1(1) s2(1) s3(1) by (simp add: XSHA1_Final_def fc)
qed

section \<open>Results\<close>

text \<open>The instance of the streaming interface; the memory of the buffer before \<open>XSHA1_Init\<close> is zero in it.\<close>

interpretation sha1: md_stream "\<lambda>s m. \<exists>r. sha1_at s m r" "\<lambda>d. length d \<le> 2 ^ 32 - 64" "XSHA1_Init (replicate 64 0)"
  "\<lambda>s d. XSHA1_Update s d (of_nat (length d))" XSHA1_Final sha1_spec
proof unfold_locales
  show "\<exists>r. sha1_at (XSHA1_Init (replicate 64 0)) [] r" using sha1_at_init [of "replicate 64 0"] by auto
  fix s m and d :: "byte list" assume "\<exists>r. sha1_at s m r" and fits: "length d \<le> 2 ^ 32 - 64"
  then obtain r where r: "sha1_at s m r" by blast
  then have "length r < 64" by (auto simp: sha1_at_def md_split_def)
  moreover have "unat (of_nat (length d) :: u32) = length d" using fits by (simp add: unat_of_nat)
  ultimately show "\<exists>s'. XSHA1_Update s d (of_nat (length d)) = Some s' \<and> (\<exists>r. sha1_at s' (m @ d) r)"
    using sha1_update [OF r, of "of_nat (length d)" d] fits by auto
next
  fix s m assume "\<exists>r. sha1_at s m r"
  then show "\<exists>s'. XSHA1_Final s = Some (s', sha1_spec m)" using sha1_final by blast
qed

lemma sha1_compute:
  assumes "length junk = 64"
  shows "XSHA1_Compute junk n d = Some (if n < 20 then (XSTDINV, []) else (XSTDOK, sha1_spec (take (length d mod 2 ^ 32) d)))"
proof -
  have len: "unat (of_nat (length d) :: u32) = length d mod 2 ^ 32" by (simp add: unat_of_nat)
  then have "unat (of_nat (length d) :: u32) \<le> length d" "unat (of_nat (length d) :: u32) < 2 ^ 32" by simp_all
  then obtain s r where s: "XSHA1_Update (XSHA1_Init junk) d (of_nat (length d)) = Some s" "sha1_at s ([] @ take (length d mod 2 ^ 32) d) r"
    using sha1_update [OF sha1_at_init [OF assms], of "of_nat (length d)" d] unfolding len by auto
  obtain s' where "XSHA1_Final s = Some (s', sha1_spec ([] @ take (length d mod 2 ^ 32) d))" using sha1_final [OF s(2)] by blast
  then show ?thesis using s(1) by (simp add: XSHA1_Compute_def)
qed

text \<open>
  C33: pieces of at most \<open>2 ^ 32 - 64\<close> bytes each, fed to \<open>XSHA1_Update\<close> in any cut and finished by \<open>XSHA1_Final\<close>, stay in
  bounds and give the SHA-1 digest of FIPS 180-4 of the whole message. \<open>XSHA1_Compute\<close> and its wrappers give it for one
  block, but read its length modulo \<open>2 ^ 32\<close>: of 4 GB or more only a prefix is digested.
\<close>

theorem sha1_digest:
  assumes "\<forall>d\<in>set ds. length d \<le> 2 ^ 32 - 64" "length junk = 64"
  shows "md_run (\<lambda>s d. XSHA1_Update s d (of_nat (length d))) XSHA1_Final (XSHA1_Init (replicate 64 0)) ds = Some (sha1_spec (concat ds)) \<and>
    XSHA1_Compute junk n d = Some (if n < 20 then (XSTDINV, []) else (XSTDOK, sha1_spec (take (length d mod 2 ^ 32) d))) \<and>
    XSHA1_ComputeSum junk n d =
      Some (if n < 41 then (XSTDINV, []) else (XSTDOK, concat (map hex2 (sha1_spec (take (length d mod 2 ^ 32) d))) @ [0])) \<and>
    XSHA1_Sum True junk d = Some (Some (concat (map hex2 (sha1_spec (take (length d mod 2 ^ 32) d))) @ [0])) \<and>
    XSHA1_Encrypt True junk d = Some (Some (sha1_spec (take (length d mod 2 ^ 32) d) @ [0]))"
  using sha1.pieces [OF assms(1)]
  by (simp add: sha1_compute [OF assms(2)] XSHA1_ComputeSum_def XSHA1_Sum_def XSHA1_Encrypt_def)

lemma sha1_digest_witness:
  "XSHA1_Compute (replicate 64 7) 20 [97, 98, 99] = Some (XSTDOK, sha1_spec [97, 98, 99])"
  using sha1_digest [of "[[97], [98, 99]]" "replicate 64 7" 20 "[97, 98, 99]"] by simp

end
