(* ===== verification/Crc32.thy ===== *)
theory Crc32
  imports Bytes
begin

text \<open>
  The two checksums of \<open>src/src/crypt/crc32.c\<close>. The counter of both loops is an \<open>unsigned int\<close> compared with a \<open>size_t\<close>.
  \<open>XCRC32_Compute\<close> is related to the reflected polynomial 0xEDB88320 of CRC-32, bit by bit (\<open>crc_bit\<close>), with the initial
  value 0 and no final complement. The error-detection theorems are about bytes of a message that change in transit.
\<close>

section \<open>The code\<close>

definition g_crc32Table :: "u32 list" where
  "g_crc32Table =
     [0x00000000, 0x77073096, 0xee0e612c, 0x990951ba, 0x076dc419, 0x706af48f, 0xe963a535, 0x9e6495a3,
      0x0edb8832, 0x79dcb8a4, 0xe0d5e91e, 0x97d2d988, 0x09b64c2b, 0x7eb17cbd, 0xe7b82d07, 0x90bf1d91,
      0x1db71064, 0x6ab020f2, 0xf3b97148, 0x84be41de, 0x1adad47d, 0x6ddde4eb, 0xf4d4b551, 0x83d385c7,
      0x136c9856, 0x646ba8c0, 0xfd62f97a, 0x8a65c9ec, 0x14015c4f, 0x63066cd9, 0xfa0f3d63, 0x8d080df5,
      0x3b6e20c8, 0x4c69105e, 0xd56041e4, 0xa2677172, 0x3c03e4d1, 0x4b04d447, 0xd20d85fd, 0xa50ab56b,
      0x35b5a8fa, 0x42b2986c, 0xdbbbc9d6, 0xacbcf940, 0x32d86ce3, 0x45df5c75, 0xdcd60dcf, 0xabd13d59,
      0x26d930ac, 0x51de003a, 0xc8d75180, 0xbfd06116, 0x21b4f4b5, 0x56b3c423, 0xcfba9599, 0xb8bda50f,
      0x2802b89e, 0x5f058808, 0xc60cd9b2, 0xb10be924, 0x2f6f7c87, 0x58684c11, 0xc1611dab, 0xb6662d3d,
      0x76dc4190, 0x01db7106, 0x98d220bc, 0xefd5102a, 0x71b18589, 0x06b6b51f, 0x9fbfe4a5, 0xe8b8d433,
      0x7807c9a2, 0x0f00f934, 0x9609a88e, 0xe10e9818, 0x7f6a0dbb, 0x086d3d2d, 0x91646c97, 0xe6635c01,
      0x6b6b51f4, 0x1c6c6162, 0x856530d8, 0xf262004e, 0x6c0695ed, 0x1b01a57b, 0x8208f4c1, 0xf50fc457,
      0x65b0d9c6, 0x12b7e950, 0x8bbeb8ea, 0xfcb9887c, 0x62dd1ddf, 0x15da2d49, 0x8cd37cf3, 0xfbd44c65,
      0x4db26158, 0x3ab551ce, 0xa3bc0074, 0xd4bb30e2, 0x4adfa541, 0x3dd895d7, 0xa4d1c46d, 0xd3d6f4fb,
      0x4369e96a, 0x346ed9fc, 0xad678846, 0xda60b8d0, 0x44042d73, 0x33031de5, 0xaa0a4c5f, 0xdd0d7cc9,
      0x5005713c, 0x270241aa, 0xbe0b1010, 0xc90c2086, 0x5768b525, 0x206f85b3, 0xb966d409, 0xce61e49f,
      0x5edef90e, 0x29d9c998, 0xb0d09822, 0xc7d7a8b4, 0x59b33d17, 0x2eb40d81, 0xb7bd5c3b, 0xc0ba6cad,
      0xedb88320, 0x9abfb3b6, 0x03b6e20c, 0x74b1d29a, 0xead54739, 0x9dd277af, 0x04db2615, 0x73dc1683,
      0xe3630b12, 0x94643b84, 0x0d6d6a3e, 0x7a6a5aa8, 0xe40ecf0b, 0x9309ff9d, 0x0a00ae27, 0x7d079eb1,
      0xf00f9344, 0x8708a3d2, 0x1e01f268, 0x6906c2fe, 0xf762575d, 0x806567cb, 0x196c3671, 0x6e6b06e7,
      0xfed41b76, 0x89d32be0, 0x10da7a5a, 0x67dd4acc, 0xf9b9df6f, 0x8ebeeff9, 0x17b7be43, 0x60b08ed5,
      0xd6d6a3e8, 0xa1d1937e, 0x38d8c2c4, 0x4fdff252, 0xd1bb67f1, 0xa6bc5767, 0x3fb506dd, 0x48b2364b,
      0xd80d2bda, 0xaf0a1b4c, 0x36034af6, 0x41047a60, 0xdf60efc3, 0xa867df55, 0x316e8eef, 0x4669be79,
      0xcb61b38c, 0xbc66831a, 0x256fd2a0, 0x5268e236, 0xcc0c7795, 0xbb0b4703, 0x220216b9, 0x5505262f,
      0xc5ba3bbe, 0xb2bd0b28, 0x2bb45a92, 0x5cb36a04, 0xc2d7ffa7, 0xb5d0cf31, 0x2cd99e8b, 0x5bdeae1d,
      0x9b64c2b0, 0xec63f226, 0x756aa39c, 0x026d930a, 0x9c0906a9, 0xeb0e363f, 0x72076785, 0x05005713,
      0x95bf4a82, 0xe2b87a14, 0x7bb12bae, 0x0cb61b38, 0x92d28e9b, 0xe5d5be0d, 0x7cdcefb7, 0x0bdbdf21,
      0x86d3d2d4, 0xf1d4e242, 0x68ddb3f8, 0x1fda836e, 0x81be16cd, 0xf6b9265b, 0x6fb077e1, 0x18b74777,
      0x88085ae6, 0xff0f6a70, 0x66063bca, 0x11010b5c, 0x8f659eff, 0xf862ae69, 0x616bffd3, 0x166ccf45,
      0xa00ae278, 0xd70dd2ee, 0x4e048354, 0x3903b3c2, 0xa7672661, 0xd06016f7, 0x4969474d, 0x3e6e77db,
      0xaed16a4a, 0xd9d65adc, 0x40df0b66, 0x37d83bf0, 0xa9bcae53, 0xdebb9ec5, 0x47b2cf7f, 0x30b5ffe9,
      0xbdbdf21c, 0xcabac28a, 0x53b39330, 0x24b4a3a6, 0xbad03605, 0xcdd70693, 0x54de5729, 0x23d967bf,
      0xb3667a2e, 0xc4614ab8, 0x5d681b02, 0x2a6f2b94, 0xb40bbe37, 0xc30c8ea1, 0x5a05df1b, 0x2d02ef8d]"

text \<open>The loops; the counter wraps at \<open>2 ^ 32\<close>, so a longer input is never finished.\<close>

partial_function (option) crc_loop :: "byte list \<Rightarrow> nat \<Rightarrow> u32 \<Rightarrow> u32 option" where
  "crc_loop inp i nCRC =
     (if i < length inp
      then do {
        b \<leftarrow> peek inp i;
        let nIndex = (ucast ((nCRC XOR ucast b) AND 0xff) :: u16);
        v \<leftarrow> peek g_crc32Table (unat nIndex);
        crc_loop inp (Suc i mod 2 ^ 32) (v XOR drop_bit 8 nCRC) }
      else Some nCRC)"

definition XCRC32_Compute :: "byte list \<Rightarrow> u32 option" where
  "XCRC32_Compute inp = (if inp = [] then Some 0 else crc_loop inp 0 0)"

definition crcb_mix :: "u32 \<Rightarrow> u32" where
  "crcb_mix c = drop_bit 4 c XOR (c XOR push_bit 4 c)"

partial_function (option) crcb_loop :: "byte list \<Rightarrow> nat \<Rightarrow> u32 \<Rightarrow> u32 option" where
  "crcb_loop inp i nCRC =
     (if i < length inp
      then do {
        b \<leftarrow> peek inp i;
        let nCRC = nCRC XOR ucast b;
        crcb_loop inp (Suc i mod 2 ^ 32) (crcb_mix (crcb_mix (crcb_mix (crcb_mix nCRC)))) }
      else Some nCRC)"

definition XCRC32_ComputeB :: "byte list \<Rightarrow> u32 option" where
  "XCRC32_ComputeB inp = (if inp = [] then Some 0 else map_option NOT (crcb_loop inp 0 0xFFFFFFFF))"

declare crc_loop.simps [code] crcb_loop.simps [code]

section \<open>The reference\<close>

text \<open>One bit of the division by the polynomial, least significant bit first; a byte; a message.\<close>

definition crc_bit :: "u32 \<Rightarrow> u32" where
  "crc_bit c = (if bit c 0 then drop_bit 1 c XOR 0xEDB88320 else drop_bit 1 c)"

definition crc_byte :: "u32 \<Rightarrow> byte \<Rightarrow> u32" where
  "crc_byte c b = (crc_bit ^^ 8) (c XOR ucast b)"

definition crc_spec :: "byte list \<Rightarrow> u32" where
  "crc_spec = foldl crc_byte 0"

definition crcb_byte :: "u32 \<Rightarrow> byte \<Rightarrow> u32" where
  "crcb_byte c b = (crcb_mix ^^ 4) (c XOR ucast b)"

section \<open>The table is the division of a byte\<close>

lemma crc_bit_xor: "crc_bit (a XOR b) = crc_bit a XOR crc_bit b"
  by (auto simp: crc_bit_def bit_simps intro!: bit_word_eqI)

lemma crc_bits_xor: "(crc_bit ^^ n) (a XOR b) = (crc_bit ^^ n) a XOR (crc_bit ^^ n) b"
  by (induction n) (simp_all add: crc_bit_xor)

text \<open>By linearity the table doubles: the second half of \<open>2 ^ Suc k\<close> entries adds the entry of the power of two to the first.\<close>

fun crc_doubling :: "u32 list \<Rightarrow> nat \<Rightarrow> u32 list" where
  "crc_doubling t 0 = t"
| "crc_doubling t (Suc k) = (let t = crc_doubling t k; d = (crc_bit ^^ 8) (push_bit k 1) in t @ map (\<lambda>x. x XOR d) t)"

lemma pow_plus_xor: "k < 32 \<Longrightarrow> m < 2 ^ k \<Longrightarrow> (of_nat (2 ^ k + m) :: u32) = of_nat m XOR push_bit k 1"
proof -
  assume a: "k < 32" "m < 2 ^ k"
  have z: "\<not> bit m i" if "k \<le> i" for i
    using a(2) that bit_iff_odd [of m i] by (simp add: less_le_trans [OF _ power_increasing [of k i "2::nat"]])
  have "(of_nat (2 ^ k + m) :: u32) = of_nat m + push_bit k 1" by (simp add: push_bit_eq_mult)
  also have "\<dots> = of_nat m XOR push_bit k 1"
    by (rule disjunctive_add_eq_xor) (rule bit_word_eqI, auto simp: bit_simps z)
  finally show ?thesis .
qed

lemma crc_doubling: "k < 32 \<Longrightarrow> crc_doubling [0] k = map (\<lambda>n. (crc_bit ^^ 8) (of_nat n)) [0..<2 ^ k]"
proof (induction k)
  case 0
  have "(crc_bit ^^ 8) 0 = 0" using crc_bits_xor [of 8 0 0] by simp
  then show ?case by simp
next
  case (Suc k)
  have "[0..<2 ^ Suc k] = [0..<2 ^ k] @ map (\<lambda>m. 2 ^ k + m) [0..<2 ^ k]"
    using upt_add_eq_append [of 0 "2 ^ k" "2 ^ k"] map_add_upt [of "2 ^ k" "2 ^ k"] by (simp add: mult_2 add.commute)
  moreover have "map (\<lambda>x. x XOR (crc_bit ^^ 8) (push_bit k 1)) (map (\<lambda>n. (crc_bit ^^ 8) (of_nat n)) [0..<2 ^ k]) =
      map (\<lambda>n. (crc_bit ^^ 8) (of_nat n)) (map (\<lambda>m. 2 ^ k + m) [0..<2 ^ k])"
    using Suc.prems pow_plus_xor [of k] crc_bits_xor by (auto simp del: of_nat_add)
  ultimately show ?case using Suc by (simp add: Let_def)
qed

lemma crc_table: "n < 256 \<Longrightarrow> g_crc32Table ! n = (crc_bit ^^ 8) (of_nat n)" "length g_crc32Table = 256"
proof -
  have *: "crc_doubling [0] 8 = g_crc32Table" by code_simp
  show "length g_crc32Table = 256" by (simp add: g_crc32Table_def)
  assume n: "n < 256"
  have "g_crc32Table = map (\<lambda>n. (crc_bit ^^ 8) (of_nat n)) [0..<2 ^ 8]" using crc_doubling [of 8] * by simp
  moreover have "map (\<lambda>n. (crc_bit ^^ 8) (of_nat n)) [0..<2 ^ 8] ! n = (crc_bit ^^ 8) (of_nat ([0..<2 ^ 8] ! n))"
    by (rule nth_map) (use n in simp)
  moreover have "[0..<2 ^ 8] ! n = n" using n by simp
  ultimately show "g_crc32Table ! n = (crc_bit ^^ 8) (of_nat n)" by (simp only:)
qed

section \<open>The loops are folds\<close>

lemma crc_shift8:
  assumes "\<And>i. i < 8 \<Longrightarrow> \<not> bit a i"
  shows "(crc_bit ^^ 8) a = drop_bit 8 a"
proof -
  have "(crc_bit ^^ k) a = drop_bit k a" if "k \<le> 8" for k
    using that
  proof (induction k)
    case (Suc k)
    then have "\<not> bit (drop_bit k a) 0" using assms [of k] by (simp add: bit_simps)
    then show ?case using Suc by (simp add: crc_bit_def)
  qed simp
  then show ?thesis by simp
qed

lemma table_step: "peek g_crc32Table (unat (ucast ((c XOR ucast b) AND 0xff) :: u16)) = Some v \<Longrightarrow> v XOR drop_bit 8 c = crc_byte c b"
  and table_in: "\<exists>v. peek g_crc32Table (unat (ucast ((c XOR ucast b) AND 0xff) :: u16)) = Some v"
proof -
  let ?low = "(c XOR ucast b) AND 0xff"
  have m: "?low = take_bit 8 (c XOR ucast b)" by (simp add: take_bit_eq_mask mask_eq_exp_minus_1)
  have "unat ?low = unat (c XOR ucast b) mod 256" unfolding m unsigned_take_bit_eq by (simp add: take_bit_eq_mod)
  then have low: "unat ?low < 256" by simp
  then have u: "unat (ucast ?low :: u16) = unat ?low" by (simp add: unsigned_ucast_eq take_bit_eq_mod)
  show "\<exists>v. peek g_crc32Table (unat (ucast ?low :: u16)) = Some v"
    using low by (simp only: u peek_def crc_table(2)) simp
  assume "peek g_crc32Table (unat (ucast ?low :: u16)) = Some v"
  then have v: "v = (crc_bit ^^ 8) ?low"
    using crc_table(1) [OF low] low by (simp only: u peek_def crc_table(2) of_nat_unat) simp
  define hi where "hi = push_bit 8 (drop_bit 8 c)"
  have eq: "c XOR ucast b = ?low XOR hi"
    unfolding m hi_def by (rule bit_word_eqI) (auto simp: bit_simps byte_bit_high)
  have "(crc_bit ^^ 8) hi = drop_bit 8 hi" by (rule crc_shift8) (simp add: hi_def bit_simps)
  moreover have "drop_bit 8 hi = drop_bit 8 c"
  proof (rule bit_word_eqI)
    fix n assume "n < LENGTH(32)"
    then show "bit (drop_bit 8 hi) n = bit (drop_bit 8 c) n"
      using bit_imp_le_length [of c "8 + n"] by (auto simp: hi_def bit_simps)
  qed
  ultimately have hi: "(crc_bit ^^ 8) hi = drop_bit 8 c" by (simp only:)
  have "crc_byte c b = (crc_bit ^^ 8) (?low XOR hi)" unfolding crc_byte_def by (rule arg_cong [OF eq])
  also have "\<dots> = (crc_bit ^^ 8) ?low XOR (crc_bit ^^ 8) hi" by (rule crc_bits_xor)
  finally show "v XOR drop_bit 8 c = crc_byte c b" unfolding v hi by (rule sym)
qed

lemma crc_loop: "i \<le> length inp \<Longrightarrow> length inp < 2 ^ 32 \<Longrightarrow> crc_loop inp i c = Some (foldl crc_byte c (drop i inp))"
proof (induction "length inp - i" arbitrary: i c)
  case 0
  then show ?case by (subst crc_loop.simps) simp
next
  case (Suc k)
  then have i: "i < length inp" "Suc i mod 2 ^ 32 = Suc i" by auto
  obtain v where v: "peek g_crc32Table (unat (ucast ((c XOR ucast (inp ! i)) AND 0xff) :: u16)) = Some v" using table_in by blast
  have "crc_loop inp i c = crc_loop inp (Suc i) (crc_byte c (inp ! i))"
    using i table_step [OF v] by (subst crc_loop.simps) (simp add: peek_def [of inp] v Let_def)
  also have "\<dots> = Some (foldl crc_byte (crc_byte c (inp ! i)) (drop (Suc i) inp))" using Suc i by simp
  finally show ?case using i by (simp add: Cons_nth_drop_Suc [symmetric])
qed

lemma crcb_loop: "i \<le> length inp \<Longrightarrow> length inp < 2 ^ 32 \<Longrightarrow> crcb_loop inp i c = Some (foldl crcb_byte c (drop i inp))"
proof (induction "length inp - i" arbitrary: i c)
  case 0
  then show ?case by (subst crcb_loop.simps) simp
next
  case (Suc k)
  then have i: "i < length inp" "Suc i mod 2 ^ 32 = Suc i" by auto
  have "crcb_byte c (inp ! i) = crcb_mix (crcb_mix (crcb_mix (crcb_mix (c XOR ucast (inp ! i)))))"
    by (simp add: crcb_byte_def eval_nat_numeral)
  then have "crcb_loop inp i c = crcb_loop inp (Suc i) (crcb_byte c (inp ! i))"
    using i by (subst crcb_loop.simps) (simp add: peek_def Let_def)
  also have "\<dots> = Some (foldl crcb_byte (crcb_byte c (inp ! i)) (drop (Suc i) inp))" using Suc i by simp
  finally show ?case using i by (simp add: Cons_nth_drop_Suc [symmetric])
qed

text \<open>A counter of 32 bits never reaches a length of \<open>2 ^ 32\<close> or more.\<close>

lemma crc_loop_short: "crc_loop inp i c = Some r \<Longrightarrow> i < 2 ^ 32 \<longrightarrow> length inp < 2 ^ 32"
  by (erule crc_loop.raw_induct [where P = "\<lambda>inp i c r. i < 2 ^ 32 \<longrightarrow> length inp < 2 ^ 32", rotated])
    (auto split: if_splits bind_splits simp: Let_def)

lemma crcb_loop_short: "crcb_loop inp i c = Some r \<Longrightarrow> i < 2 ^ 32 \<longrightarrow> length inp < 2 ^ 32"
  by (erule crcb_loop.raw_induct [where P = "\<lambda>inp i c r. i < 2 ^ 32 \<longrightarrow> length inp < 2 ^ 32", rotated])
    (auto split: if_splits bind_splits simp: Let_def)

section \<open>Which errors the checksums see\<close>

lemma foldl_inj: "(\<And>b. inj (\<lambda>c. f c b)) \<Longrightarrow> foldl f c s = foldl f d s \<longleftrightarrow> c = d"
  by (induction s arbitrary: c d) (auto dest: injD)

text \<open>A step of the division can be undone: the top bit of its result says whether the polynomial was added.\<close>

definition crc_unbit :: "u32 \<Rightarrow> u32" where
  "crc_unbit r = (if bit r 31 then push_bit 1 (r XOR 0xEDB88320) OR 1 else push_bit 1 r)"

lemma crc_unbit: "crc_unbit (crc_bit c) = c"
proof -
  have top: "\<not> bit (drop_bit 1 c) 31" using bit_imp_le_length [of c 32] by (auto simp: bit_simps)
  have poly: "bit (0xEDB88320 :: u32) 31" by simp
  have low: "push_bit 1 (drop_bit 1 c) OR (if bit c 0 then 1 else 0) = c"
  proof (rule bit_word_eqI)
    fix n assume n: "n < LENGTH(32)"
    then have "bit (push_bit 1 (drop_bit 1 c)) n \<longleftrightarrow> 1 \<le> n \<and> bit c n"
      by (simp only: bit_push_bit_iff bit_drop_bit_eq) auto
    moreover have "bit (if bit c 0 then 1 else (0 :: u32)) n \<longleftrightarrow> bit c 0 \<and> n = 0" by (simp add: bit_1_iff)
    ultimately show "bit (push_bit 1 (drop_bit 1 c) OR (if bit c 0 then 1 else 0)) n = bit c n"
      unfolding bit_or_iff by (cases n) simp_all
  qed
  show ?thesis
  proof (cases "bit c 0")
    case True
    have "bit (drop_bit 1 c XOR 0xEDB88320) 31" using top poly by (simp only: bit_xor_iff) simp
    then show ?thesis using True low by (simp add: crc_unbit_def crc_bit_def xor.assoc)
  next
    case False
    then show ?thesis using top low by (simp add: crc_unbit_def crc_bit_def)
  qed
qed

lemma inj_crc_bits: "inj (crc_bit ^^ n)"
  by (rule inj_fn) (rule inj_on_inverseI [of _ crc_unbit], rule crc_unbit)

text \<open>Four bytes enter as a word and go through 32 steps.\<close>

lemma crc_bits_byte: "k \<le> 16 \<Longrightarrow> (crc_bit ^^ 8) (push_bit (8 + k) (ucast (b :: byte))) = push_bit k (ucast b)"
proof -
  assume k: "k \<le> 16"
  have "(crc_bit ^^ 8) (push_bit (8 + k) (ucast b)) = drop_bit 8 (push_bit (8 + k) (ucast b))"
    by (rule crc_shift8) (simp add: bit_simps)
  also have "\<dots> = push_bit k (ucast b)"
  proof (rule bit_word_eqI)
    fix n assume n: "n < LENGTH(32)"
    have "n < 24 \<or> \<not> bit b (n - k)"
    proof (cases "n < 24")
      case False
      then have "8 \<le> n - k" using k by linarith
      then show ?thesis using byte_bit_high by blast
    qed simp
    then show "bit (drop_bit 8 (push_bit (8 + k) (ucast b)) :: u32) n = bit (push_bit k (ucast b) :: u32) n"
      using n by (auto simp: bit_simps)
  qed
  finally show ?thesis .
qed

lemma crc_word: "foldl crc_byte c [b0, b1, b2, b3] = (crc_bit ^^ 32) (c XOR of_le [b0, b1, b2, b3])"
proof -
  let ?f = "crc_bit ^^ 8"
  have word: "of_le [b0, b1, b2, b3] = ucast b0 XOR (push_bit 8 (ucast b1) XOR (push_bit 16 (ucast b2) XOR push_bit 24 (ucast b3)))"
    unfolding of_le_def by (rule bit_word_eqI) (auto simp: bit_simps byte_bit_high)
  have f32: "(crc_bit ^^ 32) x = ?f (?f (?f (?f x)))" for x
    using funpow_add [of 8 24 crc_bit] funpow_add [of 8 16 crc_bit] funpow_add [of 8 8 crc_bit] by simp
  have b: "?f (push_bit 8 (ucast b)) = ucast b" "?f (push_bit 16 (ucast b)) = push_bit 8 (ucast b)"
    "?f (push_bit 24 (ucast b)) = push_bit 16 (ucast b)" for b :: byte
    using crc_bits_byte [of 0 b] crc_bits_byte [of 8 b] crc_bits_byte [of 16 b] by simp_all
  show ?thesis unfolding word f32 by (simp add: crc_byte_def crc_bits_xor b xor.assoc)
qed

lemma xor_cancel: "a XOR c = b XOR c \<Longrightarrow> a = b" for a b c :: u32
proof -
  assume eq: "a XOR c = b XOR c"
  have "a = (a XOR c) XOR c" by (simp add: xor.assoc)
  also have "\<dots> = (b XOR c) XOR c" by (simp only: eq)
  also have "\<dots> = b" by (simp add: xor.assoc)
  finally show ?thesis .
qed

lemma crc_byte_inj: "inj (\<lambda>c. crc_byte c b)"
proof (rule injI)
  fix x y assume "crc_byte x b = crc_byte y b"
  then have "x XOR ucast b = y XOR ucast b" unfolding crc_byte_def by (rule injD [OF inj_crc_bits])
  then show "x = y" by (rule xor_cancel)
qed

lemma of_le_inj: "length xs = 4 \<Longrightarrow> length ys = 4 \<Longrightarrow> of_le xs = of_le ys \<Longrightarrow> xs = ys"
  by (metis le_bytes_of_le)

lemma crc_burst:
  assumes "length xs = 4" "length ys = 4" "crc_spec (p @ xs @ s) = crc_spec (p @ ys @ s)"
  shows "xs = ys"
proof -
  define c where "c = foldl crc_byte 0 p"
  have four: "foldl crc_byte c zs = (crc_bit ^^ 32) (c XOR of_le zs)" if "length zs = 4" for zs
  proof -
    from that obtain b0 b1 b2 b3 where "zs = [b0, b1, b2, b3]" by (auto simp: length_Suc_conv eval_nat_numeral)
    then show ?thesis using crc_word [of c b0 b1 b2 b3] by (simp only:)
  qed
  have "foldl crc_byte (foldl crc_byte c xs) s = foldl crc_byte (foldl crc_byte c ys) s"
    using assms(3) by (simp add: crc_spec_def c_def)
  then have "foldl crc_byte c xs = foldl crc_byte c ys" by (simp only: foldl_inj [OF crc_byte_inj])
  then have "(crc_bit ^^ 32) (c XOR of_le xs) = (crc_bit ^^ 32) (c XOR of_le ys)"
    by (simp only: four [OF assms(1)] four [OF assms(2)])
  then have "c XOR of_le xs = c XOR of_le ys" by (rule injD [OF inj_crc_bits])
  then have "of_le xs XOR c = of_le ys XOR c" by (simp only: xor.commute [of c])
  then have "of_le xs = of_le ys" by (rule xor_cancel)
  then show ?thesis using of_le_inj assms(1,2) by blast
qed

lemma crcb_mix_xor: "crcb_mix (a XOR b) = crcb_mix a XOR crcb_mix b"
  unfolding crcb_mix_def by (rule bit_word_eqI) (auto simp: bit_simps)

lemma crcb_mixes_xor: "(crcb_mix ^^ n) (a XOR b) = (crcb_mix ^^ n) a XOR (crcb_mix ^^ n) b"
  by (induction n) (simp_all add: crcb_mix_xor)

lemma crcb_byte_xor: "crcb_byte (c XOR d) (b XOR e) = crcb_byte c b XOR crcb_byte d e"
proof -
  have "(c XOR d) XOR ucast (b XOR e) = (c XOR ucast b) XOR (d XOR ucast e)"
    by (rule bit_word_eqI) (auto simp: bit_simps)
  then show ?thesis by (simp add: crcb_byte_def crcb_mixes_xor)
qed

lemma crcb_blind: "foldl crcb_byte c [b0 XOR 1, b1 XOR 1, b2, b3 XOR 1] = foldl crcb_byte c [b0, b1, b2, b3]"
proof -
  have four: "(crcb_mix ^^ 4) x = crcb_mix (crcb_mix (crcb_mix (crcb_mix x)))" for x by (simp add: eval_nat_numeral)
  have z: "crcb_byte (crcb_byte (crcb_byte (crcb_byte 0 1) 1) 0) 1 = 0"
    unfolding crcb_byte_def four by (simp add: crcb_mix_def)
  have "foldl crcb_byte (c XOR 0) [b0 XOR 1, b1 XOR 1, b2 XOR 0, b3 XOR 1] =
      foldl crcb_byte c [b0, b1, b2, b3] XOR crcb_byte (crcb_byte (crcb_byte (crcb_byte 0 1) 1) 0) 1"
    by (simp only: foldl.simps crcb_byte_xor)
  then show ?thesis unfolding z by simp
qed

section \<open>Results\<close>

lemma crc_compute: "length inp < 2 ^ 32 \<Longrightarrow> XCRC32_Compute inp = Some (crc_spec inp)"
  using crc_loop [of 0 inp 0] by (auto simp: XCRC32_Compute_def crc_spec_def)

lemma crc_long: "2 ^ 32 \<le> length inp \<Longrightarrow> XCRC32_Compute inp = None \<and> XCRC32_ComputeB inp = None"
  using crc_loop_short [of inp 0 0] crcb_loop_short [of inp 0 "0xFFFFFFFF"]
  by (cases "crc_loop inp 0 0"; cases "crcb_loop inp 0 0xFFFFFFFF") (auto simp: XCRC32_Compute_def XCRC32_ComputeB_def)

text \<open>
  \<open>XCRC32_Compute\<close> returns exactly for inputs of less than 4 GB (the 32-bit counter never ends the loop on longer ones),
  and then gives the remainder of the bitwise division by the CRC-32 polynomial, from 0 and without a final complement.
  \<open>XCRC32_ComputeB\<close> returns for the same inputs.
\<close>

theorem crc32_compute:
  "XCRC32_Compute inp = (if length inp < 2 ^ 32 then Some (crc_spec inp) else None) \<and>
   (XCRC32_ComputeB inp = None \<longleftrightarrow> 2 ^ 32 \<le> length inp)"
proof (cases "length inp < 2 ^ 32")
  case True
  then show ?thesis using crc_compute crcb_loop [of 0 inp] by (auto simp: XCRC32_ComputeB_def)
next
  case False
  then show ?thesis using crc_long [of inp] by simp
qed

text \<open>
  C32: \<open>XCRC32_Compute\<close> detects every change of a message that is confined to four consecutive bytes.
  \<open>XCRC32_ComputeB\<close> does not: flipping the low bits of three of any four consecutive bytes never changes its result, so it
  is not a CRC of 32 bits.
\<close>

theorem crc32_bursts:
  assumes "length xs = 4" "length ys = 4" "length (p @ xs @ s) < 2 ^ 32"
  shows "(XCRC32_Compute (p @ xs @ s) = XCRC32_Compute (p @ ys @ s) \<longleftrightarrow> xs = ys) \<and>
    XCRC32_ComputeB (p @ [xs ! 0 XOR 1, xs ! 1 XOR 1, xs ! 2, xs ! 3 XOR 1] @ s) = XCRC32_ComputeB (p @ xs @ s)"
proof
  have "length (p @ ys @ s) < 2 ^ 32" using assms by simp
  then show "XCRC32_Compute (p @ xs @ s) = XCRC32_Compute (p @ ys @ s) \<longleftrightarrow> xs = ys"
    using crc_burst [OF assms(1,2)] crc_compute assms(3) by (auto simp del: length_append)
  obtain b0 b1 b2 b3 where xs: "xs = [b0, b1, b2, b3]" using assms(1) by (auto simp: length_Suc_conv eval_nat_numeral)
  have B: "XCRC32_ComputeB (p @ zs @ s) = Some (NOT (foldl crcb_byte (foldl crcb_byte (foldl crcb_byte 0xFFFFFFFF p) zs) s))"
    if "length zs = 4" for zs
    using crcb_loop [of 0 "p @ zs @ s"] assms that by (auto simp: XCRC32_ComputeB_def)
  show "XCRC32_ComputeB (p @ [xs ! 0 XOR 1, xs ! 1 XOR 1, xs ! 2, xs ! 3 XOR 1] @ s) = XCRC32_ComputeB (p @ xs @ s)"
    using B [of "[b0 XOR 1, b1 XOR 1, b2, b3 XOR 1]"] B [of "[b0, b1, b2, b3]"] crcb_blind unfolding xs by simp
qed

lemma crc32_bursts_witness:
  "XCRC32_Compute [9, 0, 0, 0, 0] \<noteq> XCRC32_Compute [9, 1, 1, 0, 1] \<and>
   XCRC32_ComputeB [9, 1, 1, 0, 1] = XCRC32_ComputeB [9, 0, 0, 0, 0]"
  using crc32_bursts [of "[0, 0, 0, 0]" "[1, 1, 0, 1]" "[9]" "[]"] by simp

end
