(* ===== verification/XList.thy ===== *)
theory XList
  imports Prelude
begin

text \<open>
  Doubly linked list, \<open>src/src/data/list.c\<close>. The nodes live in an explicit heap, a partial map from addresses to nodes:
  a node that was released is not in it, and following a pointer to it is a bad access (\<open>None\<close>). The data a node owns are
  values of a type \<open>'d\<close>; what the list does with them (the \<open>onClear\<close> callback, \<open>free\<close>) is recorded in the log \<open>evs\<close>. A
  function pointer is its number. Callbacks do not change the list. The loops have no bound in the code; they are partial
  functions, and a walk that does not end is \<open>None\<close> too.

  \<open>dll m p xs n\<close> says that the nodes \<open>xs\<close> are linked in this order, from \<open>p\<close> before the first to \<open>n\<close> after the last.
\<close>

section \<open>The code\<close>

record 'd xlist_data =
  onClear :: "nat option"
  pClearCtx :: "nat option"
  pData :: "'d option"
  nSize :: nat

record 'd xlist =
  pNext :: "nat option"
  pPrev :: "nat option"
  l_data :: "'d xlist_data"
  nIsAlloc :: bool

datatype 'd event = Cleared nat "nat option" 'd | Freed 'd

record 'd lheap =
  mem :: "nat \<rightharpoonup> 'd xlist"
  evs :: "'d event list"

text \<open>Writing a field of the node at an address; \<open>new\<close> is the allocator of nodes.\<close>

definition put :: "'d lheap \<Rightarrow> nat \<Rightarrow> ('d xlist \<Rightarrow> 'd xlist) \<Rightarrow> 'd lheap option" where
  "put h a f = do { n \<leftarrow> mem h a; Some (h\<lparr>mem := (mem h)(a \<mapsto> f n)\<rparr>) }"

type_synonym 'd alloc = "(nat \<rightharpoonup> 'd xlist) \<Rightarrow> nat option"

definition fresh_spec :: "'d alloc \<Rightarrow> bool" where
  "fresh_spec new \<longleftrightarrow> (\<forall>m a. new m = Some a \<longrightarrow> m a = None)"

definition XListData_Init :: "'d option \<Rightarrow> nat \<Rightarrow> nat option \<Rightarrow> nat option \<Rightarrow> 'd xlist_data" where
  "XListData_Init d n cb cx = \<lparr>onClear = cb, pClearCtx = cx, pData = d, nSize = n\<rparr>"

definition XListData_MergeCtx :: "'d xlist_data \<Rightarrow> 'd xlist_data \<Rightarrow> 'd xlist_data" where
  "XListData_MergeCtx nxt prv =
     (let nxt = (if pClearCtx nxt = None then nxt\<lparr>pClearCtx := pClearCtx prv\<rparr> else nxt)
      in if onClear nxt = None then nxt\<lparr>onClear := onClear prv\<rparr> else nxt)"

definition XList_Init :: "'d lheap \<Rightarrow> nat \<Rightarrow> 'd option \<Rightarrow> nat \<Rightarrow> nat option \<Rightarrow> nat option \<Rightarrow> 'd lheap" where
  "XList_Init h a d n cb cx =
     h\<lparr>mem := (mem h)(a \<mapsto> \<lparr>pNext = None, pPrev = None, l_data = XListData_Init d n cb cx, nIsAlloc = False\<rparr>)\<rparr>"

definition XList_New ::
  "'d alloc \<Rightarrow> 'd lheap \<Rightarrow> 'd option \<Rightarrow> nat \<Rightarrow> nat option \<Rightarrow> nat option \<Rightarrow> ('d lheap \<times> nat option) option" where
  "XList_New new h d n cb cx =
     (case new (mem h) of None \<Rightarrow> Some (h, None)
      | Some a \<Rightarrow> do { h \<leftarrow> put (XList_Init h a d n cb cx) a (\<lambda>n. n\<lparr>nIsAlloc := True\<rparr>); Some (h, Some a) })"

text \<open>What releasing a node does with its data.\<close>

definition release :: "'d xlist_data \<Rightarrow> 'd event list" where
  "release d =
     (case pData d of None \<Rightarrow> []
      | Some x \<Rightarrow> (case onClear d of Some f \<Rightarrow> [Cleared f (pClearCtx d) x] | None \<Rightarrow> if 0 < nSize d then [Freed x] else []))"

definition XList_Free :: "'d lheap \<Rightarrow> nat option \<Rightarrow> 'd lheap option" where
  "XList_Free h p =
     (case p of None \<Rightarrow> Some h
      | Some a \<Rightarrow> do {
          n \<leftarrow> mem h a;
          let h = h\<lparr>evs := evs h @ release (l_data n)\<rparr>;
          Some (if nIsAlloc n then h\<lparr>mem := (mem h)(a := None)\<rparr> else XList_Init h a None 0 None None) })"

definition XList_Detach :: "'d lheap \<Rightarrow> nat option \<Rightarrow> 'd lheap option" where
  "XList_Detach h p =
     (case p of None \<Rightarrow> Some h
      | Some a \<Rightarrow> do {
          n \<leftarrow> mem h a;
          h \<leftarrow> (case pPrev n of None \<Rightarrow> Some h | Some b \<Rightarrow> put h b (\<lambda>x. x\<lparr>pNext := pNext n\<rparr>));
          h \<leftarrow> (case pNext n of None \<Rightarrow> Some h | Some b \<Rightarrow> put h b (\<lambda>x. x\<lparr>pPrev := pPrev n\<rparr>));
          put h a (\<lambda>x. x\<lparr>pPrev := None, pNext := None\<rparr>) })"

definition XList_Unlink :: "'d lheap \<Rightarrow> nat option \<Rightarrow> ('d lheap \<times> nat option) option" where
  "XList_Unlink h p =
     (case p of None \<Rightarrow> Some (h, None)
      | Some a \<Rightarrow> do {
          n \<leftarrow> mem h a;
          h \<leftarrow> XList_Detach h p;
          h \<leftarrow> XList_Free h p;
          Some (h, if pNext n \<noteq> None then pNext n else pPrev n) })"

partial_function (option) go_head :: "'d lheap \<Rightarrow> nat \<Rightarrow> nat option" where
  "go_head h a = do { n \<leftarrow> mem h a; (case pPrev n of None \<Rightarrow> Some a | Some b \<Rightarrow> go_head h b) }"

partial_function (option) go_tail :: "'d lheap \<Rightarrow> nat \<Rightarrow> nat option" where
  "go_tail h a = do { n \<leftarrow> mem h a; (case pNext n of None \<Rightarrow> Some a | Some b \<Rightarrow> go_tail h b) }"

definition XList_GetHead :: "'d lheap \<Rightarrow> nat option \<Rightarrow> nat option option" where
  "XList_GetHead h p = (case p of None \<Rightarrow> Some None | Some a \<Rightarrow> do { b \<leftarrow> go_head h a; Some (Some b) })"

definition XList_GetTail :: "'d lheap \<Rightarrow> nat option \<Rightarrow> nat option option" where
  "XList_GetTail h p = (case p of None \<Rightarrow> Some None | Some a \<Rightarrow> do { b \<leftarrow> go_tail h a; Some (Some b) })"

definition XList_RemoveHead :: "'d lheap \<Rightarrow> nat option \<Rightarrow> ('d lheap \<times> nat option) option" where
  "XList_RemoveHead h p = do { q \<leftarrow> XList_GetHead h p; XList_Unlink h q }"

definition XList_RemoveTail :: "'d lheap \<Rightarrow> nat option \<Rightarrow> ('d lheap \<times> nat option) option" where
  "XList_RemoveTail h p = do { q \<leftarrow> XList_GetTail h p; XList_Unlink h q }"

definition XList_MakeRing :: "'d lheap \<Rightarrow> nat option \<Rightarrow> ('d lheap \<times> nat option) option" where
  "XList_MakeRing h p =
     (case p of None \<Rightarrow> Some (h, None)
      | Some a \<Rightarrow> do {
          hd \<leftarrow> go_head h a;
          tl \<leftarrow> go_tail h a;
          h \<leftarrow> put h hd (\<lambda>x. x\<lparr>pPrev := Some tl\<rparr>);
          h \<leftarrow> put h tl (\<lambda>x. x\<lparr>pNext := Some hd\<rparr>);
          Some (h, Some hd) })"

partial_function (option) ring_walk :: "'d lheap \<Rightarrow> nat \<Rightarrow> nat option \<Rightarrow> nat option option" where
  "ring_walk h a p =
     (case p of None \<Rightarrow> Some None
      | Some b \<Rightarrow> if b = a then Some p else do { n \<leftarrow> mem h b; ring_walk h a (pNext n) })"

definition XList_IsRing :: "'d lheap \<Rightarrow> nat option \<Rightarrow> bool option" where
  "XList_IsRing h p =
     (case p of None \<Rightarrow> Some False
      | Some a \<Rightarrow> do { n \<leftarrow> mem h a; q \<leftarrow> ring_walk h a (pNext n); Some (q = Some a) })"

partial_function (option) XList_Clear :: "'d lheap \<Rightarrow> nat option \<Rightarrow> 'd lheap option" where
  "XList_Clear h p = (case p of None \<Rightarrow> Some h | Some a \<Rightarrow> do { (h, q) \<leftarrow> XList_Unlink h p; XList_Clear h q })"

text \<open>\<open>XListData_MergeCtx\<close> on two nodes of the heap.\<close>

definition merge_ctx :: "'d lheap \<Rightarrow> nat \<Rightarrow> nat \<Rightarrow> 'd lheap option" where
  "merge_ctx h a b = do { nb \<leftarrow> mem h b; put h a (\<lambda>x. x\<lparr>l_data := XListData_MergeCtx (l_data x) (l_data nb)\<rparr>) }"

definition XList_InsertPrev :: "'d lheap \<Rightarrow> nat option \<Rightarrow> nat option \<Rightarrow> ('d lheap \<times> nat option) option" where
  "XList_InsertPrev h pList pNode =
     (case (pList, pNode) of
        (Some l, Some x) \<Rightarrow> do {
          h \<leftarrow> merge_ctx h x l;
          nl \<leftarrow> mem h l;
          h \<leftarrow> put h l (\<lambda>n. n\<lparr>pPrev := Some x\<rparr>);
          h \<leftarrow> put h x (\<lambda>n. n\<lparr>pPrev := pPrev nl, pNext := Some l\<rparr>);
          (case pPrev nl of
             Some b \<Rightarrow> do { h \<leftarrow> put h b (\<lambda>n. n\<lparr>pNext := Some x\<rparr>); Some (h, Some b) }
           | None \<Rightarrow> Some (h, Some x)) }
      | _ \<Rightarrow> Some (h, None))"

definition XList_InsertNext :: "'d lheap \<Rightarrow> nat option \<Rightarrow> nat option \<Rightarrow> ('d lheap \<times> nat option) option" where
  "XList_InsertNext h pList pNode =
     (case (pList, pNode) of
        (Some l, Some x) \<Rightarrow> do {
          h \<leftarrow> merge_ctx h x l;
          nl \<leftarrow> mem h l;
          h \<leftarrow> put h l (\<lambda>n. n\<lparr>pNext := Some x\<rparr>);
          h \<leftarrow> put h x (\<lambda>n. n\<lparr>pNext := pNext nl, pPrev := Some l\<rparr>);
          (case pNext nl of
             Some b \<Rightarrow> do { h \<leftarrow> put h b (\<lambda>n. n\<lparr>pPrev := Some x\<rparr>); Some (h, Some b) }
           | None \<Rightarrow> Some (h, Some x)) }
      | _ \<Rightarrow> Some (h, None))"

definition XList_InsertHead :: "'d lheap \<Rightarrow> nat option \<Rightarrow> nat option \<Rightarrow> ('d lheap \<times> nat option) option" where
  "XList_InsertHead h pList pNode =
     (case (pList, pNode) of
        (Some l, Some x) \<Rightarrow> do {
          hd \<leftarrow> go_head h l;
          h \<leftarrow> merge_ctx h x hd;
          h \<leftarrow> put h hd (\<lambda>n. n\<lparr>pPrev := Some x\<rparr>);
          h \<leftarrow> put h x (\<lambda>n. n\<lparr>pNext := Some hd, pPrev := None\<rparr>);
          Some (h, Some x) }
      | _ \<Rightarrow> Some (h, None))"

definition XList_InsertTail :: "'d lheap \<Rightarrow> nat option \<Rightarrow> nat option \<Rightarrow> ('d lheap \<times> nat option) option" where
  "XList_InsertTail h pList pNode =
     (case (pList, pNode) of
        (Some l, Some x) \<Rightarrow> do {
          tl \<leftarrow> go_tail h l;
          h \<leftarrow> merge_ctx h x tl;
          h \<leftarrow> put h tl (\<lambda>n. n\<lparr>pNext := Some x\<rparr>);
          h \<leftarrow> put h x (\<lambda>n. n\<lparr>pPrev := Some tl, pNext := None\<rparr>);
          Some (h, Some x) }
      | _ \<Rightarrow> Some (h, None))"

text \<open>The four functions that allocate a node with the callback of the given one and insert it.\<close>

definition push_with ::
  "('d lheap \<Rightarrow> nat option \<Rightarrow> nat option \<Rightarrow> ('d lheap \<times> nat option) option) \<Rightarrow>
   'd alloc \<Rightarrow> 'd lheap \<Rightarrow> nat option \<Rightarrow> 'd option \<Rightarrow> nat \<Rightarrow> ('d lheap \<times> nat option) option" where
  "push_with ins new h pList d n =
     (case pList of None \<Rightarrow> Some (h, None)
      | Some l \<Rightarrow> do {
          nl \<leftarrow> mem h l;
          (h, x) \<leftarrow> XList_New new h d n (onClear (l_data nl)) (pClearCtx (l_data nl));
          (if x \<noteq> None then ins h pList x else Some (h, None)) })"

definition XList_PushPrev :: "'d alloc \<Rightarrow> 'd lheap \<Rightarrow> nat option \<Rightarrow> 'd option \<Rightarrow> nat \<Rightarrow> ('d lheap \<times> nat option) option" where
  "XList_PushPrev = push_with XList_InsertPrev"

definition XList_PushNext :: "'d alloc \<Rightarrow> 'd lheap \<Rightarrow> nat option \<Rightarrow> 'd option \<Rightarrow> nat \<Rightarrow> ('d lheap \<times> nat option) option" where
  "XList_PushNext = push_with XList_InsertNext"

definition XList_PushFront :: "'d alloc \<Rightarrow> 'd lheap \<Rightarrow> nat option \<Rightarrow> 'd option \<Rightarrow> nat \<Rightarrow> ('d lheap \<times> nat option) option" where
  "XList_PushFront = push_with XList_InsertHead"

definition XList_PushBack :: "'d alloc \<Rightarrow> 'd lheap \<Rightarrow> nat option \<Rightarrow> 'd option \<Rightarrow> nat \<Rightarrow> ('d lheap \<times> nat option) option" where
  "XList_PushBack = push_with XList_InsertTail"

text \<open>The comparator is a function on a state of its own, which it may change.\<close>

partial_function (option) search_walk ::
  "('u \<Rightarrow> 'd xlist \<Rightarrow> 'u \<times> int) \<Rightarrow> 'd lheap \<Rightarrow> 'u \<Rightarrow> nat option \<Rightarrow> ('u \<times> nat option) option" where
  "search_walk cmp h u p =
     (case p of None \<Rightarrow> Some (u, None)
      | Some a \<Rightarrow> do {
          n \<leftarrow> mem h a;
          let (u, r) = cmp u n;
          (if 0 < r then Some (u, Some a) else if r < 0 then Some (u, None) else search_walk cmp h u (pNext n)) })"

definition XList_Search ::
  "('u \<Rightarrow> 'd xlist \<Rightarrow> 'u \<times> int) \<Rightarrow> 'd lheap \<Rightarrow> 'u \<Rightarrow> nat option \<Rightarrow> ('u \<times> nat option) option" where
  "XList_Search cmp h u p =
     (case p of None \<Rightarrow> Some (u, None) | Some a \<Rightarrow> do { b \<leftarrow> go_head h a; search_walk cmp h u (Some b) })"

definition XList_Remove ::
  "('u \<Rightarrow> 'd xlist \<Rightarrow> 'u \<times> int) \<Rightarrow> 'd lheap \<Rightarrow> 'u \<Rightarrow> nat option \<Rightarrow> ('u \<times> 'd lheap \<times> nat option) option" where
  "XList_Remove cmp h u p = do {
     (u, q) \<leftarrow> XList_Search cmp h u p;
     (if q \<noteq> None then do { (h, r) \<leftarrow> XList_Unlink h q; Some (u, h, r) } else Some (u, h, None)) }"

declare go_head.simps [code] go_tail.simps [code] ring_walk.simps [code] XList_Clear.simps [code] search_walk.simps [code]

section \<open>Linked nodes\<close>

definition first_or :: "nat option \<Rightarrow> nat list \<Rightarrow> nat option" where
  "first_or n xs = (case xs of [] \<Rightarrow> n | x # _ \<Rightarrow> Some x)"

definition last_or :: "nat option \<Rightarrow> nat list \<Rightarrow> nat option" where
  "last_or p xs = (if xs = [] then p else Some (last xs))"

lemma first_or_simps [simp]: "first_or n [] = n" "first_or n (x # xs) = Some x"
  by (simp_all add: first_or_def)

lemma last_or_simps [simp]: "last_or p [] = p" "last_or p (xs @ [x]) = Some x" "last_or p (x # xs) = last_or (Some x) xs"
  by (simp_all add: last_or_def)

lemma first_or_append [simp]: "first_or n (xs @ ys) = first_or (first_or n ys) xs"
  by (simp add: first_or_def split: list.split)

lemma last_or_append [simp]: "last_or p (xs @ ys) = last_or (last_or p xs) ys"
  by (simp add: last_or_def)

fun dll :: "(nat \<rightharpoonup> 'd xlist) \<Rightarrow> nat option \<Rightarrow> nat list \<Rightarrow> nat option \<Rightarrow> bool" where
  "dll m p [] n \<longleftrightarrow> True"
| "dll m p (x # xs) n \<longleftrightarrow> (\<exists>nd. m x = Some nd \<and> pPrev nd = p \<and> pNext nd = first_or n xs) \<and> dll m (Some x) xs n"

definition is_list :: "(nat \<rightharpoonup> 'd xlist) \<Rightarrow> nat list \<Rightarrow> bool" where
  "is_list m xs \<longleftrightarrow> dll m None xs None \<and> distinct xs"

definition is_ring :: "(nat \<rightharpoonup> 'd xlist) \<Rightarrow> nat list \<Rightarrow> bool" where
  "is_ring m xs \<longleftrightarrow> xs \<noteq> [] \<and> dll m (last_or None xs) xs (first_or None xs) \<and> distinct xs"

lemma dll_append [simp]: "dll m p (xs @ ys) n \<longleftrightarrow> dll m p xs (first_or n ys) \<and> dll m (last_or p xs) ys n"
  by (induction xs arbitrary: p) auto

lemma dll_frame [simp]: "a \<notin> set xs \<Longrightarrow> dll (m(a := v)) p xs n = dll m p xs n"
  by (induction xs arbitrary: p) auto

lemma dll_dom: "dll m p xs n \<Longrightarrow> x \<in> set xs \<Longrightarrow> m x \<noteq> None"
  by (induction xs arbitrary: p) auto

lemma dll_cong: "(\<And>x. x \<in> set xs \<Longrightarrow> m x = m' x) \<Longrightarrow> dll m p xs n = dll m' p xs n"
  by (induction xs arbitrary: p) auto

lemma put_Some: "mem h a = Some n \<Longrightarrow> put h a f = Some (h\<lparr>mem := (mem h)(a \<mapsto> f n)\<rparr>)"
  by (simp add: put_def)

text \<open>What an operation does not touch: the data and the storage class of a node.\<close>

definition own :: "(nat \<rightharpoonup> 'd xlist) \<Rightarrow> nat \<Rightarrow> ('d xlist_data \<times> bool) option" where
  "own m b = map_option (\<lambda>n. (l_data n, nIsAlloc n)) (m b)"

lemma own_upd [simp]: "own (m(a := v)) b = (if b = a then map_option (\<lambda>n. (l_data n, nIsAlloc n)) v else own m b)"
  by (simp add: own_def)

section \<open>Detaching and releasing\<close>

text \<open>The node before and the node after are linked to each other.\<close>

lemma detach:
  assumes "is_list (mem h) (xs @ a # ys)" "mem h a = Some nd"
  shows "pNext nd = first_or None ys \<and> pPrev nd = last_or None xs \<and>
    (\<exists>h'. XList_Detach h (Some a) = Some h' \<and> is_list (mem h') (xs @ ys) \<and> evs h' = evs h \<and>
      mem h' a = Some (nd\<lparr>pPrev := None, pNext := None\<rparr>) \<and> (\<forall>b. b \<notin> set (xs @ a # ys) \<longrightarrow> mem h' b = mem h b) \<and>
      (\<forall>b. own (mem h') b = own (mem h) b))"
proof -
  have l: "dll (mem h) None xs (Some a)" "dll (mem h) (Some a) ys None" "pPrev nd = last_or None xs" "pNext nd = first_or None ys"
    "distinct (xs @ a # ys)"
    using assms by (auto simp: is_list_def)
  show ?thesis
  proof (cases xs rule: rev_cases; cases ys)
    assume "xs = []" "ys = []"
    then show ?thesis using l assms(2) by (auto simp: XList_Detach_def put_def is_list_def own_def)
  next
    fix c vs assume "xs = []" "ys = c # vs"
    moreover from this l obtain nc where "mem h c = Some nc" by auto
    ultimately show ?thesis using l assms(2) by (auto simp: XList_Detach_def put_def is_list_def own_def)
  next
    fix us b assume "xs = us @ [b]" "ys = []"
    moreover from this l obtain nb where "mem h b = Some nb" by auto
    ultimately show ?thesis using l assms(2) by (auto simp: XList_Detach_def put_def is_list_def own_def)
  next
    fix us b c vs assume "xs = us @ [b]" "ys = c # vs"
    moreover from this l obtain nb nc where "mem h b = Some nb" "mem h c = Some nc" by auto
    ultimately show ?thesis using l assms(2) by (auto simp: XList_Detach_def put_def is_list_def own_def)
  qed
qed

lemma unlink:
  assumes "is_list (mem h) (xs @ a # ys)" "mem h a = Some nd"
  shows "\<exists>h'. XList_Unlink h (Some a) = Some (h', first_or (last_or None xs) ys) \<and> is_list (mem h') (xs @ ys) \<and>
    evs h' = evs h @ release (l_data nd) \<and>
    mem h' a = (if nIsAlloc nd then None else Some \<lparr>pNext = None, pPrev = None, l_data = XListData_Init None 0 None None, nIsAlloc = False\<rparr>) \<and>
    (\<forall>b. b \<notin> set (xs @ a # ys) \<longrightarrow> mem h' b = mem h b) \<and> (\<forall>b. b \<noteq> a \<longrightarrow> own (mem h') b = own (mem h) b)"
proof -
  obtain h1 where h1: "pNext nd = first_or None ys" "pPrev nd = last_or None xs" "XList_Detach h (Some a) = Some h1"
    "is_list (mem h1) (xs @ ys)" "evs h1 = evs h" "mem h1 a = Some (nd\<lparr>pPrev := None, pNext := None\<rparr>)"
    "\<forall>b. b \<notin> set (xs @ a # ys) \<longrightarrow> mem h1 b = mem h b" "\<forall>b. own (mem h1) b = own (mem h) b"
    using detach [OF assms] by blast
  have "a \<notin> set (xs @ ys)" using assms(1) by (auto simp: is_list_def)
  then have frame: "is_list ((mem h1)(a := v)) (xs @ ys)" for v
    using h1(4) by (simp add: is_list_def)
  show ?thesis
    using h1 frame assms(2) by (cases ys) (auto simp: XList_Unlink_def XList_Free_def XList_Init_def Let_def)
qed

section \<open>Walks\<close>

lemma go_head: "dll m None (xs @ a # ys) n \<Longrightarrow> mem h = m \<Longrightarrow> go_head h a = Some (hd (xs @ [a]))"
proof (induction xs arbitrary: a ys rule: rev_induct)
  case Nil
  then show ?case by (subst go_head.simps) auto
next
  case (snoc b xs)
  then have "go_head h b = Some (hd (xs @ [b]))" by (intro snoc.IH [of b "a # ys"]) simp_all
  moreover have "hd (xs @ [b]) = hd ((xs @ [b]) @ [a])" by (cases xs) auto
  ultimately show ?case using snoc.prems by (subst go_head.simps) auto
qed

lemma go_tail: "dll m p (a # ys) None \<Longrightarrow> mem h = m \<Longrightarrow> go_tail h a = Some (last (a # ys))"
proof (induction ys arbitrary: a p)
  case Nil
  then show ?case by (subst go_tail.simps) auto
next
  case (Cons b ys)
  then have "go_tail h b = Some (last (b # ys))" by auto
  then show ?case using Cons.prems by (subst go_tail.simps) auto
qed

lemma ends:
  assumes "is_list (mem h) (xs @ a # ys)"
  shows "go_head h a = Some (hd (xs @ [a]))" "go_tail h a = Some (last (a # ys))"
proof -
  have "dll (mem h) None (xs @ a # ys) None" "dll (mem h) (last_or None xs) (a # ys) None"
    using assms by (simp_all add: is_list_def)
  then show "go_head h a = Some (hd (xs @ [a]))" "go_tail h a = Some (last (a # ys))"
    using go_head go_tail by blast+
qed

section \<open>Insertion\<close>

text \<open>The node \<open>x\<close> with the context it takes over from \<open>l\<close>.\<close>

definition merged :: "(nat \<rightharpoonup> 'd xlist) \<Rightarrow> nat \<Rightarrow> nat \<Rightarrow> 'd xlist \<Rightarrow> bool" where
  "merged m x l nx \<longleftrightarrow> (\<exists>n0 nl. m x = Some n0 \<and> m l = Some nl \<and>
     l_data nx = XListData_MergeCtx (l_data n0) (l_data nl) \<and> nIsAlloc nx = nIsAlloc n0)"

text \<open>What every insertion of \<open>x\<close> guarantees: the new list, the new node, and that nothing else changes.\<close>

definition inserted :: "'d lheap \<Rightarrow> nat list \<Rightarrow> nat \<Rightarrow> nat \<Rightarrow> 'd lheap \<Rightarrow> bool" where
  "inserted h zs x l h' \<longleftrightarrow> is_list (mem h') zs \<and> evs h' = evs h \<and> (\<exists>nx. mem h' x = Some nx \<and> merged (mem h) x l nx) \<and>
     (\<forall>b. b \<noteq> x \<longrightarrow> own (mem h') b = own (mem h) b) \<and> (\<forall>b. b \<notin> set zs \<longrightarrow> mem h' b = mem h b)"

lemma insert_prev:
  assumes "is_list (mem h) (xs @ a # ys)" "mem h x = Some nx" "x \<notin> set (xs @ a # ys)"
  shows "\<exists>h'. XList_InsertPrev h (Some a) (Some x) = Some (h', if xs = [] then Some x else Some (last xs)) \<and>
    inserted h (xs @ x # a # ys) x a h'"
proof -
  obtain na where na: "mem h a = Some na" using assms(1) by (auto simp: is_list_def)
  show ?thesis
  proof (cases xs rule: rev_cases)
    case Nil
    then show ?thesis using assms na
      by (auto simp: XList_InsertPrev_def merge_ctx_def put_def is_list_def inserted_def merged_def own_def)
  next
    case (snoc us b)
    moreover from this assms(1) obtain nb where "mem h b = Some nb" by (auto simp: is_list_def)
    ultimately show ?thesis using assms na
      by (auto simp: XList_InsertPrev_def merge_ctx_def put_def is_list_def inserted_def merged_def own_def)
  qed
qed

lemma insert_next:
  assumes "is_list (mem h) (xs @ a # ys)" "mem h x = Some nx" "x \<notin> set (xs @ a # ys)"
  shows "\<exists>h'. XList_InsertNext h (Some a) (Some x) = Some (h', if ys = [] then Some x else Some (hd ys)) \<and>
    inserted h (xs @ a # x # ys) x a h'"
proof -
  obtain na where na: "mem h a = Some na" using assms(1) by (auto simp: is_list_def)
  show ?thesis
  proof (cases ys)
    case Nil
    then show ?thesis using assms na
      by (auto simp: XList_InsertNext_def merge_ctx_def put_def is_list_def inserted_def merged_def own_def)
  next
    case (Cons b us)
    moreover from this assms(1) obtain nb where "mem h b = Some nb" by (auto simp: is_list_def)
    ultimately show ?thesis using assms na
      by (auto simp: XList_InsertNext_def merge_ctx_def put_def is_list_def inserted_def merged_def own_def)
  qed
qed

lemma insert_head:
  assumes "is_list (mem h) (a # ys)" "go_head h l = Some a" "mem h x = Some nx" "x \<notin> set (a # ys)"
  shows "\<exists>h'. XList_InsertHead h (Some l) (Some x) = Some (h', Some x) \<and> inserted h (x # a # ys) x a h'"
proof -
  obtain na where na: "mem h a = Some na" using assms(1) by (auto simp: is_list_def)
  then show ?thesis using assms
    by (auto simp: XList_InsertHead_def merge_ctx_def put_def is_list_def inserted_def merged_def own_def)
qed

lemma insert_tail:
  assumes "is_list (mem h) (xs @ [a])" "go_tail h l = Some a" "mem h x = Some nx" "x \<notin> set (xs @ [a])"
  shows "\<exists>h'. XList_InsertTail h (Some l) (Some x) = Some (h', Some x) \<and> inserted h (xs @ [a, x]) x a h'"
proof -
  obtain na where na: "mem h a = Some na" using assms(1) by (auto simp: is_list_def)
  then show ?thesis using assms
    by (auto simp: XList_InsertTail_def merge_ctx_def put_def is_list_def inserted_def merged_def own_def)
qed

text \<open>Pushing an allocated node after another one.\<close>

lemma push_next:
  assumes "is_list (mem h) (xs @ a # ys)" "mem h a = Some na" "fresh_spec new"
  shows "(new (mem h) = None \<and> XList_PushNext new h (Some a) d n = Some (h, None)) \<or>
    (\<exists>x h' r. new (mem h) = Some x \<and> x \<notin> dom (mem h) \<and> XList_PushNext new h (Some a) d n = Some (h', Some r) \<and>
      is_list (mem h') (xs @ a # x # ys) \<and> evs h' = evs h \<and>
      own (mem h') x = Some (XListData_Init d n (onClear (l_data na)) (pClearCtx (l_data na)), True) \<and>
      (\<forall>b. b \<noteq> x \<longrightarrow> own (mem h') b = own (mem h) b) \<and> (\<forall>b. b \<notin> set (xs @ a # x # ys) \<longrightarrow> mem h' b = mem h b))"
proof (cases "new (mem h)")
  case None
  then show ?thesis using assms(2) by (simp add: XList_PushNext_def push_with_def XList_New_def)
next
  case (Some x)
  then have x: "mem h x = None" using assms(3) by (simp add: fresh_spec_def)
  have out: "x \<notin> set (xs @ a # ys)"
  proof
    assume "x \<in> set (xs @ a # ys)"
    then show False using dll_dom [of "mem h" None "xs @ a # ys" None x] assms(1) x by (simp only: is_list_def) blast
  qed
  define nx where "nx = \<lparr>pNext = None, pPrev = None, l_data = XListData_Init d n (onClear (l_data na)) (pClearCtx (l_data na)), nIsAlloc = True\<rparr>"
  define h1 where "h1 = h\<lparr>mem := (mem h)(x \<mapsto> nx)\<rparr>"
  have new: "XList_New new h d n (onClear (l_data na)) (pClearCtx (l_data na)) = Some (h1, Some x)"
    using Some by (simp add: XList_New_def XList_Init_def put_def h1_def nx_def)
  have "is_list (mem h1) (xs @ a # ys)" using assms(1) out by (auto simp: h1_def is_list_def)
  then obtain h' where h': "XList_InsertNext h1 (Some a) (Some x) = Some (h', if ys = [] then Some x else Some (hd ys))"
    "inserted h1 (xs @ a # x # ys) x a h'"
    using insert_next [of h1 xs a ys x nx] out by (auto simp: h1_def)
  have "a \<noteq> x" using out by auto
  then have "own (mem h') x = Some (XListData_Init d n (onClear (l_data na)) (pClearCtx (l_data na)), True)"
    using h'(2) assms(2) by (auto simp: inserted_def merged_def own_def h1_def nx_def XListData_MergeCtx_def XListData_Init_def Let_def)
  then show ?thesis using new h' assms(2) x Some
    by (cases ys) (auto simp: XList_PushNext_def push_with_def inserted_def h1_def)
qed

section \<open>Clearing and rings\<close>

text \<open>From any node the rest of the list is released first, then the nodes before it from the last to the first.\<close>

definition releases :: "(nat \<rightharpoonup> 'd xlist) \<Rightarrow> nat list \<Rightarrow> 'd event list" where
  "releases m xs = concat (map (\<lambda>a. release (fst (the (own m a)))) xs)"

lemma clear_list:
  assumes "is_list (mem h) (xs @ ys)"
  shows "\<exists>h'. XList_Clear h (first_or (last_or None xs) ys) = Some h' \<and> evs h' = evs h @ releases (mem h) (ys @ rev xs) \<and>
    (\<forall>a\<in>set (xs @ ys). mem h' a =
       (if snd (the (own (mem h) a)) then None
        else Some \<lparr>pNext = None, pPrev = None, l_data = XListData_Init None 0 None None, nIsAlloc = False\<rparr>)) \<and>
    (\<forall>b. b \<notin> set (xs @ ys) \<longrightarrow> mem h' b = mem h b)"
  using assms
proof (induction "length xs + length ys" arbitrary: h xs ys)
  case 0
  then show ?case by (subst XList_Clear.simps) (simp add: releases_def)
next
  case (Suc k)
  define us a vs where "us = (if ys = [] then butlast xs else xs)" and "a = (if ys = [] then last xs else hd ys)"
    and "vs = (if ys = [] then [] else tl ys)"
  have uv: "xs @ ys = us @ a # vs" "first_or (last_or None xs) ys = Some a" "ys @ rev xs = a # vs @ rev us" "k = length us + length vs"
    using Suc.hyps(2) by (cases ys; cases xs rule: rev_cases; auto simp: us_def a_def vs_def)+
  obtain nd where nd: "mem h a = Some nd" using Suc.prems uv(1) by (auto simp: is_list_def)
  have a: "a \<notin> set (us @ vs)" using Suc.prems uv(1) by (auto simp: is_list_def)
  obtain h1 where h1: "XList_Unlink h (Some a) = Some (h1, first_or (last_or None us) vs)" "is_list (mem h1) (us @ vs)"
    "evs h1 = evs h @ release (l_data nd)"
    "mem h1 a = (if nIsAlloc nd then None else Some \<lparr>pNext = None, pPrev = None, l_data = XListData_Init None 0 None None, nIsAlloc = False\<rparr>)"
    "\<forall>b. b \<notin> set (us @ a # vs) \<longrightarrow> mem h1 b = mem h b" "\<forall>b. b \<noteq> a \<longrightarrow> own (mem h1) b = own (mem h) b"
    using unlink [of h us a vs nd] Suc.prems nd uv(1) by auto
  obtain h' where h': "XList_Clear h1 (first_or (last_or None us) vs) = Some h'" "evs h' = evs h1 @ releases (mem h1) (vs @ rev us)"
    "\<forall>a\<in>set (us @ vs). mem h' a = (if snd (the (own (mem h1) a)) then None
        else Some \<lparr>pNext = None, pPrev = None, l_data = XListData_Init None 0 None None, nIsAlloc = False\<rparr>)"
    "\<forall>b. b \<notin> set (us @ vs) \<longrightarrow> mem h' b = mem h1 b"
    using Suc.hyps(1) [OF uv(4) h1(2)] by auto
  have rel: "releases (mem h1) (vs @ rev us) = releases (mem h) (vs @ rev us)"
    unfolding releases_def using h1(6) a by (intro arg_cong [of _ _ concat] map_cong) auto
  have oa: "own (mem h) a = Some (l_data nd, nIsAlloc nd)" using nd by (simp add: own_def)
  have "releases (mem h) (ys @ rev xs) = release (l_data nd) @ releases (mem h) (vs @ rev us)"
    unfolding uv(3) by (simp add: releases_def oa)
  moreover have "XList_Clear h (first_or (last_or None xs) ys) = Some h'"
    unfolding uv(2) using h1(1) h'(1) by (subst XList_Clear.simps) simp
  ultimately show ?case unfolding uv(1) using h1 h' rel oa a by auto
qed

lemma ring_rotate: "is_ring m (us @ vs) \<Longrightarrow> is_ring m (vs @ us)"
  by (cases us; cases vs) (auto simp: is_ring_def)

lemma ring_node:
  assumes "is_ring m zs" "a \<in> set zs"
  shows "\<exists>nd b. m a = Some nd \<and> pPrev nd = Some b \<and> b \<in> set zs"
proof -
  obtain us vs where zs: "zs = us @ a # vs" using assms(2) by (meson split_list)
  then have "is_ring m (a # vs @ us)" using assms(1) ring_rotate [of m us "a # vs"] by simp
  then obtain nd where "m a = Some nd" "pPrev nd = last_or None (a # vs @ us)" by (auto simp: is_ring_def)
  moreover have "last_or None (a # vs @ us) = Some (last (a # vs @ us))" by (simp only: last_or_def) simp
  moreover have "last (a # vs @ us) \<in> set zs" using zs last_in_set [of "a # vs @ us"] by auto
  ultimately show ?thesis by simp
qed

text \<open>On a ring the walk to the head does not end.\<close>

lemma ring_head: "is_ring (mem h) zs \<Longrightarrow> a \<in> set zs \<Longrightarrow> go_head h a = None"
proof -
  assume ring: "is_ring (mem h) zs"
  have "h' = h \<longrightarrow> a' \<notin> set zs" if "go_head h' a' = Some r" for h' a' r
    using that
  proof (rule go_head.raw_induct [where P = "\<lambda>h' a' r. h' = h \<longrightarrow> a' \<notin> set zs", rotated])
    fix g h' a' r
    assume ih: "\<And>h' a' r. g h' a' = Some r \<Longrightarrow> h' = h \<longrightarrow> a' \<notin> set zs"
      and run: "Option.bind (mem h' a') (\<lambda>n. case pPrev n of None \<Rightarrow> Some a' | Some b \<Rightarrow> g h' b) = Some r"
    show "h' = h \<longrightarrow> a' \<notin> set zs"
    proof (intro impI notI)
      assume "h' = h" "a' \<in> set zs"
      then obtain nd b where "mem h a' = Some nd" "pPrev nd = Some b" "b \<in> set zs" using ring_node [OF ring] by blast
      with run ih \<open>h' = h\<close> show False by auto
    qed
  qed
  then show "a \<in> set zs \<Longrightarrow> go_head h a = None" by (cases "go_head h a") auto
qed

lemma make_ring:
  assumes "is_list (mem h) (xs @ a # ys)"
  shows "\<exists>h'. XList_MakeRing h (Some a) = Some (h', Some (hd (xs @ [a]))) \<and> is_ring (mem h') (xs @ a # ys) \<and> evs h' = evs h \<and>
    (\<forall>b. own (mem h') b = own (mem h) b)"
proof -
  define zs where "zs = xs @ a # ys"
  have hd: "hd (xs @ [a]) = hd zs" and tl: "last (a # ys) = last zs" by (cases xs; simp add: zs_def)+
  have l: "dll (mem h) None zs None" "distinct zs" "zs \<noteq> []" using assms by (auto simp: is_list_def zs_def)
  note e = ends [OF assms, unfolded hd tl]
  show ?thesis
  proof (cases "tl zs" rule: rev_cases)
    case Nil
    then obtain b where "zs = [b]" using l(3) by (cases zs) auto
    moreover from this l obtain nb where "mem h b = Some nb" by auto
    ultimately show ?thesis using l e unfolding zs_def [symmetric]
      by (auto simp: XList_MakeRing_def put_def is_ring_def own_def hd)
  next
    case (snoc us c)
    then obtain b where zs: "zs = b # us @ [c]" using l(3) by (cases zs) auto
    moreover from this l obtain nb nc where "mem h b = Some nb" "mem h c = Some nc" by auto
    ultimately show ?thesis using l e unfolding zs_def [symmetric]
      by (cases us) (auto simp: XList_MakeRing_def put_def is_ring_def own_def hd)
  qed
qed

lemma ring_walk: "dll (mem h) p vs (Some a) \<Longrightarrow> a \<notin> set vs \<Longrightarrow> ring_walk h a (first_or (Some a) vs) = Some (Some a)"
proof (induction vs arbitrary: p)
  case Nil
  then show ?case by (subst ring_walk.simps) simp
next
  case (Cons b vs)
  then obtain nd where "mem h b = Some nd" "pNext nd = first_or (Some a) vs" "dll (mem h) (Some b) vs (Some a)" by auto
  with Cons show ?case by (subst ring_walk.simps) auto
qed

lemma is_ring: "is_ring (mem h) zs \<Longrightarrow> a \<in> set zs \<Longrightarrow> XList_IsRing h (Some a) = Some True"
proof -
  assume "is_ring (mem h) zs" "a \<in> set zs"
  moreover from this(2) obtain us vs where "zs = us @ a # vs" by (meson split_list)
  ultimately have "is_ring (mem h) (a # vs @ us)" using ring_rotate [of "mem h" us "a # vs"] by simp
  then obtain nd where "mem h a = Some nd" "pNext nd = first_or (Some a) (vs @ us)" "dll (mem h) (Some a) (vs @ us) (Some a)"
    "a \<notin> set (vs @ us)"
    by (auto simp: is_ring_def)
  then show ?thesis using ring_walk [of h "Some a" "vs @ us" a] by (simp add: XList_IsRing_def)
qed

lemma ring_unlink:
  assumes "is_ring (mem h) (a # ys)" "ys \<noteq> []"
  shows "\<exists>h'. XList_Unlink h (Some a) = Some (h', Some (hd ys)) \<and> is_ring (mem h') ys \<and> (\<forall>b. b \<noteq> a \<longrightarrow> own (mem h') b = own (mem h) b)"
proof (cases "tl ys" rule: rev_cases)
  case Nil
  then obtain b where ys: "ys = [b]" using assms(2) by (cases ys) auto
  obtain na nb where "mem h a = Some na" "mem h b = Some nb" using assms(1) by (auto simp: is_ring_def ys)
  then show ?thesis using assms(1)
    by (auto simp: XList_Unlink_def XList_Detach_def XList_Free_def XList_Init_def put_def is_ring_def own_def ys Let_def)
next
  case (snoc us c)
  then obtain b where ys: "ys = b # us @ [c]" using assms(2) by (cases ys) auto
  obtain na nb nc where "mem h a = Some na" "mem h b = Some nb" "mem h c = Some nc" using assms(1) by (auto simp: is_ring_def ys)
  then show ?thesis using assms(1)
    by (cases us) (auto simp: XList_Unlink_def XList_Detach_def XList_Free_def XList_Init_def put_def is_ring_def own_def ys Let_def)
qed

text \<open>Clearing a ring of allocated nodes follows the pointer of the last node to itself after it was released.\<close>

lemma clear_ring:
  "is_ring (mem h) (a # ys) \<Longrightarrow> (\<And>b. b \<in> set (a # ys) \<Longrightarrow> snd (the (own (mem h) b))) \<Longrightarrow> XList_Clear h (Some a) = None"
proof (induction ys arbitrary: h a)
  case Nil
  then obtain na where na: "mem h a = Some na" "nIsAlloc na" "pNext na = Some a" "pPrev na = Some a"
    by (auto simp: is_ring_def own_def)
  then obtain h1 where "XList_Unlink h (Some a) = Some (h1, Some a)" "mem h1 a = None"
    by (auto simp: XList_Unlink_def XList_Detach_def XList_Free_def put_def Let_def)
  moreover from this have "XList_Clear h1 (Some a) = None"
    by (subst XList_Clear.simps) (simp add: XList_Unlink_def)
  ultimately show ?case by (subst XList_Clear.simps) simp
next
  case (Cons b ys)
  obtain h1 where h1: "XList_Unlink h (Some a) = Some (h1, Some b)" "is_ring (mem h1) (b # ys)"
    "\<forall>c. c \<noteq> a \<longrightarrow> own (mem h1) c = own (mem h) c"
    using ring_unlink [OF Cons.prems(1)] by auto
  have "a \<notin> set (b # ys)" using Cons.prems(1) by (simp add: is_ring_def)
  then have "snd (the (own (mem h1) c))" if "c \<in> set (b # ys)" for c
    using that h1(3) Cons.prems(2) [of c] by (metis list.set_intros(2))
  then have "XList_Clear h1 (Some b) = None" by (rule Cons.IH [OF h1(2)])
  then show ?case using h1(1) by (subst XList_Clear.simps) simp
qed

section \<open>Results\<close>

text \<open>A list of two allocated nodes and one more node, for the witnesses.\<close>

definition plain_node :: "nat option \<Rightarrow> nat option \<Rightarrow> nat \<Rightarrow> nat xlist" where
  "plain_node n p d = \<lparr>pNext = n, pPrev = p, l_data = XListData_Init (Some d) 1 None None, nIsAlloc = True\<rparr>"

definition two_nodes :: "nat lheap" where
  "two_nodes = \<lparr>mem = [1 \<mapsto> plain_node (Some 2) None 10, 2 \<mapsto> plain_node None (Some 1) 20, 3 \<mapsto> plain_node None None 30], evs = []\<rparr>"

lemma two_nodes: "is_list (mem two_nodes) ([1] @ 2 # [])" "mem two_nodes 3 = Some (plain_node None None 30)"
  by (simp_all add: two_nodes_def plain_node_def is_list_def)

text \<open>
  C34: editing a list at any node \<open>a\<close>. The four insertions link an unlinked node \<open>x\<close> before, after, first or last, give it the
  callback and context it lacks from its neighbour, and change the data of no node; \<open>XList_InsertPrev\<close> and
  \<open>XList_InsertNext\<close> return the old neighbour when there is one, not the inserted node. \<open>XList_Unlink\<close> takes exactly \<open>a\<close> out,
  releases its data once, frees or resets the node and returns the next node, or the previous one at the end.
\<close>

theorem list_edit:
  assumes "is_list (mem h) (xs @ a # ys)" "mem h x = Some nx" "x \<notin> set (xs @ a # ys)" "mem h a = Some na"
  shows "(\<exists>h'. XList_InsertPrev h (Some a) (Some x) = Some (h', if xs = [] then Some x else Some (last xs)) \<and>
        inserted h (xs @ x # a # ys) x a h') \<and>
    (\<exists>h'. XList_InsertNext h (Some a) (Some x) = Some (h', if ys = [] then Some x else Some (hd ys)) \<and>
        inserted h (xs @ a # x # ys) x a h') \<and>
    (\<exists>h'. XList_InsertHead h (Some a) (Some x) = Some (h', Some x) \<and> inserted h (x # xs @ a # ys) x (hd (xs @ [a])) h') \<and>
    (\<exists>h'. XList_InsertTail h (Some a) (Some x) = Some (h', Some x) \<and> inserted h (xs @ a # ys @ [x]) x (last (a # ys)) h') \<and>
    (\<exists>h'. XList_Unlink h (Some a) = Some (h', first_or (last_or None xs) ys) \<and> is_list (mem h') (xs @ ys) \<and>
        evs h' = evs h @ release (l_data na) \<and> (nIsAlloc na \<longrightarrow> mem h' a = None) \<and>
        (\<forall>b. b \<noteq> a \<longrightarrow> own (mem h') b = own (mem h) b))"
proof (intro conjI)
  note e = ends [OF assms(1)]
  obtain zs where zs: "xs @ a # ys = hd (xs @ [a]) # zs" by (cases xs) auto
  obtain us where us: "xs @ a # ys = us @ [last (a # ys)]" by (metis append_butlast_last_id append_is_Nil_conv last_appendR list.distinct(1))
  show "\<exists>h'. XList_InsertHead h (Some a) (Some x) = Some (h', Some x) \<and> inserted h (x # xs @ a # ys) x (hd (xs @ [a])) h'"
    using insert_head [OF assms(1) [unfolded zs] e(1) assms(2)] assms(3) unfolding zs by blast
  have "us @ [last (a # ys), x] = xs @ a # ys @ [x]" using us by simp
  then show "\<exists>h'. XList_InsertTail h (Some a) (Some x) = Some (h', Some x) \<and> inserted h (xs @ a # ys @ [x]) x (last (a # ys)) h'"
    using insert_tail [OF assms(1) [unfolded us] e(2) assms(2)] assms(3) unfolding us by metis
  show "\<exists>h'. XList_Unlink h (Some a) = Some (h', first_or (last_or None xs) ys) \<and> is_list (mem h') (xs @ ys) \<and>
        evs h' = evs h @ release (l_data na) \<and> (nIsAlloc na \<longrightarrow> mem h' a = None) \<and>
        (\<forall>b. b \<noteq> a \<longrightarrow> own (mem h') b = own (mem h) b)"
    using unlink [OF assms(1,4)] by auto
qed (rule insert_prev [OF assms(1-3)] insert_next [OF assms(1-3)])+

lemma list_edit_witness:
  "\<exists>h'. XList_InsertPrev two_nodes (Some 2) (Some 3) = Some (h', Some 1) \<and> inserted two_nodes [1, 3, 2] 3 2 h'"
  using list_edit [OF two_nodes, of "plain_node None (Some 1) 20"] by (auto simp: two_nodes_def)

text \<open>
  C35: \<open>XList_Clear\<close> from any node of a list of allocated nodes returns, releases the data of every node exactly once (the node
  and those after it first, then those before it from the last to the first) and frees all of them and nothing else. A ring
  made by \<open>XList_MakeRing\<close> is recognised by \<open>XList_IsRing\<close>, but \<open>XList_GetHead\<close> never returns on it and \<open>XList_Clear\<close> ends by
  reading the last node after it was freed.
\<close>

theorem list_clear:
  assumes "is_list (mem h) (xs @ a # ys)" "\<And>b. b \<in> set (xs @ a # ys) \<Longrightarrow> snd (the (own (mem h) b))"
  shows "(\<exists>h'. XList_Clear h (Some a) = Some h' \<and> evs h' = evs h @ releases (mem h) (a # ys @ rev xs) \<and>
        (\<forall>b. mem h' b = (if b \<in> set (xs @ a # ys) then None else mem h b))) \<and>
    (\<exists>hr. XList_MakeRing h (Some a) = Some (hr, Some (hd (xs @ [a]))) \<and> XList_IsRing hr (Some a) = Some True \<and>
        XList_GetHead hr (Some a) = None \<and> XList_Clear hr (Some a) = None)"
proof
  show "\<exists>h'. XList_Clear h (Some a) = Some h' \<and> evs h' = evs h @ releases (mem h) (a # ys @ rev xs) \<and>
        (\<forall>b. mem h' b = (if b \<in> set (xs @ a # ys) then None else mem h b))"
    using clear_list [of h xs "a # ys"] assms by auto
  obtain hr where hr: "XList_MakeRing h (Some a) = Some (hr, Some (hd (xs @ [a])))" "is_ring (mem hr) (xs @ a # ys)"
    "\<forall>b. own (mem hr) b = own (mem h) b"
    using make_ring [OF assms(1)] by blast
  have "is_ring (mem hr) (a # ys @ xs)" using ring_rotate [of "mem hr" xs "a # ys"] hr(2) by simp
  then have "XList_Clear hr (Some a) = None" using assms(2) hr(3) by (intro clear_ring) auto
  moreover have "XList_GetHead hr (Some a) = None" using ring_head [OF hr(2), of a] by (simp add: XList_GetHead_def)
  moreover have "XList_IsRing hr (Some a) = Some True" using is_ring [OF hr(2), of a] by simp
  ultimately show "\<exists>hr. XList_MakeRing h (Some a) = Some (hr, Some (hd (xs @ [a]))) \<and> XList_IsRing hr (Some a) = Some True \<and>
        XList_GetHead hr (Some a) = None \<and> XList_Clear hr (Some a) = None"
    using hr(1) by blast
qed

lemma list_clear_witness:
  "\<exists>h'. XList_Clear two_nodes (Some 2) = Some h' \<and> evs h' = [Freed 20, Freed 10]"
proof -
  have own: "snd (the (own (mem two_nodes) b))" if "b \<in> set ([1] @ 2 # [])" for b
    using that by (auto simp: two_nodes_def plain_node_def own_def)
  have "releases (mem two_nodes) (2 # [] @ rev [1]) = [Freed 20, Freed 10]"
    by (simp add: releases_def two_nodes_def plain_node_def own_def release_def XListData_Init_def)
  then show ?thesis using list_clear [OF two_nodes(1) own] by (auto simp: two_nodes_def)
qed

end
