(* ===== verification/XHash.thy ===== *)
theory XHash
  imports XList "HOL-Library.Multiset"
begin

text \<open>
  Integer-keyed hash table, \<open>src/src/data/hash.c\<close>: 32 lists of \<open>XList\<close>, each behind a head node that is part of the
  structure and holds no pair. The state is the structure together with the heap of the list nodes. A pair is owned by its
  node; the release of a node calls \<open>XHash_ClearCb\<close>, which shows in the log of the heap as an event of the function
  \<open>clear_fn\<close> with the address \<open>self\<close> of the table.
\<close>

section \<open>The code\<close>

record 'v xhash_pair =
  hp_data :: "'v option"
  hp_size :: nat
  hp_key :: u32

record 'v xhash =
  clearCb :: "nat option"
  pUserContext :: "nat option"
  nPairCount :: nat
  tables :: "nat list"
  lists :: "'v xhash_pair lheap"

abbreviation clear_fn :: nat where "clear_fn \<equiv> 1"
abbreviation XHASH_MODULES :: nat where "XHASH_MODULES \<equiv> 32"

definition XHASH_MIX :: "u32 \<Rightarrow> nat \<Rightarrow> nat" where
  "XHASH_MIX k n = unat (k XOR drop_bit 8 k XOR drop_bit 16 k) mod n"

text \<open>The call of the user's callback that releasing a pair makes: function, context, data, key.\<close>

definition XHash_ClearCb :: "'v xhash \<Rightarrow> 'v xhash_pair \<Rightarrow> (nat \<times> nat option \<times> 'v \<times> u32) list" where
  "XHash_ClearCb s p = (case (clearCb s, hp_data p) of (Some f, Some d) \<Rightarrow> [(f, pUserContext s, d, hp_key p)] | _ \<Rightarrow> [])"

definition XHash_SearchCb :: "u32 \<Rightarrow> unit \<Rightarrow> 'v xhash_pair xlist \<Rightarrow> unit \<times> int" where
  "XHash_SearchCb k u n = (u, case pData (l_data n) of Some p \<Rightarrow> if k = hp_key p then 1 else 0 | None \<Rightarrow> 0)"

definition XHash_NewPair :: "bool \<Rightarrow> 'v option \<Rightarrow> nat \<Rightarrow> u32 \<Rightarrow> 'v xhash_pair option" where
  "XHash_NewPair ok d n k = (if ok then Some \<lparr>hp_data = d, hp_size = n, hp_key = k\<rparr> else None)"

definition XHash_Init :: "nat \<Rightarrow> nat list \<Rightarrow> 'v xhash_pair lheap \<Rightarrow> nat option \<Rightarrow> nat option \<Rightarrow> 'v xhash" where
  "XHash_Init self ts h cb cx =
     \<lparr>clearCb = cb, pUserContext = cx, nPairCount = 0, tables = ts,
      lists = foldl (\<lambda>h i. XList_Init h (ts ! i) None 0 (Some clear_fn) (Some self)) h [0..<XHASH_MODULES]\<rparr>"

fun clear_tables :: "'v xhash_pair lheap \<Rightarrow> nat list \<Rightarrow> 'v xhash_pair lheap option" where
  "clear_tables h [] = Some h"
| "clear_tables h (t # ts) = do { h \<leftarrow> XList_Clear h (Some t); clear_tables h ts }"

definition XHash_Destroy :: "'v xhash \<Rightarrow> 'v xhash option" where
  "XHash_Destroy s = do {
     h \<leftarrow> clear_tables (lists s) (map ((!) (tables s)) [0..<XHASH_MODULES]);
     Some (s\<lparr>lists := h, pUserContext := None, clearCb := None, nPairCount := 0\<rparr>) }"

definition XHash_GetNode :: "'v xhash \<Rightarrow> u32 \<Rightarrow> nat option option" where
  "XHash_GetNode s k = do {
     t \<leftarrow> peek (tables s) (XHASH_MIX k XHASH_MODULES);
     (_, q) \<leftarrow> XList_Search (XHash_SearchCb k) (lists s) () (Some t);
     Some q }"

definition XHash_GetPair :: "'v xhash \<Rightarrow> u32 \<Rightarrow> 'v xhash_pair option option" where
  "XHash_GetPair s k = do {
     q \<leftarrow> XHash_GetNode s k;
     (case q of None \<Rightarrow> Some None | Some a \<Rightarrow> do { n \<leftarrow> mem (lists s) a; Some (pData (l_data n)) }) }"

definition XHash_GetData :: "'v xhash \<Rightarrow> u32 \<Rightarrow> 'v option option" where
  "XHash_GetData s k = do { p \<leftarrow> XHash_GetPair s k; Some (case p of None \<Rightarrow> None | Some p \<Rightarrow> hp_data p) }"

definition XHash_GetSize :: "'v xhash \<Rightarrow> u32 \<Rightarrow> int option" where
  "XHash_GetSize s k = do { p \<leftarrow> XHash_GetPair s k; Some (case p of None \<Rightarrow> XSTDERR | Some p \<Rightarrow> to_int (hp_size p)) }"

definition XHash_InsertPair :: "'v xhash_pair alloc \<Rightarrow> 'v xhash \<Rightarrow> 'v xhash_pair \<Rightarrow> ('v xhash \<times> int) option" where
  "XHash_InsertPair new s p = do {
     q \<leftarrow> XHash_GetNode s (hp_key p);
     (if q \<noteq> None then Some (s, XSTDEXC)
      else do {
        t \<leftarrow> peek (tables s) (XHASH_MIX (hp_key p) XHASH_MODULES);
        (h, r) \<leftarrow> XList_PushNext new (lists s) (Some t) (Some p) 0;
        let s = s\<lparr>lists := h\<rparr>;
        Some (if r \<noteq> None then (s\<lparr>nPairCount := sz (nPairCount s + 1)\<rparr>, XSTDOK) else (s, XSTDERR)) }) }"

definition XHash_Insert ::
  "bool \<Rightarrow> 'v xhash_pair alloc \<Rightarrow> 'v xhash \<Rightarrow> 'v option \<Rightarrow> nat \<Rightarrow> u32 \<Rightarrow> ('v xhash \<times> int) option" where
  "XHash_Insert ok new s d n k =
     (case XHash_NewPair ok d n k of None \<Rightarrow> Some (s, XSTDERR) | Some p \<Rightarrow> XHash_InsertPair new s p)"

definition XHash_Delete :: "'v xhash \<Rightarrow> u32 \<Rightarrow> ('v xhash \<times> int) option" where
  "XHash_Delete s k = do {
     q \<leftarrow> XHash_GetNode s k;
     (if q = None then Some (s, XSTDERR)
      else do {
        (h, _) \<leftarrow> XList_Unlink (lists s) q;
        let s = s\<lparr>lists := h\<rparr>;
        Some (if 0 < nPairCount s then s\<lparr>nPairCount := nPairCount s - 1\<rparr> else s, XSTDOK) }) }"

text \<open>The user's function has a state; \<open>nStatus\<close> is the last status it gave.\<close>

definition XHash_IteratorCb ::
  "('w \<Rightarrow> 'v xhash_pair \<Rightarrow> 'w \<times> int) \<Rightarrow> 'w \<times> int \<Rightarrow> 'v xhash_pair xlist \<Rightarrow> ('w \<times> int) \<times> int" where
  "XHash_IteratorCb f it n =
     (case pData (l_data n) of None \<Rightarrow> (it, 0) | Some p \<Rightarrow> (let (w, st) = f (fst it) p in ((w, st), st)))"

fun iterate_tables ::
  "('w \<Rightarrow> 'v xhash_pair \<Rightarrow> 'w \<times> int) \<Rightarrow> 'v xhash_pair lheap \<Rightarrow> nat list \<Rightarrow> 'w \<times> int \<Rightarrow> ('w \<times> int) option" where
  "iterate_tables f h [] it = Some it"
| "iterate_tables f h (t # ts) it = do {
     (it, _) \<leftarrow> XList_Search (XHash_IteratorCb f) h it (Some t);
     (if snd it \<noteq> 0 then Some it else iterate_tables f h ts it) }"

definition XHash_Iterate :: "('w \<Rightarrow> 'v xhash_pair \<Rightarrow> 'w \<times> int) \<Rightarrow> 'v xhash \<Rightarrow> 'w \<Rightarrow> 'w option" where
  "XHash_Iterate f s w = do { it \<leftarrow> iterate_tables f (lists s) (map ((!) (tables s)) [0..<XHASH_MODULES]) (w, 0); Some (fst it) }"

section \<open>The map a table stands for\<close>

abbreviation head_data :: "nat \<Rightarrow> 'v xhash_pair xlist_data" where
  "head_data self \<equiv> XListData_Init None 0 (Some clear_fn) (Some self)"

abbreviation pair_data :: "nat \<Rightarrow> 'v xhash_pair \<Rightarrow> 'v xhash_pair xlist_data" where
  "pair_data self p \<equiv> XListData_Init (Some p) 0 (Some clear_fn) (Some self)"

text \<open>The chain behind the head \<open>t\<close> of table \<open>i\<close>: addresses of nodes with their pairs.\<close>

definition chain :: "nat \<Rightarrow> (nat \<rightharpoonup> 'v xhash_pair xlist) \<Rightarrow> nat \<Rightarrow> nat \<Rightarrow> (nat \<times> 'v xhash_pair) list \<Rightarrow> bool" where
  "chain self m i t ns \<longleftrightarrow>
     is_list m (t # map fst ns) \<and> own m t = Some (head_data self, False) \<and>
     (\<forall>(a, p)\<in>set ns. own m a = Some (pair_data self p, True) \<and> XHASH_MIX (hp_key p) 32 = i) \<and>
     distinct (map (hp_key \<circ> snd) ns)"

definition hash_chains :: "nat \<Rightarrow> 'v xhash \<Rightarrow> (nat \<Rightarrow> (nat \<times> 'v xhash_pair) list) \<Rightarrow> bool" where
  "hash_chains self s ns \<longleftrightarrow>
     length (tables s) = 32 \<and> (\<forall>i<32. chain self (mem (lists s)) i (tables s ! i) (ns i)) \<and>
     (\<forall>i<32. \<forall>j<32. i \<noteq> j \<longrightarrow> set (tables s ! i # map fst (ns i)) \<inter> set (tables s ! j # map fst (ns j)) = {}) \<and>
     nPairCount s = (\<Sum>i<32. length (ns i)) \<and> nPairCount s < 2 ^ 64"

definition look :: "(nat \<times> 'v xhash_pair) list \<Rightarrow> u32 \<rightharpoonup> (nat \<times> 'v xhash_pair)" where
  "look ns = map_of (map (\<lambda>(a, p). (hp_key p, (a, p))) ns)"

definition pairs_of :: "(nat \<Rightarrow> (nat \<times> 'v xhash_pair) list) \<Rightarrow> u32 \<rightharpoonup> 'v xhash_pair" where
  "pairs_of ns k = map_option snd (look (ns (XHASH_MIX k 32)) k)"

text \<open>The table \<open>s\<close> at address \<open>self\<close> is well formed and stands for the map \<open>f\<close> from keys to pairs.\<close>

definition hash_map :: "nat \<Rightarrow> 'v xhash \<Rightarrow> (u32 \<rightharpoonup> 'v xhash_pair) \<Rightarrow> bool" where
  "hash_map self s f \<longleftrightarrow> (\<exists>ns. hash_chains self s ns \<and> f = pairs_of ns)"

lemma mix_less [simp]: "XHASH_MIX k 32 < 32"
  by (simp add: XHASH_MIX_def)

section \<open>Searching a chain\<close>

lemma own_node: "own m a = Some (d, b) \<Longrightarrow> \<exists>n. m a = Some n \<and> l_data n = d \<and> nIsAlloc n = b"
  by (auto simp: own_def)

lemma search_chain:
  assumes "dll (mem h) q (map fst ns) None" "\<forall>(a, p)\<in>set ns. own (mem h) a = Some (pair_data self p, True)"
  shows "search_walk (XHash_SearchCb k) h u (first_or None (map fst ns)) = Some ((), map_option fst (look ns k))"
  using assms
proof (induction ns arbitrary: q u)
  case Nil
  then show ?case by (subst search_walk.simps) (simp add: look_def)
next
  case (Cons ap ns)
  obtain a p where ap: "ap = (a, p)" by (cases ap)
  obtain n where n: "mem h a = Some n" "l_data n = pair_data self p" using Cons.prems ap own_node by fastforce
  then have nxt: "pNext n = first_or None (map fst ns)" "dll (mem h) (Some a) (map fst ns) None" using Cons.prems ap by auto
  have "search_walk (XHash_SearchCb k) h u (pNext n) = Some ((), map_option fst (look ns k))"
    unfolding nxt(1) using Cons.prems by (intro Cons.IH [OF nxt(2)]) auto
  then show ?case using n ap
    by (subst search_walk.simps) (simp add: XHash_SearchCb_def XListData_Init_def look_def)
qed

lemma get_node:
  assumes "hash_chains self s ns"
  shows "XHash_GetNode s k = Some (map_option fst (look (ns (XHASH_MIX k 32)) k))"
proof -
  let ?i = "XHASH_MIX k 32"
  let ?t = "tables s ! ?i"
  have c: "chain self (mem (lists s)) ?i ?t (ns ?i)" "length (tables s) = 32" using assms by (auto simp: hash_chains_def)
  then have l: "is_list (mem (lists s)) ([] @ ?t # map fst (ns ?i))" by (simp add: chain_def)
  obtain n where n: "mem (lists s) ?t = Some n" "l_data n = head_data self" using c own_node by (fastforce simp: chain_def)
  then have nxt: "pNext n = first_or None (map fst (ns ?i))" "dll (mem (lists s)) (Some ?t) (map fst (ns ?i)) None"
    using l by (auto simp: is_list_def)
  have "search_walk (XHash_SearchCb k) (lists s) () (pNext n) = Some ((), map_option fst (look (ns ?i) k))"
    unfolding nxt(1) using c(1) by (intro search_chain [OF nxt(2)]) (auto simp: chain_def)
  then have "search_walk (XHash_SearchCb k) (lists s) () (Some ?t) = Some ((), map_option fst (look (ns ?i) k))"
    using n by (subst search_walk.simps) (simp add: XHash_SearchCb_def XListData_Init_def)
  moreover have "go_head (lists s) ?t = Some ?t" using ends(1) [OF l] by simp
  ultimately show ?thesis using c(2) by (simp add: XHash_GetNode_def XList_Search_def peek_def)
qed

lemma look_Some: "look ns k = Some (a, p) \<Longrightarrow> (a, p) \<in> set ns \<and> hp_key p = k"
  by (auto simp: look_def dest!: map_of_SomeD)

lemma get_pair:
  assumes "hash_chains self s ns"
  shows "XHash_GetPair s k = Some (pairs_of ns k)"
proof (cases "look (ns (XHASH_MIX k 32)) k")
  case None
  then show ?thesis using get_node [OF assms] by (simp add: XHash_GetPair_def pairs_of_def)
next
  case (Some ap)
  obtain a p where ap: "ap = (a, p)" by (cases ap)
  have "chain self (mem (lists s)) (XHASH_MIX k 32) (tables s ! XHASH_MIX k 32) (ns (XHASH_MIX k 32))"
    using assms by (simp add: hash_chains_def)
  then have "own (mem (lists s)) a = Some (pair_data self p, True)"
    using look_Some Some ap by (fastforce simp: chain_def)
  then obtain n where "mem (lists s) a = Some n" "l_data n = pair_data self p" using own_node by blast
  then show ?thesis using get_node [OF assms] Some ap by (simp add: XHash_GetPair_def pairs_of_def XListData_Init_def)
qed

section \<open>Chains under updates\<close>

lemma chain_cong:
  assumes "chain self m i t ns" "\<And>b. b \<in> set (t # map fst ns) \<Longrightarrow> m' b = m b"
  shows "chain self m' i t ns"
proof -
  have o1: "own m' b = own m b" if "b \<in> set (t # map fst ns)" for b using assms(2) [OF that] by (simp add: own_def)
  have "own m' a = own m a" if "(a, p) \<in> set ns" for a p
  proof -
    have "a \<in> set (map fst ns)" using that by force
    then show ?thesis by (intro o1) simp
  qed
  then have eq1: "(\<forall>(a, p)\<in>set ns. own m' a = Some (pair_data self p, True) \<and> XHASH_MIX (hp_key p) 32 = i) =
      (\<forall>(a, p)\<in>set ns. own m a = Some (pair_data self p, True) \<and> XHASH_MIX (hp_key p) 32 = i)"
    by (intro ball_cong) auto
  have eq2: "is_list m' (t # map fst ns) = is_list m (t # map fst ns)"
    unfolding is_list_def using dll_cong [of "t # map fst ns" m' m] assms(2) by auto
  have eq3: "own m' t = own m t" by (rule o1) simp
  from assms(1) show ?thesis unfolding chain_def eq1 eq2 eq3 .
qed

lemma sum_update: "i < (32 :: nat) \<Longrightarrow> (\<Sum>j<32. length ((ns(i := x)) j)) + length (ns i) = (\<Sum>j<32. length (ns j)) + length x"
proof -
  assume i: "i < (32 :: nat)"
  have "(\<Sum>j\<in>{..<32} - {i}. length ((ns(i := x)) j)) = (\<Sum>j\<in>{..<32} - {i}. length (ns j))" by (rule sum.cong) auto
  then show ?thesis
    using i sum.remove [of "{..<32}" i "\<lambda>j. length ((ns(i := x)) j)"] sum.remove [of "{..<32}" i "\<lambda>j. length (ns j)"]
    by (simp del: fun_upd_apply) simp
qed

text \<open>Replacing the chain of one table, when the rest of the heap the chains are in stays.\<close>

lemma hash_chains_update:
  assumes "hash_chains self s ns" "i < 32" "chain self (mem h') i (tables s ! i) xs"
    "\<And>j b. j < 32 \<Longrightarrow> j \<noteq> i \<Longrightarrow> b \<in> set (tables s ! j # map fst (ns j)) \<Longrightarrow>
       b \<notin> set (tables s ! i # map fst xs) \<and> mem h' b = mem (lists s) b"
    "c + length (ns i) = nPairCount s + length xs" "c < 2 ^ 64"
  shows "hash_chains self (s\<lparr>lists := h', nPairCount := c\<rparr>) (ns(i := xs))"
  unfolding hash_chains_def
proof (intro conjI allI impI)
  fix j :: nat assume j: "j < 32"
  show "chain self (mem (lists (s\<lparr>lists := h', nPairCount := c\<rparr>))) j (tables (s\<lparr>lists := h', nPairCount := c\<rparr>) ! j) ((ns(i := xs)) j)"
  proof (cases "j = i")
    case False
    have "chain self (mem (lists s)) j (tables s ! j) (ns j)" using assms(1) j unfolding hash_chains_def by blast
    then have "chain self (mem h') j (tables s ! j) (ns j)"
      by (rule chain_cong) (rule assms(4) [OF j False, THEN conjunct2])
    then show ?thesis using False by simp
  qed (use assms(3) in simp)
  fix k :: nat assume k: "k < 32" "j \<noteq> k"
  have new: "set (tables s ! i # map fst xs) \<inter> set (tables s ! l # map fst (ns l)) = {}" if "l < 32" "l \<noteq> i" for l
    using assms(4) [OF that] by blast
  have same: "(ns(i := xs)) i = xs" and diff: "l \<noteq> i \<Longrightarrow> (ns(i := xs)) l = ns l" for l by simp_all
  have "set (tables s ! j # map fst ((ns(i := xs)) j)) \<inter> set (tables s ! k # map fst ((ns(i := xs)) k)) = {}"
  proof (cases "j = i")
    case True
    then have "k \<noteq> i" using k(2) by simp
    from new [OF k(1) this] show ?thesis unfolding True same diff [OF \<open>k \<noteq> i\<close>] .
  next
    case ji: False
    show ?thesis
    proof (cases "k = i")
      case True
      from new [OF j ji] show ?thesis unfolding True same diff [OF ji] by (subst Int_commute)
    next
      case False
      have "set (tables s ! j # map fst (ns j)) \<inter> set (tables s ! k # map fst (ns k)) = {}"
        using assms(1) j k unfolding hash_chains_def by blast
      then show ?thesis unfolding diff [OF ji] diff [OF False] .
    qed
  qed
  then show "set (tables (s\<lparr>lists := h', nPairCount := c\<rparr>) ! j # map fst ((ns(i := xs)) j)) \<inter>
      set (tables (s\<lparr>lists := h', nPairCount := c\<rparr>) ! k # map fst ((ns(i := xs)) k)) = {}" by simp
next
  show "nPairCount (s\<lparr>lists := h', nPairCount := c\<rparr>) = (\<Sum>j<32. length ((ns(i := xs)) j))"
    using sum_update [OF assms(2), of ns xs] assms(1,5) by (simp add: hash_chains_def del: fun_upd_apply)
qed (use assms(1,6) in \<open>simp_all add: hash_chains_def\<close>)

lemma insert_pair:
  assumes "hash_chains self s ns" "fresh_spec new" "nPairCount s + 1 < 2 ^ 64"
  shows "\<exists>s' st. XHash_InsertPair new s p = Some (s', st) \<and> evs (lists s') = evs (lists s) \<and>
    (if pairs_of ns (hp_key p) \<noteq> None then st = XSTDEXC \<and> s' = s
     else if new (mem (lists s)) = None then st = XSTDERR \<and> s' = s
     else st = XSTDOK \<and> nPairCount s' = nPairCount s + 1 \<and> clearCb s' = clearCb s \<and> pUserContext s' = pUserContext s \<and>
       hash_map self s' ((pairs_of ns)(hp_key p \<mapsto> p)))"
proof -
  let ?i = "XHASH_MIX (hp_key p) 32"
  let ?t = "tables s ! ?i"
  let ?m = "mem (lists s)"
  have c: "chain self ?m ?i ?t (ns ?i)" "length (tables s) = 32" using assms by (auto simp: hash_chains_def)
  then have l: "is_list ?m ([] @ ?t # map fst (ns ?i))" by (simp add: chain_def)
  obtain nt where nt: "?m ?t = Some nt" "l_data nt = head_data self" using c own_node by (fastforce simp: chain_def)
  show ?thesis
  proof (cases "look (ns ?i) (hp_key p)")
    case (Some ap)
    then show ?thesis using get_node [OF assms(1)] by (simp add: XHash_InsertPair_def pairs_of_def)
  next
    case None
    then have absent: "pairs_of ns (hp_key p) = None" by (simp add: pairs_of_def)
    from push_next [OF l nt(1) assms(2), of "Some p" 0] show ?thesis
    proof
      assume "new ?m = None \<and> XList_PushNext new (lists s) (Some ?t) (Some p) 0 = Some (lists s, None)"
      then show ?thesis using get_node [OF assms(1)] None c(2) absent by (simp add: XHash_InsertPair_def peek_def)
    next
      assume "\<exists>x h' r. new ?m = Some x \<and> x \<notin> dom ?m \<and> XList_PushNext new (lists s) (Some ?t) (Some p) 0 = Some (h', Some r) \<and>
        is_list (mem h') ([] @ ?t # x # map fst (ns ?i)) \<and> evs h' = evs (lists s) \<and>
        own (mem h') x = Some (XListData_Init (Some p) 0 (onClear (l_data nt)) (pClearCtx (l_data nt)), True) \<and>
        (\<forall>b. b \<noteq> x \<longrightarrow> own (mem h') b = own ?m b) \<and> (\<forall>b. b \<notin> set ([] @ ?t # x # map fst (ns ?i)) \<longrightarrow> mem h' b = ?m b)"
      then obtain x h' r where x: "new ?m = Some x" "x \<notin> dom ?m"
        and run: "XList_PushNext new (lists s) (Some ?t) (Some p) 0 = Some (h', Some r)"
        and post: "is_list (mem h') (?t # x # map fst (ns ?i))" "evs h' = evs (lists s)" "own (mem h') x = Some (pair_data self p, True)"
          "\<And>b. b \<noteq> x \<Longrightarrow> own (mem h') b = own ?m b" "\<And>b. b \<notin> set (?t # x # map fst (ns ?i)) \<Longrightarrow> mem h' b = ?m b"
        using nt(2) by (auto simp: XListData_Init_def)
      have used: "x \<notin> set (tables s ! j # map fst (ns j))" if "j < 32" for j
      proof
        assume "x \<in> set (tables s ! j # map fst (ns j))"
        moreover have "is_list ?m (tables s ! j # map fst (ns j))" using assms(1) that by (auto simp: hash_chains_def chain_def)
        ultimately show False using dll_dom x(2) by (metis domIff is_list_def)
      qed
      have "x \<notin> set (map fst (ns ?i))" "x \<noteq> ?t" using used [OF mix_less] by auto
      then have rest: "own (mem h') a = Some (pair_data self q, True) \<and> XHASH_MIX (hp_key q) 32 = ?i" if "(a, q) \<in> set (ns ?i)" for a q
      proof -
        have "a \<noteq> x" using that \<open>x \<notin> set (map fst (ns ?i))\<close> by force
        moreover have "own ?m a = Some (pair_data self q, True) \<and> XHASH_MIX (hp_key q) 32 = ?i"
          using c(1) that unfolding chain_def by blast
        ultimately show ?thesis using post(4) by simp
      qed
      have keys: "distinct (map (hp_key \<circ> snd) ((x, p) # ns ?i))"
      proof -
        have "hp_key p \<notin> (hp_key \<circ> snd) ` set (ns ?i)"
          using None by (auto simp: look_def map_of_eq_None_iff image_iff)
        moreover have "distinct (map (hp_key \<circ> snd) (ns ?i))" using c(1) unfolding chain_def by blast
        ultimately show ?thesis by simp
      qed
      have top: "own (mem h') ?t = Some (head_data self, False)"
        using post(4) [OF \<open>x \<noteq> ?t\<close> [symmetric]] c(1) by (simp add: chain_def)
      have all: "\<forall>(a, q)\<in>set ((x, p) # ns ?i). own (mem h') a = Some (pair_data self q, True) \<and> XHASH_MIX (hp_key q) 32 = ?i"
        using post(3) rest by fastforce
      have "is_list (mem h') (?t # map fst ((x, p) # ns ?i))" using post(1) by simp
      then have ch: "chain self (mem h') ?i ?t ((x, p) # ns ?i)"
        unfolding chain_def using top all keys by blast
      have other: "b \<notin> set (?t # map fst ((x, p) # ns ?i)) \<and> mem h' b = ?m b"
        if "j < 32" "j \<noteq> ?i" "b \<in> set (tables s ! j # map fst (ns j))" for j b
      proof -
        have "set (tables s ! j # map fst (ns j)) \<inter> set (?t # map fst (ns ?i)) = {}"
          using assms(1) that(1,2) mix_less unfolding hash_chains_def by blast
        then have "b \<notin> set (?t # x # map fst (ns ?i))" using that(3) used [OF that(1)] unfolding list.set by blast
        then show ?thesis using post(5) [of b] by simp
      qed
      have "hash_chains self (s\<lparr>lists := h', nPairCount := nPairCount s + 1\<rparr>) (ns(?i := (x, p) # ns ?i))"
        using assms(3) by (intro hash_chains_update [OF assms(1) mix_less ch other]) simp_all
      moreover have "pairs_of (ns(?i := (x, p) # ns ?i)) = (pairs_of ns)(hp_key p \<mapsto> p)"
        by (auto simp: pairs_of_def look_def)
      ultimately have "hash_map self (s\<lparr>lists := h', nPairCount := nPairCount s + 1\<rparr>) ((pairs_of ns)(hp_key p \<mapsto> p))"
        unfolding hash_map_def by metis
      then show ?thesis
        using get_node [OF assms(1)] None c(2) run x(1) absent assms(3) post(2) by (simp add: XHash_InsertPair_def peek_def)
    qed
  qed
qed

section \<open>Deleting\<close>

lemma release_pair [simp]: "release (XListData_Init (Some p) n (Some f) c) = [Cleared f c p]" "release (XListData_Init None n b c) = []"
  by (simp_all add: release_def XListData_Init_def)

lemma look_split:
  assumes "look ns k = Some (a, p)" "distinct (map (hp_key \<circ> snd) ns)"
  obtains us vs where "ns = us @ (a, p) # vs" "hp_key p = k" "k \<notin> (hp_key \<circ> snd) ` set (us @ vs)"
proof -
  have ap: "(a, p) \<in> set ns" "hp_key p = k" using look_Some assms(1) by blast+
  obtain us vs where "ns = us @ (a, p) # vs" using split_list ap(1) by metis
  then show thesis using that ap(2) assms(2) by auto
qed

lemma look_None: "k \<notin> (hp_key \<circ> snd) ` set ns \<Longrightarrow> look ns k = None"
  by (force simp: look_def map_of_eq_None_iff)

lemma pairs_of_without:
  assumes "ns i = us @ (a, p) # vs" "i = XHASH_MIX k 32" "hp_key p = k" "k \<notin> (hp_key \<circ> snd) ` set (us @ vs)"
  shows "pairs_of (ns(i := us @ vs)) = (pairs_of ns)(k := None)"
proof
  fix k'
  have "look (us @ vs) k' = (if k' = k then None else look (us @ (a, p) # vs) k')"
  proof (cases "k' = k")
    case True
    then show ?thesis using look_None [OF assms(4)] by simp
  next
    case False
    then show ?thesis using assms(3) by (simp add: look_def map_add_def split: option.split)
  qed
  then show "pairs_of (ns(i := us @ vs)) k' = ((pairs_of ns)(k := None)) k'"
    using assms(1,2) by (cases "k' = k") (simp_all add: pairs_of_def)
qed

lemma delete_pair:
  assumes "hash_chains self s ns"
  shows "\<exists>s' st. XHash_Delete s k = Some (s', st) \<and>
    (case pairs_of ns k of
       None \<Rightarrow> st = XSTDERR \<and> s' = s
     | Some p \<Rightarrow> st = XSTDOK \<and> nPairCount s' + 1 = nPairCount s \<and> clearCb s' = clearCb s \<and> pUserContext s' = pUserContext s \<and>
         evs (lists s') = evs (lists s) @ [Cleared clear_fn (Some self) p] \<and> hash_map self s' ((pairs_of ns)(k := None)))"
proof (cases "look (ns (XHASH_MIX k 32)) k")
  case None
  then show ?thesis using get_node [OF assms] by (simp add: XHash_Delete_def pairs_of_def)
next
  case (Some ap)
  let ?i = "XHASH_MIX k 32"
  let ?t = "tables s ! ?i"
  let ?m = "mem (lists s)"
  obtain a p where ap: "ap = (a, p)" by (cases ap)
  have c: "chain self ?m ?i ?t (ns ?i)" using assms by (auto simp: hash_chains_def)
  then have "distinct (map (hp_key \<circ> snd) (ns ?i))" by (simp add: chain_def)
  from look_split [OF Some [unfolded ap] this]
  obtain us vs where uv: "ns ?i = us @ (a, p) # vs" "hp_key p = k" "k \<notin> (hp_key \<circ> snd) ` set (us @ vs)" .
  have oa: "own ?m a = Some (pair_data self p, True)" using c uv(1) by (auto simp: chain_def)
  then obtain nd where nd: "?m a = Some nd" "l_data nd = pair_data self p" "nIsAlloc nd" using own_node by blast
  have l: "is_list ?m ((?t # map fst us) @ a # map fst vs)" using c uv(1) by (simp add: chain_def)
  obtain h' where h': "XList_Unlink (lists s) (Some a) = Some (h', first_or (last_or None (?t # map fst us)) (map fst vs))"
    "is_list (mem h') ((?t # map fst us) @ map fst vs)" "evs h' = evs (lists s) @ release (l_data nd)"
    "\<forall>b. b \<notin> set ((?t # map fst us) @ a # map fst vs) \<longrightarrow> mem h' b = ?m b" "\<forall>b. b \<noteq> a \<longrightarrow> own (mem h') b = own ?m b"
    using unlink [OF l nd(1)] by blast
  have na: "a \<noteq> ?t" "a \<notin> set (map fst (us @ vs))" using l by (auto simp: is_list_def)
  have ch: "chain self (mem h') ?i ?t (us @ vs)"
    unfolding chain_def
  proof (intro conjI)
    show "is_list (mem h') (?t # map fst (us @ vs))" using h'(2) by simp
    show "own (mem h') ?t = Some (head_data self, False)" using h'(5) na(1) c by (simp add: chain_def)
    have "own (mem h') b = Some (pair_data self q, True) \<and> XHASH_MIX (hp_key q) 32 = ?i" if bq: "(b, q) \<in> set (us @ vs)" for b q
    proof -
      have "b \<noteq> a" using bq na(2) by force
      moreover have "(b, q) \<in> set (ns ?i)" using bq uv(1) by auto
      then have "own ?m b = Some (pair_data self q, True) \<and> XHASH_MIX (hp_key q) 32 = ?i" using c unfolding chain_def by blast
      ultimately show ?thesis using h'(5) by simp
    qed
    then show "\<forall>(b, q)\<in>set (us @ vs). own (mem h') b = Some (pair_data self q, True) \<and> XHASH_MIX (hp_key q) 32 = ?i" by blast
    show "distinct (map (hp_key \<circ> snd) (us @ vs))" using c uv(1) by (auto simp: chain_def)
  qed
  have other: "b \<notin> set (?t # map fst (us @ vs)) \<and> mem h' b = ?m b"
    if "j < 32" "j \<noteq> ?i" "b \<in> set (tables s ! j # map fst (ns j))" for j b
  proof -
    have "set (tables s ! j # map fst (ns j)) \<inter> set (?t # map fst (ns ?i)) = {}"
      using assms that(1,2) mix_less unfolding hash_chains_def by blast
    then have "b \<notin> set (?t # map fst (us @ (a, p) # vs))" using that(3) unfolding uv(1) by blast
    then show ?thesis using h'(4) by simp
  qed
  have "length (ns ?i) \<le> (\<Sum>i<32. length (ns i))" by (rule member_le_sum) (auto simp: XHASH_MIX_def)
  then have cnt: "length (ns ?i) \<le> nPairCount s" "nPairCount s < 2 ^ 64" using assms by (simp_all add: hash_chains_def)
  then have pos: "0 < nPairCount s" unfolding uv(1) by simp
  have "hash_chains self (s\<lparr>lists := h', nPairCount := nPairCount s - 1\<rparr>) (ns(?i := us @ vs))"
    using cnt pos uv(1) by (intro hash_chains_update [OF assms mix_less ch other]) simp_all
  then have "hash_map self (s\<lparr>lists := h', nPairCount := nPairCount s - 1\<rparr>) ((pairs_of ns)(k := None))"
    unfolding hash_map_def using pairs_of_without [of ns "?i" us a p vs k, OF uv(1) _ uv(2,3)] by metis
  then show ?thesis
    using get_node [OF assms] Some ap h'(1,3) pos nd(2) by (simp add: XHash_Delete_def pairs_of_def)
qed

section \<open>All pairs\<close>

text \<open>The pairs in the order of the tables, and in each table in the order of its list.\<close>

definition all_pairs :: "(nat \<Rightarrow> (nat \<times> 'v xhash_pair) list) \<Rightarrow> 'v xhash_pair list" where
  "all_pairs ns = concat (map (\<lambda>i. map snd (ns i)) [0..<XHASH_MODULES])"

lemma all_pairs_set:
  assumes "hash_chains self s ns"
  shows "set (all_pairs ns) = ran (pairs_of ns) \<and> distinct (map hp_key (all_pairs ns)) \<and> length (all_pairs ns) = nPairCount s"
proof (intro conjI)
  have c: "chain self (mem (lists s)) i (tables s ! i) (ns i)" if "i < 32" for i using assms that by (simp add: hash_chains_def)
  have key: "XHASH_MIX (hp_key p) 32 = i" if "i < 32" "(a, p) \<in> set (ns i)" for i a p
    using c [OF that(1)] that(2) unfolding chain_def by blast
  have dist: "distinct (map (hp_key \<circ> snd) (ns i))" if "i < 32" for i using c [OF that] by (simp add: chain_def)
  have found: "pairs_of ns (hp_key p) = Some p" if "i < 32" "(a, p) \<in> set (ns i)" for i a p
  proof -
    have "look (ns i) (hp_key p) = Some (a, p)"
      unfolding look_def using that(2) dist [OF that(1)] by (intro map_of_is_SomeI) (force simp: comp_def case_prod_beta)+
    then show ?thesis using key [OF that] by (simp add: pairs_of_def)
  qed
  show "set (all_pairs ns) = ran (pairs_of ns)"
  proof (intro equalityI subsetI)
    fix p assume "p \<in> set (all_pairs ns)"
    then obtain i a where "i < 32" "(a, p) \<in> set (ns i)" by (auto simp: all_pairs_def)
    then show "p \<in> ran (pairs_of ns)" using found by (auto intro: ranI)
  next
    fix p assume "p \<in> ran (pairs_of ns)"
    then obtain k where "pairs_of ns k = Some p" by (auto simp: ran_def)
    then obtain a where "look (ns (XHASH_MIX k 32)) k = Some (a, p)" by (auto simp: pairs_of_def)
    then have "(a, p) \<in> set (ns (XHASH_MIX k 32))" using look_Some by blast
    then show "p \<in> set (all_pairs ns)" using mix_less [of k] by (force simp: all_pairs_def simp del: mix_less)
  qed
  have "distinct (map hp_key (concat (map (\<lambda>i. map snd (ns i)) [0..<n])))" if "n \<le> 32" for n
    using that
  proof (induction n)
    case (Suc n)
    have "hp_key p \<noteq> hp_key q" if "i < n" "(a, p) \<in> set (ns i)" "(b, q) \<in> set (ns n)" for i a p b q
      using key [of i a p] key [of n b q] that Suc.prems by fastforce
    then show ?case using Suc dist [of n] by (auto simp: comp_def)
  qed simp
  then show "distinct (map hp_key (all_pairs ns))" unfolding all_pairs_def by simp
  have "length (concat (map (\<lambda>i. map snd (ns i)) [0..<n])) = (\<Sum>i<n. length (ns i))" for n by (induction n) simp_all
  then show "length (all_pairs ns) = nPairCount s" using assms unfolding all_pairs_def by (simp add: hash_chains_def)
qed

lemma clear_tables:
  assumes "distinct is" "\<forall>i\<in>set is. chain self (mem h) i (t i) (ns i)"
    "\<forall>i\<in>set is. \<forall>j\<in>set is. i \<noteq> j \<longrightarrow> set (t i # map fst (ns i)) \<inter> set (t j # map fst (ns j)) = {}"
  shows "\<exists>h'. clear_tables h (map t is) = Some h' \<and>
    evs h' = evs h @ map (Cleared clear_fn (Some self)) (concat (map (\<lambda>i. map snd (ns i)) is)) \<and>
    (\<forall>i\<in>set is. (\<forall>a\<in>set (map fst (ns i)). mem h' a = None) \<and>
       mem h' (t i) = Some \<lparr>pNext = None, pPrev = None, l_data = XListData_Init None 0 None None, nIsAlloc = False\<rparr>) \<and>
    (\<forall>b. (\<forall>i\<in>set is. b \<notin> set (t i # map fst (ns i))) \<longrightarrow> mem h' b = mem h b)"
  using assms
proof (induction "is" arbitrary: h)
  case (Cons i "is")
  let ?m = "mem h"
  have c: "chain self ?m i (t i) (ns i)" using Cons.prems by simp
  then have l: "is_list ?m ([] @ t i # map fst (ns i))" by (simp add: chain_def)
  obtain h1 where h1: "XList_Clear h (Some (t i)) = Some h1" "evs h1 = evs h @ releases ?m (t i # map fst (ns i))"
    "\<forall>a\<in>set (t i # map fst (ns i)). mem h1 a = (if snd (the (own ?m a)) then None
        else Some \<lparr>pNext = None, pPrev = None, l_data = XListData_Init None 0 None None, nIsAlloc = False\<rparr>)"
    "\<forall>b. b \<notin> set (t i # map fst (ns i)) \<longrightarrow> mem h1 b = ?m b"
    using clear_list [OF l] by auto
  have o: "own ?m a = Some (pair_data self p, True)" if "(a, p) \<in> set (ns i)" for a p using c that unfolding chain_def by blast
  have ot: "own ?m (t i) = Some (head_data self, False)" using c by (simp add: chain_def)
  have gone: "\<forall>a\<in>set (map fst (ns i)). mem h1 a = None"
    "mem h1 (t i) = Some \<lparr>pNext = None, pPrev = None, l_data = XListData_Init None 0 None None, nIsAlloc = False\<rparr>"
    using h1(3) o ot by fastforce+
  have "concat (map (\<lambda>a. release (fst (the (own ?m a)))) (map fst ps)) = map (Cleared clear_fn (Some self)) (map snd ps)"
    if "set ps \<subseteq> set (ns i)" for ps
    using that by (induction ps) (auto simp: o)
  then have rel: "releases ?m (t i # map fst (ns i)) = map (Cleared clear_fn (Some self)) (map snd (ns i))"
    by (simp add: releases_def ot)
  have dis: "set (t i # map fst (ns i)) \<inter> set (t j # map fst (ns j)) = {}" if "j \<in> set is" for j
  proof -
    have "i \<noteq> j" using Cons.prems(1) that by auto
    then show ?thesis using Cons.prems(3) that unfolding list.set(2) [of i] by blast
  qed
  have same: "mem h1 b = ?m b" if "j \<in> set is" "b \<in> set (t j # map fst (ns j))" for j b
    using h1(4) dis [OF that(1)] that(2) by blast
  have rest: "\<forall>j\<in>set is. chain self (mem h1) j (t j) (ns j)"
  proof
    fix j assume j: "j \<in> set is"
    then have "chain self ?m j (t j) (ns j)" using Cons.prems(2) by simp
    then show "chain self (mem h1) j (t j) (ns j)" by (rule chain_cong) (rule same [OF j])
  qed
  have rest_dis: "\<forall>i\<in>set is. \<forall>j\<in>set is. i \<noteq> j \<longrightarrow> set (t i # map fst (ns i)) \<inter> set (t j # map fst (ns j)) = {}"
    using Cons.prems(3) unfolding list.set(2) [of i] by blast
  obtain h' where h': "clear_tables h1 (map t is) = Some h'"
    "evs h' = evs h1 @ map (Cleared clear_fn (Some self)) (concat (map (\<lambda>i. map snd (ns i)) is))"
    "\<forall>i\<in>set is. (\<forall>a\<in>set (map fst (ns i)). mem h' a = None) \<and>
       mem h' (t i) = Some \<lparr>pNext = None, pPrev = None, l_data = XListData_Init None 0 None None, nIsAlloc = False\<rparr>"
    "\<And>b. (\<forall>i\<in>set is. b \<notin> set (t i # map fst (ns i))) \<Longrightarrow> mem h' b = mem h1 b"
    using Cons.IH [OF _ rest rest_dis] Cons.prems(1) by auto
  have keep: "mem h' b = mem h1 b" if "b \<in> set (t i # map fst (ns i))" for b
    by (rule h'(4)) (use dis that in blast)
  show ?case
  proof (intro exI conjI)
    show "clear_tables h (map t (i # is)) = Some h'" using h1(1) h'(1) by simp
    show "evs h' = evs h @ map (Cleared clear_fn (Some self)) (concat (map (\<lambda>i. map snd (ns i)) (i # is)))"
      using h1(2) h'(2) rel by simp
    show "\<forall>j\<in>set (i # is). (\<forall>a\<in>set (map fst (ns j)). mem h' a = None) \<and>
       mem h' (t j) = Some \<lparr>pNext = None, pPrev = None, l_data = XListData_Init None 0 None None, nIsAlloc = False\<rparr>"
      using h'(3) gone keep by simp
    show "\<forall>b. (\<forall>j\<in>set (i # is). b \<notin> set (t j # map fst (ns j))) \<longrightarrow> mem h' b = mem h b"
    proof (intro allI impI)
      fix b assume "\<forall>j\<in>set (i # is). b \<notin> set (t j # map fst (ns j))"
      then have "b \<notin> set (t i # map fst (ns i))" "\<forall>j\<in>set is. b \<notin> set (t j # map fst (ns j))" by (metis list.set_intros)+
      then show "mem h' b = mem h b" using h'(4) h1(4) by metis
    qed
  qed
qed simp

section \<open>Initialising and iterating\<close>

lemma init_heads:
  "mem (foldl (\<lambda>h i. XList_Init h (ts ! i) None 0 cb cx) h is) b =
     (if b \<in> (!) ts ` set is then Some \<lparr>pNext = None, pPrev = None, l_data = XListData_Init None 0 cb cx, nIsAlloc = False\<rparr> else mem h b)"
  "evs (foldl (\<lambda>h i. XList_Init h (ts ! i) None 0 cb cx) h is) = evs h"
  by (induction "is" arbitrary: h) (auto simp: XList_Init_def)

lemma init_hash:
  assumes "distinct ts" "length ts = 32"
  shows "hash_chains self (XHash_Init self ts h cb cx) (\<lambda>_. [])"
proof -
  have "own (mem (lists (XHash_Init self ts h cb cx))) (ts ! i) = Some (head_data self, False)" 
    "is_list (mem (lists (XHash_Init self ts h cb cx))) [ts ! i]" if "i < 32" for i
    using that by (auto simp: XHash_Init_def own_def is_list_def init_heads)
  moreover have "tables (XHash_Init self ts h cb cx) = ts" by (simp add: XHash_Init_def)
  ultimately show ?thesis
    using assms by (simp add: hash_chains_def chain_def nth_eq_iff_index_eq) (simp add: XHash_Init_def)
qed

fun visit :: "('w \<Rightarrow> 'p \<Rightarrow> 'w \<times> int) \<Rightarrow> 'w \<Rightarrow> 'p list \<Rightarrow> 'w \<times> int" where
  "visit f w [] = (w, 0)"
| "visit f w (p # ps) = (let (w, st) = f w p in if st \<noteq> 0 then (w, st) else visit f w ps)"

lemma visit_append: "visit f w (xs @ ys) = (let (w, st) = visit f w xs in if st \<noteq> 0 then (w, st) else visit f w ys)"
  by (induction xs arbitrary: w) (simp_all add: Let_def split: prod.split)

lemma visit_chain:
  assumes "dll (mem h) q (map fst ns) None" "\<forall>(a, p)\<in>set ns. own (mem h) a = Some (pair_data self p, True)"
  shows "\<exists>r. search_walk (XHash_IteratorCb f) h (w, 0) (first_or None (map fst ns)) = Some (visit f w (map snd ns), r)"
  using assms
proof (induction ns arbitrary: q w)
  case Nil
  then show ?case by (subst search_walk.simps) simp
next
  case (Cons ap ns)
  obtain a p where ap: "ap = (a, p)" by (cases ap)
  obtain n where n: "mem h a = Some n" "l_data n = pair_data self p" using Cons.prems ap own_node by fastforce
  then have nxt: "pNext n = first_or None (map fst ns)" "dll (mem h) (Some a) (map fst ns) None" using Cons.prems ap by auto
  obtain w' st where f: "f w p = (w', st)" by fastforce
  have rest: "\<forall>(a, p)\<in>set ns. own (mem h) a = Some (pair_data self p, True)" using Cons.prems(2) by simp
  obtain r where "search_walk (XHash_IteratorCb f) h (w', 0) (pNext n) = Some (visit f w' (map snd ns), r)"
    using Cons.IH [OF nxt(2) rest] unfolding nxt(1) by blast
  then show ?case using n ap f
    by (subst search_walk.simps) (simp add: XHash_IteratorCb_def XListData_Init_def)
qed

lemma iterate_tables:
  assumes "\<forall>i\<in>set is. chain self (mem h) i (t i) (ns i)"
  shows "iterate_tables f h (map t is) (w, 0) = Some (visit f w (concat (map (\<lambda>i. map snd (ns i)) is)))"
  using assms
proof (induction "is" arbitrary: w)
  case (Cons i "is")
  have c: "chain self (mem h) i (t i) (ns i)" using Cons.prems by simp
  then have l: "is_list (mem h) ([] @ t i # map fst (ns i))" by (simp add: chain_def)
  obtain n where n: "mem h (t i) = Some n" "l_data n = head_data self" using c own_node by (fastforce simp: chain_def)
  then have nxt: "pNext n = first_or None (map fst (ns i))" "dll (mem h) (Some (t i)) (map fst (ns i)) None"
    using l by (auto simp: is_list_def)
  have own: "\<forall>(a, p)\<in>set (ns i). own (mem h) a = Some (pair_data self p, True)" using c by (auto simp: chain_def)
  obtain r where "search_walk (XHash_IteratorCb f) h (w, 0) (pNext n) = Some (visit f w (map snd (ns i)), r)"
    using visit_chain [OF nxt(2) own, of f w] unfolding nxt(1) by blast
  then have "search_walk (XHash_IteratorCb f) h (w, 0) (Some (t i)) = Some (visit f w (map snd (ns i)), r)"
    using n by (subst search_walk.simps) (simp add: XHash_IteratorCb_def XListData_Init_def)
  moreover have "go_head h (t i) = Some (t i)" using ends(1) [OF l] by simp
  ultimately have "XList_Search (XHash_IteratorCb f) h (w, 0) (Some (t i)) = Some (visit f w (map snd (ns i)), r)"
    by (simp add: XList_Search_def)
  then show ?case using Cons by (simp add: visit_append Let_def split: prod.split)
qed simp

lemma iterate:
  assumes "hash_chains self s ns"
  shows "XHash_Iterate f s w = Some (fst (visit f w (all_pairs ns)))"
proof -
  have "\<forall>i\<in>set [0..<XHASH_MODULES]. chain self (mem (lists s)) i (tables s ! i) (ns i)"
    using assms by (auto simp: hash_chains_def)
  from iterate_tables [OF this, of f w] show ?thesis by (simp add: XHash_Iterate_def all_pairs_def)
qed

lemma destroy:
  assumes "hash_chains self s ns"
  shows "\<exists>s'. XHash_Destroy s = Some s' \<and> nPairCount s' = 0 \<and> clearCb s' = None \<and>
    evs (lists s') = evs (lists s) @ map (Cleared clear_fn (Some self)) (all_pairs ns) \<and>
    (\<forall>i<32. \<forall>a\<in>fst ` set (ns i). mem (lists s') a = None)"
proof -
  have c: "\<forall>i\<in>set [0..<XHASH_MODULES]. chain self (mem (lists s)) i (tables s ! i) (ns i)"
    using assms by (auto simp: hash_chains_def)
  have d: "\<forall>i\<in>set [0..<XHASH_MODULES]. \<forall>j\<in>set [0..<XHASH_MODULES]. i \<noteq> j \<longrightarrow>
      set (tables s ! i # map fst (ns i)) \<inter> set (tables s ! j # map fst (ns j)) = {}"
    using assms unfolding hash_chains_def by (metis atLeastLessThan_iff set_upt)
  from clear_tables [OF distinct_upt c d]
  obtain h' where h': "clear_tables (lists s) (map ((!) (tables s)) [0..<XHASH_MODULES]) = Some h'"
    "evs h' = evs (lists s) @ map (Cleared clear_fn (Some self)) (concat (map (\<lambda>i. map snd (ns i)) [0..<XHASH_MODULES]))"
    "\<forall>i\<in>set [0..<XHASH_MODULES]. (\<forall>a\<in>set (map fst (ns i)). mem h' a = None)"
    by (elim exE conjE) simp
  then show ?thesis by (simp add: XHash_Destroy_def all_pairs_def)
qed

section \<open>Histories\<close>

datatype 'v hash_op = Ins bool "'v xhash_pair" | Del u32

definition hash_step :: "'v xhash_pair alloc \<Rightarrow> 'v hash_op \<Rightarrow> 'v xhash \<Rightarrow> ('v xhash \<times> int) option" where
  "hash_step new op s =
     (case op of Ins ok p \<Rightarrow> XHash_Insert ok new s (hp_data p) (hp_size p) (hp_key p) | Del k \<Rightarrow> XHash_Delete s k)"

text \<open>
  A run gives the table, the status of every operation and, for every operation, whether the allocator had a list node to give
  at that moment.
\<close>

fun run_hash :: "'v xhash_pair alloc \<Rightarrow> 'v hash_op list \<Rightarrow> 'v xhash \<Rightarrow> ('v xhash \<times> int list \<times> bool list) option" where
  "run_hash new [] s = Some (s, [], [])"
| "run_hash new (op # ops) s = do {
     (s1, st) \<leftarrow> hash_step new op s;
     (s2, sts, given) \<leftarrow> run_hash new ops s1;
     Some (s2, st # sts, (new (mem (lists s)) \<noteq> None) # given) }"

text \<open>
  The specification: the map after a history and the status of each of its operations, from the answers \<open>given\<close> of the list
  allocator. An insertion fails with \<open>XSTDERR\<close> when the pair or, for a new key, the list node cannot be allocated, and for no
  other reason; the insertion of a present key is refused with \<open>XSTDEXC\<close>, the deletion of an absent one with \<open>XSTDERR\<close>.
\<close>

definition told_insert :: "bool \<Rightarrow> bool \<Rightarrow> (u32 \<rightharpoonup> 'v xhash_pair) \<Rightarrow> 'v xhash_pair \<Rightarrow> int" where
  "told_insert ok node f p =
     (if \<not> ok then XSTDERR else if f (hp_key p) \<noteq> None then XSTDEXC else if \<not> node then XSTDERR else XSTDOK)"

fun map_after :: "'v hash_op list \<Rightarrow> bool list \<Rightarrow> (u32 \<rightharpoonup> 'v xhash_pair) \<Rightarrow> (u32 \<rightharpoonup> 'v xhash_pair) \<times> int list" where
  "map_after (Ins ok p # ops) (node # given) f =
     (let st = told_insert ok node f p; (g, sts) = map_after ops given (if st = XSTDOK then f(hp_key p \<mapsto> p) else f)
      in (g, st # sts))"
| "map_after (Del k # ops) (node # given) f =
     (let (g, sts) = map_after ops given (f(k := None)) in (g, (if f k = None then XSTDERR else XSTDOK) # sts))"
| "map_after _ _ f = (f, [])"

text \<open>The pairs the table took over.\<close>

fun taken :: "'v hash_op list \<Rightarrow> int list \<Rightarrow> 'v xhash_pair list" where
  "taken (Ins ok p # ops) (st # sts) = (if st = XSTDOK then p # taken ops sts else taken ops sts)"
| "taken (Del k # ops) (st # sts) = taken ops sts"
| "taken _ _ = []"

definition cleared_by :: "nat \<Rightarrow> 'v xhash_pair multiset \<Rightarrow> 'v xhash_pair event multiset" where
  "cleared_by self ps = image_mset (Cleared clear_fn (Some self)) ps"

lemma all_pairs_mset: "hash_chains self s ns \<Longrightarrow> mset (all_pairs ns) = mset_set (ran (pairs_of ns)) \<and> finite (ran (pairs_of ns))"
  using all_pairs_set [of self s ns] by (metis List.finite_set distinct_map mset_set_set)

lemma pairs_of_key: "pairs_of ns k = Some p \<Longrightarrow> hp_key p = k"
  by (auto simp: pairs_of_def dest: look_Some)

lemma ran_insert: "f k = None \<Longrightarrow> (\<And>k p. f k = Some p \<Longrightarrow> hp_key p = k) \<Longrightarrow> hp_key p = k \<Longrightarrow> finite (ran f) \<Longrightarrow>
    mset_set (ran (f(k \<mapsto> p))) = add_mset p (mset_set (ran f))"
proof -
  assume a: "f k = None" "\<And>k p. f k = Some p \<Longrightarrow> hp_key p = k" "hp_key p = k" "finite (ran f)"
  then have "p \<notin> ran f" by (auto simp: ran_def)
  then show ?thesis using a(1,4) by (simp add: ran_map_upd)
qed

lemma ran_delete: "f k = Some p \<Longrightarrow> (\<And>k p. f k = Some p \<Longrightarrow> hp_key p = k) \<Longrightarrow> finite (ran f) \<Longrightarrow>
    add_mset p (mset_set (ran (f(k := None)))) = mset_set (ran f)"
proof -
  assume a: "f k = Some p" "\<And>k p. f k = Some p \<Longrightarrow> hp_key p = k" "finite (ran f)"
  have "ran (f(k := None)) = ran f - {p}" using a(1,2) by (auto simp: ran_def) (metis option.inject)
  moreover have "p \<in> ran f" using a(1) by (auto simp: ran_def)
  ultimately show ?thesis using a(3) by (simp add: mset_set.remove)
qed

lemma insert_step:
  assumes "hash_chains self s ns" "fresh_spec new" "nPairCount s + 1 < 2 ^ 64"
  shows "\<exists>s'. hash_step new (Ins ok p) s = Some (s', told_insert ok (new (mem (lists s)) \<noteq> None) (pairs_of ns) p) \<and>
    evs (lists s') = evs (lists s) \<and> nPairCount s' \<le> nPairCount s + 1 \<and>
    hash_map self s' (if told_insert ok (new (mem (lists s)) \<noteq> None) (pairs_of ns) p = XSTDOK
                      then (pairs_of ns)(hp_key p \<mapsto> p) else pairs_of ns)"
proof -
  have same: "hash_map self s (pairs_of ns)" using assms(1) by (auto simp: hash_map_def)
  show ?thesis
  proof (cases ok)
    case False
    then show ?thesis using same
      by (simp add: hash_step_def XHash_Insert_def XHash_NewPair_def told_insert_def)
  next
    case True
    then have "hash_step new (Ins ok p) s = XHash_InsertPair new s p"
      by (cases p) (simp add: hash_step_def XHash_Insert_def XHash_NewPair_def)
    then show ?thesis
      using insert_pair [OF assms, of p] same True
      by (elim exE conjE) (auto simp: told_insert_def split: if_splits)
  qed
qed

lemma run_hash:
  assumes "hash_map self s f" "fresh_spec new" "nPairCount s + length ops < 2 ^ 64"
  shows "\<exists>s' sts given g. run_hash new ops s = Some (s', sts, given) \<and> length given = length ops \<and>
    map_after ops given f = (g, sts) \<and> hash_map self s' g \<and>
    mset (evs (lists s')) + cleared_by self (mset_set (ran g)) =
      mset (evs (lists s)) + cleared_by self (mset_set (ran f)) + cleared_by self (mset (taken ops sts))"
  using assms(1,3)
proof (induction ops arbitrary: s f)
  case Nil
  then show ?case by (simp add: cleared_by_def)
next
  case (Cons op ops)
  obtain ns where ns: "hash_chains self s ns" "f = pairs_of ns" using Cons.prems(1) by (auto simp: hash_map_def)
  have key: "\<And>k p. f k = Some p \<Longrightarrow> hp_key p = k" and fin: "finite (ran f)"
    using pairs_of_key all_pairs_mset [OF ns(1)] ns(2) by auto
  have room: "nPairCount s + 1 < 2 ^ 64" using Cons.prems(2) by simp
  show ?case
  proof (cases op)
    case (Ins ok p)
    let ?f = "if told_insert ok (new (mem (lists s)) \<noteq> None) f p = XSTDOK then f(hp_key p \<mapsto> p) else f"
    from insert_step [OF ns(1) assms(2) room, of ok p]
    obtain s1 where s1: "hash_step new op s = Some (s1, told_insert ok (new (mem (lists s)) \<noteq> None) f p)"
      "evs (lists s1) = evs (lists s)" "hash_map self s1 ?f" "nPairCount s1 \<le> nPairCount s + 1"
      unfolding Ins ns(2) by blast
    have "mset_set (ran (f(hp_key p \<mapsto> p))) = add_mset p (mset_set (ran f))" if "f (hp_key p) = None"
      using that key fin by (intro ran_insert) auto
    then have "cleared_by self (mset_set (ran ?f)) = cleared_by self (mset_set (ran f)) +
        cleared_by self (if told_insert ok (new (mem (lists s)) \<noteq> None) f p = XSTDOK then {#p#} else {#})"
      by (auto simp: told_insert_def cleared_by_def simp del: fun_upd_apply)
    then show ?thesis
      using Cons.IH [OF s1(3)] Cons.prems(2) Ins s1 by (auto simp: cleared_by_def Let_def simp del: fun_upd_apply)
  next
    case (Del k)
    obtain s1 st where s1: "hash_step new op s = Some (s1, st)"
      "case f k of None \<Rightarrow> st = XSTDERR \<and> s1 = s
       | Some p \<Rightarrow> st = XSTDOK \<and> nPairCount s1 + 1 = nPairCount s \<and> clearCb s1 = clearCb s \<and> pUserContext s1 = pUserContext s \<and>
           evs (lists s1) = evs (lists s) @ [Cleared clear_fn (Some self) p] \<and> hash_map self s1 (f(k := None))"
      using delete_pair [OF ns(1), of k] unfolding ns(2) by (auto simp: hash_step_def Del)
    show ?thesis
    proof (cases "f k")
      case None
      then have "f(k := None) = f" by auto
      then show ?thesis using Cons.IH [OF Cons.prems(1)] Cons.prems(2) Del s1 None by auto
    next
      case (Some p)
      then have s1': "st = XSTDOK" "nPairCount s1 + 1 = nPairCount s"
        "evs (lists s1) = evs (lists s) @ [Cleared clear_fn (Some self) p]" "hash_map self s1 (f(k := None))"
        using s1(2) by simp_all
      have "add_mset p (mset_set (ran (f(k := None)))) = mset_set (ran f)" using Some key fin by (intro ran_delete) auto
      then have "cleared_by self (mset_set (ran f)) =
          add_mset (Cleared clear_fn (Some self) p) (cleared_by self (mset_set (ran (f(k := None)))))"
        by (metis cleared_by_def image_mset_add_mset)
      then show ?thesis using Cons.IH [OF s1'(4)] Cons.prems(2) Del s1 s1' Some by (auto simp del: fun_upd_apply)
    qed
  qed
qed

text \<open>
  C36: whatever is inserted and deleted from \<open>XHash_Init\<close> on, and whichever allocations fail, the table answers every lookup as
  the finite map of the specification and counts its pairs, and every operation gives the status the specification says: an
  insertion succeeds exactly when the key is new and its two allocations are answered, a present key whose pair could be
  allocated gives \<open>XSTDEXC\<close>, and \<open>XSTDERR\<close> means a refused allocation or the deletion of an absent key;
  \<open>XHash_Iterate\<close> visits each pair once, until the callback gives a non-zero status; and \<open>XHash_Destroy\<close> returns, with each pair the table ever took over released exactly once through
  \<open>XHash_ClearCb\<close>, at its deletion or now.
\<close>

theorem hash_history:
  assumes "fresh_spec new" "distinct ts" "length ts = 32" "length ops < 2 ^ 64"
  shows "\<exists>s sts given g ps s'. run_hash new ops (XHash_Init self ts h cb cx) = Some (s, sts, given) \<and>
    length given = length ops \<and> map_after ops given Map.empty = (g, sts) \<and>
    (\<forall>k. XHash_GetPair s k = Some (g k) \<and> XHash_GetData s k = Some (case g k of None \<Rightarrow> None | Some p \<Rightarrow> hp_data p)) \<and>
    set ps = ran g \<and> distinct ps \<and> nPairCount s = length ps \<and>
    (\<forall>f (w :: 'w). XHash_Iterate f s w = Some (fst (visit f w ps))) \<and>
    XHash_Destroy s = Some s' \<and> nPairCount s' = 0 \<and>
    mset (evs (lists s')) = mset (evs h) + cleared_by self (mset (taken ops sts))"
proof -
  let ?s = "XHash_Init self ts h cb cx"
  have 0: "pairs_of (\<lambda>_. []) = Map.empty" by (simp add: fun_eq_iff pairs_of_def look_def)
  have i: "hash_map self ?s Map.empty" unfolding hash_map_def by (rule exI, rule conjI [OF init_hash [OF assms(2,3)] 0 [symmetric]])
  have n: "nPairCount ?s + length ops < 2 ^ 64" and e: "evs (lists ?s) = evs h"
    using assms(4) by (simp_all add: XHash_Init_def init_heads)
  obtain s sts given g where run: "run_hash new ops ?s = Some (s, sts, given)" "length given = length ops"
    "map_after ops given Map.empty = (g, sts)" "hash_map self s g"
    "mset (evs (lists s)) + cleared_by self (mset_set (ran g)) = mset (evs h) + cleared_by self (mset (taken ops sts))"
    using run_hash [OF i assms(1) n] e by (auto simp: cleared_by_def)
  obtain ns where ns: "hash_chains self s ns" "g = pairs_of ns" using run(4) by (auto simp: hash_map_def)
  obtain s' where s': "XHash_Destroy s = Some s'" "nPairCount s' = 0"
    "evs (lists s') = evs (lists s) @ map (Cleared clear_fn (Some self)) (all_pairs ns)"
    using destroy [OF ns(1)] by blast
  have "mset (map (Cleared clear_fn (Some self)) (all_pairs ns)) = cleared_by self (mset_set (ran g))"
    using all_pairs_mset [OF ns(1)] ns(2) by (simp add: cleared_by_def)
  then have "mset (evs (lists s')) = mset (evs h) + cleared_by self (mset (taken ops sts))"
    using run(5) s'(3) by simp
  moreover have "XHash_GetPair s k = Some (g k)" for k using get_pair [OF ns(1)] ns(2) by simp
  moreover have "set (all_pairs ns) = ran g" "distinct (all_pairs ns)" "nPairCount s = length (all_pairs ns)"
    using all_pairs_set [OF ns(1)] ns(2) by (auto dest: distinct_map [THEN iffD1])
  moreover have "\<forall>f (w :: 'w). XHash_Iterate f s w = Some (fst (visit f w (all_pairs ns)))" by (simp add: iterate [OF ns(1)])
  ultimately show ?thesis
    using run(1-3) s'(1,2)
    by - (rule exI [of _ s], rule exI [of _ sts], rule exI [of _ given], rule exI [of _ g], rule exI [of _ "all_pairs ns"], rule exI [of _ s'],
      simp add: XHash_GetData_def)
qed

definition low_alloc :: "'d alloc" where
  "low_alloc m = (if m 100 = None then Some 100 else if m 101 = None then Some 101 else None)"

lemma hash_history_witness:
  "\<exists>s sts given s'. run_hash low_alloc [Ins True \<lparr>hp_data = Some (10 :: nat), hp_size = 1, hp_key = 5\<rparr>, Del 5]
      (XHash_Init 7 [0..<32] \<lparr>mem = Map.empty, evs = []\<rparr> None None) = Some (s, sts, given) \<and> XHash_Destroy s = Some s'"
proof -
  let ?ops = "[Ins True \<lparr>hp_data = Some (10 :: nat), hp_size = 1, hp_key = 5\<rparr>, Del 5]"
  have "fresh_spec (low_alloc :: nat xhash_pair alloc)" by (auto simp: fresh_spec_def low_alloc_def)
  moreover have "distinct [0..<32 :: nat]" "length [0..<32 :: nat] = 32" "length ?ops < 2 ^ 64" by simp_all
  ultimately show ?thesis
    using hash_history [of low_alloc "[0..<32]" ?ops 7 "\<lparr>mem = Map.empty, evs = []\<rparr>" None None] by blast
qed

end
