(* ===== verification/Aes.thy ===== *)
theory Aes
  imports Bytes
begin

text \<open>
  The AES block cipher of \<open>src/src/crypt/aes.c\<close>: tables, key expansion, contexts and the encryption and decryption of one
  block. A block is a list of 16 bytes; entry \<open>[i][j]\<close> of the state is byte \<open>4 * i + j\<close> of it. A round key is read from a
  block of \<open>XAES_RKEY_SIZE\<close> bytes, and a read outside of it is \<open>None\<close>. The counters of rounds are of type \<open>uint8_t\<close> and wrap.
  The code is compared with the definition of the cipher in FIPS 197.
\<close>

section \<open>The code\<close>

abbreviation XAES_RKEY_SIZE :: nat where "XAES_RKEY_SIZE \<equiv> 240"
abbreviation XAES_BLOCK_SIZE :: nat where "XAES_BLOCK_SIZE \<equiv> 16"
abbreviation XAES_KEY_LENGTH :: nat where "XAES_KEY_LENGTH \<equiv> 32"

datatype xaes_mode = XAES_MODE_CBC | XAES_MODE_XBC | XAES_MODE_SIV | XAES_MODE_SIV_NONCE

record xaes_key =
  aesKey :: "byte list"
  ctrKey :: "byte list"
  IV :: "byte list"
  nContainIV :: bool
  nKeySize :: nat

record xaes_ctx =
  cmacRoundKey :: "byte list"
  roundKey :: "byte list"
  nNB :: byte
  nNK :: byte
  nNR :: byte

record xaes =
  mode :: xaes_mode
  key :: xaes_key
  ctx :: xaes_ctx

definition g_sbox :: "byte list" where
  "g_sbox =
   [
    0x63, 0x7c, 0x77, 0x7b, 0xf2, 0x6b, 0x6f, 0xc5, 0x30, 0x01, 0x67, 0x2b, 0xfe, 0xd7, 0xab, 0x76,
    0xca, 0x82, 0xc9, 0x7d, 0xfa, 0x59, 0x47, 0xf0, 0xad, 0xd4, 0xa2, 0xaf, 0x9c, 0xa4, 0x72, 0xc0,
    0xb7, 0xfd, 0x93, 0x26, 0x36, 0x3f, 0xf7, 0xcc, 0x34, 0xa5, 0xe5, 0xf1, 0x71, 0xd8, 0x31, 0x15,
    0x04, 0xc7, 0x23, 0xc3, 0x18, 0x96, 0x05, 0x9a, 0x07, 0x12, 0x80, 0xe2, 0xeb, 0x27, 0xb2, 0x75,
    0x09, 0x83, 0x2c, 0x1a, 0x1b, 0x6e, 0x5a, 0xa0, 0x52, 0x3b, 0xd6, 0xb3, 0x29, 0xe3, 0x2f, 0x84,
    0x53, 0xd1, 0x00, 0xed, 0x20, 0xfc, 0xb1, 0x5b, 0x6a, 0xcb, 0xbe, 0x39, 0x4a, 0x4c, 0x58, 0xcf,
    0xd0, 0xef, 0xaa, 0xfb, 0x43, 0x4d, 0x33, 0x85, 0x45, 0xf9, 0x02, 0x7f, 0x50, 0x3c, 0x9f, 0xa8,
    0x51, 0xa3, 0x40, 0x8f, 0x92, 0x9d, 0x38, 0xf5, 0xbc, 0xb6, 0xda, 0x21, 0x10, 0xff, 0xf3, 0xd2,
    0xcd, 0x0c, 0x13, 0xec, 0x5f, 0x97, 0x44, 0x17, 0xc4, 0xa7, 0x7e, 0x3d, 0x64, 0x5d, 0x19, 0x73,
    0x60, 0x81, 0x4f, 0xdc, 0x22, 0x2a, 0x90, 0x88, 0x46, 0xee, 0xb8, 0x14, 0xde, 0x5e, 0x0b, 0xdb,
    0xe0, 0x32, 0x3a, 0x0a, 0x49, 0x06, 0x24, 0x5c, 0xc2, 0xd3, 0xac, 0x62, 0x91, 0x95, 0xe4, 0x79,
    0xe7, 0xc8, 0x37, 0x6d, 0x8d, 0xd5, 0x4e, 0xa9, 0x6c, 0x56, 0xf4, 0xea, 0x65, 0x7a, 0xae, 0x08,
    0xba, 0x78, 0x25, 0x2e, 0x1c, 0xa6, 0xb4, 0xc6, 0xe8, 0xdd, 0x74, 0x1f, 0x4b, 0xbd, 0x8b, 0x8a,
    0x70, 0x3e, 0xb5, 0x66, 0x48, 0x03, 0xf6, 0x0e, 0x61, 0x35, 0x57, 0xb9, 0x86, 0xc1, 0x1d, 0x9e,
    0xe1, 0xf8, 0x98, 0x11, 0x69, 0xd9, 0x8e, 0x94, 0x9b, 0x1e, 0x87, 0xe9, 0xce, 0x55, 0x28, 0xdf,
    0x8c, 0xa1, 0x89, 0x0d, 0xbf, 0xe6, 0x42, 0x68, 0x41, 0x99, 0x2d, 0x0f, 0xb0, 0x54, 0xbb, 0x16]"

definition g_rsbox :: "byte list" where
  "g_rsbox =
   [
    0x52, 0x09, 0x6a, 0xd5, 0x30, 0x36, 0xa5, 0x38, 0xbf, 0x40, 0xa3, 0x9e, 0x81, 0xf3, 0xd7, 0xfb,
    0x7c, 0xe3, 0x39, 0x82, 0x9b, 0x2f, 0xff, 0x87, 0x34, 0x8e, 0x43, 0x44, 0xc4, 0xde, 0xe9, 0xcb,
    0x54, 0x7b, 0x94, 0x32, 0xa6, 0xc2, 0x23, 0x3d, 0xee, 0x4c, 0x95, 0x0b, 0x42, 0xfa, 0xc3, 0x4e,
    0x08, 0x2e, 0xa1, 0x66, 0x28, 0xd9, 0x24, 0xb2, 0x76, 0x5b, 0xa2, 0x49, 0x6d, 0x8b, 0xd1, 0x25,
    0x72, 0xf8, 0xf6, 0x64, 0x86, 0x68, 0x98, 0x16, 0xd4, 0xa4, 0x5c, 0xcc, 0x5d, 0x65, 0xb6, 0x92,
    0x6c, 0x70, 0x48, 0x50, 0xfd, 0xed, 0xb9, 0xda, 0x5e, 0x15, 0x46, 0x57, 0xa7, 0x8d, 0x9d, 0x84,
    0x90, 0xd8, 0xab, 0x00, 0x8c, 0xbc, 0xd3, 0x0a, 0xf7, 0xe4, 0x58, 0x05, 0xb8, 0xb3, 0x45, 0x06,
    0xd0, 0x2c, 0x1e, 0x8f, 0xca, 0x3f, 0x0f, 0x02, 0xc1, 0xaf, 0xbd, 0x03, 0x01, 0x13, 0x8a, 0x6b,
    0x3a, 0x91, 0x11, 0x41, 0x4f, 0x67, 0xdc, 0xea, 0x97, 0xf2, 0xcf, 0xce, 0xf0, 0xb4, 0xe6, 0x73,
    0x96, 0xac, 0x74, 0x22, 0xe7, 0xad, 0x35, 0x85, 0xe2, 0xf9, 0x37, 0xe8, 0x1c, 0x75, 0xdf, 0x6e,
    0x47, 0xf1, 0x1a, 0x71, 0x1d, 0x29, 0xc5, 0x89, 0x6f, 0xb7, 0x62, 0x0e, 0xaa, 0x18, 0xbe, 0x1b,
    0xfc, 0x56, 0x3e, 0x4b, 0xc6, 0xd2, 0x79, 0x20, 0x9a, 0xdb, 0xc0, 0xfe, 0x78, 0xcd, 0x5a, 0xf4,
    0x1f, 0xdd, 0xa8, 0x33, 0x88, 0x07, 0xc7, 0x31, 0xb1, 0x12, 0x10, 0x59, 0x27, 0x80, 0xec, 0x5f,
    0x60, 0x51, 0x7f, 0xa9, 0x19, 0xb5, 0x4a, 0x0d, 0x2d, 0xe5, 0x7a, 0x9f, 0x93, 0xc9, 0x9c, 0xef,
    0xa0, 0xe0, 0x3b, 0x4d, 0xae, 0x2a, 0xf5, 0xb0, 0xc8, 0xeb, 0xbb, 0x3c, 0x83, 0x53, 0x99, 0x61,
    0x17, 0x2b, 0x04, 0x7e, 0xba, 0x77, 0xd6, 0x26, 0xe1, 0x69, 0x14, 0x63, 0x55, 0x21, 0x0c, 0x7d]"

definition g_rcon :: "byte list" where
  "g_rcon = [0x8d, 0x01, 0x02, 0x04, 0x08, 0x10, 0x20, 0x40, 0x80, 0x1b, 0x36]"

definition XAES_GetSBoxValue :: "byte \<Rightarrow> byte" where
  "XAES_GetSBoxValue x = g_sbox ! unat x"

definition XAES_GetSBoxInvert :: "byte \<Rightarrow> byte" where
  "XAES_GetSBoxInvert x = g_rsbox ! unat x"

text \<open>The macros work on integers of the width of their argument: \<open>int\<close> inside \<open>XAES_Multiply\<close>, cut to a byte by the caller.\<close>

definition XAES_Time :: "'a :: len word \<Rightarrow> 'a word" where
  "XAES_Time x = push_bit 1 x XOR ((drop_bit 7 x AND 1) * 0x1b)"

definition XAES_Multiply :: "u32 \<Rightarrow> u32 \<Rightarrow> u32" where
  "XAES_Multiply x y =
     ((y AND 1) * x) XOR
     ((drop_bit 1 y AND 1) * XAES_Time x) XOR
     ((drop_bit 2 y AND 1) * XAES_Time (XAES_Time x)) XOR
     ((drop_bit 3 y AND 1) * XAES_Time (XAES_Time (XAES_Time x))) XOR
     ((drop_bit 4 y AND 1) * XAES_Time (XAES_Time (XAES_Time (XAES_Time x))))"

text \<open>One turn of the loop of the key expansion, for word \<open>i\<close> of the round keys \<open>rk\<close>.\<close>

definition key_step :: "nat \<Rightarrow> nat \<Rightarrow> byte list \<Rightarrow> nat \<Rightarrow> byte list option" where
  "key_step nk n rk i = do {
     temp \<leftarrow> mread rk ((i - 1) * 4) 4;
     temp \<leftarrow>
       (if i mod nk = 0
        then do {
          c \<leftarrow> peek g_rcon (i div nk);
          let temp = map XAES_GetSBoxValue (rotate1 temp);
          Some (temp[0 := temp ! 0 XOR c]) }
        else Some temp);
     let temp = (if n = 256 \<and> i mod nk = 4 then map XAES_GetSBoxValue temp else temp);
     k \<leftarrow> mread rk ((i - nk) * 4) 4;
     memcpy rk (i * 4) (map2 (XOR) k temp) }"

fun key_loop :: "nat \<Rightarrow> nat \<Rightarrow> byte list \<Rightarrow> nat list \<Rightarrow> byte list option" where
  "key_loop nk n rk [] = Some rk"
| "key_loop nk n rk (i # is) = do { rk \<leftarrow> key_step nk n rk i; key_loop nk n rk is }"

definition XAES_KeyExpansion :: "xaes_ctx \<Rightarrow> byte list \<Rightarrow> nat \<Rightarrow> xaes_ctx option" where
  "XAES_KeyExpansion c pKey n = do {
     let nk = unat (nNK c);
     k \<leftarrow> mread pKey 0 (4 * nk);
     rk \<leftarrow> memcpy (roundKey c) 0 k;
     rk \<leftarrow> key_loop nk n rk [nk..<unat (nNB c) * (unat (nNR c) + 1)];
     Some (c\<lparr>roundKey := rk\<rparr>) }"

definition XAES_IsUsed :: "byte list option \<Rightarrow> bool option" where
  "XAES_IsUsed p = (case p of None \<Rightarrow> Some False | Some d \<Rightarrow> do { x \<leftarrow> peek d 0; Some (x \<noteq> 0) })"

text \<open>\<open>rnd\<close> are the bytes \<open>XAES_Rand\<close> draws.\<close>

definition XAES_InitKey :: "byte list \<Rightarrow> byte list \<Rightarrow> nat \<Rightarrow> byte list option \<Rightarrow> bool \<Rightarrow> xaes_key option" where
  "XAES_InitKey rnd pAESKey n pIV bContainIV = do {
     let k = \<lparr>aesKey = replicate XAES_KEY_LENGTH 0, ctrKey = replicate XAES_KEY_LENGTH 0,
              IV = replicate XAES_BLOCK_SIZE 0, nContainIV = bContainIV, nKeySize = 0\<rparr>;
     k \<leftarrow> (if n = 128 \<or> n = 192 \<or> n = 256
          then do { d \<leftarrow> mread pAESKey 0 (n div 8); a \<leftarrow> memcpy (aesKey k) 0 d; Some (k\<lparr>nKeySize := n, aesKey := a\<rparr>) }
          else Some k);
     used \<leftarrow> XAES_IsUsed pIV;
     (if used then do { p \<leftarrow> pIV; d \<leftarrow> mread p 0 XAES_BLOCK_SIZE; Some (k\<lparr>IV := d\<rparr>) }
      else if bContainIV then Some (k\<lparr>IV := take XAES_BLOCK_SIZE rnd\<rparr>)
      else Some (k\<lparr>IV := replicate XAES_BLOCK_SIZE 0\<rparr>)) }"

definition XAES_InitSIVKey :: "byte list \<Rightarrow> byte list \<Rightarrow> nat \<Rightarrow> xaes_key option" where
  "XAES_InitSIVKey pMacKey pCtrKey n = do {
     let k = \<lparr>aesKey = replicate XAES_KEY_LENGTH 0, ctrKey = replicate XAES_KEY_LENGTH 0,
              IV = replicate XAES_BLOCK_SIZE 0, nContainIV = False, nKeySize = 0\<rparr>;
     (if n = 128 \<or> n = 192 \<or> n = 256
      then do {
        d \<leftarrow> mread pMacKey 0 (n div 8);
        a \<leftarrow> memcpy (aesKey k) 0 d;
        e \<leftarrow> mread pCtrKey 0 (n div 8);
        b \<leftarrow> memcpy (ctrKey k) 0 e;
        Some (k\<lparr>nKeySize := n, aesKey := a, ctrKey := b\<rparr>) }
      else Some k) }"

text \<open>The structure and the status. On an invalid key size the structure is all zero, and no key is copied.\<close>

definition XAES_Init :: "xaes_key \<Rightarrow> xaes_mode \<Rightarrow> (xaes \<times> int) option" where
  "XAES_Init k m =
     (let zero = \<lparr>cmacRoundKey = replicate XAES_RKEY_SIZE 0, roundKey = replicate XAES_RKEY_SIZE 0, nNB = 0, nNK = 0, nNR = 0\<rparr>;
          nokey = \<lparr>aesKey = replicate XAES_KEY_LENGTH 0, ctrKey = replicate XAES_KEY_LENGTH 0,
                   IV = replicate XAES_BLOCK_SIZE 0, nContainIV = False, nKeySize = 0\<rparr>;
          sizes = (if nKeySize k = 128 then Some (4, 10) else if nKeySize k = 192 then Some (6, 12)
                   else if nKeySize k = 256 then Some (8, 14) else None)
      in case sizes of
           None \<Rightarrow> Some (\<lparr>mode = XAES_MODE_CBC, key = nokey, ctx = zero\<rparr>, XSTDINV)
         | Some (nk, nr) \<Rightarrow>
             let c = zero\<lparr>nNB := 4, nNK := nk, nNR := nr\<rparr>
             in if m = XAES_MODE_SIV \<or> m = XAES_MODE_SIV_NONCE
                then do {
                  d \<leftarrow> XAES_KeyExpansion c (aesKey k) (nKeySize k);
                  let c = c\<lparr>cmacRoundKey := roundKey d\<rparr>;
                  c \<leftarrow> XAES_KeyExpansion c (ctrKey k) (nKeySize k);
                  Some (\<lparr>mode = m, key = k, ctx = c\<rparr>, XSTDOK) }
                else do {
                  c \<leftarrow> XAES_KeyExpansion c (aesKey k) (nKeySize k);
                  Some (\<lparr>mode = m, key = k, ctx = c\<rparr>, XSTDOK) })"

definition XAES_SetSIVNonce :: "xaes \<Rightarrow> byte list option \<Rightarrow> nat \<Rightarrow> xaes option" where
  "XAES_SetSIVNonce a p n =
     (case p of None \<Rightarrow> Some a
      | Some d \<Rightarrow> if n = XAES_BLOCK_SIZE then do { x \<leftarrow> mread d 0 XAES_BLOCK_SIZE; Some (a\<lparr>key := (key a)\<lparr>IV := x\<rparr>\<rparr>) } else Some a)"

subsection \<open>Rounds\<close>

definition XAES_AddRoundKey :: "byte \<Rightarrow> byte \<Rightarrow> byte list \<Rightarrow> byte list \<Rightarrow> byte list option" where
  "XAES_AddRoundKey nb nRound st rk =
     those (map (\<lambda>(i, j). do {
       k \<leftarrow> peek rk (unat nRound * unat nb * 4 + i * unat nb + j);
       x \<leftarrow> peek st (4 * i + j);
       Some (x XOR k) }) (List.product [0..<4] [0..<4]))"

definition XAES_SubBytes :: "byte list \<Rightarrow> byte list" where
  "XAES_SubBytes st = map XAES_GetSBoxValue st"

definition XAES_ShiftRows :: "byte list \<Rightarrow> byte list" where
  "XAES_ShiftRows st =
     (let nTemp = st ! 1; st = st[1 := st ! 5]; st = st[5 := st ! 9]; st = st[9 := st ! 13]; st = st[13 := nTemp];
          nTemp = st ! 2; st = st[2 := st ! 10]; st = st[10 := nTemp];
          nTemp = st ! 6; st = st[6 := st ! 14]; st = st[14 := nTemp];
          nTemp = st ! 3; st = st[3 := st ! 15]; st = st[15 := st ! 11]; st = st[11 := st ! 7]; st = st[7 := nTemp]
      in st)"

definition mix_column :: "byte list \<Rightarrow> nat \<Rightarrow> byte list" where
  "mix_column st i =
     (let s0 = 4 * i; s1 = 4 * i + 1; s2 = 4 * i + 2; s3 = 4 * i + 3;
          nT = st ! s0;
          nTmp = st ! s0 XOR st ! s1 XOR st ! s2 XOR st ! s3;
          nTM = XAES_Time (st ! s0 XOR st ! s1); st = st[s0 := st ! s0 XOR (nTM XOR nTmp)];
          nTM = XAES_Time (st ! s1 XOR st ! s2); st = st[s1 := st ! s1 XOR (nTM XOR nTmp)];
          nTM = XAES_Time (st ! s2 XOR st ! s3); st = st[s2 := st ! s2 XOR (nTM XOR nTmp)];
          nTM = XAES_Time (st ! s3 XOR nT); st = st[s3 := st ! s3 XOR (nTM XOR nTmp)]
      in st)"

definition XAES_MixColumns :: "byte list \<Rightarrow> byte list" where
  "XAES_MixColumns st = foldl mix_column st [0..<4]"

definition inv_mix_column :: "byte list \<Rightarrow> nat \<Rightarrow> byte list" where
  "inv_mix_column st i =
     (let a = ucast (st ! (4 * i)); b = ucast (st ! (4 * i + 1)); c = ucast (st ! (4 * i + 2)); d = ucast (st ! (4 * i + 3));
          st = st[4 * i := ucast (XAES_Multiply a 0x0e XOR XAES_Multiply b 0x0b XOR XAES_Multiply c 0x0d XOR XAES_Multiply d 0x09)];
          st = st[4 * i + 1 := ucast (XAES_Multiply a 0x09 XOR XAES_Multiply b 0x0e XOR XAES_Multiply c 0x0b XOR XAES_Multiply d 0x0d)];
          st = st[4 * i + 2 := ucast (XAES_Multiply a 0x0d XOR XAES_Multiply b 0x09 XOR XAES_Multiply c 0x0e XOR XAES_Multiply d 0x0b)];
          st = st[4 * i + 3 := ucast (XAES_Multiply a 0x0b XOR XAES_Multiply b 0x0d XOR XAES_Multiply c 0x09 XOR XAES_Multiply d 0x0e)]
      in st)"

definition XAES_InvMixColumns :: "byte list \<Rightarrow> byte list" where
  "XAES_InvMixColumns st = foldl inv_mix_column st [0..<4]"

definition XAES_InvSubBytes :: "byte list \<Rightarrow> byte list" where
  "XAES_InvSubBytes st = map XAES_GetSBoxInvert st"

definition XAES_InvShiftRows :: "byte list \<Rightarrow> byte list" where
  "XAES_InvShiftRows st =
     (let nTemp = st ! 13; st = st[13 := st ! 9]; st = st[9 := st ! 5]; st = st[5 := st ! 1]; st = st[1 := nTemp];
          nTemp = st ! 2; st = st[2 := st ! 10]; st = st[10 := nTemp];
          nTemp = st ! 6; st = st[6 := st ! 14]; st = st[14 := nTemp];
          nTemp = st ! 3; st = st[3 := st ! 7]; st = st[7 := st ! 11]; st = st[11 := st ! 15]; st = st[15 := nTemp]
      in st)"

function cipher_loop :: "byte \<Rightarrow> byte \<Rightarrow> byte list \<Rightarrow> byte list \<Rightarrow> byte \<Rightarrow> byte list option" where
  "cipher_loop nr nb rk st nRound =
     (let st = XAES_ShiftRows (XAES_SubBytes st)
      in if nRound = nr then Some st
         else do { st \<leftarrow> XAES_AddRoundKey nb nRound (XAES_MixColumns st) rk; cipher_loop nr nb rk st (nRound + 1) })"
  by pat_completeness auto
termination
proof (relation "measure (\<lambda>(nr, _, _, _, r). unat (nr - r))")
  fix nr r :: byte assume "r \<noteq> nr"
  then have "unat (nr - r - 1) < unat (nr - r)" by (simp add: unat_minus_one unat_gt_0)
  then show "((nr, nb, rk, x, r + 1), (nr, nb, rk, st, r)) \<in> measure (\<lambda>(nr, _, _, _, r). unat (nr - r))" for nb rk x st
    by (simp add: diff_diff_eq)
qed simp

declare cipher_loop.simps [simp del]

definition XAES_CipherBlock :: "byte \<Rightarrow> byte \<Rightarrow> byte list \<Rightarrow> byte list \<Rightarrow> byte list option" where
  "XAES_CipherBlock nr nb rk buf = do {
     st \<leftarrow> XAES_AddRoundKey nb 0 buf rk;
     st \<leftarrow> cipher_loop nr nb rk st 1;
     XAES_AddRoundKey nb nr st rk }"

definition XAES_ECB_Crypt :: "xaes \<Rightarrow> byte list \<Rightarrow> byte list option" where
  "XAES_ECB_Crypt a buf = XAES_CipherBlock (nNR (ctx a)) (nNB (ctx a)) (roundKey (ctx a)) buf"

function decipher_loop :: "byte \<Rightarrow> byte list \<Rightarrow> byte list \<Rightarrow> byte \<Rightarrow> byte list option" where
  "decipher_loop nb rk st nRound = do {
     st \<leftarrow> XAES_AddRoundKey nb nRound (XAES_InvSubBytes (XAES_InvShiftRows st)) rk;
     (if nRound = 0 then Some st else decipher_loop nb rk (XAES_InvMixColumns st) (nRound - 1)) }"
  by pat_completeness auto
termination by (relation "measure (\<lambda>(_, _, _, r). unat r)") (auto simp: unat_minus_one unat_gt_0)

declare decipher_loop.simps [simp del]

definition XAES_ECB_Decrypt :: "xaes \<Rightarrow> byte list \<Rightarrow> byte list option" where
  "XAES_ECB_Decrypt a buf = do {
     st \<leftarrow> XAES_AddRoundKey (nNB (ctx a)) (nNR (ctx a)) buf (roundKey (ctx a));
     decipher_loop (nNB (ctx a)) (roundKey (ctx a)) st (nNR (ctx a) - 1) }"

section \<open>Each step has its inverse\<close>

lemma sbox_graph: "map (\<lambda>x. g_rsbox ! unat x) g_sbox = map word_of_int [0..255]"
  by code_simp

lemma box_length [simp]: "length g_sbox = 256" "length g_rsbox = 256"
  by (simp_all add: g_sbox_def g_rsbox_def)

lemma InvertValue [simp]: "XAES_GetSBoxInvert (XAES_GetSBoxValue x) = x"
proof -
  have "map (\<lambda>x. g_rsbox ! unat x) g_sbox ! unat x = map word_of_int [0..255] ! unat x" by (simp only: sbox_graph)
  moreover have "[0..255] ! unat x = uint x" using uint_bounded [of x] by (subst nth_upto) auto
  ultimately show ?thesis
    using byte_nat [of x] by (simp add: XAES_GetSBoxInvert_def XAES_GetSBoxValue_def)
qed

lemma ValueInvert [simp]: "XAES_GetSBoxValue (XAES_GetSBoxInvert x) = x"
proof -
  have "inj XAES_GetSBoxValue" by (rule inj_on_inverseI [of _ XAES_GetSBoxInvert]) simp
  then obtain y where "x = XAES_GetSBoxValue y" using finite_UNIV_inj_surj [OF finite] by (metis surjD)
  then show ?thesis by simp
qed

lemma Time_bit: "XAES_Time x = push_bit 1 x XOR (if bit x 7 then 0x1b else 0)"
proof (cases "bit x 7")
  case True
  then have "drop_bit 7 x mod 2 = 1" by (simp only: bit_iff_odd_drop_bit odd_iff_mod_2_eq_one)
  then show ?thesis using True by (simp add: XAES_Time_def and_one_eq)
next
  case False
  then have "drop_bit 7 x mod 2 = 0" by (simp only: bit_iff_odd_drop_bit odd_iff_mod_2_eq_one even_iff_mod_2_eq_zero not_not)
  then show ?thesis using False by (simp add: XAES_Time_def and_one_eq)
qed

lemma Time_xor: "XAES_Time (x XOR y) = XAES_Time x XOR XAES_Time y"
  by (simp add: Time_bit push_bit_xor bit_simps ac_simps)

lemma Time_ucast: "(ucast (XAES_Time (x :: u32)) :: byte) = XAES_Time (ucast x)"
proof -
  have "(ucast (push_bit 1 x) :: byte) = push_bit 1 (ucast x)"
    by (rule bit_word_eqI) (auto simp: bit_simps simp del: push_bit_eq_mult push_bit_Suc push_bit_numeral)
  then show ?thesis by (simp add: Time_bit unsigned_xor_eq bit_simps)
qed

text \<open>The four multiplications of \<open>XAES_InvMixColumns\<close>, cut to a byte.\<close>

lemma ucast_byte [simp]: "(ucast (ucast (a :: byte) :: u32) :: byte) = a"
  by (rule bit_word_eqI) (auto simp: bit_simps)

lemma Multiply_byte:
  fixes a :: byte
  defines "T \<equiv> XAES_Time :: byte \<Rightarrow> byte"
  shows "(ucast (XAES_Multiply (ucast a) 0x0e) :: byte) = T a XOR T (T a) XOR T (T (T a))"
    "(ucast (XAES_Multiply (ucast a) 0x0b) :: byte) = a XOR T a XOR T (T (T a))"
    "(ucast (XAES_Multiply (ucast a) 0x0d) :: byte) = a XOR T (T a) XOR T (T (T a))"
    "(ucast (XAES_Multiply (ucast a) 0x09) :: byte) = a XOR T (T (T a))"
  by (simp_all add: XAES_Multiply_def T_def unsigned_xor_eq Time_ucast)

definition mix4 :: "byte \<Rightarrow> byte \<Rightarrow> byte \<Rightarrow> byte \<Rightarrow> byte list" where
  "mix4 a b c d =
     [XAES_Time (a XOR b) XOR (b XOR c XOR d), XAES_Time (b XOR c) XOR (a XOR c XOR d),
      XAES_Time (c XOR d) XOR (a XOR b XOR d), XAES_Time (d XOR a) XOR (a XOR b XOR c)]"

definition inv4 :: "byte \<Rightarrow> byte \<Rightarrow> byte \<Rightarrow> byte \<Rightarrow> byte list" where
  "inv4 a b c d =
     (let e = (\<lambda>x. XAES_Time x XOR XAES_Time (XAES_Time x) XOR XAES_Time (XAES_Time (XAES_Time x)));
          k = (\<lambda>x. x XOR XAES_Time x XOR XAES_Time (XAES_Time (XAES_Time x)));
          l = (\<lambda>x. x XOR XAES_Time (XAES_Time x) XOR XAES_Time (XAES_Time (XAES_Time x)));
          m = (\<lambda>x. x XOR XAES_Time (XAES_Time (XAES_Time x)))
      in [e a XOR k b XOR l c XOR m d, m a XOR e b XOR k c XOR l d, l a XOR m b XOR e c XOR k d, k a XOR l b XOR m c XOR e d])"

lemma xor_same [simp]: "x XOR (x XOR y) = (y :: 'a :: len word)"
  by (simp flip: xor.assoc)

lemma inv4_mix4: "mix4 a b c d = [w, x, y, z] \<Longrightarrow> inv4 w x y z = [a, b, c, d]"
  by (auto simp: mix4_def inv4_def Time_xor ac_simps)

lemma mix4_inv4: "inv4 a b c d = [w, x, y, z] \<Longrightarrow> mix4 w x y z = [a, b, c, d]"
  by (auto simp: mix4_def inv4_def Time_xor ac_simps)

lemma list16:
  assumes "length st = 16"
  obtains a0 a1 a2 a3 a4 a5 a6 a7 a8 a9 a10 a11 a12 a13 a14 a15 where "st = [a0, a1, a2, a3, a4, a5, a6, a7, a8, a9, a10, a11, a12, a13, a14, a15]"
proof -
  have "\<exists>a0 a1 a2 a3 a4 a5 a6 a7 a8 a9 a10 a11 a12 a13 a14 a15. st = [a0, a1, a2, a3, a4, a5, a6, a7, a8, a9, a10, a11, a12, a13, a14, a15]"
    using assms by (simp add: length_Suc_conv eval_nat_numeral) blast
  then show thesis using that by blast
qed

lemma Mix16: "XAES_MixColumns [a0, a1, a2, a3, a4, a5, a6, a7, a8, a9, a10, a11, a12, a13, a14, a15] =
    mix4 a0 a1 a2 a3 @ mix4 a4 a5 a6 a7 @ mix4 a8 a9 a10 a11 @ mix4 a12 a13 a14 a15"
  by (simp add: XAES_MixColumns_def mix_column_def mix4_def Let_def upt_rec ac_simps)

lemma InvMix16: "XAES_InvMixColumns [a0, a1, a2, a3, a4, a5, a6, a7, a8, a9, a10, a11, a12, a13, a14, a15] =
    inv4 a0 a1 a2 a3 @ inv4 a4 a5 a6 a7 @ inv4 a8 a9 a10 a11 @ inv4 a12 a13 a14 a15"
  by (simp add: XAES_InvMixColumns_def inv_mix_column_def inv4_def Let_def upt_rec Multiply_byte unsigned_xor_eq)

lemma col4: "length (mix4 a b c d) = 4" "length (inv4 a b c d) = 4"
  by (simp_all add: mix4_def inv4_def Let_def)

lemma mix_inverse:
  assumes "length st = 16"
  shows "XAES_InvMixColumns (XAES_MixColumns st) = st" "XAES_MixColumns (XAES_InvMixColumns st) = st"
    "length (XAES_MixColumns st) = 16" "length (XAES_InvMixColumns st) = 16"
proof -
  obtain a0 a1 a2 a3 a4 a5 a6 a7 a8 a9 a10 a11 a12 a13 a14 a15
    where st: "st = [a0, a1, a2, a3, a4, a5, a6, a7, a8, a9, a10, a11, a12, a13, a14, a15]"
    by (rule list16 [OF assms])
  have four: "\<exists>w x y z. xs = [w, x, y, z]" if "length xs = 4" for xs :: "byte list"
    using that by (auto simp: length_Suc_conv eval_nat_numeral)
  obtain b0 b1 b2 b3 c0 c1 c2 c3 where bc: "mix4 a0 a1 a2 a3 = [b0, b1, b2, b3]" "mix4 a4 a5 a6 a7 = [c0, c1, c2, c3]"
    using four [OF col4(1)] by metis
  obtain d0 d1 d2 d3 e0 e1 e2 e3 where de: "mix4 a8 a9 a10 a11 = [d0, d1, d2, d3]" "mix4 a12 a13 a14 a15 = [e0, e1, e2, e3]"
    using four [OF col4(1)] by metis
  show "XAES_InvMixColumns (XAES_MixColumns st) = st"
    unfolding st Mix16 bc de append_Cons append_Nil InvMix16 inv4_mix4 [OF bc(1)] inv4_mix4 [OF bc(2)]
      inv4_mix4 [OF de(1)] inv4_mix4 [OF de(2)] ..
  obtain b0 b1 b2 b3 c0 c1 c2 c3 where bc: "inv4 a0 a1 a2 a3 = [b0, b1, b2, b3]" "inv4 a4 a5 a6 a7 = [c0, c1, c2, c3]"
    using four [OF col4(2)] by metis
  obtain d0 d1 d2 d3 e0 e1 e2 e3 where de: "inv4 a8 a9 a10 a11 = [d0, d1, d2, d3]" "inv4 a12 a13 a14 a15 = [e0, e1, e2, e3]"
    using four [OF col4(2)] by metis
  show "XAES_MixColumns (XAES_InvMixColumns st) = st"
    unfolding st InvMix16 bc de append_Cons append_Nil Mix16 mix4_inv4 [OF bc(1)] mix4_inv4 [OF bc(2)]
      mix4_inv4 [OF de(1)] mix4_inv4 [OF de(2)] ..
qed (use assms in \<open>auto simp: col4 Mix16 InvMix16 elim!: list16\<close>)

lemma shift_inverse:
  assumes "length st = 16"
  shows "XAES_InvShiftRows (XAES_ShiftRows st) = st" "XAES_ShiftRows (XAES_InvShiftRows st) = st"
  using assms by (auto simp: XAES_InvShiftRows_def XAES_ShiftRows_def Let_def elim!: list16)

lemma step_length [simp]:
  "length (XAES_SubBytes st) = length st" "length (XAES_InvSubBytes st) = length st"
  "length (XAES_ShiftRows st) = length st" "length (XAES_InvShiftRows st) = length st"
  by (simp_all add: XAES_SubBytes_def XAES_InvSubBytes_def XAES_ShiftRows_def XAES_InvShiftRows_def Let_def)

lemma sub_inverse [simp]: "XAES_InvSubBytes (XAES_SubBytes st) = st" "XAES_SubBytes (XAES_InvSubBytes st) = st"
  by (simp_all add: XAES_SubBytes_def XAES_InvSubBytes_def comp_def)

section \<open>Round keys\<close>

abbreviation xorb :: "byte list \<Rightarrow> byte list \<Rightarrow> byte list" where
  "xorb xs ys \<equiv> map2 (XOR) xs ys"

lemma xorb_same [simp]: "length xs = length ys \<Longrightarrow> xorb (xorb xs ys) ys = xs"
  by (induction xs ys rule: list_induct2) (simp_all add: xor.assoc)

lemma xorb_commute: "xorb xs ys = xorb ys xs"
  by (induction xs ys rule: list_induct2') (simp_all add: xor.commute)

definition rkey :: "byte list \<Rightarrow> nat \<Rightarrow> byte list" where
  "rkey rk r = take 16 (drop (16 * r) rk)"

lemma rkey_length: "16 * r + 16 \<le> length rk \<Longrightarrow> length (rkey rk r) = 16"
  by (simp add: rkey_def)

lemma those_map: "(\<And>x. x \<in> set xs \<Longrightarrow> f x = Some (g x)) \<Longrightarrow> those (map f xs) = Some (map g xs)"
  by (induction xs) auto

lemma add_key:
  assumes "length st = 16" "16 * unat r + 16 \<le> length rk"
  shows "XAES_AddRoundKey 4 r st rk = Some (xorb st (rkey rk (unat r)))"
proof -
  let ?g = "\<lambda>(i, j). st ! (4 * i + j) XOR rk ! (16 * unat r + 4 * i + j)"
  have "XAES_AddRoundKey 4 r st rk = Some (map ?g (List.product [0..<4] [0..<4]))"
    unfolding XAES_AddRoundKey_def using assms by (intro those_map) (auto simp: peek_def mult.commute)
  also have "map ?g (List.product [0..<4] [0..<4]) = xorb st (rkey rk (unat r))"
  proof (rule nth_equalityI)
    fix k assume "k < length (map ?g (List.product [0..<4] [0..<4]))"
    then have k: "k < 16" by simp
    have "List.product [0..<4] [0..<4] ! k = (k div 4, k mod 4)"
      using k by (subst product_nth) auto
    then show "map ?g (List.product [0..<4] [0..<4]) ! k = xorb st (rkey rk (unat r)) ! k"
      using k assms by (simp add: rkey_def add.commute)
  qed (use assms in \<open>simp add: rkey_length\<close>)
  finally show ?thesis .
qed


section \<open>The rounds\<close>

fun enc_state :: "byte list \<Rightarrow> byte list \<Rightarrow> nat \<Rightarrow> byte list" where
  "enc_state rk b 0 = xorb b (rkey rk 0)"
| "enc_state rk b (Suc r) = xorb (XAES_MixColumns (XAES_ShiftRows (XAES_SubBytes (enc_state rk b r)))) (rkey rk (Suc r))"

definition enc_block :: "byte list \<Rightarrow> nat \<Rightarrow> byte list \<Rightarrow> byte list" where
  "enc_block rk nr b = xorb (XAES_ShiftRows (XAES_SubBytes (enc_state rk b (nr - 1)))) (rkey rk nr)"

lemma enc_state_length: "length b = 16 \<Longrightarrow> 16 * r + 16 \<le> length rk \<Longrightarrow> length (enc_state rk b r) = 16"
  by (induction r) (simp_all add: rkey_length mix_inverse)

lemma enc_block_length: "length b = 16 \<Longrightarrow> 16 * nr + 16 \<le> length rk \<Longrightarrow> length (enc_block rk nr b) = 16"
  by (simp add: enc_block_def rkey_length enc_state_length)

lemma byte_of_nat [simp]: "n < 256 \<Longrightarrow> unat (of_nat n :: byte) = n"
  by (simp add: unat_of_nat)

lemma cipher_loop:
  assumes "length b = 16" "0 < r" "r + n = nr" "nr < 256" "16 * nr + 16 \<le> length rk"
  shows "cipher_loop (of_nat nr) 4 rk (enc_state rk b (r - 1)) (of_nat r) =
    Some (XAES_ShiftRows (XAES_SubBytes (enc_state rk b (nr - 1))))"
  using assms(2,3)
proof (induction n arbitrary: r)
  case 0
  then show ?case by (simp add: cipher_loop.simps)
next
  case (Suc n)
  have r: "r < 256" "r < nr" "16 * r + 16 \<le> length rk" "16 * (r - 1) + 16 \<le> length rk" using Suc.prems assms(4,5) by simp_all
  have ne: "(of_nat r :: byte) \<noteq> of_nat nr" using r assms(4) byte_of_nat by (metis less_irrefl)
  let ?st = "XAES_MixColumns (XAES_ShiftRows (XAES_SubBytes (enc_state rk b (r - 1))))"
  have "length ?st = 16" using enc_state_length [OF assms(1) r(4)] by (simp add: mix_inverse)
  then have "XAES_AddRoundKey 4 (of_nat r) ?st rk = Some (xorb ?st (rkey rk r))"
    using add_key [of ?st "of_nat r" rk] r by simp
  also have "xorb ?st (rkey rk r) = enc_state rk b (Suc r - 1)" using Suc.prems(1) by (cases r) simp_all
  finally show ?case
    using Suc.IH [of "Suc r"] Suc.prems ne by (subst cipher_loop.simps) (simp add: Let_def add.commute)
qed

lemma cipher_block:
  assumes "length b = 16" "0 < nr" "nr < 256" "16 * nr + 16 \<le> length rk"
  shows "XAES_CipherBlock (of_nat nr) 4 rk b = Some (enc_block rk nr b)"
proof -
  have "length (XAES_ShiftRows (XAES_SubBytes (enc_state rk b (nr - 1)))) = 16"
    using enc_state_length [OF assms(1), of "nr - 1" rk] assms by simp
  then show ?thesis
    using add_key [of b 0 rk] add_key [of _ "of_nat nr" rk] cipher_loop [OF assms(1), of 1 "nr - 1" nr rk] assms
    by (simp add: XAES_CipherBlock_def enc_block_def)
qed

lemma decipher_loop:
  assumes "length b = 16" "r < 256" "16 * r + 16 \<le> length rk"
  shows "decipher_loop 4 rk (XAES_ShiftRows (XAES_SubBytes (enc_state rk b r))) (of_nat r) = Some b"
  using assms(2,3)
proof (induction r)
  case 0
  have "length (enc_state rk b 0) = 16" using enc_state_length [OF assms(1), of 0 rk] 0 by simp
  then show ?case
    using add_key [of "enc_state rk b 0" 0 rk] 0 assms(1)
    by (subst decipher_loop.simps) (simp add: shift_inverse rkey_length)
next
  case (Suc r)
  let ?k = "XAES_MixColumns (XAES_ShiftRows (XAES_SubBytes (enc_state rk b r)))"
  have l: "length (enc_state rk b (Suc r)) = 16" "length (XAES_SubBytes (enc_state rk b r)) = 16"
    using enc_state_length [OF assms(1), of "Suc r" rk] enc_state_length [OF assms(1), of r rk] Suc.prems by simp_all
  have ne: "(of_nat (Suc r) :: byte) \<noteq> 0" using Suc.prems(1) byte_of_nat [of "Suc r"] by (metis nat.distinct(1) unsigned_0)
  have "XAES_AddRoundKey 4 (of_nat (Suc r)) (enc_state rk b (Suc r)) rk = Some ?k"
    using add_key [of "enc_state rk b (Suc r)" "of_nat (Suc r)" rk] l Suc.prems
    by (simp add: rkey_length mix_inverse del: of_nat_Suc)
  moreover have "XAES_InvMixColumns ?k = XAES_ShiftRows (XAES_SubBytes (enc_state rk b r))" using l(2) by (simp add: mix_inverse)
  moreover have "XAES_InvSubBytes (XAES_InvShiftRows (XAES_ShiftRows (XAES_SubBytes (enc_state rk b (Suc r))))) = enc_state rk b (Suc r)"
    using l(1) by (subst shift_inverse) simp_all
  ultimately show ?case using Suc ne by (subst decipher_loop.simps) (simp del: enc_state.simps)
qed

text \<open>A context that \<open>XAES_Init\<close> accepted.\<close>

definition aes_ok :: "xaes \<Rightarrow> bool" where
  "aes_ok a \<longleftrightarrow> nNB (ctx a) = 4 \<and> nNR (ctx a) \<in> {10, 12, 14} \<and> length (roundKey (ctx a)) = XAES_RKEY_SIZE \<and>
     length (cmacRoundKey (ctx a)) = XAES_RKEY_SIZE \<and> length (IV (key a)) = XAES_BLOCK_SIZE"

lemma aes_ok_rounds:
  assumes "aes_ok a"
  obtains nr where "nNB (ctx a) = 4" "nNR (ctx a) = of_nat nr" "nr \<in> {10, 12, 14}" "unat (nNR (ctx a)) = nr"
  using assms by (auto simp: aes_ok_def)

lemma ecb_crypt:
  assumes "aes_ok a" "length b = 16"
  shows "XAES_ECB_Crypt a b = Some (enc_block (roundKey (ctx a)) (unat (nNR (ctx a))) b)"
proof -
  obtain nr where "nNB (ctx a) = 4" "nNR (ctx a) = of_nat nr" "nr \<in> {10, 12, 14}" "unat (nNR (ctx a)) = nr"
    by (rule aes_ok_rounds [OF assms(1)])
  then show ?thesis
    using cipher_block [OF assms(2), of nr "roundKey (ctx a)"] assms(1) by (auto simp: XAES_ECB_Crypt_def aes_ok_def)
qed

lemma ecb_decrypt:
  assumes "aes_ok a" "length b = 16"
  shows "XAES_ECB_Decrypt a (enc_block (roundKey (ctx a)) (unat (nNR (ctx a))) b) = Some b"
proof -
  let ?rk = "roundKey (ctx a)"
  obtain nr where nr: "nNB (ctx a) = 4" "nNR (ctx a) = of_nat nr" "nr \<in> {10, 12, 14}" "unat (nNR (ctx a)) = nr"
    by (rule aes_ok_rounds [OF assms(1)])
  have n: "0 < nr" "nr < 256" "16 * nr + 16 \<le> length ?rk" "16 * (nr - 1) + 16 \<le> length ?rk"
    using nr(3) assms(1) by (auto simp: aes_ok_def)
  let ?s = "XAES_ShiftRows (XAES_SubBytes (enc_state ?rk b (nr - 1)))"
  have l: "length ?s = 16" using enc_state_length [OF assms(2) n(4)] by simp
  have "XAES_AddRoundKey 4 (of_nat nr) (enc_block ?rk nr b) ?rk = Some ?s"
    using add_key [of "enc_block ?rk nr b" "of_nat nr" ?rk] l n enc_block_length [OF assms(2) n(3)]
    by (simp add: enc_block_def rkey_length)
  moreover have "(of_nat nr :: byte) - 1 = of_nat (nr - 1)" using n(1) by (simp add: of_nat_diff)
  ultimately show ?thesis
    using decipher_loop [OF assms(2), of "nr - 1" ?rk] n nr by (simp add: XAES_ECB_Decrypt_def)
qed

text \<open>Encryption is injective on the finite set of blocks, so decryption is its inverse on both sides.\<close>

lemma ecb_inverse:
  assumes "aes_ok a" "length c = 16"
  shows "\<exists>b. length b = 16 \<and> XAES_ECB_Decrypt a c = Some b \<and> XAES_ECB_Crypt a b = Some c"
proof -
  let ?f = "enc_block (roundKey (ctx a)) (unat (nNR (ctx a)))" and ?B = "{b :: byte list. length b = 16}"
  have "finite ?B" using finite_lists_length_eq [of "UNIV :: byte set" 16] by simp
  moreover have "16 * unat (nNR (ctx a)) + 16 \<le> length (roundKey (ctx a))" using assms(1) by (auto simp: aes_ok_def)
  then have "?f ` ?B \<subseteq> ?B" using enc_block_length by auto
  moreover have "inj_on ?f ?B" by (rule inj_onI) (metis mem_Collect_eq ecb_decrypt [OF assms(1)] option.inject)
  ultimately have "?f ` ?B = ?B" by (rule endo_inj_surj)
  then obtain b where "length b = 16" "c = ?f b" using assms(2) by blast
  then show ?thesis using ecb_crypt [OF assms(1)] ecb_decrypt [OF assms(1)] by blast
qed

section \<open>Key expansion\<close>

definition word :: "byte list \<Rightarrow> nat \<Rightarrow> byte list" where
  "word rk i = take 4 (drop (4 * i) rk)"

lemma word_memcpy:
  assumes "length w = 4" "4 * i + 4 \<le> length rk"
  shows "\<exists>rk'. memcpy rk (i * 4) w = Some rk' \<and> length rk' = length rk \<and> word rk' = (word rk)(i := w)"
proof -
  have "word (take (4 * i) rk @ w @ drop (4 * i + 4) rk) j = ((word rk)(i := w)) j" for j
  proof (cases j i rule: linorder_cases)
    case less
    then have "4 * j + 4 \<le> 4 * i" by simp
    then show ?thesis using less assms by (simp add: word_def min_absorb2 take_drop drop_take flip: take_drop)
  next
    case equal
    then show ?thesis using assms by (simp add: word_def)
  next
    case greater
    then have "4 * i + 4 \<le> 4 * j" by simp
    then obtain d where "4 * j = 4 * i + 4 + d" using le_Suc_ex by blast
    then show ?thesis using greater assms by (simp add: word_def min_absorb2 ac_simps)
  qed
  then show ?thesis using assms by (simp add: memcpy_Some mult.commute fun_eq_iff)
qed


definition next_word :: "nat \<Rightarrow> nat \<Rightarrow> nat \<Rightarrow> byte list \<Rightarrow> byte list" where
  "next_word nk n i t =
     (let t = (if i mod nk = 0 then (let t = map XAES_GetSBoxValue (rotate1 t) in t[0 := t ! 0 XOR g_rcon ! (i div nk)]) else t)
      in if n = 256 \<and> i mod nk = 4 then map XAES_GetSBoxValue t else t)"

lemma next_word_length [simp]: "length (next_word nk n i t) = length t"
  by (simp add: next_word_def Let_def)

lemma key_step:
  assumes "0 < nk" "nk \<le> i" "4 * i + 4 \<le> length rk" "i div nk < 11"
  shows "\<exists>rk'. key_step nk n rk i = Some rk' \<and> length rk' = length rk \<and>
    word rk' = (word rk)(i := xorb (word rk (i - nk)) (next_word nk n i (word rk (i - 1))))"
proof -
  have "(i - 1) * 4 + 4 \<le> length rk" "(i - nk) * 4 + 4 \<le> length rk" using assms by auto
  then have r: "mread rk ((i - 1) * 4) 4 = Some (word rk (i - 1))" "mread rk ((i - nk) * 4) 4 = Some (word rk (i - nk))"
    and l: "length (word rk (i - 1)) = 4" "length (word rk (i - nk)) = 4"
    by (simp_all add: mread_Some word_def mult.commute)
  have "peek g_rcon (i div nk) = Some (g_rcon ! (i div nk))" using assms(4) by (simp add: peek_def g_rcon_def)
  then have "key_step nk n rk i = memcpy rk (i * 4) (xorb (word rk (i - nk)) (next_word nk n i (word rk (i - 1))))"
    using r by (simp add: key_step_def next_word_def Let_def)
  then show ?thesis using word_memcpy [of "xorb (word rk (i - nk)) (next_word nk n i (word rk (i - 1)))" i rk] l assms(3) by simp
qed

section \<open>FIPS 197\<close>

text \<open>Multiplication of polynomials over GF(2) modulo \<open>x\<^sup>8 + x\<^sup>4 + x\<^sup>3 + x + 1\<close>, from the highest coefficient of \<open>a\<close> down.\<close>

definition xtime :: "byte \<Rightarrow> byte" where
  "xtime b = (if bit b 7 then push_bit 1 b XOR 0x1b else push_bit 1 b)"

definition gf_mul :: "byte \<Rightarrow> byte \<Rightarrow> byte" where
  "gf_mul a b = foldl (\<lambda>s i. xtime s XOR (if bit a i then b else 0)) 0 [7, 6, 5, 4, 3, 2, 1, 0]"

text \<open>The affine map of the S-box: bit \<open>i\<close> is the sum of bits \<open>i, i+4, i+5, i+6, i+7\<close> and of the constant.\<close>

definition affine :: "byte \<Rightarrow> byte" where
  "affine b = b XOR word_rotl 1 b XOR word_rotl 2 b XOR word_rotl 3 b XOR word_rotl 4 b XOR 0x63"

fun xpow :: "nat \<Rightarrow> byte" where
  "xpow 0 = 1"
| "xpow (Suc n) = xtime (xpow n)"

function fips_word :: "byte list \<Rightarrow> nat \<Rightarrow> nat \<Rightarrow> byte list" where
  "fips_word k nk i =
     (if i < nk \<or> nk = 0 then take 4 (drop (4 * i) k)
      else let t = fips_word k nk (i - 1);
               t = (if i mod nk = 0 then map2 (XOR) (map XAES_GetSBoxValue (rotate1 t)) [xpow (i div nk - 1), 0, 0, 0]
                    else if 6 < nk \<and> i mod nk = 4 then map XAES_GetSBoxValue t else t)
           in map2 (XOR) (fips_word k nk (i - nk)) t)"
  by pat_completeness auto
termination by (relation "measure (\<lambda>(_, _, i). i)") auto

declare fips_word.simps [simp del]

definition fips_key :: "byte list \<Rightarrow> nat \<Rightarrow> nat \<Rightarrow> byte list" where
  "fips_key k nk r = concat (map (fips_word k nk) [4 * r..<4 * r + 4])"

text \<open>Row \<open>r\<close> of column \<open>c\<close> of a state is its byte \<open>4 * c + r\<close>.\<close>

definition fips_shift :: "byte list \<Rightarrow> byte list" where
  "fips_shift st = map (\<lambda>n. let r = n mod 4; c = n div 4 in st ! (4 * ((c + r) mod 4) + r)) [0..<16]"

definition fips_mix :: "byte list \<Rightarrow> byte list" where
  "fips_mix st =
     map (\<lambda>n. let r = n mod 4; c = n div 4; s = (\<lambda>r. st ! (4 * c + r mod 4))
              in gf_mul 2 (s r) XOR gf_mul 3 (s (r + 1)) XOR s (r + 2) XOR s (r + 3)) [0..<16]"

definition fips_cipher :: "byte list \<Rightarrow> nat \<Rightarrow> nat \<Rightarrow> byte list \<Rightarrow> byte list" where
  "fips_cipher k nk nr b =
     (let st = map2 (XOR) b (fips_key k nk 0);
          st = foldl (\<lambda>st r. map2 (XOR) (fips_mix (fips_shift (map XAES_GetSBoxValue st))) (fips_key k nk r)) st [1..<nr]
      in map2 (XOR) (fips_shift (map XAES_GetSBoxValue st)) (fips_key k nk nr))"


subsection \<open>The tables\<close>

text \<open>The multiplicative inverses, with 0 for 0, and the multiplication on integers, lowest coefficient of \<open>a\<close> first.\<close>

definition inverses :: "int list" where
  "inverses =
   [0, 1, 141, 246, 203, 82, 123, 209, 232, 79, 41, 192, 176, 225, 229, 199,
    116, 180, 170, 75, 153, 43, 96, 95, 88, 63, 253, 204, 255, 64, 238, 178,
    58, 110, 90, 241, 85, 77, 168, 201, 193, 10, 152, 21, 48, 68, 162, 194,
    44, 69, 146, 108, 243, 57, 102, 66, 242, 53, 32, 111, 119, 187, 89, 25,
    29, 254, 55, 103, 45, 49, 245, 105, 167, 100, 171, 19, 84, 37, 233, 9,
    237, 92, 5, 202, 76, 36, 135, 191, 24, 62, 34, 240, 81, 236, 97, 23,
    22, 94, 175, 211, 73, 166, 54, 67, 244, 71, 145, 223, 51, 147, 33, 59,
    121, 183, 151, 133, 16, 181, 186, 60, 182, 112, 208, 6, 161, 250, 129, 130,
    131, 126, 127, 128, 150, 115, 190, 86, 155, 158, 149, 217, 247, 2, 185, 164,
    222, 106, 50, 109, 216, 138, 132, 114, 42, 20, 159, 136, 249, 220, 137, 154,
    251, 124, 46, 195, 143, 184, 101, 72, 38, 200, 18, 74, 206, 231, 210, 98,
    12, 224, 31, 239, 17, 117, 120, 113, 165, 142, 118, 61, 189, 188, 134, 87,
    11, 40, 47, 163, 218, 212, 228, 15, 169, 39, 83, 4, 27, 252, 172, 230,
    122, 7, 174, 99, 197, 219, 226, 234, 148, 139, 196, 213, 157, 248, 144, 107,
    177, 13, 214, 235, 198, 14, 207, 173, 8, 78, 215, 227, 93, 80, 30, 179,
    91, 35, 56, 52, 104, 70, 3, 140, 221, 156, 125, 160, 205, 26, 65, 28]"

definition int_xtime :: "int \<Rightarrow> int" where
  "int_xtime b = (if b < 128 then 2 * b else (2 * b - 256) XOR 0x1b)"

fun int_mul :: "nat \<Rightarrow> int \<Rightarrow> int \<Rightarrow> int" where
  "int_mul 0 a b = 0"
| "int_mul (Suc n) a b = (if odd a then b XOR int_mul n (a div 2) (int_xtime b) else int_mul n (a div 2) (int_xtime b))"

lemma inverses_low: "list_all2 (\<lambda>x y. int_mul 8 x y = (if x = 0 then 0 else 1)) [0..127] (take 128 inverses)"
  by code_simp

lemma inverses_high: "list_all2 (\<lambda>x y. int_mul 8 x y = 1) [128..255] (drop 128 inverses)"
  by code_simp

lemma inverses_range: "list_all (\<lambda>y. 0 \<le> y \<and> y < 256) inverses"
  by (simp add: inverses_def)

lemma sbox_affine: "map (\<lambda>y. affine (word_of_int y)) inverses = g_sbox"
  by code_simp

lemma rcon_table: "\<forall>i\<in>set [1..<11]. g_rcon ! i = xpow (i - 1)"
  by code_simp

lemma word_xor: "(word_of_int (x XOR y) :: byte) = word_of_int x XOR word_of_int y"
  by (rule bit_word_eqI) (simp add: bit_simps)

lemma xtime_xor: "xtime (x XOR y) = xtime x XOR xtime y"
  by (simp add: xtime_def push_bit_xor bit_simps ac_simps)

lemma xtime_int:
  assumes "0 \<le> b" "b < 256"
  shows "xtime (word_of_int b) = word_of_int (int_xtime b) \<and> 0 \<le> int_xtime b \<and> int_xtime b < 256"
proof (cases "b < 128")
  case True
  then have "\<not> bit b 7" using assms by (simp add: bit_iff_odd)
  then have "\<not> bit (word_of_int b :: byte) 7" by (simp add: bit_simps)
  then show ?thesis using True assms by (simp add: xtime_def int_xtime_def)
next
  case False
  then have d: "b div 128 = 1" using assms by simp
  then have "bit b 7" by (simp add: bit_iff_odd)
  then have 7: "bit (word_of_int b :: byte) 7" by (simp add: bit_simps)
  have "(256 :: byte) = 0" by simp
  then have "(word_of_int (2 * b - 256) :: byte) = push_bit 1 (word_of_int b)" by simp
  then have "(word_of_int (int_xtime b) :: byte) = push_bit 1 (word_of_int b) XOR word_of_int 0x1b"
    using False unfolding int_xtime_def by (simp only: if_False word_xor)
  then have "(word_of_int (int_xtime b) :: byte) = xtime (word_of_int b)"
    using 7 by (simp add: xtime_def)
  moreover have "0 \<le> (2 * b - 256) XOR 0x1b" "(2 * b - 256) XOR 0x1b < 2 ^ 8"
    using False assms by (simp, intro XOR_upper) auto
  ultimately show ?thesis using False by (simp add: int_xtime_def)
qed

definition sel :: "bool \<Rightarrow> byte \<Rightarrow> byte" where
  "sel c b = (if c then b else 0)"

lemma xtime_sel: "xtime (sel c b) = sel c (xtime b)"
  by (simp add: sel_def xtime_def)

lemma xtime_0 [simp]: "xtime 0 = 0"
  by (simp add: xtime_def)

text \<open>With the multiples \<open>b, x b, x\<^sup>2 b\<close>, and so on.\<close>

lemma gf_mul_sum:
  assumes "xtime b = b1" "xtime b1 = b2" "xtime b2 = b3" "xtime b3 = b4" "xtime b4 = b5" "xtime b5 = b6" "xtime b6 = b7"
  shows "gf_mul a b = sel (bit a 0) b XOR sel (bit a 1) b1 XOR sel (bit a 2) b2 XOR sel (bit a 3) b3 XOR sel (bit a 4) b4 XOR
     sel (bit a 5) b5 XOR sel (bit a 6) b6 XOR sel (bit a 7) b7"
  unfolding gf_mul_def sel_def [symmetric] by (simp add: xtime_xor xtime_sel assms ac_simps)

fun word_mul :: "nat \<Rightarrow> int \<Rightarrow> byte \<Rightarrow> byte" where
  "word_mul 0 a b = 0"
| "word_mul (Suc n) a b = sel (odd a) b XOR word_mul n (a div 2) (xtime b)"

lemma int_mul: "0 \<le> b \<Longrightarrow> b < 256 \<Longrightarrow> word_of_int (int_mul n a b) = word_mul n a (word_of_int b)"
proof (induction n arbitrary: a b)
  case (Suc n)
  then show ?case using xtime_int [of b] by (simp add: sel_def word_xor)
qed simp

lemma word_mul: "word_mul 8 a b = gf_mul (word_of_int a) b"
proof -
  have bit: "bit (word_of_int a :: byte) k = odd (a div 2 ^ k)" if "k < 8" for k
    using that by (simp only: bit_of_int_iff) (simp add: bit_iff_odd)
  have bits: "bit (word_of_int a :: byte) 0 = odd a" "bit (word_of_int a :: byte) 1 = odd (a div 2)"
    "bit (word_of_int a :: byte) 2 = odd (a div 4)" "bit (word_of_int a :: byte) 3 = odd (a div 8)"
    "bit (word_of_int a :: byte) 4 = odd (a div 16)" "bit (word_of_int a :: byte) 5 = odd (a div 32)"
    "bit (word_of_int a :: byte) 6 = odd (a div 64)" "bit (word_of_int a :: byte) 7 = odd (a div 128)"
    using bit [of 0] bit [of 1] bit [of 2] bit [of 3] bit [of 4] bit [of 5] bit [of 6] bit [of 7] by simp_all
  have d: "a div 2 div 2 = a div 4" "a div 4 div 2 = a div 8" "a div 8 div 2 = a div 16" "a div 16 div 2 = a div 32"
    "a div 32 div 2 = a div 64" "a div 64 div 2 = a div 128"
    by (simp_all flip: zdiv_zmult2_eq)
  have 8: "(8 :: nat) = Suc (Suc (Suc (Suc (Suc (Suc (Suc (Suc 0)))))))" by simp
  show ?thesis
    unfolding gf_mul_sum [OF refl refl refl refl refl refl refl] bits unfolding 8 word_mul.simps d xor.right_neutral ..
qed

lemma fips_xtime: "XAES_Time = xtime"
  by (simp add: fun_eq_iff Time_bit xtime_def)

lemma gf_mul_2: "gf_mul 2 b = xtime b" and gf_mul_3: "gf_mul 3 b = b XOR xtime b"
  unfolding gf_mul_sum [OF refl refl refl refl refl refl refl] by (simp_all add: sel_def)

lemma fips_mix:
  assumes "length st = 16"
  shows "XAES_MixColumns st = fips_mix st"
  using assms
  by (auto simp: Mix16 mix4_def fips_mix_def gf_mul_2 gf_mul_3 fips_xtime xtime_xor upt_rec Let_def ac_simps elim!: list16)

lemma fips_shift:
  assumes "length st = 16"
  shows "XAES_ShiftRows st = fips_shift st"
  using assms by (auto simp: XAES_ShiftRows_def fips_shift_def upt_rec Let_def elim!: list16)

lemma next_word_fips:
  assumes "nk \<in> {4, 6, 8}" "nk \<le> i" "i < 4 * nk + 28" "length t = 4"
  shows "next_word nk (32 * nk) i t =
    (if i mod nk = 0 then xorb (map XAES_GetSBoxValue (rotate1 t)) [xpow (i div nk - 1), 0, 0, 0]
     else if 6 < nk \<and> i mod nk = 4 then map XAES_GetSBoxValue t else t)"
proof -
  have "0 < i div nk" "i div nk < 11" using assms by (auto simp: div_greater_zero_iff less_mult_imp_div_less)
  then have "g_rcon ! (i div nk) = xpow (i div nk - 1)" using rcon_table by (simp del: xpow.simps)
  moreover obtain a b c d where "t = [a, b, c, d]" using assms(4) by (auto simp: length_Suc_conv eval_nat_numeral)
  ultimately show ?thesis using assms(1) by (auto simp: next_word_def)
qed

lemma key_loop:
  assumes "nk \<in> {4, 6, 8}" "m \<le> 4 * nk + 28" "nk \<le> i" "i \<le> m" "4 * m \<le> length rk" "length rk = 240"
    "\<forall>j<i. word rk j = fips_word k nk j"
  shows "\<exists>rk'. key_loop nk (32 * nk) rk [i..<m] = Some rk' \<and> length rk' = 240 \<and> (\<forall>j<m. word rk' j = fips_word k nk j)"
  using assms(3-7)
proof (induction "m - i" arbitrary: i rk)
  case 0
  then show ?case by simp
next
  case (Suc n)
  have i: "i < m" "0 < nk" "i - nk < i" "i - 1 < i" using Suc.hyps(2) Suc.prems(1) assms(1) by auto
  have div: "i div nk < 11" using assms(1,2) i(1) by (auto simp: less_mult_imp_div_less)
  obtain rk1 where rk1: "key_step nk (32 * nk) rk i = Some rk1" "length rk1 = length rk"
    "word rk1 = (word rk)(i := xorb (word rk (i - nk)) (next_word nk (32 * nk) i (word rk (i - 1))))"
    using key_step [of nk i rk "32 * nk"] i Suc.prems div by auto
  have n: "n = m - Suc i" using Suc.hyps(2) by simp
  have l: "length (word rk (i - 1)) = 4" using Suc.prems i(1) by (simp add: word_def)
  have w: "word rk (i - nk) = fips_word k nk (i - nk)" "word rk (i - 1) = fips_word k nk (i - 1)" using Suc.prems(5) i by auto
  have "word rk1 i = fips_word k nk i"
    using rk1(3) i(2) Suc.prems(1) next_word_fips [OF assms(1) Suc.prems(1) _ l] i(1) assms(2) w
    by (subst fips_word.simps) (simp add: Let_def)
  then have "\<forall>j<Suc i. word rk1 j = fips_word k nk j" using rk1(3) Suc.prems(5) by (simp add: less_Suc_eq)
  then obtain rk' where "key_loop nk (32 * nk) rk1 [Suc i..<m] = Some rk'" "length rk' = 240" "\<forall>j<m. word rk' j = fips_word k nk j"
    using Suc.hyps(1) [of "Suc i" rk1, OF n] Suc.prems rk1(2) i(1) by auto
  then show ?case using rk1(1) i(1) by (simp add: upt_conv_Cons)
qed


lemma key_expansion:
  assumes "nk \<in> {4, 6, 8}" "nNB c = 4" "nNK c = of_nat nk" "nNR c = of_nat (nk + 6)" "length (roundKey c) = 240" "4 * nk \<le> length k"
  shows "\<exists>rk. XAES_KeyExpansion c k (32 * nk) = Some (c\<lparr>roundKey := rk\<rparr>) \<and> length rk = 240 \<and>
    (\<forall>r \<le> nk + 6. rkey rk r = fips_key k nk r)"
proof -
  have nk: "unat (nNK c) = nk" "unat (nNB c) * (unat (nNR c) + 1) = 4 * nk + 28" "nk \<le> 60" using assms by auto
  let ?rk = "take (4 * nk) k @ drop (4 * nk) (roundKey c)"
  have "word ?rk j = fips_word k nk j" if "j < nk" for j
  proof -
    have "4 * j + 4 \<le> 4 * nk" "4 \<le> 4 * nk - 4 * j" "4 \<le> length k - 4 * j" using that assms(6) by simp_all
    then have "take 4 (drop (4 * j) (take (4 * nk) k @ drop (4 * nk) (roundKey c))) = take 4 (drop (4 * j) k)"
      using assms(6) by (simp add: drop_take min_def)
    then show ?thesis using that by (simp add: word_def fips_word.simps)
  qed
  moreover have io: "mread k 0 (4 * nk) = Some (take (4 * nk) k)" "memcpy (roundKey c) 0 (take (4 * nk) k) = Some ?rk"
    using assms(1,5,6) by (auto simp: mread_Some memcpy_Some)
  ultimately obtain rk where rk: "key_loop nk (32 * nk) ?rk [nk..<4 * nk + 28] = Some rk" "length rk = 240"
    "\<forall>j<4 * nk + 28. word rk j = fips_word k nk j"
    using key_loop [OF assms(1), of "4 * nk + 28" nk ?rk k] assms by auto
  have "XAES_KeyExpansion c k (32 * nk) = Some (c\<lparr>roundKey := rk\<rparr>)"
    unfolding XAES_KeyExpansion_def Let_def nk(1,2) io rk(1) bind.bind_lunit by simp
  moreover have "rkey rk r = fips_key k nk r" if "r \<le> nk + 6" for r
  proof -
    have "take (4 + (4 + (4 + 4))) xs = take 4 xs @ take 4 (drop 4 xs) @ take 4 (drop 8 xs) @ take 4 (drop 12 xs)" for xs :: "byte list"
      unfolding take_add drop_drop by simp
    then have "take 16 xs = take 4 xs @ take 4 (drop 4 xs) @ take 4 (drop 8 xs) @ take 4 (drop 12 xs)" for xs :: "byte list"
      by simp
    then have "rkey rk r = word rk (4 * r) @ word rk (4 * r + 1) @ word rk (4 * r + 2) @ word rk (4 * r + 3)"
      by (simp add: rkey_def word_def algebra_simps)
    moreover have "[4 * r..<4 * r + 4] = [4 * r, 4 * r + 1, 4 * r + 2, 4 * r + 3]" by (simp add: upt_rec)
    ultimately show ?thesis using rk(3) that by (simp add: fips_key_def)
  qed
  ultimately show ?thesis using rk(2) by blast
qed

text \<open>The fields of a key structure after \<open>XAES_InitKey\<close> or \<open>XAES_InitSIVKey\<close>.\<close>

definition key_ok :: "xaes_key \<Rightarrow> bool" where
  "key_ok k \<longleftrightarrow> nKeySize k \<in> {128, 192, 256} \<and> length (aesKey k) = 32 \<and> length (ctrKey k) = 32 \<and> length (IV k) = 16"

definition enc_key :: "xaes_key \<Rightarrow> xaes_mode \<Rightarrow> byte list" where
  "enc_key k m = (if m = XAES_MODE_SIV \<or> m = XAES_MODE_SIV_NONCE then ctrKey k else aesKey k)"

lemma aes_init:
  assumes "key_ok k"
  shows "\<exists>a. XAES_Init k m = Some (a, XSTDOK) \<and> aes_ok a \<and> mode a = m \<and> key a = k \<and> unat (nNR (ctx a)) = nKeySize k div 32 + 6 \<and>
    (\<forall>r \<le> nKeySize k div 32 + 6. rkey (roundKey (ctx a)) r = fips_key (enc_key k m) (nKeySize k div 32) r) \<and>
    (m = XAES_MODE_SIV \<or> m = XAES_MODE_SIV_NONCE \<longrightarrow>
      (\<forall>r \<le> nKeySize k div 32 + 6. rkey (cmacRoundKey (ctx a)) r = fips_key (aesKey k) (nKeySize k div 32) r))"
proof -
  define nk where "nk = nKeySize k div 32"
  have nk: "nk \<in> {4, 6, 8}" "nKeySize k = 32 * nk" using assms by (auto simp: key_ok_def nk_def)
  let ?z = "\<lparr>cmacRoundKey = replicate 240 0, roundKey = replicate 240 0, nNB = 0, nNK = 0, nNR = 0\<rparr>"
  define c where "c = ?z\<lparr>nNB := 4, nNK := of_nat nk, nNR := of_nat (nk + 6)\<rparr>"
  have l: "4 * nk \<le> length (aesKey k)" "4 * nk \<le> length (ctrKey k)" using assms nk by (auto simp: key_ok_def)
  obtain rk where rk: "XAES_KeyExpansion c (aesKey k) (32 * nk) = Some (c\<lparr>roundKey := rk\<rparr>)" "length rk = 240"
    "\<forall>r \<le> nk + 6. rkey rk r = fips_key (aesKey k) nk r"
    using key_expansion [OF nk(1), of c "aesKey k"] l by (auto simp: c_def)
  obtain ck where ck: "XAES_KeyExpansion (c\<lparr>cmacRoundKey := rk\<rparr>) (ctrKey k) (32 * nk) = Some (c\<lparr>cmacRoundKey := rk, roundKey := ck\<rparr>)"
    "length ck = 240" "\<forall>r \<le> nk + 6. rkey ck r = fips_key (ctrKey k) nk r"
    using key_expansion [OF nk(1), of "c\<lparr>cmacRoundKey := rk\<rparr>" "ctrKey k"] l by (auto simp: c_def)
  have sizes: "(if nKeySize k = 128 then Some (4, 10) else if nKeySize k = 192 then Some (6, 12)
      else if nKeySize k = 256 then Some (8, 14) else None) = Some (of_nat nk :: byte, of_nat (nk + 6) :: byte)"
    using nk by auto
  have r: "unat (of_nat (nk + 6) :: byte) = nk + 6" "(of_nat (nk + 6) :: byte) \<in> {10, 12, 14}" using nk(1) by auto
  have i: "XAES_Init k m = (if m = XAES_MODE_SIV \<or> m = XAES_MODE_SIV_NONCE
      then Some (\<lparr>mode = m, key = k, ctx = c\<lparr>cmacRoundKey := rk, roundKey := ck\<rparr>\<rparr>, XSTDOK)
      else Some (\<lparr>mode = m, key = k, ctx = c\<lparr>roundKey := rk\<rparr>\<rparr>, XSTDOK))"
    unfolding XAES_Init_def Let_def sizes option.case prod.case c_def [symmetric] using rk(1) ck(1) nk(2) by simp
  have ok: "aes_ok \<lparr>mode = m, key = k, ctx = c\<lparr>cmacRoundKey := rk, roundKey := ck\<rparr>\<rparr>"
    "aes_ok \<lparr>mode = m, key = k, ctx = c\<lparr>roundKey := rk\<rparr>\<rparr>" "nNR c = of_nat (nk + 6)"
    using assms rk(2) ck(2) r(2) by (simp_all add: aes_ok_def key_ok_def c_def del: of_nat_add)
  show ?thesis
    unfolding nk_def [symmetric] i enc_key_def using ok rk(3) ck(3) r(1)
    by (cases "m = XAES_MODE_SIV \<or> m = XAES_MODE_SIV_NONCE") (simp_all del: of_nat_add)
qed

lemma enc_fips:
  assumes "\<forall>r \<le> nr. rkey rk r = fips_key k nk r" "0 < nr" "length b = 16" "16 * nr + 16 \<le> length rk"
  shows "enc_block rk nr b = fips_cipher k nk nr b"
proof -
  have "foldl (\<lambda>st r. xorb (fips_mix (fips_shift (map XAES_GetSBoxValue st))) (fips_key k nk r)) (xorb b (fips_key k nk 0)) [1..<Suc r] =
      enc_state rk b r" if "r < nr" for r
    using that
  proof (induction r)
    case 0
    then show ?case using assms(1) by simp
  next
    case (Suc r)
    have "length (enc_state rk b r) = 16" using enc_state_length [OF assms(3)] Suc.prems assms(4) by simp
    then have s: "fips_mix (fips_shift (map XAES_GetSBoxValue (enc_state rk b r))) =
        XAES_MixColumns (XAES_ShiftRows (XAES_SubBytes (enc_state rk b r)))"
      by (simp add: fips_mix [symmetric] fips_shift [symmetric] flip: XAES_SubBytes_def)
    have "[1..<Suc (Suc r)] = [1..<Suc r] @ [Suc r]" by simp
    then show ?case using Suc assms(1) s by simp
  qed
  from this [of "nr - 1"] have f: "foldl (\<lambda>st r. xorb (fips_mix (fips_shift (map XAES_GetSBoxValue st))) (fips_key k nk r))
      (xorb b (fips_key k nk 0)) [1..<nr] = enc_state rk b (nr - 1)" using assms(2) by simp
  have "length (enc_state rk b (nr - 1)) = 16" using enc_state_length [OF assms(3)] assms(4) by simp
  then have "fips_shift (map XAES_GetSBoxValue (enc_state rk b (nr - 1))) = XAES_ShiftRows (XAES_SubBytes (enc_state rk b (nr - 1)))"
    by (simp add: fips_shift [symmetric] flip: XAES_SubBytes_def)
  then show ?thesis unfolding fips_cipher_def Let_def f enc_block_def using assms(1) by simp
qed

lemma sbox_fips: "\<exists>y. (if x = 0 then y = 0 else gf_mul x y = 1) \<and> XAES_GetSBoxValue x = affine y"
proof -
  have x: "unat x < 256" "uint x < 256" "word_of_int (uint x) = x" using byte_nat [of x] uint_bounded [of x] by auto
  have len: "length inverses = 256" using arg_cong [OF sbox_affine, of length] by simp
  define z where "z = inverses ! unat x"
  have s: "XAES_GetSBoxValue x = affine (word_of_int z)"
    using arg_cong [OF sbox_affine, of "\<lambda>xs. xs ! unat x"] x(1) len by (simp add: XAES_GetSBoxValue_def z_def)
  have r: "0 \<le> z" "z < 256" using inverses_range x(1) len by (auto simp: z_def list_all_length)
  have m: "int_mul 8 (uint x) z = (if x = 0 then 0 else 1)"
  proof (cases "unat x < 128")
    case True
    have "int (unat x) = uint x" by simp
    then have "uint x < 128" using True by linarith
    then have "[0..127 :: int] ! unat x = uint x" by (subst nth_upto) auto
    moreover have "take 128 inverses ! unat x = z" "unat x < length [0..127 :: int]" using True by (simp_all add: z_def)
    ultimately have "int_mul 8 (uint x) z = (if uint x = 0 then 0 else 1)"
      using list_all2_nthD [OF inverses_low, of "unat x"] by (simp only:)
    then show ?thesis by (simp add: uint_0_iff)
  next
    case False
    have "x \<noteq> 0" using False by auto
    moreover have "[128..255 :: int] ! (unat x - 128) = uint x" using False x(1,2) by (subst nth_upto) auto
    moreover have "drop 128 inverses ! (unat x - 128) = z" using False x(1) len by (simp add: z_def)
    moreover have "unat x - 128 < length [128..255 :: int]" using False x(1) by simp
    ultimately show ?thesis using inverses_high unfolding list_all2_conv_all_nth by (metis (no_types, lifting))
  qed
  have g: "gf_mul x (word_of_int z) = word_of_int (int_mul 8 (uint x) z)"
    using int_mul [OF r, of 8 "uint x"] word_mul [of "uint x" "word_of_int z"] x(3) by simp
  show ?thesis
  proof (cases "x = 0")
    case True
    have "hd inverses = 0" by (simp add: inverses_def)
    moreover have "inverses \<noteq> []" using len by auto
    ultimately have "z = 0" using True by (simp add: z_def flip: hd_conv_nth)
    then show ?thesis using s True by (intro exI [of _ 0]) simp
  next
    case False
    then show ?thesis using s g m by (intro exI [of _ "word_of_int z"]) simp
  qed
qed

lemma fips_word_prefix: "take (4 * nk) k = take (4 * nk) k' \<Longrightarrow> 0 < nk \<Longrightarrow> fips_word k nk i = fips_word k' nk i"
proof (induction i rule: less_induct)
  case (less i)
  show ?case
  proof (cases "i < nk")
    case True
    then have "take 4 (drop (4 * i) k) = take 4 (drop (4 * i) (take (4 * nk) k)) \<and>
        take 4 (drop (4 * i) k') = take 4 (drop (4 * i) (take (4 * nk) k'))"
      by (auto simp: drop_take min_def)
    then show ?thesis using True less.prems by (simp add: fips_word.simps)
  next
    case False
    then have "i - 1 < i" "i - nk < i" using less.prems(2) by auto
    then show ?thesis
      using False less.IH less.prems by (subst fips_word.simps, subst (2) fips_word.simps) (simp add: Let_def)
  qed
qed

lemma init_key:
  assumes "length K \<in> {16, 24, 32}" "length rnd = 16" "case iv of None \<Rightarrow> True | Some p \<Rightarrow> length p = 16"
  shows "\<exists>k. XAES_InitKey rnd K (8 * length K) iv c = Some k \<and> key_ok k \<and> nKeySize k = 8 * length K \<and> nContainIV k = c \<and>
    aesKey k = K @ replicate (32 - length K) 0 \<and>
    IV k = (case iv of None \<Rightarrow> if c then rnd else replicate 16 0
            | Some p \<Rightarrow> if hd p \<noteq> 0 then p else if c then rnd else replicate 16 0)"
proof (cases iv)
  case None
  then show ?thesis using assms
    by (auto simp: XAES_InitKey_def XAES_IsUsed_def mread_Some memcpy_Some key_ok_def)
next
  case (Some p)
  moreover from this have "p \<noteq> []" using assms(3) by auto
  ultimately show ?thesis using assms
    by (auto simp: XAES_InitKey_def XAES_IsUsed_def mread_Some memcpy_Some key_ok_def peek_def hd_conv_nth)
qed

text \<open>
  C37: the block cipher is AES. For every key of 16, 24 or 32 bytes \<open>XAES_InitKey\<close> and \<open>XAES_Init\<close> succeed, and
  \<open>XAES_ECB_Crypt\<close> computes the cipher of FIPS 197 (key expansion, 10, 12 or 14 rounds) without a read outside of the round
  keys; every entry of the S-box is the affine map of the inverse in GF(2^8). \<open>XAES_ECB_Decrypt\<close> is its inverse on both sides.
\<close>

theorem aes_fips197:
  assumes "length K \<in> {16, 24, 32}" "length rnd = 16" "case iv of None \<Rightarrow> True | Some p \<Rightarrow> length p = 16"
    "length b = 16" "m = XAES_MODE_CBC \<or> m = XAES_MODE_XBC"
  shows "\<exists>k a c d. XAES_InitKey rnd K (8 * length K) iv s = Some k \<and> XAES_Init k m = Some (a, XSTDOK) \<and>
    XAES_ECB_Crypt a b = Some c \<and> c = fips_cipher K (length K div 4) (length K div 4 + 6) b \<and>
    XAES_ECB_Decrypt a c = Some b \<and> XAES_ECB_Decrypt a b = Some d \<and> XAES_ECB_Crypt a d = Some b \<and>
    (\<forall>x. \<exists>y. (if x = 0 then y = 0 else gf_mul x y = 1) \<and> XAES_GetSBoxValue x = affine y)"
proof -
  let ?nk = "length K div 4"
  obtain k where k: "XAES_InitKey rnd K (8 * length K) iv s = Some k" "key_ok k" "nKeySize k = 8 * length K"
    "aesKey k = K @ replicate (32 - length K) 0"
    using init_key [OF assms(1-3)] by blast
  have nk: "nKeySize k div 32 = ?nk" "4 * ?nk = length K" using k(3) assms(1) by auto
  obtain a where a: "XAES_Init k m = Some (a, XSTDOK)" "aes_ok a" "unat (nNR (ctx a)) = ?nk + 6"
    "\<forall>r \<le> ?nk + 6. rkey (roundKey (ctx a)) r = fips_key (aesKey k) ?nk r"
    using aes_init [OF k(2), of m] assms(5) unfolding nk(1) enc_key_def by auto
  have "fips_key (aesKey k) ?nk r = fips_key K ?nk r" for r
  proof -
    have "take (4 * ?nk) (aesKey k) = take (4 * ?nk) K" "0 < ?nk" unfolding k(4) nk(2) using assms(1) by auto
    then have "fips_word (aesKey k) ?nk = fips_word K ?nk" using fips_word_prefix [of ?nk "aesKey k" K] by blast
    then show ?thesis unfolding fips_key_def by simp
  qed
  then have f: "\<forall>r \<le> ?nk + 6. rkey (roundKey (ctx a)) r = fips_key K ?nk r" using a(4) by simp
  have l: "16 * (?nk + 6) + 16 \<le> length (roundKey (ctx a))" using assms(1) a(2) by (auto simp: aes_ok_def)
  have e: "XAES_ECB_Crypt a b = Some (fips_cipher K ?nk (?nk + 6) b)"
    using ecb_crypt [OF a(2) assms(4)] enc_fips [OF f _ assms(4) l] unfolding a(3) by simp
  have d: "XAES_ECB_Decrypt a (fips_cipher K ?nk (?nk + 6) b) = Some b"
    using ecb_decrypt [OF a(2) assms(4)] enc_fips [OF f _ assms(4) l] unfolding a(3) by simp
  from ecb_inverse [OF a(2) assms(4)] obtain b' where "XAES_ECB_Decrypt a b = Some b'" "XAES_ECB_Crypt a b' = Some b" by blast
  with k(1) a(1) e d sbox_fips show ?thesis by blast
qed

lemma aes_fips197_witness:
  "\<exists>k a c. XAES_InitKey (replicate 16 0) (replicate 16 1) 128 None False = Some k \<and> XAES_Init k XAES_MODE_CBC = Some (a, XSTDOK) \<and>
    XAES_ECB_Crypt a (replicate 16 2) = Some c \<and> XAES_ECB_Decrypt a c = Some (replicate 16 2)"
  using aes_fips197 [of "replicate 16 1" "replicate 16 0" None "replicate 16 2" XAES_MODE_CBC False] by auto

end
