(* ===== verification/AesModes.thy ===== *)
theory AesModes
  imports Aes MdHash
begin

text \<open>
  The modes of \<open>src/src/crypt/aes.c\<close>: CBC with PKCS#7 padding, XBC (CBC behind a random prefix), and the authenticated SIV mode
  with its CMAC, S2V and counter mode. An output block comes from the allocator, has one byte more than its length, and is
  returned with the length. What the CBC loops need of the block cipher is the locale \<open>block_cipher\<close>.
\<close>

section \<open>The code: CBC and XBC\<close>

definition XAES_ApplyXOR :: "byte list \<Rightarrow> byte list \<Rightarrow> byte list" where
  "XAES_ApplyXOR b iv = map2 (XOR) b iv"

lemma memcpy_length: "memcpy d off s = Some d' \<Longrightarrow> length d' = length d"
  by (auto simp: memcpy_def split: if_splits)

text \<open>The loops of the encryptions and of the decryptions, with the block function \<open>f\<close>.\<close>

function cbc_crypt_loop ::
  "(byte list \<Rightarrow> byte list option) \<Rightarrow> byte list \<Rightarrow> nat \<Rightarrow> nat \<Rightarrow> byte list \<Rightarrow> (byte list \<times> byte list) option" where
  "cbc_crypt_loop f buf off left iv =
     (if left = 0 then Some (buf, iv)
      else do {
        b \<leftarrow> mread buf off XAES_BLOCK_SIZE;
        c \<leftarrow> f (XAES_ApplyXOR b iv);
        buf' \<leftarrow> memcpy buf off c;
        iv \<leftarrow> mread buf' off XAES_BLOCK_SIZE;
        cbc_crypt_loop f buf' (off + XAES_BLOCK_SIZE) (sz (left + 2 ^ 64 - XAES_BLOCK_SIZE)) iv })"
  by pat_completeness auto
termination
  by (relation "measure (\<lambda>(_, buf, off, _, _). length buf - off)") (auto simp: mread_def dest!: memcpy_length split: if_splits)

declare cbc_crypt_loop.simps [simp del]

function cbc_decrypt_loop ::
  "(byte list \<Rightarrow> byte list option) \<Rightarrow> byte list \<Rightarrow> nat \<Rightarrow> nat \<Rightarrow> byte list \<Rightarrow> (byte list \<times> byte list) option" where
  "cbc_decrypt_loop f buf off left iv =
     (if left = 0 then Some (buf, iv)
      else do {
        ivTmp \<leftarrow> mread buf off XAES_BLOCK_SIZE;
        b \<leftarrow> f ivTmp;
        buf' \<leftarrow> memcpy buf off (XAES_ApplyXOR b iv);
        cbc_decrypt_loop f buf' (off + XAES_BLOCK_SIZE) (sz (left + 2 ^ 64 - XAES_BLOCK_SIZE)) ivTmp })"
  by pat_completeness auto
termination
  by (relation "measure (\<lambda>(_, buf, off, _, _). length buf - off)") (auto simp: mread_def dest!: memcpy_length split: if_splits)

declare cbc_decrypt_loop.simps [simp del]

definition keep_iv :: "xaes \<Rightarrow> byte list \<Rightarrow> xaes" where
  "keep_iv a iv = (if nContainIV (key a) then a else a\<lparr>key := (key a)\<lparr>IV := iv\<rparr>\<rparr>)"

definition XAES_CBC_Crypt :: "malloc \<Rightarrow> xaes \<Rightarrow> byte list \<Rightarrow> (xaes \<times> (byte list \<times> nat) option) option" where
  "XAES_CBC_Crypt m a pInput =
     (let n = length pInput
      in if n = 0 then Some (a, None)
         else
           let nNewLength = sz ((n div XAES_BLOCK_SIZE + 1) * XAES_BLOCK_SIZE);
               nPrefix = (if nContainIV (key a) then XAES_BLOCK_SIZE else 0);
               nOutLen = sz (nPrefix + nNewLength)
           in case m (sz (nOutLen + 1)) of
                None \<Rightarrow> Some (a, None)
              | Some out \<Rightarrow> do {
                  iv \<leftarrow> mread (IV (key a)) 0 XAES_BLOCK_SIZE;
                  out \<leftarrow> (if nContainIV (key a) then memcpy out 0 iv else Some out);
                  out \<leftarrow> memcpy out nPrefix pInput;
                  let nPadding = (of_nat (nNewLength - n) :: byte);
                  out \<leftarrow> memcpy out (nPrefix + n) (replicate (unat nPadding) nPadding);
                  (out, iv) \<leftarrow> cbc_crypt_loop (XAES_ECB_Crypt a) out nPrefix nNewLength iv;
                  out \<leftarrow> poke out nOutLen 0;
                  Some (keep_iv a iv, Some (out, nOutLen)) })"

text \<open>The checks of the two decryptions: the initialisation vector and the blocks, or \<open>None\<close> when the input is refused.\<close>

definition cbc_input :: "xaes \<Rightarrow> byte list \<Rightarrow> (byte list \<times> byte list) option option" where
  "cbc_input a pInput =
     (let n = length pInput
      in if nContainIV (key a)
         then if n \<le> XAES_BLOCK_SIZE \<or> (n - XAES_BLOCK_SIZE) mod XAES_BLOCK_SIZE \<noteq> 0 then Some None
              else do { iv \<leftarrow> mread pInput 0 XAES_BLOCK_SIZE; Some (Some (iv, drop XAES_BLOCK_SIZE pInput)) }
         else if n < XAES_BLOCK_SIZE \<or> n mod XAES_BLOCK_SIZE \<noteq> 0 then Some None
              else do { iv \<leftarrow> mread (IV (key a)) 0 XAES_BLOCK_SIZE; Some (Some (iv, pInput)) })"

fun padding_ok :: "byte list \<Rightarrow> nat \<Rightarrow> byte \<Rightarrow> nat list \<Rightarrow> bool option" where
  "padding_ok d n p [] = Some True"
| "padding_ok d n p (i # is) = do { x \<leftarrow> peek d (n - 1 - i); (if x \<noteq> p then Some False else padding_ok d n p is) }"

definition XAES_CBC_Decrypt :: "malloc \<Rightarrow> xaes \<Rightarrow> byte list \<Rightarrow> (xaes \<times> (byte list \<times> nat) option) option" where
  "XAES_CBC_Decrypt m a pInput =
     (if pInput = [] then Some (a, None)
      else do {
        r \<leftarrow> cbc_input a pInput;
        (case r of
           None \<Rightarrow> Some (a, None)
         | Some (iv, inp) \<Rightarrow>
             let n = length inp
             in case m (sz (n + 1)) of
                  None \<Rightarrow> Some (a, None)
                | Some out \<Rightarrow> do {
                    out \<leftarrow> memcpy out 0 inp;
                    (out, iv) \<leftarrow> cbc_decrypt_loop (XAES_ECB_Decrypt a) out 0 n iv;
                    nPadding \<leftarrow> peek out (n - 1);
                    (if nPadding = 0 \<or> XAES_BLOCK_SIZE < unat nPadding then Some (a, None)
                     else do {
                       ok \<leftarrow> padding_ok out n nPadding [0..<unat nPadding];
                       (if \<not> ok then Some (a, None)
                        else do {
                          out \<leftarrow> poke out (n - unat nPadding) 0;
                          Some (keep_iv a iv, Some (out, n - unat nPadding)) }) }) }) })"

text \<open>\<open>rnd\<close> are the results of \<open>rand\<close>.\<close>

definition XAES_XBC_Crypt :: "malloc \<Rightarrow> byte list \<Rightarrow> xaes \<Rightarrow> byte list \<Rightarrow> (xaes \<times> (byte list \<times> nat) option) option" where
  "XAES_XBC_Crypt m rnd a pInput =
     (let n = length pInput
      in if n = 0 then Some (a, None)
         else
           let nKnownLen = sz (4 + n) mod XAES_BLOCK_SIZE;
               nRandLen = (XAES_BLOCK_SIZE - nKnownLen) mod XAES_BLOCK_SIZE;
               nTotalLen = sz (4 + nRandLen + n);
               nPrefix = (if nContainIV (key a) then XAES_BLOCK_SIZE else 0);
               nOutLen = sz (nPrefix + nTotalLen)
           in case m (sz (nOutLen + 1)) of
                None \<Rightarrow> Some (a, None)
              | Some out \<Rightarrow> do {
                  iv \<leftarrow> mread (IV (key a)) 0 XAES_BLOCK_SIZE;
                  out \<leftarrow> (if nContainIV (key a) then memcpy out 0 iv else Some out);
                  out \<leftarrow> memcpy out nPrefix (be_bytes 4 nRandLen);
                  out \<leftarrow> memcpy out (nPrefix + 4) (take nRandLen rnd);
                  out \<leftarrow> memcpy out (nPrefix + 4 + nRandLen) pInput;
                  (out, iv) \<leftarrow> cbc_crypt_loop (XAES_ECB_Crypt a) out nPrefix nTotalLen iv;
                  out \<leftarrow> poke out nOutLen 0;
                  Some (keep_iv a iv, Some (out, nOutLen)) })"

text \<open>\<open>m\<close> allocates the decrypted block and \<open>m'\<close> the output; the sum of the header and the prefix length is a \<open>uint32_t\<close>.\<close>

definition XAES_XBC_Decrypt :: "malloc \<Rightarrow> malloc \<Rightarrow> xaes \<Rightarrow> byte list \<Rightarrow> (xaes \<times> (byte list \<times> nat) option) option" where
  "XAES_XBC_Decrypt m m' a pInput =
     (if pInput = [] then Some (a, None)
      else do {
        r \<leftarrow> cbc_input a pInput;
        (case r of
           None \<Rightarrow> Some (a, None)
         | Some (iv, inp) \<Rightarrow>
             let n = length inp
             in case m (sz (n + 1)) of
                  None \<Rightarrow> Some (a, None)
                | Some dec \<Rightarrow> do {
                    dec \<leftarrow> memcpy dec 0 inp;
                    (dec, iv) \<leftarrow> cbc_decrypt_loop (XAES_ECB_Decrypt a) dec 0 n iv;
                    let a = keep_iv a iv;
                    h \<leftarrow> mread dec 0 4;
                    let nSkip = unat (4 + of_nat (of_be 0 h) :: u32);
                    (if n < nSkip then Some (a, None)
                     else
                       let nPlainLen = n - nSkip
                       in case m' (sz (nPlainLen + 1)) of
                            None \<Rightarrow> Some (a, None)
                          | Some out \<Rightarrow> do {
                              p \<leftarrow> mread dec nSkip nPlainLen;
                              out \<leftarrow> memcpy out 0 p;
                              out \<leftarrow> poke out nPlainLen 0;
                              Some (a, Some (out, nPlainLen)) }) }) })"

section \<open>The code: SIV\<close>

definition XAES_ConstTimeEqual :: "byte list \<Rightarrow> byte list \<Rightarrow> bool" where
  "XAES_ConstTimeEqual a b = (foldl (\<lambda>d (x, y). d OR (x XOR y)) 0 (zip a b) = 0)"

definition XAES_DBL :: "byte list \<Rightarrow> byte list" where
  "XAES_DBL b =
     (let (b, nCarry) = foldl (\<lambda>(b, c) i. (b[i := push_bit 1 (b ! i) OR c], drop_bit 7 (b ! i) AND 1)) (b, 0) (rev [0..<XAES_BLOCK_SIZE])
      in if nCarry \<noteq> 0 then b[15 := b ! 15 XOR 0x87] else b)"

definition cmac_cipher :: "xaes \<Rightarrow> byte list \<Rightarrow> byte list option" where
  "cmac_cipher a b = XAES_CipherBlock (nNR (ctx a)) (nNB (ctx a)) (cmacRoundKey (ctx a)) b"

definition XAES_CMAC_SubKeys :: "xaes \<Rightarrow> (byte list \<times> byte list) option" where
  "XAES_CMAC_SubKeys a = do {
     L \<leftarrow> cmac_cipher a (replicate XAES_BLOCK_SIZE 0);
     Some (XAES_DBL L, XAES_DBL (XAES_DBL L)) }"

fun cmac_loop :: "xaes \<Rightarrow> byte list \<Rightarrow> byte list \<Rightarrow> nat list \<Rightarrow> byte list option" where
  "cmac_loop a d X [] = Some X"
| "cmac_loop a d X (i # is) = do {
     b \<leftarrow> mread d (i * XAES_BLOCK_SIZE) XAES_BLOCK_SIZE;
     X \<leftarrow> cmac_cipher a (XAES_ApplyXOR X b);
     cmac_loop a d X is }"

definition XAES_CMAC :: "xaes \<Rightarrow> byte list \<Rightarrow> byte list option" where
  "XAES_CMAC a d = do {
     (K1, K2) \<leftarrow> XAES_CMAC_SubKeys a;
     let n = length d;
     let nBlocks = sz (n + XAES_BLOCK_SIZE - 1) div XAES_BLOCK_SIZE;
     let nBlocks = (if nBlocks = 0 then 1 else nBlocks);
     let nLast = n - (nBlocks - 1) * XAES_BLOCK_SIZE;
     X \<leftarrow> cmac_loop a d (replicate XAES_BLOCK_SIZE 0) [0..<nBlocks - 1];
     lastBlock \<leftarrow>
       (if nLast = XAES_BLOCK_SIZE \<and> 0 < n
        then do { b \<leftarrow> mread d ((nBlocks - 1) * XAES_BLOCK_SIZE) XAES_BLOCK_SIZE; Some (XAES_ApplyXOR b K1) }
        else do {
          b \<leftarrow> mread d ((nBlocks - 1) * XAES_BLOCK_SIZE) nLast;
          b \<leftarrow> memcpy (replicate XAES_BLOCK_SIZE 0) 0 b;
          b \<leftarrow> poke b nLast 0x80;
          Some (XAES_ApplyXOR b K2) });
     cmac_cipher a (XAES_ApplyXOR X lastBlock) }"

text \<open>The status and the synthetic vector; \<open>m\<close> allocates the copy of a plaintext of a block or more.\<close>

definition XAES_S2V :: "malloc \<Rightarrow> xaes \<Rightarrow> byte list \<Rightarrow> (int \<times> byte list) option" where
  "XAES_S2V m a p = do {
     D \<leftarrow> XAES_CMAC a (replicate XAES_BLOCK_SIZE 0);
     D \<leftarrow> (if mode a = XAES_MODE_SIV_NONCE
          then do { macNonce \<leftarrow> XAES_CMAC a (IV (key a)); Some (XAES_ApplyXOR (XAES_DBL D) macNonce) }
          else Some D);
     let n = length p;
     (if XAES_BLOCK_SIZE \<le> n
      then (case m n of
              None \<Rightarrow> Some (XSTDERR, [])
            | Some T \<Rightarrow> do {
                T \<leftarrow> memcpy T 0 p;
                b \<leftarrow> mread T (n - XAES_BLOCK_SIZE) XAES_BLOCK_SIZE;
                T \<leftarrow> memcpy T (n - XAES_BLOCK_SIZE) (XAES_ApplyXOR b D);
                siv \<leftarrow> XAES_CMAC a T;
                Some (XSTDOK, siv) })
      else do {
        T \<leftarrow> memcpy (replicate XAES_BLOCK_SIZE 0) 0 p;
        T \<leftarrow> poke T n 0x80;
        siv \<leftarrow> XAES_CMAC a (XAES_ApplyXOR T (XAES_DBL D));
        Some (XSTDOK, siv) }) }"

fun ctr_incr :: "byte list \<Rightarrow> nat list \<Rightarrow> byte list" where
  "ctr_incr c [] = c"
| "ctr_incr c (j # js) = (let c = c[j := c ! j + 1] in if c ! j \<noteq> 0 then c else ctr_incr c js)"

text \<open>The output starts at offset \<open>base\<close> of the block \<open>out\<close>.\<close>

function ctr_loop :: "(byte list \<Rightarrow> byte list option) \<Rightarrow> byte list \<Rightarrow> byte list \<Rightarrow> byte list \<Rightarrow> nat \<Rightarrow> nat \<Rightarrow> byte list option" where
  "ctr_loop f counter inp out base nOffset =
     (if nOffset < length inp
      then do {
        let k = min (length inp - nOffset) XAES_BLOCK_SIZE;
        keystream \<leftarrow> f counter;
        b \<leftarrow> mread inp nOffset k;
        out \<leftarrow> memcpy out (base + nOffset) (map2 (XOR) b keystream);
        ctr_loop f (ctr_incr counter [15, 14, 13, 12]) inp out base (nOffset + k) }
      else Some out)"
  by pat_completeness auto
termination by (relation "measure (\<lambda>(_, _, inp, _, _, off). length inp - off)") auto

declare ctr_loop.simps [simp del]

definition XAES_SIV_CTR :: "xaes \<Rightarrow> byte list \<Rightarrow> byte list \<Rightarrow> byte list \<Rightarrow> nat \<Rightarrow> byte list option" where
  "XAES_SIV_CTR a siv inp out base =
     (let counter = siv[8 := siv ! 8 AND 0x7F]; counter = counter[12 := counter ! 12 AND 0x7F]
      in ctr_loop (XAES_ECB_Crypt a) counter inp out base 0)"

definition XAES_SIV_Crypt :: "malloc \<Rightarrow> malloc \<Rightarrow> xaes \<Rightarrow> byte list \<Rightarrow> (byte list \<times> nat) option option" where
  "XAES_SIV_Crypt m m' a pInput =
     (let n = length pInput
      in if 2 ^ 64 - 1 - XAES_BLOCK_SIZE - 1 < n then Some None
         else let nOutLen = XAES_BLOCK_SIZE + n
           in case m (nOutLen + 1) of
                None \<Rightarrow> Some None
              | Some out \<Rightarrow> do {
                  (st, siv) \<leftarrow> XAES_S2V m' a pInput;
                  (if st \<noteq> XSTDOK then Some None
                   else do {
                     out \<leftarrow> memcpy out 0 siv;
                     out \<leftarrow> XAES_SIV_CTR a siv pInput out XAES_BLOCK_SIZE;
                     out \<leftarrow> poke out nOutLen 0;
                     Some (Some (out, nOutLen)) }) })"

definition XAES_SIV_Decrypt :: "malloc \<Rightarrow> malloc \<Rightarrow> xaes \<Rightarrow> byte list \<Rightarrow> (byte list \<times> nat) option option" where
  "XAES_SIV_Decrypt m m' a pInput =
     (if length pInput \<le> XAES_BLOCK_SIZE then Some None
      else do {
        siv \<leftarrow> mread pInput 0 XAES_BLOCK_SIZE;
        let c = drop XAES_BLOCK_SIZE pInput;
        let n = length c;
        (case m (sz (n + 1)) of
           None \<Rightarrow> Some None
         | Some out \<Rightarrow> do {
             out \<leftarrow> XAES_SIV_CTR a siv c out 0;
             p \<leftarrow> mread out 0 n;
             (st, sivCheck) \<leftarrow> XAES_S2V m' a p;
             (if st \<noteq> XSTDOK then Some None
              else if \<not> XAES_ConstTimeEqual sivCheck siv then Some None
              else do { out \<leftarrow> poke out n 0; Some (Some (out, n)) }) }) })"

definition XAES_Encrypt :: "malloc \<Rightarrow> malloc \<Rightarrow> byte list \<Rightarrow> xaes \<Rightarrow> byte list \<Rightarrow> (xaes \<times> (byte list \<times> nat) option) option" where
  "XAES_Encrypt m m' rnd a pInput =
     (if mode a = XAES_MODE_SIV \<or> mode a = XAES_MODE_SIV_NONCE then do { r \<leftarrow> XAES_SIV_Crypt m m' a pInput; Some (a, r) }
      else if mode a = XAES_MODE_XBC then XAES_XBC_Crypt m rnd a pInput
      else XAES_CBC_Crypt m a pInput)"

definition XAES_Decrypt :: "malloc \<Rightarrow> malloc \<Rightarrow> xaes \<Rightarrow> byte list \<Rightarrow> (xaes \<times> (byte list \<times> nat) option) option" where
  "XAES_Decrypt m m' a pInput =
     (if mode a = XAES_MODE_SIV \<or> mode a = XAES_MODE_SIV_NONCE then do { r \<leftarrow> XAES_SIV_Decrypt m m' a pInput; Some (a, r) }
      else if mode a = XAES_MODE_XBC then XAES_XBC_Decrypt m m' a pInput
      else XAES_CBC_Decrypt m a pInput)"

section \<open>Cipher block chaining over any block cipher\<close>

abbreviation block :: "byte list \<Rightarrow> bool" where "block b \<equiv> length b = XAES_BLOCK_SIZE"

fun cbc_e :: "(byte list \<Rightarrow> byte list) \<Rightarrow> byte list \<Rightarrow> byte list list \<Rightarrow> byte list list" where
  "cbc_e f iv [] = []"
| "cbc_e f iv (b # bs) = f (xorb b iv) # cbc_e f (f (xorb b iv)) bs"

fun cbc_d :: "(byte list \<Rightarrow> byte list) \<Rightarrow> byte list \<Rightarrow> byte list list \<Rightarrow> byte list list" where
  "cbc_d f iv [] = []"
| "cbc_d f iv (c # cs) = xorb (f c) iv # cbc_d f c cs"

lemma memcpy_middle: "length s = length x \<Longrightarrow> memcpy (a @ x @ c) (length a) s = Some (a @ s @ c)"
  by (simp add: memcpy_def)

lemma mread_mid: "mread (a @ x @ c) (length a) (length x) = Some x"
  by (simp add: mread_def)

lemma sz_block: "length (concat (b # bs)) = 16 + length (concat bs) \<Longrightarrow> length (concat (b # bs)) < 2 ^ 64 \<Longrightarrow>
    sz (length (concat (b # bs)) + 2 ^ 64 - 16) = length (concat bs)"
  using sz_sub [of 16 "length (concat (b # bs))"] by linarith

locale block_cipher =
  fixes ok :: "'k \<Rightarrow> bool" and enc dec :: "'k \<Rightarrow> byte list \<Rightarrow> byte list option"
  assumes enc_ok: "ok k \<Longrightarrow> block b \<Longrightarrow> \<exists>c. enc k b = Some c \<and> block c \<and> dec k c = Some b"
    and dec_ok: "ok k \<Longrightarrow> block c \<Longrightarrow> \<exists>b. dec k c = Some b \<and> block b \<and> enc k b = Some c"
begin

lemma crypt_loop:
  assumes "ok k"
  shows "block iv \<Longrightarrow> \<forall>b\<in>set bs. block b \<Longrightarrow> length (concat bs) < 2 ^ 64 \<Longrightarrow>
    cbc_crypt_loop (enc k) (pre @ concat bs @ post) (length pre) (length (concat bs)) iv =
      Some (pre @ concat (cbc_e (\<lambda>b. the (enc k b)) iv bs) @ post, last (iv # cbc_e (\<lambda>b. the (enc k b)) iv bs))"
proof (induction bs arbitrary: pre iv)
  case Nil
  then show ?case by (simp add: cbc_crypt_loop.simps)
next
  case (Cons b bs)
  have b: "block b" "block (xorb b iv)" using Cons.prems by auto
  obtain c where c: "enc k (xorb b iv) = Some c" "block c" using enc_ok [OF assms b(2)] by blast
  have "cbc_crypt_loop (enc k) ((pre @ c) @ concat bs @ post) (length (pre @ c)) (length (concat bs)) c =
      Some ((pre @ c) @ concat (cbc_e (\<lambda>b. the (enc k b)) c bs) @ post, last (c # cbc_e (\<lambda>b. the (enc k b)) c bs))"
    using Cons.prems c by (intro Cons.IH) auto
  moreover have "sz (length (concat (b # bs)) + 2 ^ 64 - 16) = length (concat bs)" by (rule sz_block) (use b Cons.prems in simp_all)
  ultimately show ?case
    using b c mread_mid [of pre b "concat bs @ post"] mread_mid [of pre c "concat bs @ post"] memcpy_middle [of c b pre "concat bs @ post"]
    by (subst cbc_crypt_loop.simps) (simp add: XAES_ApplyXOR_def add.commute)
qed

lemma decrypt_loop:
  assumes "ok k"
  shows "block iv \<Longrightarrow> \<forall>c\<in>set cs. block c \<Longrightarrow> length (concat cs) < 2 ^ 64 \<Longrightarrow>
    cbc_decrypt_loop (dec k) (pre @ concat cs @ post) (length pre) (length (concat cs)) iv =
      Some (pre @ concat (cbc_d (\<lambda>b. the (dec k b)) iv cs) @ post, last (iv # cs))"
proof (induction cs arbitrary: pre iv)
  case Nil
  then show ?case by (simp add: cbc_decrypt_loop.simps)
next
  case (Cons c cs)
  have c: "block c" using Cons.prems by auto
  obtain b where b: "dec k c = Some b" "block b" using dec_ok [OF assms c] by blast
  have "cbc_decrypt_loop (dec k) ((pre @ xorb b iv) @ concat cs @ post) (length (pre @ xorb b iv)) (length (concat cs)) c =
      Some ((pre @ xorb b iv) @ concat (cbc_d (\<lambda>b. the (dec k b)) c cs) @ post, last (c # cs))"
    using Cons.prems b by (intro Cons.IH) auto
  moreover have "sz (length (concat (c # cs)) + 2 ^ 64 - 16) = length (concat cs)" by (rule sz_block) (use c Cons.prems in simp_all)
  ultimately show ?case
    using b c Cons.prems(1) mread_mid [of pre c "concat cs @ post"] memcpy_middle [of "xorb b iv" c pre "concat cs @ post"]
    by (subst cbc_decrypt_loop.simps) (simp add: XAES_ApplyXOR_def add.commute)
qed

lemma cbc_blocks:
  assumes "ok k"
  defines "E \<equiv> \<lambda>b. the (enc k b)" and "D \<equiv> \<lambda>b. the (dec k b)"
  shows "block iv \<Longrightarrow> \<forall>b\<in>set bs. block b \<Longrightarrow>
    (\<forall>b\<in>set (cbc_e E iv bs). block b) \<and> length (cbc_e E iv bs) = length bs \<and> cbc_d D iv (cbc_e E iv bs) = bs"
proof (induction bs arbitrary: iv)
  case (Cons b bs)
  obtain c where c: "E (xorb b iv) = c" "block c" "D c = xorb b iv"
    using enc_ok [OF assms(1), of "xorb b iv"] Cons.prems unfolding E_def D_def by auto
  have ih: "\<forall>b\<in>set (cbc_e E c bs). block b" "length (cbc_e E c bs) = length bs" "cbc_d D c (cbc_e E c bs) = bs"
    using Cons.IH [OF c(2)] Cons.prems by simp_all
  have "xorb (xorb b iv) iv = b" using Cons.prems by simp
  then show ?case unfolding cbc_e.simps cbc_d.simps c using c(2) ih by simp
qed simp

lemma cbc_back:
  assumes "ok k"
  defines "E \<equiv> \<lambda>b. the (enc k b)" and "D \<equiv> \<lambda>b. the (dec k b)"
  shows "block iv \<Longrightarrow> \<forall>c\<in>set cs. block c \<Longrightarrow>
    (\<forall>b\<in>set (cbc_d D iv cs). block b) \<and> length (cbc_d D iv cs) = length cs \<and> cbc_e E iv (cbc_d D iv cs) = cs"
proof (induction cs arbitrary: iv)
  case (Cons c cs)
  obtain b where b: "D c = b" "block b" "E b = c"
    using dec_ok [OF assms(1), of c] Cons.prems unfolding E_def D_def by auto
  have c: "block c" using Cons.prems by simp
  have ih: "\<forall>b\<in>set (cbc_d D c cs). block b" "length (cbc_d D c cs) = length cs" "cbc_e E c (cbc_d D c cs) = cs"
    using Cons.IH [OF c] Cons.prems by simp_all
  have "xorb (xorb b iv) iv = b" "length (xorb b iv) = 16" using b(2) Cons.prems by simp_all
  then show ?case unfolding cbc_d.simps cbc_e.simps b using b ih by simp
qed simp

end

interpretation aes: block_cipher aes_ok XAES_ECB_Crypt XAES_ECB_Decrypt
proof
  fix a b assume a: "aes_ok a" "block b"
  have "16 * unat (nNR (ctx a)) + 16 \<le> length (roundKey (ctx a))" using a(1) by (auto simp: aes_ok_def)
  then show "\<exists>c. XAES_ECB_Crypt a b = Some c \<and> block c \<and> XAES_ECB_Decrypt a c = Some b"
    using ecb_crypt [OF a] ecb_decrypt [OF a] enc_block_length [OF a(2)] by blast
next
  fix a c assume "aes_ok a" "block c"
  then show "\<exists>b. XAES_ECB_Decrypt a c = Some b \<and> block b \<and> XAES_ECB_Crypt a b = Some c" using ecb_inverse by blast
qed

section \<open>CBC\<close>

lemma poke_snoc: "length d = n \<Longrightarrow> poke (d @ [x]) n v = Some (d @ [v])"
  by (auto simp: poke_def)

definition pkcs :: "byte list \<Rightarrow> byte list" where
  "pkcs p = (let k = 16 - length p mod 16 in p @ replicate k (of_nat k))"

definition alloc_ok :: "malloc \<Rightarrow> bool" where
  "alloc_ok m \<longleftrightarrow> malloc_spec m \<and> (\<forall>n. m n \<noteq> None)"

lemma alloc_okD: "alloc_ok m \<Longrightarrow> \<exists>b. m n = Some b \<and> length b = n"
  using malloc_length unfolding alloc_ok_def by fastforce

abbreviation aes_e :: "xaes \<Rightarrow> byte list \<Rightarrow> byte list" where "aes_e a \<equiv> \<lambda>b. the (XAES_ECB_Crypt a b)"
abbreviation aes_d :: "xaes \<Rightarrow> byte list \<Rightarrow> byte list" where "aes_d a \<equiv> \<lambda>b. the (XAES_ECB_Decrypt a b)"

text \<open>The prefix of an output, and the whole of it for the aligned plaintext \<open>d\<close>.\<close>

definition iv_prefix :: "xaes \<Rightarrow> byte list" where
  "iv_prefix a = (if nContainIV (key a) then IV (key a) else [])"

definition cbc_out :: "xaes \<Rightarrow> byte list \<Rightarrow> byte list" where
  "cbc_out a d = iv_prefix a @ concat (cbc_e (aes_e a) (IV (key a)) (chunks 16 d))"

definition cbc_next :: "xaes \<Rightarrow> byte list \<Rightarrow> xaes" where
  "cbc_next a d = keep_iv a (last (IV (key a) # cbc_e (aes_e a) (IV (key a)) (chunks 16 d)))"

lemma chunks_concat:
  assumes "16 dvd length d"
  shows "concat (chunks 16 d) = d \<and> (\<forall>b\<in>set (chunks 16 d). block b)"
  using assms
proof (induction "length d" arbitrary: d rule: less_induct)
  case less
  show ?case
  proof (cases "length d < 16")
    case True
    then have "d = []" using less.prems dvd_imp_le by fastforce
    then show ?thesis by simp
  next
    case False
    then have "16 dvd length (drop 16 d)" "length (drop 16 d) < length d" using less.prems by (simp_all add: dvd_diff_nat)
    from less.hyps [OF this(2,1)]
    have ih: "concat (chunks 16 (drop 16 d)) = drop 16 d" "\<forall>b\<in>set (chunks 16 (drop 16 d)). block b" by blast+
    have eq: "chunks 16 d = take 16 d # chunks 16 (drop 16 d)" using False by (subst chunks.simps) simp
    have "block (take 16 d)" using False by simp
    then show ?thesis unfolding eq concat.simps ih(1) append_take_drop_id list.set using ih(2) by blast
  qed
qed

lemma concat_chunks: "\<forall>b\<in>set bs. block b \<Longrightarrow> chunks 16 (concat bs) = bs"
  by (induction bs) (auto simp: chunks_cons)

lemma align: "(n :: nat) + (16 - n mod 16) = (n div 16 + 1) * 16"
proof -
  define q r where "q = n div 16" and "r = n mod 16"
  have "n = q * 16 + r" "r < 16" by (simp_all add: q_def r_def)
  then show ?thesis unfolding q_def [symmetric] r_def [symmetric] by simp
qed

lemma pkcs_length: "16 dvd length (pkcs p)" "length (pkcs p) = (length p div 16 + 1) * 16"
proof -
  show "length (pkcs p) = (length p div 16 + 1) * 16"
    unfolding align [symmetric] by (simp add: pkcs_def Let_def)
  then show "16 dvd length (pkcs p)" by simp
qed

lemma iv_prefix_length: "aes_ok a \<Longrightarrow> length (iv_prefix a) = (if nContainIV (key a) then 16 else 0)"
  by (simp add: iv_prefix_def aes_ok_def)

text \<open>The encryption loop on a block that holds the prefix, the aligned plaintext and one more byte.\<close>

lemma cbc_loop:
  assumes "aes_ok a" "16 dvd length d" "length d < 2 ^ 64"
  shows "cbc_crypt_loop (XAES_ECB_Crypt a) (iv_prefix a @ d @ post) (length (iv_prefix a)) (length d) (IV (key a)) =
    Some (cbc_out a d @ post, last (IV (key a) # cbc_e (aes_e a) (IV (key a)) (chunks 16 d)))"
proof -
  have c: "concat (chunks 16 d) = d" "\<forall>b\<in>set (chunks 16 d). block b" using chunks_concat [OF assms(2)] by auto
  have "block (IV (key a))" using assms(1) by (simp add: aes_ok_def)
  from aes.crypt_loop [OF assms(1) this c(2), of "iv_prefix a" post] show ?thesis using assms(3) by (simp add: c(1) cbc_out_def)
qed

lemma cbc_out_length:
  assumes "aes_ok a" "16 dvd length d"
  shows "length (cbc_out a d) = length (iv_prefix a) + length d"
proof -
  have c: "concat (chunks 16 d) = d" "\<forall>b\<in>set (chunks 16 d). block b" using chunks_concat [OF assms(2)] by auto
  have iv: "block (IV (key a))" using assms(1) by (simp add: aes_ok_def)
  have n: "length (concat bs) = 16 * length bs" if "\<forall>b\<in>set bs. block b" for bs :: "byte list list"
    using that by (induction bs) auto
  let ?e = "cbc_e (aes_e a) (IV (key a)) (chunks 16 d)"
  have "\<forall>b\<in>set ?e. block b" "length ?e = length (chunks 16 d)" using aes.cbc_blocks [OF assms(1) iv c(2)] by auto
  then have "length (concat ?e) = 16 * length (chunks 16 d)" using n [of ?e] by metis
  also have "\<dots> = length (concat (chunks 16 d))" by (rule n [OF c(2), symmetric])
  finally have "length (concat ?e) = length (concat (chunks 16 d))" .
  then show ?thesis by (simp add: cbc_out_def c(1))
qed

lemma cbc_crypt:
  assumes "aes_ok a" "alloc_ok m" "p \<noteq> []" "length p + 33 < 2 ^ 64"
  shows "XAES_CBC_Crypt m a p = Some (cbc_next a (pkcs p), Some (cbc_out a (pkcs p) @ [0], length (cbc_out a (pkcs p))))"
proof -
  let ?n = "length p" and ?x = "length (iv_prefix a)"
  obtain k where k: "k \<le> 16" "0 < k" "(?n div 16 + 1) * 16 = ?n + k" "pkcs p = p @ replicate k (of_nat k)"
    using align [of ?n] by (metis (no_types, lifting) diff_le_self mod_less_divisor pkcs_def zero_less_diff zero_less_numeral)
  have x: "?x = (if nContainIV (key a) then 16 else 0)" "?x \<le> 16" using iv_prefix_length [OF assms(1)] by simp_all
  have s: "sz ((?n div 16 + 1) * 16) = ?n + k" "sz (?x + (?n + k)) = ?x + (?n + k)" "sz (?x + (?n + k) + 1) = ?x + (?n + k) + 1"
    unfolding k(3) using k assms(4) x by simp_all
  obtain out where out: "m (?x + (?n + k) + 1) = Some out" "length out = ?x + (?n + k) + 1" using alloc_okD [OF assms(2)] by blast
  have iv: "mread (IV (key a)) 0 16 = Some (IV (key a))" using assms(1) by (simp add: aes_ok_def mread_Some)
  have pad: "unat (of_nat k :: byte) = k" using k(1) by simp
  have w1: "(if nContainIV (key a) then memcpy out 0 (IV (key a)) else Some out) = Some (iv_prefix a @ drop ?x out)"
    using out(2) x assms(1) by (simp add: iv_prefix_def memcpy_Some aes_ok_def)
  have w2: "memcpy (iv_prefix a @ drop ?x out) ?x p = Some (iv_prefix a @ p @ drop (?x + ?n) out)"
    using out(2) by (simp add: memcpy_Some add.commute)
  have w3: "memcpy (iv_prefix a @ p @ drop (?x + ?n) out) (?x + ?n) (replicate k (of_nat k)) =
      Some (iv_prefix a @ pkcs p @ [last out])"
  proof -
    have "drop (?x + ?n + k) out = [last out]"
      using out(2) by (metis (no_types, lifting) add.assoc append_butlast_last_id append_eq_conv_conj diff_add_inverse2 length_butlast length_greater_0_conv zero_less_Suc Suc_eq_plus1)
    then show ?thesis using out(2) by (simp add: memcpy_Some k(4) add.commute add.left_commute)
  qed
  have l: "length (pkcs p) = ?n + k" using pkcs_length(2) k(3) by simp
  have loop: "cbc_crypt_loop (XAES_ECB_Crypt a) (iv_prefix a @ pkcs p @ [last out]) ?x (?n + k) (IV (key a)) =
      Some (cbc_out a (pkcs p) @ [last out], last (IV (key a) # cbc_e (aes_e a) (IV (key a)) (chunks 16 (pkcs p))))"
    using cbc_loop [OF assms(1) pkcs_length(1), of p "[last out]"] l assms(4) k by simp
  have lo: "length (cbc_out a (pkcs p)) = ?x + (?n + k)" using cbc_out_length [OF assms(1) pkcs_length(1)] l by simp
  have fin: "poke (cbc_out a (pkcs p) @ [last out]) (?x + (?n + k)) 0 = Some (cbc_out a (pkcs p) @ [0])"
    by (rule poke_snoc [OF lo])
  show ?thesis
    unfolding XAES_CBC_Crypt_def Let_def x(1) [symmetric] s out(1) option.case iv w1 bind.bind_lunit w2 diff_add_inverse pad w3
      loop prod.case fin
    using assms(3) lo by (simp add: cbc_next_def)
qed

text \<open>What the decryptions recover from the blocks \<open>inp\<close>.\<close>

definition cbc_plain :: "xaes \<Rightarrow> byte list \<Rightarrow> byte list \<Rightarrow> byte list" where
  "cbc_plain a iv inp = concat (cbc_d (aes_d a) iv (chunks 16 inp))"

lemma blocks_length: "\<forall>b\<in>set bs. block b \<Longrightarrow> length (concat bs) = 16 * length bs"
  by (induction bs) auto

lemma cbc_plain_length:
  assumes "aes_ok a" "block iv" "16 dvd length inp"
  shows "length (cbc_plain a iv inp) = length inp" "chunks 16 (cbc_plain a iv inp) = cbc_d (aes_d a) iv (chunks 16 inp)"
proof -
  have c: "concat (chunks 16 inp) = inp" "\<forall>b\<in>set (chunks 16 inp). block b" using chunks_concat [OF assms(3)] by auto
  let ?d = "cbc_d (aes_d a) iv (chunks 16 inp)"
  have d: "\<forall>b\<in>set ?d. block b" "length ?d = length (chunks 16 inp)" using aes.cbc_back [OF assms(1,2) c(2)] by auto
  show "chunks 16 (cbc_plain a iv inp) = ?d" unfolding cbc_plain_def by (rule concat_chunks [OF d(1)])
  have "length (concat ?d) = 16 * length (chunks 16 inp)" using blocks_length [OF d(1)] d(2) by metis
  also have "\<dots> = length (concat (chunks 16 inp))" by (rule blocks_length [OF c(2), symmetric])
  finally show "length (cbc_plain a iv inp) = length inp" unfolding cbc_plain_def c(1) .
qed

lemma cbc_unloop:
  assumes "aes_ok a" "block iv" "16 dvd length inp" "length inp < 2 ^ 64"
  shows "cbc_decrypt_loop (XAES_ECB_Decrypt a) (inp @ post) 0 (length inp) iv = Some (cbc_plain a iv inp @ post, last (iv # chunks 16 inp))"
proof -
  have c: "concat (chunks 16 inp) = inp" "\<forall>b\<in>set (chunks 16 inp). block b" using chunks_concat [OF assms(3)] by auto
  from aes.decrypt_loop [OF assms(1,2) c(2), of "[]" post] show ?thesis using assms(4) by (simp add: c(1) cbc_plain_def)
qed

lemma cbc_input:
  assumes "aes_ok a"
  obtains "cbc_input a c = Some None"
  | iv inp where "cbc_input a c = Some (Some (iv, inp))" "block iv" "16 dvd length inp" "16 \<le> length inp"
      "c = (if nContainIV (key a) then iv else []) @ inp" "nContainIV (key a) \<or> iv = IV (key a)"
proof (cases "nContainIV (key a)")
  case True
  show thesis
  proof (cases "length c \<le> 16 \<or> (length c - 16) mod 16 \<noteq> 0")
    case False
    then have "16 dvd length (drop 16 c)" "16 \<le> length (drop 16 c)" by (auto simp: dvd_eq_mod_eq_0 dest: dvd_imp_le)
    then show thesis using that(2) [of "take 16 c" "drop 16 c"] True False by (simp add: cbc_input_def mread_Some)
  qed (use that(1) True in \<open>auto simp: cbc_input_def Let_def\<close>)
next
  case False
  show thesis
  proof (cases "length c < 16 \<or> length c mod 16 \<noteq> 0")
    case True
    then show thesis using that(1) False by (auto simp: cbc_input_def Let_def)
  next
    case valid: False
    then have "16 dvd length c" "16 \<le> length c" by auto
    then show thesis using that(2) [of "IV (key a)" c] valid False assms by (simp add: cbc_input_def mread_Some aes_ok_def)
  qed
qed

lemma padding_ok: "\<forall>i\<in>set is. n - 1 - i < length d \<Longrightarrow> padding_ok d n p is = Some (\<forall>i\<in>set is. d ! (n - 1 - i) = p)"
  by (induction "is") (auto simp: peek_def)

lemma padding_suffix:
  assumes "k \<le> n" "length d = n" "0 < k"
  shows "(\<forall>i\<in>set [0..<k]. (d @ post) ! (n - 1 - i) = p) \<longleftrightarrow> d = take (n - k) d @ replicate k p"
proof
  assume a: "\<forall>i\<in>set [0..<k]. (d @ post) ! (n - 1 - i) = p"
  have "drop (n - k) d = replicate k p"
  proof (rule nth_equalityI)
    fix j assume "j < length (drop (n - k) d)"
    then have j: "j < k" using assms by simp
    then have "k - 1 - j \<in> set [0..<k]" "n - 1 - (k - 1 - j) = n - k + j" using assms by auto
    then have "(d @ post) ! (n - k + j) = p" using a by metis
    moreover have "n - k + j < length d" using j assms by simp
    ultimately have "d ! (n - k + j) = p" by (simp only: nth_append if_True)
    then show "drop (n - k) d ! j = replicate k p ! j" using j assms by simp
  qed (use assms in simp)
  then show "d = take (n - k) d @ replicate k p" by (metis append_take_drop_id)
next
  assume a: "d = take (n - k) d @ replicate k p"
  have l: "length (take (n - k) d) = n - k" using assms by simp
  show "\<forall>i\<in>set [0..<k]. (d @ post) ! (n - 1 - i) = p"
  proof
    fix i assume "i \<in> set [0..<k]"
    then have i: "n - 1 - i < n" "n - 1 - i = (n - k) + (k - 1 - i)" "k - 1 - i < k" using assms by auto
    have "(d @ post) ! (n - 1 - i) = d ! (n - 1 - i)" using i(1) assms by (simp add: nth_append)
    also have "\<dots> = (take (n - k) d @ replicate k p) ! ((n - k) + (k - 1 - i))" using a i(2) by metis
    also have "\<dots> = p" using i(3) l by (simp add: nth_append)
    finally show "(d @ post) ! (n - 1 - i) = p" .
  qed
qed

lemma pkcs_pad:
  assumes "16 dvd length d" "0 < k" "k \<le> 16" "k \<le> length d"
  shows "d = take (length d - k) d @ replicate k (of_nat k) \<longleftrightarrow> d = pkcs (take (length d - k) d)"
proof -
  obtain q where q: "length d = 16 * q" using assms(1) by blast
  have "(length d - k) mod 16 = (if k = 16 then 0 else 16 - k)"
  proof -
    obtain q' where "q = Suc q'" using assms q by (cases q) auto
    then have "length d - k = 16 * q' + (16 - k)" using q assms(3) by simp
    also have "\<dots> mod 16 = (16 - k) mod 16" by simp
    finally show ?thesis using assms(2,3) by auto
  qed
  then have "16 - length (take (length d - k) d) mod 16 = k" using assms(2,3) by auto
  then show ?thesis by (simp add: pkcs_def)
qed

lemma pkcs_last: "last (pkcs q) = of_nat (length (pkcs q) - length q)" "length q < length (pkcs q)" "length (pkcs q) - length q \<le> 16"
  "take (length q) (pkcs q) = q"
  by (simp_all add: pkcs_def Let_def)

lemma cbc_decrypt:
  assumes "aes_ok a" "alloc_ok m" "length c + 1 < 2 ^ 64" "cbc_input a c = Some (Some (iv, inp))" "block iv" "16 dvd length inp"
    "16 \<le> length inp" "length inp \<le> length c"
  shows "\<exists>r. XAES_CBC_Decrypt m a c =
    (let P = cbc_plain a iv inp; n = length P - unat (last P) in
     if P = pkcs (take n P) then Some (keep_iv a (last (iv # chunks 16 inp)), Some (take n P @ 0 # r, n)) else Some (a, None))"
proof -
  let ?P = "cbc_plain a iv inp"
  let ?N = "length inp" and ?k = "unat (last ?P)"
  have P: "length ?P = ?N" "?P \<noteq> []" using cbc_plain_length [OF assms(1,5,6)] assms(7) by auto
  obtain out where out: "m (?N + 1) = Some out" "length out = ?N + 1" using alloc_okD [OF assms(2)] by blast
  obtain x where x: "drop ?N out = [x]" using out(2) by (metis (no_types, lifting) add_diff_cancel_left' length_0_conv length_Suc_conv length_drop Suc_eq_plus1 One_nat_def)
  have w: "memcpy out 0 inp = Some (inp @ [x])" using out(2) x by (simp add: memcpy_Some)
  have loop: "cbc_decrypt_loop (XAES_ECB_Decrypt a) (inp @ [x]) 0 ?N iv = Some (?P @ [x], last (iv # chunks 16 inp))"
    using cbc_unloop [OF assms(1,5,6)] assms(3,8) by simp
  have pk: "peek (?P @ [x]) (?N - 1) = Some (last ?P)"
  proof -
    have "?N - 1 < length ?P" "?N - 1 < length (?P @ [x])" using P(1) assms(7) by simp_all
    then have "peek (?P @ [x]) (?N - 1) = Some (?P ! (?N - 1))" unfolding peek_def by (simp only: nth_append if_True)
    then show ?thesis using P by (simp add: last_conv_nth)
  qed
  have c: "c \<noteq> []" and s: "sz (?N + 1) = ?N + 1" using assms(3,7,8) by auto
  have start: "XAES_CBC_Decrypt m a c =
      (if last ?P = 0 \<or> 16 < ?k then Some (a, None)
       else do {
         ok \<leftarrow> padding_ok (?P @ [x]) ?N (last ?P) [0..<?k];
         (if \<not> ok then Some (a, None)
          else do { out \<leftarrow> poke (?P @ [x]) (?N - ?k) 0; Some (keep_iv a (last (iv # chunks 16 inp)), Some (out, ?N - ?k)) }) })"
    unfolding XAES_CBC_Decrypt_def assms(4) bind.bind_lunit option.case prod.case Let_def s out(1) w loop pk using c by (simp only: if_False)
  show ?thesis
  proof (cases "last ?P = 0 \<or> 16 < ?k")
    case True
    have "?P \<noteq> pkcs (take (length ?P - ?k) ?P)"
    proof
      assume e: "?P = pkcs (take (length ?P - ?k) ?P)"
      define q where "q = take (length ?P - ?k) ?P"
      have "last ?P = of_nat (length ?P - length q)" "length ?P - length q \<le> 16" "0 < length ?P - length q"
        using pkcs_last [of q] e unfolding q_def [symmetric] by simp_all
      then have "?k = length ?P - length q" by (simp del: of_nat_diff)
      then show False using True \<open>length ?P - length q \<le> 16\<close> \<open>0 < length ?P - length q\<close> by auto
    qed
    then show ?thesis using start True by (simp add: Let_def)
  next
    case False
    then have k: "0 < ?k" "?k \<le> 16" "?k \<le> ?N" using assms(7) by (auto simp: unat_gt_0)
    have "padding_ok (?P @ [x]) ?N (last ?P) [0..<?k] = Some (\<forall>i\<in>set [0..<?k]. (?P @ [x]) ! (?N - 1 - i) = last ?P)"
      using P(1) assms(7) by (intro padding_ok) auto
    also have "(\<forall>i\<in>set [0..<?k]. (?P @ [x]) ! (?N - 1 - i) = last ?P) \<longleftrightarrow> ?P = take (?N - ?k) ?P @ replicate ?k (last ?P)"
      using padding_suffix [OF k(3) P(1) k(1)] .
    also have "\<dots> \<longleftrightarrow> ?P = pkcs (take (length ?P - ?k) ?P)"
      using pkcs_pad [of ?P ?k] k P(1) assms(6) by simp
    finally have ok: "padding_ok (?P @ [x]) ?N (last ?P) [0..<?k] = Some (?P = pkcs (take (length ?P - ?k) ?P))" .
    have "poke (?P @ [x]) (?N - ?k) 0 = Some (take (?N - ?k) ?P @ 0 # drop (?N - ?k + 1) (?P @ [x]))"
      using P(1) k by (simp add: poke_def upd_conv_take_nth_drop)
    then show ?thesis using start False ok P(1) unfolding Let_def by auto
  qed
qed


text \<open>The context with the initialisation vector that a text carries.\<close>

definition with_iv :: "xaes \<Rightarrow> byte list \<Rightarrow> xaes" where
  "with_iv a iv = a\<lparr>key := (key a)\<lparr>IV := iv\<rparr>\<rparr>"

lemma with_iv_ok: "aes_ok a \<Longrightarrow> block iv \<Longrightarrow> aes_ok (with_iv a iv)"
  by (simp add: aes_ok_def with_iv_def)

lemma with_iv_e [simp]: "aes_e (with_iv a iv) = aes_e a"
  by (simp add: XAES_ECB_Crypt_def with_iv_def)

lemma cbc_out_plain:
  assumes "aes_ok a" "block iv" "16 dvd length inp" "c = (if nContainIV (key a) then iv else []) @ inp"
  shows "cbc_out (with_iv a iv) (cbc_plain a iv inp) = c"
proof -
  have ch: "concat (chunks 16 inp) = inp" "\<forall>b\<in>set (chunks 16 inp). block b" using chunks_concat [OF assms(3)] by auto
  have "cbc_e (aes_e a) iv (chunks 16 (cbc_plain a iv inp)) = chunks 16 inp"
    unfolding cbc_plain_length(2) [OF assms(1-3)] using aes.cbc_back [OF assms(1,2) ch(2)] by blast
  then show ?thesis unfolding cbc_out_def with_iv_e using assms(4) ch(1) by (simp add: with_iv_def iv_prefix_def)
qed

lemma cbc_plain_out:
  assumes "aes_ok a" "16 dvd length d" "0 < length d"
  shows "cbc_input a (cbc_out a d) = Some (Some (IV (key a), concat (cbc_e (aes_e a) (IV (key a)) (chunks 16 d)))) \<and>
    cbc_plain a (IV (key a)) (concat (cbc_e (aes_e a) (IV (key a)) (chunks 16 d))) = d \<and>
    chunks 16 (concat (cbc_e (aes_e a) (IV (key a)) (chunks 16 d))) = cbc_e (aes_e a) (IV (key a)) (chunks 16 d) \<and>
    length (concat (cbc_e (aes_e a) (IV (key a)) (chunks 16 d))) = length d"
proof -
  let ?iv = "IV (key a)" and ?e = "cbc_e (aes_e a) (IV (key a)) (chunks 16 d)"
  have iv: "block ?iv" using assms(1) by (simp add: aes_ok_def)
  have ch: "concat (chunks 16 d) = d" "\<forall>b\<in>set (chunks 16 d). block b" using chunks_concat [OF assms(2)] by auto
  have e: "\<forall>b\<in>set ?e. block b" "length ?e = length (chunks 16 d)" "cbc_d (aes_d a) ?iv ?e = chunks 16 d"
    using aes.cbc_blocks [OF assms(1) iv ch(2)] by auto
  have l: "length (concat ?e) = length d" using cbc_out_length [OF assms(1,2)] by (simp add: cbc_out_def)
  have c: "chunks 16 (concat ?e) = ?e" by (rule concat_chunks [OF e(1)])
  have "cbc_plain a ?iv (concat ?e) = d" unfolding cbc_plain_def c e(3) by (rule ch(1))
  moreover have "cbc_input a (cbc_out a d) = Some (Some (?iv, concat ?e))"
    using iv assms(2,3) l dvd_imp_le [OF assms(2)]
    by (auto simp: cbc_input_def cbc_out_def iv_prefix_def mread_Some simp del: length_concat)
  ultimately show ?thesis using c l by blast
qed

text \<open>
  C38: CBC with PKCS#7 padding. Decrypting what \<open>XAES_CBC_Crypt\<close> made gives the plaintext back and leaves both contexts with the
  same initialisation vector for the next message. On arbitrary input \<open>XAES_CBC_Decrypt\<close> stays in bounds, refuses without a
  change of the context, or accepts, and then a non-empty plaintext encrypts to exactly this input.
\<close>

theorem aes_cbc:
  assumes "aes_ok a" "alloc_ok m" "p \<noteq> []" "length p + 33 < 2 ^ 64" "length x + 33 < 2 ^ 64"
  shows "(\<exists>c a' r. XAES_CBC_Crypt m a p = Some (a', Some (c @ [0], length c)) \<and>
      length c = (if nContainIV (key a) then 16 else 0) + (length p div 16 + 1) * 16 \<and>
      XAES_CBC_Decrypt m a c = Some (a', Some (p @ 0 # r, length p))) \<and>
    (\<exists>a' r. XAES_CBC_Decrypt m a x = Some (a', r) \<and>
      (case r of None \<Rightarrow> a' = a
       | Some (out, n) \<Rightarrow> n < length out \<and> (n = 0 \<or>
           (\<exists>a''. XAES_CBC_Crypt m (if nContainIV (key a) then with_iv a (take 16 x) else a) (take n out) = Some (a'', Some (x @ [0], length x))))))"
proof
  let ?d = "pkcs p"
  let ?e = "concat (cbc_e (aes_e a) (IV (key a)) (chunks 16 ?d))"
  have d: "16 dvd length ?d" "0 < length ?d" "length ?d = (length p div 16 + 1) * 16" using pkcs_length [of p] by simp_all
  note po = cbc_plain_out [OF assms(1) d(1,2)]
  have iv: "block (IV (key a))" using assms(1) by (simp add: aes_ok_def)
  have dl: "16 \<le> length ?d" "length ?d \<le> length p + 16" unfolding d(3) align [symmetric] by simp_all
  have lo: "length (cbc_out a ?d) = (if nContainIV (key a) then 16 else 0) + length ?d"
    using cbc_out_length [OF assms(1) d(1)] iv_prefix_length [OF assms(1)] by simp
  have "length (cbc_out a ?d) + 1 < 2 ^ 64" using lo dl assms(4) by (simp split: if_splits)
  moreover have "length ?e \<le> length (cbc_out a ?d)" using po lo by simp
  moreover have "16 dvd length ?e" "16 \<le> length ?e" using po d(1) dl(1) by simp_all
  ultimately obtain r where r: "XAES_CBC_Decrypt m a (cbc_out a ?d) =
      (let P = cbc_plain a (IV (key a)) ?e; n = length P - unat (last P) in
       if P = pkcs (take n P) then Some (keep_iv a (last (IV (key a) # chunks 16 ?e)), Some (take n P @ 0 # r, n)) else Some (a, None))"
    using cbc_decrypt [OF assms(1,2) _ _ iv, of "cbc_out a ?d" ?e] po by blast
  have k: "last ?d = of_nat (length ?d - length p)" "length p < length ?d" "length ?d - length p \<le> 16" "take (length p) ?d = p"
    using pkcs_last [of p] by simp_all
  then have "length ?d - unat (last ?d) = length p" by (simp del: of_nat_diff)
  then have "XAES_CBC_Decrypt m a (cbc_out a ?d) = Some (cbc_next a ?d, Some (p @ 0 # r, length p))"
    using r po k(4) by (simp add: cbc_next_def)
  then show "\<exists>c a' r. XAES_CBC_Crypt m a p = Some (a', Some (c @ [0], length c)) \<and>
      length c = (if nContainIV (key a) then 16 else 0) + (length p div 16 + 1) * 16 \<and>
      XAES_CBC_Decrypt m a c = Some (a', Some (p @ 0 # r, length p))"
    using cbc_crypt [OF assms(1-4)] lo d(3) by (intro exI [of _ "cbc_out a ?d"] exI [of _ "cbc_next a ?d"] exI [of _ r]) simp
next
  show "\<exists>a' r. XAES_CBC_Decrypt m a x = Some (a', r) \<and>
      (case r of None \<Rightarrow> a' = a
       | Some (out, n) \<Rightarrow> n < length out \<and> (n = 0 \<or>
           (\<exists>a''. XAES_CBC_Crypt m (if nContainIV (key a) then with_iv a (take 16 x) else a) (take n out) = Some (a'', Some (x @ [0], length x)))))"
  proof (rule cbc_input [OF assms(1), of x])
    assume "cbc_input a x = Some None"
    then show ?thesis by (simp add: XAES_CBC_Decrypt_def)
  next
    fix iv inp
    assume i: "cbc_input a x = Some (Some (iv, inp))" "block iv" "16 dvd length inp" "16 \<le> length inp"
      "x = (if nContainIV (key a) then iv else []) @ inp" "nContainIV (key a) \<or> iv = IV (key a)"
    let ?P = "cbc_plain a iv inp"
    let ?n = "length ?P - unat (last ?P)"
    have le: "length inp \<le> length x" using i(5) by simp
    obtain r where r: "XAES_CBC_Decrypt m a x = (let P = ?P; n = length P - unat (last P) in
       if P = pkcs (take n P) then Some (keep_iv a (last (iv # chunks 16 inp)), Some (take n P @ 0 # r, n)) else Some (a, None))"
      using cbc_decrypt [OF assms(1,2) _ i(1-4) le] assms(5) by auto
    show ?thesis
    proof (cases "?P = pkcs (take ?n ?P)")
      case False
      then show ?thesis using r by (simp add: Let_def)
    next
      case True
      have ctx: "(if nContainIV (key a) then with_iv a (take 16 x) else a) = with_iv a iv"
        using i(2,5,6) by (auto simp: with_iv_def)
      have "XAES_CBC_Crypt m (with_iv a iv) (take ?n ?P) =
          Some (cbc_next (with_iv a iv) ?P, Some (x @ [0], length x))" if "?n \<noteq> 0"
      proof -
        have "length ?P \<le> length x" "?P \<noteq> []" using cbc_plain_length(1) [OF assms(1) i(2,3)] le i(4) by auto
        then show ?thesis
          using cbc_crypt [OF with_iv_ok [OF assms(1) i(2)] assms(2), of "take ?n ?P"] that True assms(5)
            cbc_out_plain [OF assms(1) i(2,3,5)] by (simp del: with_iv_e)
      qed
      then show ?thesis using r True unfolding ctx by (auto simp: Let_def)
    qed
  qed
qed

text \<open>A context without round keys of any meaning, on which the theorems apply.\<close>

definition zero_aes :: xaes where
  "zero_aes = \<lparr>mode = XAES_MODE_CBC,
     key = \<lparr>aesKey = replicate 32 0, ctrKey = replicate 32 0, IV = replicate 16 0, nContainIV = False, nKeySize = 128\<rparr>,
     ctx = \<lparr>cmacRoundKey = replicate 240 0, roundKey = replicate 240 0, nNB = 4, nNK = 4, nNR = 10\<rparr>\<rparr>"

lemma zero_aes_ok: "aes_ok zero_aes" "alloc_ok zero_malloc"
  by (simp_all add: aes_ok_def zero_aes_def alloc_ok_def zero_malloc_def zero_malloc_spec [unfolded zero_malloc_def])

lemma aes_cbc_witness:
  "\<exists>c a' r. XAES_CBC_Crypt zero_malloc zero_aes [1, 2, 3] = Some (a', Some (c @ [0], length c)) \<and>
     XAES_CBC_Decrypt zero_malloc zero_aes c = Some (a', Some ([1, 2, 3] @ 0 # r, length [1 :: byte, 2, 3]))"
  using aes_cbc [OF zero_aes_ok, of "[1, 2, 3]" "[]"] by simp blast

section \<open>XBC\<close>

definition xbc_rand :: "byte list \<Rightarrow> nat" where
  "xbc_rand p = (16 - (4 + length p) mod 16) mod 16"

definition xbc_text :: "byte list \<Rightarrow> byte list \<Rightarrow> byte list" where
  "xbc_text rnd p = be_bytes 4 (xbc_rand p) @ take (xbc_rand p) rnd @ p"

lemma xbc_align: "xbc_rand p < 16" "16 dvd 4 + xbc_rand p + length p"
proof -
  define r where "r = (4 + length p) mod 16"
  have "r < 16" by (simp add: r_def)
  have "(4 + length p + (16 - r) mod 16) mod 16 = (r + (16 - r) mod 16) mod 16" unfolding r_def by (simp only: mod_add_left_eq)
  also have "\<dots> = 0" using \<open>r < 16\<close> by (cases "r = 0") simp_all
  finally show "16 dvd 4 + xbc_rand p + length p"
    unfolding xbc_rand_def r_def [symmetric] dvd_eq_mod_eq_0 by (simp add: ac_simps)
qed (simp add: xbc_rand_def)

lemma xbc_text_length: "16 \<le> length rnd \<Longrightarrow> length (xbc_text rnd p) = 4 + xbc_rand p + length p"
  using xbc_align(1) [of p] by (simp add: xbc_text_def)

lemma xbc_crypt:
  assumes "aes_ok a" "alloc_ok m" "p \<noteq> []" "length p + 37 < 2 ^ 64" "16 \<le> length rnd"
  shows "XAES_XBC_Crypt m rnd a p =
    Some (cbc_next a (xbc_text rnd p), Some (cbc_out a (xbc_text rnd p) @ [0], length (cbc_out a (xbc_text rnd p))))"
proof -
  let ?n = "length p" and ?x = "length (iv_prefix a)" and ?d = "xbc_text rnd p"
  define k where "k = xbc_rand p"
  have k: "k < 16" "16 dvd 4 + k + ?n" using xbc_align [of p] by (simp_all add: k_def)
  have d: "?d = be_bytes 4 k @ take k rnd @ p" "length ?d = 4 + k + ?n" "length (take k rnd) = k"
    using xbc_text_length [OF assms(5)] k(1) assms(5) by (simp_all add: xbc_text_def k_def)
  have x: "?x = (if nContainIV (key a) then 16 else 0)" "?x \<le> 16" using iv_prefix_length [OF assms(1)] by simp_all
  have s: "(16 - sz (4 + ?n) mod 16) mod 16 = k" "sz (4 + k + ?n) = 4 + k + ?n" "sz (?x + (4 + k + ?n)) = ?x + (4 + k + ?n)"
    "sz (?x + (4 + k + ?n) + 1) = ?x + (4 + k + ?n) + 1"
    using k assms(4) x by (simp_all add: k_def xbc_rand_def)
  obtain out where out: "m (?x + (4 + k + ?n) + 1) = Some out" "length out = ?x + (4 + k + ?n) + 1" using alloc_okD [OF assms(2)] by blast
  have iv: "mread (IV (key a)) 0 16 = Some (IV (key a))" using assms(1) by (simp add: aes_ok_def mread_Some)
  have w1: "(if nContainIV (key a) then memcpy out 0 (IV (key a)) else Some out) = Some (iv_prefix a @ drop ?x out)"
    using out(2) x assms(1) by (simp add: iv_prefix_def memcpy_Some aes_ok_def)
  have w2: "memcpy (iv_prefix a @ drop ?x out) ?x (be_bytes 4 k) = Some (iv_prefix a @ be_bytes 4 k @ drop (?x + 4) out)"
    using out(2) by (simp add: memcpy_Some add.commute)
  have w3: "memcpy (iv_prefix a @ be_bytes 4 k @ drop (?x + 4) out) (?x + 4) (take k rnd) =
      Some (iv_prefix a @ be_bytes 4 k @ take k rnd @ drop (?x + 4 + k) out)"
    using out(2) d(3) by (simp add: memcpy_Some ac_simps del: length_take)
  have "drop (?x + 4 + k + ?n) out = [last out]"
  proof -
    have "length (drop (?x + 4 + k + ?n) out) = 1" using out(2) by simp
    then obtain y where y: "drop (?x + 4 + k + ?n) out = [y]" by (metis One_nat_def length_0_conv length_Suc_conv)
    then show ?thesis by (metis last_drop last_ConsL length_drop list.distinct(1) drop_all not_less)
  qed
  then have w4: "memcpy (iv_prefix a @ be_bytes 4 k @ take k rnd @ drop (?x + 4 + k) out) (?x + 4 + k) p = Some (iv_prefix a @ ?d @ [last out])"
    using out(2) d(1,3) by (simp add: memcpy_Some ac_simps del: length_take)
  have loop: "cbc_crypt_loop (XAES_ECB_Crypt a) (iv_prefix a @ ?d @ [last out]) ?x (4 + k + ?n) (IV (key a)) =
      Some (cbc_out a ?d @ [last out], last (IV (key a) # cbc_e (aes_e a) (IV (key a)) (chunks 16 ?d)))"
    using cbc_loop [OF assms(1), of ?d "[last out]"] d(2) k assms(4) by simp
  have lo: "length (cbc_out a ?d) = ?x + (4 + k + ?n)" using cbc_out_length [OF assms(1), of ?d] d(2) k(2) by simp
  have fin: "poke (cbc_out a ?d @ [last out]) (?x + (4 + k + ?n)) 0 = Some (cbc_out a ?d @ [0])" by (rule poke_snoc [OF lo])
  show ?thesis
    unfolding XAES_XBC_Crypt_def Let_def x(1) [symmetric] s out(1) option.case iv w1 bind.bind_lunit w2 w3 w4 loop prod.case fin
    using assms(3) lo by (simp add: cbc_next_def)
qed

lemma xbc_decrypt:
  assumes "aes_ok a" "alloc_ok m" "alloc_ok m'" "length c + 1 < 2 ^ 64" "cbc_input a c = Some (Some (iv, inp))" "block iv"
    "16 dvd length inp" "16 \<le> length inp" "length inp \<le> length c"
  shows "XAES_XBC_Decrypt m m' a c =
    (let P = cbc_plain a iv inp; k = (4 + of_be 0 (take 4 P)) mod 2 ^ 32 in
     Some (keep_iv a (last (iv # chunks 16 inp)), if length P < k then None else Some (drop k P @ [0], length P - k)))"
proof -
  let ?P = "cbc_plain a iv inp"
  let ?N = "length inp"
  define k where "k = (4 + of_be 0 (take 4 ?P)) mod 2 ^ 32"
  have P: "length ?P = ?N" using cbc_plain_length [OF assms(1,6,7)] by auto
  obtain out where out: "m (?N + 1) = Some out" "length out = ?N + 1" using alloc_okD [OF assms(2)] by blast
  obtain x where x: "drop ?N out = [x]" using out(2) by (metis (no_types, lifting) add_diff_cancel_left' length_0_conv length_Suc_conv length_drop Suc_eq_plus1 One_nat_def)
  have w: "memcpy out 0 inp = Some (inp @ [x])" using out(2) x by (simp add: memcpy_Some)
  have loop: "cbc_decrypt_loop (XAES_ECB_Decrypt a) (inp @ [x]) 0 ?N iv = Some (?P @ [x], last (iv # chunks 16 inp))"
    using cbc_unloop [OF assms(1,6,7)] assms(4,9) by simp
  have h: "mread (?P @ [x]) 0 4 = Some (take 4 ?P)" using P assms(8) by (simp add: mread_Some)
  have sk: "unat (4 + of_nat (of_be 0 (take 4 ?P)) :: u32) = k"
  proof -
    have "(4 + of_nat (of_be 0 (take 4 ?P)) :: u32) = of_nat (4 + of_be 0 (take 4 ?P))" by simp
    then have "unat (4 + of_nat (of_be 0 (take 4 ?P)) :: u32) = unat (of_nat (4 + of_be 0 (take 4 ?P)) :: u32)" by (rule arg_cong)
    also have "\<dots> = k" unfolding k_def unat_of_nat by simp
    finally show ?thesis .
  qed
  have c: "c \<noteq> []" and s: "sz (?N + 1) = ?N + 1" using assms(4,8,9) by auto
  have start: "XAES_XBC_Decrypt m m' a c =
      (let a = keep_iv a (last (iv # chunks 16 inp)) in
       if ?N < k then Some (a, None)
       else case m' (sz (?N - k + 1)) of
              None \<Rightarrow> Some (a, None)
            | Some out \<Rightarrow> do {
                p \<leftarrow> mread (?P @ [x]) k (?N - k);
                out \<leftarrow> memcpy out 0 p;
                out \<leftarrow> poke out (?N - k) 0;
                Some (a, Some (out, ?N - k)) })"
    unfolding XAES_XBC_Decrypt_def assms(5) bind.bind_lunit option.case prod.case Let_def s out(1) w loop h sk using c by (simp only: if_False)
  show ?thesis
  proof (cases "?N < k")
    case True
    then show ?thesis using start P by (simp add: Let_def k_def)
  next
    case False
    obtain o' where o': "m' (?N - k + 1) = Some o'" "length o' = ?N - k + 1" using alloc_okD [OF assms(3)] by blast
    then obtain y where y: "drop (?N - k) o' = [y]" by (metis (no_types, lifting) add_diff_cancel_left' length_0_conv length_Suc_conv length_drop Suc_eq_plus1 One_nat_def)
    have "mread (?P @ [x]) k (?N - k) = Some (drop k ?P)" using False P by (simp add: mread_Some)
    moreover have "memcpy o' 0 (drop k ?P) = Some (drop k ?P @ [y])" using o'(2) P y by (simp add: memcpy_Some)
    moreover have "poke (drop k ?P @ [y]) (?N - k) 0 = Some (drop k ?P @ [0])" by (rule poke_snoc) (simp add: P)
    moreover have "sz (?N - k + 1) = ?N - k + 1" using assms(4,9) by simp
    ultimately have "XAES_XBC_Decrypt m m' a c = Some (keep_iv a (last (iv # chunks 16 inp)), Some (drop k ?P @ [0], ?N - k))"
      using start False o'(1) by (simp add: Let_def)
    then show ?thesis using False P by (simp add: Let_def k_def)
  qed
qed

text \<open>
  C39: XBC. For any random bytes, decrypting what \<open>XAES_XBC_Crypt\<close> made gives the plaintext back and leaves both contexts with
  the same initialisation vector. On arbitrary input that is a whole number of blocks \<open>XAES_XBC_Decrypt\<close> stays in bounds and
  steps the vector, also when it refuses; it skips a header and prefix of \<open>4 + h\<close> bytes modulo \<open>2 ^ 32\<close>, where \<open>h\<close> is the number
  in the header, so that a header from \<open>2 ^ 32 - 4\<close> on is accepted and the header itself is returned as plaintext.
\<close>

theorem aes_xbc:
  assumes "aes_ok a" "alloc_ok m" "alloc_ok m'" "p \<noteq> []" "length p + 37 < 2 ^ 64" "16 \<le> length rnd" "length x + 1 < 2 ^ 64"
  shows "(\<exists>c a'. XAES_XBC_Crypt m rnd a p = Some (a', Some (c @ [0], length c)) \<and>
      XAES_XBC_Decrypt m m' a c = Some (a', Some (p @ [0], length p))) \<and>
    (cbc_input a x = Some None \<and> XAES_XBC_Decrypt m m' a x = Some (a, None) \<or>
     (\<exists>iv inp. cbc_input a x = Some (Some (iv, inp)) \<and>
        (let P = cbc_plain a iv inp; k = (4 + of_be 0 (take 4 P)) mod 2 ^ 32 in
         XAES_XBC_Decrypt m m' a x =
           Some (keep_iv a (last (iv # chunks 16 inp)), if length P < k then None else Some (drop k P @ [0], length P - k)))))"
proof
  let ?d = "xbc_text rnd p"
  let ?e = "concat (cbc_e (aes_e a) (IV (key a)) (chunks 16 ?d))"
  have l: "length ?d = 4 + xbc_rand p + length p" "16 dvd length ?d" using xbc_text_length [OF assms(6)] xbc_align(2) [of p] by simp_all
  have d: "0 < length ?d" "16 \<le> length ?d" "length ?d \<le> length p + 20" using l xbc_align(1) [of p] dvd_imp_le [OF l(2)] by auto
  note po = cbc_plain_out [OF assms(1) l(2) d(1)]
  have iv: "block (IV (key a))" using assms(1) by (simp add: aes_ok_def)
  have lo: "length (cbc_out a ?d) = (if nContainIV (key a) then 16 else 0) + length ?d"
    using cbc_out_length [OF assms(1) l(2)] iv_prefix_length [OF assms(1)] by simp
  have "length (cbc_out a ?d) + 1 < 2 ^ 64" using lo d assms(5) by (simp split: if_splits)
  moreover have "length ?e \<le> length (cbc_out a ?d)" "16 dvd length ?e" "16 \<le> length ?e" using po lo l(2) d(2) by simp_all
  ultimately have dec: "XAES_XBC_Decrypt m m' a (cbc_out a ?d) =
    (let P = ?d; k = (4 + of_be 0 (take 4 P)) mod 2 ^ 32 in
     Some (keep_iv a (last (IV (key a) # cbc_e (aes_e a) (IV (key a)) (chunks 16 ?d))),
       if length P < k then None else Some (drop k P @ [0], length P - k)))"
    using xbc_decrypt [OF assms(1-3) _ _ iv, of "cbc_out a ?d" ?e] po by metis
  have k: "(4 + of_be 0 (take 4 ?d)) mod 2 ^ 32 = 4 + xbc_rand p"
    using xbc_align(1) [of p] by (simp add: xbc_text_def of_be_bytes)
  have "drop (4 + xbc_rand p) ?d = p" using xbc_align(1) [of p] assms(6) by (simp add: xbc_text_def)
  then have "XAES_XBC_Decrypt m m' a (cbc_out a ?d) = Some (cbc_next a ?d, Some (p @ [0], length p))"
    unfolding dec Let_def k l(1) cbc_next_def by simp
  then show "\<exists>c a'. XAES_XBC_Crypt m rnd a p = Some (a', Some (c @ [0], length c)) \<and>
      XAES_XBC_Decrypt m m' a c = Some (a', Some (p @ [0], length p))"
    using xbc_crypt [OF assms(1,2,4,5,6)] by (intro exI [of _ "cbc_out a ?d"] exI [of _ "cbc_next a ?d"]) simp
next
  show "cbc_input a x = Some None \<and> XAES_XBC_Decrypt m m' a x = Some (a, None) \<or>
     (\<exists>iv inp. cbc_input a x = Some (Some (iv, inp)) \<and>
        (let P = cbc_plain a iv inp; k = (4 + of_be 0 (take 4 P)) mod 2 ^ 32 in
         XAES_XBC_Decrypt m m' a x =
           Some (keep_iv a (last (iv # chunks 16 inp)), if length P < k then None else Some (drop k P @ [0], length P - k))))"
  proof (rule cbc_input [OF assms(1), of x])
    assume "cbc_input a x = Some None"
    then show ?thesis by (simp add: XAES_XBC_Decrypt_def)
  next
    fix iv inp
    assume i: "cbc_input a x = Some (Some (iv, inp))" "block iv" "16 dvd length inp" "16 \<le> length inp"
      "x = (if nContainIV (key a) then iv else []) @ inp"
    have "length inp \<le> length x" using i(5) by simp
    from xbc_decrypt [OF assms(1-3,7) i(1-4) this] i(1) show ?thesis by (simp add: Let_def)
  qed
qed

lemma aes_xbc_witness:
  "\<exists>c a'. XAES_XBC_Crypt zero_malloc (replicate 16 9) zero_aes [1, 2, 3] = Some (a', Some (c @ [0], length c)) \<and>
     XAES_XBC_Decrypt zero_malloc zero_malloc zero_aes c = Some (a', Some ([1, 2, 3, 0], length [1 :: byte, 2, 3]))"
  using aes_xbc [OF zero_aes_ok zero_aes_ok(2), of "[1, 2, 3]" "replicate 16 9" "[]"] by simp

section \<open>SIV\<close>

subsection \<open>Doubling\<close>

text \<open>The specification of RFC 4493: the block is a number, shifted left, and reduced with the constant \<open>0x87\<close>.\<close>

definition rfc_dbl :: "byte list \<Rightarrow> byte list" where
  "rfc_dbl b = be_bytes 16 ((2 * of_be 0 b mod 2 ^ 128) XOR (if 2 ^ 127 \<le> of_be 0 b then 0x87 else 0))"

text \<open>The carry chain from the last byte to the first.\<close>

fun shl :: "byte list \<Rightarrow> byte list \<times> byte" where
  "shl [] = ([], 0)"
| "shl (x # xs) = (let (ys, c) = shl xs in ((push_bit 1 x OR c) # ys, drop_bit 7 x AND 1))"

lemma of_be_shift: "of_be a xs = a * 256 ^ length xs + of_be 0 xs"
proof (induction xs arbitrary: a)
  case (Cons x xs)
  show ?case using Cons [of "a * 256 + unat x"] Cons [of "unat x"] by (simp add: algebra_simps)
qed simp

lemma shl_byte:
  assumes "c \<in> {0, 1}"
  shows "unat (push_bit 1 x OR c) + 256 * unat (drop_bit 7 x AND 1) = 2 * unat x + unat (c :: byte)"
proof -
  have x: "unat x < 256" by (rule byte_nat)
  have m: "(2 * unat x) mod 256 = 2 * (unat x mod 128)" "unat x mod 128 < 128" by (simp_all add: mult_mod_right)
  have hi: "unat (drop_bit 7 x AND 1) = unat x div 128"
  proof -
    have "unat x div 128 < 2" using x by (simp add: less_mult_imp_div_less)
    moreover have "unat (drop_bit 7 x AND 1) = unat x div 128 mod 2"
    proof -
      have "unat (drop_bit 7 x) = drop_bit 7 (unat x)" by (rule unat_drop_bit_eq)
      also have "\<dots> = unat x div 128" by (simp add: drop_bit_eq_div)
      finally show ?thesis unfolding and_one_eq unat_mod_distrib by simp
    qed
    ultimately show ?thesis by simp
  qed
  have lo: "unat (push_bit 1 x OR c) = (2 * unat x) mod 256 + unat c"
  proof (cases "c = 0")
    case False
    then have c: "c = 1" using assms by simp
    have "push_bit 1 x OR 1 = 2 * x + 1" by (simp add: or_one_eq)
    then have "unat (push_bit 1 x OR 1) = Suc (2 * unat x mod 256) mod 256" by (simp add: unat_word_ariths)
    also have "\<dots> = (2 * unat x) mod 256 + 1" using m by simp
    finally show ?thesis unfolding c by simp
  qed (simp add: unat_word_ariths mult.commute)
  have "unat x mod 128 + 128 * (unat x div 128) = unat x" by simp
  then have "(2 * unat x) mod 256 + 256 * (unat x div 128) = 2 * unat x" unfolding m(1) by linarith
  then show ?thesis using hi lo by simp
qed

lemma shl_value:
  "length (fst (shl xs)) = length xs \<and> snd (shl xs) \<in> {0, 1} \<and>
   of_be 0 (fst (shl xs)) + 256 ^ length xs * unat (snd (shl xs)) = 2 * of_be 0 xs"
proof (induction xs)
  case (Cons x xs)
  obtain ys c where ys: "shl xs = (ys, c)" by fastforce
  have ih: "length ys = length xs" "c \<in> {0, 1}" "of_be 0 ys + 256 ^ length xs * unat c = 2 * of_be 0 xs"
    using Cons ys by simp_all
  have bit: "drop_bit 7 x AND 1 \<in> {0, 1}" unfolding and_one_eq by auto
  have "of_be 0 ((push_bit 1 x OR c) # ys) + 256 ^ length (x # xs) * unat (drop_bit 7 x AND 1) =
      256 ^ length xs * (unat (push_bit 1 x OR c) + 256 * unat (drop_bit 7 x AND 1)) + of_be 0 ys"
    using of_be_shift [of "unat (push_bit 1 x OR c)" ys] ih(1) by (simp add: algebra_simps)
  also have "\<dots> = 256 ^ length xs * (2 * unat x) + (of_be 0 ys + 256 ^ length xs * unat c)"
    unfolding shl_byte [OF ih(2)] by (simp add: algebra_simps)
  also have "\<dots> = 2 * of_be 0 (x # xs)"
    unfolding ih(3) using of_be_shift [of "unat x" xs] by (simp add: algebra_simps)
  finally show ?case using ih(1) bit ys by simp
qed simp

lemma dbl_loop:
  "length xs = n \<Longrightarrow> foldl (\<lambda>(b, c) i. (b[i := push_bit 1 (b ! i) OR c], drop_bit 7 (b ! i) AND 1)) (pre @ xs, 0)
     (rev [length pre..<length pre + n]) = (pre @ fst (shl xs), snd (shl xs))"
proof (induction n arbitrary: pre xs)
  case 0
  then show ?case by simp
next
  case (Suc n)
  then obtain x ys where xs: "xs = x # ys" "length ys = n" by (cases xs) auto
  have "rev [length pre..<length pre + Suc n] = rev [length (pre @ [x])..<length (pre @ [x]) + n] @ [length pre]"
    by (simp add: upt_conv_Cons)
  then show ?case
    using Suc.IH [OF xs(2), of "pre @ [x]"] xs(1) by (simp add: case_prod_beta Let_def nth_append list_update_append)
qed


lemma of_be_inj: "length xs = k \<Longrightarrow> be_bytes k (of_be 0 xs) = xs"
proof (induction k arbitrary: xs)
  case (Suc k)
  then obtain ys y where xs: "xs = ys @ [y]" "length ys = k" by (metis length_Suc_conv_rev)
  have "(of_nat (of_be 0 ys * 256 + unat y) :: byte) = y"
  proof -
    have "(256 :: byte) = 0" by simp
    then show ?thesis by (simp only: of_nat_add of_nat_mult of_nat_numeral) simp
  qed
  moreover have "(of_be 0 ys * 256 + unat y) div 256 = of_be 0 ys" using byte_nat [of y] by simp
  ultimately show ?case using Suc.IH [OF xs(2)] by (simp add: xs(1) of_be_append)
qed simp

lemma of_be_xor_last: "of_be 0 (xs @ [x XOR c]) = of_be 0 (xs @ [x]) XOR unat c"
proof -
  have low: "(256 * n + unat y) = 256 * n OR unat y" for n and y :: byte
  proof (rule disjunctive_add)
    fix k show "\<not> bit (256 * n) k \<or> \<not> bit (unat y) k"
    proof (cases "k < 8")
      case True
      have "bit (push_bit 8 n) k \<longleftrightarrow> 8 \<le> k \<and> bit n (k - 8)" by (simp add: bit_push_bit_iff)
      then show ?thesis using True by (simp add: push_bit_eq_mult mult.commute)
    next
      case False
      then show ?thesis using byte_bit_high [of k y] by (simp add: bit_unsigned_iff)
    qed
  qed
  have "256 * n + unat (x XOR c) = (256 * n + unat x) XOR unat c" for n
  proof (rule bit_eqI)
    fix k
    have d: "bit (256 * n) k \<longrightarrow> 8 \<le> k"
    proof -
      have "bit (push_bit 8 n) k \<longrightarrow> 8 \<le> k" by (simp add: bit_push_bit_iff)
      then show ?thesis by (simp add: push_bit_eq_mult mult.commute)
    qed
    show "bit (256 * n + unat (x XOR c)) k = bit ((256 * n + unat x) XOR unat c) k"
      unfolding low using d byte_bit_high [of k x] byte_bit_high [of k c]
      by (auto simp: bit_or_iff bit_xor_iff unsigned_xor_eq bit_unsigned_iff)
  qed
  then show ?thesis by (simp add: of_be_append mult.commute)
qed


lemma dbl:
  assumes "block b"
  shows "XAES_DBL b = rfc_dbl b" "block (XAES_DBL b)"
proof -
  obtain ys c where ys: "shl b = (ys, c)" by fastforce
  have v: "length ys = 16" "c \<in> {0, 1}" "of_be 0 ys + 2 ^ 128 * unat c = 2 * of_be 0 b" using shl_value [of b] ys assms by simp_all
  have "of_be 0 ys < 2 ^ 128" using of_be_less [of 0 ys] v(1) by simp
  then have "(of_be 0 ys + 2 ^ 128 * unat c) mod 2 ^ 128 = of_be 0 ys" by (simp only: mod_mult_self2 mod_less)
  then have m: "2 * of_be 0 b mod 2 ^ 128 = of_be 0 ys" unfolding v(3) .
  have "c \<noteq> 0 \<longleftrightarrow> 2 ^ 127 \<le> of_be 0 b" using v(2,3) \<open>of_be 0 ys < 2 ^ 128\<close> by auto
  note m = m this
  have loop: "XAES_DBL b = (if c \<noteq> 0 then ys[15 := ys ! 15 XOR 0x87] else ys)"
    using dbl_loop [of b 16 "[]"] assms ys by (simp add: XAES_DBL_def)
  show "XAES_DBL b = rfc_dbl b"
  proof (cases "c = 0")
    case True
    then show ?thesis using loop m of_be_inj [OF v(1)] by (simp add: rfc_dbl_def)
  next
    case False
    obtain zs z where ys': "ys = zs @ [z]" using v(1) by (cases ys rule: rev_cases) auto
    then have zs: "ys = zs @ [z]" "length zs = 15" using v(1) by simp_all
    have "be_bytes 16 (of_be 0 ys XOR 0x87) = zs @ [z XOR 0x87]"
      using of_be_xor_last [of zs z "0x87"] of_be_inj [of "zs @ [z XOR 0x87]" 16] zs by simp
    moreover have "ys[15 := ys ! 15 XOR 0x87] = zs @ [z XOR 0x87]" using zs by (simp add: nth_append list_update_append)
    ultimately show ?thesis using loop False m by (simp add: rfc_dbl_def)
  qed
  show "block (XAES_DBL b)" using loop v(1) by simp
qed

subsection \<open>CMAC and S2V\<close>

text \<open>RFC 4493, for the block function \<open>E\<close>: all blocks but the last are chained, the last is masked with a subkey.\<close>

definition rfc_cmac :: "(byte list \<Rightarrow> byte list) \<Rightarrow> byte list \<Rightarrow> byte list" where
  "rfc_cmac E d =
     (let K1 = rfc_dbl (E (replicate 16 0)); K2 = rfc_dbl K1;
          n = max 1 ((length d + 15) div 16);
          M = drop ((n - 1) * 16) d;
          last_block = (if length M = 16 then xorb M K1 else xorb (M @ 0x80 # replicate (15 - length M) 0) K2)
      in E (xorb (foldl (\<lambda>X b. E (xorb X b)) (replicate 16 0) (chunks 16 (take ((n - 1) * 16) d))) last_block))"

text \<open>RFC 5297 with no associated data, or with the nonce \<open>nonce\<close>.\<close>

definition rfc_s2v :: "(byte list \<Rightarrow> byte list) \<Rightarrow> byte list option \<Rightarrow> byte list \<Rightarrow> byte list" where
  "rfc_s2v E nonce p =
     (let D = rfc_cmac E (replicate 16 0);
          D = (case nonce of None \<Rightarrow> D | Some v \<Rightarrow> xorb (rfc_dbl D) (rfc_cmac E v));
          n = length p
      in if 16 \<le> n then rfc_cmac E (take (n - 16) p @ xorb (drop (n - 16) p) D)
         else rfc_cmac E (xorb (p @ 0x80 # replicate (15 - n) 0) (rfc_dbl D)))"

abbreviation cmac_e :: "xaes \<Rightarrow> byte list \<Rightarrow> byte list" where "cmac_e a \<equiv> \<lambda>b. the (cmac_cipher a b)"

lemma cmac_cipher:
  assumes "aes_ok a" "block b"
  shows "cmac_cipher a b = Some (cmac_e a b)" "block (cmac_e a b)"
proof -
  obtain nr where nr: "nNB (ctx a) = 4" "nNR (ctx a) = of_nat nr" "nr \<in> {10, 12, 14}" "unat (nNR (ctx a)) = nr"
    by (rule aes_ok_rounds [OF assms(1)])
  have "cmac_cipher a b = Some (enc_block (cmacRoundKey (ctx a)) nr b)" "block (enc_block (cmacRoundKey (ctx a)) nr b)"
    using cipher_block [OF assms(2), of nr "cmacRoundKey (ctx a)"] enc_block_length [OF assms(2), of nr "cmacRoundKey (ctx a)"]
      nr assms(1) by (auto simp: cmac_cipher_def aes_ok_def)
  then show "cmac_cipher a b = Some (cmac_e a b)" "block (cmac_e a b)" by simp_all
qed

lemma cmac_loop:
  assumes "aes_ok a"
  shows "block X \<Longrightarrow> 16 * n \<le> length d \<Longrightarrow>
    cmac_loop a d X [0..<n] = Some (foldl (\<lambda>X b. cmac_e a (xorb X b)) X (chunks 16 (take (16 * n) d))) \<and>
    block (foldl (\<lambda>X b. cmac_e a (xorb X b)) X (chunks 16 (take (16 * n) d)))"
proof (induction n)
  case 0
  then show ?case by simp
next
  case (Suc n)
  let ?f = "foldl (\<lambda>X b. cmac_e a (xorb X b)) X"
  have n: "block X" "16 * n \<le> length d" using Suc.prems by simp_all
  have l: "block (take 16 (drop (16 * n) d))" "16 dvd length (take (16 * n) d)" using Suc.prems by simp_all
  have "take (16 * Suc n) d = take (16 * n) d @ take 16 (drop (16 * n) d)"
    by (metis mult_Suc_right add.commute take_add)
  moreover have "chunks 16 (take (16 * n) d @ take 16 (drop (16 * n) d)) = chunks 16 (take (16 * n) d) @ [take 16 (drop (16 * n) d)]"
    using chunks_append [OF l(2)] chunks_cons [OF l(1), of "[]"] by simp
  ultimately have ch: "chunks 16 (take (16 * Suc n) d) = chunks 16 (take (16 * n) d) @ [take 16 (drop (16 * n) d)]" by simp
  have ih: "cmac_loop a d X [0..<n] = Some (?f (chunks 16 (take (16 * n) d)))" "block (?f (chunks 16 (take (16 * n) d)))"
    using Suc.IH [OF n] by simp_all
  have step: "cmac_loop a d X (is @ [i]) = do { X \<leftarrow> cmac_loop a d X is; cmac_loop a d X [i] }" for X i "is"
    by (induction "is" arbitrary: X) (simp_all add: bind_assoc)
  have b: "block (xorb (?f (chunks 16 (take (16 * n) d))) (take 16 (drop (16 * n) d)))" using ih(2) l(1) by simp
  have "cmac_loop a d X [0..<Suc n] = cmac_cipher a (xorb (?f (chunks 16 (take (16 * n) d))) (take 16 (drop (16 * n) d)))"
    using ih(1) Suc.prems(2) by (simp add: step mread_Some XAES_ApplyXOR_def mult.commute)
  then show ?case using cmac_cipher [OF assms b] unfolding ch by simp
qed


lemma pad_zero: "length p < 16 \<Longrightarrow> memcpy (replicate 16 0) 0 p = Some (p @ 0 # replicate (15 - length p) (0 :: byte))"
proof -
  assume l: "length p < 16"
  then have "16 - length p = Suc (15 - length p)" by simp
  then have "replicate (16 - length p) (0 :: byte) = 0 # replicate (15 - length p) 0" by (simp only: replicate_Suc)
  then show ?thesis using l by (simp add: memcpy_Some)
qed

lemma cmac:
  assumes "aes_ok a" "length d + 16 < 2 ^ 64"
  shows "XAES_CMAC a d = Some (rfc_cmac (cmac_e a) d)" "block (rfc_cmac (cmac_e a) d)"
proof -
  define n where "n = max 1 ((length d + 15) div 16)"
  let ?M = "drop ((n - 1) * 16) d"
  let ?L = "length d - (n - 1) * 16"
  have z: "block (replicate 16 (0 :: byte))" by simp
  note L = cmac_cipher [OF assms(1) z]
  have K: "XAES_CMAC_SubKeys a = Some (rfc_dbl (cmac_e a (replicate 16 0)), rfc_dbl (rfc_dbl (cmac_e a (replicate 16 0))))"
    "block (rfc_dbl (cmac_e a (replicate 16 0)))" "block (rfc_dbl (rfc_dbl (cmac_e a (replicate 16 0))))"
  proof -
    obtain c where c: "cmac_cipher a (replicate 16 0) = Some c" "block c" using L by simp
    show "XAES_CMAC_SubKeys a = Some (rfc_dbl (cmac_e a (replicate 16 0)), rfc_dbl (rfc_dbl (cmac_e a (replicate 16 0))))"
      "block (rfc_dbl (cmac_e a (replicate 16 0)))" "block (rfc_dbl (rfc_dbl (cmac_e a (replicate 16 0))))"
      using dbl [OF c(2)] dbl [OF dbl(2) [OF c(2)]] by (simp_all add: XAES_CMAC_SubKeys_def c(1))
  qed
  have n: "(if sz (length d + 16 - 1) div 16 = 0 then 1 else sz (length d + 16 - 1) div 16) = n" "0 < n"
    using assms(2) by (auto simp: n_def)
  have le: "16 * (n - 1) \<le> length d" "?L \<le> 16" "length d \<noteq> 0 \<longrightarrow> 0 < ?L" by (auto simp: n_def max_def) 
  have X: "cmac_loop a d (replicate 16 0) [0..<n - 1] = Some (foldl (\<lambda>X b. cmac_e a (xorb X b)) (replicate 16 0) (chunks 16 (take ((n - 1) * 16) d)))"
    "block (foldl (\<lambda>X b. cmac_e a (xorb X b)) (replicate 16 0) (chunks 16 (take ((n - 1) * 16) d)))"
    using cmac_loop [OF assms(1) z le(1)] by (simp_all add: mult.commute)
  define lb where "lb = (if length ?M = 16 then xorb ?M (rfc_dbl (cmac_e a (replicate 16 0)))
      else xorb (?M @ 0x80 # replicate (15 - length ?M) 0) (rfc_dbl (rfc_dbl (cmac_e a (replicate 16 0)))))"
  have lM: "length ?M = ?L" by simp
  have "block lb"
  proof (cases "?L = 16")
    case False
    then have "length (?M @ 0x80 # replicate (15 - length ?M) 0) = 16" using le(2) by simp
    then show ?thesis using False K(3) by (simp add: lb_def del: length_append)
  qed (use K(2) in \<open>simp add: lb_def\<close>)
  have last: "(if ?L = 16 \<and> 0 < length d
        then do { b \<leftarrow> mread d ((n - 1) * 16) 16; Some (XAES_ApplyXOR b (rfc_dbl (cmac_e a (replicate 16 0)))) }
        else do {
          b \<leftarrow> mread d ((n - 1) * 16) ?L;
          b \<leftarrow> memcpy (replicate 16 0) 0 b;
          b \<leftarrow> poke b ?L 0x80;
          Some (XAES_ApplyXOR b (rfc_dbl (rfc_dbl (cmac_e a (replicate 16 0))))) }) = Some lb"
  proof (cases "?L = 16")
    case True
    then have "mread d ((n - 1) * 16) 16 = Some ?M" "0 < length d" by (auto simp: mread_def)
    then show ?thesis using True by (simp add: lb_def XAES_ApplyXOR_def)
  next
    case False
    then have 1: "mread d ((n - 1) * 16) ?L = Some ?M" "?L < 16" using le by (auto simp: mread_def mult.commute)
    then have "memcpy (replicate 16 0) 0 ?M = Some (?M @ 0 # replicate (15 - ?L) 0)" using pad_zero [of ?M] by simp
    moreover have "poke (?M @ 0 # replicate (15 - ?L) 0) ?L 0x80 = Some (?M @ 0x80 # replicate (15 - ?L) 0)"
      by (simp add: poke_def list_update_append)
    ultimately show ?thesis using False 1 by (simp add: lb_def XAES_ApplyXOR_def)
  qed
  have b: "block (xorb (foldl (\<lambda>X b. cmac_e a (xorb X b)) (replicate 16 0) (chunks 16 (take ((n - 1) * 16) d))) lb)"
    using X(2) \<open>block lb\<close> by simp
  have r: "rfc_cmac (cmac_e a) d = cmac_e a (xorb (foldl (\<lambda>X b. cmac_e a (xorb X b)) (replicate 16 0) (chunks 16 (take ((n - 1) * 16) d))) lb)"
    by (simp only: rfc_cmac_def Let_def n_def [symmetric] lb_def)
  show "XAES_CMAC a d = Some (rfc_cmac (cmac_e a) d)"
    unfolding XAES_CMAC_def K(1) bind.bind_lunit prod.case Let_def n(1) X(1) last r
    using cmac_cipher(1) [OF assms(1) b] by (simp add: XAES_ApplyXOR_def)
  show "block (rfc_cmac (cmac_e a) d)" unfolding r using cmac_cipher(2) [OF assms(1) b] .
qed

definition s2v :: "xaes \<Rightarrow> byte list \<Rightarrow> byte list" where
  "s2v a = rfc_s2v (cmac_e a) (if mode a = XAES_MODE_SIV_NONCE then Some (IV (key a)) else None)"

lemma s2v:
  assumes "aes_ok a" "alloc_ok m" "length p + 16 < 2 ^ 64"
  shows "XAES_S2V m a p = Some (XSTDOK, s2v a p)" "block (s2v a p)"
proof -
  let ?C = "rfc_cmac (cmac_e a)"
  have iv: "block (IV (key a))" using assms(1) by (simp add: aes_ok_def)
  have c16: "XAES_CMAC a b = Some (?C b)" "block (?C b)" if "block b" for b
    using cmac [OF assms(1), of b] that by simp_all
  define D where "D = (case (if mode a = XAES_MODE_SIV_NONCE then Some (IV (key a)) else None) of None \<Rightarrow> ?C (replicate 16 0)
      | Some v \<Rightarrow> xorb (rfc_dbl (?C (replicate 16 0))) (?C v))"
  have z: "block (replicate 16 (0 :: byte))" by simp
  have D: "mode a = XAES_MODE_SIV_NONCE \<Longrightarrow> xorb (rfc_dbl (?C (replicate 16 0))) (?C (IV (key a))) = D"
    "mode a \<noteq> XAES_MODE_SIV_NONCE \<Longrightarrow> ?C (replicate 16 0) = D" "block D"
    using c16 [OF z] c16 [OF iv] dbl [OF c16(2) [OF z]] by (simp_all add: D_def)
  note start = c16(1) [OF z] c16(1) [OF iv] dbl(1) [OF c16(2) [OF z]]
  have "XAES_S2V m a p = Some (XSTDOK, s2v a p) \<and> block (s2v a p)"
  proof (cases "16 \<le> length p")
    case True
    obtain T where T: "m (length p) = Some T" "length T = length p" using alloc_okD [OF assms(2)] by blast
    let ?P = "take (length p - 16) p" and ?Q = "drop (length p - 16) p"
    have w: "memcpy T 0 p = Some p" using T(2) by (simp add: memcpy_Some)
    have r: "mread p (length p - 16) 16 = Some ?Q" using True by (simp add: mread_Some)
    have w2: "memcpy p (length p - 16) (xorb ?Q D) = Some (?P @ xorb ?Q D)" using True D(3) by (simp add: memcpy_Some)
    have s: "s2v a p = ?C (?P @ xorb ?Q D)" using True by (simp add: s2v_def rfc_s2v_def D_def Let_def)
    have l: "length (?P @ xorb ?Q D) + 16 < 2 ^ 64" using True D(3) assms(3) by simp
    show ?thesis
      using start D(1,2) True T(1) w r w2 cmac [OF assms(1) l] unfolding s
      by (cases "mode a = XAES_MODE_SIV_NONCE") (simp_all add: XAES_S2V_def XAES_ApplyXOR_def Let_def)
  next
    case False
    let ?T = "xorb (p @ 0x80 # replicate (15 - length p) 0) (rfc_dbl D)"
    have w: "poke (p @ 0 # replicate (15 - length p) 0) (length p) 0x80 = Some (p @ 0x80 # replicate (15 - length p) 0)"
      by (simp add: poke_def list_update_append)
    have "length (p @ 0x80 # replicate (15 - length p) (0 :: byte)) = 16" using False by simp
    then have T: "block ?T" using dbl [OF D(3)] by (simp del: length_append)
    have s: "s2v a p = ?C ?T" using False by (simp add: s2v_def rfc_s2v_def D_def Let_def)
    show ?thesis
      using start D(1,2) False pad_zero [of p] w c16 [OF T] dbl [OF D(3)] unfolding s
      by (cases "mode a = XAES_MODE_SIV_NONCE") (simp_all add: XAES_S2V_def XAES_ApplyXOR_def Let_def)
  qed
  then show "XAES_S2V m a p = Some (XSTDOK, s2v a p)" "block (s2v a p)" by blast+
qed

subsection \<open>Counter mode\<close>

definition ctr_next :: "byte list \<Rightarrow> byte list" where
  "ctr_next c = ctr_incr c [15, 14, 13, 12]"

lemma ctr_next_length [simp]: "length (ctr_next c) = length c"
proof -
  have "length (ctr_incr c js) = length c" for js by (induction js arbitrary: c) (simp_all add: Let_def)
  then show ?thesis by (simp only: ctr_next_def)
qed

function ctr_xor :: "(byte list \<Rightarrow> byte list) \<Rightarrow> byte list \<Rightarrow> byte list \<Rightarrow> byte list" where
  "ctr_xor E c p = (if p = [] then [] else xorb (take 16 p) (E c) @ ctr_xor E (ctr_next c) (drop 16 p))"
  by pat_completeness auto
termination by (relation "measure (\<lambda>(_, _, p). length p)") (auto simp: length_greater_0_conv [symmetric] simp del: length_greater_0_conv)

declare ctr_xor.simps [simp del]

lemma ctr_step: "p \<noteq> [] \<Longrightarrow> ctr_xor E c p = xorb (take 16 p) (E c) @ ctr_xor E (ctr_next c) (drop 16 p)"
  by (subst ctr_xor.simps) simp

lemma ctr_xor_length:
  assumes "\<And>c. block c \<Longrightarrow> block (E c)"
  shows "block c \<Longrightarrow> length (ctr_xor E c p) = length p"
proof (induction "length p" arbitrary: c p rule: less_induct)
  case less
  show ?case
  proof (cases "p = []")
    case False
    then have "length (ctr_xor E (ctr_next c) (drop 16 p)) = length (drop 16 p)" using less by simp
    then show ?thesis using False assms [OF less.prems] by (subst ctr_xor.simps) simp
  qed (simp add: ctr_xor.simps)
qed

lemma ctr_involution:
  assumes "\<And>c. block c \<Longrightarrow> block (E c)"
  shows "block c \<Longrightarrow> ctr_xor E c (ctr_xor E c p) = p"
proof (induction "length p" arbitrary: c p rule: less_induct)
  case less
  show ?case
  proof (cases "p = []")
    case False
    let ?h = "xorb (take 16 p) (E c)" and ?t = "ctr_xor E (ctr_next c) (drop 16 p)"
    have E: "block (E c)" using assms less.prems by blast
    have e: "ctr_xor E c p = ?h @ ?t" using False by (subst ctr_xor.simps) simp
    have t: "length ?t = length p - 16" using ctr_xor_length [where E = E and c = "ctr_next c" and p = "drop 16 p", OF assms] less.prems by simp
    have hl: "length ?h = min 16 (length p)" using E by simp
    have h: "take 16 (?h @ ?t) = ?h" "drop 16 (?h @ ?t) = ?t" "?h @ ?t \<noteq> []"
      using hl t False by (auto simp: min_def split: if_splits)
    have "ctr_xor E c (?h @ ?t) = xorb ?h (E c) @ ctr_xor E (ctr_next c) ?t"
      using ctr_step [OF h(3), of E c] unfolding h(1,2) .
    also have "ctr_xor E (ctr_next c) ?t = drop 16 p" by (rule less.hyps) (use less.prems False in simp_all)
    also have "xorb ?h (E c) = take 16 p"
    proof -
      have "xorb (xorb xs ks) ks = xs" if "length xs \<le> length ks" for xs ks :: "byte list"
        using that by (induction xs ks rule: list_induct2') (simp_all add: xor.assoc)
      then show ?thesis using E by simp
    qed
    finally show ?thesis unfolding e by simp
  qed (simp add: ctr_xor.simps)
qed

text \<open>The loop of the code, on an output block that has room for the rest of the input.\<close>

lemma ctr_loop:
  assumes "\<And>c. block c \<Longrightarrow> f c = Some (E c) \<and> block (E c)"
  shows "block c \<Longrightarrow> off \<le> length inp \<Longrightarrow> length pre = base + off \<Longrightarrow> length mid = length inp - off \<Longrightarrow>
    ctr_loop f c inp (pre @ mid @ post) base off = Some (pre @ ctr_xor E c (drop off inp) @ post)"
proof (induction "length inp - off" arbitrary: c off pre mid rule: less_induct)
  case less
  show ?case
  proof (cases "off < length inp")
    case True
    define k where "k = min (length inp - off) 16"
    have k: "0 < k" "off + k \<le> length inp" "k \<le> 16" using True by (auto simp: k_def)
    let ?b = "take k (drop off inp)"
    have b: "?b = take 16 (drop off inp)" "length ?b = k" by (simp_all add: min_def k_def)
    have E: "f c = Some (E c)" "block (E c)" using assms [OF less.prems(1)] by simp_all
    have x: "length (xorb ?b (E c)) = k" using E(2) b(2) k(3) by (simp del: length_take)
    have w: "memcpy (pre @ mid @ post) (base + off) (xorb ?b (E c)) = Some ((pre @ xorb ?b (E c)) @ drop k mid @ post)"
      using less.prems(3,4) k x by (simp add: memcpy_Some)
    have r: "mread inp off k = Some ?b" using k by (simp add: mread_Some)
    have "ctr_loop f (ctr_next c) inp ((pre @ xorb ?b (E c)) @ drop k mid @ post) base (off + k) =
        Some ((pre @ xorb ?b (E c)) @ ctr_xor E (ctr_next c) (drop (off + k) inp) @ post)"
    proof (rule less.hyps)
      show "length inp - (off + k) < length inp - off" using k by simp
      show "length (pre @ xorb ?b (E c)) = base + (off + k)" using less.prems(3) x by simp
      show "length (drop k mid) = length inp - (off + k)" using less.prems(4) by simp
    qed (use less.prems(1) k in simp_all)
    moreover have "drop (off + k) inp = drop 16 (drop off inp)" by (simp add: min_def add.commute k_def)
    moreover have "ctr_xor E c (drop off inp) = xorb ?b (E c) @ ctr_xor E (ctr_next c) (drop 16 (drop off inp))"
      using True unfolding b(1) by (subst ctr_xor.simps) simp
    moreover have "ctr_loop f c inp (pre @ mid @ post) base off =
        ctr_loop f (ctr_next c) inp ((pre @ xorb ?b (E c)) @ drop k mid @ post) base (off + k)"
      using True E(1) r w by (subst ctr_loop.simps) (simp add: Let_def ctr_next_def k_def [symmetric] del: ctr_incr.simps)
    ultimately show ?thesis by simp
  next
    case False
    then show ?thesis using less.prems by (subst ctr_loop.simps) (simp add: ctr_xor.simps)
  qed
qed


text \<open>The vector with the two bits cleared that start the counter.\<close>

definition ctr_start :: "byte list \<Rightarrow> byte list" where
  "ctr_start siv = (siv[8 := siv ! 8 AND 0x7F])[12 := siv ! 12 AND 0x7F]"

lemma siv_ctr:
  assumes "aes_ok a" "block siv" "length pre = base" "length mid = length inp"
  shows "XAES_SIV_CTR a siv inp (pre @ mid @ post) base = Some (pre @ ctr_xor (aes_e a) (ctr_start siv) inp @ post)"
proof -
  have "XAES_ECB_Crypt a c = Some (aes_e a c) \<and> block (aes_e a c)" if c: "block c" for c
    using aes.enc_ok [OF assms(1) c] by auto
  then have "ctr_loop (XAES_ECB_Crypt a) (ctr_start siv) inp (pre @ mid @ post) base 0 =
      Some (pre @ ctr_xor (aes_e a) (ctr_start siv) (drop 0 inp) @ post)"
    using assms(2-4) by (intro ctr_loop) (simp_all only: ctr_start_def length_list_update add_0_right diff_zero le0)
  moreover have "XAES_SIV_CTR a siv inp (pre @ mid @ post) base = ctr_loop (XAES_ECB_Crypt a) (ctr_start siv) inp (pre @ mid @ post) base 0"
    by (simp add: XAES_SIV_CTR_def ctr_start_def Let_def)
  ultimately show ?thesis unfolding drop_0 by (rule trans [rotated])
qed

lemma aes_e_block: "aes_ok a \<Longrightarrow> block c \<Longrightarrow> block (aes_e a c)"
  using aes.enc_ok [of a c] by auto

lemma aes_ctr:
  assumes "aes_ok a" "block c"
  shows "length (ctr_xor (aes_e a) c p) = length p" "ctr_xor (aes_e a) c (ctr_xor (aes_e a) c p) = p"
  using ctr_xor_length [of "aes_e a" c p] ctr_involution [of "aes_e a" c p] aes_e_block [OF assms(1)] assms(2) by blast+

lemma ctr_start_length [simp]: "length (ctr_start v) = length v"
  by (simp add: ctr_start_def)

lemma time_equal: "length a = length b \<Longrightarrow> XAES_ConstTimeEqual a b \<longleftrightarrow> a = b"
proof -
  have "foldl (\<lambda>d (x, y). d OR (x XOR y)) d (zip a b) = 0 \<longleftrightarrow> d = 0 \<and> a = b" if "length a = length b" for d :: byte and a b
    using that
  proof (induction a b arbitrary: d rule: list_induct2)
    case (Cons x xs y ys)
    have "x XOR y = 0 \<longleftrightarrow> x = y" by (metis xor.assoc xor.left_neutral xor_self_eq)
    then have "d OR (x XOR y) = 0 \<longleftrightarrow> d = 0 \<and> x = y" by (simp add: or_eq_0_iff)
    then show ?case using Cons.IH [of "d OR (x XOR y)"] by auto
  qed simp
  then show "length a = length b \<Longrightarrow> XAES_ConstTimeEqual a b \<longleftrightarrow> a = b" by (simp add: XAES_ConstTimeEqual_def)
qed

lemma split_last_byte:
  assumes "length out = n + 1"
  obtains d x where "out = d @ [x]" "length d = n"
  using assms by (cases out rule: rev_cases) auto

lemma siv_crypt:
  assumes "aes_ok a" "alloc_ok m" "alloc_ok m'" "length p + 17 < 2 ^ 64"
  shows "XAES_SIV_Crypt m m' a p =
    Some (Some (s2v a p @ ctr_xor (aes_e a) (ctr_start (s2v a p)) p @ [0], 16 + length p))"
proof -
  have l: "length p + 16 < 2 ^ 64" using assms(4) by simp
  note s = s2v [OF assms(1,3) l]
  let ?x = "ctr_xor (aes_e a) (ctr_start (s2v a p)) p"
  have x: "length ?x = length p"
    using aes_ctr(1) [OF assms(1)] s(2) by simp
  obtain out where out: "m (16 + length p + 1) = Some out" "length out = 16 + length p + 1" using alloc_okD [OF assms(2)] by blast
  obtain d z where d: "out = d @ [z]" "length d = 16 + length p" using split_last_byte [OF out(2)] by metis
  have w: "memcpy out 0 (s2v a p) = Some (s2v a p @ drop 16 d @ [z])" using d s(2) by (simp add: memcpy_Some)
  have c: "XAES_SIV_CTR a (s2v a p) p (s2v a p @ drop 16 d @ [z]) 16 = Some (s2v a p @ ?x @ [z])"
    using d(2) by (intro siv_ctr [OF assms(1) s(2) s(2)]) simp
  have f: "poke (s2v a p @ ?x @ [z]) (16 + length p) 0 = Some (s2v a p @ ?x @ [0])"
    using poke_snoc [of "s2v a p @ ?x" "16 + length p" z 0] x s(2) by simp
  show ?thesis
    unfolding XAES_SIV_Crypt_def Let_def out(1) option.case s(1) bind.bind_lunit prod.case w c f
    using assms(4) by simp
qed

lemma siv_decrypt:
  assumes "aes_ok a" "alloc_ok m" "alloc_ok m'" "16 < length c" "length c < 2 ^ 64"
  shows "XAES_SIV_Decrypt m m' a c =
    (let p = ctr_xor (aes_e a) (ctr_start (take 16 c)) (drop 16 c) in
     Some (if s2v a p = take 16 c then Some (p @ [0], length p) else None))"
proof -
  let ?v = "take 16 c" and ?i = "drop 16 c" and ?n = "length c - 16"
  let ?p = "ctr_xor (aes_e a) (ctr_start ?v) ?i"
  have v: "block ?v" using assms(4) by simp
  have x: "length ?p = ?n"
    using aes_ctr(1) [OF assms(1)] v by simp
  have l: "length ?p + 16 < 2 ^ 64" using x assms(4,5) by simp
  note s = s2v [OF assms(1,3) l]
  obtain out where out: "m (?n + 1) = Some out" "length out = ?n + 1" using alloc_okD [OF assms(2)] by blast
  obtain d z where d: "out = d @ [z]" "length d = ?n" using split_last_byte [OF out(2)] by metis
  have r: "mread c 0 16 = Some ?v" using assms(4) by (simp add: mread_Some)
  have z: "sz (length ?i + 1) = ?n + 1" using assms(5) by simp
  have w: "XAES_SIV_CTR a ?v ?i out 0 = Some (?p @ [z])"
    using siv_ctr [OF assms(1) v, of "[]" 0 d ?i "[z]"] d by simp
  have r2: "mread (?p @ [z]) 0 (length ?i) = Some ?p" using x by (simp add: mread_Some)
  have f: "poke (?p @ [z]) (length ?i) 0 = Some (?p @ [0])" by (rule poke_snoc) (simp add: x)
  have e: "XAES_ConstTimeEqual (s2v a ?p) ?v \<longleftrightarrow> s2v a ?p = ?v" by (rule time_equal) (simp only: s(2) v)
  show ?thesis
    unfolding XAES_SIV_Decrypt_def Let_def r bind.bind_lunit z out(1) option.case w r2 s(1) prod.case e f
    using assms(4) x by simp
qed

text \<open>
  C40: SIV. \<open>XAES_SIV_Crypt\<close> prepends the synthetic vector of RFC 5297 (S2V over the CMAC of RFC 4493, with the nonce as the one
  string of associated data in nonce mode) and stays in bounds. \<open>XAES_SIV_Decrypt\<close> stays in bounds on arbitrary input and
  accepts exactly the outputs of \<open>XAES_SIV_Crypt\<close> for non-empty plaintexts: the encryption of the empty plaintext is refused.
\<close>

theorem aes_siv:
  assumes "aes_ok a" "alloc_ok m" "alloc_ok m'" "length p + 17 < 2 ^ 64" "length x < 2 ^ 64 - 1"
  shows "(\<exists>v c. XAES_SIV_Crypt m m' a p = Some (Some (v @ c @ [0], length (v @ c))) \<and> length c = length p \<and>
      v = rfc_s2v (cmac_e a) (if mode a = XAES_MODE_SIV_NONCE then Some (IV (key a)) else None) p) \<and>
    (\<exists>r. XAES_SIV_Decrypt m m' a x = Some r \<and> (\<forall>s. r = Some s \<longrightarrow> (\<exists>q. s = (q @ [0], length q))) \<and>
      (\<forall>q. r = Some (q @ [0], length q) \<longleftrightarrow> q \<noteq> [] \<and> XAES_SIV_Crypt m m' a q = Some (Some (x @ [0], length x))))"
proof
  have l: "length p + 16 < 2 ^ 64" using assms(4) by simp
  note s = s2v [OF assms(1,3) l]
  have "length (ctr_xor (aes_e a) (ctr_start (s2v a p)) p) = length p"
    using aes_ctr(1) [OF assms(1)] s(2) by simp
  then show "\<exists>v c. XAES_SIV_Crypt m m' a p = Some (Some (v @ c @ [0], length (v @ c))) \<and> length c = length p \<and>
      v = rfc_s2v (cmac_e a) (if mode a = XAES_MODE_SIV_NONCE then Some (IV (key a)) else None) p"
    using siv_crypt [OF assms(1-4)] s(2)
    by (intro exI [of _ "s2v a p"] exI [of _ "ctr_xor (aes_e a) (ctr_start (s2v a p)) p"]) (simp add: s2v_def)
next
  show "\<exists>r. XAES_SIV_Decrypt m m' a x = Some r \<and> (\<forall>s. r = Some s \<longrightarrow> (\<exists>q. s = (q @ [0], length q))) \<and>
      (\<forall>q. r = Some (q @ [0], length q) \<longleftrightarrow> q \<noteq> [] \<and> XAES_SIV_Crypt m m' a q = Some (Some (x @ [0], length x)))"
  proof -
    have crypt: "XAES_SIV_Crypt m m' a q = Some (Some (x @ [0], length x)) \<longleftrightarrow>
        length q + 17 < 2 ^ 64 \<and> x = s2v a q @ ctr_xor (aes_e a) (ctr_start (s2v a q)) q" for q
    proof (cases "length q + 17 < 2 ^ 64")
      case True
      have "length q + 16 < 2 ^ 64" using True by simp
      then have v: "block (s2v a q)" using s2v(2) [OF assms(1,3)] by blast
      have "length (ctr_xor (aes_e a) (ctr_start (s2v a q)) q) = length q"
        using aes_ctr(1) [OF assms(1)] v by simp
      then show ?thesis using siv_crypt [OF assms(1-3) True] v True by auto
    next
      case False
      then show ?thesis by (simp add: XAES_SIV_Crypt_def)
    qed
    show ?thesis
    proof (cases "16 < length x")
      case False
      have "\<not> (q \<noteq> [] \<and> XAES_SIV_Crypt m m' a q = Some (Some (x @ [0], length x)))" for q
      proof
        assume q: "q \<noteq> [] \<and> XAES_SIV_Crypt m m' a q = Some (Some (x @ [0], length x))"
        then have l: "length q + 16 < 2 ^ 64" and e: "x = s2v a q @ ctr_xor (aes_e a) (ctr_start (s2v a q)) q"
          unfolding crypt by simp_all
        have v: "block (s2v a q)" using s2v(2) [OF assms(1,3) l] .
        have "length (ctr_xor (aes_e a) (ctr_start (s2v a q)) q) = length q"
          using aes_ctr(1) [OF assms(1)] v by simp
        then have "length x = 16 + length q" using v by (subst e) simp
        then show False using False q by simp
      qed
      then show ?thesis using False by (simp add: XAES_SIV_Decrypt_def)
    next
      case True
      let ?v = "take 16 x" and ?i = "drop 16 x"
      define p0 where "p0 = ctr_xor (aes_e a) (ctr_start ?v) ?i"
      have v: "block ?v" using True by simp
      have undo: "ctr_xor (aes_e a) (ctr_start ?v) p0 = ?i" unfolding p0_def using aes_ctr(2) [OF assms(1)] v by simp
      have p0: "length p0 = length x - 16"
        using aes_ctr(1) [OF assms(1)] v by (simp add: p0_def)
      have dec: "XAES_SIV_Decrypt m m' a x = Some (if s2v a p0 = ?v then Some (p0 @ [0], length p0) else None)"
        using siv_decrypt [OF assms(1-3) True] assms(5) by (simp add: Let_def p0_def)
      have "s2v a p0 = ?v \<and> q = p0 \<longleftrightarrow> q \<noteq> [] \<and> XAES_SIV_Crypt m m' a q = Some (Some (x @ [0], length x))" for q
      proof
        assume a: "s2v a p0 = ?v \<and> q = p0"
        moreover have "length q + 17 < 2 ^ 64" "q \<noteq> []" using a p0 True assms(5) by auto
        ultimately show "q \<noteq> [] \<and> XAES_SIV_Crypt m m' a q = Some (Some (x @ [0], length x))"
          unfolding crypt using undo by simp
      next
        assume b: "q \<noteq> [] \<and> XAES_SIV_Crypt m m' a q = Some (Some (x @ [0], length x))"
        then have l: "length q + 16 < 2 ^ 64" and e: "x = s2v a q @ ctr_xor (aes_e a) (ctr_start (s2v a q)) q"
          unfolding crypt by simp_all
        have vq: "block (s2v a q)" using s2v(2) [OF assms(1,3) l] .
        have v1: "?v = s2v a q" using arg_cong [OF e, of "take 16"] vq by (simp only: take_append) simp
        have i1: "?i = ctr_xor (aes_e a) (ctr_start (s2v a q)) q" using arg_cong [OF e, of "drop 16"] vq by (simp only: drop_append) simp
        have "block (ctr_start (s2v a q))" using vq by (simp only: ctr_start_length)
        then have "p0 = q" unfolding p0_def v1 i1 by (rule aes_ctr(2) [OF assms(1)])
        then show "s2v a p0 = ?v \<and> q = p0" using v1 by simp
      qed
      moreover have "(if s2v a p0 = ?v then Some (p0 @ [0], length p0) else None) = Some (q @ [0], length q) \<longleftrightarrow> s2v a p0 = ?v \<and> q = p0" for q
        by auto
      ultimately have accepts: "(if s2v a p0 = ?v then Some (p0 @ [0], length p0) else None) = Some (q @ [0], length q) \<longleftrightarrow>
          q \<noteq> [] \<and> XAES_SIV_Crypt m m' a q = Some (Some (x @ [0], length x))" for q
        by (rule trans [rotated])
      show ?thesis
      proof (intro exI conjI allI impI)
        show "XAES_SIV_Decrypt m m' a x = Some (if s2v a p0 = ?v then Some (p0 @ [0], length p0) else None)" by (rule dec)
        show "s = (p0 @ [0], length p0)" if "(if s2v a p0 = ?v then Some (p0 @ [0], length p0) else None) = Some s" for s
          using that by (cases "s2v a p0 = ?v") simp_all
      qed (rule accepts)
    qed
  qed
qed

lemma aes_siv_witness:
  "(\<exists>v c. XAES_SIV_Crypt zero_malloc zero_malloc zero_aes [1, 2, 3] = Some (Some (v @ c @ [0], length (v @ c)))) \<and>
   (\<exists>r. XAES_SIV_Decrypt zero_malloc zero_malloc zero_aes [7] = Some r)"
  using aes_siv [OF zero_aes_ok zero_aes_ok(2), of "[1, 2, 3]" "[7]"] by simp blast

end
