(* ===== verification/JsonObj.thy ===== *)
theory JsonObj
  imports XArray XMap "HOL-Library.Multiset"
begin

text \<open>
  The objects of \<open>src/src/data/json.c\<close>: creating, adding and releasing them. The objects live in an
  explicit heap, a partial map from addresses; a map or an array of objects holds addresses, as in the
  code. Names and texts are kept in their object and have no address of their own; a C string is its
  bytes before the NUL.

  \<open>jm_ok t n\<close> says whether the \<open>t\<close>-th request for memory, of \<open>n\<close> bytes, is granted, and \<open>jm_grow t n\<close>
  the same for the tables of arrays. The counter \<open>jm_tick\<close> also gives new objects their addresses. Reading or releasing an object that is not in the
  heap is \<^term>\<open>None\<close>, so that a double release shows up as an undefined run.
\<close>

datatype xjson_type =
    XJSON_TYPE_INVALID | XJSON_TYPE_OBJECT | XJSON_TYPE_ARRAY | XJSON_TYPE_BOOLEAN | XJSON_TYPE_STRING | XJSON_TYPE_NUMBER
  | XJSON_TYPE_FLOAT | XJSON_TYPE_NULL

datatype xjson_error =
    XJSON_ERR_NONE | XJSON_ERR_UNEXPECTED | XJSON_ERR_INVALID | XJSON_ERR_BOUNDS | XJSON_ERR_EXITS | XJSON_ERR_ALLOC

text \<open>What \<open>pData\<close> points to.\<close>

datatype jdata = Nothing | Text "byte list" | Map "nat xmap" | Arr "nat xarray"

record xjson_obj =
  ob_nType :: xjson_type
  ob_nAllowUpdate :: bool
  ob_nAllowLinter :: bool
  ob_pName :: "byte list option"
  ob_pData :: jdata

record jmem =
  jm_ok :: "nat \<Rightarrow> nat \<Rightarrow> bool"
  jm_grow :: "nat \<Rightarrow> nat \<Rightarrow> bool"
  jm_tick :: nat
  jm_heap :: "nat \<rightharpoonup> xjson_obj"

section \<open>Operations\<close>

definition jalloc :: "jmem \<Rightarrow> nat \<Rightarrow> jmem \<times> bool" where
  "jalloc M n = (M\<lparr>jm_tick := Suc (jm_tick M)\<rparr>, jm_ok M (jm_tick M) n)"

definition store :: "jmem \<Rightarrow> nat \<Rightarrow> xjson_obj \<Rightarrow> jmem" where
  "store M a ob = M\<lparr>jm_heap := (jm_heap M)(a \<mapsto> ob)\<rparr>"

text \<open>The tables of an array are requested from the same memory; their cells are cleared by the array code.\<close>

definition cells :: "jmem \<Rightarrow> nat \<Rightarrow> 'a pmalloc" where
  "cells M t n = (if jm_grow M t n then Some (replicate (n div 8) None) else None)"

abbreviation blank_map :: "nat xmap" where
  "blank_map \<equiv> \<lparr>mp_pPairs = None, mp_clearCb = False, mp_nTableSize = 0, mp_nDeleted = 0, mp_nCount = 0,
     mp_bAllowUpdate = False, mp_bAlloc = False, mp_cleared = []\<rparr>"

abbreviation blank_array :: "nat xarray" where
  "blank_array \<equiv> \<lparr>ar_pData = None, ar_clearCb = False, ar_eStatus = XARRAY_STATUS_EMPTY, ar_nHasPool = False,
     ar_nFixed = False, ar_nAlloc = False, ar_nSize = 0, ar_nUsed = 0, ar_freed = []\<rparr>"

text \<open>The callbacks of maps and arrays pass what they are given to \<open>XJSON_FreeObject\<close>, which ignores NULL.\<close>

fun free_all :: "(jmem \<Rightarrow> nat \<Rightarrow> jmem option) \<Rightarrow> jmem \<Rightarrow> nat option list \<Rightarrow> jmem option" where
  "free_all free M [] = Some M"
| "free_all free M (None # xs) = free_all free M xs"
| "free_all free M (Some a # xs) = do { M \<leftarrow> free M a; free_all free M xs }"

definition XJSON_ObjectClearCb :: "nat xmap_pair \<Rightarrow> nat option" where
  "XJSON_ObjectClearCb p = mp_pData p"

definition XJSON_ArrayClearCb :: "nat xarray_data \<Rightarrow> nat option" where
  "XJSON_ArrayClearCb e = ad_pData e"

text \<open>The recursion is as deep as the objects are nested; \<open>fuel\<close> bounds it.\<close>

primrec free_object :: "nat \<Rightarrow> jmem \<Rightarrow> nat \<Rightarrow> jmem option" where
  "free_object 0 = (\<lambda>M a. None)"
| "free_object (Suc fuel) = (\<lambda>M a. do {
     ob \<leftarrow> jm_heap M a;
     M \<leftarrow> (case ob_pData ob of
            Nothing \<Rightarrow> Some M
          | Map m \<Rightarrow>
              if ob_nType ob = XJSON_TYPE_OBJECT
              then do { m' \<leftarrow> XMap_Reset m;
                        free_all (free_object fuel) M (map XJSON_ObjectClearCb (drop (length (mp_cleared m)) (mp_cleared m'))) }
              else None
          | Arr r \<Rightarrow>
              if ob_nType ob = XJSON_TYPE_ARRAY
              then do { r' \<leftarrow> XArray_Destroy r;
                        free_all (free_object fuel) M
                          (if ar_clearCb r then map XJSON_ArrayClearCb (drop (length (ar_freed r)) (ar_freed r')) else []) }
              else None
          | Text s \<Rightarrow> if ob_nType ob = XJSON_TYPE_OBJECT \<or> ob_nType ob = XJSON_TYPE_ARRAY then None else Some M);
     Some (M\<lparr>jm_heap := (jm_heap M)(a := None)\<rparr>) })"

definition XJSON_FreeObject :: "jmem \<Rightarrow> nat option \<Rightarrow> jmem option" where
  "XJSON_FreeObject M p = (case p of None \<Rightarrow> Some M | Some a \<Rightarrow> free_object (Suc (jm_tick M)) M a)"

text \<open>Setting the key of the pair at index \<open>h\<close>.\<close>

definition set_key :: "nat xmap \<Rightarrow> int \<Rightarrow> byte list \<Rightarrow> nat xmap option" where
  "set_key m h k = do { d \<leftarrow> mp_pPairs m; p \<leftarrow> ppeek d h; store_pair m h (p\<lparr>mp_pKey := Some k\<rparr>) }"

definition XJSON_AddObject :: "jmem \<Rightarrow> nat option \<Rightarrow> nat option \<Rightarrow> (jmem \<times> xjson_error) option" where
  "XJSON_AddObject M pDst pSrc =
     (case (pDst, pSrc) of
        (Some dst, Some src) \<Rightarrow> do {
          d \<leftarrow> jm_heap M dst;
          s \<leftarrow> jm_heap M src;
          let t = jm_tick M;
          let M = M\<lparr>jm_tick := t + 2\<rparr>;
          if ob_nType d = XJSON_TYPE_OBJECT
          then (case ob_pName s of
                  None \<Rightarrow> Some (M, XJSON_ERR_INVALID)
                | Some k \<Rightarrow>
                    (case ob_pData d of
                       Nothing \<Rightarrow> Some (M, XJSON_ERR_ALLOC)
                     | Map m \<Rightarrow> do {
                         (pFound, nHash) \<leftarrow> XMap_GetIndex m k 0;
                         (case pFound of
                            Some found \<Rightarrow>
                              if \<not> ob_nAllowUpdate d then Some (M, XJSON_ERR_EXITS)
                              else if found = src then Some (M, XJSON_ERR_NONE)
                              else do {
                                (m, st) \<leftarrow> XMap_Update m nHash (Some src);
                                if st < 0 then Some (store M dst (d\<lparr>ob_pData := Map m\<rparr>), XJSON_ERR_BOUNDS)
                                else do {
                                  m \<leftarrow> set_key m nHash k;
                                  M \<leftarrow> XJSON_FreeObject (store M dst (d\<lparr>ob_pData := Map m\<rparr>)) (Some found);
                                  Some (M, XJSON_ERR_NONE) } }
                          | None \<Rightarrow> do {
                              (m, st) \<leftarrow> XMap_Put (jm_ok M t) (jm_ok M (t + 1) 0) m k (Some src);
                              Some (store M dst (d\<lparr>ob_pData := Map m\<rparr>),
                                    if st < 0 then XJSON_ERR_ALLOC else XJSON_ERR_NONE) }) }
                     | _ \<Rightarrow> None))
          else if ob_nType d = XJSON_TYPE_ARRAY
          then (if ob_pName s \<noteq> None then Some (M, XJSON_ERR_INVALID)
                else case ob_pData d of
                       Nothing \<Rightarrow> Some (M, XJSON_ERR_ALLOC)
                     | Arr r \<Rightarrow> do {
                         (r', st) \<leftarrow> XArray_AddData (jm_ok M t 24) False (cells M (t + 1)) r (Some src) 0;
                         M \<leftarrow> free_all (\<lambda>M a. XJSON_FreeObject M (Some a)) (store M dst (d\<lparr>ob_pData := Arr r'\<rparr>))
                                (if ar_clearCb r then map XJSON_ArrayClearCb (drop (length (ar_freed r)) (ar_freed r')) else []);
                         Some (M, if st < 0 then XJSON_ERR_ALLOC else XJSON_ERR_NONE) }
                     | _ \<Rightarrow> None)
          else Some (M, XJSON_ERR_INVALID) }
      | _ \<Rightarrow> Some (M, XJSON_ERR_INVALID))"

definition XJSON_CreateObject :: "jmem \<Rightarrow> byte list option \<Rightarrow> jdata \<Rightarrow> xjson_type \<Rightarrow> jmem \<times> nat option" where
  "XJSON_CreateObject M pName pValue nType =
     (let a = jm_tick M; (M, ok) = jalloc M 40;
          ob = \<lparr>ob_nType = nType, ob_nAllowUpdate = False, ob_nAllowLinter = True, ob_pName = pName, ob_pData = pValue\<rparr>
      in if \<not> ok then (M, None)
         else case pName of
                None \<Rightarrow> (store M a ob, Some a)
              | Some k \<Rightarrow>
                  let (M, ok) = jalloc M (length k + 1)
                  in if \<not> ok then (M, None) else (store M a ob, Some a))"

definition allow_update :: "jmem \<Rightarrow> nat option \<Rightarrow> bool \<Rightarrow> jmem option" where
  "allow_update M p b = (case p of None \<Rightarrow> Some M | Some a \<Rightarrow> do { ob \<leftarrow> jm_heap M a; Some (store M a (ob\<lparr>ob_nAllowUpdate := b\<rparr>)) })"

abbreviation (input) XOBJ_INITIAL_SIZE :: nat where "XOBJ_INITIAL_SIZE \<equiv> 2"

definition XJSON_NewObject :: "jmem \<Rightarrow> byte list option \<Rightarrow> bool \<Rightarrow> (jmem \<times> nat option) option" where
  "XJSON_NewObject M pName nAllowUpdate =
     (let (M, ok1) = jalloc M 64; (M, ok2) = jalloc M (XOBJ_INITIAL_SIZE * 24)
      in case XMap_New ok1 ok2 blank_map XOBJ_INITIAL_SIZE of
           None \<Rightarrow> Some (M, None)
         | Some m \<Rightarrow> do {
             let (M, p) = XJSON_CreateObject M pName (Map (m\<lparr>mp_clearCb := True\<rparr>)) XJSON_TYPE_OBJECT;
             M \<leftarrow> allow_update M p nAllowUpdate;
             Some (M, p) })"

definition XJSON_NewArray :: "jmem \<Rightarrow> byte list option \<Rightarrow> bool \<Rightarrow> (jmem \<times> nat option) option" where
  "XJSON_NewArray M pName nAllowUpdate = do {
     let (M, ok) = jalloc M 64;
     let t = jm_tick M;
     let M = M\<lparr>jm_tick := t + 1\<rparr>;
     r \<leftarrow> XArray_New ok (cells M t) blank_array XOBJ_INITIAL_SIZE False;
     (case r of
        None \<Rightarrow> Some (M, None)
      | Some r \<Rightarrow> do {
          let (M, p) = XJSON_CreateObject M pName (Arr (r\<lparr>ar_clearCb := True\<rparr>)) XJSON_TYPE_ARRAY;
          M \<leftarrow> allow_update M p nAllowUpdate;
          Some (M, p) }) }"

text \<open>
  The constructors of scalars: \<open>n\<close> bytes are requested for the text, which is cut to \<open>n - 1\<close> bytes
  (\<open>xstrncpyf\<close>); then the object is made.
\<close>

definition new_text :: "jmem \<Rightarrow> byte list option \<Rightarrow> nat \<Rightarrow> byte list \<Rightarrow> xjson_type \<Rightarrow> jmem \<times> nat option" where
  "new_text M pName n s nType =
     (let (M, ok) = jalloc M n
      in if \<not> ok then (M, None) else XJSON_CreateObject M pName (Text (take (n - 1) s)) nType)"

text \<open>The conversions \<open>%u\<close> and \<open>%d\<close> of \<open>printf\<close>.\<close>

function dec_text :: "nat \<Rightarrow> byte list" where
  "dec_text n = (if n < 10 then [48 + of_nat n] else dec_text (n div 10) @ [48 + of_nat (n mod 10)])"
  by pat_completeness auto
termination by (relation "measure id") auto

declare dec_text.simps [simp del]

definition int_text :: "int \<Rightarrow> byte list" where
  "int_text i = (if i < 0 then 45 # dec_text (nat (- i)) else dec_text (nat i))"

abbreviation (input) XJSON_NUMBER_MAX :: nat where "XJSON_NUMBER_MAX \<equiv> 64"
abbreviation (input) XJSON_BOOL_MAX :: nat where "XJSON_BOOL_MAX \<equiv> 6"
abbreviation (input) XJSON_NULL_MAX :: nat where "XJSON_NULL_MAX \<equiv> 5"

definition XJSON_NewU64 :: "jmem \<Rightarrow> byte list option \<Rightarrow> u64 \<Rightarrow> jmem \<times> nat option" where
  "XJSON_NewU64 M pName v = new_text M pName XJSON_NUMBER_MAX (dec_text (unat v)) XJSON_TYPE_NUMBER"

definition XJSON_NewU32 :: "jmem \<Rightarrow> byte list option \<Rightarrow> u32 \<Rightarrow> jmem \<times> nat option" where
  "XJSON_NewU32 M pName v = new_text M pName XJSON_NUMBER_MAX (dec_text (unat v)) XJSON_TYPE_NUMBER"

definition XJSON_NewU16 :: "jmem \<Rightarrow> byte list option \<Rightarrow> u16 \<Rightarrow> jmem \<times> nat option" where
  "XJSON_NewU16 M pName v = new_text M pName XJSON_NUMBER_MAX (dec_text (unat v)) XJSON_TYPE_NUMBER"

definition XJSON_NewInt :: "jmem \<Rightarrow> byte list option \<Rightarrow> 32 word \<Rightarrow> jmem \<times> nat option" where
  "XJSON_NewInt M pName v = new_text M pName XJSON_NUMBER_MAX (int_text (sint v)) XJSON_TYPE_NUMBER"

text \<open>A \<open>double\<close> is given as the text of the conversion \<open>%lf\<close>, or \<^term>\<open>None\<close> when it is not finite.\<close>

definition XJSON_NewFloat :: "jmem \<Rightarrow> byte list option \<Rightarrow> byte list option \<Rightarrow> jmem \<times> nat option" where
  "XJSON_NewFloat M pName v =
     (case v of None \<Rightarrow> (M, None) | Some s \<Rightarrow> new_text M pName XJSON_NUMBER_MAX s XJSON_TYPE_FLOAT)"

definition XJSON_NewString :: "jmem \<Rightarrow> byte list option \<Rightarrow> byte list option \<Rightarrow> jmem \<times> nat option" where
  "XJSON_NewString M pName v =
     (case v of None \<Rightarrow> (M, None) | Some s \<Rightarrow> new_text M pName (length s + 1) s XJSON_TYPE_STRING)"

definition XJSON_NewBool :: "jmem \<Rightarrow> byte list option \<Rightarrow> bool \<Rightarrow> jmem \<times> nat option" where
  "XJSON_NewBool M pName v =
     new_text M pName XJSON_BOOL_MAX (if v then [116, 114, 117, 101] else [102, 97, 108, 115, 101]) XJSON_TYPE_BOOLEAN"

definition XJSON_NewNull :: "jmem \<Rightarrow> byte list option \<Rightarrow> jmem \<times> nat option" where
  "XJSON_NewNull M pName = new_text M pName XJSON_NULL_MAX [110, 117, 108, 108] XJSON_TYPE_NULL"

text \<open>The tail of the \<open>Add\<close> functions: the new object is added, or released when that fails.\<close>

definition add_new :: "nat \<Rightarrow> jmem \<times> nat option \<Rightarrow> (jmem \<times> xjson_error) option" where
  "add_new dst r =
     (case r of
        (M, None) \<Rightarrow> Some (M, XJSON_ERR_ALLOC)
      | (M, Some a) \<Rightarrow> do {
          (M, st) \<leftarrow> XJSON_AddObject M (Some dst) (Some a);
          if st \<noteq> XJSON_ERR_NONE then do { M \<leftarrow> XJSON_FreeObject M (Some a); Some (M, st) } else Some (M, st) })"

definition XJSON_AddU64 :: "jmem \<Rightarrow> nat option \<Rightarrow> byte list option \<Rightarrow> u64 \<Rightarrow> (jmem \<times> xjson_error) option" where
  "XJSON_AddU64 M p pName v = (case p of None \<Rightarrow> Some (M, XJSON_ERR_INVALID) | Some a \<Rightarrow> add_new a (XJSON_NewU64 M pName v))"

definition XJSON_AddU32 :: "jmem \<Rightarrow> nat option \<Rightarrow> byte list option \<Rightarrow> u32 \<Rightarrow> (jmem \<times> xjson_error) option" where
  "XJSON_AddU32 M p pName v = (case p of None \<Rightarrow> Some (M, XJSON_ERR_INVALID) | Some a \<Rightarrow> add_new a (XJSON_NewU32 M pName v))"

definition XJSON_AddU16 :: "jmem \<Rightarrow> nat option \<Rightarrow> byte list option \<Rightarrow> u16 \<Rightarrow> (jmem \<times> xjson_error) option" where
  "XJSON_AddU16 M p pName v = (case p of None \<Rightarrow> Some (M, XJSON_ERR_INVALID) | Some a \<Rightarrow> add_new a (XJSON_NewU16 M pName v))"

definition XJSON_AddInt :: "jmem \<Rightarrow> nat option \<Rightarrow> byte list option \<Rightarrow> 32 word \<Rightarrow> (jmem \<times> xjson_error) option" where
  "XJSON_AddInt M p pName v = (case p of None \<Rightarrow> Some (M, XJSON_ERR_INVALID) | Some a \<Rightarrow> add_new a (XJSON_NewInt M pName v))"

definition XJSON_AddFloat :: "jmem \<Rightarrow> nat option \<Rightarrow> byte list option \<Rightarrow> byte list option \<Rightarrow> (jmem \<times> xjson_error) option" where
  "XJSON_AddFloat M p pName v =
     (if p = None \<or> v = None then Some (M, XJSON_ERR_INVALID) else add_new (the p) (XJSON_NewFloat M pName v))"

definition XJSON_AddBool :: "jmem \<Rightarrow> nat option \<Rightarrow> byte list option \<Rightarrow> bool \<Rightarrow> (jmem \<times> xjson_error) option" where
  "XJSON_AddBool M p pName v = (case p of None \<Rightarrow> Some (M, XJSON_ERR_INVALID) | Some a \<Rightarrow> add_new a (XJSON_NewBool M pName v))"

definition XJSON_AddNull :: "jmem \<Rightarrow> nat option \<Rightarrow> byte list option \<Rightarrow> (jmem \<times> xjson_error) option" where
  "XJSON_AddNull M p pName = (case p of None \<Rightarrow> Some (M, XJSON_ERR_INVALID) | Some a \<Rightarrow> add_new a (XJSON_NewNull M pName))"

definition XJSON_AddString :: "jmem \<Rightarrow> nat option \<Rightarrow> byte list option \<Rightarrow> byte list option \<Rightarrow> (jmem \<times> xjson_error) option" where
  "XJSON_AddString M p pName v =
     (case p of None \<Rightarrow> Some (M, XJSON_ERR_INVALID)
      | Some a \<Rightarrow> if v = None then XJSON_AddNull M p pName else add_new a (XJSON_NewString M pName v))"

definition XJSON_AddStrIfUsed :: "jmem \<Rightarrow> nat option \<Rightarrow> byte list option \<Rightarrow> byte list option \<Rightarrow> (jmem \<times> xjson_error) option" where
  "XJSON_AddStrIfUsed M p pName v =
     (case p of None \<Rightarrow> Some (M, XJSON_ERR_INVALID)
      | Some a \<Rightarrow> if v = None \<or> v = Some [] then Some (M, XJSON_ERR_NONE) else add_new a (XJSON_NewString M pName v))"

section \<open>The value an object stands for\<close>

datatype jval = JObj "(byte list \<times> jval) list" | JArr "jval list" | JText xjson_type "byte list"

text \<open>
  \<open>rep h a nm v F\<close>: at address \<open>a\<close> there is an object with name \<open>nm\<close> that stands for the value \<open>v\<close>; it owns the
  objects at the addresses \<open>F\<close>, no two of its parts share one. \<open>reps\<close> is the same for a list of
  addresses with their names and values. An object with members holds them in the order of its hash
  table; its value has them in any order.
\<close>

definition arr_entry :: "nat \<Rightarrow> nat xarray_data" where
  "arr_entry x = \<lparr>ad_pData = Some x, ad_nSize = 0, ad_nKey = 0\<rparr>"

abbreviation addr :: "nat \<times> byte list option \<times> jval \<Rightarrow> nat" where "addr \<equiv> fst"
abbreviation nam :: "nat \<times> byte list option \<times> jval \<Rightarrow> byte list option" where "nam t \<equiv> fst (snd t)"
abbreviation val :: "nat \<times> byte list option \<times> jval \<Rightarrow> jval" where "val t \<equiv> snd (snd t)"

definition arr_ok :: "nat xarray \<Rightarrow> bool" where
  "arr_ok r \<longleftrightarrow> ar_clearCb r \<and> ar_pData r \<noteq> None \<and> \<not> ar_nFixed r \<and> 0 < ar_nSize r \<and> ar_nSize r < 2 ^ 28"

definition map_ok :: "nat xmap \<Rightarrow> bool" where
  "map_ok m \<longleftrightarrow> mp_wf m \<and> mp_nDeleted m = 0 \<and> mp_clearCb m \<and> mp_bAllowUpdate m \<and> mp_nTableSize m < 2 ^ 30"

inductive rep :: "(nat \<rightharpoonup> xjson_obj) \<Rightarrow> nat \<Rightarrow> byte list option \<Rightarrow> jval \<Rightarrow> nat set \<Rightarrow> bool"
  and reps :: "(nat \<rightharpoonup> xjson_obj) \<Rightarrow> (nat \<times> byte list option \<times> jval) list \<Rightarrow> nat set \<Rightarrow> bool"
  for h where
  rep_text: "h a = Some ob \<Longrightarrow> ob_pName ob = nm \<Longrightarrow> ob_nType ob = t \<Longrightarrow> ob_pData ob = Text s \<Longrightarrow>
    t \<noteq> XJSON_TYPE_OBJECT \<Longrightarrow> t \<noteq> XJSON_TYPE_ARRAY \<Longrightarrow> rep h a nm (JText t s) {a}"
| rep_arr: "h a = Some ob \<Longrightarrow> ob_pName ob = nm \<Longrightarrow> ob_nType ob = XJSON_TYPE_ARRAY \<Longrightarrow> ob_pData ob = Arr r \<Longrightarrow> arr_ok r \<Longrightarrow>
    ar_rep r (map (\<lambda>t. Some (arr_entry (addr t))) ts) \<Longrightarrow> \<forall>t \<in> set ts. nam t = None \<Longrightarrow> reps h ts F \<Longrightarrow> a \<notin> F \<Longrightarrow>
    rep h a nm (JArr (map val ts)) (insert a F)"
| rep_obj: "h a = Some ob \<Longrightarrow> ob_pName ob = nm \<Longrightarrow> ob_nType ob = XJSON_TYPE_OBJECT \<Longrightarrow> ob_pData ob = Map m \<Longrightarrow> map_ok m \<Longrightarrow>
    mp_pPairs m = Some d \<Longrightarrow> used_pairs d = map (\<lambda>t. (the (nam t), Some (addr t))) ts \<Longrightarrow> \<forall>t \<in> set ts. nam t \<noteq> None \<Longrightarrow>
    reps h ts F \<Longrightarrow> a \<notin> F \<Longrightarrow> mset kvs = mset (map (\<lambda>t. (the (nam t), val t)) ts) \<Longrightarrow>
    rep h a nm (JObj kvs) (insert a F)"
| reps_nil: "reps h [] {}"
| reps_cons: "rep h x nm v F \<Longrightarrow> reps h ts G \<Longrightarrow> F \<inter> G = {} \<Longrightarrow> reps h ((x, nm, v) # ts) (F \<union> G)"

inductive_cases rep_JObj: "rep h a nm (JObj kvs) F"
inductive_cases rep_JArr: "rep h a nm (JArr vs) F"
inductive_cases rep_JText: "rep h a nm (JText t s) F"
inductive_cases reps_Cons: "reps h (t # ts) F"
inductive_cases reps_Nil: "reps h [] F"

lemma rep_root:
  "rep h a nm v F \<Longrightarrow> a \<in> F"
  by (erule rep.cases) auto

lemma rep_foot:
  "rep h a nm v F \<Longrightarrow> finite F \<and> F \<subseteq> dom h"
  "reps h ts F \<Longrightarrow> finite F \<and> F \<subseteq> dom h"
  by (induction rule: rep_reps.inducts) auto

lemma rep_frame:
  "rep h a nm v F \<Longrightarrow> (\<And>x. x \<in> F \<Longrightarrow> h' x = h x) \<Longrightarrow> rep h' a nm v F"
  "reps h ts F \<Longrightarrow> (\<And>x. x \<in> F \<Longrightarrow> h' x = h x) \<Longrightarrow> reps h' ts F"
proof (induction rule: rep_reps.inducts)
  case (rep_text a ob nm t s)
  then show ?case by (intro rep_reps.rep_text [of _ _ ob]) auto
next
  case (rep_arr a ob nm r ts F)
  then show ?case by (intro rep_reps.rep_arr [of _ _ ob _ r]) auto
next
  case (rep_obj a ob nm m d ts F kvs)
  then show ?case by (intro rep_reps.rep_obj [of _ _ ob _ m d ts]) auto
next
  case reps_nil
  then show ?case by (intro rep_reps.reps_nil)
next
  case (reps_cons x nm v F ts G)
  then show ?case by (intro rep_reps.reps_cons) auto
qed

lemma reps_append: "reps h ts F \<Longrightarrow> reps h us G \<Longrightarrow> F \<inter> G = {} \<Longrightarrow> reps h (ts @ us) (F \<union> G)"
proof (induction ts arbitrary: F)
  case (Cons t ts)
  from Cons.prems(1) obtain x nm v F1 F2 where t: "t = (x, nm, v)" "F = F1 \<union> F2" "rep h x nm v F1" "reps h ts F2" "F1 \<inter> F2 = {}"
    by (auto elim: reps_Cons)
  with Cons have "reps h ((x, nm, v) # ts @ us) (F1 \<union> (F2 \<union> G))" by (intro reps_cons) auto
  with t show ?case by (simp add: Un_assoc)
qed (auto elim: reps_Nil)

lemma reps_remove: "reps h ts F \<Longrightarrow> t \<in> set ts \<Longrightarrow> \<exists>G H. F = G \<union> H \<and> G \<inter> H = {} \<and> rep h (addr t) (nam t) (val t) G \<and> reps h (remove1 t ts) H"
proof (induction ts arbitrary: F)
  case (Cons u ts)
  from Cons.prems(1) obtain F1 F2 where u: "F = F1 \<union> F2" "rep h (addr u) (nam u) (val u) F1" "reps h ts F2" "F1 \<inter> F2 = {}"
    by (auto elim!: reps_Cons)
  show ?case
  proof (cases "t = u")
    case True
    with u show ?thesis by auto
  next
    case False
    with Cons.prems(2) Cons.IH [OF u(3)] obtain G H where g: "F2 = G \<union> H" "G \<inter> H = {}" "rep h (addr t) (nam t) (val t) G" "reps h (remove1 t ts) H" by auto
    with u have "reps h ((addr u, nam u, val u) # remove1 t ts) (F1 \<union> H)" by (intro reps_cons) auto
    with False g u show ?thesis by (intro exI [of _ G] exI [of _ "F1 \<union> H"]) auto
  qed
qed simp

lemma reps_perm: "reps h ts F \<Longrightarrow> mset us = mset ts \<Longrightarrow> reps h us F"
proof (induction us arbitrary: ts F)
  case (Cons u us)
  then have "u \<in> set ts" by (metis list.set_intros(1) set_mset_mset)
  from reps_remove [OF Cons.prems(1) this] obtain G H where g: "F = G \<union> H" "G \<inter> H = {}" "rep h (addr u) (nam u) (val u) G" "reps h (remove1 u ts) H" by blast
  have "mset us = mset (remove1 u ts)" using Cons.prems(2) by (metis add_mset_remove_trivial mset.simps(2) mset_remove1)
  from reps_cons [OF g(3) Cons.IH [OF g(4) this] g(2)] g(1) show ?case by simp
qed auto

lemma rep_obj_perm: "rep h a nm (JObj kvs) F \<Longrightarrow> mset kvs' = mset kvs \<Longrightarrow> rep h a nm (JObj kvs') F"
  by (erule rep_JObj) (auto intro: rep_obj)

section \<open>Releasing\<close>

definition wipe :: "jmem \<Rightarrow> nat set \<Rightarrow> jmem" where
  "wipe M F = M\<lparr>jm_heap := jm_heap M |` (- F)\<rparr>"

lemma wipe_simps [simp]: "jm_heap (wipe M F) x = (if x \<in> F then None else jm_heap M x)" "jm_tick (wipe M F) = jm_tick M"
  "jm_ok (wipe M F) = jm_ok M" "jm_grow (wipe M F) = jm_grow M" "wipe M {} = M"
  by (simp_all add: wipe_def restrict_map_def)

lemma wipe_wipe: "wipe (wipe M F) G = wipe M (F \<union> G)"
  by (simp add: wipe_def Int_commute)

lemma wipe_insert: "(wipe M F)\<lparr>jm_heap := (jm_heap (wipe M F))(a := None)\<rparr> = wipe M (insert a F)"
  by (auto simp: wipe_def restrict_map_def fun_eq_iff)

lemma filter_used: "map XJSON_ObjectClearCb (filter (\<lambda>p. mp_eStatus p = XMAP_PAIR_USED) d) = map snd (used_pairs d)"
  by (simp add: used_pairs_filter XJSON_ObjectClearCb_def)

lemma clear_cells_freed:
  "ar_pData r = Some (xs @ map (\<lambda>x. Some (arr_entry x)) as @ replicate k None) \<Longrightarrow> i = length xs \<Longrightarrow>
   ar_nSize r = length xs + length as + k \<Longrightarrow>
   \<exists>r'. clear_cells r i = Some r' \<and> ar_freed r' = ar_freed r @ map arr_entry as"
proof (induction "length as + k" arbitrary: r xs as k i)
  case 0
  then show ?case by (subst clear_cells.simps) auto
next
  case (Suc n)
  show ?case
  proof (cases as)
    case Nil
    then obtain k' where k: "k = Suc k'" "n = length as + k'" using Suc.hyps(2) by (cases k) auto
    let ?r = "r\<lparr>ar_pData := Some ((xs @ [None]) @ map (\<lambda>x. Some (arr_entry x)) [] @ replicate k' None)\<rparr>"
    have "clear_cells r i = clear_cells ?r (Suc i)"
      using Suc.prems k Nil by (subst clear_cells.simps) (simp add: peek_def poke_def XArray_ClearData_def nth_append list_update_append)
    then show ?thesis using Suc.hyps(1) [of "[]" k' ?r "xs @ [None]" "Suc i"] Suc.prems k Nil by simp
  next
    case (Cons x as')
    let ?r = "r\<lparr>ar_freed := ar_freed r @ [arr_entry x], ar_pData := Some ((xs @ [None]) @ map (\<lambda>x. Some (arr_entry x)) as' @ replicate k None)\<rparr>"
    have "clear_cells r i = clear_cells ?r (Suc i)"
      using Suc.prems Cons by (subst clear_cells.simps) (simp add: peek_def poke_def XArray_ClearData_def nth_append list_update_append)
    then show ?thesis using Suc.hyps(1) [of as' k ?r "xs @ [None]" "Suc i"] Suc.hyps(2) Suc.prems Cons by simp
  qed
qed

lemma Destroy_freed:
  assumes "ar_rep r (map (\<lambda>t. Some (arr_entry (addr t))) ts)" "arr_ok r"
  shows "\<exists>r'. XArray_Destroy r = Some r' \<and> ar_freed r' = ar_freed r @ map (\<lambda>t. arr_entry (addr t)) ts"
proof -
  from assms obtain d where d: "ar_pData r = Some d" by (auto simp: arr_ok_def)
  with assms(1) have "ar_pData r = Some ([] @ map (\<lambda>x. Some (arr_entry x)) (map addr ts) @ replicate (ar_nSize r - ar_nUsed r) None)"
    "ar_nSize r = length [] + length (map addr ts) + (ar_nSize r - ar_nUsed r)" by (auto simp: ar_rep_def comp_def)
  from clear_cells_freed [OF this(1) _ this(2), of 0] obtain r' where
    "clear_cells r 0 = Some r'" "ar_freed r' = ar_freed r @ map arr_entry (map addr ts)" by auto
  then show ?thesis using d by (simp add: XArray_Destroy_def XArray_Clear_def comp_def)
qed

text \<open>Releasing an object releases exactly the objects it owns, each once.\<close>

lemma free_object_rep:
  "rep h a nm v F \<Longrightarrow> card F \<le> fuel \<Longrightarrow> (\<And>x. x \<in> F \<Longrightarrow> jm_heap M x = h x) \<Longrightarrow> free_object fuel M a = Some (wipe M F)"
  "reps h ts F \<Longrightarrow> card F \<le> fuel \<Longrightarrow> (\<And>x. x \<in> F \<Longrightarrow> jm_heap M x = h x) \<Longrightarrow>
     free_all (free_object fuel) M (map (\<lambda>t. Some (addr t)) ts) = Some (wipe M F)"
proof (induction arbitrary: M fuel and M fuel rule: rep_reps.inducts)
  case (rep_text a ob nm t s)
  then obtain f where "fuel = Suc f" by (cases fuel) auto
  with rep_text show ?case using wipe_insert [of M "{}" a] by auto
next
  case (rep_arr a ob nm r ts F)
  have fin: "finite F" using rep_foot(2) [OF rep_arr.IH(2)] by blast
  with rep_arr.prems(1) rep_arr.hyps(7) obtain f where f: "fuel = Suc f" "card F \<le> f" by (cases fuel) auto
  from Destroy_freed [OF rep_arr.hyps(5,4)] obtain r' where r': "XArray_Destroy r = Some r'"
    "ar_freed r' = ar_freed r @ map (\<lambda>t. arr_entry (addr t)) ts" by blast
  have "free_all (free_object f) M (map (\<lambda>t. Some (addr t)) ts) = Some (wipe M F)"
    by (rule rep_arr.IH(3) [OF f(2)]) (use rep_arr.prems in auto)
  moreover have "XJSON_ArrayClearCb \<circ> (\<lambda>t. arr_entry (addr t)) = (\<lambda>t. Some (addr t))"
    by (simp add: fun_eq_iff XJSON_ArrayClearCb_def arr_entry_def)
  ultimately show ?case using f r' rep_arr.IH(1) rep_arr.hyps rep_arr.prems(2) [of a] wipe_insert [of M F a]
    by (simp add: arr_ok_def)
next
  case (rep_obj a ob nm m d ts F kvs)
  have fin: "finite F" using rep_foot(2) [OF rep_obj.IH(2)] by blast
  with rep_obj.prems(1) rep_obj.hyps(8) obtain f where f: "fuel = Suc f" "card F \<le> f" by (cases fuel) auto
  from Reset_spec [of m] rep_obj.hyps(4,5) obtain m' where m': "XMap_Reset m = Some m'"
    "mp_cleared m' = mp_cleared m @ filter (\<lambda>p. mp_eStatus p = XMAP_PAIR_USED) d" by (auto simp: map_ok_def)
  have "free_all (free_object f) M (map (\<lambda>t. Some (addr t)) ts) = Some (wipe M F)"
    by (rule rep_obj.IH(3) [OF f(2)]) (use rep_obj.prems in auto)
  moreover have "map XJSON_ObjectClearCb (filter (\<lambda>p. mp_eStatus p = XMAP_PAIR_USED) d) = map (\<lambda>t. Some (addr t)) ts"
    using filter_used [of d] rep_obj.hyps(6) by (simp add: comp_def)
  ultimately show ?case using f m' rep_obj.IH(1) rep_obj.hyps rep_obj.prems(2) [of a] wipe_insert [of M F a] by simp
next
  case reps_nil
  then show ?case by simp
next
  case (reps_cons x nm v F ts G)
  have fin: "finite F" "finite G" using rep_foot(1) [OF reps_cons.IH(1)] rep_foot(2) [OF reps_cons.IH(3)] by auto
  then have c: "card F \<le> fuel" "card G \<le> fuel" using reps_cons.prems(1) card_mono [of "F \<union> G" F] card_mono [of "F \<union> G" G] by auto
  have "free_object fuel M x = Some (wipe M F)" by (rule reps_cons.IH(2) [OF c(1)]) (use reps_cons.prems in auto)
  moreover have "free_all (free_object fuel) (wipe M F) (map (\<lambda>t. Some (addr t)) ts) = Some (wipe (wipe M F) G)"
    by (rule reps_cons.IH(4) [OF c(2)]) (use reps_cons.prems reps_cons.hyps in auto)
  ultimately show ?case by (simp add: wipe_wipe)
qed

text \<open>Addresses in use are below the counter.\<close>

definition jm_wf :: "jmem \<Rightarrow> bool" where
  "jm_wf M \<longleftrightarrow> (\<forall>x \<in> dom (jm_heap M). x < jm_tick M)"

lemma jm_wf_tick: "jm_wf M \<Longrightarrow> jm_tick M \<le> n \<Longrightarrow> jm_wf (M\<lparr>jm_tick := n\<rparr>)"
  unfolding jm_wf_def by (auto intro: less_le_trans)

lemma foot_card:
  assumes "jm_wf M" "F \<subseteq> dom (jm_heap M)"
  shows "card F \<le> jm_tick M"
proof -
  have "F \<subseteq> {..<jm_tick M}" using assms by (auto simp: jm_wf_def)
  from card_mono [OF finite_lessThan this] show ?thesis by simp
qed

lemma FreeObject_rep:
  assumes "jm_wf M" "rep (jm_heap M) a nm v F"
  shows "XJSON_FreeObject M (Some a) = Some (wipe M F)" "jm_wf (wipe M F)"
proof -
  have "card F \<le> Suc (jm_tick M)" using foot_card [OF assms(1)] rep_foot(1) [OF assms(2)] by (simp add: le_SucI)
  from free_object_rep(1) [OF assms(2) this] show "XJSON_FreeObject M (Some a) = Some (wipe M F)" by (simp add: XJSON_FreeObject_def)
  show "jm_wf (wipe M F)" using assms(1) by (auto simp: jm_wf_def split: if_splits)
qed

section \<open>Adding\<close>

lemma map_of_mset:
  assumes "distinct (map fst xs)" "distinct (map fst ys)" "map_of xs = map_of ys"
  shows "mset xs = mset ys"
proof -
  have "(a, b) \<in> set xs \<longleftrightarrow> (a, b) \<in> set ys" for a b
    unfolding map_of_eq_Some_iff [OF assms(1), symmetric] map_of_eq_Some_iff [OF assms(2), symmetric] assms(3) ..
  then have "set xs = set ys" by auto
  then show ?thesis using assms(1,2) by (simp add: set_eq_iff_mset_eq_distinct distinct_map)
qed

lemma map_preimage: "mset xs = image_mset f (mset ys) \<Longrightarrow> \<exists>us. mset us = mset ys \<and> xs = map f us"
proof (induction xs arbitrary: ys)
  case (Cons x xs)
  then have "x \<in># image_mset f (mset ys)" by (metis list.set_intros(1) set_mset_mset)
  then obtain y where y: "y \<in> set ys" "x = f y" by auto
  then have m: "mset ys = add_mset y (mset (remove1 y ys))" by simp
  have "add_mset x (mset xs) = add_mset (f y) (image_mset f (mset (remove1 y ys)))" using Cons.prems unfolding m by simp
  then have "mset xs = image_mset f (mset (remove1 y ys))" unfolding y(2) by simp
  from Cons.IH [OF this] obtain us where "mset us = mset (remove1 y ys)" "xs = map f us" by blast
  with m y(2) show ?case by (intro exI [of _ "y # us"]) simp
qed simp

lemma map_add:
  assumes m: "map_ok m" "mp_nCount m < 2 ^ 27" and d: "mp_pPairs m = Some d" and k: "mp_map m k = None"
  shows "\<exists>m' st. XMap_Put ok ok' m k (Some x) = Some (m', st) \<and>
    (st < 0 \<and> m' = m \<and> (\<exists>n. \<not> ok n) \<or>
     st = XMAP_OK \<and> map_ok m' \<and> (\<exists>d'. mp_pPairs m' = Some d' \<and> mset (used_pairs d') = add_mset (k, Some x) (mset (used_pairs d))))"
proof -
  have w: "mp_wf m" "mp_nTableSize m < 2 ^ 30" "mp_nDeleted m = 0" "mp_bAllowUpdate m" "mp_clearCb m" using m by (auto simp: map_ok_def)
  from Put_no_tombstone [OF w(1-3), of ok ok' k "Some x"] obtain m' st where p: "XMap_Put ok ok' m k (Some x) = Some (m', st)"
    "mp_nDeleted m' = 0" "if crowded m \<and> \<not> ok (grown m) then st = XMAP_OMEM \<and> m' = m
     else put_outcome True m k (Some x) m' st \<and> mp_pPairs m' \<noteq> None \<and>
       mp_nTableSize m' = (if crowded m then grown m else mp_nTableSize m)" by blast
  show ?thesis
  proof (cases "crowded m \<and> \<not> ok (grown m)")
    case True
    with p show ?thesis by auto
  next
    case False
    with p have o: "put_outcome True m k (Some x) m' st" "mp_pPairs m' \<noteq> None"
      "mp_nTableSize m' = (if crowded m then grown m else mp_nTableSize m)" by (auto split: if_splits)
    from o(1) w(4) have o1: "mp_wf m'" "mp_clearCb m'" "mp_bAllowUpdate m'" "mp_map m' = (mp_map m)(k \<mapsto> Some x)" "st = XMAP_OK"
      using w(5) by (auto simp: put_outcome_def)
    have "mp_nTableSize m' < 2 ^ 30"
      using o(3) w(2) m(2) d by (auto simp: crowded_def grown_def split: if_splits)
    then have ok: "map_ok m'" using o1 p(2) by (simp add: map_ok_def)
    obtain d' where d': "mp_pPairs m' = Some d'" using o(2) by auto
    note W = wf_table [OF w(1) d] and W' = wf_table [OF o1(1) d']
    have "mset (used_pairs d') = mset ((k, Some x) # used_pairs d)"
    proof (rule map_of_mset)
      show "distinct (map fst (used_pairs d'))" using W'(1) by (simp add: tbl_ok_def)
      have "k \<notin> fst ` set (used_pairs d)" using k W(4) by (simp add: map_of_eq_None_iff)
      then show "distinct (map fst ((k, Some x) # used_pairs d))" using W(1) by (simp add: tbl_ok_def)
      show "map_of (used_pairs d') = map_of ((k, Some x) # used_pairs d)" using o1(4) W(4) W'(4) by simp
    qed
    then show ?thesis using p(1) o1(5) ok d' by auto
  qed
qed

lemma GetIndex_map: "mp_wf m \<Longrightarrow> \<exists>i. XMap_GetIndex m k 0 = Some (case mp_map m k of None \<Rightarrow> None | Some v \<Rightarrow> v, i)"
  using map_Get_spec(2) [of m k] by (cases "XMap_GetIndex m k 0") (auto simp: XMap_Get_def)

text \<open>The oracle is the same, the counter does not go back, and \<open>F\<close> is all that may change in the heap.\<close>

definition jm_step :: "jmem \<Rightarrow> nat set \<Rightarrow> jmem \<Rightarrow> bool" where
  "jm_step M F M' \<longleftrightarrow> jm_ok M' = jm_ok M \<and> jm_grow M' = jm_grow M \<and> jm_tick M \<le> jm_tick M' \<and> (\<forall>x. x \<notin> F \<longrightarrow> jm_heap M' x = jm_heap M x)"

lemma jm_step_refl [simp]: "jm_step M F M"
  by (simp add: jm_step_def)

lemma jm_step_trans: "jm_step M F M1 \<Longrightarrow> jm_step M1 G M2 \<Longrightarrow> jm_step M (F \<union> G) M2"
  by (simp add: jm_step_def)

lemma jm_step_mono: "jm_step M F M1 \<Longrightarrow> F \<subseteq> G \<Longrightarrow> jm_step M G M1"
  by (auto simp: jm_step_def)

lemma rep_step: "rep (jm_heap M) a nm v F \<Longrightarrow> jm_step M G M' \<Longrightarrow> F \<inter> G = {} \<Longrightarrow> rep (jm_heap M') a nm v F"
  by (erule rep_frame) (auto simp: jm_step_def)

text \<open>Whether the object at \<open>a\<close> may replace members.\<close>

definition fixed_members :: "jmem \<Rightarrow> nat \<Rightarrow> bool" where
  "fixed_members M a \<longleftrightarrow> (\<exists>ob. jm_heap M a = Some ob \<and> \<not> ob_nAllowUpdate ob)"

lemma AddObject_member:
  assumes M: "jm_wf M" and dst: "rep (jm_heap M) dst nm (JObj kvs) F" "fixed_members M dst" and src: "rep (jm_heap M) src (Some k) v G"
    and disj: "F \<inter> G = {}" and len: "length kvs < 2 ^ 27"
  shows "\<exists>M' e. XJSON_AddObject M (Some dst) (Some src) = Some (M', e) \<and> jm_wf M' \<and> jm_step M {dst} M' \<and> fixed_members M' dst \<and>
    (if e = XJSON_ERR_NONE then k \<notin> fst ` set kvs \<and> rep (jm_heap M') dst nm (JObj (kvs @ [(k, v)])) (F \<union> G)
     else jm_heap M' = jm_heap M \<and> (e = XJSON_ERR_EXITS \<and> k \<in> fst ` set kvs \<or> e = XJSON_ERR_ALLOC \<and> (\<exists>t n. \<not> jm_ok M t n)))"
proof -
  from dst(1) obtain ob m d ts F1 where D: "jm_heap M dst = Some ob" "ob_pName ob = nm" "ob_nType ob = XJSON_TYPE_OBJECT"
    "ob_pData ob = Map m" "map_ok m" "mp_pPairs m = Some d" "used_pairs d = map (\<lambda>t. (the (nam t), Some (addr t))) ts"
    "\<forall>t \<in> set ts. nam t \<noteq> None" "reps (jm_heap M) ts F1" "dst \<notin> F1" "mset kvs = mset (map (\<lambda>t. (the (nam t), val t)) ts)"
    "F = insert dst F1" by (auto elim!: rep_JObj)
  have au: "\<not> ob_nAllowUpdate ob" using dst(2) D(1) by (simp add: fixed_members_def)
  from src obtain sb where S: "jm_heap M src = Some sb" "ob_pName sb = Some k" by (cases rule: rep.cases) auto
  have w: "mp_wf m" using D(5) by (simp add: map_ok_def)
  note W = wf_table [OF w D(6)]
  have keys: "fst ` set kvs = (\<lambda>t. the (nam t)) ` set ts"
  proof -
    have "set kvs = set (map (\<lambda>t. (the (nam t), val t)) ts)" by (rule mset_eq_setD [OF D(11)])
    then show ?thesis by (simp add: image_image)
  qed
  have len': "mp_nCount m = length kvs" 
  proof -
    have "length kvs = length ts" using mset_eq_length [OF D(11)] by simp
    then show ?thesis unfolding W(2) D(7) by simp
  qed
  let ?M = "M\<lparr>jm_tick := jm_tick M + 2\<rparr>"
  have wfM: "jm_wf ?M" using jm_wf_tick [OF M] by simp
  obtain i where gi: "XMap_GetIndex m k 0 = Some (case mp_map m k of None \<Rightarrow> None | Some v \<Rightarrow> v, i)" using GetIndex_map [OF w] by blast
  show ?thesis
  proof (cases "mp_map m k")
    case (Some y)
    then have "(k, y) \<in> set (used_pairs d)" using W(4) map_of_SomeD by metis
    then obtain t where t: "t \<in> set ts" "k = the (nam t)" "y = Some (addr t)" using D(7) by auto
    then have "k \<in> fst ` set kvs" using keys by auto
    moreover have "XJSON_AddObject M (Some dst) (Some src) = Some (?M, XJSON_ERR_EXITS)"
      using D S gi Some t(3) au by (simp add: XJSON_AddObject_def Let_def)
    ultimately show ?thesis using wfM D(1) au by (intro exI [of _ ?M] exI [of _ XJSON_ERR_EXITS]) (auto simp: jm_step_def fixed_members_def)
  next
    case None
    have kn: "k \<notin> fst ` set kvs"
    proof
      assume "k \<in> fst ` set kvs"
      then have "k \<in> fst ` set (used_pairs d)" unfolding keys D(7) by (auto simp: image_iff)
      with None W(4) show False by (simp add: map_of_eq_None_iff)
    qed
    from map_add [OF D(5) _ D(6) None, of "jm_ok M (jm_tick M)" "jm_ok M (jm_tick M + 1) 0" src] len len' obtain m' st where
      p: "XMap_Put (jm_ok M (jm_tick M)) (jm_ok M (jm_tick M + 1) 0) m k (Some src) = Some (m', st)"
      "st < 0 \<and> m' = m \<and> (\<exists>n. \<not> jm_ok M (jm_tick M) n) \<or> st = XMAP_OK \<and> map_ok m' \<and>
        (\<exists>d'. mp_pPairs m' = Some d' \<and> mset (used_pairs d') = add_mset (k, Some src) (mset (used_pairs d)))" by auto
    let ?M' = "store ?M dst (ob\<lparr>ob_pData := Map m'\<rparr>)"
    have E: "XJSON_AddObject M (Some dst) (Some src) = Some (?M', if st < 0 then XJSON_ERR_ALLOC else XJSON_ERR_NONE)"
      using D S gi None p(1) by (simp add: XJSON_AddObject_def Let_def)
    have wf': "jm_wf ?M'" using wfM D(1) by (auto simp: jm_wf_def store_def)
    have st': "jm_step M {dst} ?M'" by (simp add: jm_step_def store_def)
    have fx: "fixed_members ?M' dst" using au by (simp add: fixed_members_def store_def)
    from p(2) show ?thesis
    proof
      assume q: "st < 0 \<and> m' = m \<and> (\<exists>n. \<not> jm_ok M (jm_tick M) n)"
      then have "ob\<lparr>ob_pData := Map m'\<rparr> = ob" using D(4) by simp
      then have "jm_heap ?M' = jm_heap M" using D(1) by (simp add: store_def fun_upd_idem)
      then show ?thesis using E wf' st' fx q by (intro exI [of _ ?M'] exI [of _ XJSON_ERR_ALLOC]) auto
    next
      assume q: "st = XMAP_OK \<and> map_ok m' \<and>
        (\<exists>d'. mp_pPairs m' = Some d' \<and> mset (used_pairs d') = add_mset (k, Some src) (mset (used_pairs d)))"
      then obtain d' where d': "mp_pPairs m' = Some d'" "mset (used_pairs d') = add_mset (k, Some src) (mset (used_pairs d))" by blast
      let ?ts = "(src, Some k, v) # ts"
      let ?f = "\<lambda>t :: nat \<times> byte list option \<times> jval. (the (nam t), Some (addr t))"
      have "mset (used_pairs d') = image_mset ?f (mset ?ts)" using d'(2) D(7) by simp
      from map_preimage [OF this] obtain us where us: "mset us = mset ?ts" "used_pairs d' = map ?f us" by blast
      have dG: "dst \<notin> G" using disj D(12) by auto
      have "reps (jm_heap M) ?ts (G \<union> F1)" using src D(9) disj D(12) by (intro reps_cons) auto
      from reps_perm [OF this us(1)] have "reps (jm_heap M) us (G \<union> F1)" .
      then have r: "reps (jm_heap ?M') us (G \<union> F1)"
        by (rule rep_frame(2)) (use dG D(10) in \<open>auto simp: store_def\<close>)
      have su: "set us = set ?ts" by (rule mset_eq_setD [OF us(1)])
      have "rep (jm_heap ?M') dst nm (JObj (kvs @ [(k, v)])) (insert dst (G \<union> F1))"
      proof (rule rep_obj [OF _ _ _ _ _ d'(1) us(2) _ r])
        show "jm_heap ?M' dst = Some (ob\<lparr>ob_pData := Map m'\<rparr>)" by (simp add: store_def)
        show "\<forall>t \<in> set us. nam t \<noteq> None" using D(8) su by auto
        show "mset (kvs @ [(k, v)]) = mset (map (\<lambda>t. (the (nam t), val t)) us)" using D(11) us(1) by simp
        show "dst \<notin> G \<union> F1" using dG D(10) by simp
      qed (use D q in auto)
      moreover have "insert dst (G \<union> F1) = F \<union> G" using D(12) by auto
      ultimately show ?thesis using E wf' st' fx q kn by (intro exI [of _ ?M'] exI [of _ XJSON_ERR_NONE]) auto
    qed
  qed
qed

text \<open>
  Adding to an array. When the entry is made but the table cannot grow, the array has released the object:
  \<open>XArray_Add\<close> hands it to the callback of the array.
\<close>

lemma cells_spec: "pmalloc_spec (cells M t)"
  by (simp add: pmalloc_spec_def cells_def)

lemma Realloc_keeps: "XArray_Realloc m a = Some (a', n) \<Longrightarrow> ar_clearCb a' = ar_clearCb a \<and> ar_nFixed a' = ar_nFixed a"
  unfolding XArray_Realloc_def Let_def by (simp split: if_splits option.splits bind_splits) auto

lemma CheckSpace_keeps:
  "XArray_CheckSpace m a = Some (a', b) \<Longrightarrow> ar_pData a \<noteq> None \<Longrightarrow> ar_clearCb a' = ar_clearCb a \<and> ar_nFixed a' = ar_nFixed a"
  unfolding XArray_CheckSpace_def by (auto split: if_splits bind_splits dest: Realloc_keeps)

lemma Add_keeps:
  assumes "XArray_Add m a e = Some (a', st)" "ar_pData a \<noteq> None"
  shows "ar_clearCb a' = ar_clearCb a \<and> ar_nFixed a' = ar_nFixed a"
proof -
  from assms(1) obtain a1 b where c: "XArray_CheckSpace m a = Some (a1, b)" by (auto simp: XArray_Add_def split: bind_splits)
  with assms(1) have "ar_clearCb a' = ar_clearCb a1 \<and> ar_nFixed a' = ar_nFixed a1"
    by (cases b) (auto simp: XArray_Add_def XArray_ClearData_def split: bind_splits option.splits)
  with CheckSpace_keeps [OF c assms(2)] show ?thesis by simp
qed

lemma Add_at_full:
  assumes m: "pmalloc_spec m" and a: "ar_rep a xs" "ar_pData a = Some d" "\<not> ar_nFixed a" "ar_nUsed a = ar_nSize a" "0 < ar_nSize a" "ar_nSize a < 2 ^ 28"
  shows "if m (sz (8 * (ar_nSize a * 2))) = None
    then XArray_Add m a (Some x) = Some (XArray_ClearData (a\<lparr>ar_eStatus := XARRAY_STATUS_NO_MEMORY\<rparr>) (Some x), XARRAY_FAILURE)
    else \<exists>a'. XArray_Add m a (Some x) = Some (a', int (length xs)) \<and> ar_rep a' (xs @ [Some x]) \<and> ar_pData a' \<noteq> None \<and> ar_freed a' = ar_freed a \<and>
      ar_nSize a' = ar_nSize a * 2"
proof -
  let ?s = "ar_nSize a"
  have d: "d = xs" "length xs = ?s" using a(1,2,4) by (auto simp: ar_rep_def)
  have n: "sz (?s * 2) = ?s * 2" using a(6) by simp
  show ?thesis
  proof (cases "m (sz (8 * (?s * 2)))")
    case None
    then show ?thesis using a n
      by (simp add: XArray_Add_def XArray_CheckSpace_def XArray_Realloc_def Let_def)
  next
    case (Some d0)
    then have len: "length d0 = ?s * 2" using m a(6) by (auto simp: pmalloc_spec_def)
    have rd: "mread xs 0 ?s = Some xs" using d by (simp add: mread_def)
    have cp: "memcpy d0 0 xs = Some (xs @ drop ?s d0)" using d len by (simp add: memcpy_def)
    have fl: "fill_null (xs @ drop ?s d0) ?s (?s * 2) = Some (xs @ replicate ?s None)"
      using fill_null_Some [of ?s "?s * 2" "xs @ drop ?s d0"] d len by simp
    let ?a = "a\<lparr>ar_pData := Some (xs @ replicate ?s None), ar_nSize := ?s * 2\<rparr>"
    have "XArray_Realloc m a = Some (?a, ?s * 2)"
      using a Some n d by (simp add: XArray_Realloc_def Let_def rd cp fl)
    then have "XArray_CheckSpace m a = Some (?a, True)" using a by (simp add: XArray_CheckSpace_def)
    moreover have "XArray_CheckSpace m ?a = Some (?a, True)" using a by (simp add: XArray_CheckSpace_def)
    ultimately have E: "XArray_Add m a (Some x) = XArray_Add m ?a (Some x)" by (simp add: XArray_Add_def)
    have "ar_rep ?a xs" using a d by (intro ar_repI) auto
    from Add_room [OF this, of m "Some x"] a E Some show ?thesis by auto
  qed
qed

lemma AddObject_item:
  assumes M: "jm_wf M" and dst: "rep (jm_heap M) dst nm (JArr vs) F" "fixed_members M dst" and src: "rep (jm_heap M) src None v G"
    and disj: "F \<inter> G = {}" and len: "length vs < 2 ^ 27"
  shows "\<exists>M' e. XJSON_AddObject M (Some dst) (Some src) = Some (M', e) \<and> jm_wf M' \<and> jm_step M ({dst} \<union> G) M' \<and> fixed_members M' dst \<and>
    (if e = XJSON_ERR_NONE then rep (jm_heap M') dst nm (JArr (vs @ [v])) (F \<union> G) \<and> (\<forall>x \<in> G. jm_heap M' x = jm_heap M x)
     else e = XJSON_ERR_ALLOC \<and> rep (jm_heap M') dst nm (JArr vs) F \<and>
       ((\<forall>x \<in> G. jm_heap M' x = jm_heap M x) \<and> (\<exists>t n. \<not> jm_ok M t n) \<or>
        (\<forall>x \<in> G. jm_heap M' x = None) \<and> (\<exists>t n. \<not> jm_grow M t n)))"
proof -
  from dst(1) obtain ob r ts F1 where D: "jm_heap M dst = Some ob" "ob_pName ob = nm" "ob_nType ob = XJSON_TYPE_ARRAY"
    "ob_pData ob = Arr r" "arr_ok r" "ar_rep r (map (\<lambda>t. Some (arr_entry (addr t))) ts)" "\<forall>t \<in> set ts. nam t = None"
    "reps (jm_heap M) ts F1" "dst \<notin> F1" "vs = map val ts" "F = insert dst F1" by (auto elim!: rep_JArr)
  have au: "\<not> ob_nAllowUpdate ob" using dst(2) D(1) by (simp add: fixed_members_def)
  from src obtain sb where S: "jm_heap M src = Some sb" "ob_pName sb = None" by (cases rule: rep.cases) auto
  have dG: "dst \<notin> G" "src \<in> G" "src \<noteq> dst" using disj D(11) rep_root [OF src] by auto
  let ?t = "jm_tick M" and ?M = "M\<lparr>jm_tick := jm_tick M + 2\<rparr>" and ?xs = "map (\<lambda>t. Some (arr_entry (addr t))) ts"
  have wfM: "jm_wf ?M" using jm_wf_tick [OF M] by simp
  define S' where "S' r' = store ?M dst (ob\<lparr>ob_pData := Arr r'\<rparr>)" for r'
  have sf: "jm_wf (S' r')" "jm_step M {dst} (S' r')" "fixed_members (S' r') dst" "\<And>x. x \<noteq> dst \<Longrightarrow> jm_heap (S' r') x = jm_heap M x"
    "jm_heap (S' r') dst = Some (ob\<lparr>ob_pData := Arr r'\<rparr>)" for r'
    using wfM D(1) au by (auto simp: S'_def jm_wf_def store_def jm_step_def fixed_members_def)
  have sG: "\<forall>x \<in> G. jm_heap (S' r') x = jm_heap M x" for r' using sf(4) dG(1) by metis
  have old: "rep (jm_heap (S' r')) dst nm (JArr vs) F" if "arr_ok r'" "ar_rep r' ?xs" for r'
  proof -
    have "reps (jm_heap (S' r')) ts F1" by (rule rep_frame(2) [OF D(8)], rule sf(4)) (use D(9) in auto)
    from rep_arr [OF sf(5) _ _ _ that D(7) this D(9)] show ?thesis using D(2,3,10,11) by simp
  qed
  let ?free = "\<lambda>M a. XJSON_FreeObject M (Some a)"
  have cb: "ar_clearCb r" using D(5) by (simp add: arr_ok_def)
  have E: "XJSON_AddObject M (Some dst) (Some src) = do {
      (r', st) \<leftarrow> XArray_AddData (jm_ok M ?t 24) False (cells M (?t + 1)) r (Some src) 0;
      M \<leftarrow> free_all ?free (S' r') (map XJSON_ArrayClearCb (drop (length (ar_freed r)) (ar_freed r')));
      Some (M, if st < 0 then XJSON_ERR_ALLOC else XJSON_ERR_NONE) }"
    using D(1,3,4) S cb by (simp add: XJSON_AddObject_def Let_def S'_def cells_def [abs_def])
  show ?thesis
  proof (cases "jm_ok M ?t 24")
    case False
    let ?r = "r\<lparr>ar_eStatus := XARRAY_STATUS_NO_MEMORY\<rparr>"
    have "XArray_AddData (jm_ok M ?t 24) False (cells M (?t + 1)) r (Some src) 0 = Some (?r, XARRAY_FAILURE)"
      using False by (simp add: XArray_AddData_def XArray_NewData_def add_entry_def)
    then have "XJSON_AddObject M (Some dst) (Some src) = Some (S' ?r, XJSON_ERR_ALLOC)" unfolding E by simp
    moreover have "rep (jm_heap (S' ?r)) dst nm (JArr vs) F" using D(5,6) by (intro old) (auto simp: arr_ok_def)
    ultimately show ?thesis using sf(1,2,3,5) [of ?r] sG [of ?r] False dG jm_step_mono [OF sf(2) [of ?r], of "{dst} \<union> G"]
      by (intro exI [of _ "S' ?r"] exI [of _ XJSON_ERR_ALLOC]) auto
  next
    case ent: True
    have s28: "ar_nSize r < 2 ^ 28" using D(5) by (simp add: arr_ok_def)
    have A: "XArray_AddData (jm_ok M ?t 24) False (cells M (?t + 1)) r (Some src) 0 =
        XArray_Add (cells M (?t + 1)) r (Some (arr_entry src))"
      using ent by (simp add: XArray_AddData_def XArray_NewData_def add_entry_def arr_entry_def)
    have rd: "ar_pData r \<noteq> None" "\<not> ar_nFixed r" "0 < ar_nSize r" "length ts = ar_nUsed r" "ar_nUsed r \<le> ar_nSize r"
      using D(5,6) by (auto simp: arr_ok_def ar_rep_def)
    have good: ?thesis if a': "XArray_Add (cells M (?t + 1)) r (Some (arr_entry src)) = Some (r', int (length ?xs))"
      "ar_rep r' (?xs @ [Some (arr_entry src)])" "ar_pData r' \<noteq> None" "ar_freed r' = ar_freed r" "0 < ar_nSize r'" "ar_nSize r' < 2 ^ 28" for r'
    proof -
      from Add_keeps [OF a'(1) rd(1)] have ok': "arr_ok r'" using a' rd(2) cb by (simp add: arr_ok_def)
      have E': "XJSON_AddObject M (Some dst) (Some src) = Some (S' r', XJSON_ERR_NONE)" unfolding E A a'(1) using a'(4) by simp
      have "reps (jm_heap M) ((src, None, v) # []) (G \<union> {})" by (rule reps_cons [OF src reps_nil]) simp
      then have "reps (jm_heap M) (ts @ [(src, None, v)]) (F1 \<union> G)" using disj D(11) by (intro reps_append [OF D(8)]) auto
      then have "reps (jm_heap (S' r')) (ts @ [(src, None, v)]) (F1 \<union> G)"
        by (rule rep_frame(2), intro sf(4)) (use D(9) dG in auto)
      from rep_arr [OF sf(5) _ _ _ ok' _ _ this] have "rep (jm_heap (S' r')) dst nm (JArr (vs @ [v])) (F \<union> G)"
        using D(2,3,7,9,10,11) dG(1) a'(2) by (simp add: insert_Diff_if)
      then show ?thesis using E' sf(1,2,3,5) [of r'] sG [of r'] dG jm_step_mono [OF sf(2) [of r'], of "{dst} \<union> G"]
        by (intro exI [of _ "S' r'"] exI [of _ XJSON_ERR_NONE]) auto
    qed
    show ?thesis
    proof (cases "ar_nUsed r < ar_nSize r")
      case True
      from Add_room [OF D(6) rd(1) this, of "cells M (?t + 1)" "Some (arr_entry src)"] obtain a' where
        b: "XArray_Add (cells M (?t + 1)) r (Some (arr_entry src)) = Some (a', int (length ?xs))"
          "ar_rep a' (?xs @ [Some (arr_entry src)])" "ar_pData a' \<noteq> None" "ar_freed a' = ar_freed r" "ar_nSize a' = ar_nSize r" by blast
      show ?thesis by (rule good [OF b(1-4)]) (use b(5) rd(3) s28 in simp_all)
    next
      case False
      then have u: "ar_nUsed r = ar_nSize r" using rd(5) by simp
      obtain d where d: "ar_pData r = Some d" using rd(1) by auto
      note F = Add_at_full [OF cells_spec [of M "?t + 1"] D(6) d rd(2) u rd(3) s28, of "arr_entry src"]
      show ?thesis
      proof (cases "cells M (?t + 1) (sz (8 * (ar_nSize r * 2))) = (None :: nat xarray_data option list option)")
        case False
        have "ar_nSize r * 2 < 2 ^ 28" using len u rd(4) D(10) by simp
        moreover from F False obtain a' where
          b: "XArray_Add (cells M (?t + 1)) r (Some (arr_entry src)) = Some (a', int (length ?xs))"
            "ar_rep a' (?xs @ [Some (arr_entry src)])" "ar_pData a' \<noteq> None" "ar_freed a' = ar_freed r" "ar_nSize a' = ar_nSize r * 2" by auto
        ultimately show ?thesis by (intro good [OF b(1-4)]) (use b(5) rd(3) in simp_all)
      next
        case True
        let ?r = "XArray_ClearData (r\<lparr>ar_eStatus := XARRAY_STATUS_NO_MEMORY\<rparr>) (Some (arr_entry src))"
        from F True have a': "XArray_Add (cells M (?t + 1)) r (Some (arr_entry src)) = Some (?r, XARRAY_FAILURE)" by simp
        have "\<not> jm_grow M (?t + 1) (sz (8 * (ar_nSize r * 2)))" using True by (auto simp: cells_def split: if_splits)
        then have gr: "\<exists>t n. \<not> jm_grow M t n" by blast
        have r': "arr_ok ?r" "ar_rep ?r ?xs" using D(5,6) by (auto simp: arr_ok_def XArray_ClearData_def)
        note old' = old [OF r']
        have "rep (jm_heap (S' ?r)) src None v G" by (rule rep_frame(1) [OF src], rule sf(4)) (use dG in auto)
        from FreeObject_rep [OF sf(1) this] have fr: "XJSON_FreeObject (S' ?r) (Some src) = Some (wipe (S' ?r) G)" "jm_wf (wipe (S' ?r) G)" .
        have fd: "ar_freed ?r = ar_freed r @ [arr_entry src]" by (simp add: XArray_ClearData_def)
        have "XJSON_AddObject M (Some dst) (Some src) = Some (wipe (S' ?r) G, XJSON_ERR_ALLOC)"
          unfolding E A a' using fr fd by (simp add: XJSON_ArrayClearCb_def arr_entry_def)
        moreover have "rep (jm_heap (wipe (S' ?r) G)) dst nm (JArr vs) F" by (rule rep_frame(1) [OF old']) (use disj in auto)
        moreover have "jm_step M ({dst} \<union> G) (wipe (S' ?r) G)" using sf(2) [of ?r] by (auto simp: jm_step_def)
        moreover have "fixed_members (wipe (S' ?r) G) dst" using sf(3) [of ?r] dG by (simp add: fixed_members_def)
        ultimately show ?thesis using fr(2) gr by (intro exI [of _ "wipe (S' ?r) G"] exI [of _ XJSON_ERR_ALLOC]) auto
      qed
    qed
  qed
qed

section \<open>Creating\<close>

text \<open>Some request for memory may be refused.\<close>

definition scarce :: "jmem \<Rightarrow> bool" where
  "scarce M \<longleftrightarrow> (\<exists>t n. \<not> jm_ok M t n) \<or> (\<exists>t n. \<not> jm_grow M t n)"

lemma scarce_step: "jm_step M F M' \<Longrightarrow> scarce M' = scarce M"
  by (simp add: scarce_def jm_step_def)

text \<open>The outcome of a constructor: a new object, or nothing and a refused request.\<close>

definition made :: "jmem \<Rightarrow> byte list option \<Rightarrow> jval \<Rightarrow> jmem \<Rightarrow> nat option \<Rightarrow> bool" where
  "made M nm v M' p \<longleftrightarrow> jm_wf M' \<and>
     (case p of None \<Rightarrow> jm_step M {} M' \<and> scarce M
      | Some a \<Rightarrow> jm_heap M a = None \<and> jm_step M {a} M' \<and> rep (jm_heap M') a nm v {a} \<and> fixed_members M' a)"

lemma jalloc_simps [simp]: "jm_heap (fst (jalloc M n)) = jm_heap M" "jm_ok (fst (jalloc M n)) = jm_ok M" "jm_grow (fst (jalloc M n)) = jm_grow M"
  "jm_tick (fst (jalloc M n)) = Suc (jm_tick M)" "snd (jalloc M n) = jm_ok M (jm_tick M) n"
  by (simp_all add: jalloc_def)

lemma CreateObject_spec:
  assumes "jm_wf M" "XJSON_CreateObject M nm data t = (M', p)"
  shows "jm_wf M' \<and> (case p of None \<Rightarrow> jm_step M {} M' \<and> scarce M
    | Some a \<Rightarrow> jm_heap M a = None \<and> jm_step M {a} M' \<and> jm_heap M' a =
        Some \<lparr>ob_nType = t, ob_nAllowUpdate = False, ob_nAllowLinter = True, ob_pName = nm, ob_pData = data\<rparr>)"
proof -
  have new: "jm_heap M (jm_tick M) = None" using assms(1) by (force simp: jm_wf_def)
  have w: "jm_wf (M\<lparr>jm_tick := n\<rparr>)" "jm_tick M < n \<Longrightarrow> jm_wf (store (M\<lparr>jm_tick := n\<rparr>) (jm_tick M) ob)" if "jm_tick M \<le> n" for n ob
    using jm_wf_tick [OF assms(1) that] by (auto simp: jm_wf_def store_def)
  show ?thesis
    using assms(2) w [of "Suc (jm_tick M)"] w [of "Suc (Suc (jm_tick M))"] new
    by (auto simp: XJSON_CreateObject_def jalloc_def Let_def jm_step_def scarce_def store_def split: if_splits option.splits)
qed

lemma made_text:
  assumes "jm_wf M" "XJSON_CreateObject M nm (Text s) t = (M', p)" "t \<noteq> XJSON_TYPE_OBJECT" "t \<noteq> XJSON_TYPE_ARRAY"
  shows "made M nm (JText t s) M' p"
  using CreateObject_spec [OF assms(1,2)] assms(3,4)
  by (auto simp: made_def fixed_members_def split: option.splits intro!: rep_text)

lemma New_map: "\<exists>m. XMap_New True True blank_map XOBJ_INITIAL_SIZE = Some m \<and> map_ok (m\<lparr>mp_clearCb := True\<rparr>) \<and>
    (\<exists>d. mp_pPairs m = Some d \<and> used_pairs d = [])"
  using empty_tbl [of 2] by (auto simp: XMap_New_def XMap_Init_def XMap_Alloc_def map_ok_def mp_wf_def)

lemma NewObject_made:
  assumes "jm_wf M"
  shows "\<exists>M' p. XJSON_NewObject M nm False = Some (M', p) \<and> made M nm (JObj []) M' p"
proof -
  let ?M = "M\<lparr>jm_tick := Suc (Suc (jm_tick M))\<rparr>"
  have w: "jm_wf ?M" using jm_wf_tick [OF assms] by simp
  have st: "jm_step M {} ?M" by (simp add: jm_step_def)
  let ?ok1 = "jm_ok M (jm_tick M) 64" and ?ok2 = "jm_ok M (Suc (jm_tick M)) 48"
  show ?thesis
  proof (cases "?ok1 \<and> ?ok2")
    case False
    then have "XMap_New ?ok1 ?ok2 blank_map 2 = None" by (auto simp: XMap_New_def XMap_Init_def XMap_Alloc_def)
    then have "XJSON_NewObject M nm False = Some (?M, None)" by (simp add: XJSON_NewObject_def jalloc_def Let_def)
    then show ?thesis using w st False by (auto simp: made_def scarce_def)
  next
    case True
    obtain m d where m: "XMap_New True True blank_map 2 = Some m" "map_ok (m\<lparr>mp_clearCb := True\<rparr>)" "mp_pPairs m = Some d" "used_pairs d = []"
      using New_map by auto
    obtain M1 p where c: "XJSON_CreateObject ?M nm (Map (m\<lparr>mp_clearCb := True\<rparr>)) XJSON_TYPE_OBJECT = (M1, p)"
      by (cases "XJSON_CreateObject ?M nm (Map (m\<lparr>mp_clearCb := True\<rparr>)) XJSON_TYPE_OBJECT")
    note C = CreateObject_spec [OF w c]
    show ?thesis
    proof (cases p)
      case None
      then have "XJSON_NewObject M nm False = Some (M1, None)" using True m(1) c by (simp add: XJSON_NewObject_def jalloc_def Let_def allow_update_def)
      then show ?thesis using C None jm_step_trans [OF st, of "{}" M1] by (auto simp: made_def scarce_def)
    next
      case (Some a)
      with C have C': "jm_wf M1" "jm_heap M a = None" "jm_step ?M {a} M1" "jm_heap M1 a = Some \<lparr>ob_nType = XJSON_TYPE_OBJECT,
          ob_nAllowUpdate = False, ob_nAllowLinter = True, ob_pName = nm, ob_pData = Map (m\<lparr>mp_clearCb := True\<rparr>)\<rparr>" by auto
      then have "store M1 a (the (jm_heap M1 a)\<lparr>ob_nAllowUpdate := False\<rparr>) = M1" by (simp add: store_def fun_upd_idem)
      then have "XJSON_NewObject M nm False = Some (M1, Some a)"
        using True m(1) c C'(4) Some by (simp add: XJSON_NewObject_def jalloc_def Let_def allow_update_def)
      moreover have "rep (jm_heap M1) a nm (JObj []) {a}"
        using rep_obj [of "jm_heap M1" a _ nm "m\<lparr>mp_clearCb := True\<rparr>" d "[]" "{}" "[]", OF C'(4)] m(2-4) reps_nil by simp
      moreover have "jm_step M {a} M1" using jm_step_trans [OF st C'(3)] by simp
      ultimately show ?thesis using C' by (auto simp: made_def fixed_members_def)
    qed
  qed
qed

lemma NewArray_made:
  assumes "jm_wf M"
  shows "\<exists>M' p. XJSON_NewArray M nm False = Some (M', p) \<and> made M nm (JArr []) M' p"
proof -
  let ?t = "Suc (jm_tick M)" and ?M = "M\<lparr>jm_tick := Suc (Suc (jm_tick M))\<rparr>"
  have w: "jm_wf ?M" using jm_wf_tick [OF assms] by simp
  have st: "jm_step M {} ?M" by (simp add: jm_step_def)
  let ?ok = "jm_ok M (jm_tick M) 64" and ?gr = "jm_grow M ?t 16"
  have cl: "cells (M\<lparr>jm_tick := x\<rparr>) t = cells M t" for x t by (simp add: cells_def fun_eq_iff)
  show ?thesis
  proof (cases "?ok \<and> ?gr")
    case False
    then have "XArray_New ?ok (cells M ?t) blank_array 2 False = Some None"
      by (auto simp: XArray_New_def XArray_Init_def cells_def)
    then have "XJSON_NewArray M nm False = Some (?M, None)" by (simp add: XJSON_NewArray_def jalloc_def Let_def cl)
    then show ?thesis using w st False by (auto simp: made_def scarce_def)
  next
    case True
    let ?r = "blank_array\<lparr>ar_pData := Some [None, None], ar_nSize := 2, ar_nAlloc := True\<rparr>"
    have rp: "replicate 2 (None :: nat xarray_data option) = [None, None]" by (simp add: numeral_2_eq_2)
    then have "fill_null (replicate 2 None) 0 2 = Some [None, None :: nat xarray_data option]"
      using fill_null_Some [of 0 2 "replicate 2 (None :: nat xarray_data option)"] by simp
    then have r: "XArray_New ?ok (cells M ?t) blank_array 2 False = Some (Some ?r)"
      using True by (simp add: XArray_New_def XArray_Init_def cells_def)
    let ?r1 = "?r\<lparr>ar_clearCb := True\<rparr>"
    have ok: "arr_ok ?r1" "ar_rep ?r1 []" by (simp_all add: arr_ok_def ar_rep_def rp)
    obtain M1 p where c: "XJSON_CreateObject ?M nm (Arr ?r1) XJSON_TYPE_ARRAY = (M1, p)"
      by (cases "XJSON_CreateObject ?M nm (Arr ?r1) XJSON_TYPE_ARRAY")
    note C = CreateObject_spec [OF w c]
    show ?thesis
    proof (cases p)
      case None
      then have "XJSON_NewArray M nm False = Some (M1, None)" using r c by (simp add: XJSON_NewArray_def jalloc_def Let_def allow_update_def cl)
      then show ?thesis using C None jm_step_trans [OF st, of "{}" M1] by (auto simp: made_def scarce_def)
    next
      case (Some a)
      with C have C': "jm_wf M1" "jm_heap M a = None" "jm_step ?M {a} M1" "jm_heap M1 a = Some \<lparr>ob_nType = XJSON_TYPE_ARRAY,
          ob_nAllowUpdate = False, ob_nAllowLinter = True, ob_pName = nm, ob_pData = Arr ?r1\<rparr>" by auto
      then have "store M1 a (the (jm_heap M1 a)\<lparr>ob_nAllowUpdate := False\<rparr>) = M1" by (simp add: store_def fun_upd_idem)
      then have "XJSON_NewArray M nm False = Some (M1, Some a)"
        using r c C'(4) Some by (simp add: XJSON_NewArray_def jalloc_def Let_def allow_update_def cl)
      moreover have "rep (jm_heap M1) a nm (JArr (map val [])) {a}"
        using rep_arr [of "jm_heap M1" a _ nm ?r1 "[]" "{}", OF C'(4)] ok reps_nil by simp
      moreover have "jm_step M {a} M1" using jm_step_trans [OF st C'(3)] by simp
      ultimately show ?thesis using C' by (auto simp: made_def fixed_members_def)
    qed
  qed
qed

end
