(* ===== verification/JsonLex.thy ===== *)
theory JsonLex
  imports JsonObj
begin

text \<open>
  The lexical analyser of \<open>src/src/data/json.c\<close>. The text is a block of \<open>nDataSize\<close> bytes, read through
  the pointer \<open>pData\<close>; a token points into it by its offset. \<open>char\<close> is signed, so the byte 255 is the
  value \<open>EOF\<close> of the switch in \<open>XJSON_GetNextToken\<close>.

  The reference is the lexical grammar of RFC 8259: \<open>json_number\<close> and \<open>json_body\<close>, the text between
  the quotes of a string. The second has one more escape than the RFC, a backslash before a NUL byte,
  because \<open>strchr\<close> also finds the terminator of its string.
\<close>

datatype xjson_token_type =
    XJSON_TOKEN_INVALID | XJSON_TOKEN_COMMA | XJSON_TOKEN_COLON | XJSON_TOKEN_QUOTE | XJSON_TOKEN_LCURLY
  | XJSON_TOKEN_RCURLY | XJSON_TOKEN_LPAREN | XJSON_TOKEN_RPAREN | XJSON_TOKEN_LSQUARE | XJSON_TOKEN_RSQUARE
  | XJSON_TOKEN_INTEGER | XJSON_TOKEN_FLOAT | XJSON_TOKEN_BOOL | XJSON_TOKEN_NULL | XJSON_TOKEN_EOF

record xjson_token =
  jt_nType :: xjson_token_type
  jt_pData :: "nat option"
  jt_nLength :: nat

record xjson =
  js_lastToken :: xjson_token
  js_nError :: xjson_error
  js_pRootObj :: "nat option"
  js_pData :: "byte list option"
  js_nDataSize :: nat
  js_nOffset :: nat

section \<open>Operations\<close>

definition XJSON_Init :: "xjson \<Rightarrow> xjson" where
  "XJSON_Init j =
     \<lparr>js_lastToken = \<lparr>jt_nType = XJSON_TOKEN_INVALID, jt_pData = None, jt_nLength = 0\<rparr>, js_nError = XJSON_ERR_NONE,
      js_pRootObj = None, js_pData = None, js_nDataSize = 0, js_nOffset = 0\<rparr>"

definition XJSON_UnexpectedToken :: "xjson \<Rightarrow> xjson \<times> bool" where
  "XJSON_UnexpectedToken j =
     (let t = js_lastToken j;
          off = sz (js_nOffset j + 2 ^ 64 - jt_nLength t);
          off = (if jt_nType t = XJSON_TOKEN_QUOTE then sz (off + 2 ^ 64 - 2) else off)
      in (j\<lparr>js_nError := XJSON_ERR_UNEXPECTED, js_nOffset := off\<rparr>, False))"

definition XJSON_UnexpectedEOF :: "xjson \<Rightarrow> xjson \<times> bool" where
  "XJSON_UnexpectedEOF j = (j\<lparr>js_nError := XJSON_ERR_BOUNDS, js_nOffset := js_nDataSize j\<rparr>, False)"

definition XJSON_UndoLastToken :: "xjson \<Rightarrow> xjson \<times> bool" where
  "XJSON_UndoLastToken j = (j\<lparr>js_nOffset := sz (js_nOffset j + 2 ^ 64 - jt_nLength (js_lastToken j))\<rparr>, True)"

definition XJSON_CheckBounds :: "xjson \<Rightarrow> xjson \<times> bool" where
  "XJSON_CheckBounds j =
     (if js_nDataSize j \<le> js_nOffset j then (j\<lparr>js_nError := XJSON_ERR_BOUNDS\<rparr>, False) else (j, True))"

text \<open>Reading a byte through a pointer that may be NULL.\<close>

definition cpeek :: "byte list option \<Rightarrow> nat \<Rightarrow> byte option" where
  "cpeek p i = do { d \<leftarrow> p; peek d i }"

definition is_ws :: "byte \<Rightarrow> bool" where
  "is_ws c \<longleftrightarrow> c = 32 \<or> c = 10 \<or> c = 13 \<or> c = 9"

definition is_digit :: "byte \<Rightarrow> bool" where
  "is_digit c \<longleftrightarrow> 48 \<le> c \<and> c \<le> 57"

definition is_xdigit :: "byte \<Rightarrow> bool" where
  "is_xdigit c \<longleftrightarrow> is_digit c \<or> 65 \<le> c \<and> c \<le> 70 \<or> 97 \<le> c \<and> c \<le> 102"

text \<open>The loop of \<open>XJSON_NextChar\<close>: the offset reached and the character, if there is one.\<close>

function next_char :: "byte list option \<Rightarrow> nat \<Rightarrow> nat \<Rightarrow> (nat \<times> byte option) option" where
  "next_char p n off =
     (if off < n
      then do { c \<leftarrow> cpeek p off; if is_ws c then next_char p n (Suc off) else Some (Suc off, Some c) }
      else Some (off, None))"
  by pat_completeness auto
termination by (relation "measure (\<lambda>(_, n, off). n - off)") auto

declare next_char.simps [simp del]

definition XJSON_NextChar :: "xjson \<Rightarrow> (xjson \<times> byte option) option" where
  "XJSON_NextChar j = do {
     (off, r) \<leftarrow> next_char (js_pData j) (js_nDataSize j) (js_nOffset j);
     Some (if r = None then j\<lparr>js_nOffset := off, js_nError := XJSON_ERR_BOUNDS\<rparr> else j\<lparr>js_nOffset := off\<rparr>, r) }"

function skip_digits :: "byte list option \<Rightarrow> nat \<Rightarrow> nat \<Rightarrow> nat option" where
  "skip_digits p n i =
     (if i < n then do { c \<leftarrow> cpeek p i; if is_digit c then skip_digits p n (Suc i) else Some i } else Some i)"
  by pat_completeness auto
termination by (relation "measure (\<lambda>(_, n, i). n - i)") auto

declare skip_digits.simps [simp del]

text \<open>
  The scan of a number: the end reached, and whether it is a float; \<open>Inl True\<close> when the text ends too
  early, \<open>Inl False\<close> at an unexpected character. The character at \<open>i\<close>, if \<open>i\<close> is in bounds and
  it is one of \<open>P\<close>: \<open>at_char\<close>.
\<close>

definition at_char :: "byte list option \<Rightarrow> nat \<Rightarrow> nat \<Rightarrow> (byte \<Rightarrow> bool) \<Rightarrow> bool option" where
  "at_char p n i P = (if i < n then do { c \<leftarrow> cpeek p i; Some (P c) } else Some False)"

definition scan_digits :: "byte list option \<Rightarrow> nat \<Rightarrow> nat \<Rightarrow> (bool + nat) option" where
  "scan_digits p n i =
     (if n \<le> i then Some (Inl True)
      else do { c \<leftarrow> cpeek p i; if is_digit c then map_option Inr (skip_digits p n i) else Some (Inl False) })"

definition scan_int :: "byte list option \<Rightarrow> nat \<Rightarrow> nat \<Rightarrow> (bool + nat) option" where
  "scan_int p n i = do {
     c \<leftarrow> cpeek p i;
     if c = 48 then do { bad \<leftarrow> at_char p n (Suc i) is_digit; Some (if bad then Inl False else Inr (Suc i)) }
     else if 49 \<le> c \<and> c \<le> 57 then map_option Inr (skip_digits p n i)
     else Some (Inl False) }"

definition scan_frac :: "byte list option \<Rightarrow> nat \<Rightarrow> nat \<Rightarrow> (bool + nat \<times> bool) option" where
  "scan_frac p n i = do {
     dot \<leftarrow> at_char p n i (\<lambda>c. c = 46);
     if dot then map_option (map_sum id (\<lambda>k. (k, True))) (scan_digits p n (Suc i)) else Some (Inr (i, False)) }"

definition scan_exp :: "byte list option \<Rightarrow> nat \<Rightarrow> nat \<Rightarrow> (bool + nat \<times> bool) option" where
  "scan_exp p n i = do {
     ex \<leftarrow> at_char p n i (\<lambda>c. c = 101 \<or> c = 69);
     if ex
     then do {
       sg \<leftarrow> at_char p n (Suc i) (\<lambda>c. c = 43 \<or> c = 45);
       map_option (map_sum id (\<lambda>k. (k, True))) (scan_digits p n (if sg then Suc (Suc i) else Suc i)) }
     else Some (Inr (i, False)) }"

text \<open>The two exits of the scans on a bad text.\<close>

definition scan_fail :: "xjson \<Rightarrow> bool \<Rightarrow> xjson \<times> bool" where
  "scan_fail j e = (if e then XJSON_UnexpectedEOF j else XJSON_UnexpectedToken j)"

definition set_type :: "xjson \<Rightarrow> xjson_token_type \<Rightarrow> xjson" where
  "set_type j t = j\<lparr>js_lastToken := (js_lastToken j)\<lparr>jt_nType := t\<rparr>\<rparr>"

definition XJSON_ParseDigit :: "xjson \<Rightarrow> (xjson \<times> bool) option" where
  "XJSON_ParseDigit j =
     (let j = set_type j XJSON_TOKEN_INVALID;
          p = js_pData j; n = js_nDataSize j; nStart = js_nOffset j - 1
      in do {
        c \<leftarrow> cpeek p nStart;
        let i = (if c = 45 then Suc nStart else nStart);
        if c = 45 \<and> n \<le> i then Some (XJSON_UnexpectedEOF j)
        else do {
          r \<leftarrow> scan_int p n i;
          (case r of Inl e \<Rightarrow> Some (scan_fail j e)
           | Inr i \<Rightarrow> do {
               r \<leftarrow> scan_frac p n i;
               (case r of Inl e \<Rightarrow> Some (scan_fail j e)
                | Inr (i, bFloat) \<Rightarrow> do {
                    r \<leftarrow> scan_exp p n i;
                    (case r of Inl e \<Rightarrow> Some (scan_fail j e)
                     | Inr (i, bExp) \<Rightarrow>
                         Some (j\<lparr>js_lastToken :=
                                   \<lparr>jt_nType = (if bFloat \<or> bExp then XJSON_TOKEN_FLOAT else XJSON_TOKEN_INTEGER),
                                    jt_pData = Some nStart, jt_nLength = i - nStart\<rparr>,
                                  js_nOffset := i\<rparr>, True)) }) }) } })"

datatype quote_end = Closed | Bad | Short

text \<open>The four hexadecimal digits after \<open>\u\<close>; \<open>k\<close> of them are left.\<close>

fun hex_loop :: "byte list option \<Rightarrow> nat \<Rightarrow> nat \<Rightarrow> nat \<Rightarrow> (nat \<times> quote_end) option" where
  "hex_loop p n 0 off = Some (off, Closed)"
| "hex_loop p n (Suc k) off =
     (if n \<le> off then Some (off, Short)
      else do { c \<leftarrow> cpeek p off; if is_xdigit c then hex_loop p n k (Suc off) else Some (Suc off, Bad) })"

definition is_escape :: "byte \<Rightarrow> bool" where
  "is_escape c \<longleftrightarrow> c \<in> {34, 92, 47, 98, 102, 110, 114, 116, 0}"

function quote_loop :: "byte list option \<Rightarrow> nat \<Rightarrow> nat \<Rightarrow> (nat \<times> quote_end) option" where
  "quote_loop p n off =
     (if off < n
      then do {
        c \<leftarrow> cpeek p off;
        if c = 34 then Some (Suc off, Closed)
        else if c < 32 then Some (Suc off, Bad)
        else if c \<noteq> 92 then quote_loop p n (Suc off)
        else if n \<le> Suc off then Some (Suc off, Short)
        else do {
          e \<leftarrow> cpeek p (Suc off);
          if e = 117
          then do {
            (off', r) \<leftarrow> hex_loop p n 4 (off + 2);
            if r = Closed then quote_loop p n (off + 6) else Some (off', r) }
          else if is_escape e then quote_loop p n (off + 2)
          else Some (off + 2, Bad) } }
      else Some (off, Short))"
  by pat_completeness auto
termination by (relation "measure (\<lambda>(_, n, off). n - off)") auto

declare quote_loop.simps [simp del]

definition XJSON_ParseQuote :: "xjson \<Rightarrow> (xjson \<times> bool) option" where
  "XJSON_ParseQuote j =
     (let (j, ok) = XJSON_CheckBounds (set_type j XJSON_TOKEN_INVALID)
      in if \<not> ok then Some (j, False)
         else do {
           let nStart = js_nOffset j;
           (off, r) \<leftarrow> quote_loop (js_pData j) (js_nDataSize j) nStart;
           let j = j\<lparr>js_nOffset := off\<rparr>;
           Some (case r of
              Closed \<Rightarrow> (j\<lparr>js_lastToken := \<lparr>jt_nType = XJSON_TOKEN_QUOTE, jt_pData = Some nStart,
                                            jt_nLength = off - nStart - 1\<rparr>\<rparr>, True)
            | Bad \<Rightarrow> XJSON_UnexpectedToken j
            | Short \<Rightarrow> XJSON_UnexpectedEOF j) })"

definition XJSON_IsAlphabet :: "byte \<Rightarrow> bool" where
  "XJSON_IsAlphabet c \<longleftrightarrow> 97 \<le> c \<and> c \<le> 122 \<or> 65 \<le> c \<and> c \<le> 90"

text \<open>The loop of \<open>XJSON_ParseAlphabet\<close>; the second result is false when the text ends in a word.\<close>

function alpha_loop :: "byte list option \<Rightarrow> nat \<Rightarrow> nat \<Rightarrow> byte \<Rightarrow> (nat \<times> bool) option" where
  "alpha_loop p n off c =
     (if XJSON_IsAlphabet c
      then (if off < n then do { c \<leftarrow> cpeek p off; alpha_loop p n (Suc off) c } else Some (off, False))
      else Some (off, True))"
  by pat_completeness auto
termination by (relation "measure (\<lambda>(_, n, off, _). n - off)") auto

declare alpha_loop.simps [simp del]

abbreviation null_text :: "byte list" where "null_text \<equiv> [110, 117, 108, 108]"
abbreviation true_text :: "byte list" where "true_text \<equiv> [116, 114, 117, 101]"
abbreviation false_text :: "byte list" where "false_text \<equiv> [102, 97, 108, 115, 101]"

definition XJSON_ParseAlphabet :: "xjson \<Rightarrow> byte \<Rightarrow> (xjson \<times> bool) option" where
  "XJSON_ParseAlphabet j c =
     (let j = set_type j XJSON_TOKEN_INVALID; nPosition = js_nOffset j
      in do {
        (off, ok) \<leftarrow> alpha_loop (js_pData j) (js_nDataSize j) nPosition c;
        if \<not> ok then Some (j\<lparr>js_nOffset := off, js_nError := XJSON_ERR_BOUNDS\<rparr>, False)
        else do {
          d \<leftarrow> js_pData j;
          w \<leftarrow> mread d (nPosition - 1) (off - nPosition);
          let j = j\<lparr>js_lastToken := \<lparr>jt_nType = XJSON_TOKEN_INVALID, jt_pData = Some (nPosition - 1), jt_nLength = off - nPosition\<rparr>,
                    js_nOffset := off - 1\<rparr>;
          Some (if w = null_text then (set_type j XJSON_TOKEN_NULL, True)
                else if w = true_text \<or> w = false_text then (set_type j XJSON_TOKEN_BOOL, True)
                else XJSON_UnexpectedToken j) } })"

definition char_token :: "byte \<Rightarrow> xjson_token_type option" where
  "char_token c =
     (if c = 0 \<or> c = 255 then Some XJSON_TOKEN_EOF
      else if c = 123 then Some XJSON_TOKEN_LCURLY
      else if c = 125 then Some XJSON_TOKEN_RCURLY
      else if c = 91 then Some XJSON_TOKEN_LSQUARE
      else if c = 93 then Some XJSON_TOKEN_RSQUARE
      else if c = 58 then Some XJSON_TOKEN_COLON
      else if c = 44 then Some XJSON_TOKEN_COMMA
      else None)"

definition XJSON_GetNextToken :: "xjson \<Rightarrow> (xjson \<times> bool) option" where
  "XJSON_GetNextToken j = do {
     let none = \<lparr>jt_nType = XJSON_TOKEN_INVALID, jt_pData = None, jt_nLength = 0\<rparr>;
     (j, r) \<leftarrow> XJSON_NextChar (j\<lparr>js_lastToken := none\<rparr>);
     (case r of
        None \<Rightarrow> Some (set_type j XJSON_TOKEN_EOF, False)
      | Some c \<Rightarrow>
          if c = 45 \<or> is_digit c then XJSON_ParseDigit j
          else if XJSON_IsAlphabet c then XJSON_ParseAlphabet j c
          else if c = 34 then XJSON_ParseQuote j
          else let j = j\<lparr>js_lastToken := \<lparr>jt_nType = XJSON_TOKEN_INVALID, jt_pData = Some (js_nOffset j - 1), jt_nLength = 1\<rparr>\<rparr>
            in Some (case char_token c of
                 None \<Rightarrow> XJSON_UnexpectedToken j
               | Some XJSON_TOKEN_EOF \<Rightarrow> (j\<lparr>js_lastToken := none\<lparr>jt_nType := XJSON_TOKEN_EOF\<rparr>\<rparr>, True)
               | Some t \<Rightarrow> (set_type j t, True))) }"

definition XJSON_Expect :: "xjson \<Rightarrow> xjson_token_type \<Rightarrow> (xjson \<times> bool) option" where
  "XJSON_Expect j nType = do {
     (j, ok) \<leftarrow> XJSON_GetNextToken j;
     Some (if \<not> ok then (j, False) else if jt_nType (js_lastToken j) = nType then (j, True) else XJSON_UnexpectedToken j) }"

section \<open>The lexical grammar\<close>

definition json_digits :: "byte list \<Rightarrow> bool" where
  "json_digits w \<longleftrightarrow> w \<noteq> [] \<and> (\<forall>c \<in> set w. is_digit c)"

definition json_int :: "byte list \<Rightarrow> bool" where
  "json_int w \<longleftrightarrow> w = [48] \<or> json_digits w \<and> hd w \<noteq> 48"

definition json_frac :: "byte list \<Rightarrow> bool" where
  "json_frac w \<longleftrightarrow> (case w of [] \<Rightarrow> True | c # ds \<Rightarrow> c = 46 \<and> json_digits ds)"

definition json_exp :: "byte list \<Rightarrow> bool" where
  "json_exp w \<longleftrightarrow> (case w of [] \<Rightarrow> True | c # ds \<Rightarrow> (c = 101 \<or> c = 69) \<and>
     (case ds of [] \<Rightarrow> False | s # ds' \<Rightarrow> if s = 43 \<or> s = 45 then json_digits ds' else json_digits ds))"

definition json_number :: "bool \<Rightarrow> byte list \<Rightarrow> bool" where
  "json_number fl w \<longleftrightarrow> (\<exists>sg ip fp ep. w = sg @ ip @ fp @ ep \<and> (sg = [] \<or> sg = [45]) \<and> json_int ip \<and>
     json_frac fp \<and> json_exp ep \<and> (fl \<longleftrightarrow> fp \<noteq> [] \<or> ep \<noteq> []))"

fun json_body :: "byte list \<Rightarrow> bool" where
  "json_body [] = True"
| "json_body (c # w) =
     (if c = 92
      then (case w of [] \<Rightarrow> False
            | e # w1 \<Rightarrow>
                if e = 117
                then (case w1 of a # b # x # y # w2 \<Rightarrow> is_xdigit a \<and> is_xdigit b \<and> is_xdigit x \<and> is_xdigit y \<and> json_body w2
                      | _ \<Rightarrow> False)
                else is_escape e \<and> json_body w1)
      else 32 \<le> c \<and> c \<noteq> 34 \<and> json_body w)"

declare json_body.simps [simp del]

text \<open>The texts of each kind of token, and what the token points at.\<close>

definition token_text :: "xjson_token_type \<Rightarrow> byte list \<Rightarrow> bool" where
  "token_text t w \<longleftrightarrow>
     (case t of
        XJSON_TOKEN_QUOTE \<Rightarrow> (\<exists>b. json_body b \<and> w = 34 # b @ [34])
      | XJSON_TOKEN_INTEGER \<Rightarrow> json_number False w
      | XJSON_TOKEN_FLOAT \<Rightarrow> json_number True w
      | XJSON_TOKEN_NULL \<Rightarrow> w = null_text
      | XJSON_TOKEN_BOOL \<Rightarrow> w = true_text \<or> w = false_text
      | XJSON_TOKEN_INVALID \<Rightarrow> False
      | _ \<Rightarrow> (\<exists>c. w = [c] \<and> char_token c = Some t))"

definition lexed :: "xjson \<Rightarrow> xjson_token_type \<Rightarrow> nat \<Rightarrow> nat \<Rightarrow> xjson" where
  "lexed j t i k =
     j\<lparr>js_lastToken :=
         (if t = XJSON_TOKEN_EOF then \<lparr>jt_nType = t, jt_pData = None, jt_nLength = 0\<rparr>
          else if t = XJSON_TOKEN_QUOTE then \<lparr>jt_nType = t, jt_pData = Some (js_nOffset j + i + 1), jt_nLength = k - 2\<rparr>
          else \<lparr>jt_nType = t, jt_pData = Some (js_nOffset j + i), jt_nLength = k\<rparr>),
       js_nOffset := js_nOffset j + i + k\<rparr>"

text \<open>What must come after a token for the analyser to end it there.\<close>

definition token_follow :: "xjson_token_type \<Rightarrow> byte list \<Rightarrow> bool" where
  "token_follow t rest \<longleftrightarrow>
     (case t of
        XJSON_TOKEN_INTEGER \<Rightarrow> rest = [] \<or> \<not> (is_digit (hd rest) \<or> hd rest = 46 \<or> hd rest = 101 \<or> hd rest = 69)
      | XJSON_TOKEN_FLOAT \<Rightarrow> rest = [] \<or> \<not> (is_digit (hd rest) \<or> hd rest = 46 \<or> hd rest = 101 \<or> hd rest = 69)
      | XJSON_TOKEN_NULL \<Rightarrow> rest \<noteq> [] \<and> \<not> XJSON_IsAlphabet (hd rest)
      | XJSON_TOKEN_BOOL \<Rightarrow> rest \<noteq> [] \<and> \<not> XJSON_IsAlphabet (hd rest)
      | _ \<Rightarrow> True)"

section \<open>The scans\<close>

lemma cpeek_at: "i < length d \<Longrightarrow> cpeek (Some d) i = Some (d ! i)"
  by (simp add: cpeek_def peek_def)

lemma drop_step: "i < length d \<Longrightarrow> drop i d = d ! i # drop (Suc i) d"
  by (rule Cons_nth_drop_Suc [symmetric])

lemma drop_split: "drop i d = w @ rest \<Longrightarrow> i \<le> length d \<Longrightarrow> drop (i + length w) d = rest \<and> i + length w \<le> length d"
  by (metis append_eq_conv_conj drop_drop add.commute le_add1 length_append length_drop
      ordered_cancel_comm_monoid_diff_class.le_diff_conv2)

lemma next_char_eq:
  "i \<le> length d \<Longrightarrow> next_char (Some d) (length d) i =
     Some (let s = dropWhile is_ws (drop i d) in
           (case s of [] \<Rightarrow> (length d, None) | c # s' \<Rightarrow> (length d - length s', Some c)))"
proof (induction "length d - i" arbitrary: i)
  case 0
  then show ?case by (subst next_char.simps) simp
next
  case (Suc k)
  then have i: "i < length d" by simp
  have "k = length d - Suc i" "Suc i \<le> length d" using Suc by auto
  from Suc.hyps(1) [OF this] i show ?case
    by (subst next_char.simps) (simp add: cpeek_at drop_step [OF i] Suc_diff_Suc)
qed

lemma skip_digits_eq:
  "i \<le> length d \<Longrightarrow> skip_digits (Some d) (length d) i = Some (i + length (takeWhile is_digit (drop i d)))"
proof (induction "length d - i" arbitrary: i)
  case 0
  then show ?case by (subst skip_digits.simps) simp
next
  case (Suc k)
  then have i: "i < length d" by simp
  have "k = length d - Suc i" "Suc i \<le> length d" using Suc by auto
  from Suc.hyps(1) [OF this] i show ?case
    by (subst skip_digits.simps) (simp add: cpeek_at drop_step [OF i])
qed

lemma digits_while: "json_digits w \<Longrightarrow> rest = [] \<or> \<not> is_digit (hd rest) \<Longrightarrow> takeWhile is_digit (w @ rest) = w"
  by (cases rest) (auto simp: json_digits_def takeWhile_append)

lemma while_digits: "takeWhile is_digit s \<noteq> [] \<Longrightarrow> json_digits (takeWhile is_digit s)"
  by (auto simp: json_digits_def dest: set_takeWhileD)

lemma drop_while: "drop i d = takeWhile P (drop i d) @ drop (i + length (takeWhile P (drop i d))) d"
  by (metis dropWhile_eq_drop drop_drop takeWhile_dropWhile_id add.commute)

lemma scan_digits_eq:
  assumes "i \<le> length d"
  shows "scan_digits (Some d) (length d) i =
    Some (if i = length d then Inl True else let w = takeWhile is_digit (drop i d) in
          if w = [] then Inl False else Inr (i + length w))"
  using assms
  by (cases "i = length d") (auto simp: scan_digits_def cpeek_at skip_digits_eq Let_def drop_step)

lemma scan_digits_sound:
  assumes "scan_digits (Some d) (length d) i = Some (Inr k)" "i \<le> length d"
  obtains w where "json_digits w" "drop i d = w @ drop k d" "k = i + length w"
proof -
  let ?w = "takeWhile is_digit (drop i d)"
  from assms have "?w \<noteq> []" "k = i + length ?w" by (auto simp: scan_digits_eq Let_def split: if_splits)
  with while_digits [of "drop i d"] drop_while [of i d is_digit] show ?thesis by (intro that [of ?w]) auto
qed

lemma scan_digits_complete:
  assumes "drop i d = w @ rest" "json_digits w" "rest = [] \<or> \<not> is_digit (hd rest)"
  shows "scan_digits (Some d) (length d) i = Some (Inr (i + length w))"
proof -
  have "i < length d" using assms(1,2) by (cases "i < length d") (auto simp: json_digits_def)
  then show ?thesis using digits_while [OF assms(2,3)] assms(2)
    by (simp add: scan_digits_eq assms(1) json_digits_def)
qed

lemma at_char_eq: "at_char (Some d) (length d) i P = Some (i < length d \<and> P (d ! i))"
  by (simp add: at_char_def cpeek_at)

lemma at_char_list: "i \<le> length d \<Longrightarrow> at_char (Some d) (length d) i P = Some (case drop i d of [] \<Rightarrow> False | c # _ \<Rightarrow> P c)"
  by (cases "i < length d") (auto simp: at_char_eq drop_step)

lemma digit_not_zero: "49 \<le> c \<and> c \<le> 57 \<longleftrightarrow> is_digit c \<and> c \<noteq> (48 :: byte)"
  unfolding is_digit_def by unat_arith

lemma scan_int_sound:
  assumes "scan_int (Some d) (length d) i = Some (Inr k)" "i < length d"
  obtains w where "json_int w" "drop i d = w @ drop k d" "k = i + length w"
proof (cases "d ! i = 48")
  case True
  with assms have "k = Suc i" by (auto simp: scan_int_def cpeek_at at_char_eq split: if_splits)
  with True assms(2) show ?thesis by (intro that [of "[48]"]) (auto simp: json_int_def drop_step)
next
  case False
  let ?w = "takeWhile is_digit (drop i d)"
  from False assms have c: "is_digit (d ! i)" "k = i + length ?w"
    by (auto simp: scan_int_def cpeek_at skip_digits_eq digit_not_zero split: if_splits)
  then have "json_digits ?w" using assms(2) by (intro while_digits) (simp add: drop_step)
  moreover have "hd ?w \<noteq> 48" using c assms(2) False by (simp add: drop_step)
  ultimately show ?thesis using c drop_while [of i d is_digit] by (intro that [of ?w]) (auto simp: json_int_def)
qed

lemma scan_int_complete:
  assumes "drop i d = w @ rest" "json_int w" "rest = [] \<or> \<not> is_digit (hd rest)"
  shows "scan_int (Some d) (length d) i = Some (Inr (i + length w))"
proof -
  have i: "i < length d" using assms(1,2) by (cases "i < length d") (auto simp: json_int_def json_digits_def)
  show ?thesis
  proof (cases "w = [48]")
    case True
    with assms(1) i have "d ! i = 48" "drop (Suc i) d = rest" by (auto simp: drop_step)
    then show ?thesis using True i assms(3)
      by (auto simp: scan_int_def cpeek_at at_char_list split: list.splits)
  next
    case False
    with assms(2) have w: "json_digits w" "hd w \<noteq> 48" by (auto simp: json_int_def)
    then obtain c w' where cw: "w = c # w'" by (cases w) (auto simp: json_digits_def)
    with assms(1) i have "d ! i = c" by (simp add: drop_step)
    then show ?thesis using cw w i assms(1) digits_while [OF w(1) assms(3)]
      by (auto simp: scan_int_def cpeek_at skip_digits_eq digit_not_zero json_digits_def)
  qed
qed

lemma map_sum_Inr: "map_sum f g x = Inr y \<Longrightarrow> \<exists>z. x = Inr z \<and> y = g z"
  by (cases x) auto

lemma scan_frac_sound:
  assumes "scan_frac (Some d) (length d) i = Some (Inr (k, b))" "i \<le> length d"
  obtains w where "json_frac w" "drop i d = w @ drop k d" "k = i + length w" "b \<longleftrightarrow> w \<noteq> []"
proof (cases "i < length d \<and> d ! i = 46")
  case True
  with assms obtain k' where k: "scan_digits (Some d) (length d) (Suc i) = Some (Inr k')" "k = k'" "b"
    by (auto simp: scan_frac_def at_char_eq dest!: map_sum_Inr)
  from True have "Suc i \<le> length d" by simp
  from scan_digits_sound [OF k(1) this] obtain w where "json_digits w" "drop (Suc i) d = w @ drop k' d" "k' = Suc i + length w" .
  then show ?thesis using True k by (intro that [of "46 # w"]) (auto simp: json_frac_def drop_step)
next
  case False
  with assms have "k = i" "\<not> b" by (auto simp: scan_frac_def at_char_eq split: if_splits)
  then show ?thesis by (intro that [of "[]"]) (auto simp: json_frac_def)
qed

lemma scan_frac_complete:
  assumes "drop i d = w @ rest" "i \<le> length d" "json_frac w" "rest = [] \<or> \<not> is_digit (hd rest) \<and> hd rest \<noteq> 46"
  shows "scan_frac (Some d) (length d) i = Some (Inr (i + length w, w \<noteq> []))"
proof (cases w)
  case Nil
  with assms show ?thesis by (auto simp: scan_frac_def at_char_list split: list.splits)
next
  case (Cons c ds)
  with assms have c: "c = 46" "json_digits ds" by (auto simp: json_frac_def)
  from assms(1) Cons have i: "i < length d" by (cases "i < length d") auto
  with assms(1) Cons have "d ! i = c" "drop (Suc i) d = ds @ rest" by (auto simp: drop_step)
  with scan_digits_complete [of "Suc i" d ds rest] c i assms(4) Cons show ?thesis
    by (auto simp: scan_frac_def at_char_eq)
qed

lemma scan_exp_sound:
  assumes "scan_exp (Some d) (length d) i = Some (Inr (k, b))" "i \<le> length d"
  obtains w where "json_exp w" "drop i d = w @ drop k d" "k = i + length w" "b \<longleftrightarrow> w \<noteq> []"
proof (cases "i < length d \<and> (d ! i = 101 \<or> d ! i = 69)")
  case True
  let ?sg = "Suc i < length d \<and> (d ! Suc i = 43 \<or> d ! Suc i = 45)"
  let ?j = "if ?sg then Suc (Suc i) else Suc i"
  from True assms obtain k' where k: "scan_digits (Some d) (length d) ?j = Some (Inr k')" "k = k'" "b"
    by (auto simp: scan_exp_def at_char_eq split: if_splits dest!: map_sum_Inr)
  from True have "?j \<le> length d" by auto
  from scan_digits_sound [OF k(1) this] obtain w where w: "json_digits w" "drop ?j d = w @ drop k' d" "k' = ?j + length w" .
  show ?thesis
  proof (cases ?sg)
    case sg: True
    then have "drop i d = d ! i # d ! Suc i # w @ drop k' d" using w(2) True by (auto simp: drop_step)
    then show ?thesis using True sg k w by (intro that [of "d ! i # d ! Suc i # w"]) (auto simp: json_exp_def)
  next
    case False
    then have "drop i d = d ! i # w @ drop k' d" using w(2) True by (auto simp: drop_step)
    moreover obtain c ds where "w = c # ds" using w(1) by (cases w) (auto simp: json_digits_def)
    moreover have "is_digit c" using calculation w(1) by (simp add: json_digits_def)
    ultimately show ?thesis using True False k w
      by (intro that [of "d ! i # w"]) (auto simp: json_exp_def is_digit_def)
  qed
next
  case False
  with assms have "k = i" "\<not> b" by (auto simp: scan_exp_def at_char_eq split: if_splits)
  then show ?thesis by (intro that [of "[]"]) (auto simp: json_exp_def)
qed

lemma scan_exp_complete:
  assumes "drop i d = w @ rest" "i \<le> length d" "json_exp w"
    "rest = [] \<or> \<not> is_digit (hd rest) \<and> hd rest \<noteq> 101 \<and> hd rest \<noteq> 69"
  shows "scan_exp (Some d) (length d) i = Some (Inr (i + length w, w \<noteq> []))"
proof (cases w)
  case Nil
  with assms show ?thesis by (auto simp: scan_exp_def at_char_list split: list.splits)
next
  case (Cons c ds)
  with assms(3) obtain s ds' where c: "c = 101 \<or> c = 69" "ds = s # ds'" "if s = 43 \<or> s = 45 then json_digits ds' else json_digits ds"
    by (auto simp: json_exp_def split: list.splits)
  from assms(1) Cons have i: "i < length d" by (cases "i < length d") auto
  with assms(1) Cons have e: "d ! i = c" "drop (Suc i) d = ds @ rest" by (auto simp: drop_step)
  with c(2) have i1: "Suc i < length d" by (cases "Suc i < length d") auto
  with e c(2) have s: "d ! Suc i = s" "drop (Suc (Suc i)) d = ds' @ rest" by (auto simp: drop_step)
  have r: "rest = [] \<or> \<not> is_digit (hd rest)" using assms(4) by auto
  show ?thesis
  proof (cases "s = 43 \<or> s = 45")
    case True
    then have "scan_digits (Some d) (length d) (Suc (Suc i)) = Some (Inr (Suc (Suc i) + length ds'))"
      using scan_digits_complete [OF s(2) _ r] c(3) by simp
    then show ?thesis using True c(1,2) i i1 e s Cons by (auto simp: scan_exp_def at_char_eq)
  next
    case False
    then have "scan_digits (Some d) (length d) (Suc i) = Some (Inr (Suc i + length ds))"
      using scan_digits_complete [OF e(2) _ r] c(3) by simp
    then show ?thesis using False c(1,2) i i1 e s Cons by (auto simp: scan_exp_def at_char_eq)
  qed
qed

lemma scan_total:
  assumes "i \<le> length d"
  shows "\<exists>r. scan_digits (Some d) (length d) i = Some r" "\<exists>r. scan_frac (Some d) (length d) i = Some r"
    "\<exists>r. scan_exp (Some d) (length d) i = Some r" "i < length d \<Longrightarrow> \<exists>r. scan_int (Some d) (length d) i = Some r"
proof -
  have dg: "\<exists>r. scan_digits (Some d) (length d) k = Some r" if "k \<le> length d" for k
    using that by (simp add: scan_digits_eq)
  show "\<exists>r. scan_digits (Some d) (length d) i = Some r" using dg assms by blast
  show "\<exists>r. scan_frac (Some d) (length d) i = Some r" using dg [of "Suc i"] assms
    by (auto simp: scan_frac_def at_char_eq)
  show "\<exists>r. scan_exp (Some d) (length d) i = Some r" using dg [of "Suc i"] dg [of "Suc (Suc i)"] assms
    by (auto simp: scan_exp_def at_char_eq)
  show "i < length d \<Longrightarrow> \<exists>r. scan_int (Some d) (length d) i = Some r"
    by (auto simp: scan_int_def at_char_eq cpeek_at skip_digits_eq)
qed

lemma hex_loop_total: "off \<le> length d \<Longrightarrow> \<exists>o1 r. hex_loop (Some d) (length d) k off = Some (o1, r) \<and> o1 \<le> length d"
  by (induction k arbitrary: off) (auto simp: cpeek_at)

lemma hex_loop_sound:
  "hex_loop (Some d) (length d) k off = Some (o1, Closed) \<Longrightarrow> off \<le> length d \<Longrightarrow>
   \<exists>w. length w = k \<and> list_all is_xdigit w \<and> drop off d = w @ drop (off + k) d \<and> off + k \<le> length d"
proof (induction k arbitrary: off)
  case (Suc k)
  then have i: "off < length d" "is_xdigit (d ! off)" "hex_loop (Some d) (length d) k (Suc off) = Some (o1, Closed)"
    by (auto simp: cpeek_at split: if_splits)
  from i(1) have "Suc off \<le> length d" by simp
  from Suc.IH [OF i(3) this] obtain w where "length w = k" "list_all is_xdigit w" "drop (Suc off) d = w @ drop (Suc off + k) d"
    "Suc off + k \<le> length d" by blast
  with i show ?case by (intro exI [of _ "d ! off # w"]) (auto simp: drop_step)
qed simp

lemma hex_loop_complete:
  "drop off d = w @ rest \<Longrightarrow> list_all is_xdigit w \<Longrightarrow> hex_loop (Some d) (length d) (length w) off = Some (off + length w, Closed)"
proof (induction w arbitrary: off)
  case (Cons c w)
  then have i: "off < length d" by (cases "off < length d") auto
  with Cons.prems have "d ! off = c" "drop (Suc off) d = w @ rest" by (auto simp: drop_step)
  with Cons i show ?case by (simp add: cpeek_at)
qed simp

lemma body_plain: "32 \<le> c \<Longrightarrow> c \<noteq> 34 \<Longrightarrow> c \<noteq> 92 \<Longrightarrow> json_body w \<Longrightarrow> json_body (c # w)"
  by (simp add: json_body.simps)

lemma body_escape: "is_escape e \<Longrightarrow> json_body w \<Longrightarrow> json_body (92 # e # w)"
  by (auto simp: json_body.simps is_escape_def)

lemma body_hex: "length h = 4 \<Longrightarrow> list_all is_xdigit h \<Longrightarrow> json_body w \<Longrightarrow> json_body (92 # 117 # h @ w)"
proof -
  assume h: "length h = 4" "list_all is_xdigit h" "json_body w"
  then obtain a b x y where "h = [a, b, x, y]" by (auto simp: length_Suc_conv eval_nat_numeral)
  with h show ?thesis by (simp add: json_body.simps)
qed

text \<open>A body is empty, or starts with a plain character, an escape or a hexadecimal escape.\<close>

lemma json_body_cases:
  assumes "json_body w"
  obtains "w = []"
  | c w' where "w = c # w'" "32 \<le> c" "c \<noteq> 34" "c \<noteq> 92" "json_body w'"
  | e w' where "w = 92 # e # w'" "is_escape e" "e \<noteq> 117" "json_body w'"
  | h w' where "w = 92 # 117 # h @ w'" "length h = 4" "list_all is_xdigit h" "json_body w'"
proof (cases w)
  case (Cons c w')
  show ?thesis
  proof (cases "c = 92")
    case True
    with assms Cons obtain e w1 where w1: "w' = e # w1" "if e = 117 then (case w1 of a # b # x # y # w2 \<Rightarrow>
        is_xdigit a \<and> is_xdigit b \<and> is_xdigit x \<and> is_xdigit y \<and> json_body w2 | _ \<Rightarrow> False) else is_escape e \<and> json_body w1"
      by (auto simp: json_body.simps split: list.splits)
    show ?thesis
    proof (cases "e = 117")
      case e: True
      with w1 obtain a b x y w2 where "w1 = [a, b, x, y] @ w2" "list_all is_xdigit [a, b, x, y]" "json_body w2"
        by (auto split: list.splits)
      with that(4) [of "[a, b, x, y]" w2] show ?thesis using Cons True w1 e by simp
    next
      case False
      with w1 that(3) [of e w1] show ?thesis using Cons True by simp
    qed
  next
    case False
    with assms Cons that(2) [of c w'] show ?thesis by (simp add: json_body.simps)
  qed
qed (use that in simp)

lemma quote_loop_total: "off \<le> length d \<Longrightarrow> \<exists>o1 r. quote_loop (Some d) (length d) off = Some (o1, r) \<and> o1 \<le> length d"
proof (induction "length d - off" arbitrary: off rule: less_induct)
  case less
  show ?case
  proof (cases "off < length d")
    case True
    note s = drop_step [OF True]
    have ih: "\<exists>o1 r. quote_loop (Some d) (length d) k = Some (o1, r) \<and> o1 \<le> length d" if "off < k" "k \<le> length d" for k
      using less.hyps [of k] True that by simp
    obtain o1 r where h: "off + 2 \<le> length d \<longrightarrow> hex_loop (Some d) (length d) 4 (off + 2) = Some (o1, r) \<and> o1 \<le> length d"
      using hex_loop_total [of "off + 2" d 4] by blast
    have h6: "off + 6 \<le> length d" if "off + 2 \<le> length d" "r = Closed"
      using hex_loop_sound [of d 4 "off + 2" o1] h that by auto
    show ?thesis using True ih [of "Suc off"] ih [of "off + 2"] ih [of "off + 6"] h h6
      by (subst quote_loop.simps) (auto simp: cpeek_at not_le Suc_le_eq split: if_splits)
  next
    case False
    with less show ?thesis by (subst quote_loop.simps) simp
  qed
qed

lemma quote_loop_sound:
  "quote_loop (Some d) (length d) off = Some (o1, Closed) \<Longrightarrow> off \<le> length d \<Longrightarrow>
   \<exists>b. json_body b \<and> drop off d = b @ 34 # drop o1 d \<and> o1 = off + length b + 1"
proof (induction "length d - off" arbitrary: off rule: less_induct)
  case less
  then have i: "off < length d" by (cases "off < length d") (auto simp: quote_loop.simps [of _ _ off])
  note s = drop_step [OF i]
  have ih: "\<exists>b. json_body b \<and> drop k d = b @ 34 # drop o1 d \<and> o1 = k + length b + 1"
    if "quote_loop (Some d) (length d) k = Some (o1, Closed)" "off < k" "k \<le> length d" for k
    using less.hyps [of k] that i by simp
  consider "d ! off = 34" "o1 = Suc off"
    | "d ! off \<noteq> 34" "32 \<le> d ! off" "d ! off \<noteq> 92" "quote_loop (Some d) (length d) (Suc off) = Some (o1, Closed)"
    | "d ! off = 92" "Suc off < length d" "d ! Suc off = 117" "\<exists>o2. hex_loop (Some d) (length d) 4 (off + 2) = Some (o2, Closed)"
      "quote_loop (Some d) (length d) (off + 6) = Some (o1, Closed)"
    | "d ! off = 92" "Suc off < length d" "is_escape (d ! Suc off)" "quote_loop (Some d) (length d) (off + 2) = Some (o1, Closed)"
    using less.prems(1) i by (subst (asm) quote_loop.simps)
      (auto simp: cpeek_at not_le not_less split: if_splits bind_splits prod.splits)
  then show ?case
  proof cases
    case 1
    with s show ?thesis by (intro exI [of _ "[]"]) (simp add: json_body.simps)
  next
    case 2
    from ih [OF 2(4)] i obtain b where b: "json_body b" "drop (Suc off) d = b @ 34 # drop o1 d" "o1 = Suc off + length b + 1" by auto
    with 2 s show ?thesis by (intro exI [of _ "d ! off # b"]) (simp add: body_plain)
  next
    case 3
    from 3(4) hex_loop_sound [of d 4 "off + 2"] 3(2) obtain h where h: "length h = 4" "list_all is_xdigit h"
      "drop (off + 2) d = h @ drop (off + 6) d" "off + 6 \<le> length d" by (fastforce simp: add.commute)
    from ih [OF 3(5) _ h(4)] obtain b where b: "json_body b" "drop (off + 6) d = b @ 34 # drop o1 d" "o1 = off + 6 + length b + 1" by auto
    have "drop off d = 92 # 117 # (h @ b) @ 34 # drop o1 d" using 3 s drop_step [OF 3(2)] h b by simp
    then show ?thesis using body_hex [OF h(1,2) b(1)] b h by (intro exI [of _ "92 # 117 # h @ b"]) simp
  next
    case 4
    from ih [OF 4(4)] 4(2) obtain b where b: "json_body b" "drop (off + 2) d = b @ 34 # drop o1 d" "o1 = off + 2 + length b + 1" by auto
    have "drop off d = 92 # d ! Suc off # b @ 34 # drop o1 d" using 4 s drop_step [OF 4(2)] b by simp
    then show ?thesis using body_escape [OF 4(3) b(1)] b by (intro exI [of _ "92 # d ! Suc off # b"]) simp
  qed
qed

lemma quote_loop_complete:
  "json_body b \<Longrightarrow> drop off d = b @ 34 # rest \<Longrightarrow> quote_loop (Some d) (length d) off = Some (off + length b + 1, Closed)"
proof (induction "length b" arbitrary: b off rule: less_induct)
  case less
  have i: "off < length d" using less.prems(2) by (cases "off < length d") auto
  note s = drop_step [OF i]
  have ih: "quote_loop (Some d) (length d) k = Some (k + length b' + 1, Closed)"
    if "json_body b'" "length b' < length b" "drop k d = b' @ 34 # rest" for k b'
    using less.hyps that by blast
  from less.prems(1) show ?case
  proof (cases rule: json_body_cases)
    case 1
    with s less.prems(2) i show ?thesis by (subst quote_loop.simps) (simp add: cpeek_at)
  next
    case (2 c w')
    then have "d ! off = c" "drop (Suc off) d = w' @ 34 # rest" using s less.prems(2) by auto
    with ih [of w' "Suc off"] 2 i show ?thesis by (subst quote_loop.simps) (simp add: cpeek_at not_less)
  next
    case (3 e w')
    then have e: "d ! off = 92" "drop (Suc off) d = e # w' @ 34 # rest" using s less.prems(2) by auto
    then have i1: "Suc off < length d" by (cases "Suc off < length d") auto
    with e have "d ! Suc off = e" "drop (off + 2) d = w' @ 34 # rest" using drop_step [OF i1] by auto
    with ih [of w' "off + 2"] 3 i i1 e show ?thesis by (subst quote_loop.simps) (simp add: cpeek_at)
  next
    case (4 h w')
    then have e: "d ! off = 92" "drop (Suc off) d = 117 # h @ w' @ 34 # rest" using s less.prems(2) by auto
    then have i1: "Suc off < length d" by (cases "Suc off < length d") auto
    with e have f: "d ! Suc off = 117" "drop (off + 2) d = h @ w' @ 34 # rest" using drop_step [OF i1] by auto
    then have hx: "hex_loop (Some d) (length d) 4 (off + 2) = Some (off + 2 + 4, Closed)"
      using hex_loop_complete [OF f(2)] 4 by simp
    have "drop (off + 6) d = w' @ 34 # rest"
      using drop_split [OF f(2)] i1 4(2) by (simp add: add.commute)
    with ih [of w' "off + 6"] 4 i i1 e f hx show ?thesis by (subst quote_loop.simps) (simp add: cpeek_at)
  qed
qed

lemma alpha_loop_eq:
  "off \<le> length d \<Longrightarrow> XJSON_IsAlphabet c \<Longrightarrow> alpha_loop (Some d) (length d) off c =
     Some (let w = takeWhile XJSON_IsAlphabet (drop off d) in
           if off + length w = length d then (length d, False) else (off + length w + 1, True))"
proof (induction "length d - off" arbitrary: off c)
  case 0
  then show ?case by (subst alpha_loop.simps) simp
next
  case (Suc k)
  then have i: "off < length d" by simp
  have "k = length d - Suc off" "Suc off \<le> length d" using Suc by auto
  note ih = Suc.hyps(1) [OF this]
  show ?case
  proof (cases "XJSON_IsAlphabet (d ! off)")
    case True
    from ih [OF True] Suc.prems i True show ?thesis
      by (subst alpha_loop.simps) (simp add: cpeek_at drop_step [OF i])
  next
    case False
    with Suc.prems i show ?thesis
      by (subst alpha_loop.simps) (simp add: cpeek_at drop_step [OF i] alpha_loop.simps)
  qed
qed

section \<open>Tokens\<close>

text \<open>The analyser on a text: the block has \<open>nDataSize\<close> bytes and the offset is inside.\<close>

definition lex_ok :: "byte list \<Rightarrow> xjson \<Rightarrow> bool" where
  "lex_ok d j \<longleftrightarrow> js_pData j = Some d \<and> js_nDataSize j = length d \<and> length d < 2 ^ 64 \<and> js_nOffset j \<le> length d"

text \<open>A failed analysis leaves the text alone and reports an error; \<open>root\<close> is not touched.\<close>

definition lex_fail :: "byte list \<Rightarrow> xjson \<Rightarrow> xjson \<Rightarrow> bool" where
  "lex_fail d j j' \<longleftrightarrow> lex_ok d j' \<and> js_pRootObj j' = js_pRootObj j \<and> js_nError j' \<in> {XJSON_ERR_BOUNDS, XJSON_ERR_UNEXPECTED}"

lemma unexpected_fail:
  assumes j: "lex_ok d j" and l: "jt_nLength (js_lastToken j) + (if jt_nType (js_lastToken j) = XJSON_TOKEN_QUOTE then 2 else 0) \<le> js_nOffset j"
  shows "\<exists>j'. XJSON_UnexpectedToken j = (j', False) \<and> lex_fail d j j'"
proof -
  let ?t = "js_lastToken j"
  have n: "js_nOffset j < 2 ^ 64" using j by (auto simp: lex_ok_def)
  have a: "sz (js_nOffset j + 2 ^ 64 - jt_nLength ?t) = js_nOffset j - jt_nLength ?t" by (rule sz_sub [OF _ n]) (use l in auto)
  have b: "jt_nType ?t = XJSON_TOKEN_QUOTE \<Longrightarrow>
      sz (js_nOffset j - jt_nLength ?t + 2 ^ 64 - 2) = js_nOffset j - jt_nLength ?t - 2"
    by (rule sz_sub) (use l n in \<open>auto intro: le_less_trans [OF diff_le_self]\<close>)
  have "\<exists>off \<le> js_nOffset j. XJSON_UnexpectedToken j = (j\<lparr>js_nError := XJSON_ERR_UNEXPECTED, js_nOffset := off\<rparr>, False)"
  proof (cases "jt_nType ?t = XJSON_TOKEN_QUOTE")
    case True
    then show ?thesis unfolding XJSON_UnexpectedToken_def Let_def a b [OF True]
      by (intro exI [of _ "js_nOffset j - jt_nLength ?t - 2"]) simp
  next
    case False
    then show ?thesis unfolding XJSON_UnexpectedToken_def Let_def a
      by (intro exI [of _ "js_nOffset j - jt_nLength ?t"]) simp
  qed
  then show ?thesis using j by (auto simp: lex_ok_def lex_fail_def)
qed

lemma eof_fail: "lex_ok d j \<Longrightarrow> \<exists>j'. XJSON_UnexpectedEOF j = (j', False) \<and> lex_fail d j j'"
  by (auto simp: XJSON_UnexpectedEOF_def lex_ok_def lex_fail_def)

lemma scan_fail_fail: "lex_ok d j \<Longrightarrow> jt_nLength (js_lastToken j) = 0 \<Longrightarrow> jt_nType (js_lastToken j) = XJSON_TOKEN_INVALID \<Longrightarrow>
   \<exists>j'. scan_fail j e = (j', False) \<and> lex_fail d j j'"
  using unexpected_fail [of d j] eof_fail [of d j] by (simp add: scan_fail_def)

text \<open>Parsing a number that starts at the last character read.\<close>

lemma ParseDigit_spec:
  assumes j: "lex_ok d j" "jt_nLength (js_lastToken j) = 0" and o: "0 < js_nOffset j"
  shows "\<exists>j' ok. XJSON_ParseDigit j = Some (j', ok) \<and>
    (if ok then \<exists>fl w. json_number fl w \<and> drop (js_nOffset j - 1) d = w @ drop (js_nOffset j') d \<and>
        js_nOffset j' = js_nOffset j - 1 + length w \<and>
        j' = lexed (j\<lparr>js_nOffset := js_nOffset j - 1\<rparr>) (if fl then XJSON_TOKEN_FLOAT else XJSON_TOKEN_INTEGER) 0 (length w)
     else lex_fail d j j')"
proof -
  define st where "st = js_nOffset j - 1"
  let ?j = "set_type j XJSON_TOKEN_INVALID"
  have p: "js_pData ?j = Some d" "js_nDataSize ?j = length d" "lex_ok d ?j" and st: "st < length d" "js_nOffset ?j - 1 = st"
    using j o by (auto simp: lex_ok_def set_type_def st_def)
  have F: "\<exists>j'. scan_fail ?j e = (j', False) \<and> lex_fail d j j'" for e
    using scan_fail_fail [of d ?j e] p(3) j(2) by (auto simp: set_type_def lex_fail_def)
  have F0: "\<exists>j'. XJSON_UnexpectedEOF ?j = (j', False) \<and> lex_fail d j j'" using F [of True] by (simp add: scan_fail_def)
  define i where "i = (if d ! st = 45 then Suc st else st)"
  obtain sg where sg: "drop st d = sg @ drop i d" "sg = [] \<or> sg = [45]" "i = st + length sg"
    using drop_step [OF st(1)] by (cases "d ! st = 45") (auto simp: i_def)
  note ev = XJSON_ParseDigit_def Let_def p(1,2) st(2) cpeek_at [OF st(1)] bind.bind_lunit i_def [symmetric]
  show ?thesis
  proof (cases "d ! st = 45 \<and> length d \<le> i")
    case True
    then show ?thesis using F0 unfolding ev by auto
  next
    case False
    then have i: "i < length d" using st by (auto simp: i_def)
    have E: "XJSON_ParseDigit j = do {
           r \<leftarrow> scan_int (Some d) (length d) i;
           (case r of Inl e \<Rightarrow> Some (scan_fail ?j e)
           | Inr i \<Rightarrow> do {
               r \<leftarrow> scan_frac (Some d) (length d) i;
               (case r of Inl e \<Rightarrow> Some (scan_fail ?j e)
                | Inr (i, bFloat) \<Rightarrow> do {
                    r \<leftarrow> scan_exp (Some d) (length d) i;
                    (case r of Inl e \<Rightarrow> Some (scan_fail ?j e)
                     | Inr (i, bExp) \<Rightarrow>
                         Some (?j\<lparr>js_lastToken :=
                                   \<lparr>jt_nType = (if bFloat \<or> bExp then XJSON_TOKEN_FLOAT else XJSON_TOKEN_INTEGER),
                                    jt_pData = Some st, jt_nLength = i - st\<rparr>,
                                  js_nOffset := i\<rparr>, True)) }) }) }"
      unfolding ev by (simp only: False if_False)
    obtain r1 where r1: "scan_int (Some d) (length d) i = Some r1" using scan_total(4) [OF less_imp_le [OF i] i] by blast
    show ?thesis
    proof (cases r1)
      case (Inl e)
      with r1 E F [of e] show ?thesis by auto
    next
      case (Inr k)
      obtain ip where ip: "json_int ip" "drop i d = ip @ drop k d" "k = i + length ip"
        by (rule scan_int_sound [OF r1 [unfolded Inr] i])
      have k: "k \<le> length d" using drop_split [OF ip(2) less_imp_le [OF i]] unfolding ip(3) by (rule conjunct2)
      obtain r2 where r2: "scan_frac (Some d) (length d) k = Some r2" using scan_total(2) k by blast
      show ?thesis
      proof (cases r2)
        case (Inl e)
        with r1 Inr r2 E F [of e] show ?thesis by auto
      next
        case r2i: (Inr kb)
        obtain k2 b2 where kb: "kb = (k2, b2)" by (cases kb)
        obtain fp where fp: "json_frac fp" "drop k d = fp @ drop k2 d" "k2 = k + length fp" "b2 \<longleftrightarrow> fp \<noteq> []"
          by (rule scan_frac_sound [OF r2 [unfolded r2i kb] k])
        have k2: "k2 \<le> length d" using drop_split [OF fp(2) k] unfolding fp(3) by (rule conjunct2)
        obtain r3 where r3: "scan_exp (Some d) (length d) k2 = Some r3" using scan_total(3) k2 by blast
        show ?thesis
        proof (cases r3)
          case (Inl e)
          with r1 Inr r2 r2i r3 kb E F [of e] show ?thesis by auto
        next
          case r3i: (Inr kb)
          obtain k3 b3 where kb3: "kb = (k3, b3)" by (cases kb)
          obtain ep where ep: "json_exp ep" "drop k2 d = ep @ drop k3 d" "k3 = k2 + length ep" "b3 \<longleftrightarrow> ep \<noteq> []"
            by (rule scan_exp_sound [OF r3 [unfolded r3i kb3] k2])
          let ?w = "sg @ ip @ fp @ ep"
          have "json_number (b2 \<or> b3) ?w" using sg(2) ip(1) fp(1,4) ep(1,4) unfolding json_number_def by blast
          moreover have "drop st d = ?w @ drop k3 d" unfolding sg(1) ip(2) fp(2) ep(2) by simp
          moreover have w: "k3 = st + length ?w" unfolding ep(3) fp(3) ip(3) sg(3) by simp
          moreover have "XJSON_ParseDigit j = Some (?j\<lparr>js_lastToken := \<lparr>jt_nType = (if b2 \<or> b3 then XJSON_TOKEN_FLOAT else XJSON_TOKEN_INTEGER),
                  jt_pData = Some st, jt_nLength = k3 - st\<rparr>, js_nOffset := k3\<rparr>, True)"
            unfolding E r1 Inr r2 r2i kb r3 r3i kb3 bind.bind_lunit sum.case prod.case ..
          moreover have "?j\<lparr>js_lastToken := \<lparr>jt_nType = (if b2 \<or> b3 then XJSON_TOKEN_FLOAT else XJSON_TOKEN_INTEGER),
                  jt_pData = Some st, jt_nLength = k3 - st\<rparr>, js_nOffset := k3\<rparr> =
              lexed (j\<lparr>js_nOffset := st\<rparr>) (if b2 \<or> b3 then XJSON_TOKEN_FLOAT else XJSON_TOKEN_INTEGER) 0 (length ?w)"
            unfolding w by (simp add: lexed_def set_type_def)
          ultimately show ?thesis unfolding st_def [symmetric]
            by (intro exI [of _ "?j\<lparr>js_lastToken := \<lparr>jt_nType = (if b2 \<or> b3 then XJSON_TOKEN_FLOAT else XJSON_TOKEN_INTEGER),
                  jt_pData = Some st, jt_nLength = k3 - st\<rparr>, js_nOffset := k3\<rparr>"] exI [of _ True] conjI)
               (assumption, simp only: if_True, intro exI [of _ "b2 \<or> b3"] exI [of _ ?w], simp add: lexed_def)
        qed
      qed
    qed
  qed
qed

lemma int_start: "json_int ip \<Longrightarrow> \<exists>c w. ip = c # w \<and> is_digit c"
  by (auto simp: json_int_def json_digits_def is_digit_def neq_Nil_conv)

lemma frac_start: "json_frac fp \<Longrightarrow> fp = [] \<or> hd fp = 46"
  by (cases fp) (auto simp: json_frac_def)

lemma exp_start: "json_exp ep \<Longrightarrow> ep = [] \<or> hd ep = 101 \<or> hd ep = 69"
  by (cases ep) (auto simp: json_exp_def)

lemma digit_neq [simp]: "is_digit c \<Longrightarrow> c \<noteq> 45 \<and> c \<noteq> 46 \<and> c \<noteq> 101 \<and> c \<noteq> 69"
  by (auto simp: is_digit_def)

lemma not_digit [simp]: "\<not> is_digit 45" "\<not> is_digit 46" "\<not> is_digit 101" "\<not> is_digit 69" "\<not> is_digit 34"
  by (simp_all add: is_digit_def)

lemma ParseDigit_complete:
  assumes j: "lex_ok d j" and w: "json_number fl w" and s: "drop (js_nOffset j - 1) d = w @ rest"
    and follow: "token_follow XJSON_TOKEN_INTEGER rest" and o: "0 < js_nOffset j"
  shows "XJSON_ParseDigit j =
    Some (lexed (j\<lparr>js_nOffset := js_nOffset j - 1\<rparr>) (if fl then XJSON_TOKEN_FLOAT else XJSON_TOKEN_INTEGER) 0 (length w), True)"
proof -
  define st where "st = js_nOffset j - 1"
  let ?j = "set_type j XJSON_TOKEN_INVALID"
  have p: "js_pData ?j = Some d" "js_nDataSize ?j = length d" "js_nOffset ?j - 1 = st" "st \<le> length d"
    using j o by (auto simp: lex_ok_def set_type_def st_def)
  obtain sg ip fp ep where n: "w = sg @ ip @ fp @ ep" "sg = [] \<or> sg = [45]" "json_int ip" "json_frac fp" "json_exp ep"
    "fl \<longleftrightarrow> fp \<noteq> [] \<or> ep \<noteq> []" using w unfolding json_number_def by blast
  have r: "rest = [] \<or> \<not> is_digit (hd rest)" "rest = [] \<or> \<not> is_digit (hd rest) \<and> hd rest \<noteq> 101 \<and> hd rest \<noteq> 69"
    "rest = [] \<or> hd rest \<noteq> 46" using follow by (auto simp: token_follow_def)
  obtain c ip' where ip: "ip = c # ip'" "is_digit c" using int_start [OF n(3)] by blast
  have s': "drop st d = sg @ ip @ fp @ ep @ rest" using s n(1) by (simp add: st_def)
  have st: "st < length d" using s' ip(1) by (cases "st < length d") auto
  define i where "i = st + length sg"
  have di: "drop i d = ip @ fp @ ep @ rest" "i \<le> length d" using drop_split [OF s' p(4)] by (auto simp: i_def)
  then have il: "i < length d" using ip(1) by (cases "i < length d") auto
  have sgn: "(if d ! st = 45 then Suc st else st) = i"
    using n(2) s' ip drop_step [OF st] by (auto simp: i_def)
  have b1: "ep @ rest = [] \<or> \<not> is_digit (hd (ep @ rest)) \<and> hd (ep @ rest) \<noteq> 46"
    using exp_start [OF n(5)] r by (cases ep) auto
  then have b2: "fp @ ep @ rest = [] \<or> \<not> is_digit (hd (fp @ ep @ rest))"
    using frac_start [OF n(4)] by (cases fp) auto
  have i1: "scan_int (Some d) (length d) i = Some (Inr (i + length ip))" by (rule scan_int_complete [OF di(1) n(3) b2])
  define k where "k = i + length ip"
  have dk: "drop k d = fp @ ep @ rest" "k \<le> length d" using drop_split [OF di] by (auto simp: k_def)
  have i2: "scan_frac (Some d) (length d) k = Some (Inr (k + length fp, fp \<noteq> []))" by (rule scan_frac_complete [OF dk n(4) b1])
  define k2 where "k2 = k + length fp"
  have dk2: "drop k2 d = ep @ rest" "k2 \<le> length d" using drop_split [OF dk] by (auto simp: k2_def)
  have i3: "scan_exp (Some d) (length d) k2 = Some (Inr (k2 + length ep, ep \<noteq> []))" by (rule scan_exp_complete [OF dk2 n(5) r(2)])
  have nb: "\<not> (d ! st = 45 \<and> length d \<le> i)" using il by simp
  have "XJSON_ParseDigit j = Some (?j\<lparr>js_lastToken := \<lparr>jt_nType = (if fp \<noteq> [] \<or> ep \<noteq> [] then XJSON_TOKEN_FLOAT else XJSON_TOKEN_INTEGER),
                  jt_pData = Some st, jt_nLength = k2 + length ep - st\<rparr>, js_nOffset := k2 + length ep\<rparr>, True)"
    unfolding XJSON_ParseDigit_def Let_def p(1-3) cpeek_at [OF st] bind.bind_lunit sgn if_not_P [OF nb] i1 sum.case
      k_def [symmetric] i2 prod.case k2_def [symmetric] i3 ..
  moreover have "k2 + length ep = st + length w" using n(1) by (simp add: k2_def k_def i_def)
  ultimately show ?thesis using n(6) unfolding st_def [symmetric] by (simp add: lexed_def set_type_def)
qed

lemma ParseQuote_spec:
  assumes j: "lex_ok d j" "jt_nLength (js_lastToken j) = 0" and o: "0 < js_nOffset j"
  shows "\<exists>j' ok. XJSON_ParseQuote j = Some (j', ok) \<and>
    (if ok then \<exists>b. json_body b \<and> drop (js_nOffset j) d = b @ 34 # drop (js_nOffset j') d \<and>
        js_nOffset j' = js_nOffset j + length b + 1 \<and>
        j' = lexed (j\<lparr>js_nOffset := js_nOffset j - 1\<rparr>) XJSON_TOKEN_QUOTE 0 (length b + 2)
     else lex_fail d j j')"
proof -
  let ?o = "js_nOffset j" and ?j = "set_type j XJSON_TOKEN_INVALID"
  have p: "js_pData ?j = Some d" "js_nDataSize ?j = length d" "lex_ok d ?j" "js_nOffset ?j = ?o" "?o \<le> length d"
    "jt_nType (js_lastToken ?j) = XJSON_TOKEN_INVALID" "jt_nLength (js_lastToken ?j) = 0" "js_pRootObj ?j = js_pRootObj j"
    using j by (auto simp: lex_ok_def set_type_def)
  show ?thesis
  proof (cases "length d \<le> ?o")
    case True
    then show ?thesis using p by (auto simp: XJSON_ParseQuote_def XJSON_CheckBounds_def lex_fail_def lex_ok_def)
  next
    case False
    obtain o1 r where q: "quote_loop (Some d) (length d) ?o = Some (o1, r)" "o1 \<le> length d" using quote_loop_total [OF p(5)] by blast
    let ?j1 = "?j\<lparr>js_nOffset := o1\<rparr>"
    have j1: "lex_ok d ?j1" using p(3) q(2) by (simp add: lex_ok_def)
    have F: "\<exists>j'. XJSON_UnexpectedToken ?j1 = (j', False) \<and> lex_fail d j j'" "\<exists>j'. XJSON_UnexpectedEOF ?j1 = (j', False) \<and> lex_fail d j j'"
      using unexpected_fail [OF j1] eof_fail [OF j1] p(6-8) by (auto simp: lex_fail_def)
    have E: "XJSON_ParseQuote j = Some (case r of
              Closed \<Rightarrow> (?j1\<lparr>js_lastToken := \<lparr>jt_nType = XJSON_TOKEN_QUOTE, jt_pData = Some ?o, jt_nLength = o1 - ?o - 1\<rparr>\<rparr>, True)
            | Bad \<Rightarrow> XJSON_UnexpectedToken ?j1 | Short \<Rightarrow> XJSON_UnexpectedEOF ?j1)"
      using False p(1,2,4) q(1) by (simp add: XJSON_ParseQuote_def XJSON_CheckBounds_def Let_def)
    show ?thesis
    proof (cases r)
      case Closed
      from quote_loop_sound [OF q(1) [unfolded Closed] p(5)] obtain b where
        b: "json_body b" "drop ?o d = b @ 34 # drop o1 d" "o1 = ?o + length b + 1" by blast
      have "?j1\<lparr>js_lastToken := \<lparr>jt_nType = XJSON_TOKEN_QUOTE, jt_pData = Some ?o, jt_nLength = o1 - ?o - 1\<rparr>\<rparr> =
          lexed (j\<lparr>js_nOffset := ?o - 1\<rparr>) XJSON_TOKEN_QUOTE 0 (length b + 2)"
        using o b(3) by (simp add: lexed_def set_type_def)
      moreover have "js_nOffset (lexed (j\<lparr>js_nOffset := ?o - 1\<rparr>) XJSON_TOKEN_QUOTE 0 (length b + 2)) = o1"
        using o b(3) by (simp add: lexed_def)
      ultimately show ?thesis using E Closed b(1) b(2) b(3)
        by (intro exI [of _ "lexed (j\<lparr>js_nOffset := ?o - 1\<rparr>) XJSON_TOKEN_QUOTE 0 (length b + 2)"] exI [of _ True] conjI)
           (simp, simp only: if_True, intro exI [of _ b], simp)
    next
      case Bad
      with E F(1) show ?thesis by auto
    next
      case Short
      with E F(2) show ?thesis by auto
    qed
  qed
qed

lemma ParseQuote_complete:
  assumes j: "lex_ok d j" and b: "json_body b" "drop (js_nOffset j) d = b @ 34 # rest" and o: "0 < js_nOffset j"
  shows "XJSON_ParseQuote j = Some (lexed (j\<lparr>js_nOffset := js_nOffset j - 1\<rparr>) XJSON_TOKEN_QUOTE 0 (length b + 2), True)"
proof -
  have "js_nOffset j < length d" using b(2) by (cases "js_nOffset j < length d") auto
  then show ?thesis using j o quote_loop_complete [OF b]
    by (simp add: XJSON_ParseQuote_def XJSON_CheckBounds_def Let_def lex_ok_def set_type_def lexed_def)
qed

lemma words_alpha: "\<forall>c \<in> set null_text. XJSON_IsAlphabet c" "\<forall>c \<in> set true_text. XJSON_IsAlphabet c"
  "\<forall>c \<in> set false_text. XJSON_IsAlphabet c"
  by (simp_all add: XJSON_IsAlphabet_def)

lemma alpha_word:
  assumes j: "lex_ok d j" and o: "0 < js_nOffset j" and c: "d ! (js_nOffset j - 1) = c" "XJSON_IsAlphabet c"
  defines "w \<equiv> takeWhile XJSON_IsAlphabet (drop (js_nOffset j - 1) d)"
  shows "w = c # takeWhile XJSON_IsAlphabet (drop (js_nOffset j) d)"
    "XJSON_ParseAlphabet j c =
      (if js_nOffset j - 1 + length w = length d then Some ((set_type j XJSON_TOKEN_INVALID)\<lparr>js_nOffset := length d, js_nError := XJSON_ERR_BOUNDS\<rparr>, False)
       else let j' = j\<lparr>js_lastToken := \<lparr>jt_nType = XJSON_TOKEN_INVALID, jt_pData = Some (js_nOffset j - 1), jt_nLength = length w\<rparr>,
                    js_nOffset := js_nOffset j - 1 + length w\<rparr>
         in Some (if w = null_text then (set_type j' XJSON_TOKEN_NULL, True)
                else if w = true_text \<or> w = false_text then (set_type j' XJSON_TOKEN_BOOL, True)
                else XJSON_UnexpectedToken j'))"
proof -
  let ?o = "js_nOffset j"
  have jo: "js_pData j = Some d" "js_nDataSize j = length d" "?o \<le> length d" "?o - 1 < length d" "Suc (?o - 1) = ?o"
    using j o by (auto simp: lex_ok_def)
  have dr: "drop (?o - 1) d = c # drop ?o d" using drop_step [OF jo(4)] c(1) jo(5) by simp
  then show w: "w = c # takeWhile XJSON_IsAlphabet (drop ?o d)" using c(2) by (simp add: w_def)
  let ?v = "takeWhile XJSON_IsAlphabet (drop ?o d)"
  have lv: "?o - 1 + length w = ?o + length ?v" using w jo(5) by simp
  have le: "?o + length ?v \<le> length d" using length_takeWhile_le [of XJSON_IsAlphabet "drop ?o d"] jo(3) by simp
  show "XJSON_ParseAlphabet j c = (if ?o - 1 + length w = length d
       then Some ((set_type j XJSON_TOKEN_INVALID)\<lparr>js_nOffset := length d, js_nError := XJSON_ERR_BOUNDS\<rparr>, False)
       else let j' = j\<lparr>js_lastToken := \<lparr>jt_nType = XJSON_TOKEN_INVALID, jt_pData = Some (?o - 1), jt_nLength = length w\<rparr>,
                    js_nOffset := ?o - 1 + length w\<rparr>
         in Some (if w = null_text then (set_type j' XJSON_TOKEN_NULL, True)
                else if w = true_text \<or> w = false_text then (set_type j' XJSON_TOKEN_BOOL, True)
                else XJSON_UnexpectedToken j'))"
  proof (cases "?o - 1 + length w = length d")
    case True
    with lv have "alpha_loop (Some d) (length d) ?o c = Some (length d, False)" using alpha_loop_eq [OF jo(3) c(2)] by (simp add: Let_def)
    with True jo(1,2) show ?thesis by (simp add: XJSON_ParseAlphabet_def Let_def set_type_def)
  next
    case False
    with lv have a: "alpha_loop (Some d) (length d) ?o c = Some (?o + length ?v + 1, True)" using alpha_loop_eq [OF jo(3) c(2)] by (simp add: Let_def)
    have "mread d (?o - 1) (length w) = Some (take (length w) (drop (?o - 1) d))"
      using le lv by (intro mread_Some) simp
    also have "take (length w) (drop (?o - 1) d) = w" by (simp add: w_def takeWhile_eq_take [symmetric])
    finally have m: "mread d (?o - 1) (length w) = Some w" .
    have l: "?o + length ?v + 1 - ?o = length w" "?o + length ?v + 1 - 1 = ?o - 1 + length w" using lv w by simp_all
    have p: "js_pData (set_type j XJSON_TOKEN_INVALID) = Some d" "js_nDataSize (set_type j XJSON_TOKEN_INVALID) = length d"
      "js_nOffset (set_type j XJSON_TOKEN_INVALID) = ?o" using jo by (simp_all add: set_type_def)
    show ?thesis
      unfolding XJSON_ParseAlphabet_def Let_def p a bind.bind_lunit prod.case l m if_not_P [OF False]
      by (simp add: set_type_def)
  qed
qed

lemma char_token_cases: "char_token c = Some t \<Longrightarrow> t \<in> {XJSON_TOKEN_EOF, XJSON_TOKEN_LCURLY, XJSON_TOKEN_RCURLY, XJSON_TOKEN_LSQUARE,
    XJSON_TOKEN_RSQUARE, XJSON_TOKEN_COLON, XJSON_TOKEN_COMMA} \<and> \<not> is_ws c \<and> c \<noteq> 45 \<and> \<not> is_digit c \<and> \<not> XJSON_IsAlphabet c \<and> c \<noteq> 34"
  by (auto simp: char_token_def is_ws_def is_digit_def XJSON_IsAlphabet_def split: if_splits)

lemma token_text_char: "char_token c = Some t \<Longrightarrow> token_text t [c]"
  using char_token_cases [of c t] by (auto simp: token_text_def)

text \<open>The state in which the character dispatch of \<open>XJSON_GetNextToken\<close> starts.\<close>

definition at_token :: "xjson \<Rightarrow> nat \<Rightarrow> xjson" where
  "at_token j i = j\<lparr>js_lastToken := \<lparr>jt_nType = XJSON_TOKEN_INVALID, jt_pData = None, jt_nLength = 0\<rparr>, js_nOffset := js_nOffset j + i + 1\<rparr>"

definition dispatch :: "xjson \<Rightarrow> byte \<Rightarrow> (xjson \<times> bool) option" where
  "dispatch j c =
     (if c = 45 \<or> is_digit c then XJSON_ParseDigit j
      else if XJSON_IsAlphabet c then XJSON_ParseAlphabet j c
      else if c = 34 then XJSON_ParseQuote j
      else let j = j\<lparr>js_lastToken := \<lparr>jt_nType = XJSON_TOKEN_INVALID, jt_pData = Some (js_nOffset j - 1), jt_nLength = 1\<rparr>\<rparr>
        in Some (case char_token c of
             None \<Rightarrow> XJSON_UnexpectedToken j
           | Some XJSON_TOKEN_EOF \<Rightarrow>
               (j\<lparr>js_lastToken := \<lparr>jt_nType = XJSON_TOKEN_EOF, jt_pData = None, jt_nLength = 0\<rparr>\<rparr>, True)
           | Some t \<Rightarrow> (set_type j t, True)))"

lemma GetNextToken_eq:
  assumes "lex_ok d j"
  defines "ws \<equiv> takeWhile is_ws (drop (js_nOffset j) d)"
  shows "XJSON_GetNextToken j =
    (if js_nOffset j + length ws = length d
     then Some (j\<lparr>js_lastToken := \<lparr>jt_nType = XJSON_TOKEN_EOF, jt_pData = None, jt_nLength = 0\<rparr>, js_nOffset := length d,
                   js_nError := XJSON_ERR_BOUNDS\<rparr>, False)
     else dispatch (at_token j (length ws)) (d ! (js_nOffset j + length ws)))"
proof -
  let ?o = "js_nOffset j" and ?s = "drop (js_nOffset j) d"
  have j: "js_pData j = Some d" "js_nDataSize j = length d" "?o \<le> length d" using assms by (auto simp: lex_ok_def)
  have le: "?o + length ws \<le> length d" using length_takeWhile_le [of is_ws ?s] j(3) by (simp add: ws_def)
  have dw: "dropWhile is_ws ?s = drop (?o + length ws) d"
    unfolding ws_def by (metis add.commute drop_drop dropWhile_eq_drop)
  let ?n = "\<lparr>jt_nType = XJSON_TOKEN_INVALID, jt_pData = None, jt_nLength = 0\<rparr>"
  show ?thesis
  proof (cases "?o + length ws = length d")
    case True
    then have e: "dropWhile is_ws ?s = []" using dw by simp
    have "next_char (Some d) (length d) ?o = Some (length d, None)" unfolding next_char_eq [OF j(3)] Let_def e by simp
    then show ?thesis using True j by (simp add: XJSON_GetNextToken_def XJSON_NextChar_def set_type_def)
  next
    case False
    then have i: "?o + length ws < length d" using le by simp
    then have "dropWhile is_ws ?s = d ! (?o + length ws) # drop (Suc (?o + length ws)) d" unfolding dw by (rule drop_step)
    then have n: "next_char (Some d) (length d) ?o = Some (?o + length ws + 1, Some (d ! (?o + length ws)))"
      using next_char_eq [OF j(3)] i by simp
    have nc: "XJSON_NextChar (j\<lparr>js_lastToken := ?n\<rparr>) = Some (at_token j (length ws), Some (d ! (?o + length ws)))"
      using n j by (simp add: XJSON_NextChar_def at_token_def)
    have up: "?n\<lparr>jt_nType := XJSON_TOKEN_EOF\<rparr> = \<lparr>jt_nType = XJSON_TOKEN_EOF, jt_pData = None, jt_nLength = 0\<rparr>" by simp
    show ?thesis
      unfolding XJSON_GetNextToken_def Let_def nc bind.bind_lunit prod.case option.case if_not_P [OF False] dispatch_def up ..
  qed
qed

lemma lexed_at: "lexed ((at_token j i)\<lparr>js_nOffset := js_nOffset (at_token j i) - 1\<rparr>) t 0 k = lexed j t i k"
  by (simp add: lexed_def at_token_def)

lemma lex_fail_at: "lex_fail d (at_token j i) j' \<longleftrightarrow> lex_fail d j j'"
  by (simp add: lex_fail_def at_token_def)

lemma set_type_lexed:
  "t \<noteq> XJSON_TOKEN_EOF \<Longrightarrow> t \<noteq> XJSON_TOKEN_QUOTE \<Longrightarrow> 0 < k \<Longrightarrow> js_nOffset j' = o' + i + k \<Longrightarrow> o' = js_nOffset j \<Longrightarrow>
   js_lastToken j' = \<lparr>jt_nType = x, jt_pData = Some (o' + i), jt_nLength = k\<rparr> \<Longrightarrow>
   js_nError j' = js_nError j \<Longrightarrow> js_pRootObj j' = js_pRootObj j \<Longrightarrow> js_pData j' = js_pData j \<Longrightarrow> js_nDataSize j' = js_nDataSize j \<Longrightarrow>
   set_type j' t = lexed j t i k"
  by (simp add: set_type_def lexed_def)

text \<open>Every call returns and stays in bounds; on success the offset has passed white space and one token.\<close>

lemma GetNextToken_sound:
  assumes j: "lex_ok d j"
  shows "\<exists>j' ok. XJSON_GetNextToken j = Some (j', ok) \<and>
    (if ok then \<exists>t ws w rest. drop (js_nOffset j) d = ws @ w @ rest \<and> list_all is_ws ws \<and> token_text t w \<and> j' = lexed j t (length ws) (length w)
     else lex_fail d j j')"
proof -
  let ?o = "js_nOffset j"
  define ws where "ws = takeWhile is_ws (drop ?o d)"
  have jo: "?o \<le> length d" "js_pData j = Some d" "js_nDataSize j = length d" "length d < 2 ^ 64" using j by (auto simp: lex_ok_def)
  have le: "?o + length ws \<le> length d" using length_takeWhile_le [of is_ws "drop ?o d"] jo by (simp add: ws_def)
  have lws: "list_all is_ws ws" unfolding ws_def list_all_iff by (auto dest: set_takeWhileD)
  have dws: "drop ?o d = ws @ drop (?o + length ws) d" unfolding ws_def by (rule drop_while)
  note eq = GetNextToken_eq [OF j, folded ws_def]
  show ?thesis
  proof (cases "?o + length ws = length d")
    case True
    then show ?thesis unfolding eq using jo by (auto simp: lex_fail_def lex_ok_def)
  next
    case False
    then have i: "?o + length ws < length d" using le by simp
    define c where "c = d ! (?o + length ws)"
    define a where "a = at_token j (length ws)"
    have dc: "drop ?o d = ws @ c # drop (Suc (?o + length ws)) d" using dws drop_step [OF i] by (simp add: c_def)
    have a: "lex_ok d a" "js_nOffset a = ?o + length ws + 1" "jt_nLength (js_lastToken a) = 0" "0 < js_nOffset a"
      using i jo by (auto simp: a_def at_token_def lex_ok_def)
    have E: "XJSON_GetNextToken j = dispatch a c" unfolding eq a_def c_def using False by simp
    have goal: ?thesis if "dispatch a c = Some (j', True)" "drop ?o d = ws @ w @ rest" "token_text t w" "j' = lexed j t (length ws) (length w)" for j' t w rest
      using that lws E by auto
    have bad: ?thesis if "dispatch a c = Some (j', False)" "lex_fail d a j'" for j'
      using that E by (auto simp: a_def lex_fail_at)
    consider (num) "c = 45 \<or> is_digit c" | (alpha) "\<not> (c = 45 \<or> is_digit c)" "XJSON_IsAlphabet c"
      | (quote) "c = 34" | (char) "\<not> (c = 45 \<or> is_digit c)" "\<not> XJSON_IsAlphabet c" "c \<noteq> 34" by blast
    then show ?thesis
    proof cases
      case num
      then have D: "dispatch a c = XJSON_ParseDigit a" by (simp add: dispatch_def)
      from ParseDigit_spec [OF a(1,3,4)] obtain j' ok where p: "XJSON_ParseDigit a = Some (j', ok)"
        "if ok then \<exists>fl w. json_number fl w \<and> drop (js_nOffset a - 1) d = w @ drop (js_nOffset j') d \<and> js_nOffset j' = js_nOffset a - 1 + length w \<and>
        j' = lexed (a\<lparr>js_nOffset := js_nOffset a - 1\<rparr>) (if fl then XJSON_TOKEN_FLOAT else XJSON_TOKEN_INTEGER) 0 (length w) else lex_fail d a j'" by blast
      show ?thesis
      proof (cases ok)
        case True
        with p(2) obtain fl w where w: "json_number fl w" "drop (js_nOffset a - 1) d = w @ drop (js_nOffset j') d"
          "j' = lexed (a\<lparr>js_nOffset := js_nOffset a - 1\<rparr>) (if fl then XJSON_TOKEN_FLOAT else XJSON_TOKEN_INTEGER) 0 (length w)" by auto
        show ?thesis
        proof (rule goal)
          show "dispatch a c = Some (j', True)" using D p(1) True by simp
          show "drop ?o d = ws @ w @ drop (js_nOffset j') d" using dws w(2) a(2) by simp
          show "token_text (if fl then XJSON_TOKEN_FLOAT else XJSON_TOKEN_INTEGER) w" using w(1) by (cases fl) (auto simp: token_text_def)
          show "j' = lexed j (if fl then XJSON_TOKEN_FLOAT else XJSON_TOKEN_INTEGER) (length ws) (length w)"
            using w(3) unfolding a_def lexed_at .
        qed
      next
        case False
        with p D bad show ?thesis by auto
      qed
    next
      case alpha
      then have D: "dispatch a c = XJSON_ParseAlphabet a c" by (simp add: dispatch_def)
      define v where "v = takeWhile XJSON_IsAlphabet (drop (js_nOffset a - 1) d)"
      let ?j = "a\<lparr>js_lastToken := \<lparr>jt_nType = XJSON_TOKEN_INVALID, jt_pData = Some (js_nOffset a - 1), jt_nLength = length v\<rparr>,
                    js_nOffset := js_nOffset a - 1 + length v\<rparr>"
      have ca: "d ! (js_nOffset a - 1) = c" using a(2) by (simp add: c_def)
      note P = alpha_word(2) [OF a(1,4) ca alpha(2), folded v_def]
      have v0: "v \<noteq> []" using alpha_word(1) [OF a(1,4) ca alpha(2)] by (simp add: v_def)
      have dv: "drop ?o d = ws @ v @ drop (js_nOffset a - 1 + length v) d"
        using drop_while [of "js_nOffset a - 1" d XJSON_IsAlphabet] dws a(2) by (simp add: v_def)
      have vl: "js_nOffset a - 1 + length v \<le> length d"
        using length_takeWhile_le [of XJSON_IsAlphabet "drop (js_nOffset a - 1) d"] a(2) i by (simp add: v_def)
      show ?thesis
      proof (cases "js_nOffset a - 1 + length v = length d")
        case True
        with P D a(1) show ?thesis by (intro bad) (auto simp: lex_fail_def lex_ok_def set_type_def)
      next
        case nb: False
        have st: "set_type ?j t = lexed j t (length ws) (length v)" if "t \<noteq> XJSON_TOKEN_EOF" "t \<noteq> XJSON_TOKEN_QUOTE" for t
          using a(2) v0 by (intro set_type_lexed that) (auto simp: a_def at_token_def)
        consider "v = null_text" | "v \<noteq> null_text" "v = true_text \<or> v = false_text" | "v \<noteq> null_text" "\<not> (v = true_text \<or> v = false_text)" by blast
        then show ?thesis
        proof cases
          case 1
          show ?thesis
            by (rule goal [OF _ dv, of "set_type ?j XJSON_TOKEN_NULL" XJSON_TOKEN_NULL])
               (use P D nb 1 st [of XJSON_TOKEN_NULL] in \<open>simp_all add: token_text_def Let_def\<close>)
        next
          case 2
          show ?thesis
            by (rule goal [OF _ dv, of "set_type ?j XJSON_TOKEN_BOOL" XJSON_TOKEN_BOOL])
               (use P D nb 2 st [of XJSON_TOKEN_BOOL] in \<open>auto simp add: token_text_def Let_def\<close>)
        next
          case 3
          have "lex_ok d ?j" using a(1) vl by (simp add: lex_ok_def)
          from unexpected_fail [OF this] obtain j' where "XJSON_UnexpectedToken ?j = (j', False)" "lex_fail d ?j j'" by auto
          then show ?thesis using P D nb 3 by (intro bad [of j']) (simp_all add: Let_def lex_fail_def)
        qed
      qed
    next
      case quote
      then have D: "dispatch a c = XJSON_ParseQuote a" by (simp add: dispatch_def XJSON_IsAlphabet_def)
      from ParseQuote_spec [OF a(1,3,4)] obtain j' ok where p: "XJSON_ParseQuote a = Some (j', ok)"
        "if ok then \<exists>b. json_body b \<and> drop (js_nOffset a) d = b @ 34 # drop (js_nOffset j') d \<and> js_nOffset j' = js_nOffset a + length b + 1 \<and>
        j' = lexed (a\<lparr>js_nOffset := js_nOffset a - 1\<rparr>) XJSON_TOKEN_QUOTE 0 (length b + 2) else lex_fail d a j'" by blast
      show ?thesis
      proof (cases ok)
        case True
        with p(2) obtain b where b: "json_body b" "drop (js_nOffset a) d = b @ 34 # drop (js_nOffset j') d"
          "j' = lexed (a\<lparr>js_nOffset := js_nOffset a - 1\<rparr>) XJSON_TOKEN_QUOTE 0 (length b + 2)" by auto
        show ?thesis
        proof (rule goal)
          show "dispatch a c = Some (j', True)" using D p(1) True by simp
          show "drop ?o d = ws @ (34 # b @ [34]) @ drop (js_nOffset j') d" using dc b(2) a(2) quote by simp
          show "token_text XJSON_TOKEN_QUOTE (34 # b @ [34])" using b(1) by (simp add: token_text_def)
          show "j' = lexed j XJSON_TOKEN_QUOTE (length ws) (length (34 # b @ [34]))"
            using b(3) unfolding a_def lexed_at by simp
        qed
      next
        case False
        with p D bad show ?thesis by auto
      qed
    next
      case char
      let ?j = "a\<lparr>js_lastToken := \<lparr>jt_nType = XJSON_TOKEN_INVALID, jt_pData = Some (js_nOffset a - 1), jt_nLength = 1\<rparr>\<rparr>"
      have D: "dispatch a c = Some (case char_token c of None \<Rightarrow> XJSON_UnexpectedToken ?j
           | Some XJSON_TOKEN_EOF \<Rightarrow> (?j\<lparr>js_lastToken := \<lparr>jt_nType = XJSON_TOKEN_EOF, jt_pData = None, jt_nLength = 0\<rparr>\<rparr>, True)
           | Some t \<Rightarrow> (set_type ?j t, True))" by (simp only: dispatch_def Let_def char if_False)
      show ?thesis
      proof (cases "char_token c")
        case None
        have "lex_ok d ?j" using a(1) by (simp add: lex_ok_def)
        from unexpected_fail [OF this] a(4) obtain j' where "XJSON_UnexpectedToken ?j = (j', False)" "lex_fail d ?j j'" by auto
        then show ?thesis using D None by (intro bad [of j']) (simp_all add: lex_fail_def)
      next
        case (Some t)
        have dcc: "drop ?o d = ws @ [c] @ drop (Suc (?o + length ws)) d" using dc by simp
        show ?thesis
          by (rule goal [OF _ dcc token_text_char [OF Some] refl])
             (use D Some char_token_cases [OF Some] a(2) in \<open>auto simp: lexed_def set_type_def a_def at_token_def\<close>)
      qed
    qed
  qed
qed

lemma token_start:
  assumes "token_text t w"
  obtains c v where "w = c # v" "\<not> is_ws c"
    "t \<in> {XJSON_TOKEN_INTEGER, XJSON_TOKEN_FLOAT} \<longleftrightarrow> c = 45 \<or> is_digit c"
    "t \<in> {XJSON_TOKEN_NULL, XJSON_TOKEN_BOOL} \<longleftrightarrow> XJSON_IsAlphabet c" "t = XJSON_TOKEN_QUOTE \<longleftrightarrow> c = 34"
proof -
  have num: "\<exists>c v. w = c # v \<and> (c = 45 \<or> is_digit c)" if "json_number fl w" for fl
  proof -
    from that obtain sg ip fp ep where "w = sg @ ip @ fp @ ep" "sg = [] \<or> sg = [45]" "json_int ip" unfolding json_number_def by blast
    with int_start [of ip] show ?thesis by auto
  qed
  have d: "\<not> is_ws c \<and> \<not> XJSON_IsAlphabet c \<and> c \<noteq> 34" if "c = 45 \<or> is_digit c" for c
    using that by (auto simp: is_ws_def is_digit_def XJSON_IsAlphabet_def; unat_arith)
  show ?thesis
  proof (cases "t \<in> {XJSON_TOKEN_INTEGER, XJSON_TOKEN_FLOAT}")
    case True
    with assms have "json_number False w \<or> json_number True w" by (auto simp: token_text_def)
    then obtain c v where "w = c # v" "c = 45 \<or> is_digit c" using num by blast
    with True d show ?thesis by (intro that [of c v]) auto
  next
    case False
    with assms show ?thesis
      by (cases t) (auto simp: token_text_def is_ws_def is_digit_def XJSON_IsAlphabet_def dest: char_token_cases
          intro: that elim!: meta_allE [of _ "hd w"] meta_allE [of _ "tl w"])
  qed
qed

lemma while_ws: "list_all is_ws ws \<Longrightarrow> \<not> is_ws c \<Longrightarrow> takeWhile is_ws (ws @ c # v) = ws"
  by (induction ws) auto

text \<open>White space and a token that is followed by something that ends it is read as that token.\<close>

lemma GetNextToken_complete:
  assumes j: "lex_ok d j" and s: "drop (js_nOffset j) d = ws @ w @ rest" and ws: "list_all is_ws ws"
    and w: "token_text t w" and follow: "token_follow t rest"
  shows "XJSON_GetNextToken j = Some (lexed j t (length ws) (length w), True)"
proof -
  let ?o = "js_nOffset j"
  from w obtain c v where c: "w = c # v" "\<not> is_ws c"
    "t \<in> {XJSON_TOKEN_INTEGER, XJSON_TOKEN_FLOAT} \<longleftrightarrow> c = 45 \<or> is_digit c"
    "t \<in> {XJSON_TOKEN_NULL, XJSON_TOKEN_BOOL} \<longleftrightarrow> XJSON_IsAlphabet c" "t = XJSON_TOKEN_QUOTE \<longleftrightarrow> c = 34" by (rule token_start)
  have jo: "?o \<le> length d" "js_pData j = Some d" "js_nDataSize j = length d" "length d < 2 ^ 64" using j by (auto simp: lex_ok_def)
  have tw: "takeWhile is_ws (drop ?o d) = ws" using s c ws by (simp add: while_ws)
  have dd: "drop (?o + length ws) d = w @ rest" "?o + length ws \<le> length d" using drop_split [OF s jo(1)] by auto
  then have i: "?o + length ws < length d" using c(1) by (cases "?o + length ws < length d") auto
  have cc: "d ! (?o + length ws) = c" using dd(1) c(1) drop_step [OF i] by simp
  define a where "a = at_token j (length ws)"
  have a: "lex_ok d a" "js_nOffset a = ?o + length ws + 1" "0 < js_nOffset a" "js_nOffset a - 1 = ?o + length ws"
    using i jo by (auto simp: a_def at_token_def lex_ok_def)
  have da: "drop (js_nOffset a - 1) d = w @ rest" using dd(1) a(4) by simp
  have E: "XJSON_GetNextToken j = dispatch a c" unfolding GetNextToken_eq [OF j] tw a_def cc using i by simp
  consider (num) "t \<in> {XJSON_TOKEN_INTEGER, XJSON_TOKEN_FLOAT}" | (word) "t \<in> {XJSON_TOKEN_NULL, XJSON_TOKEN_BOOL}"
    | (quote) "t = XJSON_TOKEN_QUOTE" | (char) "t \<notin> {XJSON_TOKEN_INTEGER, XJSON_TOKEN_FLOAT, XJSON_TOKEN_NULL, XJSON_TOKEN_BOOL, XJSON_TOKEN_QUOTE}" by blast
  then show ?thesis
  proof cases
    case num
    define fl where "fl \<longleftrightarrow> t = XJSON_TOKEN_FLOAT"
    have t: "t = (if fl then XJSON_TOKEN_FLOAT else XJSON_TOKEN_INTEGER)" using num by (auto simp: fl_def)
    have "json_number fl w" "token_follow XJSON_TOKEN_INTEGER rest"
      using w follow num by (auto simp: fl_def token_text_def token_follow_def)
    from ParseDigit_complete [OF a(1) this(1) da this(2) a(3)] have
      "XJSON_ParseDigit a = Some (lexed j t (length ws) (length w), True)" unfolding t a_def lexed_at .
    then show ?thesis using E c num by (auto simp: dispatch_def)
  next
    case word
    have al: "\<forall>x \<in> set w. XJSON_IsAlphabet x" using w word words_alpha by (auto simp: token_text_def)
    have r: "rest \<noteq> []" "\<not> XJSON_IsAlphabet (hd rest)" using follow word by (auto simp: token_follow_def)
    have v: "takeWhile XJSON_IsAlphabet (drop (js_nOffset a - 1) d) = w"
      unfolding da using al r by (cases rest) (auto simp: takeWhile_append)
    have nb: "js_nOffset a - 1 + length w \<noteq> length d"
    proof -
      have "length d = ?o + length ws + length w + length rest" using dd by (metis add.assoc length_append length_drop le_add_diff_inverse)
      then show ?thesis using a(4) r(1) by simp
    qed
    have ca: "d ! (js_nOffset a - 1) = c" using cc a(4) by simp
    have alc: "XJSON_IsAlphabet c" using c(4) word by simp
    note P = alpha_word(2) [OF a(1,3) ca alc, unfolded v]
    have st: "set_type (a\<lparr>js_lastToken := \<lparr>jt_nType = XJSON_TOKEN_INVALID, jt_pData = Some (js_nOffset a - 1), jt_nLength = length w\<rparr>,
                    js_nOffset := js_nOffset a - 1 + length w\<rparr>) t = lexed j t (length ws) (length w)"
      using a(2) c(1) word by (intro set_type_lexed) (auto simp: a_def at_token_def)
    have "XJSON_ParseAlphabet a c = Some (lexed j t (length ws) (length w), True)"
      using P nb word w st by (auto simp: Let_def token_text_def)
    then show ?thesis using E c word by (auto simp: dispatch_def)
  next
    case quote
    with w obtain b where b: "json_body b" "w = 34 # b @ [34]" by (auto simp: token_text_def)
    have "drop (js_nOffset a) d = b @ 34 # rest"
      using dd(1) b(2) a(2) drop_step [OF i] by simp
    from ParseQuote_complete [OF a(1) b(1) this a(3)] have
      "XJSON_ParseQuote a = Some (lexed j t (length ws) (length w), True)" unfolding a_def lexed_at quote b(2) by simp
    moreover have "c = 34" using c(5) quote by simp
    ultimately show ?thesis using E by (simp add: dispatch_def XJSON_IsAlphabet_def)
  next
    case char
    with w have t: "w = [c]" "char_token c = Some t" using c(1) by (cases t; auto simp: token_text_def)+
    have "dispatch a c = Some (lexed j t (length ws) (length w), True)"
      using c char t a(2) char_token_cases [OF t(2)] by (auto simp: dispatch_def Let_def lexed_def set_type_def a_def at_token_def)
    then show ?thesis using E by simp
  qed
qed

lemma lexed_ok:
  assumes "lex_ok d j" "drop (js_nOffset j) d = ws @ w @ rest"
  shows "lex_ok d (lexed j t (length ws) (length w))" "drop (js_nOffset (lexed j t (length ws) (length w))) d = rest"
proof -
  have "drop (js_nOffset j) d = (ws @ w) @ rest" "js_nOffset j \<le> length d" using assms by (auto simp: lex_ok_def)
  from drop_split [OF this] show "lex_ok d (lexed j t (length ws) (length w))"
    "drop (js_nOffset (lexed j t (length ws) (length w))) d = rest"
    using assms(1) by (auto simp: lex_ok_def lexed_def add.assoc)
qed

end
