(* ===== verification/JsonParse.thy ===== *)
theory JsonParse
  imports JsonLex
begin

text \<open>
  The recursive descent parser of \<open>src/src/data/json.c\<close>. Its functions call each other in a circle; each
  takes those it calls as arguments, and \<open>json_next\<close> ties the knot. They call each other once per item, so
  \<open>fuel\<close> bounds the depth of the calls; \<^term>\<open>None\<close> is a bad memory access or too little fuel. The text of
  an item is kept as it stands in the input, up to a NUL byte.
\<close>

definition cstr :: "byte list \<Rightarrow> byte list" where
  "cstr s = takeWhile (\<lambda>c. c \<noteq> 0) s"

section \<open>Operations\<close>

fun XJSON_GetItemType :: "xjson_token_type \<Rightarrow> xjson_type" where
  "XJSON_GetItemType XJSON_TOKEN_INTEGER = XJSON_TYPE_NUMBER"
| "XJSON_GetItemType XJSON_TOKEN_QUOTE = XJSON_TYPE_STRING"
| "XJSON_GetItemType XJSON_TOKEN_FLOAT = XJSON_TYPE_FLOAT"
| "XJSON_GetItemType XJSON_TOKEN_BOOL = XJSON_TYPE_BOOLEAN"
| "XJSON_GetItemType XJSON_TOKEN_NULL = XJSON_TYPE_NULL"
| "XJSON_GetItemType _ = XJSON_TYPE_INVALID"

definition XJSON_TokenIsItem :: "xjson_token \<Rightarrow> bool" where
  "XJSON_TokenIsItem t \<longleftrightarrow>
     jt_nType t = XJSON_TOKEN_QUOTE \<or> jt_nType t = XJSON_TOKEN_FLOAT \<or> jt_nType t = XJSON_TOKEN_BOOL \<or>
     jt_nType t = XJSON_TOKEN_NULL \<or> jt_nType t = XJSON_TOKEN_INTEGER"

text \<open>The bytes of the last token.\<close>

definition token_bytes :: "xjson \<Rightarrow> byte list option" where
  "token_bytes j =
     (let t = js_lastToken j
      in case jt_pData t of
           None \<Rightarrow> if jt_nLength t = 0 then Some [] else None
         | Some i \<Rightarrow> do { d \<leftarrow> js_pData j; mread d i (jt_nLength t) })"

definition JSON_LastTokenValue :: "xjson \<Rightarrow> jmem \<Rightarrow> (xjson \<times> jmem \<times> byte list option) option" where
  "JSON_LastTokenValue j M =
     (let (M, ok) = jalloc M (jt_nLength (js_lastToken j) + 1)
      in if \<not> ok then Some (j\<lparr>js_nError := XJSON_ERR_ALLOC\<rparr>, M, None)
         else do { s \<leftarrow> token_bytes j; Some (j, M, Some (cstr s)) })"

text \<open>Adding a new object to its parent, or releasing it.\<close>

definition put_new :: "xjson \<Rightarrow> jmem \<Rightarrow> nat \<Rightarrow> nat \<Rightarrow> (xjson \<times> jmem \<times> bool) option" where
  "put_new j M dst a = do {
     (M, e) \<leftarrow> XJSON_AddObject M (Some dst) (Some a);
     let j = j\<lparr>js_nError := e\<rparr>;
     if e \<noteq> XJSON_ERR_NONE then do { M \<leftarrow> XJSON_FreeObject M (Some a); Some (j, M, False) }
     else Some (j, M, True) }"

definition XJSON_PutItem :: "xjson \<Rightarrow> jmem \<Rightarrow> nat \<Rightarrow> byte list option \<Rightarrow> (xjson \<times> jmem \<times> bool) option" where
  "XJSON_PutItem j M dst pName =
     (let nType = XJSON_GetItemType (jt_nType (js_lastToken j))
      in if nType = XJSON_TYPE_INVALID then Some (j\<lparr>js_nError := XJSON_ERR_INVALID\<rparr>, M, False)
         else do {
           (j, M, pValue) \<leftarrow> JSON_LastTokenValue j M;
           (case pValue of
              None \<Rightarrow> Some (j, M, False)
            | Some s \<Rightarrow>
                (case XJSON_CreateObject M pName (Text s) nType of
                   (M, None) \<Rightarrow> Some (j\<lparr>js_nError := XJSON_ERR_ALLOC\<rparr>, M, False)
                 | (M, Some a) \<Rightarrow> put_new j M dst a)) })"

text \<open>A failure of the analyser with the memory as it is, and \<open>XJSON_Expect\<close> as a last step.\<close>

definition give :: "jmem \<Rightarrow> xjson \<times> bool \<Rightarrow> xjson \<times> jmem \<times> bool" where
  "give M r = (fst r, M, snd r)"

abbreviation tok :: "xjson \<Rightarrow> xjson_token_type" where "tok j \<equiv> jt_nType (js_lastToken j)"

type_synonym parse_fn = "xjson \<Rightarrow> jmem \<Rightarrow> nat \<Rightarrow> (xjson \<times> jmem \<times> bool) option"

definition XJSON_ParseNewObject :: "parse_fn \<Rightarrow> xjson \<Rightarrow> jmem \<Rightarrow> nat \<Rightarrow> byte list option \<Rightarrow> (xjson \<times> jmem \<times> bool) option" where
  "XJSON_ParseNewObject parse_object j M a pName = do {
     (M, pNewObj) \<leftarrow> XJSON_NewObject M pName False;
     (case pNewObj of
        None \<Rightarrow> Some (j\<lparr>js_nError := XJSON_ERR_ALLOC\<rparr>, M, False)
      | Some b \<Rightarrow> do {
          (j, M, ok) \<leftarrow> parse_object j M b;
          if \<not> ok then do { M \<leftarrow> XJSON_FreeObject M (Some b); Some (j, M, False) }
          else do {
            (j, M, ok) \<leftarrow> put_new j M a b;
            if \<not> ok then Some (j, M, False) else map_option (give M) (XJSON_Expect j XJSON_TOKEN_RCURLY) } }) }"

definition XJSON_ParseNewArray :: "parse_fn \<Rightarrow> xjson \<Rightarrow> jmem \<Rightarrow> nat \<Rightarrow> byte list option \<Rightarrow> (xjson \<times> jmem \<times> bool) option" where
  "XJSON_ParseNewArray parse_array j M a pName = do {
     (M, pNewObj) \<leftarrow> XJSON_NewArray M pName False;
     (case pNewObj of
        None \<Rightarrow> Some (j\<lparr>js_nError := XJSON_ERR_ALLOC\<rparr>, M, False)
      | Some b \<Rightarrow> do {
          (j, M, ok) \<leftarrow> parse_array j M b;
          if \<not> ok then do { M \<leftarrow> XJSON_FreeObject M (Some b); Some (j, M, False) }
          else do {
            (j, M, ok) \<leftarrow> put_new j M a b;
            if \<not> ok then Some (j, M, False) else map_option (give M) (XJSON_Expect j XJSON_TOKEN_RSQUARE) } }) }"

text \<open>
  What \<open>XJSON_ParseArrayNext\<close> and \<open>XJSON_ParsePair\<close> share: the dispatch on the first token of a value, and what
  follows a value. \<open>obj\<close> and \<open>arr\<close> stand for \<open>XJSON_ParseObjectNext\<close> and \<open>XJSON_ParseArrayNext\<close>; with
  \<^term>\<open>True\<close> they are \<open>XJSON_ParseObject\<close> and \<open>XJSON_ParseArray\<close>.
\<close>

definition parse_value ::
  "(bool \<Rightarrow> parse_fn) \<Rightarrow> (bool \<Rightarrow> parse_fn) \<Rightarrow> xjson \<Rightarrow> jmem \<Rightarrow> nat \<Rightarrow> byte list option \<Rightarrow> (xjson \<times> jmem \<times> bool) option" where
  "parse_value obj arr j M a pName =
     (if XJSON_TokenIsItem (js_lastToken j) then XJSON_PutItem j M a pName
      else if tok j = XJSON_TOKEN_LCURLY then XJSON_ParseNewObject (obj True) j M a pName
      else if tok j = XJSON_TOKEN_LSQUARE then XJSON_ParseNewArray (arr True) j M a pName
      else Some (give M (XJSON_UnexpectedToken j)))"

definition parse_rest :: "xjson_token_type \<Rightarrow> parse_fn \<Rightarrow> parse_fn" where
  "parse_rest close nxt j M a = do {
     (j, ok) \<leftarrow> XJSON_GetNextToken j;
     if \<not> ok then Some (j, M, False)
     else if tok j = XJSON_TOKEN_COMMA then nxt j M a
     else Some (give M (if tok j \<noteq> close then XJSON_UnexpectedToken j else XJSON_UndoLastToken j)) }"

definition XJSON_ParseArrayNext :: "(bool \<Rightarrow> parse_fn) \<Rightarrow> (bool \<Rightarrow> parse_fn) \<Rightarrow> bool \<Rightarrow> parse_fn" where
  "XJSON_ParseArrayNext obj arr bAllowEnd j M a = do {
     (j, ok) \<leftarrow> XJSON_GetNextToken j;
     if \<not> ok then Some (j, M, False)
     else if tok j = XJSON_TOKEN_RSQUARE
     then Some (give M (if bAllowEnd then XJSON_UndoLastToken j else XJSON_UnexpectedToken j))
     else do {
       (j, M, ok) \<leftarrow> parse_value obj arr j M a None;
       if \<not> ok then Some (j, M, False) else parse_rest XJSON_TOKEN_RSQUARE (arr False) j M a } }"

definition XJSON_ParsePair :: "(bool \<Rightarrow> parse_fn) \<Rightarrow> (bool \<Rightarrow> parse_fn) \<Rightarrow> parse_fn" where
  "XJSON_ParsePair obj arr j M a =
     (let (M, ok) = jalloc M (jt_nLength (js_lastToken j) + 1)
      in if \<not> ok then Some (j\<lparr>js_nError := XJSON_ERR_ALLOC\<rparr>, M, False)
         else do {
           s \<leftarrow> token_bytes j;
           let pPairName = cstr s;
           (j, ok) \<leftarrow> XJSON_Expect j XJSON_TOKEN_COLON;
           if \<not> ok then Some (j, M, False)
           else do {
             (j, ok) \<leftarrow> XJSON_GetNextToken j;
             if \<not> ok then Some (j, M, False)
             else do {
               (j, M, ok) \<leftarrow> parse_value obj arr j M a (Some pPairName);
               if \<not> ok then Some (j, M, False) else parse_rest XJSON_TOKEN_RCURLY (obj False) j M a } } })"

definition XJSON_ParseObjectNext :: "(bool \<Rightarrow> parse_fn) \<Rightarrow> (bool \<Rightarrow> parse_fn) \<Rightarrow> bool \<Rightarrow> parse_fn" where
  "XJSON_ParseObjectNext obj arr bAllowEnd j M a = do {
     (j, ok) \<leftarrow> XJSON_GetNextToken j;
     if \<not> ok then Some (j, M, False)
     else if tok j = XJSON_TOKEN_RCURLY
     then Some (give M (if bAllowEnd then XJSON_UndoLastToken j else XJSON_UnexpectedToken j))
     else if tok j = XJSON_TOKEN_QUOTE then XJSON_ParsePair obj arr j M a
     else if tok j = XJSON_TOKEN_EOF then Some (j, M, False)
     else Some (give M (XJSON_UnexpectedToken j)) }"

text \<open>The knot: \<open>json_next fuel True\<close> is \<open>XJSON_ParseArrayNext\<close>, \<open>json_next fuel False\<close> is \<open>XJSON_ParseObjectNext\<close>.\<close>

primrec json_next :: "nat \<Rightarrow> bool \<Rightarrow> bool \<Rightarrow> parse_fn" where
  "json_next 0 = (\<lambda>isarr bAllowEnd j M a. None)"
| "json_next (Suc fuel) = (\<lambda>isarr. if isarr then XJSON_ParseArrayNext (json_next fuel False) (json_next fuel True)
     else XJSON_ParseObjectNext (json_next fuel False) (json_next fuel True))"

definition XJSON_ParseObject :: "nat \<Rightarrow> parse_fn" where
  "XJSON_ParseObject fuel = json_next fuel False True"

definition XJSON_ParseArray :: "nat \<Rightarrow> parse_fn" where
  "XJSON_ParseArray fuel = json_next fuel True True"

text \<open>The loop that passes the white space after the value.\<close>

function trailing_ws :: "byte list option \<Rightarrow> nat \<Rightarrow> nat \<Rightarrow> (nat \<times> bool) option" where
  "trailing_ws p n off =
     (if off < n then do { c \<leftarrow> cpeek p off; if is_ws c then trailing_ws p n (Suc off) else Some (off, False) }
      else Some (off, True))"
  by pat_completeness auto
termination by (relation "measure (\<lambda>(_, n, off). n - off)") auto

declare trailing_ws.simps [simp del]

definition parse_root ::
  "(xjson \<Rightarrow> jmem \<Rightarrow> nat \<Rightarrow> (xjson \<times> jmem \<times> bool) option) \<Rightarrow> xjson_token_type \<Rightarrow> xjson \<Rightarrow> jmem \<times> nat option \<Rightarrow> (xjson \<times> jmem \<times> bool) option" where
  "parse_root parse close j r =
     (case r of
        (M, None) \<Rightarrow> Some (j\<lparr>js_pRootObj := None, js_nError := XJSON_ERR_ALLOC\<rparr>, M, False)
      | (M, Some a) \<Rightarrow> do {
          (j, M, ok) \<leftarrow> parse (j\<lparr>js_pRootObj := Some a\<rparr>) M a;
          if \<not> ok then Some (j, M, False) else map_option (give M) (XJSON_Expect j close) })"

definition XJSON_Parse :: "nat \<Rightarrow> xjson \<Rightarrow> jmem \<Rightarrow> byte list option \<Rightarrow> nat \<Rightarrow> (xjson \<times> jmem \<times> bool) option" where
  "XJSON_Parse fuel j M pData nSize = do {
     let j = (XJSON_Init j)\<lparr>js_nError := XJSON_ERR_NONE, js_nDataSize := nSize, js_pData := pData, js_nOffset := 0\<rparr>;
     if pData = None \<and> nSize \<noteq> 0 then Some (j\<lparr>js_nError := XJSON_ERR_INVALID\<rparr>, M, False)
     else do {
       (j, ok) \<leftarrow> XJSON_GetNextToken j;
       if \<not> ok then Some (j, M, False)
       else do {
         (j, M, nStatus) \<leftarrow>
           (if tok j = XJSON_TOKEN_LCURLY
            then do { r \<leftarrow> XJSON_NewObject M None False; parse_root (XJSON_ParseObject fuel) XJSON_TOKEN_RCURLY j r }
            else if tok j = XJSON_TOKEN_LSQUARE
            then do { r \<leftarrow> XJSON_NewArray M None False; parse_root (XJSON_ParseArray fuel) XJSON_TOKEN_RSQUARE j r }
            else Some (give M (XJSON_UnexpectedToken j)));
         (j, nStatus) \<leftarrow>
           (if nStatus
            then do {
              (off, ok) \<leftarrow> trailing_ws (js_pData j) (js_nDataSize j) (js_nOffset j);
              Some (if ok then (j\<lparr>js_nOffset := off\<rparr>, True) else (j\<lparr>js_nOffset := off, js_nError := XJSON_ERR_UNEXPECTED\<rparr>, False)) }
            else Some (j, False));
         if nStatus then Some (j, M, True)
         else do { M \<leftarrow> XJSON_FreeObject M (js_pRootObj j); Some (j\<lparr>js_pRootObj := None\<rparr>, M, False) } } } }"

definition XJSON_Destroy :: "xjson \<Rightarrow> jmem \<Rightarrow> (xjson \<times> jmem) option" where
  "XJSON_Destroy j M = do {
     M \<leftarrow> XJSON_FreeObject M (js_pRootObj j);
     Some (j\<lparr>js_pRootObj := None, js_nDataSize := 0, js_nOffset := 0, js_pData := None\<rparr>, M) }"

end
