(* ===== verification/JsonWrite.thy ===== *)
theory JsonWrite
  imports JsonParse
begin

text \<open>
  The writer of \<open>src/src/data/json.c\<close>: it escapes names and strings, and appends the text of an object to a
  buffer that it enlarges as it needs. \<open>wr_new\<close> is what new memory holds. A formatted write gets the text the
  format stands for; a text of 2^31 bytes or more is one \<open>vsnprintf\<close> cannot do. As in the parser, the
  functions that write containers take the one that writes an item as an argument, \<open>fuel\<close> bounds the depth, and
  \<^term>\<open>None\<close> is a bad memory access.
\<close>

record xjson_format =
  fm_pName :: "byte list \<times> byte list"
  fm_pFloat :: "byte list \<times> byte list"
  fm_pBool :: "byte list \<times> byte list"
  fm_pStr :: "byte list \<times> byte list"
  fm_pNum :: "byte list \<times> byte list"
  fm_pNull :: "byte list \<times> byte list"

record xjson_writer =
  wr_format :: xjson_format
  wr_nPretty :: bool
  wr_nTabSize :: nat
  wr_nIndents :: nat
  wr_nLength :: nat
  wr_nAvail :: nat
  wr_nSize :: nat
  wr_pData :: "byte list option"
  wr_nAlloc :: bool
  wr_new :: "nat \<Rightarrow> nat \<Rightarrow> byte"

section \<open>The buffer\<close>

definition XJSON_Realloc :: "jmem \<Rightarrow> xjson_writer \<Rightarrow> nat \<Rightarrow> (jmem \<times> xjson_writer \<times> bool) option" where
  "XJSON_Realloc M W n =
     (if n < wr_nAvail W then Some (M, W, True)
      else if \<not> wr_nAlloc W then Some (M, W, False)
      else let nNew = sz (wr_nSize W + n)
           in if nNew = 0 then Some (M, W, False)
              else let t = jm_tick M; (M, ok) = jalloc M nNew
                   in if \<not> ok then Some (M, W, False)
                      else do {
                        d \<leftarrow> wr_pData W;
                        Some (M, W\<lparr>wr_nAvail := sz (wr_nAvail W + n), wr_nSize := nNew,
                          wr_pData := Some (take nNew d @ map (wr_new W t) [length d..<nNew])\<rparr>, True) })"

text \<open>The length \<open>vsnprintf\<close> reports, and \<open>xstrncpyf\<close> and \<open>xstrncpys\<close> into the buffer from an offset on.\<close>

definition fmt_len :: "byte list \<Rightarrow> nat" where
  "fmt_len s = (if length s < 2 ^ 31 then length s else 0)"

definition xstrncpyf_at :: "byte list \<Rightarrow> nat \<Rightarrow> nat \<Rightarrow> byte list \<Rightarrow> (byte list \<times> nat) option" where
  "xstrncpyf_at d off nSize s =
     (if nSize = 0 then Some (d, 2 ^ 64 - 1)
      else let n = min (fmt_len s) (nSize - 1) in do { d \<leftarrow> memcpy d off (take n s @ [0]); Some (d, n) })"

definition xstrncpys_at :: "byte list \<Rightarrow> nat \<Rightarrow> nat \<Rightarrow> byte list \<Rightarrow> (byte list \<times> nat) option" where
  "xstrncpys_at d off nDstSize s = do {
     d \<leftarrow> poke d off 0;
     if nDstSize = 0 then Some (d, 0)
     else let n = min (length s) (nDstSize - 1) in do { d \<leftarrow> memcpy d off (take n s @ [0]); Some (d, n) } }"

definition XJSON_AppedSpaces :: "jmem \<Rightarrow> xjson_writer \<Rightarrow> (jmem \<times> xjson_writer \<times> bool) option" where
  "XJSON_AppedSpaces M W =
     (if wr_nTabSize W = 0 then Some (M, W, True)
      else let (M, ok) = jalloc M (sz (wr_nIndents W + 1))
           in if \<not> ok then Some (M, W, False)
              else if 2 ^ 64 \<le> wr_nIndents W + 1 then None
              else do {
                (M, W, ok) \<leftarrow> XJSON_Realloc M W (wr_nIndents W);
                if \<not> ok then Some (M, W, False)
                else do {
                  d \<leftarrow> wr_pData W;
                  (d, n) \<leftarrow> xstrncpyf_at d (wr_nLength W) (wr_nAvail W) (replicate (wr_nIndents W) 32);
                  Some (M, W\<lparr>wr_pData := Some d, wr_nLength := sz (wr_nLength W + n), wr_nAvail := sz (wr_nAvail W + 2 ^ 64 - n)\<rparr>, True) } })"

text \<open>The guard of the code: on failure the function returns.\<close>

definition xcheck :: "(jmem \<times> xjson_writer \<times> bool) option \<Rightarrow> (jmem \<Rightarrow> xjson_writer \<Rightarrow> (jmem \<times> xjson_writer \<times> bool) option) \<Rightarrow>
    (jmem \<times> xjson_writer \<times> bool) option" where
  "xcheck r f = do { (M, W, ok) \<leftarrow> r; if ok then f M W else Some (M, W, False) }"

definition XJSON_WriteString :: "jmem \<Rightarrow> xjson_writer \<Rightarrow> bool \<Rightarrow> byte list \<Rightarrow> (jmem \<times> xjson_writer \<times> bool) option" where
  "XJSON_WriteString M W nIndent s =
     xcheck (if nIndent then XJSON_AppedSpaces M W else Some (M, W, True)) (\<lambda>M W.
       let n = fmt_len s
       in if n = 0 then Some (M, W, False)
          else let (M, ok) = jalloc M (n + 1)
               in if \<not> ok then Some (M, W, False)
                  else xcheck (XJSON_Realloc M W n) (\<lambda>M W. do {
                    d \<leftarrow> wr_pData W;
                    (d, k) \<leftarrow> xstrncpys_at d (wr_nLength W) (sz (wr_nSize W + 2 ^ 64 - wr_nLength W)) s;
                    let len = sz (wr_nLength W + k);
                    d \<leftarrow> poke d len 0;
                    Some (M, W\<lparr>wr_pData := Some d, wr_nLength := len, wr_nAvail := sz (wr_nAvail W + 2 ^ 64 - k)\<rparr>, True) }))"

section \<open>Escaping\<close>

text \<open>The length of the escape at the start of \<open>s\<close>, or 0.\<close>

definition XJSON_ValidEscapeLength :: "byte list \<Rightarrow> nat" where
  "XJSON_ValidEscapeLength s =
     (case s of
        c # e # w \<Rightarrow>
          if c \<noteq> 92 then 0
          else if is_escape e then 2
          else if e \<noteq> 117 \<or> length w < 4 then 0
          else if list_all is_xdigit (take 4 w) then 6 else 0
      | _ \<Rightarrow> 0)"

definition escape_length :: "byte \<Rightarrow> nat" where
  "escape_length c = (if c = 34 \<or> c = 92 \<or> c = 8 \<or> c = 12 \<or> c = 10 \<or> c = 13 \<or> c = 9 then 2 else if c < 32 then 6 else 1)"

definition hex_char :: "byte \<Rightarrow> byte" where
  "hex_char n = (if n < 10 then 48 + n else 87 + n)"

definition escape_char :: "byte \<Rightarrow> byte list" where
  "escape_char c =
     (if c = 34 \<or> c = 92 then [92, c]
      else if c = 8 \<or> c = 12 \<or> c = 10 \<or> c = 13 \<or> c = 9
      then [92, if c = 8 then 98 else if c = 12 then 102 else if c = 10 then 110 else if c = 13 then 114 else 116]
      else if c < 32 then [92, 117, 48, 48, hex_char (drop_bit 4 c), hex_char (c AND 15)]
      else [c])"

function escaped_length :: "byte list \<Rightarrow> nat" where
  "escaped_length s =
     (case s of
        [] \<Rightarrow> 0
      | c # w \<Rightarrow> let k = XJSON_ValidEscapeLength s in if k \<noteq> 0 then k + escaped_length (drop k s) else escape_length c + escaped_length w)"
  by pat_completeness auto
termination by (relation "measure length") auto

function escape_loop :: "byte list \<Rightarrow> byte list" where
  "escape_loop s =
     (case s of
        [] \<Rightarrow> []
      | c # w \<Rightarrow> let k = XJSON_ValidEscapeLength s in if k \<noteq> 0 then take k s @ escape_loop (drop k s) else escape_char c @ escape_loop w)"
  by pat_completeness auto
termination by (relation "measure length") auto

declare escaped_length.simps [simp del] escape_loop.simps [simp del]

text \<open>The second loop writes into the block the first has measured.\<close>

definition XJSON_EscapeString :: "jmem \<Rightarrow> byte list \<Rightarrow> (jmem \<times> byte list option) option" where
  "XJSON_EscapeString M s =
     (let n = escaped_length s; (M, ok) = jalloc M (n + 1)
      in if \<not> ok then Some (M, None)
         else if length (escape_loop s) \<le> n then Some (M, Some (escape_loop s)) else None)"

section \<open>Objects\<close>

abbreviation XSTR_FMT_RESET :: "byte list" where "XSTR_FMT_RESET \<equiv> [27, 91, 48, 109]"

definition pretty :: "byte list \<times> byte list \<Rightarrow> byte list \<Rightarrow> byte list" where
  "pretty f s = fst f @ snd f @ s @ XSTR_FMT_RESET"

definition XJSON_WriteName :: "jmem \<Rightarrow> xjson_writer \<Rightarrow> xjson_obj \<Rightarrow> (jmem \<times> xjson_writer \<times> bool) option" where
  "XJSON_WriteName M W ob =
     (case ob_pName ob of
        None \<Rightarrow> Some (M, W, True)
      | Some k \<Rightarrow> do {
          (M, p) \<leftarrow> XJSON_EscapeString M k;
          (case p of
             None \<Rightarrow> Some (M, W, False)
           | Some s \<Rightarrow>
               XJSON_WriteString M W True
                 ([34] @ (if wr_nPretty W then pretty (fm_pName (wr_format W)) s else s) @ [34, 58] @ (if wr_nTabSize W \<noteq> 0 then [32] else []))) })"

definition item_indent :: "xjson_obj \<Rightarrow> bool" where
  "item_indent ob \<longleftrightarrow> ob_pName ob = None \<and> ob_nAllowLinter ob"

definition XJSON_WriteItem :: "jmem \<Rightarrow> xjson_writer \<Rightarrow> xjson_obj \<Rightarrow> (jmem \<times> xjson_writer \<times> bool) option" where
  "XJSON_WriteItem M W ob =
     (if ob_nType ob \<in> {XJSON_TYPE_INVALID, XJSON_TYPE_OBJECT, XJSON_TYPE_ARRAY} then Some (M, W, False)
      else case ob_pData ob of
             Nothing \<Rightarrow> Some (M, W, False)
           | Text s \<Rightarrow>
               xcheck (XJSON_WriteName M W ob) (\<lambda>M W.
                 let F = wr_format W in
                 if ob_nType ob = XJSON_TYPE_STRING
                 then do {
                   (M, p) \<leftarrow> XJSON_EscapeString M s;
                   (case p of
                      None \<Rightarrow> Some (M, W, False)
                    | Some e \<Rightarrow> XJSON_WriteString M W (item_indent ob) ([34] @ (if wr_nPretty W then pretty (fm_pStr F) e else e) @ [34])) }
                 else XJSON_WriteString M W (item_indent ob)
                   (if wr_nPretty W
                    then pretty (if ob_nType ob = XJSON_TYPE_BOOLEAN then fm_pBool F
                                 else if ob_nType ob = XJSON_TYPE_NUMBER then fm_pNum F
                                 else if ob_nType ob = XJSON_TYPE_FLOAT then fm_pFloat F
                                 else fm_pNull F) s
                    else s))
           | _ \<Rightarrow> None)"

definition XJSON_Ident :: "xjson_writer \<Rightarrow> bool \<Rightarrow> xjson_writer \<times> bool" where
  "XJSON_Ident W inc =
     (if wr_nTabSize W = 0 then (W, True)
      else if inc then (W\<lparr>wr_nIndents := sz (wr_nIndents W + wr_nTabSize W)\<rparr>, True)
      else if wr_nTabSize W \<le> wr_nIndents W then (W\<lparr>wr_nIndents := wr_nIndents W - wr_nTabSize W\<rparr>, True)
      else (W, False))"

type_synonym write_fn = "jmem \<Rightarrow> xjson_writer \<Rightarrow> nat option \<Rightarrow> (jmem \<times> xjson_writer \<times> bool) option"

abbreviation newline_if :: "bool \<Rightarrow> jmem \<Rightarrow> xjson_writer \<Rightarrow> (jmem \<times> xjson_writer \<times> bool) option" where
  "newline_if b M W \<equiv> (if b then XJSON_WriteString M W False [10] else Some (M, W, True))"

abbreviation (input) XMAP_STOP :: int where "XMAP_STOP \<equiv> -1"

text \<open>The iterator over the members: its context holds the memory, the writer and the number of members written.\<close>

definition XJSON_MapIt :: "write_fn \<Rightarrow> nat \<Rightarrow> nat xmap_pair \<Rightarrow> (jmem \<times> xjson_writer \<times> nat) option \<Rightarrow> int \<times> (jmem \<times> xjson_writer \<times> nat) option" where
  "XJSON_MapIt write nUsed p x =
     (case x of
        None \<Rightarrow> (XMAP_STOP, None)
      | Some (M, W, nCurrent) \<Rightarrow>
          (case xcheck (write M W (mp_pData p)) (\<lambda>M W.
                  xcheck (if nCurrent + 1 < nUsed then XJSON_WriteString M W False [44] else Some (M, W, True)) (\<lambda>M W.
                    newline_if (wr_nTabSize W \<noteq> 0) M W)) of
             None \<Rightarrow> (XMAP_STOP, None)
           | Some (M, W, ok) \<Rightarrow> (if ok then XMAP_OK else XMAP_STOP, Some (M, W, nCurrent + 1))))"

text \<open>What the two functions for containers do around the items: \<open>n\<close> items, the brackets, the lines.\<close>

definition write_container :: "xjson_obj \<Rightarrow> byte \<Rightarrow> byte \<Rightarrow> nat \<Rightarrow>
    (jmem \<Rightarrow> xjson_writer \<Rightarrow> (jmem \<times> xjson_writer \<times> bool) option) \<Rightarrow> jmem \<Rightarrow> xjson_writer \<Rightarrow> (jmem \<times> xjson_writer \<times> bool) option" where
  "write_container ob c1 c2 n body M W =
     xcheck (XJSON_WriteName M W ob) (\<lambda>M W.
       xcheck (XJSON_WriteString M W (item_indent ob) [c1]) (\<lambda>M W.
         let nIndent = (wr_nTabSize W \<noteq> 0 \<and> n \<noteq> 0 \<and> ob_nAllowLinter ob) in
         xcheck (if nIndent
                 then xcheck (XJSON_WriteString M W False [10]) (\<lambda>M W. let (W, ok) = XJSON_Ident W True in Some (M, W, ok))
                 else Some (M, W, True)) (\<lambda>M W.
           xcheck (body M W) (\<lambda>M W.
             xcheck (if nIndent then let (W, ok) = XJSON_Ident W False in Some (M, W, ok) else Some (M, W, True)) (\<lambda>M W.
               XJSON_WriteString M W nIndent [c2])))))"

definition XJSON_WriteHashmap :: "write_fn \<Rightarrow> jmem \<Rightarrow> xjson_writer \<Rightarrow> xjson_obj \<Rightarrow> (jmem \<times> xjson_writer \<times> bool) option" where
  "XJSON_WriteHashmap write M W ob =
     (case ob_pData ob of
        Nothing \<Rightarrow> Some (M, W, False)
      | Map m \<Rightarrow>
          write_container ob 123 125 (mp_nCount m) (\<lambda>M W.
            if mp_nCount m = 0 then Some (M, W, True)
            else let (M, ok) = jalloc M 24
                 in if \<not> ok then Some (M, W, False)
                    else do {
                      (st, x) \<leftarrow> XMap_Iterate m (XJSON_MapIt write (mp_nCount m)) (Some (M, W, 0));
                      (M, W, _) \<leftarrow> x;
                      Some (M, W, st = XMAP_OK) }) M W
      | _ \<Rightarrow> None)"

text \<open>The loop over the entries of an array.\<close>

fun array_loop :: "write_fn \<Rightarrow> xjson_obj \<Rightarrow> nat xarray \<Rightarrow> nat \<Rightarrow> nat list \<Rightarrow> jmem \<Rightarrow> xjson_writer \<Rightarrow> (jmem \<times> xjson_writer \<times> bool) option" where
  "array_loop write ob r nUsed [] M W = Some (M, W, True)"
| "array_loop write ob r nUsed (i # is) M W = do {
     p \<leftarrow> XArray_GetData r i;
     (case p of
        None \<Rightarrow> array_loop write ob r nUsed is M W
      | Some a \<Rightarrow> do {
          item \<leftarrow> jm_heap M a;
          xcheck (write (store M a (item\<lparr>ob_nAllowLinter := ob_nAllowLinter ob\<rparr>)) W (Some a)) (\<lambda>M W.
            xcheck (if i + 1 < nUsed then XJSON_WriteString M W False [44] else Some (M, W, True)) (\<lambda>M W.
              xcheck (newline_if (wr_nTabSize W \<noteq> 0 \<and> ob_nAllowLinter ob) M W) (array_loop write ob r nUsed is))) }) }"

definition XJSON_WriteArray :: "write_fn \<Rightarrow> jmem \<Rightarrow> xjson_writer \<Rightarrow> xjson_obj \<Rightarrow> (jmem \<times> xjson_writer \<times> bool) option" where
  "XJSON_WriteArray write M W ob =
     (case ob_pData ob of
        Nothing \<Rightarrow> Some (M, W, False)
      | Arr r \<Rightarrow> write_container ob 91 93 (XArray_Used (Some r)) (array_loop write ob r (XArray_Used (Some r)) [0..<XArray_Used (Some r)]) M W
      | _ \<Rightarrow> None)"

primrec XJSON_WriteObject :: "nat \<Rightarrow> write_fn" where
  "XJSON_WriteObject 0 = (\<lambda>M W p. None)"
| "XJSON_WriteObject (Suc fuel) = (\<lambda>M W p.
     case p of
       None \<Rightarrow> Some (M, W, False)
     | Some a \<Rightarrow> do {
         ob \<leftarrow> jm_heap M a;
         if ob_nType ob = XJSON_TYPE_ARRAY then XJSON_WriteArray (XJSON_WriteObject fuel) M W ob
         else if ob_nType ob = XJSON_TYPE_OBJECT then XJSON_WriteHashmap (XJSON_WriteObject fuel) M W ob
         else if ob_nType ob = XJSON_TYPE_INVALID then Some (M, W, False)
         else XJSON_WriteItem M W ob })"

section \<open>The entry points\<close>

definition XJSON_FormatInit :: xjson_format where
  "XJSON_FormatInit =
     \<lparr>fm_pName = ([27, 91, 50, 109], [27, 91, 51, 53, 59, 49, 109]), fm_pFloat = ([], [27, 91, 51, 52, 109]),
      fm_pBool = ([], [27, 91, 51, 54, 109]), fm_pStr = ([27, 91, 50, 109], [27, 91, 51, 51, 109]),
      fm_pNum = ([], [27, 91, 51, 52, 109]), fm_pNull = ([], [27, 91, 51, 49, 109])\<rparr>"

definition XJSON_FormatCopy :: "xjson_format \<Rightarrow> xjson_format option \<Rightarrow> xjson_format" where
  "XJSON_FormatCopy dst src = (case src of None \<Rightarrow> dst | Some f \<Rightarrow> f)"

text \<open>\<open>W\<close> is the writer as it was; every field of it is set.\<close>

definition XJSON_InitWriter :: "jmem \<Rightarrow> xjson_writer \<Rightarrow> byte list option \<Rightarrow> nat \<Rightarrow> (jmem \<times> xjson_writer \<times> bool) option" where
  "XJSON_InitWriter M W pOutput nSize =
     (if nSize = 0 then Some (M, W, False)
      else
        let W = W\<lparr>wr_format := XJSON_FormatInit, wr_nAvail := nSize, wr_pData := pOutput, wr_nSize := nSize, wr_nAlloc := False\<rparr>;
            t = jm_tick M;
            (M, W, ok) =
              (if pOutput = None
               then let (M, ok) = jalloc M nSize
                    in if ok then (M, W\<lparr>wr_pData := Some (map (wr_new W t) [0..<nSize]), wr_nAlloc := True\<rparr>, True) else (M, W, False)
               else (M, W, True))
        in if \<not> ok then Some (M, W, False)
           else do {
             d \<leftarrow> wr_pData W;
             d \<leftarrow> poke d 0 0;
             Some (M, W\<lparr>wr_pData := Some d, wr_nTabSize := 0, wr_nPretty := False, wr_nIndents := 0, wr_nLength := 0\<rparr>, True) })"

definition XJSON_DestroyWriter :: "xjson_writer \<Rightarrow> xjson_writer" where
  "XJSON_DestroyWriter W = (if wr_nAlloc W then W\<lparr>wr_pData := None, wr_nAlloc := False\<rparr> else W)"

text \<open>The text the caller gets: the bytes of the buffer up to the length, or nothing.\<close>

definition write_all :: "nat \<Rightarrow> jmem \<Rightarrow> xjson_writer \<Rightarrow> nat \<Rightarrow> xjson_format option \<Rightarrow> bool \<Rightarrow> nat option \<Rightarrow> (jmem \<times> (byte list \<times> nat) option) option" where
  "write_all fuel M W nTabSize fmt nPretty p = do {
     (M, W, ok) \<leftarrow> XJSON_InitWriter M W None 1;
     if \<not> ok then Some (M, None)
     else do {
       let W = W\<lparr>wr_format := XJSON_FormatCopy (wr_format W) fmt, wr_nTabSize := nTabSize, wr_nPretty := nPretty\<rparr>;
       (M, W, ok) \<leftarrow> XJSON_WriteObject fuel M W p;
       if \<not> ok then Some (M, None) else do { d \<leftarrow> wr_pData W; Some (M, Some (d, wr_nLength W)) } } }"

definition XJSON_FormatObj :: "nat \<Rightarrow> jmem \<Rightarrow> xjson_writer \<Rightarrow> nat option \<Rightarrow> nat \<Rightarrow> xjson_format option \<Rightarrow> (jmem \<times> (byte list \<times> nat) option) option" where
  "XJSON_FormatObj fuel M W p nTabSize fmt = (if p = None then Some (M, None) else write_all fuel M W nTabSize fmt True p)"

definition XJSON_DumpObj :: "nat \<Rightarrow> jmem \<Rightarrow> xjson_writer \<Rightarrow> nat option \<Rightarrow> nat \<Rightarrow> (jmem \<times> (byte list \<times> nat) option) option" where
  "XJSON_DumpObj fuel M W p nTabSize = (if p = None then Some (M, None) else write_all fuel M W nTabSize None False p)"

definition XJSON_Format :: "nat \<Rightarrow> jmem \<Rightarrow> xjson_writer \<Rightarrow> xjson \<Rightarrow> nat \<Rightarrow> xjson_format option \<Rightarrow> (jmem \<times> (byte list \<times> nat) option) option" where
  "XJSON_Format fuel M W j nTabSize fmt = XJSON_FormatObj fuel M W (js_pRootObj j) nTabSize fmt"

definition XJSON_Dump :: "nat \<Rightarrow> jmem \<Rightarrow> xjson_writer \<Rightarrow> xjson \<Rightarrow> nat \<Rightarrow> (jmem \<times> (byte list \<times> nat) option) option" where
  "XJSON_Dump fuel M W j nTabSize = XJSON_DumpObj fuel M W (js_pRootObj j) nTabSize"

text \<open>Writing into the caller's block \<open>out\<close> of \<open>nSize\<close> bytes.\<close>

definition XJSON_Write :: "nat \<Rightarrow> jmem \<Rightarrow> xjson_writer \<Rightarrow> xjson \<Rightarrow> byte list option \<Rightarrow> nat \<Rightarrow> (jmem \<times> byte list option \<times> bool) option" where
  "XJSON_Write fuel M W j out nSize =
     (case out of
        None \<Rightarrow> Some (M, out, False)
      | Some o1 \<Rightarrow>
          if nSize = 0 then Some (M, out, False)
          else do {
            (M, W, ok) \<leftarrow> XJSON_InitWriter M W None 1;
            if \<not> ok then Some (M, out, False)
            else do {
              (M, W, ok) \<leftarrow> XJSON_WriteObject fuel M W (js_pRootObj j);
              if ok \<and> wr_nLength W < nSize
              then do {
                d \<leftarrow> wr_pData W;
                o1 \<leftarrow> poke o1 0 0;
                s \<leftarrow> (if 0 \<in> set d then Some (cstr d) else None);
                if s = [] then Some (M, Some o1, True)
                else do { o1 \<leftarrow> memcpy o1 0 (take (nSize - 1) s @ [0]); Some (M, Some o1, True) } }
              else Some (M, out, False) } })"

end
