(* ===== verification/JsonSound.thy ===== *)
theory JsonSound
  imports JsonParse
begin

text \<open>
  The grammar of the texts \<open>XJSON_Parse\<close> accepts, and the proof that the parser only accepts such texts, stays
  in bounds, returns, and leaks no object, whatever its input and whichever requests for memory are refused.
  \<open>json_text w v\<close>: the text \<open>w\<close> of RFC 8259 denotes the value \<open>v\<close>; \<open>json_items\<close> is a non-empty list of the
  items of an array, or of the members of an object, with the white space around them.
\<close>

section \<open>Grammar\<close>

definition item_bytes :: "xjson_token_type \<Rightarrow> byte list \<Rightarrow> byte list" where
  "item_bytes t w = (if t = XJSON_TOKEN_QUOTE then butlast (tl w) else w)"

text \<open>What comes before the value: nothing in an array, a name and a colon in an object.\<close>

definition json_key :: "bool \<Rightarrow> byte list \<Rightarrow> byte list option \<Rightarrow> bool" where
  "json_key isarr p k \<longleftrightarrow>
     (if isarr then p = [] \<and> k = None
      else \<exists>b s1 s2. json_body b \<and> list_all is_ws s1 \<and> list_all is_ws s2 \<and> p = (34 # b @ [34]) @ s1 @ [58] @ s2 \<and> k = Some (cstr b))"

definition items_value :: "bool \<Rightarrow> (byte list option \<times> jval) list \<Rightarrow> jval" where
  "items_value isarr xs = (if isarr then JArr (map snd xs) else JObj (map (\<lambda>x. (the (fst x), snd x)) xs))"

abbreviation open_char :: "bool \<Rightarrow> byte" where "open_char isarr \<equiv> if isarr then 91 else 123"
abbreviation close_char :: "bool \<Rightarrow> byte" where "close_char isarr \<equiv> if isarr then 93 else 125"

text \<open>No name occurs twice in an object.\<close>

definition keys_ok :: "bool \<Rightarrow> (byte list option \<times> jval) list \<Rightarrow> bool" where
  "keys_ok isarr xs \<longleftrightarrow> (\<forall>x \<in> set xs. fst x = None \<longleftrightarrow> isarr) \<and> (isarr \<or> distinct (map fst xs))"

inductive json_text :: "byte list \<Rightarrow> jval \<Rightarrow> bool"
  and json_items :: "bool \<Rightarrow> byte list \<Rightarrow> (byte list option \<times> jval) list \<Rightarrow> bool" where
  text_item: "token_text t w \<Longrightarrow> XJSON_GetItemType t \<noteq> XJSON_TYPE_INVALID \<Longrightarrow> json_text w (JText (XJSON_GetItemType t) (cstr (item_bytes t w)))"
| text_empty: "list_all is_ws s \<Longrightarrow> json_text (open_char isarr # s @ [close_char isarr]) (items_value isarr [])"
| text_items: "json_items isarr w xs \<Longrightarrow> keys_ok isarr xs \<Longrightarrow> json_text (open_char isarr # w @ [close_char isarr]) (items_value isarr xs)"
| items_one: "list_all is_ws s1 \<Longrightarrow> json_key isarr p k \<Longrightarrow> json_text w v \<Longrightarrow> list_all is_ws s2 \<Longrightarrow> json_items isarr (s1 @ p @ w @ s2) [(k, v)]"
| items_more: "list_all is_ws s1 \<Longrightarrow> json_key isarr p k \<Longrightarrow> json_text w v \<Longrightarrow> list_all is_ws s2 \<Longrightarrow> json_items isarr ws xs \<Longrightarrow>
    json_items isarr (s1 @ p @ w @ s2 @ 44 # ws) ((k, v) # xs)"

section \<open>The part of the heap a container grows into\<close>

definition grew :: "jmem \<Rightarrow> nat \<Rightarrow> byte list option \<Rightarrow> bool \<Rightarrow> (byte list option \<times> jval) list \<Rightarrow> nat set \<Rightarrow> jmem \<Rightarrow>
    (byte list option \<times> jval) list \<Rightarrow> nat set \<Rightarrow> bool" where
  "grew M a nm isarr xs F M' ys F' \<longleftrightarrow>
     rep (jm_heap M') a nm (items_value isarr (xs @ ys)) F' \<and> F \<subseteq> F' \<and> (\<forall>x \<in> F' - F. jm_heap M x = None) \<and> jm_step M F' M' \<and>
     jm_wf M' \<and> fixed_members M' a"

lemma grew_refl: "rep (jm_heap M) a nm (items_value isarr xs) F \<Longrightarrow> jm_wf M \<Longrightarrow> fixed_members M a \<Longrightarrow> grew M a nm isarr xs F M [] F"
  by (simp add: grew_def)

lemma grew_trans:
  assumes "grew M a nm isarr xs F M1 ys F1" "grew M1 a nm isarr (xs @ ys) F1 M2 zs F2"
  shows "grew M a nm isarr xs F M2 (ys @ zs) F2"
proof -
  have "jm_heap M x = None" if "x \<in> F2 - F" for x
    using assms that by (cases "x \<in> F1") (auto simp: grew_def jm_step_def)
  moreover have "jm_step M F2 M2" using assms by (auto simp: grew_def jm_step_def)
  ultimately show ?thesis using assms by (auto simp: grew_def)
qed

text \<open>A container, and what every step of the parser needs of it.\<close>

definition cont :: "jmem \<Rightarrow> nat \<Rightarrow> byte list option \<Rightarrow> bool \<Rightarrow> (byte list option \<times> jval) list \<Rightarrow> nat set \<Rightarrow> bool" where
  "cont M a nm isarr xs F \<longleftrightarrow> jm_wf M \<and> (\<forall>t n. jm_grow M t n) \<and> rep (jm_heap M) a nm (items_value isarr xs) F \<and> fixed_members M a \<and> keys_ok isarr xs"

lemma grew_cont: "cont M a nm isarr xs F \<Longrightarrow> grew M a nm isarr xs F M' ys F' \<Longrightarrow> keys_ok isarr (xs @ ys) \<Longrightarrow> cont M' a nm isarr (xs @ ys) F'"
  by (auto simp: cont_def grew_def jm_step_def)

lemma items_snoc: "items_value isarr (xs @ [(k, v)]) =
    (if isarr then JArr (map snd xs @ [v]) else JObj (map (\<lambda>x. (the (fst x), snd x)) xs @ [(the k, v)]))"
  by (simp add: items_value_def)

lemma put_new_spec:
  assumes c: "cont M a nm isarr xs F" and src: "rep (jm_heap M) b k v G" and k: "k = None \<longleftrightarrow> isarr" and disj: "F \<inter> G = {}" and len: "length xs < 2 ^ 27"
  shows "\<exists>e M'. put_new j M a b = Some (j\<lparr>js_nError := e\<rparr>, M', e = XJSON_ERR_NONE) \<and> jm_wf M' \<and> fixed_members M' a \<and> jm_step M (F \<union> G) M' \<and>
    (if e = XJSON_ERR_NONE then rep (jm_heap M') a nm (items_value isarr (xs @ [(k, v)])) (F \<union> G) \<and> keys_ok isarr (xs @ [(k, v)])
     else rep (jm_heap M') a nm (items_value isarr xs) F \<and> (\<forall>x \<in> G. jm_heap M' x = None) \<and> (scarce M \<or> \<not> keys_ok isarr (xs @ [(k, v)])))"
proof (cases isarr)
  case True
  with k have kn: "k = None" by simp
  from c True have C: "jm_wf M" "rep (jm_heap M) a nm (JArr (map snd xs)) F" "fixed_members M a" "\<forall>t n. jm_grow M t n" "keys_ok True xs"
    by (auto simp: cont_def items_value_def)
  from AddObject_item [OF C(1-3) src [unfolded kn] disj] len obtain M' e where
    A: "XJSON_AddObject M (Some a) (Some b) = Some (M', e)" "jm_wf M'" "jm_step M ({a} \<union> G) M'" "fixed_members M' a"
    "if e = XJSON_ERR_NONE then rep (jm_heap M') a nm (JArr (map snd xs @ [v])) (F \<union> G) \<and> (\<forall>x \<in> G. jm_heap M' x = jm_heap M x)
     else e = XJSON_ERR_ALLOC \<and> rep (jm_heap M') a nm (JArr (map snd xs)) F \<and>
       ((\<forall>x \<in> G. jm_heap M' x = jm_heap M x) \<and> (\<exists>t n. \<not> jm_ok M t n) \<or> (\<forall>x \<in> G. jm_heap M' x = None) \<and> (\<exists>t n. \<not> jm_grow M t n))"
    by auto
  have aF: "a \<in> F" by (rule rep_root [OF C(2)])
  have st: "jm_step M (F \<union> G) M'" by (rule jm_step_mono [OF A(3)]) (use aF in auto)
  show ?thesis
  proof (cases "e = XJSON_ERR_NONE")
    case none: True
    have "keys_ok True (xs @ [(k, v)])" using C(5) kn by (simp add: keys_ok_def)
    then show ?thesis using A none st True
      by (intro exI [of _ XJSON_ERR_NONE] exI [of _ M']) (simp add: put_new_def items_snoc)
  next
    case False
    with A(5) C(4) have B: "rep (jm_heap M') a nm (JArr (map snd xs)) F" "\<forall>x \<in> G. jm_heap M' x = jm_heap M x" "scarce M" by (auto simp: scarce_def)
    have "rep (jm_heap M') b k v G" by (rule rep_frame(1) [OF src]) (use B(2) in auto)
    from FreeObject_rep [OF A(2) this] have fr: "XJSON_FreeObject M' (Some b) = Some (wipe M' G)" "jm_wf (wipe M' G)" .
    have "rep (jm_heap (wipe M' G)) a nm (JArr (map snd xs)) F" by (rule rep_frame(1) [OF B(1)]) (use disj in auto)
    moreover have "jm_step M (F \<union> G) (wipe M' G)" using st by (auto simp: jm_step_def)
    moreover have "fixed_members (wipe M' G) a" using A(4) aF disj by (auto simp: fixed_members_def)
    ultimately show ?thesis using A(1) fr False B(3) True
      by (intro exI [of _ e] exI [of _ "wipe M' G"]) (simp add: put_new_def items_value_def)
  qed
next
  case False
  with k obtain k' where k': "k = Some k'" by auto
  let ?kvs = "map (\<lambda>x. (the (fst x), snd x)) xs"
  from c False have C: "jm_wf M" "rep (jm_heap M) a nm (JObj ?kvs) F" "fixed_members M a" "keys_ok False xs"
    by (auto simp: cont_def items_value_def)
  from AddObject_member [OF C(1-3) src [unfolded k'] disj] len obtain M' e where
    A: "XJSON_AddObject M (Some a) (Some b) = Some (M', e)" "jm_wf M'" "jm_step M {a} M'" "fixed_members M' a"
    "if e = XJSON_ERR_NONE then k' \<notin> fst ` set ?kvs \<and> rep (jm_heap M') a nm (JObj (?kvs @ [(k', v)])) (F \<union> G)
     else jm_heap M' = jm_heap M \<and> (e = XJSON_ERR_EXITS \<and> k' \<in> fst ` set ?kvs \<or> e = XJSON_ERR_ALLOC \<and> (\<exists>t n. \<not> jm_ok M t n))"
    by auto
  have aF: "a \<in> F" by (rule rep_root [OF C(2)])
  have st: "jm_step M (F \<union> G) M'" by (rule jm_step_mono [OF A(3)]) (use aF in auto)
  have keys: "k' \<in> fst ` set ?kvs \<longleftrightarrow> \<not> keys_ok False (xs @ [(k, v)])"
    using C(4) k' by (force simp: keys_ok_def image_iff)
  show ?thesis
  proof (cases "e = XJSON_ERR_NONE")
    case none: True
    then show ?thesis using A st False keys k'
      by (intro exI [of _ XJSON_ERR_NONE] exI [of _ M']) (simp add: put_new_def items_snoc)
  next
    case err: False
    with A(5) have B: "jm_heap M' = jm_heap M" "scarce M \<or> \<not> keys_ok isarr (xs @ [(k, v)])" using keys False by (auto simp: scarce_def)
    have "rep (jm_heap M') b k v G" using src B(1) by simp
    from FreeObject_rep [OF A(2) this] have fr: "XJSON_FreeObject M' (Some b) = Some (wipe M' G)" "jm_wf (wipe M' G)" .
    have "rep (jm_heap (wipe M' G)) a nm (JObj ?kvs) F" by (rule rep_frame(1) [OF C(2)]) (use disj B(1) in auto)
    moreover have "jm_step M (F \<union> G) (wipe M' G)" using st by (auto simp: jm_step_def)
    moreover have "fixed_members (wipe M' G) a" using A(4) aF disj by (auto simp: fixed_members_def)
    ultimately show ?thesis using A(1) fr err B(2) False
      by (intro exI [of _ e] exI [of _ "wipe M' G"]) (simp add: put_new_def items_value_def)
  qed
qed

text \<open>The same, for a new object that came into being after \<open>M0\<close>.\<close>

definition put_ok :: "jmem \<Rightarrow> nat \<Rightarrow> byte list option \<Rightarrow> bool \<Rightarrow> (byte list option \<times> jval) list \<Rightarrow> nat set \<Rightarrow> jmem \<Rightarrow> bool \<Rightarrow> byte list option \<Rightarrow> jval \<Rightarrow> bool" where
  "put_ok M a nm isarr xs F M' ok k v \<longleftrightarrow>
     (if ok then (\<exists>F'. grew M a nm isarr xs F M' [(k, v)] F') \<and> keys_ok isarr (xs @ [(k, v)])
      else grew M a nm isarr xs F M' [] F \<and> (scarce M \<or> \<not> keys_ok isarr (xs @ [(k, v)])))"

lemma put_new_grew:
  assumes c: "cont M0 a nm isarr xs F" and M: "jm_wf M" "jm_step M0 G M" "\<forall>x \<in> G. jm_heap M0 x = None"
    and src: "rep (jm_heap M) b k v G" and k: "k = None \<longleftrightarrow> isarr" and len: "length xs < 2 ^ 27"
  shows "\<exists>e M'. put_new j M a b = Some (j\<lparr>js_nError := e\<rparr>, M', e = XJSON_ERR_NONE) \<and>
    put_ok M0 a nm isarr xs F M' (e = XJSON_ERR_NONE) k v"
proof -
  from c have C: "rep (jm_heap M0) a nm (items_value isarr xs) F" by (simp add: cont_def)
  have FG: "F \<inter> G = {}" using rep_foot(1) [OF C] M(3) by (force simp: dom_def)
  have aF: "a \<in> F" by (rule rep_root [OF C])
  have c': "cont M a nm isarr xs F"
    using c M(1,2) rep_step [OF C M(2) FG] aF FG by (auto simp: cont_def jm_step_def fixed_members_def)
  from put_new_spec [OF c' src k FG len, of j] obtain e M' where
    p: "put_new j M a b = Some (j\<lparr>js_nError := e\<rparr>, M', e = XJSON_ERR_NONE)" "jm_wf M'" "fixed_members M' a" "jm_step M (F \<union> G) M'"
    "if e = XJSON_ERR_NONE then rep (jm_heap M') a nm (items_value isarr (xs @ [(k, v)])) (F \<union> G) \<and> keys_ok isarr (xs @ [(k, v)])
     else rep (jm_heap M') a nm (items_value isarr xs) F \<and> (\<forall>x \<in> G. jm_heap M' x = None) \<and> (scarce M \<or> \<not> keys_ok isarr (xs @ [(k, v)]))" by blast
  have st: "jm_step M0 (F \<union> G) M'" using M(2) p(4) by (auto simp: jm_step_def)
  have st': "jm_step M0 F M'" if "e \<noteq> XJSON_ERR_NONE" using st p(5) that M(3) by (auto simp: jm_step_def)
  show ?thesis
    using p st st' M(3) scarce_step [OF M(2)] by (intro exI [of _ e] exI [of _ M']) (auto simp: put_ok_def grew_def intro!: exI [of _ "F \<union> G"])
qed

section \<open>States after a token\<close>

definition lexed_at :: "byte list \<Rightarrow> xjson \<Rightarrow> xjson \<Rightarrow> xjson_token_type \<Rightarrow> byte list \<Rightarrow> byte list \<Rightarrow> byte list \<Rightarrow> bool" where
  "lexed_at d j0 j t s w rest \<longleftrightarrow> lex_ok d j0 \<and> drop (js_nOffset j0) d = s @ w @ rest \<and> list_all is_ws s \<and> token_text t w \<and>
     j = lexed j0 t (length s) (length w)"

lemma token_length: "token_text t w \<Longrightarrow> 0 < length w \<and> (t = XJSON_TOKEN_QUOTE \<longrightarrow> 2 \<le> length w) \<and>
    (t \<in> {XJSON_TOKEN_COMMA, XJSON_TOKEN_COLON, XJSON_TOKEN_LCURLY, XJSON_TOKEN_RCURLY, XJSON_TOKEN_LSQUARE, XJSON_TOKEN_RSQUARE, XJSON_TOKEN_EOF}
      \<longrightarrow> length w = 1)"
proof -
  assume a: "token_text t w"
  then have "w \<noteq> []" by (rule token_start) simp
  with a show ?thesis by (cases t) (auto simp: token_text_def)
qed

lemma lexed_atD:
  assumes "lexed_at d j0 j t s w rest"
  shows "lex_ok d j" "drop (js_nOffset j) d = rest" "js_nOffset j = js_nOffset j0 + length s + length w" "tok j = t" "w \<noteq> []"
    "js_pRootObj j = js_pRootObj j0" "js_nError j = js_nError j0" "js_nOffset j \<le> length d" "js_nOffset j0 < js_nOffset j"
    "length d - js_nOffset j < length d - js_nOffset j0"
proof -
  from assms have a: "lex_ok d j0" "drop (js_nOffset j0) d = s @ w @ rest" "token_text t w" "j = lexed j0 t (length s) (length w)" by (auto simp: lexed_at_def)
  show 1: "lex_ok d j" "drop (js_nOffset j) d = rest" using lexed_ok [OF a(1,2), of t] a(4) by simp_all
  show 2: "js_nOffset j = js_nOffset j0 + length s + length w" "tok j = t" "js_pRootObj j = js_pRootObj j0" "js_nError j = js_nError j0"
    using a(4) by (simp_all add: lexed_def)
  show 3: "w \<noteq> []" using token_length [OF a(3)] by auto
  show 4: "js_nOffset j \<le> length d" using 1 by (simp add: lex_ok_def)
  show "js_nOffset j0 < js_nOffset j" using 2(1) 3 by simp
  with 4 show "length d - js_nOffset j < length d - js_nOffset j0" by simp
qed

lemma lexed_unexpected:
  assumes "lexed_at d j0 j t s w rest"
  shows "\<exists>j'. XJSON_UnexpectedToken j = (j', False) \<and> lex_fail d j0 j'"
proof -
  note L = lexed_atD [OF assms]
  from assms have w: "token_text t w" "j = lexed j0 t (length s) (length w)" by (auto simp: lexed_at_def)
  have "jt_nLength (js_lastToken j) + (if tok j = XJSON_TOKEN_QUOTE then 2 else 0) \<le> js_nOffset j"
    using L(3) token_length [OF w(1)] by (auto simp: w(2) lexed_def)
  from unexpected_fail [OF L(1) this] L(6) show ?thesis by (auto simp: lex_fail_def)
qed

lemma lexed_undo:
  assumes "lexed_at d j0 j t s w rest" "t \<in> {XJSON_TOKEN_RCURLY, XJSON_TOKEN_RSQUARE}"
  shows "XJSON_UndoLastToken j = (j\<lparr>js_nOffset := js_nOffset j0 + length s\<rparr>, True)" "lex_ok d (j\<lparr>js_nOffset := js_nOffset j0 + length s\<rparr>)"
    "drop (js_nOffset j0 + length s) d = w @ rest"
proof -
  note L = lexed_atD [OF assms(1)]
  from assms have w: "token_text t w" "j = lexed j0 t (length s) (length w)" "drop (js_nOffset j0) d = s @ w @ rest" "js_nOffset j0 \<le> length d"
    by (auto simp: lexed_at_def lex_ok_def)
  have l: "length w = 1" using token_length [OF w(1)] assms(2) by auto
  have t: "jt_nLength (js_lastToken j) = 1" using assms(2) l by (auto simp: w(2) lexed_def)
  have "js_nOffset j < 2 ^ 64" using L(1) by (auto simp: lex_ok_def)
  then have "sz (js_nOffset j + 2 ^ 64 - 1) = js_nOffset j0 + length s" using L(3) l by (subst sz_sub) auto
  then show "XJSON_UndoLastToken j = (j\<lparr>js_nOffset := js_nOffset j0 + length s\<rparr>, True)" unfolding XJSON_UndoLastToken_def t by simp
  show "lex_ok d (j\<lparr>js_nOffset := js_nOffset j0 + length s\<rparr>)" using L(1,3) by (simp add: lex_ok_def)
  show "drop (js_nOffset j0 + length s) d = w @ rest" using drop_split [OF w(3,4)] by simp
qed

text \<open>Reading a token: the cases of the result.\<close>

lemma next_token:
  assumes "lex_ok d j0"
  obtains (fail) j where "XJSON_GetNextToken j0 = Some (j, False)" "lex_fail d j0 j"
  | (token) j t s w rest where "XJSON_GetNextToken j0 = Some (j, True)" "lexed_at d j0 j t s w rest"
proof -
  from GetNextToken_sound [OF assms] obtain j ok where g: "XJSON_GetNextToken j0 = Some (j, ok)"
    "if ok then \<exists>t ws w rest. drop (js_nOffset j0) d = ws @ w @ rest \<and> list_all is_ws ws \<and> token_text t w \<and> j = lexed j0 t (length ws) (length w)
     else lex_fail d j0 j" by blast
  show ?thesis
  proof (cases ok)
    case True
    with g obtain t s w rest where "lexed_at d j0 j t s w rest" using assms by (auto simp: lexed_at_def)
    from token [OF _ this] g(1) True show ?thesis by simp
  next
    case False
    with g fail show ?thesis by auto
  qed
qed

lemma item_type: "XJSON_TokenIsItem (js_lastToken j) \<longleftrightarrow> XJSON_GetItemType (tok j) \<noteq> XJSON_TYPE_INVALID"
  by (cases "tok j") (auto simp: XJSON_TokenIsItem_def)

lemma item_scalar: "XJSON_GetItemType t \<noteq> XJSON_TYPE_OBJECT" "XJSON_GetItemType t \<noteq> XJSON_TYPE_ARRAY"
  by (cases t; simp)+

lemma lexed_bytes:
  assumes "lexed_at d j0 j t s w rest" "XJSON_GetItemType t \<noteq> XJSON_TYPE_INVALID \<or> t = XJSON_TOKEN_QUOTE"
  shows "token_bytes j = Some (item_bytes t w)"
proof -
  from assms have w: "token_text t w" "j = lexed j0 t (length s) (length w)" "drop (js_nOffset j0) d = s @ w @ rest" "js_nOffset j0 \<le> length d"
    "js_pData j0 = Some d" by (auto simp: lexed_at_def lex_ok_def)
  have d1: "drop (js_nOffset j0 + length s) d = w @ rest" "js_nOffset j0 + length s \<le> length d" using drop_split [OF w(3,4)] by auto
  have le: "js_nOffset j0 + length s + length w \<le> length d" using drop_split [OF d1] by simp
  show ?thesis
  proof (cases "t = XJSON_TOKEN_QUOTE")
    case True
    with w(1) obtain b where b: "w = 34 # b @ [34]" by (auto simp: token_text_def)
    have "drop (Suc (js_nOffset j0 + length s)) d = tl (w @ rest)" unfolding d1(1) [symmetric] by (simp add: drop_Suc tl_drop)
    then have "take (length b) (drop (Suc (js_nOffset j0 + length s)) d) = b" using b by simp
    then show ?thesis using True b w(2,5) le by (simp add: token_bytes_def lexed_def Let_def mread_def item_bytes_def)
  next
    case False
    with assms(2) have "t \<noteq> XJSON_TOKEN_EOF" by auto
    then show ?thesis using False d1(1) w(2,5) le by (simp add: token_bytes_def lexed_def Let_def mread_def item_bytes_def)
  qed
qed

section \<open>Values\<close>

lemma PutItem_spec:
  assumes l: "lexed_at d j0 j t s w rest" and t: "XJSON_GetItemType t \<noteq> XJSON_TYPE_INVALID" and c: "cont M a nm isarr xs F"
    and k: "k = None \<longleftrightarrow> isarr" and len: "length xs < 2 ^ 27"
  shows "\<exists>e M'. XJSON_PutItem j M a k = Some (j\<lparr>js_nError := e\<rparr>, M', e = XJSON_ERR_NONE) \<and>
    put_ok M a nm isarr xs F M' (e = XJSON_ERR_NONE) k (JText (XJSON_GetItemType t) (cstr (item_bytes t w)))"
proof -
  note L = lexed_atD [OF l]
  let ?v = "cstr (item_bytes t w)" and ?M = "M\<lparr>jm_tick := Suc (jm_tick M)\<rparr>"
  from c have C: "jm_wf M" "rep (jm_heap M) a nm (items_value isarr xs) F" "fixed_members M a" by (auto simp: cont_def)
  have w: "jm_wf ?M" using jm_wf_tick [OF C(1)] by simp
  have st: "jm_step M {} ?M" by (simp add: jm_step_def)
  have same: "grew M a nm isarr xs F M' [] F" if "jm_step M {} M'" "jm_wf M'" for M'
    using that C rep_step [OF C(2) that(1)] by (auto simp: grew_def jm_step_def fixed_members_def)
  show ?thesis
  proof (cases "jm_ok M (jm_tick M) (jt_nLength (js_lastToken j) + 1)")
    case False
    then have "XJSON_PutItem j M a k = Some (j\<lparr>js_nError := XJSON_ERR_ALLOC\<rparr>, ?M, False)"
      using L(4) t by (simp add: XJSON_PutItem_def JSON_LastTokenValue_def jalloc_def Let_def)
    then show ?thesis using same [OF st w] False
      by (intro exI [of _ XJSON_ERR_ALLOC] exI [of _ ?M]) (auto simp: put_ok_def scarce_def)
  next
    case True
    then have lv: "JSON_LastTokenValue j M = Some (j, ?M, Some ?v)"
      using lexed_bytes [OF l] t by (simp add: JSON_LastTokenValue_def jalloc_def Let_def)
    obtain M1 p where cr: "XJSON_CreateObject ?M k (Text ?v) (XJSON_GetItemType t) = (M1, p)"
      by (cases "XJSON_CreateObject ?M k (Text ?v) (XJSON_GetItemType t)")
    have md: "made ?M k (JText (XJSON_GetItemType t) ?v) M1 p" by (rule made_text [OF w cr item_scalar])
    show ?thesis
    proof (cases p)
      case None
      then have "XJSON_PutItem j M a k = Some (j\<lparr>js_nError := XJSON_ERR_ALLOC\<rparr>, M1, False)"
        using L(4) t lv cr by (simp add: XJSON_PutItem_def Let_def)
      moreover have "jm_step M {} M1" "jm_wf M1" "scarce M"
        using md None jm_step_trans [OF st, of "{}" M1] scarce_step [OF st] by (auto simp: made_def)
      ultimately show ?thesis using same [of M1]
        by (intro exI [of _ XJSON_ERR_ALLOC] exI [of _ M1]) (auto simp: put_ok_def)
    next
      case (Some b)
      with md have B: "jm_wf M1" "jm_heap M b = None" "jm_step ?M {b} M1" "rep (jm_heap M1) b k (JText (XJSON_GetItemType t) ?v) {b}"
        by (auto simp: made_def)
      have "jm_step M {b} M1" using jm_step_trans [OF st B(3)] by simp
      from put_new_grew [OF c B(1) this _ B(4) k len, of j] B(2) obtain e M' where
        "put_new j M1 a b = Some (j\<lparr>js_nError := e\<rparr>, M', e = XJSON_ERR_NONE)"
        "put_ok M a nm isarr xs F M' (e = XJSON_ERR_NONE) k (JText (XJSON_GetItemType t) ?v)" by auto
      moreover have "XJSON_PutItem j M a k = put_new j M1 a b" using L(4) t lv cr Some by (simp add: XJSON_PutItem_def Let_def)
      ultimately show ?thesis by auto
    qed
  qed
qed

section \<open>Soundness\<close>

text \<open>An error is reported, unless the input has a byte that stands for the end of the text.\<close>

definition err_ok :: "byte list \<Rightarrow> xjson \<Rightarrow> bool" where
  "err_ok d j \<longleftrightarrow> js_nError j \<noteq> XJSON_ERR_NONE \<or> 0 \<in> set d \<or> 255 \<in> set d"

lemma lex_fail_err: "lex_fail d j j' \<Longrightarrow> lex_ok d j' \<and> js_pRootObj j' = js_pRootObj j \<and> err_ok d j'"
  by (auto simp: lex_fail_def err_ok_def)

definition items_text :: "bool \<Rightarrow> bool \<Rightarrow> byte list \<Rightarrow> (byte list option \<times> jval) list \<Rightarrow> bool" where
  "items_text isarr allowEnd txt ys \<longleftrightarrow> json_items isarr txt ys \<or> allowEnd \<and> list_all is_ws txt \<and> ys = []"

text \<open>What a parser of items does from a state \<open>j\<close> on: it reads items up to the closing bracket, or fails.\<close>

definition items_out :: "byte list \<Rightarrow> bool \<Rightarrow> (byte list \<Rightarrow> (byte list option \<times> jval) list \<Rightarrow> bool) \<Rightarrow> xjson \<Rightarrow> jmem \<Rightarrow> nat \<Rightarrow> byte list option \<Rightarrow>
    (byte list option \<times> jval) list \<Rightarrow> nat set \<Rightarrow> xjson \<Rightarrow> jmem \<Rightarrow> bool \<Rightarrow> bool" where
  "items_out d isarr is_text j M a nm xs F j' M' ok \<longleftrightarrow> lex_ok d j' \<and> js_pRootObj j' = js_pRootObj j \<and>
     (\<exists>ys F'. grew M a nm isarr xs F M' ys F' \<and>
       (if ok then \<exists>u rest. drop (js_nOffset j) d = u @ close_char isarr # rest \<and> js_nOffset j' = js_nOffset j + length u \<and>
            is_text u ys \<and> keys_ok isarr (xs @ ys)
        else err_ok d j'))"

text \<open>The bounds within which \<open>n\<close> levels of calls are enough.\<close>

definition room :: "byte list \<Rightarrow> nat \<Rightarrow> xjson \<Rightarrow> (byte list option \<times> jval) list \<Rightarrow> bool" where
  "room d n j xs \<longleftrightarrow> lex_ok d j \<and> length d - js_nOffset j < n \<and> length xs + (length d - js_nOffset j) < 2 ^ 27"

definition items_sound :: "byte list \<Rightarrow> nat \<Rightarrow> bool \<Rightarrow> bool \<Rightarrow> parse_fn \<Rightarrow> bool" where
  "items_sound d n isarr allowEnd f \<longleftrightarrow> (\<forall>j M a nm xs F. room d n j xs \<longrightarrow> cont M a nm isarr xs F \<longrightarrow>
     (\<exists>j' M' ok. f j M a = Some (j', M', ok) \<and> items_out d isarr (items_text isarr allowEnd) j M a nm xs F j' M' ok))"

text \<open>The two functions that parse a nested container are one.\<close>

definition new_cont :: "bool \<Rightarrow> jmem \<Rightarrow> byte list option \<Rightarrow> (jmem \<times> nat option) option" where
  "new_cont isarr M k = (if isarr then XJSON_NewArray M k False else XJSON_NewObject M k False)"

definition close_tok :: "bool \<Rightarrow> xjson_token_type" where
  "close_tok isarr = (if isarr then XJSON_TOKEN_RSQUARE else XJSON_TOKEN_RCURLY)"

definition parse_new :: "bool \<Rightarrow> parse_fn \<Rightarrow> xjson \<Rightarrow> jmem \<Rightarrow> nat \<Rightarrow> byte list option \<Rightarrow> (xjson \<times> jmem \<times> bool) option" where
  "parse_new isarr parse j M a k = do {
     (M, p) \<leftarrow> new_cont isarr M k;
     (case p of
        None \<Rightarrow> Some (j\<lparr>js_nError := XJSON_ERR_ALLOC\<rparr>, M, False)
      | Some b \<Rightarrow> do {
          (j, M, ok) \<leftarrow> parse j M b;
          if \<not> ok then do { M \<leftarrow> XJSON_FreeObject M (Some b); Some (j, M, False) }
          else do {
            (j, M, ok) \<leftarrow> put_new j M a b;
            if \<not> ok then Some (j, M, False) else map_option (give M) (XJSON_Expect j (close_tok isarr)) } }) }"

lemma parse_new_eqs: "XJSON_ParseNewArray f j M a k = parse_new True f j M a k" "XJSON_ParseNewObject f j M a k = parse_new False f j M a k"
  unfolding parse_new_def new_cont_def close_tok_def XJSON_ParseNewArray_def XJSON_ParseNewObject_def by simp_all

lemma new_cont_made: "jm_wf M \<Longrightarrow> \<exists>M' p. new_cont isarr M k = Some (M', p) \<and> made M k (items_value isarr []) M' p"
  using NewArray_made [of M k] NewObject_made [of M k] by (simp add: new_cont_def items_value_def)

text \<open>The closing bracket is there after a successful parse of items.\<close>

lemma close_char_token: "token_text (close_tok isarr) [close_char isarr]" "close_tok isarr \<noteq> XJSON_TOKEN_EOF" "close_tok isarr \<noteq> XJSON_TOKEN_QUOTE"
  "token_follow (close_tok isarr) rest"
  by (auto simp: close_tok_def token_text_def token_follow_def char_token_def)

lemma expect_close:
  assumes "lex_ok d j" "drop (js_nOffset j) d = close_char isarr # rest"
  shows "\<exists>j'. XJSON_Expect j (close_tok isarr) = Some (j', True) \<and> lex_ok d j' \<and> js_nOffset j' = Suc (js_nOffset j) \<and>
    js_pRootObj j' = js_pRootObj j \<and> drop (js_nOffset j') d = rest \<and> js_nError j' = js_nError j"
proof -
  have s: "drop (js_nOffset j) d = [] @ [close_char isarr] @ rest" using assms(2) by simp
  from GetNextToken_complete [OF assms(1) s _ close_char_token(1,4)]
  have g: "XJSON_GetNextToken j = Some (lexed j (close_tok isarr) 0 1, True)" by simp
  have "lexed_at d j (lexed j (close_tok isarr) 0 1) (close_tok isarr) [] [close_char isarr] rest"
    using assms(1) s close_char_token(1) by (simp add: lexed_at_def)
  from lexed_atD [OF this] g show ?thesis by (auto simp: XJSON_Expect_def)
qed

lemma room_noerr [simp]: "room d n (j\<lparr>js_nError := e\<rparr>) xs = room d n j xs"
  by (simp add: room_def lex_ok_def)

text \<open>What a parser of one value does; the value starts after \<open>s\<close> in the state \<open>j0\<close>.\<close>

definition value_out :: "byte list \<Rightarrow> nat \<Rightarrow> xjson \<Rightarrow> jmem \<Rightarrow> nat \<Rightarrow> byte list option \<Rightarrow> bool \<Rightarrow> (byte list option \<times> jval) list \<Rightarrow> nat set \<Rightarrow>
    byte list option \<Rightarrow> xjson \<Rightarrow> jmem \<Rightarrow> bool \<Rightarrow> bool" where
  "value_out d st j0 M a nm isarr xs F k j' M' ok \<longleftrightarrow> lex_ok d j' \<and> js_pRootObj j' = js_pRootObj j0 \<and>
     (if ok then \<exists>u v F'. drop st d = u @ drop (js_nOffset j') d \<and> js_nOffset j' = st + length u \<and> 0 < length u \<and> json_text u v \<and>
          grew M a nm isarr xs F M' [(k, v)] F' \<and> keys_ok isarr (xs @ [(k, v)])
      else grew M a nm isarr xs F M' [] F \<and> err_ok d j')"

lemma parse_new_sound:
  assumes l: "lexed_at d j0 j t s w rest" and t: "w = [open_char b]" and c: "cont M a nm isarr xs F"
    and k: "k = None \<longleftrightarrow> isarr" and r: "length xs < 2 ^ 27" "length d < 2 ^ 27" "length d - js_nOffset j < n"
    and f: "items_sound d n b True f"
  shows "\<exists>j' M' ok. parse_new b f j M a k = Some (j', M', ok) \<and> value_out d (js_nOffset j0 + length s) j0 M a nm isarr xs F k j' M' ok"
proof -
  note L = lexed_atD [OF l]
  from c have C: "jm_wf M" "rep (jm_heap M) a nm (items_value isarr xs) F" "fixed_members M a" "\<forall>t n. jm_grow M t n" by (auto simp: cont_def)
  have same: "grew M a nm isarr xs F M' [] F" if "jm_step M {} M'" "jm_wf M'" for M'
    using that C rep_step [OF C(2) that(1)] by (auto simp: grew_def jm_step_def fixed_members_def)
  from new_cont_made [OF C(1), of b k] obtain M1 p where n: "new_cont b M k = Some (M1, p)" "made M k (items_value b []) M1 p" by blast
  have err: "value_out d (js_nOffset j0 + length s) j0 M a nm isarr xs F k (j1\<lparr>js_nError := e\<rparr>) M' False"
    if "e \<noteq> XJSON_ERR_NONE" "grew M a nm isarr xs F M' [] F" "lex_ok d j1" "js_pRootObj j1 = js_pRootObj j0" for j1 M' e
    using that by (simp add: value_out_def err_ok_def lex_ok_def)
  show ?thesis
  proof (cases p)
    case None
    then have "jm_step M {} M1" "jm_wf M1" using n(2) by (auto simp: made_def)
    with None n(1) err [OF _ same [OF this], of XJSON_ERR_ALLOC j] L(1,6) show ?thesis
      by (auto simp: parse_new_def)
  next
    case (Some y)
    with n(2) have N: "jm_wf M1" "jm_heap M y = None" "jm_step M {y} M1" "rep (jm_heap M1) y k (items_value b []) {y}" "fixed_members M1 y"
      by (auto simp: made_def)
    have cy: "cont M1 y k b [] {y}" using N C(4) by (auto simp: cont_def jm_step_def keys_ok_def)
    have "room d n j []" using L(1) r by (simp add: room_def)
    with f cy obtain j2 M2 ok where p2: "f j M1 y = Some (j2, M2, ok)" "items_out d b (items_text b True) j M1 y k [] {y} j2 M2 ok"
      unfolding items_sound_def by blast
    then obtain ys G where J: "lex_ok d j2" "js_pRootObj j2 = js_pRootObj j0" and G: "grew M1 y k b [] {y} M2 ys G"
      and out: "if ok then \<exists>txt rest. drop (js_nOffset j) d = txt @ close_char b # rest \<and> js_nOffset j2 = js_nOffset j + length txt \<and>
            items_text b True txt ys \<and> keys_ok b ys else err_ok d j2" unfolding items_out_def append_Nil L(6) by blast
    have gN: "\<forall>x \<in> G. jm_heap M x = None"
      using G N(2,3) by (auto simp: grew_def jm_step_def)
    have M2: "jm_wf M2" "jm_step M G M2" "rep (jm_heap M2) y k (items_value b ys) G"
      using G N(3) by (auto simp: grew_def jm_step_def)
    show ?thesis
    proof (cases ok)
      case False
      from FreeObject_rep [OF M2(1,3)] have fr: "XJSON_FreeObject M2 (Some y) = Some (wipe M2 G)" "jm_wf (wipe M2 G)" .
      have "jm_step M {} (wipe M2 G)" using M2(2) gN by (auto simp: jm_step_def)
      from same [OF this fr(2)] have "value_out d (js_nOffset j0 + length s) j0 M a nm isarr xs F k j2 (wipe M2 G) False"
        using out False J by (simp add: value_out_def)
      then show ?thesis using n(1) Some p2(1) False fr(1) by (auto simp: parse_new_def)
    next
      case True
      with out obtain u rest2 where Tx: "drop (js_nOffset j) d = u @ close_char b # rest2" "js_nOffset j2 = js_nOffset j + length u"
        "items_text b True u ys" "keys_ok b ys" by auto
      from put_new_grew [OF c M2(1,2) gN M2(3) k r(1), of j2] obtain e M3 where
        P: "put_new j2 M2 a y = Some (j2\<lparr>js_nError := e\<rparr>, M3, e = XJSON_ERR_NONE)"
        "put_ok M a nm isarr xs F M3 (e = XJSON_ERR_NONE) k (items_value b ys)" by blast
      show ?thesis
      proof (cases "e = XJSON_ERR_NONE")
        case False
        with P(2) have "grew M a nm isarr xs F M3 [] F" by (simp add: put_ok_def)
        with err [OF False this J] show ?thesis using n(1) Some p2(1) True P(1) False by (auto simp: parse_new_def)
      next
        case none: True
        let ?j3 = "j2\<lparr>js_nError := XJSON_ERR_NONE\<rparr>"
        have "drop (js_nOffset ?j3) d = close_char b # rest2" using drop_split [OF Tx(1) L(8)] Tx(2) by simp
        from expect_close [OF _ this] J(1) obtain j4 where E: "XJSON_Expect ?j3 (close_tok b) = Some (j4, True)" "lex_ok d j4"
          "js_nOffset j4 = Suc (js_nOffset j2)" "js_pRootObj j4 = js_pRootObj j2" "drop (js_nOffset j4) d = rest2" by (auto simp: lex_ok_def)
        from P(2) none obtain F' where g: "grew M a nm isarr xs F M3 [(k, items_value b ys)] F'" "keys_ok isarr (xs @ [(k, items_value b ys)])"
          by (auto simp: put_ok_def)
        let ?w = "open_char b # u @ [close_char b]"
        have "json_text ?w (items_value b ys)" using Tx(3,4) text_empty [of u b] text_items [of b u ys] unfolding items_text_def by blast
        moreover have "drop (js_nOffset j0 + length s) d = ?w @ drop (js_nOffset j4) d"
        proof -
          have "drop (js_nOffset j0) d = s @ w @ rest" "js_nOffset j0 \<le> length d" using l by (auto simp: lexed_at_def lex_ok_def)
          from drop_split [OF this] have "drop (js_nOffset j0 + length s) d = w @ rest" by simp
          then show ?thesis using t Tx(1) L(2) E(5) by simp
        qed
        moreover have "js_nOffset j4 = js_nOffset j0 + length s + length ?w" using E(3) Tx(2) L(3) t by simp
        ultimately have "value_out d (js_nOffset j0 + length s) j0 M a nm isarr xs F k j4 M3 True"
          using E J g unfolding value_out_def if_True by (intro conjI exI [of _ ?w] exI [of _ "items_value b ys"] exI [of _ F']) auto
        then show ?thesis using n(1) Some p2(1) True P(1) none E(1) by (auto simp: parse_new_def give_def)
      qed
    qed
  qed
qed

lemma value_sound:
  assumes l: "lexed_at d j0 j t s w rest" and c: "cont M a nm isarr xs F" and k: "k = None \<longleftrightarrow> isarr"
    and r: "length xs < 2 ^ 27" "length d < 2 ^ 27" "length d - js_nOffset j < n"
    and f: "items_sound d n False True (obj True)" "items_sound d n True True (arr True)"
  shows "\<exists>j' M' ok. parse_value obj arr j M a k = Some (j', M', ok) \<and> value_out d (js_nOffset j0 + length s) j0 M a nm isarr xs F k j' M' ok"
proof -
  note L = lexed_atD [OF l]
  from c have same: "grew M a nm isarr xs F M [] F" by (auto simp: cont_def intro: grew_refl)
  have w: "token_text t w" "js_nOffset j0 \<le> length d" "drop (js_nOffset j0) d = s @ w @ rest" using l by (auto simp: lexed_at_def lex_ok_def)
  consider (item) "XJSON_GetItemType t \<noteq> XJSON_TYPE_INVALID" | (obj) "t = XJSON_TOKEN_LCURLY" | (arr) "t = XJSON_TOKEN_LSQUARE"
    | (other) "XJSON_GetItemType t = XJSON_TYPE_INVALID" "t \<noteq> XJSON_TOKEN_LCURLY" "t \<noteq> XJSON_TOKEN_LSQUARE" by blast
  then show ?thesis
  proof cases
    case item
    from PutItem_spec [OF l item c k r(1)] obtain e M' where P: "XJSON_PutItem j M a k = Some (j\<lparr>js_nError := e\<rparr>, M', e = XJSON_ERR_NONE)"
      "put_ok M a nm isarr xs F M' (e = XJSON_ERR_NONE) k (JText (XJSON_GetItemType t) (cstr (item_bytes t w)))" by blast
    have "drop (js_nOffset j0 + length s) d = w @ drop (js_nOffset j) d" using drop_split [OF w(3,2)] L(2) by simp
    moreover have "json_text w (JText (XJSON_GetItemType t) (cstr (item_bytes t w)))" by (rule text_item [OF w(1) item])
    ultimately have "value_out d (js_nOffset j0 + length s) j0 M a nm isarr xs F k (j\<lparr>js_nError := e\<rparr>) M' (e = XJSON_ERR_NONE)"
      using P(2) L(1,3,5,6) by (auto simp: value_out_def put_ok_def err_ok_def lex_ok_def)
    then show ?thesis using P(1) item L(4) item_type [of j] by (auto simp: parse_value_def)
  next
    case obj
    then have "w = [open_char False]" using w(1) by (auto simp: token_text_def char_token_def split: if_splits)
    from parse_new_sound [OF l this c k r f(1)] obj L(4) show ?thesis
      by (simp add: parse_value_def XJSON_TokenIsItem_def parse_new_eqs)
  next
    case arr
    then have "w = [open_char True]" using w(1) by (auto simp: token_text_def char_token_def split: if_splits)
    from parse_new_sound [OF l this c k r f(2)] arr L(4) show ?thesis
      by (simp add: parse_value_def XJSON_TokenIsItem_def parse_new_eqs)
  next
    case other
    from lexed_unexpected [OF l] obtain j' where u: "XJSON_UnexpectedToken j = (j', False)" "lex_fail d j0 j'" by blast
    from lex_fail_err [OF u(2)] same have "value_out d (js_nOffset j0 + length s) j0 M a nm isarr xs F k j' M False" by (simp add: value_out_def)
    then show ?thesis using u(1) other L(4) item_type [of j] by (auto simp: parse_value_def give_def)
  qed
qed

definition tail_text :: "bool \<Rightarrow> byte list \<Rightarrow> (byte list option \<times> jval) list \<Rightarrow> bool" where
  "tail_text isarr u ys \<longleftrightarrow> (\<exists>s. list_all is_ws s \<and> (u = s \<and> ys = [] \<or> (\<exists>w. u = s @ 44 # w \<and> json_items isarr w ys)))"

lemma rest_sound:
  assumes j: "lex_ok d j" and c: "cont M a nm isarr xs F" and r: "length d - js_nOffset j \<le> n" "length xs + (length d - js_nOffset j) \<le> 2 ^ 27"
    and f: "items_sound d n isarr False nxt"
  shows "\<exists>j' M' ok. parse_rest (close_tok isarr) nxt j M a = Some (j', M', ok) \<and> items_out d isarr (tail_text isarr) j M a nm xs F j' M' ok"
proof -
  from c have same: "grew M a nm isarr xs F M [] F" by (auto simp: cont_def intro: grew_refl)
  have keys: "keys_ok isarr xs" using c by (simp add: cont_def)
  have failed: "items_out d isarr (tail_text isarr) j M a nm xs F j' M False" if "lex_fail d j j'" for j'
    unfolding items_out_def using lex_fail_err [OF that] same by (auto intro!: exI [of _ "[]"])
  from j show ?thesis
  proof (cases rule: next_token)
    case (fail j1)
    then show ?thesis using fail(1) failed [OF fail(2)] by (auto simp: parse_rest_def)
  next
    case (token j1 t s w rest)
    note L = lexed_atD [OF token(2)]
    have T: "token_text t w" "js_nOffset j \<le> length d" "drop (js_nOffset j) d = s @ w @ rest" "list_all is_ws s"
      using token(2) by (auto simp: lexed_at_def lex_ok_def)
    consider (comma) "t = XJSON_TOKEN_COMMA" | (close) "t = close_tok isarr" "t \<noteq> XJSON_TOKEN_COMMA" | (other) "t \<noteq> XJSON_TOKEN_COMMA" "t \<noteq> close_tok isarr" by blast
    then show ?thesis
    proof cases
      case comma
      then have w: "w = [44]" using T(1) by (auto simp: token_text_def char_token_def split: if_splits)
      have "room d n j1 xs" using L r by (auto simp: room_def)
      with f c obtain j2 M2 ok where n: "nxt j1 M a = Some (j2, M2, ok)" "items_out d isarr (items_text isarr False) j1 M a nm xs F j2 M2 ok"
        unfolding items_sound_def by blast
      have conv: "\<exists>u' r. drop (js_nOffset j) d = u' @ close_char isarr # r \<and> js_nOffset j2 = js_nOffset j + length u' \<and> tail_text isarr u' ys"
        if "drop (js_nOffset j1) d = u @ close_char isarr # rest'" "js_nOffset j2 = js_nOffset j1 + length u" "items_text isarr False u ys" for u rest' ys
      proof (intro exI conjI)
        show "drop (js_nOffset j) d = (s @ 44 # u) @ close_char isarr # rest'" using that(1) L(2) T(3) w by simp
        show "js_nOffset j2 = js_nOffset j + length (s @ 44 # u)" using that(2) L(3) w by simp
        show "tail_text isarr (s @ 44 # u) ys" using that(3) T(4) by (auto simp: tail_text_def items_text_def)
      qed
      from n(2) obtain ys F' where N: "lex_ok d j2" "js_pRootObj j2 = js_pRootObj j1" "grew M a nm isarr xs F M2 ys F'"
        "if ok then \<exists>u rest. drop (js_nOffset j1) d = u @ close_char isarr # rest \<and> js_nOffset j2 = js_nOffset j1 + length u \<and>
            items_text isarr False u ys \<and> keys_ok isarr (xs @ ys) else err_ok d j2" unfolding items_out_def by blast
      have "items_out d isarr (tail_text isarr) j M a nm xs F j2 M2 ok"
        unfolding items_out_def using N(1-3) L(6) N(4) conv by (intro conjI exI [of _ ys] exI [of _ F']) (auto split: if_splits; blast)+
      then show ?thesis using n(1) token(1) comma L(4) by (auto simp: parse_rest_def)
    next
      case close
      then have t: "t \<in> {XJSON_TOKEN_RCURLY, XJSON_TOKEN_RSQUARE}" and w: "w = [close_char isarr]"
        using T(1) by (auto simp: close_tok_def token_text_def char_token_def split: if_splits)
      note U = lexed_undo [OF token(2) t]
      have "items_out d isarr (tail_text isarr) j M a nm xs F (j1\<lparr>js_nOffset := js_nOffset j + length s\<rparr>) M True"
        unfolding items_out_def if_True using U(2) L(6) same keys T(3,4) w
        by (intro conjI exI [of _ "[]"] exI [of _ F] exI [of _ s] exI [of _ rest]) (auto simp: tail_text_def)
      then show ?thesis using U(1) token(1) close L(4) by (auto simp: parse_rest_def give_def)
    next
      case other
      from lexed_unexpected [OF token(2)] obtain j' where u: "XJSON_UnexpectedToken j1 = (j', False)" "lex_fail d j j'" by blast
      then show ?thesis using failed [OF u(2)] token(1) other L(4) by (auto simp: parse_rest_def give_def)
    qed
  qed
qed

text \<open>A value, and what follows it, from the state \<open>jb\<close> on before the value and its name.\<close>

definition value_rest :: "bool \<Rightarrow> (bool \<Rightarrow> parse_fn) \<Rightarrow> (bool \<Rightarrow> parse_fn) \<Rightarrow> xjson \<Rightarrow> jmem \<Rightarrow> nat \<Rightarrow> byte list option \<Rightarrow> (xjson \<times> jmem \<times> bool) option" where
  "value_rest isarr obj arr j M a k = do {
     (j, M, ok) \<leftarrow> parse_value obj arr j M a k;
     if \<not> ok then Some (j, M, False) else parse_rest (close_tok isarr) (if isarr then arr False else obj False) j M a }"

definition both_sound :: "byte list \<Rightarrow> nat \<Rightarrow> (bool \<Rightarrow> parse_fn) \<Rightarrow> (bool \<Rightarrow> parse_fn) \<Rightarrow> bool" where
  "both_sound d n obj arr \<longleftrightarrow> (\<forall>e. items_sound d n False e (obj e) \<and> items_sound d n True e (arr e))"

lemma value_rest_sound:
  assumes l: "lexed_at d j0 j t s w rest" and c: "cont M a nm isarr xs F" and k: "k = None \<longleftrightarrow> isarr"
    and r: "length xs + (length d - js_nOffset jb) < 2 ^ 27" "length d < 2 ^ 27" "length d - js_nOffset jb \<le> n" "js_nOffset jb < js_nOffset j"
    and f: "both_sound d n obj arr"
    and pre: "drop (js_nOffset jb) d = s1 @ p @ drop (js_nOffset j0 + length s) d" "js_nOffset j0 + length s = js_nOffset jb + length (s1 @ p)"
      "list_all is_ws s1" "json_key isarr p k" "js_pRootObj j0 = js_pRootObj jb"
  shows "\<exists>j' M' ok. value_rest isarr obj arr j M a k = Some (j', M', ok) \<and> items_out d isarr (items_text isarr e) jb M a nm xs F j' M' ok"
proof -
  note L = lexed_atD [OF l]
  have b: "length xs < 2 ^ 27" "length d - js_nOffset j < n" using r(1,3,4) L(8) by auto
  from f have f': "items_sound d n False True (obj True)" "items_sound d n True True (arr True)"
    "items_sound d n isarr False (if isarr then arr False else obj False)" by (auto simp: both_sound_def)
  from value_sound [where obj = obj and arr = arr, OF l c k b(1) r(2) b(2) f'(1,2)] obtain j1 M1 ok where
    V: "parse_value obj arr j M a k = Some (j1, M1, ok)" "value_out d (js_nOffset j0 + length s) j0 M a nm isarr xs F k j1 M1 ok" by blast
  from V(2) have V1: "lex_ok d j1" "js_pRootObj j1 = js_pRootObj j0" by (auto simp: value_out_def)
  show ?thesis
  proof (cases ok)
    case False
    with V(2) have "grew M a nm isarr xs F M1 [] F" "err_ok d j1" by (auto simp: value_out_def)
    then have "items_out d isarr (items_text isarr e) jb M a nm xs F j1 M1 False"
      unfolding items_out_def using V1 pre(5) by (auto intro!: exI [of _ "[]"])
    then show ?thesis using V(1) False by (auto simp: value_rest_def)
  next
    case True
    with V(2) obtain u v F1 where U: "drop (js_nOffset j0 + length s) d = u @ drop (js_nOffset j1) d" "js_nOffset j1 = js_nOffset j0 + length s + length u"
      "0 < length u" "json_text u v" "grew M a nm isarr xs F M1 [(k, v)] F1" "keys_ok isarr (xs @ [(k, v)])" by (auto simp: value_out_def)
    have j1: "js_nOffset j1 = js_nOffset jb + length (s1 @ p @ u)" using U(2) pre(2) by simp
    have le: "js_nOffset j1 \<le> length d" using V1(1) by (simp add: lex_ok_def)
    have b1: "length d - js_nOffset j1 \<le> n" "length (xs @ [(k, v)]) + (length d - js_nOffset j1) \<le> 2 ^ 27"
      using j1 U(3) r(1,3) le by auto
    from rest_sound [OF V1(1) grew_cont [OF c U(5,6)] b1 f'(3)] obtain j2 M2 ok2 where
      R: "parse_rest (close_tok isarr) (if isarr then arr False else obj False) j1 M1 a = Some (j2, M2, ok2)"
      "items_out d isarr (tail_text isarr) j1 M1 a nm (xs @ [(k, v)]) F1 j2 M2 ok2" by blast
    have eq: "value_rest isarr obj arr j M a k = Some (j2, M2, ok2)" using V(1) R(1) True by (simp add: value_rest_def)
    from R(2) obtain ys F2 where O1: "lex_ok d j2" "js_pRootObj j2 = js_pRootObj j1" "grew M1 a nm isarr (xs @ [(k, v)]) F1 M2 ys F2"
      "if ok2 then \<exists>u rest. drop (js_nOffset j1) d = u @ close_char isarr # rest \<and> js_nOffset j2 = js_nOffset j1 + length u \<and>
         tail_text isarr u ys \<and> keys_ok isarr ((xs @ [(k, v)]) @ ys) else err_ok d j2" unfolding items_out_def by blast
    have g: "grew M a nm isarr xs F M2 ((k, v) # ys) F2" using grew_trans [OF U(5) O1(3)] by simp
    have conv: "\<exists>u' r. drop (js_nOffset jb) d = u' @ close_char isarr # r \<and> js_nOffset j2 = js_nOffset jb + length u' \<and> items_text isarr e u' ((k, v) # ys)"
      if "drop (js_nOffset j1) d = u2 @ close_char isarr # rest'" "js_nOffset j2 = js_nOffset j1 + length u2" "tail_text isarr u2 ys" for u2 rest'
    proof (intro exI conjI)
      show "drop (js_nOffset jb) d = (s1 @ p @ u @ u2) @ close_char isarr # rest'" using pre(1) U(1) that(1) by simp
      show "js_nOffset j2 = js_nOffset jb + length (s1 @ p @ u @ u2)" using that(2) j1 by simp
      from that(3) have "json_items isarr (s1 @ p @ u @ u2) ((k, v) # ys)"
        using items_one [OF pre(3,4) U(4)] items_more [OF pre(3,4) U(4)] by (auto simp: tail_text_def)
      then show "items_text isarr e (s1 @ p @ u @ u2) ((k, v) # ys)" by (simp add: items_text_def)
    qed
    have "items_out d isarr (items_text isarr e) jb M a nm xs F j2 M2 ok2"
    proof (cases ok2)
      case False
      with O1 g V1(2) pre(5) show ?thesis unfolding items_out_def by (auto intro!: exI [of _ "(k, v) # ys"])
    next
      case True
      with O1(4) obtain u2 rest2 where R2: "drop (js_nOffset j1) d = u2 @ close_char isarr # rest2" "js_nOffset j2 = js_nOffset j1 + length u2"
        "tail_text isarr u2 ys" "keys_ok isarr (xs @ (k, v) # ys)" by auto
      from conv [OF R2(1-3)] obtain u3 r3 where "drop (js_nOffset jb) d = u3 @ close_char isarr # r3" "js_nOffset j2 = js_nOffset jb + length u3"
        "items_text isarr e u3 ((k, v) # ys)" by blast
      with O1(1,2) g V1(2) pre(5) R2(4) True show ?thesis
        unfolding items_out_def if_True by (intro conjI exI [of _ "(k, v) # ys"] exI [of _ F2] exI [of _ u3] exI [of _ r3]) auto
    qed
    with eq show ?thesis by blast
  qed
qed

lemma close_toks: "close_tok True = XJSON_TOKEN_RSQUARE" "close_tok False = XJSON_TOKEN_RCURLY"
  by (simp_all add: close_tok_def)

lemma items_failed:
  assumes "lex_fail d jb j'" "cont M a nm isarr xs F"
  shows "items_out d isarr P jb M a nm xs F j' M False"
  unfolding items_out_def using lex_fail_err [OF assms(1)] grew_refl [of M a nm isarr xs F] assms(2)
  by (auto simp: cont_def intro!: exI [of _ "[]"])

lemma items_closed:
  assumes l: "lexed_at d jb j t s w rest" and t: "t = close_tok isarr" and c: "cont M a nm isarr xs F"
  shows "\<exists>j'. XJSON_UndoLastToken j = (j', True) \<and> items_out d isarr (items_text isarr True) jb M a nm xs F j' M True"
proof -
  have w: "token_text t w" "drop (js_nOffset jb) d = s @ w @ rest" "list_all is_ws s" using l by (auto simp: lexed_at_def)
  have t': "t \<in> {XJSON_TOKEN_RCURLY, XJSON_TOKEN_RSQUARE}" and w': "w = [close_char isarr]"
    using w(1) t by (auto simp: close_tok_def token_text_def char_token_def split: if_splits)
  note U = lexed_undo [OF l t']
  have "items_out d isarr (items_text isarr True) jb M a nm xs F (j\<lparr>js_nOffset := js_nOffset jb + length s\<rparr>) M True"
    unfolding items_out_def if_True using U(2) lexed_atD(6) [OF l] c w(2,3) w' grew_refl [of M a nm isarr xs F]
    by (intro conjI exI [of _ "[]"] exI [of _ F] exI [of _ s] exI [of _ rest]) (auto simp: items_text_def cont_def)
  with U(1) show ?thesis by blast
qed

text \<open>The end of the array or object, if it is allowed, or an error.\<close>

lemma items_end:
  assumes l: "lexed_at d jb j t s w rest" and t: "t = close_tok isarr" and c: "cont M a nm isarr xs F"
  shows "\<exists>j' M' ok. Some (give M (if e then XJSON_UndoLastToken j else XJSON_UnexpectedToken j)) = Some (j', M', ok) \<and>
    items_out d isarr (items_text isarr e) jb M a nm xs F j' M' ok"
proof (cases e)
  case True
  with items_closed [OF l t c] show ?thesis by (auto simp: give_def)
next
  case False
  with lexed_unexpected [OF l] items_failed [OF _ c, of d jb] show ?thesis by (auto simp: give_def)
qed

lemma ParseArrayNext_sound:
  assumes f: "both_sound d n obj arr" and d: "length d < 2 ^ 27"
  shows "items_sound d (Suc n) True e (XJSON_ParseArrayNext obj arr e)"
  unfolding items_sound_def
proof (intro allI impI)
  fix j M a nm xs F
  assume r: "room d (Suc n) j xs" and c: "cont M a nm True xs F"
  have j: "lex_ok d j" using r by (simp add: room_def)
  from j show "\<exists>j' M' ok. XJSON_ParseArrayNext obj arr e j M a = Some (j', M', ok) \<and> items_out d True (items_text True e) j M a nm xs F j' M' ok"
  proof (cases rule: next_token)
    case (fail j1)
    with items_failed [OF fail(2) c] show ?thesis by (auto simp: XJSON_ParseArrayNext_def)
  next
    case (token j1 t s w rest)
    note L = lexed_atD [OF token(2)]
    have w: "drop (js_nOffset j) d = s @ w @ rest" "list_all is_ws s" "js_nOffset j \<le> length d" using token(2) by (auto simp: lexed_at_def lex_ok_def)
    show ?thesis
    proof (cases "t = close_tok True")
      case True
      with items_end [OF token(2) True c, of e] token(1) L(4) show ?thesis by (auto simp: XJSON_ParseArrayNext_def close_tok_def)
    next
      case False
      have "XJSON_ParseArrayNext obj arr e j M a = value_rest True obj arr j1 M a None"
        unfolding value_rest_def close_toks XJSON_ParseArrayNext_def using token(1) L(4) False by (simp add: close_toks)
      moreover have "\<exists>j' M' ok. value_rest True obj arr j1 M a None = Some (j', M', ok) \<and> items_out d True (items_text True e) j M a nm xs F j' M' ok"
        by (rule value_rest_sound [where ?s1.0 = s and p = "[]", OF token(2) c _ _ d _ L(9) f])
          (use r w drop_split [OF w(1,3)] in \<open>simp_all add: room_def json_key_def\<close>)
      ultimately show ?thesis by simp
    qed
  qed
qed

lemma items_out_step:
  assumes "grew M a nm isarr xs F M1 [] F" "items_out d isarr P jb M1 a nm xs F j' M' ok"
  shows "items_out d isarr P jb M a nm xs F j' M' ok"
proof -
  from assms(2) obtain ys F' where "grew M1 a nm isarr xs F M' ys F'" "lex_ok d j'" "js_pRootObj j' = js_pRootObj jb"
    "if ok then \<exists>u rest. drop (js_nOffset jb) d = u @ close_char isarr # rest \<and> js_nOffset j' = js_nOffset jb + length u \<and> P u ys \<and> keys_ok isarr (xs @ ys)
     else err_ok d j'" unfolding items_out_def by blast
  moreover have "grew M a nm isarr xs F M' ys F'" using grew_trans [OF assms(1), of M' ys F'] calculation(1) by simp
  ultimately show ?thesis unfolding items_out_def by blast
qed

lemma cont_tick:
  assumes "cont M a nm isarr xs F"
  shows "cont (fst (jalloc M k)) a nm isarr xs F" "grew M a nm isarr xs F (fst (jalloc M k)) [] F"
  using assms jm_wf_tick [of M "Suc (jm_tick M)"] by (auto simp: cont_def grew_def jalloc_def jm_step_def fixed_members_def)

lemma ParsePair_sound:
  assumes f: "both_sound d n obj arr" and d: "length d < 2 ^ 27" and r: "room d (Suc n) jb xs" and c: "cont M a nm False xs F"
    and l: "lexed_at d jb j XJSON_TOKEN_QUOTE s w rest"
  shows "\<exists>j' M' ok. XJSON_ParsePair obj arr j M a = Some (j', M', ok) \<and> items_out d False (items_text False e) jb M a nm xs F j' M' ok"
proof -
  note L = lexed_atD [OF l]
  let ?k = "jt_nLength (js_lastToken j) + 1"
  obtain M1 got where M1: "jalloc M ?k = (M1, got)" by (cases "jalloc M ?k")
  have c1: "cont M1 a nm False xs F" and g1: "grew M a nm False xs F M1 [] F" using cont_tick [OF c, of ?k] M1 by simp_all
  from l obtain b where b: "json_body b" "w = 34 # b @ [34]" by (auto simp: lexed_at_def token_text_def)
  have tb: "token_bytes j = Some b" using lexed_bytes [OF l] b(2) by (simp add: item_bytes_def)
  have w: "drop (js_nOffset jb) d = s @ w @ rest" "list_all is_ws s" "js_nOffset jb \<le> length d" using l by (auto simp: lexed_at_def lex_ok_def)
  have failed: "items_out d False (items_text False e) jb M a nm xs F j' M1 False" if "lex_fail d j1 j'" "js_pRootObj j1 = js_pRootObj jb" for j1 j'
    by (rule items_out_step [OF g1 items_failed [OF _ c1]]) (use that in \<open>auto simp: lex_fail_def\<close>)
  show ?thesis
  proof (cases got)
    case False
    have "items_out d False (items_text False e) jb M a nm xs F (j\<lparr>js_nError := XJSON_ERR_ALLOC\<rparr>) M1 False"
      unfolding items_out_def using g1 L(1,6) by (auto simp: lex_ok_def err_ok_def intro!: exI [of _ "[]"])
    then show ?thesis using M1 False by (auto simp: XJSON_ParsePair_def)
  next
    case True
    from L(1) show ?thesis
    proof (cases rule: next_token)
      case (fail j1)
      then have "XJSON_ParsePair obj arr j M a = Some (j1, M1, False)" using M1 True tb by (simp add: XJSON_ParsePair_def XJSON_Expect_def)
      with failed [OF fail(2) L(6)] show ?thesis by auto
    next
      case (token j1 t2 s2 w2 rest2)
      note L1 = lexed_atD [OF token(2)]
      have W1: "token_text t2 w2" "drop (js_nOffset j) d = s2 @ w2 @ rest2" "list_all is_ws s2" using token(2) by (auto simp: lexed_at_def)
      show ?thesis
      proof (cases "t2 = XJSON_TOKEN_COLON")
        case False
        from lexed_unexpected [OF token(2)] obtain j' where u: "XJSON_UnexpectedToken j1 = (j', False)" "lex_fail d j j'" by blast
        then have "XJSON_ParsePair obj arr j M a = Some (j', M1, False)"
          using M1 True tb token(1) L1(4) False by (simp add: XJSON_ParsePair_def XJSON_Expect_def)
        with failed [OF u(2) L(6)] show ?thesis by auto
      next
        case colon: True
        with W1(1) have w2: "w2 = [58]" by (auto simp: token_text_def char_token_def split: if_splits)
        from L1(1) show ?thesis
        proof (cases rule: next_token)
          case (fail j2)
          then have "XJSON_ParsePair obj arr j M a = Some (j2, M1, False)"
            using M1 True tb token(1) L1(4) colon by (simp add: XJSON_ParsePair_def XJSON_Expect_def)
          with failed [OF fail(2)] L1(6) L(6) show ?thesis by auto
        next
          case last: (token j2 t3 s3 w3 rest3)
          note L2 = lexed_atD [OF last(2)]
          have W2: "drop (js_nOffset j1) d = s3 @ w3 @ rest3" "list_all is_ws s3" "js_nOffset j1 \<le> length d" using last(2) by (auto simp: lexed_at_def lex_ok_def)
          have "XJSON_ParsePair obj arr j M a = value_rest False obj arr j2 M1 a (Some (cstr b))"
            unfolding value_rest_def close_toks XJSON_ParsePair_def XJSON_Expect_def using M1 True tb token(1) L1(4) colon last(1) by simp
          moreover have "\<exists>j' M' ok. value_rest False obj arr j2 M1 a (Some (cstr b)) = Some (j', M', ok) \<and>
              items_out d False (items_text False e) jb M1 a nm xs F j' M' ok"
          proof (rule value_rest_sound [where ?s1.0 = s and p = "w @ s2 @ [58] @ s3", OF last(2) c1 _ _ d _ _ f])
            show "json_key False (w @ s2 @ [58] @ s3) (Some (cstr b))" using b W1(3) W2(2) by (auto simp: json_key_def)
            show "drop (js_nOffset jb) d = s @ (w @ s2 @ [58] @ s3) @ drop (js_nOffset j1 + length s3) d"
              using w(1) L(2) W1(2) w2 L1(2) W2(1) drop_split [OF W2(1,3)] by simp
            show "js_nOffset j1 + length s3 = js_nOffset jb + length (s @ w @ s2 @ [58] @ s3)" using L(3) L1(3) w2 by simp
            show "js_nOffset jb < js_nOffset j2" using L(9) L1(9) L2(9) by simp
          qed (use r w(2) L(6) L1(6) in \<open>auto simp: room_def\<close>)
          ultimately show ?thesis using items_out_step [OF g1] by (auto 0 4)
        qed
      qed
    qed
  qed
qed

lemma ParseObjectNext_sound:
  assumes f: "both_sound d n obj arr" and d: "length d < 2 ^ 27"
  shows "items_sound d (Suc n) False e (XJSON_ParseObjectNext obj arr e)"
  unfolding items_sound_def
proof (intro allI impI)
  fix j M a nm xs F
  assume r: "room d (Suc n) j xs" and c: "cont M a nm False xs F"
  have j: "lex_ok d j" using r by (simp add: room_def)
  from j show "\<exists>j' M' ok. XJSON_ParseObjectNext obj arr e j M a = Some (j', M', ok) \<and> items_out d False (items_text False e) j M a nm xs F j' M' ok"
  proof (cases rule: next_token)
    case (fail j1)
    with items_failed [OF fail(2) c] show ?thesis by (auto simp: XJSON_ParseObjectNext_def)
  next
    case (token j1 t s w rest)
    note L = lexed_atD [OF token(2)]
    have w: "token_text t w" "drop (js_nOffset j) d = s @ w @ rest" using token(2) by (auto simp: lexed_at_def)
    consider (close) "t = close_tok False" | (pair) "t = XJSON_TOKEN_QUOTE" | (eof) "t = XJSON_TOKEN_EOF"
      | (other) "t \<noteq> close_tok False" "t \<noteq> XJSON_TOKEN_QUOTE" "t \<noteq> XJSON_TOKEN_EOF" by blast
    then show ?thesis
    proof cases
      case close
      with items_end [OF token(2) close c, of e] token(1) L(4) show ?thesis by (auto simp: XJSON_ParseObjectNext_def close_tok_def)
    next
      case pair
      with ParsePair_sound [OF f d r c, of j1 s w rest e] token L(4) show ?thesis by (auto simp: XJSON_ParseObjectNext_def)
    next
      case eof
      with w(1) have "\<exists>b. w = [b] \<and> (b = 0 \<or> b = 255)" by (auto simp: token_text_def char_token_def split: if_splits)
      then have "0 \<in> set (drop (js_nOffset j) d) \<or> 255 \<in> set (drop (js_nOffset j) d)" unfolding w(2) by auto
      then have "err_ok d j1" using set_drop_subset [of "js_nOffset j" d] by (auto simp: err_ok_def)
      then have "items_out d False (items_text False e) j M a nm xs F j1 M False"
        unfolding items_out_def using L(1,6) c grew_refl [of M a nm False xs F] by (auto simp: cont_def intro!: exI [of _ "[]"])
      then show ?thesis using eof token(1) L(4) by (auto simp add: XJSON_ParseObjectNext_def)
    next
      case other
      from lexed_unexpected [OF token(2)] obtain j' where u: "XJSON_UnexpectedToken j1 = (j', False)" "lex_fail d j j'" by blast
      then show ?thesis using items_failed [OF u(2) c] other token(1) L(4) by (auto simp: XJSON_ParseObjectNext_def give_def close_tok_def)
    qed
  qed
qed

lemma json_next_sound: "length d < 2 ^ 27 \<Longrightarrow> items_sound d n isarr e (json_next n isarr e)"
proof (induction n arbitrary: isarr e)
  case 0
  then show ?case by (simp add: items_sound_def room_def)
next
  case (Suc n)
  then have "both_sound d n (json_next n False) (json_next n True)" by (simp add: both_sound_def)
  from ParseArrayNext_sound [OF this Suc.prems] ParseObjectNext_sound [OF this Suc.prems] show ?case by (cases isarr) simp_all
qed

section \<open>The whole text\<close>

lemma trailing_ws_spec:
  "n = length d \<Longrightarrow> off \<le> n \<Longrightarrow> \<exists>off' ok. trailing_ws (Some d) n off = Some (off', ok) \<and> off \<le> off' \<and> off' \<le> n \<and> ok = list_all is_ws (drop off d)"
proof (induction "Some d" n off rule: trailing_ws.induct)
  case (1 n off)
  show ?case
  proof (cases "off < n")
    case False
    then show ?thesis using 1(2,3) by (subst trailing_ws.simps) auto
  next
    case True
    have d: "drop off d = d ! off # drop (Suc off) d" using True 1(2) by (simp add: Cons_nth_drop_Suc)
    have pk: "cpeek (Some d) off = Some (d ! off)" using True 1(2) by (simp add: cpeek_def peek_def)
    show ?thesis
    proof (cases "is_ws (d ! off)")
      case ws: True
      from 1(1) [OF True pk ws 1(2)] True obtain off' ok where
        "trailing_ws (Some d) n (Suc off) = Some (off', ok)" "Suc off \<le> off'" "off' \<le> n" "ok = list_all is_ws (drop (Suc off) d)" by auto
      then show ?thesis using True pk ws d by (subst trailing_ws.simps) simp
    next
      case False
      then show ?thesis using True pk d by (subst trailing_ws.simps) auto
    qed
  qed
qed

text \<open>What the parser leaves behind: a value of the text, or a heap as it was before.\<close>

definition is_container :: "jval \<Rightarrow> bool" where
  "is_container v \<longleftrightarrow> (\<exists>isarr xs. v = items_value isarr xs)"

definition parsed :: "byte list \<Rightarrow> jmem \<Rightarrow> xjson \<Rightarrow> jmem \<Rightarrow> bool \<Rightarrow> bool" where
  "parsed d M j' M' ok \<longleftrightarrow> jm_ok M' = jm_ok M \<and> jm_grow M' = jm_grow M \<and>
     (if ok then \<exists>s1 w s2 v a F. d = s1 @ w @ s2 \<and> list_all is_ws s1 \<and> list_all is_ws s2 \<and> json_text w v \<and> is_container v \<and>
          js_pRootObj j' = Some a \<and> rep (jm_heap M') a None v F \<and> (\<forall>x \<in> F. jm_heap M x = None) \<and> (\<forall>x. x \<notin> F \<longrightarrow> jm_heap M' x = jm_heap M x)
      else js_pRootObj j' = None \<and> jm_heap M' = jm_heap M \<and> err_ok d j')"

definition Parse_root :: "nat \<Rightarrow> bool \<Rightarrow> xjson \<Rightarrow> jmem \<Rightarrow> (xjson \<times> jmem \<times> bool) option" where
  "Parse_root fuel isarr j M = do { r \<leftarrow> new_cont isarr M None; parse_root (json_next fuel isarr True) (close_tok isarr) j r }"

text \<open>The root before the trailing white space is checked.\<close>

definition root_out :: "byte list \<Rightarrow> jmem \<Rightarrow> xjson \<Rightarrow> jmem \<Rightarrow> bool \<Rightarrow> bool" where
  "root_out d M j' M' ok \<longleftrightarrow> lex_ok d j' \<and> jm_ok M' = jm_ok M \<and> jm_grow M' = jm_grow M \<and> (ok \<or> err_ok d j') \<and>
     (case js_pRootObj j' of None \<Rightarrow> \<not> ok \<and> jm_heap M' = jm_heap M
      | Some a \<Rightarrow> \<exists>v F. rep (jm_heap M') a None v F \<and> jm_wf M' \<and> (\<forall>x \<in> F. jm_heap M x = None) \<and> (\<forall>x. x \<notin> F \<longrightarrow> jm_heap M' x = jm_heap M x) \<and>
         (ok \<longrightarrow> is_container v \<and> (\<exists>s1 w. list_all is_ws s1 \<and> json_text w v \<and> d = s1 @ w @ drop (js_nOffset j') d)))"

lemma Parse_root_sound:
  assumes l: "lexed_at d j0 j t s [open_char isarr] rest" and j0: "js_nOffset j0 = 0" "js_pRootObj j0 = None" and d: "length d < 2 ^ 27" "length d < fuel"
    and M: "jm_wf M" "\<forall>t n. jm_grow M t n"
  shows "\<exists>j' M' ok. Parse_root fuel isarr j M = Some (j', M', ok) \<and> root_out d M j' M' ok"
proof -
  note L = lexed_atD [OF l]
  have w: "d = s @ open_char isarr # drop (js_nOffset j) d" "list_all is_ws s" using l j0 L(2) by (auto simp: lexed_at_def)
  from new_cont_made [OF M(1), of isarr None] obtain M1 p where n: "new_cont isarr M None = Some (M1, p)" "made M None (items_value isarr []) M1 p" by blast
  show ?thesis
  proof (cases p)
    case None
    then have "root_out d M (j\<lparr>js_pRootObj := None, js_nError := XJSON_ERR_ALLOC\<rparr>) M1 False"
      using n(2) L(1) by (auto simp: root_out_def made_def jm_step_def lex_ok_def err_ok_def)
    with n(1) None show ?thesis by (auto simp: Parse_root_def parse_root_def)
  next
    case (Some y)
    let ?j = "j\<lparr>js_pRootObj := Some y\<rparr>"
    from Some n(2) have N: "jm_wf M1" "jm_heap M y = None" "jm_step M {y} M1" "rep (jm_heap M1) y None (items_value isarr []) {y}" "fixed_members M1 y"
      by (auto simp: made_def)
    have cy: "cont M1 y None isarr [] {y}" using N M(2) by (auto simp: cont_def jm_step_def keys_ok_def)
    have "room d fuel ?j []" using L(1) d by (auto simp: room_def lex_ok_def)
    with json_next_sound [OF d(1), of fuel isarr True] cy obtain j2 M2 ok where
      p2: "json_next fuel isarr True ?j M1 y = Some (j2, M2, ok)" "items_out d isarr (items_text isarr True) ?j M1 y None [] {y} j2 M2 ok"
      unfolding items_sound_def by blast
    have sj: "js_nOffset ?j = js_nOffset j" "js_pRootObj ?j = Some y" by simp_all
    from p2(2) obtain ys G where J: "lex_ok d j2" "js_pRootObj j2 = Some y" and G: "grew M1 y None isarr [] {y} M2 ys G"
      and out: "if ok then \<exists>u rest. drop (js_nOffset j) d = u @ close_char isarr # rest \<and> js_nOffset j2 = js_nOffset j + length u \<and>
            items_text isarr True u ys \<and> keys_ok isarr ys else err_ok d j2" unfolding items_out_def append_Nil sj by blast
    have H: "\<forall>x \<in> G. jm_heap M x = None" "\<forall>x. x \<notin> G \<longrightarrow> jm_heap M2 x = jm_heap M x" "rep (jm_heap M2) y None (items_value isarr ys) G" "jm_wf M2"
      "jm_ok M2 = jm_ok M" "jm_grow M2 = jm_grow M"
      using G N(2,3) by (auto simp: grew_def jm_step_def)
    show ?thesis
    proof (cases ok)
      case False
      with out have "root_out d M j2 M2 False" using J H by (auto simp: root_out_def)
      with n(1) Some p2(1) False show ?thesis by (auto simp: Parse_root_def parse_root_def)
    next
      case True
      with out obtain u rest2 where U: "drop (js_nOffset j) d = u @ close_char isarr # rest2" "js_nOffset j2 = js_nOffset j + length u"
        "items_text isarr True u ys" "keys_ok isarr ys" by auto
      have "drop (js_nOffset j2) d = close_char isarr # rest2" using drop_split [OF U(1) L(8)] U(2) by simp
      from expect_close [OF J(1) this] obtain j4 where E: "XJSON_Expect j2 (close_tok isarr) = Some (j4, True)" "lex_ok d j4"
        "js_pRootObj j4 = js_pRootObj j2" "drop (js_nOffset j4) d = rest2" by auto
      have "json_text (open_char isarr # u @ [close_char isarr]) (items_value isarr ys)"
        using U(3,4) text_empty [of u isarr] text_items [of isarr u ys] unfolding items_text_def by blast
      moreover have "d = s @ (open_char isarr # u @ [close_char isarr]) @ drop (js_nOffset j4) d" using w(1) U(1) E(4) by simp
      ultimately have "root_out d M j4 M2 True" using E(2,3) J(2) H w(2) unfolding root_out_def is_container_def by fastforce
      with n(1) Some p2(1) True E(1) show ?thesis by (auto simp: Parse_root_def parse_root_def give_def)
    qed
  qed
qed

text \<open>The end of \<open>XJSON_Parse\<close>, after the root.\<close>

definition Parse_end :: "xjson \<times> jmem \<times> bool \<Rightarrow> (xjson \<times> jmem \<times> bool) option" where
  "Parse_end r = (case r of (j, M, nStatus) \<Rightarrow> do {
       (j, nStatus) \<leftarrow>
         (if nStatus
          then do {
            (off, ok) \<leftarrow> trailing_ws (js_pData j) (js_nDataSize j) (js_nOffset j);
            Some (if ok then (j\<lparr>js_nOffset := off\<rparr>, True) else (j\<lparr>js_nOffset := off, js_nError := XJSON_ERR_UNEXPECTED\<rparr>, False)) }
          else Some (j, False));
       if nStatus then Some (j, M, True)
       else do { M \<leftarrow> XJSON_FreeObject M (js_pRootObj j); Some (j\<lparr>js_pRootObj := None\<rparr>, M, False) } })"

lemma Parse_end_sound:
  assumes "root_out d M j M1 ok"
  shows "\<exists>j' M' ok'. Parse_end (j, M1, ok) = Some (j', M', ok') \<and> parsed d M j' M' ok'"
proof -
  have lx: "lex_ok d j" using assms by (simp add: root_out_def)
  have eq: "jm_ok M1 = jm_ok M" "jm_grow M1 = jm_grow M" using assms by (simp_all add: root_out_def)
  have bad: "\<exists>M'. XJSON_FreeObject M1 (js_pRootObj j) = Some M' \<and> jm_heap M' = jm_heap M \<and> jm_ok M' = jm_ok M \<and> jm_grow M' = jm_grow M"
  proof (cases "js_pRootObj j")
    case None
    with assms eq show ?thesis by (simp add: root_out_def XJSON_FreeObject_def)
  next
    case (Some a)
    with assms obtain v F where R: "rep (jm_heap M1) a None v F" "jm_wf M1" "\<forall>x \<in> F. jm_heap M x = None" "\<forall>x. x \<notin> F \<longrightarrow> jm_heap M1 x = jm_heap M x"
      by (auto simp: root_out_def)
    have "jm_heap (wipe M1 F) = jm_heap M" by (rule ext) (use R(3,4) in auto)
    with FreeObject_rep(1) [OF R(2,1)] Some eq show ?thesis by auto
  qed
  then obtain M2 where M2: "XJSON_FreeObject M1 (js_pRootObj j) = Some M2" "jm_heap M2 = jm_heap M" "jm_ok M2 = jm_ok M" "jm_grow M2 = jm_grow M" by blast
  show ?thesis
  proof (cases ok)
    case False
    with assms have "err_ok d j" by (simp add: root_out_def)
    with M2 False show ?thesis by (auto simp: Parse_end_def parsed_def err_ok_def)
  next
    case True
    from lx trailing_ws_spec [of "js_nDataSize j" d "js_nOffset j"] obtain off all where
      T: "trailing_ws (js_pData j) (js_nDataSize j) (js_nOffset j) = Some (off, all)" "all = list_all is_ws (drop (js_nOffset j) d)"
      by (auto simp: lex_ok_def)
    show ?thesis
    proof (cases all)
      case False
      then show ?thesis using True T(1) M2 by (auto simp: Parse_end_def parsed_def err_ok_def)
    next
      case all: True
      from assms True obtain a v F s1 w where R: "js_pRootObj j = Some a" "rep (jm_heap M1) a None v F" "\<forall>x \<in> F. jm_heap M x = None"
        "\<forall>x. x \<notin> F \<longrightarrow> jm_heap M1 x = jm_heap M x" "is_container v" "list_all is_ws s1" "json_text w v" "d = s1 @ w @ drop (js_nOffset j) d"
        by (auto simp: root_out_def split: option.splits)
      have "parsed d M (j\<lparr>js_nOffset := off\<rparr>) M1 True" unfolding parsed_def if_True
        by (intro conjI eq exI [of _ s1] exI [of _ w] exI [of _ "drop (js_nOffset j) d"] exI [of _ v] exI [of _ a] exI [of _ F]) (use R T(2) all in auto)
      then show ?thesis using True T(1) all by (auto simp: Parse_end_def)
    qed
  qed
qed

lemma XJSON_Parse_end:
  "XJSON_Parse fuel j M (Some d) n = do {
     (j, ok) \<leftarrow> XJSON_GetNextToken ((XJSON_Init j)\<lparr>js_nError := XJSON_ERR_NONE, js_nDataSize := n, js_pData := Some d, js_nOffset := 0\<rparr>);
     if \<not> ok then Some (j, M, False)
     else do {
       r \<leftarrow> (if tok j = XJSON_TOKEN_LCURLY then Parse_root fuel False j M else if tok j = XJSON_TOKEN_LSQUARE then Parse_root fuel True j M
          else Some (give M (XJSON_UnexpectedToken j)));
       Parse_end r } }"
  unfolding XJSON_Parse_def Parse_root_def new_cont_def close_toks XJSON_ParseObject_def XJSON_ParseArray_def Parse_end_def
  by (simp add: Let_def case_prod_beta')

lemma XJSON_Parse_sound:
  assumes d: "length d < 2 ^ 27" "length d < fuel" and M: "jm_wf M" "\<forall>t n. jm_grow M t n"
  shows "\<exists>j' M' ok. XJSON_Parse fuel j M (Some d) (length d) = Some (j', M', ok) \<and> parsed d M j' M' ok"
proof -
  let ?j = "(XJSON_Init j)\<lparr>js_nError := XJSON_ERR_NONE, js_nDataSize := length d, js_pData := Some d, js_nOffset := 0\<rparr>"
  have lx: "lex_ok d ?j" "js_nOffset ?j = 0" "js_pRootObj ?j = None" using d(1) by (simp_all add: lex_ok_def XJSON_Init_def)
  have failed: "root_out d M j' M False" if "lex_fail d ?j j'" for j'
    using lex_fail_err [OF that] lx(3) by (auto simp: root_out_def)
  from lx(1) show ?thesis
  proof (cases rule: next_token)
    case (fail j1)
    from lex_fail_err [OF fail(2)] lx(3) have "parsed d M j1 M False" by (simp add: parsed_def)
    with fail(1) show ?thesis by (auto simp: XJSON_Parse_end)
  next
    case (token j1 t s w rest)
    note L = lexed_atD [OF token(2)]
    have w: "token_text t w" using token(2) by (simp add: lexed_at_def)
    have "\<exists>j2 M2 ok. (if tok j1 = XJSON_TOKEN_LCURLY then Parse_root fuel False j1 M else if tok j1 = XJSON_TOKEN_LSQUARE then Parse_root fuel True j1 M
          else Some (give M (XJSON_UnexpectedToken j1))) = Some (j2, M2, ok) \<and> root_out d M j2 M2 ok"
    proof -
      consider (obj) "t = XJSON_TOKEN_LCURLY" | (arr) "t = XJSON_TOKEN_LSQUARE" | (other) "t \<noteq> XJSON_TOKEN_LCURLY" "t \<noteq> XJSON_TOKEN_LSQUARE" by blast
      then show ?thesis
      proof cases
        case obj
        then have "w = [open_char False]" using w by (auto simp: token_text_def char_token_def split: if_splits)
        from Parse_root_sound [OF token(2) [unfolded this] lx(2,3) d M] L(4) obj show ?thesis by simp
      next
        case arr
        then have "w = [open_char True]" using w by (auto simp: token_text_def char_token_def split: if_splits)
        from Parse_root_sound [OF token(2) [unfolded this] lx(2,3) d M] L(4) arr show ?thesis by simp
      next
        case other
        from lexed_unexpected [OF token(2)] obtain j' where u: "XJSON_UnexpectedToken j1 = (j', False)" "lex_fail d ?j j'" by blast
        from failed [OF u(2)] u(1) L(4) other show ?thesis by (auto simp: give_def)
      qed
    qed
    then obtain j2 M2 ok where R: "(if tok j1 = XJSON_TOKEN_LCURLY then Parse_root fuel False j1 M else if tok j1 = XJSON_TOKEN_LSQUARE then Parse_root fuel True j1 M
          else Some (give M (XJSON_UnexpectedToken j1))) = Some (j2, M2, ok)" "root_out d M j2 M2 ok" by blast
    from Parse_end_sound [OF R(2)] show ?thesis unfolding XJSON_Parse_end using token(1) R(1) by simp
  qed
qed

end
