(* ===== verification/JsonComplete.thy ===== *)
theory JsonComplete
  imports JsonSound
begin

text \<open>
  The parser accepts every text of the grammar whose objects have distinct names, and builds the value the
  text denotes, when no request for memory is refused. The proofs follow the derivation of the text.
\<close>

section \<open>Completeness\<close>

text \<open>What may come after an item.\<close>

definition item_follow :: "byte list \<Rightarrow> bool" where
  "item_follow rest \<longleftrightarrow> rest \<noteq> [] \<and> (is_ws (hd rest) \<or> hd rest \<in> {44, 93, 125})"

lemma item_follow_token: "item_follow rest \<Longrightarrow> XJSON_GetItemType t \<noteq> XJSON_TYPE_INVALID \<Longrightarrow> token_follow t rest"
  by (cases t) (auto simp: item_follow_def token_follow_def is_ws_def is_digit_def XJSON_IsAlphabet_def)

lemma item_follow_ws: "list_all is_ws s \<Longrightarrow> item_follow r \<Longrightarrow> item_follow (s @ r)"
  by (cases s) (auto simp: item_follow_def)

lemma item_follow_close [simp]: "item_follow (close_char isarr # r)" "item_follow (44 # r)"
  by (auto simp: item_follow_def)

definition items_done :: "byte list \<Rightarrow> nat \<Rightarrow> bool \<Rightarrow> byte list \<Rightarrow> (byte list option \<times> jval) list \<Rightarrow> parse_fn \<Rightarrow> bool" where
  "items_done d n isarr u ys f \<longleftrightarrow> (\<forall>j M a nm xs F rest. room d n j xs \<longrightarrow> cont M a nm isarr xs F \<longrightarrow> \<not> scarce M \<longrightarrow> keys_ok isarr (xs @ ys) \<longrightarrow>
     drop (js_nOffset j) d = u @ close_char isarr # rest \<longrightarrow>
     (\<exists>j' M' F'. f j M a = Some (j', M', True) \<and> lex_ok d j' \<and> js_nOffset j' = js_nOffset j + length u \<and> js_pRootObj j' = js_pRootObj j \<and>
        grew M a nm isarr xs F M' ys F'))"

text \<open>Reading a token that is there.\<close>

lemma token_there:
  assumes "lex_ok d j" "drop (js_nOffset j) d = s @ w @ rest" "list_all is_ws s" "token_text t w" "token_follow t rest"
  shows "\<exists>j'. XJSON_GetNextToken j = Some (j', True) \<and> lexed_at d j j' t s w rest"
  using GetNextToken_complete [OF assms] assms by (auto simp: lexed_at_def)

lemma close_there:
  assumes j: "lex_ok d j" and s: "drop (js_nOffset j) d = s @ close_char isarr # rest" "list_all is_ws s"
  shows "\<exists>j1 j'. XJSON_GetNextToken j = Some (j1, True) \<and> tok j1 = close_tok isarr \<and> XJSON_UndoLastToken j1 = (j', True) \<and> lex_ok d j' \<and>
    js_nOffset j' = js_nOffset j + length s \<and> js_pRootObj j' = js_pRootObj j"
proof -
  have "drop (js_nOffset j) d = s @ [close_char isarr] @ rest" using s by simp
  from token_there [OF j this s(2) close_char_token(1,4)] obtain j1 where
    g: "XJSON_GetNextToken j = Some (j1, True)" "lexed_at d j j1 (close_tok isarr) s [close_char isarr] rest" by blast
  have "close_tok isarr \<in> {XJSON_TOKEN_RCURLY, XJSON_TOKEN_RSQUARE}" by (simp add: close_tok_def)
  from lexed_undo [OF g(2) this] lexed_atD [OF g(2)] g(1) show ?thesis by auto
qed

lemma empty_done: "list_all is_ws u \<Longrightarrow> items_done d (Suc n) isarr u [] (json_next (Suc n) isarr True)"
  unfolding items_done_def
proof (intro allI impI)
  fix j M a nm xs F rest
  assume u: "list_all is_ws u" and r: "room d (Suc n) j xs" and c: "cont M a nm isarr xs F" and s: "drop (js_nOffset j) d = u @ close_char isarr # rest"
  have j: "lex_ok d j" using r by (simp add: room_def)
  from c have "grew M a nm isarr xs F M [] F" by (auto simp: cont_def intro: grew_refl)
  with close_there [OF j s u] show "\<exists>j' M' F'. json_next (Suc n) isarr True j M a = Some (j', M', True) \<and> lex_ok d j' \<and>
      js_nOffset j' = js_nOffset j + length u \<and> js_pRootObj j' = js_pRootObj j \<and> grew M a nm isarr xs F M' [] F'"
    by (cases isarr) (auto simp: XJSON_ParseArrayNext_def XJSON_ParseObjectNext_def close_toks give_def)
qed

lemma empty_always: "list_all is_ws u \<Longrightarrow> items_done d n isarr u [] (json_next n isarr True)"
  using empty_done [of u d _ isarr] by (cases n) (simp_all add: items_done_def room_def)

lemma parse_new_done:
  assumes l: "lexed_at d j0 j t s [open_char b] (u @ close_char b # rest)" and c: "cont M a nm isarr xs F"
    and k: "k = None \<longleftrightarrow> isarr" and r: "length xs < 2 ^ 27" "length d < 2 ^ 27" "length d - js_nOffset j < n"
    and f: "items_done d n b u ys f" and keys: "keys_ok b ys" "keys_ok isarr (xs @ [(k, items_value b ys)])" and mem: "\<not> scarce M"
  shows "\<exists>j' M' F'. parse_new b f j M a k = Some (j', M', True) \<and> lex_ok d j' \<and> js_nOffset j' = js_nOffset j + length u + 1 \<and>
    js_pRootObj j' = js_pRootObj j \<and> grew M a nm isarr xs F M' [(k, items_value b ys)] F'"
proof -
  note L = lexed_atD [OF l]
  from c have C: "jm_wf M" "\<forall>t n. jm_grow M t n" by (auto simp: cont_def)
  from new_cont_made [OF C(1), of b k] mem obtain M1 y where n: "new_cont b M k = Some (M1, Some y)" and
    N: "jm_wf M1" "jm_heap M y = None" "jm_step M {y} M1" "rep (jm_heap M1) y k (items_value b []) {y}" "fixed_members M1 y"
    by (auto simp: made_def split: option.splits)
  have cy: "cont M1 y k b [] {y}" using N C(2) by (auto simp: cont_def jm_step_def keys_ok_def)
  have rm: "room d n j []" using L(1) r by (simp add: room_def)
  have mem1: "\<not> scarce M1" using scarce_step [OF N(3)] mem by simp
  from f rm cy mem1 keys(1) L(2) obtain j2 M2 G where
    p2: "f j M1 y = Some (j2, M2, True)" "lex_ok d j2" "js_nOffset j2 = js_nOffset j + length u" "js_pRootObj j2 = js_pRootObj j"
      and G: "grew M1 y k b [] {y} M2 ys G" unfolding items_done_def by (metis append_Nil)
  have gN: "\<forall>x \<in> G. jm_heap M x = None" using G N(2,3) by (auto simp: grew_def jm_step_def)
  have M2: "jm_wf M2" "jm_step M G M2" "rep (jm_heap M2) y k (items_value b ys) G" using G N(3) by (auto simp: grew_def jm_step_def)
  from put_new_grew [OF c M2(1,2) gN M2(3) k r(1), of j2] keys(2) mem obtain M3 F' where
    P: "put_new j2 M2 a y = Some (j2\<lparr>js_nError := XJSON_ERR_NONE\<rparr>, M3, True)" "grew M a nm isarr xs F M3 [(k, items_value b ys)] F'"
    by (auto simp: put_ok_def split: if_splits)
  let ?j3 = "j2\<lparr>js_nError := XJSON_ERR_NONE\<rparr>"
  have "drop (js_nOffset ?j3) d = close_char b # rest" using drop_split [OF L(2,8)] p2(3) by simp
  from expect_close [OF _ this] p2(2) obtain j4 where E: "XJSON_Expect ?j3 (close_tok b) = Some (j4, True)" "lex_ok d j4"
    "js_nOffset j4 = Suc (js_nOffset j2)" "js_pRootObj j4 = js_pRootObj j2" by (auto simp: lex_ok_def)
  have "parse_new b f j M a k = Some (j4, M3, True)" using n p2(1) P(1) E(1) by (simp add: parse_new_def give_def)
  with E p2 P(2) show ?thesis by auto
qed

text \<open>A value of the text \<open>w\<close>: its first token, and what the parser does from there.\<close>

definition value_done :: "byte list \<Rightarrow> jval \<Rightarrow> bool" where
  "value_done w v \<longleftrightarrow> (\<forall>d n jb s rest M a nm isarr xs F k. lex_ok d jb \<longrightarrow> drop (js_nOffset jb) d = s @ w @ rest \<longrightarrow> list_all is_ws s \<longrightarrow> item_follow rest \<longrightarrow>
     cont M a nm isarr xs F \<longrightarrow> (k = None) = isarr \<longrightarrow> keys_ok isarr (xs @ [(k, v)]) \<longrightarrow> \<not> scarce M \<longrightarrow> length xs < 2 ^ 27 \<longrightarrow> length d < 2 ^ 27 \<longrightarrow>
     length d - js_nOffset jb \<le> n \<longrightarrow>
     (\<exists>j j' M' F'. XJSON_GetNextToken jb = Some (j, True) \<and> tok j \<notin> {XJSON_TOKEN_RSQUARE, XJSON_TOKEN_RCURLY} \<and>
        parse_value (json_next n False) (json_next n True) j M a k = Some (j', M', True) \<and> lex_ok d j' \<and>
        js_nOffset j' = js_nOffset jb + length s + length w \<and> js_pRootObj j' = js_pRootObj jb \<and> grew M a nm isarr xs F M' [(k, v)] F'))"

lemma value_doneI:
  assumes "\<And>d n jb s rest M a nm isarr xs F k. lex_ok d jb \<Longrightarrow> drop (js_nOffset jb) d = s @ w @ rest \<Longrightarrow> list_all is_ws s \<Longrightarrow> item_follow rest \<Longrightarrow>
     cont M a nm isarr xs F \<Longrightarrow> (k = None) = isarr \<Longrightarrow> keys_ok isarr (xs @ [(k, v)]) \<Longrightarrow> \<not> scarce M \<Longrightarrow> length xs < 2 ^ 27 \<Longrightarrow> length d < 2 ^ 27 \<Longrightarrow>
     length d - js_nOffset jb \<le> n \<Longrightarrow>
     \<exists>j j' M' F'. XJSON_GetNextToken jb = Some (j, True) \<and> tok j \<notin> {XJSON_TOKEN_RSQUARE, XJSON_TOKEN_RCURLY} \<and>
        parse_value (json_next n False) (json_next n True) j M a k = Some (j', M', True) \<and> lex_ok d j' \<and>
        js_nOffset j' = js_nOffset jb + length s + length w \<and> js_pRootObj j' = js_pRootObj jb \<and> grew M a nm isarr xs F M' [(k, v)] F'"
  shows "value_done w v"
  unfolding value_done_def by (intro allI impI) (rule assms)

lemma item_done:
  assumes t: "token_text t w" "XJSON_GetItemType t \<noteq> XJSON_TYPE_INVALID"
  shows "value_done w (JText (XJSON_GetItemType t) (cstr (item_bytes t w)))"
proof (rule value_doneI)
  fix d n jb s rest M a nm isarr xs F k
  assume A: "lex_ok d jb" "drop (js_nOffset jb) d = s @ w @ rest" "list_all is_ws s" "item_follow rest" "cont M a nm isarr xs F" "(k = None) = isarr"
    "keys_ok isarr (xs @ [(k, JText (XJSON_GetItemType t) (cstr (item_bytes t w)))])" "\<not> scarce M" "length xs < 2 ^ 27"
  from token_there [OF A(1-3) t(1) item_follow_token [OF A(4) t(2)]] obtain j where
    g: "XJSON_GetNextToken jb = Some (j, True)" "lexed_at d jb j t s w rest" by blast
  note L = lexed_atD [OF g(2)]
  from PutItem_spec [OF g(2) t(2) A(5,6,9)] A(7,8) obtain M' F' where
    P: "XJSON_PutItem j M a k = Some (j\<lparr>js_nError := XJSON_ERR_NONE\<rparr>, M', True)"
      "grew M a nm isarr xs F M' [(k, JText (XJSON_GetItemType t) (cstr (item_bytes t w)))] F'" by (auto simp: put_ok_def split: if_splits)
  have "parse_value (json_next n False) (json_next n True) j M a k = XJSON_PutItem j M a k"
    using t(2) L(4) item_type [of j] by (simp add: parse_value_def)
  moreover have "t \<notin> {XJSON_TOKEN_RSQUARE, XJSON_TOKEN_RCURLY}" using t(2) by auto
  ultimately show "\<exists>j j' M' F'. XJSON_GetNextToken jb = Some (j, True) \<and> tok j \<notin> {XJSON_TOKEN_RSQUARE, XJSON_TOKEN_RCURLY} \<and>
        parse_value (json_next n False) (json_next n True) j M a k = Some (j', M', True) \<and> lex_ok d j' \<and>
        js_nOffset j' = js_nOffset jb + length s + length w \<and> js_pRootObj j' = js_pRootObj jb \<and>
        grew M a nm isarr xs F M' [(k, JText (XJSON_GetItemType t) (cstr (item_bytes t w)))] F'"
    using g(1) L P by (intro exI [of _ j] exI [of _ "j\<lparr>js_nError := XJSON_ERR_NONE\<rparr>"] exI [of _ M'] exI [of _ F']) (simp add: lex_ok_def)
qed

lemma container_done:
  assumes f: "\<And>d n. length d < 2 ^ 27 \<Longrightarrow> items_done d n b u ys (json_next n b True)" and keys: "keys_ok b ys"
  shows "value_done (open_char b # u @ [close_char b]) (items_value b ys)"
proof (rule value_doneI)
  fix d n jb s rest M a nm isarr xs F k
  assume A: "lex_ok d jb" "drop (js_nOffset jb) d = s @ (open_char b # u @ [close_char b]) @ rest" "list_all is_ws s" "item_follow rest"
    "cont M a nm isarr xs F" "(k = None) = isarr" "keys_ok isarr (xs @ [(k, items_value b ys)])" "\<not> scarce M" "length xs < 2 ^ 27"
    "length d < 2 ^ 27" "length d - js_nOffset jb \<le> n"
  let ?t = "if b then XJSON_TOKEN_LSQUARE else XJSON_TOKEN_LCURLY"
  have tt: "token_text ?t [open_char b]" by (simp add: token_text_def char_token_def)
  have "drop (js_nOffset jb) d = s @ [open_char b] @ u @ close_char b # rest" using A(2) by simp
  moreover have "token_follow ?t (u @ close_char b # rest)" by (simp add: token_follow_def)
  ultimately obtain j where
    g: "XJSON_GetNextToken jb = Some (j, True)" "lexed_at d jb j ?t s [open_char b] (u @ close_char b # rest)"
    using token_there [OF A(1) _ A(3) tt] by blast
  note L = lexed_atD [OF g(2)]
  have n: "length d - js_nOffset j < n" using L(8,9) A(11) by simp
  from parse_new_done [OF g(2) A(5,6,9,10) n f [OF A(10)] keys A(7,8)] obtain j' M' F' where
    P: "parse_new b (json_next n b True) j M a k = Some (j', M', True)" "lex_ok d j'" "js_nOffset j' = js_nOffset j + length u + 1"
      "js_pRootObj j' = js_pRootObj j" "grew M a nm isarr xs F M' [(k, items_value b ys)] F'" by blast
  have "parse_value (json_next n False) (json_next n True) j M a k = parse_new b (json_next n b True) j M a k"
    using L(4) by (cases b) (simp_all add: parse_value_def XJSON_TokenIsItem_def parse_new_eqs)
  then show "\<exists>j j' M' F'. XJSON_GetNextToken jb = Some (j, True) \<and> tok j \<notin> {XJSON_TOKEN_RSQUARE, XJSON_TOKEN_RCURLY} \<and>
        parse_value (json_next n False) (json_next n True) j M a k = Some (j', M', True) \<and> lex_ok d j' \<and>
        js_nOffset j' = js_nOffset jb + length s + length (open_char b # u @ [close_char b]) \<and> js_pRootObj j' = js_pRootObj jb \<and>
        grew M a nm isarr xs F M' [(k, items_value b ys)] F'"
    using g(1) L(3,4,6) P by (intro exI [of _ j] exI [of _ j'] exI [of _ M'] exI [of _ F']) (simp split: if_splits)
qed

text \<open>An item of a container with its name: the parser reads it and goes on behind it.\<close>

lemma pair_done:
  assumes v: "value_done w v" and k: "json_key isarr p k" and s1: "list_all is_ws s1" and rest: "item_follow rest"
    and j: "room d (Suc n) jb xs" "drop (js_nOffset jb) d = s1 @ p @ w @ rest" and c: "cont M a nm isarr xs F"
    and keys: "keys_ok isarr (xs @ [(k, v)])" and mem: "\<not> scarce M" and d: "length d < 2 ^ 27"
  shows "\<exists>j' M' F'. json_next (Suc n) isarr e jb M a = parse_rest (close_tok isarr) (json_next n isarr False) j' M' a \<and> lex_ok d j' \<and>
    js_nOffset j' = js_nOffset jb + length (s1 @ p @ w) \<and> js_pRootObj j' = js_pRootObj jb \<and> grew M a nm isarr xs F M' [(k, v)] F'"
proof (cases isarr)
  case True
  with k have pk: "p = []" "k = None" by (auto simp: json_key_def)
  from j True pk have J: "lex_ok d jb" "drop (js_nOffset jb) d = s1 @ w @ rest" "length xs < 2 ^ 27" "length d - js_nOffset jb \<le> n" by (auto simp: room_def)
  from v [unfolded value_done_def, rule_format, OF J(1,2) s1 rest c _ keys mem J(3) d J(4)] True pk(2)
  obtain j' j2 M' F' where "XJSON_GetNextToken jb = Some (j', True)" "tok j' \<notin> {XJSON_TOKEN_RSQUARE, XJSON_TOKEN_RCURLY}"
        "parse_value (json_next n False) (json_next n True) j' M a k = Some (j2, M', True)" "lex_ok d j2"
        "js_nOffset j2 = js_nOffset jb + length s1 + length w" "js_pRootObj j2 = js_pRootObj jb" "grew M a nm isarr xs F M' [(k, v)] F'" by auto
  with True pk show ?thesis
    by (intro exI [of _ j2] exI [of _ M'] exI [of _ F']) (simp add: XJSON_ParseArrayNext_def close_toks)
next
  case False
  with k obtain b s2 s3 where pk: "json_body b" "list_all is_ws s2" "list_all is_ws s3" "p = (34 # b @ [34]) @ s2 @ [58] @ s3" "k = Some (cstr b)"
    by (auto simp: json_key_def)
  let ?q = "34 # b @ [34]"
  from j have J: "lex_ok d jb" "length xs < 2 ^ 27" "length d - js_nOffset jb \<le> n" by (auto simp: room_def)
  have D: "drop (js_nOffset jb) d = s1 @ ?q @ s2 @ 58 # s3 @ w @ rest" using j(2) pk(4) by simp
  have "token_text XJSON_TOKEN_QUOTE ?q" using pk(1) by (simp add: token_text_def)
  from token_there [OF J(1) D s1 this] obtain j1 where
    g: "XJSON_GetNextToken jb = Some (j1, True)" "lexed_at d jb j1 XJSON_TOKEN_QUOTE s1 ?q (s2 @ 58 # s3 @ w @ rest)" by (auto simp: token_follow_def)
  note L = lexed_atD [OF g(2)]
  have tb: "token_bytes j1 = Some b" using lexed_bytes [OF g(2)] by (simp add: item_bytes_def)
  have D1: "drop (js_nOffset j1) d = s2 @ [58] @ s3 @ w @ rest" using L(2) by simp
  from token_there [OF L(1) D1 pk(2), of XJSON_TOKEN_COLON] obtain j2 where
    g2: "XJSON_GetNextToken j1 = Some (j2, True)" "lexed_at d j1 j2 XJSON_TOKEN_COLON s2 [58] (s3 @ w @ rest)"
    by (auto simp: token_follow_def token_text_def char_token_def)
  note L2 = lexed_atD [OF g2(2)]
  let ?k = "jt_nLength (js_lastToken j1) + 1"
  obtain M1 got where M1: "jalloc M ?k = (M1, got)" by (cases "jalloc M ?k")
  have c1: "cont M1 a nm isarr xs F" and g1: "grew M a nm isarr xs F M1 [] F" using cont_tick [OF c, of ?k] M1 by simp_all
  have mem1: "\<not> scarce M1" using scarce_step [of M F M1] g1 mem by (auto simp: grew_def)
  have got: got using M1 mem by (auto simp: jalloc_def scarce_def)
  have le: "length d - js_nOffset j2 \<le> n" using J(3) L(9) L2(9) by simp
  from v [unfolded value_done_def, rule_format, OF L2(1,2) pk(3) rest c1 _ keys mem1 J(2) d le] False pk(5)
  obtain j3 j4 M' F' where V: "XJSON_GetNextToken j2 = Some (j3, True)" "tok j3 \<notin> {XJSON_TOKEN_RSQUARE, XJSON_TOKEN_RCURLY}"
        "parse_value (json_next n False) (json_next n True) j3 M1 a k = Some (j4, M', True)" "lex_ok d j4"
        "js_nOffset j4 = js_nOffset j2 + length s3 + length w" "js_pRootObj j4 = js_pRootObj j2" "grew M1 a nm isarr xs F M' [(k, v)] F'" by auto
  have "grew M a nm isarr xs F M' [(k, v)] F'" using grew_trans [OF g1, of M' "[(k, v)]" F'] V(7) by simp
  moreover have "json_next (Suc n) isarr e jb M a = parse_rest (close_tok isarr) (json_next n isarr False) j4 M' a"
    using False g(1) L(4) tb g2(1) L2(4) V(1-3) M1 got pk(5)
    by (simp add: XJSON_ParseObjectNext_def XJSON_ParsePair_def XJSON_Expect_def close_toks)
  moreover have "js_nOffset j4 = js_nOffset jb + length (s1 @ p @ w)" using V(5) L2(3) L(3) pk(4) by simp
  ultimately show ?thesis using V(4,6) L2(6) L(6) by auto
qed

lemma fuel_split: "room d n j xs \<Longrightarrow> \<exists>m. n = Suc m"
  by (cases n) (auto simp: room_def)

lemma one_done:
  assumes s: "list_all is_ws s1" "json_key isarr p k" "value_done w v" "list_all is_ws s2" and d: "length d < 2 ^ 27"
  shows "items_done d n isarr (s1 @ p @ w @ s2) [(k, v)] (json_next n isarr e)"
  unfolding items_done_def
proof (intro allI impI)
  fix j M a nm xs F rest
  assume r: "room d n j xs" and c: "cont M a nm isarr xs F" and mem: "\<not> scarce M" and keys: "keys_ok isarr (xs @ [(k, v)])"
    and D: "drop (js_nOffset j) d = (s1 @ p @ w @ s2) @ close_char isarr # rest"
  from fuel_split [OF r] obtain m where n: "n = Suc m" by blast
  have D': "drop (js_nOffset j) d = s1 @ p @ w @ s2 @ close_char isarr # rest" using D by simp
  from pair_done [OF s(3,2,1) item_follow_ws [OF s(4)] r [unfolded n] D' c keys mem d] obtain j1 M1 F1 where
    P: "json_next (Suc m) isarr e j M a = parse_rest (close_tok isarr) (json_next m isarr False) j1 M1 a" "lex_ok d j1"
      "js_nOffset j1 = js_nOffset j + length (s1 @ p @ w)" "js_pRootObj j1 = js_pRootObj j" "grew M a nm isarr xs F M1 [(k, v)] F1"
    by (metis item_follow_close(1))
  have jo: "js_nOffset j \<le> length d" using r by (simp add: room_def lex_ok_def)
  have "drop (js_nOffset j) d = (s1 @ p @ w) @ s2 @ close_char isarr # rest" using D' by simp
  from drop_split [OF this jo] P(3) have D1: "drop (js_nOffset j1) d = s2 @ close_char isarr # rest" by simp
  from close_there [OF P(2) D1 s(4)] P(1,3,4,5)
  show "\<exists>j' M' F'. json_next n isarr e j M a = Some (j', M', True) \<and> lex_ok d j' \<and> js_nOffset j' = js_nOffset j + length (s1 @ p @ w @ s2) \<and>
      js_pRootObj j' = js_pRootObj j \<and> grew M a nm isarr xs F M' [(k, v)] F'"
    unfolding n by (cases isarr) (auto simp: parse_rest_def give_def close_toks)
qed

lemma more_done:
  assumes s: "list_all is_ws s1" "json_key isarr p k" "value_done w v" "list_all is_ws s2" and d: "length d < 2 ^ 27" and k: "k = None \<longleftrightarrow> isarr"
    and more: "\<And>n. items_done d n isarr u ys (json_next n isarr False)"
  shows "items_done d n isarr (s1 @ p @ w @ s2 @ 44 # u) ((k, v) # ys) (json_next n isarr e)"
  unfolding items_done_def
proof (intro allI impI)
  fix j M a nm xs F rest
  assume r: "room d n j xs" and c: "cont M a nm isarr xs F" and mem: "\<not> scarce M" and keys: "keys_ok isarr (xs @ (k, v) # ys)"
    and D: "drop (js_nOffset j) d = (s1 @ p @ w @ s2 @ 44 # u) @ close_char isarr # rest"
  from fuel_split [OF r] obtain m where n: "n = Suc m" by blast
  have keys1: "keys_ok isarr (xs @ [(k, v)])" using keys by (auto simp: keys_ok_def)
  have D': "drop (js_nOffset j) d = s1 @ p @ w @ s2 @ 44 # u @ close_char isarr # rest" using D by simp
  from pair_done [OF s(3,2,1) item_follow_ws [OF s(4)] r [unfolded n] D' c keys1 mem d] obtain j1 M1 F1 where
    P: "json_next (Suc m) isarr e j M a = parse_rest (close_tok isarr) (json_next m isarr False) j1 M1 a" "lex_ok d j1"
      "js_nOffset j1 = js_nOffset j + length (s1 @ p @ w)" "js_pRootObj j1 = js_pRootObj j" "grew M a nm isarr xs F M1 [(k, v)] F1"
    by (metis item_follow_close(2))
  have jo: "js_nOffset j \<le> length d" using r by (simp add: room_def lex_ok_def)
  have "drop (js_nOffset j) d = (s1 @ p @ w) @ s2 @ 44 # u @ close_char isarr # rest" using D' by simp
  from drop_split [OF this jo] P(3) have D1: "drop (js_nOffset j1) d = s2 @ [44] @ u @ close_char isarr # rest" by simp
  have "token_text XJSON_TOKEN_COMMA [44]" by (simp add: token_text_def char_token_def)
  from token_there [OF P(2) D1 s(4) this] obtain j2 where
    g: "XJSON_GetNextToken j1 = Some (j2, True)" "lexed_at d j1 j2 XJSON_TOKEN_COMMA s2 [44] (u @ close_char isarr # rest)" by (auto simp: token_follow_def)
  note L = lexed_atD [OF g(2)]
  have rm: "room d m j2 (xs @ [(k, v)])" using r n L(1,3,8) P(3) by (auto simp: room_def)
  have mem1: "\<not> scarce M1" using scarce_step [of M F1 M1] P(5) mem by (auto simp: grew_def)
  from more [of m, unfolded items_done_def, rule_format, OF rm grew_cont [OF c P(5) keys1] mem1 _ L(2)] keys obtain j3 M3 F3 where
    Q: "json_next m isarr False j2 M1 a = Some (j3, M3, True)" "lex_ok d j3" "js_nOffset j3 = js_nOffset j2 + length u" "js_pRootObj j3 = js_pRootObj j2"
      "grew M1 a nm isarr (xs @ [(k, v)]) F1 M3 ys F3" by auto
  have "grew M a nm isarr xs F M3 ((k, v) # ys) F3" using grew_trans [OF P(5) Q(5)] by simp
  moreover have "json_next n isarr e j M a = Some (j3, M3, True)" using n P(1) g(1) L(4) Q(1) by (simp add: parse_rest_def)
  ultimately show "\<exists>j' M' F'. json_next n isarr e j M a = Some (j', M', True) \<and> lex_ok d j' \<and>
      js_nOffset j' = js_nOffset j + length (s1 @ p @ w @ s2 @ 44 # u) \<and> js_pRootObj j' = js_pRootObj j \<and> grew M a nm isarr xs F M' ((k, v) # ys) F'"
    using Q(2-4) L(3,6) P(3,4) by (intro exI [of _ j3] exI [of _ M3] exI [of _ F3]) simp
qed

lemma json_done:
  "json_text w v \<Longrightarrow> value_done w v"
  "json_items isarr u ys \<Longrightarrow> (\<forall>x \<in> set ys. fst x = None \<longleftrightarrow> isarr) \<Longrightarrow> length d < 2 ^ 27 \<Longrightarrow> items_done d n isarr u ys (json_next n isarr e)"
proof (induction arbitrary: and d n e rule: json_text_json_items.inducts)
  case (text_item t w)
  then show ?case by (rule item_done)
next
  case (text_empty s isarr)
  show ?case by (rule container_done) (simp_all add: keys_ok_def empty_always [OF text_empty])
next
  case (text_items isarr w xs)
  then show ?case by (intro container_done) (auto simp: keys_ok_def)
next
  case (items_one s1 isarr p k w v s2)
  then show ?case by (intro one_done)
next
  case (items_more s1 isarr p k w v s2 ws xs)
  then show ?case by (intro more_done) auto
qed

text \<open>The whole text.\<close>

lemma Parse_root_done:
  assumes l: "lexed_at d j0 j t s [open_char b] (u @ close_char b # rest)" and d: "length d < 2 ^ 27" "length d < fuel"
    and M: "jm_wf M" "\<not> scarce M" and u: "items_done d fuel b u ys (json_next fuel b True)" "keys_ok b ys"
  shows "\<exists>j' M' a F. Parse_root fuel b j M = Some (j', M', True) \<and> lex_ok d j' \<and> drop (js_nOffset j') d = rest \<and> js_pRootObj j' = Some a \<and>
    rep (jm_heap M') a None (items_value b ys) F"
proof -
  note L = lexed_atD [OF l]
  from new_cont_made [OF M(1), of b None] M(2) obtain M1 y where n: "new_cont b M None = Some (M1, Some y)" and
    N: "jm_wf M1" "jm_step M {y} M1" "rep (jm_heap M1) y None (items_value b []) {y}" "fixed_members M1 y"
    by (auto simp: made_def split: option.splits)
  let ?j = "j\<lparr>js_pRootObj := Some y\<rparr>"
  have cy: "cont M1 y None b [] {y}" using N M(2) by (auto simp: cont_def jm_step_def keys_ok_def scarce_def)
  have rm: "room d fuel ?j []" using L(1) d by (auto simp: room_def lex_ok_def)
  have mem1: "\<not> scarce M1" using scarce_step [OF N(2)] M(2) by simp
  have D: "drop (js_nOffset ?j) d = u @ close_char b # rest" using L(2) by simp
  from u(1) [unfolded items_done_def, rule_format, OF rm cy mem1 _ D] u(2) obtain j2 M2 G where
    p2: "json_next fuel b True ?j M1 y = Some (j2, M2, True)" "lex_ok d j2" "js_nOffset j2 = js_nOffset j + length u" "js_pRootObj j2 = Some y"
      "grew M1 y None b [] {y} M2 ys G" by auto
  have "drop (js_nOffset j2) d = close_char b # rest" using drop_split [OF L(2,8)] p2(3) by simp
  from expect_close [OF p2(2) this] obtain j4 where E: "XJSON_Expect j2 (close_tok b) = Some (j4, True)" "lex_ok d j4"
    "js_pRootObj j4 = js_pRootObj j2" "drop (js_nOffset j4) d = rest" by auto
  have "Parse_root fuel b j M = Some (j4, M2, True)" using n p2(1) E(1) by (simp add: Parse_root_def parse_root_def give_def)
  moreover have "rep (jm_heap M2) y None (items_value b ys) G" using p2(5) by (simp add: grew_def)
  ultimately show ?thesis using E p2(4) by auto
qed

lemma json_container:
  assumes "json_text w v" "is_container v"
  obtains b u ys where "w = open_char b # u @ [close_char b]" "v = items_value b ys" "keys_ok b ys"
    "\<And>d n. length d < 2 ^ 27 \<Longrightarrow> items_done d n b u ys (json_next n b True)"
  using assms(1)
proof (cases rule: json_text.cases)
  case (text_item t)
  with assms(2) show ?thesis by (auto simp: is_container_def items_value_def split: if_splits)
next
  case (text_empty s isarr)
  show ?thesis
    by (rule that [OF text_empty(1,2)]) (simp_all add: keys_ok_def empty_always [OF text_empty(3)])
next
  case (text_items isarr u xs)
  from text_items(4) have "\<forall>x \<in> set xs. fst x = None \<longleftrightarrow> isarr" by (simp add: keys_ok_def)
  from that [OF text_items(1,2,4)] json_done(2) [OF text_items(3) this] show ?thesis by blast
qed

lemma XJSON_Parse_complete:
  assumes w: "json_text w v" "is_container v" and s: "list_all is_ws s1" "list_all is_ws s2" and d: "d = s1 @ w @ s2" "length d < 2 ^ 27" "length d < fuel"
    and M: "jm_wf M" "\<not> scarce M"
  shows "\<exists>j' M' a F. XJSON_Parse fuel j M (Some d) (length d) = Some (j', M', True) \<and> js_pRootObj j' = Some a \<and> rep (jm_heap M') a None v F"
proof -
  from json_container [OF w] obtain b u ys where
    W: "w = open_char b # u @ [close_char b]" "v = items_value b ys" "keys_ok b ys"
      "\<And>d n. length d < 2 ^ 27 \<Longrightarrow> items_done d n b u ys (json_next n b True)" by blast
  let ?j = "(XJSON_Init j)\<lparr>js_nError := XJSON_ERR_NONE, js_nDataSize := length d, js_pData := Some d, js_nOffset := 0\<rparr>"
  let ?t = "if b then XJSON_TOKEN_LSQUARE else XJSON_TOKEN_LCURLY"
  have lx: "lex_ok d ?j" using d(2) by (simp add: lex_ok_def)
  have D: "drop (js_nOffset ?j) d = s1 @ [open_char b] @ u @ close_char b # s2" using d(1) W(1) by simp
  have tt: "token_text ?t [open_char b]" "token_follow ?t (u @ close_char b # s2)" by (simp_all add: token_text_def char_token_def token_follow_def)
  from token_there [OF lx D s(1) tt] obtain j1 where
    g: "XJSON_GetNextToken ?j = Some (j1, True)" "lexed_at d ?j j1 ?t s1 [open_char b] (u @ close_char b # s2)" by blast
  from Parse_root_done [OF g(2) d(2,3) M W(4) [OF d(2)] W(3)] obtain j2 M2 a F where
    P: "Parse_root fuel b j1 M = Some (j2, M2, True)" "lex_ok d j2" "drop (js_nOffset j2) d = s2" "js_pRootObj j2 = Some a"
      "rep (jm_heap M2) a None (items_value b ys) F" by blast
  from P(2) trailing_ws_spec [of "js_nDataSize j2" d "js_nOffset j2"] P(3) s(2) obtain off where
    T: "trailing_ws (js_pData j2) (js_nDataSize j2) (js_nOffset j2) = Some (off, True)" by (auto simp: lex_ok_def)
  have "Parse_end (j2, M2, True) = Some (j2\<lparr>js_nOffset := off\<rparr>, M2, True)" using T by (simp add: Parse_end_def)
  then have "XJSON_Parse fuel j M (Some d) (length d) = Some (j2\<lparr>js_nOffset := off\<rparr>, M2, True)"
    unfolding XJSON_Parse_end using g(1) lexed_atD(4) [OF g(2)] P(1) by (cases b) simp_all
  with P(4,5) W(2) show ?thesis by auto
qed

section \<open>What the parser promises\<close>

definition blank_json :: xjson where
  "blank_json = \<lparr>js_lastToken = \<lparr>jt_nType = XJSON_TOKEN_INVALID, jt_pData = None, jt_nLength = 0\<rparr>, js_nError = XJSON_ERR_NONE,
     js_pRootObj = None, js_pData = None, js_nDataSize = 0, js_nOffset = 0\<rparr>"

definition ample :: jmem where
  "ample = \<lparr>jm_ok = \<lambda>_ _. True, jm_grow = \<lambda>_ _. True, jm_tick = 0, jm_heap = Map.empty\<rparr>"

lemma ample_ok: "jm_wf ample" "\<not> scarce ample" "jm_grow ample t n"
  by (simp_all add: ample_def jm_wf_def scarce_def)

text \<open>The text \<open>[1]\<close>.\<close>

lemma one_text: "json_text [91, 49, 93] (JArr [JText XJSON_TYPE_NUMBER [49]])" "is_container (JArr [JText XJSON_TYPE_NUMBER [49]])"
proof -
  have "json_int [49]" "json_frac []" "json_exp []" by (simp_all add: json_int_def json_frac_def json_exp_def json_digits_def is_digit_def)
  then have "json_number False [49]" unfolding json_number_def by (intro exI [of _ "[]"] exI [of _ "[49]"]) simp
  then have n: "token_text XJSON_TOKEN_INTEGER [49]" by (simp add: token_text_def)
  have "json_text [49] (JText XJSON_TYPE_NUMBER [49])" using text_item [OF n] by (simp add: item_bytes_def cstr_def)
  from items_one [of "[]" True "[]" None, OF _ _ this, of "[]"] have "json_items True [49] [(None, JText XJSON_TYPE_NUMBER [49])]"
    by (simp add: json_key_def)
  from text_items [OF this] show "json_text [91, 49, 93] (JArr [JText XJSON_TYPE_NUMBER [49]])" by (simp add: keys_ok_def items_value_def)
  show "is_container (JArr [JText XJSON_TYPE_NUMBER [49]])"
    unfolding is_container_def by (intro exI [of _ True] exI [of _ "[(None, JText XJSON_TYPE_NUMBER [49])]"]) (simp add: items_value_def)
qed

text \<open>
  C4: The lexical analyser. In any text and from any position it stays in bounds. What it reports as a token is
  the text of one of the grammar after white space; if it reports none, the error is set. A token that is
  there, and is not continued by what follows it, is the one it reports.
\<close>

theorem json_lexer:
  assumes "lex_ok d j"
  shows "\<exists>j' ok. XJSON_GetNextToken j = Some (j', ok) \<and>
    (if ok then \<exists>t s w rest. drop (js_nOffset j) d = s @ w @ rest \<and> list_all is_ws s \<and> token_text t w \<and> j' = lexed j t (length s) (length w)
     else js_nError j' \<in> {XJSON_ERR_BOUNDS, XJSON_ERR_UNEXPECTED} \<and> js_pRootObj j' = js_pRootObj j) \<and>
    (\<forall>t s w rest. drop (js_nOffset j) d = s @ w @ rest \<longrightarrow> list_all is_ws s \<longrightarrow> token_text t w \<longrightarrow> token_follow t rest \<longrightarrow>
       ok \<and> j' = lexed j t (length s) (length w))"
  using GetNextToken_sound [OF assms] GetNextToken_complete [OF assms] by (fastforce simp: lex_fail_def split: if_splits)

lemma json_lexer_witness:
  "\<exists>j' ok. XJSON_GetNextToken (blank_json\<lparr>js_pData := Some [32, 91, 93], js_nDataSize := 3\<rparr>) = Some (j', ok)"
  using json_lexer [of "[32, 91, 93]" "blank_json\<lparr>js_pData := Some [32, 91, 93], js_nDataSize := 3\<rparr>"]
  by (auto simp: lex_ok_def blank_json_def)

text \<open>
  C1: \<open>XJSON_Parse\<close> on any bytes (below 2^27), with any memory in which the pointer table of an array can grow:
  it returns, and no access is out of bounds. If it succeeds, the input is a JSON text, with an object
  or array at its root, whose objects name no member twice, and the heap holds exactly one new tree
  that stands for its value. If it fails, the heap is what it was before, no object leaks and none is released
  twice, and an error is set unless the input has a byte NUL or 255.
\<close>

theorem json_parse_sound:
  assumes "length d < 2 ^ 27" "length d < fuel" "jm_wf M" "\<And>t n. jm_grow M t n"
  shows "\<exists>j' M' ok. XJSON_Parse fuel j M (Some d) (length d) = Some (j', M', ok) \<and>
    (if ok then \<exists>s1 w s2 v a F. d = s1 @ w @ s2 \<and> list_all is_ws s1 \<and> list_all is_ws s2 \<and> json_text w v \<and> is_container v \<and>
         js_pRootObj j' = Some a \<and> rep (jm_heap M') a None v F \<and> (\<forall>x \<in> F. jm_heap M x = None) \<and> (\<forall>x. x \<notin> F \<longrightarrow> jm_heap M' x = jm_heap M x)
     else js_pRootObj j' = None \<and> jm_heap M' = jm_heap M \<and> (js_nError j' \<noteq> XJSON_ERR_NONE \<or> 0 \<in> set d \<or> 255 \<in> set d))"
  using XJSON_Parse_sound [OF assms(1-3), of j] assms(4) unfolding parsed_def err_ok_def by blast

lemma json_parse_sound_witness:
  "\<exists>j' M' ok. XJSON_Parse 9 blank_json ample (Some [123, 0]) (length [123, 0 :: byte]) = Some (j', M', ok) \<and> (\<not> ok \<longrightarrow> jm_heap M' = jm_heap ample)"
proof -
  have "length [123, 0 :: byte] < 2 ^ 27" "length [123, 0 :: byte] < 9" by simp_all
  from json_parse_sound [OF this ample_ok(1,3), of blank_json] show ?thesis by (auto simp del: list.size split: if_splits)
qed

text \<open>
  C2: When no request for memory is refused, \<open>XJSON_Parse\<close> succeeds exactly for the texts of the grammar, and what it builds
  stands for every value the grammar gives the text.
\<close>

theorem json_parse_exact:
  assumes "length d < 2 ^ 27" "length d < fuel" "jm_wf M" "\<not> scarce M"
  shows "((\<exists>j' M'. XJSON_Parse fuel j M (Some d) (length d) = Some (j', M', True)) \<longleftrightarrow>
      (\<exists>s1 w s2 v. d = s1 @ w @ s2 \<and> list_all is_ws s1 \<and> list_all is_ws s2 \<and> json_text w v \<and> is_container v)) \<and>
    (\<forall>s1 w s2 v. d = s1 @ w @ s2 \<longrightarrow> list_all is_ws s1 \<longrightarrow> list_all is_ws s2 \<longrightarrow> json_text w v \<longrightarrow> is_container v \<longrightarrow>
      (\<exists>j' M' a F. XJSON_Parse fuel j M (Some d) (length d) = Some (j', M', True) \<and> js_pRootObj j' = Some a \<and> rep (jm_heap M') a None v F))"
proof -
  have g: "\<forall>t n. jm_grow M t n" using assms(4) by (simp add: scarce_def)
  from XJSON_Parse_sound [OF assms(1-3) g, of j] have A: "\<exists>s1 w s2 v. d = s1 @ w @ s2 \<and> list_all is_ws s1 \<and> list_all is_ws s2 \<and> json_text w v \<and> is_container v"
    if "XJSON_Parse fuel j M (Some d) (length d) = Some (j', M', True)" for j' M'
    using that unfolding parsed_def by (auto split: if_splits)
  have B: "\<exists>j' M' a F. XJSON_Parse fuel j M (Some d) (length d) = Some (j', M', True) \<and> js_pRootObj j' = Some a \<and> rep (jm_heap M') a None v F"
    if "d = s1 @ w @ s2" "list_all is_ws s1" "list_all is_ws s2" "json_text w v" "is_container v" for s1 w s2 v
    by (rule XJSON_Parse_complete [OF that(4,5,2,3,1) assms])
  from A B show ?thesis by blast
qed

lemma json_parse_exact_witness:
  "\<exists>j' M' a F. XJSON_Parse 9 blank_json ample (Some [91, 49, 93]) (length [91, 49, 93 :: byte]) = Some (j', M', True) \<and> js_pRootObj j' = Some a \<and>
     rep (jm_heap M') a None (JArr [JText XJSON_TYPE_NUMBER [49]]) F"
  using conjunct2 [OF json_parse_exact [of "[91, 49, 93]" 9 ample blank_json], rule_format, of "[]" "[91, 49, 93]" "[]"] one_text ample_ok by simp

text \<open>An array that is full, when its table cannot grow: the new entry is released with the object in it.\<close>

lemma AddObject_full:
  assumes M: "jm_wf M" and dst: "jm_heap M dst = Some ob" "ob_nType ob = XJSON_TYPE_ARRAY" "ob_pData ob = Arr r" "arr_ok r" "ar_rep r xs"
    and full: "ar_nUsed r = ar_nSize r" "jm_ok M (jm_tick M) 24" "\<not> jm_grow M (jm_tick M + 1) (16 * ar_nSize r)"
    and src: "rep (jm_heap M) src None v G" "dst \<notin> G"
  shows "\<exists>M'. XJSON_AddObject M (Some dst) (Some src) = Some (M', XJSON_ERR_ALLOC) \<and> (\<forall>x \<in> G. jm_heap M' x = None)"
proof -
  let ?t = "jm_tick M" and ?M = "M\<lparr>jm_tick := jm_tick M + 2\<rparr>"
  let ?r = "XArray_ClearData (r\<lparr>ar_eStatus := XARRAY_STATUS_NO_MEMORY\<rparr>) (Some (arr_entry src))"
  let ?S = "store ?M dst (ob\<lparr>ob_pData := Arr ?r\<rparr>)"
  from src obtain sb where S: "jm_heap M src = Some sb" "ob_pName sb = None" by (cases rule: rep.cases) auto
  have r: "ar_clearCb r" "\<not> ar_nFixed r" "0 < ar_nSize r" "ar_nSize r < 2 ^ 28" using dst(4) by (simp_all add: arr_ok_def)
  obtain d where d: "ar_pData r = Some d" using dst(4) by (auto simp: arr_ok_def)
  have "cells M (?t + 1) (sz (8 * (ar_nSize r * 2))) = (None :: nat xarray_data option list option)"
    using full(3) r(4) by (simp add: cells_def mult.commute)
  with Add_at_full [OF cells_spec [of M "?t + 1"] dst(5) d r(2) full(1) r(3,4), of "arr_entry src"]
  have a: "XArray_AddData (jm_ok M ?t 24) False (cells M (?t + 1)) r (Some src) 0 = Some (?r, XARRAY_FAILURE)"
    using full(2) by (simp add: XArray_AddData_def XArray_NewData_def add_entry_def arr_entry_def)
  have wf: "jm_wf ?S" using M dst(1) by (auto simp: jm_wf_def store_def dom_def intro!: less_SucI)
  have "rep (jm_heap ?S) src None v G" by (rule rep_frame(1) [OF src(1)]) (use src(2) in \<open>auto simp: store_def\<close>)
  from FreeObject_rep [OF wf this] have fr: "XJSON_FreeObject ?S (Some src) = Some (wipe ?S G)" by simp
  have fd: "ar_freed ?r = ar_freed r @ [arr_entry src]" by (simp add: XArray_ClearData_def)
  have "XJSON_AddObject M (Some dst) (Some src) = Some (wipe ?S G, XJSON_ERR_ALLOC)"
    using dst(1-3) S a r(1) fr fd by (simp add: XJSON_AddObject_def Let_def cells_def [abs_def] XJSON_ArrayClearCb_def arr_entry_def)
  then show ?thesis by auto
qed

text \<open>
  C6: Adding to an array releases the new object when the table of the array is full and cannot grow, although it reports
  a failure; each caller then releases the object again. In the parser, and in the functions that add a new
  value to a document, that second release reads an object that is no more.
\<close>

theorem json_array_growth_double_free:
  assumes "jm_wf M" "jm_heap M dst = Some ob" "ob_nType ob = XJSON_TYPE_ARRAY" "ob_pData ob = Arr r" "arr_ok r" "ar_rep r xs"
    "ar_nUsed r = ar_nSize r" "jm_ok M (jm_tick M) 24" "\<not> jm_grow M (jm_tick M + 1) (16 * ar_nSize r)"
    "rep (jm_heap M) src None v G" "dst \<notin> G"
  shows "(\<exists>M'. XJSON_AddObject M (Some dst) (Some src) = Some (M', XJSON_ERR_ALLOC) \<and> (\<forall>x \<in> G. jm_heap M' x = None)) \<and>
    put_new j M dst src = None \<and> add_new dst (M, Some src) = None"
proof -
  from AddObject_full [OF assms] obtain M' where A: "XJSON_AddObject M (Some dst) (Some src) = Some (M', XJSON_ERR_ALLOC)" "\<forall>x \<in> G. jm_heap M' x = None" by blast
  have "jm_heap M' src = None" using A(2) rep_root [OF assms(10)] by simp
  then have "XJSON_FreeObject M' (Some src) = None" by (simp add: XJSON_FreeObject_def)
  with A show ?thesis by (auto simp: put_new_def add_new_def)
qed

definition full_array :: jmem where
  "full_array = (let ob = \<lparr>ob_nType = XJSON_TYPE_NULL, ob_nAllowUpdate = False, ob_nAllowLinter = True, ob_pName = None, ob_pData = Text []\<rparr>
     in \<lparr>jm_ok = \<lambda>_ _. True, jm_grow = \<lambda>_ _. False, jm_tick = 3,
      jm_heap = [0 \<mapsto> ob\<lparr>ob_nType := XJSON_TYPE_ARRAY, ob_pData :=
          Arr (blank_array\<lparr>ar_pData := Some [Some (arr_entry 1)], ar_clearCb := True, ar_nSize := 1, ar_nUsed := 1\<rparr>)\<rparr>, 1 \<mapsto> ob, 2 \<mapsto> ob]\<rparr>)"

lemma full_array_rep: "rep (jm_heap full_array) 2 None (JText XJSON_TYPE_NULL []) {2}"
  by (rule rep_text [of _ _ "the (jm_heap full_array 2)"]) (simp_all add: full_array_def Let_def)

lemma json_array_growth_double_free_witness: "put_new blank_json full_array 0 2 = None"
proof -
  let ?r = "blank_array\<lparr>ar_pData := Some [Some (arr_entry 1)], ar_clearCb := True, ar_nSize := 1, ar_nUsed := 1\<rparr>"
  have "jm_wf full_array" "jm_heap full_array 0 = Some (the (jm_heap full_array 0))" "ob_nType (the (jm_heap full_array 0)) = XJSON_TYPE_ARRAY"
    "ob_pData (the (jm_heap full_array 0)) = Arr ?r" "arr_ok ?r" "ar_rep ?r [Some (arr_entry 1)]" "ar_nUsed ?r = ar_nSize ?r"
    "jm_ok full_array (jm_tick full_array) 24" "\<not> jm_grow full_array (jm_tick full_array + 1) (16 * ar_nSize ?r)"
    by (auto simp: full_array_def Let_def jm_wf_def arr_ok_def ar_rep_def)
  from json_array_growth_double_free [OF this full_array_rep] show ?thesis by simp
qed

text \<open>
  C7: \<open>XJSON_FreeObject\<close> of a tree releases each of its objects exactly once, and nothing else; the fuel it is given is enough
  whatever the depth of the tree.
\<close>

theorem json_free_object:
  assumes "jm_wf M" "rep (jm_heap M) a nm v F"
  shows "\<exists>M'. XJSON_FreeObject M (Some a) = Some M' \<and> jm_wf M' \<and> (\<forall>x. jm_heap M' x = (if x \<in> F then None else jm_heap M x)) \<and> finite F \<and> a \<in> F"
  using FreeObject_rep [OF assms] rep_foot(1) [OF assms(2)] rep_root [OF assms(2)] by auto

lemma json_free_object_witness: "\<exists>M'. XJSON_FreeObject full_array (Some 2) = Some M' \<and> jm_heap M' 2 = None"
  using json_free_object [OF _ full_array_rep] by (auto simp: full_array_def Let_def jm_wf_def)

end
