(* ===== verification/JsonRound.thy ===== *)
theory JsonRound
  imports JsonWrite JsonComplete
begin

text \<open>
  What the writer of JSON guarantees: the escaped text is always the body of a string of the grammar, and a tree
  written out is a text of the grammar for the value of the tree, whatever the indentation. With the parser: a
  text that was parsed, written and parsed again has the same value.
\<close>

section \<open>Escaping\<close>

lemma escape_cases:
  obtains "XJSON_ValidEscapeLength s = 0"
  | e w where "s = 92 # e # w" "is_escape e" "XJSON_ValidEscapeLength s = 2"
  | h w where "s = 92 # 117 # h @ w" "length h = 4" "list_all is_xdigit h" "XJSON_ValidEscapeLength s = 6"
proof (cases "XJSON_ValidEscapeLength s = 0")
  case False
  then obtain c e w where s: "s = c # e # w" by (auto simp: XJSON_ValidEscapeLength_def split: list.splits)
  with False have c: "c = 92" by (auto simp: XJSON_ValidEscapeLength_def split: if_splits)
  show ?thesis
  proof (cases "is_escape e")
    case True
    with that(2) s c show ?thesis by (simp add: XJSON_ValidEscapeLength_def)
  next
    case no: False
    with False s c have "e = 117" "4 \<le> length w" "list_all is_xdigit (take 4 w)" "XJSON_ValidEscapeLength s = 6"
      by (auto simp: XJSON_ValidEscapeLength_def split: if_splits)
    with that(3) [of "take 4 w" "drop 4 w"] s c show ?thesis by simp
  qed
qed

lemma escape_loop_Nil [simp]: "escape_loop [] = []" "escaped_length [] = 0"
  by (simp_all add: escape_loop.simps escaped_length.simps)

lemma escape_loop_plain: "XJSON_ValidEscapeLength (c # w) = 0 \<Longrightarrow> escape_loop (c # w) = escape_char c @ escape_loop w"
  by (simp add: escape_loop.simps)

lemma escape_loop_two: "is_escape e \<Longrightarrow> escape_loop (92 # e # w) = 92 # e # escape_loop w"
  by (subst escape_loop.simps) (simp add: XJSON_ValidEscapeLength_def numeral_2_eq_2)

lemma valid_hex: "length h = 4 \<Longrightarrow> list_all is_xdigit h \<Longrightarrow> XJSON_ValidEscapeLength (92 # 117 # h @ w) = 6"
  by (simp add: XJSON_ValidEscapeLength_def is_escape_def)

lemma escape_loop_hex:
  assumes "length h = 4" "list_all is_xdigit h"
  shows "escape_loop (92 # 117 # h @ w) = 92 # 117 # h @ escape_loop w"
proof -
  have t: "take 6 (92 # 117 # h @ w) = 92 # 117 # h" "drop 6 (92 # 117 # h @ w) = w" using assms(1) by (simp_all add: numeral_eq_Suc)
  show ?thesis unfolding escape_loop.simps [of "92 # 117 # h @ w"] list.case valid_hex [OF assms] Let_def t by simp
qed

lemma escape_char_length: "length (escape_char c) = escape_length c"
  by (simp add: escape_char_def escape_length_def)

text \<open>The second loop writes exactly what the first has counted.\<close>

lemma escaped_length_exact: "escaped_length s = length (escape_loop s)"
proof (induction s rule: escape_loop.induct)
  case (1 s)
  show ?case
  proof (cases s)
    case (Cons c w)
    have le: "XJSON_ValidEscapeLength s \<le> length s" by (cases s rule: escape_cases) auto
    show ?thesis
    proof (cases "XJSON_ValidEscapeLength s = 0")
      case True
      with 1(2) [OF Cons refl] Cons show ?thesis
        by (subst escape_loop.simps, subst escaped_length.simps) (simp add: escape_char_length)
    next
      case False
      with 1(1) [OF Cons refl] Cons le show ?thesis
        by (subst escape_loop.simps, subst escaped_length.simps) (simp add: min_absorb2 Let_def)
    qed
  qed simp
qed

lemma EscapeString_spec: "XJSON_EscapeString M s =
    (let (M', ok) = jalloc M (length (escape_loop s) + 1) in Some (M', if ok then Some (escape_loop s) else None))"
  by (simp add: XJSON_EscapeString_def escaped_length_exact split: prod.splits)

lemma byte_below: "c < of_nat n \<Longrightarrow> n < 256 \<Longrightarrow> c \<in> of_nat ` {0..<n}" for c :: byte
  by (rule image_eqI [of _ _ "unat c"]) (auto simp: word_less_nat_alt unat_of_nat)

lemma control_hex: "\<forall>c \<in> set (map of_nat [0..<32]) :: byte set. c = 0 \<or> (let x = hex_char (drop_bit 4 c); y = hex_char (c AND 15) in
    is_xdigit x \<and> x \<noteq> 0 \<and> is_xdigit y \<and> y \<noteq> 0)"
  by code_simp

lemma escape_char_body:
  assumes "XJSON_ValidEscapeLength (c # w) = 0 \<or> c \<noteq> 92" "c \<noteq> 0" "json_body v"
  shows "json_body (escape_char c @ v)" "0 \<notin> set (escape_char c)"
proof -
  have "is_xdigit (hex_char (drop_bit 4 c)) \<and> hex_char (drop_bit 4 c) \<noteq> 0 \<and> is_xdigit (hex_char (c AND 15)) \<and> hex_char (c AND 15) \<noteq> 0" if "c < 32"
    using byte_below [of c 32] that control_hex assms(2) by (auto simp: Let_def)
  moreover have "is_xdigit 48" by (simp add: is_xdigit_def is_digit_def)
  ultimately show "json_body (escape_char c @ v)"
    using assms body_plain [of c v] body_hex [of "[48, 48, hex_char (drop_bit 4 c), hex_char (c AND 15)]" v] body_escape [of _ v]
    by (auto simp: escape_char_def is_escape_def)
  show "0 \<notin> set (escape_char c)"
    using byte_below [of c 32] control_hex assms(2) by (auto simp: escape_char_def Let_def)
qed

text \<open>Whatever the C string, its escaped text is the body of a string of the grammar.\<close>

lemma escape_loop_body: "0 \<notin> set s \<Longrightarrow> json_body (escape_loop s) \<and> 0 \<notin> set (escape_loop s)"
proof (induction s rule: escape_loop.induct)
  case (1 s)
  show ?case
  proof (cases s)
    case Nil
    then show ?thesis by (simp add: json_body.simps)
  next
    case (Cons c w)
    show ?thesis
    proof (cases s rule: escape_cases)
      case 1
      with "1.IH"(2) [OF Cons refl] "1.prems" Cons have "json_body (escape_loop w) \<and> 0 \<notin> set (escape_loop w)" by simp
      with escape_char_body [of c w "escape_loop w"] 1 Cons "1.prems" show ?thesis by (auto simp: escape_loop_plain)
    next
      case (2 e v)
      have "drop 2 s = v" "0 \<notin> set v" using 2 "1.prems" by (simp_all add: numeral_eq_Suc)
      with "1.IH"(1) [OF Cons refl] 2(3) have "json_body (escape_loop v) \<and> 0 \<notin> set (escape_loop v)" by simp
      then show ?thesis using 2 "1.prems" body_escape [of e "escape_loop v"] by (simp add: escape_loop_two)
    next
      case (3 h v)
      have "drop 6 s = v" "0 \<notin> set v" using 3 "1.prems" by (simp_all add: numeral_eq_Suc)
      with "1.IH"(1) [OF Cons refl] 3(4) have "json_body (escape_loop v) \<and> 0 \<notin> set (escape_loop v)" by simp
      then show ?thesis using 3 "1.prems" body_hex [of h "escape_loop v"] by (simp add: escape_loop_hex)
    qed
  qed
qed

text \<open>A text that is such a body already is left as it is.\<close>

lemma escape_loop_id: "json_body s \<Longrightarrow> escape_loop s = s"
proof (induction s rule: length_induct)
  case (1 s)
  note IH = "1.IH" [rule_format]
  from "1.prems" show ?case
  proof (cases rule: json_body_cases)
    case 1
    then show ?thesis by simp
  next
    case (2 c w)
    have v: "XJSON_ValidEscapeLength (c # w) = 0" using 2(4) by (simp add: XJSON_ValidEscapeLength_def split: list.splits)
    have "escape_char c = [c]" using 2 by (auto simp: escape_char_def word_le_nat_alt word_less_nat_alt)
    with IH [of w] 2 v show ?thesis by (simp add: escape_loop_plain)
  next
    case (3 e w)
    with IH [of w] show ?thesis by (simp add: escape_loop_two)
  next
    case (4 h w)
    with IH [of w] show ?thesis by (simp add: escape_loop_hex)
  qed
qed

section \<open>The buffer\<close>

text \<open>The buffer holds the text and a NUL, nothing is left over.\<close>

definition wr_rep :: "xjson_writer \<Rightarrow> byte list \<Rightarrow> bool" where
  "wr_rep W u \<longleftrightarrow> wr_pData W = Some (u @ [0]) \<and> wr_nLength W = length u \<and> wr_nAvail W = 1 \<and> wr_nSize W = length u + 1 \<and> wr_nAlloc W"

definition wr_same :: "xjson_writer \<Rightarrow> xjson_writer \<Rightarrow> bool" where
  "wr_same W W' \<longleftrightarrow> wr_nPretty W' = wr_nPretty W \<and> wr_nTabSize W' = wr_nTabSize W \<and> wr_nIndents W' = wr_nIndents W \<and> wr_format W' = wr_format W"

lemma wr_same_refl [simp]: "wr_same W W"
  by (simp add: wr_same_def)

lemma wr_same_trans: "wr_same W W1 \<Longrightarrow> wr_same W1 W2 \<Longrightarrow> wr_same W W2"
  by (simp add: wr_same_def)

text \<open>Room for \<open>n\<close> more bytes, and the text put into it.\<close>

lemma Realloc_room:
  assumes W: "wr_rep W u" and n: "0 < n" "length u + n < 2 ^ 63"
  shows "\<exists>M' W' ok. XJSON_Realloc M W n = Some (M', W', ok) \<and> jm_step M {} M' \<and> wr_same W W' \<and> (\<not> ok \<longrightarrow> scarce M) \<and>
    (ok \<longrightarrow> (\<exists>junk. length junk = n \<and> wr_pData W' = Some (u @ 0 # junk) \<and> wr_nLength W' = length u \<and> wr_nAvail W' = n + 1 \<and>
       wr_nSize W' = length u + n + 1 \<and> wr_nAlloc W'))"
proof -
  have "sz (length u + 1 + n) = length u + 1 + n" "sz (1 + n) = n + 1" using n by simp_all
  then show ?thesis using W n
    by (auto simp: XJSON_Realloc_def wr_rep_def Let_def jalloc_def jm_step_def wr_same_def scarce_def)
qed

lemma memcpy_end: "length v + length j = length j0 \<Longrightarrow> memcpy (u @ j0) (length u) v = Some (u @ v @ drop (length v) j0)"
  by (simp add: memcpy_def)

lemma put_room:
  assumes "length junk = length s"
  shows "memcpy (u @ 0 # junk) (length u) (s @ [0]) = Some (u @ s @ [0])" "poke (u @ 0 # junk) (length u) 0 = Some (u @ 0 # junk)"
    "poke (u @ s @ [0]) (length u + length s) 0 = Some (u @ s @ [0])"
  using assms by (simp_all add: memcpy_def poke_def list_update_append nth_append)

lemma AppedSpaces_spec:
  assumes W: "wr_rep W u" and n: "wr_nIndents W < 2 ^ 31" "length u < 2 ^ 62"
  shows "\<exists>M' W' ok. XJSON_AppedSpaces M W = Some (M', W', ok) \<and> jm_step M {} M' \<and> wr_same W W' \<and>
    (if ok then \<exists>s. list_all is_ws s \<and> length s < 2 ^ 31 \<and> wr_rep W' (u @ s) else scarce M)"
proof -
  let ?n = "wr_nIndents W"
  let ?M = "fst (jalloc M (sz (?n + 1)))"
  have st: "jm_step M {} ?M" by (simp add: jm_step_def)
  consider (none) "wr_nTabSize W = 0" | (refused) "wr_nTabSize W \<noteq> 0" "\<not> snd (jalloc M (sz (?n + 1)))"
    | (zero) "wr_nTabSize W \<noteq> 0" "snd (jalloc M (sz (?n + 1)))" "?n = 0" | (some) "wr_nTabSize W \<noteq> 0" "snd (jalloc M (sz (?n + 1)))" "0 < ?n"
    by blast
  then show ?thesis
  proof cases
    case none
    then have "XJSON_AppedSpaces M W = Some (M, W, True)" by (simp add: XJSON_AppedSpaces_def)
    then show ?thesis using W by (intro exI [of _ M] exI [of _ W] exI [of _ True]) (auto intro: exI [of _ "[]"])
  next
    case refused
    then have "XJSON_AppedSpaces M W = Some (?M, W, False)" by (simp add: XJSON_AppedSpaces_def case_prod_beta')
    moreover have "scarce M" using refused by (auto simp: scarce_def)
    ultimately show ?thesis using st by (intro exI [of _ ?M] exI [of _ W] exI [of _ False]) simp
  next
    case zero
    have r: "XJSON_Realloc ?M W 0 = Some (?M, W, True)" using W by (simp add: XJSON_Realloc_def wr_rep_def)
    have c: "xstrncpyf_at (u @ [0]) (length u) 1 [] = Some (u @ [0], 0)" by (simp add: xstrncpyf_at_def memcpy_def)
    have "XJSON_AppedSpaces M W = Some (?M, W\<lparr>wr_pData := Some (u @ [0]), wr_nLength := length u, wr_nAvail := 1\<rparr>, True)"
      using zero W r c n by (simp add: XJSON_AppedSpaces_def wr_rep_def case_prod_beta' sz_def)
    moreover have "wr_rep (W\<lparr>wr_pData := Some (u @ [0]), wr_nLength := length u, wr_nAvail := 1\<rparr>) (u @ [])" using W by (simp add: wr_rep_def)
    ultimately show ?thesis using st by (intro exI conjI) (assumption, assumption, simp add: wr_same_def, auto intro: exI [of _ "[]"])
  next
    case some
    from Realloc_room [OF W some(3), of ?M] n obtain M1 W1 ok where R: "XJSON_Realloc ?M W ?n = Some (M1, W1, ok)" "jm_step ?M {} M1" "wr_same W W1"
      "\<not> ok \<longrightarrow> scarce ?M" "ok \<longrightarrow> (\<exists>junk. length junk = ?n \<and> wr_pData W1 = Some (u @ 0 # junk) \<and> wr_nLength W1 = length u \<and> wr_nAvail W1 = ?n + 1 \<and>
       wr_nSize W1 = length u + ?n + 1 \<and> wr_nAlloc W1)" by fastforce
    have st1: "jm_step M {} M1" using jm_step_trans [OF st R(2)] by simp
    have big: "\<not> 2 ^ 64 \<le> ?n + 1" using n by simp
    show ?thesis
    proof (cases ok)
      case False
      with R some st1 big scarce_step [OF st] show ?thesis by (auto simp: XJSON_AppedSpaces_def case_prod_beta')
    next
      case True
      with R(5) obtain junk where J: "length junk = ?n" "wr_pData W1 = Some (u @ 0 # junk)" "wr_nLength W1 = length u" "wr_nAvail W1 = ?n + 1"
        "wr_nSize W1 = length u + ?n + 1" "wr_nAlloc W1" by blast
      let ?s = "replicate ?n (32 :: byte)"
      have f: "fmt_len ?s = ?n" using n by (simp add: fmt_len_def)
      have c: "xstrncpyf_at (u @ 0 # junk) (length u) (?n + 1) ?s = Some (u @ ?s @ [0], ?n)"
        using put_room(1) [of junk ?s u] J(1) by (simp add: xstrncpyf_at_def f Let_def)
      let ?W = "W1\<lparr>wr_pData := Some (u @ ?s @ [0]), wr_nLength := sz (length u + ?n), wr_nAvail := sz (?n + 1 + 2 ^ 64 - ?n)\<rparr>"
      have "XJSON_AppedSpaces M W = Some (M1, ?W, True)"
        using some big R(1,3) True J c by (simp add: XJSON_AppedSpaces_def case_prod_beta' wr_same_def)
      moreover have "wr_rep ?W (u @ ?s)" using J n by (simp add: wr_rep_def sz_def)
      moreover have "list_all is_ws ?s" by (simp add: list_all_iff is_ws_def)
      ultimately show ?thesis using st1 R(3) n(1) by (intro exI [of _ M1] exI [of _ ?W] exI [of _ True]) (auto simp: wr_same_def intro!: exI [of _ ?s])
    qed
  qed
qed

text \<open>What a formatted write appends: the spaces of the indentation, which are white space, and the text.\<close>

lemma WriteString_spec:
  assumes W: "wr_rep W u" and s: "s \<noteq> []" "length s < 2 ^ 31" and n: "wr_nIndents W < 2 ^ 31" "length u + 2 ^ 32 < 2 ^ 62"
  shows "\<exists>M' W' ok. XJSON_WriteString M W ind s = Some (M', W', ok) \<and> jm_step M {} M' \<and> wr_same W W' \<and>
    (if ok then \<exists>b. list_all is_ws b \<and> length b < 2 ^ 31 \<and> (\<not> ind \<longrightarrow> b = []) \<and> wr_rep W' (u @ b @ s) else scarce M)"
proof -
  have "\<exists>M1 W1 ok. (if ind then XJSON_AppedSpaces M W else Some (M, W, True)) = Some (M1, W1, ok) \<and> jm_step M {} M1 \<and> wr_same W W1 \<and>
    (if ok then \<exists>b. list_all is_ws b \<and> length b < 2 ^ 31 \<and> (\<not> ind \<longrightarrow> b = []) \<and> wr_rep W1 (u @ b) else scarce M)"
  proof (cases ind)
    case True
    have "length u < 2 ^ 62" using n(2) by simp
    from AppedSpaces_spec [OF W n(1) this, of M] obtain M1 W1 ok where "XJSON_AppedSpaces M W = Some (M1, W1, ok)" "jm_step M {} M1" "wr_same W W1"
      "if ok then \<exists>b. list_all is_ws b \<and> length b < 2 ^ 31 \<and> wr_rep W1 (u @ b) else scarce M" by blast
    with True show ?thesis by (intro exI [of _ M1] exI [of _ W1] exI [of _ ok]) (simp split: if_splits)
  next
    case False
    have "wr_rep W (u @ [])" using W by simp
    with False show ?thesis by (intro exI [of _ M] exI [of _ W] exI [of _ True]) (auto intro: exI [of _ "[]"])
  qed
  then obtain M1 W1 ok1 where A: "(if ind then XJSON_AppedSpaces M W else Some (M, W, True)) = Some (M1, W1, ok1)" "jm_step M {} M1" "wr_same W W1"
    "if ok1 then \<exists>b. list_all is_ws b \<and> length b < 2 ^ 31 \<and> (\<not> ind \<longrightarrow> b = []) \<and> wr_rep W1 (u @ b) else scarce M" by blast
  show ?thesis
  proof (cases ok1)
    case False
    with A show ?thesis by (auto simp: XJSON_WriteString_def xcheck_def)
  next
    case True
    with A(4) obtain b where b: "list_all is_ws b" "length b < 2 ^ 31" "\<not> ind \<longrightarrow> b = []" "wr_rep W1 (u @ b)" by auto
    have f: "fmt_len s = length s" "0 < length s" using s by (auto simp: fmt_len_def)
    let ?M = "fst (jalloc M1 (length s + 1))"
    have st: "jm_step M {} ?M" using A(2) by (auto simp: jm_step_def)
    have eq: "XJSON_WriteString M W ind s = (if \<not> snd (jalloc M1 (length s + 1)) then Some (?M, W1, False)
        else xcheck (XJSON_Realloc ?M W1 (length s)) (\<lambda>M W. do {
                    d \<leftarrow> wr_pData W;
                    (d, k) \<leftarrow> xstrncpys_at d (wr_nLength W) (sz (wr_nSize W + 2 ^ 64 - wr_nLength W)) s;
                    let len = sz (wr_nLength W + k);
                    d \<leftarrow> poke d len 0;
                    Some (M, W\<lparr>wr_pData := Some d, wr_nLength := len, wr_nAvail := sz (wr_nAvail W + 2 ^ 64 - k)\<rparr>, True) }))"
      unfolding XJSON_WriteString_def A(1) using True f by (simp add: xcheck_def Let_def case_prod_beta')
    show ?thesis
    proof (cases "snd (jalloc M1 (length s + 1))")
      case False
      then have "scarce M" using A(2) by (auto simp: scarce_def jm_step_def)
      with eq False st A(3) show ?thesis by auto
    next
      case ok: True
      have len: "length (u @ b) + length s < 2 ^ 63" using n(2) s(2) b(2) by simp
      from Realloc_room [OF b(4) f(2) len, of ?M] obtain M2 W2 ok2 where
        R: "XJSON_Realloc ?M W1 (length s) = Some (M2, W2, ok2)" "jm_step ?M {} M2" "wr_same W1 W2" "\<not> ok2 \<longrightarrow> scarce ?M"
          "ok2 \<longrightarrow> (\<exists>junk. length junk = length s \<and> wr_pData W2 = Some ((u @ b) @ 0 # junk) \<and> wr_nLength W2 = length (u @ b) \<and> wr_nAvail W2 = length s + 1 \<and>
             wr_nSize W2 = length (u @ b) + length s + 1 \<and> wr_nAlloc W2)" by blast
      have st2: "jm_step M {} M2" using jm_step_trans [OF st R(2)] by simp
      show ?thesis
      proof (cases ok2)
        case False
        with R(4) have "scarce M" using scarce_step [OF st] by simp
        with eq ok R(1,3) False st2 A(3) show ?thesis by (auto simp: xcheck_def wr_same_def)
      next
        case True
        with R(5) obtain junk where J: "length junk = length s" "wr_pData W2 = Some ((u @ b) @ 0 # junk)" "wr_nLength W2 = length (u @ b)"
          "wr_nAvail W2 = length s + 1" "wr_nSize W2 = length (u @ b) + length s + 1" "wr_nAlloc W2" by blast
        have a: "sz (wr_nSize W2 + 2 ^ 64 - wr_nLength W2) = length s + 1" unfolding J(3,5) using len by (subst sz_sub) auto
        note P = put_room [OF J(1), of "u @ b"]
        have c: "xstrncpys_at ((u @ b) @ 0 # junk) (length (u @ b)) (length s + 1) s = Some ((u @ b) @ s @ [0], length s)"
          unfolding xstrncpys_at_def P(2) using P(1) by (simp add: Let_def)
        let ?W = "W2\<lparr>wr_pData := Some ((u @ b) @ s @ [0]), wr_nLength := length (u @ b) + length s, wr_nAvail := 1\<rparr>"
        have "sz (length s + 1 + 2 ^ 64 - length s) = 1" using s(2) by (simp add: sz_def)
        moreover have "sz (length (u @ b) + length s) = length (u @ b) + length s" using len by simp
        ultimately have "XJSON_WriteString M W ind s = Some (M2, ?W, True)"
          unfolding eq using ok R(1) True J(2) a c P(3) J(3,4) by (simp add: xcheck_def Let_def)
        moreover have "wr_rep ?W (u @ b @ s)" using J by (simp add: wr_rep_def)
        ultimately show ?thesis using st2 A(3) R(3) b(1-3) by (intro exI [of _ M2] exI [of _ ?W] exI [of _ True]) (auto simp: wr_same_def)
      qed
    qed
  qed
qed

section \<open>Composing writes\<close>

text \<open>The heaps that differ in the flags the writer sets only.\<close>

definition same_up :: "(nat \<rightharpoonup> xjson_obj) \<Rightarrow> (nat \<rightharpoonup> xjson_obj) \<Rightarrow> bool" where
  "same_up h h' \<longleftrightarrow> (\<forall>x. map_option (ob_nAllowLinter_update (\<lambda>_. True)) (h' x) = map_option (ob_nAllowLinter_update (\<lambda>_. True)) (h x))"

lemma same_up_refl [simp]: "same_up h h"
  by (simp add: same_up_def)

lemma same_up_Some:
  assumes "same_up h h'" "h x = Some ob"
  shows "\<exists>ob'. h' x = Some ob' \<and> ob_pName ob' = ob_pName ob \<and> ob_nType ob' = ob_nType ob \<and> ob_pData ob' = ob_pData ob"
proof -
  from assms have "map_option (ob_nAllowLinter_update (\<lambda>_. True)) (h' x) = Some (ob\<lparr>ob_nAllowLinter := True\<rparr>)"
    by (simp add: same_up_def)
  then obtain ob' where "h' x = Some ob'" "ob'\<lparr>ob_nAllowLinter := True\<rparr> = ob\<lparr>ob_nAllowLinter := True\<rparr>" by auto
  moreover from this(2) have "ob_pName ob' = ob_pName ob" "ob_nType ob' = ob_nType ob" "ob_pData ob' = ob_pData ob"
    by (cases ob; cases ob'; simp)+
  ultimately show ?thesis by blast
qed

lemma same_up_store: "same_up h h' \<Longrightarrow> h' a = Some ob \<Longrightarrow> same_up h (h'(a \<mapsto> ob\<lparr>ob_nAllowLinter := b\<rparr>))"
  unfolding same_up_def by (intro allI) (drule_tac x = x in spec, auto)

text \<open>A state to write from, with \<open>L\<close> bytes to come at most; and a write that appends a text with the property \<open>Q\<close>, of
  at most \<open>N\<close> bytes, and leaves the indentation \<open>i\<close>, or fails for want of memory.\<close>

definition wready :: "(nat \<rightharpoonup> xjson_obj) \<Rightarrow> nat \<Rightarrow> jmem \<Rightarrow> xjson_writer \<Rightarrow> byte list \<Rightarrow> nat \<Rightarrow> nat \<Rightarrow> bool" where
  "wready h tab M W u i L \<longleftrightarrow> same_up h (jm_heap M) \<and> wr_rep W u \<and> \<not> wr_nPretty W \<and> wr_nTabSize W = tab \<and> wr_nIndents W = i \<and> length u + L < 2 ^ 62"

definition wrote :: "(nat \<rightharpoonup> xjson_obj) \<Rightarrow> nat \<Rightarrow> jmem \<Rightarrow> byte list \<Rightarrow> (jmem \<times> xjson_writer \<times> bool) option \<Rightarrow> nat \<Rightarrow> (byte list \<Rightarrow> bool) \<Rightarrow> nat \<Rightarrow> bool" where
  "wrote h tab M u r i Q N \<longleftrightarrow> (\<exists>M' W' ok. r = Some (M', W', ok) \<and> jm_ok M' = jm_ok M \<and> jm_grow M' = jm_grow M \<and>
     (if ok then \<exists>x. Q x \<and> length x \<le> N \<and> same_up h (jm_heap M') \<and> wr_rep W' (u @ x) \<and> \<not> wr_nPretty W' \<and> wr_nTabSize W' = tab \<and> wr_nIndents W' = i
      else scarce M))"

lemma wrote_weaken:
  assumes "wrote h tab M u r i Q N" "\<And>x. Q x \<Longrightarrow> Q' x" "N \<le> N'"
  shows "wrote h tab M u r i Q' N'"
proof -
  from assms(1) obtain M' W' ok where r: "r = Some (M', W', ok)" "jm_ok M' = jm_ok M" "jm_grow M' = jm_grow M"
    "if ok then \<exists>x. Q x \<and> length x \<le> N \<and> same_up h (jm_heap M') \<and> wr_rep W' (u @ x) \<and> \<not> wr_nPretty W' \<and> wr_nTabSize W' = tab \<and> wr_nIndents W' = i
      else scarce M" unfolding wrote_def by blast
  have "if ok then \<exists>x. Q' x \<and> length x \<le> N' \<and> same_up h (jm_heap M') \<and> wr_rep W' (u @ x) \<and> \<not> wr_nPretty W' \<and> wr_nTabSize W' = tab \<and> wr_nIndents W' = i
      else scarce M" using r(4) assms(2,3) by (cases ok) (auto intro: le_trans)
  with r show ?thesis unfolding wrote_def by blast
qed

lemma wrote_id: "wready h tab M W u i L \<Longrightarrow> wrote h tab M u (Some (M, W, True)) i (\<lambda>x. x = []) 0"
  by (auto simp: wready_def wrote_def)

lemma wrote_xcheck:
  assumes r: "wrote h tab M u r i Q N" and len: "length u + (N + N' + L) < 2 ^ 62"
    and step: "\<And>M' W' x. Q x \<Longrightarrow> wready h tab M' W' (u @ x) i (N' + L) \<Longrightarrow> wrote h tab M' (u @ x) (f M' W') i' (Q' x) N'"
  shows "wrote h tab M u (xcheck r f) i' (\<lambda>y. \<exists>x z. y = x @ z \<and> Q x \<and> Q' x z) (N + N')"
proof -
  from r obtain M' W' ok where r: "r = Some (M', W', ok)" "jm_ok M' = jm_ok M" "jm_grow M' = jm_grow M"
    "if ok then \<exists>x. Q x \<and> length x \<le> N \<and> same_up h (jm_heap M') \<and> wr_rep W' (u @ x) \<and> \<not> wr_nPretty W' \<and> wr_nTabSize W' = tab \<and> wr_nIndents W' = i
      else scarce M" unfolding wrote_def by blast
  show ?thesis
  proof (cases ok)
    case False
    with r show ?thesis by (auto simp: wrote_def xcheck_def)
  next
    case True
    with r(4) obtain x where x: "Q x" "length x \<le> N" "same_up h (jm_heap M')" "wr_rep W' (u @ x)" "\<not> wr_nPretty W'" "wr_nTabSize W' = tab" "wr_nIndents W' = i"
      by auto
    have "wready h tab M' W' (u @ x) i (N' + L)" using x len by (simp add: wready_def)
    from step [OF x(1) this] obtain M2 W2 ok2 where s: "f M' W' = Some (M2, W2, ok2)" "jm_ok M2 = jm_ok M'" "jm_grow M2 = jm_grow M'"
      "if ok2 then \<exists>z. Q' x z \<and> length z \<le> N' \<and> same_up h (jm_heap M2) \<and> wr_rep W2 ((u @ x) @ z) \<and> \<not> wr_nPretty W2 \<and> wr_nTabSize W2 = tab \<and> wr_nIndents W2 = i'
        else scarce M'" unfolding wrote_def by blast
    have eq: "xcheck r f = Some (M2, W2, ok2)" using r(1) True s(1) by (simp add: xcheck_def)
    show ?thesis
    proof (cases ok2)
      case False
      with s(4) r(2,3) have "scarce M" by (simp add: scarce_def)
      with eq s r False show ?thesis by (auto simp: wrote_def)
    next
      case True
      with s(4) obtain z where z: "Q' x z" "length z \<le> N'" "same_up h (jm_heap M2)" "wr_rep W2 ((u @ x) @ z)" "\<not> wr_nPretty W2" "wr_nTabSize W2 = tab" "wr_nIndents W2 = i'"
        by auto
      have "\<exists>y. (\<exists>x z. y = x @ z \<and> Q x \<and> Q' x z) \<and> length y \<le> N + N' \<and> same_up h (jm_heap M2) \<and> wr_rep W2 (u @ y) \<and> \<not> wr_nPretty W2 \<and> wr_nTabSize W2 = tab \<and> wr_nIndents W2 = i'"
        by (rule exI [of _ "x @ z"]) (use x(1,2) z in auto)
      with eq s(2,3) r(2,3) True show ?thesis unfolding wrote_def by auto
    qed
  qed
qed

lemma wrote_string:
  assumes "wready h tab M W u i (2 ^ 32 + L)" "s \<noteq> []" "length s < 2 ^ 31" "i < 2 ^ 31"
  shows "wrote h tab M u (XJSON_WriteString M W ind s) i (\<lambda>x. \<exists>b. list_all is_ws b \<and> (\<not> ind \<longrightarrow> b = []) \<and> x = b @ s) (2 ^ 32)"
proof -
  from assms(1) have W: "wr_rep W u" "same_up h (jm_heap M)" "\<not> wr_nPretty W" "wr_nTabSize W = tab" "wr_nIndents W = i" "length u + 2 ^ 32 < 2 ^ 62"
    by (auto simp: wready_def)
  from WriteString_spec [OF W(1) assms(2,3) _ W(6), of M ind] W(5) assms(4) obtain M' W' ok where
    R: "XJSON_WriteString M W ind s = Some (M', W', ok)" "jm_step M {} M'" "wr_same W W'"
      "if ok then \<exists>b. list_all is_ws b \<and> length b < 2 ^ 31 \<and> (\<not> ind \<longrightarrow> b = []) \<and> wr_rep W' (u @ b @ s) else scarce M" by blast
  have M': "jm_ok M' = jm_ok M" "jm_grow M' = jm_grow M" "jm_heap M' = jm_heap M" using R(2) by (auto simp: jm_step_def)
  show ?thesis
  proof (cases ok)
    case False
    with R M' show ?thesis by (auto simp: wrote_def)
  next
    case True
    with R(4) obtain b where b: "list_all is_ws b" "length b < 2 ^ 31" "\<not> ind \<longrightarrow> b = []" "wr_rep W' (u @ b @ s)" by auto
    have "\<exists>x. (\<exists>b. list_all is_ws b \<and> (\<not> ind \<longrightarrow> b = []) \<and> x = b @ s) \<and> length x \<le> 2 ^ 32 \<and> same_up h (jm_heap M') \<and> wr_rep W' (u @ x) \<and>
        \<not> wr_nPretty W' \<and> wr_nTabSize W' = tab \<and> wr_nIndents W' = i"
      by (rule exI [of _ "b @ s"]) (use b assms(3) W R(3) M' in \<open>auto simp: wr_same_def\<close>)
    with R(1) M'(1,2) True show ?thesis unfolding wrote_def by auto
  qed
qed

section \<open>Items\<close>

text \<open>Values whose texts are those of tokens, without a NUL byte, and not of unlikely length.\<close>

definition clean_text :: "byte list \<Rightarrow> bool" where
  "clean_text s \<longleftrightarrow> json_body s \<and> 0 \<notin> set s \<and> length s < 2 ^ 30"

fun clean :: "jval \<Rightarrow> bool" where
  "clean (JText t s) \<longleftrightarrow>
     (if t = XJSON_TYPE_STRING then clean_text s
      else t \<noteq> XJSON_TYPE_INVALID \<and> length s < 2 ^ 30 \<and> (\<exists>k. XJSON_GetItemType k = t \<and> token_text k s \<and> 0 \<notin> set s))"
| "clean (JArr vs) \<longleftrightarrow> (\<forall>v \<in> set vs. clean v)"
| "clean (JObj kvs) \<longleftrightarrow> (\<forall>x \<in> set kvs. clean_text (fst x) \<and> clean (snd x))"

lemma cstr_id: "0 \<notin> set s \<Longrightarrow> cstr s = s"
  unfolding cstr_def by (intro takeWhile_eq_all_conv [THEN iffD2]) auto

text \<open>The text of an item with its name.\<close>

definition item_out :: "byte list option \<Rightarrow> jval \<Rightarrow> byte list \<Rightarrow> bool" where
  "item_out nm v x \<longleftrightarrow> (\<exists>b p w. list_all is_ws b \<and> json_key (nm = None) p nm \<and> json_text w v \<and> x = b @ p @ w)"

definition name_out :: "byte list option \<Rightarrow> byte list \<Rightarrow> bool" where
  "name_out nm x \<longleftrightarrow> (\<exists>b p. list_all is_ws b \<and> json_key (nm = None) p nm \<and> x = b @ p \<and> (nm = None \<longrightarrow> x = []))"

lemma EscapeString_clean:
  "clean_text s \<Longrightarrow> XJSON_EscapeString M s = Some (fst (jalloc M (length s + 1)), if snd (jalloc M (length s + 1)) then Some s else None)"
  by (simp add: EscapeString_spec escape_loop_id clean_text_def Let_def case_prod_beta')

lemma wready_tick: "wready h tab M W u i L \<Longrightarrow> wready h tab (fst (jalloc M n)) W u i L"
  by (simp add: wready_def)

lemma wrote_tick: "wrote h tab (fst (jalloc M n)) u r i Q N \<Longrightarrow> wrote h tab M u r i Q N"
  unfolding wrote_def scarce_def jalloc_simps .

lemma wrote_mem: "jm_ok M1 = jm_ok M \<Longrightarrow> jm_grow M1 = jm_grow M \<Longrightarrow> wrote h tab M1 u r i Q N \<Longrightarrow> wrote h tab M u r i Q N"
  by (simp only: wrote_def scarce_def)

lemma wrote_refused: "\<not> snd (jalloc M n) \<Longrightarrow> wrote h tab M u (Some (fst (jalloc M n), W, False)) i Q N"
  by (auto simp: wrote_def scarce_def)

lemma name_wrote:
  assumes W: "wready h tab M W u i (2 ^ 32 + L)" "i < 2 ^ 31" and nm: "\<And>k. ob_pName ob = Some k \<Longrightarrow> clean_text k"
  shows "wrote h tab M u (XJSON_WriteName M W ob) i (name_out (ob_pName ob)) (2 ^ 32)"
proof (cases "ob_pName ob")
  case None
  have "name_out None []" by (auto simp: name_out_def json_key_def intro: exI [of _ "[]"])
  then show ?thesis using wrote_weaken [OF wrote_id [OF W(1)], of "name_out None"] None by (auto simp: XJSON_WriteName_def)
next
  case (Some k)
  note k = nm [OF Some]
  let ?j = "jalloc M (length k + 1)"
  have np: "\<not> wr_nPretty W" using W(1) by (simp add: wready_def)
  let ?t = "if wr_nTabSize W \<noteq> 0 then [32] else ([] :: byte list)"
  let ?s = "[34] @ k @ [34, 58] @ ?t"
  show ?thesis
  proof (cases "snd ?j")
    case False
    then show ?thesis using wrote_refused [of M "length k + 1"] by (simp add: XJSON_WriteName_def Some EscapeString_clean [OF k])
  next
    case True
    have "length ?s < 2 ^ 31" using k by (simp add: clean_text_def)
    from wrote_string [OF wready_tick [OF W(1)] _ this W(2), of "length k + 1" True] have
      "wrote h tab (fst ?j) u (XJSON_WriteString (fst ?j) W True ?s) i (\<lambda>x. \<exists>b. list_all is_ws b \<and> x = b @ ?s) (2 ^ 32)" by simp
    then have "wrote h tab (fst ?j) u (XJSON_WriteString (fst ?j) W True ?s) i (name_out (Some k)) (2 ^ 32)"
    proof (rule wrote_weaken)
      fix x
      assume "\<exists>b. list_all is_ws b \<and> x = b @ ?s"
      then obtain b where b: "list_all is_ws b" "x = b @ ?s" by blast
      have "json_key False ((34 # k @ [34]) @ [] @ [58] @ ?t) (Some k)"
        unfolding json_key_def if_False by (intro exI [of _ k] exI [of _ "[]"] exI [of _ ?t]) (use k in \<open>auto simp: clean_text_def cstr_id is_ws_def\<close>)
      with b show "name_out (Some k) x" unfolding name_out_def by auto
    qed simp
    from wrote_tick [OF this] show ?thesis using True np by (simp add: XJSON_WriteName_def Some EscapeString_clean [OF k])
  qed
qed

text \<open>The name, the indentation of an item without a name, and the value.\<close>

lemma name_value:
  assumes "name_out nm x" "list_all is_ws b" "nm \<noteq> None \<longrightarrow> b = []" "json_text w v"
  shows "item_out nm v (x @ b @ w)"
proof (cases nm)
  case None
  with assms show ?thesis unfolding item_out_def name_out_def by (intro exI [of _ b] exI [of _ "[]"] exI [of _ w]) (auto simp: json_key_def)
next
  case (Some k)
  with assms obtain b' p where "list_all is_ws b'" "json_key False p nm" "x = b' @ p" "b = []" by (auto simp: name_out_def)
  with Some assms(4) show ?thesis unfolding item_out_def by (intro exI [of _ b'] exI [of _ p] exI [of _ w]) auto
qed

lemma value_wrote:
  assumes W: "wready h tab M W u i (2 ^ 32 + (N + L))" "i < 2 ^ 31" and nm: "\<And>k. ob_pName ob = Some k \<Longrightarrow> clean_text k"
    and val: "\<And>M W u. wready h tab M W u i (N + L) \<Longrightarrow>
      wrote h tab M u (f M W) i (\<lambda>x. \<exists>b w v. list_all is_ws b \<and> (ob_pName ob \<noteq> None \<longrightarrow> b = []) \<and> json_text w v \<and> x = b @ w \<and> R v) N"
  shows "wrote h tab M u (xcheck (XJSON_WriteName M W ob) f) i (\<lambda>x. \<exists>v. R v \<and> item_out (ob_pName ob) v x) (2 ^ 32 + N)"
proof (rule wrote_weaken)
  have len: "length u + (2 ^ 32 + N + L) < 2 ^ 62" using W(1) by (simp add: wready_def add.assoc)
  show "wrote h tab M u (xcheck (XJSON_WriteName M W ob) f) i
      (\<lambda>y. \<exists>x z. y = x @ z \<and> name_out (ob_pName ob) x \<and> (\<exists>b w v. list_all is_ws b \<and> (ob_pName ob \<noteq> None \<longrightarrow> b = []) \<and> json_text w v \<and> z = b @ w \<and> R v)) (2 ^ 32 + N)"
    by (rule wrote_xcheck [OF name_wrote [OF W nm] len]) (assumption, rule val)
  show "\<exists>v. R v \<and> item_out (ob_pName ob) v y"
    if "\<exists>x z. y = x @ z \<and> name_out (ob_pName ob) x \<and> (\<exists>b w v. list_all is_ws b \<and> (ob_pName ob \<noteq> None \<longrightarrow> b = []) \<and> json_text w v \<and> z = b @ w \<and> R v)" for y
    using that name_value by blast
qed simp

lemma item_wrote:
  assumes W: "wready h tab M W u i (2 ^ 33 + L)" "i < 2 ^ 31" and nm: "\<And>k. ob_pName ob = Some k \<Longrightarrow> clean_text k"
    and v: "ob_pData ob = Text s" "clean (JText (ob_nType ob) s)"
  shows "wrote h tab M u (XJSON_WriteItem M W ob) i (item_out (ob_pName ob) (JText (ob_nType ob) s)) (2 ^ 33)"
proof -
  let ?t = "ob_nType ob"
  obtain k where k: "XJSON_GetItemType k = ?t" "?t \<noteq> XJSON_TYPE_INVALID" "0 \<notin> set s" "length s < 2 ^ 30"
      "token_text k (if ?t = XJSON_TYPE_STRING then [34] @ s @ [34] else s)" "item_bytes k (if ?t = XJSON_TYPE_STRING then [34] @ s @ [34] else s) = s"
  proof (cases "?t = XJSON_TYPE_STRING")
    case True
    with v(2) have "clean_text s" by simp
    with True that [of XJSON_TOKEN_QUOTE] show ?thesis by (auto simp: clean_text_def token_text_def item_bytes_def)
  next
    case False
    with v(2) obtain k where "XJSON_GetItemType k = ?t" "token_text k s" "0 \<notin> set s" by auto
    with False that [of k] v(2) show ?thesis by (cases "k = XJSON_TOKEN_QUOTE") (auto simp: item_bytes_def)
  qed
  let ?w = "if ?t = XJSON_TYPE_STRING then [34] @ s @ [34] else s"
  have tx: "json_text ?w (JText ?t s)" using text_item [OF k(5)] k(1,2,3,6) by (simp add: cstr_id)
  have ne: "?w \<noteq> []" "length ?w < 2 ^ 31" using token_length [OF k(5)] k(4) by auto
  have ty: "?t \<notin> {XJSON_TYPE_INVALID, XJSON_TYPE_OBJECT, XJSON_TYPE_ARRAY}" using k(1,2) item_scalar [of k] by auto
  have ready: "wready h tab M W u i (2 ^ 32 + (2 ^ 32 + L))" using W(1) by (simp add: wready_def)
  define f where "f = (\<lambda>M W. let F = wr_format W in
                 if ?t = XJSON_TYPE_STRING
                 then do {
                   (M, p) \<leftarrow> XJSON_EscapeString M s;
                   (case p of
                      None \<Rightarrow> Some (M, W, False)
                    | Some e \<Rightarrow> XJSON_WriteString M W (item_indent ob) ([34] @ (if wr_nPretty W then pretty (fm_pStr F) e else e) @ [34])) }
                 else XJSON_WriteString M W (item_indent ob)
                   (if wr_nPretty W
                    then pretty (if ?t = XJSON_TYPE_BOOLEAN then fm_pBool F
                                 else if ?t = XJSON_TYPE_NUMBER then fm_pNum F
                                 else if ?t = XJSON_TYPE_FLOAT then fm_pFloat F
                                 else fm_pNull F) s
                    else s))"
  have eq: "XJSON_WriteItem M W ob = xcheck (XJSON_WriteName M W ob) f" using ty v(1) by (simp add: XJSON_WriteItem_def f_def)
  have "wrote h tab M u (xcheck (XJSON_WriteName M W ob) f) i (\<lambda>x. \<exists>v. v = JText ?t s \<and> item_out (ob_pName ob) v x) (2 ^ 32 + 2 ^ 32)"
  proof (rule value_wrote [OF ready W(2) nm])
    fix M W u
    assume w: "wready h tab M W u i (2 ^ 32 + L)"
    then have np: "\<not> wr_nPretty W" by (simp add: wready_def)
    have out: "wrote h tab M u (XJSON_WriteString M W (item_indent ob) ?w) i
        (\<lambda>x. \<exists>b w v. list_all is_ws b \<and> (ob_pName ob \<noteq> None \<longrightarrow> b = []) \<and> json_text w v \<and> x = b @ w \<and> v = JText ?t s) (2 ^ 32)"
      if "wready h tab M W u i (2 ^ 32 + L)" for M
      by (rule wrote_weaken [OF wrote_string [OF that ne W(2)]]) (use tx in \<open>auto simp: item_indent_def\<close>)
    show "wrote h tab M u (f M W) i (\<lambda>x. \<exists>b w v. list_all is_ws b \<and> (ob_pName ob \<noteq> None \<longrightarrow> b = []) \<and> json_text w v \<and> x = b @ w \<and> v = JText ?t s) (2 ^ 32)"
    proof (cases "?t = XJSON_TYPE_STRING")
      case False
      then show ?thesis using out [OF w] np by (simp add: f_def)
    next
      case True
      with v(2) have c: "clean_text s" by simp
      let ?j = "jalloc M (length s + 1)"
      show ?thesis
      proof (cases "snd ?j")
        case False
        then show ?thesis using wrote_refused [of M "length s + 1"] True by (simp add: f_def EscapeString_clean [OF c])
      next
        case got: True
        from wrote_tick [OF out [OF wready_tick [OF w]]] True got np show ?thesis by (simp add: f_def EscapeString_clean [OF c])
      qed
    qed
  qed
  then show ?thesis unfolding eq by (rule wrote_weaken) auto
qed

section \<open>Containers\<close>

lemma items_pad_front:
  assumes "json_items isarr u xs" "list_all is_ws s"
  shows "json_items isarr (s @ u) xs"
  using assms(1)
proof (cases rule: json_items.cases)
  case (items_one s1 p k w v s2)
  with json_text_json_items.items_one [of "s @ s1" isarr p k w v s2] assms(2) show ?thesis by simp
next
  case (items_more s1 p k w v s2 ws ys)
  with json_text_json_items.items_more [of "s @ s1" isarr p k w v s2 ws ys] assms(2) show ?thesis by simp
qed

lemma items_pad_back: "json_items isarr u xs \<Longrightarrow> list_all is_ws s \<Longrightarrow> json_items isarr (u @ s) xs"
proof (induction xs arbitrary: u)
  case Nil
  then show ?case by (auto elim: json_items.cases)
next
  case (Cons x xs)
  from Cons.prems(1) show ?case
  proof (cases rule: json_items.cases)
    case (items_one s1 p k w v s2)
    with Cons.prems(2) json_text_json_items.items_one [of s1 isarr p k w v "s2 @ s"] show ?thesis by simp
  next
    case (items_more s1 p k w v s2 ws)
    with Cons.IH [OF items_more(7) Cons.prems(2)] json_text_json_items.items_more [of s1 isarr p k w v s2 "ws @ s" xs] show ?thesis by simp
  qed
qed

lemma newline_wrote:
  assumes "wready h tab M W u i (2 ^ 32 + L)" "i < 2 ^ 31"
  shows "wrote h tab M u (newline_if b M W) i (list_all is_ws) (2 ^ 32)"
proof (cases b)
  case True
  with wrote_string [OF assms(1) _ _ assms(2), of "[10]" False] show ?thesis by (auto simp: is_ws_def elim!: wrote_weaken)
next
  case False
  with wrote_weaken [OF wrote_id [OF assms(1)], of "list_all is_ws" "2 ^ 32"] show ?thesis by simp
qed

lemma ident_wrote:
  assumes "b \<longrightarrow> i + tab < 2 ^ 31"
  shows "wready h tab M W u i L \<Longrightarrow> wrote h tab M u (if b then let (W, ok) = XJSON_Ident W True in Some (M, W, ok) else Some (M, W, True)) (if b then i + tab else i) (\<lambda>x. x = []) 0"
    "wready h tab M W u (if b then i + tab else i) L \<Longrightarrow>
      wrote h tab M u (if b then let (W, ok) = XJSON_Ident W False in Some (M, W, ok) else Some (M, W, True)) i (\<lambda>x. x = []) 0"
proof -
  assume "wready h tab M W u i L"
  then have W: "same_up h (jm_heap M)" "wr_rep W u" "\<not> wr_nPretty W" "wr_nTabSize W = tab" "wr_nIndents W = i" by (auto simp: wready_def)
  let ?W = "W\<lparr>wr_nIndents := i + tab\<rparr>"
  have "wr_rep ?W u" using W(2) by (simp add: wr_rep_def)
  moreover have "(let (W, ok) = XJSON_Ident W True in Some (M, W, ok)) = Some (M, if tab = 0 then W else ?W, True)" if b
    using assms that W(4,5) by (simp add: XJSON_Ident_def)
  ultimately show "wrote h tab M u (if b then let (W, ok) = XJSON_Ident W True in Some (M, W, ok) else Some (M, W, True)) (if b then i + tab else i) (\<lambda>x. x = []) 0"
    using W by (cases b; cases "tab = 0") (simp_all add: wrote_def ex_bool_eq)
next
  assume "wready h tab M W u (if b then i + tab else i) L"
  then have W: "same_up h (jm_heap M)" "wr_rep W u" "\<not> wr_nPretty W" "wr_nTabSize W = tab" "wr_nIndents W = (if b then i + tab else i)" by (auto simp: wready_def)
  let ?W = "W\<lparr>wr_nIndents := i\<rparr>"
  have "wr_rep ?W u" using W(2) by (simp add: wr_rep_def)
  moreover have "(let (W, ok) = XJSON_Ident W False in Some (M, W, ok)) = Some (M, if tab = 0 then W else ?W, True)" if b
    using that W(4,5) by (simp add: XJSON_Ident_def)
  ultimately show "wrote h tab M u (if b then let (W, ok) = XJSON_Ident W False in Some (M, W, ok) else Some (M, W, True)) i (\<lambda>x. x = []) 0"
    using W by (cases b; cases "tab = 0") (simp_all add: wrote_def ex_bool_eq)
qed

text \<open>A bracket, a line and more indentation if they are asked for; the items; the other bracket.\<close>

lemma brackets_wrote:
  assumes W: "wready h tab M W u i (2 ^ 32 + (2 ^ 32 + (N + (2 ^ 32 + L))))" "i + tab < 2 ^ 31"
    and body: "\<And>M W u j L. j \<le> i + tab \<Longrightarrow> wready h tab M W u j (N + L) \<Longrightarrow>
      wrote h tab M u (body M W) j (\<lambda>x. \<exists>xs. R xs \<and> (if xs = [] then x = [] else json_items isarr x xs)) N"
    and keys: "\<And>xs. R xs \<Longrightarrow> keys_ok isarr xs"
  shows "wrote h tab M u
     (xcheck (XJSON_WriteString M W ind [open_char isarr]) (\<lambda>M W.
        let b = (wr_nTabSize W \<noteq> 0 \<and> c) in
        xcheck (if b then xcheck (XJSON_WriteString M W False [10]) (\<lambda>M W. let (W, ok) = XJSON_Ident W True in Some (M, W, ok)) else Some (M, W, True)) (\<lambda>M W.
          xcheck (body M W) (\<lambda>M W.
            xcheck (if b then let (W, ok) = XJSON_Ident W False in Some (M, W, ok) else Some (M, W, True)) (\<lambda>M W.
              XJSON_WriteString M W b [close_char isarr])))))
     i (\<lambda>x. \<exists>s w v. list_all is_ws s \<and> (\<not> ind \<longrightarrow> s = []) \<and> json_text w v \<and> x = s @ w \<and> (\<exists>xs. R xs \<and> v = items_value isarr xs))
     (2 ^ 32 + (2 ^ 32 + (N + (2 ^ 32 + 0))))"
proof -
  define b where "b \<longleftrightarrow> tab \<noteq> 0 \<and> c"
  let ?j = "if b then i + tab else i"
  have i: "i < 2 ^ 31" "?j < 2 ^ 31" "?j \<le> i + tab" using W(2) by auto
  have B: "b \<longrightarrow> i + tab < 2 ^ 31" using W(2) by simp
  let ?items = "\<lambda>x. \<exists>xs. R xs \<and> (if xs = [] then x = [] else json_items isarr x xs)"
  have last: "wrote h tab M u
      (xcheck (if b then let (W, ok) = XJSON_Ident W False in Some (M, W, ok) else Some (M, W, True)) (\<lambda>M W. XJSON_WriteString M W b [close_char isarr]))
      i (\<lambda>y. \<exists>s. list_all is_ws s \<and> y = s @ [close_char isarr]) (0 + 2 ^ 32)"
    if w: "wready h tab M W u ?j (2 ^ 32 + L)" for M W u
  proof (rule wrote_weaken [OF wrote_xcheck [where L = L, OF ident_wrote(2) [OF B w]]])
    show "length u + (0 + 2 ^ 32 + L) < 2 ^ 62" using w by (simp add: wready_def)
    show "wrote h tab M' (u @ x) (XJSON_WriteString M' W' b [close_char isarr]) i (\<lambda>z. \<exists>s. list_all is_ws s \<and> z = s @ [close_char isarr]) (2 ^ 32)"
      if "wready h tab M' W' (u @ x) i (2 ^ 32 + L)" for M' W' x
      by (rule wrote_weaken [OF wrote_string [OF that _ _ i(1)]]) auto
  qed auto
  have rest: "wrote h tab M u
      (xcheck (body M W) (\<lambda>M W.
         xcheck (if b then let (W, ok) = XJSON_Ident W False in Some (M, W, ok) else Some (M, W, True)) (\<lambda>M W. XJSON_WriteString M W b [close_char isarr])))
      i (\<lambda>y. \<exists>x s. ?items x \<and> list_all is_ws s \<and> y = x @ s @ [close_char isarr]) (N + 2 ^ 32)"
    if w: "wready h tab M W u ?j (N + (2 ^ 32 + L))" for M W u
  proof (rule wrote_weaken [OF wrote_xcheck [where L = L and N' = "2 ^ 32", OF body [OF i(3) w]]])
    show "length u + (N + 2 ^ 32 + L) < 2 ^ 62" using w by (simp add: wready_def add.assoc)
    show "wrote h tab M' (u @ x) (xcheck (if b then let (W, ok) = XJSON_Ident W' False in Some (M', W, ok) else Some (M', W', True))
        (\<lambda>M W. XJSON_WriteString M W b [close_char isarr])) i (\<lambda>z. \<exists>s. list_all is_ws s \<and> z = s @ [close_char isarr]) (2 ^ 32)"
      if "wready h tab M' W' (u @ x) ?j (2 ^ 32 + L)" for M' W' x
      using last [OF that] by simp
  qed (blast | simp)+
  have first: "wrote h tab M u
      (if b then xcheck (XJSON_WriteString M W False [10]) (\<lambda>M W. let (W, ok) = XJSON_Ident W True in Some (M, W, ok)) else Some (M, W, True))
      ?j (list_all is_ws) (2 ^ 32)"
    if w: "wready h tab M W u i (2 ^ 32 + L)" for M W u L
  proof (cases b)
    case False
    then show ?thesis using wrote_weaken [OF wrote_id [OF w], of "list_all is_ws" "2 ^ 32"] by simp
  next
    case True
    have len: "length u + (2 ^ 32 + 0 + L) < 2 ^ 62" using w by (simp add: wready_def)
    have "wrote h tab M u (xcheck (XJSON_WriteString M W False [10]) (\<lambda>M W. let (W, ok) = XJSON_Ident W True in Some (M, W, ok))) (i + tab)
        (\<lambda>y. \<exists>x z. y = x @ z \<and> list_all is_ws x \<and> z = []) (2 ^ 32 + 0)"
      by (rule wrote_xcheck [OF newline_wrote [where b = True, unfolded if_True, OF w i(1)] len])
        (use ident_wrote(1) [OF B] True in fastforce)
    then show ?thesis using True by (simp add: wrote_weaken)
  qed
  show ?thesis
  proof (rule wrote_weaken [OF wrote_xcheck [where L = L and N' = "2 ^ 32 + (N + 2 ^ 32)", OF wrote_string [OF W(1) _ _ i(1)]]])
    show "length u + (2 ^ 32 + (2 ^ 32 + (N + 2 ^ 32)) + L) < 2 ^ 62" using W(1) by (simp add: wready_def add.assoc)
    show "wrote h tab M' (u @ x) (let b = (wr_nTabSize W' \<noteq> 0 \<and> c) in
      (xcheck (if b then xcheck (XJSON_WriteString M' W' False [10]) (\<lambda>M W. let (W, ok) = XJSON_Ident W True in Some (M, W, ok)) else Some (M', W', True)) (\<lambda>M W.
          xcheck (body M W) (\<lambda>M W.
            xcheck (if b then let (W, ok) = XJSON_Ident W False in Some (M, W, ok) else Some (M, W, True)) (\<lambda>M W.
              XJSON_WriteString M W b [close_char isarr]))))) i
      (\<lambda>z. \<exists>s1 y s2. list_all is_ws s1 \<and> ?items y \<and> list_all is_ws s2 \<and> z = s1 @ y @ s2 @ [close_char isarr]) (2 ^ 32 + (N + 2 ^ 32))"
      if w: "wready h tab M' W' (u @ x) i (2 ^ 32 + (N + 2 ^ 32) + L)" for M' W' x
    proof -
      have tab: "wr_nTabSize W' = tab" using w by (simp add: wready_def)
      show ?thesis unfolding tab b_def [symmetric] Let_def [of b]
    proof (rule wrote_weaken [OF wrote_xcheck [where L = L and N' = "N + 2 ^ 32", OF first [of _ _ _ "N + 2 ^ 32 + L"]]])
      show "wready h tab M' W' (u @ x) i (2 ^ 32 + (N + 2 ^ 32 + L))" using w by (simp add: add.assoc)
      show "length (u @ x) + (2 ^ 32 + (N + 2 ^ 32) + L) < 2 ^ 62" using w by (simp add: wready_def)
      show "wrote h tab M2 ((u @ x) @ x2) (xcheck (body M2 W2) (\<lambda>M W.
            xcheck (if b then let (W, ok) = XJSON_Ident W False in Some (M, W, ok) else Some (M, W, True)) (\<lambda>M W.
              XJSON_WriteString M W b [close_char isarr]))) i (\<lambda>y. \<exists>x s. ?items x \<and> list_all is_ws s \<and> y = x @ s @ [close_char isarr]) (N + 2 ^ 32)"
        if "wready h tab M2 W2 ((u @ x) @ x2) ?j (N + 2 ^ 32 + L)" for M2 W2 x2
        by (rule rest) (use that in \<open>simp add: add.assoc\<close>)
    qed (blast | simp)+
    qed
    fix y
    assume "\<exists>x z. y = x @ z \<and> (\<exists>s. list_all is_ws s \<and> (\<not> ind \<longrightarrow> s = []) \<and> x = s @ [open_char isarr]) \<and>
      (\<exists>s1 y s2. list_all is_ws s1 \<and> ?items y \<and> list_all is_ws s2 \<and> z = s1 @ y @ s2 @ [close_char isarr])"
    then obtain s s1 t s2 xs where Y: "y = s @ open_char isarr # (s1 @ t @ s2) @ [close_char isarr]" "list_all is_ws s" "\<not> ind \<longrightarrow> s = []" "list_all is_ws s1"
      "list_all is_ws s2" "R xs" "if xs = [] then t = [] else json_items isarr t xs" by fastforce
    have "json_text (open_char isarr # (s1 @ t @ s2) @ [close_char isarr]) (items_value isarr xs)"
    proof (cases "xs = []")
      case True
      with Y(4,5,7) text_empty [of "s1 @ s2" isarr] show ?thesis by simp
    next
      case False
      with Y(7) items_pad_front [OF items_pad_back [of isarr t xs s2]] Y(4,5) have "json_items isarr (s1 @ t @ s2) xs" by simp
      from text_items [OF this keys [OF Y(6)]] show ?thesis .
    qed
    with Y show "\<exists>s w v. list_all is_ws s \<and> (\<not> ind \<longrightarrow> s = []) \<and> json_text w v \<and> y = s @ w \<and> (\<exists>xs. R xs \<and> v = items_value isarr xs)" by blast
  qed auto
qed

section \<open>The loops over the items\<close>

text \<open>One loop stands for both: \<open>prep\<close> is what is done to an item before it is written, \<open>nl\<close> whether a line ends after it.\<close>

fun items_loop :: "write_fn \<Rightarrow> (jmem \<Rightarrow> nat \<Rightarrow> jmem option) \<Rightarrow> (xjson_writer \<Rightarrow> bool) \<Rightarrow> nat \<Rightarrow> nat \<Rightarrow> nat list \<Rightarrow> jmem \<Rightarrow> xjson_writer \<Rightarrow>
    (jmem \<times> xjson_writer \<times> bool) option" where
  "items_loop write prep nl n i [] M W = Some (M, W, True)"
| "items_loop write prep nl n i (a # as) M W = do {
     M \<leftarrow> prep M a;
     xcheck (write M W (Some a)) (\<lambda>M W.
       xcheck (if i + 1 < n then XJSON_WriteString M W False [44] else Some (M, W, True)) (\<lambda>M W.
         xcheck (newline_if (nl W) M W) (items_loop write prep nl n (Suc i) as))) }"

definition lint :: "bool \<Rightarrow> jmem \<Rightarrow> nat \<Rightarrow> jmem option" where
  "lint b M a = do { item \<leftarrow> jm_heap M a; Some (store M a (item\<lparr>ob_nAllowLinter := b\<rparr>)) }"

lemma array_loop_items:
  assumes "\<And>j. j < length as \<Longrightarrow> XArray_GetData r j = Some (Some (as ! j))"
  shows "i + length bs = length as \<Longrightarrow> bs = drop i as \<Longrightarrow>
    array_loop write ob r (length as) [i..<length as] M W =
      items_loop write (lint (ob_nAllowLinter ob)) (\<lambda>W. wr_nTabSize W \<noteq> 0 \<and> ob_nAllowLinter ob) (length as) i bs M W"
proof (induction bs arbitrary: i M W)
  case Nil
  then show ?case by simp
next
  case (Cons a bs)
  have i: "i < length as" by (rule ccontr) (use Cons.prems(2) in simp)
  have a: "as ! i = a" "bs = drop (Suc i) as"
    using hd_drop_conv_nth [OF i] tl_drop [of i as] Cons.prems(2) [symmetric] by (simp_all add: drop_Suc)
  have step: "array_loop write ob r (length as) [Suc i..<length as] =
      items_loop write (lint (ob_nAllowLinter ob)) (\<lambda>W. wr_nTabSize W \<noteq> 0 \<and> ob_nAllowLinter ob) (length as) (Suc i) bs"
    by (intro ext Cons.IH) (use Cons.prems(1) a(2) in auto)
  have "[i..<length as] = i # [Suc i..<length as]" using i by (rule upt_conv_Cons)
  then show ?case using assms [OF i] a(1) step
    by (cases "jm_heap M a") (simp_all add: lint_def [of "ob_nAllowLinter ob" M a])
qed

text \<open>The iterator stops with the result of the loop.\<close>

lemma iterate_items:
  assumes "map snd (used_pairs ps) = map Some as"
  shows "case items_loop wfn (\<lambda>M a. Some M) (\<lambda>W. wr_nTabSize W \<noteq> 0) n i as M W of
      None \<Rightarrow> \<exists>st. iterate_pairs (XJSON_MapIt wfn n) (Some (M, W, i)) ps = (st, None)
    | Some (M', W', ok) \<Rightarrow> \<exists>st k. iterate_pairs (XJSON_MapIt wfn n) (Some (M, W, i)) ps = (st, Some (M', W', k)) \<and> (st = XMAP_OK) = ok"
  using assms
proof (induction ps arbitrary: as i M W)
  case Nil
  then show ?case by (simp add: used_pairs_def)
next
  case (Cons p ps)
  show ?case
  proof (cases "mp_eStatus p = XMAP_PAIR_USED")
    case False
    with Cons.prems have m: "map snd (used_pairs ps) = map Some as" by (simp add: used_pairs_def upair_def)
    have e: "iterate_pairs (XJSON_MapIt wfn n) x (p # ps) = iterate_pairs (XJSON_MapIt wfn n) x ps" for x using False by simp
    show ?thesis unfolding e by (rule Cons.IH [OF m])
  next
    case True
    with Cons.prems obtain a bs where as: "as = a # bs" "mp_pData p = Some a" "map snd (used_pairs ps) = map Some bs"
      by (cases as) (auto simp: used_pairs_def upair_def)
    let ?r = "xcheck (wfn M W (Some a)) (\<lambda>M W. xcheck (if i + 1 < n then XJSON_WriteString M W False [44] else Some (M, W, True)) (\<lambda>M W.
                    newline_if (wr_nTabSize W \<noteq> 0) M W))"
    have assoc: "xcheck (wfn M W (Some a)) (\<lambda>M W. xcheck (if i + 1 < n then XJSON_WriteString M W False [44] else Some (M, W, True)) (\<lambda>M W.
                    xcheck (newline_if (wr_nTabSize W \<noteq> 0) M W) g)) = xcheck ?r g" for g
      by (simp add: xcheck_def Option.bind_assoc case_prod_beta' if_distrib [of "\<lambda>x. Option.bind x _"] cong: if_cong)
    have it: "XJSON_MapIt wfn n p (Some (M, W, i)) =
        (case ?r of None \<Rightarrow> (XMAP_STOP, None) | Some (M, W, ok) \<Rightarrow> (if ok then XMAP_OK else XMAP_STOP, Some (M, W, i + 1)))"
      by (simp add: XJSON_MapIt_def as(2))
    show ?thesis
    proof (cases ?r)
      case None
      then show ?thesis unfolding as(1) items_loop.simps using True it assoc by (simp add: xcheck_def)
    next
      case (Some t)
      obtain M1 W1 ok where t: "t = (M1, W1, ok)" by (cases t)
      show ?thesis
      proof (cases ok)
        case False
        then show ?thesis unfolding as(1) items_loop.simps bind.bind_lunit assoc Some t using True it Some t by (simp add: xcheck_def)
      next
        case ok: True
        have e: "iterate_pairs (XJSON_MapIt wfn n) (Some (M, W, i)) (p # ps) = iterate_pairs (XJSON_MapIt wfn n) (Some (M1, W1, Suc i)) ps"
          using True it Some t ok by simp
        have l: "items_loop wfn (\<lambda>M a. Some M) (\<lambda>W. wr_nTabSize W \<noteq> 0) n i as M W = items_loop wfn (\<lambda>M a. Some M) (\<lambda>W. wr_nTabSize W \<noteq> 0) n (Suc i) bs M1 W1"
          unfolding as(1) items_loop.simps bind.bind_lunit assoc Some t using ok by (simp add: xcheck_def)
        show ?thesis unfolding e l by (rule Cons.IH [OF as(3)])
      qed
    qed
  qed
qed

section \<open>Trees\<close>

definition writes :: "(nat \<rightharpoonup> xjson_obj) \<Rightarrow> nat \<Rightarrow> byte list option \<Rightarrow> nat set \<Rightarrow> bool" where
  "writes h a nm F \<longleftrightarrow> (\<forall>fuel tab M W u i L. card F \<le> fuel \<longrightarrow> wready h tab M W u i (card F * 2 ^ 35 + L) \<longrightarrow> i + tab * card F < 2 ^ 31 \<longrightarrow>
     wrote h tab M u (XJSON_WriteObject fuel M W (Some a)) i (\<lambda>x. \<exists>v. rep h a nm v F \<and> item_out nm v x) (card F * 2 ^ 35 - 2 ^ 34))"

definition prep_ok :: "(nat \<rightharpoonup> xjson_obj) \<Rightarrow> (jmem \<Rightarrow> nat \<Rightarrow> jmem option) \<Rightarrow> bool" where
  "prep_ok h prep \<longleftrightarrow> (\<forall>M a. same_up h (jm_heap M) \<longrightarrow> a \<in> dom h \<longrightarrow>
     (\<exists>M'. prep M a = Some M' \<and> jm_ok M' = jm_ok M \<and> jm_grow M' = jm_grow M \<and> same_up h (jm_heap M')))"

lemma prep_ok_id: "prep_ok h (\<lambda>M a. Some M)"
  by (simp add: prep_ok_def)

lemma prep_ok_lint: "prep_ok h (lint b)"
  unfolding prep_ok_def
proof (intro allI impI)
  fix M :: jmem and a
  assume s: "same_up h (jm_heap M)" "a \<in> dom h"
  then obtain ob where "h a = Some ob" by auto
  from same_up_Some [OF s(1) this] obtain ob' where o: "jm_heap M a = Some ob'" by blast
  with same_up_store [OF s(1) o, of b] show "\<exists>M'. lint b M a = Some M' \<and> jm_ok M' = jm_ok M \<and> jm_grow M' = jm_grow M \<and> same_up h (jm_heap M')"
    by (simp add: lint_def store_def)
qed

definition items_text_of :: "(nat \<rightharpoonup> xjson_obj) \<Rightarrow> (nat \<times> byte list option \<times> jval) list \<Rightarrow> nat set \<Rightarrow> bool \<Rightarrow> byte list \<Rightarrow>
    (byte list option \<times> jval) list \<Rightarrow> bool" where
  "items_text_of h ts F isarr x xs \<longleftrightarrow> (\<exists>ts'. map addr ts' = map addr ts \<and> map nam ts' = map nam ts \<and> reps h ts' F \<and> xs = map (\<lambda>t. (nam t, val t)) ts') \<and>
     (if xs = [] then x = [] else json_items isarr x xs)"

definition items_write :: "(nat \<rightharpoonup> xjson_obj) \<Rightarrow> (nat \<times> byte list option \<times> jval) list \<Rightarrow> nat set \<Rightarrow> bool" where
  "items_write h ts F \<longleftrightarrow> (\<forall>fuel tab M W u i L prep nl n k isarr. card F \<le> fuel \<longrightarrow> wready h tab M W u i (card F * 2 ^ 35 + L) \<longrightarrow>
     i + tab * card F < 2 ^ 31 \<longrightarrow> k + length ts = n \<longrightarrow> prep_ok h prep \<longrightarrow> (\<forall>t \<in> set ts. (nam t = None) = isarr) \<longrightarrow>
     wrote h tab M u (items_loop (XJSON_WriteObject fuel) prep nl n k (map addr ts) M W) i (\<lambda>x. \<exists>xs. items_text_of h ts F isarr x xs) (card F * 2 ^ 35))"

lemma items_write_Nil: "items_write h [] {}"
  unfolding items_write_def
proof (intro allI impI)
  fix fuel tab M W u i L prep nl n k isarr
  assume w: "wready h tab M W u i (card {} * 2 ^ 35 + L)"
  have "items_text_of h [] {} isarr [] []" by (auto simp: items_text_of_def intro: reps_nil)
  then have "\<exists>xs. items_text_of h [] {} isarr [] xs" by blast
  then show "wrote h tab M u (items_loop (XJSON_WriteObject fuel) prep nl n k (map addr []) M W) i (\<lambda>x. \<exists>xs. items_text_of h [] {} isarr x xs) (card {} * 2 ^ 35)"
    unfolding list.map items_loop.simps by (intro wrote_weaken [OF wrote_id [OF w]]) simp_all
qed

lemma items_text_Cons:
  assumes v: "rep h a nm v F" "item_out nm v x" and ts: "items_text_of h ts G isarr z xs" and disj: "F \<inter> G = {}" and nm: "(nm = None) = isarr"
    and s: "list_all is_ws s" and c: "c = (if ts = [] then [] else [44])"
  shows "items_text_of h ((a, nm, v0) # ts) (F \<union> G) isarr (x @ c @ s @ z) ((nm, v) # xs)"
proof -
  from ts obtain ts' where T: "map addr ts' = map addr ts" "map nam ts' = map nam ts" "reps h ts' G" "xs = map (\<lambda>t. (nam t, val t)) ts'"
    "if xs = [] then z = [] else json_items isarr z xs" by (auto simp: items_text_of_def)
  from v(2) obtain b p w where x: "list_all is_ws b" "json_key isarr p nm" "json_text w v" "x = b @ p @ w" using nm by (auto simp: item_out_def)
  have "length ts' = length ts" using arg_cong [OF T(1), of length] by simp
  then have e: "ts = [] \<longleftrightarrow> xs = []" unfolding T(4) by auto
  have "json_items isarr (x @ c @ s @ z) ((nm, v) # xs)"
  proof (cases "xs = []")
    case True
    with T(5) c e x items_one [OF x(1-3) s] show ?thesis by simp
  next
    case False
    with T(5) have "json_items isarr (s @ z) xs" using items_pad_front [OF _ s] by simp
    from items_more [OF x(1-3) _ this, of "[]"] x(4) c e False show ?thesis by simp
  qed
  moreover have "reps h ((a, nm, v) # ts') (F \<union> G)" by (rule reps_cons [OF v(1) T(3) disj])
  ultimately show ?thesis using T unfolding items_text_of_def by (intro conjI exI [of _ "(a, nm, v) # ts'"]) simp_all
qed

lemma items_write_Cons:
  assumes a: "writes h a nm F" and ts: "items_write h ts G" and rep: "a \<in> dom h" "finite F" "finite G" "F \<noteq> {}" and disj: "F \<inter> G = {}"
  shows "items_write h ((a, nm, v0) # ts) (F \<union> G)"
  unfolding items_write_def
proof (intro allI impI)
  fix fuel tab M W u i L prep nl n k isarr
  assume fuel: "card (F \<union> G) \<le> fuel" and w: "wready h tab M W u i (card (F \<union> G) * 2 ^ 35 + L)" and i: "i + tab * card (F \<union> G) < 2 ^ 31"
    and n: "k + length ((a, nm, v0) # ts) = n" and prep: "prep_ok h prep" and nm: "\<forall>t \<in> set ((a, nm, v0) # ts). (nam t = None) = isarr"
  let ?f = "card F" and ?g = "card G"
  have card: "card (F \<union> G) = ?f + ?g" using card_Un_disjoint [OF rep(2,3) disj] .
  have f1: "1 \<le> ?f" using rep(2,4) by (simp add: Suc_leI card_gt_0_iff)
  have i': "i + tab * ?f < 2 ^ 31" "i + tab * ?g < 2 ^ 31" "i < 2 ^ 31" using i by (auto simp: card algebra_simps)
  have len: "length u + ((?f + ?g) * 2 ^ 35 + L) < 2 ^ 62" using w by (simp add: wready_def card)
  have "same_up h (jm_heap M)" using w by (simp add: wready_def)
  with prep rep(1) obtain M1 where M1: "prep M a = Some M1" "jm_ok M1 = jm_ok M" "jm_grow M1 = jm_grow M" "same_up h (jm_heap M1)"
    unfolding prep_ok_def by blast
  have w1: "wready h tab M1 W u i (?f * 2 ^ 35 + (?g * 2 ^ 35 + L))" using w M1(4) by (simp add: wready_def card algebra_simps)
  have head: "wrote h tab M1 u (XJSON_WriteObject fuel M1 W (Some a)) i (\<lambda>x. \<exists>v. rep h a nm v F \<and> item_out nm v x) (?f * 2 ^ 35 - 2 ^ 34)"
    using a [unfolded writes_def, rule_format, OF _ w1 i'(1)] fuel card by simp
  let ?comma = "if ts = [] then [] else [44 :: byte]"
  let ?Q1 = "\<lambda>x. \<exists>v. rep h a nm v F \<and> item_out nm v x" and ?Q4 = "\<lambda>z. \<exists>xs. items_text_of h ts G isarr z xs"
  have comma: "wrote h tab M u (if k + 1 < n then XJSON_WriteString M W False [44] else Some (M, W, True)) i (\<lambda>x. x = ?comma) (2 ^ 32)"
    if w: "wready h tab M W u i (2 ^ 32 + L)" for M W u L
  proof (cases "ts = []")
    case True
    with n wrote_weaken [OF wrote_id [OF w], of "\<lambda>x. x = []" "2 ^ 32"] show ?thesis by simp
  next
    case False
    then have "k + 1 < n" using n by (cases ts) auto
    with False wrote_string [OF w _ _ i'(3), of "[44]" False] show ?thesis by (auto elim!: wrote_weaken)
  qed
  have tail: "wrote h tab M u (items_loop (XJSON_WriteObject fuel) prep nl n (Suc k) (map addr ts) M W) i ?Q4 (?g * 2 ^ 35)"
    if w: "wready h tab M W u i (?g * 2 ^ 35 + L)" for M W u
    using ts [unfolded items_write_def, rule_format, OF _ w i'(2) _ prep, of fuel "Suc k" n isarr nl] fuel card n nm by auto
  have rest: "wrote h tab M u (xcheck (newline_if b M W) (\<lambda>M W. items_loop (XJSON_WriteObject fuel) prep nl n (Suc k) (map addr ts) M W)) i
      (\<lambda>y. \<exists>s z. list_all is_ws s \<and> ?Q4 z \<and> y = s @ z) (2 ^ 32 + ?g * 2 ^ 35)"
    if w: "wready h tab M W u i (2 ^ 32 + (?g * 2 ^ 35 + L))" for M W u b
  proof (rule wrote_weaken [OF wrote_xcheck [where L = L and N' = "?g * 2 ^ 35", OF newline_wrote [OF w i'(3)]]])
    show "length u + (2 ^ 32 + ?g * 2 ^ 35 + L) < 2 ^ 62" using w by (simp add: wready_def)
  qed (rule tail, assumption, blast, simp)
  have mid: "wrote h tab M u (xcheck (if k + 1 < n then XJSON_WriteString M W False [44] else Some (M, W, True)) (\<lambda>M W.
         xcheck (newline_if (nl W) M W) (\<lambda>M W. items_loop (XJSON_WriteObject fuel) prep nl n (Suc k) (map addr ts) M W))) i
      (\<lambda>y. \<exists>s z. list_all is_ws s \<and> ?Q4 z \<and> y = ?comma @ s @ z) (2 ^ 32 + (2 ^ 32 + ?g * 2 ^ 35))"
    if w: "wready h tab M W u i (2 ^ 32 + (2 ^ 32 + ?g * 2 ^ 35 + L))" for M W u
  proof (rule wrote_weaken [OF wrote_xcheck [where L = L and N' = "2 ^ 32 + ?g * 2 ^ 35", OF comma [OF w]]])
    show "length u + (2 ^ 32 + (2 ^ 32 + ?g * 2 ^ 35) + L) < 2 ^ 62" using w by (simp add: wready_def)
    show "wrote h tab M' (u @ x) (xcheck (newline_if (nl W') M' W') (\<lambda>M W. items_loop (XJSON_WriteObject fuel) prep nl n (Suc k) (map addr ts) M W)) i
        (\<lambda>y. \<exists>s z. list_all is_ws s \<and> ?Q4 z \<and> y = s @ z) (2 ^ 32 + ?g * 2 ^ 35)"
      if "wready h tab M' W' (u @ x) i (2 ^ 32 + ?g * 2 ^ 35 + L)" for M' W' x
      by (rule rest) (use that in \<open>simp add: add.assoc\<close>)
  qed (blast, simp)
  have "wrote h tab M1 u (xcheck (XJSON_WriteObject fuel M1 W (Some a)) (\<lambda>M W.
       xcheck (if k + 1 < n then XJSON_WriteString M W False [44] else Some (M, W, True)) (\<lambda>M W.
         xcheck (newline_if (nl W) M W) (\<lambda>M W. items_loop (XJSON_WriteObject fuel) prep nl n (Suc k) (map addr ts) M W)))) i
      (\<lambda>x. \<exists>xs. items_text_of h ((a, nm, v0) # ts) (F \<union> G) isarr x xs) (card (F \<union> G) * 2 ^ 35)"
  proof (rule wrote_weaken [OF wrote_xcheck [where L = L and N' = "2 ^ 32 + (2 ^ 32 + ?g * 2 ^ 35)", OF head]])
    have "?f * 2 ^ 35 - 2 ^ 34 + (2 ^ 32 + (2 ^ 32 + ?g * 2 ^ 35)) \<le> (?f + ?g) * 2 ^ 35" using f1 by simp
    then show "length u + (?f * 2 ^ 35 - 2 ^ 34 + (2 ^ 32 + (2 ^ 32 + ?g * 2 ^ 35)) + L) < 2 ^ 62"
      "?f * 2 ^ 35 - 2 ^ 34 + (2 ^ 32 + (2 ^ 32 + ?g * 2 ^ 35)) \<le> card (F \<union> G) * 2 ^ 35" using len by (simp_all add: card)
    show "wrote h tab M' (u @ x) (xcheck (if k + 1 < n then XJSON_WriteString M' W' False [44] else Some (M', W', True)) (\<lambda>M W.
         xcheck (newline_if (nl W) M W) (\<lambda>M W. items_loop (XJSON_WriteObject fuel) prep nl n (Suc k) (map addr ts) M W))) i
      (\<lambda>y. \<exists>s z. list_all is_ws s \<and> ?Q4 z \<and> y = ?comma @ s @ z) (2 ^ 32 + (2 ^ 32 + ?g * 2 ^ 35))"
      if "wready h tab M' W' (u @ x) i (2 ^ 32 + (2 ^ 32 + ?g * 2 ^ 35) + L)" for M' W' x
      by (rule mid) (use that in \<open>simp add: add.assoc\<close>)
    fix y
    assume "\<exists>x z. y = x @ z \<and> ?Q1 x \<and> (\<exists>s z'. list_all is_ws s \<and> ?Q4 z' \<and> z = ?comma @ s @ z')"
    then obtain x v s z xs where Y: "rep h a nm v F" "item_out nm v x" "list_all is_ws s" "items_text_of h ts G isarr z xs" "y = x @ ?comma @ s @ z" by blast
    have "(nm = None) = isarr" using nm by simp
    from items_text_Cons [OF Y(1,2,4) disj this Y(3) refl] Y(5) show "\<exists>xs. items_text_of h ((a, nm, v0) # ts) (F \<union> G) isarr y xs" by blast
  qed
  then show "wrote h tab M u (items_loop (XJSON_WriteObject fuel) prep nl n k (map addr ((a, nm, v0) # ts)) M W) i
      (\<lambda>x. \<exists>xs. items_text_of h ((a, nm, v0) # ts) (F \<union> G) isarr x xs) (card (F \<union> G) * 2 ^ 35)"
    unfolding list.map fst_conv items_loop.simps M1(1) bind.bind_lunit by (rule wrote_mem [OF M1(2,3)])
qed

text \<open>A container whose items are written by a loop.\<close>

definition same_items :: "(nat \<rightharpoonup> xjson_obj) \<Rightarrow> (nat \<times> byte list option \<times> jval) list \<Rightarrow> nat set \<Rightarrow> (byte list option \<times> jval) list \<Rightarrow> bool" where
  "same_items h ts F xs \<longleftrightarrow> (\<exists>ts'. map addr ts' = map addr ts \<and> map nam ts' = map nam ts \<and> reps h ts' F \<and> xs = map (\<lambda>t. (nam t, val t)) ts')"

lemma container_write:
  assumes h: "h a = Some ob" "ob_pName ob = nm" "\<And>k. nm = Some k \<Longrightarrow> clean_text k" and F: "finite F" "a \<notin> F"
    and keys: "\<And>xs. same_items h ts F xs \<Longrightarrow> keys_ok isarr xs \<and> rep h a nm (items_value isarr xs) (insert a F)"
    and eq: "\<And>f M W ob'. jm_heap M a = Some ob' \<Longrightarrow> ob_nType ob' = ob_nType ob \<Longrightarrow> ob_pData ob' = ob_pData ob \<Longrightarrow>
      XJSON_WriteObject (Suc f) M W (Some a) = write_container ob' (open_char isarr) (close_char isarr) (length ts) (body f ob') M W"
    and body: "\<And>f ob' tab M W u i L. card F \<le> f \<Longrightarrow> wready h tab M W u i (card F * 2 ^ 35 + L) \<Longrightarrow> i + tab * card F < 2 ^ 31 \<Longrightarrow>
      wrote h tab M u (body f ob' M W) i (\<lambda>x. \<exists>xs. items_text_of h ts F isarr x xs) (card F * 2 ^ 35)"
  shows "writes h a nm (insert a F)"
  unfolding writes_def
proof (intro allI impI)
  fix fuel tab M W u i L
  let ?f = "card F"
  assume fuel: "card (insert a F) \<le> fuel" and w: "wready h tab M W u i (card (insert a F) * 2 ^ 35 + L)" and i: "i + tab * card (insert a F) < 2 ^ 31"
  have card: "card (insert a F) = Suc ?f" using F by simp
  with fuel obtain g where g: "fuel = Suc g" "?f \<le> g" by (cases fuel) auto
  have "same_up h (jm_heap M)" using w by (simp add: wready_def)
  from same_up_Some [OF this h(1)] obtain ob' where o: "jm_heap M a = Some ob'" "ob_pName ob' = nm" "ob_nType ob' = ob_nType ob" "ob_pData ob' = ob_pData ob"
    using h(2) by blast
  have i': "i < 2 ^ 31" "i + tab < 2 ^ 31" "\<And>j. j \<le> i + tab \<Longrightarrow> j + tab * ?f < 2 ^ 31" using i by (auto simp: card)
  let ?N = "2 ^ 32 + (2 ^ 32 + (?f * 2 ^ 35 + (2 ^ 32 + 0)))"
  let ?L = "(card (insert a F) * 2 ^ 35 + L) - (2 ^ 32 + ?N)"
  have L: "2 ^ 32 + (?N + ?L) = card (insert a F) * 2 ^ 35 + L" by (simp add: card)
  have "wrote h tab M u (write_container ob' (open_char isarr) (close_char isarr) (length ts) (body g ob') M W) i
      (\<lambda>x. \<exists>v. (\<exists>xs. same_items h ts F xs \<and> v = items_value isarr xs) \<and> item_out (ob_pName ob') v x) (2 ^ 32 + ?N)"
    unfolding write_container_def
  proof (rule value_wrote [where L = ?L])
    show "wready h tab M W u i (2 ^ 32 + (?N + ?L))" unfolding L by (rule w)
    show "clean_text k" if "ob_pName ob' = Some k" for k using h(3) o(2) that by simp
    fix M W u
    assume w': "wready h tab M W u i (?N + ?L)"
    have "wrote h tab M u
       (xcheck (XJSON_WriteString M W (item_indent ob') [open_char isarr]) (\<lambda>M W.
        let b = (wr_nTabSize W \<noteq> 0 \<and> length ts \<noteq> 0 \<and> ob_nAllowLinter ob') in
        xcheck (if b then xcheck (XJSON_WriteString M W False [10]) (\<lambda>M W. let (W, ok) = XJSON_Ident W True in Some (M, W, ok)) else Some (M, W, True)) (\<lambda>M W.
          xcheck (body g ob' M W) (\<lambda>M W.
            xcheck (if b then let (W, ok) = XJSON_Ident W False in Some (M, W, ok) else Some (M, W, True)) (\<lambda>M W.
              XJSON_WriteString M W b [close_char isarr])))))
       i (\<lambda>x. \<exists>s w v. list_all is_ws s \<and> (\<not> item_indent ob' \<longrightarrow> s = []) \<and> json_text w v \<and> x = s @ w \<and> (\<exists>xs. same_items h ts F xs \<and> v = items_value isarr xs)) ?N"
    proof (rule brackets_wrote [where L = ?L])
      show "wready h tab M W u i (2 ^ 32 + (2 ^ 32 + (?f * 2 ^ 35 + (2 ^ 32 + ?L))))" using w' by (simp add: add.assoc)
      show "i + tab < 2 ^ 31" by (rule i')
      show "wrote h tab M u (body g ob' M W) j (\<lambda>x. \<exists>xs. same_items h ts F xs \<and> (if xs = [] then x = [] else json_items isarr x xs)) (?f * 2 ^ 35)"
        if "j \<le> i + tab" "wready h tab M W u j (?f * 2 ^ 35 + L')" for M W u j L'
        using body [OF g(2) that(2) i'(3) [OF that(1)]] unfolding items_text_of_def same_items_def .
      show "keys_ok isarr xs" if "same_items h ts F xs" for xs using keys [OF that] by simp
    qed
    then show "wrote h tab M u
       (xcheck (XJSON_WriteString M W (item_indent ob') [open_char isarr]) (\<lambda>M W.
        let b = (wr_nTabSize W \<noteq> 0 \<and> length ts \<noteq> 0 \<and> ob_nAllowLinter ob') in
        xcheck (if b then xcheck (XJSON_WriteString M W False [10]) (\<lambda>M W. let (W, ok) = XJSON_Ident W True in Some (M, W, ok)) else Some (M, W, True)) (\<lambda>M W.
          xcheck (body g ob' M W) (\<lambda>M W.
            xcheck (if b then let (W, ok) = XJSON_Ident W False in Some (M, W, ok) else Some (M, W, True)) (\<lambda>M W.
              XJSON_WriteString M W b [close_char isarr])))))
       i (\<lambda>x. \<exists>b w v. list_all is_ws b \<and> (ob_pName ob' \<noteq> None \<longrightarrow> b = []) \<and> json_text w v \<and> x = b @ w \<and> (\<exists>xs. same_items h ts F xs \<and> v = items_value isarr xs)) ?N"
      by (rule wrote_weaken) (fastforce simp: item_indent_def, simp)
  qed (rule i')
  then have "wrote h tab M u (write_container ob' (open_char isarr) (close_char isarr) (length ts) (body g ob') M W) i
      (\<lambda>x. \<exists>v. rep h a nm v (insert a F) \<and> item_out nm v x) (card (insert a F) * 2 ^ 35 - 2 ^ 34)"
  proof (rule wrote_weaken)
    show "\<exists>v. rep h a nm v (insert a F) \<and> item_out nm v x"
      if "\<exists>v. (\<exists>xs. same_items h ts F xs \<and> v = items_value isarr xs) \<and> item_out (ob_pName ob') v x" for x using that keys o(2) by blast
  qed (simp add: card)
  then show "wrote h tab M u (XJSON_WriteObject fuel M W (Some a)) i (\<lambda>x. \<exists>v. rep h a nm v (insert a F) \<and> item_out nm v x) (card (insert a F) * 2 ^ 35 - 2 ^ 34)"
    unfolding g(1) eq [OF o(1,3,4)] .
qed

lemma array_entry:
  assumes "ar_rep r (map (\<lambda>t. Some (arr_entry (addr t))) ts)" "ar_pData r \<noteq> None" "j < length ts"
  shows "XArray_GetData r j = Some (Some (addr (ts ! j)))"
  using assms by (auto simp: ar_rep_def XArray_GetData_def XArray_Get_def peek_def nth_append arr_entry_def)

text \<open>The iterator over a table is the loop over the members it holds.\<close>

lemma hash_items:
  assumes m: "map_ok m" "mp_pPairs m = Some d" "used_pairs d = map (\<lambda>t. (the (nam t), Some (addr t))) ts" "ts \<noteq> []"
  shows "do { (st, x) \<leftarrow> XMap_Iterate m (XJSON_MapIt wfn (mp_nCount m)) (Some (M, W, 0)); (M, W, _) \<leftarrow> x; Some (M, W, st = XMAP_OK) } =
    items_loop wfn (\<lambda>M a. Some M) (\<lambda>W. wr_nTabSize W \<noteq> 0) (length ts) 0 (map addr ts) M W"
proof -
  have n: "mp_nCount m = length ts" "mp_nTableSize m = length d" using m by (auto simp: map_ok_def mp_wf_def tbl_ok_def)
  then have it: "XMap_Iterate m f x = Some (iterate_pairs f x d)" for f :: "nat xmap_pair \<Rightarrow> 'c \<Rightarrow> int \<times> 'c" and x
    using m(2,4) by (simp add: XMap_Iterate_def mread_def)
  have "map snd (used_pairs d) = map Some (map addr ts)" unfolding m(3) by simp
  note R = iterate_items [OF this, where wfn = wfn and n = "length ts" and i = 0 and M = M and W = W]
  show ?thesis
  proof (cases "items_loop wfn (\<lambda>M a. Some M) (\<lambda>W. wr_nTabSize W \<noteq> 0) (length ts) 0 (map addr ts) M W")
    case None
    with R obtain st where "iterate_pairs (XJSON_MapIt wfn (length ts)) (Some (M, W, 0)) d = (st, None)" by auto
    then show ?thesis unfolding it n(1) None by simp
  next
    case (Some t)
    obtain M' W' ok where t: "t = (M', W', ok)" by (cases t)
    with R Some obtain st k where "iterate_pairs (XJSON_MapIt wfn (length ts)) (Some (M, W, 0)) d = (st, Some (M', W', k))" "(st = XMAP_OK) = ok" by auto
    then show ?thesis unfolding it n(1) Some t by simp
  qed
qed

lemma write_rep:
  "rep h a nm v F \<Longrightarrow> clean v \<Longrightarrow> (\<And>k. nm = Some k \<Longrightarrow> clean_text k) \<Longrightarrow> writes h a nm F"
  "reps h ts F \<Longrightarrow> (\<And>t. t \<in> set ts \<Longrightarrow> clean (val t)) \<Longrightarrow> (\<And>t k. t \<in> set ts \<Longrightarrow> nam t = Some k \<Longrightarrow> clean_text k) \<Longrightarrow> items_write h ts F"
proof (induction rule: rep_reps.inducts)
  case (rep_text a ob nm t s)
  have r: "rep h a nm (JText t s) {a}" by (rule rep_reps.rep_text [of h a ob]) (fact rep_text.IH rep_text.hyps)+
  show ?case unfolding writes_def
  proof (intro allI impI)
    fix fuel tab M W u i L
    assume fuel: "card {a} \<le> fuel" and w: "wready h tab M W u i (card {a} * 2 ^ 35 + L)" and i: "i + tab * card {a} < 2 ^ 31"
    from fuel obtain g where g: "fuel = Suc g" by (cases fuel) auto
    have "same_up h (jm_heap M)" using w by (simp add: wready_def)
    from same_up_Some [OF this rep_text.IH(1)] obtain ob' where o: "jm_heap M a = Some ob'" "ob_pName ob' = nm" "ob_nType ob' = t" "ob_pData ob' = Text s"
      using rep_text.hyps by auto
    have ready: "wready h tab M W u i (2 ^ 33 + L)" using w by (simp add: wready_def)
    have cl: "clean (JText (ob_nType ob') s)" using rep_text.prems(1) o(3) by simp
    have nm: "\<And>k. ob_pName ob' = Some k \<Longrightarrow> clean_text k" using rep_text.prems(2) o(2) by simp
    have "t \<noteq> XJSON_TYPE_INVALID" using rep_text.prems(1) by (auto split: if_splits)
    then have "XJSON_WriteObject fuel M W (Some a) = XJSON_WriteItem M W ob'" using g o rep_text.hyps(4,5) by simp
    moreover have "wrote h tab M u (XJSON_WriteItem M W ob') i (item_out (ob_pName ob') (JText (ob_nType ob') s)) (2 ^ 33)"
      by (rule item_wrote [OF ready _ nm o(4) cl]) (use i in simp)
    ultimately show "wrote h tab M u (XJSON_WriteObject fuel M W (Some a)) i (\<lambda>x. \<exists>v. rep h a nm v {a} \<and> item_out nm v x) (card {a} * 2 ^ 35 - 2 ^ 34)"
      using r o(2,3) by (auto elim!: wrote_weaken)
  qed
next
  case (rep_arr a ob nm r ts F)
  have fin: "finite F" using rep_foot(2) [OF rep_arr.IH(2)] by blast
  have cl: "\<And>t. t \<in> set ts \<Longrightarrow> clean (val t)" "\<And>t k. t \<in> set ts \<Longrightarrow> nam t = Some k \<Longrightarrow> clean_text k" using rep_arr.prems(1) rep_arr.hyps(6) by auto
  have IH: "items_write h ts F" by (rule rep_arr.IH(3)) (erule cl, erule cl, assumption)
  have r: "ar_pData r \<noteq> None" "ar_nUsed r = length ts" using rep_arr.hyps(4,5) by (auto simp: arr_ok_def ar_rep_def)
  let ?body = "\<lambda>f ob'. array_loop (XJSON_WriteObject f) ob' r (length ts) [0..<length ts]"
  have body: "?body f ob' M W = items_loop (XJSON_WriteObject f) (lint (ob_nAllowLinter ob')) (\<lambda>W. wr_nTabSize W \<noteq> 0 \<and> ob_nAllowLinter ob') (length ts) 0 (map addr ts) M W" for f ob' M W
    using array_loop_items [where as = "map addr ts" and i = 0 and bs = "map addr ts" and r = r] array_entry [OF rep_arr.hyps(5) r(1)] by simp
  show ?case
  proof (rule container_write [where h = h and a = a and ob = ob and nm = nm and F = F and isarr = True and body = ?body and ts = ts, OF rep_arr.IH(1) rep_arr.hyps(1) rep_arr.prems(2) fin rep_arr.hyps(7)])
    show "keys_ok True xs \<and> rep h a nm (items_value True xs) (insert a F)" if "same_items h ts F xs" for xs
    proof -
      from that obtain ts' where T: "map addr ts' = map addr ts" "map nam ts' = map nam ts" "reps h ts' F" "xs = map (\<lambda>t. (nam t, val t)) ts'"
        by (auto simp: same_items_def)
      have e: "map (\<lambda>t. Some (arr_entry (addr t))) ts' = map (\<lambda>t. Some (arr_entry (addr t))) ts"
        using arg_cong [OF T(1), of "map (\<lambda>a. Some (arr_entry a))"] by (simp add: comp_def)
      have "\<forall>n \<in> set (map nam ts'). n = None" unfolding T(2) using rep_arr.hyps(6) by simp
      then have n: "\<forall>t \<in> set ts'. nam t = None" by simp
      from rep_reps.rep_arr [OF rep_arr.IH(1) rep_arr.hyps(1-4) _ n T(3) rep_arr.hyps(7)] rep_arr.hyps(5) e have "rep h a nm (JArr (map val ts')) (insert a F)" by simp
      moreover have "items_value True xs = JArr (map val ts')" by (simp add: items_value_def T(4) comp_def)
      moreover have "keys_ok True xs" unfolding keys_ok_def T(4) using n by simp
      ultimately show ?thesis by (simp only:)
    qed
    show "XJSON_WriteObject (Suc f) M W (Some a) = write_container ob' (open_char True) (close_char True) (length ts) (?body f ob') M W"
      if "jm_heap M a = Some ob'" "ob_nType ob' = ob_nType ob" "ob_pData ob' = ob_pData ob" for f M W ob'
      using that rep_arr.hyps(2,3) r(2) rep_arr.hyps by (simp add: XJSON_WriteArray_def XArray_Used_def)
    show "wrote h tab M u (?body f ob' M W) i (\<lambda>x. \<exists>xs. items_text_of h ts F True x xs) (card F * 2 ^ 35)"
      if "card F \<le> f" "wready h tab M W u i (card F * 2 ^ 35 + L)" "i + tab * card F < 2 ^ 31" for f ob' tab M W u i L
      unfolding body using IH [unfolded items_write_def, rule_format, OF that(1-3) _ prep_ok_lint] rep_arr.hyps(6) by simp
  qed
next
  case (rep_obj a ob nm m d ts F kvs)
  have fin: "finite F" using rep_foot(2) [OF rep_obj.IH(2)] by blast
  have kvs: "set kvs = set (map (\<lambda>t. (the (nam t), val t)) ts)" by (rule mset_eq_setD [OF rep_obj.hyps(9)])
  have cl: "clean (val t)" "nam t = Some k \<Longrightarrow> clean_text k" if "t \<in> set ts" for t k
  proof -
    have "(the (nam t), val t) \<in> set kvs" unfolding kvs using that by (auto intro!: image_eqI [of _ _ t])
    with rep_obj.prems(1) show "clean (val t)" "nam t = Some k \<Longrightarrow> clean_text k" by auto
  qed
  have IH: "items_write h ts F" by (rule rep_obj.IH(3)) (erule cl, erule cl, assumption)
  have cnt: "mp_nCount m = length ts" using rep_obj.hyps(4,5,6) by (auto simp: map_ok_def mp_wf_def)
  have "distinct (map fst (used_pairs d))" using rep_obj.hyps(4,5) by (auto simp: map_ok_def mp_wf_def tbl_ok_def)
  then have dist: "distinct (map (\<lambda>t. the (nam t)) ts)" unfolding rep_obj.hyps(6) by (simp add: comp_def)
  let ?body = "\<lambda>f ob' M W. if mp_nCount m = 0 then Some (M, W, True)
            else let (M, ok) = jalloc M 24
                 in if \<not> ok then Some (M, W, False)
                    else do {
                      (st, x) \<leftarrow> XMap_Iterate m (XJSON_MapIt (XJSON_WriteObject f) (mp_nCount m)) (Some (M, W, 0));
                      (M, W, _) \<leftarrow> x;
                      Some (M, W, st = XMAP_OK) }"
  show ?case
  proof (rule container_write [where h = h and a = a and ob = ob and nm = nm and F = F and isarr = False and body = ?body and ts = ts, OF rep_obj.IH(1) rep_obj.hyps(1) rep_obj.prems(2) fin rep_obj.hyps(8)])
    show "keys_ok False xs \<and> rep h a nm (items_value False xs) (insert a F)" if "same_items h ts F xs" for xs
    proof -
      from that obtain ts' where T: "map addr ts' = map addr ts" "map nam ts' = map nam ts" "reps h ts' F" "xs = map (\<lambda>t. (nam t, val t)) ts'"
        by (auto simp: same_items_def)
      have "zip (map nam ts') (map addr ts') = zip (map nam ts) (map addr ts)" unfolding T(1,2) ..
      from arg_cong [OF this, of "map (\<lambda>(n, a). (the n, Some a))"]
      have e: "map (\<lambda>t. (the (nam t), Some (addr t))) ts' = map (\<lambda>t. (the (nam t), Some (addr t))) ts" by (simp add: zip_map_map zip_same_conv_map comp_def)
      have "\<forall>n \<in> set (map nam ts'). n \<noteq> None" unfolding T(2) using rep_obj.hyps(7) by simp
      then have n: "\<forall>t \<in> set ts'. nam t \<noteq> None" by simp
      have "rep h a nm (JObj (map (\<lambda>t. (the (nam t), val t)) ts')) (insert a F)"
        by (rule rep_reps.rep_obj [OF rep_obj.IH(1) rep_obj.hyps(1-5) _ n T(3) rep_obj.hyps(8) refl]) (use rep_obj.hyps(6) e in simp)
      moreover have "items_value False xs = JObj (map (\<lambda>t. (the (nam t), val t)) ts')" by (simp add: items_value_def T(4) comp_def)
      moreover have "distinct (map fst xs)"
      proof -
        have "map (the \<circ> nam) ts' = map (the \<circ> nam) ts" using arg_cong [OF T(2), of "map the"] by simp
        then have "distinct (map the (map nam ts'))" using dist by (simp add: comp_def)
        then have "distinct (map nam ts')" using distinct_map [of the "map nam ts'"] by blast
        then show ?thesis by (simp add: T(4) comp_def)
      qed
      ultimately show ?thesis using n T(4) by (auto simp: keys_ok_def)
    qed
    show "XJSON_WriteObject (Suc f) M W (Some a) = write_container ob' (open_char False) (close_char False) (length ts) (?body f ob') M W"
      if "jm_heap M a = Some ob'" "ob_nType ob' = ob_nType ob" "ob_pData ob' = ob_pData ob" for f M W ob'
      using that rep_obj.hyps(2,3) by (simp add: XJSON_WriteHashmap_def cnt)
    show "wrote h tab M u (?body f ob' M W) i (\<lambda>x. \<exists>xs. items_text_of h ts F False x xs) (card F * 2 ^ 35)"
      if b: "card F \<le> f" "wready h tab M W u i (card F * 2 ^ 35 + L)" "i + tab * card F < 2 ^ 31" for f ob' tab M W u i L
    proof -
      have loop: "wrote h tab M u (items_loop (XJSON_WriteObject f) (\<lambda>M a. Some M) (\<lambda>W. wr_nTabSize W \<noteq> 0) (length ts) 0 (map addr ts) M W) i
          (\<lambda>x. \<exists>xs. items_text_of h ts F False x xs) (card F * 2 ^ 35)" if "wready h tab M W u i (card F * 2 ^ 35 + L)" for M
        using IH [unfolded items_write_def, rule_format, OF b(1) that b(3) _ prep_ok_id] rep_obj.hyps(7) by simp
      show ?thesis
      proof (cases "ts = []")
        case True
        with loop [OF b(2)] cnt show ?thesis by simp
      next
        case False
        then have ne: "mp_nCount m \<noteq> 0" using cnt by simp
        show ?thesis
        proof (cases "snd (jalloc M 24)")
          case no: False
          then show ?thesis using wrote_refused [of M 24] ne by (simp add: case_prod_beta')
        next
          case True
          from wrote_tick [OF loop [OF wready_tick [OF b(2)]], of 24] show ?thesis
            using True ne hash_items [OF rep_obj.hyps(4,5,6) False, of "XJSON_WriteObject f" "fst (jalloc M 24)" W]
            by (simp add: case_prod_beta' Let_def)
        qed
      qed
    qed
  qed
next
  case reps_nil
  show ?case by (rule items_write_Nil)
next
  case (reps_cons x nm v F ts G)
  have fin: "finite F" "finite G" "x \<in> dom h" "F \<noteq> {}"
    using rep_foot(1) [OF reps_cons.IH(1)] rep_foot(2) [OF reps_cons.IH(3)] rep_root [OF reps_cons.IH(1)] by auto
  show ?case
  proof (rule items_write_Cons [OF reps_cons.IH(2,4) fin(3,1,2,4) reps_cons.hyps])
    show "clean v" using reps_cons.prems(1) [of "(x, nm, v)"] by simp
    show "clean_text k" if "nm = Some k" for k using reps_cons.prems(2) [of "(x, nm, v)"] that by simp
    show "clean (val t)" if "t \<in> set ts" for t using reps_cons.prems(1) [of t] that by simp
    show "clean_text k" if "t \<in> set ts" "nam t = Some k" for t k using reps_cons.prems(2) [of t k] that by simp
  qed
qed

section \<open>Parsed texts are clean, and small\<close>

lemma key_clean:
  assumes "json_key isarr p k" "0 \<notin> set p" "length p < 2 ^ 30"
  shows "isarr \<longleftrightarrow> k = None" "k = Some k' \<Longrightarrow> clean_text k'"
proof -
  show "isarr \<longleftrightarrow> k = None" using assms(1) by (cases isarr) (auto simp: json_key_def)
  assume k: "k = Some k'"
  with assms(1) obtain b q where "json_body b" "p = 34 # b @ q" "k' = cstr b" by (cases isarr) (auto simp: json_key_def)
  with assms(2,3) show "clean_text k'" by (simp add: clean_text_def cstr_id)
qed

lemma text_clean:
  "json_text w v \<Longrightarrow> 0 \<notin> set w \<Longrightarrow> length w < 2 ^ 30 \<Longrightarrow> clean v"
  "json_items isarr w xs \<Longrightarrow> 0 \<notin> set w \<Longrightarrow> length w < 2 ^ 30 \<Longrightarrow>
     (\<forall>x \<in> set xs. clean (snd x) \<and> (isarr \<longleftrightarrow> fst x = None) \<and> (\<forall>k. fst x = Some k \<longrightarrow> clean_text k))"
proof (induction rule: json_text_json_items.inducts)
  case (text_item t w)
  show ?case
  proof (cases "t = XJSON_TOKEN_QUOTE")
    case True
    with text_item obtain b where b: "w = 34 # b @ [34]" "json_body b" by (auto simp: token_text_def)
    with text_item.prems True show ?thesis by (simp add: item_bytes_def clean_text_def cstr_id)
  next
    case False
    then have "item_bytes t w = w" by (simp add: item_bytes_def)
    moreover have "XJSON_GetItemType t \<noteq> XJSON_TYPE_STRING" using False by (cases t) auto
    ultimately show ?thesis using text_item by (auto simp: cstr_id)
  qed
next
  case (text_empty s isarr)
  show ?case by (simp add: items_value_def)
next
  case (text_items isarr w xs)
  then have A: "\<forall>x \<in> set xs. clean (snd x) \<and> (isarr \<longleftrightarrow> fst x = None) \<and> (\<forall>k. fst x = Some k \<longrightarrow> clean_text k)" by simp
  show ?case
  proof (cases isarr)
    case False
    have "clean_text (the (fst x))" if "x \<in> set xs" for x using A that False by (cases "fst x") auto
    with A False show ?thesis by (simp add: items_value_def)
  qed (use A in \<open>simp add: items_value_def\<close>)
next
  case (items_one s1 isarr p k w v s2)
  then have "0 \<notin> set p" "length p < 2 ^ 30" "clean v" by simp_all
  with key_clean [OF items_one.hyps(2)] show ?case by simp
next
  case (items_more s1 isarr p k w v s2 ws xs)
  then have "0 \<notin> set p" "length p < 2 ^ 30" "clean v" by simp_all
  moreover have "\<forall>x \<in> set xs. clean (snd x) \<and> (isarr \<longleftrightarrow> fst x = None) \<and> (\<forall>k. fst x = Some k \<longrightarrow> clean_text k)"
    by (rule items_more.IH(2)) (use items_more.prems in simp_all)
  ultimately show ?case using key_clean [OF items_more.hyps(2)] by simp
qed

fun vsize :: "jval \<Rightarrow> nat" where
  "vsize (JText t s) = 1"
| "vsize (JArr vs) = Suc (sum_list (map vsize vs))"
| "vsize (JObj kvs) = Suc (sum_list (map (\<lambda>x. vsize (snd x)) kvs))"

lemma rep_vsize:
  "rep h a nm v F \<Longrightarrow> card F = vsize v"
  "reps h ts F \<Longrightarrow> card F = sum_list (map (\<lambda>t. vsize (val t)) ts)"
proof (induction rule: rep_reps.inducts)
  case (rep_obj a ob nm m d ts F kvs)
  have "finite F" using rep_foot(2) [OF rep_obj.IH(2)] by blast
  moreover have "sum_list (map (\<lambda>x. vsize (snd x)) kvs) = sum_list (map (\<lambda>x. vsize (snd x)) (map (\<lambda>t. (the (nam t), val t)) ts))"
    unfolding sum_mset_sum_list [symmetric] mset_map rep_obj.hyps(9) ..
  ultimately show ?case using rep_obj by (simp add: comp_def)
next
  case (rep_arr a ob nm r ts F)
  then show ?case using rep_foot(2) [OF rep_arr.IH(2)] by (simp add: comp_def)
next
  case (reps_cons x nm v F ts G)
  have "card (F \<union> G) = card F + card G"
    using rep_foot(1) [OF reps_cons.IH(1)] rep_foot(2) [OF reps_cons.IH(3)] reps_cons.hyps by (intro card_Un_disjoint) auto
  with reps_cons show ?case by simp
qed simp_all

lemma text_vsize:
  "json_text w v \<Longrightarrow> vsize v \<le> length w"
  "json_items isarr w xs \<Longrightarrow> sum_list (map (\<lambda>x. vsize (snd x)) xs) \<le> length w"
proof (induction rule: json_text_json_items.inducts)
  case (text_item t w)
  with token_length [of t w] show ?case by (cases w) auto
next
  case (text_items isarr w xs)
  then show ?case by (simp add: items_value_def comp_def)
qed (simp_all add: items_value_def)

section \<open>Writing and parsing again\<close>

lemma InitWriter_spec:
  "\<exists>M' W' ok. XJSON_InitWriter M W None 1 = Some (M', W', ok) \<and> jm_step M {} M' \<and>
     (if ok then (\<forall>f. wr_rep (W'\<lparr>wr_format := f, wr_nTabSize := tab, wr_nPretty := False\<rparr>) []) \<and> wr_nIndents W' = 0 else scarce M)"
  by (auto simp: XJSON_InitWriter_def Let_def jalloc_def jm_step_def wr_rep_def poke_def scarce_def)

text \<open>The text of a tree without a name.\<close>

lemma DumpObj_spec:
  assumes r: "rep (jm_heap M) a None v F" "clean v" and n: "card F < 2 ^ 27" "card F \<le> fuel" "tab * card F < 2 ^ 31"
  shows "\<exists>M' r. XJSON_DumpObj fuel M W (Some a) tab = Some (M', r) \<and>
    (case r of None \<Rightarrow> scarce M
     | Some (d, n) \<Rightarrow> \<exists>b w v'. d = (b @ w) @ [0] \<and> n = length (b @ w) \<and> list_all is_ws b \<and> json_text w v' \<and> rep (jm_heap M) a None v' F)"
proof -
  have step: "writes (jm_heap M) a None F" by (rule write_rep(1) [OF r]) simp
  from InitWriter_spec [of M W tab] obtain M1 W1 ok where
    I: "XJSON_InitWriter M W None 1 = Some (M1, W1, ok)" "jm_step M {} M1"
      "if ok then (\<forall>f. wr_rep (W1\<lparr>wr_format := f, wr_nTabSize := tab, wr_nPretty := False\<rparr>) []) \<and> wr_nIndents W1 = 0 else scarce M" by blast
  have M1: "jm_ok M1 = jm_ok M" "jm_grow M1 = jm_grow M" "jm_heap M1 = jm_heap M" using I(2) by (auto simp: jm_step_def)
  show ?thesis
  proof (cases ok)
    case False
    with I show ?thesis by (simp add: XJSON_DumpObj_def write_all_def)
  next
    case True
    let ?W = "W1\<lparr>wr_format := XJSON_FormatCopy (wr_format W1) None, wr_nTabSize := tab, wr_nPretty := False\<rparr>"
    have w: "wready (jm_heap M) tab M1 ?W [] 0 (card F * 2 ^ 35 + 0)" using I(3) True M1 n(1) by (simp add: wready_def)
    from step [unfolded writes_def, rule_format, OF n(2) w] n(3) obtain M2 W2 ok2 where
      R: "XJSON_WriteObject fuel M1 ?W (Some a) = Some (M2, W2, ok2)"
        "if ok2 then \<exists>x. (\<exists>v. rep (jm_heap M) a None v F \<and> item_out None v x) \<and> length x \<le> card F * 2 ^ 35 - 2 ^ 34 \<and> same_up (jm_heap M) (jm_heap M2) \<and>
           wr_rep W2 ([] @ x) \<and> \<not> wr_nPretty W2 \<and> wr_nTabSize W2 = tab \<and> wr_nIndents W2 = 0 else scarce M1"
      unfolding wrote_def by auto
    show ?thesis
    proof (cases ok2)
      case False
      with R I True M1 show ?thesis by (simp add: XJSON_DumpObj_def write_all_def Let_def scarce_def)
    next
      case ok2: True
      with R(2) obtain x v' b p w' where X: "rep (jm_heap M) a None v' F" "wr_rep W2 x" "list_all is_ws b" "json_key True p None" "json_text w' v'" "x = b @ p @ w'"
        by (auto simp: item_out_def)
      then have "p = []" by (simp add: json_key_def)
      with X R(1) I(1) True ok2 show ?thesis by (auto simp: XJSON_DumpObj_def write_all_def Let_def wr_rep_def)
    qed
  qed
qed

lemma container_rep: "rep h a nm v F \<Longrightarrow> rep h a nm v' F' \<Longrightarrow> is_container v \<Longrightarrow> is_container v'"
proof -
  have c: "is_container u \<longleftrightarrow> (\<forall>t s. u \<noteq> JText t s)" for u
  proof (cases u)
    case (JObj kvs)
    have "u = items_value False (map (\<lambda>x. (Some (fst x), snd x)) kvs)" using JObj by (simp add: items_value_def comp_def)
    with JObj show ?thesis unfolding is_container_def by blast
  next
    case (JArr vs)
    have "u = items_value True (map (\<lambda>v. (None, v)) vs)" using JArr by (simp add: items_value_def comp_def)
    with JArr show ?thesis unfolding is_container_def by blast
  qed (auto simp: is_container_def items_value_def split: if_splits)
  have t: "(\<exists>s. v = JText t s) \<longleftrightarrow> (\<exists>ob s. h a = Some ob \<and> ob_pData ob = Text s \<and> ob_nType ob = t)" if "rep h a nm v F" for v F t
    using that by (cases rule: rep.cases) auto
  assume "rep h a nm v F" "rep h a nm v' F'" "is_container v"
  then show "is_container v'" using t [of v F] t [of v' F'] unfolding c by metis
qed

section \<open>What the writer promises\<close>

text \<open>
  C5: Escaping. For every C string the block \<open>XJSON_EscapeString\<close> requests is exactly as long as what it writes, and
  the text is the body of a JSON string; a text that is such a body already is left alone. Hence it is not injective: a
  line feed, and a backslash followed by the letter n, give the same text.
\<close>

theorem json_escape:
  assumes "0 \<notin> set s"
  shows "XJSON_EscapeString M s =
      Some (fst (jalloc M (length (escape_loop s) + 1)), if snd (jalloc M (length (escape_loop s) + 1)) then Some (escape_loop s) else None) \<and>
    json_body (escape_loop s) \<and> 0 \<notin> set (escape_loop s) \<and> (json_body s \<longrightarrow> escape_loop s = s) \<and>
    escape_loop [10] = [92, 110] \<and> escape_loop [92, 110] = [92, 110]"
proof -
  have "escape_loop [10] = [92, 110]" using escape_loop_plain [of 10 "[]"] by (simp add: XJSON_ValidEscapeLength_def escape_char_def)
  moreover have "escape_loop [92, 110] = [92, 110]" using escape_loop_two [of 110 "[]"] by (simp add: is_escape_def)
  ultimately show ?thesis using escape_loop_body [OF assms] escape_loop_id [of s] by (simp add: EscapeString_spec Let_def case_prod_beta')
qed

lemma json_escape_witness: "json_body (escape_loop [34, 1, 92])"
  using json_escape [of "[34, 1, 92]" undefined] by simp

text \<open>
  C3: Parsing, writing and parsing again. A text below 2^27 bytes and without NUL bytes that the parser accepts (with enough
  fuel, in a memory in which the pointer table of an array can grow) is written back: \<open>XJSON_Dump\<close> returns, with any
  indentation whose product with the length of the text is below 2^31, and fails only where a request for memory is refused.
  The root of the document stands for a value such that the text written, when it is below 2^27 bytes and no request for memory
  is refused, is accepted by the parser and gives a tree that stands for the same value.
\<close>

theorem json_reparse:
  assumes "length d < 2 ^ 27" "length d < fuel" "jm_wf M" "\<And>t n. jm_grow M t n" "0 \<notin> set d" "nTabSize * length d < 2 ^ 31"
    "XJSON_Parse fuel j M (Some d) (length d) = Some (j1, M1, True)"
  shows "\<exists>M2 r. XJSON_Dump fuel M1 W j1 nTabSize = Some (M2, r) \<and>
    (case r of None \<Rightarrow> scarce M1
     | Some (t, n) \<Rightarrow> \<exists>u a v F. t = u @ [0] \<and> n = length u \<and> js_pRootObj j1 = Some a \<and> rep (jm_heap M1) a None v F \<and>
         (\<forall>M3 j3 fuel3. jm_wf M3 \<longrightarrow> \<not> scarce M3 \<longrightarrow> length u < 2 ^ 27 \<longrightarrow> length u < fuel3 \<longrightarrow>
           (\<exists>j4 M4 a' F'. XJSON_Parse fuel3 j3 M3 (Some u) (length u) = Some (j4, M4, True) \<and>
              js_pRootObj j4 = Some a' \<and> rep (jm_heap M4) a' None v F')))"
proof -
  from XJSON_Parse_sound [OF assms(1-3) _, of j] assms(4,7) have parsed: "parsed d M j1 M1 True" by auto
  then obtain s1 w s2 v a F where P: "d = s1 @ w @ s2" "json_text w v" "is_container v" "js_pRootObj j1 = Some a" "rep (jm_heap M1) a None v F"
    unfolding parsed_def by auto
  have len: "length w \<le> length d" "0 \<notin> set w" "length w < 2 ^ 30" using P(1) assms(1,5) by auto
  have cl: "clean v" by (rule text_clean(1) [OF P(2) len(2,3)])
  have n: "card F \<le> length d" using rep_vsize(1) [OF P(5)] text_vsize(1) [OF P(2)] len(1) by simp
  have tab: "nTabSize * card F < 2 ^ 31" using le_less_trans [OF mult_le_mono2 [OF n] assms(6)] .
  have c: "card F < 2 ^ 27" "card F \<le> fuel" using n assms(1,2) by simp_all
  from DumpObj_spec [OF P(5) cl c tab, of W] obtain M2 r where
    D: "XJSON_DumpObj fuel M1 W (Some a) nTabSize = Some (M2, r)"
      "case r of None \<Rightarrow> scarce M1
       | Some (t, n) \<Rightarrow> \<exists>b w v'. t = (b @ w) @ [0] \<and> n = length (b @ w) \<and> list_all is_ws b \<and> json_text w v' \<and> rep (jm_heap M1) a None v' F"
    by blast
  have dump: "XJSON_Dump fuel M1 W j1 nTabSize = Some (M2, r)" unfolding XJSON_Dump_def P(4) by (rule D(1))
  show ?thesis
  proof (cases r)
    case None
    then show ?thesis using dump D(2) by simp
  next
    case (Some x)
    then obtain b w' v' where
      x: "x = ((b @ w') @ [0], length (b @ w'))" "list_all is_ws b" "json_text w' v'" "rep (jm_heap M1) a None v' F"
      using D(2) by (cases x) auto
    have v': "is_container v'" by (rule container_rep [OF P(5) x(4) P(3)])
    have "\<exists>j4 M4 a' F'. XJSON_Parse fuel3 j3 M3 (Some (b @ w')) (length (b @ w')) = Some (j4, M4, True) \<and>
           js_pRootObj j4 = Some a' \<and> rep (jm_heap M4) a' None v' F'"
      if M3: "jm_wf M3" "\<not> scarce M3" "length (b @ w') < 2 ^ 27" "length (b @ w') < fuel3" for M3 j3 fuel3
    proof -
      have "b @ w' = b @ w' @ []" by simp
      from XJSON_Parse_complete [OF x(3) v' x(2) _ this M3(3,4,1,2), of j3] show ?thesis by fastforce
    qed
    then have "\<exists>u a v F. fst x = u @ [0] \<and> snd x = length u \<and> js_pRootObj j1 = Some a \<and> rep (jm_heap M1) a None v F \<and>
         (\<forall>M3 j3 fuel3. jm_wf M3 \<longrightarrow> \<not> scarce M3 \<longrightarrow> length u < 2 ^ 27 \<longrightarrow> length u < fuel3 \<longrightarrow>
           (\<exists>j4 M4 a' F'. XJSON_Parse fuel3 j3 M3 (Some u) (length u) = Some (j4, M4, True) \<and>
              js_pRootObj j4 = Some a' \<and> rep (jm_heap M4) a' None v F'))"
      using x(1,4) P(4)
      by - (rule exI [of _ "b @ w'"], rule exI [of _ a], rule exI [of _ v'], rule exI [of _ F], simp)
    then show ?thesis using dump Some by (simp add: case_prod_beta)
  qed
qed

definition blank_writer :: xjson_writer where
  "blank_writer = \<lparr>wr_format = XJSON_FormatInit, wr_nPretty = False, wr_nTabSize = 0, wr_nIndents = 0, wr_nLength = 0, wr_nAvail = 0, wr_nSize = 0,
     wr_pData = None, wr_nAlloc = False, wr_new = \<lambda>_ _. 0\<rparr>"

lemma json_reparse_witness:
  "\<exists>j1 M1 M2 r. XJSON_Parse 9 blank_json ample (Some [91, 49, 93]) (length [91, 49, 93 :: byte]) = Some (j1, M1, True) \<and>
     XJSON_Dump 9 M1 blank_writer j1 9 = Some (M2, r) \<and> (r = None \<longrightarrow> scarce M1)"
proof -
  have "[91, 49, 93 :: byte] = [] @ [91, 49, 93] @ []" by simp
  from XJSON_Parse_complete [OF one_text _ _ this _ _ ample_ok(1,2), of 9 blank_json] obtain j1 M1 where
    P: "XJSON_Parse 9 blank_json ample (Some [91, 49, 93]) (length [91, 49, 93 :: byte]) = Some (j1, M1, True)" by auto
  have m: "M1 = M1 \<and> (\<forall>t n. jm_grow ample t n)" using ample_ok(2) by (simp add: scarce_def)
  from json_reparse [OF _ _ ample_ok(1) _ _ _ P, of 9 blank_writer] m show ?thesis using P by auto
qed

end
