(* ===== verification/JsonGet.thy ===== *)
theory JsonGet
  imports JsonRound
begin

text \<open>
  Reading and editing documents: the getters of \<open>src/src/data/json.c\<close>, the removal of an item, the members that
  are created when they are missing, the messages for errors, and \<open>XJSON_FromStr\<close>. The conversions of texts to
  numbers are those of the C library: \<open>atol\<close> has no defined result out of the range of \<open>long\<close>, and
  \<open>strtoull\<close> with base 0 takes the base from the prefix. The value of a \<open>double\<close> is a parameter.
\<close>

section \<open>Operations\<close>

definition XJSON_CheckObject :: "jmem \<Rightarrow> nat option \<Rightarrow> xjson_type \<Rightarrow> xjson_obj option option" where
  "XJSON_CheckObject M p nType =
     (case p of
        None \<Rightarrow> Some None
      | Some a \<Rightarrow> do { ob \<leftarrow> jm_heap M a; Some (if ob_pData ob \<noteq> Nothing \<and> ob_nType ob = nType then Some ob else None) })"

definition the_map :: "xjson_obj \<Rightarrow> nat xmap option" where
  "the_map ob = (case ob_pData ob of Map m \<Rightarrow> Some m | _ \<Rightarrow> None)"

definition the_arr :: "xjson_obj \<Rightarrow> nat xarray option" where
  "the_arr ob = (case ob_pData ob of Arr r \<Rightarrow> Some r | _ \<Rightarrow> None)"

definition the_text :: "xjson_obj \<Rightarrow> byte list option" where
  "the_text ob = (case ob_pData ob of Text s \<Rightarrow> Some s | _ \<Rightarrow> None)"

text \<open>The iterator that collects the pairs, and \<open>XJSON_GetObjects\<close>; the array of pairs is a new one.\<close>

definition XJSON_CollectIt :: "nat xmap_pair \<Rightarrow> (jmem \<times> nat xmap_pair xarray) option \<Rightarrow> int \<times> (jmem \<times> nat xmap_pair xarray) option" where
  "XJSON_CollectIt p x =
     (case x of
        None \<Rightarrow> (XMAP_STOP, None)
      | Some (M, r) \<Rightarrow>
          let t = jm_tick M; M = M\<lparr>jm_tick := t + 2\<rparr>
          in case XArray_AddData (jm_ok M t 24) False (cells M (t + 1)) r (Some p) 0 of
               None \<Rightarrow> (XMAP_STOP, None)
             | Some (r, st) \<Rightarrow> (if st < 0 then XMAP_STOP else XMAP_OK, Some (M, r)))"

definition XJSON_GetObjects :: "jmem \<Rightarrow> nat option \<Rightarrow> nat xmap_pair xarray \<Rightarrow> (jmem \<times> nat xmap_pair xarray option) option" where
  "XJSON_GetObjects M p junk = do {
     c \<leftarrow> XJSON_CheckObject M p XJSON_TYPE_OBJECT;
     (case c of
        None \<Rightarrow> Some (M, None)
      | Some ob \<Rightarrow> do {
          m \<leftarrow> the_map ob;
          let (M, ok) = jalloc M 64;
          let t = jm_tick M;
          let M = M\<lparr>jm_tick := t + 1\<rparr>;
          r \<leftarrow> XArray_New ok (cells M t) junk 0 False;
          (case r of
             None \<Rightarrow> Some (M, None)
           | Some r \<Rightarrow> do {
               (st, x) \<leftarrow> XMap_Iterate m XJSON_CollectIt (Some (M, r));
               (M, r) \<leftarrow> x;
               if st \<noteq> XMAP_OK then do { _ \<leftarrow> XArray_Destroy r; Some (M, None) } else Some (M, Some r) }) }) }"

definition XJSON_GetObject :: "jmem \<Rightarrow> nat option \<Rightarrow> byte list \<Rightarrow> nat option option" where
  "XJSON_GetObject M p pName = do {
     c \<leftarrow> XJSON_CheckObject M p XJSON_TYPE_OBJECT;
     (case c of None \<Rightarrow> Some None | Some ob \<Rightarrow> do { m \<leftarrow> the_map ob; XMap_Get m pName }) }"

text \<open>The two functions that create a missing member differ in its type and its constructor.\<close>

definition get_or_create :: "xjson_type \<Rightarrow> (jmem \<Rightarrow> byte list option \<Rightarrow> bool \<Rightarrow> (jmem \<times> nat option) option) \<Rightarrow>
    jmem \<Rightarrow> nat option \<Rightarrow> byte list \<Rightarrow> bool \<Rightarrow> (jmem \<times> nat option) option" where
  "get_or_create nType new_obj M p pName nAllowUpdate =
     (if p = None then Some (M, None)
      else do {
        c \<leftarrow> XJSON_GetObject M p pName;
        (case c of
           Some a \<Rightarrow> do {
             ob \<leftarrow> jm_heap M a;
             if ob_nType ob \<noteq> nType then Some (M, None) else Some (store M a (ob\<lparr>ob_nAllowUpdate := nAllowUpdate\<rparr>), Some a) }
         | None \<Rightarrow> do {
             (M, q) \<leftarrow> new_obj M (Some pName) nAllowUpdate;
             (case q of
                None \<Rightarrow> Some (M, None)
              | Some b \<Rightarrow> do {
                  (M, e) \<leftarrow> XJSON_AddObject M p (Some b);
                  if e \<noteq> XJSON_ERR_NONE then do { M \<leftarrow> XJSON_FreeObject M (Some b); Some (M, None) } else Some (M, Some b) }) }) })"

definition XJSON_GetOrCreateObject :: "jmem \<Rightarrow> nat option \<Rightarrow> byte list \<Rightarrow> bool \<Rightarrow> (jmem \<times> nat option) option" where
  "XJSON_GetOrCreateObject = get_or_create XJSON_TYPE_OBJECT XJSON_NewObject"

definition XJSON_GetOrCreateArray :: "jmem \<Rightarrow> nat option \<Rightarrow> byte list \<Rightarrow> bool \<Rightarrow> (jmem \<times> nat option) option" where
  "XJSON_GetOrCreateArray = get_or_create XJSON_TYPE_ARRAY XJSON_NewArray"

definition XJSON_GetArrayItem :: "jmem \<Rightarrow> nat option \<Rightarrow> nat \<Rightarrow> nat option option" where
  "XJSON_GetArrayItem M p nIndex = do {
     c \<leftarrow> XJSON_CheckObject M p XJSON_TYPE_ARRAY;
     (case c of None \<Rightarrow> Some None | Some ob \<Rightarrow> do { r \<leftarrow> the_arr ob; XArray_GetData r nIndex }) }"

definition XJSON_RemoveArrayItem :: "jmem \<Rightarrow> nat option \<Rightarrow> nat \<Rightarrow> jmem option" where
  "XJSON_RemoveArrayItem M p nIndex = do {
     c \<leftarrow> XJSON_GetArrayItem M p nIndex;
     (case c of
        None \<Rightarrow> Some M
      | Some b \<Rightarrow> do {
          a \<leftarrow> p;
          ob \<leftarrow> jm_heap M a;
          r \<leftarrow> the_arr ob;
          let t = jm_tick M;
          (r, _) \<leftarrow> XArray_Remove (cells M t) r nIndex;
          XJSON_FreeObject (store (M\<lparr>jm_tick := t + 1\<rparr>) a (ob\<lparr>ob_pData := Arr r\<rparr>)) (Some b) }) }"

definition XJSON_GetArrayLength :: "jmem \<Rightarrow> nat option \<Rightarrow> nat option" where
  "XJSON_GetArrayLength M p = do {
     c \<leftarrow> XJSON_CheckObject M p XJSON_TYPE_ARRAY;
     (case c of None \<Rightarrow> Some 0 | Some ob \<Rightarrow> do { r \<leftarrow> the_arr ob; Some (XArray_Used (Some r)) }) }"

text \<open>The conversions of the C library.\<close>

definition c_space :: "byte \<Rightarrow> bool" where
  "c_space c \<longleftrightarrow> c = 32 \<or> 9 \<le> c \<and> c \<le> 13"

definition c_digit :: "byte \<Rightarrow> nat option" where
  "c_digit c =
     (if 48 \<le> c \<and> c \<le> 57 then Some (unat c - 48)
      else if 97 \<le> c \<and> c \<le> 122 then Some (unat c - 87)
      else if 65 \<le> c \<and> c \<le> 90 then Some (unat c - 55) else None)"

fun c_value :: "nat \<Rightarrow> nat \<Rightarrow> byte list \<Rightarrow> nat" where
  "c_value base acc [] = acc"
| "c_value base acc (c # s) =
     (case c_digit c of None \<Rightarrow> acc | Some k \<Rightarrow> if k < base then c_value base (acc * base + k) s else acc)"

definition c_sign :: "byte list \<Rightarrow> bool \<times> byte list" where
  "c_sign s = (case dropWhile c_space s of [] \<Rightarrow> (False, []) | c # w \<Rightarrow> if c = 45 then (True, w) else if c = 43 then (False, w) else (False, c # w))"

definition atol :: "byte list \<Rightarrow> int option" where
  "atol s =
     (let (neg, w) = c_sign s; v = int (c_value 10 0 w); v = (if neg then - v else v)
      in if - (2 ^ 63) \<le> v \<and> v < 2 ^ 63 then Some v else None)"

definition atoi :: "byte list \<Rightarrow> int option" where
  "atoi s = do { v \<leftarrow> atol s; if - (2 ^ 31) \<le> v \<and> v < 2 ^ 31 then Some v else None }"

definition strtoull0 :: "byte list \<Rightarrow> u64" where
  "strtoull0 s =
     (let (neg, w) = c_sign s;
          v = (case w of
                 c # d # e # w' \<Rightarrow>
                   if c = 48 \<and> (d = 120 \<or> d = 88) \<and> (case c_digit e of Some k \<Rightarrow> k < 16 | None \<Rightarrow> False) then c_value 16 0 (e # w')
                   else if c = 48 then c_value 8 0 w else c_value 10 0 w
               | c # _ \<Rightarrow> if c = 48 then c_value 8 0 w else c_value 10 0 w
               | [] \<Rightarrow> 0)
      in if 2 ^ 64 \<le> v then - 1 else if neg then - of_nat v else of_nat v)"

definition get_scalar :: "jmem \<Rightarrow> nat option \<Rightarrow> xjson_type \<Rightarrow> 'a \<Rightarrow> (byte list \<Rightarrow> 'a option) \<Rightarrow> 'a option" where
  "get_scalar M p nType dflt conv = do {
     c \<leftarrow> XJSON_CheckObject M p nType;
     (case c of None \<Rightarrow> Some dflt | Some ob \<Rightarrow> do { s \<leftarrow> the_text ob; conv s }) }"

definition XJSON_GetInt :: "jmem \<Rightarrow> nat option \<Rightarrow> 32 word option" where
  "XJSON_GetInt M p = get_scalar M p XJSON_TYPE_NUMBER 0 (\<lambda>s. map_option word_of_int (atoi s))"

definition XJSON_GetFloat :: "(byte list \<Rightarrow> 'f) \<Rightarrow> 'f \<Rightarrow> jmem \<Rightarrow> nat option \<Rightarrow> 'f option" where
  "XJSON_GetFloat atof zero M p = get_scalar M p XJSON_TYPE_FLOAT zero (\<lambda>s. Some (atof s))"

definition XJSON_GetU16 :: "jmem \<Rightarrow> nat option \<Rightarrow> u16 option" where
  "XJSON_GetU16 M p = get_scalar M p XJSON_TYPE_NUMBER 0 (\<lambda>s. map_option word_of_int (atol s))"

definition XJSON_GetU32 :: "jmem \<Rightarrow> nat option \<Rightarrow> u32 option" where
  "XJSON_GetU32 M p = get_scalar M p XJSON_TYPE_NUMBER 0 (\<lambda>s. map_option word_of_int (atol s))"

definition XJSON_GetU64 :: "jmem \<Rightarrow> nat option \<Rightarrow> u64 option" where
  "XJSON_GetU64 M p = get_scalar M p XJSON_TYPE_NUMBER 0 (\<lambda>s. Some (strtoull0 s))"

definition XJSON_GetBool :: "jmem \<Rightarrow> nat option \<Rightarrow> bool option" where
  "XJSON_GetBool M p = get_scalar M p XJSON_TYPE_BOOLEAN False (\<lambda>s. Some (take 4 s = true_text))"

definition XJSON_GetString :: "jmem \<Rightarrow> nat option \<Rightarrow> byte list option" where
  "XJSON_GetString M p = get_scalar M p XJSON_TYPE_STRING [] Some"

text \<open>The message for the error of a parser, cut to the block it is written to; it gives the length.\<close>

definition error_text :: "xjson \<Rightarrow> byte list option" where
  "error_text j =
     (let at = [112, 111, 115, 105, 116, 40] @ dec_text (js_nOffset j) @ [41];
          eof = [85, 110, 101, 120, 112, 101, 99, 116, 101, 100, 32, 69, 79, 70, 32, 97, 116, 32] @ at
      in case js_nError j of
           XJSON_ERR_INVALID \<Rightarrow> Some ([73, 110, 118, 97, 108, 105, 100, 32, 105, 116, 101, 109, 32, 97, 116, 32] @ at)
         | XJSON_ERR_EXITS \<Rightarrow> Some ([68, 117, 112, 108, 105, 99, 97, 116, 101, 32, 75, 101, 121, 32, 97, 116, 32] @ at)
         | XJSON_ERR_BOUNDS \<Rightarrow> Some eof
         | XJSON_ERR_ALLOC \<Rightarrow>
             Some ([67, 97, 110, 32, 110, 111, 116, 32, 97, 108, 108, 111, 99, 97, 116, 101, 32, 109, 101, 109, 111, 114, 121, 32,
               102, 111, 114, 32, 111, 98, 106, 101, 99, 116, 32, 97, 116, 32] @ at)
         | XJSON_ERR_UNEXPECTED \<Rightarrow>
             if js_pData j = None \<or> js_nDataSize j \<le> js_nOffset j then Some eof
             else do {
               c \<leftarrow> cpeek (js_pData j) (js_nOffset j);
               Some ([85, 110, 101, 120, 112, 101, 99, 116, 101, 100, 32, 115, 121, 109, 98, 111, 108, 32, 39, c, 39, 32, 97, 116, 32] @ at) }
         | XJSON_ERR_NONE \<Rightarrow> Some [85, 110, 100, 101, 99, 108, 97, 114, 101, 100, 32, 101, 114, 114, 111, 114])"

definition XJSON_GetErrorStr :: "xjson option \<Rightarrow> byte list option \<Rightarrow> nat \<Rightarrow> (byte list option \<times> nat) option" where
  "XJSON_GetErrorStr pJson pOutput nSize =
     (case (pJson, pOutput) of
        (Some j, Some out) \<Rightarrow>
          if nSize = 0 then Some (pOutput, 0)
          else do { s \<leftarrow> error_text j; (out, n) \<leftarrow> xstrncpyf_at out 0 nSize s; Some (Some out, n) }
      | _ \<Rightarrow> Some (pOutput, 0))"

text \<open>\<open>s\<close> is the text the format stands for; \<open>j\<close> is the parser on the stack.\<close>

definition XJSON_FromStr :: "nat \<Rightarrow> xjson \<Rightarrow> jmem \<Rightarrow> byte list \<Rightarrow> (jmem \<times> nat option) option" where
  "XJSON_FromStr fuel j M s =
     (let n = fmt_len s
      in if n = 0 then Some (M, None)
         else let (M, ok) = jalloc M (n + 1)
              in if \<not> ok then Some (M, None)
                 else do {
                   (j, M, ok) \<leftarrow> XJSON_Parse fuel j M (Some (s @ [0])) n;
                   if ok then Some (M, js_pRootObj j) else do { (j, M) \<leftarrow> XJSON_Destroy j M; Some (M, None) } })"

section \<open>Looking up\<close>

lemma used_pairs_map: "map_ok m \<Longrightarrow> mp_pPairs m = Some d \<Longrightarrow> mp_map m = map_of (used_pairs d) \<and> distinct (map fst (used_pairs d))"
  using wf_table [of m d] by (simp add: map_ok_def tbl_ok_def)

lemma reps_pick: "reps h ts F \<Longrightarrow> t \<in> set ts \<Longrightarrow> \<exists>G \<subseteq> F. rep h (addr t) (nam t) (val t) G"
  using reps_remove [of h ts F t] by blast

lemma GetObject_rep:
  assumes a: "rep (jm_heap M) a nm (JObj kvs) F"
  shows "distinct (map fst kvs)"
    "(k, v) \<in> set kvs \<Longrightarrow> \<exists>b G. XJSON_GetObject M (Some a) k = Some (Some b) \<and> G \<subseteq> F - {a} \<and> rep (jm_heap M) b (Some k) v G"
    "k \<notin> fst ` set kvs \<Longrightarrow> XJSON_GetObject M (Some a) k = Some None"
proof -
  from a obtain ob m d ts F1 where D: "jm_heap M a = Some ob" "ob_nType ob = XJSON_TYPE_OBJECT"
    "ob_pData ob = Map m" "map_ok m" "mp_pPairs m = Some d" "used_pairs d = map (\<lambda>t. (the (nam t), Some (addr t))) ts"
    "\<forall>t \<in> set ts. nam t \<noteq> None" "reps (jm_heap M) ts F1" "a \<notin> F1" "mset kvs = mset (map (\<lambda>t. (the (nam t), val t)) ts)"
    "F = insert a F1" by (auto elim!: rep_JObj)
  note U = used_pairs_map [OF D(4,5)]
  have w: "mp_wf m" using D(4) by (simp add: map_ok_def)
  have get: "XJSON_GetObject M (Some a) k = Some (case mp_map m k of None \<Rightarrow> None | Some x \<Rightarrow> x)"
    using D(1-3) by (simp add: XJSON_GetObject_def XJSON_CheckObject_def the_map_def map_Get_spec(2) [OF w])
  have names: "map fst (used_pairs d) = map (\<lambda>t. the (nam t)) ts" unfolding D(6) by simp
  have "mset (map fst kvs) = mset (map (\<lambda>t. the (nam t)) ts)" using arg_cong [OF D(10), of "image_mset fst"] by (simp add: multiset.map_comp comp_def)
  then have "distinct (map fst kvs) \<longleftrightarrow> distinct (map (\<lambda>t. the (nam t)) ts)" by (rule mset_eq_imp_distinct_iff)
  then show "distinct (map fst kvs)" using U names by simp
  have sk: "set kvs = (\<lambda>t. (the (nam t), val t)) ` set ts" using arg_cong [OF D(10), of set_mset] by simp
  show "\<exists>b G. XJSON_GetObject M (Some a) k = Some (Some b) \<and> G \<subseteq> F - {a} \<and> rep (jm_heap M) b (Some k) v G" if kv: "(k, v) \<in> set kvs"
  proof -
    from kv sk obtain t where t: "t \<in> set ts" "k = the (nam t)" "v = val t" by auto
    then have "(k, Some (addr t)) \<in> set (used_pairs d)" unfolding D(6) by force
    then have "mp_map m k = Some (Some (addr t))" using U by simp
    moreover obtain G where "G \<subseteq> F1" "rep (jm_heap M) (addr t) (nam t) v G" using reps_pick [OF D(8) t(1)] t(3) by auto
    moreover have "nam t = Some k" using D(7) t(1,2) by auto
    ultimately show ?thesis using get D(9,11) by (intro exI [of _ "addr t"] exI [of _ G]) auto
  qed
  show "XJSON_GetObject M (Some a) k = Some None" if k: "k \<notin> fst ` set kvs"
  proof -
    have "k \<notin> fst ` set (used_pairs d)" using k unfolding sk D(6) by (auto simp: image_image)
    then have "mp_map m k = None" using U by (simp add: map_of_eq_None_iff)
    then show ?thesis using get by simp
  qed
qed

lemma reps_nth_pick: "reps h ts F \<Longrightarrow> i < length ts \<Longrightarrow> nam (ts ! i) = None \<Longrightarrow> \<exists>G \<subseteq> F. rep h (addr (ts ! i)) None (val (ts ! i)) G"
  using reps_pick [of h ts F "ts ! i"] by auto

lemma array_parts:
  assumes "rep h a nm (JArr vs) F"
  obtains ob r ts F1 where "h a = Some ob" "ob_pName ob = nm" "ob_nType ob = XJSON_TYPE_ARRAY" "ob_pData ob = Arr r" "arr_ok r"
    "ar_rep r (map (\<lambda>t. Some (arr_entry (addr t))) ts)" "\<forall>t \<in> set ts. nam t = None" "reps h ts F1" "a \<notin> F1" "vs = map val ts"
    "F = insert a F1"
  using assms by (auto elim!: rep_JArr)

lemma GetArrayItem_at:
  assumes "jm_heap M a = Some ob" "ob_nType ob = XJSON_TYPE_ARRAY" "ob_pData ob = Arr r" "arr_ok r"
    "ar_rep r (map (\<lambda>t. Some (arr_entry (addr t))) ts)"
  shows "XJSON_GetArrayItem M (Some a) i = Some (if i < length ts then Some (addr (ts ! i)) else None)"
    "XJSON_GetArrayLength M (Some a) = Some (length ts)"
proof -
  have "ar_pData r \<noteq> None" using assms(4) by (simp add: arr_ok_def)
  from Get_rep [OF assms(5) this, of i] assms(1-3)
  show "XJSON_GetArrayItem M (Some a) i = Some (if i < length ts then Some (addr (ts ! i)) else None)"
    by (simp add: XJSON_GetArrayItem_def XJSON_CheckObject_def the_arr_def XArray_GetData_def arr_entry_def)
  show "XJSON_GetArrayLength M (Some a) = Some (length ts)"
    using assms(1-3,5) by (simp add: XJSON_GetArrayLength_def XJSON_CheckObject_def the_arr_def XArray_Used_def ar_rep_def)
qed

section \<open>Removing an item\<close>

lemma Realloc_shrinks:
  "XArray_Realloc m a = Some (a', n) \<Longrightarrow> ar_pData a \<noteq> None \<Longrightarrow> ar_nUsed a < ar_nSize a \<Longrightarrow>
   ar_pData a' \<noteq> None \<and> ar_nSize a' \<le> ar_nSize a \<and> 0 < ar_nSize a'"
  unfolding XArray_Realloc_def Let_def by (simp split: if_splits option.splits bind_splits) auto

lemma Remove_keeps:
  assumes r: "XArray_Remove m r i = Some (r', e)" "arr_ok r" "ar_rep r xs" "i < length xs"
  shows "arr_ok r'"
proof (cases "XArray_Get r i = Some None")
  case True
  with r show ?thesis by (auto simp: XArray_Remove_def)
next
  case False
  have u: "0 < ar_nUsed r" "ar_nUsed r \<le> ar_nSize r" "ar_nSize r < 2 ^ 28" using r(2-4) by (auto simp: ar_rep_def arr_ok_def)
  then have "sz (ar_nUsed r + 2 ^ 64 - 1) = ar_nUsed r - 1" by (intro sz_pred) auto
  with False r(1) obtain d k where "XArray_Realloc m (r\<lparr>ar_pData := Some d, ar_nUsed := ar_nUsed r - 1\<rparr>) = Some (r', k)"
    by (auto simp: XArray_Remove_def close_gap_def split: bind_splits if_splits)
  note K = Realloc_keeps [OF this] Realloc_shrinks [OF this]
  have "ar_nUsed r - 1 < ar_nSize r" using u by linarith
  with K u r(2) show ?thesis by (auto simp: arr_ok_def)
qed

lemma mset_drop_nth: "i < length xs \<Longrightarrow> mset (take i xs @ drop (Suc i) xs) = mset (remove1 (xs ! i) xs)"
  by (metis add_mset_remove_trivial append_take_drop_id id_take_nth_drop mset.simps(2) mset_append mset_remove1 union_mset_add_mset_right)

lemma RemoveArrayItem_rep:
  assumes M: "jm_wf M" and a: "rep (jm_heap M) a nm (JArr vs) F" and i: "i < length vs"
  shows "\<exists>M' G H. XJSON_RemoveArrayItem M (Some a) i = Some M' \<and> jm_wf M' \<and> F = G \<union> H \<and> G \<inter> H = {} \<and> jm_step M F M' \<and>
    rep (jm_heap M') a nm (JArr (take i vs @ drop (Suc i) vs)) H \<and> (\<forall>x \<in> G. jm_heap M' x = None)"
proof -
  from a obtain ob r ts F1 where D: "jm_heap M a = Some ob" "ob_pName ob = nm" "ob_nType ob = XJSON_TYPE_ARRAY" "ob_pData ob = Arr r" "arr_ok r"
    "ar_rep r (map (\<lambda>t. Some (arr_entry (addr t))) ts)" "\<forall>t \<in> set ts. nam t = None" "reps (jm_heap M) ts F1" "a \<notin> F1" "vs = map val ts"
    "F = insert a F1" by (rule array_parts)
  let ?ts = "take i ts @ drop (Suc i) ts" and ?xs = "map (\<lambda>t. Some (arr_entry (addr t))) ts" and ?t = "jm_tick M"
  have il: "i < length ts" using i D(10) by simp
  from reps_remove [OF D(8), of "ts ! i"] il obtain G H where G: "F1 = G \<union> H" "G \<inter> H = {}" "rep (jm_heap M) (addr (ts ! i)) (nam (ts ! i)) (val (ts ! i)) G"
    "reps (jm_heap M) (remove1 (ts ! i) ts) H" by auto
  have H: "reps (jm_heap M) ?ts H" by (rule reps_perm [OF G(4)]) (rule mset_drop_nth [OF il])
  have s: "ar_nSize r < 2 ^ 28" using D(5) by (simp add: arr_ok_def)
  from Remove_rep [OF cells_spec [of M ?t] D(6) s, of i "arr_entry (addr (ts ! i))"] il obtain r' where
    r: "XArray_Remove (cells M ?t) r i = Some (r', Some (arr_entry (addr (ts ! i))))" "ar_rep r' (take i ?xs @ drop (Suc i) ?xs)" by auto
  have ok: "arr_ok r'" using Remove_keeps [OF r(1) D(5,6)] il by simp
  define S where "S = store (M\<lparr>jm_tick := ?t + 1\<rparr>) a (ob\<lparr>ob_pData := Arr r'\<rparr>)"
  have S: "jm_wf S" "\<And>x. x \<noteq> a \<Longrightarrow> jm_heap S x = jm_heap M x" "jm_heap S a = Some (ob\<lparr>ob_pData := Arr r'\<rparr>)" "jm_step M {a} S"
    using M D(1) by (auto simp: S_def jm_wf_def store_def jm_step_def intro: less_SucI)
  have aG: "a \<notin> G" "a \<notin> H" using D(9) G(1) by auto
  have "rep (jm_heap S) (addr (ts ! i)) (nam (ts ! i)) (val (ts ! i)) G" by (rule rep_frame(1) [OF G(3)]) (rule S(2), use aG in auto)
  note fr = FreeObject_rep [OF S(1) this]
  have ev: "XJSON_RemoveArrayItem M (Some a) i = Some (wipe S G)"
    using D(1,4) il r(1) fr(1) by (simp add: XJSON_RemoveArrayItem_def GetArrayItem_at [OF D(1,3,4,5,6)] the_arr_def Let_def S_def)
  have "reps (jm_heap (wipe S G)) ?ts H"
  proof (rule rep_frame(2) [OF H])
    fix x assume "x \<in> H"
    then have "x \<noteq> a" "x \<notin> G" using aG G(2) by auto
    then show "jm_heap (wipe S G) x = jm_heap M x" using S(2) by simp
  qed
  then have "rep (jm_heap (wipe S G)) a nm (JArr (map val ?ts)) (insert a H)"
    using S(3) aG D(2,3) ok r(2) D(7) by (intro rep_arr [where ob = "ob\<lparr>ob_pData := Arr r'\<rparr>" and r = r'])
      (auto simp: take_map drop_map dest: in_set_takeD in_set_dropD)
  then have new: "rep (jm_heap (wipe S G)) a nm (JArr (take i vs @ drop (Suc i) vs)) (insert a H)" by (simp add: D(10) take_map drop_map)
  have st: "jm_step M F (wipe S G)" using S(4,2) D(11) G(1) by (auto simp: jm_step_def wipe_def)
  show ?thesis
    by (intro exI [of _ "wipe S G"] exI [of _ G] exI [of _ "insert a H"]) (use ev fr(2) st new D(11) G(1,2) aG in auto)
qed

section \<open>Numbers\<close>

definition dec_digit :: "byte \<Rightarrow> bool" where
  "dec_digit c \<longleftrightarrow> 48 \<le> c \<and> c \<le> 57"

lemma of_nat_digit: "k < 10 \<Longrightarrow> unat (48 + of_nat k :: byte) = 48 + k"
  by (simp add: unat_word_ariths unat_of_nat)

lemma dec_digit_of_nat: "k < 10 \<Longrightarrow> dec_digit (48 + of_nat k)" "k < 10 \<Longrightarrow> c_digit (48 + of_nat k) = Some k"
  by (simp_all add: dec_digit_def c_digit_def word_le_nat_alt of_nat_digit)

lemma dec_digit_value: "dec_digit c \<Longrightarrow> \<exists>k < 10. c_digit c = Some k"
  by (auto simp: dec_digit_def c_digit_def word_le_nat_alt)

lemma c_value_snoc: "list_all dec_digit s \<Longrightarrow> k < 10 \<Longrightarrow> c_value 10 acc (s @ [48 + of_nat k]) = c_value 10 acc s * 10 + k"
  by (induction s arbitrary: acc) (auto simp: dec_digit_of_nat dest!: dec_digit_value)

lemma dec_text_digits: "list_all dec_digit (dec_text n)"
  by (induction n rule: dec_text.induct) (subst dec_text.simps, simp add: dec_digit_of_nat)

lemma c_value_dec: "c_value 10 0 (dec_text n) = n"
proof (induction n rule: dec_text.induct)
  case (1 n)
  show ?case
  proof (cases "n < 10")
    case True
    then show ?thesis by (subst dec_text.simps) (simp add: dec_digit_of_nat)
  next
    case False
    with 1 c_value_snoc [OF dec_text_digits, of "n mod 10" 0 "n div 10"] show ?thesis by (subst dec_text.simps) simp
  qed
qed

lemma dec_text_hd: "0 < n \<Longrightarrow> \<exists>c w. dec_text n = c # w \<and> dec_digit c \<and> c \<noteq> 48"
proof (induction n rule: dec_text.induct)
  case (1 n)
  show ?case
  proof (cases "n < 10")
    case True
    have "(48 + of_nat n :: byte) \<noteq> 48"
    proof
      assume "(48 + of_nat n :: byte) = 48"
      then have "unat (48 + of_nat n :: byte) = 48" by simp
      with of_nat_digit [OF True] 1(2) show False by simp
    qed
    with True show ?thesis by (subst dec_text.simps) (simp add: dec_digit_of_nat)
  next
    case False
    then have "0 < n div 10" by simp
    with 1(1) False obtain c w where "dec_text (n div 10) = c # w" "dec_digit c" "c \<noteq> 48" by blast
    with False show ?thesis by (subst dec_text.simps) simp
  qed
qed

lemma dec_text_0: "dec_text 0 = [48]"
  by (subst dec_text.simps) simp

lemma dec_digit_facts: "dec_digit c \<Longrightarrow> \<not> c_space c \<and> c \<noteq> 45 \<and> c \<noteq> 43"
  by (auto simp: dec_digit_def c_space_def word_le_nat_alt)

lemma c_sign_dec: "c_sign (dec_text n) = (False, dec_text n)"
proof (cases "n = 0")
  case True
  then show ?thesis by (simp add: dec_text_0 c_sign_def c_space_def)
next
  case False
  then obtain c w where "dec_text n = c # w" "dec_digit c" using dec_text_hd [of n] by auto
  then show ?thesis using dec_digit_facts [of c] by (simp add: c_sign_def)
qed

lemma c_sign_neg: "c_sign (45 # w) = (True, w)"
  by (simp add: c_sign_def c_space_def)

lemma strtoull0_dec: "n < 2 ^ 64 \<Longrightarrow> strtoull0 (dec_text n) = of_nat n"
proof (cases "n = 0")
  case True
  then show ?thesis by (simp add: strtoull0_def dec_text_0 c_sign_def c_space_def c_digit_def)
next
  case False
  assume n: "n < 2 ^ 64"
  from False obtain c w where c: "dec_text n = c # w" "c \<noteq> 48" using dec_text_hd [of n] by auto
  have "(case dec_text n of c # d # e # w' \<Rightarrow> if c = 48 \<and> (d = 120 \<or> d = 88) \<and> (case c_digit e of Some k \<Rightarrow> k < 16 | None \<Rightarrow> False)
      then c_value 16 0 (e # w') else if c = 48 then c_value 8 0 (dec_text n) else c_value 10 0 (dec_text n)
    | c # _ \<Rightarrow> if c = 48 then c_value 8 0 (dec_text n) else c_value 10 0 (dec_text n) | [] \<Rightarrow> 0) = n"
    unfolding c(1) using c(2) c_value_dec [of n, unfolded c(1)] by (simp split: list.split)
  then show ?thesis using n unfolding strtoull0_def c_sign_dec by simp
qed

lemma atol_dec: "n < 2 ^ 63 \<Longrightarrow> atol (dec_text n) = Some (int n)"
proof -
  assume "n < 2 ^ 63"
  then have "int n < 2 ^ 63" by (metis of_nat_less_iff of_nat_numeral of_nat_power)
  moreover have "- (2 ^ 63) \<le> int n" by simp
  ultimately show ?thesis by (simp add: atol_def c_sign_dec c_value_dec)
qed

lemma atoi_int: "- (2 ^ 31) \<le> i \<Longrightarrow> i < 2 ^ 31 \<Longrightarrow> atoi (int_text i) = Some i"
  by (auto simp: atoi_def atol_def int_text_def c_sign_dec c_sign_neg c_value_dec)

text \<open>A text of at most 63 bytes is kept whole by the constructors of numbers.\<close>

lemma dec_text_length: "n < 10 ^ k \<Longrightarrow> 0 < k \<Longrightarrow> length (dec_text n) \<le> k"
proof (induction k arbitrary: n)
  case (Suc k)
  show ?case
  proof (cases "n < 10")
    case True
    then show ?thesis by (subst dec_text.simps) simp
  next
    case False
    with Suc.prems have "n div 10 < 10 ^ k" by (simp add: less_mult_imp_div_less mult.commute)
    moreover have "0 < k" using False Suc.prems by (cases k) auto
    ultimately have "length (dec_text (n div 10)) \<le> k" by (rule Suc.IH)
    with False show ?thesis by (subst dec_text.simps) simp
  qed
qed simp

lemma dec_text_fits: "n < 2 ^ 64 \<Longrightarrow> length (dec_text n) \<le> 62"
  using dec_text_length [of n 20] by simp

lemma new_text_made:
  assumes "jm_wf M" "new_text M nm n s t = (M', p)" "length s < n" "t \<noteq> XJSON_TYPE_OBJECT" "t \<noteq> XJSON_TYPE_ARRAY"
  shows "made M nm (JText t s) M' p"
proof -
  let ?M = "M\<lparr>jm_tick := Suc (jm_tick M)\<rparr>"
  have w: "jm_wf ?M" using jm_wf_tick [OF assms(1)] by simp
  have st: "jm_step M {} ?M" by (simp add: jm_step_def)
  show ?thesis
  proof (cases "jm_ok M (jm_tick M) n")
    case False
    then show ?thesis using assms(2) w st by (auto simp: new_text_def jalloc_def Let_def made_def scarce_def)
  next
    case True
    then have "XJSON_CreateObject ?M nm (Text s) t = (M', p)" using assms(2,3) by (simp add: new_text_def jalloc_def Let_def)
    from made_text [OF w this assms(4,5)] jm_step_trans [OF st] show ?thesis
      by (fastforce simp: made_def scarce_step [OF st] split: option.splits)
  qed
qed

lemma get_scalar_rep: "rep (jm_heap M) a nm (JText t s) F \<Longrightarrow> get_scalar M (Some a) t d conv = conv s"
  by (auto simp: get_scalar_def XJSON_CheckObject_def the_text_def elim!: rep_JText)

lemmas new_number_defs = XJSON_NewU64_def XJSON_NewU32_def XJSON_NewU16_def XJSON_NewInt_def XJSON_NewString_def XJSON_NewBool_def

lemma word_bounds: "unat (v64 :: u64) < 2 ^ 64" "unat (v32 :: u32) < 2 ^ 63" "unat (v16 :: u16) < 2 ^ 63"
  "- (2 ^ 31) \<le> sint (i :: 32 word)" "sint (i :: 32 word) < 2 ^ 31"
  using unsigned_less [of v64, where 'a = nat] unsigned_less [of v32, where 'a = nat] unsigned_less [of v16, where 'a = nat] sint_greater_eq [of i] sint_less [of i] by simp_all

lemma int_text_fits: "length (int_text (sint (i :: 32 word))) < 64"
proof -
  have "nat (- sint i) < 2 ^ 64" "nat (sint i) < 2 ^ 64" using word_bounds(4,5) [of i] by simp_all
  from dec_text_fits [OF this(1)] dec_text_fits [OF this(2)] show ?thesis by (simp add: int_text_def)
qed

text \<open>What a getter reads from the text a constructor writes.\<close>

lemma number_texts:
  fixes v64 :: u64 and v32 :: u32 and v16 :: u16 and i :: "32 word"
  shows "length (dec_text (unat v64)) < 64" "length (dec_text (unat v32)) < 64" "length (dec_text (unat v16)) < 64"
    "strtoull0 (dec_text (unat v64)) = v64" "atol (dec_text (unat v32)) = Some (uint v32)" "atol (dec_text (unat v16)) = Some (uint v16)"
    "atoi (int_text (sint i)) = Some (sint i)"
proof -
  show "length (dec_text (unat v64)) < 64" using dec_text_fits [of "unat v64"] word_bounds(1) [of v64] by simp
  show "length (dec_text (unat v32)) < 64" using dec_text_fits [of "unat v32"] word_bounds(2) [of v32] by simp
  show "length (dec_text (unat v16)) < 64" using dec_text_fits [of "unat v16"] word_bounds(3) [of v16] by simp
  show "strtoull0 (dec_text (unat v64)) = v64" using strtoull0_dec [OF word_bounds(1), of v64] by simp
  show "atol (dec_text (unat v32)) = Some (uint v32)" using atol_dec [OF word_bounds(2), of v32] by simp
  show "atol (dec_text (unat v16)) = Some (uint v16)" using atol_dec [OF word_bounds(3), of v16] by simp
  show "atoi (int_text (sint i)) = Some (sint i)" using atoi_int [OF word_bounds(4,5)] .
qed

lemma new_text_get:
  assumes "jm_wf M" "length s < n" "t \<noteq> XJSON_TYPE_OBJECT" "t \<noteq> XJSON_TYPE_ARRAY" "conv s = r"
  shows "case new_text M nm n s t of (M', p) \<Rightarrow> p \<noteq> None \<longrightarrow> get_scalar M' p t d conv = r"
proof (cases "new_text M nm n s t")
  case (Pair M' p)
  from new_text_made [OF assms(1) Pair assms(2-4)] Pair assms(5) show ?thesis by (auto simp: made_def get_scalar_rep split: option.splits)
qed

section \<open>Properties\<close>

text \<open>
  C8: What a constructor of scalars stores, the getter for its type reads back: unsigned numbers of 64, 32 and 16 bits,
  \<open>int\<close>, strings and booleans. The text is never cut: 64 bytes are enough for every number.
\<close>

theorem json_scalar_roundtrip:
  fixes v64 :: u64 and v32 :: u32 and v16 :: u16 and i :: "32 word"
  assumes "jm_wf M"
  shows "(case XJSON_NewU64 M nm v64 of (M', p) \<Rightarrow> p \<noteq> None \<longrightarrow> XJSON_GetU64 M' p = Some v64) \<and>
    (case XJSON_NewU32 M nm v32 of (M', p) \<Rightarrow> p \<noteq> None \<longrightarrow> XJSON_GetU32 M' p = Some v32) \<and>
    (case XJSON_NewU16 M nm v16 of (M', p) \<Rightarrow> p \<noteq> None \<longrightarrow> XJSON_GetU16 M' p = Some v16) \<and>
    (case XJSON_NewInt M nm i of (M', p) \<Rightarrow> p \<noteq> None \<longrightarrow> XJSON_GetInt M' p = Some i) \<and>
    (case XJSON_NewString M nm (Some s) of (M', p) \<Rightarrow> p \<noteq> None \<longrightarrow> XJSON_GetString M' p = Some s) \<and>
    (case XJSON_NewBool M nm b of (M', p) \<Rightarrow> p \<noteq> None \<longrightarrow> XJSON_GetBool M' p = Some b)"
proof -
  have "case new_text M nm 64 (dec_text (unat v64)) XJSON_TYPE_NUMBER of (M', p) \<Rightarrow> p \<noteq> None \<longrightarrow> XJSON_GetU64 M' p = Some v64"
    unfolding XJSON_GetU64_def by (rule new_text_get [OF assms]) (simp_all add: number_texts int_text_fits)
  moreover have "case new_text M nm 64 (dec_text (unat v32)) XJSON_TYPE_NUMBER of (M', p) \<Rightarrow> p \<noteq> None \<longrightarrow> XJSON_GetU32 M' p = Some v32"
    unfolding XJSON_GetU32_def by (rule new_text_get [OF assms]) (simp_all add: number_texts int_text_fits)
  moreover have "case new_text M nm 64 (dec_text (unat v16)) XJSON_TYPE_NUMBER of (M', p) \<Rightarrow> p \<noteq> None \<longrightarrow> XJSON_GetU16 M' p = Some v16"
    unfolding XJSON_GetU16_def by (rule new_text_get [OF assms]) (simp_all add: number_texts int_text_fits)
  moreover have "case new_text M nm 64 (int_text (sint i)) XJSON_TYPE_NUMBER of (M', p) \<Rightarrow> p \<noteq> None \<longrightarrow> XJSON_GetInt M' p = Some i"
    unfolding XJSON_GetInt_def by (rule new_text_get [OF assms]) (simp_all add: number_texts int_text_fits)
  moreover have "case new_text M nm (length s + 1) s XJSON_TYPE_STRING of (M', p) \<Rightarrow> p \<noteq> None \<longrightarrow> XJSON_GetString M' p = Some s"
    unfolding XJSON_GetString_def by (rule new_text_get [OF assms]) (simp_all add: number_texts int_text_fits)
  moreover have "case new_text M nm 6 (if b then [116, 114, 117, 101] else [102, 97, 108, 115, 101]) XJSON_TYPE_BOOLEAN of (M', p) \<Rightarrow>
      p \<noteq> None \<longrightarrow> XJSON_GetBool M' p = Some b"
    unfolding XJSON_GetBool_def by (rule new_text_get [OF assms]) (simp_all add: number_texts int_text_fits)
  ultimately show ?thesis by (simp add: new_number_defs)
qed

lemma json_scalar_roundtrip_witness:
  "\<exists>M' p. XJSON_NewU64 full_array None 18446744073709551615 = (M', Some p) \<and> XJSON_GetU64 M' (Some p) = Some 18446744073709551615"
proof -
  have "jm_wf full_array" by (auto simp: full_array_def Let_def jm_wf_def)
  from json_scalar_roundtrip [OF this, where nm = None and ?v64.0 = 18446744073709551615] show ?thesis
    by (auto simp: XJSON_NewU64_def new_text_def jalloc_def XJSON_CreateObject_def Let_def full_array_def)
qed

text \<open>
  C9: A document is read back as it stands: a member by its name gives the object with its value and NULL when there is
  no such name, names are distinct, an item by its index gives the item there and NULL past the end, the length is the number of items.
\<close>

theorem json_lookup:
  assumes "rep (jm_heap M) a nm v F"
  shows "case v of
      JObj kvs \<Rightarrow> distinct (map fst kvs) \<and> XJSON_GetArrayLength M (Some a) = Some 0 \<and>
        (\<exists>p. XJSON_GetObject M (Some a) k = Some p \<and>
          (case map_of kvs k of None \<Rightarrow> p = None | Some x \<Rightarrow> \<exists>b G. p = Some b \<and> G \<subseteq> F - {a} \<and> rep (jm_heap M) b (Some k) x G))
    | JArr vs \<Rightarrow> XJSON_GetObject M (Some a) k = Some None \<and> XJSON_GetArrayLength M (Some a) = Some (length vs) \<and>
        (\<exists>p. XJSON_GetArrayItem M (Some a) i = Some p \<and>
          (if i < length vs then \<exists>b G. p = Some b \<and> G \<subseteq> F - {a} \<and> rep (jm_heap M) b None (vs ! i) G else p = None))
    | JText t s \<Rightarrow> XJSON_GetObject M (Some a) k = Some None \<and> XJSON_GetArrayItem M (Some a) i = Some None \<and>
        XJSON_GetArrayLength M (Some a) = Some 0"
proof (cases v)
  case (JObj kvs)
  note G = GetObject_rep [OF assms [unfolded JObj]]
  have l: "XJSON_GetArrayLength M (Some a) = Some 0"
    using assms unfolding JObj by (auto simp: XJSON_GetArrayLength_def XJSON_CheckObject_def elim!: rep_JObj)
  show ?thesis
  proof (cases "map_of kvs k")
    case None
    then have "k \<notin> fst ` set kvs" by (simp add: map_of_eq_None_iff)
    with None G(1) G(3) [of k] l JObj show ?thesis by simp
  next
    case (Some x)
    with G(2) [OF map_of_SomeD [OF Some]] G(1) l JObj show ?thesis by auto
  qed
next
  case (JArr vs)
  from assms [unfolded JArr] obtain ob r ts F1 where D: "jm_heap M a = Some ob" "ob_pName ob = nm" "ob_nType ob = XJSON_TYPE_ARRAY"
    "ob_pData ob = Arr r" "arr_ok r" "ar_rep r (map (\<lambda>t. Some (arr_entry (addr t))) ts)" "\<forall>t \<in> set ts. nam t = None"
    "reps (jm_heap M) ts F1" "a \<notin> F1" "vs = map val ts" "F = insert a F1" by (rule array_parts)
  note A = GetArrayItem_at [OF D(1,3-6)]
  have o: "XJSON_GetObject M (Some a) k = Some None" using D(1,3) by (simp add: XJSON_GetObject_def XJSON_CheckObject_def)
  show ?thesis
  proof (cases "i < length ts")
    case False
    with A o JArr D(10) show ?thesis by simp
  next
    case True
    then have "nam (ts ! i) = None" using D(7) by simp
    from reps_nth_pick [OF D(8) True this] obtain G where "G \<subseteq> F1" "rep (jm_heap M) (addr (ts ! i)) None (val (ts ! i)) G" by blast
    with A o JArr D(9-11) True show ?thesis by auto
  qed
next
  case (JText t s)
  with assms show ?thesis
    by (auto simp: XJSON_GetObject_def XJSON_GetArrayItem_def XJSON_GetArrayLength_def XJSON_CheckObject_def elim!: rep_JText)
qed

lemma json_lookup_witness: "XJSON_GetObject full_array (Some 2) [65] = Some None"
  using json_lookup [OF full_array_rep, of "[65]" 0] by simp

text \<open>
  C10: Removing an item of an array takes out that item and keeps the others in order; its objects are released, once each, and
  no other object changes. An index past the end changes nothing.
\<close>

theorem json_remove_item:
  assumes "jm_wf M" "rep (jm_heap M) a nm (JArr vs) F"
  shows "\<exists>M' G H. XJSON_RemoveArrayItem M (Some a) i = Some M' \<and> jm_wf M' \<and> F = G \<union> H \<and> G \<inter> H = {} \<and>
    rep (jm_heap M') a nm (JArr (take i vs @ drop (Suc i) vs)) H \<and> (\<forall>x \<in> G. jm_heap M' x = None) \<and>
    (\<forall>x. x \<notin> F \<longrightarrow> jm_heap M' x = jm_heap M x)"
proof (cases "i < length vs")
  case True
  from RemoveArrayItem_rep [OF assms True] obtain M' G H where R: "XJSON_RemoveArrayItem M (Some a) i = Some M'" "jm_wf M'"
    "F = G \<union> H" "G \<inter> H = {}" "jm_step M F M'" "rep (jm_heap M') a nm (JArr (take i vs @ drop (Suc i) vs)) H"
    "\<forall>x \<in> G. jm_heap M' x = None" by blast
  from R(5) have "\<forall>x. x \<notin> F \<longrightarrow> jm_heap M' x = jm_heap M x" by (simp add: jm_step_def)
  with R show ?thesis by (intro exI [of _ M'] exI [of _ G] exI [of _ H]) simp
next
  case False
  from assms(2) obtain ob r ts F1 where D: "jm_heap M a = Some ob" "ob_pName ob = nm" "ob_nType ob = XJSON_TYPE_ARRAY"
    "ob_pData ob = Arr r" "arr_ok r" "ar_rep r (map (\<lambda>t. Some (arr_entry (addr t))) ts)" "\<forall>t \<in> set ts. nam t = None"
    "reps (jm_heap M) ts F1" "a \<notin> F1" "vs = map val ts" "F = insert a F1" by (rule array_parts)
  from False have "XJSON_RemoveArrayItem M (Some a) i = Some M"
    using GetArrayItem_at(1) [OF D(1,3-6), of i] D(10) by (simp add: XJSON_RemoveArrayItem_def)
  with False assms show ?thesis by (intro exI [of _ M] exI [of _ "{}"] exI [of _ F]) simp
qed

definition one_array :: jmem where
  "one_array = full_array\<lparr>jm_heap := (jm_heap full_array)(2 := None)\<rparr>"

lemma one_array_rep: "jm_wf one_array" "rep (jm_heap one_array) 0 None (JArr [JText XJSON_TYPE_NULL []]) {0, 1}"
proof -
  let ?r = "blank_array\<lparr>ar_pData := Some [Some (arr_entry 1)], ar_clearCb := True, ar_nSize := 1, ar_nUsed := 1\<rparr>"
  show "jm_wf one_array" by (auto simp: one_array_def full_array_def Let_def jm_wf_def)
  have "rep (jm_heap one_array) 1 None (JText XJSON_TYPE_NULL []) {1}"
    by (rule rep_text [of _ _ "the (jm_heap full_array 1)"]) (simp_all add: one_array_def full_array_def Let_def)
  from reps_cons [OF this reps_nil] have "reps (jm_heap one_array) [(1, None, JText XJSON_TYPE_NULL [])] {1}" by simp
  note R = rep_arr [of "jm_heap one_array" 0 "the (jm_heap one_array 0)" None ?r, OF _ _ _ _ _ _ _ this]
  show "rep (jm_heap one_array) 0 None (JArr [JText XJSON_TYPE_NULL []]) {0, 1}"
    using R by (simp add: one_array_def full_array_def Let_def arr_ok_def ar_rep_def)
qed

lemma json_remove_item_witness: "\<exists>M' H. XJSON_RemoveArrayItem one_array (Some 0) 0 = Some M' \<and> rep (jm_heap M') 0 None (JArr []) H"
  using json_remove_item [OF one_array_rep, of 0] by auto

end
