(* ===== verification/Spec2Isabelle.thy ===== *)
theory Spec2Isabelle
  imports Buf DataBuf RingBuf Pool XArray ArraySort XMap Base64 Ws Sha256 Md5 Hmac Sha1 Crc32 XList XHash AesModes JsonGet
begin

text \<open>
  Verification of libxutils, a C library of containers, cryptographic primitives and network
  protocol helpers (\<open>src/src\<close>). The library is used as a set of modules: the containers under
  \<open>data\<close> and the pool under \<open>sys\<close> hold memory for the rest; the primitives under \<open>crypt\<close> are
  functions on byte strings; the protocol modules under \<open>net\<close> build and take apart messages in
  byte buffers.

  \<^bold>\<open>Parts and theories.\<close>
  \<^item> \<open>Prelude\<close>: C integers, casts, raw blocks, the allocators, the status codes of \<open>xdef.h\<close>.
    \<open>Bytes\<close>: network and little-endian byte order. \<open>Dict\<close>: the locale \<open>dict\<close>, the contract of a
    mutable dictionary whose insertions may be refused, interpreted by the hash map.
  \<^item> \<open>Buf\<close>, \<open>DataBuf\<close>, \<open>RingBuf\<close>: the three buffers of \<open>data/buf.c\<close>. The byte buffer is a block with
    \<open>nUsed\<close> and \<open>nSize\<close>; its lemmas show what every operation does to the content for every
    behaviour of the allocator. The ring is a client of the byte buffer and refines a bounded queue,
    but for its last entry.
  \<^item> \<open>Pool\<close>: \<open>sys/pool.c\<close>, a chain of chunks. The invariant of all histories is that the held blocks
    are aligned, readable and disjoint.
  \<^item> \<open>XArray\<close>, \<open>ArraySort\<close>: \<open>data/array.c\<close>. The representation predicate \<open>ar_rep\<close> gives the entries of
    a table; sorting and the four searches run on the cells.
  \<^item> \<open>XMap\<close>: \<open>data/map.c\<close>, open addressing with tombstones; \<open>mp_wf\<close> is the invariant of the table,
    \<open>mp_map\<close> the finite map it stands for.
  \<^item> \<open>XList\<close>, \<open>XHash\<close>: \<open>data/list.c\<close> and \<open>data/hash.c\<close>, on nodes in an explicit heap; the hash table
    is a client of the list, and owns the pairs it takes.
  \<^item> \<open>JsonObj\<close>, \<open>JsonLex\<close>, \<open>JsonParse\<close>, \<open>JsonWrite\<close>, \<open>JsonGet\<close>: \<open>data/json.c\<close>. Objects live in an explicit heap, their members in
    the hash map and their items in the array of the theories above; \<open>rep\<close> says that the tree at an address stands for
    a value and owns its objects. \<open>JsonSound\<close> and \<open>JsonComplete\<close> give the grammar and show that the parser accepts
    it and nothing else, \<open>JsonRound\<close> that the writer gives a text with the same value.
  \<^item> \<open>Base64\<close>, \<open>Crc32\<close>, \<open>Md5\<close> (with \<open>Sine\<close> for its table), \<open>Sha1\<close>, \<open>Sha256\<close> (on \<open>MdHash\<close>), \<open>Hmac\<close> (on the digests and Base64), \<open>Aes\<close>,
    \<open>AesModes\<close>: the codes of \<open>crypt\<close>, each proved equal to a reference definition written from its
    standard (RFC 4648, RFC 1321, RFC 2104, FIPS 180-4, FIPS 197, RFC 5297), and the exact
    conditions under which the code departs from it. The modes are proved in the locale
    \<open>block_cipher\<close> and interpreted on the AES block functions.
  \<^item> \<open>Ws\<close>: \<open>net/ws.c\<close>, WebSocket frames in a byte buffer, with the RFC 6455 frame as reference.

  \<^bold>\<open>Correspondence.\<close> A definition has the name of the C function or type it models; helpers for loops
  are named after the loop and stand before the function. Structures are records whose fields carry
  a short prefix and the C field name. A function returns \<^term>\<open>None\<close> exactly when the code would
  read or write outside a block, through a NULL or freed pointer, or would not return; otherwise
  \<^term>\<open>Some\<close> of the new state and the C result. Memory is requested from an allocator given as an
  argument (a function of the size, or the answer itself), so that a theorem holds for every pattern
  of failed allocations it does not exclude. A NULL check on the receiver is the case \<^term>\<open>None\<close> of the
  caller and not repeated in each definition.

  \<^bold>\<open>Bounds and fuel.\<close> Sizes are natural numbers reduced modulo \<open>2 ^ 64\<close> where the C expression can wrap;
  \<open>uint32_t\<close> and \<open>int\<close> values are words or reduced explicitly. Loops are functions with a measure;
  the loops of \<open>data/map.c\<close> and the list walks that may not end are partial functions whose
  return is proved under the stated invariant.  The recursion of the JSON parser, writer and release runs on fuel: the length of the text is enough for the parser, the
  size of the value for the writer, and the number of objects ever made for the release, which the theorems show. Hypotheses such as \<open>nSize < 2 ^ 29\<close> keep the \<open>int\<close> results of
  the C functions from being truncated.

  \<^bold>\<open>Not modelled.\<close> Code that only calls the operating system or a third-party library: sockets, the
  event loop, API sessions, NTP exchange, file system, processes, threads, synchronisation, signals,
  monitoring, logging, terminal and OpenSSL wrappers (RSA). The functions that only hand a format to
  \<open>vsnprintf\<close>. The tools and examples, which are clients of the library.  Of JSON, the conversions between \<open>double\<close> and text are arguments.
\<close>

end
